(* ===== verification/Prelude.thy ===== *)
theory Prelude
  imports Complex_Main
begin

text \<open>
  Shared vocabulary of the development: how values of the JavaScript runtime are
  represented, and the generic lemmas the component theories use.

  \<^item> An optional property \<open>x?: T\<close> is an \<open>'a option\<close>, \<open>None\<close> for \<open>undefined\<close>; \<open>x ?? d\<close> is
    \<open>nullish x d\<close>.
  \<^item> A thrown error is the \<open>Inl\<close> side of a sum.
  \<^item> A number is an \<open>int\<close> or \<open>nat\<close> where the code only counts or indexes, a \<open>rat\<close> where it
    computes with fractions (rounding of doubles is not modelled), and a \<open>jsnum\<close> where
    the code tests for \<open>NaN\<close> or an infinity.
  \<^item> A timestamp string is a \<open>stamp\<close>: its text and what \<open>Date.parse\<close> makes of it, \<open>None\<close>
    for \<open>NaN\<close>.
  \<^item> A \<open>Map\<close> that is only looked up is a HOL map. Where its insertion order is observable
    it is an association list updated in place (\<open>omap_set\<close>), behind the interface
    \<open>ordered_map\<close>. A \<open>Set\<close> whose order is observable is a duplicate-free list
    (\<open>js_set_add\<close>).
\<close>

named_theorems js_simps "evaluation rules of the JavaScript values of the model"

subsection \<open>Optional values\<close>

fun nullish :: "'a option \<Rightarrow> 'a \<Rightarrow> 'a" where
  "nullish None d = d"
| "nullish (Some x) d = x"

lemma nullish_split [split]:
  "P (nullish x d) = ((x = None \<longrightarrow> P d) \<and> (\<forall>y. x = Some y \<longrightarrow> P y))"
  by (cases x) auto

text \<open>An optional string is truthy when it is present and not empty.\<close>

fun truthy :: "string option \<Rightarrow> bool" where
  "truthy None = False"
| "truthy (Some s) = (s \<noteq> [])"

lemma truthy_iff: "truthy x \<longleftrightarrow> (\<exists>s. x = Some s \<and> s \<noteq> [])"
  by (cases x) auto

subsection \<open>Numbers with the IEEE special values\<close>

datatype jsnum = Fin rat | NaN | PosInf | NegInf

fun is_finite :: "jsnum \<Rightarrow> bool" where
  "is_finite (Fin _) = True"
| "is_finite _ = False"

text \<open>\<open>a < b\<close> of the language: every comparison with \<open>NaN\<close> is false.\<close>

fun js_less :: "jsnum \<Rightarrow> jsnum \<Rightarrow> bool" where
  "js_less (Fin a) (Fin b) = (a < b)"
| "js_less (Fin _) PosInf = True"
| "js_less NegInf (Fin _) = True"
| "js_less NegInf PosInf = True"
| "js_less _ _ = False"

text \<open>\<open>Math.max(a, b)\<close>.\<close>

fun js_max :: "jsnum \<Rightarrow> jsnum \<Rightarrow> jsnum" where
  "js_max NaN b = NaN"
| "js_max a NaN = NaN"
| "js_max a b = (if js_less a b then b else a)"

lemma js_max_Fin [simp]: "js_max (Fin a) (Fin b) = Fin (max a b)"
  by (simp add: max_def)

definition trunc_rat :: "rat \<Rightarrow> int" where
  "trunc_rat r = (if 0 \<le> r then \<lfloor>r\<rfloor> else \<lceil>r\<rceil>)"

lemma trunc_rat_of_int [simp]: "trunc_rat (rat_of_int n) = n"
  by (simp add: trunc_rat_def)

subsection \<open>Timestamps\<close>

datatype stamp = Stamp (stamp_text: string) (stamp_ms: "int option")

text \<open>An optional timestamp is truthy when it is present and its text is not empty.\<close>

definition has_stamp :: "stamp option \<Rightarrow> bool" where
  "has_stamp x \<longleftrightarrow> truthy (map_option stamp_text x)"

lemma has_stamp_simps [simp]:
  "has_stamp None = False"
  "has_stamp (Some x) = (stamp_text x \<noteq> [])"
  by (simp_all add: has_stamp_def)

subsection \<open>Strings\<close>

text \<open>\<open>xs.join(sep)\<close>.\<close>

fun join :: "string \<Rightarrow> string list \<Rightarrow> string" where
  "join sep [] = []"
| "join sep [x] = x"
| "join sep (x # y # ys) = x @ sep @ join sep (y # ys)"

lemma join_Cons: "xs \<noteq> [] \<Longrightarrow> join sep (x # xs) = x @ sep @ join sep xs"
  by (cases xs) auto

lemma length_join:
  "xs \<noteq> [] \<Longrightarrow>
   length (join sep xs) = sum_list (map length xs) + length sep * (length xs - 1)"
  by (induction sep xs rule: join.induct) auto

text \<open>A string between single quotes, as the messages print names.\<close>

definition quoted :: "string \<Rightarrow> string" where
  "quoted s = CHR 0x27 # s @ [CHR 0x27]"

text \<open>Decimal digits of a natural number, as a template literal prints it.\<close>

definition digit_char :: "nat \<Rightarrow> char" where
  "digit_char d = char_of (48 + d)"

fun show_nat :: "nat \<Rightarrow> string" where
  "show_nat n = (if n < 10 then [digit_char n] else show_nat (n div 10) @ [digit_char (n mod 10)])"

declare show_nat.simps [simp del]

fun show_int :: "int \<Rightarrow> string" where
  "show_int i = (if i < 0 then CHR ''-'' # show_nat (nat (- i)) else show_nat (nat i))"

text \<open>
  Character classes of the regular expressions: \<open>\s\<close>, \<open>[0-9]\<close>, \<open>[a-zA-Z]\<close>. A character is one of the
  256 codes of \<open>char\<close>; of \<open>\s\<close> these are tab to carriage return, the space and the no-break
  space.
\<close>

definition char_in :: "nat \<Rightarrow> nat \<Rightarrow> char \<Rightarrow> bool" where
  "char_in a b c \<longleftrightarrow> a \<le> of_char c \<and> of_char c \<le> b"

definition js_space :: "char \<Rightarrow> bool" where
  "js_space c \<longleftrightarrow> char_in 9 13 c \<or> (of_char c :: nat) \<in> {32, 160}"

definition is_digit :: "char \<Rightarrow> bool" where
  "is_digit c \<longleftrightarrow> char_in 48 57 c"

definition is_letter :: "char \<Rightarrow> bool" where
  "is_letter c \<longleftrightarrow> char_in 65 90 c \<or> char_in 97 122 c"

text \<open>\<open>Number.parseInt(digits, 10)\<close> of a string of decimal digits.\<close>

definition digit_val :: "char \<Rightarrow> nat" where
  "digit_val c = of_char c - 48"

definition parse_digits :: "string \<Rightarrow> nat" where
  "parse_digits s = foldl (\<lambda>n c. 10 * n + digit_val c) 0 s"

lemma digit_char_val [simp]: "d < 10 \<Longrightarrow> digit_val (digit_char d) = d"
  by (simp add: digit_val_def digit_char_def)

lemma is_digit_char [simp]: "d < 10 \<Longrightarrow> is_digit (digit_char d)"
  by (simp add: is_digit_def char_in_def digit_char_def)

lemma show_nat_digits: "list_all is_digit (show_nat n) \<and> show_nat n \<noteq> []"
proof (induction n rule: show_nat.induct)
  case (1 n)
  then show ?case by (subst (1 2) show_nat.simps) auto
qed

lemma parse_show_nat: "parse_digits (show_nat n) = n"
proof (induction n rule: show_nat.induct)
  case (1 n)
  show ?case
  proof (cases "n < 10")
    case True
    then show ?thesis by (subst show_nat.simps) (simp add: parse_digits_def)
  next
    case False
    with 1 show ?thesis by (subst show_nat.simps) (simp add: parse_digits_def)
  qed
qed

subsection \<open>Maps\<close>

text \<open>
  \<open>new Map(entries)\<close>: a later entry with the same key replaces the value of an earlier one.
\<close>

definition js_map_of :: "('k \<times> 'v) list \<Rightarrow> 'k \<Rightarrow> 'v option" where
  "js_map_of kvs = map_of (rev kvs)"

lemma js_map_of_Nil [simp]: "js_map_of [] k = None"
  by (simp add: js_map_of_def)

lemma js_map_of_snoc [simp]: "js_map_of (kvs @ [(k, v)]) = (js_map_of kvs)(k \<mapsto> v)"
  by (simp add: js_map_of_def)

lemma js_map_of_SomeD: "js_map_of kvs k = Some v \<Longrightarrow> (k, v) \<in> set kvs"
  by (auto simp: js_map_of_def dest: map_of_SomeD)

lemma js_map_of_None_iff: "js_map_of kvs k = None \<longleftrightarrow> k \<notin> fst ` set kvs"
  by (simp add: js_map_of_def map_of_eq_None_iff)

lemma js_map_of_distinct:
  "distinct (map fst kvs) \<Longrightarrow> js_map_of kvs = map_of kvs"
  unfolding js_map_of_def by (rule map_of_inject_set [THEN iffD2]) (simp_all add: rev_map [symmetric])

lemma js_map_of_in:
  assumes "distinct (map fst kvs)" and "(k, v) \<in> set kvs"
  shows "js_map_of kvs k = Some v"
  using assms by (simp add: js_map_of_distinct)

text \<open>The index of a list of records by a key of theirs, \<open>new Map(xs.map((x) => [x.id, x]))\<close>.\<close>

definition index_by :: "('a \<Rightarrow> 'k) \<Rightarrow> 'a list \<Rightarrow> 'k \<Rightarrow> 'a option" where
  "index_by f xs = js_map_of (map (\<lambda>x. (f x, x)) xs)"

lemma index_by_SomeD: "index_by f xs k = Some x \<Longrightarrow> x \<in> set xs \<and> f x = k"
  by (auto simp: index_by_def dest!: js_map_of_SomeD)

lemma index_by_None_iff: "index_by f xs k = None \<longleftrightarrow> k \<notin> f ` set xs"
  by (auto simp: index_by_def js_map_of_None_iff image_image)

lemma index_by_in: "distinct (map f xs) \<Longrightarrow> x \<in> set xs \<Longrightarrow> index_by f xs (f x) = Some x"
  unfolding index_by_def by (rule js_map_of_in) (auto simp: comp_def)

lemma index_by_ex: "k \<in> f ` set xs \<Longrightarrow> \<exists>x. index_by f xs k = Some x"
  by (metis index_by_None_iff not_None_eq)

subsection \<open>Ordered sets and maps\<close>

definition js_set_add :: "'a \<Rightarrow> 'a list \<Rightarrow> 'a list" where
  "js_set_add x xs = (if x \<in> set xs then xs else xs @ [x])"

lemma set_js_set_add [simp]: "set (js_set_add x xs) = insert x (set xs)"
  by (auto simp: js_set_add_def)

lemma distinct_js_set_add [simp]: "distinct (js_set_add x xs) = distinct xs"
  by (auto simp: js_set_add_def)

lemma set_fold_js_set_add: "set (fold js_set_add xs ys) = set xs \<union> set ys"
  by (induction xs arbitrary: ys) auto

lemma fold_js_set_add_Nil: "fold js_set_add xs [] = [] \<longleftrightarrow> xs = []"
proof
  assume "fold js_set_add xs [] = []"
  then have "set (fold js_set_add xs []) = {}" by simp
  then show "xs = []" by (simp add: set_fold_js_set_add)
qed simp

fun omap_set :: "'k \<Rightarrow> 'v \<Rightarrow> ('k \<times> 'v) list \<Rightarrow> ('k \<times> 'v) list" where
  "omap_set k v [] = [(k, v)]"
| "omap_set k v ((k', v') # m) = (if k = k' then (k, v) # m else (k', v') # omap_set k v m)"

definition omap_del :: "'k \<Rightarrow> ('k \<times> 'v) list \<Rightarrow> ('k \<times> 'v) list" where
  "omap_del k m = filter (\<lambda>e. fst e \<noteq> k) m"

definition omap_ok :: "('k \<times> 'v) list \<Rightarrow> bool" where
  "omap_ok m \<longleftrightarrow> distinct (map fst m)"

lemma map_of_omap_set [simp]: "map_of (omap_set k v m) = (map_of m)(k \<mapsto> v)"
  by (induction k v m rule: omap_set.induct) auto

lemma keys_omap_set [simp]: "fst ` set (omap_set k v m) = insert k (fst ` set m)"
  by (induction k v m rule: omap_set.induct) auto

lemma omap_ok_set [simp]: "omap_ok m \<Longrightarrow> omap_ok (omap_set k v m)"
proof (induction k v m rule: omap_set.induct)
  case (2 k v k' v' m)
  then show ?case
    using keys_omap_set [of k v m] by (auto simp: omap_ok_def simp del: keys_omap_set)
qed (simp add: omap_ok_def)

lemma map_fst_omap_set:
  "map fst (omap_set k v m) = (if k \<in> fst ` set m then map fst m else map fst m @ [k])"
  by (induction k v m rule: omap_set.induct) auto

lemma length_omap_set:
  "length (omap_set k v m) = (if k \<in> fst ` set m then length m else Suc (length m))"
  by (induction k v m rule: omap_set.induct) auto

lemma map_of_omap_del [simp]: "map_of (omap_del k m) = (map_of m)(k := None)"
proof (rule ext)
  fix x
  show "map_of (omap_del k m) x = ((map_of m)(k := None)) x"
    unfolding omap_del_def by (induction m) auto
qed

lemma keys_omap_del [simp]: "fst ` set (omap_del k m) = fst ` set m - {k}"
  by (auto simp: omap_del_def)

lemma omap_ok_del [simp]: "omap_ok m \<Longrightarrow> omap_ok (omap_del k m)"
  unfolding omap_ok_def omap_del_def by (induction m) auto

lemma omap_ok_Nil [simp]: "omap_ok []"
  by (simp add: omap_ok_def)

lemma omap_ok_fold: "omap_ok m \<Longrightarrow> (\<And>t m. omap_ok m \<Longrightarrow> omap_ok (h t m)) \<Longrightarrow> omap_ok (fold h ts m)"
  by (induction ts arbitrary: m) auto

text \<open>
  The interface the clients of a \<open>Map\<close> rely on: what a lookup returns after \<open>set\<close> and
  \<open>delete\<close>, that both keep the invariant, and that the size is the number of keys.
\<close>

locale ordered_map =
  fixes empty :: "'m"
    and lookup :: "'m \<Rightarrow> 'k \<Rightarrow> 'v option"
    and update :: "'k \<Rightarrow> 'v \<Rightarrow> 'm \<Rightarrow> 'm"
    and delete :: "'k \<Rightarrow> 'm \<Rightarrow> 'm"
    and card_of :: "'m \<Rightarrow> nat"
    and ok :: "'m \<Rightarrow> bool"
  assumes lookup_empty: "lookup empty = (\<lambda>_. None)"
    and lookup_update: "ok m \<Longrightarrow> lookup (update k v m) = (lookup m)(k \<mapsto> v)"
    and lookup_delete: "ok m \<Longrightarrow> lookup (delete k m) = (lookup m)(k := None)"
    and card_of_dom: "ok m \<Longrightarrow> card_of m = card (dom (lookup m)) \<and> finite (dom (lookup m))"
    and ok_empty: "ok empty"
    and ok_update: "ok m \<Longrightarrow> ok (update k v m)"
    and ok_delete: "ok m \<Longrightarrow> ok (delete k m)"
begin

lemma card_update:
  "ok m \<Longrightarrow> card_of (update k v m) = (if lookup m k = None then Suc (card_of m) else card_of m)"
  using card_of_dom [of m] card_of_dom [of "update k v m"] ok_update [of m k v]
  by (auto simp: lookup_update card_insert_if domIff)

lemma card_delete:
  "ok m \<Longrightarrow> card_of (delete k m) = (if lookup m k = None then card_of m else card_of m - 1)"
  using card_of_dom [of m] card_of_dom [of "delete k m"] ok_delete [of m k]
  by (auto simp: lookup_delete card_Diff_singleton_if domIff)

text \<open>A map that evicts one present key whenever an insertion passes the cap stays capped.\<close>

lemma capped_insert:
  assumes "ok m" and "card_of m \<le> cap" and "0 < cap"
    and "cap < card_of (update k v m) \<Longrightarrow> lookup (update k v m) j \<noteq> None"
  shows "card_of (if cap < card_of (update k v m) then delete j (update k v m) else update k v m) \<le> cap"
  using assms by (auto simp: card_delete card_update ok_update split: if_splits)

end

interpretation om: ordered_map "[]" map_of omap_set omap_del length omap_ok
proof unfold_locales
  fix m :: "('a \<times> 'b) list"
  assume "omap_ok m"
  then have "distinct (map fst m)" by (simp add: omap_ok_def)
  then have "length m = card (fst ` set m)"
    by (metis distinct_card length_map list.set_map)
  then show "length m = card (dom (map_of m)) \<and> finite (dom (map_of m))"
    by (simp add: dom_map_of_conv_image_fst)
qed auto

subsection \<open>Lists\<close>

lemma distinct_map_ne: "distinct (map f (t # ts)) \<Longrightarrow> u \<in> set ts \<Longrightarrow> f u \<noteq> f t"
  by (auto simp: image_iff)

lemma find_key_None_iff: "find (\<lambda>t. f t = k) xs = None \<longleftrightarrow> k \<notin> f ` set xs"
  by (auto simp: find_None_iff)

lemma find_key_SomeD: "find (\<lambda>t. f t = k) xs = Some t \<Longrightarrow> t \<in> set xs \<and> f t = k"
  by (auto simp: find_Some_iff)

lemma find_key_in: "distinct (map f xs) \<Longrightarrow> x \<in> set xs \<Longrightarrow> find (\<lambda>t. f t = f x) xs = Some x"
proof (induction xs)
  case (Cons y xs)
  show ?case
  proof (cases "x = y")
    case False
    with Cons.prems have "x \<in> set xs" by simp
    then have "f x \<noteq> f y" using Cons.prems(1) by (rule_tac distinct_map_ne)
    then show ?thesis using Cons \<open>x \<in> set xs\<close> by simp
  qed simp
qed simp

lemma takeWhile_stop: "list_all P s \<Longrightarrow> \<not> P x \<Longrightarrow> takeWhile P (s @ x # r) = s"
  by (induction s) auto

lemma dropWhile_stop: "list_all P s \<Longrightarrow> \<not> P x \<Longrightarrow> dropWhile P (s @ x # r) = x # r"
  by (induction s) auto

lemma list_all2_mapI: "(\<And>x. x \<in> set xs \<Longrightarrow> P x (f x)) \<Longrightarrow> list_all2 P xs (map f xs)"
  by (induction xs) auto

lemma set_map_filter: "set (List.map_filter f xs) = {y. \<exists>x\<in>set xs. f x = Some y}"
  by (force simp: List.map_filter_def)

lemma map_map_id: "(\<And>x. x \<in> set xs \<Longrightarrow> f (g x) = f x) \<Longrightarrow> map f (map g xs) = map f xs"
  by simp

lemma map_idem: "(\<And>x. x \<in> set xs \<Longrightarrow> f (f x) = f x) \<Longrightarrow> map f (map f xs) = map f xs"
  by simp

lemma sum_list_le_member: "x \<in> set xs \<Longrightarrow> f x \<le> sum_list (map f xs)" for f :: "'a \<Rightarrow> nat"
  by (induction xs) auto

lemma filter_take_prefix: "set (take n xs) \<subseteq> set xs"
  by (rule set_take_subset)

subsection \<open>Machines\<close>

text \<open>
  A machine performs an event or refuses it. A run over a list of events gives \<open>None\<close> as soon as
  one is refused; \<open>events_within\<close> says that every event of a run satisfies a condition in the state
  where it happens.
\<close>

fun run_events :: "('e \<Rightarrow> 's \<Rightarrow> 's option) \<Rightarrow> 'e list \<Rightarrow> 's \<Rightarrow> 's option" where
  "run_events step [] s = Some s"
| "run_events step (e # es) s = Option.bind (step e s) (run_events step es)"

fun events_within :: "('e \<Rightarrow> 's \<Rightarrow> 's option) \<Rightarrow> ('e \<Rightarrow> 's \<Rightarrow> bool) \<Rightarrow> 'e list \<Rightarrow> 's \<Rightarrow> bool" where
  "events_within step allowed [] s \<longleftrightarrow> True"
| "events_within step allowed (e # es) s \<longleftrightarrow> allowed e s \<and>
     (case step e s of None \<Rightarrow> True | Some s' \<Rightarrow> events_within step allowed es s')"

text \<open>The interface: allowed events keep the invariant, so it holds along a run.\<close>

locale machine_invariant =
  fixes step :: "'e \<Rightarrow> 's \<Rightarrow> 's option"
    and allowed :: "'e \<Rightarrow> 's \<Rightarrow> bool"
    and ok :: "'s \<Rightarrow> bool"
  assumes ok_step: "ok s \<Longrightarrow> allowed e s \<Longrightarrow> step e s = Some s' \<Longrightarrow> ok s'"
begin

lemma ok_run:
  "ok s \<Longrightarrow> events_within step allowed es s \<Longrightarrow> run_events step es s = Some s' \<Longrightarrow> ok s'"
  by (induction es arbitrary: s) (auto simp: bind_eq_Some_conv dest: ok_step)

end

lemma events_within_True [simp]: "events_within step (\<lambda>_ _. True) es s"
  by (induction es arbitrary: s) (auto split: option.splits)

end
