(* ===== verification/Contracts.thy ===== *)
theory Contracts
  imports Prelude
begin

text \<open>
  \<open>src/src/state/contracts.ts\<close>: the statuses of a team run and of a task, which of them are
  terminal, the two transition tables, and the wakeable event types. A status is a string
  in the code and a constructor here; \<open>run_status_str\<close> and \<open>task_status_str\<close> give the
  string back, so that the string predicates can be stated.
\<close>

subsection \<open>Run statuses\<close>

datatype run_status = RQueued | RPlanning | RRunning | RBlocked | RCompleted | RFailed | RCancelled

fun run_status_str :: "run_status \<Rightarrow> string" where
  "run_status_str RQueued = ''queued''"
| "run_status_str RPlanning = ''planning''"
| "run_status_str RRunning = ''running''"
| "run_status_str RBlocked = ''blocked''"
| "run_status_str RCompleted = ''completed''"
| "run_status_str RFailed = ''failed''"
| "run_status_str RCancelled = ''cancelled''"

definition TEAM_RUN_STATUSES :: "run_status list" where
  "TEAM_RUN_STATUSES =
     [RQueued, RPlanning, RRunning, RBlocked, RCompleted, RFailed, RCancelled]"

definition TEAM_TERMINAL_RUN_STATUSES :: "run_status list" where
  "TEAM_TERMINAL_RUN_STATUSES = [RBlocked, RCompleted, RFailed, RCancelled]"

fun TEAM_RUN_STATUS_TRANSITIONS :: "run_status \<Rightarrow> run_status list" where
  "TEAM_RUN_STATUS_TRANSITIONS RQueued = [RPlanning, RRunning, RCancelled, RFailed]"
| "TEAM_RUN_STATUS_TRANSITIONS RPlanning = [RRunning, RBlocked, RCancelled, RFailed]"
| "TEAM_RUN_STATUS_TRANSITIONS RRunning = [RBlocked, RCompleted, RFailed, RCancelled]"
| "TEAM_RUN_STATUS_TRANSITIONS RBlocked = [RRunning, RCancelled, RFailed]"
| "TEAM_RUN_STATUS_TRANSITIONS RCompleted = [RRunning, RCancelled]"
| "TEAM_RUN_STATUS_TRANSITIONS RFailed = [RRunning, RCancelled]"
| "TEAM_RUN_STATUS_TRANSITIONS RCancelled = [RRunning]"

definition isTeamRunStatus :: "string \<Rightarrow> bool" where
  "isTeamRunStatus v \<longleftrightarrow> v \<in> set (map run_status_str TEAM_RUN_STATUSES)"

definition isTerminalRunStatus :: "run_status \<Rightarrow> bool" where
  "isTerminalRunStatus s \<longleftrightarrow> s \<in> set TEAM_TERMINAL_RUN_STATUSES"

definition canTransitionRunStatus :: "run_status \<Rightarrow> run_status \<Rightarrow> bool" where
  "canTransitionRunStatus a b \<longleftrightarrow> a = b \<or> b \<in> set (TEAM_RUN_STATUS_TRANSITIONS a)"

subsection \<open>Task statuses\<close>

datatype task_status =
  Queued | Running | Waiting | Completed | Failed | Cancelled | Skipped | NeedsAttention

fun task_status_str :: "task_status \<Rightarrow> string" where
  "task_status_str Queued = ''queued''"
| "task_status_str Running = ''running''"
| "task_status_str Waiting = ''waiting''"
| "task_status_str Completed = ''completed''"
| "task_status_str Failed = ''failed''"
| "task_status_str Cancelled = ''cancelled''"
| "task_status_str Skipped = ''skipped''"
| "task_status_str NeedsAttention = ''needs_attention''"

definition TEAM_TASK_STATUSES :: "task_status list" where
  "TEAM_TASK_STATUSES =
     [Queued, Running, Waiting, Completed, Failed, Cancelled, Skipped, NeedsAttention]"

definition TEAM_TERMINAL_TASK_STATUSES :: "task_status list" where
  "TEAM_TERMINAL_TASK_STATUSES = [Completed, Failed, Cancelled, Skipped, NeedsAttention]"

fun TEAM_TASK_STATUS_TRANSITIONS :: "task_status \<Rightarrow> task_status list" where
  "TEAM_TASK_STATUS_TRANSITIONS Queued = [Running, Cancelled, Skipped, Failed]"
| "TEAM_TASK_STATUS_TRANSITIONS Running = [Completed, Failed, Cancelled, Queued, Waiting]"
| "TEAM_TASK_STATUS_TRANSITIONS Waiting = [Running, Queued, Completed, Failed, Cancelled]"
| "TEAM_TASK_STATUS_TRANSITIONS Completed = [Queued]"
| "TEAM_TASK_STATUS_TRANSITIONS Failed = [Queued, Cancelled]"
| "TEAM_TASK_STATUS_TRANSITIONS Cancelled = [Queued]"
| "TEAM_TASK_STATUS_TRANSITIONS Skipped = [Queued, Cancelled]"
| "TEAM_TASK_STATUS_TRANSITIONS NeedsAttention = [Queued, Running]"

definition isTeamTaskStatus :: "string \<Rightarrow> bool" where
  "isTeamTaskStatus v \<longleftrightarrow> v \<in> set (map task_status_str TEAM_TASK_STATUSES)"

definition isTerminalTaskStatus :: "task_status \<Rightarrow> bool" where
  "isTerminalTaskStatus s \<longleftrightarrow> s \<in> set TEAM_TERMINAL_TASK_STATUSES"

definition canTransitionTaskStatus :: "task_status \<Rightarrow> task_status \<Rightarrow> bool" where
  "canTransitionTaskStatus a b \<longleftrightarrow> a = b \<or> b \<in> set (TEAM_TASK_STATUS_TRANSITIONS a)"

lemma isTerminalTaskStatus_simps [simp]:
  "isTerminalTaskStatus Queued = False"
  "isTerminalTaskStatus Running = False"
  "isTerminalTaskStatus Waiting = False"
  "isTerminalTaskStatus Completed = True"
  "isTerminalTaskStatus Failed = True"
  "isTerminalTaskStatus Cancelled = True"
  "isTerminalTaskStatus Skipped = True"
  "isTerminalTaskStatus NeedsAttention = True"
  by (simp_all add: isTerminalTaskStatus_def TEAM_TERMINAL_TASK_STATUSES_def)

lemma isTerminalRunStatus_simps [simp]:
  "isTerminalRunStatus RQueued = False"
  "isTerminalRunStatus RPlanning = False"
  "isTerminalRunStatus RRunning = False"
  "isTerminalRunStatus RBlocked = True"
  "isTerminalRunStatus RCompleted = True"
  "isTerminalRunStatus RFailed = True"
  "isTerminalRunStatus RCancelled = True"
  by (simp_all add: isTerminalRunStatus_def TEAM_TERMINAL_RUN_STATUSES_def)

lemma TEAM_TASK_STATUSES_complete: "s \<in> set TEAM_TASK_STATUSES"
  by (cases s) (simp_all add: TEAM_TASK_STATUSES_def)

lemma TEAM_RUN_STATUSES_complete: "s \<in> set TEAM_RUN_STATUSES"
  by (cases s) (simp_all add: TEAM_RUN_STATUSES_def)

lemma task_status_str_inj: "task_status_str a = task_status_str b \<longleftrightarrow> a = b"
  by (cases a; cases b) simp_all

subsection \<open>Walks in the transition tables\<close>

text \<open>The statuses a task can move through when every step is one the table allows.\<close>

inductive task_walk :: "task_status \<Rightarrow> task_status \<Rightarrow> bool" where
  task_walk_refl: "task_walk s s"
| task_walk_step: "task_walk s t \<Longrightarrow> canTransitionTaskStatus t u \<Longrightarrow> task_walk s u"

inductive run_walk :: "run_status \<Rightarrow> run_status \<Rightarrow> bool" where
  run_walk_refl: "run_walk s s"
| run_walk_step: "run_walk s t \<Longrightarrow> canTransitionRunStatus t u \<Longrightarrow> run_walk s u"

inductive_cases task_walkE: "task_walk s t"

lemma task_walk_trans: "task_walk s t \<Longrightarrow> task_walk r s \<Longrightarrow> task_walk r t"
  by (induction rule: task_walk.induct) (auto intro: task_walk.intros)

lemma task_walk1: "canTransitionTaskStatus s t \<Longrightarrow> task_walk s t"
  by (rule task_walk_step [OF task_walk_refl])

lemma run_walk1: "canTransitionRunStatus s t \<Longrightarrow> run_walk s t"
  by (rule run_walk_step [OF run_walk_refl])

lemma run_walk_trans: "run_walk s t \<Longrightarrow> run_walk r s \<Longrightarrow> run_walk r t"
  by (induction rule: run_walk.induct) (auto intro: run_walk.intros)

lemma terminal_task_can_requeue: "isTerminalTaskStatus s \<Longrightarrow> canTransitionTaskStatus s Queued"
  by (cases s) (simp_all add: canTransitionTaskStatus_def)

lemma task_to_queued: "task_walk s Queued"
proof (cases "isTerminalTaskStatus s \<or> s \<in> {Running, Waiting}")
  case True
  then have "canTransitionTaskStatus s Queued"
  proof
    assume "s \<in> {Running, Waiting}"
    then show ?thesis by (auto simp: canTransitionTaskStatus_def)
  qed (rule terminal_task_can_requeue)
  then show ?thesis by (rule task_walk1)
next
  case False
  then have "s = Queued" by (cases s) auto
  then show ?thesis by (simp add: task_walk_refl)
qed

lemma needs_attention_only_from_itself:
  "canTransitionTaskStatus s NeedsAttention \<Longrightarrow> s = NeedsAttention"
  by (cases s) (simp_all add: canTransitionTaskStatus_def)

lemma task_walk_not_to_attention:
  "task_walk s t \<Longrightarrow> s \<noteq> NeedsAttention \<Longrightarrow> t \<noteq> NeedsAttention"
  by (induction rule: task_walk.induct) (auto dest: needs_attention_only_from_itself)

lemma queued_reaches: "t \<noteq> NeedsAttention \<Longrightarrow> task_walk Queued t"
proof -
  assume t: "t \<noteq> NeedsAttention"
  have r: "task_walk Queued Running" by (rule task_walk1) (simp add: canTransitionTaskStatus_def)
  have "canTransitionTaskStatus Queued t \<or> canTransitionTaskStatus Running t"
    using t by (cases t) (simp_all add: canTransitionTaskStatus_def)
  then show ?thesis by (auto intro: task_walk1 task_walk_step [OF r])
qed

lemma task_walk_iff: "task_walk s t \<longleftrightarrow> (t = NeedsAttention \<longrightarrow> s = NeedsAttention)"
  using task_walk_not_to_attention [of s t] queued_reaches [of t] task_to_queued [of s]
    task_walk_refl [of s] task_walk_trans [of Queued t s]
  by blast

subsection \<open>Event types\<close>

text \<open>
  The registered event types (\<open>TEAM_EVENT_TYPES\<close>) and those that wake a sleeping leader
  (\<open>TEAM_WAKEABLE_EVENT_TYPES\<close>).
\<close>

definition TEAM_EVENT_TYPES :: "string list" where
  "TEAM_EVENT_TYPES =
     [''run.created'', ''run.queued'', ''run.planning'', ''run.running'', ''run.blocked'',
     ''run.completed'', ''run.failed'', ''run.cancelled'', ''run.terminal_preserved'',
     ''task.created'', ''task.started'', ''task.progress'', ''spec.frozen'',
     ''spec.freeze_failed'', ''spec.strict_platform_warning'', ''spec.check_failed'',
     ''task.spec_gate'', ''hook.pre_step_started'', ''hook.pre_step_completed'',
     ''hook.pre_step_failed'', ''hook.pre_step_skipped'', ''hook.pre_step_optional_failed'',
     ''task.blocked'', ''task.green'', ''task.red'', ''task.completed'', ''task.failed'',
     ''task.cancelled'', ''task.skipped'', ''task.needs_attention'', ''review.approved'',
     ''review.rejected'', ''policy.action'', ''policy.escalated'', ''recovery.attempted'',
     ''recovery.escalated'', ''branch.stale'', ''mailbox.timeout'', ''worktree.cleanup'',
     ''worktree.dirty'', ''async.spawned'', ''async.started'', ''async.signal'',
     ''async.completed'', ''async.failed'', ''async.stale'', ''task.waiting'', ''task.resumed'',
     ''task.waiting_repaired'', ''task.respond_delivered'', ''task.respond_missed'',
     ''task.retried'', ''task.retry_triage'', ''task.noise_gate'', ''ask.requested'',
     ''ask.answered'', ''ask.timedout'', ''supervisor.contact'', ''plan.created'',
     ''plan.revised'', ''plan.approved'', ''plan.rejected'', ''plan.cancelled'',
     ''plan.item.dropped'', ''plan.approval_required'', ''delegate.requested'',
     ''delegate.admitted'', ''delegate.rejected'', ''delegate.completed'', ''delegate.timed_out'',
     ''delegate.rolled_up'', ''delegate.cancelled'', ''delegate.rerouted'',
     ''budget.initialized'', ''budget.warning'', ''budget.exhausted'', ''phase.started'',
     ''phase.completed'', ''phase.skipped'', ''phase.failed'', ''goal.loop_start'',
     ''goal.turn_start'', ''goal.turn_evaluated'', ''goal.budget_warning'', ''goal.loop_end'',
     ''goal.workspace_lock_lost'', ''goal.loop_error'', ''goal.feedback_steered'',
     ''goal.state_changed'', ''dwf.started'', ''dwf.phase_started'', ''dwf.phase_completed'',
     ''dwf.completed'', ''dwf.failed'', ''dwf.trust_denied'', ''dwf.log'', ''scratchpad.cell'',
     ''scratchpad.restored'', ''adaptive.plan_injected'', ''adaptive.plan_missing'',
     ''adaptive.plan_repaired'', ''adaptive.plan_repair_failed'', ''agent.control.queued'',
     ''agent.group_join.acknowledged'', ''agent.group_join.ack_timeout'',
     ''agent.group_join.delivery_reused'', ''agent.group_join.partial'',
     ''agent.group_join.completed'', ''agent.nudged'', ''async.died'', ''async.exit'',
     ''async.interrupt_detected'', ''async.kill_requested'',
     ''async.sigterm_received_graceful_shutdown'', ''async.watchdog_fired'',
     ''background.unregister_worker_failed'', ''chain.step_completed'', ''config.warning'',
     ''crew.run.reconciled_stale'', ''crew.run.orphan_cancelled'', ''crew.run.orphan_skip'',
     ''crew.run.recovery_blocked'', ''crew.run.recovery_declined'', ''crew.run.recovery_skipped'',
     ''crew.run.resumed'', ''crew.task.heartbeat_dead'', ''crew.task.retry_attempt'',
     ''dwf.resumed'', ''dwf.resume_context_mismatch'', ''foreground.interrupt_requested'',
     ''goal.resumed'', ''goal.resume_spawn_failed'', ''goal.stuck'',
     ''goal.turn_terminal_status'', ''goal.verification_compromised'',
     ''goal.workspace_lock_failed'', ''hook.executed'', ''limits.unbounded'',
     ''mailbox.acknowledged'', ''mailbox.message'', ''mailbox.replayed'', ''mailbox.send'',
     ''mailbox.pickup'', ''mailbox.pickup_deduped'', ''respond.broker_append'',
     ''steer.broker_force'', ''recovery.rerun_task'', ''run.started'', ''run.budget_warning'',
     ''run.budget_abort'', ''run.deliverable_warning'', ''run.effectiveness'', ''run.exported'',
     ''run.forget_requested'', ''run.goal_achievement'', ''run.lock_retry'',
     ''run.resume_requested'', ''run.resume_forced_foreign'', ''runtime.resolved'',
     ''surface.degraded'', ''surface.requeued'', ''task.attention'', ''task.claimed'',
     ''task.claim_released'', ''task.coalesced'', ''task.coalesced_dispatch_start'',
     ''task.coalesced_dispatch_end'', ''task.parallel_start'', ''task.status_transitioned'',
     ''task.reconciled_from_disk'', ''task.checkpoint_recovered'', ''task.retry_attempt'',
     ''task.budget_fair_share'', ''task.model_dropped'', ''task.mcp_enforcement_degraded'',
     ''task.mcp_enforcement_fail_closed'', ''task.output_validation'', ''task.verifier_pre_gate'',
     ''task.steer_queued'', ''task.steer_dropped'', ''task.surface_lost'', ''worker.heartbeat'',
     ''worker.cancelled'', ''worker.kill_stale'', ''worker.message'', ''tier.decision'',
     ''tier.fault'', ''tier.fallback'', ''workflow.phase_completed'', ''workflow.phase_failed'',
     ''workflow.phase_guard_blocked'', ''workflow.preconditions'']"

definition TEAM_WAKEABLE_EVENT_TYPES :: "string list" where
  "TEAM_WAKEABLE_EVENT_TYPES =
    [''run.blocked'', ''run.completed'', ''run.failed'', ''run.cancelled'',
     ''task.completed'', ''task.failed'', ''task.cancelled'', ''task.skipped'',
     ''task.needs_attention'', ''async.completed'', ''async.failed'', ''async.stale'']"

definition isWakeableTeamEventType :: "string \<Rightarrow> bool" where
  "isWakeableTeamEventType t \<longleftrightarrow> t \<in> set TEAM_WAKEABLE_EVENT_TYPES"

lemma wakeable_registered: "set TEAM_WAKEABLE_EVENT_TYPES \<subseteq> set TEAM_EVENT_TYPES"
  by (simp add: TEAM_WAKEABLE_EVENT_TYPES_def TEAM_EVENT_TYPES_def)

text \<open>
  The leader is woken by an event exactly when it is a registered type that announces a
  terminal status of a run or of a task, or the end of a background run.
\<close>

theorem wakeable_iff_terminal:
  "isWakeableTeamEventType t \<longleftrightarrow> t \<in> set TEAM_EVENT_TYPES \<and>
     ((\<exists>s. isTerminalRunStatus s \<and> t = ''run.'' @ run_status_str s) \<or>
      (\<exists>s. isTerminalTaskStatus s \<and> t = ''task.'' @ task_status_str s) \<or>
      t \<in> {''async.completed'', ''async.failed'', ''async.stale''})"
proof -
  have "set TEAM_WAKEABLE_EVENT_TYPES =
      (\<lambda>s. ''run.'' @ run_status_str s) ` {s. isTerminalRunStatus s} \<union>
      (\<lambda>s. ''task.'' @ task_status_str s) ` {s. isTerminalTaskStatus s} \<union>
      {''async.completed'', ''async.failed'', ''async.stale''}"
    unfolding isTerminalRunStatus_def isTerminalTaskStatus_def Collect_mem_eq
      TEAM_TERMINAL_RUN_STATUSES_def TEAM_TERMINAL_TASK_STATUSES_def TEAM_WAKEABLE_EVENT_TYPES_def
    by auto
  then have "t \<in> set TEAM_WAKEABLE_EVENT_TYPES \<longleftrightarrow>
      (\<exists>s. isTerminalRunStatus s \<and> t = ''run.'' @ run_status_str s) \<or>
      (\<exists>s. isTerminalTaskStatus s \<and> t = ''task.'' @ task_status_str s) \<or>
      t \<in> {''async.completed'', ''async.failed'', ''async.stale''}"
    by blast
  then show ?thesis
    using wakeable_registered unfolding isWakeableTeamEventType_def by blast
qed

text \<open>
  A task in any status can be moved to any other by steps of the transition table,
  except that no step leads into \<open>needs_attention\<close> from another status.
\<close>

theorem task_table_reachability:
  "task_walk s t \<longleftrightarrow> (t = NeedsAttention \<longrightarrow> s = NeedsAttention)"
  by (rule task_walk_iff)

lemma task_table_reachability_witness:
  "\<not> task_walk Running NeedsAttention \<and> task_walk Queued Completed"
  using task_table_reachability [of Running NeedsAttention] task_table_reachability [of Queued Completed]
  by simp

end
