(* ===== verification/TaskModel.thy ===== *)
theory TaskModel
  imports Contracts
begin

text \<open>
  The durable task record of \<open>src/src/state/types.ts\<close> (\<open>TeamTaskState\<close> and the records it
  holds), with the fields that the modelled code reads or writes. Object identity matters
  for result artifacts only (\<open>!==\<close> in the merge gate), so an artifact carries the identity
  of its object next to its contents.
\<close>

subsection \<open>Verification contracts\<close>

datatype green_level = GNone | GTargeted | GPackage | GWorkspace | GMergeReady

record verification_contract =
  requiredGreenLevel :: green_level
  contract_commands :: "string list"
  allowManualEvidence :: bool

datatype command_status = CmdPassed | CmdFailed | CmdNotRun

record verification_evidence =
  ev_requiredGreenLevel :: green_level
  ev_observedGreenLevel :: green_level
  ev_satisfied :: bool
  ev_commands :: "(string \<times> command_status) list"
  ev_notes :: "string option"
  ev_decorative :: "bool option"

subsection \<open>Parts of a task record\<close>

record artifact =
  art_obj :: nat
  art_kind :: string
  art_path :: string
  art_sizeBytes :: "nat option"

record worker_heartbeat =
  hb_workerId :: string
  hb_pid :: "nat option"
  hb_lastSeenAt :: stamp
  hb_alive :: "bool option"

datatype queue_state = QReady | QBlocked | QRunning | QDone

record task_graph_node =
  g_parentId :: "string option"
  g_children :: "string list"
  g_queue :: queue_state

record usage_state =
  u_input :: "rat option"
  u_output :: "rat option"
  u_cacheRead :: "rat option"
  u_cacheWrite :: "rat option"
  u_cost :: "rat option"
  u_turns :: "rat option"

record task_claim =
  claim_owner :: string
  claim_token :: string
  claim_leasedUntil :: stamp

record task_allocation =
  tokensGranted :: jsnum
  tokensSpent :: "jsnum option"

record waiting_state =
  questionId :: string
  wait_askedAt :: stamp
  wait_deadline :: int

datatype checkpoint_phase = CkStarted | CkChildSpawned | CkChildStdoutFinal | CkArtifactWritten

record checkpoint_state =
  ck_phase :: checkpoint_phase
  ck_updatedAt :: stamp
  ck_childPid :: "nat option"
  ck_childPgid :: "nat option"
  ck_childStartTime :: "string option"
  ck_childUid :: "nat option"

text \<open>
  What a task record shows of the work of its worker: \<open>agentProgress\<close> (tool calls, and whether the
  activity state is \<open>needs_attention\<close>), the transcript, whether some model attempt succeeded, and
  the parts of \<open>diagnostics\<close>.
\<close>

record work_evidence =
  we_toolCount :: "nat option"
  we_needsAttention :: bool
  we_transcript :: bool
  we_attemptSucceeded :: bool
  we_verifyGate :: bool
  we_synthetic :: bool

definition no_evidence :: work_evidence where
  "no_evidence = \<lparr> we_toolCount = None, we_needsAttention = False, we_transcript = False,
     we_attemptSucceeded = False, we_verifyGate = False, we_synthetic = False \<rparr>"

subsection \<open>The task record\<close>

record team_task =
  task_id :: string
  stepId :: "string option"
  role :: string
  status :: task_status
  dependsOn :: "string list"
  cwd :: string
  startedAt :: "stamp option"
  finishedAt :: "stamp option"
  task_error :: "string option"
  resultArtifact :: "artifact option"
  modelAttempts :: "string list option"
  attempts :: "string list option"
  usage :: "usage_state option"
  heartbeat :: "worker_heartbeat option"
  jsonEvents :: "nat option"
  lastActivityAt :: "stamp option"
  graph :: "task_graph_node option"
  claim :: "task_claim option"
  checkpoint :: "checkpoint_state option"
  retryCount :: "nat option"
  packetVerification :: "verification_contract option"
  verification :: "verification_evidence option"
  allocation :: "task_allocation option"
  waiting :: "waiting_state option"
  planItem :: "string option"
  replanDroppedAt :: "stamp option"
  adaptivePhase :: "string option"
  adaptiveTask :: "string option"
  pendingSteers :: "string list option"
  worked :: work_evidence

text \<open>A fresh queued task, the starting point of the concrete inputs of the witnesses.\<close>

definition blank_task :: "string \<Rightarrow> team_task" where
  "blank_task i =
     \<lparr> task_id = i, stepId = None, role = ''executor'', status = Queued, dependsOn = [],
       cwd = ''/w'', startedAt = None, finishedAt = None, task_error = None,
       resultArtifact = None, modelAttempts = None, attempts = None, usage = None,
       heartbeat = None, jsonEvents = None, lastActivityAt = None,
       graph = Some \<lparr> g_parentId = None, g_children = [], g_queue = QBlocked \<rparr>,
       claim = None, checkpoint = None, retryCount = None, packetVerification = None, verification = None,
       allocation = None, waiting = None, planItem = None, replanDroppedAt = None,
       adaptivePhase = None, adaptiveTask = None, pendingSteers = None, worked = no_evidence \<rparr>"

lemma blank_task_simps [simp]:
  "task_id (blank_task i) = i"
  "stepId (blank_task i) = None"
  "role (blank_task i) = ''executor''"
  "status (blank_task i) = Queued"
  "dependsOn (blank_task i) = []"
  "cwd (blank_task i) = ''/w''"
  "startedAt (blank_task i) = None"
  "finishedAt (blank_task i) = None"
  "task_error (blank_task i) = None"
  "resultArtifact (blank_task i) = None"
  "modelAttempts (blank_task i) = None"
  "attempts (blank_task i) = None"
  "usage (blank_task i) = None"
  "heartbeat (blank_task i) = None"
  "jsonEvents (blank_task i) = None"
  "lastActivityAt (blank_task i) = None"
  "graph (blank_task i) = Some \<lparr> g_parentId = None, g_children = [], g_queue = QBlocked \<rparr>"
  "claim (blank_task i) = None"
  "checkpoint (blank_task i) = None"
  "retryCount (blank_task i) = None"
  "packetVerification (blank_task i) = None"
  "verification (blank_task i) = None"
  "allocation (blank_task i) = None"
  "waiting (blank_task i) = None"
  "planItem (blank_task i) = None"
  "replanDroppedAt (blank_task i) = None"
  "adaptivePhase (blank_task i) = None"
  "adaptiveTask (blank_task i) = None"
  "pendingSteers (blank_task i) = None"
  "worked (blank_task i) = no_evidence"
  by (simp_all add: blank_task_def)

end
