(* ===== verification/TaskGraph.thy ===== *)
theory TaskGraph
  imports TaskModel "HOL-Library.Multiset"
begin

text \<open>
  \<open>src/src/runtime/scheduling/task-graph-scheduler.ts\<close>: the index over a task list, the
  queue position of a task, the ready set, the two status marks, the cancellation of a
  subtree and the failure that skips the queued descendants. The \<open>WeakMap\<close> that memoises
  the index returns the value \<open>buildTaskGraphIndex\<close> computes, so it is not modelled.
\<close>

subsection \<open>The index\<close>

record task_graph_index =
  doneSteps :: "string set"
  idMap :: "string \<Rightarrow> team_task option"
  stepToTaskId :: "string \<Rightarrow> string option"

definition buildTaskGraphIndex :: "team_task list \<Rightarrow> task_graph_index" where
  "buildTaskGraphIndex tasks =
     \<lparr> doneSteps = set (List.map_filter stepId (filter (\<lambda>t. status t = Completed) tasks)),
       idMap = index_by task_id tasks,
       stepToTaskId =
         js_map_of (List.map_filter (\<lambda>t. map_option (\<lambda>s. (s, task_id t)) (stepId t)) tasks) \<rparr>"

definition dependencySatisfied :: "team_task \<Rightarrow> task_graph_index \<Rightarrow> bool" where
  "dependencySatisfied task idx =
     list_all (\<lambda>dependency.
        dependency \<in> doneSteps idx \<or>
        (case idMap idx (nullish (stepToTaskId idx dependency) dependency) of
           Some t \<Rightarrow> status t = Completed
         | None \<Rightarrow> False)) (dependsOn task)"

definition resolvedQueue :: "team_task \<Rightarrow> task_graph_index \<Rightarrow> queue_state" where
  "resolvedQueue task idx =
     (if status task = Queued then (if dependencySatisfied task idx then QReady else QBlocked)
      else if status task = Running then QRunning
      else if status task = Completed \<or> status task = Skipped \<or> status task = NeedsAttention
      then QDone
      else QBlocked)"

definition withQueue :: "team_task \<Rightarrow> task_graph_index \<Rightarrow> team_task" where
  "withQueue task idx =
     (case graph task of
        None \<Rightarrow> task
      | Some g \<Rightarrow> if g_queue g = resolvedQueue task idx then task
                  else task\<lparr>graph := Some (g\<lparr>g_queue := resolvedQueue task idx\<rparr>)\<rparr>)"

fun ensureIndex :: "team_task list \<Rightarrow> task_graph_index option \<Rightarrow> task_graph_index" where
  "ensureIndex tasks idx = nullish idx (buildTaskGraphIndex tasks)"

definition refreshTaskGraphQueues ::
    "team_task list \<Rightarrow> task_graph_index option \<Rightarrow> team_task list" where
  "refreshTaskGraphQueues tasks idx = map (\<lambda>t. withQueue t (ensureIndex tasks idx)) tasks"

subsection \<open>Operations\<close>

definition in_queue :: "queue_state \<Rightarrow> team_task \<Rightarrow> bool" where
  "in_queue q t \<longleftrightarrow> status t = Queued \<and> (case graph t of None \<Rightarrow> False | Some g \<Rightarrow> g_queue g = q)"

definition getReadyTasks ::
    "team_task list \<Rightarrow> int \<Rightarrow> task_graph_index option \<Rightarrow> team_task list" where
  "getReadyTasks tasks maxCount idx =
     take (nat (max 0 maxCount)) (filter (in_queue QReady) (refreshTaskGraphQueues tasks idx))"

definition markTaskRunning ::
    "team_task list \<Rightarrow> string \<Rightarrow> stamp \<Rightarrow> task_graph_index option \<Rightarrow> team_task list" where
  "markTaskRunning tasks taskId now idx =
     (let resolved = ensureIndex tasks idx in
      map (\<lambda>t. if task_id t = taskId
               then withQueue (t\<lparr>status := Running,
                                 startedAt := Some (nullish (startedAt t) now)\<rparr>) resolved
               else t)
          (refreshTaskGraphQueues tasks (Some resolved)))"

definition markTaskDone ::
    "team_task list \<Rightarrow> string \<Rightarrow> stamp \<Rightarrow> task_graph_index option \<Rightarrow> team_task list" where
  "markTaskDone tasks taskId now idx =
     (let resolved = ensureIndex tasks idx in
      refreshTaskGraphQueues
        (map (\<lambda>t. if task_id t = taskId
                  then t\<lparr>status := Completed,
                         finishedAt := Some (nullish (finishedAt t) now)\<rparr>
                  else t) tasks)
        (Some resolved))"

text \<open>
  The worklist loop shared by \<open>cancelTaskSubtree\<close> and \<open>failTaskAndBlockChildren\<close>: a stack
  of ids (its top is the head of the list), the ids already taken, and the children of a
  task that is in the index. The empty id is skipped (\<open>!current\<close>).
\<close>

definition children_of :: "team_task list \<Rightarrow> string \<Rightarrow> string list" where
  "children_of tasks i =
     (case index_by task_id tasks i of
        None \<Rightarrow> []
      | Some t \<Rightarrow> (case graph t of None \<Rightarrow> [] | Some g \<Rightarrow> g_children g))"

function collect_subtree :: "team_task list \<Rightarrow> string list \<Rightarrow> string list \<Rightarrow> string list" where
  "collect_subtree tasks [] taken = taken"
| "collect_subtree tasks (current # stack) taken =
     (if current = [] \<or> current \<in> set taken then collect_subtree tasks stack taken
      else collect_subtree tasks (rev (children_of tasks current) @ stack) (taken @ [current]))"
  by pat_completeness auto
termination
proof (relation "inv_image (finite_psubset <*lex*> less_than)
    (\<lambda>(tasks, stack, taken). (task_id ` set tasks - set taken, length stack))", goal_cases)
  case (3 tasks current stack taken)
  show ?case
  proof (cases "current \<in> task_id ` set tasks")
    case True
    with 3 show ?thesis by (auto simp: finite_psubset_def)
  next
    case False
    then have "children_of tasks current = []"
      by (simp add: children_of_def index_by_None_iff [THEN iffD2])
    moreover from False have
      "task_id ` set tasks - insert current (set taken) = task_id ` set tasks - set taken"
      by auto
    ultimately show ?thesis by simp
  qed
qed auto

definition cancelTaskSubtree ::
    "team_task list \<Rightarrow> string \<Rightarrow> string \<Rightarrow> stamp \<Rightarrow> team_task list" where
  "cancelTaskSubtree tasks rootTaskId reason now =
     (let toCancel = collect_subtree tasks [rootTaskId] [] in
      refreshTaskGraphQueues
        (map (\<lambda>t. if task_id t \<notin> set toCancel then t
                  else if status t = Completed then t
                  else t\<lparr>status := Cancelled, task_error := Some reason,
                         finishedAt := Some (nullish (finishedAt t) now)\<rparr>) tasks)
        None)"

definition failTaskAndBlockChildren ::
    "team_task list \<Rightarrow> string \<Rightarrow> string \<Rightarrow> stamp \<Rightarrow> team_task list" where
  "failTaskAndBlockChildren tasks rootTaskId reason now =
     (let blocked = collect_subtree tasks (rev (children_of tasks rootTaskId)) [] in
      refreshTaskGraphQueues
        (map (\<lambda>t. if task_id t = rootTaskId
                  then t\<lparr>status := Failed, task_error := Some reason,
                         finishedAt := Some (nullish (finishedAt t) now)\<rparr>
                  else if task_id t \<in> set blocked \<and> status t = Queued
                  then t\<lparr>status := Skipped,
                         task_error := Some (''Blocked by failed task '' @ quoted rootTaskId @ ''.''),
                         finishedAt := Some (nullish (finishedAt t) now)\<rparr>
                  else t) tasks)
        None)"

record task_graph_snapshot =
  snap_ready :: "string list"
  snap_blocked :: "string list"
  snap_running :: "string list"
  snap_done :: "string list"
  snap_failed :: "string list"
  snap_cancelled :: "string list"

definition taskGraphSnapshot ::
    "team_task list \<Rightarrow> task_graph_index option \<Rightarrow> task_graph_snapshot" where
  "taskGraphSnapshot tasks idx =
     (let refreshed = refreshTaskGraphQueues tasks idx in
      \<lparr> snap_ready = map task_id (filter (in_queue QReady) refreshed),
        snap_blocked = map task_id (filter (in_queue QBlocked) refreshed),
        snap_running = map task_id (filter (\<lambda>t. status t = Running) refreshed),
        snap_done = map task_id
          (filter (\<lambda>t. status t = Completed \<or> status t = Skipped) refreshed),
        snap_failed = map task_id (filter (\<lambda>t. status t = Failed) refreshed),
        snap_cancelled = map task_id (filter (\<lambda>t. status t = Cancelled) refreshed) \<rparr>)"

subsection \<open>Queue positions\<close>

lemma withQueue_eq:
  "withQueue t i = t\<lparr>graph := map_option (\<lambda>g. g\<lparr>g_queue := resolvedQueue t i\<rparr>) (graph t)\<rparr>"
  by (cases "graph t") (auto simp: withQueue_def)

lemma withQueue_fields [simp]:
  "task_id (withQueue t i) = task_id t"
  "stepId (withQueue t i) = stepId t"
  "status (withQueue t i) = status t"
  "dependsOn (withQueue t i) = dependsOn t"
  "task_error (withQueue t i) = task_error t"
  "finishedAt (withQueue t i) = finishedAt t"
  by (simp_all add: withQueue_eq)

lemma graph_withQueue [simp]:
  "graph (withQueue t i) = map_option (\<lambda>g. g\<lparr>g_queue := resolvedQueue t i\<rparr>) (graph t)"
  by (simp add: withQueue_eq)

lemma resolvedQueue_withQueue [simp]: "resolvedQueue (withQueue t i) j = resolvedQueue t j"
  by (simp add: resolvedQueue_def dependencySatisfied_def)

lemma resolvedQueue_graph [simp]: "resolvedQueue (t\<lparr>graph := g\<rparr>) i = resolvedQueue t i"
  by (simp add: resolvedQueue_def dependencySatisfied_def)

lemma withQueue_withQueue [simp]: "withQueue (withQueue t i) j = withQueue t j"
  by (cases "graph t") (simp_all add: withQueue_eq)

lemma index_by_map:
  assumes "\<And>x. x \<in> set xs \<Longrightarrow> f (g x) = f x"
  shows "index_by f (map g xs) k = map_option g (index_by f xs k)"
  using assms
proof (induction xs rule: rev_induct)
  case (snoc x xs)
  then show ?case by (simp add: index_by_def)
qed (simp add: index_by_def)

lemma map_filter_cong_map:
  "(\<And>x. x \<in> set xs \<Longrightarrow> f (g x) = f x) \<Longrightarrow> List.map_filter f (map g xs) = List.map_filter f xs"
  by (induction xs) (auto simp: map_filter_simps split: option.splits)

lemma filter_map_cong: "(\<And>x. x \<in> set xs \<Longrightarrow> P (g x) = P x) \<Longrightarrow> filter P (map g xs) = map g (filter P xs)"
  by (induction xs) auto

lemma index_refresh:
  "dependencySatisfied t (buildTaskGraphIndex (map (\<lambda>t. withQueue t i) tasks)) =
   dependencySatisfied t (buildTaskGraphIndex tasks)"
proof -
  have d: "doneSteps (buildTaskGraphIndex (map (\<lambda>t. withQueue t i) tasks)) =
      doneSteps (buildTaskGraphIndex tasks)"
    by (simp add: buildTaskGraphIndex_def filter_map_cong map_filter_cong_map)
  have s: "stepToTaskId (buildTaskGraphIndex (map (\<lambda>t. withQueue t i) tasks)) =
      stepToTaskId (buildTaskGraphIndex tasks)"
    by (simp add: buildTaskGraphIndex_def map_filter_cong_map)
  have m: "idMap (buildTaskGraphIndex (map (\<lambda>t. withQueue t i) tasks)) k =
      map_option (\<lambda>t. withQueue t i) (idMap (buildTaskGraphIndex tasks) k)" for k
    by (simp add: buildTaskGraphIndex_def index_by_map)
  show ?thesis
    by (simp add: dependencySatisfied_def d s m option.case_eq_if option.map_sel)
qed

lemma resolvedQueue_index_refresh:
  "resolvedQueue t (buildTaskGraphIndex (map (\<lambda>t. withQueue t i) tasks)) =
   resolvedQueue t (buildTaskGraphIndex tasks)"
  by (simp add: resolvedQueue_def index_refresh)

lemma withQueue_index_refresh:
  "withQueue t (buildTaskGraphIndex (map (\<lambda>t. withQueue t i) tasks)) =
   withQueue t (buildTaskGraphIndex tasks)"
  unfolding withQueue_eq [of t] by (simp only: resolvedQueue_index_refresh)

theorem refreshTaskGraphQueues_idem:
  "refreshTaskGraphQueues (refreshTaskGraphQueues tasks None) None = refreshTaskGraphQueues tasks None"
  by (simp add: refreshTaskGraphQueues_def withQueue_index_refresh)

subsection \<open>Dependencies\<close>

definition dep_provider :: "team_task list \<Rightarrow> string \<Rightarrow> team_task \<Rightarrow> bool" where
  "dep_provider tasks d u \<longleftrightarrow>
     stepId u = Some d \<or> (\<forall>v\<in>set tasks. stepId v \<noteq> Some d) \<and> task_id u = d"

definition deps_done :: "team_task list \<Rightarrow> team_task \<Rightarrow> bool" where
  "deps_done tasks t \<longleftrightarrow>
     (\<forall>d\<in>set (dependsOn t). \<exists>u\<in>set tasks. dep_provider tasks d u \<and> status u = Completed)"

lemma stepToTaskId_SomeD:
  "stepToTaskId (buildTaskGraphIndex tasks) d = Some i \<Longrightarrow>
   \<exists>u\<in>set tasks. stepId u = Some d \<and> task_id u = i"
  by (auto simp: buildTaskGraphIndex_def set_map_filter dest!: js_map_of_SomeD)

lemma stepToTaskId_None_iff:
  "stepToTaskId (buildTaskGraphIndex tasks) d = None \<longleftrightarrow> (\<forall>u\<in>set tasks. stepId u \<noteq> Some d)"
  by (force simp: buildTaskGraphIndex_def js_map_of_None_iff set_map_filter)

lemma idMap_eq: "idMap (buildTaskGraphIndex tasks) = index_by task_id tasks"
  by (simp add: buildTaskGraphIndex_def)

lemma doneSteps_iff:
  "d \<in> doneSteps (buildTaskGraphIndex tasks) \<longleftrightarrow>
     (\<exists>v\<in>set tasks. stepId v = Some d \<and> status v = Completed)"
  by (auto simp: buildTaskGraphIndex_def set_map_filter)

lemma index_case_iff:
  assumes "distinct (map f xs)"
  shows "(case index_by f xs k of Some t \<Rightarrow> P t | None \<Rightarrow> False) \<longleftrightarrow> (\<exists>u\<in>set xs. f u = k \<and> P u)"
proof (cases "index_by f xs k")
  case None
  then have "k \<notin> f ` set xs" by (simp only: index_by_None_iff not_False_eq_True)
  then show ?thesis unfolding None option.case by blast
next
  case (Some t)
  note t = index_by_SomeD [OF Some]
  have "u = t" if "u \<in> set xs" "f u = k" for u
    using index_by_in [OF assms that(1)] that(2) Some by simp
  with t show ?thesis unfolding Some option.case by blast
qed

lemma dependency_done_iff:
  assumes "distinct (map task_id tasks)"
  defines "idx \<equiv> buildTaskGraphIndex tasks"
  shows "(d \<in> doneSteps idx \<or>
      (case idMap idx (nullish (stepToTaskId idx d) d) of
         Some t \<Rightarrow> status t = Completed | None \<Rightarrow> False)) \<longleftrightarrow>
    (\<exists>u\<in>set tasks. dep_provider tasks d u \<and> status u = Completed)"
proof (cases "stepToTaskId idx d")
  case None
  then have no: "\<forall>u\<in>set tasks. stepId u \<noteq> Some d"
    unfolding idx_def by (simp only: stepToTaskId_None_iff)
  show ?thesis
    unfolding None nullish.simps unfolding idx_def idMap_eq index_case_iff [OF assms(1)]
      doneSteps_iff dep_provider_def
    using no by blast
next
  case (Some i)
  then obtain u where u: "u \<in> set tasks" "stepId u = Some d" "task_id u = i"
    unfolding idx_def by (blast dest: stepToTaskId_SomeD)
  then have iu: "idMap idx i = Some u"
    using index_by_in [OF assms(1) u(1)] by (simp add: idx_def idMap_eq)
  have prov: "dep_provider tasks d v \<longleftrightarrow> stepId v = Some d" for v
    using u(1,2) unfolding dep_provider_def by blast
  show ?thesis
    unfolding Some nullish.simps iu option.case unfolding idx_def doneSteps_iff prov
    using u(1,2) by blast
qed

lemma dependencySatisfied_iff:
  "distinct (map task_id tasks) \<Longrightarrow>
   dependencySatisfied t (buildTaskGraphIndex tasks) \<longleftrightarrow> deps_done tasks t"
  unfolding dependencySatisfied_def deps_done_def list_all_iff
  by (simp only: dependency_done_iff)

lemma in_queue_refreshed:
  "in_queue QReady (withQueue t i) \<longleftrightarrow>
     status t = Queued \<and> graph t \<noteq> None \<and> dependencySatisfied t i"
  "in_queue QBlocked (withQueue t i) \<longleftrightarrow>
     status t = Queued \<and> graph t \<noteq> None \<and> \<not> dependencySatisfied t i"
  by (auto simp: in_queue_def resolvedQueue_def split: option.splits)

definition schedulable :: "team_task list \<Rightarrow> team_task \<Rightarrow> bool" where
  "schedulable tasks t \<longleftrightarrow> status t = Queued \<and> graph t \<noteq> None \<and> deps_done tasks t"

lemma ready_filter:
  "distinct (map task_id tasks) \<Longrightarrow>
   filter (in_queue QReady) (refreshTaskGraphQueues tasks None) =
   map (\<lambda>t. withQueue t (buildTaskGraphIndex tasks)) (filter (schedulable tasks) tasks)"
  by (simp add: refreshTaskGraphQueues_def filter_map comp_def in_queue_refreshed
      dependencySatisfied_iff schedulable_def [abs_def])

lemma ready_ids_exact:
  assumes "distinct (map task_id tasks)"
  shows "map task_id (getReadyTasks tasks n None) =
    take (nat n) (map task_id (filter (schedulable tasks) tasks))"
proof -
  have "nat (max 0 n) = nat n" by simp
  then show ?thesis
    by (simp add: getReadyTasks_def ready_filter [OF assms] take_map comp_def)
qed

text \<open>
  C8. When no two tasks share an id, the tasks \<open>getReadyTasks\<close> hands out are exactly the first
  \<open>n\<close>, in list order, of the queued tasks that have a graph record and every dependency of
  which is provided by a completed task: a dependency names the step of a task or, when no task
  carries that step, the id of a task. A queued task without a graph record is never handed out.
\<close>

theorem getReadyTasks_exact:
  assumes "distinct (map task_id tasks)"
  shows "map task_id (getReadyTasks tasks n None) =
    take (nat n) (map task_id (filter (schedulable tasks) tasks))"
  using assms by (rule ready_ids_exact)

text \<open>
  Progress: when every task is completed or queued, every dependency is provided by a task
  of smaller rank (the dependencies are known and acyclic) and something is left to do, the
  ready set is not empty.
\<close>

theorem scheduler_progress:
  assumes "distinct (map task_id tasks)" and "0 < n"
    and known: "\<forall>t\<in>set tasks. \<forall>d\<in>set (dependsOn t).
          \<exists>u\<in>set tasks. dep_provider tasks d u \<and> rank (task_id u) < (rank (task_id t) :: nat)"
    and states: "\<forall>t\<in>set tasks. status t = Completed \<or> status t = Queued \<and> graph t \<noteq> None"
    and left: "\<exists>t\<in>set tasks. status t = Queued"
  shows "getReadyTasks tasks n None \<noteq> []"
proof -
  obtain t where t: "t \<in> set tasks" "status t = Queued"
    and least: "\<And>u. u \<in> set tasks \<Longrightarrow> status u = Queued \<Longrightarrow> rank (task_id t) \<le> rank (task_id u)"
    using left ex_has_least_nat [of "\<lambda>t. t \<in> set tasks \<and> status t = Queued" _ "\<lambda>t. rank (task_id t)"]
    by blast
  have "deps_done tasks t"
    unfolding deps_done_def
  proof
    fix d assume "d \<in> set (dependsOn t)"
    then obtain u where u: "u \<in> set tasks" "dep_provider tasks d u"
        "rank (task_id u) < rank (task_id t)"
      using known t(1) by blast
    then have "status u = Completed" using states least by fastforce
    with u(1,2) show "\<exists>u\<in>set tasks. dep_provider tasks d u \<and> status u = Completed" by blast
  qed
  then have "t \<in> set (filter (schedulable tasks) tasks)"
    using t states by (auto simp: schedulable_def)
  then have "map task_id (getReadyTasks tasks n None) \<noteq> []"
    unfolding ready_ids_exact [OF assms(1)] using assms(2) by (auto simp: filter_empty_conv)
  then show ?thesis by auto
qed

subsection \<open>Descendants\<close>

definition child_edge :: "team_task list \<Rightarrow> (string \<times> string) set" where
  "child_edge tasks = {(a, b). b \<in> set (children_of tasks a) \<and> b \<noteq> []}"

lemma collect_subtree_upper:
  "set (collect_subtree tasks stack taken) \<subseteq>
     set taken \<union> (child_edge tasks)\<^sup>* `` {x \<in> set stack. x \<noteq> []}"
proof (induction tasks stack taken rule: collect_subtree.induct)
  case (2 tasks current stack taken)
  show ?case
  proof (cases "current = [] \<or> current \<in> set taken")
    case True
    with 2(1) show ?thesis by auto
  next
    case False
    have "(child_edge tasks)\<^sup>* `` {x \<in> set (children_of tasks current). x \<noteq> []}
        \<subseteq> (child_edge tasks)\<^sup>* `` {current}"
      by (auto simp: child_edge_def intro: converse_rtrancl_into_rtrancl)
    with 2(2) [OF False] False show ?thesis by (auto 0 3)
  qed
qed simp

lemma collect_subtree_lower:
  "set taken \<union> {x \<in> set stack. x \<noteq> []} \<subseteq> set (collect_subtree tasks stack taken)"
proof (induction tasks stack taken rule: collect_subtree.induct)
  case (2 tasks current stack taken)
  then show ?case by auto
qed simp

lemma collect_subtree_closed:
  "child_edge tasks `` set taken \<subseteq> set taken \<union> set stack \<Longrightarrow>
   child_edge tasks `` set (collect_subtree tasks stack taken)
     \<subseteq> set (collect_subtree tasks stack taken)"
proof (induction tasks stack taken rule: collect_subtree.induct)
  case (2 tasks current stack taken)
  show ?case
  proof (cases "current = [] \<or> current \<in> set taken")
    case True
    have "child_edge tasks `` set taken \<subseteq> set taken \<union> set stack"
      using 2(3) True by (auto simp: child_edge_def)
    with 2(1) [OF True] True show ?thesis by simp
  next
    case False
    have "child_edge tasks `` set (taken @ [current])
        \<subseteq> set (taken @ [current]) \<union> set (rev (children_of tasks current) @ stack)"
      using 2(3) by (auto simp: child_edge_def)
    with 2(2) [OF False] False show ?thesis by simp
  qed
qed simp

lemma collect_subtree_exact:
  "set (collect_subtree tasks stack []) = (child_edge tasks)\<^sup>* `` {x \<in> set stack. x \<noteq> []}"
proof
  show "set (collect_subtree tasks stack []) \<subseteq> (child_edge tasks)\<^sup>* `` {x \<in> set stack. x \<noteq> []}"
    using collect_subtree_upper [of tasks stack "[]"] by simp
  have "child_edge tasks `` set (collect_subtree tasks stack [])
      \<subseteq> set (collect_subtree tasks stack [])"
    by (rule collect_subtree_closed) simp
  then have "(child_edge tasks)\<^sup>* `` set (collect_subtree tasks stack [])
      \<subseteq> set (collect_subtree tasks stack [])"
    by (simp add: Image_closed_trancl)
  then show "(child_edge tasks)\<^sup>* `` {x \<in> set stack. x \<noteq> []}
      \<subseteq> set (collect_subtree tasks stack [])"
    using collect_subtree_lower [of "[]" stack tasks] by blast
qed

lemma collect_children_exact:
  "set (collect_subtree tasks (rev (children_of tasks r)) []) = (child_edge tasks)\<^sup>+ `` {r}"
proof -
  have "{x \<in> set (children_of tasks r). x \<noteq> []} = child_edge tasks `` {r}"
    by (auto simp: child_edge_def)
  then show ?thesis
    by (auto simp: collect_subtree_exact trancl_unfold_left)
qed

lemma status_refresh: "map status (refreshTaskGraphQueues tasks i) = map status tasks"
  by (simp add: refreshTaskGraphQueues_def)

lemma collect_rootId_exact:
  "rootId \<noteq> [] \<Longrightarrow> set (collect_subtree tasks [rootId] []) = (child_edge tasks)\<^sup>* `` {rootId}"
  unfolding collect_subtree_exact by auto

text \<open>
  Cancelling a subtree cancels exactly the tasks reachable from the root over the
  \<open>children\<close> edges that are not completed, and changes the status of no other task, whatever
  cycles the edges have.
\<close>

theorem cancelTaskSubtree_exact:
  assumes "rootId \<noteq> []"
  shows "map (\<lambda>t. (task_id t, status t)) (cancelTaskSubtree tasks rootId reason now) =
    map (\<lambda>t. (task_id t,
          if (rootId, task_id t) \<in> (child_edge tasks)\<^sup>* \<and> status t \<noteq> Completed then Cancelled
          else status t)) tasks"
  unfolding cancelTaskSubtree_def refreshTaskGraphQueues_def collect_rootId_exact [OF assms] Let_def
  by simp

lemma fail_statuses:
  "map (\<lambda>t. (task_id t, status t)) (failTaskAndBlockChildren tasks rootId reason now) =
    map (\<lambda>t. (task_id t,
          if task_id t = rootId then Failed
          else if (rootId, task_id t) \<in> (child_edge tasks)\<^sup>+ \<and> status t = Queued then Skipped
          else status t)) tasks"
  unfolding failTaskAndBlockChildren_def refreshTaskGraphQueues_def collect_children_exact Let_def
  by simp

text \<open>
  Failing a task marks that task failed, skips exactly the queued tasks strictly below it,
  and leaves every other status as it was.
\<close>

theorem failTaskAndBlockChildren_exact:
  "map (\<lambda>t. (task_id t, status t)) (failTaskAndBlockChildren tasks rootId reason now) =
    map (\<lambda>t. (task_id t,
          if task_id t = rootId then Failed
          else if (rootId, task_id t) \<in> (child_edge tasks)\<^sup>+ \<and> status t = Queued then Skipped
          else status t)) tasks"
  by (rule fail_statuses)

text \<open>After a failure nothing that hangs below the failed task can be handed out again.\<close>

text \<open>
  After a failure no task strictly below the failed one is ever handed out, whatever index
  the next round uses.
\<close>

theorem failed_subtree_never_ready:
  assumes "rootId \<noteq> task_id t"
    and "t \<in> set (getReadyTasks (failTaskAndBlockChildren tasks rootId reason now) n i)"
  shows "(rootId, task_id t) \<notin> (child_edge tasks)\<^sup>+"
proof -
  let ?f = "failTaskAndBlockChildren tasks rootId reason now"
  have "t \<in> set (filter (in_queue QReady) (refreshTaskGraphQueues ?f i))"
    using assms(2) by (auto simp: getReadyTasks_def dest: in_set_takeD)
  then obtain u where u: "u \<in> set ?f" "task_id t = task_id u" "status u = Queued"
    by (auto simp: refreshTaskGraphQueues_def in_queue_def)
  then have "(task_id u, status u) \<in> set (map (\<lambda>t. (task_id t, status t)) ?f)" by force
  then show ?thesis
    unfolding fail_statuses using u assms(1) by (auto split: if_splits)
qed

lemma mset_filter_split:
  "mset (map f xs) = mset (map f (filter P xs)) + mset (map f (filter (\<lambda>x. \<not> P x) xs))"
  by (metis (no_types) mset_filter mset_map image_mset_union multiset_partition)

text \<open>
  The six lists of a snapshot and the waiting or needs-attention tasks, which appear in none
  of them, partition the tasks: no task is counted twice and no other one is missed.
\<close>

theorem taskGraphSnapshot_partition:
  assumes "\<forall>t\<in>set tasks. graph t \<noteq> None"
  shows "mset (snap_ready (taskGraphSnapshot tasks idx)) + mset (snap_blocked (taskGraphSnapshot tasks idx))
     + mset (snap_running (taskGraphSnapshot tasks idx)) + mset (snap_done (taskGraphSnapshot tasks idx))
     + mset (snap_failed (taskGraphSnapshot tasks idx)) + mset (snap_cancelled (taskGraphSnapshot tasks idx))
     + mset (map task_id (filter (\<lambda>t. status t = Waiting \<or> status t = NeedsAttention) tasks))
     = mset (map task_id tasks)"
proof -
  define f where "f = (\<lambda>t. withQueue t (ensureIndex tasks idx))"
  have r: "refreshTaskGraphQueues tasks idx = map f tasks"
    by (simp add: refreshTaskGraphQueues_def f_def)
  have q: "in_queue QReady (f t) \<longleftrightarrow> status t = Queued \<and> graph t \<noteq> None \<and> dependencySatisfied t (ensureIndex tasks idx)"
     "in_queue QBlocked (f t) \<longleftrightarrow> status t = Queued \<and> graph t \<noteq> None \<and> \<not> dependencySatisfied t (ensureIndex tasks idx)" for t
    by (simp_all only: f_def in_queue_refreshed)
  have k: "task_id (f t) = task_id t" "status (f t) = status t" for t by (simp_all add: f_def)
  show ?thesis
    using assms unfolding taskGraphSnapshot_def Let_def r task_graph_snapshot.select_convs
  proof (induction tasks)
    case (Cons t ts)
    then show ?case by (cases "status t") (auto simp: k q)
  qed simp
qed

theorem markTaskDone_stale_queues:
  assumes "t \<in> set tasks" and "task_id t \<noteq> i"
  shows "withQueue t (buildTaskGraphIndex tasks) \<in> set (markTaskDone tasks i now None)"
  using assms by (force simp: markTaskDone_def refreshTaskGraphQueues_def Let_def)

lemma markTaskDone_status:
  "map (\<lambda>t. (task_id t, status t)) (markTaskDone tasks i now idx) =
   map (\<lambda>t. (task_id t, if task_id t = i then Completed else status t)) tasks"
  by (simp add: markTaskDone_def refreshTaskGraphQueues_def Let_def)

lemma markTaskRunning_status:
  "map (\<lambda>t. (task_id t, status t)) (markTaskRunning tasks i now idx) =
   map (\<lambda>t. (task_id t, if task_id t = i then Running else status t)) tasks"
  by (simp add: markTaskRunning_def refreshTaskGraphQueues_def Let_def)


text \<open>A chain of three tasks, the concrete input of the witnesses.\<close>

definition graph_task :: "string \<Rightarrow> string list \<Rightarrow> string list \<Rightarrow> team_task" where
  "graph_task i deps children = (blank_task i)
     \<lparr>dependsOn := deps,
      graph := Some \<lparr> g_parentId = None, g_children = children, g_queue = QBlocked \<rparr>\<rparr>"

definition chain3 :: "team_task list" where
  "chain3 = [graph_task ''a'' [] [''b''], graph_task ''b'' [''a''] [''c''],
     graph_task ''c'' [''b''] []]"

lemma chain3_simps [simp]:
  "map task_id chain3 = [''a'', ''b'', ''c'']"
  "\<forall>t\<in>set chain3. graph t \<noteq> None"
  by (simp_all add: chain3_def graph_task_def)

lemma getReadyTasks_exact_witness:
  "map task_id (getReadyTasks (markTaskDone chain3 ''a'' (Stamp [] None) None) 5 None) = [''b'']"
  by (subst getReadyTasks_exact) code_simp+

lemma cancelTaskSubtree_exact_witness:
  "map (\<lambda>t. (task_id t, status t)) (cancelTaskSubtree chain3 ''b'' ''stop'' (Stamp [] None)) =
     [(''a'', Queued), (''b'', Cancelled), (''c'', Cancelled)] \<and>
   (''b'', ''c'') \<in> (child_edge chain3)\<^sup>*"
proof -
  have w: "map (\<lambda>t. (task_id t, status t)) (cancelTaskSubtree chain3 ''b'' ''stop'' (Stamp [] None)) =
     [(''a'', Queued), (''b'', Cancelled), (''c'', Cancelled)]"
    by code_simp
  have "''b'' \<noteq> []" by simp
  from cancelTaskSubtree_exact [OF this, of chain3 "''stop''" "Stamp [] None"] w show ?thesis
    by (auto simp: chain3_def graph_task_def split: if_splits)
qed

lemma failed_subtree_never_ready_witness:
  "(''a'', ''c'') \<notin>
     (child_edge [graph_task ''a'' [] [''b''], graph_task ''b'' [''a''] [], graph_task ''c'' [] []])\<^sup>+"
proof -
  let ?ts = "[graph_task ''a'' [] [''b''], graph_task ''b'' [''a''] [], graph_task ''c'' [] []]"
  have "map task_id (getReadyTasks (failTaskAndBlockChildren ?ts ''a'' ''boom'' (Stamp [] None)) 5 None)
      = [''c'']"
    by code_simp
  then obtain t where "t \<in> set (getReadyTasks
      (failTaskAndBlockChildren ?ts ''a'' ''boom'' (Stamp [] None)) 5 None)" "task_id t = ''c''"
    by (auto simp: map_eq_Cons_conv)
  then show ?thesis using failed_subtree_never_ready [of "''a''" t ?ts] by simp
qed

lemma scheduler_progress_witness: "getReadyTasks chain3 1 None \<noteq> []"
proof (rule scheduler_progress [where rank = "\<lambda>i. if i = ''a'' then 0 else if i = ''b'' then 1 else 2"])
  show "\<forall>t\<in>set chain3. \<forall>d\<in>set (dependsOn t). \<exists>u\<in>set chain3. dep_provider chain3 d u \<and>
      (if task_id u = ''a'' then 0 else if task_id u = ''b'' then 1 else 2)
      < (if task_id t = ''a'' then 0 else if task_id t = ''b'' then 1 else (2::nat))"
    by code_simp
  show "\<forall>t\<in>set chain3. status t = Completed \<or> status t = Queued \<and> graph t \<noteq> None"
    by (simp add: chain3_def graph_task_def)
  show "\<exists>t\<in>set chain3. status t = Queued"
    by (simp add: chain3_def graph_task_def)
qed simp_all

lemma taskGraphSnapshot_partition_witness:
  "mset (snap_ready (taskGraphSnapshot chain3 None)) + mset (snap_blocked (taskGraphSnapshot chain3 None))
     + mset (snap_running (taskGraphSnapshot chain3 None)) + mset (snap_done (taskGraphSnapshot chain3 None))
     + mset (snap_failed (taskGraphSnapshot chain3 None)) + mset (snap_cancelled (taskGraphSnapshot chain3 None))
     + mset (map task_id (filter (\<lambda>t. status t = Waiting \<or> status t = NeedsAttention) chain3))
     = {#''a'', ''b'', ''c''#}"
  unfolding taskGraphSnapshot_partition [OF chain3_simps(2)] by simp

end
