(* ===== verification/ExecutionPlan.thy ===== *)
theory ExecutionPlan
  imports Prelude "HOL-Library.Multiset"
begin

text \<open>
  \<open>src/src/runtime/scheduling/task-graph.ts\<close>: the waves of Kahn's algorithm, the ready set
  of a plan, the search for cycles, the blocked tasks and the topological order. A thrown
  error is the \<open>Inl\<close> side.
\<close>

subsection \<open>Nodes and plans\<close>

record task_node =
  n_id :: string
  n_deps :: "string list"
  n_phase :: "string option"

record execution_wave =
  w_index :: nat
  w_taskIds :: "string list"
  w_label :: "string option"

record execution_plan =
  p_waves :: "execution_wave list"
  p_hasCycle :: bool
  p_cycleNodes :: "string list option"

abbreviation node_ids :: "task_node list \<Rightarrow> string list" where
  "node_ids tasks \<equiv> map n_id tasks"

text \<open>A dependency on an id that is not in the list is ignored.\<close>

definition known_deps :: "task_node list \<Rightarrow> task_node \<Rightarrow> string list" where
  "known_deps tasks t = filter (\<lambda>d. d \<in> set (node_ids tasks)) (n_deps t)"

subsection \<open>The two maps of Kahn's algorithm\<close>

text \<open>
  \<open>adjacency\<close> sends an id to the ids that depend on it, \<open>inDegree\<close> is the \<open>Map\<close> of the
  open dependencies in insertion order. The plan keeps the dependents in a \<open>Set\<close>, the
  topological sort in an array: \<open>add\<close> is the insertion of either.
\<close>

definition addDependents ::
    "(string \<Rightarrow> string list \<Rightarrow> string list) \<Rightarrow> task_node list \<Rightarrow> string \<Rightarrow> string list" where
  "addDependents add tasks =
     fold (\<lambda>t adj. fold (\<lambda>dep adj. adj(dep := add (n_id t) (adj dep))) (known_deps tasks t) adj)
          tasks (\<lambda>_. [])"

definition initialInDegree :: "task_node list \<Rightarrow> (string \<times> int) list" where
  "initialInDegree tasks =
     fold (\<lambda>t m. omap_set (n_id t) (int (length (known_deps tasks t))) m) tasks
          (fold (\<lambda>t m. omap_set (n_id t) 0 m) tasks [])"

text \<open>
  The topological sort counts up instead; the two maps differ only when two tasks share an
  id.
\<close>

definition topoInDegree :: "task_node list \<Rightarrow> (string \<times> int) list" where
  "topoInDegree tasks =
     fold (\<lambda>t m. fold (\<lambda>dep m. omap_set (n_id t) (nullish (map_of m (n_id t)) 0 + 1) m)
                      (known_deps tasks t) m) tasks
          (fold (\<lambda>t m. omap_set (n_id t) 0 m) tasks [])"

text \<open>
  One decrement: the dependent's open count goes down and the dependent becomes a candidate
  when it reaches zero. Every dependent is a key of \<open>inDegree\<close>, so the missing case is not
  reached.
\<close>

fun relax ::
    "(string \<Rightarrow> string list \<Rightarrow> string list) \<Rightarrow> string
      \<Rightarrow> (string \<times> int) list \<times> string list \<Rightarrow> (string \<times> int) list \<times> string list" where
  "relax add d (deg, cand) =
     (case map_of deg d of
        None \<Rightarrow> (deg, cand)
      | Some c \<Rightarrow> (omap_set d (c - 1) deg, if c - 1 = 0 then add d cand else cand))"

definition array_push :: "'a \<Rightarrow> 'a list \<Rightarrow> 'a list" where
  "array_push x xs = xs @ [x]"

definition open_count :: "(string \<times> int) list \<Rightarrow> nat" where
  "open_count deg = length (filter (\<lambda>e. 0 < snd e) deg)"

lemma open_count_omap_set:
  "map_of deg d = Some c \<Longrightarrow>
   open_count (omap_set d (c - 1) deg) = (if c = 1 then open_count deg - 1 else open_count deg) \<and>
   (c = 1 \<longrightarrow> 0 < open_count deg)"
  by (induction d "c - 1" deg rule: omap_set.induct) (auto simp: open_count_def)

definition bounded_add :: "(string \<Rightarrow> string list \<Rightarrow> string list) \<Rightarrow> bool" where
  "bounded_add add \<longleftrightarrow> (\<forall>x xs. length (add x xs) \<le> Suc (length xs))"

lemma bounded_add_js [simp]: "bounded_add js_set_add" "bounded_add array_push"
  by (auto simp: bounded_add_def js_set_add_def array_push_def)

lemma relax_measure:
  assumes "bounded_add add"
  shows "open_count (fst (relax add d s)) + length (snd (relax add d s))
           \<le> open_count (fst s) + length (snd s)"
proof (cases s)
  case (Pair deg cand)
  show ?thesis
  proof (cases "map_of deg d")
    case (Some c)
    have "length (add d cand) \<le> Suc (length cand)" using assms by (simp add: bounded_add_def)
    then show ?thesis using open_count_omap_set [OF Some] by (auto simp: Pair Some)
  qed (simp add: Pair)
qed

lemma fold_relax_measure:
  "bounded_add add \<Longrightarrow>
   open_count (fst (fold (relax add) L s)) + length (snd (fold (relax add) L s))
     \<le> open_count (fst s) + length (snd s)"
proof (induction L arbitrary: s)
  case (Cons d L)
  then show ?case
    using order_trans [OF Cons.IH [of "relax add d s"] relax_measure [of add d s]] by simp
qed simp

subsection \<open>The plan\<close>

fun same_phase :: "task_node list \<Rightarrow> string option" where
  "same_phase [] = None"
| "same_phase (t # ts) =
     (if list_all (\<lambda>u. n_phase u \<noteq> None) (t # ts) \<and> list_all (\<lambda>u. n_phase u = n_phase t) ts
      then n_phase t else None)"

definition buildWave :: "task_node list \<Rightarrow> string list \<Rightarrow> nat \<Rightarrow> execution_wave" where
  "buildWave tasks ids i =
     \<lparr> w_index = i, w_taskIds = ids,
       w_label = same_phase (List.map_filter (index_by n_id tasks) ids) \<rparr>"

function kahn_waves ::
    "task_node list \<Rightarrow> (string \<Rightarrow> string list) \<Rightarrow> string list \<Rightarrow> (string \<times> int) list \<Rightarrow> nat
      \<Rightarrow> execution_wave list" where
  "kahn_waves tasks adj currentWaveIds deg waveIndex =
     (if currentWaveIds = [] then []
      else let s = fold (relax js_set_add) (concat (map adj currentWaveIds)) (deg, []) in
           buildWave tasks currentWaveIds waveIndex
             # kahn_waves tasks adj (snd s) (fst s) (Suc waveIndex))"
  by auto
termination
proof (relation "measure (\<lambda>(tasks, adj, cur, deg, i). open_count deg + length cur)", goal_cases)
  case (2 tasks adj cur deg i s)
  then show ?case
    using fold_relax_measure [of js_set_add "concat (map adj cur)" "(deg, [])"]
    by (cases cur) auto
qed simp

declare kahn_waves.simps [simp del]

definition buildExecutionPlan :: "task_node list \<Rightarrow> string + execution_plan" where
  "buildExecutionPlan tasks =
     (if tasks = [] then Inr \<lparr> p_waves = [], p_hasCycle = False, p_cycleNodes = None \<rparr>
      else case find (\<lambda>t. n_id t \<in> set (n_deps t)) tasks of
        Some t \<Rightarrow> Inl (''Task \"'' @ n_id t @ ''\" has self-dependency (depends on itself)'')
      | None \<Rightarrow>
          (let deg = initialInDegree tasks;
               waves = kahn_waves tasks (addDependents js_set_add tasks)
                 (map n_id (filter (\<lambda>t. map_of deg (n_id t) = Some 0) tasks)) deg 0;
               assigned = set (concat (map w_taskIds waves))
           in if card assigned < length tasks
              then Inr \<lparr> p_waves = waves, p_hasCycle = True,
                         p_cycleNodes = Some (filter (\<lambda>i. i \<notin> assigned) (node_ids tasks)) \<rparr>
              else Inr \<lparr> p_waves = waves, p_hasCycle = False, p_cycleNodes = None \<rparr>))"

fun first_open_wave :: "execution_wave list \<Rightarrow> string set \<Rightarrow> execution_wave list \<Rightarrow> string list" where
  "first_open_wave all completed [] = []"
| "first_open_wave all completed (w # ws) =
     (if \<not> list_all (\<lambda>v. list_all (\<lambda>i. i \<in> completed) (w_taskIds v)) (take (w_index w) all)
      then first_open_wave all completed ws
      else let ready = filter (\<lambda>i. i \<notin> completed) (w_taskIds w) in
           if ready \<noteq> [] then ready else first_open_wave all completed ws)"

definition plan_getReadyTasks :: "execution_plan \<Rightarrow> string set \<Rightarrow> string list" where
  "plan_getReadyTasks plan completed =
     (if p_hasCycle plan \<or> p_waves plan = [] then []
      else first_open_wave (p_waves plan) completed (p_waves plan))"

subsection \<open>Blocked tasks\<close>

definition findBlockedTasks :: "task_node list \<Rightarrow> string set \<Rightarrow> string list" where
  "findBlockedTasks tasks completed =
     map n_id (filter (\<lambda>t. list_ex (\<lambda>d. d \<notin> completed) (n_deps t))
       (filter (\<lambda>t. n_id t \<notin> completed) tasks))"

definition getBlockingTasks :: "task_node list \<Rightarrow> string \<Rightarrow> string set \<Rightarrow> string list" where
  "getBlockingTasks tasks taskId completed =
     (case find (\<lambda>t. n_id t = taskId) tasks of
        None \<Rightarrow> []
      | Some t \<Rightarrow> filter (\<lambda>d. d \<notin> completed) (n_deps t))"

subsection \<open>The topological order\<close>

function topo_loop ::
    "(string \<Rightarrow> string list) \<Rightarrow> string list \<Rightarrow> (string \<times> int) list \<Rightarrow> string list" where
  "topo_loop adj [] deg = []"
| "topo_loop adj (i # queue) deg =
     (let s = fold (relax array_push) (adj i) (deg, queue) in i # topo_loop adj (snd s) (fst s))"
  by pat_completeness auto
termination
proof (relation "measure (\<lambda>(adj, queue, deg). open_count deg + length queue)", goal_cases)
  case (2 adj i queue deg s)
  then show ?case
    using fold_relax_measure [of array_push "adj i" "(deg, queue)"] by simp
qed simp

definition topologicalSort :: "task_node list \<Rightarrow> string list" where
  "topologicalSort tasks =
     (let deg = topoInDegree tasks in
      topo_loop (addDependents array_push tasks)
        (map fst (filter (\<lambda>e. snd e = 0) deg)) deg)"

subsection \<open>The search for cycles\<close>

datatype colour = White | Gray | Black

record dfs_state =
  color :: "string \<Rightarrow> colour option"
  path :: "string list"
  cycles :: "string list list"

text \<open>
  The recursive \<open>dfs\<close> takes its depth as fuel; \<open>None\<close> would be a recursion deeper than
  that. \<open>visitDep\<close> is the body of its loop over the dependencies of a node.
\<close>

fun fold_opt :: "('a \<Rightarrow> 's \<Rightarrow> 's option) \<Rightarrow> 'a list \<Rightarrow> 's \<Rightarrow> 's option" where
  "fold_opt f [] s = Some s"
| "fold_opt f (x # xs) s = Option.bind (f x s) (fold_opt f xs)"

definition from_first :: "'a \<Rightarrow> 'a list \<Rightarrow> 'a list" where
  "from_first x xs = dropWhile (\<lambda>y. y \<noteq> x) xs"

definition visitDep ::
    "(string \<Rightarrow> dfs_state \<Rightarrow> dfs_state option) \<Rightarrow> string \<Rightarrow> dfs_state \<Rightarrow> dfs_state option" where
  "visitDep rec dep st =
     (if color st dep = Some Gray
      then Some (if dep \<in> set (path st) then st\<lparr>cycles := cycles st @ [from_first dep (path st)]\<rparr>
                 else st)
      else if color st dep = Some White then rec dep st
      else Some st)"

definition enter :: "string \<Rightarrow> dfs_state \<Rightarrow> dfs_state" where
  "enter i st = st\<lparr>color := (color st)(i \<mapsto> Gray), path := path st @ [i]\<rparr>"

definition leave :: "string \<Rightarrow> dfs_state \<Rightarrow> dfs_state" where
  "leave i st = st\<lparr>path := butlast (path st), color := (color st)(i \<mapsto> Black)\<rparr>"

fun dfs :: "nat \<Rightarrow> (string \<Rightarrow> string list) \<Rightarrow> string \<Rightarrow> dfs_state \<Rightarrow> dfs_state option" where
  "dfs 0 adj i st = None"
| "dfs (Suc n) adj i st =
     map_option (leave i) (fold_opt (visitDep (dfs n adj)) (adj i) (enter i st))"

definition detectCycles :: "task_node list \<Rightarrow> string list list option" where
  "detectCycles tasks =
     (let adj = (\<lambda>i. nullish (js_map_of (map (\<lambda>t. (n_id t, known_deps tasks t)) tasks) i) []);
          start = \<lparr> color = js_map_of (map (\<lambda>t. (n_id t, White)) tasks), path = [], cycles = [] \<rparr>
      in map_option cycles
           (fold_opt (\<lambda>t st. if color st (n_id t) = Some White then dfs (length tasks) adj (n_id t) st
                            else Some st) tasks start))"

subsection \<open>Kahn's invariant\<close>

text \<open>
  A graph as the two algorithms see it: the ids, the known dependencies of an id, and the
  dependents of an id, listed as often as the dependency is.
\<close>

definition kahn_graph ::
    "string list \<Rightarrow> (string \<Rightarrow> string list) \<Rightarrow> (string \<Rightarrow> string list) \<Rightarrow> bool" where
  "kahn_graph ids kd adj \<longleftrightarrow> distinct ids \<and> (\<forall>i. set (kd i) \<subseteq> set ids) \<and>
     (\<forall>i. i \<notin> set ids \<longrightarrow> kd i = []) \<and>
     (\<forall>c\<in>set ids. \<forall>i. count_list (adj c) i = count_list (kd i) c)"

definition residual :: "(string \<Rightarrow> string list) \<Rightarrow> string set \<Rightarrow> string \<Rightarrow> nat" where
  "residual kd S i = length (filter (\<lambda>d. d \<notin> S) (kd i))"

definition kahn_inv ::
    "string list \<Rightarrow> (string \<Rightarrow> string list) \<Rightarrow> string set \<Rightarrow> string list \<Rightarrow> (string \<times> int) list \<Rightarrow> bool" where
  "kahn_inv ids kd S Q deg \<longleftrightarrow>
     (\<forall>i. map_of deg i = (if i \<in> set ids then Some (int (residual kd S i)) else None)) \<and>
     distinct Q \<and> set Q = {i \<in> set ids - S. residual kd S i = 0} \<and>
     S \<subseteq> set ids \<and> (\<forall>i\<in>S. set (kd i) \<subseteq> S)"

lemma residual_0_iff: "residual kd S i = 0 \<longleftrightarrow> set (kd i) \<subseteq> S"
  by (auto simp: residual_def filter_empty_conv)

definition proper_add :: "(string \<Rightarrow> string list \<Rightarrow> string list) \<Rightarrow> bool" where
  "proper_add add \<longleftrightarrow> (\<forall>x xs. set (add x xs) = insert x (set xs) \<and>
     (distinct xs \<and> x \<notin> set xs \<longrightarrow> distinct (add x xs)))"

lemma proper_add_js [simp]: "proper_add js_set_add" "proper_add array_push"
  by (auto simp: proper_add_def array_push_def)

lemma relax_lookup:
  "map_of (fst (relax add d (deg, cand))) i =
     map_option (\<lambda>c. if i = d then c - 1 else c) (map_of deg i)"
  by (cases "map_of deg i"; cases "map_of deg d"; cases "i = d") simp_all

lemma relax_cands:
  "proper_add add \<Longrightarrow>
   set (snd (relax add d (deg, cand))) = set cand \<union> {i. i = d \<and> map_of deg i = Some 1}"
  by (auto simp: proper_add_def split: option.splits)

definition cands_ok :: "(string \<times> int) list \<Rightarrow> string list \<Rightarrow> bool" where
  "cands_ok deg cand \<longleftrightarrow> distinct cand \<and> (\<forall>i\<in>set cand. \<exists>c. map_of deg i = Some c \<and> c \<le> 0)"

lemma relax_cands_ok:
  assumes "proper_add add" and "cands_ok deg cand"
  shows "cands_ok (fst (relax add d (deg, cand))) (snd (relax add d (deg, cand)))"
proof -
  have "distinct (snd (relax add d (deg, cand)))"
    using assms by (cases "d \<in> set cand")
      (fastforce simp: proper_add_def cands_ok_def split: option.splits)+
  moreover have "\<exists>c. map_option (\<lambda>c. if i = d then c - 1 else c) (map_of deg i) = Some c \<and> c \<le> 0"
    if i: "i \<in> set cand \<union> {i. i = d \<and> map_of deg i = Some 1}" for i
  proof -
    obtain c where "map_of deg i = Some c" "c \<le> 0 \<or> i = d \<and> c = 1"
      using i assms(2) by (auto simp: cands_ok_def)
    then show ?thesis by auto
  qed
  ultimately show ?thesis
    unfolding cands_ok_def relax_lookup relax_cands [OF assms(1)] by blast
qed

lemma fold_relax:
  assumes add: "proper_add add" and "cands_ok deg cand"
  shows "map_of (fst (fold (relax add) L (deg, cand))) i =
           map_option (\<lambda>c. c - int (count_list L i)) (map_of deg i)"
    and "set (snd (fold (relax add) L (deg, cand))) =
           set cand \<union> {i. \<exists>c. map_of deg i = Some c \<and> 0 < c \<and> c \<le> int (count_list L i)}"
    and "distinct (snd (fold (relax add) L (deg, cand)))"
  using assms(2)
proof (induction L arbitrary: deg cand)
  case Nil
  {
    case 1
    then show ?case by (simp add: option.map_ident)
  next
    case 2
    then show ?case by auto
  next
    case 3
    then show ?case by (simp add: cands_ok_def)
  }
next
  case (Cons d L)
  note cons = fold.simps(2) o_apply
  {
    case (1 deg cand)
    show ?case
      using Cons.IH(1) [OF relax_cands_ok [OF add 1, of d]] unfolding cons prod.collapse relax_lookup
      by (cases "map_of deg i") auto
  next
    case (2 deg cand)
    have *: "(\<exists>c. map_option (\<lambda>c. if i = d then c - 1 else c) (map_of deg i) = Some c \<and>
              0 < c \<and> c \<le> int (count_list L i)) \<or> i = d \<and> map_of deg i = Some 1 \<longleftrightarrow>
            (\<exists>c. map_of deg i = Some c \<and> 0 < c \<and> c \<le> int (count_list (d # L) i))" for i
      by (cases "map_of deg i") auto
    show ?case
      using Cons.IH(2) [OF relax_cands_ok [OF add 2, of d]]
      unfolding cons prod.collapse relax_lookup relax_cands [OF add] * [symmetric] by blast
  next
    case (3 deg cand)
    show ?case
      using Cons.IH(3) [OF relax_cands_ok [OF add 3, of d]] unfolding cons prod.collapse .
  }
qed

lemma count_list_dependents:
  assumes "\<And>c. c \<in> set cur \<Longrightarrow> count_list (adj c) i = count_list (kd i) c" and "distinct (cur :: 'a list)"
  shows "count_list (concat (map adj cur)) i = length (filter (\<lambda>d. d \<in> set cur) (kd i))"
proof -
  have split: "length (filter (\<lambda>d. d = c \<or> d \<in> S) ds) =
      count_list ds c + length (filter (\<lambda>d. d \<in> S) ds)" if "c \<notin> S" for c S and ds :: "'a list"
    using that by (induction ds) auto
  show ?thesis using assms
  proof (induction cur)
    case (Cons a cur)
    then show ?case using split [of a "set cur" "kd i"] by simp
  qed simp
qed

lemma residual_Un:
  "set xs \<inter> S = {} \<Longrightarrow>
   residual kd S i = residual kd (S \<union> set xs) i + length (filter (\<lambda>d. d \<in> set xs) (kd i))"
proof -
  assume "set xs \<inter> S = {}"
  then have "length (filter (\<lambda>d. d \<notin> S) ds) =
     length (filter (\<lambda>d. d \<notin> S \<union> set xs) ds) + length (filter (\<lambda>d. d \<in> set xs) ds)" for ds
    by (induction ds) auto
  then show ?thesis by (simp only: residual_def)
qed

lemma kahn_step:
  assumes g: "kahn_graph ids kd adj" and inv: "kahn_inv ids kd S (cur @ rest) deg"
    and add: "proper_add add"
  defines "s \<equiv> fold (relax add) (concat (map adj cur)) (deg, rest)"
  shows "kahn_inv ids kd (S \<union> set cur) (snd s) (fst s)"
proof -
  have deg: "map_of deg i = (if i \<in> set ids then Some (int (residual kd S i)) else None)" for i
    using inv by (simp add: kahn_inv_def)
  have Q: "distinct (cur @ rest)" "set (cur @ rest) = {i \<in> set ids - S. residual kd S i = 0}"
    and S: "S \<subseteq> set ids" "\<forall>i\<in>S. set (kd i) \<subseteq> S"
    using inv by (simp_all add: kahn_inv_def)
  have cnt: "count_list (concat (map adj cur)) i = length (filter (\<lambda>d. d \<in> set cur) (kd i))" for i
    using g Q by (intro count_list_dependents) (auto simp: kahn_graph_def)
  have res: "residual kd S i = residual kd (S \<union> set cur) i + count_list (concat (map adj cur)) i" for i
    unfolding cnt by (rule residual_Un) (use Q in auto)
  have pre: "cands_ok deg rest"
    using Q deg by (auto simp: cands_ok_def)
  note fr = fold_relax [OF add pre, of "concat (map adj cur)", folded s_def]
  have "map_of (fst s) i = (if i \<in> set ids then Some (int (residual kd (S \<union> set cur) i)) else None)" for i
    using res [of i] by (simp add: fr(1) deg)
  moreover have "set (snd s) = {i \<in> set ids - (S \<union> set cur). residual kd (S \<union> set cur) i = 0}"
  proof -
    have new: "(\<exists>c. map_of deg i = Some c \<and> 0 < c \<and> c \<le> int (count_list (concat (map adj cur)) i))
       \<longleftrightarrow> i \<in> set ids \<and> residual kd S i \<noteq> 0 \<and> residual kd (S \<union> set cur) i = 0" for i
      using res [of i] by (auto simp: deg)
    have zero: "residual kd S i = 0" if "i \<in> S \<union> set cur" for i
      using that S Q by (auto simp: residual_0_iff)
    have mono: "residual kd S i = 0 \<Longrightarrow> residual kd (S \<union> set cur) i = 0" for i
      using res [of i] by simp
    have "set rest = set (cur @ rest) - set cur" using Q(1) by auto
    then have rest: "i \<in> set rest \<longleftrightarrow> i \<in> set ids \<and> i \<notin> S \<union> set cur \<and> residual kd S i = 0" for i
      unfolding Q(2) by blast
    have "i \<in> set (snd s) \<longleftrightarrow> i \<in> set ids \<and> i \<notin> S \<union> set cur \<and> residual kd (S \<union> set cur) i = 0" for i
      using rest [of i] zero [of i] mono [of i] new [of i] unfolding fr(2) by (cases "i \<in> S \<union> set cur") auto
    then show ?thesis by (simp only: set_eq_iff mem_Collect_eq Diff_iff) blast
  qed
  moreover have "S \<union> set cur \<subseteq> set ids" using S Q by auto
  moreover have "\<forall>i\<in>S \<union> set cur. set (kd i) \<subseteq> S \<union> set cur"
    using S Q by (auto simp: residual_0_iff)
  ultimately show ?thesis using fr(3) by (simp add: kahn_inv_def)
qed

subsection \<open>The two loops\<close>

fun deps_before :: "(string \<Rightarrow> string list) \<Rightarrow> string set \<Rightarrow> string list \<Rightarrow> bool" where
  "deps_before kd S [] = True"
| "deps_before kd S (x # xs) = (set (kd x) \<subseteq> S \<and> deps_before kd (insert x S) xs)"

fun waves_before :: "(string \<Rightarrow> string list) \<Rightarrow> string set \<Rightarrow> string list list \<Rightarrow> bool" where
  "waves_before kd S [] = True"
| "waves_before kd S (w # ws) =
     ((\<forall>x\<in>set w. set (kd x) \<subseteq> S) \<and> waves_before kd (S \<union> set w) ws)"

definition dep_edge :: "(string \<Rightarrow> string list) \<Rightarrow> (string \<times> string) set" where
  "dep_edge kd = {(d, i). d \<in> set (kd i)}"

lemma accessible_iff: "i \<in> Wellfounded.acc (dep_edge kd) \<longleftrightarrow> set (kd i) \<subseteq> Wellfounded.acc (dep_edge kd)"
  by (auto simp: dep_edge_def intro: acc.intros dest: acc_downward)

lemma kahn_end:
  assumes "kahn_inv ids kd S [] deg" and "\<forall>i. set (kd i) \<subseteq> set ids"
  shows "set ids \<inter> Wellfounded.acc (dep_edge kd) \<subseteq> S"
proof
  fix i assume "i \<in> set ids \<inter> Wellfounded.acc (dep_edge kd)"
  then have "i \<in> Wellfounded.acc (dep_edge kd)" "i \<in> set ids" by auto
  then show "i \<in> S"
  proof (induction rule: acc.induct)
    case (accI i)
    have "set (kd i) \<subseteq> S" using accI assms(2) by (auto simp: dep_edge_def)
    then have "residual kd S i = 0" by (simp add: residual_0_iff)
    then show ?case using assms(1) accI(3) by (auto simp: kahn_inv_def)
  qed
qed

lemma topo_loop_correct:
  assumes "kahn_graph ids kd adj" and "kahn_inv ids kd S Q deg"
    and "S \<subseteq> Wellfounded.acc (dep_edge kd)"
  shows "deps_before kd S (topo_loop adj Q deg) \<and> distinct (topo_loop adj Q deg) \<and>
    set (topo_loop adj Q deg) = set ids \<inter> Wellfounded.acc (dep_edge kd) - S"
  using assms
proof (induction adj Q deg arbitrary: S rule: topo_loop.induct)
  case (1 adj deg)
  then show ?case using kahn_end [of ids kd S deg] by (auto simp: kahn_graph_def)
next
  case (2 adj i queue deg)
  let ?s = "fold (relax array_push) (adj i) (deg, queue)"
  have inv: "kahn_inv ids kd (insert i S) (snd ?s) (fst ?s)"
    using kahn_step [of ids kd adj S "[i]" queue deg array_push] 2(2,3) by simp
  have i: "i \<in> set ids" "i \<notin> S" "set (kd i) \<subseteq> S"
    using 2(3) by (auto simp: kahn_inv_def residual_0_iff)
  then have acc: "i \<in> Wellfounded.acc (dep_edge kd)"
    using 2(4) accessible_iff by blast
  then have "insert i S \<subseteq> Wellfounded.acc (dep_edge kd)" using 2(4) by simp
  from 2(1) [OF refl 2(2) inv this] i acc show ?case
    by (auto simp: Let_def)
qed

lemma kahn_waves_correct:
  assumes "kahn_graph ids kd adj" and "kahn_inv ids kd S Q deg"
    and "S \<subseteq> Wellfounded.acc (dep_edge kd)"
  shows "waves_before kd S (map w_taskIds (kahn_waves tasks adj Q deg n)) \<and>
    distinct (concat (map w_taskIds (kahn_waves tasks adj Q deg n))) \<and>
    set (concat (map w_taskIds (kahn_waves tasks adj Q deg n))) = set ids \<inter> Wellfounded.acc (dep_edge kd) - S"
  using assms
proof (induction tasks adj Q deg n arbitrary: S rule: kahn_waves.induct)
  case (1 tasks adj Q deg n)
  show ?case
  proof (cases "Q = []")
    case True
    then show ?thesis using 1(2-4) kahn_end [of ids kd S deg]
      by (subst (1 2 3) kahn_waves.simps) (auto simp: kahn_graph_def)
  next
    case False
    let ?s = "fold (relax js_set_add) (concat (map adj Q)) (deg, [])"
    have inv: "kahn_inv ids kd (S \<union> set Q) (snd ?s) (fst ?s)"
      using kahn_step [of ids kd adj S Q "[]" deg js_set_add] 1(2,3) by simp
    have Q: "distinct Q" "set Q \<subseteq> set ids" "set Q \<inter> S = {}" "\<forall>x\<in>set Q. set (kd x) \<subseteq> S"
      using 1(3) by (auto simp: kahn_inv_def residual_0_iff)
    then have acc: "S \<union> set Q \<subseteq> Wellfounded.acc (dep_edge kd)"
      using 1(4) accessible_iff [of _ kd] by blast
    have unf: "map w_taskIds (kahn_waves tasks adj Q deg n) =
        Q # map w_taskIds (kahn_waves tasks adj (snd ?s) (fst ?s) (Suc n))"
      using False by (subst kahn_waves.simps) (simp add: buildWave_def Let_def)
    show ?thesis
      using 1(1) [OF False refl 1(2) inv acc] Q acc unfolding unf by auto
  qed
qed

lemma acyclic_dep_edge_iff:
  assumes "\<forall>i. i \<notin> set ids \<longrightarrow> kd i = []"
  shows "acyclic (dep_edge kd) \<longleftrightarrow> set ids \<subseteq> Wellfounded.acc (dep_edge kd)"
proof -
  have sub: "dep_edge kd \<subseteq> (\<Union>i\<in>set ids. set (kd i) \<times> {i})"
    using assms by (fastforce simp: dep_edge_def)
  have "finite (dep_edge kd)" by (rule finite_subset [OF sub]) auto
  then have "acyclic (dep_edge kd) \<longleftrightarrow> wf (dep_edge kd)"
    by (simp only: wf_iff_acyclic_if_finite)
  also have "\<dots> \<longleftrightarrow> (\<forall>i. i \<in> Wellfounded.acc (dep_edge kd))"
    by (simp only: wf_iff_acc)
  also have "\<dots> \<longleftrightarrow> set ids \<subseteq> Wellfounded.acc (dep_edge kd)"
  proof -
    have "i \<in> Wellfounded.acc (dep_edge kd)" if "i \<notin> set ids" for i
      by (rule accessible_iff [THEN iffD2]) (simp add: assms that)
    then show ?thesis by blast
  qed
  finally show ?thesis .
qed

subsection \<open>The initial maps\<close>

lemma fold_omap_set_lookup:
  "distinct (map f ts) \<Longrightarrow>
   map_of (fold (\<lambda>t m. omap_set (f t) (g t) m) ts m) k =
     (case find (\<lambda>t. f t = k) ts of Some t \<Rightarrow> Some (g t) | None \<Rightarrow> map_of m k)"
proof (induction ts arbitrary: m)
  case (Cons t ts)
  then have "find (\<lambda>t'. f t' = f t) ts = None" by (simp add: find_key_None_iff)
  with Cons show ?case by (auto split: option.splits)
qed simp

lemma fold_omap_set_keys:
  "distinct (map f ts) \<Longrightarrow> set (map f ts) \<inter> fst ` set m = {} \<Longrightarrow>
   map fst (fold (\<lambda>t m. omap_set (f t) (g t) m) ts m) = map fst m @ map f ts"
  by (induction ts arbitrary: m) (auto simp: map_fst_omap_set)

lemma fold_omap_set_same_keys:
  "set (map f ts) \<subseteq> fst ` set m \<Longrightarrow>
   map fst (fold (\<lambda>t m. omap_set (f t) (g m t) m) ts m) = map fst m"
proof (induction ts arbitrary: m)
  case (Cons t ts)
  then show ?case using Cons.IH [of "omap_set (f t) (g m t) m"] by (simp add: map_fst_omap_set insert_absorb)
qed simp

definition kd_of :: "task_node list \<Rightarrow> string \<Rightarrow> string list" where
  "kd_of tasks i = (case find (\<lambda>t. n_id t = i) tasks of None \<Rightarrow> [] | Some t \<Rightarrow> known_deps tasks t)"

definition counts_ok :: "(string \<Rightarrow> string list \<Rightarrow> string list) \<Rightarrow> nat \<Rightarrow> bool" where
  "counts_ok add k \<longleftrightarrow> (\<forall>n xs i. n \<notin> set xs \<longrightarrow>
     count_list ((add n ^^ k) xs) i = count_list xs i + (if i = n then k else 0))"

lemma counts_ok_array_push: "counts_ok array_push k"
proof -
  have "(array_push n ^^ k) xs = xs @ replicate k n" for n :: string and xs
    by (induction k) (auto simp: array_push_def replicate_append_same)
  moreover have "count_list (replicate k n) i = (if i = n then k else 0)" for i n :: string
    by (induction k) auto
  ultimately show ?thesis by (simp add: counts_ok_def)
qed

lemma counts_ok_js_set_add: "k \<le> 1 \<Longrightarrow> counts_ok js_set_add k"
  by (cases k) (auto simp: counts_ok_def js_set_add_def)

lemma fold_add_dependents:
  "fold (\<lambda>dep adj. adj(dep := add n (adj dep))) ds adj d = (add n ^^ count_list ds d) (adj d)"
  by (induction ds arbitrary: adj) (auto simp: funpow_swap1)

lemma count_dependents:
  assumes "distinct (map n_id ts)" and "\<forall>t\<in>set ts. n_id t \<notin> set (adj d)"
    and "\<forall>t\<in>set ts. counts_ok add (count_list (g t) d)"
  shows "count_list (fold (\<lambda>t adj. fold (\<lambda>dep adj. adj(dep := add (n_id t) (adj dep))) (g t) adj)
            ts adj d) i =
    count_list (adj d) i +
      (case find (\<lambda>t. n_id t = i) ts of None \<Rightarrow> 0 | Some t \<Rightarrow> count_list (g t) d)"
  using assms
proof (induction ts arbitrary: adj)
  case (Cons t ts)
  let ?adj = "fold (\<lambda>dep adj. adj(dep := add (n_id t) (adj dep))) (g t) adj"
  have cnt: "count_list (?adj d) i = count_list (adj d) i + (if i = n_id t then count_list (g t) d else 0)" for i
    using Cons.prems by (simp add: fold_add_dependents counts_ok_def)
  have "n_id u \<notin> set (?adj d)" if "u \<in> set ts" for u
    using cnt [of "n_id u"] that Cons.prems distinct_map_ne [OF Cons.prems(1) that]
    by (simp add: count_list_0_iff [symmetric])
  then have IH: "count_list (fold (\<lambda>t adj. fold (\<lambda>dep adj. adj(dep := add (n_id t) (adj dep))) (g t) adj)
            ts ?adj d) i = count_list (?adj d) i +
      (case find (\<lambda>t. n_id t = i) ts of None \<Rightarrow> 0 | Some t \<Rightarrow> count_list (g t) d)"
    using Cons.prems by (intro Cons.IH) auto
  have "find (\<lambda>u. n_id u = n_id t) ts = None"
    using Cons.prems(1) by (simp add: find_key_None_iff)
  then show ?case using IH cnt [of i] by (auto simp del: fun_upd_apply)
qed simp

lemma kd_of_known: "set (kd_of tasks i) \<subseteq> set (node_ids tasks)"
  by (auto simp: kd_of_def known_deps_def split: option.splits)

lemma kd_of_outside: "i \<notin> set (node_ids tasks) \<Longrightarrow> kd_of tasks i = []"
  by (auto simp: kd_of_def find_Some_iff split: option.splits)

lemma kd_of_in: "distinct (node_ids tasks) \<Longrightarrow> t \<in> set tasks \<Longrightarrow> kd_of tasks (n_id t) = known_deps tasks t"
  by (simp add: kd_of_def find_key_in)

lemma kahn_graph_of:
  assumes "distinct (node_ids tasks)"
    and "\<forall>t\<in>set tasks. \<forall>d. counts_ok add (count_list (known_deps tasks t) d)"
  shows "kahn_graph (node_ids tasks) (kd_of tasks) (addDependents add tasks)"
proof -
  have "count_list (addDependents add tasks d) i = count_list (kd_of tasks i) d" for i d
    using count_dependents [OF assms(1), of "\<lambda>_. []" d add "known_deps tasks" i] assms(2)
    by (auto simp: addDependents_def kd_of_def split: option.splits)
  then show ?thesis
    using assms(1) kd_of_known kd_of_outside by (auto simp: kahn_graph_def)
qed

lemma initialInDegree_lookup:
  assumes "distinct (node_ids tasks)"
  shows "map_of (initialInDegree tasks) i =
    (if i \<in> set (node_ids tasks) then Some (int (residual (kd_of tasks) {} i)) else None)"
  unfolding initialInDegree_def fold_omap_set_lookup [OF assms]
  by (auto simp: residual_def kd_of_def find_key_None_iff dest: find_key_SomeD split: option.splits)

lemma fold_count_up:
  "map_of (fold (\<lambda>dep m. omap_set n (nullish (map_of m n) 0 + 1) m) ds m) k =
    (if k = n \<and> ds \<noteq> [] then Some (nullish (map_of m n) 0 + int (length ds)) else map_of m k)"
  by (induction ds arbitrary: m) auto

lemma fold_count_up_lookup:
  assumes "distinct (map n_id ts)" and "\<forall>t\<in>set ts. map_of m (n_id t) = Some 0"
  shows "map_of (fold (\<lambda>t m. fold (\<lambda>dep m. omap_set (n_id t) (nullish (map_of m (n_id t)) 0 + 1) m)
                      (g t) m) ts m) k =
    (case find (\<lambda>t. n_id t = k) ts of Some t \<Rightarrow> Some (int (length (g t))) | None \<Rightarrow> map_of m k)"
  using assms
proof (induction ts arbitrary: m)
  case (Cons t ts)
  let ?m = "fold (\<lambda>dep m. omap_set (n_id t) (nullish (map_of m (n_id t)) 0 + 1) m) (g t) m"
  have "\<forall>u\<in>set ts. map_of ?m (n_id u) = Some 0"
    using Cons.prems distinct_map_ne [OF Cons.prems(1)] by (simp add: fold_count_up)
  then have IH: "map_of (fold (\<lambda>t m. fold (\<lambda>dep m. omap_set (n_id t) (nullish (map_of m (n_id t)) 0 + 1) m)
                      (g t) m) ts ?m) k =
    (case find (\<lambda>t. n_id t = k) ts of Some t \<Rightarrow> Some (int (length (g t))) | None \<Rightarrow> map_of ?m k)"
    using Cons.prems by (intro Cons.IH) auto
  have "find (\<lambda>u. n_id u = n_id t) ts = None"
    using Cons.prems(1) by (simp add: find_key_None_iff)
  then show ?case using IH Cons.prems(2) by (auto simp: fold_count_up split: option.splits)
qed simp

lemma topoInDegree_lookup:
  assumes "distinct (node_ids tasks)"
  shows "map_of (topoInDegree tasks) i = map_of (initialInDegree tasks) i"
proof -
  have z: "\<forall>t\<in>set tasks. map_of (fold (\<lambda>t m. omap_set (n_id t) 0 m) tasks []) (n_id t) = Some (0 :: int)"
    unfolding fold_omap_set_lookup [OF assms]
    by (auto simp: find_None_iff split: option.splits)
  show ?thesis
    unfolding topoInDegree_def fold_count_up_lookup [OF assms z]
    unfolding initialInDegree_def fold_omap_set_lookup [OF assms]
    by (simp split: option.splits)
qed

subsection \<open>What the plan and the order are\<close>

definition depends :: "task_node list \<Rightarrow> (string \<times> string) set" where
  "depends tasks = {(d, i). \<exists>t\<in>set tasks. n_id t = i \<and> d \<in> set (known_deps tasks t)}"

lemma dep_edge_kd_of: "distinct (node_ids tasks) \<Longrightarrow> dep_edge (kd_of tasks) = depends tasks"
proof (rule set_eqI)
  fix e :: "string \<times> string"
  assume d: "distinct (node_ids tasks)"
  obtain a i where e: "e = (a, i)" by (cases e)
  show "e \<in> dep_edge (kd_of tasks) \<longleftrightarrow> e \<in> depends tasks"
  proof (cases "find (\<lambda>t. n_id t = i) tasks")
    case None
    then have "i \<notin> n_id ` set tasks" by (simp add: find_key_None_iff)
    then show ?thesis by (auto simp: e dep_edge_def depends_def kd_of_outside)
  next
    case (Some t)
    have "t \<in> set tasks" "n_id t = i" using find_key_SomeD [OF Some] by blast+
    moreover have "u = t" if "u \<in> set tasks" "n_id u = i" for u
      using find_key_in [OF d that(1)] that(2) Some by simp
    moreover have "kd_of tasks i = known_deps tasks t" by (simp add: kd_of_def Some)
    ultimately show ?thesis
      unfolding e dep_edge_def depends_def mem_Collect_eq case_prod_conv by metis
  qed
qed

lemma kahn_inv_start:
  assumes "distinct (node_ids tasks)"
    and "\<forall>i. map_of deg i = map_of (initialInDegree tasks) i"
    and "distinct Q" and "set Q = {i. map_of deg i = Some 0}"
  shows "kahn_inv (node_ids tasks) (kd_of tasks) {} Q deg"
  using assms by (auto simp: kahn_inv_def initialInDegree_lookup split: if_splits)

lemma start_wave:
  assumes "distinct (node_ids tasks)"
  defines "deg \<equiv> initialInDegree tasks"
  defines "Q \<equiv> map n_id (filter (\<lambda>t. map_of deg (n_id t) = Some 0) tasks)"
  shows "distinct Q \<and> set Q = {i. map_of deg i = Some 0}"
  using assms(1) unfolding Q_def deg_def
  by (auto simp: initialInDegree_lookup distinct_map_filter split: if_splits)

lemma plan_waves:
  assumes "distinct (node_ids tasks)" and "\<forall>t\<in>set tasks. distinct (n_deps t)"
  defines "deg \<equiv> initialInDegree tasks"
  defines "Q \<equiv> map n_id (filter (\<lambda>t. map_of deg (n_id t) = Some 0) tasks)"
  defines "ws \<equiv> map w_taskIds (kahn_waves tasks (addDependents js_set_add tasks) Q deg 0)"
  shows "waves_before (kd_of tasks) {} ws \<and> distinct (concat ws) \<and>
    set (concat ws) = set (node_ids tasks) \<inter> Wellfounded.acc (depends tasks)"
proof -
  have "count_list xs d \<le> 1" if "distinct xs" for xs :: "string list" and d
    using that by (induction xs) (auto simp: count_list_0_iff [THEN iffD2])
  then have "\<forall>t\<in>set tasks. \<forall>d. counts_ok js_set_add (count_list (known_deps tasks t) d)"
    using assms(2) by (auto intro!: counts_ok_js_set_add simp: known_deps_def)
  from kahn_graph_of [OF assms(1) this]
  have g: "kahn_graph (node_ids tasks) (kd_of tasks) (addDependents js_set_add tasks)" .
  have inv: "kahn_inv (node_ids tasks) (kd_of tasks) {} Q deg"
    using start_wave [OF assms(1)] assms(1) unfolding Q_def deg_def
    by (intro kahn_inv_start) auto
  show ?thesis
    using kahn_waves_correct [OF g inv, of tasks 0] dep_edge_kd_of [OF assms(1)] unfolding ws_def by simp
qed

lemma built_plan:
  assumes "distinct (node_ids tasks)" and "\<forall>t\<in>set tasks. distinct (n_deps t) \<and> n_id t \<notin> set (n_deps t)"
  shows "\<exists>plan. buildExecutionPlan tasks = Inr plan \<and>
    waves_before (kd_of tasks) {} (map w_taskIds (p_waves plan)) \<and>
    distinct (concat (map w_taskIds (p_waves plan))) \<and>
    set (concat (map w_taskIds (p_waves plan))) = set (node_ids tasks) \<inter> Wellfounded.acc (depends tasks) \<and>
    (p_hasCycle plan \<longleftrightarrow> \<not> acyclic (depends tasks)) \<and>
    p_cycleNodes plan = (if acyclic (depends tasks) then None
      else Some (filter (\<lambda>i. i \<notin> Wellfounded.acc (depends tasks)) (node_ids tasks)))"
proof (cases "tasks = []")
  case True
  then show ?thesis by (auto simp: buildExecutionPlan_def depends_def acyclic_def)
next
  case False
  define Q where "Q = map n_id (filter (\<lambda>t. map_of (initialInDegree tasks) (n_id t) = Some 0) tasks)"
  define ws where "ws = kahn_waves tasks (addDependents js_set_add tasks) Q (initialInDegree tasks) 0"
  define A where "A = set (concat (map w_taskIds ws))"
  have w: "waves_before (kd_of tasks) {} (map w_taskIds ws)" "distinct (concat (map w_taskIds ws))"
    "A = set (node_ids tasks) \<inter> Wellfounded.acc (depends tasks)"
    using plan_waves [OF assms(1)] assms(2) unfolding A_def ws_def Q_def by simp_all
  have ac: "acyclic (depends tasks) \<longleftrightarrow> set (node_ids tasks) \<subseteq> Wellfounded.acc (depends tasks)"
    using acyclic_dep_edge_iff [of "node_ids tasks" "kd_of tasks"] kd_of_outside
      dep_edge_kd_of [OF assms(1)] by metis
  have "card A < length tasks \<longleftrightarrow> \<not> acyclic (depends tasks)"
  proof -
    have "card (set (node_ids tasks)) = length tasks"
      using distinct_card [OF assms(1)] by simp
    moreover have "card A < card (set (node_ids tasks)) \<longleftrightarrow> \<not> set (node_ids tasks) \<subseteq> A"
    proof -
      have sub: "A \<subseteq> set (node_ids tasks)" unfolding w(3) by simp
      show ?thesis
      proof (cases "set (node_ids tasks) \<subseteq> A")
        case True
        with sub have "A = set (node_ids tasks)" by (rule equalityI)
        then show ?thesis by simp
      next
        case False
        with sub have "A \<subset> set (node_ids tasks)" by blast
        then have "card A < card (set (node_ids tasks))" by (rule psubset_card_mono [rotated]) simp
        with False show ?thesis by simp
      qed
    qed
    ultimately show ?thesis unfolding ac w(3) by auto
  qed
  moreover have "find (\<lambda>t. n_id t \<in> set (n_deps t)) tasks = None"
    using assms(2) by (auto simp: find_None_iff)
  moreover have "filter (\<lambda>i. i \<notin> A) (node_ids tasks) =
      filter (\<lambda>i. i \<notin> Wellfounded.acc (depends tasks)) (node_ids tasks)"
    by (rule filter_cong) (auto simp: w(3))
  ultimately have "buildExecutionPlan tasks =
      (if \<not> acyclic (depends tasks)
       then Inr \<lparr> p_waves = ws, p_hasCycle = True,
          p_cycleNodes = Some (filter (\<lambda>i. i \<notin> Wellfounded.acc (depends tasks)) (node_ids tasks)) \<rparr>
       else Inr \<lparr> p_waves = ws, p_hasCycle = False, p_cycleNodes = None \<rparr>)"
    using False unfolding buildExecutionPlan_def Let_def ws_def [symmetric] Q_def [symmetric]
      A_def [symmetric] by simp
  then show ?thesis using w unfolding A_def by auto
qed

text \<open>
  C6. The plan of distinct tasks without repeated or self dependencies: every task of a wave has
  its known dependencies in earlier waves, no task is planned twice, the planned tasks are
  exactly those that wait on no cycle, a cycle is reported exactly when the known dependencies
  have one, and the tasks reported are those that are on a cycle or wait on one.
\<close>

theorem buildExecutionPlan_correct:
  assumes "distinct (node_ids tasks)" and "\<forall>t\<in>set tasks. distinct (n_deps t) \<and> n_id t \<notin> set (n_deps t)"
  shows "\<exists>plan. buildExecutionPlan tasks = Inr plan \<and>
    waves_before (kd_of tasks) {} (map w_taskIds (p_waves plan)) \<and>
    distinct (concat (map w_taskIds (p_waves plan))) \<and>
    set (concat (map w_taskIds (p_waves plan))) = set (node_ids tasks) \<inter> Wellfounded.acc (depends tasks) \<and>
    (p_hasCycle plan \<longleftrightarrow> \<not> acyclic (depends tasks)) \<and>
    p_cycleNodes plan = (if acyclic (depends tasks) then None
      else Some (filter (\<lambda>i. i \<notin> Wellfounded.acc (depends tasks)) (node_ids tasks)))"
  using assms by (rule built_plan)

text \<open>
  The plan throws exactly when some task lists itself as a dependency.
\<close>

theorem buildExecutionPlan_self_dependency:
  "(\<exists>e. buildExecutionPlan tasks = Inl e) \<longleftrightarrow> (\<exists>t\<in>set tasks. n_id t \<in> set (n_deps t))"
  by (auto simp: buildExecutionPlan_def find_None_iff find_Some_iff Let_def split: option.splits)

text \<open>
  The topological order lists, once each and after their known dependencies, exactly the
  tasks that wait on no cycle; repeated dependency entries do no harm.
\<close>

theorem topologicalSort_correct:
  assumes "distinct (node_ids tasks)"
  shows "distinct (topologicalSort tasks) \<and> deps_before (kd_of tasks) {} (topologicalSort tasks) \<and>
    set (topologicalSort tasks) = set (node_ids tasks) \<inter> Wellfounded.acc (depends tasks)"
proof -
  define deg where "deg = topoInDegree tasks"
  define Q where "Q = map fst (filter (\<lambda>e. snd e = 0) deg)"
  have k: "distinct (map fst deg)"
    unfolding deg_def topoInDegree_def omap_ok_def [symmetric]
    by (intro omap_ok_fold omap_ok_set) simp_all
  have "\<forall>i. map_of deg i = map_of (initialInDegree tasks) i"
    using topoInDegree_lookup [OF assms] by (simp add: deg_def)
  moreover have "distinct Q \<and> set Q = {i. map_of deg i = Some 0}"
    using k unfolding Q_def by (auto simp: distinct_map_filter map_of_eq_Some_iff image_iff)
  ultimately have inv: "kahn_inv (node_ids tasks) (kd_of tasks) {} Q deg"
    using assms by (intro kahn_inv_start) auto
  have g: "kahn_graph (node_ids tasks) (kd_of tasks) (addDependents array_push tasks)"
    by (rule kahn_graph_of) (use assms counts_ok_array_push in auto)
  show ?thesis
    using topo_loop_correct [OF g inv] dep_edge_kd_of [OF assms]
    unfolding topologicalSort_def deg_def Q_def by (simp add: Let_def)
qed

subsection \<open>The ready set of a plan\<close>

lemma kahn_waves_index:
  "map w_index (kahn_waves tasks adj Q deg n) = [n..<n + length (kahn_waves tasks adj Q deg n)]"
proof (induction tasks adj Q deg n rule: kahn_waves.induct)
  case (1 tasks adj Q deg n)
  show ?case
  proof (cases "Q = []")
    case True
    then show ?thesis by (simp add: kahn_waves.simps)
  next
    case False
    have unf: "kahn_waves tasks adj Q deg n = buildWave tasks Q n #
        kahn_waves tasks adj (snd (fold (relax js_set_add) (concat (map adj Q)) (deg, [])))
         (fst (fold (relax js_set_add) (concat (map adj Q)) (deg, []))) (Suc n)"
      using False by (subst kahn_waves.simps) (simp add: Let_def)
    show ?thesis using 1 [OF False refl] unfolding unf
      by (simp add: buildWave_def upt_conv_Cons del: upt_Suc)
  qed
qed

definition wave_done :: "string set \<Rightarrow> execution_wave \<Rightarrow> bool" where
  "wave_done completed w \<longleftrightarrow> set (w_taskIds w) \<subseteq> completed"

lemma first_open_wave_spec:
  assumes "all = pre @ ws" and "map w_index all = [0..<length all]" and "\<forall>w\<in>set pre. wave_done completed w"
  shows "first_open_wave all completed ws =
    (case dropWhile (wave_done completed) ws of
       [] \<Rightarrow> [] | w # _ \<Rightarrow> filter (\<lambda>i. i \<notin> completed) (w_taskIds w))"
  using assms(1,3)
proof (induction ws arbitrary: pre)
  case (Cons w ws)
  have "map w_index all ! length pre = [0..<length all] ! length pre" by (simp only: assms(2))
  then have i: "w_index w = length pre" by (simp add: Cons.prems nth_append del: upt_Suc)
  have pre: "list_all (\<lambda>v. list_all (\<lambda>i. i \<in> completed) (w_taskIds v)) pre"
    using Cons.prems(2) by (auto simp: list_all_iff wave_done_def)
  show ?case
  proof (cases "wave_done completed w")
    case True
    have "filter (\<lambda>i. i \<notin> completed) (w_taskIds w) = []"
      using True by (auto simp: wave_done_def filter_empty_conv)
    then show ?thesis using True pre i Cons.IH [of "pre @ [w]"] Cons.prems by simp
  next
    case False
    then have "filter (\<lambda>i. i \<notin> completed) (w_taskIds w) \<noteq> []"
      by (auto simp: wave_done_def filter_empty_conv)
    then show ?thesis using False pre i Cons.prems(1) by (simp add: Let_def)
  qed
qed simp

lemma waves_before_append:
  "waves_before kd S (pre @ w # post) \<Longrightarrow> x \<in> set w \<Longrightarrow> set (kd x) \<subseteq> S \<union> set (concat pre)"
  by (induction pre arbitrary: S) fastforce+

lemma built_plan_index:
  "buildExecutionPlan tasks = Inr plan \<Longrightarrow> map w_index (p_waves plan) = [0..<length (p_waves plan)]"
  using kahn_waves_index [of tasks "addDependents js_set_add tasks" _ "initialInDegree tasks" 0]
  by (auto simp: buildExecutionPlan_def Let_def split: if_splits option.splits)

lemma plan_ready_spec:
  assumes "distinct (node_ids tasks)" and "\<forall>t\<in>set tasks. distinct (n_deps t) \<and> n_id t \<notin> set (n_deps t)"
    and plan: "buildExecutionPlan tasks = Inr plan" and ac: "acyclic (depends tasks)"
  shows "set (plan_getReadyTasks plan completed) \<subseteq> set (node_ids tasks) - completed \<and>
    (\<forall>i\<in>set (plan_getReadyTasks plan completed). set (kd_of tasks i) \<subseteq> completed) \<and>
    (plan_getReadyTasks plan completed = [] \<longleftrightarrow> set (node_ids tasks) \<subseteq> completed)"
proof -
  define ready where "ready = plan_getReadyTasks plan completed"
  let ?ws = "p_waves plan"
  have "set (node_ids tasks) \<subseteq> Wellfounded.acc (depends tasks)"
    using ac acyclic_dep_edge_iff [of "node_ids tasks" "kd_of tasks"] kd_of_outside
      dep_edge_kd_of [OF assms(1)] by metis
  moreover obtain p where "buildExecutionPlan tasks = Inr p"
    "waves_before (kd_of tasks) {} (map w_taskIds (p_waves p))"
    "set (concat (map w_taskIds (p_waves p))) = set (node_ids tasks) \<inter> Wellfounded.acc (depends tasks)"
    "p_hasCycle p \<longleftrightarrow> \<not> acyclic (depends tasks)"
    using built_plan [OF assms(1,2)] by blast
  ultimately have w: "waves_before (kd_of tasks) {} (map w_taskIds ?ws)"
    "set (concat (map w_taskIds ?ws)) = set (node_ids tasks)" "\<not> p_hasCycle plan"
    using plan ac by auto
  have r: "ready = (case dropWhile (wave_done completed) ?ws of
       [] \<Rightarrow> [] | w # _ \<Rightarrow> filter (\<lambda>i. i \<notin> completed) (w_taskIds w))"
    using first_open_wave_spec [of ?ws "[]" ?ws completed] built_plan_index [OF plan] w(3)
    by (simp add: ready_def plan_getReadyTasks_def)
  show ?thesis
  proof (cases "dropWhile (wave_done completed) ?ws")
    case Nil
    then have "\<forall>w\<in>set ?ws. wave_done completed w" by (simp add: dropWhile_eq_Nil_conv)
    then have "set (node_ids tasks) \<subseteq> completed"
      unfolding w(2) [symmetric] by (auto simp: wave_done_def)
    then show ?thesis using r Nil unfolding ready_def by simp
  next
    case (Cons v vs)
    let ?pre = "takeWhile (wave_done completed) ?ws"
    have ws: "?ws = ?pre @ v # vs" using takeWhile_dropWhile_id [of "wave_done completed" ?ws] Cons by simp
    have open_v: "\<not> wave_done completed v" using Cons by (simp add: dropWhile_eq_Cons_conv)
    have rv: "ready = filter (\<lambda>i. i \<notin> completed) (w_taskIds v)" using r Cons by simp
    have sub: "set (w_taskIds v) \<subseteq> set (node_ids tasks)"
      unfolding w(2) [symmetric] by (subst ws) auto
    have "set (concat (map w_taskIds ?pre)) \<subseteq> completed"
      using set_takeWhileD [of _ "wave_done completed" ?ws] by (fastforce simp: wave_done_def)
    moreover have "waves_before (kd_of tasks) {} (map w_taskIds ?pre @ w_taskIds v # map w_taskIds vs)"
      using w(1) by (subst (asm) ws) simp
    ultimately have "set (kd_of tasks i) \<subseteq> completed" if "i \<in> set (w_taskIds v)" for i
      using waves_before_append [of "kd_of tasks" "{}"] that by fastforce
    moreover have "ready \<noteq> []" using open_v unfolding rv wave_done_def by (auto simp: filter_empty_conv)
    moreover have "\<not> set (node_ids tasks) \<subseteq> completed" using open_v sub by (auto simp: wave_done_def)
    ultimately show ?thesis using sub unfolding ready_def [symmetric] rv by auto
  qed
qed

text \<open>
  The ready set of an acyclic plan: its tasks are planned and not completed, every known
  dependency of theirs is completed, and it is empty only when every task is completed.
\<close>

theorem plan_getReadyTasks_correct:
  assumes "distinct (node_ids tasks)" and "\<forall>t\<in>set tasks. distinct (n_deps t) \<and> n_id t \<notin> set (n_deps t)"
    and plan: "buildExecutionPlan tasks = Inr plan" and ac: "acyclic (depends tasks)"
  shows "set (plan_getReadyTasks plan completed) \<subseteq> set (node_ids tasks) - completed \<and>
    (\<forall>i\<in>set (plan_getReadyTasks plan completed). set (kd_of tasks i) \<subseteq> completed) \<and>
    (plan_getReadyTasks plan completed = [] \<longleftrightarrow> set (node_ids tasks) \<subseteq> completed)"
  using assms by (rule plan_ready_spec)

subsection \<open>Cycles found are cycles, and every cyclic graph has one found\<close>

definition whites :: "dfs_state \<Rightarrow> string set" where
  "whites st = {i. color st i = Some White}"

fun dep_path :: "(string \<Rightarrow> string list) \<Rightarrow> string list \<Rightarrow> bool" where
  "dep_path adj [] = True"
| "dep_path adj [x] = True"
| "dep_path adj (x # y # xs) = (y \<in> set (adj x) \<and> dep_path adj (y # xs))"

definition dep_cycle :: "(string \<Rightarrow> string list) \<Rightarrow> string list \<Rightarrow> bool" where
  "dep_cycle adj c \<longleftrightarrow> c \<noteq> [] \<and> dep_path adj c \<and> hd c \<in> set (adj (last c))"

lemma dep_path_append:
  "dep_path adj (xs @ ys) \<longleftrightarrow>
     dep_path adj xs \<and> dep_path adj ys \<and> (xs = [] \<or> ys = [] \<or> hd ys \<in> set (adj (last xs)))"
proof (induction adj xs rule: dep_path.induct)
  case (2 adj x)
  then show ?case by (cases ys) auto
qed auto

definition search_inv :: "(string \<Rightarrow> string list) \<Rightarrow> dfs_state \<Rightarrow> bool" where
  "search_inv adj st \<longleftrightarrow> finite (whites st) \<and> (\<forall>i. \<forall>d\<in>set (adj i). color st d \<noteq> None) \<and> set (path st) = {i. color st i = Some Gray} \<and>
     distinct (path st) \<and> dep_path adj (path st) \<and>
     (\<forall>c\<in>set (cycles st). dep_cycle adj c) \<and>
     (cycles st = [] \<longrightarrow> {i. color st i = Some Black} \<subseteq> Wellfounded.acc (dep_edge adj))"

definition search_rel :: "dfs_state \<Rightarrow> dfs_state \<Rightarrow> bool" where
  "search_rel st st' \<longleftrightarrow> path st' = path st \<and> whites st' \<subseteq> whites st \<and>
     (\<forall>i. color st i = Some Black \<longrightarrow> color st' i = Some Black) \<and>
     (\<forall>i. color st i \<noteq> None \<longrightarrow> color st' i \<noteq> None) \<and>
     (cycles st' = [] \<longrightarrow> cycles st = [])"

lemma search_rel_refl [simp]: "search_rel st st"
  by (simp add: search_rel_def)

lemma search_rel_trans: "search_rel a b \<Longrightarrow> search_rel b c \<Longrightarrow> search_rel a c"
  by (auto simp: search_rel_def)

definition search_ok :: "(string \<Rightarrow> string list) \<Rightarrow> nat \<Rightarrow> bool" where
  "search_ok adj n \<longleftrightarrow> (\<forall>i st. search_inv adj st \<longrightarrow> color st i = Some White \<longrightarrow> card (whites st) \<le> n \<longrightarrow>
     (path st = [] \<or> i \<in> set (adj (last (path st)))) \<longrightarrow>
     (\<exists>st'. dfs n adj i st = Some st' \<and> search_inv adj st' \<and> search_rel st st' \<and> color st' i = Some Black))"

lemma from_first_split:
  "x \<in> set xs \<Longrightarrow> \<exists>ys zs. xs = ys @ x # zs \<and> from_first x xs = x # zs"
proof (induction xs)
  case (Cons y xs)
  then show ?case
  proof (cases "x = y")
    case True
    then show ?thesis by (auto simp: from_first_def)
  next
    case False
    with Cons obtain ys zs where "xs = ys @ x # zs" "from_first x xs = x # zs" by auto
    with False have "y # xs = (y # ys) @ x # zs \<and> from_first x (y # xs) = x # zs"
      by (simp add: from_first_def)
    then show ?thesis by blast
  qed
qed simp

lemma visitDep_ok:
  assumes "search_ok adj n" and inv: "search_inv adj st" and "path st \<noteq> []" and d: "d \<in> set (adj (last (path st)))"
    and "card (whites st) \<le> n"
  shows "\<exists>st'. visitDep (dfs n adj) d st = Some st' \<and> search_inv adj st' \<and> search_rel st st' \<and>
    (cycles st' = [] \<longrightarrow> color st' d = Some Black)"
proof -
  have known: "color st d \<noteq> None" using inv d by (auto simp: search_inv_def)
  show ?thesis
  proof (cases "the (color st d)")
    case White
    then have "color st d = Some White" using known by auto
    then show ?thesis using assms by (auto simp: visitDep_def search_ok_def)
  next
    case Gray
    then have g: "color st d = Some Gray" using known by auto
    then have "d \<in> set (path st)" using inv by (simp add: search_inv_def)
    from from_first_split [OF this] obtain ys zs where
      p: "path st = ys @ d # zs" "from_first d (path st) = d # zs" by blast
    then have "dep_cycle adj (from_first d (path st))"
      using inv d by (auto simp: search_inv_def dep_cycle_def dep_path_append)
    then show ?thesis using g inv p by (auto simp: visitDep_def search_inv_def search_rel_def whites_def)
  next
    case Black
    then have "color st d = Some Black" using known by auto
    then show ?thesis using inv by (auto simp: visitDep_def)
  qed
qed

lemma visitDeps_ok:
  assumes "search_ok adj n" and "set ds \<subseteq> set (adj (last (path st)))" and "search_inv adj st" and "path st \<noteq> []"
    and "card (whites st) \<le> n"
  shows "\<exists>st'. fold_opt (visitDep (dfs n adj)) ds st = Some st' \<and> search_inv adj st' \<and> search_rel st st' \<and>
    (cycles st' = [] \<longrightarrow> (\<forall>d\<in>set ds. color st' d = Some Black))"
  using assms(2-)
proof (induction ds arbitrary: st)
  case (Cons d ds)
  have d: "d \<in> set (adj (last (path st)))" using Cons.prems(1) by simp
  obtain st1 where 1: "visitDep (dfs n adj) d st = Some st1" "search_inv adj st1" "search_rel st st1"
    "cycles st1 = [] \<longrightarrow> color st1 d = Some Black"
    using visitDep_ok [OF assms(1) Cons.prems(2,3) d Cons.prems(4)] by blast
  have "card (whites st1) \<le> n"
    using 1(3) Cons.prems(2,4) card_mono [of "whites st" "whites st1"]
    by (auto simp: search_rel_def search_inv_def)
  moreover have "path st1 = path st" using 1(3) by (simp add: search_rel_def)
  ultimately obtain st2 where 2: "fold_opt (visitDep (dfs n adj)) ds st1 = Some st2" "search_inv adj st2"
    "search_rel st1 st2" "cycles st2 = [] \<longrightarrow> (\<forall>d\<in>set ds. color st2 d = Some Black)"
    using Cons.IH [of st1] Cons.prems 1(2) by auto
  have "cycles st2 = [] \<longrightarrow> (\<forall>d\<in>set (d # ds). color st2 d = Some Black)"
    using 1(4) 2(3,4) by (auto simp: search_rel_def)
  then show ?case using 1(1) 2(1,2) search_rel_trans [OF 1(3) 2(3)] by auto
qed simp

lemma enter_inv:
  assumes "search_inv adj st" and "color st i = Some White" and "path st = [] \<or> i \<in> set (adj (last (path st)))"
  shows "search_inv adj (enter i st)" and "card (whites (enter i st)) < card (whites st)"
proof -
  have w: "whites (enter i st) = whites st - {i}" by (auto simp: whites_def enter_def)
  show "card (whites (enter i st)) < card (whites st)"
    unfolding w using assms(1,2) by (intro card_Diff1_less) (auto simp: search_inv_def whites_def)
  have "i \<notin> set (path st)" using assms(1,2) by (auto simp: search_inv_def)
  then show "search_inv adj (enter i st)"
    using assms by (auto simp: search_inv_def w dep_path_append) (auto simp: enter_def dep_path_append split: if_splits)
qed

lemma leave_inv:
  assumes "search_inv adj st" and "path st = p @ [i]"
    and "cycles st = [] \<longrightarrow> (\<forall>d\<in>set (adj i). color st d = Some Black)"
  shows "search_inv adj (leave i st)"
proof -
  have i: "i \<notin> set p" "color st i = Some Gray" "set p \<union> {i} = {j. color st j = Some Gray}"
    using assms(1,2) by (auto simp: search_inv_def)
  have "set p = {j. color (leave i st) j = Some Gray}"
    using i by (auto simp: leave_def)
  moreover have "whites (leave i st) = whites st" using i by (auto simp: whites_def leave_def)
  moreover have "{j. color (leave i st) j = Some Black} \<subseteq> Wellfounded.acc (dep_edge adj)"
    if "cycles (leave i st) = []"
  proof -
    have c: "cycles st = []" using that by (simp add: leave_def)
    then have b: "{j. color st j = Some Black} \<subseteq> Wellfounded.acc (dep_edge adj)"
      using assms(1) by (simp add: search_inv_def)
    with c assms(3) have "set (adj i) \<subseteq> Wellfounded.acc (dep_edge adj)" by blast
    then have "i \<in> Wellfounded.acc (dep_edge adj)" by (rule accessible_iff [THEN iffD2])
    with b show ?thesis by (auto simp: leave_def)
  qed
  ultimately show ?thesis
    using assms(1,2) by (auto simp: search_inv_def dep_path_append leave_def)
qed

lemma dfs_all_ok: "search_ok adj n"
proof (induction n)
  case 0
  show ?case by (auto simp: search_ok_def search_inv_def whites_def card_eq_0_iff)
next
  case (Suc n)
  show ?case
    unfolding search_ok_def
  proof (intro allI impI)
    fix i st
    assume a: "search_inv adj st" "color st i = Some White" "card (whites st) \<le> Suc n"
      "path st = [] \<or> i \<in> set (adj (last (path st)))"
    note e = enter_inv [OF a(1,2,4)]
    have p: "path (enter i st) = path st @ [i]" by (simp add: enter_def)
    obtain st1 where 1: "fold_opt (visitDep (dfs n adj)) (adj i) (enter i st) = Some st1" "search_inv adj st1"
      "search_rel (enter i st) st1" "cycles st1 = [] \<longrightarrow> (\<forall>d\<in>set (adj i). color st1 d = Some Black)"
      using visitDeps_ok [OF Suc _ e(1), of "adj i"] p e(2) a(3) by auto
    have p1: "path st1 = path st @ [i]" using 1(3) p by (simp add: search_rel_def)
    have "search_inv adj (leave i st1)" by (rule leave_inv [OF 1(2) p1 1(4)])
    moreover have "search_rel st (leave i st1)"
      using 1(3) p1 a(2) by (auto simp: search_rel_def leave_def enter_def whites_def split: if_splits)
    moreover have "color (leave i st1) i = Some Black" by (simp add: leave_def)
    ultimately show "\<exists>st'. dfs (Suc n) adj i st = Some st' \<and> search_inv adj st' \<and> search_rel st st' \<and>
        color st' i = Some Black"
      using 1(1) by auto
  qed
qed

lemma dfs_roots_ok:
  assumes "search_inv adj st" and "path st = []" and "card (whites st) \<le> n" and "\<forall>t\<in>set ts. color st (n_id t) \<noteq> None"
  shows "\<exists>st'. fold_opt (\<lambda>t st. if color st (n_id t) = Some White then dfs n adj (n_id t) st else Some st)
      ts st = Some st' \<and> search_inv adj st' \<and> search_rel st st' \<and> (\<forall>t\<in>set ts. color st' (n_id t) = Some Black)"
  using assms
proof (induction ts arbitrary: st)
  case (Cons t ts)
  let ?f = "\<lambda>t st. if color st (n_id t) = Some White then dfs n adj (n_id t) st else Some st"
  have ng: "color st (n_id t) \<noteq> Some Gray" using Cons.prems(1,2) by (auto simp: search_inv_def)
  obtain st1 where 1: "?f t st = Some st1" "search_inv adj st1" "search_rel st st1" "color st1 (n_id t) = Some Black"
  proof (cases "color st (n_id t) = Some White")
    case True
    then show ?thesis using dfs_all_ok [of adj n] Cons.prems that by (auto simp: search_ok_def)
  next
    case False
    then have "color st (n_id t) = Some Black"
      using ng Cons.prems(4) by (cases "color st (n_id t)"; cases "the (color st (n_id t))") auto
    then show ?thesis using Cons.prems(1) that [of st] by simp
  qed
  have "card (whites st1) \<le> n"
    using 1(3) Cons.prems(1,3) card_mono [of "whites st" "whites st1"]
    by (auto simp: search_rel_def search_inv_def)
  moreover have "path st1 = []" "\<forall>t\<in>set ts. color st1 (n_id t) \<noteq> None"
    using 1(3) Cons.prems(2,4) by (auto simp: search_rel_def)
  ultimately obtain st2 where 2: "fold_opt ?f ts st1 = Some st2" "search_inv adj st2" "search_rel st1 st2"
    "\<forall>t\<in>set ts. color st2 (n_id t) = Some Black"
    using Cons.IH [of st1] 1(2) by blast
  have "color st2 (n_id t) = Some Black" using 1(4) 2(3) by (auto simp: search_rel_def)
  then show ?case
    using 1(1) 2(1,2,4) search_rel_trans [OF 1(3) 2(3)] by (auto simp del: if_split_asm)
qed simp

lemma dep_path_trancl:
  "dep_path adj (x # xs) \<Longrightarrow> (last (x # xs), x) \<in> (dep_edge adj)\<^sup>*"
proof (induction xs arbitrary: x)
  case (Cons y ys)
  then have "(last (y # ys), y) \<in> (dep_edge adj)\<^sup>*" "(y, x) \<in> dep_edge adj"
    by (auto simp: dep_edge_def)
  then show ?case by (auto intro: rtrancl_into_rtrancl)
qed simp

lemma dep_cycle_not_acyclic: "dep_cycle adj c \<Longrightarrow> \<not> acyclic (dep_edge adj)"
proof -
  assume "dep_cycle adj c"
  then obtain x xs where "c = x # xs" "dep_path adj (x # xs)" "x \<in> set (adj (last c))"
    by (cases c) (auto simp: dep_cycle_def)
  then have "(x, last c) \<in> dep_edge adj" "(last c, x) \<in> (dep_edge adj)\<^sup>*"
    using dep_path_trancl [of adj x xs] by (auto simp: dep_edge_def)
  then show ?thesis unfolding acyclic_def by (meson rtrancl_into_trancl2)
qed

text \<open>
  The search for cycles returns for every list of distinct tasks (its recursion is never
  deeper than the number of tasks), each sequence it reports is a cycle of the dependencies,
  and it reports none exactly when there is none.
\<close>

theorem detectCycles_correct:
  assumes "distinct (node_ids tasks)"
  shows "\<exists>cs. detectCycles tasks = Some cs \<and> (\<forall>c\<in>set cs. dep_cycle (kd_of tasks) c) \<and>
    (cs = [] \<longleftrightarrow> acyclic (depends tasks))"
proof -
  define adj where "adj = (\<lambda>i. nullish (js_map_of (map (\<lambda>t. (n_id t, known_deps tasks t)) tasks) i) [])"
  define st where "st = \<lparr> color = js_map_of (map (\<lambda>t. (n_id t, White)) tasks), path = [], cycles = [] \<rparr>"
  have adj: "adj = kd_of tasks"
  proof
    fix i
    have d: "distinct (map fst (map (\<lambda>t. (n_id t, known_deps tasks t)) tasks))"
      using assms by (simp add: comp_def)
    show "adj i = kd_of tasks i"
    proof (cases "find (\<lambda>t. n_id t = i) tasks")
      case None
      then have "js_map_of (map (\<lambda>t. (n_id t, known_deps tasks t)) tasks) i = None"
        by (simp add: js_map_of_None_iff find_key_None_iff image_image)
      then show ?thesis by (simp add: adj_def kd_of_def None)
    next
      case (Some t)
      then have "js_map_of (map (\<lambda>t. (n_id t, known_deps tasks t)) tasks) i = Some (known_deps tasks t)"
        using find_key_SomeD [OF Some] by (intro js_map_of_in [OF d]) auto
      then show ?thesis by (simp add: adj_def kd_of_def Some)
    qed
  qed
  have col: "color st i = (if i \<in> set (node_ids tasks) then Some White else None)" for i
  proof (cases "color st i")
    case None
    then show ?thesis by (auto simp: st_def js_map_of_None_iff image_image)
  next
    case (Some c)
    then show ?thesis using js_map_of_SomeD [of _ i c] by (fastforce simp: st_def)
  qed
  have "whites st = set (node_ids tasks)" by (auto simp: whites_def col)
  moreover have "\<forall>i. \<forall>d\<in>set (adj i). color st d \<noteq> None"
    unfolding adj using kd_of_known by (fastforce simp: col)
  ultimately have "search_inv adj st" "card (whites st) \<le> length tasks"
    using card_length [of "node_ids tasks"] by (auto simp: search_inv_def col) (auto simp: st_def)
  then obtain st' where st': "fold_opt (\<lambda>t st. if color st (n_id t) = Some White then dfs (length tasks) adj (n_id t) st else Some st)
      tasks st = Some st'" "search_inv adj st'" "\<forall>t\<in>set tasks. color st' (n_id t) = Some Black"
    using dfs_roots_ok [of adj st "length tasks" tasks] col by (auto simp: st_def)
  have "detectCycles tasks = Some (cycles st')"
    using st'(1) unfolding detectCycles_def Let_def adj_def [symmetric] st_def [symmetric] by simp
  moreover have "\<forall>c\<in>set (cycles st'). dep_cycle (kd_of tasks) c"
    using st'(2) unfolding adj by (simp add: search_inv_def)
  moreover have "cycles st' = [] \<longleftrightarrow> acyclic (depends tasks)"
  proof
    assume "cycles st' = []"
    then have "set (node_ids tasks) \<subseteq> Wellfounded.acc (depends tasks)"
      using st'(2,3) unfolding adj dep_edge_kd_of [OF assms, symmetric] by (auto simp: search_inv_def)
    then show "acyclic (depends tasks)"
      using acyclic_dep_edge_iff [of "node_ids tasks" "kd_of tasks"] kd_of_outside
        dep_edge_kd_of [OF assms] by metis
  next
    assume "acyclic (depends tasks)"
    then show "cycles st' = []"
      using calculation(2) dep_cycle_not_acyclic [of "kd_of tasks"] dep_edge_kd_of [OF assms]
      by (cases "cycles st'") auto
  qed
  ultimately show ?thesis by blast
qed

subsection \<open>Blocked tasks\<close>

lemma findBlockedTasks_iff:
  assumes "distinct (node_ids tasks)" and "t \<in> set tasks"
  shows "n_id t \<in> set (findBlockedTasks tasks completed) \<longleftrightarrow>
    n_id t \<notin> completed \<and> getBlockingTasks tasks (n_id t) completed \<noteq> []"
proof -
  have "u = t" if "u \<in> set tasks" "n_id u = n_id t" for u
    using find_key_in [OF assms] find_key_in [OF assms(1) that(1)] that(2) by simp
  then show ?thesis
    using assms(2) by (auto simp: findBlockedTasks_def getBlockingTasks_def find_key_in [OF assms]
        filter_empty_conv list_ex_iff)
qed

subsection \<open>Concrete inputs\<close>

definition node :: "string \<Rightarrow> string list \<Rightarrow> task_node" where
  "node i ds = \<lparr> n_id = i, n_deps = ds, n_phase = None \<rparr>"

definition diamond :: "task_node list" where
  "diamond = [node ''d'' [''b'', ''c''], node ''a'' [], node ''b'' [''a''], node ''c'' [''a'', ''gone'']]"

definition loop3 :: "task_node list" where
  "loop3 = [node ''a'' [''c''], node ''b'' [''a''], node ''c'' [''b''], node ''d'' [''c'']]"

lemma diamond_ok:
  "distinct (node_ids diamond)"
  "\<forall>t\<in>set diamond. distinct (n_deps t) \<and> n_id t \<notin> set (n_deps t)"
  by (simp_all add: diamond_def node_def)

lemma loop3_ok:
  "distinct (node_ids loop3)"
  "\<forall>t\<in>set loop3. distinct (n_deps t) \<and> n_id t \<notin> set (n_deps t)"
  by (simp_all add: loop3_def node_def)

lemma buildExecutionPlan_correct_witness:
  "\<exists>plan. buildExecutionPlan loop3 = Inr plan \<and> p_hasCycle plan \<and> \<not> acyclic (depends loop3)"
proof -
  have "map_sum id p_hasCycle (buildExecutionPlan loop3) = Inr True" by code_simp
  then show ?thesis using buildExecutionPlan_correct [OF loop3_ok] by auto
qed

lemma diamond_acyclic: "acyclic (depends diamond)"
proof -
  have "depends diamond \<subseteq> measure (\<lambda>x. of_char (hd x))"
    by (auto simp: depends_def diamond_def node_def known_deps_def)
  then show ?thesis by (rule acyclic_subset [OF wf_acyclic [OF wf_measure]])
qed

lemma plan_getReadyTasks_correct_witness:
  "\<exists>plan. buildExecutionPlan diamond = Inr plan \<and> plan_getReadyTasks plan {''a''} = [''b'', ''c''] \<and>
     set (kd_of diamond ''c'') \<subseteq> {''a''}"
proof -
  have "map_sum id (\<lambda>p. plan_getReadyTasks p {''a''}) (buildExecutionPlan diamond) = Inr [''b'', ''c'']"
    by code_simp
  then obtain plan where p: "buildExecutionPlan diamond = Inr plan"
    "plan_getReadyTasks plan {''a''} = [''b'', ''c'']"
    by (cases "buildExecutionPlan diamond") auto
  then show ?thesis
    using plan_getReadyTasks_correct [OF diamond_ok p(1) diamond_acyclic, of "{''a''}"] by auto
qed

lemma topologicalSort_correct_witness:
  "topologicalSort diamond = [''a'', ''b'', ''c'', ''d''] \<and>
   deps_before (kd_of diamond) {} [''a'', ''b'', ''c'', ''d'']"
proof -
  have "topologicalSort diamond = [''a'', ''b'', ''c'', ''d'']" by code_simp
  then show ?thesis using topologicalSort_correct [OF diamond_ok(1)] by simp
qed

lemma detectCycles_correct_witness:
  "detectCycles loop3 = Some [[''a'', ''c'', ''b'']] \<and> dep_cycle (kd_of loop3) [''a'', ''c'', ''b'']"
proof -
  have "detectCycles loop3 = Some [[''a'', ''c'', ''b'']]" by code_simp
  then show ?thesis using detectCycles_correct [OF loop3_ok(1)] by simp
qed

text \<open>
  A dependency listed twice is counted twice but removed once, so the plan reports a cycle
  where the order and the search find none.
\<close>

lemma repeated_dependency_false_cycle:
  "map_sum id p_hasCycle (buildExecutionPlan [node ''a'' [], node ''b'' [''a'', ''a'']]) = Inr True"
  "topologicalSort [node ''a'' [], node ''b'' [''a'', ''a'']] = [''a'', ''b'']"
  "detectCycles [node ''a'' [], node ''b'' [''a'', ''a'']] = Some []"
  by code_simp+

end
