(* ===== verification/MergeGate.thy ===== *)
theory MergeGate
  imports TaskGraph
begin

text \<open>
  \<open>src/src/runtime/merge-gate.ts\<close>: which updates of parallel workers may replace the
  current record of a task, and the merge of several result snapshots into a base list.
\<close>

subsection \<open>The gate on statuses\<close>

definition isNonTerminalTaskStatus :: "task_status \<Rightarrow> bool" where
  "isNonTerminalTaskStatus s \<longleftrightarrow> s = Queued \<or> s = Running \<or> s = Waiting"

definition statusMergeKey :: "task_status \<Rightarrow> task_status \<Rightarrow> string" where
  "statusMergeKey a b = task_status_str a @ ''->'' @ task_status_str b"

definition REJECTED_STATUS_MERGE_TRANSITIONS :: "string list" where
  "REJECTED_STATUS_MERGE_TRANSITIONS =
     [statusMergeKey a b. a \<leftarrow> TEAM_TASK_STATUSES, isTerminalTaskStatus a,
                          b \<leftarrow> TEAM_TASK_STATUSES, \<not> isTerminalTaskStatus b]
     @ [statusMergeKey Waiting Running]
     @ map (\<lambda>(a, b). statusMergeKey a b)
         [(Completed, Failed), (Completed, NeedsAttention), (Failed, Completed),
          (Cancelled, Completed), (NeedsAttention, Completed)]"

subsection \<open>The gate on records\<close>

fun safeFinishedAt :: "stamp option \<Rightarrow> jsnum" where
  "safeFinishedAt None = NegInf"
| "safeFinishedAt (Some x) =
     (if stamp_text x = [] then NegInf
      else case stamp_ms x of None \<Rightarrow> PosInf | Some ms \<Rightarrow> Fin (rat_of_int ms))"

definition isMalformedFinishedAtReplacement :: "jsnum \<Rightarrow> jsnum \<Rightarrow> bool" where
  "isMalformedFinishedAtReplacement current updated \<longleftrightarrow> \<not> is_finite current \<and> is_finite updated"

definition stamp_differs :: "stamp option \<Rightarrow> stamp option \<Rightarrow> bool" where
  "stamp_differs a b \<longleftrightarrow> map_option stamp_text a \<noteq> map_option stamp_text b"

definition has_elements :: "'a list option \<Rightarrow> bool" where
  "has_elements x \<longleftrightarrow> (case x of None \<Rightarrow> False | Some l \<Rightarrow> l \<noteq> [])"

definition hasMeaningfulUpdate :: "team_task \<Rightarrow> team_task \<Rightarrow> bool" where
  "hasMeaningfulUpdate current updated \<longleftrightarrow>
     status updated \<noteq> status current \<or>
     stamp_differs (finishedAt updated) (finishedAt current) \<or>
     stamp_differs (startedAt updated) (startedAt current) \<or>
     (resultArtifact updated \<noteq> None) \<noteq> (resultArtifact current \<noteq> None) \<or>
     (resultArtifact updated \<noteq> None \<and>
        map_option art_obj (resultArtifact updated) \<noteq> map_option art_obj (resultArtifact current)) \<or>
     truthy (task_error updated) \<or>
     has_elements (modelAttempts updated) \<or>
     usage updated \<noteq> None \<or>
     has_elements (attempts updated) \<or>
     stamp_differs (map_option hb_lastSeenAt (heartbeat updated))
       (map_option hb_lastSeenAt (heartbeat current)) \<or>
     jsonEvents updated \<noteq> jsonEvents current \<or>
     stamp_differs (lastActivityAt updated) (lastActivityAt current)"

definition shouldMergeTaskUpdate :: "team_task \<Rightarrow> team_task \<Rightarrow> bool" where
  "shouldMergeTaskUpdate current updated =
     (if statusMergeKey (status current) (status updated)
           \<in> set REJECTED_STATUS_MERGE_TRANSITIONS then False
      else if status current = status updated \<and> status updated = Running \<and>
              resultArtifact current \<noteq> None \<and> resultArtifact updated = None then False
      else if status current = status updated \<and> status current = Completed \<and>
              resultArtifact current \<noteq> None \<and> resultArtifact updated = None then False
      else if finishedAt current \<noteq> None \<and> finishedAt updated \<noteq> None \<and>
              isMalformedFinishedAtReplacement (safeFinishedAt (finishedAt current))
                (safeFinishedAt (finishedAt updated)) then True
      else if finishedAt current \<noteq> None \<and> finishedAt updated \<noteq> None \<and>
              js_less (safeFinishedAt (finishedAt updated)) (safeFinishedAt (finishedAt current))
           then False
      else if \<not> has_stamp (finishedAt updated) \<and> \<not> isNonTerminalTaskStatus (status updated)
           then False
      else hasMeaningfulUpdate current updated)"

subsection \<open>The merge\<close>

definition merge_one ::
    "team_task \<Rightarrow> (string \<Rightarrow> team_task option) \<Rightarrow> string \<Rightarrow> team_task option" where
  "merge_one updated indexById =
     (case indexById (task_id updated) of
        None \<Rightarrow> indexById
      | Some current \<Rightarrow>
          if \<not> shouldMergeTaskUpdate current updated then indexById
          else indexById(task_id updated \<mapsto> updated))"

definition mergeTaskUpdatesPreservingTerminal ::
    "team_task list \<Rightarrow> team_task list list \<Rightarrow> team_task list" where
  "mergeTaskUpdatesPreservingTerminal base results =
     (let indexById = fold (fold merge_one) results (index_by task_id base);
          merged = map (\<lambda>t. nullish (indexById (task_id t)) t) base
      in refreshTaskGraphQueues merged None)"

subsection \<open>The merge under the run lock\<close>

text \<open>
  \<open>mergeArtifacts\<close> of \<open>team-runner-artifacts.ts\<close> keeps one descriptor of each path, the last one, at
  the place of the first. \<open>withRunLockBusyRetryAsync\<close> of \<open>broker/protocol/lock-busy.ts\<close> asks for the run
  lock, waits after each refusal, and gives up when the delays are used up: \<open>busy k\<close> says that
  another operation holds the lock at attempt \<open>k\<close>. The result is the list of retries
  (attempt, delay) and whether the body ran.
\<close>

definition mergeArtifacts :: "artifact list \<Rightarrow> artifact list" where
  "mergeArtifacts items = map snd (foldl (\<lambda>byPath a. omap_set (art_path a) a byPath) [] items)"

definition MERGE_LOCK_BUSY_RETRY_DELAYS_MS :: "int list" where
  "MERGE_LOCK_BUSY_RETRY_DELAYS_MS = [100, 250, 500, 1000, 2000, 4000]"

fun withRunLockBusyRetryAsync :: "int list \<Rightarrow> (nat \<Rightarrow> bool) \<Rightarrow> nat \<Rightarrow> (nat \<times> int) list \<times> bool" where
  "withRunLockBusyRetryAsync delaysMs busy attempt =
     (if \<not> busy attempt then ([], True)
      else case delaysMs of
          [] \<Rightarrow> ([], False)
        | delay # rest \<Rightarrow>
            (case withRunLockBusyRetryAsync rest busy (Suc attempt) of
               (retries, acquired) \<Rightarrow> ((Suc attempt, delay) # retries, acquired)))"

declare withRunLockBusyRetryAsync.simps [simp del]

text \<open>What the callers of the merge see: the busy error of the lock, or a refused change of status.\<close>

datatype merge_error = RunLockBusy | RefusedChange run_status run_status

lemma busy_retry_ran:
  "snd (withRunLockBusyRetryAsync ds busy k) \<longleftrightarrow> \<not> list_all busy [k..<Suc (k + length ds)]"
proof (induction ds arbitrary: k)
  case Nil
  show ?case by (subst withRunLockBusyRetryAsync.simps) simp
next
  case (Cons d ds)
  have u: "[k..<Suc (k + length (d # ds))] = k # [Suc k..<Suc (Suc k + length ds)]"
    by (subst upt_conv_Cons) simp_all
  show ?case
    unfolding u by (subst withRunLockBusyRetryAsync.simps) (simp add: Cons.IH split_beta del: upt_Suc)
qed

lemma merge_lock_ran:
  "snd (withRunLockBusyRetryAsync MERGE_LOCK_BUSY_RETRY_DELAYS_MS busy 0) \<longleftrightarrow> \<not> list_all busy [0..<7]"
proof -
  have "[0..<Suc (0 + length MERGE_LOCK_BUSY_RETRY_DELAYS_MS)] = [0..<7]"
    by code_simp
  then show ?thesis by (simp only: busy_retry_ran)
qed

lemma mergeArtifacts_index:
  assumes "\<forall>(p, a)\<in>set acc. art_path a = p" and "distinct (map fst acc)"
  shows "(let m = foldl (\<lambda>byPath a. omap_set (art_path a) a byPath) acc arts
    in (\<forall>(p, a)\<in>set m. art_path a = p) \<and> distinct (map fst m) \<and>
       map_of m = fold (\<lambda>a f. f(art_path a \<mapsto> a)) arts (map_of acc))"
  using assms
proof (induction arts arbitrary: acc)
  case (Cons a arts)
  have ok: "omap_ok acc" using Cons.prems(2) by (simp add: omap_ok_def)
  have "distinct (map fst (omap_set (art_path a) a acc))"
    using omap_ok_set [OF ok, of "art_path a" a] by (simp add: omap_ok_def)
  moreover have "\<forall>(p, b)\<in>set (omap_set (art_path a) a acc). art_path b = p"
    using Cons.prems(1) by (induction "art_path a" a acc rule: omap_set.induct) (auto split: if_splits)
  ultimately show ?case using Cons.IH by (simp add: Let_def fun_upd_def)
qed (simp add: Let_def)

text \<open>
  The merged artifacts have distinct paths, the paths are those of the given ones, and for
  every path the descriptor that is kept is the last one given.
\<close>

lemma mergeArtifacts_spec:
  "distinct (map art_path (mergeArtifacts arts))"
  "a \<in> set (mergeArtifacts arts) \<longleftrightarrow> find (\<lambda>b. art_path b = art_path a) (rev arts) = Some a"
proof -
  let ?m = "foldl (\<lambda>byPath a. omap_set (art_path a) a byPath) [] arts"
  have m: "\<forall>(p, a)\<in>set ?m. art_path a = p" "distinct (map fst ?m)"
    "map_of ?m = fold (\<lambda>a f. f(art_path a \<mapsto> a)) arts Map.empty"
    using mergeArtifacts_index [of "[]" arts] by (simp_all add: Let_def)
  have p: "map art_path (mergeArtifacts arts) = map fst ?m"
    using m(1) by (auto simp: mergeArtifacts_def)
  show "distinct (map art_path (mergeArtifacts arts))" unfolding p by (rule m(2))
  have last_given: "fold (\<lambda>a f. f(art_path a \<mapsto> a)) arts Map.empty q = find (\<lambda>b. art_path b = q) (rev arts)" for q
    by (induction arts rule: rev_induct) auto
  have "a \<in> set (mergeArtifacts arts) \<longleftrightarrow> (art_path a, a) \<in> set ?m"
    using m(1) by (force simp: mergeArtifacts_def)
  also have "\<dots> \<longleftrightarrow> map_of ?m (art_path a) = Some a" using m(2) by simp
  finally show "a \<in> set (mergeArtifacts arts) \<longleftrightarrow> find (\<lambda>b. art_path b = art_path a) (rev arts) = Some a"
    unfolding m(3) last_given .
qed

subsection \<open>What the gate rejects\<close>

definition merge_rejected :: "task_status \<Rightarrow> task_status \<Rightarrow> bool" where
  "merge_rejected a b \<longleftrightarrow>
     isTerminalTaskStatus a \<and> \<not> isTerminalTaskStatus b \<or>
     a = Waiting \<and> b = Running \<or>
     a = Completed \<and> b \<in> {Failed, NeedsAttention} \<or>
     a \<in> {Failed, Cancelled, NeedsAttention} \<and> b = Completed"

lemma isNonTerminal_iff: "isNonTerminalTaskStatus s \<longleftrightarrow> \<not> isTerminalTaskStatus s"
  by (cases s) (simp_all add: isNonTerminalTaskStatus_def)

lemma rejected_exact:
  "statusMergeKey a b \<in> set REJECTED_STATUS_MERGE_TRANSITIONS \<longleftrightarrow> merge_rejected a b"
  unfolding REJECTED_STATUS_MERGE_TRANSITIONS_def TEAM_TASK_STATUSES_def merge_rejected_def
    statusMergeKey_def
  by (cases a; cases b) simp_all

text \<open>
  The status pairs the merge gate rejects are exactly: from a terminal status to one that is
  not, from waiting to running, from completed to failed or needs-attention, and from failed,
  cancelled or needs-attention to completed.
\<close>

theorem rejected_transitions_exact:
  "statusMergeKey a b \<in> set REJECTED_STATUS_MERGE_TRANSITIONS \<longleftrightarrow> merge_rejected a b"
  by (rule rejected_exact)

inductive gate_walk :: "task_status \<Rightarrow> task_status \<Rightarrow> bool" where
  gate_walk_refl: "gate_walk s s"
| gate_walk_step: "gate_walk s t \<Longrightarrow> \<not> merge_rejected t u \<Longrightarrow> gate_walk s u"

lemma gate_walk_terminal: "gate_walk s t \<Longrightarrow> isTerminalTaskStatus s \<Longrightarrow> isTerminalTaskStatus t"
  by (induction rule: gate_walk.induct) (auto simp: merge_rejected_def)

lemma gate_walk2: "\<not> merge_rejected s t \<Longrightarrow> \<not> merge_rejected t u \<Longrightarrow> gate_walk s u"
  by (rule gate_walk_step [OF gate_walk_step [OF gate_walk_refl]])

text \<open>
  What the gate guarantees over several accepted updates: a terminal status stays terminal,
  and nothing more. In particular a completed task can still end up failed, over skipped or
  cancelled, and a waiting one running, over queued.
\<close>

theorem gate_walk_iff:
  "gate_walk s t \<longleftrightarrow> (isTerminalTaskStatus s \<longrightarrow> isTerminalTaskStatus t)"
proof
  assume a: "isTerminalTaskStatus s \<longrightarrow> isTerminalTaskStatus t"
  show "gate_walk s t"
  proof (cases "s = t")
    case True
    then show ?thesis by (simp add: gate_walk_refl)
  next
    case ne: False
    show ?thesis
    proof (cases "s = Waiting \<and> t = Running")
      case True
      then show ?thesis using gate_walk2 [of s Queued t] by (simp add: merge_rejected_def)
    next
      case False
      then show ?thesis
        using a ne gate_walk2 [of s Skipped t] gate_walk2 [of s s t] by (cases s; cases t) (simp_all add: merge_rejected_def)
    qed
  qed
qed (blast intro: gate_walk_terminal)

subsection \<open>Sequences of gated updates\<close>

text \<open>
  A gate decides whether an update may replace the current value. Whatever preorder every
  accepted update respects is respected by a whole sequence of updates.
\<close>

locale gated_updates =
  fixes gate :: "'a \<Rightarrow> 'a \<Rightarrow> bool"
    and keeps :: "'a \<Rightarrow> 'a \<Rightarrow> bool"
    and good :: "'a \<Rightarrow> bool"
  assumes keeps_refl: "keeps a a"
    and keeps_trans: "keeps a b \<Longrightarrow> keeps b c \<Longrightarrow> keeps a c"
    and gate_keeps: "good a \<Longrightarrow> good b \<Longrightarrow> gate a b \<Longrightarrow> keeps a b"
begin

definition accept :: "'a \<Rightarrow> 'a \<Rightarrow> 'a" where
  "accept u c = (if gate c u then u else c)"

lemma accept_keeps: "good c \<Longrightarrow> good u \<Longrightarrow> keeps c (accept u c)"
  by (simp add: accept_def keeps_refl gate_keeps)

lemma fold_accept_keeps:
  "good c \<Longrightarrow> \<forall>u\<in>set us. good u \<Longrightarrow> keeps c (fold accept us c)"
proof (induction us arbitrary: c)
  case (Cons u us)
  have g: "good (accept u c)" using Cons.prems by (simp add: accept_def)
  have "keeps (accept u c) (fold accept us (accept u c))"
    by (rule Cons.IH [OF g]) (use Cons.prems in simp)
  with accept_keeps [of c u] Cons.prems show ?case by (auto intro: keeps_trans)
qed (simp add: keeps_refl)

end

text \<open>The update that wins, written out for the merge gate.\<close>

definition accept_update :: "team_task \<Rightarrow> team_task \<Rightarrow> team_task" where
  "accept_update u c = (if shouldMergeTaskUpdate c u then u else c)"

definition terminal_kept :: "team_task \<Rightarrow> team_task \<Rightarrow> bool" where
  "terminal_kept a b \<longleftrightarrow> (isTerminalTaskStatus (status a) \<longrightarrow> isTerminalTaskStatus (status b))"

lemma shouldMerge_not_rejected:
  "shouldMergeTaskUpdate c u \<Longrightarrow> \<not> merge_rejected (status c) (status u)"
  by (auto simp: shouldMergeTaskUpdate_def rejected_exact)

interpretation tg: gated_updates shouldMergeTaskUpdate terminal_kept "\<lambda>_. True"
  by unfold_locales (auto simp: terminal_kept_def merge_rejected_def dest: shouldMerge_not_rejected)

definition stamped :: "team_task \<Rightarrow> bool" where
  "stamped t \<longleftrightarrow> isTerminalTaskStatus (status t) \<and>
     (\<exists>x ms. finishedAt t = Some x \<and> stamp_text x \<noteq> [] \<and> stamp_ms x = Some ms)"

definition finished_ms :: "team_task \<Rightarrow> int" where
  "finished_ms t = the (stamp_ms (the (finishedAt t)))"

definition no_earlier :: "team_task \<Rightarrow> team_task \<Rightarrow> bool" where
  "no_earlier a b \<longleftrightarrow> finished_ms a \<le> finished_ms b"

interpretation fg: gated_updates shouldMergeTaskUpdate no_earlier stamped
  by unfold_locales
    (auto simp: no_earlier_def stamped_def finished_ms_def shouldMergeTaskUpdate_def
      isMalformedFinishedAtReplacement_def split: if_splits)

lemma accept_update_eq: "accept_update = tg.accept" "accept_update = fg.accept"
  by (simp_all add: fun_eq_iff accept_update_def tg.accept_def fg.accept_def)

subsection \<open>The merge\<close>

lemma fold_fold_concat: "fold (fold f) xss s = fold f (concat xss) s"
  by (induction xss arbitrary: s) simp_all

lemma merge_one_lookup:
  "merge_one u idx i =
     map_option (\<lambda>t. if task_id u = i then accept_update u t else t) (idx i)"
  by (auto simp: merge_one_def accept_update_def option.map_ident split: option.splits)

lemma fold_merge_lookup:
  "fold merge_one us idx i =
     map_option (fold accept_update (filter (\<lambda>u. task_id u = i) us)) (idx i)"
proof (induction us arbitrary: idx)
  case (Cons u us)
  then show ?case
    by (cases "idx i") (simp_all add: merge_one_lookup)
qed (simp add: option.map_id)

lemma merge_map:
  assumes "distinct (map task_id base)"
  shows "mergeTaskUpdatesPreservingTerminal base results =
    refreshTaskGraphQueues
      (map (\<lambda>t. fold accept_update (filter (\<lambda>u. task_id u = task_id t) (concat results)) t) base) None"
proof -
  have "map (\<lambda>t. nullish (fold (fold merge_one) results (index_by task_id base) (task_id t)) t) base =
    map (\<lambda>t. fold accept_update (filter (\<lambda>u. task_id u = task_id t) (concat results)) t) base"
    using index_by_in [OF assms] by (simp add: fold_fold_concat fold_merge_lookup)
  then show ?thesis by (simp only: mergeTaskUpdatesPreservingTerminal_def Let_def)
qed

text \<open>
  The merge of several result snapshots is, for each base task on its own and in base order,
  the fold of the gate over the updates with its id in arrival order; updates of unknown ids
  are dropped, and the queue positions are recomputed at the end.
\<close>

theorem merge_exact:
  assumes "distinct (map task_id base)"
  shows "mergeTaskUpdatesPreservingTerminal base results =
    refreshTaskGraphQueues
      (map (\<lambda>t. fold accept_update (filter (\<lambda>u. task_id u = task_id t) (concat results)) t) base) None"
  using assms by (rule merge_map)

lemma fold_accept_id:
  "task_id ` set us \<subseteq> {i} \<Longrightarrow> task_id c = i \<Longrightarrow> task_id (fold accept_update us c) = i"
  by (induction us arbitrary: c) (simp_all add: accept_update_def)

lemma merge_keeps_terminal:
  assumes "distinct (map task_id base)"
  shows "list_all2 (\<lambda>t m. task_id m = task_id t \<and>
      (isTerminalTaskStatus (status t) \<longrightarrow> isTerminalTaskStatus (status m)))
    base (mergeTaskUpdatesPreservingTerminal base results)"
proof -
  have "terminal_kept t (fold accept_update us t)" for t us
    unfolding accept_update_eq(1) by (rule tg.fold_accept_keeps) simp_all
  then show ?thesis
    unfolding merge_map [OF assms] refreshTaskGraphQueues_def map_map
    by (intro list_all2_mapI) (auto simp: terminal_kept_def intro!: fold_accept_id)
qed

text \<open>
  C7. A merge keeps the ids and the order of the base list and never takes a terminal task back
  to a status that is not terminal, whatever stale snapshots arrive and in whatever order.
\<close>

theorem merge_preserves_terminal:
  assumes "distinct (map task_id base)"
  shows "list_all2 (\<lambda>t m. task_id m = task_id t \<and>
      (isTerminalTaskStatus (status t) \<longrightarrow> isTerminalTaskStatus (status m)))
    base (mergeTaskUpdatesPreservingTerminal base results)"
  using assms by (rule merge_keeps_terminal)

text \<open>
  Among terminal records with readable completion times, a merge never moves the completion
  time of a task backwards.
\<close>

theorem merge_never_earlier:
  assumes "distinct (map task_id base)" and "\<forall>t\<in>set base. stamped t" and "\<forall>u\<in>set (concat results). stamped u"
  shows "list_all2 (\<lambda>t m. finished_ms t \<le> finished_ms m)
    base (mergeTaskUpdatesPreservingTerminal base results)"
proof -
  have "no_earlier t (fold accept_update us t)" if "t \<in> set base" "set us \<subseteq> set (concat results)" for t us
    unfolding accept_update_eq(2) by (rule fg.fold_accept_keeps) (use that assms in blast)+
  then show ?thesis
    unfolding merge_map [OF assms(1)] refreshTaskGraphQueues_def map_map
    by (intro list_all2_mapI) (simp add: no_earlier_def finished_ms_def subset_eq)
qed

text \<open>
  Merging unchanged copies of the base list, however many, only recomputes the queues.
\<close>

theorem merge_same_snapshot:
  assumes "distinct (map task_id base)"
  shows "mergeTaskUpdatesPreservingTerminal base (replicate n base) = refreshTaskGraphQueues base None"
proof -
  have same: "fold accept_update us t = t" if "set us \<subseteq> {t}" for us and t :: team_task
    using that
  proof (induction us)
    case (Cons u us)
    then have "u = t" "set us \<subseteq> {t}" by (simp_all only: list.set insert_subset singleton_iff)
    then show ?case using Cons.IH by (simp only: fold.simps o_apply accept_update_def if_cancel)
  qed (simp only: fold.simps id_apply)
  have uniq: "u = t" if "u \<in> set base" "t \<in> set base" "task_id u = task_id t" for u t
    using that assms by (metis distinct_map inj_onD)
  have sub: "set (concat (replicate n base)) \<subseteq> set base" by (auto simp: set_replicate_conv_if)
  have "set (filter (\<lambda>u. task_id u = task_id t) (concat (replicate n base))) \<subseteq> {t}"
    if "t \<in> set base" for t
  proof
    fix u assume "u \<in> set (filter (\<lambda>u. task_id u = task_id t) (concat (replicate n base)))"
    then have "u \<in> set base" "task_id u = task_id t" using sub by auto
    then have "u = t" by (intro uniq that)
    then show "u \<in> {t}" by (simp only: singleton_iff)
  qed
  then have "map (\<lambda>t. fold accept_update (filter (\<lambda>u. task_id u = task_id t)
      (concat (replicate n base))) t) base = base"
    by (intro map_idI same)
  then show ?thesis by (simp only: merge_map [OF assms])
qed

subsection \<open>Concrete inputs\<close>

definition done_task :: "string \<Rightarrow> task_status \<Rightarrow> int \<Rightarrow> team_task" where
  "done_task i s ms = (blank_task i)\<lparr>status := s, finishedAt := Some (Stamp ''t'' (Some ms))\<rparr>"

definition base2 :: "team_task list" where
  "base2 = [done_task ''a'' Completed 5, blank_task ''b'']"

lemma merge_exact_witness:
  "distinct (map task_id base2) \<and>
   map status (mergeTaskUpdatesPreservingTerminal base2
     [[done_task ''a'' Failed 9, done_task ''b'' Completed 7], [blank_task ''a'', blank_task ''b'']])
   = [Completed, Completed]"
proof
  show d: "distinct (map task_id base2)" by (simp add: base2_def done_task_def)
  show "map status (mergeTaskUpdatesPreservingTerminal base2
     [[done_task ''a'' Failed 9, done_task ''b'' Completed 7], [blank_task ''a'', blank_task ''b'']])
   = [Completed, Completed]"
    unfolding merge_exact [OF d] by code_simp
qed

lemma merge_preserves_terminal_witness:
  "\<exists>m ms. mergeTaskUpdatesPreservingTerminal base2 [[blank_task ''a'']] = m # ms \<and>
     isTerminalTaskStatus (status m)"
proof -
  have d: "distinct (map task_id base2)" by (simp add: base2_def done_task_def)
  have "status (done_task ''a'' Completed 5) = Completed" by (simp add: done_task_def)
  with merge_preserves_terminal [OF d, of "[[blank_task ''a'']]"] show ?thesis
    by (auto simp: base2_def list_all2_Cons1)
qed

lemma merge_never_earlier_witness:
  "\<exists>m. mergeTaskUpdatesPreservingTerminal [done_task ''a'' Completed 5] [[done_task ''a'' Cancelled 3]] = [m]
     \<and> 5 \<le> finished_ms m"
proof -
  have "finished_ms (done_task ''a'' Completed 5) = 5" by (simp add: finished_ms_def done_task_def)
  with merge_never_earlier [of "[done_task ''a'' Completed 5]" "[[done_task ''a'' Cancelled 3]]"]
  show ?thesis by (auto simp: stamped_def done_task_def list_all2_Cons1)
qed

lemma merge_same_snapshot_witness:
  "mergeTaskUpdatesPreservingTerminal base2 (replicate 3 base2) = refreshTaskGraphQueues base2 None"
  by (rule merge_same_snapshot) (simp add: base2_def done_task_def)

lemma gate_walk_iff_witness:
  "gate_walk Completed Failed \<and> \<not> gate_walk Completed Running"
  using gate_walk_iff [of Completed Failed] gate_walk_iff [of Completed Running] by simp

end
