(* ===== verification/StateHelpers.thy ===== *)
theory StateHelpers
  imports TaskModel
begin

text \<open>
  \<open>src/src/runtime/task-runner/state-helpers.ts\<close>: how a worker's record of its own task is
  merged with the record on disk, the compare-and-swap loop of
  \<open>persistSingleTaskUpdate\<close>, and the checkpoint of a task. What the file system answers in
  each attempt of the loop is an argument, \<open>nat \<Rightarrow> cas_attempt\<close>.
\<close>

definition updateTask :: "team_task list \<Rightarrow> team_task \<Rightarrow> team_task list" where
  "updateTask tasks updated = map (\<lambda>t. if task_id t = task_id updated then updated else t) tasks"

subsection \<open>Merging with the record on disk\<close>

definition merge_allocation ::
    "task_allocation option \<Rightarrow> task_allocation option \<Rightarrow> task_allocation option" where
  "merge_allocation disk incoming =
     (case (disk, incoming) of
        (Some d, None) \<Rightarrow> Some d
      | (Some d, Some i) \<Rightarrow>
          Some \<lparr> tokensGranted = tokensGranted d,
                 tokensSpent = Some (js_max (nullish (tokensSpent d) (Fin 0))
                                            (nullish (tokensSpent i) (Fin 0))) \<rparr>
      | (None, i) \<Rightarrow> i)"

definition mergeTaskUpdateWithDisk :: "team_task list \<Rightarrow> team_task \<Rightarrow> team_task" where
  "mergeTaskUpdateWithDisk diskTasks incoming =
     (case find (\<lambda>t. task_id t = task_id incoming) diskTasks of
        None \<Rightarrow> incoming
      | Some disk \<Rightarrow>
          (let e1 = (if isTerminalTaskStatus (status incoming) \<and> isTerminalTaskStatus (status disk) \<and>
                        status disk \<noteq> status incoming
                     then incoming\<lparr>status := status disk, task_error := task_error disk\<rparr>
                     else incoming);
               e2 = e1\<lparr>allocation := merge_allocation (allocation disk) (allocation incoming)\<rparr>
           in if status disk = Waiting \<and> waiting disk \<noteq> None \<and> waiting incoming = None \<and>
                 \<not> isTerminalTaskStatus (status e2)
              then e2\<lparr>status := Waiting, waiting := waiting disk\<rparr>
              else e2))"

subsection \<open>The compare-and-swap loop\<close>

text \<open>
  One attempt sees the modification time before the load (0 when the file cannot be
  examined), the tasks it loads (\<open>None\<close> when the run is not on disk) and the time before the
  write (\<open>None\<close> when the file is gone).
\<close>

record cas_attempt =
  baseMtime :: int
  loadedTasks :: "team_task list option"
  currentMtime :: "int option"

definition MAX_CAS_ATTEMPTS :: nat where
  "MAX_CAS_ATTEMPTS = 10"

definition attempt_merge :: "team_task list \<Rightarrow> team_task \<Rightarrow> cas_attempt \<Rightarrow> team_task list" where
  "attempt_merge fallbackTasks t a =
     (let latest = nullish (loadedTasks a) fallbackTasks
      in updateTask latest (mergeTaskUpdateWithDisk latest t))"

datatype loop_end = LoopLeft "team_task list option" | RunStateGone

fun cas_loop ::
    "nat \<Rightarrow> (nat \<Rightarrow> cas_attempt) \<Rightarrow> nat \<Rightarrow> team_task list \<Rightarrow> team_task
      \<Rightarrow> team_task list option \<Rightarrow> loop_end" where
  "cas_loop 0 env k fallbackTasks t merged = LoopLeft merged"
| "cas_loop (Suc n) env k fallbackTasks t merged =
     (let m = attempt_merge fallbackTasks t (env k) in
      case currentMtime (env k) of
        None \<Rightarrow> RunStateGone
      | Some now \<Rightarrow> if now \<noteq> baseMtime (env k) then cas_loop n env (Suc k) fallbackTasks t (Some m)
                     else LoopLeft (Some m))"

datatype write_mode = Buffered | Immediate | BufferedBestEffort

datatype persist_result =
  Persisted write_mode "team_task list"
| NothingWritten "team_task list"
| DidNotConverge

definition with_checkpoint :: "team_task \<Rightarrow> checkpoint_phase option \<Rightarrow> stamp \<Rightarrow> team_task" where
  "with_checkpoint t phase now =
     (case phase of None \<Rightarrow> t
      | Some p \<Rightarrow> t\<lparr>checkpoint := Some \<lparr> ck_phase = p, ck_updatedAt = now, ck_childPid = None,
          ck_childPgid = None, ck_childStartTime = None, ck_childUid = None \<rparr>\<rparr>)"

definition persistSingleTaskUpdate ::
    "(nat \<Rightarrow> cas_attempt) \<Rightarrow> team_task list \<Rightarrow> team_task \<Rightarrow> checkpoint_phase option \<Rightarrow> bool \<Rightarrow> bool
      \<Rightarrow> stamp \<Rightarrow> persist_result" where
  "persistSingleTaskUpdate env fallbackTasks updated phase skipCoalesce skipFsyncConfig now =
     (case cas_loop MAX_CAS_ATTEMPTS env 0 fallbackTasks (with_checkpoint updated phase now) None of
        RunStateGone \<Rightarrow> NothingWritten fallbackTasks
      | LoopLeft None \<Rightarrow> DidNotConverge
      | LoopLeft (Some merged) \<Rightarrow>
          if \<not> skipCoalesce \<and> skipFsyncConfig then Persisted BufferedBestEffort merged
          else Persisted (if skipCoalesce then Immediate else Buffered) merged)"

subsection \<open>Checkpoints\<close>

record proc_identity =
  pi_pgid :: "nat option"
  pi_starttime :: "string option"
  pi_uid :: "nat option"

definition orElse :: "'a option \<Rightarrow> 'a option \<Rightarrow> 'a option" where
  "orElse x y = (case x of None \<Rightarrow> y | Some _ \<Rightarrow> x)"

definition next_checkpoint ::
    "checkpoint_state option \<Rightarrow> checkpoint_phase \<Rightarrow> nat option \<Rightarrow> proc_identity option \<Rightarrow> stamp
      \<Rightarrow> checkpoint_state" where
  "next_checkpoint previous phase childPid identity now =
     (let prevPid = Option.bind previous ck_childPid;
          sameChild = (childPid = None \<or> childPid = prevPid)
      in \<lparr> ck_phase = phase, ck_updatedAt = now,
           ck_childPid = orElse childPid prevPid,
           ck_childPgid = orElse (Option.bind identity pi_pgid)
             (if sameChild then Option.bind previous ck_childPgid else None),
           ck_childStartTime = orElse (Option.bind identity pi_starttime)
             (if sameChild then Option.bind previous ck_childStartTime else None),
           ck_childUid = orElse (Option.bind identity pi_uid)
             (if sameChild then Option.bind previous ck_childUid else None) \<rparr>)"

definition checkpointTask ::
    "(nat \<Rightarrow> cas_attempt) \<Rightarrow> team_task list \<Rightarrow> team_task \<Rightarrow> checkpoint_phase \<Rightarrow> nat option
      \<Rightarrow> proc_identity option \<Rightarrow> bool \<Rightarrow> stamp \<Rightarrow> team_task \<times> persist_result" where
  "checkpointTask env tasks t phase childPid identity skipFsyncConfig now =
     (let nextTask = t\<lparr>checkpoint := Some (next_checkpoint (checkpoint t) phase childPid identity now)\<rparr>
      in (nextTask,
          persistSingleTaskUpdate env (updateTask tasks nextTask) nextTask None False
            skipFsyncConfig now))"

subsection \<open>The merge respects the disk\<close>

lemma merge_id [simp]: "task_id (mergeTaskUpdateWithDisk disk t) = task_id t"
  by (auto simp: mergeTaskUpdateWithDisk_def Let_def split: option.splits)

lemma merge_status:
  "find (\<lambda>d. task_id d = task_id t) disk = Some d \<Longrightarrow>
   status (mergeTaskUpdateWithDisk disk t) =
     (if isTerminalTaskStatus (status t)
      then if isTerminalTaskStatus (status d) then status d else status t
      else if status d = Waiting \<and> waiting d \<noteq> None \<and> waiting t = None then Waiting
      else status t)"
  by (auto simp: mergeTaskUpdateWithDisk_def Let_def)

lemma merge_error:
  "find (\<lambda>d. task_id d = task_id t) disk = Some d \<Longrightarrow>
   task_error (mergeTaskUpdateWithDisk disk t) =
     (if isTerminalTaskStatus (status t) \<and> isTerminalTaskStatus (status d) \<and> status d \<noteq> status t
      then task_error d else task_error t)"
  by (auto simp: mergeTaskUpdateWithDisk_def Let_def)

lemma merge_waiting:
  "find (\<lambda>d. task_id d = task_id t) disk = Some d \<Longrightarrow>
   waiting (mergeTaskUpdateWithDisk disk t) =
     (if \<not> isTerminalTaskStatus (status t) \<and> status d = Waiting \<and> waiting d \<noteq> None \<and> waiting t = None
      then waiting d else waiting t)"
  by (auto simp: mergeTaskUpdateWithDisk_def Let_def)

lemma merge_alloc:
  "find (\<lambda>d. task_id d = task_id t) disk = Some d \<Longrightarrow>
   allocation (mergeTaskUpdateWithDisk disk t) = merge_allocation (allocation d) (allocation t)"
  by (auto simp: mergeTaskUpdateWithDisk_def Let_def)

text \<open>
  Merging a worker's record with the disk never changes a terminal verdict the disk
  holds: when both are terminal the status and, where they differ, the error are the disk's.
  A live park survives every update that is not terminal and does not know of it, and the
  budget the disk has granted is never replaced.
\<close>

theorem disk_verdict_kept:
  assumes "distinct (map task_id disk)" and "d \<in> set disk" and "task_id d = task_id t"
  shows "(isTerminalTaskStatus (status t) \<and> isTerminalTaskStatus (status d) \<longrightarrow>
           status (mergeTaskUpdateWithDisk disk t) = status d \<and>
           (status d \<noteq> status t \<longrightarrow> task_error (mergeTaskUpdateWithDisk disk t) = task_error d)) \<and>
         (status d = Waiting \<and> waiting d \<noteq> None \<and> waiting t = None \<and> \<not> isTerminalTaskStatus (status t) \<longrightarrow>
           status (mergeTaskUpdateWithDisk disk t) = Waiting \<and>
           waiting (mergeTaskUpdateWithDisk disk t) = waiting d) \<and>
         (allocation d \<noteq> None \<longrightarrow>
           map_option tokensGranted (allocation (mergeTaskUpdateWithDisk disk t)) =
             map_option tokensGranted (allocation d))"
proof -
  have "find (\<lambda>d. task_id d = task_id t) disk = Some d"
    using find_key_in [OF assms(1,2)] assms(3) by simp
  note f = merge_status [OF this] merge_error [OF this] merge_waiting [OF this] merge_alloc [OF this]
  show ?thesis
    by (auto simp: f merge_allocation_def split: option.splits)
qed

text \<open>
  The tokens a task has spent according to the disk are never lost to a worker's older
  copy: after a merge the record counts at least as many.
\<close>

theorem spent_tokens_never_lost:
  assumes "distinct (map task_id disk)" and "d \<in> set disk" and "task_id d = task_id t"
    and "allocation d = Some a" and "tokensSpent a = Some (Fin spent)"
    and "\<forall>b. allocation t = Some b \<longrightarrow> (\<forall>x. tokensSpent b = Some x \<longrightarrow> is_finite x)"
  shows "\<exists>b s. allocation (mergeTaskUpdateWithDisk disk t) = Some b \<and> tokensSpent b = Some (Fin s) \<and> spent \<le> s"
proof -
  have "find (\<lambda>d. task_id d = task_id t) disk = Some d"
    using find_key_in [OF assms(1,2)] assms(3) by simp
  from merge_alloc [OF this] show ?thesis
  proof (cases "allocation t")
    case (Some b)
    show ?thesis
    proof (cases "tokensSpent b")
      case None
      then show ?thesis
        using \<open>allocation (mergeTaskUpdateWithDisk disk t) = _\<close> assms(4,5) Some
        by (auto simp: merge_allocation_def)
    next
      case (Some x)
      then obtain r where "x = Fin r" using assms(6) \<open>allocation t = Some b\<close> by (cases x) auto
      then show ?thesis
        using \<open>allocation (mergeTaskUpdateWithDisk disk t) = _\<close> assms(4,5) \<open>allocation t = Some b\<close> Some
        by (auto simp: merge_allocation_def)
    qed
  qed (use assms(4,5) in \<open>auto simp: merge_allocation_def\<close>)
qed

subsection \<open>The loop\<close>

definition attempt_stable :: "cas_attempt \<Rightarrow> bool" where
  "attempt_stable a \<longleftrightarrow> currentMtime a = Some (baseMtime a)"

definition attempt_raced :: "cas_attempt \<Rightarrow> bool" where
  "attempt_raced a \<longleftrightarrow> (\<exists>m. currentMtime a = Some m \<and> m \<noteq> baseMtime a)"

lemma cas_loop_stable:
  "\<forall>j<n. attempt_raced (env (k + j)) \<Longrightarrow> attempt_stable (env (k + n)) \<Longrightarrow> n < r \<Longrightarrow>
   cas_loop r env k fb t m = LoopLeft (Some (attempt_merge fb t (env (k + n))))"
proof (induction n arbitrary: r k m)
  case 0
  then show ?case by (cases r) (auto simp: attempt_stable_def Let_def)
next
  case (Suc n)
  then obtain r' where r: "r = Suc r'" by (cases r) auto
  have "attempt_raced (env k)" using Suc.prems(1) by force
  moreover have "\<forall>j<n. attempt_raced (env (Suc k + j))"
  proof (intro allI impI)
    fix j assume "j < n"
    then have "Suc j < Suc n" by simp
    then have "attempt_raced (env (k + Suc j))" using Suc.prems(1) by blast
    then show "attempt_raced (env (Suc k + j))" by simp
  qed
  ultimately show ?case
    using Suc.IH [of "Suc k" r'] Suc.prems(2,3) by (auto simp: r attempt_raced_def Let_def)
qed

lemma cas_loop_raced:
  "\<forall>j<Suc n. attempt_raced (env (k + j)) \<Longrightarrow>
   cas_loop (Suc n) env k fb t m = LoopLeft (Some (attempt_merge fb t (env (k + n))))"
proof (induction n arbitrary: k m)
  case 0
  then show ?case by (auto simp: attempt_raced_def Let_def)
next
  case (Suc n)
  have "attempt_raced (env k)" using Suc.prems by force
  moreover have "\<forall>j<Suc n. attempt_raced (env (Suc k + j))"
  proof (intro allI impI)
    fix j assume "j < Suc n"
    then have "Suc j < Suc (Suc n)" by simp
    then have "attempt_raced (env (k + Suc j))" using Suc.prems by blast
    then show "attempt_raced (env (Suc k + j))" by simp
  qed
  ultimately show ?case
    using Suc.IH [of "Suc k"] by (auto simp: attempt_raced_def Let_def simp del: cas_loop.simps(2))
      (auto simp: Let_def)
qed

lemma cas_loop_merged: "cas_loop r env k fb t (Some m) \<noteq> LoopLeft None"
  by (induction r arbitrary: k m) (auto simp: Let_def split: option.splits)

lemma cas_loop_Suc_merged: "cas_loop (Suc n) env k fb t m \<noteq> LoopLeft None"
  by (auto simp: Let_def cas_loop_merged split: option.splits)

text \<open>
  When some attempt within the bound finds the file unchanged between its load and its
  write, and the earlier ones were raced, what is written is the tasks that attempt loaded with
  this one task replaced by the merge of its record with the disk; every sibling keeps the
  record on disk, whatever the worker's own snapshot says about it.
\<close>

theorem persist_stable_attempt:
  assumes "n < MAX_CAS_ATTEMPTS" and "\<forall>j<n. attempt_raced (env j)" and "attempt_stable (env n)"
    and "loadedTasks (env n) = Some disk"
  shows "\<exists>mode. persistSingleTaskUpdate env fallbackTasks u phase skip cfg now =
    Persisted mode (map (\<lambda>t. if task_id t = task_id u
       then mergeTaskUpdateWithDisk disk (with_checkpoint u phase now) else t) disk)"
proof -
  have "task_id (with_checkpoint u phase now) = task_id u"
    by (simp add: with_checkpoint_def split: option.splits)
  then show ?thesis
    using cas_loop_stable [of n env 0 MAX_CAS_ATTEMPTS fallbackTasks "with_checkpoint u phase now" None]
      assms by (simp add: persistSingleTaskUpdate_def attempt_merge_def updateTask_def)
qed

text \<open>
  Losing the race in all ten attempts is never reported: the call writes the merge of
  its last attempt, over whatever the racing writer has committed meanwhile, and its error
  for a loop that did not converge is unreachable.
\<close>

theorem persist_unreported_race:
  "persistSingleTaskUpdate env fallbackTasks u phase skip cfg now \<noteq> DidNotConverge \<and>
   ((\<forall>j<MAX_CAS_ATTEMPTS. attempt_raced (env j)) \<longrightarrow>
     (\<exists>mode. persistSingleTaskUpdate env fallbackTasks u phase skip cfg now =
        Persisted mode (attempt_merge fallbackTasks (with_checkpoint u phase now)
          (env (MAX_CAS_ATTEMPTS - 1)))))"
proof
  have ten: "MAX_CAS_ATTEMPTS = Suc 9" by (simp add: MAX_CAS_ATTEMPTS_def)
  have "cas_loop MAX_CAS_ATTEMPTS env 0 fb t None \<noteq> LoopLeft None" for fb t
    unfolding ten by (rule cas_loop_Suc_merged)
  then show "persistSingleTaskUpdate env fallbackTasks u phase skip cfg now \<noteq> DidNotConverge"
    unfolding persistSingleTaskUpdate_def by (auto split: loop_end.splits option.splits)
  show "(\<forall>j<MAX_CAS_ATTEMPTS. attempt_raced (env j)) \<longrightarrow>
     (\<exists>mode. persistSingleTaskUpdate env fallbackTasks u phase skip cfg now =
        Persisted mode (attempt_merge fallbackTasks (with_checkpoint u phase now)
          (env (MAX_CAS_ATTEMPTS - 1))))"
    using cas_loop_raced [of 9 env 0] unfolding persistSingleTaskUpdate_def ten by simp
qed

text \<open>
  A checkpoint keeps the identity of the child it was taken for: while the child stays the
  same process id, or none is given, the start time, group and user carry over unless new ones
  are given, and when the process id changes none of the old ones survives.
\<close>

theorem checkpoint_identity:
  assumes "checkpoint t = Some c"
  shows "\<exists>c'. checkpoint (fst (checkpointTask env tasks t phase childPid identity cfg now)) = Some c' \<and>
    ck_phase c' = phase \<and>
    (identity = None \<longrightarrow>
      (if childPid = None \<or> childPid = ck_childPid c
       then ck_childPid c' = ck_childPid c \<and> ck_childPgid c' = ck_childPgid c \<and>
            ck_childStartTime c' = ck_childStartTime c \<and> ck_childUid c' = ck_childUid c
       else ck_childPid c' = childPid \<and> ck_childPgid c' = None \<and>
            ck_childStartTime c' = None \<and> ck_childUid c' = None))"
  using assms by (auto simp: checkpointTask_def next_checkpoint_def orElse_def Let_def split: option.splits)

subsection \<open>Concrete inputs\<close>

lemma disk_verdict_kept_witness:
  "status (mergeTaskUpdateWithDisk [(blank_task ''a'')\<lparr>status := Cancelled\<rparr>]
     ((blank_task ''a'')\<lparr>status := Completed\<rparr>)) = Cancelled"
  using disk_verdict_kept [of "[(blank_task ''a'')\<lparr>status := Cancelled\<rparr>]"
      "(blank_task ''a'')\<lparr>status := Cancelled\<rparr>" "(blank_task ''a'')\<lparr>status := Completed\<rparr>"]
  by simp

definition raced_attempt :: "team_task list \<Rightarrow> cas_attempt" where
  "raced_attempt ts = \<lparr> baseMtime = 1, loadedTasks = Some ts, currentMtime = Some 2 \<rparr>"

definition stable_attempt :: "team_task list \<Rightarrow> cas_attempt" where
  "stable_attempt ts = \<lparr> baseMtime = 2, loadedTasks = Some ts, currentMtime = Some 2 \<rparr>"

lemma persist_stable_attempt_witness:
  "\<exists>mode ts. persistSingleTaskUpdate (\<lambda>k. if k = 0 then raced_attempt [] else stable_attempt
       [blank_task ''a'', (blank_task ''b'')\<lparr>status := Completed\<rparr>])
     [blank_task ''a'', blank_task ''b''] ((blank_task ''a'')\<lparr>status := Running\<rparr>)
     None False False (Stamp [] None) = Persisted mode ts \<and> map status ts = [Running, Completed]"
proof -
  let ?env = "\<lambda>k::nat. if k = 0 then raced_attempt [] else stable_attempt
       [blank_task ''a'', (blank_task ''b'')\<lparr>status := Completed\<rparr>]"
  have "1 < MAX_CAS_ATTEMPTS" "\<forall>j<1. attempt_raced (?env j)" "attempt_stable (?env 1)"
    "loadedTasks (?env 1) = Some [blank_task ''a'', (blank_task ''b'')\<lparr>status := Completed\<rparr>]"
    by (simp_all add: MAX_CAS_ATTEMPTS_def attempt_raced_def attempt_stable_def raced_attempt_def
        stable_attempt_def)
  from persist_stable_attempt [OF this] show ?thesis
    by (fastforce simp: with_checkpoint_def merge_status)
qed

lemma persist_unreported_race_witness:
  "\<exists>mode ts. persistSingleTaskUpdate (\<lambda>k. raced_attempt [blank_task ''a'', blank_task ''b''])
     [] ((blank_task ''a'')\<lparr>status := Running\<rparr>) None False False (Stamp [] None)
       = Persisted mode ts \<and> map status ts = [Running, Queued]"
proof -
  have "map status (attempt_merge [] (with_checkpoint ((blank_task ''a'')\<lparr>status := Running\<rparr>) None (Stamp [] None))
      (raced_attempt [blank_task ''a'', blank_task ''b''])) = [Running, Queued]"
    by (simp add: attempt_merge_def with_checkpoint_def raced_attempt_def updateTask_def merge_status)
  moreover have "\<forall>j<MAX_CAS_ATTEMPTS. attempt_raced (raced_attempt [blank_task ''a'', blank_task ''b''])"
    by (simp add: attempt_raced_def raced_attempt_def)
  then obtain mode where "persistSingleTaskUpdate (\<lambda>k. raced_attempt [blank_task ''a'', blank_task ''b''])
     [] ((blank_task ''a'')\<lparr>status := Running\<rparr>) None False False (Stamp [] None)
     = Persisted mode (attempt_merge [] (with_checkpoint ((blank_task ''a'')\<lparr>status := Running\<rparr>)
         None (Stamp [] None)) (raced_attempt [blank_task ''a'', blank_task ''b'']))"
    using persist_unreported_race [of "\<lambda>k. raced_attempt [blank_task ''a'', blank_task ''b'']"
        "[]" "(blank_task ''a'')\<lparr>status := Running\<rparr>" None False False "Stamp [] None"] by blast
  ultimately show ?thesis by auto
qed

lemma checkpoint_identity_witness:
  "\<exists>c'. checkpoint (fst (checkpointTask (\<lambda>_. stable_attempt []) [] ((blank_task ''a'')
       \<lparr>checkpoint := Some \<lparr> ck_phase = CkChildSpawned, ck_updatedAt = Stamp [] None, ck_childPid = Some 7,
          ck_childPgid = Some 7, ck_childStartTime = Some ''99'', ck_childUid = Some 0 \<rparr>\<rparr>)
       CkChildStdoutFinal None None False (Stamp [] None))) = Some c' \<and> ck_childStartTime c' = Some ''99''"
proof -
  let ?t = "(blank_task ''a'')\<lparr>checkpoint := Some \<lparr> ck_phase = CkChildSpawned,
      ck_updatedAt = Stamp [] None, ck_childPid = Some 7, ck_childPgid = Some 7,
      ck_childStartTime = Some ''99'', ck_childUid = Some 0 \<rparr>\<rparr>"
  have "checkpoint ?t = Some \<lparr> ck_phase = CkChildSpawned, ck_updatedAt = Stamp [] None,
      ck_childPid = Some 7, ck_childPgid = Some 7, ck_childStartTime = Some ''99'', ck_childUid = Some 0 \<rparr>"
    by simp
  from checkpoint_identity [OF this] show ?thesis by fastforce
qed

end
