(* ===== verification/Slots.thy ===== *)
theory Slots
  imports Prelude
begin

text \<open>
  Concurrency limits: the abortable counting semaphore of
  \<open>src/src/runtime/scheduling/semaphore.ts\<close> as a machine over the events a waiter can
  cause, and the fail-fast budget of \<open>src/src/runtime/scheduling/nested-slots.ts\<close>. Every
  operation of the semaphore runs without an \<open>await\<close> between its mutations, so one call is
  one step.
\<close>

subsection \<open>The interface of a slot pool\<close>

text \<open>
  What a client relies on: whatever events occur, the pool stays well-formed, its capacity
  does not change, and at most that many ids hold a slot.
\<close>

locale slot_pool =
  fixes held :: "'s \<Rightarrow> 'i set"
    and cap :: "'s \<Rightarrow> nat"
    and ok :: "'s \<Rightarrow> bool"
    and step :: "'e \<Rightarrow> 's \<Rightarrow> 's"
  assumes ok_step: "ok s \<Longrightarrow> ok (step e s)"
    and cap_step: "cap (step e s) = cap s"
    and held_le: "ok s \<Longrightarrow> finite (held s) \<and> card (held s) \<le> cap s"
begin

lemma ok_run: "ok s \<Longrightarrow> ok (fold step es s)"
  by (induction es arbitrary: s) (simp_all add: ok_step)

lemma cap_run: "cap (fold step es s) = cap s"
  by (induction es arbitrary: s) (simp_all add: cap_step)

lemma run_within_cap: "ok s \<Longrightarrow> card (held (fold step es s)) \<le> cap s"
  using held_le [OF ok_run [of s es]] by (simp add: cap_run)

end

subsection \<open>The semaphore\<close>

datatype waiter_outcome = Granted | Aborted | QueueFull

text \<open>
  A caller of \<open>acquire\<close> is a number. \<open>sem_settled\<close> is how its promise settled, \<open>sem_owners\<close>
  the callers that were granted a slot and have not released it, which the code does not
  record and which the invariant ties to the counter.
\<close>

record semaphore =
  sem_max :: nat
  sem_current :: nat
  sem_queue :: "nat list"
  sem_settled :: "nat \<Rightarrow> waiter_outcome option"
  sem_owners :: "nat set"

definition MAX_QUEUE :: nat where
  "MAX_QUEUE = 10000"

definition new_semaphore :: "int \<Rightarrow> semaphore" where
  "new_semaphore m = \<lparr> sem_max = nat (max 1 m), sem_current = 0, sem_queue = [],
     sem_settled = (\<lambda>_. None), sem_owners = {} \<rparr>"

definition settle :: "nat \<Rightarrow> waiter_outcome \<Rightarrow> semaphore \<Rightarrow> semaphore" where
  "settle w o' s = (if sem_settled s w \<noteq> None then s
     else s\<lparr>sem_settled := (sem_settled s)(w \<mapsto> o'),
            sem_owners := (if o' = Granted then insert w (sem_owners s) else sem_owners s)\<rparr>)"

definition acquire :: "nat \<Rightarrow> bool \<Rightarrow> semaphore \<Rightarrow> semaphore" where
  "acquire w aborted s =
     (if aborted then settle w Aborted s
      else if sem_current s < sem_max s
      then settle w Granted (s\<lparr>sem_current := sem_current s + 1\<rparr>)
      else if MAX_QUEUE \<le> length (sem_queue s) then settle w QueueFull s
      else s\<lparr>sem_queue := sem_queue s @ [w]\<rparr>)"

fun hand_off :: "nat list \<Rightarrow> semaphore \<Rightarrow> semaphore" where
  "hand_off [] s = s\<lparr>sem_queue := [],
     sem_current := (if 0 < sem_current s then sem_current s - 1 else sem_current s)\<rparr>"
| "hand_off (next # rest) s =
     (if sem_settled s next \<noteq> None then hand_off rest s
      else settle next Granted (s\<lparr>sem_queue := rest\<rparr>))"

definition sem_release :: "semaphore \<Rightarrow> semaphore" where
  "sem_release s = hand_off (sem_queue s) s"

text \<open>The abort listener of a waiter, attached only while it is queued.\<close>

definition on_abort :: "nat \<Rightarrow> semaphore \<Rightarrow> semaphore" where
  "on_abort w s =
     (if w \<in> set (sem_queue s) then settle w Aborted (s\<lparr>sem_queue := remove1 w (sem_queue s)\<rparr>)
      else s)"

text \<open>
  The events: a fresh caller acquires (its signal aborted or not), an owner releases, a
  signal fires. A caller that already called, or a release by someone who owns nothing, is
  not an event of a correct client and leaves the state as it is.
\<close>

datatype sem_event = EvAcquire nat bool | EvRelease nat | EvAbort nat

fun sem_step :: "sem_event \<Rightarrow> semaphore \<Rightarrow> semaphore" where
  "sem_step (EvAcquire w aborted) s =
     (if sem_settled s w \<noteq> None \<or> w \<in> set (sem_queue s) then s else acquire w aborted s)"
| "sem_step (EvRelease w) s =
     (if w \<in> sem_owners s then sem_release (s\<lparr>sem_owners := sem_owners s - {w}\<rparr>) else s)"
| "sem_step (EvAbort w) s = on_abort w s"

definition sem_ok :: "semaphore \<Rightarrow> bool" where
  "sem_ok s \<longleftrightarrow> finite (sem_owners s) \<and> card (sem_owners s) = sem_current s \<and>
     sem_current s \<le> sem_max s \<and> distinct (sem_queue s) \<and>
     (\<forall>w\<in>set (sem_queue s). sem_settled s w = None) \<and>
     (\<forall>w\<in>sem_owners s. sem_settled s w = Some Granted) \<and>
     (sem_queue s \<noteq> [] \<longrightarrow> sem_current s = sem_max s)"

lemma sem_ok_new: "sem_ok (new_semaphore m)"
  by (simp add: sem_ok_def new_semaphore_def)

lemma sem_ok_acquire:
  assumes "sem_ok s" and "sem_settled s w = None" and "w \<notin> set (sem_queue s)"
  shows "sem_ok (acquire w aborted s)"
proof -
  have "w \<notin> sem_owners s" using assms(1,2) by (force simp: sem_ok_def)
  then show ?thesis using assms by (auto simp: sem_ok_def acquire_def settle_def)
qed

lemma sem_release_alive:
  "\<forall>w\<in>set (sem_queue s). sem_settled s w = None \<Longrightarrow>
   sem_release s = (case sem_queue s of
       [] \<Rightarrow> s\<lparr>sem_current := sem_current s - 1\<rparr>
     | w # ws \<Rightarrow> settle w Granted (s\<lparr>sem_queue := ws\<rparr>))"
  by (cases s; cases "sem_queue s") (auto simp: sem_release_def)

lemma sem_ok_release:
  assumes "sem_ok s" and "w \<in> sem_owners s"
  shows "sem_ok (sem_release (s\<lparr>sem_owners := sem_owners s - {w}\<rparr>))"
proof -
  have "card (sem_owners s - {w}) = sem_current s - 1" "0 < sem_current s"
    using assms card_gt_0_iff by (force simp: sem_ok_def)+
  moreover have "v \<notin> sem_owners s" if "v \<in> set (sem_queue s)" for v
    using assms(1) that by (force simp: sem_ok_def)
  ultimately show ?thesis
    using assms by (subst sem_release_alive) (auto simp: sem_ok_def settle_def split: list.splits)
qed

lemma sem_ok_abort: "sem_ok s \<Longrightarrow> sem_ok (on_abort w s)"
  by (auto simp: sem_ok_def on_abort_def settle_def dest: notin_set_remove1)

lemma settle_max [simp]: "sem_max (settle w k s) = sem_max s"
  by (simp add: settle_def)

lemma hand_off_max [simp]: "sem_max (hand_off q s) = sem_max s"
  by (induction q s rule: hand_off.induct) auto

interpretation sem: slot_pool sem_owners sem_max sem_ok sem_step
proof unfold_locales
  fix s e
  assume "sem_ok s"
  then show "sem_ok (sem_step e s)"
    by (cases e) (auto intro: sem_ok_acquire sem_ok_release sem_ok_abort)
next
  fix e s
  show "sem_max (sem_step e s) = sem_max s"
    by (cases e) (auto simp: acquire_def sem_release_def on_abort_def)
next
  fix s
  assume "sem_ok s"
  then show "finite (sem_owners s) \<and> card (sem_owners s) \<le> sem_max s" by (simp add: sem_ok_def)
qed

text \<open>
  C23. However acquires, releases and aborts interleave, never more callers own a slot of the
  semaphore than it has slots.
\<close>

theorem semaphore_exclusion:
  "card (sem_owners (fold sem_step es (new_semaphore m))) \<le> nat (max 1 m)"
  using sem.run_within_cap [OF sem_ok_new [of m], of es] by (simp add: new_semaphore_def)

text \<open>
  No slot is lost or idle: in every reachable state the counter is the number of owners,
  a caller waits only while every slot is owned, and no waiter in the queue has settled.
\<close>

theorem semaphore_no_lost_slot:
  "let s = fold sem_step es (new_semaphore m) in
   sem_current s = card (sem_owners s) \<and> (sem_queue s = [] \<or> sem_current s = sem_max s) \<and>
   sem_settled s ` set (sem_queue s) \<subseteq> {None}"
  using sem.ok_run [OF sem_ok_new [of m], of es] by (auto simp: sem_ok_def Let_def)

subsection \<open>Every waiter that is not aborted is served in its turn\<close>

fun is_release :: "sem_event \<Rightarrow> semaphore \<Rightarrow> bool" where
  "is_release (EvRelease w) s = (w \<in> sem_owners s)"
| "is_release _ s = False"

fun releases :: "sem_event list \<Rightarrow> semaphore \<Rightarrow> nat" where
  "releases [] s = 0"
| "releases (e # es) s = (if is_release e s then 1 else 0) + releases es (sem_step e s)"

lemma granted_stays: "sem_settled s w = Some k \<Longrightarrow> sem_settled (sem_step e s) w = Some k"
proof -
  assume a: "sem_settled s w = Some k"
  have st: "sem_settled (settle v o' t) w = Some k" if "sem_settled t w = Some k" for v o' t
    using that by (auto simp: settle_def)
  have "sem_settled (hand_off q t) w = Some k" if "sem_settled t w = Some k" for q t
    using that by (induction q t rule: hand_off.induct) (simp_all add: st)
  with a st show ?thesis
    by (cases e) (auto simp: acquire_def sem_release_def on_abort_def)
qed

lemma granted_stays_run: "sem_settled s w = Some k \<Longrightarrow> sem_settled (fold sem_step es s) w = Some k"
  by (induction es arbitrary: s) (simp_all add: granted_stays)

text \<open>One event either serves the waiter, or leaves it queued, one place closer after a release.\<close>

lemma queued_step:
  assumes ok: "sem_ok s" and q: "sem_queue s = pre @ w # post" and "e \<noteq> EvAbort w"
  shows "(\<exists>pre' post'. sem_queue (sem_step e s) = pre' @ w # post' \<and>
           length pre' + (if is_release e s then 1 else 0) \<le> length pre) \<or>
         pre = [] \<and> is_release e s \<and> sem_settled (sem_step e s) w = Some Granted"
proof (cases e)
  case (EvAcquire v aborted)
  have "sem_current s = sem_max s" using ok q by (simp add: sem_ok_def)
  then have "sem_queue (sem_step e s) = sem_queue s \<or> sem_queue (sem_step e s) = sem_queue s @ [v]"
    by (simp add: EvAcquire acquire_def settle_def)
  then have "\<exists>post'. sem_queue (sem_step e s) = pre @ w # post'" using q by auto
  moreover have "\<not> is_release e s" by (simp add: EvAcquire)
  ultimately show ?thesis by (metis add.right_neutral order_refl)
next
  case (EvRelease v)
  show ?thesis
  proof (cases "v \<in> sem_owners s")
    case True
    have alive: "\<forall>w\<in>set (sem_queue s). sem_settled s w = None" using ok by (simp add: sem_ok_def)
    have step: "sem_step e s = (case sem_queue s of
       [] \<Rightarrow> s\<lparr>sem_owners := sem_owners s - {v}, sem_current := sem_current s - 1\<rparr>
     | x # xs \<Rightarrow> settle x Granted (s\<lparr>sem_owners := sem_owners s - {v}, sem_queue := xs\<rparr>))"
      using sem_release_alive [of "s\<lparr>sem_owners := sem_owners s - {v}\<rparr>"] alive True
      by (simp add: EvRelease split: list.splits)
    show ?thesis
      using True q alive unfolding step by (cases pre) (auto simp: EvRelease settle_def)
  next
    case False
    then show ?thesis using q by (auto simp: EvRelease)
  qed
next
  case (EvAbort v)
  then have "v \<noteq> w" using assms(3) by simp
  have "\<exists>pre' post'. sem_queue (sem_step e s) = pre' @ w # post' \<and> length pre' \<le> length pre"
  proof (cases "v \<in> set (sem_queue s)")
    case True
    then have "sem_queue (sem_step e s) = remove1 v (pre @ w # post)"
      by (simp add: EvAbort on_abort_def settle_def q)
    also have "\<dots> = (if v \<in> set pre then remove1 v pre @ w # post else pre @ w # remove1 v post)"
      using \<open>v \<noteq> w\<close> by (simp add: remove1_append)
    finally show ?thesis
      by (cases "v \<in> set pre") (auto simp: length_remove1)
  next
    case False
    then show ?thesis using q by (auto simp: EvAbort on_abort_def)
  qed
  then show ?thesis by (simp add: EvAbort)
qed

text \<open>
  C24. Waiters are served in order and none starves: a caller behind \<open>n\<close> others in the queue is
  granted a slot by the time the owners have released \<open>n + 1\<close> of them, whatever acquires and
  aborts of other callers happen in between, unless its own signal fires.
\<close>

theorem semaphore_no_starvation:
  assumes "sem_ok s" and "sem_queue s = pre @ w # post" and "EvAbort w \<notin> set es"
    and "length pre < releases es s"
  shows "sem_settled (fold sem_step es s) w = Some Granted"
  using assms
proof (induction es arbitrary: s pre post)
  case (Cons e es)
  have ok: "sem_ok (sem_step e s)" by (rule sem.ok_step [OF Cons.prems(1)])
  have "e \<noteq> EvAbort w" using Cons.prems(3) by auto
  from queued_step [OF Cons.prems(1,2) this] show ?case
  proof
    assume "\<exists>pre' post'. sem_queue (sem_step e s) = pre' @ w # post' \<and>
        length pre' + (if is_release e s then 1 else 0) \<le> length pre"
    then obtain pre' post' where q: "sem_queue (sem_step e s) = pre' @ w # post'"
      and l: "length pre' + (if is_release e s then 1 else 0) \<le> length pre" by blast
    have "length pre' < releases es (sem_step e s)" using l Cons.prems(4) by (auto split: if_splits)
    then show ?thesis using Cons.IH [OF ok q] Cons.prems(3) by simp
  next
    assume "pre = [] \<and> is_release e s \<and> sem_settled (sem_step e s) w = Some Granted"
    then show ?thesis by (simp add: granted_stays_run)
  qed
qed simp

text \<open>
  An abort never takes a slot: firing the signal of a queued waiter removes it from the
  queue, settles it as aborted and leaves the counter and the owners as they were; firing it
  for anyone else changes nothing.
\<close>

theorem abort_takes_no_slot:
  assumes "sem_ok s"
  shows "sem_current (on_abort w s) = sem_current s \<and> sem_owners (on_abort w s) = sem_owners s \<and>
    w \<notin> set (sem_queue (on_abort w s)) \<and>
    (if w \<in> set (sem_queue s) then sem_settled (on_abort w s) w = Some Aborted else on_abort w s = s)"
  using assms by (auto simp: sem_ok_def on_abort_def settle_def)

subsection \<open>The nested-slot budget\<close>

record nested_budget =
  nb_held :: "string list"
  nb_max :: rat

definition defaultNestedSlotBudget :: "int \<Rightarrow> rat" where
  "defaultNestedSlotBudget n = rat_of_int (max 1 (n div 2))"

text \<open>
  The constructor: an override below 1 or not finite is refused. The message asks for an
  integer, the check does not.
\<close>

fun createNestedSlotBudget :: "int \<Rightarrow> jsnum option \<Rightarrow> string + nested_budget" where
  "createNestedSlotBudget n None = Inr \<lparr> nb_held = [], nb_max = defaultNestedSlotBudget n \<rparr>"
| "createNestedSlotBudget n (Some (Fin r)) =
     (if r < 1 then Inl ''nesting.maxSlots must be a positive integer''
      else Inr \<lparr> nb_held = [], nb_max = r \<rparr>)"
| "createNestedSlotBudget n (Some _) = Inl ''nesting.maxSlots must be a positive integer''"

definition createEmbeddedSlotBudget :: "int \<Rightarrow> jsnum option \<Rightarrow> string + nested_budget" where
  "createEmbeddedSlotBudget n maxConcurrent =
     createNestedSlotBudget n (Some (nullish maxConcurrent (Fin (defaultNestedSlotBudget n))))"

definition tryAcquire :: "string \<Rightarrow> nested_budget \<Rightarrow> nested_budget \<times> bool" where
  "tryAcquire i b =
     (if i \<in> set (nb_held b) then (b, True)
      else if nb_max b \<le> rat_of_nat (length (nb_held b)) then (b, False)
      else (b\<lparr>nb_held := js_set_add i (nb_held b)\<rparr>, True))"

definition nested_release :: "string \<Rightarrow> nested_budget \<Rightarrow> nested_budget" where
  "nested_release i b = b\<lparr>nb_held := filter (\<lambda>j. j \<noteq> i) (nb_held b)\<rparr>"

datatype nested_event = NbAcquire string | NbRelease string

fun nested_step :: "nested_event \<Rightarrow> nested_budget \<Rightarrow> nested_budget" where
  "nested_step (NbAcquire i) b = fst (tryAcquire i b)"
| "nested_step (NbRelease i) b = nested_release i b"

definition nested_ok :: "nested_budget \<Rightarrow> bool" where
  "nested_ok b \<longleftrightarrow> distinct (nb_held b) \<and> int (length (nb_held b)) \<le> \<lceil>nb_max b\<rceil>"

lemma nested_ok_step: "nested_ok b \<Longrightarrow> nested_ok (nested_step e b)"
proof (cases e)
  case (NbAcquire i)
  assume ok: "nested_ok b"
  have "int (length (nb_held b)) < \<lceil>nb_max b\<rceil>" if "\<not> nb_max b \<le> rat_of_nat (length (nb_held b))"
    using that by (simp add: less_ceiling_iff)
  then show ?thesis using ok by (auto simp: NbAcquire tryAcquire_def nested_ok_def js_set_add_def)
next
  case (NbRelease i)
  assume "nested_ok b"
  then show ?thesis
    using length_filter_le [of "\<lambda>j. j \<noteq> i" "nb_held b"]
    unfolding NbRelease nested_step.simps nested_release_def nested_ok_def
    by (simp del: length_filter_le)
qed

interpretation nested: slot_pool "\<lambda>b. set (nb_held b)" "\<lambda>b. nat \<lceil>nb_max b\<rceil>" nested_ok nested_step
proof unfold_locales
  fix s :: nested_budget and e
  show "nat \<lceil>nb_max (nested_step e s)\<rceil> = nat \<lceil>nb_max s\<rceil>"
    by (cases e) (simp_all add: tryAcquire_def nested_release_def)
next
  fix s :: nested_budget
  assume "nested_ok s"
  then show "finite (set (nb_held s)) \<and> card (set (nb_held s)) \<le> nat \<lceil>nb_max s\<rceil>"
    by (auto simp: nested_ok_def distinct_card)
qed (rule nested_ok_step)

text \<open>
  A budget that was created holds at most its maximum, rounded up, of grandchildren,
  however reservations and releases interleave; it refuses exactly a new id when the maximum
  is reached, and never queues.
\<close>

theorem nested_budget_bounded:
  assumes "createNestedSlotBudget n override = Inr b"
  shows "card (set (nb_held (fold nested_step es b))) \<le> nat \<lceil>nb_max b\<rceil> \<and>
    (snd (tryAcquire i c) \<longleftrightarrow> i \<in> set (nb_held c) \<or> rat_of_nat (length (nb_held c)) < nb_max c)"
proof -
  have "nb_held b = [] \<and> 1 \<le> nb_max b"
  proof (cases override)
    case None
    then show ?thesis using assms by (auto simp: defaultNestedSlotBudget_def)
  next
    case (Some x)
    then show ?thesis using assms by (cases x) (auto split: if_splits)
  qed
  then have "nested_ok b" by (simp add: nested_ok_def)
  then show ?thesis
    using nested.run_within_cap [of b es] by (auto simp: tryAcquire_def)
qed

subsection \<open>Concrete inputs\<close>

text \<open>Two slots, both taken, and two callers waiting.\<close>

definition busy :: semaphore where
  "busy = fold sem_step [EvAcquire 0 False, EvAcquire 1 False, EvAcquire 2 False, EvAcquire 3 False]
     (new_semaphore 2)"

lemma busy_queue: "sem_queue busy = [2] @ 3 # []"
  by (simp add: busy_def new_semaphore_def acquire_def settle_def MAX_QUEUE_def)

lemma semaphore_no_starvation_witness:
  "sem_settled (fold sem_step [EvAcquire 9 False, EvRelease 0, EvAbort 9, EvRelease 1] busy) 3
     = Some Granted"
proof (rule semaphore_no_starvation [OF _ busy_queue])
  show "sem_ok busy" unfolding busy_def by (rule sem.ok_run [OF sem_ok_new])
  show "length [2] < releases [EvAcquire 9 False, EvRelease 0, EvAbort 9, EvRelease 1] busy"
    by (simp add: busy_def new_semaphore_def acquire_def settle_def MAX_QUEUE_def sem_release_def
        on_abort_def)
qed simp

lemma abort_takes_no_slot_witness:
  "sem_queue (on_abort 2 busy) = [3] \<and> sem_current (on_abort 2 busy) = 2 \<and>
   sem_settled (on_abort 2 busy) 2 = Some Aborted"
proof -
  have ok: "sem_ok busy" unfolding busy_def by (rule sem.ok_run [OF sem_ok_new])
  have "sem_current busy = 2"
    by (simp add: busy_def new_semaphore_def acquire_def settle_def MAX_QUEUE_def)
  with abort_takes_no_slot [OF ok, of 2] show ?thesis
    by (simp add: on_abort_def settle_def busy_queue [simplified])
qed

lemma nested_budget_bounded_witness:
  "createNestedSlotBudget 4 (Some (Fin (3/2))) = Inr \<lparr> nb_held = [], nb_max = 3/2 \<rparr> \<and>
   card (set (nb_held (fold nested_step [NbAcquire ''a'', NbAcquire ''b'', NbAcquire ''c'']
     \<lparr> nb_held = [], nb_max = 3/2 \<rparr>))) \<le> 2"
proof -
  have c: "createNestedSlotBudget 4 (Some (Fin (3/2))) = Inr \<lparr> nb_held = [], nb_max = 3/2 \<rparr>" by simp
  have "nat \<lceil>3/2 :: rat\<rceil> = 2" by code_simp
  then show ?thesis
    using nested_budget_bounded [OF c, of "[NbAcquire ''a'', NbAcquire ''b'', NbAcquire ''c'']"] c
    by (simp del: nested_step.simps)
qed

end
