(* ===== verification/ChainParser.thy ===== *)
theory ChainParser
  imports Prelude
begin

text \<open>
  \<open>src/src/runtime/chain-parser.ts\<close>: the tokenizer and the recursive-descent parser of chain
  expressions. The parser's position is the list of tokens that are left; its recursion is
  bounded by the nesting guard of the code, and its two loops take the number of tokens left
  as fuel, which is never used up.
\<close>

datatype chain_step = ChainStep (cs_name: string) (cs_parallel: "chain_step list option")
  (cs_loopCount: "nat option") (cs_withContext: bool) (cs_args: "string list option")

datatype token =
  NAME string | ARROW | LPAREN | RPAREN | COMMA | COLON | NUMBER string | FLAG string | QUOTED string

datatype token_type =
  TName | TArrow | TLparen | TRparen | TComma | TColon | TNumber | TFlag | TQuoted

fun token_type_of :: "token \<Rightarrow> token_type" where
  "token_type_of (NAME _) = TName"
| "token_type_of ARROW = TArrow"
| "token_type_of LPAREN = TLparen"
| "token_type_of RPAREN = TRparen"
| "token_type_of COMMA = TComma"
| "token_type_of COLON = TColon"
| "token_type_of (NUMBER _) = TNumber"
| "token_type_of (FLAG _) = TFlag"
| "token_type_of (QUOTED _) = TQuoted"

text \<open>The errors the code throws, with what their messages name.\<close>

datatype chain_error =
  UnclosedQuote
| UnexpectedChar char nat
| UnexpectedToken token nat
| NestingTooDeep
| ExpectedButEnd token_type
| ExpectedButGot token_type token

subsection \<open>The tokenizer\<close>

definition flag_char :: "char \<Rightarrow> bool" where
  "flag_char c \<longleftrightarrow> is_letter c \<or> is_digit c \<or> c = CHR ''_'' \<or> c = CHR ''-''"

definition name_start :: "char \<Rightarrow> bool" where
  "name_start c \<longleftrightarrow> is_letter c \<or> c = CHR ''_''"

definition name_char :: "char \<Rightarrow> bool" where
  "name_char c \<longleftrightarrow> is_letter c \<or> is_digit c \<or> c \<in> {CHR ''_'', CHR ''.'', CHR ''@'', CHR ''-''}"

definition starts_name :: "string \<Rightarrow> bool" where
  "starts_name s = (case s of
       [] \<Rightarrow> False
     | c # cs \<Rightarrow> name_start c \<or> (c = CHR ''@'' \<and> (case cs of [] \<Rightarrow> False | d # _ \<Rightarrow> name_start d)))"

fun take_quoted :: "char \<Rightarrow> string \<Rightarrow> string \<Rightarrow> (string \<times> string) option" where
  "take_quoted q [] str = None"
| "take_quoted q [c] str = (if c = q then Some (str, []) else None)"
| "take_quoted q (c # d # cs) str =
     (if c = q then Some (str, d # cs)
      else if c = CHR 0x5C then take_quoted q cs (str @ [d])
      else take_quoted q (d # cs) (str @ [c]))"

lemma take_quoted_shorter: "take_quoted q s str = Some (v, rest) \<Longrightarrow> length rest < length s"
  by (induction q s str rule: take_quoted.induct) (auto split: if_splits)

definition cons_token :: "token \<Rightarrow> chain_error + token list \<Rightarrow> chain_error + token list" where
  "cons_token t r = map_sum id (\<lambda>ts. t # ts) r"

lemma name_start_char: "starts_name (c # cs) \<Longrightarrow> name_char c"
  by (auto simp: starts_name_def name_start_def name_char_def)

function lex_at :: "nat \<Rightarrow> string \<Rightarrow> chain_error + token list" where
  "lex_at n [] = Inr []"
| "lex_at n (c # cs) =
     (if js_space c then lex_at n cs
      else if c = CHR ''-'' \<and> take 1 cs = ''>'' then cons_token ARROW (lex_at n (drop 1 cs))
      else if c = CHR ''('' then cons_token LPAREN (lex_at n cs)
      else if c = CHR '')'' then cons_token RPAREN (lex_at n cs)
      else if c = CHR '','' then cons_token COMMA (lex_at n cs)
      else if c = CHR '':'' then cons_token COLON (lex_at n cs)
      else if c = CHR 0x22 \<or> c = CHR 0x27 then
        (case take_quoted c cs [] of
           None \<Rightarrow> Inl UnclosedQuote
         | Some (str, rest) \<Rightarrow> cons_token (QUOTED str) (lex_at n rest))
      else if c = CHR ''-'' \<and> take 1 cs = ''-'' then
        cons_token (FLAG (takeWhile flag_char (drop 1 cs))) (lex_at n (dropWhile flag_char (drop 1 cs)))
      else if is_digit c then
        cons_token (NUMBER (takeWhile is_digit (c # cs))) (lex_at n (dropWhile is_digit (c # cs)))
      else if starts_name (c # cs) then
        cons_token (NAME (takeWhile name_char (c # cs))) (lex_at n (dropWhile name_char (c # cs)))
      else Inl (UnexpectedChar c (n - length (c # cs))))"
  by pat_completeness auto

termination
proof (relation "measure (\<lambda>(n, s). length s)", goal_cases)
  case (8 n c cs x str rest)
  then show ?case using take_quoted_shorter [of c cs "[]" str rest] by simp
next
  case (9 n c cs)
  then show ?case using length_dropWhile_le [of flag_char "drop 1 cs"] by (cases cs) auto
next
  case (10 n c cs)
  then show ?case using length_dropWhile_le [of is_digit cs] by simp
next
  case (11 n c cs)
  then show ?case using length_dropWhile_le [of name_char cs] by (simp add: name_start_char)
qed auto

declare lex_at.simps(2) [simp del]

definition tokenize :: "string \<Rightarrow> chain_error + token list" where
  "tokenize input = lex_at (length input) input"

subsection \<open>The parser\<close>

fun consume :: "token_type \<Rightarrow> token list \<Rightarrow> chain_error + token list" where
  "consume ty [] = Inl (ExpectedButEnd ty)"
| "consume ty (t # ts) = (if token_type_of t = ty then Inr ts else Inl (ExpectedButGot ty t))"

definition clamp_loop :: "string \<Rightarrow> nat" where
  "clamp_loop digits = min 10 (max 1 (parse_digits digits))"

fun parseModifiers :: "chain_step \<Rightarrow> token list \<Rightarrow> chain_error + chain_step \<times> token list" where
  "parseModifiers (ChainStep nm par lp ctx args) (COLON # ts) =
     (case ts of
        [] \<Rightarrow> Inl (ExpectedButEnd TNumber)
      | NUMBER v # ts' \<Rightarrow> parseModifiers (ChainStep nm par (Some (clamp_loop v)) ctx args) ts'
      | t # _ \<Rightarrow> Inl (ExpectedButGot TNumber t))"
| "parseModifiers (ChainStep nm par lp ctx args) (FLAG v # ts) =
     (if v = ''with-context'' then parseModifiers (ChainStep nm par lp True args) ts
      else Inr (ChainStep nm par lp ctx args, FLAG v # ts))"
| "parseModifiers (ChainStep nm par lp ctx args) (QUOTED v # ts) =
     parseModifiers (ChainStep nm par lp ctx (Some (nullish args [] @ [v]))) ts"
| "parseModifiers step ts = Inr (step, ts)"

fun comma_loop ::
    "nat \<Rightarrow> (token list \<Rightarrow> chain_error + chain_step \<times> token list) \<Rightarrow> token \<Rightarrow> token list
      \<Rightarrow> chain_step list \<Rightarrow> chain_error + chain_step list \<times> token list" where
  "comma_loop 0 f sep ts acc = Inr (acc, ts)"
| "comma_loop (Suc k) f sep [] acc = Inr (acc, [])"
| "comma_loop (Suc k) f sep (t # ts) acc =
     (if t = sep
      then (case f ts of
              Inl e \<Rightarrow> Inl e
            | Inr (st, rest) \<Rightarrow> comma_loop k f sep rest (acc @ [st]))
      else Inr (acc, t # ts))"

definition MAX_CHAIN_NESTING :: nat where
  "MAX_CHAIN_NESTING = 100"

text \<open>
  \<open>parseStep (n)\<close> is \<open>parseStep(depth)\<close> of the code with \<open>n\<close> the levels the guard still
  allows, \<open>MAX_CHAIN_NESTING + 1 - depth\<close>.
\<close>

fun parseStep :: "nat \<Rightarrow> token list \<Rightarrow> chain_error + chain_step \<times> token list" where
  "parseStep 0 ts = Inl NestingTooDeep"
| "parseStep (Suc n) ts =
     (case ts of
        NAME v # ts1 \<Rightarrow>
          if v = ''parallel'' then
            (case consume TLparen ts1 of
               Inl e \<Rightarrow> Inl e
             | Inr ts2 \<Rightarrow> (case parseStep n ts2 of
               Inl e \<Rightarrow> Inl e
             | Inr (first, ts3) \<Rightarrow>
                 (case comma_loop (Suc (length ts3)) (parseStep n) COMMA ts3 [first] of
               Inl e \<Rightarrow> Inl e
             | Inr (steps, ts4) \<Rightarrow> (case consume TRparen ts4 of
               Inl e \<Rightarrow> Inl e
             | Inr ts5 \<Rightarrow> parseModifiers (ChainStep ''parallel'' (Some steps) None False None) ts5))))
          else parseModifiers (ChainStep v None None False None) ts1
      | QUOTED v # ts1 \<Rightarrow> parseModifiers (ChainStep v None None False None) ts1
      | t # _ \<Rightarrow> Inl (ExpectedButGot TName t)
      | [] \<Rightarrow> Inl (ExpectedButEnd TName))"

definition parse_tokens :: "token list \<Rightarrow> chain_error + chain_step list" where
  "parse_tokens tokens =
     (case parseStep (MAX_CHAIN_NESTING + 1) tokens of
        Inl e \<Rightarrow> Inl e
      | Inr (first, ts) \<Rightarrow>
          (case comma_loop (Suc (length ts)) (parseStep (MAX_CHAIN_NESTING + 1)) ARROW ts [first] of
             Inl e \<Rightarrow> Inl e
           | Inr (steps, []) \<Rightarrow> Inr steps
           | Inr (steps, t # ts') \<Rightarrow>
               Inl (UnexpectedToken t (length tokens - length (t # ts')))))"

definition parseChainDSL :: "string \<Rightarrow> chain_error + chain_step list" where
  "parseChainDSL input =
     (case tokenize input of Inl e \<Rightarrow> Inl e | Inr tokens \<Rightarrow> parse_tokens tokens)"

subsection \<open>Printing\<close>

definition plain_name :: "string \<Rightarrow> bool" where
  "plain_name nm \<longleftrightarrow> nm \<noteq> ''parallel'' \<and> starts_name nm \<and> list_all name_char nm"

definition modifier_tokens :: "nat option \<Rightarrow> bool \<Rightarrow> string list option \<Rightarrow> token list" where
  "modifier_tokens lp ctx args =
     (case lp of None \<Rightarrow> [] | Some k \<Rightarrow> [COLON, NUMBER (show_nat k)]) @
     (if ctx then [FLAG ''with-context''] else []) @
     (case args of None \<Rightarrow> [] | Some vs \<Rightarrow> map QUOTED vs)"

fun sep_by :: "'a \<Rightarrow> 'a list list \<Rightarrow> 'a list" where
  "sep_by s [] = []"
| "sep_by s [x] = x"
| "sep_by s (x # y # ys) = x @ s # sep_by s (y # ys)"

fun step_tokens :: "chain_step \<Rightarrow> token list" where
  "step_tokens (ChainStep nm par lp ctx args) =
     (case par of
        None \<Rightarrow> [if plain_name nm then NAME nm else QUOTED nm]
      | Some ps \<Rightarrow> [NAME ''parallel'', LPAREN] @ sep_by COMMA (map step_tokens ps) @ [RPAREN])
     @ modifier_tokens lp ctx args"

definition chain_tokens :: "chain_step list \<Rightarrow> token list" where
  "chain_tokens steps = sep_by ARROW (map step_tokens steps)"

fun escape :: "string \<Rightarrow> string" where
  "escape [] = []"
| "escape (c # cs) = (if c = CHR 0x22 \<or> c = CHR 0x5C then [CHR 0x5C, c] else [c]) @ escape cs"

fun show_token :: "token \<Rightarrow> string" where
  "show_token (NAME s) = s"
| "show_token ARROW = ''->''"
| "show_token LPAREN = ''(''"
| "show_token RPAREN = '')''"
| "show_token COMMA = '',''"
| "show_token COLON = '':''"
| "show_token (NUMBER s) = s"
| "show_token (FLAG s) = ''--'' @ s"
| "show_token (QUOTED s) = CHR 0x22 # escape s @ [CHR 0x22]"

definition show_tokens :: "token list \<Rightarrow> string" where
  "show_tokens ts = concat (map (\<lambda>t. show_token t @ '' '') ts)"

definition printChain :: "chain_step list \<Rightarrow> string" where
  "printChain steps = show_tokens (chain_tokens steps)"

text \<open>
  The steps the parser can produce: a parallel group is named so, has a member and nests
  within the levels left; a loop count is between 1 and 10; positional arguments, when there
  are any, are at least one.
\<close>

fun wf_step :: "nat \<Rightarrow> chain_step \<Rightarrow> bool" where
  "wf_step 0 s = False"
| "wf_step (Suc n) (ChainStep nm par lp ctx args) =
     ((case par of None \<Rightarrow> True | Some ps \<Rightarrow> nm = ''parallel'' \<and> ps \<noteq> [] \<and> list_all (wf_step n) ps) \<and>
      (case lp of None \<Rightarrow> True | Some k \<Rightarrow> 1 \<le> k \<and> k \<le> 10) \<and>
      args \<noteq> Some [])"

definition wf_chain :: "chain_step list \<Rightarrow> bool" where
  "wf_chain steps \<longleftrightarrow> steps \<noteq> [] \<and> list_all (wf_step (MAX_CHAIN_NESTING + 1)) steps"

subsection \<open>The parser reads back the tokens of a chain\<close>

definition no_modifier :: "token list \<Rightarrow> bool" where
  "no_modifier ts = (case ts of [] \<Rightarrow> True | t # _ \<Rightarrow> token_type_of t \<in> {TComma, TRparen, TArrow})"

lemma no_modifier_stops:
  "no_modifier ts \<Longrightarrow> parseModifiers s ts = Inr (s, ts)"
  by (cases s; cases ts; cases "hd ts") (auto simp: no_modifier_def)

lemma parse_args:
  "no_modifier rest \<Longrightarrow>
   parseModifiers (ChainStep nm par lp ctx (Some vs)) (map QUOTED ws @ rest) =
     Inr (ChainStep nm par lp ctx (Some (vs @ ws)), rest)"
  by (induction ws arbitrary: vs) (simp_all add: no_modifier_stops)

lemma parse_args_opt:
  "no_modifier rest \<Longrightarrow> args \<noteq> Some [] \<Longrightarrow>
   parseModifiers (ChainStep nm par lp ctx None)
     ((case args of None \<Rightarrow> [] | Some vs \<Rightarrow> map QUOTED vs) @ rest) =
     Inr (ChainStep nm par lp ctx args, rest)"
  by (cases args; cases "the args") (simp_all add: no_modifier_stops parse_args)

lemma clamp_show: "1 \<le> k \<Longrightarrow> k \<le> 10 \<Longrightarrow> clamp_loop (show_nat k) = k"
  by (simp add: clamp_loop_def parse_show_nat)

lemma parse_modifier_tokens:
  assumes "no_modifier rest" and "args \<noteq> Some []" and "\<forall>k. lp = Some k \<longrightarrow> 1 \<le> k \<and> k \<le> 10"
  shows "parseModifiers (ChainStep nm par None False None) (modifier_tokens lp ctx args @ rest) =
    Inr (ChainStep nm par lp ctx args, rest)"
  using assms by (cases lp; cases ctx) (simp_all add: modifier_tokens_def parse_args_opt clamp_show)

lemma comma_loop_reads:
  assumes "\<And>x r. x \<in> set xs \<Longrightarrow> no_modifier r \<Longrightarrow> f (tk x @ r) = Inr (x, r)"
    and "sep \<in> {COMMA, ARROW}" and "no_modifier rest" and "rest = [] \<or> hd rest \<noteq> sep"
    and "length (concat (map (\<lambda>x. sep # tk x) xs)) < k"
  shows "comma_loop k f sep (concat (map (\<lambda>x. sep # tk x) xs) @ rest) acc = Inr (acc @ xs, rest)"
  using assms
proof (induction xs arbitrary: k acc)
  case Nil
  then obtain k' where "k = Suc k'" by (cases k) auto
  then show ?case using Nil by (cases rest) auto
next
  case (Cons x xs)
  then obtain k' where k: "k = Suc k'" by (cases k) auto
  have "no_modifier (concat (map (\<lambda>x. sep # tk x) xs) @ rest)"
    using Cons.prems(2,3) by (cases xs) (auto simp: no_modifier_def)
  then have f: "f (tk x @ concat (map (\<lambda>x. sep # tk x) xs) @ rest) =
      Inr (x, concat (map (\<lambda>x. sep # tk x) xs) @ rest)"
    using Cons.prems(1) [of x] by simp
  have "comma_loop k' f sep (concat (map (\<lambda>x. sep # tk x) xs) @ rest) (acc @ [x]) =
      Inr ((acc @ [x]) @ xs, rest)"
    using Cons.prems k by (intro Cons.IH) auto
  then show ?case by (simp add: k f)
qed

lemma sep_by_cons: "sep_by s (x # xs) = x @ concat (map (\<lambda>y. s # y) xs)"
  by (induction xs arbitrary: x) auto

lemma sep_by_map: "sep_by s (map f (x # xs)) = f x @ concat (map (\<lambda>y. s # f y) xs)"
  by (simp only: list.map sep_by_cons) (simp add: comp_def)

lemma parseStep_tokens:
  "wf_step n s \<Longrightarrow> no_modifier rest \<Longrightarrow> parseStep n (step_tokens s @ rest) = Inr (s, rest)"
proof (induction n arbitrary: s rest)
  case (Suc n)
  obtain nm par lp ctx args where s: "s = ChainStep nm par lp ctx args" by (cases s)
  have mods: "parseModifiers (ChainStep nm' par' None False None) (modifier_tokens lp ctx args @ rest) =
    Inr (ChainStep nm' par' lp ctx args, rest)" for nm' par'
    using Suc.prems by (intro parse_modifier_tokens) (auto simp: s)
  show ?case
  proof (cases par)
    case None
    then show ?thesis using mods by (simp add: s plain_name_def)
  next
    case (Some ps)
    then obtain p qs where ps: "ps = p # qs" "nm = ''parallel''" "list_all (wf_step n) (p # qs)"
      using Suc.prems(1) by (cases ps) (auto simp: s)
    define after where "after = RPAREN # modifier_tokens lp ctx args @ rest"
    have a: "no_modifier after" by (simp add: after_def no_modifier_def)
    define mid where "mid = concat (map (\<lambda>y. COMMA # step_tokens y) qs) @ after"
    have toks: "step_tokens s @ rest = NAME ''parallel'' # LPAREN # step_tokens p @ mid"
      by (simp add: s Some ps sep_by_map mid_def after_def del: list.map)
    have nm: "no_modifier mid"
      using a by (cases qs) (auto simp: no_modifier_def mid_def)
    have p: "parseStep n (step_tokens p @ mid) = Inr (p, mid)"
      using ps(3) nm by (intro Suc.IH) simp_all
    have loop: "comma_loop (Suc (length mid)) (parseStep n) COMMA mid [p] = Inr ([p] @ qs, after)"
      unfolding mid_def
    proof (rule comma_loop_reads)
      fix x r assume "x \<in> set qs" "no_modifier r"
      then show "parseStep n (step_tokens x @ r) = Inr (x, r)"
        using ps(3) by (intro Suc.IH) (auto simp: list_all_iff)
    qed (use a in \<open>auto simp: after_def\<close>)
    have "consume TRparen after = Inr (modifier_tokens lp ctx args @ rest)" by (simp add: after_def)
    then show ?thesis
      unfolding toks using mods p loop by (simp add: s Some ps(1,2))
  qed
qed simp

lemma parse_chain_tokens:
  assumes "wf_chain steps"
  shows "parse_tokens (chain_tokens steps) = Inr steps"
proof -
  obtain p qs where ps: "steps = p # qs" "list_all (wf_step (MAX_CHAIN_NESTING + 1)) (p # qs)"
    using assms by (cases steps) (auto simp: wf_chain_def)
  define mid where "mid = concat (map (\<lambda>y. ARROW # step_tokens y) qs)"
  have toks: "chain_tokens steps = step_tokens p @ mid"
    by (simp add: chain_tokens_def ps sep_by_map mid_def del: list.map)
  have nm: "no_modifier mid"
    by (cases qs) (auto simp: no_modifier_def mid_def)
  have p: "parseStep (MAX_CHAIN_NESTING + 1) (step_tokens p @ mid) = Inr (p, mid)"
    using ps(2) nm by (intro parseStep_tokens) simp_all
  have "comma_loop (Suc (length mid)) (parseStep (MAX_CHAIN_NESTING + 1)) ARROW (mid @ []) [p] =
      Inr ([p] @ qs, [])"
    unfolding mid_def
  proof (rule comma_loop_reads)
    fix x r assume "x \<in> set qs" "no_modifier r"
    then show "parseStep (MAX_CHAIN_NESTING + 1) (step_tokens x @ r) = Inr (x, r)"
      using ps(2) by (intro parseStep_tokens) (auto simp: list_all_iff)
  qed (auto simp: no_modifier_def)
  then show ?thesis
    unfolding parse_tokens_def toks p by (simp add: ps(1) del: parseStep.simps)
qed


subsection \<open>The tokenizer reads back the printed tokens\<close>

fun wf_token :: "token \<Rightarrow> bool" where
  "wf_token (NAME s) = (starts_name s \<and> list_all name_char s)"
| "wf_token (NUMBER s) = (s \<noteq> [] \<and> list_all is_digit s)"
| "wf_token (FLAG s) = list_all flag_char s"
| "wf_token _ = True"

lemma lex_space: "lex_at n (CHR '' '' # rest) = lex_at n rest"
  by (simp add: lex_at.simps(2) js_space_def)

lemma take_quoted_step:
  "c \<noteq> q \<Longrightarrow> c \<noteq> CHR 0x5C \<Longrightarrow> X \<noteq> [] \<Longrightarrow> take_quoted q (c # X) acc = take_quoted q X (acc @ [c])"
  by (cases X) auto

lemma take_quoted_escape:
  "take_quoted (CHR 0x22) (escape s @ CHR 0x22 # r) acc = Some (acc @ s, r)"
proof (induction s arbitrary: acc)
  case Nil
  then show ?case by (cases r) auto
next
  case (Cons c cs)
  then show ?case by (auto simp: take_quoted_step)
qed

lemma first_char_class:
  "is_digit c \<Longrightarrow> \<not> js_space c \<and> c \<notin> {CHR ''-'', CHR ''('', CHR '')'', CHR '','', CHR '':'', CHR 0x22, CHR 0x27}"
  "is_letter c \<or> c = CHR ''_'' \<or> c = CHR ''@'' \<Longrightarrow> \<not> js_space c \<and> \<not> is_digit c \<and>
     c \<notin> {CHR ''-'', CHR ''('', CHR '')'', CHR '','', CHR '':'', CHR 0x22, CHR 0x27}"
  by (auto simp: is_digit_def is_letter_def js_space_def char_in_def)

lemma not_space_chars:
  "\<not> name_char (CHR '' '')" "\<not> flag_char (CHR '' '')" "\<not> is_digit (CHR '' '')"
  by (simp_all add: name_char_def flag_char_def is_letter_def is_digit_def char_in_def)

lemma lex_punctuation:
  "lex_at n (CHR ''-'' # CHR ''>'' # r) = cons_token ARROW (lex_at n r)"
  "lex_at n (CHR ''('' # r) = cons_token LPAREN (lex_at n r)"
  "lex_at n (CHR '')'' # r) = cons_token RPAREN (lex_at n r)"
  "lex_at n (CHR '','' # r) = cons_token COMMA (lex_at n r)"
  "lex_at n (CHR '':'' # r) = cons_token COLON (lex_at n r)"
  "lex_at n (CHR 0x22 # r) = (case take_quoted (CHR 0x22) r [] of
      None \<Rightarrow> Inl UnclosedQuote | Some (str, rest) \<Rightarrow> cons_token (QUOTED str) (lex_at n rest))"
  "lex_at n (CHR ''-'' # CHR ''-'' # r) =
     cons_token (FLAG (takeWhile flag_char r)) (lex_at n (dropWhile flag_char r))"
  by (simp_all add: lex_at.simps(2) js_space_def char_in_def)

lemma lex_digits:
  "s \<noteq> [] \<Longrightarrow> list_all is_digit s \<Longrightarrow> lex_at n (s @ CHR '' '' # r) = cons_token (NUMBER s) (lex_at n r)"
proof (cases s)
  case (Cons c cs)
  assume d: "list_all is_digit s"
  then have "is_digit c" by (simp add: Cons)
  from first_char_class(1) [OF this] show ?thesis
    using d takeWhile_stop [OF d not_space_chars(3)] dropWhile_stop [OF d not_space_chars(3)] lex_space
    by (simp add: Cons lex_at.simps(2) del: takeWhile.simps dropWhile.simps)
qed simp

lemma lex_name:
  "starts_name s \<Longrightarrow> list_all name_char s \<Longrightarrow> lex_at n (s @ CHR '' '' # r) = cons_token (NAME s) (lex_at n r)"
proof (cases s)
  case (Cons c cs)
  assume st: "starts_name s" and d: "list_all name_char s"
  have c: "is_letter c \<or> c = CHR ''_'' \<or> c = CHR ''@''"
    using st by (auto simp: Cons starts_name_def name_start_def)
  have "starts_name (s @ CHR '' '' # r)"
    using st by (auto simp: Cons starts_name_def split: list.splits)
  then show ?thesis
    using first_char_class(2) [OF c] takeWhile_stop [OF d not_space_chars(1)]
      dropWhile_stop [OF d not_space_chars(1)] lex_space
    by (simp add: Cons lex_at.simps(2) del: takeWhile.simps dropWhile.simps)
qed (simp add: starts_name_def)

lemma lex_show_token:
  "wf_token t \<Longrightarrow> lex_at n (show_token t @ CHR '' '' # r) = cons_token t (lex_at n r)"
  by (cases t)
    (simp_all add: lex_punctuation lex_space lex_digits lex_name take_quoted_escape
      takeWhile_stop dropWhile_stop not_space_chars)

lemma lex_show_tokens: "list_all wf_token ts \<Longrightarrow> lex_at n (show_tokens ts) = Inr ts"
  by (induction ts) (simp_all add: show_tokens_def lex_show_token cons_token_def)

lemma wf_sep_by: "wf_token sep \<Longrightarrow> list_all (list_all wf_token) xss \<Longrightarrow> list_all wf_token (sep_by sep xss)"
  by (induction sep xss rule: sep_by.induct) auto

lemma wf_modifier_tokens: "list_all wf_token (modifier_tokens lp ctx args)"
  using show_nat_digits
  by (auto simp: modifier_tokens_def list_all_iff flag_char_def is_letter_def char_in_def split: option.splits)

lemma wf_step_tokens: "list_all wf_token (step_tokens s)"
proof (induction s)
  case (ChainStep nm par lp ctx args)
  show ?case
  proof (cases par)
    case None
    then show ?thesis using wf_modifier_tokens by (simp add: plain_name_def)
  next
    case (Some ps)
    have "list_all (list_all wf_token) (map step_tokens ps)"
      using ChainStep Some by (auto simp: list_all_iff)
    then have "list_all wf_token (sep_by COMMA (map step_tokens ps))" by (intro wf_sep_by) simp_all
    then show ?thesis
      using wf_modifier_tokens
      by (simp add: Some starts_name_def name_start_def name_char_def is_letter_def char_in_def)
  qed
qed

text \<open>
  C25. Round trip: printing a chain of well-formed steps, names that are no identifiers between
  quotes and with their quotes and backslashes escaped, and parsing the text returns the same
  chain.
\<close>

theorem parse_print:
  assumes "wf_chain steps"
  shows "parseChainDSL (printChain steps) = Inr steps"
proof -
  have "list_all wf_token (chain_tokens steps)"
    unfolding chain_tokens_def by (rule wf_sep_by) (auto simp: list_all_iff wf_step_tokens [unfolded list_all_iff])
  then show ?thesis
    using parse_chain_tokens [OF assms]
    by (simp add: parseChainDSL_def tokenize_def printChain_def lex_show_tokens)
qed

subsection \<open>What the parser returns\<close>

definition wf_result :: "nat \<Rightarrow> (chain_error + chain_step \<times> token list) \<Rightarrow> bool" where
  "wf_result n r = (case r of Inl _ \<Rightarrow> True | Inr (s, _) \<Rightarrow> wf_step n s)"

lemma parseModifiers_wf:
  "wf_step n s \<Longrightarrow> wf_result n (parseModifiers s ts)"
proof (induction s ts rule: parseModifiers.induct)
  case (1 nm par lp ctx args ts)
  then show ?case
    by (cases n) (auto simp: wf_result_def clamp_loop_def split: list.splits token.splits)
next
  case (3 nm par lp ctx args v ts)
  then show ?case by (cases n) auto
qed (auto simp: wf_result_def elim: wf_step.elims)

lemma comma_loop_wf:
  "(\<And>ts. wf_result n (f ts)) \<Longrightarrow> list_all (wf_step n) acc \<Longrightarrow> comma_loop k f sep ts acc = Inr (ss, rest) \<Longrightarrow>
   list_all (wf_step n) ss \<and> length acc \<le> length ss"
proof (induction k f sep ts acc rule: comma_loop.induct)
  case (3 k f sep t ts acc)
  show ?case
  proof (cases "t = sep")
    case True
    then obtain st r where f: "f ts = Inr (st, r)" "comma_loop k f sep r (acc @ [st]) = Inr (ss, rest)"
      using 3(4) by (auto split: sum.splits)
    have "wf_step n st" using 3(2) [of ts] f(1) by (simp add: wf_result_def)
    then have "list_all (wf_step n) ss \<and> length (acc @ [st]) \<le> length ss"
      using True f 3(2,3) by (intro 3(1)) simp_all
    then show ?thesis by simp
  next
    case False
    then show ?thesis using 3(3,4) by simp
  qed
qed auto

lemma parseStep_wf: "wf_result n (parseStep n ts)"
proof (induction n arbitrary: ts)
  case (Suc n)
  have leaf: "wf_result (Suc n) (parseModifiers (ChainStep v None None False None) ts)" for v ts
    by (rule parseModifiers_wf) simp
  show ?case
  proof (cases ts)
    case Nil
    then show ?thesis by (simp add: wf_result_def)
  next
    case (Cons t ts1)
    show ?thesis
    proof (cases "t = NAME ''parallel''")
      case True
      have group: "wf_result (Suc n) (parseModifiers (ChainStep ''parallel'' (Some steps) None False None) ts5)"
        if "parseStep n ts2 = Inr (first, ts3)" "comma_loop k (parseStep n) COMMA ts3 [first] = Inr (steps, ts4)"
        for ts2 first ts3 k steps ts4 ts5
      proof -
        have "wf_step n first" using Suc.IH [of ts2] that(1) by (simp add: wf_result_def)
        then have "list_all (wf_step n) steps \<and> length [first] \<le> length steps"
          using that(2) by (intro comma_loop_wf [of n "parseStep n"] Suc.IH) simp_all
        then show ?thesis by (intro parseModifiers_wf) auto
      qed
      show ?thesis
        unfolding Cons True
        by (auto simp: wf_result_def split: sum.splits dest: group simp del: comma_loop.simps)
           (use group in \<open>fastforce simp: wf_result_def split: sum.splits\<close>)+
    next
      case False
      then show ?thesis using leaf by (cases t) (auto simp: Cons wf_result_def [of _ "Inl _"])
    qed
  qed
qed (simp add: wf_result_def)

text \<open>
  Whatever text the parser accepts, its chain has a step, every parallel group at every depth
  has a member, groups nest no deeper than the guard allows, every loop count lies between 1
  and 10, and no step has an empty argument list.
\<close>

theorem parse_result_wf:
  "parseChainDSL input = Inr steps \<Longrightarrow> wf_chain steps"
proof -
  assume "parseChainDSL input = Inr steps"
  then obtain toks first ts where
    p: "parseStep (MAX_CHAIN_NESTING + 1) toks = Inr (first, ts)"
    "comma_loop (Suc (length ts)) (parseStep (MAX_CHAIN_NESTING + 1)) ARROW ts [first] = Inr (steps, [])"
    by (auto simp: parseChainDSL_def parse_tokens_def simp del: parseStep.simps comma_loop.simps
        split: sum.splits list.splits)
  have "wf_step (MAX_CHAIN_NESTING + 1) first"
    using parseStep_wf [of "MAX_CHAIN_NESTING + 1" toks] p(1) by (simp add: wf_result_def del: parseStep.simps)
  then have "list_all (wf_step (MAX_CHAIN_NESTING + 1)) steps \<and> length [first] \<le> length steps"
    using p(2) by (intro comma_loop_wf [of _ "parseStep (MAX_CHAIN_NESTING + 1)"] parseStep_wf) simp_all
  then show ?thesis by (auto simp: wf_chain_def)
qed

subsection \<open>An arrow right after a name\<close>

text \<open>
  A name swallows the dash of an arrow that follows it without a space, so every chain that
  writes one is refused at the \<open>>\<close>.
\<close>

theorem unspaced_arrow_refused:
  assumes "starts_name s" and "list_all name_char s"
  shows "parseChainDSL (s @ ''->'' @ r) = Inl (UnexpectedChar (CHR ''>'') (Suc (length s)))"
proof -
  obtain c cs where s: "s = c # cs" using assms(1) by (cases s) (auto simp: starts_name_def)
  have c: "is_letter c \<or> c = CHR ''_'' \<or> c = CHR ''@''"
    using assms(1) by (auto simp: s starts_name_def name_start_def)
  have gt: "\<not> name_char (CHR ''>'')"
    by (simp add: name_char_def is_letter_def is_digit_def char_in_def)
  have all: "list_all name_char (s @ ''-'')" using assms(2) by (simp add: name_char_def)
  have "starts_name (s @ ''->'' @ r)"
    using assms(1) by (auto simp: s starts_name_def split: list.splits)
  then have "lex_at n (s @ ''->'' @ r) = cons_token (NAME (s @ ''-'')) (lex_at n (CHR ''>'' # r))" for n
    using first_char_class(2) [OF c] takeWhile_stop [OF all gt, of r] dropWhile_stop [OF all gt, of r]
    by (simp add: s lex_at.simps(2) del: takeWhile.simps dropWhile.simps)
  moreover have "lex_at n (CHR ''>'' # r) = Inl (UnexpectedChar (CHR ''>'') (n - Suc (length r)))" for n
    by (simp add: lex_at.simps(2) js_space_def is_digit_def char_in_def starts_name_def name_start_def
        is_letter_def split: list.splits)
  ultimately show ?thesis
    by (simp add: parseChainDSL_def tokenize_def cons_token_def)
qed

subsection \<open>Concrete inputs\<close>

definition sample_chain :: "chain_step list" where
  "sample_chain =
     [ChainStep ''plan'' None (Some 3) False None,
      ChainStep ''parallel'' (Some [ChainStep ''@review'' None None False None,
        ChainStep ''fix the build'' None None True (Some [''a b''])]) None False None]"

lemma parse_print_witness:
  "printChain sample_chain =
     ''plan : 3 -> parallel ( @review , '' @ [CHR 0x22] @ ''fix the build'' @ [CHR 0x22] @
     '' --with-context '' @ [CHR 0x22] @ ''a b'' @ [CHR 0x22] @ '' ) '' \<and>
   parseChainDSL (printChain sample_chain) = Inr sample_chain"
proof
  show "printChain sample_chain =
     ''plan : 3 -> parallel ( @review , '' @ [CHR 0x22] @ ''fix the build'' @ [CHR 0x22] @
     '' --with-context '' @ [CHR 0x22] @ ''a b'' @ [CHR 0x22] @ '' ) ''"
    by code_simp
  show "parseChainDSL (printChain sample_chain) = Inr sample_chain"
    by (rule parse_print) code_simp
qed

lemma parse_result_wf_witness:
  "parseChainDSL ''step:99 -> b:0'' =
     Inr [ChainStep ''step'' None (Some 10) False None, ChainStep ''b'' None (Some 1) False None] \<and>
   wf_chain [ChainStep ''step'' None (Some 10) False None, ChainStep ''b'' None (Some 1) False None]"
proof -
  have p: "parseChainDSL ''step:99 -> b:0'' =
     Inr [ChainStep ''step'' None (Some 10) False None, ChainStep ''b'' None (Some 1) False None]"
    by code_simp
  with parse_result_wf [OF p] show ?thesis by simp
qed

lemma unspaced_arrow_refused_witness:
  "parseChainDSL ''plan->parallel(a, b)'' = Inl (UnexpectedChar (CHR ''>'') 5)"
proof -
  have "starts_name ''plan''" "list_all name_char ''plan''" by code_simp+
  from unspaced_arrow_refused [OF this, of "''parallel(a, b)''"] show ?thesis by simp
qed

end
