(* ===== verification/Ndjson.thy ===== *)
theory Ndjson
  imports Prelude "HOL-Library.Word"
begin

text \<open>
  \<open>src/src/utils/ndjson.ts\<close>: the newline-delimited frames of the broker. A buffer is a list of
  bytes. \<open>JSON.stringify\<close> and \<open>JSON.parse\<close> over UTF-8 are arguments: \<open>enc\<close> is \<open>None\<close> for a
  value that is not serialisable, \<open>dec\<close> for a line that is not JSON.
\<close>

type_synonym byte = "8 word"

definition newline :: byte where
  "newline = 10"

definition MAX_BROKER_FRAME_BYTES :: nat where
  "MAX_BROKER_FRAME_BYTES = 256 * 1024"

definition MAX_DECODER_BUFFER :: nat where
  "MAX_DECODER_BUFFER = 2 * MAX_BROKER_FRAME_BYTES"

datatype broker_error = OversizeFrame | ProtocolError

definition encodeBrokerFrame ::
    "('v \<Rightarrow> byte list option) \<Rightarrow> 'v \<Rightarrow> broker_error + byte list" where
  "encodeBrokerFrame enc value =
     (case enc value of
        None \<Rightarrow> Inl ProtocolError
      | Some json \<Rightarrow>
          if MAX_BROKER_FRAME_BYTES < length json + 1 then Inl OversizeFrame
          else Inr (json @ [newline]))"

text \<open>
  \<open>push\<close> returns the new buffer together with the values or the error it throws: an error
  leaves the line it rejects in the buffer.
\<close>

function drain ::
    "(byte list \<Rightarrow> 'v option) \<Rightarrow> byte list \<Rightarrow> 'v list \<Rightarrow> byte list \<times> (broker_error + 'v list)" where
  "drain dec buffer out =
     (if newline \<in> set buffer then
        (let line = takeWhile (\<lambda>b. b \<noteq> newline) buffer;
             rest = drop (Suc (length line)) buffer
         in if line = [] then drain dec rest out
            else if MAX_BROKER_FRAME_BYTES < length line then (buffer, Inl OversizeFrame)
            else case dec line of
                   None \<Rightarrow> (buffer, Inl ProtocolError)
                 | Some v \<Rightarrow> drain dec rest (out @ [v]))
      else (buffer, Inr out))"
  by auto
termination
  by (relation "measure (\<lambda>(dec, buffer, out). length buffer)")
    (auto intro!: diff_less dest: length_pos_if_in_set)

declare drain.simps [simp del]

definition push ::
    "(byte list \<Rightarrow> 'v option) \<Rightarrow> byte list \<Rightarrow> byte list \<Rightarrow> byte list \<times> (broker_error + 'v list)" where
  "push dec buffer chunk =
     (if chunk = [] then (buffer, Inr [])
      else if MAX_DECODER_BUFFER < length (buffer @ chunk) then (buffer @ chunk, Inl OversizeFrame)
      else drain dec (buffer @ chunk) [])"

text \<open>A reader feeds chunks until the first error, at which it closes the socket.\<close>

fun push_all ::
    "(byte list \<Rightarrow> 'v option) \<Rightarrow> byte list \<Rightarrow> byte list list \<Rightarrow> byte list \<times> (broker_error + 'v list)" where
  "push_all dec buffer [] = (buffer, Inr [])"
| "push_all dec buffer (c # cs) =
     (case push dec buffer c of
        (b, Inl e) \<Rightarrow> (b, Inl e)
      | (b, Inr vs) \<Rightarrow>
          (case push_all dec b cs of
             (b', Inl e) \<Rightarrow> (b', Inl e)
           | (b', Inr ws) \<Rightarrow> (b', Inr (vs @ ws))))"

subsection \<open>What a stream of frames means\<close>

text \<open>
  The reference: split the whole stream at its newlines, drop the empty lines, decode the
  others, keep what follows the last newline.
\<close>

fun split_lines :: "byte list \<Rightarrow> byte list list \<times> byte list" where
  "split_lines [] = ([], [])"
| "split_lines (b # bs) =
     (let (ls, r) = split_lines bs in
      if b = newline then ([] # ls, r)
      else case ls of [] \<Rightarrow> ([], b # r) | l # ls' \<Rightarrow> ((b # l) # ls', r))"

definition decode_line :: "(byte list \<Rightarrow> 'v option) \<Rightarrow> byte list \<Rightarrow> broker_error + 'v" where
  "decode_line dec l =
     (if MAX_BROKER_FRAME_BYTES < length l then Inl OversizeFrame
      else case dec l of None \<Rightarrow> Inl ProtocolError | Some v \<Rightarrow> Inr v)"

fun decode_lines :: "(byte list \<Rightarrow> 'v option) \<Rightarrow> byte list list \<Rightarrow> broker_error + 'v list" where
  "decode_lines dec [] = Inr []"
| "decode_lines dec (l # ls) =
     (if l = [] then decode_lines dec ls
      else case decode_line dec l of
        Inl e \<Rightarrow> Inl e
      | Inr v \<Rightarrow> map_sum id (\<lambda>vs. v # vs) (decode_lines dec ls))"

lemma split_lines_no_newline: "newline \<notin> set bs \<Longrightarrow> split_lines bs = ([], bs)"
  by (induction bs) auto

lemma split_lines_newline:
  "newline \<notin> set l \<Longrightarrow> split_lines (l @ newline # bs) = (l # fst (split_lines bs), snd (split_lines bs))"
  by (induction l) (auto simp: split_beta)

lemma split_first_newline:
  assumes "newline \<in> set bs"
  shows "\<exists>l r. bs = l @ newline # r \<and> newline \<notin> set l \<and>
    takeWhile (\<lambda>b. b \<noteq> newline) bs = l \<and> drop (Suc (length l)) bs = r"
proof -
  obtain l r where l: "bs = l @ newline # r" "newline \<notin> set l"
    using split_list_first [OF assms] by blast
  then have "list_all (\<lambda>b. b \<noteq> newline) l" by (auto simp: list_all_iff)
  from takeWhile_stop [OF this, of newline r] have "takeWhile (\<lambda>b. b \<noteq> newline) bs = l"
    using l by simp
  with l show ?thesis by auto
qed

lemma drain_spec:
  "snd (drain dec bs out) = map_sum id (\<lambda>vs. out @ vs) (decode_lines dec (fst (split_lines bs))) \<and>
   (\<forall>vs. snd (drain dec bs out) = Inr vs \<longrightarrow> fst (drain dec bs out) = snd (split_lines bs))"
proof (induction dec bs out rule: drain.induct)
  case (1 dec bs out)
  show ?case
  proof (cases "newline \<in> set bs")
    case False
    then show ?thesis by (subst (1 2 3) drain.simps) (simp add: split_lines_no_newline)
  next
    case True
    obtain l r where l: "bs = l @ newline # r" "newline \<notin> set l"
      "takeWhile (\<lambda>b. b \<noteq> newline) bs = l" "drop (Suc (length l)) bs = r"
      using split_first_newline [OF True] by blast
    have step: "drain dec bs out =
      (if l = [] then drain dec r out
       else if MAX_BROKER_FRAME_BYTES < length l then (bs, Inl OversizeFrame)
       else case dec l of None \<Rightarrow> (bs, Inl ProtocolError) | Some v \<Rightarrow> drain dec r (out @ [v]))"
      by (subst drain.simps) (simp only: True if_True Let_def l(3,4))
    have lines: "split_lines bs = (l # fst (split_lines r), snd (split_lines r))"
      using l(1,2) by (simp add: split_lines_newline)
    show ?thesis
    proof (cases "l = []")
      case empty: True
      then show ?thesis using 1(1) [OF True refl refl] l(3,4) step lines by simp
    next
      case False
      show ?thesis
      proof (cases "MAX_BROKER_FRAME_BYTES < length l \<or> dec l = None")
        case True
        then show ?thesis using False step lines by (auto simp: decode_line_def)
      next
        case ok: False
        then obtain v where v: "dec l = Some v" by auto
        have IH: "snd (drain dec r (out @ [v])) =
            map_sum id (\<lambda>vs. (out @ [v]) @ vs) (decode_lines dec (fst (split_lines r))) \<and>
          (\<forall>vs. snd (drain dec r (out @ [v])) = Inr vs \<longrightarrow> fst (drain dec r (out @ [v])) = snd (split_lines r))"
          using 1(2) [OF True refl refl] l(3,4) False ok v by (simp add: id_def)
        have d: "decode_line dec l = Inr v" using ok v by (simp add: decode_line_def)
        have push: "map_sum id (\<lambda>vs. out @ vs) (map_sum id (\<lambda>vs. v # vs) X) =
            map_sum id (\<lambda>vs. (out @ [v]) @ vs) X" for X :: "broker_error + 'a list"
          by (cases X) simp_all
        have e: "drain dec bs out = drain dec r (out @ [v])" using step False ok v by simp
        have f: "decode_lines dec (fst (split_lines bs)) =
            map_sum id (\<lambda>vs. v # vs) (decode_lines dec (fst (split_lines r)))"
          "snd (split_lines bs) = snd (split_lines r)"
          using lines False d by simp_all
        show ?thesis unfolding e f push by (rule IH)
      qed
    qed
  qed
qed

lemma split_lines_append:
  "split_lines (a @ b) =
     (let (ls, r) = split_lines a in (ls @ fst (split_lines (r @ b)), snd (split_lines (r @ b))))"
proof (induction "length a" arbitrary: a rule: less_induct)
  case less
  show ?case
  proof (cases "newline \<in> set a")
    case False
    then show ?thesis by (simp add: split_lines_no_newline)
  next
    case True
    obtain l r where l: "a = l @ newline # r" "newline \<notin> set l" using split_list_first [OF True] by blast
    then have "split_lines (r @ b) =
      (let (ls, r') = split_lines r in (ls @ fst (split_lines (r' @ b)), snd (split_lines (r' @ b))))"
      by (intro less) simp
    then show ?thesis using l by (simp add: split_lines_newline split_beta Let_def)
  qed
qed

lemma decode_lines_append:
  "decode_lines dec (xs @ ys) =
     (case decode_lines dec xs of
        Inl e \<Rightarrow> Inl e
      | Inr vs \<Rightarrow> map_sum id (\<lambda>ws. vs @ ws) (decode_lines dec ys))"
proof (induction xs)
  case Nil
  then show ?case by (cases "decode_lines dec ys") simp_all
next
  case (Cons x xs)
  then show ?case
    by (cases "decode_lines dec xs"; cases "decode_lines dec ys") (auto split: sum.splits)
qed

text \<open>A buffer left by a push without error has no newline.\<close>

lemma split_lines_rest: "newline \<notin> set (snd (split_lines bs))"
  by (induction bs) (auto simp: split_beta split: list.splits)

lemma push_ok:
  assumes "newline \<notin> set buffer" and "snd (push dec buffer chunk) = Inr vs"
  shows "decode_lines dec (fst (split_lines (buffer @ chunk))) = Inr vs"
    and "fst (push dec buffer chunk) = snd (split_lines (buffer @ chunk))"
    and "newline \<notin> set (fst (push dec buffer chunk))"
proof -
  have "decode_lines dec (fst (split_lines (buffer @ chunk))) = Inr vs \<and>
    fst (push dec buffer chunk) = snd (split_lines (buffer @ chunk))"
  proof (cases "chunk = []")
    case True
    then show ?thesis using assms by (auto simp: push_def split_lines_no_newline)
  next
    case False
    then have p: "push dec buffer chunk = drain dec (buffer @ chunk) []"
      using assms(2) by (auto simp: push_def split: if_splits)
    from drain_spec [of dec "buffer @ chunk" "[]"] assms(2) show ?thesis
      unfolding p by (cases "decode_lines dec (fst (split_lines (buffer @ chunk)))") auto
  qed
  then show "decode_lines dec (fst (split_lines (buffer @ chunk))) = Inr vs"
    "fst (push dec buffer chunk) = snd (split_lines (buffer @ chunk))"
    "newline \<notin> set (fst (push dec buffer chunk))"
    by (auto simp: split_lines_rest)
qed

lemma split_lines_append_parts:
  "fst (split_lines (a @ b)) = fst (split_lines a) @ fst (split_lines (snd (split_lines a) @ b))"
  "snd (split_lines (a @ b)) = snd (split_lines (snd (split_lines a) @ b))"
  using split_lines_append [of a b] by (simp_all add: split_beta Let_def)

lemma push_all_ok:
  "newline \<notin> set buffer \<Longrightarrow> push_all dec buffer cs = (b, Inr vs) \<Longrightarrow>
   decode_lines dec (fst (split_lines (buffer @ concat cs))) = Inr vs \<and>
   b = snd (split_lines (buffer @ concat cs))"
proof (induction cs arbitrary: buffer vs)
  case Nil
  then show ?case by (simp add: split_lines_no_newline)
next
  case (Cons c cs)
  obtain b1 vs1 where p: "push dec buffer c = (b1, Inr vs1)"
    using Cons.prems(2) by (cases "push dec buffer c") (auto split: sum.splits)
  then obtain vs2 where r: "push_all dec b1 cs = (b, Inr vs2)" "vs = vs1 @ vs2"
    using Cons.prems(2) by (auto split: sum.splits prod.splits)
  note ok = push_ok [OF Cons.prems(1), of dec c vs1, unfolded p fst_conv snd_conv, OF refl]
  have IH: "decode_lines dec (fst (split_lines (b1 @ concat cs))) = Inr vs2"
    "b = snd (split_lines (b1 @ concat cs))"
    using Cons.IH [OF ok(3) r(1)] by simp_all
  show ?case
    using split_lines_append_parts [of "buffer @ c" "concat cs"] ok(1,2) IH
    by (simp add: decode_lines_append r(2))
qed

text \<open>
  C26. Whatever the chunks a stream arrives in, a decoder that raises no error returns exactly
  the values of the lines of the whole stream, in order, and keeps exactly what follows the
  last newline: the boundaries of the chunks do not show.
\<close>

theorem chunks_do_not_matter:
  assumes "push_all dec [] cs = (b, Inr vs)"
  shows "decode_lines dec (fst (split_lines (concat cs))) = Inr vs \<and>
    b = snd (split_lines (concat cs))"
  using push_all_ok [of "[]" dec cs b vs] assms by simp

subsection \<open>Round trip\<close>

definition frames :: "('v \<Rightarrow> byte list option) \<Rightarrow> 'v list \<Rightarrow> byte list" where
  "frames enc vs = concat (map (\<lambda>v. case encodeBrokerFrame enc v of Inr f \<Rightarrow> f | Inl _ \<Rightarrow> []) vs)"

definition frame_ok :: "('v \<Rightarrow> byte list option) \<Rightarrow> (byte list \<Rightarrow> 'v option) \<Rightarrow> 'v \<Rightarrow> bool" where
  "frame_ok enc dec v \<longleftrightarrow> (\<exists>j. enc v = Some j \<and> dec j = Some v \<and> j \<noteq> [] \<and> newline \<notin> set j \<and>
     length j < MAX_BROKER_FRAME_BYTES)"

lemma frames_Cons:
  "frame_ok enc dec v \<Longrightarrow> \<exists>j. enc v = Some j \<and> dec j = Some v \<and> j \<noteq> [] \<and> newline \<notin> set j \<and>
     length j < MAX_BROKER_FRAME_BYTES \<and> frames enc (v # vs) = j @ newline # frames enc vs"
  by (auto simp: frame_ok_def frames_def encodeBrokerFrame_def)

definition line_ok :: "(byte list \<Rightarrow> 'v option) \<Rightarrow> byte list \<Rightarrow> bool" where
  "line_ok dec l \<longleftrightarrow> l \<noteq> [] \<and> length l < MAX_BROKER_FRAME_BYTES \<and> dec l \<noteq> None"

lemma decode_line_ok: "line_ok dec l \<Longrightarrow> \<exists>v. decode_line dec l = Inr v"
  by (auto simp: line_ok_def decode_line_def)

lemma frames_split:
  assumes "\<forall>v\<in>set vs. frame_ok enc dec v"
  shows "decode_lines dec (fst (split_lines (frames enc vs))) = Inr vs \<and> snd (split_lines (frames enc vs)) = [] \<and>
    (\<forall>l\<in>set (fst (split_lines (frames enc vs))). line_ok dec l)"
  using assms
proof (induction vs)
  case (Cons v vs)
  then obtain j where j: "enc v = Some j" "dec j = Some v" "j \<noteq> []" "newline \<notin> set j"
    "length j < MAX_BROKER_FRAME_BYTES" "frames enc (v # vs) = j @ newline # frames enc vs"
    using frames_Cons by fastforce
  then show ?case using Cons by (auto simp: split_lines_newline decode_line_def line_ok_def)
qed (simp add: frames_def)

lemma decode_lines_ok:
  "\<forall>l\<in>set ls. line_ok dec l \<Longrightarrow>
   \<exists>vs. decode_lines dec ls = Inr vs"
proof (induction ls)
  case (Cons l ls)
  then obtain v vs where "decode_line dec l = Inr v" "decode_lines dec ls = Inr vs"
    using decode_line_ok by fastforce
  then show ?case by simp
qed simp

lemma push_no_error:
  assumes "newline \<notin> set buffer" and "length buffer + length c \<le> MAX_DECODER_BUFFER"
    and "\<forall>l\<in>set (fst (split_lines (buffer @ c))). line_ok dec l"
  shows "\<exists>vs. snd (push dec buffer c) = Inr vs"
  using decode_lines_ok [OF assms(3)] drain_spec [of dec "buffer @ c" "[]"] assms(2)
  by (auto simp: push_def)

lemma push_all_no_error:
  assumes "newline \<notin> set buffer" and "\<forall>c\<in>set cs. length c \<le> MAX_BROKER_FRAME_BYTES"
    and "\<forall>l\<in>set (fst (split_lines (buffer @ concat cs))). line_ok dec l"
    and "snd (split_lines (buffer @ concat cs)) = []"
  shows "\<exists>b vs. push_all dec buffer cs = (b, Inr vs)"
  using assms
proof (induction cs arbitrary: buffer)
  case (Cons c cs)
  let ?M = MAX_BROKER_FRAME_BYTES
  note parts = split_lines_append_parts [of "buffer @ c" "concat cs"]
  have len: "length buffer \<le> ?M"
  proof (cases "newline \<in> set (c @ concat cs)")
    case True
    then obtain l t where "c @ concat cs = l @ newline # t" "newline \<notin> set l" using split_list_first [OF True] by blast
    then have "fst (split_lines (buffer @ c @ concat cs)) = (buffer @ l) # fst (split_lines t)"
      using split_lines_newline [of "buffer @ l" t] Cons.prems(1) by simp
    then have "line_ok dec (buffer @ l)" using Cons.prems(3) by simp
    then show ?thesis by (simp add: line_ok_def)
  next
    case False
    then have "snd (split_lines (buffer @ concat (c # cs))) = buffer @ c @ concat cs"
      using Cons.prems(1) by (subst split_lines_no_newline) auto
    then show ?thesis using Cons.prems(4) by simp
  qed
  then have "length buffer + length c \<le> MAX_DECODER_BUFFER"
    using Cons.prems(2) by (simp add: MAX_DECODER_BUFFER_def add_mono)
  moreover have "\<forall>l\<in>set (fst (split_lines (buffer @ c))). line_ok dec l"
    using Cons.prems(3) parts(1) by simp
  ultimately obtain vs where vs: "snd (push dec buffer c) = Inr vs"
    using push_no_error [OF Cons.prems(1)] by blast
  note ok = push_ok [OF Cons.prems(1) vs]
  have "\<exists>b vs. push_all dec (fst (push dec buffer c)) cs = (b, Inr vs)"
  proof (rule Cons.IH [OF ok(3)])
    show "\<forall>c\<in>set cs. length c \<le> ?M" using Cons.prems(2) by simp
    show "\<forall>l\<in>set (fst (split_lines (fst (push dec buffer c) @ concat cs))).
        line_ok dec l"
      using Cons.prems(3) parts(1) ok(2) by simp
    show "snd (split_lines (fst (push dec buffer c) @ concat cs)) = []"
      using Cons.prems(4) parts(2) ok(2) by simp
  qed
  then show ?case using vs by (cases "push dec buffer c") auto
qed simp

text \<open>
  Round trip: values whose encodings fit a frame, written frame after frame and cut into
  chunks of at most a frame's size anywhere, are read back by the decoder without an error, in
  order, and nothing is left in the buffer.
\<close>

theorem frames_roundtrip:
  assumes "\<forall>v\<in>set vs. frame_ok enc dec v" and "concat cs = frames enc vs"
    and "\<forall>c\<in>set cs. length c \<le> MAX_BROKER_FRAME_BYTES"
  shows "push_all dec [] cs = ([], Inr vs)"
proof -
  note f = frames_split [OF assms(1)]
  obtain b ws where p: "push_all dec [] cs = (b, Inr ws)"
    using push_all_no_error [of "[]" cs dec] f assms(2,3) by auto
  then show ?thesis using push_all_ok [of "[]" dec cs b ws] f assms(2) by simp
qed

text \<open>
  A chunk above twice the frame size is refused whatever it holds, legal frames included.
\<close>

theorem large_chunk_refused:
  assumes "MAX_DECODER_BUFFER < length chunk"
  shows "snd (push dec buffer chunk) = Inl OversizeFrame"
  using assms by (auto simp: push_def)

subsection \<open>Concrete inputs\<close>

text \<open>The JSON texts of the two booleans.\<close>

fun bool_json :: "bool \<Rightarrow> byte list option" where
  "bool_json True = Some [116, 114, 117, 101]"
| "bool_json False = Some [102, 97, 108, 115, 101]"

definition json_bool :: "byte list \<Rightarrow> bool option" where
  "json_bool l = (if l = [116, 114, 117, 101] then Some True
                  else if l = [102, 97, 108, 115, 101] then Some False else None)"

lemma chunks_do_not_matter_witness:
  "push_all json_bool [] [[116, 114], [117, 101, 10, 10, 102]] = ([102], Inr [True]) \<and>
   decode_lines json_bool (fst (split_lines [116, 114, 117, 101, 10, 10, 102])) = Inr [True]"
proof -
  have p: "push_all json_bool [] [[116, 114], [117, 101, 10, 10, 102]] = ([102], Inr [True])"
    by (simp add: push_def drain.simps newline_def json_bool_def MAX_DECODER_BUFFER_def
        MAX_BROKER_FRAME_BYTES_def Let_def)
  with chunks_do_not_matter [OF p] show ?thesis by simp
qed

lemma frames_roundtrip_witness:
  "push_all json_bool [] [[116], [114, 117, 101, 10, 102, 97], [108, 115, 101, 10]] = ([], Inr [True, False])"
proof (rule frames_roundtrip [where enc = bool_json])
  show "\<forall>v\<in>set [True, False]. frame_ok bool_json json_bool v"
    by (simp add: frame_ok_def json_bool_def newline_def MAX_BROKER_FRAME_BYTES_def)
  show "concat [[116], [114, 117, 101, 10, 102, 97], [108, 115, 101, 10]] = frames bool_json [True, False]"
    by (simp add: frames_def encodeBrokerFrame_def MAX_BROKER_FRAME_BYTES_def newline_def)
  show "\<forall>c\<in>set [[116], [114, 117, 101, 10, 102, 97], [108, 115, 101, 10]]. length c \<le> MAX_BROKER_FRAME_BYTES"
    by (simp add: MAX_BROKER_FRAME_BYTES_def)
qed

lemma large_chunk_refused_witness:
  "snd (push json_bool [] (concat (replicate MAX_DECODER_BUFFER [newline, newline]))) = Inl OversizeFrame"
proof (rule large_chunk_refused)
  have "length (concat (replicate n [newline, newline])) = 2 * n" for n by (induction n) auto
  then show "MAX_DECODER_BUFFER < length (concat (replicate MAX_DECODER_BUFFER [newline, newline]))"
    by (simp add: MAX_DECODER_BUFFER_def MAX_BROKER_FRAME_BYTES_def)
qed

end
