(* ===== verification/RetryExecutor.thy ===== *)
theory RetryExecutor
  imports Prelude
begin

text \<open>
  \<open>src/src/runtime/recovery/retry-executor.ts\<close>: which errors may be retried, the delay before
  the next attempt, and the retry loop with its gates. What the attempts, the hooks, the
  signal and the timer do is the environment \<open>retry_env\<close>, a function of the attempt number;
  the result carries the trace of spawns and hook calls.
\<close>

subsection \<open>Retryable errors\<close>

text \<open>
  The pattern of \<open>globToRegex\<close>: a star is any run of characters without a line end, a question
  mark one of them, and letters compare without case, by the upper-case mapping the \<open>i\<close> flag
  uses, of which the two-byte results are themselves only.
\<close>

definition fold_case :: "char \<Rightarrow> nat" where
  "fold_case c = (let k = of_char c in
     if 97 \<le> k \<and> k \<le> 122 \<or> 224 \<le> k \<and> k \<le> 254 \<and> k \<noteq> 247 then k - 32 else k)"

definition line_end :: "char \<Rightarrow> bool" where
  "line_end c \<longleftrightarrow> (of_char c :: nat) \<in> {10, 13}"

fun glob_match :: "string \<Rightarrow> string \<Rightarrow> bool" where
  "glob_match [] [] = True"
| "glob_match [] (_ # _) = False"
| "glob_match (p # ps) [] = (p = CHR ''*'' \<and> glob_match ps [])"
| "glob_match (p # ps) (c # cs) =
     (if p = CHR ''*'' then glob_match ps (c # cs) \<or> (\<not> line_end c \<and> glob_match (p # ps) cs)
      else if p = CHR ''?'' then \<not> line_end c \<and> glob_match ps cs
      else fold_case p = fold_case c \<and> glob_match ps cs)"

record retry_policy =
  rp_maxAttempts :: int
  rp_backoffMs :: rat
  rp_jitterRatio :: rat
  rp_exponentialFactor :: rat
  rp_retryableErrors :: "string list option"

definition DEFAULT_RETRY_POLICY :: retry_policy where
  "DEFAULT_RETRY_POLICY = \<lparr> rp_maxAttempts = 3, rp_backoffMs = 1000, rp_jitterRatio = 3/10,
     rp_exponentialFactor = 2, rp_retryableErrors = None \<rparr>"

definition isRetryable :: "string \<Rightarrow> retry_policy \<Rightarrow> bool" where
  "isRetryable message policy =
     (let patterns = nullish (rp_retryableErrors policy) [] in
      if patterns = [] then True else list_ex (\<lambda>p. glob_match p message) patterns)"

definition retry_base :: "nat \<Rightarrow> retry_policy \<Rightarrow> rat" where
  "retry_base attempt policy = rp_backoffMs policy * rp_exponentialFactor policy ^ (attempt - 1)"

definition calculateRetryDelay :: "nat \<Rightarrow> retry_policy \<Rightarrow> rat \<Rightarrow> rat" where
  "calculateRetryDelay attempt policy random =
     (let base = retry_base attempt policy;
          jitter = (random * 2 - 1) * rp_jitterRatio policy * base
      in max 0 (base + jitter))"

subsection \<open>The loop\<close>

datatype gate_answer = GateTrue | GateFalse | GateThrew
datatype progress_answer = NoProgressTrue | NoProgressFalse | NoProgressThrew | NoProgressTimedOut
datatype sleep_end = Slept | SleepAborted | SleepThrew string

record 'a retry_env =
  env_fn :: "nat \<Rightarrow> string + 'a"
  env_cancelledBefore :: "nat \<Rightarrow> bool"
  env_abortedAfter :: "nat \<Rightarrow> bool"
  env_shouldRetry :: "(nat \<Rightarrow> gate_answer) option"
  env_noProgress :: "(nat \<Rightarrow> progress_answer) option"
  env_sleep :: "nat \<Rightarrow> sleep_end"
  env_random :: "nat \<Rightarrow> rat"

datatype retry_event = Spawned nat | AttemptFailed nat string rat | GivenUp nat string

text \<open>
  How the loop is left: with a value; by the signal that was aborted while an attempt ran and failed; with
  the last error, because no retry is allowed; without progress; by the check of the signal before an
  attempt or during the sleep; or by an error of the timer.
\<close>

datatype 'a retry_result =
  Returned 'a
| ThrewAborted string
| ThrewLast string
| ThrewNoProgress nat string
| ThrewCancelled
| ThrewTimer string
| RanOut

definition gate_gives_up :: "'a retry_env \<Rightarrow> nat \<Rightarrow> bool" where
  "gate_gives_up env k \<longleftrightarrow>
     (case env_shouldRetry env of None \<Rightarrow> False | Some g \<Rightarrow> g k = GateFalse)"

definition progress_stuck :: "'a retry_env \<Rightarrow> nat \<Rightarrow> bool" where
  "progress_stuck env k \<longleftrightarrow>
     (case env_noProgress env of None \<Rightarrow> False | Some g \<Rightarrow> g k = NoProgressTrue)"

text \<open>
  \<open>retry_loop n k\<close> makes the attempts \<open>k\<close>, \<open>k + 1\<close>, ..., of which \<open>n\<close> are left. \<open>RanOut\<close> is the
  \<open>throw\<close> after the loop.
\<close>

fun retry_loop ::
    "'a retry_env \<Rightarrow> retry_policy \<Rightarrow> nat \<Rightarrow> nat \<Rightarrow> retry_event list \<times> 'a retry_result" where
  "retry_loop env policy 0 k = ([], RanOut)"
| "retry_loop env policy (Suc n) k =
     (if env_cancelledBefore env k then ([], ThrewCancelled)
      else case env_fn env k of
        Inr v \<Rightarrow> ([Spawned k], Returned v)
      | Inl e \<Rightarrow>
          if env_abortedAfter env k then ([Spawned k, GivenUp k e], ThrewAborted e)
          else if n = 0 \<or> \<not> isRetryable e policy then ([Spawned k, GivenUp k e], ThrewLast e)
          else if gate_gives_up env k then ([Spawned k, GivenUp k e], ThrewLast e)
          else if progress_stuck env k then ([Spawned k, GivenUp k e], ThrewNoProgress k e)
          else let failed = [Spawned k, AttemptFailed k e (calculateRetryDelay k policy (env_random env k))] in
               case env_sleep env k of
                 SleepAborted \<Rightarrow> (failed, ThrewCancelled)
               | SleepThrew s \<Rightarrow> (failed, ThrewTimer s)
               | Slept \<Rightarrow> (let (trace, r) = retry_loop env policy n (Suc k) in (failed @ trace, r)))"

definition executeWithRetry ::
    "'a retry_env \<Rightarrow> retry_policy \<Rightarrow> retry_event list \<times> 'a retry_result" where
  "executeWithRetry env policy = retry_loop env policy (nat (max 1 (rp_maxAttempts policy))) 1"

subsection \<open>Delays\<close>

text \<open>
  With a jitter between none and all of the base, the delay before the next attempt stays
  within that share of the base, is never negative, and the base grows by the factor from
  one attempt to the next.
\<close>

theorem retry_delay_bounds:
  assumes "0 \<le> rp_jitterRatio p" and "rp_jitterRatio p \<le> 1" and "0 \<le> rp_backoffMs p"
    and "0 \<le> rp_exponentialFactor p" and "0 \<le> random" and "random \<le> 1" and "1 \<le> attempt"
  shows "(1 - rp_jitterRatio p) * retry_base attempt p \<le> calculateRetryDelay attempt p random \<and>
    calculateRetryDelay attempt p random \<le> (1 + rp_jitterRatio p) * retry_base attempt p \<and>
    0 \<le> calculateRetryDelay attempt p random \<and>
    retry_base (Suc attempt) p = rp_exponentialFactor p * retry_base attempt p"
proof -
  define b where "b = retry_base attempt p"
  define j where "j = rp_jitterRatio p"
  have b: "0 \<le> b" using assms(3,4) by (simp add: b_def retry_base_def)
  have j: "0 \<le> j" "j \<le> 1" using assms(1,2) by (simp_all add: j_def)
  have "-1 \<le> random * 2 - 1" "random * 2 - 1 \<le> 1" using assms(5,6) by simp_all
  then have "- (j * b) \<le> (random * 2 - 1) * (j * b)" "(random * 2 - 1) * (j * b) \<le> j * b"
    using mult_right_mono [of "-1" "random * 2 - 1" "j * b"] mult_right_mono [of "random * 2 - 1" 1 "j * b"]
      b j by simp_all
  moreover have "j * b \<le> b" using mult_right_mono [OF j(2) b] by simp
  ultimately have "max 0 (b + (random * 2 - 1) * j * b) = b + (random * 2 - 1) * j * b"
    "(1 - j) * b \<le> b + (random * 2 - 1) * j * b" "b + (random * 2 - 1) * j * b \<le> (1 + j) * b"
    by (simp_all add: algebra_simps)
  moreover have "retry_base (Suc attempt) p = rp_exponentialFactor p * retry_base attempt p"
    using assms(7) by (cases attempt) (simp_all add: retry_base_def)
  ultimately show ?thesis
    by (simp add: calculateRetryDelay_def Let_def b_def [symmetric] j_def [symmetric])
qed

subsection \<open>What the loop does\<close>

definition spawns :: "retry_event list \<Rightarrow> nat list" where
  "spawns tr = List.map_filter (\<lambda>e. case e of Spawned k \<Rightarrow> Some k | _ \<Rightarrow> None) tr"

definition give_ups :: "retry_event list \<Rightarrow> (nat \<times> string) list" where
  "give_ups tr = List.map_filter (\<lambda>e. case e of GivenUp k s \<Rightarrow> Some (k, s) | _ \<Rightarrow> None) tr"

lemma spawns_simps [simp]:
  "spawns [] = []"
  "spawns (Spawned k # tr) = k # spawns tr"
  "spawns (AttemptFailed k e d # tr) = spawns tr"
  "spawns (GivenUp k e # tr) = spawns tr"
  by (simp_all add: spawns_def map_filter_simps)

lemma give_ups_simps [simp]:
  "give_ups [] = []"
  "give_ups (Spawned k # tr) = give_ups tr"
  "give_ups (AttemptFailed k e d # tr) = give_ups tr"
  "give_ups (GivenUp k e # tr) = (k, e) # give_ups tr"
  by (simp_all add: give_ups_def map_filter_simps)

text \<open>The hook calls that a way out of the loop goes with, after the attempt \<open>k\<close>.\<close>

definition give_up_of :: "nat \<Rightarrow> 'a retry_result \<Rightarrow> (nat \<times> string) list" where
  "give_up_of k r = (case r of
     ThrewAborted e \<Rightarrow> [(k, e)] | ThrewLast e \<Rightarrow> [(k, e)] | ThrewNoProgress i e \<Rightarrow> [(k, e)] | _ \<Rightarrow> [])"

lemma give_up_of_simps [simp]:
  "give_up_of k (Returned v) = []" "give_up_of k (ThrewAborted e) = [(k, e)]"
  "give_up_of k (ThrewLast e) = [(k, e)]" "give_up_of k (ThrewNoProgress i e) = [(k, e)]"
  "give_up_of k ThrewCancelled = []" "give_up_of k (ThrewTimer e) = []" "give_up_of k RanOut = []"
  by (simp_all add: give_up_of_def)




text \<open>
  The attempt that decides: the first one that succeeds, cannot be followed by another, or is
  stopped. An attempt passes on when it fails, is retryable and nothing stops the loop.
\<close>

definition passes_on :: "'a retry_env \<Rightarrow> retry_policy \<Rightarrow> nat \<Rightarrow> bool" where
  "passes_on env p k \<longleftrightarrow> \<not> env_cancelledBefore env k \<and>
     (\<exists>e. env_fn env k = Inl e \<and> isRetryable e p) \<and> \<not> env_abortedAfter env k \<and>
     \<not> gate_gives_up env k \<and> \<not> progress_stuck env k \<and> env_sleep env k = Slept"

lemma retry_loop_passes:
  "\<forall>i<m. passes_on env p (k + i) \<Longrightarrow> m < n \<Longrightarrow>
   snd (retry_loop env p n k) = snd (retry_loop env p (n - m) (k + m))"
proof (induction m arbitrary: n k)
  case (Suc m)
  then obtain n' where n: "n = Suc n'" by (cases n) auto
  have p0: "passes_on env p k" using Suc.prems(1) by force
  have "passes_on env p (Suc k + i)" if "i < m" for i
    using Suc.prems(1) that by (metis Suc_mono add_Suc_shift)
  then have "snd (retry_loop env p n' (Suc k)) = snd (retry_loop env p (n' - m) (Suc k + m))"
    using Suc.prems(2) n by (intro Suc.IH) auto
  moreover have "snd (retry_loop env p (Suc n') k) = snd (retry_loop env p n' (Suc k))"
    using p0 Suc.prems(2) n by (auto simp: passes_on_def Let_def split_beta)
  ultimately show ?case by (simp add: n)
qed simp

text \<open>
  A success is returned exactly when it is reached: if the attempts before number \<open>k + 1\<close>
  all fail in a way that passes on and that one, within the bound and not cancelled before it
  starts, succeeds, its value is the result.
\<close>

theorem retry_returns_first_success:
  assumes "\<forall>i<k. passes_on env p (1 + i)" and "k < nat (max 1 (rp_maxAttempts p))"
    and "\<not> env_cancelledBefore env (Suc k)" and "env_fn env (Suc k) = Inr v"
  shows "snd (executeWithRetry env p) = Returned v"
proof -
  obtain r where r: "nat (max 1 (rp_maxAttempts p)) - k = Suc r"
    using assms(2) by (cases "nat (max 1 (rp_maxAttempts p)) - k") auto
  show ?thesis
    using retry_loop_passes [OF assms(1,2)] assms(3,4)
    unfolding executeWithRetry_def r by simp
qed

text \<open>
  The gates are soft: replacing a \<open>shouldRetry\<close> hook that throws by one that answers true,
  and a \<open>noProgress\<close> hook that throws or times out by one that answers false, changes neither
  the trace nor the result.
\<close>

definition harden_gate :: "gate_answer \<Rightarrow> gate_answer" where
  "harden_gate g = (if g = GateThrew then GateTrue else g)"

definition harden_progress :: "progress_answer \<Rightarrow> progress_answer" where
  "harden_progress g = (if g = NoProgressTrue then g else NoProgressFalse)"

theorem retry_gates_soft:
  "executeWithRetry (env\<lparr>env_shouldRetry := map_option (\<lambda>g k. harden_gate (g k)) (env_shouldRetry env),
      env_noProgress := map_option (\<lambda>g k. harden_progress (g k)) (env_noProgress env)\<rparr>) p =
   executeWithRetry env p"
proof -
  let ?env = "env\<lparr>env_shouldRetry := map_option (\<lambda>g k. harden_gate (g k)) (env_shouldRetry env),
      env_noProgress := map_option (\<lambda>g k. harden_progress (g k)) (env_noProgress env)\<rparr>"
  have "gate_gives_up ?env k = gate_gives_up env k" "progress_stuck ?env k = progress_stuck env k" for k
    by (auto simp: gate_gives_up_def progress_stuck_def harden_gate_def harden_progress_def
        split: option.splits)
  then have "retry_loop ?env p n k = retry_loop env p n k" for n k
    by (induction n arbitrary: k) (simp_all add: Let_def split: sum.splits sleep_end.splits)
  then show ?thesis by (simp only: executeWithRetry_def)
qed

subsection \<open>Concrete inputs\<close>

lemma retry_delay_bounds_witness:
  "700 \<le> calculateRetryDelay 1 DEFAULT_RETRY_POLICY (1/4) \<and>
   calculateRetryDelay 1 DEFAULT_RETRY_POLICY (1/4) \<le> 1300"
  using retry_delay_bounds [of DEFAULT_RETRY_POLICY "1/4" 1]
  by (simp add: DEFAULT_RETRY_POLICY_def retry_base_def)

text \<open>The first attempt fails with a retryable error, the second succeeds.\<close>

definition flaky :: "nat retry_env" where
  "flaky = \<lparr> env_fn = (\<lambda>k. if k = 1 then Inl ''Provider TIMEOUT'' else Inr k),
     env_cancelledBefore = (\<lambda>_. False), env_abortedAfter = (\<lambda>_. False),
     env_shouldRetry = Some (\<lambda>_. GateThrew), env_noProgress = None,
     env_sleep = (\<lambda>_. Slept), env_random = (\<lambda>_. 1/2) \<rparr>"

definition timeouts_only :: retry_policy where
  "timeouts_only = DEFAULT_RETRY_POLICY\<lparr>rp_retryableErrors := Some [''*timeout'']\<rparr>"

lemma retry_returns_first_success_witness:
  "snd (executeWithRetry flaky timeouts_only) = Returned 2"
proof (rule retry_returns_first_success [where k = 1])
  have "isRetryable ''Provider TIMEOUT'' timeouts_only" by code_simp
  then show "\<forall>i<1. passes_on flaky timeouts_only (1 + i)"
    by (simp add: passes_on_def flaky_def gate_gives_up_def progress_stuck_def)
qed (simp_all add: flaky_def timeouts_only_def DEFAULT_RETRY_POLICY_def)

end
