(* ===== verification/OverflowRecovery.thy ===== *)
theory OverflowRecovery
  imports Prelude
begin

text \<open>
  \<open>src/src/runtime/recovery/overflow-recovery.ts\<close>: the phases a worker goes through when its
  context overflows, the timer of each tracked task and the cap on the number of tracked
  states. The two \<open>Map\<close>s are association lists in insertion order; a timer is the time-out it
  was armed with, and its firing is an event of its own. The callbacks become the list of
  phase changes an operation reports.
\<close>

datatype overflow_phase = PNone | PCompaction | PRetrying | PRecovered | PFailed

definition settled_phase :: "overflow_phase \<Rightarrow> bool" where
  "settled_phase p \<longleftrightarrow> p = PRecovered \<or> p = PFailed \<or> p = PNone"

record overflow_state =
  o_taskId :: string
  o_runId :: string
  o_phase :: overflow_phase
  o_startedAt :: int
  o_lastEventAt :: int
  o_compactionCount :: nat
  o_retryCount :: nat

record overflow_tracker =
  tr_states :: "(string \<times> overflow_state) list"
  tr_timers :: "(string \<times> nat) list"

type_synonym phase_change = "string \<times> overflow_phase \<times> overflow_phase"

definition PHASE_TIMEOUT_MS :: nat where
  "PHASE_TIMEOUT_MS = 120000"

definition TERMINAL_STATE_TTL_MS :: nat where
  "TERMINAL_STATE_TTL_MS = 300000"

definition MAX_TRACKED_STATES :: nat where
  "MAX_TRACKED_STATES = 5000"

definition keyFor :: "string \<Rightarrow> string \<Rightarrow> string" where
  "keyFor taskId runId = runId @ CHR 0x00 # taskId"

definition removeKey :: "string \<Rightarrow> overflow_tracker \<Rightarrow> overflow_tracker" where
  "removeKey k tr = tr\<lparr>tr_states := omap_del k (tr_states tr), tr_timers := omap_del k (tr_timers tr)\<rparr>"

definition resetTimeout :: "string \<Rightarrow> overflow_tracker \<Rightarrow> overflow_tracker" where
  "resetTimeout k tr =
     tr\<lparr>tr_timers := omap_set k
        (case map_of (tr_states tr) k of
           None \<Rightarrow> PHASE_TIMEOUT_MS
         | Some s \<Rightarrow> if settled_phase (o_phase s) then TERMINAL_STATE_TTL_MS else PHASE_TIMEOUT_MS)
        (tr_timers tr)\<rparr>"

fun oldest_settled ::
    "(string \<times> overflow_state) list \<Rightarrow> (string \<times> int) option \<Rightarrow> (string \<times> int) option" where
  "oldest_settled [] best = best"
| "oldest_settled ((k, s) # rest) best =
     oldest_settled rest
       (if settled_phase (o_phase s) \<and>
           (case best of None \<Rightarrow> True | Some (_, t) \<Rightarrow> o_lastEventAt s < t)
        then Some (k, o_lastEventAt s) else best)"

definition evictOldestTerminalState :: "overflow_tracker \<Rightarrow> overflow_tracker" where
  "evictOldestTerminalState tr =
     (case oldest_settled (tr_states tr) None of None \<Rightarrow> tr | Some (k, _) \<Rightarrow> removeKey k tr)"

text \<open>Store a state, arm its timer, keep the cap.\<close>

definition store_state :: "string \<Rightarrow> overflow_state \<Rightarrow> overflow_tracker \<Rightarrow> overflow_tracker" where
  "store_state k s tr =
     (let tr1 = resetTimeout k (tr\<lparr>tr_states := omap_set k s (tr_states tr)\<rparr>)
      in if MAX_TRACKED_STATES < length (tr_states tr1) then evictOldestTerminalState tr1 else tr1)"

definition next_phase :: "overflow_phase \<Rightarrow> string \<Rightarrow> overflow_phase" where
  "next_phase p ev =
     (if ev = ''compaction_start'' then PCompaction
      else if ev = ''auto_retry_start'' then PRetrying
      else if ev = ''auto_retry_end'' then PRecovered
      else if ev = ''agent_end'' \<and> (p = PCompaction \<or> p = PRetrying) then PFailed
      else p)"

definition feedEvent ::
    "string \<Rightarrow> string \<Rightarrow> string \<Rightarrow> int \<Rightarrow> overflow_tracker
      \<Rightarrow> overflow_tracker \<times> overflow_phase \<times> phase_change list" where
  "feedEvent taskId runId ev now tr =
     (let k = keyFor taskId runId; existing = map_of (tr_states tr) k in
      case existing of
        Some s \<Rightarrow>
          if o_phase s = PRecovered \<or> o_phase s = PFailed
          then (tr\<lparr>tr_states := omap_set k (s\<lparr>o_lastEventAt := now\<rparr>) (tr_states tr)\<rparr>, o_phase s, [])
          else (let p = next_phase (o_phase s) ev;
                    s' = s\<lparr>o_taskId := taskId, o_runId := runId, o_phase := p, o_lastEventAt := now,
                           o_compactionCount := o_compactionCount s + (if ev = ''compaction_start'' then 1 else 0),
                           o_retryCount := o_retryCount s + (if ev = ''auto_retry_start'' then 1 else 0)\<rparr>
                in (store_state k s' tr, p, if o_phase s \<noteq> p then [(k, o_phase s, p)] else []))
      | None \<Rightarrow>
          (let p = next_phase PNone ev;
               s' = \<lparr> o_taskId = taskId, o_runId = runId, o_phase = p, o_startedAt = now, o_lastEventAt = now,
                      o_compactionCount = (if ev = ''compaction_start'' then 1 else 0),
                      o_retryCount = (if ev = ''auto_retry_start'' then 1 else 0) \<rparr>
           in (store_state k s' tr, p, if PNone \<noteq> p then [(k, PNone, p)] else [])))"

text \<open>The callback of the timer of a key, when one is armed.\<close>

definition timer_fires :: "string \<Rightarrow> int \<Rightarrow> overflow_tracker \<Rightarrow> overflow_tracker \<times> phase_change list" where
  "timer_fires k now tr =
     (if map_of (tr_timers tr) k = None then (tr, [])
      else let tr1 = tr\<lparr>tr_timers := omap_del k (tr_timers tr)\<rparr> in
        case map_of (tr_states tr1) k of
          None \<Rightarrow> (tr1, [])
        | Some s \<Rightarrow>
            if settled_phase (o_phase s) then (tr1\<lparr>tr_states := omap_del k (tr_states tr1)\<rparr>, [])
            else (tr1\<lparr>tr_states := omap_set k (s\<lparr>o_phase := PFailed, o_lastEventAt := now\<rparr>) (tr_states tr1)\<rparr>,
                  [(k, o_phase s, PFailed)]))"

definition overflow_getState :: "string \<Rightarrow> string option \<Rightarrow> overflow_tracker \<Rightarrow> overflow_state option" where
  "overflow_getState taskId runId tr =
     (if truthy runId then map_of (tr_states tr) (keyFor taskId (the runId))
      else find (\<lambda>s. o_taskId s = taskId) (map snd (tr_states tr)))"

definition overflow_getPhase :: "string \<Rightarrow> string option \<Rightarrow> overflow_tracker \<Rightarrow> overflow_phase" where
  "overflow_getPhase taskId runId tr = nullish (map_option o_phase (overflow_getState taskId runId tr)) PNone"

definition removeTask :: "string \<Rightarrow> string option \<Rightarrow> overflow_tracker \<Rightarrow> overflow_tracker" where
  "removeTask taskId runId tr =
     fold removeKey
       (if truthy runId then [keyFor taskId (the runId)]
        else map fst (filter (\<lambda>e. o_taskId (snd e) = taskId) (tr_states tr))) tr"

definition overflow_dispose :: "overflow_tracker \<Rightarrow> overflow_tracker" where
  "overflow_dispose tr = \<lparr> tr_states = [], tr_timers = [] \<rparr>"

subsection \<open>The invariant of the tracker\<close>

text \<open>
  Both maps have distinct keys, a timer belongs to a tracked state, a state that is still
  recovering has its phase timer armed, and one that never started or has recovered the
  expiry timer. Only a failed state can be without a timer.
\<close>

definition tracker_ok :: "overflow_tracker \<Rightarrow> bool" where
  "tracker_ok tr \<longleftrightarrow> omap_ok (tr_states tr) \<and> omap_ok (tr_timers tr) \<and>
     dom (map_of (tr_timers tr)) \<subseteq> dom (map_of (tr_states tr)) \<and>
     (\<forall>k s. map_of (tr_states tr) k = Some s \<longrightarrow>
        (\<not> settled_phase (o_phase s) \<longrightarrow> map_of (tr_timers tr) k = Some PHASE_TIMEOUT_MS) \<and>
        (o_phase s = PNone \<or> o_phase s = PRecovered \<longrightarrow>
           map_of (tr_timers tr) k = Some TERMINAL_STATE_TTL_MS))"

lemma tracker_ok_removeKey: "tracker_ok tr \<Longrightarrow> tracker_ok (removeKey k tr)"
  by (auto simp: tracker_ok_def removeKey_def split: if_splits)

lemma tracker_ok_evict: "tracker_ok tr \<Longrightarrow> tracker_ok (evictOldestTerminalState tr)"
  by (auto simp: evictOldestTerminalState_def tracker_ok_removeKey split: option.splits)

lemma tracker_ok_put:
  "tracker_ok tr \<Longrightarrow> tracker_ok (resetTimeout k (tr\<lparr>tr_states := omap_set k s (tr_states tr)\<rparr>))"
  by (auto simp: tracker_ok_def resetTimeout_def settled_phase_def split: if_splits)

lemma tracker_ok_store: "tracker_ok tr \<Longrightarrow> tracker_ok (store_state k s tr)"
  using tracker_ok_put [of tr k s] tracker_ok_evict by (auto simp: store_state_def Let_def)

lemma tracker_ok_touch:
  "tracker_ok tr \<Longrightarrow> map_of (tr_states tr) k = Some s \<Longrightarrow> o_phase s' = o_phase s \<Longrightarrow>
   tracker_ok (tr\<lparr>tr_states := omap_set k s' (tr_states tr)\<rparr>)"
  by (auto simp: tracker_ok_def split: if_splits)

lemma tracker_ok_feed: "tracker_ok tr \<Longrightarrow> tracker_ok (fst (feedEvent t r ev now tr))"
proof -
  assume ok: "tracker_ok tr"
  show ?thesis
  proof (cases "map_of (tr_states tr) (keyFor t r)")
    case None
    then show ?thesis using tracker_ok_store [OF ok] by (auto simp: feedEvent_def Let_def)
  next
    case (Some s)
    then show ?thesis
      using tracker_ok_store [OF ok] tracker_ok_touch [OF ok Some]
      by (auto simp: feedEvent_def Let_def)
  qed
qed

lemma tracker_ok_fires: "tracker_ok tr \<Longrightarrow> tracker_ok (fst (timer_fires k now tr))"
  by (auto simp: timer_fires_def tracker_ok_def Let_def settled_phase_def split: option.splits if_splits)

subsection \<open>Runs of the tracker\<close>

datatype tracker_event =
  EvFeed string string string int
| EvFires string int
| EvRemove string "string option"
| EvDispose

fun tracker_step :: "tracker_event \<Rightarrow> overflow_tracker \<Rightarrow> overflow_tracker" where
  "tracker_step (EvFeed t r ev now) tr = fst (feedEvent t r ev now tr)"
| "tracker_step (EvFires k now) tr = fst (timer_fires k now tr)"
| "tracker_step (EvRemove t r) tr = removeTask t r tr"
| "tracker_step EvDispose tr = overflow_dispose tr"

definition new_tracker :: overflow_tracker where
  "new_tracker = \<lparr> tr_states = [], tr_timers = [] \<rparr>"

lemma tracker_ok_new: "tracker_ok new_tracker"
  by (simp add: tracker_ok_def new_tracker_def)

lemma tracker_ok_step: "tracker_ok tr \<Longrightarrow> tracker_ok (tracker_step e tr)"
proof (cases e)
  case (EvRemove t r)
  assume "tracker_ok tr"
  then have "tracker_ok (fold removeKey ks tr)" for ks
    by (induction ks arbitrary: tr) (simp_all add: tracker_ok_removeKey)
  then show ?thesis by (simp add: EvRemove removeTask_def)
next
  case EvDispose
  then show ?thesis using tracker_ok_new by (simp add: overflow_dispose_def new_tracker_def)
qed (simp_all add: tracker_ok_feed tracker_ok_fires)

lemma tracker_ok_run: "tracker_ok tr \<Longrightarrow> tracker_ok (fold tracker_step es tr)"
  by (induction es arbitrary: tr) (simp_all add: tracker_ok_step)

text \<open>
  Every task that is compacting or retrying has its phase timer armed, after any sequence of
  events, expiries and removals: no recovery can hang untimed.
\<close>

theorem recovering_has_timer:
  assumes "map_of (tr_states (fold tracker_step es new_tracker)) k = Some s"
    and "\<not> settled_phase (o_phase s)"
  shows "map_of (tr_timers (fold tracker_step es new_tracker)) k = Some PHASE_TIMEOUT_MS"
  using tracker_ok_run [OF tracker_ok_new, of es] assms by (auto simp: tracker_ok_def)

subsection \<open>The cap\<close>

lemma oldest_settled_in:
  "oldest_settled xs best = Some (k, t) \<Longrightarrow> best = Some (k, t) \<or> k \<in> fst ` set xs"
  by (induction xs best rule: oldest_settled.induct) (auto split: if_splits)

lemma oldest_settled_Some: "oldest_settled xs (Some b) \<noteq> None"
  by (induction xs "Some b" arbitrary: b rule: oldest_settled.induct) (auto split: if_splits)

lemma oldest_settled_None:
  "oldest_settled xs best = None \<Longrightarrow> best = None \<and> (\<forall>e\<in>set xs. \<not> settled_phase (o_phase (snd e)))"
proof (induction xs best rule: oldest_settled.induct)
  case (2 k s rest best)
  then have "(if settled_phase (o_phase s) \<and> (case best of None \<Rightarrow> True | Some (_, t) \<Rightarrow> o_lastEventAt s < t)
        then Some (k, o_lastEventAt s) else best) = None \<and>
      (\<forall>e\<in>set rest. \<not> settled_phase (o_phase (snd e)))" by simp
  then show ?case by (cases best) (auto split: if_splits)
qed simp

lemma evict_length:
  assumes "tracker_ok tr"
  shows "length (tr_states (evictOldestTerminalState tr)) < length (tr_states tr) \<or>
    (\<forall>e\<in>set (tr_states (evictOldestTerminalState tr)). \<not> settled_phase (o_phase (snd e)))"
proof (cases "oldest_settled (tr_states tr) None")
  case None
  then show ?thesis using oldest_settled_None [OF None] by (simp add: evictOldestTerminalState_def)
next
  case (Some kt)
  obtain k t where kt: "kt = (k, t)" by (cases kt)
  have "k \<in> fst ` set (tr_states tr)" using oldest_settled_in [of "tr_states tr" None k t] Some kt by simp
  then obtain e where e: "e \<in> set (tr_states tr)" "fst e = k" by blast
  then have "length (omap_del k (tr_states tr)) < length (tr_states tr)"
    unfolding omap_del_def by (intro length_filter_less) auto
  then show ?thesis by (simp add: evictOldestTerminalState_def Some kt removeKey_def)
qed

lemma put_length:
  "length (tr_states (resetTimeout k (tr\<lparr>tr_states := omap_set k s (tr_states tr)\<rparr>))) \<le> Suc (length (tr_states tr))"
  by (simp add: resetTimeout_def length_omap_set)

lemma store_capped:
  assumes "tracker_ok tr"
  shows "length (tr_states (store_state k s tr)) \<le> max MAX_TRACKED_STATES (length (tr_states tr)) \<or>
    (\<forall>e\<in>set (tr_states (store_state k s tr)). \<not> settled_phase (o_phase (snd e)))"
  using evict_length [OF tracker_ok_put [OF assms, of k s]] put_length [where k = k and tr = tr and s = s]
  unfolding store_state_def Let_def by (auto split: if_splits)

lemma feed_capped:
  assumes "tracker_ok tr"
  shows "length (tr_states (fst (feedEvent t r ev now tr))) \<le> max MAX_TRACKED_STATES (length (tr_states tr)) \<or>
    (\<forall>e\<in>set (tr_states (fst (feedEvent t r ev now tr))). \<not> settled_phase (o_phase (snd e)))"
proof (cases "map_of (tr_states tr) (keyFor t r)")
  case None
  then show ?thesis
    using store_capped [OF assms, of "keyFor t r"] unfolding feedEvent_def Let_def None option.case fst_conv by blast
next
  case (Some s)
  show ?thesis
  proof (cases "o_phase s = PRecovered \<or> o_phase s = PFailed")
    case True
    have "keyFor t r \<in> fst ` set (tr_states tr)" using Some by (metis domI dom_map_of_conv_image_fst)
    then show ?thesis using True by (auto simp: feedEvent_def Let_def Some length_omap_set)
  next
    case False
    then show ?thesis
      using store_capped [OF assms, of "keyFor t r"]
      unfolding feedEvent_def Let_def Some option.case by (simp only: if_False fst_conv)
  qed
qed

text \<open>
  Feeding an event never leaves more tracked states than the cap, or than before if there were
  more, unless every tracked task is still compacting or retrying.
\<close>

theorem tracker_capped:
  "length (tr_states (fst (feedEvent t r ev now (fold tracker_step es new_tracker))))
     \<le> max MAX_TRACKED_STATES (length (tr_states (fold tracker_step es new_tracker))) \<or>
   (\<forall>e\<in>set (tr_states (fst (feedEvent t r ev now (fold tracker_step es new_tracker)))).
      \<not> settled_phase (o_phase (snd e)))"
  by (rule feed_capped [OF tracker_ok_run [OF tracker_ok_new]])

subsection \<open>A state failed by its timer\<close>

definition stranded :: "string \<Rightarrow> overflow_tracker \<Rightarrow> bool" where
  "stranded k tr \<longleftrightarrow> (\<exists>s. map_of (tr_states tr) k = Some s \<and> o_phase s = PFailed) \<and>
     map_of (tr_timers tr) k = None"

lemma timer_strands:
  assumes "tracker_ok tr" and "map_of (tr_states tr) k = Some s" and "\<not> settled_phase (o_phase s)"
  shows "stranded k (fst (timer_fires k now tr))"
  using assms by (auto simp: stranded_def timer_fires_def Let_def tracker_ok_def)

fun ordinary :: "tracker_event \<Rightarrow> bool" where
  "ordinary (EvFeed _ _ _ _) = True"
| "ordinary (EvFires _ _) = True"
| "ordinary _ = False"

lemma stranded_step:
  assumes "stranded k tr" and "ordinary e" and "length (tr_states tr) < MAX_TRACKED_STATES"
  shows "stranded k (tracker_step e tr)"
proof (cases e)
  case (EvFeed t r ev now)
  have cap: "store_state j s tr = resetTimeout j (tr\<lparr>tr_states := omap_set j s (tr_states tr)\<rparr>)" for j s
    using assms(3) by (simp add: store_state_def resetTimeout_def length_omap_set Let_def)
  obtain s where s: "map_of (tr_states tr) k = Some s" "o_phase s = PFailed" "map_of (tr_timers tr) k = None"
    using assms(1) by (auto simp: stranded_def)
  show ?thesis
  proof (cases "keyFor t r = k")
    case True
    then show ?thesis using s by (auto simp: EvFeed feedEvent_def Let_def stranded_def)
  next
    case False
    then show ?thesis using s cap
      by (auto simp: EvFeed feedEvent_def Let_def stranded_def resetTimeout_def split: option.splits)
  qed
next
  case (EvFires j now)
  then show ?thesis using assms(1)
    by (auto simp: timer_fires_def Let_def stranded_def split: option.splits)
qed (use assms(2) in simp_all)

text \<open>
  A task whose phase timer fired stays in the tracker for good: no timer is armed for it any
  more, and no later event or expiry removes it while the tracker stays below its cap.
\<close>

theorem timed_out_state_never_expires:
  assumes "tracker_ok tr" and "map_of (tr_states tr) k = Some s" and "\<not> settled_phase (o_phase s)"
    and "list_all ordinary es"
    and "\<forall>n\<le>length es. length (tr_states (fold tracker_step (take n es) (fst (timer_fires k now tr))))
           < MAX_TRACKED_STATES"
  shows "stranded k (fold tracker_step es (fst (timer_fires k now tr)))"
proof -
  have "stranded k (fold tracker_step (take n es) (fst (timer_fires k now tr)))" if "n \<le> length es" for n
    using that
  proof (induction n)
    case 0
    then show ?case using timer_strands [OF assms(1-3)] by simp
  next
    case (Suc n)
    have "ordinary (es ! n)" using assms(4) Suc.prems by (simp add: list_all_length)
    then have "stranded k (tracker_step (es ! n) (fold tracker_step (take n es) (fst (timer_fires k now tr))))"
      using Suc assms(5) by (intro stranded_step) simp_all
    then show ?case using Suc.prems by (simp add: take_Suc_conv_app_nth)
  qed
  from this [of "length es"] show ?thesis by simp
qed

text \<open>
  A recovered or failed verdict is final: further events of the task return it unchanged and
  report no phase change.
\<close>

theorem settled_verdict_absorbs:
  assumes "map_of (tr_states tr) (keyFor t r) = Some s" and "o_phase s = PRecovered \<or> o_phase s = PFailed"
  shows "fst (snd (feedEvent t r ev now tr)) = o_phase s \<and> snd (snd (feedEvent t r ev now tr)) = [] \<and>
    (\<exists>s'. map_of (tr_states (fst (feedEvent t r ev now tr))) (keyFor t r) = Some s' \<and> o_phase s' = o_phase s)"
  using assms by (auto simp: feedEvent_def Let_def)

subsection \<open>Concrete inputs\<close>

definition compacting :: overflow_tracker where
  "compacting = fold tracker_step [EvFeed ''t'' ''r'' ''compaction_start'' 1] new_tracker"

lemma compacting_state:
  "map_of (tr_states compacting) (keyFor ''t'' ''r'') = Some
     \<lparr> o_taskId = ''t'', o_runId = ''r'', o_phase = PCompaction, o_startedAt = 1, o_lastEventAt = 1,
       o_compactionCount = 1, o_retryCount = 0 \<rparr>"
  by (simp add: compacting_def new_tracker_def feedEvent_def next_phase_def store_state_def
      resetTimeout_def keyFor_def Let_def MAX_TRACKED_STATES_def)

lemma recovering_has_timer_witness:
  "map_of (tr_timers compacting) (keyFor ''t'' ''r'') = Some PHASE_TIMEOUT_MS"
  unfolding compacting_def
  by (rule recovering_has_timer [OF compacting_state [unfolded compacting_def]])
    (simp add: settled_phase_def)

lemma tracker_capped_witness:
  "length (tr_states (fst (feedEvent ''u'' ''r'' ''tick'' 2 compacting))) \<le> MAX_TRACKED_STATES"
proof -
  have "length (tr_states compacting) = 1" "tr_states (fst (feedEvent ''u'' ''r'' ''tick'' 2 compacting)) \<noteq> []"
    "\<exists>e\<in>set (tr_states (fst (feedEvent ''u'' ''r'' ''tick'' 2 compacting))). settled_phase (o_phase (snd e))"
    by (simp_all add: compacting_def new_tracker_def feedEvent_def next_phase_def store_state_def
        resetTimeout_def keyFor_def Let_def MAX_TRACKED_STATES_def settled_phase_def)
  with tracker_capped [of "''u''" "''r''" "''tick''" 2 "[EvFeed ''t'' ''r'' ''compaction_start'' 1]"]
  show ?thesis by (fastforce simp: compacting_def [symmetric] MAX_TRACKED_STATES_def simp del: fold.simps)
qed

lemma timed_out_state_never_expires_witness:
  "stranded (keyFor ''t'' ''r'')
     (fold tracker_step [EvFeed ''t'' ''r'' ''agent_end'' 999999, EvFires (keyFor ''t'' ''r'') 9999999]
       (fst (timer_fires (keyFor ''t'' ''r'') 120001 compacting)))"
proof (rule timed_out_state_never_expires [OF _ compacting_state])
  show "tracker_ok compacting" unfolding compacting_def by (rule tracker_ok_run [OF tracker_ok_new])
  show "\<forall>n\<le>length [EvFeed ''t'' ''r'' ''agent_end'' 999999, EvFires (keyFor ''t'' ''r'') 9999999].
      length (tr_states (fold tracker_step
        (take n [EvFeed ''t'' ''r'' ''agent_end'' 999999, EvFires (keyFor ''t'' ''r'') 9999999])
        (fst (timer_fires (keyFor ''t'' ''r'') 120001 compacting)))) < MAX_TRACKED_STATES"
  proof (intro allI impI)
    fix n assume "n \<le> length [EvFeed ''t'' ''r'' ''agent_end'' 999999, EvFires (keyFor ''t'' ''r'') 9999999]"
    then have "n = 0 \<or> n = 1 \<or> n = 2" by auto
    then show "length (tr_states (fold tracker_step
        (take n [EvFeed ''t'' ''r'' ''agent_end'' 999999, EvFires (keyFor ''t'' ''r'') 9999999])
        (fst (timer_fires (keyFor ''t'' ''r'') 120001 compacting)))) < MAX_TRACKED_STATES"
      by (elim disjE)
        (simp_all add: compacting_def new_tracker_def feedEvent_def next_phase_def store_state_def
          timer_fires_def resetTimeout_def keyFor_def Let_def MAX_TRACKED_STATES_def settled_phase_def
          omap_del_def)
  qed
qed (simp_all add: settled_phase_def)

lemma settled_verdict_absorbs_witness:
  "fst (snd (feedEvent ''t'' ''r'' ''compaction_start'' 7
     (fold tracker_step [EvFeed ''t'' ''r'' ''auto_retry_end'' 1] new_tracker))) = PRecovered"
proof -
  have "\<exists>s. map_of (tr_states (fold tracker_step [EvFeed ''t'' ''r'' ''auto_retry_end'' 1] new_tracker))
      (keyFor ''t'' ''r'') = Some s \<and> o_phase s = PRecovered"
    by (simp add: new_tracker_def feedEvent_def next_phase_def store_state_def resetTimeout_def
        keyFor_def Let_def MAX_TRACKED_STATES_def)
  then obtain s where s: "map_of (tr_states (fold tracker_step [EvFeed ''t'' ''r'' ''auto_retry_end'' 1]
      new_tracker)) (keyFor ''t'' ''r'') = Some s" "o_phase s = PRecovered" by blast
  from settled_verdict_absorbs [OF s(1)] s(2) show ?thesis by simp
qed

end
