(* ===== verification/BatchBarrier.thy ===== *)
theory BatchBarrier
  imports Prelude
begin

text \<open>
  \<open>src/src/runtime/scheduling/batch-barrier.ts\<close>: the barrier that coalesces the completion
  notices of the background agents of a batch into one, and its client in
  \<open>src/src/extension/registration/subagent-manager-setup.ts\<close>. The \<open>Map\<close>s are association
  lists in insertion order.
\<close>

record batch_member =
  bm_id :: string
  bm_description :: "string option"
  bm_type :: "string option"
  bm_status :: string

record batch =
  b_members :: "(string \<times> batch_member) list"
  b_terminal :: "(string \<times> batch_member) list"
  b_notified :: bool

record batch_snapshot =
  bs_members :: "batch_member list"
  bs_terminal :: "batch_member list"
  bs_allDone :: bool
  bs_notified :: bool

record batch_barrier =
  bb_batches :: "(string \<times> batch) list"
  bb_tombstones :: "(string \<times> int) list"

definition TOMBSTONE_CAP :: nat where
  "TOMBSTONE_CAP = 256"

definition isTerminalStatus :: "string \<Rightarrow> bool" where
  "isTerminalStatus s \<longleftrightarrow> s \<in> {''completed'', ''failed'', ''cancelled'', ''error'', ''stopped''}"

definition new_barrier :: batch_barrier where
  "new_barrier = \<lparr> bb_batches = [], bb_tombstones = [] \<rparr>"

definition empty_batch :: batch where
  "empty_batch = \<lparr> b_members = [], b_terminal = [], b_notified = False \<rparr>"

definition has_key :: "'k \<Rightarrow> ('k \<times> 'v) list \<Rightarrow> bool" where
  "has_key k m \<longleftrightarrow> map_of m k \<noteq> None"

lemma has_key_iff: "has_key k m \<longleftrightarrow> k \<in> fst ` set m"
  by (simp add: has_key_def map_of_eq_None_iff)

definition bb_register ::
    "string \<Rightarrow> string \<Rightarrow> string option \<Rightarrow> string option \<Rightarrow> batch_barrier \<Rightarrow> batch_barrier" where
  "bb_register batchId agentId description type bb =
     (if has_key batchId (bb_tombstones bb) then bb
      else let b = nullish (map_of (bb_batches bb) batchId) empty_batch;
               b' = (if has_key agentId (b_members b) then b
                     else b\<lparr>b_members := omap_set agentId \<lparr> bm_id = agentId, bm_description = description,
                              bm_type = type, bm_status = ''running'' \<rparr> (b_members b)\<rparr>)
           in bb\<lparr>bb_batches := omap_set batchId b' (bb_batches bb)\<rparr>)"

definition batch_allDone :: "batch \<Rightarrow> bool" where
  "batch_allDone b \<longleftrightarrow> 0 < length (b_members b) \<and>
     list_all (\<lambda>i. has_key i (b_terminal b)) (map fst (b_members b))"

definition snapshot_of :: "batch \<Rightarrow> batch_snapshot" where
  "snapshot_of b = \<lparr> bs_members = map snd (b_members b), bs_terminal = map snd (b_terminal b),
     bs_allDone = batch_allDone b, bs_notified = b_notified b \<rparr>"

definition mark_member :: "batch_member \<Rightarrow> batch \<Rightarrow> batch" where
  "mark_member m b =
     (let b1 = (if has_key (bm_id m) (b_members b) then b
                else b\<lparr>b_members := omap_set (bm_id m) m (b_members b)\<rparr>)
      in if isTerminalStatus (bm_status m)
         then b1\<lparr>b_terminal := omap_set (bm_id m) m (b_terminal b1),
                 b_members := (case map_of (b_members b1) (bm_id m) of
                     None \<Rightarrow> b_members b1
                   | Some e \<Rightarrow> omap_set (bm_id m) (e\<lparr>bm_status := bm_status m\<rparr>) (b_members b1))\<rparr>
         else b1)"

definition markTerminal ::
    "string \<Rightarrow> batch_member \<Rightarrow> batch_barrier \<Rightarrow> batch_barrier \<times> batch_snapshot" where
  "markTerminal batchId m bb =
     (if has_key batchId (bb_tombstones bb)
      then (bb, \<lparr> bs_members = [m], bs_terminal = [m], bs_allDone = True, bs_notified = True \<rparr>)
      else let b = mark_member m (nullish (map_of (bb_batches bb) batchId) empty_batch)
           in (bb\<lparr>bb_batches := omap_set batchId b (bb_batches bb)\<rparr>, snapshot_of b))"

definition alreadyNotified :: "string \<Rightarrow> batch_barrier \<Rightarrow> bool" where
  "alreadyNotified batchId bb =
     nullish (map_option b_notified (map_of (bb_batches bb) batchId)) (has_key batchId (bb_tombstones bb))"

definition markNotified :: "string \<Rightarrow> int \<Rightarrow> batch_barrier \<Rightarrow> batch_barrier" where
  "markNotified batchId now bb =
     (let tombs = omap_set batchId now (bb_tombstones bb)
      in \<lparr> bb_batches = omap_del batchId (bb_batches bb),
           bb_tombstones = (if TOMBSTONE_CAP < length tombs then omap_del (fst (hd tombs)) tombs else tombs) \<rparr>)"

definition bb_snapshot :: "string \<Rightarrow> batch_barrier \<Rightarrow> batch_snapshot option" where
  "bb_snapshot batchId bb = map_option snapshot_of (map_of (bb_batches bb) batchId)"

definition bb_dispose :: "string option \<Rightarrow> batch_barrier \<Rightarrow> batch_barrier" where
  "bb_dispose batchId bb =
     (case batchId of
        None \<Rightarrow> new_barrier
      | Some i \<Rightarrow> bb\<lparr>bb_batches := omap_del i (bb_batches bb), bb_tombstones := omap_del i (bb_tombstones bb)\<rparr>)"

subsection \<open>The client\<close>

text \<open>
  A completion: nothing happens when the leader has consumed the result already, otherwise
  the member is marked, and the consolidated notice goes out when the batch is done and was
  not notified before. The result is the barrier and whether the notice was sent.
\<close>

definition on_completion ::
    "string \<Rightarrow> batch_member \<Rightarrow> bool \<Rightarrow> int \<Rightarrow> batch_barrier \<Rightarrow> batch_barrier \<times> bool" where
  "on_completion batchId m consumed now bb =
     (if consumed then (bb, False)
      else let (bb', snap) = markTerminal batchId m bb
           in if bs_allDone snap \<and> \<not> bs_notified snap then (markNotified batchId now bb', True)
              else (bb', False))"

datatype batch_event = BRegister string string | BComplete string batch_member bool int

fun batch_step :: "batch_event \<Rightarrow> batch_barrier \<times> string list \<Rightarrow> batch_barrier \<times> string list" where
  "batch_step (BRegister b i) (bb, sent) = (bb_register b i None None bb, sent)"
| "batch_step (BComplete b m consumed now) (bb, sent) =
     (let (bb', s) = on_completion b m consumed now bb in (bb', if s then sent @ [b] else sent))"

definition batch_run :: "batch_event list \<Rightarrow> batch_barrier \<times> string list" where
  "batch_run es = fold batch_step es (new_barrier, [])"

subsection \<open>What a batch knows\<close>

definition expected :: "batch_event list \<Rightarrow> string \<Rightarrow> string set" where
  "expected es b = {i. BRegister b i \<in> set es} \<union> {bm_id m |m c n. BComplete b m c n \<in> set es \<and> \<not> c}"

definition finished :: "batch_event list \<Rightarrow> string \<Rightarrow> string set" where
  "finished es b = {bm_id m |m c n. BComplete b m c n \<in> set es \<and> \<not> c \<and> isTerminalStatus (bm_status m)}"

lemma expected_snoc:
  "expected (es @ [e]) b = expected es b \<union>
     (case e of BRegister b' i \<Rightarrow> if b' = b then {i} else {}
      | BComplete b' m c n \<Rightarrow> if b' = b \<and> \<not> c then {bm_id m} else {})"
  by (cases e) (auto simp: expected_def)

lemma finished_snoc:
  "finished (es @ [e]) b = finished es b \<union>
     (case e of BRegister b' i \<Rightarrow> {}
      | BComplete b' m c n \<Rightarrow> if b' = b \<and> \<not> c \<and> isTerminalStatus (bm_status m) then {bm_id m} else {})"
  by (cases e) (auto simp: finished_def)

lemma finishedI:
  "BComplete b m False n \<in> set es \<Longrightarrow> isTerminalStatus (bm_status m) \<Longrightarrow> bm_id m \<in> finished es b"
  by (auto simp: finished_def)

lemma finished_expected: "finished es b \<subseteq> expected es b"
  by (auto simp: finished_def expected_def)

text \<open>The keys of the two maps of a batch that is not notified.\<close>

definition batch_keys :: "batch_event list \<Rightarrow> string \<Rightarrow> batch_barrier \<Rightarrow> bool" where
  "batch_keys es b bb \<longleftrightarrow>
     (case map_of (bb_batches bb) b of
        None \<Rightarrow> expected es b = {}
      | Some x \<Rightarrow> fst ` set (b_members x) = expected es b \<and> fst ` set (b_terminal x) = finished es b \<and>
          \<not> b_notified x)"

lemma mark_member_keys:
  "fst ` set (b_members (mark_member m b)) = insert (bm_id m) (fst ` set (b_members b))"
  "fst ` set (b_terminal (mark_member m b)) =
     (if isTerminalStatus (bm_status m) then insert (bm_id m) (fst ` set (b_terminal b))
      else fst ` set (b_terminal b))"
  "b_notified (mark_member m b) = b_notified b"
  by (auto simp: mark_member_def Let_def has_key_iff split: option.splits)

lemma batch_allDone_iff:
  "batch_allDone b \<longleftrightarrow> fst ` set (b_members b) \<noteq> {} \<and> fst ` set (b_members b) \<subseteq> fst ` set (b_terminal b)"
  by (auto simp: batch_allDone_def list_all_iff has_key_iff)

subsection \<open>The invariants of a run\<close>

definition barrier_inv :: "batch_event list \<Rightarrow> batch_barrier \<times> string list \<Rightarrow> bool" where
  "barrier_inv es s \<longleftrightarrow>
     fst ` set (bb_tombstones (fst s)) \<subseteq> set (snd s) \<and>
     (\<forall>b. b \<notin> set (snd s) \<longrightarrow> batch_keys es b (fst s)) \<and>
     (length (snd s) \<le> TOMBSTONE_CAP \<longrightarrow> map fst (bb_tombstones (fst s)) = snd s \<and> distinct (snd s))"

lemma batch_keys_other:
  "map_of (bb_batches bb') b = map_of (bb_batches bb) b \<Longrightarrow> expected es' b = expected es b \<Longrightarrow>
   finished es' b = finished es b \<Longrightarrow> batch_keys es b bb \<Longrightarrow> batch_keys es' b bb'"
  by (auto simp: batch_keys_def split: option.splits)

lemma batch_keys_empty:
  "batch_keys es b bb \<Longrightarrow>
   fst ` set (b_members (nullish (map_of (bb_batches bb) b) empty_batch)) = expected es b \<and>
   fst ` set (b_terminal (nullish (map_of (bb_batches bb) b) empty_batch)) = finished es b \<and>
   \<not> b_notified (nullish (map_of (bb_batches bb) b) empty_batch)"
  using finished_expected [of es b] by (auto simp: batch_keys_def empty_batch_def split: option.splits)

lemma register_keys:
  assumes "batch_keys es b bb" and "\<not> has_key b (bb_tombstones bb)"
  shows "batch_keys (es @ [BRegister b i]) b (bb_register b i x y bb)"
proof -
  define c where "c = nullish (map_of (bb_batches bb) b) empty_batch"
  have c: "fst ` set (b_members c) = expected es b" "fst ` set (b_terminal c) = finished es b" "\<not> b_notified c"
    using batch_keys_empty [OF assms(1)] by (simp_all add: c_def)
  show ?thesis
    using assms(2) c unfolding bb_register_def batch_keys_def c_def [symmetric] Let_def
    by (auto simp: expected_snoc finished_snoc has_key_iff)
qed

lemma mark_keys:
  assumes "batch_keys es b bb" and "\<not> has_key b (bb_tombstones bb)"
  shows "batch_keys (es @ [BComplete b m False now]) b (fst (markTerminal b m bb))"
    and "bs_allDone (snd (markTerminal b m bb)) \<longleftrightarrow>
      expected (es @ [BComplete b m False now]) b \<subseteq> finished (es @ [BComplete b m False now]) b"
    and "\<not> bs_notified (snd (markTerminal b m bb))"
proof -
  define c where "c = nullish (map_of (bb_batches bb) b) empty_batch"
  have c: "fst ` set (b_members c) = expected es b" "fst ` set (b_terminal c) = finished es b" "\<not> b_notified c"
    using batch_keys_empty [OF assms(1)] by (simp_all add: c_def)
  have m: "markTerminal b m bb = (bb\<lparr>bb_batches := omap_set b (mark_member m c) (bb_batches bb)\<rparr>,
      snapshot_of (mark_member m c))"
    using assms(2) by (simp add: markTerminal_def c_def Let_def)
  show "batch_keys (es @ [BComplete b m False now]) b (fst (markTerminal b m bb))"
    by (simp add: m batch_keys_def mark_member_keys c expected_snoc finished_snoc)
  show "bs_allDone (snd (markTerminal b m bb)) \<longleftrightarrow>
      expected (es @ [BComplete b m False now]) b \<subseteq> finished (es @ [BComplete b m False now]) b"
    by (auto simp: m snapshot_of_def batch_allDone_iff mark_member_keys c expected_snoc finished_snoc)
  show "\<not> bs_notified (snd (markTerminal b m bb))"
    by (simp add: m snapshot_of_def mark_member_keys c)
qed

lemma tombs_after_notify:
  "fst ` set (bb_tombstones (markNotified b now bb)) \<subseteq> insert b (fst ` set (bb_tombstones bb))"
  "length (bb_tombstones bb) < TOMBSTONE_CAP \<Longrightarrow> b \<notin> fst ` set (bb_tombstones bb) \<Longrightarrow>
   map fst (bb_tombstones (markNotified b now bb)) = map fst (bb_tombstones bb) @ [b]"
  by (auto simp: markNotified_def Let_def length_omap_set map_fst_omap_set)

lemma markTerminal_tombs: "bb_tombstones (fst (markTerminal b m bb)) = bb_tombstones bb"
  by (simp add: markTerminal_def Let_def)

lemma step_other_batch:
  assumes "e = BRegister b' i \<or> e = BComplete b' m c n" and "b \<noteq> b'"
  shows "map_of (bb_batches (fst (batch_step e s))) b = map_of (bb_batches (fst s)) b"
    and "expected (es @ [e]) b = expected es b" and "finished (es @ [e]) b = finished es b"
  using assms by (cases s; auto simp: bb_register_def on_completion_def markTerminal_def markNotified_def
      Let_def split_beta expected_snoc finished_snoc)+

lemma batch_keys_step_other:
  assumes "e = BRegister b' i \<or> e = BComplete b' m c n" and "b \<noteq> b'" and "batch_keys es b (fst s)"
  shows "batch_keys (es @ [e]) b (fst (batch_step e s))"
  by (rule batch_keys_other [OF step_other_batch(1) [OF assms(1,2)] step_other_batch(2) [OF assms(1,2)]
        step_other_batch(3) [OF assms(1,2)] assms(3)])

lemma barrier_step:
  assumes inv: "barrier_inv es s"
  shows "barrier_inv (es @ [e]) (batch_step e s)"
proof -
  obtain bb sent where s: "s = (bb, sent)" by (cases s)
  have tombs: "fst ` set (bb_tombstones bb) \<subseteq> set sent"
    and keys: "\<And>b. b \<notin> set sent \<Longrightarrow> batch_keys es b bb"
    and small: "length sent \<le> TOMBSTONE_CAP \<Longrightarrow> map fst (bb_tombstones bb) = sent \<and> distinct sent"
    using inv by (auto simp: barrier_inv_def s)
  have fresh: "\<not> has_key b (bb_tombstones bb)" if "b \<notin> set sent" for b
    using that tombs by (auto simp: has_key_iff)
  show ?thesis
  proof (cases e)
    case (BRegister b i)
    have "batch_keys (es @ [e]) a (fst (batch_step e s))" if "a \<notin> set sent" for a
    proof (cases "a = b")
      case True
      then show ?thesis using register_keys [OF keys fresh] that by (simp add: BRegister s)
    next
      case False
      then show ?thesis
        using keys [OF that] BRegister by (intro batch_keys_step_other) (simp_all add: s)
    qed
    moreover have "bb_tombstones (bb_register b i None None bb) = bb_tombstones bb"
      by (simp add: bb_register_def Let_def)
    ultimately show ?thesis using tombs small by (simp add: barrier_inv_def BRegister s)
  next
    case (BComplete b m c n)
    show ?thesis
    proof (cases "c \<or> has_key b (bb_tombstones bb)")
      case True
      have same: "batch_step e s = s"
        using True by (auto simp: BComplete s on_completion_def markTerminal_def)
      have "batch_keys (es @ [e]) a bb" if "a \<notin> set sent" for a
      proof -
        have "c \<or> a \<noteq> b" using True fresh [OF that] by auto
        then show ?thesis
          by (intro batch_keys_other [OF refl _ _ keys [OF that]])
            (auto simp: BComplete expected_snoc finished_snoc)
      qed
      then show ?thesis using tombs small unfolding same by (simp add: barrier_inv_def s)
    next
      case False
      then have live: "\<not> c" "\<not> has_key b (bb_tombstones bb)" by simp_all
      define bb1 snap where "bb1 = fst (markTerminal b m bb)" and "snap = snd (markTerminal b m bb)"
      have step: "batch_step e s = (if bs_allDone snap \<and> \<not> bs_notified snap
          then (markNotified b n bb1, sent @ [b]) else (bb1, sent))"
        using live by (simp add: BComplete s on_completion_def bb1_def snap_def split_beta)
      have t1: "bb_tombstones bb1 = bb_tombstones bb" by (simp add: bb1_def markTerminal_tombs)
      have others: "batch_keys (es @ [e]) a (fst (batch_step e s))" if "a \<notin> set sent" "a \<noteq> b" for a
        using keys [OF that(1)] that(2) BComplete by (intro batch_keys_step_other) (simp_all add: s)
      show ?thesis
      proof (cases "bs_allDone snap \<and> \<not> bs_notified snap")
        case True
        then have st: "batch_step e s = (markNotified b n bb1, sent @ [b])" using step by simp
        have "map fst (bb_tombstones (markNotified b n bb1)) = sent @ [b] \<and> distinct (sent @ [b])"
          if "length (sent @ [b]) \<le> TOMBSTONE_CAP"
        proof -
          have m: "map fst (bb_tombstones bb) = sent" "distinct sent" using small that by simp_all
          then have "length (bb_tombstones bb) < TOMBSTONE_CAP" "b \<notin> fst ` set (bb_tombstones bb)"
            using that live(2) by (auto simp: has_key_iff simp flip: length_map [of fst])
          then show ?thesis using tombs_after_notify(2) [of bb1 b n] m t1 by (auto simp: simp flip: set_map)
        qed
        moreover have "fst ` set (bb_tombstones (markNotified b n bb1)) \<subseteq> set (sent @ [b])"
          using order_trans [OF tombs_after_notify(1) [of b n bb1]] tombs t1 by auto
        ultimately show ?thesis
          using others unfolding st barrier_inv_def fst_conv snd_conv by auto
      next
        case False
        then have st: "batch_step e s = (bb1, sent)" using step by simp
        have "batch_keys (es @ [e]) a bb1" if "a \<notin> set sent" for a
        proof (cases "a = b")
          case True
          then show ?thesis
            using mark_keys(1) [OF keys [OF that] fresh [OF that], of m n] live(1)
            by (simp add: BComplete bb1_def)
        next
          case False
          then show ?thesis using others [OF that] by (simp add: st)
        qed
        then show ?thesis using tombs small t1 unfolding st by (simp add: barrier_inv_def)
      qed
    qed
  qed
qed

lemma barrier_run: "barrier_inv es (batch_run es)"
proof (induction es rule: rev_induct)
  case Nil
  then show ?case
    by (simp add: barrier_inv_def batch_run_def new_barrier_def batch_keys_def expected_def)
next
  case (snoc e es)
  then show ?case using barrier_step [of es "batch_run es" e] by (simp add: batch_run_def)
qed

text \<open>
  While no more than the tombstone cap of notices have gone out, no batch has been announced
  twice, whatever late registrations and completions arrive.
\<close>

theorem batch_notified_once:
  assumes "length (snd (batch_run es)) \<le> TOMBSTONE_CAP"
  shows "distinct (snd (batch_run es))"
  using barrier_run [of es] assms by (simp add: barrier_inv_def)

lemma completion_sends_iff:
  assumes "b \<notin> set (snd (batch_run es))" and "\<not> consumed"
  shows "snd (on_completion b m consumed now (fst (batch_run es))) \<longleftrightarrow>
    expected (es @ [BComplete b m consumed now]) b \<subseteq> finished (es @ [BComplete b m consumed now]) b"
proof -
  have k: "batch_keys es b (fst (batch_run es))" and t: "\<not> has_key b (bb_tombstones (fst (batch_run es)))"
    using barrier_run [of es] assms(1) by (auto simp: barrier_inv_def has_key_iff)
  show ?thesis
    using mark_keys(2) [OF k t, of m now] mark_keys(3) [OF k t, of m] assms(2)
    by (auto simp: on_completion_def split_beta)
qed

text \<open>
  For a batch not announced yet, a completion sends the notice exactly when every agent that
  registered or completed unconsumed has now completed with a terminal status.
\<close>

theorem batch_notified_when_done:
  assumes "b \<notin> set (snd (batch_run es))" and "\<not> consumed"
  shows "snd (on_completion b m consumed now (fst (batch_run es))) \<longleftrightarrow>
    expected (es @ [BComplete b m consumed now]) b \<subseteq> finished (es @ [BComplete b m consumed now]) b"
  by (rule completion_sends_iff [OF assms])

text \<open>
  A member whose result the leader consumed before its completion was seen is never marked, so
  its batch is never announced, however many of the other members complete.
\<close>

theorem consumed_member_blocks_notice:
  assumes "b \<notin> set (snd (batch_run pre))"
    and "\<forall>m c n. BComplete b m c n \<in> set (pre @ BRegister b i # post) \<and> bm_id m = i \<longrightarrow> c"
  shows "b \<notin> set (snd (batch_run (pre @ BRegister b i # post)))"
  using assms(2)
proof (induction post rule: rev_induct)
  case Nil
  then show ?case using assms(1) by (cases "batch_run pre") (simp add: batch_run_def)
next
  case (snoc e post)
  let ?es = "pre @ BRegister b i # post"
  have nb: "b \<notin> set (snd (batch_run ?es))" using snoc by auto
  have run: "batch_run (?es @ [e]) = batch_step e (batch_run ?es)" by (simp add: batch_run_def)
  have "b \<notin> set (snd (batch_step e (batch_run ?es)))"
  proof (cases e)
    case (BRegister b' j)
    then show ?thesis using nb by (cases "batch_run ?es") simp
  next
    case (BComplete b' m c n)
    show ?thesis
    proof (cases "b' = b \<and> \<not> c")
      case True
      have "i \<in> expected (?es @ [e]) b" by (simp add: expected_def)
      moreover have "i \<notin> finished (?es @ [e]) b" using snoc.prems by (auto simp: finished_def)
      ultimately have "\<not> snd (on_completion b m c n (fst (batch_run ?es)))"
        using completion_sends_iff [OF nb, of c m n] True by (auto simp: BComplete)
      then show ?thesis using nb True by (cases "batch_run ?es") (simp add: BComplete split_beta)
    next
      case False
      then show ?thesis using nb
        by (cases "batch_run ?es") (auto simp: BComplete split_beta on_completion_def split: if_splits)
    qed
  qed
  then show ?case using run by simp
qed

subsection \<open>Concrete inputs\<close>

definition member :: "string \<Rightarrow> string \<Rightarrow> batch_member" where
  "member i s = \<lparr> bm_id = i, bm_description = None, bm_type = None, bm_status = s \<rparr>"

definition two_members :: "batch_event list" where
  "two_members = [BRegister ''B'' ''x'', BRegister ''B'' ''y'', BComplete ''B'' (member ''x'' ''failed'') False 1]"

lemma batch_notified_once_witness:
  "snd (batch_run (two_members @ [BComplete ''B'' (member ''y'' ''completed'') False 2,
      BRegister ''B'' ''z'', BComplete ''B'' (member ''z'' ''completed'') False 3])) = [''B''] \<and>
   distinct [''B'']"
proof -
  let ?es = "two_members @ [BComplete ''B'' (member ''y'' ''completed'') False 2,
      BRegister ''B'' ''z'', BComplete ''B'' (member ''z'' ''completed'') False 3]"
  have "snd (batch_run ?es) = [''B'']" by code_simp
  then show ?thesis using batch_notified_once [of ?es] by (simp add: TOMBSTONE_CAP_def)
qed

lemma batch_notified_when_done_witness:
  "snd (on_completion ''B'' (member ''y'' ''completed'') False 2 (fst (batch_run two_members)))"
proof -
  let ?es = "two_members @ [BComplete ''B'' (member ''y'' ''completed'') False 2]"
  have "''B'' \<notin> set (snd (batch_run two_members))" by code_simp
  from batch_notified_when_done [OF this, of False "member ''y'' ''completed''" 2]
  have iff: "snd (on_completion ''B'' (member ''y'' ''completed'') False 2 (fst (batch_run two_members)))
      \<longleftrightarrow> expected ?es ''B'' \<subseteq> finished ?es ''B''" by simp
  have e: "expected ?es ''B'' \<subseteq> {''x'', ''y''}"
    by (auto simp: expected_def two_members_def member_def)
  have "bm_id (member ''x'' ''failed'') \<in> finished ?es ''B''"
    by (rule finishedI [of _ _ 1]) (simp_all add: two_members_def member_def isTerminalStatus_def)
  moreover have "bm_id (member ''y'' ''completed'') \<in> finished ?es ''B''"
    by (rule finishedI [of _ _ 2]) (simp_all add: member_def isTerminalStatus_def)
  ultimately have "{''x'', ''y''} \<subseteq> finished ?es ''B''" by (simp add: member_def)
  then show ?thesis using iff e by blast
qed

lemma consumed_member_blocks_notice_witness:
  "''B'' \<notin> set (snd (batch_run ([] @ BRegister ''B'' ''x'' # [BRegister ''B'' ''y'',
     BComplete ''B'' (member ''x'' ''completed'') True 1, BComplete ''B'' (member ''y'' ''completed'') False 2])))"
proof (rule consumed_member_blocks_notice)
  show "''B'' \<notin> set (snd (batch_run []))" by (simp add: batch_run_def)
qed (auto simp: member_def)

end
