(* ===== verification/WorkflowModel.thy ===== *)
theory WorkflowModel
  imports TaskModel
begin

text \<open>
  The workflow definition of \<open>src/src/workflows/workflow-config.ts\<close>, with the fields that the
  modelled code reads, and the role permissions of \<open>src/src/runtime/role-permission.ts\<close>.
\<close>

text \<open>
  A declared \<open>output\<close>: \<open>false\<close>, a path, or a value of another type (its \<open>typeof\<close>), which the
  validation rejects.
\<close>

datatype step_output = OutFalse | OutPath string | OutOther string

datatype workflow_topology = TopoSingle | TopoSequential | TopoConcurrent | TopoComplexDag | TopoDynamic

record workflow_step =
  ws_id :: string
  ws_role :: string
  ws_task :: string
  ws_dependsOn :: "string list option"
  ws_parallelGroup :: "string option"
  ws_output :: "step_output option"
  ws_reads :: "string list option"
  ws_worktree :: "bool option"
  ws_verify :: "bool option"
  ws_specRefs :: "string list option"
  ws_specStrict :: "bool option"
  ws_preStepScript :: "string option"

record workflow_config =
  wf_name :: string
  wf_steps :: "workflow_step list"
  wf_maxConcurrency :: "jsnum option"
  wf_dynamic :: bool
  wf_topology :: "workflow_topology option"
  wf_coalesceMicroTasks :: "bool option"
  wf_specStrict :: "bool option"

definition step_deps :: "workflow_step \<Rightarrow> string list" where
  "step_deps s = nullish (ws_dependsOn s) []"

definition blank_step :: "string \<Rightarrow> workflow_step" where
  "blank_step i = \<lparr> ws_id = i, ws_role = ''explorer'', ws_task = [], ws_dependsOn = None,
     ws_parallelGroup = None, ws_output = None, ws_reads = None, ws_worktree = None, ws_verify = None,
     ws_specRefs = None, ws_specStrict = None, ws_preStepScript = None \<rparr>"

definition workflow_of :: "workflow_step list \<Rightarrow> workflow_config" where
  "workflow_of steps = \<lparr> wf_name = ''default'', wf_steps = steps, wf_maxConcurrency = None,
     wf_dynamic = False, wf_topology = None, wf_coalesceMicroTasks = None,
     wf_specStrict = None \<rparr>"

subsection \<open>Role permissions\<close>

datatype role_permission = ReadOnly | WorkspaceWrite

definition READ_ONLY_ROLES :: "string list" where
  "READ_ONLY_ROLES =
     [''explorer'', ''reviewer'', ''security-reviewer'', ''analyst'', ''critic'', ''planner'']"

definition WRITE_ROLES :: "string list" where
  "WRITE_ROLES =
     [''executor'', ''test-engineer'', ''writer'', ''verifier'', ''agent'', ''cold-verifier'',
      ''chain-executor'', ''worker'']"

definition permissionForRole :: "string \<Rightarrow> role_permission" where
  "permissionForRole r =
     (if r \<in> set READ_ONLY_ROLES then ReadOnly
      else if r \<in> set WRITE_ROLES then WorkspaceWrite
      else ReadOnly)"

text \<open>Whether a session of the given role may spawn subagents, and under which mode.\<close>

definition checkSubagentSpawnPermission :: "string option \<Rightarrow> bool \<times> role_permission" where
  "checkSubagentSpawnPermission r =
     (if \<not> truthy r then (True, WorkspaceWrite)
      else let mode = permissionForRole (the r)
           in if mode = ReadOnly then (False, mode) else (True, mode))"

text \<open>\<open>isMutatingTask\<close> of \<open>src/src/runtime/plan-approval.ts\<close>.\<close>

definition isMutatingTask :: "team_task \<Rightarrow> bool" where
  "isMutatingTask t \<longleftrightarrow> permissionForRole (role t) \<noteq> ReadOnly"

lemma write_roles_exact: "permissionForRole r = WorkspaceWrite \<longleftrightarrow> r \<in> set WRITE_ROLES"
  by (auto simp: permissionForRole_def READ_ONLY_ROLES_def WRITE_ROLES_def)

lemma spawn_needs_write_role:
  "fst (checkSubagentSpawnPermission (Some r)) \<longleftrightarrow> r = [] \<or> r \<in> set WRITE_ROLES"
  using write_roles_exact [of r]
  by (cases "permissionForRole r") (auto simp: checkSubagentSpawnPermission_def)

end
