(* ===== verification/WritePlanning.thy ===== *)
theory WritePlanning
  imports WorkflowModel "HOL-Library.Multiset" "HOL-Library.Sublist"
begin

text \<open>
  \<open>src/src/runtime/path-overlap.ts\<close> (serialising ready tasks on their declared write targets) and
  \<open>src/src/runtime/scheduling/coalesce-tasks.ts\<close> (packing small read-only tasks into one worker).
\<close>

subsection \<open>Write targets\<close>

definition extractWritePath :: "workflow_step \<Rightarrow> string option" where
  "extractWritePath s =
     (case ws_output s of Some (OutPath p) \<Rightarrow> if 0 < length p then Some p else None | _ \<Rightarrow> None)"

definition detectWriteOverlap :: "workflow_step \<Rightarrow> workflow_step \<Rightarrow> bool" where
  "detectWriteOverlap a b \<longleftrightarrow>
     (let pa = extractWritePath a; pb = extractWritePath b
      in truthy pa \<and> truthy pb \<and> pa = pb)"

lemma extractWritePath_ne: "extractWritePath s = Some p \<Longrightarrow> p \<noteq> []"
  by (auto simp: extractWritePath_def split: option.splits step_output.splits if_splits)

lemma detectWriteOverlap_iff:
  "detectWriteOverlap a b \<longleftrightarrow> (\<exists>p. extractWritePath a = Some p \<and> extractWritePath b = Some p)"
  by (auto simp: detectWriteOverlap_def truthy_iff Let_def dest: extractWritePath_ne)

text \<open>The loop of \<open>selectNonOverlapping\<close> over the remaining steps and the picked ones.\<close>

fun pick_steps :: "int \<Rightarrow> workflow_step list \<Rightarrow> workflow_step list \<Rightarrow> workflow_step list" where
  "pick_steps cap [] picked = picked"
| "pick_steps cap (s # ss) picked =
     (if cap \<le> int (length picked) then picked
      else if list_ex (detectWriteOverlap s) picked then pick_steps cap ss picked
      else pick_steps cap ss (picked @ [s]))"

definition selectNonOverlapping :: "workflow_step list \<Rightarrow> int \<Rightarrow> workflow_step list" where
  "selectNonOverlapping steps cap = (if cap \<le> 0 \<or> steps = [] then [] else pick_steps cap steps [])"

text \<open>
  The same loop over task ids: a task without a step, or whose step the workflow does not have,
  is always taken and joins no step to \<open>pickedSteps\<close>.
\<close>

definition step_of_task ::
    "(string \<Rightarrow> team_task option) \<Rightarrow> (string \<Rightarrow> workflow_step option) \<Rightarrow> string \<Rightarrow> workflow_step option" where
  "step_of_task taskById stepById i =
     (case taskById i of
        None \<Rightarrow> None
      | Some t \<Rightarrow> if truthy (stepId t) then stepById (the (stepId t)) else None)"

fun pick_tasks ::
    "int \<Rightarrow> ('a \<Rightarrow> workflow_step option) \<Rightarrow> 'a list \<Rightarrow> workflow_step list \<Rightarrow> 'a list \<Rightarrow> 'a list" where
  "pick_tasks cap step_at [] steps picked = picked"
| "pick_tasks cap step_at (i # is) steps picked =
     (if cap \<le> int (length picked) then picked
      else case step_at i of
          None \<Rightarrow> pick_tasks cap step_at is steps (picked @ [i])
        | Some s \<Rightarrow>
            if list_ex (detectWriteOverlap s) steps then pick_tasks cap step_at is steps picked
            else pick_tasks cap step_at is (steps @ [s]) (picked @ [i]))"

definition workflow_step_of :: "team_task list \<Rightarrow> workflow_config \<Rightarrow> string \<Rightarrow> workflow_step option" where
  "workflow_step_of tasks flow = step_of_task (index_by task_id tasks) (index_by ws_id (wf_steps flow))"

definition filterReadyByWriteOverlap ::
    "string list \<Rightarrow> team_task list \<Rightarrow> workflow_config \<Rightarrow> int \<Rightarrow> bool \<Rightarrow> string list" where
  "filterReadyByWriteOverlap ready tasks flow cap enabled =
     (if \<not> enabled \<or> cap \<le> 0 \<or> ready = [] then ready
      else pick_tasks cap (workflow_step_of tasks flow) ready [] [])"

subsection \<open>What the packers guarantee\<close>

text \<open>The write targets of a selection, in order.\<close>

definition targets :: "('a \<Rightarrow> workflow_step option) \<Rightarrow> 'a list \<Rightarrow> string list" where
  "targets step_at xs = List.map_filter (\<lambda>x. Option.bind (step_at x) extractWritePath) xs"

definition target :: "('a \<Rightarrow> workflow_step option) \<Rightarrow> 'a \<Rightarrow> string option" where
  "target step_at x = Option.bind (step_at x) extractWritePath"

lemma targets_simps [simp]:
  "targets f [] = []"
  "targets f (x # xs) = (case target f x of None \<Rightarrow> targets f xs | Some p \<Rightarrow> p # targets f xs)"
  "targets f (xs @ ys) = targets f xs @ targets f ys"
  by (auto simp: targets_def target_def List.map_filter_def split: option.splits)

lemma set_targets: "set (targets f xs) = {p. \<exists>x\<in>set xs. target f x = Some p}"
  by (induction xs) (auto split: option.splits)

text \<open>
  A selection is packed when it keeps the order of the input, has at most \<open>cap\<close> members, writes
  no path twice, and is maximal: below the cap, whatever was left out writes a path already
  taken.
\<close>

definition packed :: "int \<Rightarrow> ('a \<Rightarrow> workflow_step option) \<Rightarrow> 'a list \<Rightarrow> 'a list \<Rightarrow> bool" where
  "packed cap step_at xs picked \<longleftrightarrow>
     subseq picked xs \<and> int (length picked) \<le> cap \<and> distinct (targets step_at picked) \<and>
     (int (length picked) < cap \<longrightarrow>
       (\<forall>x\<in>set xs. x \<in> set picked \<or> (\<exists>p\<in>set (targets step_at picked). target step_at x = Some p)))"

lemma packed_start: "0 \<le> cap \<Longrightarrow> packed cap f [] []"
  by (simp add: packed_def)

lemma packed_skip:
  assumes "packed cap f xs picked" and "\<exists>p\<in>set (targets f picked). target f x = Some p"
  shows "packed cap f (xs @ [x]) picked"
  using assms by (auto simp: packed_def intro: subseq_rev_drop_many)

lemma packed_take:
  assumes "packed cap f xs picked" and "int (length picked) < cap"
    and "\<And>p. target f x = Some p \<Longrightarrow> p \<notin> set (targets f picked)"
  shows "packed cap f (xs @ [x]) (picked @ [x])"
  using assms by (auto simp: packed_def list_emb_append_mono split: option.splits)

lemma packed_stop:
  assumes "packed cap f xs picked" and "cap \<le> int (length picked)"
  shows "packed cap f (xs @ ys) picked"
  using assms by (auto simp: packed_def intro: subseq_rev_drop_many)

lemma pick_tasks_packed:
  assumes "packed cap f xs picked"
    and "set steps = {s. \<exists>i\<in>set picked. f i = Some s}"
  shows "packed cap f (xs @ is) (pick_tasks cap f is steps picked)"
  using assms
proof (induction cap f "is" steps picked arbitrary: xs rule: pick_tasks.induct)
  case (2 cap f i "is" steps picked)
  have overlap: "list_ex (detectWriteOverlap s) steps \<longleftrightarrow>
      (\<exists>p\<in>set (targets f picked). extractWritePath s = Some p)" for s
    by (auto simp: list_ex_iff detectWriteOverlap_iff set_targets target_def 2(5) bind_eq_Some_conv)
  show ?case
  proof (cases "cap \<le> int (length picked)")
    case True
    then show ?thesis using packed_stop [OF 2(4) True] by simp
  next
    case False
    then have room: "int (length picked) < cap" by simp
    show ?thesis
    proof (cases "f i")
      case None
      have "packed cap f (xs @ [i]) (picked @ [i])"
        by (rule packed_take [OF 2(4) room]) (simp add: target_def None)
      moreover have "set steps = {s. \<exists>j\<in>set (picked @ [i]). f j = Some s}"
        using None 2(5) by auto
      ultimately show ?thesis using 2(1) [OF False None, of "xs @ [i]"] False None by simp
    next
      case (Some s)
      show ?thesis
      proof (cases "list_ex (detectWriteOverlap s) steps")
        case True
        have "packed cap f (xs @ [i]) picked"
          using True unfolding overlap by (intro packed_skip [OF 2(4)]) (simp add: target_def Some)
        then show ?thesis using 2(2) [OF False Some True _ 2(5), of "xs @ [i]"] False Some True by simp
      next
        case clear: False
        have "packed cap f (xs @ [i]) (picked @ [i])"
          using clear unfolding overlap by (intro packed_take [OF 2(4) room]) (auto simp: target_def Some)
        moreover have "set (steps @ [s]) = {r. \<exists>j\<in>set (picked @ [i]). f j = Some r}"
          using Some 2(5) by auto
        ultimately show ?thesis using 2(3) [OF False Some clear, of "xs @ [i]"] False Some clear by simp
      qed
    qed
  qed
qed simp

lemma pick_steps_tasks: "pick_steps cap ss picked = pick_tasks cap Some ss picked picked"
  by (induction cap ss picked rule: pick_steps.induct) auto

text \<open>
  The scheduler's filter keeps the order of the ready tasks, takes at most the given number,
  never two that declare the same write target, and is maximal: below the cap, a task is left
  out only when its target is already taken.
\<close>

theorem filterReadyByWriteOverlap_packed:
  assumes "0 < cap"
  shows "packed cap (workflow_step_of tasks flow) ready (filterReadyByWriteOverlap ready tasks flow cap True)"
  using pick_tasks_packed [OF packed_start, of cap "[]" "workflow_step_of tasks flow" ready] assms
  by (auto simp: filterReadyByWriteOverlap_def intro: packed_start)

lemma selectNonOverlapping_packed:
  assumes "0 \<le> cap"
  shows "packed cap Some steps (selectNonOverlapping steps cap)"
proof (cases "cap = 0")
  case True
  then show ?thesis by (simp add: selectNonOverlapping_def packed_def)
next
  case False
  then show ?thesis
    using pick_tasks_packed [OF packed_start, of cap "[]" Some steps] assms
    by (auto simp: selectNonOverlapping_def pick_steps_tasks intro: packed_start)
qed

subsection \<open>Coalescing micro-tasks\<close>

definition DEFAULT_MAX_GROUP_SIZE :: int where
  "DEFAULT_MAX_GROUP_SIZE = 5"

definition DEFAULT_MAX_GROUP_BYTES :: int where
  "DEFAULT_MAX_GROUP_BYTES = 100000"

record coalesced_group =
  cg_id :: string
  cg_role :: string
  cg_cwd :: string
  cg_tasks :: "team_task list"

definition buildGroup :: "team_task list \<Rightarrow> string \<Rightarrow> string \<Rightarrow> coalesced_group" where
  "buildGroup ts r d =
     \<lparr> cg_id = (if length ts = 1 then task_id (ts ! 0) else join ''+'' (map task_id ts)),
       cg_role = r, cg_cwd = d, cg_tasks = ts \<rparr>"

definition estimateTaskPromptSize :: "workflow_step option \<Rightarrow> int" where
  "estimateTaskPromptSize step =
     (let taskText = nullish (map_option (\<lambda>s. int (length (ws_task s))) step) 0;
          packetEstimate = 500; delimiterOverhead = 200
      in taskText + packetEstimate + delimiterOverhead)"

text \<open>\<open>task.stepId ? stepById.get(task.stepId) : undefined\<close>.\<close>

definition step_for :: "(string \<Rightarrow> workflow_step option) \<Rightarrow> team_task \<Rightarrow> workflow_step option" where
  "step_for stepById t = (if truthy (stepId t) then stepById (the (stepId t)) else None)"

text \<open>The declared output of a task when it is a string (the empty one included).\<close>

definition string_output :: "(string \<Rightarrow> workflow_step option) \<Rightarrow> team_task \<Rightarrow> string option" where
  "string_output stepById t =
     (case step_for stepById t of
        Some s \<Rightarrow> (case ws_output s of Some (OutPath p) \<Rightarrow> Some p | _ \<Rightarrow> None)
      | None \<Rightarrow> None)"

definition write_conflict :: "(string \<Rightarrow> workflow_step option) \<Rightarrow> team_task \<Rightarrow> team_task \<Rightarrow> bool" where
  "write_conflict stepById t u \<longleftrightarrow>
     string_output stepById t \<noteq> None \<and> string_output stepById u = string_output stepById t"

fun place_task ::
    "(string \<Rightarrow> workflow_step option) \<Rightarrow> team_task \<Rightarrow> team_task list list \<Rightarrow> team_task list list" where
  "place_task stepById t [] = [[t]]"
| "place_task stepById t (g # gs) =
     (if list_ex (write_conflict stepById t) g then g # place_task stepById t gs else (g @ [t]) # gs)"

definition splitByWriteSafety ::
    "team_task list \<Rightarrow> (string \<Rightarrow> workflow_step option) \<Rightarrow> team_task list list" where
  "splitByWriteSafety bucket stepById = fold (place_task stepById) bucket []"

text \<open>The steps whose tasks may share a worker.\<close>

definition coalescable_step :: "workflow_step \<Rightarrow> bool" where
  "coalescable_step s \<longleftrightarrow>
     ws_worktree s \<noteq> Some True \<and>
     nullish (ws_specRefs s) [] = [] \<and>
     ws_specStrict s \<noteq> Some True \<and>
     \<not> truthy (ws_preStepScript s) \<and>
     ws_verify s \<noteq> Some True \<and>
     (case ws_output s of
        None \<Rightarrow> True
      | Some OutFalse \<Rightarrow> True
      | Some (OutPath p) \<Rightarrow> p = []
      | Some (OutOther _) \<Rightarrow> False)"

definition coalescable ::
    "(string \<Rightarrow> team_task option) \<Rightarrow> (string \<Rightarrow> workflow_step option) \<Rightarrow> string \<Rightarrow> team_task option" where
  "coalescable taskById stepById i =
     (case taskById i of
        None \<Rightarrow> None
      | Some t \<Rightarrow>
          (case step_for stepById t of
             None \<Rightarrow> None
           | Some s \<Rightarrow>
               if permissionForRole (role t) \<noteq> ReadOnly then None
               else if \<not> coalescable_step s then None
               else Some t))"

text \<open>The bucket key is the role and the working directory with a \<open>NUL\<close> between them.\<close>

definition NUL :: char where
  "NUL = CHR 0x00"

definition bucket_key :: "team_task \<Rightarrow> string" where
  "bucket_key t = role t @ NUL # cwd t"

definition add_to_bucket ::
    "team_task \<Rightarrow> (string \<times> team_task list) list \<Rightarrow> (string \<times> team_task list) list" where
  "add_to_bucket t m =
     (case map_of m (bucket_key t) of
        Some ts \<Rightarrow> omap_set (bucket_key t) (ts @ [t]) m
      | None \<Rightarrow> omap_set (bucket_key t) [t] m)"

text \<open>The first two parts of \<open>key.split("\0")\<close>.\<close>

definition key_role :: "string \<Rightarrow> string" where
  "key_role k = takeWhile (\<lambda>c. c \<noteq> NUL) k"

definition key_cwd :: "string \<Rightarrow> string" where
  "key_cwd k = takeWhile (\<lambda>c. c \<noteq> NUL) (drop (length (key_role k) + 1) k)"

text \<open>
  The chunk loop: \<open>cur\<close> is the slice from \<open>chunkStart\<close> to \<open>i\<close>, so \<open>i > chunkStart\<close> says that it is
  not empty.
\<close>

fun chunk_loop ::
    "(team_task \<Rightarrow> int) \<Rightarrow> int \<Rightarrow> int \<Rightarrow> team_task list \<Rightarrow> int \<Rightarrow> team_task list \<Rightarrow> team_task list list" where
  "chunk_loop sz maxSize maxBytes cur bytes [] = (if cur = [] then [] else [cur])"
| "chunk_loop sz maxSize maxBytes cur bytes (t # ts) =
     (let taskSize = sz t;
          wouldBeCount = int (length cur) + 1;
          wouldBeBytes = bytes + taskSize;
          overCount = maxSize < wouldBeCount;
          overBytes = cur \<noteq> [] \<and> maxBytes < wouldBeBytes
      in if (overCount \<or> overBytes) \<and> cur \<noteq> []
         then cur # chunk_loop sz maxSize maxBytes [t] taskSize ts
         else chunk_loop sz maxSize maxBytes (cur @ [t]) (bytes + taskSize) ts)"

definition planCoalescedGroups ::
    "string list \<Rightarrow> team_task list \<Rightarrow> workflow_config \<Rightarrow> bool \<Rightarrow> int \<Rightarrow> int \<Rightarrow> coalesced_group list" where
  "planCoalescedGroups ready tasks flow enabled maxSize maxBytes =
     (if \<not> enabled \<or> ready = [] then []
      else
        let taskById = index_by task_id tasks;
            stepById = index_by ws_id (wf_steps flow);
            sz = (\<lambda>t. estimateTaskPromptSize (step_for stepById t));
            buckets = fold add_to_bucket (List.map_filter (coalescable taskById stepById) ready) []
        in concat (map (\<lambda>(key, bucket).
             map (\<lambda>slice. buildGroup slice (key_role key) (key_cwd key))
               (concat (map (chunk_loop sz maxSize maxBytes [] 0) (splitByWriteSafety bucket stepById))))
             buckets))"

definition flattenGroupIds :: "coalesced_group list \<Rightarrow> string list" where
  "flattenGroupIds gs = concat (map (\<lambda>g. map task_id (cg_tasks g)) gs)"

definition findGroupContainingTask :: "coalesced_group list \<Rightarrow> string \<Rightarrow> coalesced_group option" where
  "findGroupContainingTask gs i = find (\<lambda>g. list_ex (\<lambda>t. task_id t = i) (cg_tasks g)) gs"

datatype dispatch_unit = Singleton string | Group coalesced_group

fun index_group ::
    "coalesced_group \<Rightarrow> (string \<Rightarrow> coalesced_group option) \<Rightarrow> string \<Rightarrow> coalesced_group option" where
  "index_group g m =
     (if length (cg_tasks g) < 2 then m else fold (\<lambda>t m. m(task_id t \<mapsto> g)) (cg_tasks g) m)"

text \<open>The two passes: first the groups in the order of the ready tasks, then what was not visited.\<close>

fun group_pass ::
    "(string \<Rightarrow> coalesced_group option) \<Rightarrow> string list \<Rightarrow> string set \<Rightarrow> dispatch_unit list \<Rightarrow>
     string set \<times> dispatch_unit list" where
  "group_pass groupOf [] visited units = (visited, units)"
| "group_pass groupOf (i # is) visited units =
     (case groupOf i of
        None \<Rightarrow> group_pass groupOf is visited units
      | Some g \<Rightarrow>
          if cg_id g \<in> visited then group_pass groupOf is visited units
          else group_pass groupOf is (insert (cg_id g) visited \<union> task_id ` set (cg_tasks g))
                 (units @ [Group g]))"

definition buildDispatchUnits :: "string list \<Rightarrow> coalesced_group list \<Rightarrow> dispatch_unit list" where
  "buildDispatchUnits ready groups =
     (let groupOf = fold index_group groups Map.empty;
          (visited, units) = group_pass groupOf ready {} []
      in units @ map Singleton (filter (\<lambda>i. i \<notin> visited) ready))"

subsection \<open>What the groups contain\<close>

lemma concat_chunks: "concat (chunk_loop sz ms mb cur b ts) = cur @ ts"
  by (induction sz ms mb cur b ts rule: chunk_loop.induct) (auto simp: Let_def)

definition chunk_ok :: "(team_task \<Rightarrow> int) \<Rightarrow> int \<Rightarrow> int \<Rightarrow> team_task list \<Rightarrow> bool" where
  "chunk_ok sz ms mb c \<longleftrightarrow>
     int (length c) \<le> max 1 ms \<and> (2 \<le> length c \<longrightarrow> sum_list (map sz c) \<le> mb)"

lemma chunks_ok:
  assumes "chunk_ok sz ms mb cur" and "b = sum_list (map sz cur)"
  shows "\<forall>c\<in>set (chunk_loop sz ms mb cur b ts). c \<noteq> [] \<and> chunk_ok sz ms mb c"
  using assms
proof (induction sz ms mb cur b ts rule: chunk_loop.induct)
  case (2 sz ms mb cur b t ts)
  show ?case
  proof (cases "(ms < int (length cur) + 1 \<or> cur \<noteq> [] \<and> mb < b + sz t) \<and> cur \<noteq> []")
    case True
    have "chunk_ok sz ms mb [t]" by (simp add: chunk_ok_def)
    then show ?thesis using 2(1) [OF refl refl refl refl refl True] 2(3) True by (auto simp: Let_def)
  next
    case False
    have "chunk_ok sz ms mb (cur @ [t])" using False 2(3,4) by (auto simp: chunk_ok_def)
    moreover have "b + sz t = sum_list (map sz (cur @ [t]))" using 2(4) by simp
    ultimately show ?thesis
      using 2(2) [OF refl refl refl refl refl False] False by (auto simp: Let_def)
  qed
qed simp

lemma place_task_mset: "mset (concat (place_task f t gs)) = add_mset t (mset (concat gs))"
  by (induction f t gs rule: place_task.induct) auto

lemma split_mset: "mset (concat (splitByWriteSafety ts f)) = mset ts"
proof -
  have "mset (concat (fold (place_task f) ts gs)) = mset ts + mset (concat gs)" for gs
    by (induction ts arbitrary: gs) (auto simp: place_task_mset)
  from this [of "[]"] show ?thesis by (simp add: splitByWriteSafety_def)
qed

definition buckets_ok :: "(string \<times> team_task list) list \<Rightarrow> bool" where
  "buckets_ok m \<longleftrightarrow> (\<forall>(k, ts)\<in>set m. \<forall>t\<in>set ts. bucket_key t = k)"

lemma omap_set_mset:
  "map_of m k = Some ts \<Longrightarrow>
   mset (concat (map snd (omap_set k (ts @ [t]) m))) = add_mset t (mset (concat (map snd m)))"
  by (induction m) auto

lemma omap_new_mset:
  "map_of m k = None \<Longrightarrow>
   mset (concat (map snd (omap_set k [t] m))) = add_mset t (mset (concat (map snd m)))"
  by (induction m) auto

lemma omap_set_members: "e \<in> set (omap_set k v m) \<Longrightarrow> e = (k, v) \<or> e \<in> set m"
  by (induction k v m rule: omap_set.induct) (auto split: if_splits)

lemma add_to_bucket_mset:
  "mset (concat (map snd (add_to_bucket t m))) = add_mset t (mset (concat (map snd m)))"
  by (auto simp: add_to_bucket_def omap_set_mset omap_new_mset split: option.splits)

lemma add_to_bucket_ok: "buckets_ok m \<Longrightarrow> buckets_ok (add_to_bucket t m)"
  by (fastforce simp: buckets_ok_def add_to_bucket_def split: option.splits
      dest: omap_set_members map_of_SomeD)

lemma buckets_of:
  "mset (concat (map snd (fold add_to_bucket ts m))) = mset ts + mset (concat (map snd m))"
  "buckets_ok m \<Longrightarrow> buckets_ok (fold add_to_bucket ts m)"
  by (induction ts arbitrary: m) (auto simp: add_to_bucket_mset add_to_bucket_ok)

lemma key_parts:
  assumes "NUL \<notin> set (role t)" and "NUL \<notin> set (cwd t)"
  shows "key_role (bucket_key t) = role t" and "key_cwd (bucket_key t) = cwd t"
proof -
  have r: "list_all (\<lambda>c. c \<noteq> NUL) (role t)" and d: "list_all (\<lambda>c. c \<noteq> NUL) (cwd t)"
    using assms by (auto simp: list_all_iff)
  show kr: "key_role (bucket_key t) = role t"
    unfolding key_role_def bucket_key_def by (rule takeWhile_stop [OF r]) simp
  have "takeWhile (\<lambda>c. c \<noteq> NUL) (cwd t) = cwd t"
    using d by (simp add: list_all_iff takeWhile_eq_all_conv)
  then show "key_cwd (bucket_key t) = cwd t" by (simp add: key_cwd_def kr) (simp add: bucket_key_def)
qed

text \<open>The groups before they are labelled: one list of slices per bucket.\<close>

definition slices ::
    "string list \<Rightarrow> team_task list \<Rightarrow> workflow_config \<Rightarrow> int \<Rightarrow> int \<Rightarrow> (string \<times> team_task list) list" where
  "slices ready tasks flow ms mb =
     (let stepById = index_by ws_id (wf_steps flow)
      in concat (map (\<lambda>(key, bucket). map (Pair key)
           (concat (map (chunk_loop (\<lambda>t. estimateTaskPromptSize (step_for stepById t)) ms mb [] 0)
              (splitByWriteSafety bucket stepById))))
           (fold add_to_bucket (List.map_filter (coalescable (index_by task_id tasks) stepById) ready) [])))"

lemma plan_slices:
  "ready \<noteq> [] \<Longrightarrow> planCoalescedGroups ready tasks flow True ms mb =
     map (\<lambda>(k, sl). buildGroup sl (key_role k) (key_cwd k)) (slices ready tasks flow ms mb)"
  by (simp add: planCoalescedGroups_def slices_def Let_def map_concat comp_def case_prod_unfold)

lemma concat_concat_map: "concat (map concat xss) = concat (concat xss)"
  by (induction xss) auto

lemma concat_all_chunks:
  "concat (concat (map (chunk_loop sz ms mb [] 0) gs)) = concat gs"
  by (induction gs) (auto simp: concat_chunks)

lemma slices_tasks:
  "mset (concat (map snd (slices ready tasks flow ms mb))) =
   mset (List.map_filter (coalescable (index_by task_id tasks) (index_by ws_id (wf_steps flow))) ready)"
proof -
  have slice: "concat (map snd (map (Pair (k :: string)) xs)) = concat xs" for k and xs :: "team_task list list"
    by (simp add: comp_def)
  have "mset (concat (map snd (concat (map (\<lambda>(key, bucket). map (Pair key)
          (concat (map (chunk_loop sz ms mb [] 0) (splitByWriteSafety bucket st)))) bs))))
      = mset (concat (map snd bs))" for sz st and bs :: "(string \<times> team_task list) list"
    by (induction bs) (auto simp: comp_def concat_all_chunks split_mset)
  then show ?thesis by (simp add: slices_def Let_def buckets_of)
qed

lemma slices_members:
  assumes "(k, c) \<in> set (slices ready tasks flow ms mb)"
  shows "c \<noteq> [] \<and>
    chunk_ok (\<lambda>t. estimateTaskPromptSize (step_for (index_by ws_id (wf_steps flow)) t)) ms mb c \<and>
    (\<forall>t\<in>set c. bucket_key t = k)"
proof -
  let ?st = "index_by ws_id (wf_steps flow)"
  let ?sz = "\<lambda>t. estimateTaskPromptSize (step_for ?st t)"
  let ?bs = "fold add_to_bucket (List.map_filter (coalescable (index_by task_id tasks) ?st) ready) []"
  obtain b g where b: "(k, b) \<in> set ?bs" and g: "g \<in> set (splitByWriteSafety b ?st)"
      and c: "c \<in> set (chunk_loop ?sz ms mb [] 0 g)"
    using assms by (auto simp: slices_def Let_def)
  have "c \<noteq> [] \<and> chunk_ok ?sz ms mb c"
    using chunks_ok [of ?sz ms mb "[]" 0 g] c by (simp add: chunk_ok_def)
  moreover have "set c \<subseteq> set b"
  proof -
    have "set c \<subseteq> set (concat (chunk_loop ?sz ms mb [] 0 g))" using c by auto
    also have "\<dots> = set g" by (simp only: concat_chunks append_Nil)
    also have "\<dots> \<subseteq> set (concat (splitByWriteSafety b ?st))" using g by auto
    also have "\<dots> = set b" using split_mset [of b ?st] by (rule mset_eq_setD)
    finally show ?thesis .
  qed
  moreover have "buckets_ok ?bs" by (rule buckets_of(2)) (simp add: buckets_ok_def)
  then have "\<forall>t\<in>set b. bucket_key t = k" using b unfolding buckets_ok_def by fast
  ultimately show ?thesis by blast
qed

lemma map_filter_ids:
  assumes "\<And>i t. f i = Some t \<Longrightarrow> task_id t = i"
  shows "map task_id (List.map_filter f is) = filter (\<lambda>i. f i \<noteq> None) is"
  using assms by (induction "is") (auto simp: List.map_filter_simps split: option.splits)

lemma coalescable_SomeD:
  "coalescable (index_by task_id tasks) st i = Some t \<Longrightarrow>
   task_id t = i \<and> t \<in> set tasks \<and> permissionForRole (role t) = ReadOnly"
  by (auto simp: coalescable_def split: option.splits if_splits dest: index_by_SomeD)

lemma plan_tasks:
  "mset (concat (map cg_tasks (planCoalescedGroups ready tasks flow True ms mb))) =
   mset (List.map_filter (coalescable (index_by task_id tasks) (index_by ws_id (wf_steps flow))) ready)"
proof (cases "ready = []")
  case True
  then show ?thesis by (simp add: planCoalescedGroups_def List.map_filter_simps)
next
  case False
  then show ?thesis
    using slices_tasks [of ready tasks flow ms mb]
    by (simp add: plan_slices buildGroup_def comp_def case_prod_unfold)
qed

text \<open>
  The groups partition the tasks that may be coalesced. Every group is of one role and one
  directory, read-only, within the size cap, and within the byte cap unless it is a single
  task.
\<close>

theorem planCoalescedGroups_correct:
  assumes "\<forall>t\<in>set tasks. NUL \<notin> set (role t) \<and> NUL \<notin> set (cwd t)"
  shows "mset (concat (map cg_tasks (planCoalescedGroups ready tasks flow True ms mb))) =
      mset (List.map_filter (coalescable (index_by task_id tasks) (index_by ws_id (wf_steps flow))) ready) \<and>
    (\<forall>g\<in>set (planCoalescedGroups ready tasks flow True ms mb).
      cg_tasks g \<noteq> [] \<and> int (length (cg_tasks g)) \<le> max 1 ms \<and>
      (2 \<le> length (cg_tasks g) \<longrightarrow>
        sum_list (map (\<lambda>t. estimateTaskPromptSize (step_for (index_by ws_id (wf_steps flow)) t)) (cg_tasks g)) \<le> mb) \<and>
      (\<forall>t\<in>set (cg_tasks g). permissionForRole (role t) = ReadOnly \<and> role t = cg_role g \<and> cwd t = cg_cwd g))"
proof (intro conjI ballI)
  fix g assume g: "g \<in> set (planCoalescedGroups ready tasks flow True ms mb)"
  then have "ready \<noteq> []" by (auto simp: planCoalescedGroups_def)
  with g obtain k c where kc: "(k, c) \<in> set (slices ready tasks flow ms mb)"
      and gd: "g = buildGroup c (key_role k) (key_cwd k)"
    by (auto simp: plan_slices)
  note m = slices_members [OF kc]
  show "cg_tasks g \<noteq> []" and "int (length (cg_tasks g)) \<le> max 1 ms"
    using m by (simp_all add: gd buildGroup_def chunk_ok_def)
  show "2 \<le> length (cg_tasks g) \<longrightarrow>
      sum_list (map (\<lambda>t. estimateTaskPromptSize (step_for (index_by ws_id (wf_steps flow)) t)) (cg_tasks g)) \<le> mb"
    using m by (simp add: gd buildGroup_def chunk_ok_def)
  fix t assume t: "t \<in> set (cg_tasks g)"
  have "t \<in> set (concat (map cg_tasks (planCoalescedGroups ready tasks flow True ms mb)))"
    using g t by auto
  then have "t \<in> set (List.map_filter (coalescable (index_by task_id tasks) (index_by ws_id (wf_steps flow))) ready)"
    using mset_eq_setD [OF plan_tasks] by blast
  then obtain i where "coalescable (index_by task_id tasks) (index_by ws_id (wf_steps flow)) i = Some t"
    by (auto simp: List.map_filter_def)
  then have "t \<in> set tasks" and ro: "permissionForRole (role t) = ReadOnly"
    by (auto dest: coalescable_SomeD)
  then have nul: "NUL \<notin> set (role t)" "NUL \<notin> set (cwd t)" using assms by auto
  have "bucket_key t = k" using m t by (simp add: gd buildGroup_def)
  then have "role t = cg_role g" and "cwd t = cg_cwd g"
    using key_parts [OF nul] by (simp_all add: gd buildGroup_def)
  then show "permissionForRole (role t) = ReadOnly" and "role t = cg_role g" and "cwd t = cg_cwd g"
    using ro by simp_all
qed (rule plan_tasks)

subsection \<open>Dispatch units\<close>

fun unit_ids :: "dispatch_unit \<Rightarrow> string list" where
  "unit_ids (Singleton i) = [i]"
| "unit_ids (Group g) = map task_id (cg_tasks g)"

definition group_ids :: "coalesced_group \<Rightarrow> string list" where
  "group_ids g = map task_id (cg_tasks g)"

lemma join_plus_in: "2 \<le> length xs \<Longrightarrow> CHR ''+'' \<in> set (join ''+'' xs)"
  by (induction "''+''" xs rule: join.induct) auto

lemma join_plus_inj:
  "xs \<noteq> [] \<Longrightarrow> ys \<noteq> [] \<Longrightarrow> \<forall>x\<in>set xs \<union> set ys. CHR ''+'' \<notin> set x \<Longrightarrow>
   join ''+'' xs = join ''+'' ys \<Longrightarrow> xs = ys"
proof (induction xs arbitrary: ys)
  case (Cons x xs)
  obtain y ys' where ys: "ys = y # ys'" using Cons.prems by (cases ys) auto
  have nx: "CHR ''+'' \<notin> set x" and ny: "CHR ''+'' \<notin> set y" using Cons.prems(3) ys by auto
  show ?case
  proof (cases "xs = [] \<or> ys' = []")
    case True
    have "xs = [] \<longleftrightarrow> ys' = []"
      using Cons.prems(4) nx ny join_plus_in [of "x # xs"] join_plus_in [of "y # ys'"] ys
      by (cases xs; cases ys') auto
    then show ?thesis using True Cons.prems(4) ys by auto
  next
    case False
    then have eq: "x @ CHR ''+'' # join ''+'' xs = y @ CHR ''+'' # join ''+'' ys'"
      using Cons.prems(4) by (simp add: ys join_Cons)
    have w: "takeWhile (\<lambda>c. c \<noteq> CHR ''+'') (x @ CHR ''+'' # join ''+'' xs) = x"
      "takeWhile (\<lambda>c. c \<noteq> CHR ''+'') (y @ CHR ''+'' # join ''+'' ys') = y"
      using nx ny by (auto intro!: takeWhile_stop simp: list_all_iff)
    then have "x = y" using eq by metis
    then show ?thesis using eq False Cons.IH [of ys'] Cons.prems(3) by (auto simp: ys)
  qed
qed simp

lemma index_group_apply:
  "index_group g m i = (if 2 \<le> length (cg_tasks g) \<and> i \<in> set (group_ids g) then Some g else m i)"
proof -
  have "fold (\<lambda>t m. m(task_id t \<mapsto> g)) ts m i = (if i \<in> task_id ` set ts then Some g else m i)"
    for ts :: "team_task list" and m
    by (induction ts arbitrary: m) auto
  then show ?thesis by (auto simp: group_ids_def)
qed

declare index_group.simps [simp del]

lemma groupOf_SomeD:
  "fold index_group gs m i = Some g \<Longrightarrow>
   m i = Some g \<or> g \<in> set gs \<and> 2 \<le> length (cg_tasks g) \<and> i \<in> set (group_ids g)"
  by (induction gs arbitrary: m) (fastforce simp: index_group_apply split: if_splits)+

lemma disjoint_groups:
  "distinct (concat (map f gs)) \<Longrightarrow> a \<in> set gs \<Longrightarrow> b \<in> set gs \<Longrightarrow> a \<noteq> b \<Longrightarrow> set (f a) \<inter> set (f b) = {}"
  by (induction gs) auto

lemma distinct_group: "distinct (concat (map f gs)) \<Longrightarrow> e \<in> set gs \<Longrightarrow> distinct (f e)"
  by (induction gs) auto

lemma distinct_subgroups:
  assumes "distinct (concat (map f gs))" and "distinct es" and "set es \<subseteq> set gs"
  shows "distinct (concat (map f es))"
  using assms(2,3)
proof (induction es)
  case (Cons e es)
  have "distinct (f e)" using Cons.prems(2) by (intro distinct_group [OF assms(1)]) simp
  moreover have "set (f e) \<inter> set (concat (map f es)) = {}"
  proof -
    have "set (f e) \<inter> set (f a) = {}" if "a \<in> set es" for a
      using that Cons.prems by (intro disjoint_groups [OF assms(1)]) auto
    then show ?thesis by auto
  qed
  ultimately show ?case using Cons by simp
qed simp

lemma groupOf_in:
  assumes "distinct (concat (map group_ids gs))" and "g \<in> set gs" and "2 \<le> length (cg_tasks g)"
    and "i \<in> set (group_ids g)"
  shows "fold index_group gs m i = Some g"
  using assms
proof (induction gs arbitrary: m)
  case (Cons a gs)
  show ?case
  proof (cases "g \<in> set gs")
    case True
    then show ?thesis using Cons by simp
  next
    case False
    then have a: "a = g" using Cons.prems by simp
    have "fold index_group gs m' i = m' i" for m'
    proof -
      have "i \<notin> set (group_ids h)" if "h \<in> set gs" for h
        using Cons.prems(1,4) that by (auto simp: a)
      then show ?thesis
        by (induction gs arbitrary: m') (auto simp: index_group_apply)
    qed
    then have "fold index_group (a # gs) m i = index_group g m i" by (simp add: a)
    also have "\<dots> = Some g" using Cons.prems by (simp add: index_group_apply)
    finally show ?thesis .
  qed
qed simp

text \<open>
  Groups whose members are disjoint, whose task ids have no plus sign, and whose ids are the
  joined ids of their members.
\<close>

definition groups_ok :: "coalesced_group list \<Rightarrow> bool" where
  "groups_ok gs \<longleftrightarrow> distinct (concat (map group_ids gs)) \<and>
     (\<forall>g\<in>set gs. \<forall>i\<in>set (group_ids g). CHR ''+'' \<notin> set i) \<and>
     (\<forall>g\<in>set gs. 2 \<le> length (cg_tasks g) \<longrightarrow> cg_id g = join ''+'' (group_ids g))"

definition marks :: "coalesced_group list \<Rightarrow> string set" where
  "marks es = (\<Union>g\<in>set es. insert (cg_id g) (set (group_ids g)))"

definition multi :: "coalesced_group list \<Rightarrow> coalesced_group set" where
  "multi gs = {g \<in> set gs. 2 \<le> length (cg_tasks g)}"

lemma multi_id:
  assumes "groups_ok gs" and "g \<in> multi gs"
  shows "CHR ''+'' \<in> set (cg_id g)"
  using assms join_plus_in [of "group_ids g"] by (auto simp: groups_ok_def multi_def group_ids_def)

lemma marked_group:
  assumes ok: "groups_ok gs" and g: "g \<in> multi gs" and es: "set es \<subseteq> multi gs" and m: "cg_id g \<in> marks es"
  shows "g \<in> set es"
proof -
  obtain h where h: "h \<in> set es" and c: "cg_id g = cg_id h \<or> cg_id g \<in> set (group_ids h)"
    using m by (auto simp: marks_def)
  have hm: "h \<in> multi gs" using h es by auto
  have "cg_id g \<notin> set (group_ids h)"
    using multi_id [OF ok g] hm ok by (auto simp: groups_ok_def multi_def)
  with c have "join ''+'' (group_ids g) = join ''+'' (group_ids h)"
    using ok g hm by (auto simp: groups_ok_def multi_def)
  moreover have "group_ids g \<noteq> []" "group_ids h \<noteq> []"
    using g hm by (auto simp: multi_def group_ids_def)
  ultimately have same: "group_ids g = group_ids h"
    using ok g hm by (intro join_plus_inj) (auto simp: groups_ok_def multi_def)
  have "g = h"
  proof (rule ccontr)
    assume "g \<noteq> h"
    then have "set (group_ids g) \<inter> set (group_ids h) = {}"
      using ok g hm by (intro disjoint_groups [of _ gs]) (auto simp: groups_ok_def multi_def)
    then show False using same \<open>group_ids g \<noteq> []\<close> by simp
  qed
  then show ?thesis using h by simp
qed

lemma group_pass_inv:
  assumes ok: "groups_ok gs" and of: "groupOf = fold index_group gs Map.empty"
    and "distinct es" and "set es \<subseteq> multi gs"
  shows "\<exists>es'. group_pass groupOf is (marks es) (map Group es) = (marks es', map Group es') \<and>
    distinct es' \<and> set es \<subseteq> set es' \<and> set es' \<subseteq> multi gs \<and>
    (\<forall>i\<in>set is. \<forall>g. groupOf i = Some g \<longrightarrow> g \<in> set es')"
  using assms(3,4)
proof (induction "is" arbitrary: es)
  case (Cons i "is")
  show ?case
  proof (cases "groupOf i")
    case None
    then show ?thesis using Cons.IH [OF Cons.prems] by auto
  next
    case (Some g)
    then have g: "g \<in> multi gs" using groupOf_SomeD [of gs Map.empty i g] by (auto simp: of multi_def)
    show ?thesis
    proof (cases "cg_id g \<in> marks es")
      case True
      then have "g \<in> set es" by (rule marked_group [OF ok g Cons.prems(2)])
      moreover obtain es' where "group_pass groupOf is (marks es) (map Group es) = (marks es', map Group es')"
          and "distinct es'" and "set es \<subseteq> set es'" and "set es' \<subseteq> multi gs"
          and "\<forall>i\<in>set is. \<forall>g. groupOf i = Some g \<longrightarrow> g \<in> set es'"
        using Cons.IH [OF Cons.prems] by auto
      ultimately show ?thesis using True Some by auto
    next
      case False
      then have new: "g \<notin> set es" by (auto simp: marks_def)
      have m: "insert (cg_id g) (marks es) \<union> task_id ` set (cg_tasks g) = marks (es @ [g])"
        by (auto simp: marks_def group_ids_def)
      obtain es' where "group_pass groupOf is (marks (es @ [g])) (map Group (es @ [g])) = (marks es', map Group es')"
          and "distinct es'" and "set (es @ [g]) \<subseteq> set es'" and "set es' \<subseteq> multi gs"
          and "\<forall>i\<in>set is. \<forall>g. groupOf i = Some g \<longrightarrow> g \<in> set es'"
        using Cons.IH [of "es @ [g]"] Cons.prems new g by auto
      then show ?thesis using False Some m by (intro exI [of _ es']) auto
    qed
  qed
qed auto

lemma unit_groups: "concat (map unit_ids (map Group gs)) = concat (map group_ids gs)"
  by (induction gs) (auto simp: group_ids_def)

lemma unit_singletons: "concat (map unit_ids (map Singleton is)) = is"
  by (induction "is") auto

lemma dispatch_exact:
  assumes ok: "groups_ok gs" and d: "distinct ready" and sub: "\<forall>g\<in>set gs. set (group_ids g) \<subseteq> set ready"
    and plus: "\<forall>i\<in>set ready. CHR ''+'' \<notin> set i"
  shows "mset (concat (map unit_ids (buildDispatchUnits ready gs))) = mset ready"
proof -
  obtain es where run: "group_pass (fold index_group gs Map.empty) ready {} [] = (marks es, map Group es)"
      and de: "distinct es" and em: "set es \<subseteq> multi gs"
    using group_pass_inv [OF ok refl, of "[]" ready] by (auto simp: marks_def)
  let ?ids = "concat (map group_ids es)"
  let ?rest = "filter (\<lambda>i. i \<notin> marks es) ready"
  have units: "concat (map unit_ids (buildDispatchUnits ready gs)) = ?ids @ ?rest"
    by (simp add: buildDispatchUnits_def run unit_singletons unit_groups del: map_map)
  have "distinct ?ids"
  proof (rule distinct_subgroups)
    show "distinct (concat (map group_ids gs))" using ok by (simp add: groups_ok_def)
    show "set es \<subseteq> set gs" using em by (auto simp: multi_def)
  qed (rule de)
  moreover have vis: "i \<in> marks es \<longleftrightarrow> i \<in> set ?ids" if "i \<in> set ready" for i
  proof -
    have "i \<noteq> cg_id g" if "g \<in> set es" for g
      using multi_id [OF ok, of g] that em plus \<open>i \<in> set ready\<close> by auto
    then show ?thesis by (auto simp: marks_def)
  qed
  moreover have subr: "set ?ids \<subseteq> set ready" using sub em by (auto simp: multi_def)
  ultimately have "distinct (?ids @ ?rest)" and "set (?ids @ ?rest) = set ready"
    using d vis by auto
  then show ?thesis unfolding units using d by (simp only: set_eq_iff_mset_eq_distinct [symmetric])
qed

lemma plan_group_ids:
  "mset (concat (map group_ids (planCoalescedGroups ready tasks flow True ms mb))) =
   mset (filter (\<lambda>i. coalescable (index_by task_id tasks) (index_by ws_id (wf_steps flow)) i \<noteq> None) ready)"
proof -
  have "concat (map group_ids gs) = map task_id (concat (map cg_tasks gs))" for gs
    by (induction gs) (auto simp: group_ids_def)
  then show ?thesis
    using arg_cong [OF plan_tasks [of ready tasks flow ms mb], of "image_mset task_id"]
    by (simp add: mset_map [symmetric] map_filter_ids [OF conjunct1 [OF coalescable_SomeD]] del: mset_map)
qed

lemma plan_group_label:
  "g \<in> set (planCoalescedGroups ready tasks flow True ms mb) \<Longrightarrow> 2 \<le> length (cg_tasks g) \<Longrightarrow>
   cg_id g = join ''+'' (group_ids g)"
proof (cases "ready = []")
  case False
  assume "g \<in> set (planCoalescedGroups ready tasks flow True ms mb)" and "2 \<le> length (cg_tasks g)"
  then show ?thesis using False by (auto simp: plan_slices buildGroup_def group_ids_def)
qed (simp add: planCoalescedGroups_def)

lemma group_pass_none: "group_pass Map.empty is v us = (v, us)"
  by (induction "is" arbitrary: v us) auto

lemma dispatched_once:
  assumes "distinct ready" and "\<forall>i\<in>set ready. CHR ''+'' \<notin> set i"
  shows "mset (concat (map unit_ids
      (buildDispatchUnits ready (planCoalescedGroups ready tasks flow enabled ms mb)))) = mset ready"
proof (cases enabled)
  case False
  then have "buildDispatchUnits ready (planCoalescedGroups ready tasks flow enabled ms mb) = map Singleton ready"
    by (simp add: planCoalescedGroups_def buildDispatchUnits_def group_pass_none)
  then show ?thesis by (simp add: comp_def)
next
  case True
  let ?gs = "planCoalescedGroups ready tasks flow True ms mb"
  note ids = plan_group_ids [of ready tasks flow ms mb]
  have sub: "\<forall>g\<in>set ?gs. set (group_ids g) \<subseteq> set ready"
    using mset_eq_setD [OF ids] by auto
  have "distinct (concat (map group_ids ?gs))"
    using assms(1) mset_eq_imp_distinct_iff [OF ids] by simp
  then have "groups_ok ?gs"
    using sub assms(2) plan_group_label [of _ ready tasks flow ms mb] by (fastforce simp: groups_ok_def)
  then show ?thesis using dispatch_exact [OF _ assms(1) sub assms(2)] True by simp
qed

text \<open>
  Whatever the grouping, the dispatch units of a batch carry every ready task exactly once,
  as long as no task id holds the plus sign that joins the ids of a group.
\<close>

theorem dispatch_units_exact:
  assumes "distinct ready" and "\<forall>i\<in>set ready. CHR ''+'' \<notin> set i"
  shows "mset (concat (map unit_ids
      (buildDispatchUnits ready (planCoalescedGroups ready tasks flow enabled ms mb)))) = mset ready"
  using assms by (rule dispatched_once)

subsection \<open>Concrete inputs\<close>

definition step_task :: "string \<Rightarrow> string \<Rightarrow> team_task" where
  "step_task i s = (blank_task i)\<lparr>role := ''explorer'', stepId := Some s\<rparr>"

definition writing_step :: "string \<Rightarrow> string \<Rightarrow> workflow_step" where
  "writing_step i p = (blank_step i)\<lparr>ws_output := Some (OutPath p)\<rparr>"

definition small_flow :: workflow_config where
  "small_flow = workflow_of [writing_step ''a'' ''r.md'', writing_step ''b'' ''r.md'', blank_step ''c'', blank_step ''d'']"

definition small_tasks :: "team_task list" where
  "small_tasks = [step_task ''1'' ''a'', step_task ''2'' ''b'', step_task ''3'' ''c'', step_task ''4'' ''d'']"

lemmas small_defs = small_tasks_def small_flow_def workflow_of_def step_task_def writing_step_def blank_step_def
  blank_task_def

lemma filterReadyByWriteOverlap_packed_witness:
  "filterReadyByWriteOverlap [''1'', ''2'', ''3''] small_tasks small_flow 3 True = [''1'', ''3''] \<and>
   packed 3 (workflow_step_of small_tasks small_flow) [''1'', ''2'', ''3''] [''1'', ''3'']"
proof -
  have "filterReadyByWriteOverlap [''1'', ''2'', ''3''] small_tasks small_flow 3 True = [''1'', ''3'']"
    by code_simp
  then show ?thesis
    using filterReadyByWriteOverlap_packed [of 3 small_tasks small_flow "[''1'', ''2'', ''3'']"] by simp
qed

lemma planCoalescedGroups_correct_witness:
  "mset (concat (map cg_tasks (planCoalescedGroups [''3'', ''4''] small_tasks small_flow True 5 100000))) =
     {#step_task ''3'' ''c'', step_task ''4'' ''d''#}"
proof -
  have "List.map_filter (coalescable (index_by task_id small_tasks) (index_by ws_id (wf_steps small_flow)))
      [''3'', ''4''] = [step_task ''3'' ''c'', step_task ''4'' ''d'']"
    by code_simp
  moreover have "\<forall>t\<in>set small_tasks. NUL \<notin> set (role t) \<and> NUL \<notin> set (cwd t)" by code_simp
  ultimately show ?thesis
    using planCoalescedGroups_correct [of small_tasks "[''3'', ''4'']" small_flow 5 100000] by simp
qed

lemma dispatch_units_exact_witness:
  "buildDispatchUnits [''1'', ''3'', ''4''] (planCoalescedGroups [''1'', ''3'', ''4''] small_tasks small_flow True 5 100000) =
     [Group (buildGroup [step_task ''3'' ''c'', step_task ''4'' ''d''] ''explorer'' ''/w''), Singleton ''1''] \<and>
   {#''3'', ''4'', ''1''#} = mset [''1'', ''3'', ''4'']"
proof -
  let ?us = "buildDispatchUnits [''1'', ''3'', ''4'']
    (planCoalescedGroups [''1'', ''3'', ''4''] small_tasks small_flow True 5 100000)"
  have "?us = [Group (buildGroup [step_task ''3'' ''c'', step_task ''4'' ''d''] ''explorer'' ''/w''), Singleton ''1'']"
    by code_simp
  moreover have "distinct [''1'', ''3'', ''4'']" "\<forall>i\<in>set [''1'', ''3'', ''4'']. CHR ''+'' \<notin> set i" by simp_all
  note dispatch_units_exact [OF this, of small_tasks small_flow True 5 100000]
  ultimately show ?thesis by (simp add: buildGroup_def step_task_def)
qed

text \<open>
  The condition on task ids is needed: the id of the group of \<open>a\<close> and \<open>b\<close> is \<open>a+b\<close>, which marks a
  task of that id as visited, and it is not dispatched.
\<close>

lemma plus_in_task_id_loses_task:
  "let tasks = [step_task ''a'' ''c'', step_task ''b'' ''d'', step_task ''a+b'' ''a''];
       ready = [''a'', ''b'', ''a+b'']
   in concat (map unit_ids (buildDispatchUnits ready (planCoalescedGroups ready tasks small_flow True 5 100000)))
      = [''a'', ''b'']"
  by code_simp

end
