(* ===== verification/Concurrency.thy ===== *)
theory Concurrency
  imports Prelude
begin

text \<open>
  \<open>src/src/runtime/scheduling/concurrency.ts\<close> (how many tasks of a batch may start), the
  defaults it reads from \<open>src/src/config/defaults.ts\<close>, and the capacity of the worker pool
  (\<open>src/src/runtime/scheduling/global-worker-cap.ts\<close>).
\<close>

subsection \<open>The capacity of the worker pool\<close>

text \<open>\<open>Number.parseInt(s, 10)\<close>: white space, a sign, the longest run of digits.\<close>

definition js_parse_int :: "string \<Rightarrow> int option" where
  "js_parse_int s =
     (let s' = dropWhile js_space s;
          (neg, r) = (case s' of
              c # cs \<Rightarrow> if c = CHR ''-'' then (True, cs) else if c = CHR ''+'' then (False, cs) else (False, s')
            | [] \<Rightarrow> (False, []));
          ds = takeWhile is_digit r
      in if ds = [] then None
         else Some (if neg then - int (parse_digits ds) else int (parse_digits ds)))"

definition resolveCapacity :: "string option \<Rightarrow> nat \<Rightarrow> int" where
  "resolveCapacity env cpus =
     (let fallback = max 2 (int cpus - 2)
      in if truthy env
         then case js_parse_int (the env) of
             Some parsed \<Rightarrow> if 0 < parsed then parsed else fallback
           | None \<Rightarrow> fallback
         else fallback)"

lemma resolveCapacity_pos: "0 < resolveCapacity env cpus"
  by (auto simp: resolveCapacity_def Let_def split: option.splits)

subsection \<open>Batch concurrency\<close>

record batch_input =
  bi_workflowName :: string
  bi_workflowMax :: "jsnum option"
  bi_teamMax :: "jsnum option"
  bi_limitMax :: "jsnum option"
  bi_unbounded :: bool
  bi_hardCap :: "jsnum option"
  bi_workerCap :: "jsnum option"
  bi_readyCount :: jsnum

record batch_decision =
  bd_maxConcurrent :: int
  bd_selectedCount :: int
  bd_defaultConcurrency :: int
  bd_reason :: string

definition DEFAULT_HARD_CAP :: int where
  "DEFAULT_HARD_CAP = 8"

definition defaultWorkflowConcurrency :: "string \<Rightarrow> int option \<Rightarrow> int" where
  "defaultWorkflowConcurrency name workflowMax =
     (case workflowMax of
        Some n \<Rightarrow> n
      | None \<Rightarrow>
          if name = ''parallel-research'' then 4
          else if name = ''research'' then 3
          else if name = ''implementation'' then 4
          else if name = ''review'' then 3
          else if name = ''default'' then 3
          else 2)"

definition positiveInteger :: "jsnum option \<Rightarrow> int option" where
  "positiveInteger v = (case v of Some (Fin r) \<Rightarrow> Some (max 1 (trunc_rat r)) | _ \<Rightarrow> None)"

definition ready_count :: "jsnum \<Rightarrow> int" where
  "ready_count v = (case v of Fin r \<Rightarrow> max 0 (trunc_rat r) | _ \<Rightarrow> 0)"

definition requested_concurrency :: "batch_input \<Rightarrow> int" where
  "requested_concurrency b =
     nullish (positiveInteger (bi_limitMax b))
       (nullish (positiveInteger (bi_teamMax b))
         (nullish (positiveInteger (bi_workflowMax b)) (defaultWorkflowConcurrency (bi_workflowName b) None)))"

definition resolveBatchConcurrency :: "int \<Rightarrow> batch_input \<Rightarrow> batch_decision" where
  "resolveBatchConcurrency capacity b =
     (let requested = requested_concurrency b;
          source = (if positiveInteger (bi_limitMax b) \<noteq> None then ''limit''
                    else if positiveInteger (bi_teamMax b) \<noteq> None then ''team'' else ''workflow'');
          hardCap = nullish (positiveInteger (bi_hardCap b)) DEFAULT_HARD_CAP;
          workerCap = nullish (positiveInteger (bi_workerCap b)) capacity;
          maxConcurrent = (if bi_unbounded b then requested else min requested (min hardCap workerCap));
          readyCount = ready_count (bi_readyCount b);
          cappedReason = (if maxConcurrent < requested
            then '';capped:hard='' @ show_int hardCap @ '',worker='' @ show_int workerCap else []);
          unboundedReason = (if bi_unbounded b \<and> hardCap < requested
            then '';unbounded:'' @ show_int hardCap else [])
      in \<lparr> bd_maxConcurrent = maxConcurrent,
           bd_selectedCount = (if readyCount = 0 then 0 else min readyCount maxConcurrent),
           bd_defaultConcurrency =
             defaultWorkflowConcurrency (bi_workflowName b) (positiveInteger (bi_workflowMax b)),
           bd_reason = source @ '':'' @ show_int requested @ cappedReason @ unboundedReason
             @ '';ready:'' @ show_int readyCount \<rparr>)"

lemma positiveInteger_pos: "positiveInteger v = Some n \<Longrightarrow> 1 \<le> n"
  by (auto simp: positiveInteger_def split: option.splits jsnum.splits)

lemma defaultWorkflowConcurrency_pos: "2 \<le> defaultWorkflowConcurrency name None"
  by (simp add: defaultWorkflowConcurrency_def)

lemma requested_pos: "1 \<le> requested_concurrency b"
  using defaultWorkflowConcurrency_pos [of "bi_workflowName b"]
  by (auto simp: requested_concurrency_def dest!: positiveInteger_pos)

lemma maxConcurrent_pos:
  assumes "0 < capacity"
  shows "1 \<le> bd_maxConcurrent (resolveBatchConcurrency capacity b)"
  using assms requested_pos [of b]
  by (auto simp: resolveBatchConcurrency_def Let_def DEFAULT_HARD_CAP_def dest!: positiveInteger_pos)

text \<open>
  With the capacity the pool was opened with: at least one task may run, no more tasks are
  selected than are ready or allowed, none only when none is ready, and without the unbounded
  opt-in the limit is within the hard cap and the capacity of the pool.
\<close>

theorem resolveBatchConcurrency_bounds:
  "1 \<le> bd_maxConcurrent (resolveBatchConcurrency (resolveCapacity env cpus) b) \<and>
   bd_selectedCount (resolveBatchConcurrency (resolveCapacity env cpus) b) =
     min (ready_count (bi_readyCount b)) (bd_maxConcurrent (resolveBatchConcurrency (resolveCapacity env cpus) b)) \<and>
   (bd_selectedCount (resolveBatchConcurrency (resolveCapacity env cpus) b) = 0 \<longleftrightarrow>
     ready_count (bi_readyCount b) = 0) \<and>
   (\<not> bi_unbounded b \<longrightarrow>
     bd_maxConcurrent (resolveBatchConcurrency (resolveCapacity env cpus) b) \<le>
       min (nullish (positiveInteger (bi_hardCap b)) DEFAULT_HARD_CAP)
           (nullish (positiveInteger (bi_workerCap b)) (resolveCapacity env cpus)))"
proof -
  let ?d = "resolveBatchConcurrency (resolveCapacity env cpus) b"
  have m: "1 \<le> bd_maxConcurrent ?d" by (rule maxConcurrent_pos) (rule resolveCapacity_pos)
  have r: "0 \<le> ready_count (bi_readyCount b)"
    by (auto simp: ready_count_def split: jsnum.splits)
  have s: "bd_selectedCount ?d = (if ready_count (bi_readyCount b) = 0 then 0
      else min (ready_count (bi_readyCount b)) (bd_maxConcurrent ?d))"
    by (simp add: resolveBatchConcurrency_def Let_def)
  have "\<not> bi_unbounded b \<Longrightarrow> bd_maxConcurrent ?d \<le>
      min (nullish (positiveInteger (bi_hardCap b)) DEFAULT_HARD_CAP)
          (nullish (positiveInteger (bi_workerCap b)) (resolveCapacity env cpus))"
    by (simp add: resolveBatchConcurrency_def Let_def min.coboundedI2)
  then show ?thesis using m r s by (auto simp: min_def)
qed

definition sample_input :: batch_input where
  "sample_input = \<lparr> bi_workflowName = ''research'', bi_workflowMax = None, bi_teamMax = Some (Fin 12),
     bi_limitMax = Some NaN, bi_unbounded = False, bi_hardCap = None, bi_workerCap = None,
     bi_readyCount = Fin 9 \<rparr>"

lemma resolveBatchConcurrency_bounds_witness:
  "resolveCapacity (Some '' 6x'') 4 = 6 \<and>
   bd_selectedCount (resolveBatchConcurrency 6 sample_input) = 6 \<and>
   bd_maxConcurrent (resolveBatchConcurrency 6 sample_input) \<le> min 8 6"
proof -
  have c: "resolveCapacity (Some '' 6x'') 4 = 6" by code_simp
  have "positiveInteger (bi_hardCap sample_input) = None" "positiveInteger (bi_workerCap sample_input) = None"
    by (simp_all add: sample_input_def positiveInteger_def)
  then show ?thesis
    using resolveBatchConcurrency_bounds [of "Some '' 6x''" 4 sample_input] c
    by (simp add: sample_input_def DEFAULT_HARD_CAP_def resolveBatchConcurrency_def requested_concurrency_def
        positiveInteger_def ready_count_def trunc_rat_def Let_def)
qed

end
