(* ===== verification/Dispatch.thy ===== *)
theory Dispatch
  imports TaskGraph ExecutionPlan MergeGate WritePlanning Concurrency
begin

text \<open>
  \<open>src/src/runtime/dispatch-batch.ts\<close>: the choice of the next batch of a run
  (\<open>selectDispatchBatch\<close>, after the deadline sweeps and without its log events), and the helpers
  that end or requeue tasks. The shadow test is that of
  \<open>src/src/runtime/broker/delegate/shadow-lifecycle.ts\<close>.
\<close>

subsection \<open>Ending and requeueing tasks\<close>

definition markBlocked :: "team_task list \<Rightarrow> string \<Rightarrow> stamp \<Rightarrow> team_task list" where
  "markBlocked tasks reason now =
     map (\<lambda>t. if status t = Queued
              then t\<lparr>status := Skipped, task_error := Some reason, finishedAt := Some now,
                     graph := map_option (\<lambda>g. g\<lparr>g_queue := QBlocked\<rparr>) (graph t)\<rparr>
              else t) tasks"

text \<open>
  The optional filter replaces the test for a non-terminal status; the optional transform gets
  the task and its ended version.
\<close>

definition cancelNonTerminalTasks ::
    "team_task list \<Rightarrow> task_status \<Rightarrow> string \<Rightarrow> (team_task \<Rightarrow> bool) option \<Rightarrow>
     (team_task \<Rightarrow> team_task \<Rightarrow> team_task) option \<Rightarrow> stamp \<Rightarrow> team_task list" where
  "cancelNonTerminalTasks tasks st reason flt transform now =
     (let predicate = nullish flt (\<lambda>t. isNonTerminalTaskStatus (status t))
      in map (\<lambda>t. if \<not> predicate t then t
                  else let ended = t\<lparr>status := st, finishedAt := Some now, task_error := Some reason\<rparr>
                       in case transform of None \<Rightarrow> ended | Some f \<Rightarrow> f t ended) tasks)"

definition shouldRequeueForRetry :: "nat \<Rightarrow> task_status \<Rightarrow> run_status \<Rightarrow> bool" where
  "shouldRequeueForRetry attempt taskStatus manifestStatus =
     (if attempt \<le> 1 then False
      else if manifestStatus \<in> set TEAM_TERMINAL_RUN_STATUSES then False
      else taskStatus = Failed)"

text \<open>\<open>None\<close> is the error for an unknown step.\<close>

definition findStep :: "workflow_config \<Rightarrow> team_task \<Rightarrow> workflow_step option" where
  "findStep flow t =
     (case find (\<lambda>s. Some (ws_id s) = stepId t) (wf_steps flow) of
        None \<Rightarrow> None
      | Some s \<Rightarrow>
          if wf_specStrict flow = Some True \<or> ws_specStrict s = Some True
          then Some (s\<lparr>ws_specStrict :=
            (case ws_specStrict s of None \<Rightarrow> wf_specStrict flow | Some b \<Rightarrow> Some b)\<rparr>)
          else Some s)"

subsection \<open>The ready set of the dependency graph\<close>

definition isDelegateShadowTask :: "team_task \<Rightarrow> bool" where
  "isDelegateShadowTask t \<longleftrightarrow> stepId t = None"

definition dag_nodes :: "team_task list \<Rightarrow> task_node list" where
  "dag_nodes tasks =
     (let workflowTasks = filter (\<lambda>t. \<not> isDelegateShadowTask t) tasks;
          stepToTask = js_map_of (List.map_filter
            (\<lambda>t. if truthy (stepId t) then Some (the (stepId t), task_id t) else None) workflowTasks)
      in map (\<lambda>t. \<lparr> n_id = task_id t,
                    n_deps = map (\<lambda>dep. nullish (stepToTask dep) dep) (dependsOn t),
                    n_phase = (case adaptivePhase t of None \<Rightarrow> stepId t | Some p \<Rightarrow> Some p) \<rparr>)
             workflowTasks)"

text \<open>\<open>Inl\<close> is the error that the plan throws, \<open>None\<close> the \<open>null\<close> that selects the other scheduler.\<close>

definition dagReadyTaskIds :: "team_task list \<Rightarrow> string set \<Rightarrow> string + string list option" where
  "dagReadyTaskIds tasks completedIds =
     (if \<not> list_ex (\<lambda>t. 0 < length (dependsOn t)) tasks then Inr None
      else case buildExecutionPlan (dag_nodes tasks) of
          Inl e \<Rightarrow> Inl e
        | Inr plan \<Rightarrow>
            if p_hasCycle plan then Inr None else Inr (Some (plan_getReadyTasks plan completedIds)))"

subsection \<open>The next batch\<close>

record dispatch_input =
  di_tasks :: "team_task list"
  di_queueIndex :: "task_graph_index option"
  di_flow :: workflow_config
  di_teamMax :: "jsnum option"
  di_limitMax :: "jsnum option"
  di_unbounded :: bool
  di_serialize :: bool
  di_pending :: "(string \<times> string list) list"
  di_approvalPending :: bool

datatype batch_choice =
    DispatchBatch "team_task list"
  | BlockedOnApproval
  | BlockedNoReady "team_task list"

definition settled_ids :: "team_task list \<Rightarrow> string set" where
  "settled_ids tasks =
     set (map task_id (filter (\<lambda>t. status t = Completed \<or> status t = NeedsAttention) tasks))"

definition ready_before_filter :: "dispatch_input \<Rightarrow> string list option \<Rightarrow> string list" where
  "ready_before_filter d dagReady =
     (let shadows = set (map task_id (filter isDelegateShadowTask (di_tasks d)))
      in filter (\<lambda>i. i \<notin> shadows)
           (nullish dagReady (snap_ready (taskGraphSnapshot (di_tasks d) (di_queueIndex d)))))"

definition batch_concurrency :: "int \<Rightarrow> dispatch_input \<Rightarrow> string list \<Rightarrow> batch_decision" where
  "batch_concurrency capacity d ready =
     resolveBatchConcurrency capacity
       \<lparr> bi_workflowName = wf_name (di_flow d), bi_workflowMax = wf_maxConcurrency (di_flow d),
         bi_teamMax = di_teamMax d, bi_limitMax = di_limitMax d, bi_unbounded = di_unbounded d,
         bi_hardCap = None, bi_workerCap = None, bi_readyCount = Fin (of_nat (length ready)) \<rparr>"

definition selectDispatchBatch ::
    "int \<Rightarrow> stamp \<Rightarrow> dispatch_input \<Rightarrow> string + batch_choice" where
  "selectDispatchBatch capacity now d =
     (case dagReadyTaskIds (di_tasks d) (settled_ids (di_tasks d)) of
        Inl e \<Rightarrow> Inl e
      | Inr dagReady \<Rightarrow>
          (let readyBeforeFilter = ready_before_filter d dagReady;
               concurrency = batch_concurrency capacity d readyBeforeFilter;
               serializedReady = filterReadyByWriteOverlap readyBeforeFilter (di_tasks d) (di_flow d)
                 (bd_maxConcurrent concurrency) (di_serialize d);
               inFlight = set (concat (map snd (di_pending d)));
               slotsAvailable = nat (max 0 (bd_maxConcurrent concurrency - int (length (di_pending d))));
               dispatchableReady = filter (\<lambda>i. i \<notin> inFlight) serializedReady;
               readyIds = (if di_approvalPending d then dispatchableReady
                           else take slotsAvailable dispatchableReady);
               candidates = List.map_filter (index_by task_id (di_tasks d)) readyIds;
               batch = (if di_approvalPending d
                        then take slotsAvailable (filter (\<lambda>t. \<not> isMutatingTask t) candidates)
                        else candidates)
           in if batch = []
              then if 0 < length (di_pending d) then Inr (DispatchBatch [])
                   else if di_approvalPending d \<and> list_ex isMutatingTask candidates
                   then Inr BlockedOnApproval
                   else Inr (BlockedNoReady
                     (markBlocked (di_tasks d) ''No ready queued task; dependency graph may be invalid.'' now))
              else Inr (DispatchBatch batch)))"

subsection \<open>Soundness of the choice\<close>

lemma length_map_filter_le: "length (List.map_filter f xs) \<le> length xs"
  by (induction xs) (auto simp: List.map_filter_simps split: option.splits)

lemma pick_tasks_subset: "set (pick_tasks cap f is steps picked) \<subseteq> set is \<union> set picked"
  by (induction cap f "is" steps picked rule: pick_tasks.induct)
    (auto split: option.splits if_splits)

lemma serialized_subset: "set (filterReadyByWriteOverlap ready tasks flow cap e) \<subseteq> set ready"
  using pick_tasks_subset [of cap "workflow_step_of tasks flow" ready "[]" "[]"]
  by (auto simp: filterReadyByWriteOverlap_def)

text \<open>What \<open>selectDispatchBatch\<close> dispatches, with its intermediate lists named.\<close>

lemma dispatched_batch:
  assumes "selectDispatchBatch capacity now d = Inr (DispatchBatch batch)"
  obtains dagReady ready conc slots readyIds where
    "dagReadyTaskIds (di_tasks d) (settled_ids (di_tasks d)) = Inr dagReady"
    "ready = ready_before_filter d dagReady" "conc = batch_concurrency capacity d ready"
    "slots = nat (max 0 (bd_maxConcurrent conc - int (length (di_pending d))))"
    "readyIds = filter (\<lambda>i. i \<notin> set (concat (map snd (di_pending d))))
       (filterReadyByWriteOverlap ready (di_tasks d) (di_flow d) (bd_maxConcurrent conc) (di_serialize d))"
    "batch = (if di_approvalPending d
       then take slots (filter (\<lambda>t. \<not> isMutatingTask t) (List.map_filter (index_by task_id (di_tasks d)) readyIds))
       else List.map_filter (index_by task_id (di_tasks d)) (take slots readyIds))"
proof -
  obtain dagReady where dr: "dagReadyTaskIds (di_tasks d) (settled_ids (di_tasks d)) = Inr dagReady"
    using assms by (cases "dagReadyTaskIds (di_tasks d) (settled_ids (di_tasks d))")
      (auto simp: selectDispatchBatch_def)
  show thesis
    by (rule that [OF dr refl refl refl refl])
      (use assms dr in \<open>auto simp: selectDispatchBatch_def Let_def split: if_splits\<close>)
qed

lemma selected_sound:
  assumes "selectDispatchBatch capacity now d = Inr (DispatchBatch batch)"
  shows "\<exists>dagReady. dagReadyTaskIds (di_tasks d) (settled_ids (di_tasks d)) = Inr dagReady \<and>
    int (length batch) \<le> max 0
      (bd_maxConcurrent (batch_concurrency capacity d (ready_before_filter d dagReady)) - int (length (di_pending d))) \<and>
    (\<forall>t\<in>set batch. t \<in> set (di_tasks d) \<and> \<not> isDelegateShadowTask t \<and>
      task_id t \<notin> set (concat (map snd (di_pending d))) \<and>
      task_id t \<in> set (nullish dagReady (snap_ready (taskGraphSnapshot (di_tasks d) (di_queueIndex d)))) \<and>
      (di_approvalPending d \<longrightarrow> permissionForRole (role t) = ReadOnly))"
  using assms
proof (rule dispatched_batch)
  fix dagReady ready conc slots readyIds
  assume dr: "dagReadyTaskIds (di_tasks d) (settled_ids (di_tasks d)) = Inr dagReady"
    and ready: "ready = ready_before_filter d dagReady" and conc: "conc = batch_concurrency capacity d ready"
    and slots: "slots = nat (max 0 (bd_maxConcurrent conc - int (length (di_pending d))))"
    and ids: "readyIds = filter (\<lambda>i. i \<notin> set (concat (map snd (di_pending d))))
       (filterReadyByWriteOverlap ready (di_tasks d) (di_flow d) (bd_maxConcurrent conc) (di_serialize d))"
    and batch: "batch = (if di_approvalPending d
       then take slots (filter (\<lambda>t. \<not> isMutatingTask t) (List.map_filter (index_by task_id (di_tasks d)) readyIds))
       else List.map_filter (index_by task_id (di_tasks d)) (take slots readyIds))"
  have len: "length batch \<le> slots"
    using length_map_filter_le [of "index_by task_id (di_tasks d)" "take slots readyIds"] by (auto simp: batch)
  have mem: "task_id t \<in> set readyIds \<and> index_by task_id (di_tasks d) (task_id t) = Some t \<and>
      (di_approvalPending d \<longrightarrow> \<not> isMutatingTask t)" if t: "t \<in> set batch" for t
  proof -
    obtain i where "i \<in> set readyIds" and i: "index_by task_id (di_tasks d) i = Some t"
        and "di_approvalPending d \<longrightarrow> \<not> isMutatingTask t"
      using t by (auto simp: batch set_map_filter split: if_splits dest!: in_set_takeD)
    then show ?thesis using index_by_SomeD [OF i] i by auto
  qed
  have "t \<in> set (di_tasks d) \<and> \<not> isDelegateShadowTask t \<and>
      task_id t \<notin> set (concat (map snd (di_pending d))) \<and>
      task_id t \<in> set (nullish dagReady (snap_ready (taskGraphSnapshot (di_tasks d) (di_queueIndex d)))) \<and>
      (di_approvalPending d \<longrightarrow> permissionForRole (role t) = ReadOnly)" if t: "t \<in> set batch" for t
  proof -
    note m = mem [OF t]
    have tt: "t \<in> set (di_tasks d)" using m by (blast dest: index_by_SomeD)
    have "task_id t \<in> set ready" and nf: "task_id t \<notin> set (concat (map snd (di_pending d)))"
      using m unfolding ids by (auto dest: subsetD [OF serialized_subset])
    then show ?thesis using m tt
      by (auto simp: ready ready_before_filter_def Let_def isMutatingTask_def image_iff)
  qed
  then show ?thesis using dr len by (intro exI [of _ dagReady]) (auto simp: slots conc ready)
qed

text \<open>
  A dispatched batch fits in the free slots, and each of its tasks is a task of the run that is
  no delegate shadow, is in no unit in flight, is in the ready set, and may not write while the
  plan awaits approval.
\<close>

theorem selectDispatchBatch_sound:
  assumes "selectDispatchBatch capacity now d = Inr (DispatchBatch batch)"
  shows "\<exists>dagReady. dagReadyTaskIds (di_tasks d) (settled_ids (di_tasks d)) = Inr dagReady \<and>
    int (length batch) \<le> max 0
      (bd_maxConcurrent (batch_concurrency capacity d (ready_before_filter d dagReady)) - int (length (di_pending d))) \<and>
    (\<forall>t\<in>set batch. t \<in> set (di_tasks d) \<and> \<not> isDelegateShadowTask t \<and>
      task_id t \<notin> set (concat (map snd (di_pending d))) \<and>
      task_id t \<in> set (nullish dagReady (snap_ready (taskGraphSnapshot (di_tasks d) (di_queueIndex d)))) \<and>
      (di_approvalPending d \<longrightarrow> permissionForRole (role t) = ReadOnly))"
  using assms by (rule selected_sound)

subsection \<open>The dependency-graph path\<close>

lemma dag_node_ids: "node_ids (dag_nodes tasks) = map task_id (filter (\<lambda>t. \<not> isDelegateShadowTask t) tasks)"
  by (simp add: dag_nodes_def Let_def comp_def)

lemma dag_ready_spec:
  assumes "distinct (map task_id tasks)" and dd: "\<forall>n\<in>set (dag_nodes tasks). distinct (n_deps n)"
    and r: "dagReadyTaskIds tasks c = Inr (Some ready)"
  shows "set ready \<subseteq> set (node_ids (dag_nodes tasks)) - c"
    and "\<forall>i\<in>set ready. set (kd_of (dag_nodes tasks) i) \<subseteq> c"
    and "ready = [] \<longleftrightarrow> set (node_ids (dag_nodes tasks)) \<subseteq> c"
proof -
  let ?ns = "dag_nodes tasks"
  obtain plan where plan: "buildExecutionPlan ?ns = Inr plan" and nc: "\<not> p_hasCycle plan"
      and ready: "ready = plan_getReadyTasks plan c"
    using r by (auto simp: dagReadyTaskIds_def split: if_splits sum.splits)
  have d: "distinct (node_ids ?ns)"
    unfolding dag_node_ids using assms(1) by (simp add: distinct_map_filter)
  have self: "\<forall>n\<in>set ?ns. distinct (n_deps n) \<and> n_id n \<notin> set (n_deps n)"
    using plan dd by (auto simp: buildExecutionPlan_def find_None_iff split: if_splits option.splits)
  have "acyclic (depends ?ns)" using built_plan [OF d self] plan nc by auto
  note spec = plan_ready_spec [OF d self plan this, of c]
  show "set ready \<subseteq> set (node_ids ?ns) - c" "\<forall>i\<in>set ready. set (kd_of ?ns i) \<subseteq> c"
    "ready = [] \<longleftrightarrow> set (node_ids ?ns) \<subseteq> c"
    using spec by (simp_all add: ready)
qed

lemma batch_concurrency_pos: "0 < capacity \<Longrightarrow> 1 \<le> bd_maxConcurrent (batch_concurrency capacity d ready)"
  by (simp add: batch_concurrency_def maxConcurrent_pos)

text \<open>
  C1. On the path of explicit dependencies a run with work left is never reported blocked. The
  conditions: the task ids are distinct; no task names a dependency twice once its steps are
  mapped to task ids; \<open>dagReadyTaskIds\<close> found an acyclic plan (else the code falls back to the
  graph snapshot, and may report the run blocked); nothing is in flight, no approval is awaited,
  writes are not serialized by path, and a slot is free. Then a task that is no delegate shadow
  and is neither completed nor in need of attention makes the batch non-empty, whatever its
  status: every task of the batch has its dependencies settled, and a cancelled task, not the
  queued task behind it, is the batch of the concrete input below.
\<close>

theorem dag_never_reports_blocked:
  assumes "distinct (map task_id (di_tasks d))" and "\<forall>n\<in>set (dag_nodes (di_tasks d)). distinct (n_deps n)"
    and "dagReadyTaskIds (di_tasks d) (settled_ids (di_tasks d)) = Inr (Some ready)"
    and "t \<in> set (di_tasks d)" and "\<not> isDelegateShadowTask t" and "task_id t \<notin> settled_ids (di_tasks d)"
    and "di_pending d = []" and "\<not> di_approvalPending d" and "\<not> di_serialize d" and "0 < capacity"
  shows "\<exists>batch. selectDispatchBatch capacity now d = Inr (DispatchBatch batch) \<and> batch \<noteq> [] \<and>
    (\<forall>u\<in>set batch. set (kd_of (dag_nodes (di_tasks d)) (task_id u)) \<subseteq> settled_ids (di_tasks d))"
proof -
  note spec = dag_ready_spec [OF assms(1-3)]
  have "task_id t \<in> set (node_ids (dag_nodes (di_tasks d)))" using assms(4,5) by (auto simp: dag_node_ids)
  then have ne: "ready \<noteq> []" using spec(3) assms(6) by blast
  have plain: "i \<notin> task_id ` {u \<in> set (di_tasks d). isDelegateShadowTask u}" if ir: "i \<in> set ready" for i
  proof
    assume "i \<in> task_id ` {u \<in> set (di_tasks d). isDelegateShadowTask u}"
    then obtain u where u: "u \<in> set (di_tasks d)" "isDelegateShadowTask u" "task_id u = i" by auto
    obtain v where v: "v \<in> set (di_tasks d)" "\<not> isDelegateShadowTask v" "task_id v = i"
      using ir spec(1) by (auto simp: dag_node_ids)
    show False using inj_onD [OF _ _ u(1) v(1), of task_id] u v assms(1) by (auto simp: distinct_map)
  qed
  have r: "ready_before_filter d (Some ready) = ready"
    using plain by (auto simp: ready_before_filter_def Let_def filter_id_conv)
  define slots where "slots = nat (max 0 (bd_maxConcurrent (batch_concurrency capacity d ready)))"
  define batch where "batch = List.map_filter (index_by task_id (di_tasks d)) (take slots ready)"
  have "0 < slots" using batch_concurrency_pos [OF assms(10), of d ready] by (simp add: slots_def)
  then obtain i where i: "i \<in> set (take slots ready)" using ne by (cases slots; cases ready) auto
  then have "i \<in> task_id ` set (di_tasks d)"
    using spec(1) by (auto simp: dag_node_ids dest!: in_set_takeD)
  then obtain u where "index_by task_id (di_tasks d) i = Some u" using index_by_ex by metis
  then have "u \<in> set batch" using i by (auto simp: batch_def set_map_filter)
  then have bne: "batch \<noteq> []" by auto
  have sel: "selectDispatchBatch capacity now d = Inr (DispatchBatch batch)"
    using bne assms(3,7-9)
    by (simp add: selectDispatchBatch_def r Let_def filterReadyByWriteOverlap_def slots_def batch_def)
  have "set (kd_of (dag_nodes (di_tasks d)) (task_id u)) \<subseteq> settled_ids (di_tasks d)" if ub: "u \<in> set batch" for u
  proof -
    obtain j where j: "j \<in> set ready" "index_by task_id (di_tasks d) j = Some u"
      using ub by (auto simp: batch_def set_map_filter dest!: in_set_takeD)
    then show ?thesis using spec(2) index_by_SomeD [OF j(2)] by auto
  qed
  then show ?thesis using sel bne by blast
qed

subsection \<open>Concrete inputs\<close>

definition noon :: stamp where
  "noon = Stamp ''2026-01-01T12:00:00Z'' (Some 0)"

definition run_state :: "team_task list \<Rightarrow> workflow_config \<Rightarrow> dispatch_input" where
  "run_state ts flow = \<lparr> di_tasks = ts, di_queueIndex = None, di_flow = flow, di_teamMax = None,
     di_limitMax = None, di_unbounded = False, di_serialize = False, di_pending = [],
     di_approvalPending = False \<rparr>"

definition dropped_first :: "team_task list" where
  "dropped_first = [(step_task ''1'' ''a'')\<lparr>status := Cancelled\<rparr>, (step_task ''2'' ''c'')\<lparr>dependsOn := [''a'']\<rparr>]"

lemmas dispatch_defs = run_state_def dropped_first_def small_defs

lemma selectDispatchBatch_sound_witness:
  "selectDispatchBatch 4 noon ((run_state small_tasks small_flow)\<lparr>di_pending := [(''1'', [''1''])]\<rparr>) =
     Inr (DispatchBatch [step_task ''2'' ''b'', step_task ''3'' ''c'']) \<and>
   task_id (step_task ''3'' ''c'') \<notin> {''1''}"
proof -
  let ?d = "(run_state small_tasks small_flow)\<lparr>di_pending := [(''1'', [''1''])]\<rparr>"
  have "selectDispatchBatch 4 noon ?d = Inr (DispatchBatch [step_task ''2'' ''b'', step_task ''3'' ''c''])"
    by code_simp
  from selectDispatchBatch_sound [OF this] this show ?thesis by (auto simp: run_state_def)
qed

lemma dag_never_reports_blocked_witness:
  "\<exists>batch. selectDispatchBatch 4 noon (run_state dropped_first small_flow) = Inr (DispatchBatch batch) \<and>
     map (\<lambda>t. (task_id t, status t)) batch = [(''1'', Cancelled)]"
proof -
  have sel: "map_sum id (\<lambda>c. case c of DispatchBatch b \<Rightarrow> map (\<lambda>t. (task_id t, status t)) b | _ \<Rightarrow> [])
      (selectDispatchBatch 4 noon (run_state dropped_first small_flow)) = Inr [(''1'', Cancelled)]"
    by code_simp
  have dag: "dagReadyTaskIds dropped_first (settled_ids dropped_first) = Inr (Some [''1''])" by code_simp
  have "\<forall>n\<in>set (dag_nodes dropped_first). distinct (n_deps n)" by code_simp
  moreover have "(step_task ''1'' ''a'')\<lparr>status := Cancelled\<rparr> \<in> set dropped_first"
    by (simp add: dropped_first_def)
  moreover have "distinct (map task_id dropped_first)" "''1'' \<notin> settled_ids dropped_first" by code_simp+
  ultimately obtain batch where
    "selectDispatchBatch 4 noon (run_state dropped_first small_flow) = Inr (DispatchBatch batch)"
    using dag_never_reports_blocked [of "run_state dropped_first small_flow" "[''1'']"
      "(step_task ''1'' ''a'')\<lparr>status := Cancelled\<rparr>" 4 noon] dag
    by (auto simp: run_state_def isDelegateShadowTask_def step_task_def)
  then show ?thesis using sel by auto
qed

text \<open>
  Serialisation looks at the ready tasks only: on the path without explicit dependencies a
  queued task whose write target is that of a task in flight is dispatched beside it.
\<close>

theorem serialize_ignores_in_flight:
  "selectDispatchBatch 4 noon ((run_state [(step_task ''1'' ''a'')\<lparr>status := Running\<rparr>, step_task ''2'' ''b''] small_flow)
       \<lparr>di_pending := [(''1'', [''1''])], di_serialize := True\<rparr>) =
     Inr (DispatchBatch [step_task ''2'' ''b'']) \<and>
   detectWriteOverlap (writing_step ''a'' ''r.md'') (writing_step ''b'' ''r.md'')"
  by code_simp

end
