(* ===== verification/PhaseMachine.thy ===== *)
theory PhaseMachine
  imports TaskModel
begin

text \<open>
  The phases of a workflow: \<open>src/src/runtime/workflow-state.ts\<close> and the step of the scheduler loop
  that ends them, \<open>src/src/runtime/workflow-phase-advance.ts\<close>, with the part of
  \<open>selectDispatchBatch\<close> that moves past completed phases.
\<close>

datatype phase_status = PPending | PRunning | PCompleted | PFailed | PSkipped

fun phase_status_str :: "phase_status \<Rightarrow> string" where
  "phase_status_str PPending = ''pending''"
| "phase_status_str PRunning = ''running''"
| "phase_status_str PCompleted = ''completed''"
| "phase_status_str PFailed = ''failed''"
| "phase_status_str PSkipped = ''skipped''"

record phase_state =
  ph_name :: string
  ph_status :: phase_status
  ph_inputs :: "string list"
  ph_outputs :: "string list"
  ph_startedAt :: "stamp option"
  ph_finishedAt :: "stamp option"

record phase_machine =
  pm_phases :: "phase_state list"
  pm_current :: nat

record guard_context =
  gc_artifacts :: "string list"
  gc_previous :: phase_status

datatype guard_result = Allowed | Refused string

definition createWorkflowStateMachine :: "phase_state list \<Rightarrow> phase_machine" where
  "createWorkflowStateMachine phases = \<lparr> pm_phases = phases, pm_current = 0 \<rparr>"

definition getPhaseInputs :: "phase_machine \<Rightarrow> nat \<Rightarrow> string list" where
  "getPhaseInputs m i = (if i < length (pm_phases m) then ph_inputs (pm_phases m ! i) else [])"

definition missing_inputs :: "phase_state \<Rightarrow> string list \<Rightarrow> string list" where
  "missing_inputs p artifacts = filter (\<lambda>x. x \<notin> set artifacts) (ph_inputs p)"

definition canTransitionToPhase :: "phase_machine \<Rightarrow> int \<Rightarrow> guard_context \<Rightarrow> guard_result" where
  "canTransitionToPhase m i c =
     (let n = int (length (pm_phases m))
      in if i < 0 \<or> n \<le> i
         then Refused (''Phase index '' @ show_int i @ '' is out of bounds (0..'' @ show_int (n - 1) @ '').'')
         else if 0 < i \<and> gc_previous c \<noteq> PCompleted \<and> gc_previous c \<noteq> PSkipped
         then Refused (''Previous phase status is '' @ quoted (phase_status_str (gc_previous c))
                @ ''; expected '' @ quoted ''completed'' @ '' or '' @ quoted ''skipped'' @ ''.'')
         else let missing = missing_inputs (pm_phases m ! nat i) (gc_artifacts c)
              in if missing \<noteq> [] then Refused (''Missing required artifacts: '' @ join '', '' missing @ ''.'')
                 else Allowed)"

definition validatePhasePreconditions :: "phase_machine \<Rightarrow> guard_context \<Rightarrow> bool \<times> string list" where
  "validatePhasePreconditions m c =
     (if length (pm_phases m) \<le> pm_current m
      then (False, [''No phase at index '' @ show_nat (pm_current m) @ ''.''])
      else let missing = missing_inputs (pm_phases m ! pm_current m) (gc_artifacts c)
           in (missing = [], missing))"

definition set_status :: "phase_status \<Rightarrow> stamp \<Rightarrow> phase_state \<Rightarrow> phase_state" where
  "set_status st now p =
     p\<lparr>ph_status := st,
       ph_startedAt := (if st = PRunning \<and> \<not> has_stamp (ph_startedAt p) then Some now else ph_startedAt p),
       ph_finishedAt := (if (st = PCompleted \<or> st = PFailed \<or> st = PSkipped) \<and> \<not> has_stamp (ph_finishedAt p)
                         then Some now else ph_finishedAt p)\<rparr>"

definition transitionPhase ::
    "phase_machine \<Rightarrow> nat \<Rightarrow> phase_status \<Rightarrow> guard_context option \<Rightarrow> stamp \<Rightarrow>
     phase_machine \<times> guard_result option" where
  "transitionPhase m i st ctx now =
     (let moved = (m\<lparr>pm_phases := (if i < length (pm_phases m)
                      then (pm_phases m)[i := set_status st now (pm_phases m ! i)] else pm_phases m),
                     pm_current := max (pm_current m) i\<rparr>, None)
      in case ctx of
           None \<Rightarrow> moved
         | Some c \<Rightarrow>
             (case canTransitionToPhase m (int i) c of
                Allowed \<Rightarrow> moved
              | Refused r \<Rightarrow> (m, Some (Refused r))))"

subsection \<open>Ending the phases whose tasks have ended\<close>

definition phase_terminal :: "task_status \<Rightarrow> bool" where
  "phase_terminal st \<longleftrightarrow> st \<in> {Completed, Failed, Skipped, Cancelled, NeedsAttention}"

definition phase_task_ids :: "team_task list \<Rightarrow> string \<Rightarrow> string list" where
  "phase_task_ids tasks name =
     map task_id (filter (\<lambda>t. truthy (stepId t) \<and> stepId t = Some name) tasks)"

datatype phase_event = PhaseGuardBlocked nat string | PhaseEnded nat phase_status

definition phase_outcome :: "team_task list \<Rightarrow> string list \<Rightarrow> phase_status" where
  "phase_outcome tasks ids =
     (if list_ex (\<lambda>t. status t = Failed \<or> status t = Cancelled)
           (List.map_filter (index_by task_id tasks) ids)
      then PFailed else PCompleted)"

text \<open>The loop from phase \<open>i\<close> with \<open>k\<close> phases left, and the events in order.\<close>

fun advance_loop ::
    "team_task list \<Rightarrow> string list \<Rightarrow> stamp \<Rightarrow> nat \<Rightarrow> nat \<Rightarrow> phase_machine \<Rightarrow> phase_event list \<Rightarrow>
     phase_machine \<times> phase_event list" where
  "advance_loop tasks artifacts now 0 i m evs = (m, evs)"
| "advance_loop tasks artifacts now (Suc k) i m evs =
     (let phase = pm_phases m ! i;
          ids = phase_task_ids tasks (ph_name phase)
      in if ids = [] then advance_loop tasks artifacts now k (Suc i) m evs
         else if \<not> list_all (\<lambda>j. case index_by task_id tasks j of
                                  Some t \<Rightarrow> phase_terminal (status t) | None \<Rightarrow> False) ids
         then (m, evs)
         else if ph_status phase \<in> {PCompleted, PFailed, PSkipped}
         then advance_loop tasks artifacts now k (Suc i) (m\<lparr>pm_current := Suc i\<rparr>) evs
         else let previous = (if 0 < i then ph_status (pm_phases m ! (i - 1)) else PCompleted);
                  st = phase_outcome tasks ids
              in case transitionPhase m i st
                        (Some \<lparr> gc_artifacts = artifacts, gc_previous = previous \<rparr>) now of
                   (m', Some (Refused r)) \<Rightarrow> (m', evs @ [PhaseGuardBlocked i r])
                 | (m', _) \<Rightarrow>
                     advance_loop tasks artifacts now k (Suc i) (m'\<lparr>pm_current := Suc i\<rparr>)
                       (evs @ [PhaseEnded i st]))"

definition completed_artifacts :: "artifact list \<Rightarrow> string list" where
  "completed_artifacts arts =
     map art_path (filter (\<lambda>a. art_kind a = ''result'' \<or> art_kind a = ''summary'') arts)"

definition advanceWorkflowPhases ::
    "team_task list \<Rightarrow> artifact list \<Rightarrow> stamp \<Rightarrow> phase_machine \<Rightarrow> phase_machine \<times> phase_event list" where
  "advanceWorkflowPhases tasks arts now m =
     advance_loop tasks (completed_artifacts arts) now (length (pm_phases m) - pm_current m) (pm_current m) m []"

text \<open>The loop of \<open>selectDispatchBatch\<close> past the completed phases, when nothing is missing.\<close>

function skip_completed :: "phase_machine \<Rightarrow> phase_machine" where
  "skip_completed m =
     (if pm_current m < length (pm_phases m) \<and> ph_status (pm_phases m ! pm_current m) = PCompleted
      then skip_completed (m\<lparr>pm_current := Suc (pm_current m)\<rparr>) else m)"
  by auto
termination by (relation "measure (\<lambda>m. length (pm_phases m) - pm_current m)") auto

declare skip_completed.simps [simp del]

subsection \<open>Guards\<close>

lemma guard_exact:
  "canTransitionToPhase m i c = Allowed \<longleftrightarrow>
     0 \<le> i \<and> i < int (length (pm_phases m)) \<and>
     (i = 0 \<or> gc_previous c \<in> {PCompleted, PSkipped}) \<and>
     set (ph_inputs (pm_phases m ! nat i)) \<subseteq> set (gc_artifacts c)"
  by (auto simp: canTransitionToPhase_def missing_inputs_def Let_def filter_empty_conv)

lemma transition_refused:
  "transitionPhase m i st (Some c) now = (m', Some (Refused r)) \<Longrightarrow> m' = m"
  by (auto simp: transitionPhase_def Let_def split: guard_result.splits)

lemma transition_allowed:
  assumes "transitionPhase m i st (Some c) now = (m', g)" and "g \<noteq> Some (Refused r)" and "\<forall>s. g \<noteq> Some (Refused s)"
  shows "canTransitionToPhase m (int i) c = Allowed"
    and "m' = m\<lparr>pm_phases := (pm_phases m)[i := set_status st now (pm_phases m ! i)],
           pm_current := max (pm_current m) i\<rparr>"
  using assms by (auto simp: transitionPhase_def Let_def guard_exact split: guard_result.splits if_splits)

lemma set_status_simps [simp]:
  "ph_status (set_status st now p) = st" "ph_name (set_status st now p) = ph_name p"
  "ph_inputs (set_status st now p) = ph_inputs p"
  by (simp_all add: set_status_def)

text \<open>
  Phase \<open>j\<close> of \<open>m\<close> has been ended, starting from \<open>m0\<close>: it was open, it has tasks and all of them have
  ended, its status is the outcome of these tasks, its inputs are there, and the phase before
  it is completed or skipped.
\<close>

definition ended_well ::
    "team_task list \<Rightarrow> string list \<Rightarrow> stamp \<Rightarrow> phase_machine \<Rightarrow> phase_machine \<Rightarrow> nat \<Rightarrow> bool" where
  "ended_well tasks artifacts now m0 m j \<longleftrightarrow>
     (let p = pm_phases m0 ! j; ids = phase_task_ids tasks (ph_name p)
      in ph_status p \<in> {PPending, PRunning} \<and> ids \<noteq> [] \<and>
         (\<forall>i\<in>set ids. \<exists>t. index_by task_id tasks i = Some t \<and> phase_terminal (status t)) \<and>
         pm_phases m ! j = set_status (phase_outcome tasks ids) now p \<and>
         set (ph_inputs p) \<subseteq> set artifacts \<and>
         (j = 0 \<or> ph_status (pm_phases m ! (j - 1)) \<in> {PCompleted, PSkipped}))"

definition advance_inv ::
    "team_task list \<Rightarrow> string list \<Rightarrow> stamp \<Rightarrow> phase_machine \<Rightarrow> nat \<Rightarrow> phase_machine \<Rightarrow> bool" where
  "advance_inv tasks artifacts now m0 i m \<longleftrightarrow>
     length (pm_phases m) = length (pm_phases m0) \<and> pm_current m0 \<le> pm_current m \<and> pm_current m0 \<le> i \<and>
     (\<forall>j<length (pm_phases m0). pm_phases m ! j = pm_phases m0 ! j \<or>
        pm_current m0 \<le> j \<and> j < i \<and> ended_well tasks artifacts now m0 m j)"

lemma advance_inv_weaken:
  "advance_inv tasks arts now m0 i m \<Longrightarrow> i \<le> i' \<Longrightarrow> pm_current m0 \<le> c \<Longrightarrow>
   advance_inv tasks arts now m0 i' (m\<lparr>pm_current := c\<rparr>)"
  by (fastforce simp: advance_inv_def ended_well_def Let_def)

lemma advance_inv_end:
  assumes inv: "advance_inv tasks arts now m0 i m" and i: "i < length (pm_phases m0)"
    and p: "p = pm_phases m ! i" and ids: "ids = phase_task_ids tasks (ph_name p)" and "ids \<noteq> []"
    and over: "\<forall>j\<in>set ids. \<exists>t. index_by task_id tasks j = Some t \<and> phase_terminal (status t)"
    and st: "ph_status p \<in> {PPending, PRunning}"
    and guard: "canTransitionToPhase m (int i) \<lparr> gc_artifacts = arts,
       gc_previous = (if 0 < i then ph_status (pm_phases m ! (i - 1)) else PCompleted) \<rparr> = Allowed"
    and c: "pm_current m0 \<le> c"
  shows "advance_inv tasks arts now m0 (Suc i)
    (m\<lparr>pm_phases := (pm_phases m)[i := set_status (phase_outcome tasks ids) now p], pm_current := c\<rparr>)"
proof -
  let ?m = "m\<lparr>pm_phases := (pm_phases m)[i := set_status (phase_outcome tasks ids) now p], pm_current := c\<rparr>"
  have len: "length (pm_phases m) = length (pm_phases m0)" and le: "pm_current m0 \<le> i"
    using inv by (auto simp: advance_inv_def)
  have same: "pm_phases m ! i = pm_phases m0 ! i" using inv i by (auto simp: advance_inv_def)
  have "ended_well tasks arts now m0 ?m i"
    using guard i len same st over \<open>ids \<noteq> []\<close> p ids
    by (auto simp: ended_well_def Let_def guard_exact)
  moreover
  have "pm_phases ?m ! j = pm_phases m0 ! j \<or> pm_current m0 \<le> j \<and> j < i \<and> ended_well tasks arts now m0 ?m j"
    if j: "j < length (pm_phases m0)" "j \<noteq> i" for j
  proof (cases "pm_phases m ! j = pm_phases m0 ! j")
    case False
    then have "pm_current m0 \<le> j" "j < i" "ended_well tasks arts now m0 m j"
      using inv j(1) by (auto simp: advance_inv_def)
    then show ?thesis by (auto simp: ended_well_def Let_def)
  qed (use j in simp)
  ultimately have "pm_phases ?m ! j = pm_phases m0 ! j \<or>
      pm_current m0 \<le> j \<and> j < Suc i \<and> ended_well tasks arts now m0 ?m j"
    if "j < length (pm_phases m0)" for j
    using that le less_SucI by (cases "j = i") blast+
  then show ?thesis using len le c unfolding advance_inv_def by simp
qed

lemma advance_loop_inv:
  "advance_inv tasks arts now m0 i m \<Longrightarrow> i + k = length (pm_phases m0) \<Longrightarrow>
   advance_loop tasks arts now k i m evs = (m', evs') \<Longrightarrow>
   advance_inv tasks arts now m0 (length (pm_phases m0)) m'"
proof (induction k arbitrary: i m evs)
  case 0
  then show ?case by simp
next
  case (Suc k)
  note inv = Suc.prems(1) and len = Suc.prems(2) and run = Suc.prems(3)
  let ?p = "pm_phases m ! i"
  let ?ids = "phase_task_ids tasks (ph_name ?p)"
  let ?st = "phase_outcome tasks ?ids"
  let ?c = "Some \<lparr> gc_artifacts = arts,
    gc_previous = (if 0 < i then ph_status (pm_phases m ! (i - 1)) else PCompleted) \<rparr>"
  let ?done = "list_all (\<lambda>j. case index_by task_id tasks j of
      Some t \<Rightarrow> phase_terminal (status t) | None \<Rightarrow> False) ?ids"
  have stop: "advance_inv tasks arts now m0 (length (pm_phases m0)) m"
    using advance_inv_weaken [OF inv, of "length (pm_phases m0)" "pm_current m"] inv len
    by (simp add: advance_inv_def)
  have cur: "pm_current m0 \<le> Suc i" using inv by (simp add: advance_inv_def)
  consider "?ids = []" | "?ids \<noteq> []" "\<not> ?done"
    | "?ids \<noteq> []" ?done "ph_status ?p \<in> {PCompleted, PFailed, PSkipped}"
    | "?ids \<noteq> []" ?done "ph_status ?p \<notin> {PCompleted, PFailed, PSkipped}"
    by blast
  then show ?case
  proof cases
    case 1
    have "advance_inv tasks arts now m0 (Suc i) m"
      using advance_inv_weaken [OF inv, of "Suc i" "pm_current m"] inv by (simp add: advance_inv_def)
    then show ?thesis using Suc.IH [of "Suc i" m] len run 1 by (simp add: Let_def)
  next
    case b: 2
    then show ?thesis using run stop by (simp add: Let_def)
  next
    case 3
    then show ?thesis
      using Suc.IH [OF advance_inv_weaken [OF inv _ cur, of "Suc i"]] len run by (auto simp: Let_def)
  next
    case 4
    obtain m1 g where t: "transitionPhase m i ?st ?c now = (m1, g)" by (cases "transitionPhase m i ?st ?c now")
    show ?thesis
    proof (cases "\<exists>r. g = Some (Refused r)")
      case True
      then obtain r where g: "g = Some (Refused r)" by auto
      then have "m1 = m" using t transition_refused by blast
      then show ?thesis using run stop 4 t g by (auto simp: Let_def)
    next
      case False
      then have no: "\<forall>s. g \<noteq> Some (Refused s)" by blast
      note al = transition_allowed [OF t no [rule_format] no]
      have ok: "ph_status ?p \<in> {PPending, PRunning}" using 4(3) by (cases "ph_status ?p") auto
      have over: "\<forall>j\<in>set ?ids. \<exists>t. index_by task_id tasks j = Some t \<and> phase_terminal (status t)"
        using 4(2) by (auto simp: list_all_iff split: option.splits)
      have i: "i < length (pm_phases m0)" using len by simp
      have "advance_inv tasks arts now m0 (Suc i) (m1\<lparr>pm_current := Suc i\<rparr>)"
        using advance_inv_end [OF inv i refl refl 4(1) over ok al(1) cur] by (simp add: al(2))
      moreover have "advance_loop tasks arts now k (Suc i) (m1\<lparr>pm_current := Suc i\<rparr>)
          (evs @ [PhaseEnded i ?st]) = (m', evs')"
        using run 4 t no by (auto simp: Let_def split: option.splits guard_result.splits)
      ultimately show ?thesis
        using Suc.IH [of "Suc i" "m1\<lparr>pm_current := Suc i\<rparr>"] len by simp
    qed
  qed
qed

text \<open>
  One pass over the phases changes nothing but the phases it ends: each of these was open, has
  tasks, all of them ended, takes its status from them, has its inputs among the artifacts,
  and follows a phase that is completed or skipped. The current phase never moves back.
\<close>

theorem advanceWorkflowPhases_sound:
  assumes "advanceWorkflowPhases tasks arts now m = (m', evs)" and "pm_current m \<le> length (pm_phases m)"
  shows "length (pm_phases m') = length (pm_phases m) \<and> pm_current m \<le> pm_current m' \<and>
    (\<forall>j<length (pm_phases m). pm_phases m' ! j = pm_phases m ! j \<or>
       pm_current m \<le> j \<and> ended_well tasks (completed_artifacts arts) now m m' j)"
proof -
  have "advance_inv tasks (completed_artifacts arts) now m (pm_current m) m"
    by (simp add: advance_inv_def)
  then have "advance_inv tasks (completed_artifacts arts) now m (length (pm_phases m)) m'"
    using assms by (intro advance_loop_inv [where evs = "[]" and evs' = evs]) (auto simp: advanceWorkflowPhases_def)
  then show ?thesis by (auto simp: advance_inv_def)
qed

text \<open>
  A phase may start exactly when its index is in range, the phase before it is completed or
  skipped, and every declared input is among the artifacts.
\<close>

theorem canTransitionToPhase_exact:
  "canTransitionToPhase m i c = Allowed \<longleftrightarrow>
     0 \<le> i \<and> i < int (length (pm_phases m)) \<and>
     (i = 0 \<or> gc_previous c \<in> {PCompleted, PSkipped}) \<and>
     set (ph_inputs (pm_phases m ! nat i)) \<subseteq> set (gc_artifacts c)"
  by (rule guard_exact)

lemma skip_completed_spec:
  "pm_phases (skip_completed m) = pm_phases m \<and> pm_current m \<le> pm_current (skip_completed m) \<and>
   (\<forall>j. pm_current m \<le> j \<and> j < pm_current (skip_completed m) \<longrightarrow> ph_status (pm_phases m ! j) = PCompleted)"
proof (induction m rule: skip_completed.induct)
  case (1 m)
  show ?case
  proof (cases "pm_current m < length (pm_phases m) \<and> ph_status (pm_phases m ! pm_current m) = PCompleted")
    case True
    then have "skip_completed m = skip_completed (m\<lparr>pm_current := Suc (pm_current m)\<rparr>)"
      by (subst skip_completed.simps) simp
    moreover have "pm_current m \<le> j \<longleftrightarrow> j = pm_current m \<or> Suc (pm_current m) \<le> j" for j by auto
    ultimately show ?thesis using 1 [OF True] True by auto
  next
    case False
    then have "skip_completed m = m" by (subst skip_completed.simps) auto
    then show ?thesis by auto
  qed
qed

subsection \<open>Concrete inputs\<close>

definition pending_phase :: "string \<Rightarrow> string list \<Rightarrow> phase_state" where
  "pending_phase n ins = \<lparr> ph_name = n, ph_status = PPending, ph_inputs = ins, ph_outputs = [],
     ph_startedAt = None, ph_finishedAt = None \<rparr>"

definition two_phases :: phase_machine where
  "two_phases = createWorkflowStateMachine [pending_phase ''a'' [], pending_phase ''b'' [''r'']]"

definition phase_tasks :: "team_task list" where
  "phase_tasks = [(blank_task ''1'')\<lparr>stepId := Some ''a'', status := Completed\<rparr>,
     (blank_task ''2'')\<lparr>stepId := Some ''b'', status := Failed\<rparr>]"

lemma advanceWorkflowPhases_sound_witness:
  "map ph_status (pm_phases (fst (advanceWorkflowPhases phase_tasks [] (Stamp ''t'' None) two_phases))) =
     [PCompleted, PPending] \<and>
   ended_well phase_tasks [] (Stamp ''t'' None) two_phases
     (fst (advanceWorkflowPhases phase_tasks [] (Stamp ''t'' None) two_phases)) 0"
proof -
  let ?r = "advanceWorkflowPhases phase_tasks [] (Stamp ''t'' None) two_phases"
  have st: "map ph_status (pm_phases (fst ?r)) = [PCompleted, PPending]" by code_simp
  have "?r = (fst ?r, snd ?r)" by simp
  from advanceWorkflowPhases_sound [OF this]
  have "\<forall>j<length (pm_phases two_phases). pm_phases (fst ?r) ! j = pm_phases two_phases ! j \<or>
      ended_well phase_tasks (completed_artifacts []) (Stamp ''t'' None) two_phases (fst ?r) j"
    and len: "length (pm_phases (fst ?r)) = length (pm_phases two_phases)"
    by (auto simp: two_phases_def createWorkflowStateMachine_def)
  moreover have "pm_phases (fst ?r) ! 0 \<noteq> pm_phases two_phases ! 0"
  proof -
    have "map ph_status (pm_phases (fst ?r)) ! 0 = PCompleted" by (simp add: st)
    then have "ph_status (pm_phases (fst ?r) ! 0) = PCompleted"
      using len by (simp add: two_phases_def createWorkflowStateMachine_def)
    then show ?thesis by (auto simp: two_phases_def createWorkflowStateMachine_def pending_phase_def)
  qed
  ultimately show ?thesis
    using st by (auto simp: completed_artifacts_def two_phases_def createWorkflowStateMachine_def)
qed

end
