(* ===== verification/RunModel.thy ===== *)
theory RunModel
  imports TaskModel
begin

text \<open>
  The durable run record (\<open>TeamRunManifest\<close> of \<open>src/src/state/types.ts\<close>, with the fields the
  modelled code reads or writes) and the guarded writes of its status in
  \<open>src/src/state/stores/state-store.ts\<close>. A save reads the manifest on disk, decides what to write,
  and writes it, without a lock of its own: \<open>disk\<close> is what it reads (\<open>None\<close> stands for a missing
  or unreadable file), the result is what it writes later, and \<open>store_step\<close> interleaves the reads
  and the writes of any number of saves. Cache and registry upkeep are left out.
\<close>

subsection \<open>The run record\<close>

record wait_state =
  ws_taskId :: string
  ws_questionId :: string
  ws_askedAt :: stamp
  ws_deadline :: "jsnum option"

datatype approval_status = ApprovalPending | ApprovalApproved | ApprovalCancelled

record plan_approval =
  pa_required :: bool
  pa_status :: approval_status

record run_manifest =
  rm_runId :: string
  rm_status :: run_status
  rm_summary :: "string option"
  rm_updatedAt :: stamp
  rm_waitState :: "wait_state option"
  rm_planApproval :: "plan_approval option"
  rm_asyncPid :: "jsnum option"
  rm_artifacts :: "artifact list"

subsection \<open>Writing the status\<close>

definition DISK_TERMINAL_STATUSES :: "run_status set" where
  "DISK_TERMINAL_STATUSES = {RCancelled, RFailed, RCompleted}"

definition preserveDiskTerminalStatus ::
    "run_manifest option \<Rightarrow> run_manifest \<Rightarrow> bool \<Rightarrow> run_manifest" where
  "preserveDiskTerminalStatus disk m allowTerminalExit =
     (if allowTerminalExit then m
      else if rm_status m \<in> DISK_TERMINAL_STATUSES then m
      else case disk of
          None \<Rightarrow> m
        | Some d \<Rightarrow>
            if rm_status d \<notin> DISK_TERMINAL_STATUSES \<or> rm_status d = rm_status m then m
            else m\<lparr>rm_status := rm_status d, rm_summary := rm_summary d,
                   rm_updatedAt := rm_updatedAt d\<rparr>)"

text \<open>
  From the manifest the guard has read, the one that is then written and returned.
\<close>

definition saveRunManifest ::
    "run_manifest option \<Rightarrow> run_manifest \<Rightarrow> bool \<Rightarrow> run_manifest" where
  "saveRunManifest disk m allowTerminalExit = preserveDiskTerminalStatus disk m allowTerminalExit"

record status_update =
  su_returned :: run_manifest
  su_written :: run_manifest
  su_event :: string

text \<open>
  \<open>Inl\<close> is the error \<open>invalidStatusTransition(from, to)\<close>. \<open>su_written\<close> is what the save writes and
  \<open>su_returned\<close> what the caller gets.
\<close>

definition updateRunStatus ::
    "run_manifest option \<Rightarrow> run_manifest \<Rightarrow> run_status \<Rightarrow> string option \<Rightarrow> bool \<Rightarrow> stamp \<Rightarrow>
     run_status \<times> run_status + status_update" where
  "updateRunStatus disk m st summary allowTerminalExit now =
     (if \<not> canTransitionRunStatus (rm_status m) st then Inl (rm_status m, st)
      else let updated = m\<lparr>rm_status := st, rm_updatedAt := now,
                            rm_summary := (case summary of None \<Rightarrow> rm_summary m | s \<Rightarrow> s)\<rparr>;
               saved = saveRunManifest disk updated allowTerminalExit
           in if rm_status saved \<noteq> st
              then Inr \<lparr> su_returned = saved, su_written = saved, su_event = ''run.terminal_preserved'' \<rparr>
              else Inr \<lparr> su_returned = updated, su_written = saved,
                         su_event = ''run.'' @ run_status_str st \<rparr>)"

subsection \<open>Runs that wait for a person\<close>

definition isPlanApprovalPending :: "run_manifest \<Rightarrow> bool" where
  "isPlanApprovalPending m \<longleftrightarrow> rm_status m = RBlocked \<and>
     (case rm_planApproval m of None \<Rightarrow> False
      | Some p \<Rightarrow> pa_required p \<and> pa_status p = ApprovalPending)"

text \<open>The approval of the current plan record, when there is one, is an argument.\<close>

definition isPlanApprovalPendingEffective :: "approval_status option \<Rightarrow> run_manifest \<Rightarrow> bool" where
  "isPlanApprovalPendingEffective planRecord m =
     (if isPlanApprovalPending m then True
      else if rm_status m \<noteq> RBlocked then False
      else planRecord = Some ApprovalPending)"

definition WAITING_TTL_MS :: int where
  "WAITING_TTL_MS = 24 * 60 * 60 * 1000"

definition PARKED_ASK_GRACE_MS :: int where
  "PARKED_ASK_GRACE_MS = 60 * 60 * 1000"

definition isWaitAnswerPending :: "run_manifest \<Rightarrow> int \<Rightarrow> bool" where
  "isWaitAnswerPending m now =
     (case rm_waitState m of
        None \<Rightarrow> False
      | Some w \<Rightarrow>
          if stamp_text (ws_askedAt w) = [] then False
          else case stamp_ms (ws_askedAt w) of
              None \<Rightarrow> False
            | Some askedAtMs \<Rightarrow>
                if now - askedAtMs > WAITING_TTL_MS then False
                else case ws_deadline w of
                    Some (Fin d) \<Rightarrow> rat_of_int now \<le> d + rat_of_int PARKED_ASK_GRACE_MS
                  | _ \<Rightarrow> True)"

definition isIntentionalWait :: "approval_status option \<Rightarrow> run_manifest \<Rightarrow> int \<Rightarrow> bool" where
  "isIntentionalWait planRecord m now \<longleftrightarrow>
     isPlanApprovalPendingEffective planRecord m \<or> isWaitAnswerPending m now"

subsection \<open>Terminal statuses on disk\<close>

lemma run_status_str_inj: "run_status_str a = run_status_str b \<longleftrightarrow> a = b"
  by (cases a; cases b) simp_all

lemma saved_terminal:
  "rm_status d \<in> DISK_TERMINAL_STATUSES \<Longrightarrow>
   rm_status (saveRunManifest (Some d) m False) \<in> DISK_TERMINAL_STATUSES"
  by (auto simp: saveRunManifest_def preserveDiskTerminalStatus_def)

lemma saved_not_terminal_eq:
  "rm_status m \<notin> DISK_TERMINAL_STATUSES \<Longrightarrow> rm_status d \<in> DISK_TERMINAL_STATUSES \<Longrightarrow>
   rm_status (saveRunManifest (Some d) m False) = rm_status d"
  by (auto simp: saveRunManifest_def preserveDiskTerminalStatus_def)

lemma saved_other_fields:
  "rm_waitState (saveRunManifest disk m x) = rm_waitState m"
  "rm_planApproval (saveRunManifest disk m x) = rm_planApproval m"
  "rm_asyncPid (saveRunManifest disk m x) = rm_asyncPid m"
  "rm_runId (saveRunManifest disk m x) = rm_runId m"
  "rm_artifacts (saveRunManifest disk m x) = rm_artifacts m"
  by (auto simp: saveRunManifest_def preserveDiskTerminalStatus_def split: option.splits)

text \<open>
  Reads and writes of saves, interleaved: a save is named by a number, and between its read and its
  write the manifest it is about to write is pending. A refused status update writes nothing.
\<close>

record run_store =
  sv_disk :: run_manifest
  sv_pending :: "nat \<Rightarrow> run_manifest option"

datatype store_event =
    SaveReads nat run_manifest bool
  | StatusReads nat run_manifest run_status "string option" bool stamp
  | SaveWrites nat

fun asks_exit :: "store_event \<Rightarrow> bool" where
  "asks_exit (SaveReads k m x) = x"
| "asks_exit (StatusReads k m st summary x now) = x"
| "asks_exit (SaveWrites k) = False"

fun store_step :: "run_store \<Rightarrow> store_event \<Rightarrow> run_store" where
  "store_step s (SaveReads k m x) =
     (if sv_pending s k \<noteq> None then s
      else s\<lparr>sv_pending := (sv_pending s)(k \<mapsto> saveRunManifest (Some (sv_disk s)) m x)\<rparr>)"
| "store_step s (StatusReads k m st summary x now) =
     (if sv_pending s k \<noteq> None then s
      else case updateRunStatus (Some (sv_disk s)) m st summary x now of
          Inl _ \<Rightarrow> s
        | Inr u \<Rightarrow> s\<lparr>sv_pending := (sv_pending s)(k \<mapsto> su_written u)\<rparr>)"
| "store_step s (SaveWrites k) =
     (case sv_pending s k of
        None \<Rightarrow> s
      | Some m \<Rightarrow> s\<lparr>sv_disk := m, sv_pending := (sv_pending s)(k := None)\<rparr>)"

definition disk_ended :: "run_store \<Rightarrow> bool" where
  "disk_ended s \<longleftrightarrow> rm_status (sv_disk s) \<in> DISK_TERMINAL_STATUSES"

text \<open>No save has read the manifest, decided on a status that is not terminal, and not yet written.\<close>

definition no_late_write :: "run_store \<Rightarrow> bool" where
  "no_late_write s \<longleftrightarrow> (\<forall>k m. sv_pending s k = Some m \<longrightarrow> rm_status m \<in> DISK_TERMINAL_STATUSES)"

lemma updateRunStatus_written:
  "updateRunStatus disk m st summary x now = Inr u \<Longrightarrow> \<exists>m'. su_written u = saveRunManifest disk m' x"
  by (auto simp: updateRunStatus_def Let_def split: if_splits)

lemma store_step_ended:
  assumes "disk_ended s" and "no_late_write s" and "\<not> asks_exit e"
  shows "disk_ended (store_step s e) \<and> no_late_write (store_step s e)"
proof (cases e)
  case (SaveReads k m x)
  then show ?thesis using assms by (auto simp: disk_ended_def no_late_write_def saved_terminal)
next
  case (StatusReads k m st summary x now)
  then show ?thesis
    using assms by (auto simp: disk_ended_def no_late_write_def saved_terminal
        dest!: updateRunStatus_written split: sum.split)
next
  case (SaveWrites k)
  then show ?thesis using assms by (auto simp: disk_ended_def no_late_write_def split: option.split)
qed

lemma store_run_ended:
  assumes "disk_ended s" and "no_late_write s" and "list_all (\<lambda>e. \<not> asks_exit e) es"
  shows "disk_ended (foldl store_step s es)"
  using assms by (induction es arbitrary: s) (simp_all add: store_step_ended)

text \<open>
  C19. When the manifest on disk is completed, failed or cancelled, it stays so under every
  interleaving of the reads and writes of saves and status updates, with whatever stale manifests,
  that ask for no terminal exit, exactly when no save is between its read and its write with a
  status that is not terminal. A save that read before the run ended and writes after it does
  revive the run (\<open>late_write_revives_run\<close>): the guard of the store has no lock of its own.
\<close>

theorem terminal_run_never_revived:
  assumes "disk_ended s"
  shows "(\<forall>es. list_all (\<lambda>e. \<not> asks_exit e) es \<longrightarrow> disk_ended (foldl store_step s es)) \<longleftrightarrow> no_late_write s"
proof
  assume a: "\<forall>es. list_all (\<lambda>e. \<not> asks_exit e) es \<longrightarrow> disk_ended (foldl store_step s es)"
  show "no_late_write s"
    unfolding no_late_write_def
  proof (intro allI impI)
    fix k m assume "sv_pending s k = Some m"
    then show "rm_status m \<in> DISK_TERMINAL_STATUSES"
      using a [rule_format, of "[SaveWrites k]"] by (simp add: disk_ended_def)
  qed
qed (use assms store_run_ended in blast)

text \<open>
  Two saves are enough: one reads while the run is not ended and writes after the other has ended it.
\<close>

theorem late_write_revives_run:
  assumes "sv_pending s i = None" and "sv_pending s j = None" and "i \<noteq> j"
    and "rm_status (sv_disk s) \<notin> DISK_TERMINAL_STATUSES" and "rm_status e \<in> DISK_TERMINAL_STATUSES"
  shows "disk_ended (foldl store_step s [SaveReads i m False, SaveReads j e False, SaveWrites j]) \<and>
    sv_disk (foldl store_step s [SaveReads i m False, SaveReads j e False, SaveWrites j, SaveWrites i]) = m"
  using assms by (simp add: disk_ended_def saveRunManifest_def preserveDiskTerminalStatus_def)

definition sample_manifest :: "run_status \<Rightarrow> run_manifest" where
  "sample_manifest s =
     \<lparr> rm_runId = ''r1'', rm_status = s, rm_summary = None, rm_updatedAt = Stamp ''t'' (Some 0),
       rm_waitState = None, rm_planApproval = None, rm_asyncPid = None, rm_artifacts = [] \<rparr>"

lemma sample_manifest_simps [simp]:
  "rm_runId (sample_manifest s) = ''r1''"
  "rm_status (sample_manifest s) = s"
  "rm_summary (sample_manifest s) = None"
  "rm_updatedAt (sample_manifest s) = Stamp ''t'' (Some 0)"
  "rm_waitState (sample_manifest s) = None"
  "rm_planApproval (sample_manifest s) = None"
  "rm_asyncPid (sample_manifest s) = None"
  "rm_artifacts (sample_manifest s) = []"
  by (simp_all add: sample_manifest_def)

definition sample_store :: "run_status \<Rightarrow> run_store" where
  "sample_store s = \<lparr> sv_disk = sample_manifest s, sv_pending = (\<lambda>_. None) \<rparr>"

lemma terminal_run_never_revived_witness:
  "disk_ended (foldl store_step (sample_store RCancelled)
      [SaveReads 0 (sample_manifest RRunning) False,
       StatusReads 1 (sample_manifest RCompleted) RRunning None False (Stamp ''v'' (Some 2)), SaveWrites 1,
       StatusReads 1 (sample_manifest RRunning) RCompleted None False (Stamp ''u'' (Some 1)),
       SaveWrites 0, SaveWrites 1])"
proof -
  have "disk_ended (sample_store RCancelled)"
    by (simp add: disk_ended_def sample_store_def DISK_TERMINAL_STATUSES_def)
  moreover have "no_late_write (sample_store RCancelled)" by (simp add: no_late_write_def sample_store_def)
  ultimately have k: "list_all (\<lambda>e. \<not> asks_exit e) es \<Longrightarrow> disk_ended (foldl store_step (sample_store RCancelled) es)" for es
    using terminal_run_never_revived [of "sample_store RCancelled"] by blast
  show ?thesis by (rule k) simp
qed

lemma late_write_revives_run_witness:
  "sv_disk (foldl store_step (sample_store RRunning)
      [SaveReads 0 (sample_manifest RRunning) False, SaveReads 1 (sample_manifest RCompleted) False,
       SaveWrites 1, SaveWrites 0]) = sample_manifest RRunning"
  using late_write_revives_run [of "sample_store RRunning" 0 1 "sample_manifest RCompleted" "sample_manifest RRunning"]
  by (simp add: sample_store_def DISK_TERMINAL_STATUSES_def)

text \<open>
  A status update that is not refused writes the asked status and announces it, unless the disk it
  has read is terminal, the asked status is not, and no terminal exit is allowed: then it writes
  the status, summary and time it has read, the caller gets them back, and the event
  says that they were preserved.
\<close>

theorem updateRunStatus_exact:
  assumes "updateRunStatus disk m st summary exit now = Inr u"
  shows "canTransitionRunStatus (rm_status m) st \<and>
    (if \<not> exit \<and> st \<notin> DISK_TERMINAL_STATUSES \<and>
        (\<exists>d. disk = Some d \<and> rm_status d \<in> DISK_TERMINAL_STATUSES)
     then rm_status (su_written u) = rm_status (the disk) \<and> su_returned u = su_written u \<and>
          rm_summary (su_written u) = rm_summary (the disk) \<and>
          rm_updatedAt (su_written u) = rm_updatedAt (the disk) \<and>
          su_event u = ''run.terminal_preserved''
     else rm_status (su_written u) = st \<and> su_returned u = su_written u \<and>
          rm_updatedAt (su_written u) = now \<and> su_event u = ''run.'' @ run_status_str st)"
  using assms
  by (auto simp: updateRunStatus_def saveRunManifest_def preserveDiskTerminalStatus_def Let_def
      split: if_splits option.splits)

lemma updateRunStatus_exact_witness:
  "rm_status (su_written (projr (updateRunStatus (Some (sample_manifest RCancelled))
     (sample_manifest RRunning) RRunning None False (Stamp ''u'' (Some 1))))) = RCancelled"
proof -
  have "updateRunStatus (Some (sample_manifest RCancelled)) (sample_manifest RRunning) RRunning None
      False (Stamp ''u'' (Some 1)) =
    Inr (projr (updateRunStatus (Some (sample_manifest RCancelled)) (sample_manifest RRunning) RRunning
      None False (Stamp ''u'' (Some 1))))"
    by (simp add: updateRunStatus_def canTransitionRunStatus_def Let_def)
  from updateRunStatus_exact [OF this] show ?thesis by (simp add: DISK_TERMINAL_STATUSES_def)
qed

text \<open>A run that is blocked on its plan keeps its protection whatever the plan record says.\<close>

lemma pending_manifest_protected:
  "isPlanApprovalPending m \<Longrightarrow> isIntentionalWait r m now"
  by (simp add: isIntentionalWait_def isPlanApprovalPendingEffective_def)

end
