(* ===== verification/Heartbeats.thy ===== *)
theory Heartbeats
  imports TaskModel
begin

text \<open>
  Liveness of workers: \<open>src/src/runtime/heartbeat/worker-heartbeat.ts\<close> and the gradient of
  \<open>src/src/runtime/heartbeat/heartbeat-gradient.ts\<close>. A clock reading is the number of
  milliseconds that \<open>Date.now()\<close> gives; the text of a fresh timestamp is an argument.
\<close>

subsection \<open>Heartbeat records\<close>

definition createWorkerHeartbeat :: "string \<Rightarrow> nat option \<Rightarrow> stamp \<Rightarrow> worker_heartbeat" where
  "createWorkerHeartbeat workerId pid now =
     \<lparr> hb_workerId = workerId, hb_pid = pid, hb_lastSeenAt = now, hb_alive = Some True \<rparr>"

text \<open>The spread of a partial record is a function on the record that keeps the worker's id.\<close>

definition touchWorkerHeartbeat ::
    "worker_heartbeat \<Rightarrow> (worker_heartbeat \<Rightarrow> worker_heartbeat) \<Rightarrow> stamp \<Rightarrow> worker_heartbeat" where
  "touchWorkerHeartbeat hb updates now =
     (updates hb)\<lparr>hb_workerId := hb_workerId hb, hb_lastSeenAt := now\<rparr>"

definition isWorkerHeartbeatStale :: "worker_heartbeat \<Rightarrow> jsnum \<Rightarrow> int \<Rightarrow> bool" where
  "isWorkerHeartbeatStale hb staleMs now =
     (case stamp_ms (hb_lastSeenAt hb) of
        None \<Rightarrow> js_less staleMs NaN
      | Some seen \<Rightarrow> js_less staleMs (Fin (of_int (now - seen))))"

subsection \<open>The gradient\<close>

datatype heartbeat_level = HHealthy | HWarn | HStale | HDead

fun level_rank :: "heartbeat_level \<Rightarrow> nat" where
  "level_rank HHealthy = 0"
| "level_rank HWarn = 1"
| "level_rank HStale = 2"
| "level_rank HDead = 3"

lemma level_rank_inj: "level_rank a = level_rank b \<longleftrightarrow> a = b"
  by (cases a; cases b) simp_all

text \<open>Levels are ordered by how bad they are.\<close>

instantiation heartbeat_level :: linorder
begin

definition less_eq_heartbeat_level :: "heartbeat_level \<Rightarrow> heartbeat_level \<Rightarrow> bool" where
  "a \<le> b \<longleftrightarrow> level_rank a \<le> level_rank b"

definition less_heartbeat_level :: "heartbeat_level \<Rightarrow> heartbeat_level \<Rightarrow> bool" where
  "a < b \<longleftrightarrow> level_rank a < level_rank b"

instance
  by standard
    (auto simp: less_eq_heartbeat_level_def less_heartbeat_level_def level_rank_inj)

end

record gradient_thresholds =
  warnMs :: jsnum
  staleMs :: jsnum
  deadMs :: jsnum

definition DEFAULT_GRADIENT_THRESHOLDS :: gradient_thresholds where
  "DEFAULT_GRADIENT_THRESHOLDS =
     \<lparr> warnMs = Fin 30000, staleMs = Fin 60000, deadMs = Fin 300000 \<rparr>"

definition heartbeatAgeMs :: "worker_heartbeat option \<Rightarrow> int \<Rightarrow> jsnum" where
  "heartbeatAgeMs hb now =
     (case hb of
        None \<Rightarrow> PosInf
      | Some h \<Rightarrow>
          (case stamp_ms (hb_lastSeenAt h) of
             Some lastSeen \<Rightarrow> Fin (of_int (max 0 (now - lastSeen)))
           | None \<Rightarrow> PosInf))"

definition classifyHeartbeat ::
    "worker_heartbeat option \<Rightarrow> gradient_thresholds \<Rightarrow> int \<Rightarrow> heartbeat_level" where
  "classifyHeartbeat hb th now =
     (case hb of
        None \<Rightarrow> HDead
      | Some h \<Rightarrow>
          if hb_alive h = Some False then HDead
          else let elapsed = heartbeatAgeMs hb now
               in if \<not> is_finite elapsed then HDead
                  else if js_less (deadMs th) elapsed then HDead
                  else if js_less (staleMs th) elapsed then HStale
                  else if js_less (warnMs th) elapsed then HWarn
                  else HHealthy)"

subsection \<open>Properties\<close>

lemma js_less_mono: "js_less a (Fin x) \<Longrightarrow> x \<le> y \<Longrightarrow> js_less a (Fin y)"
  by (cases a) auto

lemma classify_malformed:
  "stamp_ms (hb_lastSeenAt h) = None \<Longrightarrow> classifyHeartbeat (Some h) th now = HDead"
  by (simp add: classifyHeartbeat_def heartbeatAgeMs_def)

text \<open>The levels of a beat whose time is readable, by its age.\<close>

lemma classify_readable:
  assumes "stamp_ms (hb_lastSeenAt h) = Some t" and "hb_alive h \<noteq> Some False"
  shows "classifyHeartbeat (Some h) th now =
    (let age = Fin (of_int (max 0 (now - t)))
     in if js_less (deadMs th) age then HDead else if js_less (staleMs th) age then HStale
        else if js_less (warnMs th) age then HWarn else HHealthy)"
  using assms by (simp add: classifyHeartbeat_def heartbeatAgeMs_def Let_def)

lemma level_of_age_mono:
  assumes "x \<le> y"
  shows "(if js_less d (Fin x) then HDead else if js_less s (Fin x) then HStale
          else if js_less w (Fin x) then HWarn else HHealthy)
    \<le> (if js_less d (Fin y) then HDead else if js_less s (Fin y) then HStale
        else if js_less w (Fin y) then HWarn else HHealthy)"
  using js_less_mono [OF _ assms, of d] js_less_mono [OF _ assms, of s] js_less_mono [OF _ assms, of w]
  by (auto simp: less_eq_heartbeat_level_def)

text \<open>
  Without a new beat a worker only gets worse: the level of a heartbeat is monotone in the
  clock, whatever the thresholds are, unordered and \<open>NaN\<close> ones included.
\<close>

theorem heartbeat_only_decays:
  assumes "now \<le> later"
  shows "classifyHeartbeat hb th now \<le> classifyHeartbeat hb th later"
proof (cases hb)
  case None
  then show ?thesis by (simp add: classifyHeartbeat_def)
next
  case (Some h)
  show ?thesis
  proof (cases "hb_alive h = Some False \<or> stamp_ms (hb_lastSeenAt h) = None")
    case True
    then show ?thesis using Some by (auto simp: classifyHeartbeat_def heartbeatAgeMs_def)
  next
    case False
    then obtain t where "stamp_ms (hb_lastSeenAt h) = Some t" by auto
    moreover have "rat_of_int (max 0 (now - t)) \<le> rat_of_int (max 0 (later - t))" using assms by simp
    ultimately show ?thesis
      using False Some by (simp add: classify_readable Let_def level_of_age_mono)
  qed
qed

lemma heartbeat_only_decays_witness:
  "classifyHeartbeat (Some (createWorkerHeartbeat ''w'' None (Stamp ''t'' (Some 0))))
     DEFAULT_GRADIENT_THRESHOLDS 50000 = HWarn \<and>
   HWarn \<le> classifyHeartbeat (Some (createWorkerHeartbeat ''w'' None (Stamp ''t'' (Some 0))))
     DEFAULT_GRADIENT_THRESHOLDS 70000"
proof -
  let ?hb = "Some (createWorkerHeartbeat ''w'' None (Stamp ''t'' (Some 0)))"
  have w: "classifyHeartbeat ?hb DEFAULT_GRADIENT_THRESHOLDS 50000 = HWarn"
    by (simp add: classifyHeartbeat_def heartbeatAgeMs_def createWorkerHeartbeat_def
        DEFAULT_GRADIENT_THRESHOLDS_def)
  have "classifyHeartbeat ?hb DEFAULT_GRADIENT_THRESHOLDS 50000
      \<le> classifyHeartbeat ?hb DEFAULT_GRADIENT_THRESHOLDS 70000"
    by (rule heartbeat_only_decays) simp
  with w show ?thesis by simp
qed

text \<open>
  The two tests for a stale worker agree on every heartbeat that does not say it is dead
  and whose time is readable: the gradient is at least stale exactly when the plain test
  reports it, for thresholds that are ordered and not negative. On a heartbeat whose time
  is not readable they disagree: the gradient says dead, the plain test never reports it.
\<close>

theorem stale_tests_compared:
  assumes "hb_alive h \<noteq> Some False" and "staleMs th = Fin s" and "deadMs th = Fin d"
    and "0 \<le> s" and "s \<le> d"
  shows "if stamp_ms (hb_lastSeenAt h) = None
     then classifyHeartbeat (Some h) th now = HDead \<and> \<not> isWorkerHeartbeatStale h (Fin s) now
     else HStale \<le> classifyHeartbeat (Some h) th now \<longleftrightarrow> isWorkerHeartbeatStale h (Fin s) now"
proof (cases "stamp_ms (hb_lastSeenAt h)")
  case None
  then show ?thesis by (simp add: classify_malformed isWorkerHeartbeatStale_def)
next
  case (Some t)
  have "s < rat_of_int (max 0 (now - t)) \<longleftrightarrow> s < rat_of_int (now - t)"
    using assms(4) by (auto simp: max_def)
  then show ?thesis
    using Some assms by (auto simp: classify_readable isWorkerHeartbeatStale_def Let_def
        less_eq_heartbeat_level_def)
qed

lemma stale_tests_compared_witness:
  "classifyHeartbeat (Some (createWorkerHeartbeat ''w'' None (Stamp ''broken'' None)))
     DEFAULT_GRADIENT_THRESHOLDS 0 = HDead \<and>
   \<not> isWorkerHeartbeatStale (createWorkerHeartbeat ''w'' None (Stamp ''broken'' None)) (Fin 60000) 0"
  using stale_tests_compared
    [of "createWorkerHeartbeat ''w'' None (Stamp ''broken'' None)" DEFAULT_GRADIENT_THRESHOLDS
      60000 300000 0]
  by (simp add: createWorkerHeartbeat_def DEFAULT_GRADIENT_THRESHOLDS_def)

end
