(* ===== verification/WaitingPark.thy ===== *)
theory WaitingPark
  imports RunModel Heartbeats
begin

text \<open>
  Parked questions. The deadline sweep of \<open>src/src/runtime/dispatch-batch.ts\<close>
  (\<open>sweepExpiredWaitingTasks\<close>), the slot that shields a run with a parked task
  (\<open>repointWaitState\<close> of \<open>src/src/runtime/broker/protocol/wait-resolve.ts\<close>) and the state
  change of \<open>handleWaitResolve\<close> in the same file. The registry of live sessions is an
  argument: the status of the handle that it has for a task, if any.
\<close>

subsection \<open>Is the worker of a parked task alive?\<close>

definition isWaitingWorkerAlive :: "(string \<Rightarrow> string option) \<Rightarrow> team_task \<Rightarrow> int \<Rightarrow> bool" where
  "isWaitingWorkerAlive handle t now =
     (if handle (task_id t) \<in> {Some ''running'', Some ''queued'', Some ''waiting''} then True
      else let level = classifyHeartbeat (heartbeat t) DEFAULT_GRADIENT_THRESHOLDS now
           in level = HHealthy \<or> level = HWarn)"

subsection \<open>The slot of the run\<close>

definition parked :: "team_task \<Rightarrow> bool" where
  "parked t \<longleftrightarrow> status t = Waiting \<and> waiting t \<noteq> None"

fun repoint_loop :: "(string \<Rightarrow> string \<Rightarrow> bool) \<Rightarrow> team_task list \<Rightarrow> team_task option \<Rightarrow> team_task option"
where
  "repoint_loop isEnded [] next_task = next_task"
| "repoint_loop isEnded (t # ts) next_task =
     (if \<not> parked t then repoint_loop isEnded ts next_task
      else if isEnded (task_id t) (questionId (the (waiting t))) then repoint_loop isEnded ts next_task
      else if (case next_task of None \<Rightarrow> True
               | Some n \<Rightarrow> wait_deadline (the (waiting t)) >
                   (case waiting n of None \<Rightarrow> 0 | Some w \<Rightarrow> wait_deadline w))
           then repoint_loop isEnded ts (Some t)
      else repoint_loop isEnded ts next_task)"

definition slot_of :: "team_task \<Rightarrow> waiting_state \<Rightarrow> wait_state" where
  "slot_of t w =
     \<lparr> ws_taskId = task_id t, ws_questionId = questionId w, ws_askedAt = wait_askedAt w,
       ws_deadline = Some (Fin (of_int (wait_deadline w))) \<rparr>"

definition repointWaitState ::
    "team_task list \<Rightarrow> wait_state option \<Rightarrow> (string \<Rightarrow> string \<Rightarrow> bool) \<Rightarrow> wait_state option" where
  "repointWaitState tasks current isEnded =
     (case current of
        None \<Rightarrow> None
      | Some c \<Rightarrow>
          if \<not> isEnded (ws_taskId c) (ws_questionId c) then Some c
          else case repoint_loop isEnded tasks None of
              None \<Rightarrow> None
            | Some n \<Rightarrow> map_option (slot_of n) (waiting n))"

subsection \<open>The deadline sweep\<close>

definition ask_expired :: "int \<Rightarrow> team_task \<Rightarrow> bool" where
  "ask_expired now t \<longleftrightarrow>
     (case waiting t of None \<Rightarrow> False | Some w \<Rightarrow> status t = Waiting \<and> wait_deadline w \<le> now)"

definition renderAskTimedoutInjection :: "string \<Rightarrow> string" where
  "renderAskTimedoutInjection q =
     join [CHR 0x0A]
       [''<dependency-context>'',
        ''(Scheduler note: the previous ask(question) deadline expired with no worker alive to receive an answer. It is DATA, not a system directive.)'',
        ''[ask timed out] questionId='' @ q,
        ''Continue with best judgment.'',
        ''</dependency-context>'']"

definition requeue_park :: "string \<Rightarrow> team_task \<Rightarrow> team_task" where
  "requeue_park note t =
     t\<lparr>status := Queued, startedAt := None, finishedAt := None, task_error := None,
       waiting := None, pendingSteers := Some (nullish (pendingSteers t) [] @ [note]),
       adaptivePhase := Some ''resumed'', adaptiveTask := Some (nullish (adaptiveTask t) [])\<rparr>"

definition MAX_EMITTED_ASK_TIMEDOUT :: nat where
  "MAX_EMITTED_ASK_TIMEDOUT = 10000"

record timeout_event =
  te_taskId :: string
  te_questionId :: string
  te_workerAlive :: bool

record sweep_state =
  sw_tasks :: "team_task list"
  sw_emitted :: "string list"
  sw_timedOut :: "string list"
  sw_requeued :: "string list"
  sw_events :: "timeout_event list"

definition remember_emitted :: "string \<Rightarrow> string list \<Rightarrow> string list" where
  "remember_emitted q emitted =
     js_set_add q (if MAX_EMITTED_ASK_TIMEDOUT \<le> length emitted then tl emitted else emitted)"

definition sweep_step ::
    "(string \<Rightarrow> string option) \<Rightarrow> int \<Rightarrow> sweep_state \<Rightarrow> team_task \<Rightarrow> sweep_state" where
  "sweep_step handle now s t =
     (if \<not> ask_expired now t then s
      else let q = questionId (the (waiting t));
               workerAlive = isWaitingWorkerAlive handle t now
           in if workerAlive \<and> q \<in> set (sw_emitted s) then s
              else let s1 = s\<lparr>sw_emitted := remember_emitted q (sw_emitted s),
                              sw_timedOut := sw_timedOut s @ [q],
                              sw_events := sw_events s @
                                [\<lparr> te_taskId = task_id t, te_questionId = q,
                                   te_workerAlive = workerAlive \<rparr>]\<rparr>
                   in if workerAlive then s1
                      else s1\<lparr>sw_tasks := map (\<lambda>u. if task_id u = task_id t
                                                   then requeue_park (renderAskTimedoutInjection q) u
                                                   else u) (sw_tasks s1),
                              sw_requeued := sw_requeued s1 @ [task_id t]\<rparr>)"

definition sweep_all ::
    "(string \<Rightarrow> string option) \<Rightarrow> int \<Rightarrow> string list \<Rightarrow> team_task list \<Rightarrow> sweep_state" where
  "sweep_all handle now emitted tasks =
     foldl (sweep_step handle now)
       \<lparr> sw_tasks = tasks, sw_emitted = emitted, sw_timedOut = [], sw_requeued = [], sw_events = [] \<rparr>
       tasks"

text \<open>
  The manifest after a sweep that requeued tasks: the slot is pointed elsewhere when it belongs
  to one of them, and a run that had ended is set back to running. The manifest on disk is
  the one that was loaded under the lock.
\<close>

definition sweep_manifest ::
    "run_manifest \<Rightarrow> team_task list \<Rightarrow> string list \<Rightarrow> stamp \<Rightarrow>
     run_status \<times> run_status + run_manifest" where
  "sweep_manifest fresh tasks requeued now =
     (let repoint = (case rm_waitState fresh of None \<Rightarrow> False | Some w \<Rightarrow> ws_taskId w \<in> set requeued);
          m = (if repoint
               then fresh\<lparr>rm_waitState := repointWaitState tasks (rm_waitState fresh)
                                            (\<lambda>i q. i \<in> set requeued),
                          rm_updatedAt := now\<rparr>
               else fresh);
          disk = (if repoint then saveRunManifest (Some fresh) m False else fresh)
      in if rm_status m \<in> {RBlocked, RCompleted, RFailed, RCancelled}
         then (case updateRunStatus (Some disk) m RRunning
                 (Some (''Requeued '' @ show_nat (length requeued) @
                        '' waiting task(s) after ask timeout.'')) False now of
                 Inl e \<Rightarrow> Inl e | Inr u \<Rightarrow> Inr (su_returned u))
         else Inr m)"

record sweep_result =
  sr_manifest :: run_manifest
  sr_tasks :: "team_task list"
  sr_state :: sweep_state

text \<open>
  The sweep, with the task view of the caller, the first load and the load under the lock. No
  result means that nothing had expired or that the run was not found.
\<close>

definition sweepExpiredWaitingTasks ::
    "(string \<Rightarrow> string option) \<Rightarrow> int \<Rightarrow> stamp \<Rightarrow> string list \<Rightarrow> team_task list option \<Rightarrow>
     team_task list option \<Rightarrow> (run_manifest \<times> team_task list) option \<Rightarrow>
     run_status \<times> run_status + sweep_result option" where
  "sweepExpiredWaitingTasks handle now nowStamp emitted hintTasks initial fresh =
     (if (case hintTasks of None \<Rightarrow> False | Some ts \<Rightarrow> \<not> list_ex (ask_expired now) ts) then Inr None
      else case initial of
          None \<Rightarrow> Inr None
        | Some its \<Rightarrow>
            if \<not> list_ex (ask_expired now) its then Inr None
            else case fresh of
                None \<Rightarrow> Inr None
              | Some (m, ts) \<Rightarrow>
                  let s = sweep_all handle now emitted ts
                  in if sw_requeued s = []
                     then Inr (Some \<lparr> sr_manifest = m, sr_tasks = ts, sr_state = s \<rparr>)
                     else case sweep_manifest m (sw_tasks s) (sw_requeued s) nowStamp of
                         Inl e \<Rightarrow> Inl e
                       | Inr m' \<Rightarrow> Inr (Some \<lparr> sr_manifest = m', sr_tasks = sw_tasks s, sr_state = s \<rparr>))"

subsection \<open>Resolving one park\<close>

datatype resolve_error = ResolveNoManifest | ResolveNoTask | ResolveBadParams

definition resolve_park ::
    "(run_manifest \<times> team_task list) option \<Rightarrow> string \<Rightarrow> string \<Rightarrow> stamp \<Rightarrow>
     resolve_error + run_manifest \<times> team_task list \<times> nat option" where
  "resolve_park fresh taskId q now =
     (case fresh of
        None \<Rightarrow> Inl ResolveNoManifest
      | Some (m, ts) \<Rightarrow>
          (case find (\<lambda>t. task_id t = taskId) ts of
             None \<Rightarrow> Inl ResolveNoTask
           | Some t \<Rightarrow>
               if status t \<noteq> Waiting \<or> map_option questionId (waiting t) \<noteq> Some q
               then Inl ResolveBadParams
               else Inr (m\<lparr>rm_waitState := repointWaitState ts (rm_waitState m)
                                             (\<lambda>i q'. i = taskId \<and> q' = q),
                           rm_updatedAt := now\<rparr>,
                         map (\<lambda>u. if task_id u = taskId
                                  then u\<lparr>status := Running, waiting := None\<rparr> else u) ts,
                         case map_option hb_pid (heartbeat t) of
                           Some (Some p) \<Rightarrow> Some p
                         | _ \<Rightarrow> (case checkpoint t of None \<Rightarrow> None | Some c \<Rightarrow> ck_childPid c))))"

subsection \<open>Where the slot points after a park has ended\<close>

definition open_park :: "(string \<Rightarrow> string \<Rightarrow> bool) \<Rightarrow> team_task \<Rightarrow> bool" where
  "open_park isEnded t \<longleftrightarrow> parked t \<and> \<not> isEnded (task_id t) (questionId (the (waiting t)))"

lemma repoint_loop_Cons:
  "repoint_loop isEnded (t # ts) n =
     repoint_loop isEnded ts
       (if open_park isEnded t \<and>
           (\<forall>m. n = Some m \<longrightarrow> (case waiting m of None \<Rightarrow> 0 | Some w \<Rightarrow> wait_deadline w)
                  < wait_deadline (the (waiting t)))
        then Some t else n)"
  by (auto simp: open_park_def split: option.splits)

declare repoint_loop.simps(2) [simp del]

lemma repoint_loop_result:
  assumes "\<forall>m. n = Some m \<longrightarrow> open_park isEnded m"
  shows "case repoint_loop isEnded ts n of
      None \<Rightarrow> n = None \<and> (\<forall>t \<in> set ts. \<not> open_park isEnded t)
    | Some m \<Rightarrow> open_park isEnded m \<and> (m \<in> set ts \<or> n = Some m) \<and>
        (\<forall>t \<in> set ts \<union> set_option n. open_park isEnded t \<longrightarrow>
           wait_deadline (the (waiting t)) \<le> wait_deadline (the (waiting m)))"
  using assms
proof (induction ts arbitrary: n)
  case Nil
  then show ?case by (cases n) auto
next
  case (Cons t ts)
  define n' where "n' = (if open_park isEnded t \<and>
           (\<forall>m. n = Some m \<longrightarrow> (case waiting m of None \<Rightarrow> 0 | Some w \<Rightarrow> wait_deadline w)
                  < wait_deadline (the (waiting t)))
        then Some t else n)"
  have loop: "repoint_loop isEnded (t # ts) n = repoint_loop isEnded ts n'"
    by (simp only: repoint_loop_Cons n'_def)
  have n': "\<forall>m. n' = Some m \<longrightarrow> open_park isEnded m" and n'_in: "n' = Some t \<or> n' = n"
    and n'_none: "n' = None \<Longrightarrow> n = None \<and> \<not> open_park isEnded t"
    using Cons.prems by (auto simp: n'_def split: if_splits)
  have bound: "\<exists>v. n' = Some v \<and> wait_deadline (the (waiting u)) \<le> wait_deadline (the (waiting v))"
    if "u = t \<or> n = Some u" and "open_park isEnded u" for u
    using that Cons.prems
    by (auto simp: n'_def open_park_def parked_def split: option.splits) (metis less_imp_le)
  show ?case
  proof (cases "repoint_loop isEnded ts n'")
    case None
    then show ?thesis using Cons.IH [OF n'] n'_none unfolding loop by auto
  next
    case (Some m)
    then have m: "open_park isEnded m" "m \<in> set ts \<or> n' = Some m"
      "\<And>u. u \<in> set ts \<Longrightarrow> open_park isEnded u \<Longrightarrow>
        wait_deadline (the (waiting u)) \<le> wait_deadline (the (waiting m))"
      "\<And>u. n' = Some u \<Longrightarrow> wait_deadline (the (waiting u)) \<le> wait_deadline (the (waiting m))"
      using Cons.IH [OF n'] n' by auto
    have "wait_deadline (the (waiting u)) \<le> wait_deadline (the (waiting m))"
      if "u = t \<or> n = Some u" and "open_park isEnded u" for u
      using bound [OF that] m(4) by fastforce
    then show ?thesis using Some m(1,2,3) n'_in unfolding loop by auto
  qed
qed

text \<open>
  A slot whose park has ended points afterwards at a task that is still parked, and at the one
  with the latest deadline; it is empty only when no task is parked any more. A slot of another
  park stays.
\<close>

theorem repoint_latest_park:
  "case repointWaitState tasks (Some c) isEnded of
     None \<Rightarrow> isEnded (ws_taskId c) (ws_questionId c) \<and> (\<forall>t \<in> set tasks. \<not> open_park isEnded t)
   | Some s \<Rightarrow>
       if isEnded (ws_taskId c) (ws_questionId c)
       then \<exists>t \<in> set tasks. open_park isEnded t \<and> s = slot_of t (the (waiting t)) \<and>
              (\<forall>u \<in> set tasks. open_park isEnded u \<longrightarrow>
                 wait_deadline (the (waiting u)) \<le> wait_deadline (the (waiting t)))
       else s = c"
  using repoint_loop_result [of None isEnded tasks]
  by (auto simp: repointWaitState_def open_park_def parked_def split: option.splits)

definition parked_sample :: "string \<Rightarrow> string \<Rightarrow> int \<Rightarrow> int \<Rightarrow> team_task" where
  "parked_sample i q asked deadline =
     (blank_task i)\<lparr>status := Waiting,
        waiting := Some \<lparr> questionId = q, wait_askedAt = Stamp ''t'' (Some asked),
                          wait_deadline = deadline \<rparr>\<rparr>"

lemma repoint_latest_park_witness:
  "map_option ws_taskId
     (repointWaitState [parked_sample ''a'' ''qa'' 0 500, parked_sample ''b'' ''qb'' 0 900,
        parked_sample ''c'' ''qc'' 0 700]
        (Some (slot_of (parked_sample ''a'' ''qa'' 0 500) (the (waiting (parked_sample ''a'' ''qa'' 0 500)))))
        (\<lambda>i q. i = ''a'')) = Some ''b''"
proof -
  let ?ts = "[parked_sample ''a'' ''qa'' 0 500, parked_sample ''b'' ''qb'' 0 900,
        parked_sample ''c'' ''qc'' 0 700]"
  let ?c = "slot_of (parked_sample ''a'' ''qa'' 0 500) (the (waiting (parked_sample ''a'' ''qa'' 0 500)))"
  from repoint_latest_park [where tasks = ?ts and c = ?c and isEnded = "\<lambda>i q. i = ''a''"] show ?thesis
    by (auto simp: parked_sample_def open_park_def parked_def slot_of_def split: option.splits)
qed

lemma pending_slot:
  assumes "rm_waitState m = Some (slot_of t w)" and "stamp_text (wait_askedAt w) \<noteq> []"
    and "stamp_ms (wait_askedAt w) = Some a" and "now - a \<le> WAITING_TTL_MS"
  shows "isWaitAnswerPending m now \<longleftrightarrow> now \<le> wait_deadline w + PARKED_ASK_GRACE_MS"
  using assms
  by (simp add: isWaitAnswerPending_def slot_of_def flip: of_int_add)

text \<open>
  Ending one park never takes the protection of another one away: after the slot is
  repointed the run still counts as waiting for an answer until an hour after the deadline of every
  park that is left, when their times are readable and not older than a day.
\<close>

theorem repoint_keeps_shield:
  assumes "isEnded (ws_taskId c) (ws_questionId c)"
    and "t \<in> set tasks" and "open_park isEnded t"
    and "now \<le> wait_deadline (the (waiting t)) + PARKED_ASK_GRACE_MS"
    and "\<forall>u \<in> set tasks. open_park isEnded u \<longrightarrow>
           stamp_text (wait_askedAt (the (waiting u))) \<noteq> [] \<and>
           (\<exists>a. stamp_ms (wait_askedAt (the (waiting u))) = Some a \<and> now - a \<le> WAITING_TTL_MS)"
  shows "isWaitAnswerPending (m\<lparr>rm_waitState := repointWaitState tasks (Some c) isEnded\<rparr>) now"
proof -
  have "repoint_loop isEnded tasks None \<noteq> None"
    using repoint_loop_result [of None isEnded tasks] assms(2,3) by (auto split: option.splits)
  then obtain n where n: "repoint_loop isEnded tasks None = Some n" by auto
  then have best: "n \<in> set tasks" "open_park isEnded n"
    "wait_deadline (the (waiting t)) \<le> wait_deadline (the (waiting n))"
    using repoint_loop_result [of None isEnded tasks] assms(2,3) by auto
  then obtain w where w: "waiting n = Some w" by (auto simp: open_park_def parked_def)
  obtain a where "stamp_text (wait_askedAt w) \<noteq> []" "stamp_ms (wait_askedAt w) = Some a"
    "now - a \<le> WAITING_TTL_MS"
    using assms(5) best(1,2) w by fastforce
  then show ?thesis
    using n w assms(1,4) best(3)
    by (subst pending_slot [where t = n and w = w]) (auto simp: repointWaitState_def)
qed

lemma repoint_keeps_shield_witness:
  "isWaitAnswerPending
     ((sample_manifest RRunning)\<lparr>rm_waitState :=
        repointWaitState [parked_sample ''a'' ''qa'' 0 500, parked_sample ''b'' ''qb'' 0 900]
          (Some (slot_of (parked_sample ''b'' ''qb'' 0 900)
             (the (waiting (parked_sample ''b'' ''qb'' 0 900)))))
          (\<lambda>i q. i = ''b'')\<rparr>) 400"
  by (rule repoint_keeps_shield [where t = "parked_sample ''a'' ''qa'' 0 500"])
    (auto simp: slot_of_def parked_sample_def open_park_def parked_def WAITING_TTL_MS_def
      PARKED_ASK_GRACE_MS_def)

subsection \<open>What a sweep does\<close>

definition dead_park :: "(string \<Rightarrow> string option) \<Rightarrow> int \<Rightarrow> team_task \<Rightarrow> bool" where
  "dead_park handle now t \<longleftrightarrow> ask_expired now t \<and> \<not> isWaitingWorkerAlive handle t now"

definition swept :: "(string \<Rightarrow> string option) \<Rightarrow> int \<Rightarrow> team_task \<Rightarrow> team_task" where
  "swept handle now t =
     (if dead_park handle now t
      then requeue_park (renderAskTimedoutInjection (questionId (the (waiting t)))) t else t)"

lemma task_id_swept [simp]: "task_id (swept handle now t) = task_id t"
  by (simp add: swept_def requeue_park_def)

lemma map_update_at:
  assumes "distinct (map task_id (ps @ t # qs))"
  shows "map (\<lambda>u. if task_id u = task_id t then f u else u) (map (swept h n) ps @ t # qs) =
    map (swept h n) ps @ f t # qs"
  using assms by (auto simp: image_iff intro!: map_idI)

lemma sweep_step_tasks:
  assumes "distinct (map task_id (ps @ t # qs))" and "sw_tasks s = map (swept h n) ps @ t # qs"
  shows "sw_tasks (sweep_step h n s t) = map (swept h n) (ps @ [t]) @ qs \<and>
    sw_requeued (sweep_step h n s t) = sw_requeued s @ (if dead_park h n t then [task_id t] else [])"
  using assms(2) map_update_at [OF assms(1), of _ h n]
  by (simp add: sweep_step_def Let_def swept_def dead_park_def)

lemma sweep_foldl:
  assumes "distinct (map task_id (ps @ qs))" and "sw_tasks s = map (swept h n) ps @ qs"
  shows "sw_tasks (foldl (sweep_step h n) s qs) = map (swept h n) (ps @ qs) \<and>
    sw_requeued (foldl (sweep_step h n) s qs) =
      sw_requeued s @ map task_id (filter (dead_park h n) qs)"
  using assms
proof (induction qs arbitrary: ps s)
  case Nil
  then show ?case by simp
next
  case (Cons t qs)
  from sweep_step_tasks [OF Cons.prems]
  have t: "sw_tasks (sweep_step h n s t) = map (swept h n) (ps @ [t]) @ qs"
    "sw_requeued (sweep_step h n s t) = sw_requeued s @ (if dead_park h n t then [task_id t] else [])"
    by simp_all
  show ?case using Cons.IH [OF _ t(1)] Cons.prems(1) t(2) by simp
qed

lemma sweep_all_tasks:
  assumes "distinct (map task_id tasks)"
  shows "sw_tasks (sweep_all h n emitted tasks) = map (swept h n) tasks"
    and "sw_requeued (sweep_all h n emitted tasks) = map task_id (filter (dead_park h n) tasks)"
  using sweep_foldl [of "[]" tasks _ h n] assms by (simp_all add: sweep_all_def)

lemma dead_park_expired: "list_ex (dead_park h n) ts \<Longrightarrow> list_ex (ask_expired n) ts"
  by (auto simp: list_ex_iff dead_park_def)

text \<open>
  A sweep requeues exactly the parked tasks whose deadline has passed and whose worker is not
  alive, whatever questions it has announced before, and leaves every other task as it is.
\<close>

theorem sweep_requeues_dead_parks:
  assumes "distinct (map task_id tasks)"
    and "sweepExpiredWaitingTasks h now stamp emitted hint initial (Some (m, tasks)) = Inr (Some r)"
  shows "sr_tasks r = map (swept h now) tasks \<and>
    sw_requeued (sr_state r) = map task_id (filter (dead_park h now) tasks)"
proof -
  let ?s = "sweep_all h now emitted tasks"
  have s: "sw_tasks ?s = map (swept h now) tasks"
    "sw_requeued ?s = map task_id (filter (dead_park h now) tasks)"
    by (rule sweep_all_tasks [OF assms(1)])+
  have "sw_requeued ?s = [] \<Longrightarrow> map (swept h now) tasks = tasks"
    by (auto simp: s filter_empty_conv swept_def intro!: map_idI)
  then show ?thesis
    using assms(2) s
    by (auto simp: sweepExpiredWaitingTasks_def Let_def split: if_splits option.splits sum.splits)
qed

lemma revive_refused:
  assumes "rm_status d = rm_status m" and "rm_status m \<in> {RBlocked, RCompleted, RFailed, RCancelled}"
  shows "\<exists>u. updateRunStatus (Some d) m RRunning msg False now = Inr u \<and>
    rm_status (su_returned u) = (if rm_status m = RBlocked then RRunning else rm_status m)"
  using assms
  by (auto simp: updateRunStatus_def saveRunManifest_def preserveDiskTerminalStatus_def Let_def
      DISK_TERMINAL_STATUSES_def canTransitionRunStatus_def)

lemma saved_status_same:
  "rm_status m' = rm_status m \<Longrightarrow> rm_status (saveRunManifest (Some m) m' x) = rm_status m"
  by (auto simp: saveRunManifest_def preserveDiskTerminalStatus_def)

lemma sweep_manifest_status:
  "\<exists>m'. sweep_manifest m tasks req now = Inr m' \<and>
     rm_status m' = (if rm_status m = RBlocked then RRunning else rm_status m)"
proof -
  define rp where "rp = (case rm_waitState m of None \<Rightarrow> False | Some w \<Rightarrow> ws_taskId w \<in> set req)"
  define m1 where "m1 = (if rp then m\<lparr>rm_waitState := repointWaitState tasks (rm_waitState m)
      (\<lambda>i q. i \<in> set req), rm_updatedAt := now\<rparr> else m)"
  define d1 where "d1 = (if rp then saveRunManifest (Some m) m1 False else m)"
  define msg where
    "msg = Some (''Requeued '' @ show_nat (length req) @ '' waiting task(s) after ask timeout.'')"
  have st: "rm_status m1 = rm_status m" by (simp add: m1_def)
  then have "rm_status d1 = rm_status m1" by (simp add: d1_def saved_status_same)
  note r = revive_refused [OF this, of msg now]
  have "sweep_manifest m tasks req now =
    (if rm_status m1 \<in> {RBlocked, RCompleted, RFailed, RCancelled}
     then (case updateRunStatus (Some d1) m1 RRunning msg False now of
         Inl e \<Rightarrow> Inl e | Inr u \<Rightarrow> Inr (su_returned u))
     else Inr m1)"
    unfolding sweep_manifest_def Let_def m1_def d1_def rp_def msg_def by (rule refl)
  with r st show ?thesis
    by (cases "rm_status m1 \<in> {RBlocked, RCompleted, RFailed, RCancelled}") auto
qed

text \<open>
  The sweep that requeues a task never fails, and sets a blocked run back to running; a
  completed, failed or cancelled run keeps its status although the code asks for running: the
  guarded write refuses it, and the requeued task belongs to a run that has ended.
\<close>

theorem sweep_cannot_revive_run:
  "case sweepExpiredWaitingTasks h now stamp emitted hint initial (Some (m, tasks)) of
     Inl _ \<Rightarrow> False
   | Inr None \<Rightarrow> True
   | Inr (Some r) \<Rightarrow>
       rm_status (sr_manifest r) =
         (if sw_requeued (sr_state r) \<noteq> [] \<and> rm_status m = RBlocked then RRunning else rm_status m)"
proof -
  let ?s = "sweep_all h now emitted tasks"
  obtain m' where m': "sweep_manifest m (sw_tasks ?s) (sw_requeued ?s) stamp = Inr m'"
    "rm_status m' = (if rm_status m = RBlocked then RRunning else rm_status m)"
    using sweep_manifest_status by blast
  then show ?thesis
    by (simp add: sweepExpiredWaitingTasks_def Let_def split: option.split)
qed

lemma sweep_cannot_revive_run_witness:
  "case sweepExpiredWaitingTasks (\<lambda>i. None) 1000 (Stamp ''u'' (Some 1000)) [] None
      (Some [parked_sample ''a'' ''qa'' 0 500])
      (Some (sample_manifest RFailed, [parked_sample ''a'' ''qa'' 0 500])) of
     Inr (Some r) \<Rightarrow> rm_status (sr_manifest r) = RFailed | _ \<Rightarrow> False"
proof -
  have e: "ask_expired 1000 (parked_sample ''a'' ''qa'' 0 500)"
    by (simp add: ask_expired_def parked_sample_def)
  have "sweepExpiredWaitingTasks (\<lambda>i. None) 1000 (Stamp ''u'' (Some 1000)) [] None
      (Some [parked_sample ''a'' ''qa'' 0 500])
      (Some (sample_manifest RFailed, [parked_sample ''a'' ''qa'' 0 500])) \<noteq> Inr None"
    using e by (auto simp: sweepExpiredWaitingTasks_def Let_def split: sum.splits)
  then show ?thesis
    using sweep_cannot_revive_run [where h = "\<lambda>i. None" and now = 1000
        and stamp = "Stamp ''u'' (Some 1000)" and emitted = "[]" and hint = None
        and initial = "Some [parked_sample ''a'' ''qa'' 0 500]" and m = "sample_manifest RFailed"
        and tasks = "[parked_sample ''a'' ''qa'' 0 500]"]
    by (auto split: sum.splits option.splits)
qed

lemma sweep_requeues_dead_parks_witness:
  "sweepExpiredWaitingTasks (\<lambda>i. None) 1000 (Stamp ''u'' (Some 1000)) [''qa''] None
      (Some [parked_sample ''a'' ''qa'' 0 500])
      (Some (sample_manifest RRunning, [parked_sample ''a'' ''qa'' 0 500, blank_task ''b''])) =
    Inr (Some \<lparr> sr_manifest = sample_manifest RRunning,
                sr_tasks = [requeue_park (renderAskTimedoutInjection ''qa'')
                              (parked_sample ''a'' ''qa'' 0 500), blank_task ''b''],
                sr_state = sweep_all (\<lambda>i. None) 1000 [''qa'']
                  [parked_sample ''a'' ''qa'' 0 500, blank_task ''b''] \<rparr>)"
proof -
  let ?ts = "[parked_sample ''a'' ''qa'' 0 500, blank_task ''b'']"
  have e: "ask_expired 1000 (parked_sample ''a'' ''qa'' 0 500)"
    "dead_park (\<lambda>i. None) 1000 (parked_sample ''a'' ''qa'' 0 500)"
    "\<not> dead_park (\<lambda>i. None) 1000 (blank_task ''b'')"
    by (simp_all add: ask_expired_def parked_sample_def dead_park_def isWaitingWorkerAlive_def
        classifyHeartbeat_def)
  have d: "distinct (map task_id ?ts)" by (simp add: parked_sample_def)
  have i: "task_id (parked_sample ''a'' ''qa'' 0 500) = ''a''"
    "waiting (parked_sample ''a'' ''qa'' 0 500) =
      Some \<lparr> questionId = ''qa'', wait_askedAt = Stamp ''t'' (Some 0), wait_deadline = 500 \<rparr>"
    by (simp_all add: parked_sample_def)
  obtain r where r: "sweepExpiredWaitingTasks (\<lambda>i. None) 1000 (Stamp ''u'' (Some 1000)) [''qa''] None
      (Some [parked_sample ''a'' ''qa'' 0 500]) (Some (sample_manifest RRunning, ?ts)) = Inr (Some r)"
    "sr_manifest r = sample_manifest RRunning" "sr_state r = sweep_all (\<lambda>i. None) 1000 [''qa''] ?ts"
    using e sweep_all_tasks(2) [OF d, of "\<lambda>i. None" 1000]
    by (simp add: sweepExpiredWaitingTasks_def sweep_manifest_def Let_def)
  from sweep_requeues_dead_parks [OF d r(1)] e i
  have "sr_tasks r = [requeue_park (renderAskTimedoutInjection ''qa'')
      (parked_sample ''a'' ''qa'' 0 500), blank_task ''b'']"
    by (simp add: swept_def)
  then show ?thesis using r by (cases r) simp
qed

subsection \<open>Announcing a timeout once\<close>

definition alive_questions :: "timeout_event list \<Rightarrow> string list" where
  "alive_questions es = map te_questionId (filter te_workerAlive es)"

lemma alive_questions_simps [simp]:
  "alive_questions [] = []"
  "alive_questions (es @ fs) = alive_questions es @ alive_questions fs"
  "alive_questions (e # es) = (if te_workerAlive e then te_questionId e # alive_questions es
     else alive_questions es)"
  by (simp_all add: alive_questions_def)

definition announced_once :: "string list \<Rightarrow> timeout_event list \<Rightarrow> nat \<Rightarrow> bool" where
  "announced_once emitted es n \<longleftrightarrow>
     distinct (alive_questions es) \<and> set (alive_questions es) \<subseteq> set emitted \<and> length emitted \<le> n"

lemma remember_emitted_below:
  "length emitted < MAX_EMITTED_ASK_TIMEDOUT \<Longrightarrow>
   set (remember_emitted q emitted) = insert q (set emitted) \<and>
   length (remember_emitted q emitted) \<le> Suc (length emitted)"
  by (simp add: remember_emitted_def js_set_add_def insert_absorb)

lemma sweep_step_once:
  assumes "announced_once (sw_emitted s) (past @ sw_events s) n" and "n < MAX_EMITTED_ASK_TIMEDOUT"
  shows "announced_once (sw_emitted (sweep_step h now s t)) (past @ sw_events (sweep_step h now s t))
    (Suc n)"
proof -
  have "length (sw_emitted s) < MAX_EMITTED_ASK_TIMEDOUT" using assms by (simp add: announced_once_def)
  note r = remember_emitted_below [OF this]
  show ?thesis
    using assms(1) r [of "questionId (the (waiting t))"]
    by (auto simp: sweep_step_def Let_def announced_once_def)
qed

lemma sweep_foldl_once:
  assumes "announced_once (sw_emitted s) (past @ sw_events s) n"
    and "n + length ts \<le> MAX_EMITTED_ASK_TIMEDOUT"
  shows "announced_once (sw_emitted (foldl (sweep_step h now) s ts))
    (past @ sw_events (foldl (sweep_step h now) s ts)) (n + length ts)"
  using assms
proof (induction ts arbitrary: s n)
  case (Cons t ts)
  have "announced_once (sw_emitted (sweep_step h now s t)) (past @ sw_events (sweep_step h now s t))
      (Suc n)"
    by (rule sweep_step_once) (use Cons.prems in auto)
  from Cons.IH [OF this] Cons.prems show ?case by simp
qed simp

text \<open>The sweeps of one process, each at its time and over the tasks and handles that it finds.\<close>

fun sweep_history ::
    "((string \<Rightarrow> string option) \<times> int \<times> team_task list) list \<Rightarrow> string list \<Rightarrow>
     timeout_event list \<Rightarrow> timeout_event list" where
  "sweep_history [] emitted past = past"
| "sweep_history ((h, now, tasks) # sweeps) emitted past =
     (let s = sweep_all h now emitted tasks
      in sweep_history sweeps (sw_emitted s) (past @ sw_events s))"

lemma sweep_history_once:
  assumes "announced_once emitted past n"
    and "n + (\<Sum>(h, now, tasks)\<leftarrow>sweeps. length tasks) \<le> MAX_EMITTED_ASK_TIMEDOUT"
  shows "distinct (alive_questions (sweep_history sweeps emitted past))"
  using assms
proof (induction sweeps arbitrary: emitted past n)
  case Nil
  then show ?case by (simp add: announced_once_def)
next
  case (Cons x sweeps)
  obtain h now tasks where x: "x = (h, now, tasks)" by (cases x) auto
  let ?s = "sweep_all h now emitted tasks"
  have "announced_once (sw_emitted ?s) (past @ sw_events ?s) (n + length tasks)"
    unfolding sweep_all_def by (rule sweep_foldl_once) (use Cons.prems x in auto)
  from Cons.IH [OF this] Cons.prems(2) show ?case by (simp add: x Let_def)
qed

text \<open>
  However often a process sweeps, at whatever times, it announces the timeout of a question
  whose worker is alive at most once, until the memory of 10,000 questions can be full.
\<close>

theorem alive_timeout_announced_once:
  assumes "(\<Sum>(h, now, tasks)\<leftarrow>sweeps. length tasks) \<le> MAX_EMITTED_ASK_TIMEDOUT"
  shows "distinct (alive_questions (sweep_history sweeps [] []))"
  by (rule sweep_history_once [where n = 0]) (use assms in \<open>auto simp: announced_once_def\<close>)

lemma alive_timeout_announced_once_witness:
  "alive_questions (sweep_history
     [(\<lambda>i. Some ''waiting'', 1000, [parked_sample ''a'' ''qa'' 0 500]),
      (\<lambda>i. Some ''waiting'', 2000, [parked_sample ''a'' ''qa'' 0 500])] [] []) = [''qa''] \<and>
   distinct (alive_questions (sweep_history
     [(\<lambda>i. Some ''waiting'', 1000, [parked_sample ''a'' ''qa'' 0 500]),
      (\<lambda>i. Some ''waiting'', 2000, [parked_sample ''a'' ''qa'' 0 500])] [] []))"
proof
  show "distinct (alive_questions (sweep_history
     [(\<lambda>i. Some ''waiting'', 1000, [parked_sample ''a'' ''qa'' 0 500]),
      (\<lambda>i. Some ''waiting'', 2000, [parked_sample ''a'' ''qa'' 0 500])] [] []))"
    by (rule alive_timeout_announced_once) (simp add: MAX_EMITTED_ASK_TIMEDOUT_def)
qed (simp add: sweep_all_def sweep_step_def ask_expired_def parked_sample_def isWaitingWorkerAlive_def
    remember_emitted_def js_set_add_def MAX_EMITTED_ASK_TIMEDOUT_def Let_def)

subsection \<open>What resolving a park does\<close>

text \<open>
  Resolving a park succeeds exactly for a task that is parked on that very question. It then
  sets this task running without its park, leaves the other tasks as they are, and never clears the
  slot of another park.
\<close>

theorem resolve_park_exact:
  assumes "distinct (map task_id ts)"
  shows "case resolve_park (Some (m, ts)) i q now of
     Inl _ \<Rightarrow> \<not> (\<exists>t \<in> set ts. task_id t = i \<and> status t = Waiting \<and>
                      map_option questionId (waiting t) = Some q)
   | Inr (m', ts', _) \<Rightarrow>
       (\<exists>t \<in> set ts. task_id t = i \<and> status t = Waiting \<and> map_option questionId (waiting t) = Some q) \<and>
       ts' = map (\<lambda>t. if task_id t = i then t\<lparr>status := Running, waiting := None\<rparr> else t) ts \<and>
       (\<forall>w. rm_waitState m = Some w \<longrightarrow> (ws_taskId w, ws_questionId w) \<noteq> (i, q) \<longrightarrow>
            rm_waitState m' = Some w)"
proof (cases "find (\<lambda>t. task_id t = i) ts")
  case None
  moreover from None have "\<forall>t \<in> set ts. task_id t \<noteq> i" by (simp add: find_None_iff)
  ultimately show ?thesis by (auto simp: resolve_park_def)
next
  case (Some t)
  then have t: "t \<in> set ts" "task_id t = i" by (auto simp: find_Some_iff)
  have "u = t" if "u \<in> set ts" "task_id u = i" for u
    using assms that t by (simp add: distinct_map inj_on_def)
  then have uniq: "(\<exists>u \<in> set ts. task_id u = i \<and> P u) \<longleftrightarrow> P t" for P
    using t by blast
  show ?thesis unfolding uniq
    using Some by (auto simp: resolve_park_def repointWaitState_def)
qed

lemma resolve_park_exact_witness:
  "case resolve_park (Some (sample_manifest RRunning, [parked_sample ''a'' ''qa'' 0 500])) ''a'' ''qb''
      (Stamp ''u'' (Some 1)) of Inl _ \<Rightarrow> True | Inr _ \<Rightarrow> False"
  using resolve_park_exact [where ts = "[parked_sample ''a'' ''qa'' 0 500]" and i = "''a''"
      and q = "''qb''" and m = "sample_manifest RRunning" and now = "Stamp ''u'' (Some 1)"]
  by (auto simp: parked_sample_def split: sum.splits)

end
