(* ===== verification/PolicyEngine.thy ===== *)
theory PolicyEngine
  imports TaskModel Heartbeats
begin

text \<open>
  Green contracts (\<open>src/src/runtime/verification/green-contract.ts\<close>) and the decisions over the
  tasks of a run (\<open>evaluateCrewPolicy\<close> of \<open>src/src/runtime/policy-engine.ts\<close>). A message
  is the data that its text prints; the creation time of a decision is left out.
\<close>

subsection \<open>Green contracts\<close>

fun GREEN_ORDER :: "green_level \<Rightarrow> nat" where
  "GREEN_ORDER GNone = 0"
| "GREEN_ORDER GTargeted = 1"
| "GREEN_ORDER GPackage = 2"
| "GREEN_ORDER GWorkspace = 3"
| "GREEN_ORDER GMergeReady = 4"

lemma GREEN_ORDER_inj: "GREEN_ORDER a = GREEN_ORDER b \<longleftrightarrow> a = b"
  by (cases a; cases b) simp_all

instantiation green_level :: linorder
begin

definition less_eq_green_level :: "green_level \<Rightarrow> green_level \<Rightarrow> bool" where
  "a \<le> b \<longleftrightarrow> GREEN_ORDER a \<le> GREEN_ORDER b"

definition less_green_level :: "green_level \<Rightarrow> green_level \<Rightarrow> bool" where
  "a < b \<longleftrightarrow> GREEN_ORDER a < GREEN_ORDER b"

instance
  by standard (auto simp: less_eq_green_level_def less_green_level_def GREEN_ORDER_inj)

end

definition greenLevelSatisfies :: "green_level \<Rightarrow> green_level \<Rightarrow> bool" where
  "greenLevelSatisfies observed required \<longleftrightarrow> GREEN_ORDER required \<le> GREEN_ORDER observed"

lemma greenLevelSatisfies_le: "greenLevelSatisfies observed required \<longleftrightarrow> required \<le> observed"
  by (simp add: greenLevelSatisfies_def less_eq_green_level_def)

record green_outcome =
  go_required :: green_level
  go_observed :: green_level
  go_satisfied :: bool

definition evaluateGreenContract ::
    "verification_contract \<Rightarrow> verification_evidence option \<Rightarrow> green_outcome" where
  "evaluateGreenContract contract evidence =
     (let observed = nullish (map_option ev_observedGreenLevel evidence) GNone
      in \<lparr> go_required = requiredGreenLevel contract, go_observed = observed,
           go_satisfied = greenLevelSatisfies observed (requiredGreenLevel contract) \<rparr>)"

definition inferGreenLevelFromTask :: "bool \<Rightarrow> verification_contract \<Rightarrow> green_level" where
  "inferGreenLevelFromTask success contract =
     (if \<not> success then GNone
      else if requiredGreenLevel contract = GNone then GNone
      else if allowManualEvidence contract then requiredGreenLevel contract else GTargeted)"

definition isDecorativeVerification :: "verification_contract \<Rightarrow> bool" where
  "isDecorativeVerification contract \<longleftrightarrow>
     requiredGreenLevel contract \<noteq> GNone \<and> length (contract_commands contract) = 0"

definition createVerificationEvidence ::
    "verification_contract \<Rightarrow> bool \<Rightarrow> string \<Rightarrow> verification_evidence" where
  "createVerificationEvidence contract success notes =
     (let observed = inferGreenLevelFromTask success contract;
          outcome = evaluateGreenContract contract
            (Some \<lparr> ev_requiredGreenLevel = requiredGreenLevel contract,
                    ev_observedGreenLevel = observed, ev_satisfied = False, ev_commands = [],
                    ev_notes = Some notes, ev_decorative = None \<rparr>)
      in \<lparr> ev_requiredGreenLevel = requiredGreenLevel contract, ev_observedGreenLevel = observed,
           ev_satisfied = go_satisfied outcome,
           ev_commands = map (\<lambda>cmd. (cmd, CmdNotRun)) (contract_commands contract),
           ev_notes = Some notes,
           ev_decorative = (if isDecorativeVerification contract then Some True else None) \<rparr>)"

lemma GNone_least [simp]: "GNone \<le> l"
  by (simp add: less_eq_green_level_def)

lemma green_le_none_iff [simp]: "l \<le> GNone \<longleftrightarrow> l = GNone"
  by (cases l) (simp_all add: less_eq_green_level_def)

lemma green_le_targeted_iff: "l \<le> GTargeted \<longleftrightarrow> l = GNone \<or> l = GTargeted"
  by (cases l) (simp_all add: less_eq_green_level_def)

text \<open>
  The evidence that a task produces for itself satisfies its contract exactly when nothing is
  required, or the task succeeded and either manual evidence is allowed or no more than targeted
  tests are required; and the outcome that is evaluated from this evidence later is the one
  recorded in it.
\<close>

theorem self_evidence_exact:
  "(ev_satisfied (createVerificationEvidence contract success notes) \<longleftrightarrow>
      requiredGreenLevel contract = GNone \<or>
      success \<and> (allowManualEvidence contract \<or> requiredGreenLevel contract = GTargeted)) \<and>
   go_satisfied (evaluateGreenContract contract
      (Some (createVerificationEvidence contract success notes))) =
     ev_satisfied (createVerificationEvidence contract success notes)"
  by (auto simp: createVerificationEvidence_def evaluateGreenContract_def Let_def
      greenLevelSatisfies_le inferGreenLevelFromTask_def green_le_targeted_iff)

subsection \<open>Decisions\<close>

datatype policy_action =
  ActRetry | ActReassign | ActEscalate | ActBlock | ActNotify | ActCleanup | ActCloseout | ActFail

datatype policy_reason =
    TaskFailed | WorkerStale | GreenUnsatisfied | LimitExceeded | RunComplete | MailboxTimeout
  | ReviewRejected | BranchStale | ScopeMismatch | IneffectiveWorker | TaskNeedsAttention

datatype policy_message =
    MsgTooManyTasks nat jsnum
  | MsgTooManyWorkers nat jsnum
  | MsgTooManyChildren nat jsnum
  | MsgTooDeep jsnum
  | MsgTaskFailed "string option"
  | MsgWorkerStale
  | MsgGreen green_level green_level
  | MsgNeedsAttention "string list"
  | MsgAllCompleted
  | MsgBranch string
  | MsgIneffective string "string list"

record policy_decision =
  pd_action :: policy_action
  pd_reason :: policy_reason
  pd_message :: policy_message
  pd_taskId :: "string option"

definition decision ::
    "policy_action \<Rightarrow> policy_reason \<Rightarrow> policy_message \<Rightarrow> string option \<Rightarrow> policy_decision" where
  "decision a r msg i = \<lparr> pd_action = a, pd_reason = r, pd_message = msg, pd_taskId = i \<rparr>"

lemma decision_simps [simp]:
  "pd_action (decision a r msg i) = a"
  "pd_reason (decision a r msg i) = r"
  "pd_message (decision a r msg i) = msg"
  "pd_taskId (decision a r msg i) = i"
  by (simp_all add: decision_def)

record crew_limits =
  lim_maxConcurrentWorkers :: "jsnum option"
  lim_maxTaskDepth :: "jsnum option"
  lim_maxChildrenPerTask :: "jsnum option"
  lim_maxRetriesPerTask :: "jsnum option"
  lim_maxTasksPerRun :: "jsnum option"
  lim_heartbeatStaleMs :: "jsnum option"

definition no_limits :: crew_limits where
  "no_limits =
     \<lparr> lim_maxConcurrentWorkers = None, lim_maxTaskDepth = None, lim_maxChildrenPerTask = None,
       lim_maxRetriesPerTask = None, lim_maxTasksPerRun = None, lim_heartbeatStaleMs = None \<rparr>"

definition finite_limit :: "jsnum option \<Rightarrow> jsnum option" where
  "finite_limit l = (case l of Some (Fin x) \<Rightarrow> Some (Fin x) | _ \<Rightarrow> None)"

definition exceeds :: "nat \<Rightarrow> jsnum option \<Rightarrow> bool" where
  "exceeds n l \<longleftrightarrow> (case l of None \<Rightarrow> False | Some x \<Rightarrow> js_less x (Fin (of_nat n)))"

subsection \<open>Depth in the task graph\<close>

definition parent_of :: "team_task list \<Rightarrow> string \<Rightarrow> string option" where
  "parent_of tasks i =
     (case index_by task_id tasks i of
        None \<Rightarrow> None
      | Some t \<Rightarrow> (case graph t of None \<Rightarrow> None | Some g \<Rightarrow> g_parentId g))"

definition parent_ids :: "team_task list \<Rightarrow> string set" where
  "parent_ids tasks = {p. \<exists>t \<in> set tasks. \<exists>g. graph t = Some g \<and> g_parentId g = Some p}"

lemma finite_parent_ids: "finite (parent_ids tasks)"
proof -
  have "parent_ids tasks \<subseteq> (\<lambda>t. the (g_parentId (the (graph t)))) ` set tasks"
    by (force simp: parent_ids_def)
  then show ?thesis by (rule finite_subset) simp
qed

lemma parent_of_in: "parent_of tasks i = Some p \<Longrightarrow> p \<in> parent_ids tasks"
  by (auto simp: parent_of_def parent_ids_def dest!: index_by_SomeD split: option.splits)

text \<open>The empty id ends the loop as a missing one does: it is not truthy.\<close>

function depth_loop :: "team_task list \<Rightarrow> string option \<Rightarrow> string list \<Rightarrow> nat \<Rightarrow> nat" where
  "depth_loop tasks current seen depth =
     (case current of
        None \<Rightarrow> depth
      | Some c \<Rightarrow>
          if c = [] \<or> c \<in> set seen then depth
          else depth_loop tasks (parent_of tasks c) (js_set_add c seen) (depth + 1))"
  by pat_completeness auto

termination
proof (relation "measure (\<lambda>(tasks, current, seen, depth).
    card (set_option current \<union> parent_ids tasks - set seen))")
  fix tasks :: "team_task list" and current seen and depth :: nat and c :: string
  assume c: "current = Some c" "\<not> (c = [] \<or> c \<in> set seen)"
  have sub: "set_option (parent_of tasks c) \<union> parent_ids tasks - set (js_set_add c seen) \<subseteq>
      set_option (Some c) \<union> parent_ids tasks - set seen - {c}"
    using parent_of_in [of tasks c] by (auto simp: set_eq_iff)
  have less: "card (set_option (Some c) \<union> parent_ids tasks - set seen - {c}) <
      card (set_option (Some c) \<union> parent_ids tasks - set seen)"
    using c by (intro card_Diff1_less) (auto simp: finite_parent_ids)
  have fin: "finite (set_option (Some c) \<union> parent_ids tasks - set seen - {c})"
    by (simp add: finite_parent_ids)
  have "card (set_option (parent_of tasks c) \<union> parent_ids tasks - set (js_set_add c seen)) <
      card (set_option (Some c) \<union> parent_ids tasks - set seen)"
    by (rule le_less_trans [OF card_mono [OF fin sub] less])
  then show "((tasks, parent_of tasks c, js_set_add c seen, depth + 1), tasks, current, seen, depth)
      \<in> measure (\<lambda>(tasks, current, seen, depth).
          card (set_option current \<union> parent_ids tasks - set seen))"
    using c by simp
qed simp

declare depth_loop.simps [simp del]

definition taskDepth :: "team_task \<Rightarrow> team_task list \<Rightarrow> nat" where
  "taskDepth t tasks =
     depth_loop tasks (case graph t of None \<Rightarrow> None | Some g \<Rightarrow> g_parentId g) [] 0"

text \<open>The ids that are met on the way up from \<open>start\<close>.\<close>

inductive on_way_up :: "team_task list \<Rightarrow> string option \<Rightarrow> string \<Rightarrow> bool" for tasks start where
  way_start: "start = Some c \<Longrightarrow> c \<noteq> [] \<Longrightarrow> on_way_up tasks start c"
| way_step: "on_way_up tasks start c \<Longrightarrow> parent_of tasks c = Some p \<Longrightarrow> p \<noteq> [] \<Longrightarrow>
    on_way_up tasks start p"

lemma way_None: "\<not> on_way_up tasks None p"
proof
  assume "on_way_up tasks None p"
  then show False by induction auto
qed

lemma way_empty: "\<not> on_way_up tasks (Some []) p"
proof
  assume "on_way_up tasks (Some []) p"
  then show False by induction auto
qed

lemma way_closed:
  assumes "on_way_up tasks (Some c) p" and "c \<in> S"
    and "\<And>x q. x \<in> S \<Longrightarrow> parent_of tasks x = Some q \<Longrightarrow> q \<noteq> [] \<Longrightarrow> q \<in> S"
  shows "p \<in> S"
  using assms by (induction) auto

lemma way_unfold:
  assumes "c \<noteq> []"
  shows "on_way_up tasks (Some c) p \<longleftrightarrow> p = c \<or> on_way_up tasks (parent_of tasks c) p"
proof
  assume "on_way_up tasks (Some c) p"
  then show "p = c \<or> on_way_up tasks (parent_of tasks c) p"
    by induction (auto intro: way_start way_step)
next
  assume "p = c \<or> on_way_up tasks (parent_of tasks c) p"
  moreover have "on_way_up tasks (parent_of tasks c) p \<Longrightarrow> on_way_up tasks (Some c) p"
    by (induction rule: on_way_up.induct) (use assms in \<open>auto intro: way_start way_step\<close>)
  ultimately show "on_way_up tasks (Some c) p" using assms by (auto intro: way_start)
qed

lemma way_in: "on_way_up tasks start p \<Longrightarrow> p \<in> set_option start \<union> parent_ids tasks"
  by (induction rule: on_way_up.induct) (auto dest: parent_of_in)

lemma finite_way: "finite {p. on_way_up tasks start p}"
  by (rule finite_subset [of _ "set_option start \<union> parent_ids tasks"])
    (auto dest: way_in simp: finite_parent_ids)

lemma depth_loop_counts:
  assumes "\<forall>x \<in> set seen. \<forall>p. parent_of tasks x = Some p \<longrightarrow> p \<noteq> [] \<longrightarrow> p \<in> set seen \<or> current = Some p"
  shows "depth_loop tasks current seen depth =
    depth + card ({p. on_way_up tasks current p} - set seen)"
  using assms
proof (induction tasks current seen depth rule: depth_loop.induct)
  case (1 tasks current seen depth)
  show ?case
  proof (cases "\<exists>c. current = Some c \<and> c \<noteq> [] \<and> c \<notin> set seen")
    case False
    then have "{p. on_way_up tasks current p} - set seen = {}"
    proof (cases current)
      case (Some c)
      with False have "c = [] \<or> c \<in> set seen" by auto
      then show ?thesis
      proof
        assume "c \<in> set seen"
        then show ?thesis using way_closed [of tasks c _ "set seen"] "1.prems" Some by blast
      qed (simp add: Some way_empty)
    qed (simp add: way_None)
    then have "card ({p. on_way_up tasks current p} - set seen) = 0" by (simp only: card.empty)
    then show ?thesis using False by (subst depth_loop.simps) (auto split: option.split)
  next
    case True
    then obtain c where c: "current = Some c" "c \<noteq> []" "c \<notin> set seen" by auto
    have "depth_loop tasks (parent_of tasks c) (js_set_add c seen) (depth + 1) =
        depth + 1 + card ({p. on_way_up tasks (parent_of tasks c) p} - set (js_set_add c seen))"
      by (rule "1.IH") (use c "1.prems" in auto)
    moreover have "{p. on_way_up tasks current p} - set seen =
        insert c ({p. on_way_up tasks (parent_of tasks c) p} - set (js_set_add c seen))"
      using c way_unfold [of c tasks] by auto
    ultimately show ?thesis
      using c finite_way [of tasks "parent_of tasks c"] by (subst depth_loop.simps) simp
  qed
qed

text \<open>
  The depth of a task is the number of its ancestors: of the distinct ids met on the way up the
  parent links, in a graph whose links run in a cycle too, where the loop ends at the first repetition.
\<close>

theorem taskDepth_counts_ancestors:
  "taskDepth t tasks =
     card {p. on_way_up tasks (case graph t of None \<Rightarrow> None | Some g \<Rightarrow> g_parentId g) p}"
  using depth_loop_counts [of "[]" tasks "case graph t of None \<Rightarrow> None | Some g \<Rightarrow> g_parentId g" 0]
  by (simp add: taskDepth_def)

subsection \<open>Evaluating a run\<close>

text \<open>The decisions about one task, in the order of the code.\<close>

definition task_decisions ::
    "team_task list \<Rightarrow> crew_limits \<Rightarrow> int \<Rightarrow> team_task \<Rightarrow> policy_decision list" where
  "task_decisions tasks lims now t =
     (let children = (case graph t of None \<Rightarrow> 0 | Some g \<Rightarrow> length (g_children g))
      in if exceeds children (lim_maxChildrenPerTask lims)
         then [decision ActBlock LimitExceeded
                 (MsgTooManyChildren children (the (lim_maxChildrenPerTask lims))) (Some (task_id t))]
         else []) @
     (if exceeds (taskDepth t tasks) (lim_maxTaskDepth lims)
      then [decision ActBlock LimitExceeded (MsgTooDeep (the (lim_maxTaskDepth lims))) (Some (task_id t))]
      else []) @
     (if status t = Failed
      then [decision
             (if js_less (Fin (of_nat (nullish (retryCount t) 0))) (nullish (lim_maxRetriesPerTask lims) (Fin 0))
              then ActRetry else ActEscalate)
             TaskFailed (MsgTaskFailed (if truthy (task_error t) then task_error t else None))
             (Some (task_id t))]
      else []) @
     (if (status t = Running \<or> status t = Queued) \<and>
         (case heartbeat t of None \<Rightarrow> False
          | Some h \<Rightarrow> hb_alive h \<noteq> Some False \<and>
              isWorkerHeartbeatStale h (nullish (lim_heartbeatStaleMs lims) (Fin 60000)) now)
      then [decision ActEscalate WorkerStale MsgWorkerStale (Some (task_id t))] else []) @
     (case packetVerification t of
        None \<Rightarrow> []
      | Some contract \<Rightarrow>
          let outcome = evaluateGreenContract contract (verification t)
          in if \<not> go_satisfied outcome \<and> status t = Completed
             then [decision ActBlock GreenUnsatisfied
                     (MsgGreen (go_required outcome) (go_observed outcome)) (Some (task_id t))]
             else [])"

definition run_limit_decisions :: "team_task list \<Rightarrow> crew_limits \<Rightarrow> policy_decision list" where
  "run_limit_decisions tasks lims =
     (let maxTasks = finite_limit (lim_maxTasksPerRun lims)
      in if exceeds (length tasks) maxTasks
         then [decision ActBlock LimitExceeded (MsgTooManyTasks (length tasks) (the maxTasks)) None]
         else []) @
     (let running = length (filter (\<lambda>t. status t = Running) tasks);
          maxWorkers = finite_limit (lim_maxConcurrentWorkers lims)
      in if exceeds running maxWorkers
         then [decision ActBlock LimitExceeded (MsgTooManyWorkers running (the maxWorkers)) None]
         else [])"

definition attention_decisions :: "team_task list \<Rightarrow> policy_decision list" where
  "attention_decisions tasks =
     (let ids = map task_id (filter (\<lambda>t. status t = NeedsAttention) tasks)
      in if 0 < length ids
         then [decision ActNotify TaskNeedsAttention (MsgNeedsAttention ids) None] else [])"

definition evaluateCrewPolicy :: "team_task list \<Rightarrow> crew_limits \<Rightarrow> int \<Rightarrow> policy_decision list" where
  "evaluateCrewPolicy tasks lims now =
     (let decisions = run_limit_decisions tasks lims @
                      concat (map (task_decisions tasks lims now) tasks) @
                      attention_decisions tasks
      in if decisions = [] \<and> 0 < length tasks \<and> list_all (\<lambda>t. status t = Completed) tasks
         then [decision ActCloseout RunComplete MsgAllCompleted None]
         else decisions)"

subsection \<open>Properties of the decisions\<close>

definition decides :: "policy_action \<Rightarrow> policy_decision list \<Rightarrow> bool" where
  "decides a ds \<longleftrightarrow> (\<exists>d \<in> set ds. pd_action d = a)"

lemma decides_simps [simp]:
  "\<not> decides a []"
  "decides a [decision b r msg i] \<longleftrightarrow> b = a"
  "decides a (xs @ ys) \<longleftrightarrow> decides a xs \<or> decides a ys"
  by (auto simp: decides_def)

lemma decides_if: "decides a (if b then xs else ys) \<longleftrightarrow> (if b then decides a xs else decides a ys)"
  by simp

lemma decides_task:
  "a \<notin> {ActBlock, ActEscalate} \<Longrightarrow>
   decides a (task_decisions tasks lims now t) \<longleftrightarrow> a = ActRetry \<and> status t = Failed \<and>
     js_less (Fin (of_nat (nullish (retryCount t) 0))) (nullish (lim_maxRetriesPerTask lims) (Fin 0))"
  unfolding task_decisions_def Let_def decides_simps decides_if
  by (auto simp: decides_if split: option.split simp del: nullish.simps split del: nullish_split)

lemma decides_run: "decides a (run_limit_decisions tasks lims) \<Longrightarrow> a = ActBlock"
  by (auto simp: run_limit_decisions_def Let_def decides_if split: if_splits)

lemma decides_attention: "decides a (attention_decisions tasks) \<Longrightarrow> a = ActNotify"
  by (auto simp: attention_decisions_def Let_def split: if_splits)

lemma decides_concat: "decides a (concat xss) \<longleftrightarrow> (\<exists>xs \<in> set xss. decides a xs)"
  by (auto simp: decides_def)

lemma no_early_closeout:
  "\<not> decides ActCloseout (run_limit_decisions tasks lims @
     concat (map (task_decisions tasks lims now) tasks) @ attention_decisions tasks)"
  by (auto simp: decides_concat decides_task dest: decides_run decides_attention)

text \<open>The limits that bind a run in which every task is completed.\<close>

definition within_limits :: "team_task list \<Rightarrow> crew_limits \<Rightarrow> bool" where
  "within_limits tasks lims \<longleftrightarrow>
     \<not> exceeds (length tasks) (finite_limit (lim_maxTasksPerRun lims)) \<and>
     \<not> exceeds 0 (finite_limit (lim_maxConcurrentWorkers lims)) \<and>
     (\<forall>t \<in> set tasks. \<not> exceeds (taskDepth t tasks) (lim_maxTaskDepth lims) \<and>
        \<not> exceeds (case graph t of None \<Rightarrow> 0 | Some g \<Rightarrow> length (g_children g))
            (lim_maxChildrenPerTask lims))"

definition green :: "team_task \<Rightarrow> bool" where
  "green t \<longleftrightarrow>
     (\<forall>c. packetVerification t = Some c \<longrightarrow>
        requiredGreenLevel c \<le> (case verification t of None \<Rightarrow> GNone | Some e \<Rightarrow> ev_observedGreenLevel e))"

lemma green_outcome: "go_satisfied (evaluateGreenContract c ev) \<longleftrightarrow>
    requiredGreenLevel c \<le> (case ev of None \<Rightarrow> GNone | Some e \<Rightarrow> ev_observedGreenLevel e)"
  by (cases ev) (simp_all add: evaluateGreenContract_def greenLevelSatisfies_le Let_def)

lemma completed_task_decisions:
  assumes "status t = Completed"
  shows "task_decisions tasks lims now t = [] \<longleftrightarrow>
    \<not> exceeds (case graph t of None \<Rightarrow> 0 | Some g \<Rightarrow> length (g_children g)) (lim_maxChildrenPerTask lims) \<and>
    \<not> exceeds (taskDepth t tasks) (lim_maxTaskDepth lims) \<and> green t"
  using assms by (auto simp: task_decisions_def Let_def green_outcome green_def split: option.splits)

lemma completed_run_decisions:
  assumes "\<forall>t \<in> set tasks. status t = Completed"
  shows "run_limit_decisions tasks lims @ concat (map (task_decisions tasks lims now) tasks) @
      attention_decisions tasks = [] \<longleftrightarrow> within_limits tasks lims \<and> (\<forall>t \<in> set tasks. green t)"
proof -
  have "filter (\<lambda>t. status t = Running) tasks = []" "filter (\<lambda>t. status t = NeedsAttention) tasks = []"
    using assms by (auto simp: filter_empty_conv)
  then have "run_limit_decisions tasks lims = [] \<longleftrightarrow>
      \<not> exceeds (length tasks) (finite_limit (lim_maxTasksPerRun lims)) \<and>
      \<not> exceeds 0 (finite_limit (lim_maxConcurrentWorkers lims))"
    and "attention_decisions tasks = []"
    by (simp_all add: run_limit_decisions_def attention_decisions_def Let_def)
  moreover have "concat (map (task_decisions tasks lims now) tasks) = [] \<longleftrightarrow>
      (\<forall>t \<in> set tasks. task_decisions tasks lims now t = [])"
    by (simp add: concat_eq_Nil_conv)
  ultimately show ?thesis
    using assms completed_task_decisions [of _ tasks lims now] by (auto simp: within_limits_def)
qed

text \<open>
  A run is closed out exactly when it has tasks, all of them are completed, every green contract is
  satisfied and no limit is exceeded; the closeout is then the only decision.
\<close>

theorem closeout_exact:
  "((\<exists>d \<in> set (evaluateCrewPolicy tasks lims now). pd_action d = ActCloseout) \<longleftrightarrow>
      tasks \<noteq> [] \<and> (\<forall>t \<in> set tasks. status t = Completed \<and> green t) \<and> within_limits tasks lims) \<and>
   ((\<exists>d \<in> set (evaluateCrewPolicy tasks lims now). pd_action d = ActCloseout) \<longleftrightarrow>
      evaluateCrewPolicy tasks lims now = [decision ActCloseout RunComplete MsgAllCompleted None])"
proof -
  let ?ds = "run_limit_decisions tasks lims @ concat (map (task_decisions tasks lims now) tasks) @
      attention_decisions tasks"
  have none: "pd_action d \<noteq> ActCloseout" if "d \<in> set ?ds" for d
    using that no_early_closeout by (auto simp: decides_def)
  show ?thesis
  proof (cases "?ds = [] \<and> tasks \<noteq> [] \<and> (\<forall>t \<in> set tasks. status t = Completed)")
    case True
    then have "evaluateCrewPolicy tasks lims now = [decision ActCloseout RunComplete MsgAllCompleted None]"
      by (simp add: evaluateCrewPolicy_def list_all_iff)
    then show ?thesis using True completed_run_decisions [of tasks lims now] by auto
  next
    case False
    then have "evaluateCrewPolicy tasks lims now = ?ds"
      by (auto simp only: evaluateCrewPolicy_def Let_def list_all_iff length_greater_0_conv if_False)
    then show ?thesis using False none completed_run_decisions [of tasks lims now]
      by (metis decision_simps(1) list.set_intros(1))
  qed
qed

definition green_sample :: "string \<Rightarrow> team_task" where
  "green_sample i =
     (blank_task i)\<lparr>status := Completed,
        packetVerification := Some \<lparr> requiredGreenLevel = GPackage, contract_commands = [],
          allowManualEvidence = False \<rparr>\<rparr>"

lemma no_limits_within: "within_limits tasks no_limits"
  by (simp add: within_limits_def no_limits_def exceeds_def finite_limit_def)

lemma closeout_exact_witness:
  "evaluateCrewPolicy [(blank_task ''a'')\<lparr>status := Completed\<rparr>] no_limits 0 =
     [decision ActCloseout RunComplete MsgAllCompleted None] \<and>
   \<not> (\<exists>d \<in> set (evaluateCrewPolicy [green_sample ''a''] no_limits 0). pd_action d = ActCloseout)"
proof
  have "green ((blank_task ''a'')\<lparr>status := Completed\<rparr>)" by (simp add: green_def)
  then show "evaluateCrewPolicy [(blank_task ''a'')\<lparr>status := Completed\<rparr>] no_limits 0 =
     [decision ActCloseout RunComplete MsgAllCompleted None]"
    using closeout_exact [of "[(blank_task ''a'')\<lparr>status := Completed\<rparr>]" no_limits 0]
      no_limits_within [of "[(blank_task ''a'')\<lparr>status := Completed\<rparr>]"]
    by auto
  have "\<not> green (green_sample ''a'')" by (simp add: green_def green_sample_def)
  then show "\<not> (\<exists>d \<in> set (evaluateCrewPolicy [green_sample ''a''] no_limits 0). pd_action d = ActCloseout)"
    using closeout_exact [of "[green_sample ''a'']" no_limits 0] by simp
qed

text \<open>
  A failed task gets exactly one decision about its failure, a retry as long as it was retried less
  often than the limit allows and an escalation afterwards; a task that has not failed gets none.
\<close>

theorem failure_decision_exact:
  "map pd_action (filter (\<lambda>d. pd_reason d = TaskFailed) (task_decisions tasks lims now t)) =
     (if status t = Failed
      then [if js_less (Fin (of_nat (nullish (retryCount t) 0)))
                 (nullish (lim_maxRetriesPerTask lims) (Fin 0))
            then ActRetry else ActEscalate]
      else [])"
  by (simp add: task_decisions_def Let_def split: option.split)

end
