(* ===== verification/RecoveryRecipes.thy ===== *)
theory RecoveryRecipes
  imports PolicyEngine
begin

text \<open>
  Recovery of failures, \<open>src/src/runtime/recovery/recovery-recipes.ts\<close>: the recipe of a
  scenario, the ledger that is built from the decisions of the policy engine, and whether a failed
  task is run again. The creation time of an entry is left out.
\<close>

subsection \<open>Scenarios and recipes\<close>

datatype failure_scenario =
    TrustPromptUnresolved | PromptMisdelivery | StaleBranch | CompileRedCrossCrate
  | McpHandshakeFailure | PartialPluginStartup | ProviderFailure | ScTaskFailed | ScWorkerStale
  | ScGreenUnsatisfied

datatype recovery_step =
    AcceptTrustPrompt | RedirectPromptToAgent | RebaseBranch | CleanBuild | RetryMcpHandshake
  | RestartPlugin | RestartWorker | RerunTask | CollectVerificationEvidence | EscalateToHuman

datatype recovery_state = RecPlanned | RecSkipped | RecEscalationRequired

datatype escalation_policy = AlertHuman | LogAndContinue | AbortRun

record recovery_recipe =
  rr_scenario :: failure_scenario
  rr_steps :: "recovery_step list"
  rr_maxAttempts :: nat
  rr_escalationPolicy :: escalation_policy

record ledger_entry =
  le_scenario :: failure_scenario
  le_taskId :: "string option"
  le_decisionReason :: policy_reason
  le_attempt :: nat
  le_state :: recovery_state
  le_steps :: "recovery_step list"
  le_message :: policy_message

fun scenarioForPolicyReason :: "policy_reason \<Rightarrow> failure_scenario" where
  "scenarioForPolicyReason BranchStale = StaleBranch"
| "scenarioForPolicyReason WorkerStale = ScWorkerStale"
| "scenarioForPolicyReason GreenUnsatisfied = ScGreenUnsatisfied"
| "scenarioForPolicyReason TaskFailed = ScTaskFailed"
| "scenarioForPolicyReason _ = ProviderFailure"

definition recipe :: "failure_scenario \<Rightarrow> recovery_step list \<Rightarrow> escalation_policy \<Rightarrow> recovery_recipe" where
  "recipe sc steps esc =
     \<lparr> rr_scenario = sc, rr_steps = steps, rr_maxAttempts = 1, rr_escalationPolicy = esc \<rparr>"

fun recipeFor :: "failure_scenario \<Rightarrow> recovery_recipe" where
  "recipeFor TrustPromptUnresolved = recipe TrustPromptUnresolved [AcceptTrustPrompt] AlertHuman"
| "recipeFor PromptMisdelivery = recipe PromptMisdelivery [RedirectPromptToAgent] AlertHuman"
| "recipeFor StaleBranch = recipe StaleBranch [RebaseBranch, CleanBuild] AlertHuman"
| "recipeFor CompileRedCrossCrate = recipe CompileRedCrossCrate [CleanBuild] AlertHuman"
| "recipeFor McpHandshakeFailure = recipe McpHandshakeFailure [RetryMcpHandshake] AbortRun"
| "recipeFor PartialPluginStartup =
     recipe PartialPluginStartup [RestartPlugin, RetryMcpHandshake] LogAndContinue"
| "recipeFor ScWorkerStale = recipe ScWorkerStale [RestartWorker] AlertHuman"
| "recipeFor ScGreenUnsatisfied = recipe ScGreenUnsatisfied [CollectVerificationEvidence] AlertHuman"
| "recipeFor ScTaskFailed = recipe ScTaskFailed [RerunTask] AlertHuman"
| "recipeFor ProviderFailure = recipe ProviderFailure [RestartWorker] AlertHuman"

lemma recipeFor_maxAttempts [simp]: "rr_maxAttempts (recipeFor sc) = 1"
  by (cases sc) (simp_all add: recipe_def)

lemma recipeFor_never_escalates: "EscalateToHuman \<notin> set (rr_steps (recipeFor sc))"
  by (cases sc) (simp_all add: recipe_def)

subsection \<open>The ledger\<close>

text \<open>The entry that is appended for a decision.\<close>

definition ledger_entry_for :: "ledger_entry list \<Rightarrow> policy_decision \<Rightarrow> ledger_entry" where
  "ledger_entry_for entries d =
     (let scenario = scenarioForPolicyReason (pd_reason d);
          rcp = recipeFor scenario;
          priorAttempts = length (filter
            (\<lambda>e. le_scenario e = scenario \<and> le_taskId e = pd_taskId d) entries);
          attempt = priorAttempts + 1
      in \<lparr> le_scenario = scenario, le_taskId = pd_taskId d, le_decisionReason = pd_reason d,
           le_attempt = attempt,
           le_state = (if attempt \<le> rr_maxAttempts rcp \<and> pd_action d \<noteq> ActBlock
                       then RecPlanned else RecEscalationRequired),
           le_steps = (if attempt \<le> rr_maxAttempts rcp then rr_steps rcp else [EscalateToHuman]),
           le_message = pd_message d \<rparr>)"

definition ledger_step :: "ledger_entry list \<Rightarrow> policy_decision \<Rightarrow> ledger_entry list" where
  "ledger_step entries d =
     (if pd_action d \<notin> {ActRetry, ActEscalate, ActBlock} then entries
      else entries @ [ledger_entry_for entries d])"

definition buildRecoveryLedger :: "policy_decision list \<Rightarrow> ledger_entry list \<Rightarrow> ledger_entry list" where
  "buildRecoveryLedger decisions previous = foldl ledger_step previous decisions"

text \<open>The entries of one scenario of one task.\<close>

definition same_case :: "failure_scenario \<Rightarrow> string option \<Rightarrow> ledger_entry \<Rightarrow> bool" where
  "same_case sc i e \<longleftrightarrow> le_scenario e = sc \<and> le_taskId e = i"

text \<open>
  A ledger is well numbered when the attempts of each case count from one, only a first attempt
  is planned, and later ones ask for a person.
\<close>

definition ledger_ok :: "ledger_entry list \<Rightarrow> bool" where
  "ledger_ok es \<longleftrightarrow>
     (\<forall>sc i. map le_attempt (filter (same_case sc i) es) = [1..<Suc (length (filter (same_case sc i) es))]) \<and>
     (\<forall>e \<in> set es. (le_state e = RecPlanned \<longrightarrow> le_attempt e = 1) \<and>
        (le_attempt e \<noteq> 1 \<longrightarrow> le_state e = RecEscalationRequired \<and> le_steps e = [EscalateToHuman]))"

lemma ledger_ok_Nil: "ledger_ok []"
  by (simp add: ledger_ok_def)

lemma ledger_entry_for_simps:
  "le_scenario (ledger_entry_for es d) = scenarioForPolicyReason (pd_reason d)"
  "le_taskId (ledger_entry_for es d) = pd_taskId d"
  "le_attempt (ledger_entry_for es d) =
     Suc (length (filter (same_case (scenarioForPolicyReason (pd_reason d)) (pd_taskId d)) es))"
  "le_state (ledger_entry_for es d) = RecPlanned \<Longrightarrow> le_attempt (ledger_entry_for es d) = 1"
  "le_attempt (ledger_entry_for es d) \<noteq> 1 \<Longrightarrow>
     le_state (ledger_entry_for es d) = RecEscalationRequired \<and>
     le_steps (ledger_entry_for es d) = [EscalateToHuman]"
  by (simp_all add: ledger_entry_for_def Let_def same_case_def [abs_def] split: if_splits)

lemma ledger_step_ok:
  assumes "ledger_ok es"
  shows "ledger_ok (ledger_step es d)"
proof -
  let ?e = "ledger_entry_for es d"
  have "map le_attempt (filter (same_case sc i) (es @ [?e])) =
      [1..<Suc (length (filter (same_case sc i) (es @ [?e])))]" for sc i
  proof (cases "same_case sc i ?e")
    case True
    then have "sc = scenarioForPolicyReason (pd_reason d)" "i = pd_taskId d"
      by (auto simp: same_case_def ledger_entry_for_simps)
    then show ?thesis using assms True ledger_entry_for_simps(3) [of es d] by (simp add: ledger_ok_def)
  next
    case False
    then show ?thesis using assms by (simp add: ledger_ok_def)
  qed
  moreover have "\<forall>e \<in> set (es @ [?e]). (le_state e = RecPlanned \<longrightarrow> le_attempt e = 1) \<and>
      (le_attempt e \<noteq> 1 \<longrightarrow> le_state e = RecEscalationRequired \<and> le_steps e = [EscalateToHuman])"
    using assms ledger_entry_for_simps(4,5) [of es d] unfolding ledger_ok_def by simp
  ultimately have "ledger_ok (es @ [?e])" unfolding ledger_ok_def by blast
  then show ?thesis using assms by (simp add: ledger_step_def)
qed

lemma buildRecoveryLedger_ok: "ledger_ok previous \<Longrightarrow> ledger_ok (buildRecoveryLedger ds previous)"
  unfolding buildRecoveryLedger_def by (induction ds arbitrary: previous) (simp_all add: ledger_step_ok)

lemma ledger_ok_one_planned:
  assumes "ledger_ok es"
  shows "length (filter (\<lambda>e. same_case sc i e \<and> le_state e = RecPlanned) es) \<le> 1"
proof -
  let ?fs = "filter (same_case sc i) es"
  have num: "map le_attempt ?fs = [1..<Suc (length ?fs)]"
    using assms unfolding ledger_ok_def by blast
  have "filter (\<lambda>e. same_case sc i e \<and> le_state e = RecPlanned) es =
      filter (\<lambda>e. le_state e = RecPlanned) ?fs" by (simp add: conj_commute)
  moreover have "length (filter (\<lambda>e. le_state e = RecPlanned) ?fs) \<le>
      length (filter (\<lambda>e. le_attempt e = 1) ?fs)"
    using assms by (auto simp: ledger_ok_def length_filter_conv_card intro!: card_mono)
  moreover have "length (filter (\<lambda>e. le_attempt e = 1) ?fs) =
      length (filter (\<lambda>n. n = 1) (map le_attempt ?fs))"
    by (simp add: filter_map comp_def)
  moreover have "length (filter (\<lambda>n. n = (1::nat)) xs) \<le> 1" if "distinct xs" for xs
    using that by (induction xs) (auto simp: filter_empty_conv)
  ultimately show ?thesis unfolding num by (metis distinct_upt le_trans num)
qed

text \<open>
  The ledger never plans the recovery of the same failure of the same task twice, over however
  many evaluations it is carried on: attempts are numbered from one without gaps, and from
  the second on the entry asks for a person.
\<close>

theorem ledger_plans_once:
  "ledger_ok (foldl (\<lambda>es ds. buildRecoveryLedger ds es) [] rounds) \<and>
   length (filter (\<lambda>e. same_case sc i e \<and> le_state e = RecPlanned)
     (foldl (\<lambda>es ds. buildRecoveryLedger ds es) [] rounds)) \<le> 1"
proof -
  have "ledger_ok es \<Longrightarrow> ledger_ok (foldl (\<lambda>es ds. buildRecoveryLedger ds es) es rounds)" for es
    by (induction rounds arbitrary: es) (simp_all add: buildRecoveryLedger_ok)
  from this [OF ledger_ok_Nil] show ?thesis using ledger_ok_one_planned by blast
qed

subsection \<open>Running a failed task again\<close>

record rerun_decision =
  rd_rerun :: bool
  rd_newRetryCount :: nat

definition shouldRerunFailedTask :: "team_task \<Rightarrow> jsnum option \<Rightarrow> rerun_decision" where
  "shouldRerunFailedTask t maxRetriesPerTask =
     (let maxRetries = nullish maxRetriesPerTask (Fin 0);
          count = nullish (retryCount t) 0
      in if \<not> js_less (Fin 0) maxRetries \<and> maxRetries \<noteq> NaN
         then \<lparr> rd_rerun = False, rd_newRetryCount = count \<rparr>
         else if \<not> js_less (Fin (of_nat count)) maxRetries \<and> maxRetries \<noteq> NaN
         then \<lparr> rd_rerun = False, rd_newRetryCount = count \<rparr>
         else \<lparr> rd_rerun = True, rd_newRetryCount = count + 1 \<rparr>)"

text \<open>
  For a failed task the run loop reruns exactly when the policy engine decides for a retry, under
  every limit that is a number: the two readings of \<open>maxRetriesPerTask\<close> agree.
\<close>

theorem rerun_agrees_with_policy:
  assumes "status t = Failed" and "lim_maxRetriesPerTask lims \<noteq> Some NaN"
  shows "rd_rerun (shouldRerunFailedTask t (lim_maxRetriesPerTask lims)) \<longleftrightarrow>
    (\<exists>d \<in> set (task_decisions tasks lims now t). pd_action d = ActRetry)"
proof -
  let ?max = "nullish (lim_maxRetriesPerTask lims) (Fin 0)"
  let ?n = "nullish (retryCount t) 0"
  have "js_less (Fin (of_nat ?n)) ?max \<Longrightarrow> js_less (Fin 0) ?max"
    by (cases ?max) (auto intro: le_less_trans [of _ "of_nat ?n"])
  moreover have "?max \<noteq> NaN" using assms(2) by (cases "lim_maxRetriesPerTask lims") auto
  ultimately have "rd_rerun (shouldRerunFailedTask t (lim_maxRetriesPerTask lims)) \<longleftrightarrow>
      js_less (Fin (of_nat ?n)) ?max"
    by (auto simp: shouldRerunFailedTask_def Let_def)
  moreover have "(\<exists>d \<in> set (task_decisions tasks lims now t). pd_action d = ActRetry) \<longleftrightarrow>
      js_less (Fin (of_nat ?n)) ?max"
    using assms(1) decides_task [of ActRetry tasks lims now t] by (simp add: decides_def)
  ultimately show ?thesis by simp
qed

lemma rerun_agrees_with_policy_witness:
  "rd_rerun (shouldRerunFailedTask ((blank_task ''a'')\<lparr>status := Failed, retryCount := Some 1\<rparr>) (Some (Fin 2)))
     \<and> (\<exists>d \<in> set (task_decisions [] (no_limits\<lparr>lim_maxRetriesPerTask := Some (Fin 2)\<rparr>) 0
          ((blank_task ''a'')\<lparr>status := Failed, retryCount := Some 1\<rparr>)). pd_action d = ActRetry)"
  using rerun_agrees_with_policy [of "(blank_task ''a'')\<lparr>status := Failed, retryCount := Some 1\<rparr>"
      "no_limits\<lparr>lim_maxRetriesPerTask := Some (Fin 2)\<rparr>" "[]" 0]
  by (simp add: shouldRerunFailedTask_def Let_def)

text \<open>
  A task that fails every time: the number of reruns that the run loop grants, with its count
  written back after each.
\<close>

fun rerun_run :: "nat \<Rightarrow> team_task \<Rightarrow> jsnum option \<Rightarrow> nat" where
  "rerun_run 0 t maxRetries = 0"
| "rerun_run (Suc k) t maxRetries =
     (let d = shouldRerunFailedTask t maxRetries
      in if rd_rerun d then Suc (rerun_run k (t\<lparr>retryCount := Some (rd_newRetryCount d)\<rparr>) maxRetries)
         else 0)"

text \<open>
  Whole-task reruns are bounded by the limit: a task that fails again and again is rerun, counted
  from its stored number of retries, as often as the limit allows and not once more, and never
  without a limit.
\<close>

theorem reruns_exact:
  "n - nullish (retryCount t) 0 \<le> k \<Longrightarrow>
   rerun_run k t (Some (Fin (of_nat n))) = n - nullish (retryCount t) 0 \<and> rerun_run k t None = 0"
proof (induction k arbitrary: t)
  case 0
  then show ?case by simp
next
  case (Suc k)
  show ?case
  proof (cases "nullish (retryCount t) 0 < n")
    case True
    then have d: "shouldRerunFailedTask t (Some (Fin (of_nat n))) =
        \<lparr> rd_rerun = True, rd_newRetryCount = nullish (retryCount t) 0 + 1 \<rparr>"
      by (simp add: shouldRerunFailedTask_def Let_def)
    have "rerun_run k (t\<lparr>retryCount := Some (nullish (retryCount t) 0 + 1)\<rparr>) (Some (Fin (of_nat n))) =
        n - (nullish (retryCount t) 0 + 1)"
      using Suc.IH [of "t\<lparr>retryCount := Some (nullish (retryCount t) 0 + 1)\<rparr>"] Suc.prems by simp
    then show ?thesis using True d by (simp add: shouldRerunFailedTask_def)
  next
    case False
    then show ?thesis by (simp add: shouldRerunFailedTask_def Let_def)
  qed
qed

lemma reruns_exact_witness:
  "rerun_run 10 ((blank_task ''a'')\<lparr>retryCount := Some 1\<rparr>) (Some (Fin (of_nat 3))) = 2"
  using reruns_exact [of 3 "(blank_task ''a'')\<lparr>retryCount := Some 1\<rparr>" 10] by simp

end
