(* ===== verification/UsageLedger.thy ===== *)
theory UsageLedger
  imports TaskModel "HOL-Library.Multiset"
begin

text \<open>
  Token and cost accounting, \<open>src/src/state/usage.ts\<close> without its text formatting, and the budget
  thresholds \<open>checkPerTaskBudget\<close> of \<open>src/src/runtime/budget-enforcement.ts\<close>. Numbers are
  rationals: the rounding of doubles is not modelled.
\<close>

subsection \<open>Totals of a run\<close>

definition or0 :: "rat option \<Rightarrow> rat" where
  "or0 x = nullish x 0"

lemma or0_simps [simp]: "or0 None = 0" "or0 (Some r) = r"
  by (simp_all add: or0_def)

definition empty_usage :: usage_state where
  "empty_usage =
     \<lparr> u_input = None, u_output = None, u_cacheRead = None, u_cacheWrite = None, u_cost = None,
       u_turns = None \<rparr>"

definition add_usage :: "usage_state \<Rightarrow> usage_state \<Rightarrow> usage_state" where
  "add_usage tot u =
     \<lparr> u_input = Some (or0 (u_input tot) + or0 (u_input u)),
       u_output = Some (or0 (u_output tot) + or0 (u_output u)),
       u_cacheRead = Some (or0 (u_cacheRead tot) + or0 (u_cacheRead u)),
       u_cacheWrite = Some (or0 (u_cacheWrite tot) + or0 (u_cacheWrite u)),
       u_cost = Some (or0 (u_cost tot) + or0 (u_cost u)),
       u_turns = Some (or0 (u_turns tot) + or0 (u_turns u)) \<rparr>"

fun usage_loop :: "team_task list \<Rightarrow> usage_state \<Rightarrow> bool \<Rightarrow> usage_state option" where
  "usage_loop [] tot found = (if found then Some tot else None)"
| "usage_loop (t # ts) tot found =
     (case usage t of
        None \<Rightarrow> usage_loop ts tot found
      | Some u \<Rightarrow> usage_loop ts (add_usage tot u) True)"

definition aggregateUsage :: "team_task list \<Rightarrow> usage_state option" where
  "aggregateUsage tasks = usage_loop tasks empty_usage False"

definition delegateTokensSpent :: "team_task \<Rightarrow> rat" where
  "delegateTokensSpent t =
     (let spent = nullish (case allocation t of None \<Rightarrow> None | Some a \<Rightarrow> tokensSpent a) (Fin 0)
      in case spent of Fin s \<Rightarrow> if 0 < s then s else 0 | _ \<Rightarrow> 0)"

definition sumDelegateTokensSpent :: "team_task list \<Rightarrow> rat" where
  "sumDelegateTokensSpent tasks = foldl (\<lambda>tot t. tot + delegateTokensSpent t) 0 tasks"

definition taskTokenTotal :: "team_task \<Rightarrow> rat" where
  "taskTokenTotal t =
     (case usage t of None \<Rightarrow> 0 | Some u \<Rightarrow> or0 (u_input u) + or0 (u_output u) + or0 (u_cacheWrite u)) +
     delegateTokensSpent t"

subsection \<open>Totals per role\<close>

record role_usage =
  ru_role :: string
  ru_input :: rat
  ru_output :: rat
  ru_cacheRead :: rat
  ru_cacheWrite :: rat
  ru_cost :: rat
  ru_turns :: rat
  ru_taskCount :: nat

definition empty_bucket :: "string \<Rightarrow> role_usage" where
  "empty_bucket r =
     \<lparr> ru_role = r, ru_input = 0, ru_output = 0, ru_cacheRead = 0, ru_cacheWrite = 0, ru_cost = 0,
       ru_turns = 0, ru_taskCount = 0 \<rparr>"

definition role_key :: "team_task \<Rightarrow> string" where
  "role_key t = (if role t = [] then ''unknown'' else role t)"

definition charge_bucket :: "team_task \<Rightarrow> role_usage \<Rightarrow> role_usage" where
  "charge_bucket t b =
     (let b1 = b\<lparr>ru_taskCount := ru_taskCount b + 1\<rparr>
      in case usage t of
          None \<Rightarrow> b1
        | Some u \<Rightarrow> b1\<lparr>ru_input := ru_input b1 + or0 (u_input u),
                      ru_output := ru_output b1 + or0 (u_output u),
                      ru_cacheRead := ru_cacheRead b1 + or0 (u_cacheRead u),
                      ru_cacheWrite := ru_cacheWrite b1 + or0 (u_cacheWrite u),
                      ru_cost := ru_cost b1 + or0 (u_cost u),
                      ru_turns := ru_turns b1 + or0 (u_turns u)\<rparr>)"

definition role_step :: "(string \<times> role_usage) list \<Rightarrow> team_task \<Rightarrow> (string \<times> role_usage) list" where
  "role_step byRole t =
     (let bucket = nullish (map_of byRole (role_key t)) (empty_bucket (role_key t))
      in omap_set (role_key t) (charge_bucket t bucket) byRole)"

text \<open>\<open>Array.prototype.sort\<close> is stable, as \<open>sort_key\<close> is.\<close>

definition aggregateUsageByRole :: "team_task list \<Rightarrow> role_usage list" where
  "aggregateUsageByRole tasks =
     sort_key (\<lambda>b. - ru_cost b) (map snd (foldl role_step [] tasks))"

subsection \<open>The budget\<close>

record budget_check =
  bc_abort :: bool
  bc_warning :: bool
  bc_fairShareViolators :: "string list"
  bc_totalUsed :: rat

definition checkPerTaskBudget ::
    "team_task list \<Rightarrow> rat \<Rightarrow> rat \<Rightarrow> rat \<Rightarrow> rat \<Rightarrow> budget_check" where
  "checkPerTaskBudget tasks budgetTotal budgetWarning budgetAbort fairShareFraction =
     (let totalUsed = foldl (\<lambda>tot t. tot + taskTokenTotal t) 0 tasks;
          abort = budgetAbort * budgetTotal \<le> totalUsed;
          warning = (\<not> abort \<and> budgetWarning * budgetTotal \<le> totalUsed);
          threshold = budgetTotal * fairShareFraction
      in \<lparr> bc_abort = abort, bc_warning = warning,
           bc_fairShareViolators = map task_id (filter (\<lambda>t.
             taskTokenTotal t \<noteq> 0 \<and> 0 < threshold \<and> threshold < taskTokenTotal t \<and>
             budgetTotal * (1 / 10) < taskTokenTotal t) tasks),
           bc_totalUsed = totalUsed \<rparr>)"

definition DEFAULT_FAIR_SHARE :: rat where
  "DEFAULT_FAIR_SHARE = 1 / 2"

subsection \<open>The totals agree\<close>

lemma foldl_sum: "foldl (\<lambda>tot t. tot + f t) a ts = a + sum_list (map f ts)" for f :: "'a \<Rightarrow> rat"
  by (induction ts arbitrary: a) (simp_all add: add.assoc)

definition usage_sum :: "(usage_state \<Rightarrow> rat option) \<Rightarrow> team_task list \<Rightarrow> rat" where
  "usage_sum f tasks = (\<Sum>t\<leftarrow>tasks. case usage t of None \<Rightarrow> 0 | Some u \<Rightarrow> or0 (f u))"

lemma usage_sum_simps [simp]:
  "usage_sum f [] = 0"
  "usage_sum f (t # ts) = (case usage t of None \<Rightarrow> 0 | Some u \<Rightarrow> or0 (f u)) + usage_sum f ts"
  by (simp_all add: usage_sum_def)

text \<open>The fields of a usage record that the ledger adds up.\<close>

definition usage_field :: "(usage_state \<Rightarrow> rat option) \<Rightarrow> bool" where
  "usage_field f \<longleftrightarrow> f \<in> {u_input, u_output, u_cacheRead, u_cacheWrite, u_cost, u_turns}"

lemma add_usage_field: "usage_field f \<Longrightarrow> f (add_usage a b) = Some (or0 (f a) + or0 (f b))"
  by (auto simp: usage_field_def add_usage_def)

lemma empty_usage_field: "usage_field f \<Longrightarrow> f empty_usage = None"
  by (auto simp: usage_field_def empty_usage_def)

lemma usage_loop_sum:
  assumes "usage_field f" and "found \<longrightarrow> f tot \<noteq> None"
  shows "case usage_loop ts tot found of
      None \<Rightarrow> \<not> found \<and> (\<forall>t \<in> set ts. usage t = None)
    | Some u \<Rightarrow> f u = Some (or0 (f tot) + usage_sum f ts) \<and> (found \<or> (\<exists>t \<in> set ts. usage t \<noteq> None))"
  using assms(2)
proof (induction ts arbitrary: tot found)
  case Nil
  then show ?case by auto
next
  case (Cons t ts)
  show ?case
  proof (cases "usage t")
    case None
    then show ?thesis using Cons.IH [OF Cons.prems] by (auto split: option.splits)
  next
    case (Some u)
    have "True \<longrightarrow> f (add_usage tot u) \<noteq> None" by (simp add: add_usage_field [OF assms(1)])
    from Cons.IH [OF this] Some show ?thesis
      by (auto simp: add_usage_field [OF assms(1)] add.assoc split: option.splits)
  qed
qed

lemma aggregateUsage_sum:
  assumes "usage_field f"
  shows "case aggregateUsage tasks of
      None \<Rightarrow> (\<forall>t \<in> set tasks. usage t = None)
    | Some u \<Rightarrow> f u = Some (usage_sum f tasks) \<and> (\<exists>t \<in> set tasks. usage t \<noteq> None)"
  using usage_loop_sum [OF assms, of False empty_usage tasks] empty_usage_field [OF assms]
  by (auto simp: aggregateUsage_def split: option.splits)

lemma usage_sum_none: "\<forall>t \<in> set ts. usage t = None \<Longrightarrow> usage_sum f ts = 0"
  by (induction ts) auto

lemma or0_aggregate:
  assumes "usage_field f"
  shows "(case aggregateUsage tasks of None \<Rightarrow> 0 | Some u \<Rightarrow> or0 (f u)) = usage_sum f tasks"
  using aggregateUsage_sum [OF assms, of tasks] usage_sum_none [of tasks f]
  by (auto split: option.splits)

lemma sum_taskTokenTotal:
  "sum_list (map taskTokenTotal ts) =
     usage_sum u_input ts + usage_sum u_output ts + usage_sum u_cacheWrite ts +
     sum_list (map delegateTokensSpent ts)"
  by (induction ts) (auto simp: taskTokenTotal_def split: option.split)

text \<open>
  C27. The number that the budget is held against is the whole cost of the run: what the ledger reports
  for the tasks themselves, cache reads excluded, plus the delegate spend booked on them, which the
  ledger does not see.
\<close>

theorem budget_counts_everything:
  "bc_totalUsed (checkPerTaskBudget tasks tot warn abort fair) =
     (case aggregateUsage tasks of None \<Rightarrow> 0
      | Some u \<Rightarrow> or0 (u_input u) + or0 (u_output u) + or0 (u_cacheWrite u)) +
     sumDelegateTokensSpent tasks"
proof -
  have "(case aggregateUsage tasks of None \<Rightarrow> 0
      | Some u \<Rightarrow> or0 (u_input u) + or0 (u_output u) + or0 (u_cacheWrite u)) =
    usage_sum u_input tasks + usage_sum u_output tasks + usage_sum u_cacheWrite tasks"
    using or0_aggregate [of u_input tasks] or0_aggregate [of u_output tasks]
      or0_aggregate [of u_cacheWrite tasks]
    by (simp add: usage_field_def split: option.splits)
  then show ?thesis
    by (simp add: checkPerTaskBudget_def Let_def foldl_sum sum_taskTokenTotal
        sumDelegateTokensSpent_def)
qed

subsection \<open>Attribution to roles\<close>

text \<open>What a role is charged, computed from its own tasks only.\<close>

definition role_bill :: "string \<Rightarrow> team_task list \<Rightarrow> role_usage" where
  "role_bill r ts =
     foldl (\<lambda>b t. charge_bucket t b) (empty_bucket r) (filter (\<lambda>t. role_key t = r) ts)"

lemma role_bill_snoc:
  "role_bill r (ts @ [t]) =
     (if role_key t = r then charge_bucket t (role_bill r ts) else role_bill r ts)"
  by (simp add: role_bill_def)

lemma role_bill_none: "r \<notin> role_key ` set ts \<Longrightarrow> role_bill r ts = empty_bucket r"
  by (simp add: role_bill_def filter_empty_conv image_iff) (metis (mono_tags, lifting) filter_False foldl_Nil)

lemma ru_role_charge [simp]: "ru_role (charge_bucket t b) = ru_role b"
  by (simp add: charge_bucket_def Let_def split: option.split)

lemma ru_role_bill [simp]: "ru_role (role_bill r ts) = r"
proof (induction ts rule: rev_induct)
  case (snoc t ts)
  then show ?case by (simp add: role_bill_snoc)
qed (simp add: role_bill_def empty_bucket_def)

lemma role_steps:
  "omap_ok (foldl role_step [] ts) \<and>
   map_of (foldl role_step [] ts) =
     (\<lambda>r. if r \<in> role_key ` set ts then Some (role_bill r ts) else None)"
proof (induction ts rule: rev_induct)
  case (snoc t ts)
  then show ?case
    by (auto simp: role_step_def Let_def fun_eq_iff role_bill_snoc role_bill_none)
qed simp

lemma role_steps_sum:
  assumes "\<And>t b. g (charge_bucket t b) = g b + (case usage t of None \<Rightarrow> 0 | Some u \<Rightarrow> or0 (f u))"
    and "\<And>r. g (empty_bucket r) = 0"
  shows "sum_list (map (\<lambda>e. g (snd e)) (foldl role_step [] ts)) = usage_sum f ts"
proof -
  have upd: "sum_list (map (\<lambda>e. g (snd e)) (omap_set k v m)) =
      sum_list (map (\<lambda>e. g (snd e)) m) - (case map_of m k of None \<Rightarrow> 0 | Some b \<Rightarrow> g b) + g v"
    for k v and m :: "(string \<times> role_usage) list"
    by (induction k v m rule: omap_set.induct) auto
  show ?thesis
  proof (induction ts rule: rev_induct)
    case (snoc t ts)
    then show ?case
      by (auto simp: role_step_def Let_def upd assms usage_sum_def split: option.splits)
  qed simp
qed

lemma sum_list_sort_key: "sum_list (map g (sort_key k xs)) = sum_list (map g xs)" for g :: "'a \<Rightarrow> rat"
  by (metis mset_map mset_sort sum_mset_sum_list)

lemma role_rows:
  "set (aggregateUsageByRole tasks) = (\<lambda>r. role_bill r tasks) ` role_key ` set tasks"
proof -
  let ?m = "foldl role_step [] tasks"
  have ok: "distinct (map fst ?m)" and lookup: "map_of ?m =
      (\<lambda>r. if r \<in> role_key ` set tasks then Some (role_bill r tasks) else None)"
    using role_steps [of tasks] by (auto simp: omap_ok_def)
  have "(r, b) \<in> set ?m \<longleftrightarrow> r \<in> role_key ` set tasks \<and> b = role_bill r tasks" for r b
    using map_of_eq_Some_iff [OF ok, of r b] lookup by (auto split: if_splits)
  then have "snd ` set ?m = (\<lambda>r. role_bill r tasks) ` role_key ` set tasks" by force
  then show ?thesis by (simp add: aggregateUsageByRole_def)
qed

lemma role_rows_distinct: "distinct (map ru_role (aggregateUsageByRole tasks))"
proof -
  let ?m = "foldl role_step [] tasks"
  have ok: "distinct (map fst ?m)" and lookup: "map_of ?m =
      (\<lambda>r. if r \<in> role_key ` set tasks then Some (role_bill r tasks) else None)"
    using role_steps [of tasks] by (auto simp: omap_ok_def)
  have "ru_role b = r" if "(r, b) \<in> set ?m" for r b
    using map_of_is_SomeI [OF ok that] lookup by (auto split: if_splits)
  then have "map ru_role (map snd ?m) = map fst ?m" by auto
  then have "distinct (map ru_role (map snd ?m))" using ok by (simp only:)
  then show ?thesis
    unfolding aggregateUsageByRole_def by (metis mset_map mset_sort mset_eq_imp_distinct_iff)
qed

text \<open>
  The report per role has one row for every role that has a task and no other, the dearest first;
  each row is what the tasks of that role alone add up to, and the costs of the rows add up to
  the cost that the ledger reports for the run.
\<close>

theorem roles_partition_the_bill:
  "distinct (map ru_role (aggregateUsageByRole tasks)) \<and>
   set (aggregateUsageByRole tasks) = (\<lambda>r. role_bill r tasks) ` role_key ` set tasks \<and>
   sorted_wrt (\<ge>) (map ru_cost (aggregateUsageByRole tasks)) \<and>
   sum_list (map ru_cost (aggregateUsageByRole tasks)) =
     (case aggregateUsage tasks of None \<Rightarrow> 0 | Some u \<Rightarrow> or0 (u_cost u))"
proof (intro conjI)
  have "sorted (map (\<lambda>b. - ru_cost b) (aggregateUsageByRole tasks))"
    by (simp add: aggregateUsageByRole_def)
  then show "sorted_wrt (\<ge>) (map ru_cost (aggregateUsageByRole tasks))"
    by (simp add: sorted_wrt_map)
  have "sum_list (map (\<lambda>e. ru_cost (snd e)) (foldl role_step [] tasks)) = usage_sum u_cost tasks"
    by (rule role_steps_sum)
      (auto simp: charge_bucket_def Let_def empty_bucket_def split: option.split)
  then show "sum_list (map ru_cost (aggregateUsageByRole tasks)) =
     (case aggregateUsage tasks of None \<Rightarrow> 0 | Some u \<Rightarrow> or0 (u_cost u))"
    using or0_aggregate [of u_cost tasks]
    by (simp add: aggregateUsageByRole_def sum_list_sort_key comp_def usage_field_def)
qed (rule role_rows_distinct role_rows)+

subsection \<open>The thresholds\<close>

lemma delegateTokensSpent_nonneg: "0 \<le> delegateTokensSpent t"
  by (simp add: delegateTokensSpent_def Let_def split: jsnum.split)

lemma two_members_sum:
  fixes f :: "'a \<Rightarrow> rat"
  assumes "\<And>t. t \<in> set ts \<Longrightarrow> 0 \<le> f t" and "2 \<le> length (filter P ts)"
    and "\<And>t. P t \<Longrightarrow> c < f t"
  shows "c + c < sum_list (map f ts)"
  using assms(1,2)
proof (induction ts)
  case (Cons t ts)
  have rest: "0 \<le> sum_list (map f ts)" using Cons.prems(1) by (intro sum_list_nonneg) auto
  show ?case
  proof (cases "P t")
    case True
    with Cons.prems(2) obtain u where u: "u \<in> set ts" "P u"
      by (metis One_nat_def Suc_1 Suc_le_mono filter.simps(2) filter_empty_conv length_0_conv
          length_Cons not_one_le_zero)
    have "f u \<le> sum_list (map f ts)"
      using member_le_sum_list [of "f u" "map f ts"] u(1) Cons.prems(1) by force
    then show ?thesis using assms(3) [OF True] assms(3) [OF u(2)] by simp
  next
    case False
    then have "c + c < sum_list (map f ts)" using Cons by simp
    then show ?thesis using Cons.prems(1) [of t] by simp
  qed
qed simp

text \<open>
  Budget verdicts: a run never gets a warning and an abort at once, no stored delegate spend
  lowers the number they are taken from, and, at the default fair share, a run of no
  negative usage that is within its budget has at most one task that took more than its share.
\<close>

theorem budget_verdicts:
  assumes "\<forall>t \<in> set tasks. 0 \<le> taskTokenTotal t"
    and "bc_totalUsed (checkPerTaskBudget tasks b w a DEFAULT_FAIR_SHARE) \<le> b"
  shows "\<not> (bc_abort (checkPerTaskBudget tasks b w a DEFAULT_FAIR_SHARE) \<and>
            bc_warning (checkPerTaskBudget tasks b w a DEFAULT_FAIR_SHARE)) \<and>
    (\<forall>t \<in> set tasks. taskTokenTotal (t\<lparr>allocation := None\<rparr>) \<le> taskTokenTotal t) \<and>
    length (bc_fairShareViolators (checkPerTaskBudget tasks b w a DEFAULT_FAIR_SHARE)) \<le> 1"
proof -
  let ?P = "\<lambda>t. taskTokenTotal t \<noteq> 0 \<and> 0 < b * DEFAULT_FAIR_SHARE \<and>
      b * DEFAULT_FAIR_SHARE < taskTokenTotal t \<and> b * (1 / 10) < taskTokenTotal t"
  have "\<not> 2 \<le> length (filter ?P tasks)"
  proof
    assume "2 \<le> length (filter ?P tasks)"
    from two_members_sum [OF _ this, of taskTokenTotal "b * DEFAULT_FAIR_SHARE"]
    have "b < sum_list (map taskTokenTotal tasks)" using assms(1) by (simp add: DEFAULT_FAIR_SHARE_def)
    then show False using assms(2) by (simp add: checkPerTaskBudget_def Let_def foldl_sum)
  qed
  then show ?thesis
    using delegateTokensSpent_nonneg
    by (auto simp: checkPerTaskBudget_def Let_def taskTokenTotal_def delegateTokensSpent_def)
qed

definition usage_sample :: "string \<Rightarrow> rat \<Rightarrow> jsnum option \<Rightarrow> team_task" where
  "usage_sample i n spent =
     (blank_task i)\<lparr>usage := Some (empty_usage\<lparr>u_input := Some n\<rparr>),
        allocation := Some \<lparr> tokensGranted = Fin 0, tokensSpent = spent \<rparr>\<rparr>"

lemma budget_verdicts_witness:
  "length (bc_fairShareViolators (checkPerTaskBudget
      [usage_sample ''a'' 60 None, usage_sample ''b'' 30 (Some NegInf)] 100 (8/10) (95/100)
      DEFAULT_FAIR_SHARE)) \<le> 1"
  using budget_verdicts [of "[usage_sample ''a'' 60 None, usage_sample ''b'' 30 (Some NegInf)]" 100
      "8/10" "95/100"]
  by (simp add: usage_sample_def empty_usage_def checkPerTaskBudget_def taskTokenTotal_def
      delegateTokensSpent_def Let_def)

end
