(* ===== verification/RunAbort.thy ===== *)
theory RunAbort
  imports MergeGate Dispatch UsageLedger RunModel RecoveryRecipes
begin

text \<open>
  Ending a run that still has tasks in flight, \<open>terminaliseRunWithDrain\<close> and \<open>enforceRunBudget\<close>
  of \<open>src/src/runtime/budget-enforcement.ts\<close>, and \<open>handleFailedTask\<close> of
  \<open>src/src/runtime/team-runner.ts\<close>. The outcomes of the drained units, the state
  loaded under the run lock, the answers of the lock and the clock are arguments; agent records and
  the abort of delegates are left out.
\<close>

subsection \<open>Draining and ending\<close>

text \<open>A settled unit: the artifacts and the tasks of a fulfilled promise, or a rejection.\<close>

datatype drain_outcome = Fulfilled "artifact list" "team_task list" | Rejected

fun fulfilled_value :: "drain_outcome \<Rightarrow> (artifact list \<times> team_task list) option" where
  "fulfilled_value (Fulfilled arts ts) = Some (arts, ts)"
| "fulfilled_value Rejected = None"

record abort_context =
  ab_manifest :: run_manifest
  ab_tasks :: "team_task list"
  ab_disk :: "(run_manifest \<times> team_task list) option"
  ab_outcomes :: "drain_outcome list"
  ab_dispatched :: "string set"
  ab_lockBusy :: "nat \<Rightarrow> bool"

definition valid_results :: "abort_context \<Rightarrow> (artifact list \<times> team_task list) list" where
  "valid_results c = List.map_filter fulfilled_value (ab_outcomes c)"

definition drained_tasks :: "abort_context \<Rightarrow> team_task list" where
  "drained_tasks c =
     (if valid_results c = [] then ab_tasks c
      else mergeTaskUpdatesPreservingTerminal (nullish (map_option snd (ab_disk c)) (ab_tasks c))
             (map snd (valid_results c)))"

definition ended_tasks :: "abort_context \<Rightarrow> string \<Rightarrow> string \<Rightarrow> stamp \<Rightarrow> team_task list" where
  "ended_tasks c cancelMessage blockedMessage now =
     markBlocked
       (cancelNonTerminalTasks (drained_tasks c) Cancelled cancelMessage
          (Some (\<lambda>t. task_id t \<in> ab_dispatched c \<and> isNonTerminalTaskStatus (status t))) None now)
       blockedMessage now"

text \<open>The manifest after the merge under the run lock, with what is then on disk.\<close>

definition drained_manifest ::
    "abort_context \<Rightarrow> stamp \<Rightarrow> merge_error + run_manifest \<times> run_manifest option" where
  "drained_manifest c now =
     (let disk = map_option fst (ab_disk c)
      in if valid_results c = [] then Inr (ab_manifest c, disk)
         else if \<not> snd (withRunLockBusyRetryAsync MERGE_LOCK_BUSY_RETRY_DELAYS_MS (ab_lockBusy c) 0)
         then Inl RunLockBusy
         else let diskManifest = nullish disk (ab_manifest c);
                  reconciledArtifacts =
                    mergeArtifacts (rm_artifacts diskManifest @ concat (map fst (valid_results c)))
              in case updateRunStatus disk (diskManifest\<lparr>rm_artifacts := reconciledArtifacts\<rparr>) RRunning
                   (Some ''Merged in-flight results during failed-task abort.'') False now of
                  Inl (a, b) \<Rightarrow> Inl (RefusedChange a b)
                | Inr u \<Rightarrow> Inr (su_returned u, Some (su_written u)))"

definition terminaliseRunWithDrain ::
    "abort_context \<Rightarrow> string \<Rightarrow> string \<Rightarrow> string \<Rightarrow> stamp \<Rightarrow>
     merge_error + run_manifest \<times> team_task list" where
  "terminaliseRunWithDrain c cancelMessage blockedMessage failedReason now =
     (case drained_manifest c now of
        Inl e \<Rightarrow> Inl e
      | Inr (m, disk) \<Rightarrow>
          (let tasks = ended_tasks c cancelMessage blockedMessage now
           in case updateRunStatus disk m RFailed (Some failedReason) False now of
               Inl (a, b) \<Rightarrow> Inl (RefusedChange a b)
             | Inr u \<Rightarrow> Inr (su_returned u, tasks)))"

subsection \<open>The budget of a run\<close>

record budget_input =
  bin_total :: "rat option"
  bin_warning :: "rat option"
  bin_abort :: "rat option"
  bin_unlimited :: "bool option"

datatype budget_outcome =
    BudgetContinue "(string \<times> string option) list"
  | BudgetReturn "(string \<times> string option) list" "merge_error + run_manifest \<times> team_task list"

text \<open>
  The events carry their type and the task they name; \<open>msg\<close> is the text of the abort, which prints
  the used and the total budget.
\<close>

definition enforceRunBudget ::
    "budget_input \<Rightarrow> abort_context \<Rightarrow> string \<Rightarrow> stamp \<Rightarrow> budget_outcome" where
  "enforceRunBudget b c msg now =
     (case bin_total b of
        None \<Rightarrow> BudgetContinue []
      | Some budgetTotal \<Rightarrow>
          if \<not> (0 < budgetTotal \<and> bin_unlimited b \<noteq> Some True) then BudgetContinue []
          else let check = checkPerTaskBudget (ab_tasks c) budgetTotal (nullish (bin_warning b) (8 / 10))
                             (nullish (bin_abort b) (95 / 100)) DEFAULT_FAIR_SHARE
               in if bc_abort check
                  then BudgetReturn [(''run.budget_abort'', None)]
                    (terminaliseRunWithDrain c (''Cancelled by budget abort: '' @ msg)
                       (''Budget abort threshold exceeded: '' @ msg) msg now)
                  else BudgetContinue
                    ((if bc_warning check then [(''run.budget_warning'', None)] else []) @
                     map (\<lambda>i. (''task.budget_fair_share'', Some i))
                       (filter (\<lambda>i. list_ex (\<lambda>t. task_id t = i) (ab_tasks c))
                          (bc_fairShareViolators check))))"

subsection \<open>In-flight work\<close>

definition end_task :: "string set \<Rightarrow> string \<Rightarrow> string \<Rightarrow> stamp \<Rightarrow> team_task \<Rightarrow> team_task" where
  "end_task dispatched cm bm now t =
     (if isTerminalTaskStatus (status t) then t
      else if task_id t \<in> dispatched
      then t\<lparr>status := Cancelled, finishedAt := Some now, task_error := Some cm\<rparr>
      else if status t = Queued
      then t\<lparr>status := Skipped, task_error := Some bm, finishedAt := Some now,
             graph := map_option (\<lambda>g. g\<lparr>g_queue := QBlocked\<rparr>) (graph t)\<rparr>
      else t)"

lemma ended_tasks_map:
  "ended_tasks c cm bm now = map (end_task (ab_dispatched c) cm bm now) (drained_tasks c)"
  by (auto simp: ended_tasks_def markBlocked_def cancelNonTerminalTasks_def Let_def end_task_def
      isNonTerminal_iff)

lemma terminalise_tasks:
  "terminaliseRunWithDrain c cm bm fr now = Inr (m, ts) \<Longrightarrow> ts = ended_tasks c cm bm now"
  by (auto simp: terminaliseRunWithDrain_def Let_def split: sum.splits prod.splits)

text \<open>
  What the drained units say of a task, written out: the base record is the one on disk when a unit
  delivered results, else the one in memory, and the records the units delivered for its id are
  taken one after another, each through the gate of the merge.
\<close>

definition abort_base :: "abort_context \<Rightarrow> team_task list" where
  "abort_base c = (if valid_results c = [] then ab_tasks c else nullish (map_option snd (ab_disk c)) (ab_tasks c))"

definition delivered :: "abort_context \<Rightarrow> string \<Rightarrow> team_task list" where
  "delivered c i = filter (\<lambda>u. task_id u = i) (concat (map snd (valid_results c)))"

definition unfinished :: "team_task \<Rightarrow> bool" where
  "unfinished t \<longleftrightarrow> \<not> isTerminalTaskStatus (status t) \<and> finishedAt t = None"

text \<open>One unit has finished the task; the others only carry stale copies of it.\<close>

definition finished_by_unit :: "abort_context \<Rightarrow> team_task \<Rightarrow> team_task \<Rightarrow> bool" where
  "finished_by_unit c t u \<longleftrightarrow> unfinished t \<and> u \<in> set (delivered c (task_id t)) \<and>
     isTerminalTaskStatus (status u) \<and> has_stamp (finishedAt u) \<and>
     (\<forall>v\<in>set (delivered c (task_id t)). v = u \<or> unfinished v)"

lemma accept_finished:
  "unfinished t \<Longrightarrow> isTerminalTaskStatus (status u) \<Longrightarrow> has_stamp (finishedAt u) \<Longrightarrow> accept_update u t = u"
  by (cases "status u"; cases "status t")
    (auto simp: accept_update_def unfinished_def shouldMergeTaskUpdate_def rejected_exact merge_rejected_def
      hasMeaningfulUpdate_def isNonTerminal_iff)

lemma finished_stays:
  "isTerminalTaskStatus (status u) \<Longrightarrow> \<forall>v\<in>set us. v = u \<or> unfinished v \<Longrightarrow> fold accept_update us u = u"
proof (induction us)
  case (Cons v us)
  have "accept_update v u = u"
    using Cons.prems
    by (auto simp: accept_update_def unfinished_def shouldMergeTaskUpdate_def rejected_exact merge_rejected_def)
  then show ?case using Cons by simp
qed simp

lemma finished_wins:
  assumes "unfinished t" and "u \<in> set us" and "isTerminalTaskStatus (status u)" and "has_stamp (finishedAt u)"
    and "\<forall>v\<in>set us. v = u \<or> unfinished v"
  shows "fold accept_update us t = u"
  using assms
proof (induction us arbitrary: t)
  case (Cons v us)
  show ?case
  proof (cases "v = u")
    case True
    then show ?thesis
      using Cons.prems accept_finished [of t u] finished_stays [of u us] by simp
  next
    case False
    then have "unfinished (accept_update v t)" using Cons.prems by (auto simp: accept_update_def)
    then show ?thesis using Cons False by simp
  qed
qed simp

lemma withQueue_graph: "\<exists>g. withQueue t i = t\<lparr>graph := g\<rparr>"
  by (auto simp: withQueue_def split: option.splits intro: exI [of _ "graph t"])

lemma drained_records:
  assumes "distinct (map task_id (abort_base c))"
  shows "list_all2 (\<lambda>t d. \<exists>g. d = (fold accept_update (delivered c (task_id t)) t)\<lparr>graph := g\<rparr>)
    (abort_base c) (drained_tasks c)"
proof (cases "valid_results c = []")
  case True
  then have "d = (fold accept_update (delivered c (task_id d)) d)\<lparr>graph := graph d\<rparr>" for d
    by (simp add: delivered_def)
  then show ?thesis using True
    unfolding drained_tasks_def abort_base_def by (simp add: list_all2_same) blast
next
  case False
  then have b: "abort_base c = nullish (map_option snd (ab_disk c)) (ab_tasks c)" by (simp add: abort_base_def)
  show ?thesis
    using False assms unfolding b drained_tasks_def
    by (simp add: merge_map refreshTaskGraphQueues_def del: nullish.simps split del: nullish_split)
      (intro list_all2_mapI, simp add: delivered_def withQueue_graph)
qed

text \<open>
  C21. When ending a run with tasks in flight succeeds, it loses no work that the drained units
  delivered. The base is the list of tasks on disk when some unit delivered a result, else the one
  in memory, and its ids and order are kept. The record \<open>d\<close> of each task is its base record with
  the records delivered for its id merged in one after another, each through the gate. If \<open>d\<close> is
  terminal, the task ends as \<open>d\<close>; in particular a task that one unit has finished, of which the
  other units only carry unfinished copies, ends as that unit delivered it (but for the queue
  position in its graph record). Else a task that was ever dispatched is cancelled, never skipped;
  a queued one that was not is skipped; any other stays as \<open>d\<close>. No task stays queued.
\<close>

theorem abort_keeps_in_flight_work:
  assumes "terminaliseRunWithDrain c cm bm fr now = Inr (m, ts)" and "distinct (map task_id (abort_base c))"
  shows "list_all2 (\<lambda>t r. task_id r = task_id t \<and> status r \<noteq> Queued \<and>
      (let d = fold accept_update (delivered c (task_id t)) t
       in if isTerminalTaskStatus (status d) then r = d\<lparr>graph := graph r\<rparr>
          else if task_id t \<in> ab_dispatched c then status r = Cancelled
          else if status d = Queued then status r = Skipped else r = d\<lparr>graph := graph r\<rparr>) \<and>
      (\<forall>u. finished_by_unit c t u \<longrightarrow> r = u\<lparr>graph := graph r\<rparr>))
    (abort_base c) ts"
proof -
  have ts: "ts = map (end_task (ab_dispatched c) cm bm now) (drained_tasks c)"
    using terminalise_tasks [OF assms(1)] by (simp add: ended_tasks_map)
  have one: "task_id (fold accept_update (delivered c (task_id t)) t) = task_id t" for t
    by (rule fold_accept_id) (auto simp: delivered_def)
  have wins: "fold accept_update (delivered c (task_id t)) t = u" if "finished_by_unit c t u" for t u
    using that finished_wins by (simp add: finished_by_unit_def)
  show ?thesis
    unfolding ts list_all2_map2
    by (rule list_all2_mono [OF drained_records [OF assms(2)]])
      (use one wins in \<open>auto simp: end_task_def Let_def finished_by_unit_def\<close>)
qed

definition abort_sample :: abort_context where
  "abort_sample =
     \<lparr> ab_manifest = sample_manifest RRunning,
       ab_tasks = [blank_task ''a'', (blank_task ''b'')\<lparr>status := Running\<rparr>, blank_task ''c''],
       ab_disk = None, ab_outcomes = [Fulfilled [] [done_task ''a'' Completed 5], Rejected],
       ab_dispatched = {''a'', ''b''}, ab_lockBusy = (\<lambda>k. k < 2) \<rparr>"

lemma abort_keeps_in_flight_work_witness:
  "\<exists>m ts. terminaliseRunWithDrain abort_sample ''x'' ''y'' ''z'' (Stamp ''t'' (Some 1)) = Inr (m, ts) \<and>
     map status ts = [Completed, Cancelled, Skipped]"
proof -
  have run: "map_sum id (\<lambda>_. True) (terminaliseRunWithDrain abort_sample ''x'' ''y'' ''z'' (Stamp ''t'' (Some 1))) = Inr True"
    by code_simp
  then obtain m ts where r: "terminaliseRunWithDrain abort_sample ''x'' ''y'' ''z'' (Stamp ''t'' (Some 1)) = Inr (m, ts)"
    by (cases "terminaliseRunWithDrain abort_sample ''x'' ''y'' ''z'' (Stamp ''t'' (Some 1))") auto
  have d: "map (\<lambda>t. (task_id t, status (fold accept_update (delivered abort_sample (task_id t)) t))) (abort_base abort_sample) =
      [(''a'', Completed), (''b'', Running), (''c'', Queued)]" by code_simp
  have "distinct (map task_id (abort_base abort_sample))" by code_simp
  note k = abort_keeps_in_flight_work [OF r this]
  have g: "r = d\<lparr>graph := g\<rparr> \<Longrightarrow> status r = status d" for r d :: team_task and g by simp
  have s: "ab_dispatched abort_sample = {''a'', ''b''}" by (simp add: abort_sample_def)
  have "map status ts = [Completed, Cancelled, Skipped]"
    using k d unfolding s by (auto simp: map_eq_Cons_conv list_all2_Cons1 Let_def dest!: g)
  then have "terminaliseRunWithDrain abort_sample ''x'' ''y'' ''z'' (Stamp ''t'' (Some 1)) = Inr (m, ts) \<and>
     map status ts = [Completed, Cancelled, Skipped]" using r by (rule conjI [rotated])
  then show ?thesis by (intro exI)
qed

lemma update_to_failed:
  "updateRunStatus disk m RFailed s x now =
     (if canTransitionRunStatus (rm_status m) RFailed
      then Inr \<lparr> su_returned = m\<lparr>rm_status := RFailed, rm_updatedAt := now,
                     rm_summary := (case s of None \<Rightarrow> rm_summary m | t \<Rightarrow> t)\<rparr>,
                 su_written = m\<lparr>rm_status := RFailed, rm_updatedAt := now,
                     rm_summary := (case s of None \<Rightarrow> rm_summary m | t \<Rightarrow> t)\<rparr>,
                 su_event = ''run.failed'' \<rparr>
      else Inl (rm_status m, RFailed))"
  by (simp add: updateRunStatus_def saveRunManifest_def preserveDiskTerminalStatus_def Let_def
      DISK_TERMINAL_STATUSES_def)

text \<open>
  A run that was cancelled or completed by another process while the abort drains its units does not
  end well: when a unit delivered results the final status update is refused with an error, after the
  tasks were ended; when none did, the other verdict is overwritten by failed.
\<close>

theorem abort_against_external_end:
  assumes "ab_disk c = Some (d, dts)" and "rm_status d \<in> {RCancelled, RCompleted}"
    and "rm_status (ab_manifest c) = RRunning" and "\<not> ab_lockBusy c 0"
  shows "if valid_results c \<noteq> []
     then terminaliseRunWithDrain c cm bm fr now = Inl (RefusedChange (rm_status d) RFailed)
     else \<exists>m ts. terminaliseRunWithDrain c cm bm fr now = Inr (m, ts) \<and> rm_status m = RFailed"
proof (cases "valid_results c = []")
  case True
  then show ?thesis
    using assms by (simp add: terminaliseRunWithDrain_def drained_manifest_def Let_def update_to_failed
        canTransitionRunStatus_def)
next
  case False
  have "canTransitionRunStatus (rm_status d) RRunning" and "\<not> canTransitionRunStatus (rm_status d) RFailed"
    and "rm_status d \<in> DISK_TERMINAL_STATUSES" and "rm_status d \<noteq> RRunning"
    using assms(2) by (auto simp: canTransitionRunStatus_def DISK_TERMINAL_STATUSES_def)
  moreover have "snd (withRunLockBusyRetryAsync MERGE_LOCK_BUSY_RETRY_DELAYS_MS (ab_lockBusy c) 0)"
    by (subst withRunLockBusyRetryAsync.simps) (simp add: assms(4))
  ultimately obtain m d' where "drained_manifest c now = Inr (m, d')" "rm_status m = rm_status d"
    using False assms(1)
    by (auto simp: drained_manifest_def Let_def updateRunStatus_def saveRunManifest_def
        preserveDiskTerminalStatus_def DISK_TERMINAL_STATUSES_def)
  then show ?thesis
    using False \<open>\<not> canTransitionRunStatus (rm_status d) RFailed\<close>
    by (simp add: terminaliseRunWithDrain_def update_to_failed Let_def)
qed

lemma abort_against_external_end_witness:
  "terminaliseRunWithDrain
     (abort_sample\<lparr>ab_disk := Some (sample_manifest RCancelled, ab_tasks abort_sample),
        ab_outcomes := [Fulfilled [] [(blank_task ''a'')\<lparr>status := Completed\<rparr>]], ab_lockBusy := (\<lambda>_. False)\<rparr>) ''x'' ''y'' ''z''
     (Stamp ''t'' (Some 1)) = Inl (RefusedChange RCancelled RFailed)"
proof -
  let ?c = "abort_sample\<lparr>ab_disk := Some (sample_manifest RCancelled, ab_tasks abort_sample),
        ab_outcomes := [Fulfilled [] [(blank_task ''a'')\<lparr>status := Completed\<rparr>]], ab_lockBusy := (\<lambda>_. False)\<rparr>"
  have "valid_results ?c \<noteq> []" by (simp add: valid_results_def List.map_filter_def)
  moreover have "ab_disk ?c = Some (sample_manifest RCancelled, ab_tasks abort_sample)"
    "rm_status (ab_manifest ?c) = RRunning" by (simp_all add: abort_sample_def)
  ultimately show ?thesis
    using abort_against_external_end [where c = ?c and d = "sample_manifest RCancelled"] by simp
qed

text \<open>
  Budget enforcement stops a run exactly when a positive budget is set that is not unlimited and the
  whole cost of the run has reached the abort threshold, and it never returns from the loop otherwise.
\<close>

theorem budget_stops_run_iff:
  "(\<exists>es r. enforceRunBudget b c msg now = BudgetReturn es r) \<longleftrightarrow>
     (\<exists>budget. bin_total b = Some budget \<and> 0 < budget \<and> bin_unlimited b \<noteq> Some True \<and>
        nullish (bin_abort b) (95 / 100) * budget \<le> sum_list (map taskTokenTotal (ab_tasks c)))"
  by (simp add: enforceRunBudget_def Let_def checkPerTaskBudget_def foldl_sum
      split del: nullish_split split: option.split)

subsection \<open>A failed task\<close>

datatype failed_outcome =
    RerunTasks "team_task list"
  | EndRun "merge_error + run_manifest \<times> team_task list"

definition requeue_failed :: "team_task \<Rightarrow> nat \<Rightarrow> team_task list \<Rightarrow> team_task list" where
  "requeue_failed failed newCount tasks =
     map (\<lambda>t. if task_id t = task_id failed
              then t\<lparr>status := Queued, retryCount := Some newCount, task_error := None, finishedAt := None\<rparr>
              else t) tasks"

text \<open>No outcome means that no task has failed.\<close>

definition handleFailedTask ::
    "abort_context \<Rightarrow> crew_limits \<Rightarrow> stamp \<Rightarrow> failed_outcome option" where
  "handleFailedTask c lims now =
     (case find (\<lambda>t. status t = Failed) (ab_tasks c) of
        None \<Rightarrow> None
      | Some failed \<Rightarrow>
          let rerun = shouldRerunFailedTask failed (lim_maxRetriesPerTask lims)
          in if rd_rerun rerun
             then Some (RerunTasks (requeue_failed failed (rd_newRetryCount rerun) (ab_tasks c)))
             else Some (EndRun (terminaliseRunWithDrain c
               (''Cancelled by failed task '' @ quoted (task_id failed) @ ''.'')
               (''Blocked by failed task '' @ quoted (task_id failed) @ ''.'')
               (''Failed at task '' @ quoted (task_id failed) @ ''.'') now)))"

definition reruns_left :: "nat \<Rightarrow> team_task list \<Rightarrow> nat" where
  "reruns_left n ts = (\<Sum>t\<leftarrow>ts. n - nullish (retryCount t) 0)"

lemma reruns_left_map:
  assumes "\<And>t. t \<in> set ts \<Longrightarrow> n - nullish (retryCount (f t)) 0 \<le> n - nullish (retryCount t) 0"
    and "u \<in> set ts" and "n - nullish (retryCount (f u)) 0 < n - nullish (retryCount u) 0"
  shows "reruns_left n (map f ts) < reruns_left n ts"
  using assms
proof (induction ts)
  case (Cons t ts)
  have le: "reruns_left n (map f ts) \<le> reruns_left n ts"
    using Cons.prems(1) unfolding reruns_left_def map_map by (intro sum_list_mono) auto
  show ?case
  proof (cases "t = u")
    case True
    then show ?thesis using le Cons.prems(3) by (simp add: reruns_left_def del: nullish.simps)
  next
    case False
    then have "reruns_left n (map f ts) < reruns_left n ts" using Cons by simp
    moreover have "n - nullish (retryCount (f t)) 0 \<le> n - nullish (retryCount t) 0"
      using Cons.prems(1) by simp
    ultimately show ?thesis by (simp add: reruns_left_def del: nullish.simps)
  qed
qed simp

text \<open>
  A failed run cannot be rerun forever: under a finite limit every rerun that the run loop grants
  uses up one of finitely many retries, over all tasks together, and a run with a failed task and
  no retry left is ended.
\<close>

theorem reruns_use_up_retries:
  assumes "lim_maxRetriesPerTask lims = Some (Fin (of_nat n))" and "distinct (map task_id (ab_tasks c))"
  shows "case handleFailedTask c lims now of
      None \<Rightarrow> (\<forall>t \<in> set (ab_tasks c). status t \<noteq> Failed)
    | Some (RerunTasks ts) \<Rightarrow> reruns_left n ts < reruns_left n (ab_tasks c)
    | Some (EndRun r) \<Rightarrow> (\<exists>t \<in> set (ab_tasks c). status t = Failed \<and> n \<le> nullish (retryCount t) 0)"
proof (cases "find (\<lambda>t. status t = Failed) (ab_tasks c)")
  case None
  then have "\<forall>t \<in> set (ab_tasks c). status t \<noteq> Failed" by (simp add: find_None_iff)
  with None show ?thesis by (simp add: handleFailedTask_def)
next
  case (Some f)
  then have f: "f \<in> set (ab_tasks c)" "status f = Failed" by (auto simp: find_Some_iff)
  let ?k = "nullish (retryCount f) 0"
  show ?thesis
  proof (cases "?k < n")
    case True
    then have r: "shouldRerunFailedTask f (lim_maxRetriesPerTask lims) =
        \<lparr> rd_rerun = True, rd_newRetryCount = ?k + 1 \<rparr>"
      by (simp add: assms(1) shouldRerunFailedTask_def Let_def)
    have same: "t = f" if "t \<in> set (ab_tasks c)" "task_id t = task_id f" for t
      using that f(1) assms(2) by (simp add: distinct_map inj_on_def)
    have "reruns_left n (requeue_failed f (?k + 1) (ab_tasks c)) < reruns_left n (ab_tasks c)"
      unfolding requeue_failed_def
    proof (rule reruns_left_map [where u = f])
      fix t assume "t \<in> set (ab_tasks c)"
      then have "task_id t = task_id f \<Longrightarrow> t = f" by (rule same)
      then show "n - nullish (retryCount (if task_id t = task_id f
            then t\<lparr>status := Queued, retryCount := Some (?k + 1), task_error := None, finishedAt := None\<rparr>
            else t)) 0 \<le> n - nullish (retryCount t) 0"
        by (cases "task_id t = task_id f") auto
    qed (use f True in auto)
    then show ?thesis using Some r by (simp add: handleFailedTask_def del: nullish.simps)
  next
    case False
    then have "\<not> rd_rerun (shouldRerunFailedTask f (lim_maxRetriesPerTask lims))"
      by (simp add: assms(1) shouldRerunFailedTask_def Let_def)
    then show ?thesis using Some f False by (auto simp: handleFailedTask_def)
  qed
qed

lemma reruns_use_up_retries_witness:
  "case handleFailedTask (abort_sample\<lparr>ab_tasks := [(blank_task ''a'')\<lparr>status := Failed\<rparr>]\<rparr>)
      (no_limits\<lparr>lim_maxRetriesPerTask := Some (Fin (of_nat 2))\<rparr>) (Stamp ''t'' (Some 1)) of
     Some (RerunTasks ts) \<Rightarrow> reruns_left 2 ts < 2 | _ \<Rightarrow> True"
  using reruns_use_up_retries [where n = 2 and now = "Stamp ''t'' (Some 1)"
      and lims = "no_limits\<lparr>lim_maxRetriesPerTask := Some (Fin (of_nat 2))\<rparr>"
      and c = "abort_sample\<lparr>ab_tasks := [(blank_task ''a'')\<lparr>status := Failed\<rparr>]\<rparr>"]
  by (auto simp: reruns_left_def split: option.splits failed_outcome.splits)

end
