(* ===== verification/StaleReconciler.thy ===== *)
theory StaleReconciler
  imports RunModel
begin

text \<open>
  Reconciliation of runs whose owner may have died, \<open>reconcileStaleRun\<close> of
  \<open>src/src/runtime/stale-reconciler.ts\<close> with the checks it is made of. What it asks the system
  is a record: the approval of the plan record, a live registry entry, the start times of the
  recorded process around the probe, and which processes are alive. Process reaping, agent
  records and the text of the details are left out.
\<close>

subsection \<open>Probes\<close>

record probes =
  pb_planRecord :: "approval_status option"
  pb_liveEntry :: bool
  pb_startBefore :: "rat option"
  pb_startAfter :: "rat option"
  pb_alive :: "rat \<Rightarrow> bool"

datatype pid_status = NoPidRecorded | PidRecycled | PidAlive | PidDead

text \<open>\<open>checkProcessLiveness\<close> asks the system about positive integers only.\<close>

definition valid_pid :: "jsnum \<Rightarrow> bool" where
  "valid_pid p \<longleftrightarrow> (case p of Fin r \<Rightarrow> r = of_int \<lfloor>r\<rfloor> \<and> 0 < r | _ \<Rightarrow> False)"

definition checkPidLiveness :: "jsnum option \<Rightarrow> probes \<Rightarrow> pid_status" where
  "checkPidLiveness pid pb =
     (case pid of
        Some (Fin r) \<Rightarrow>
          if \<not> valid_pid (Fin r) then NoPidRecorded
          else if pb_startBefore pb \<noteq> None \<and> pb_startAfter pb \<noteq> None \<and>
                  pb_startBefore pb \<noteq> pb_startAfter pb then PidRecycled
          else if pb_alive pb r then PidAlive else PidDead
      | _ \<Rightarrow> NoPidRecorded)"

subsection \<open>Evidence of work\<close>

definition STALE_ALIVE_PID_MS :: int where "STALE_ALIVE_PID_MS = 24 * 60 * 60 * 1000"
definition ACTIVE_EVIDENCE_TTL_MS :: int where "ACTIVE_EVIDENCE_TTL_MS = 5 * 60 * 1000"
definition NO_PID_HEARTBEAT_STALE_MS :: int where "NO_PID_HEARTBEAT_STALE_MS = 5 * 60 * 1000"
definition ALIVE_PID_TRUST_CAP_MS :: int where "ALIVE_PID_TRUST_CAP_MS = 30 * 60 * 1000"
definition MAX_SAFE_INTEGER :: int where "MAX_SAFE_INTEGER = 9007199254740991"

text \<open>The time of an optional timestamp, \<open>None\<close> for the \<open>NaN\<close> of a missing or unreadable one.\<close>

definition time_of :: "stamp option \<Rightarrow> int option" where
  "time_of x = (if has_stamp x then stamp_ms (the x) else None)"

definition heartbeat_at :: "team_task \<Rightarrow> int option" where
  "heartbeat_at t = time_of (map_option hb_lastSeenAt (heartbeat t))"

definition activity_at :: "team_task \<Rightarrow> int option" where
  "activity_at t = time_of (lastActivityAt t)"

definition task_busy :: "team_task \<Rightarrow> bool" where
  "task_busy t \<longleftrightarrow> status t = Running \<or> status t = Waiting"

definition recent_evidence :: "int \<Rightarrow> team_task \<Rightarrow> bool" where
  "recent_evidence now t \<longleftrightarrow>
     (case heartbeat_at t of
        None \<Rightarrow> False
      | Some h \<Rightarrow> (\<not> (\<exists>b. heartbeat t = Some b \<and> hb_alive b = Some False)) \<and>
          now - h \<le> ACTIVE_EVIDENCE_TTL_MS) \<or>
     (case activity_at t of None \<Rightarrow> False | Some a \<Rightarrow> now - a \<le> ACTIVE_EVIDENCE_TTL_MS)"

definition hasRecentActiveEvidence :: "team_task list \<Rightarrow> int \<Rightarrow> bool" where
  "hasRecentActiveEvidence tasks now \<longleftrightarrow> list_ex (\<lambda>t. task_busy t \<and> recent_evidence now t) tasks"

definition task_pid :: "team_task \<Rightarrow> nat option" where
  "task_pid t =
     (case heartbeat t of
        Some h \<Rightarrow>
          (case hb_pid h of
             Some p \<Rightarrow> Some p
           | None \<Rightarrow> (case checkpoint t of None \<Rightarrow> None | Some c \<Rightarrow> ck_childPid c))
      | None \<Rightarrow> (case checkpoint t of None \<Rightarrow> None | Some c \<Rightarrow> ck_childPid c))"

definition task_pid_alive :: "probes \<Rightarrow> team_task \<Rightarrow> bool" where
  "task_pid_alive pb t \<longleftrightarrow>
     (case task_pid t of None \<Rightarrow> False | Some p \<Rightarrow> p \<noteq> 0 \<and> pb_alive pb (of_nat p))"

definition idle_ms :: "team_task \<Rightarrow> int \<Rightarrow> int" where
  "idle_ms t now =
     min (case heartbeat_at t of None \<Rightarrow> MAX_SAFE_INTEGER | Some h \<Rightarrow> now - h)
         (case activity_at t of None \<Rightarrow> MAX_SAFE_INTEGER | Some a \<Rightarrow> now - a)"

definition isTaskHeartbeatStale :: "probes \<Rightarrow> team_task \<Rightarrow> int \<Rightarrow> bool" where
  "isTaskHeartbeatStale pb t now =
     (if heartbeat_at t = None \<and> activity_at t = None then False
      else if idle_ms t now \<le> NO_PID_HEARTBEAT_STALE_MS then False
      else if task_pid_alive pb t \<and> idle_ms t now \<le> ALIVE_PID_TRUST_CAP_MS then False
      else True)"

definition getRunningTaskStaleness :: "probes \<Rightarrow> team_task list \<Rightarrow> int \<Rightarrow> bool \<times> string list" where
  "getRunningTaskStaleness pb tasks now =
     (let runningTasks = filter task_busy tasks;
          staleTaskIds = map task_id (filter (\<lambda>t. isTaskHeartbeatStale pb t now) runningTasks)
      in if length runningTasks = 0 then (False, [])
         else (length staleTaskIds = length runningTasks, staleTaskIds))"

subsection \<open>Results and repairs\<close>

definition checkResultFile :: "run_manifest \<Rightarrow> team_task list \<Rightarrow> run_manifest option" where
  "checkResultFile m tasks =
     (if 0 < length tasks \<and> list_all (\<lambda>t. status t \<in> {Completed, Failed, Cancelled, Skipped, NeedsAttention}) tasks
      then Some (m\<lparr>rm_status :=
        (if list_ex (\<lambda>t. status t = Failed \<or> status t = NeedsAttention) tasks then RFailed
         else if list_all (\<lambda>t. status t = Cancelled \<or> status t = Skipped) tasks then RCancelled
         else RCompleted)\<rparr>)
      else None)"

text \<open>The age in seconds that the message prints, rounded as \<open>Math.round\<close> does.\<close>

definition buildStaleReconcileError :: "team_task \<Rightarrow> string \<Rightarrow> int \<Rightarrow> string" where
  "buildStaleReconcileError t reason now =
     ''Stale run reconciled (reason='' @ reason @ '').'' @
     (case heartbeat t of
        None \<Rightarrow> []
      | Some h \<Rightarrow>
          if stamp_text (hb_lastSeenAt h) = [] then []
          else '' Last heartbeat was '' @
            (case stamp_ms (hb_lastSeenAt h) of
               None \<Rightarrow> ''NaN''
             | Some s \<Rightarrow> show_int ((2 * (now - s) + 1000) div 2000)) @ ''s ago.'') @
     '' The worker stopped heartbeating and was treated as dead/zombie.''"

definition repair_task :: "string \<Rightarrow> int \<Rightarrow> stamp \<Rightarrow> team_task \<Rightarrow> team_task" where
  "repair_task reason now stamp t =
     t\<lparr>status := Cancelled, finishedAt := Some stamp,
       task_error := Some (buildStaleReconcileError t reason now)\<rparr>"

definition repairStaleRun ::
    "team_task list \<Rightarrow> string \<Rightarrow> string set option \<Rightarrow> int \<Rightarrow> stamp \<Rightarrow> team_task list" where
  "repairStaleRun tasks reason onlyTaskIds now stamp =
     map (\<lambda>t. if (case onlyTaskIds of None \<Rightarrow> True | Some ids \<Rightarrow> task_id t \<in> ids) \<and>
                 (status t = Running \<or> status t = Queued \<or> status t = Waiting)
              then repair_task reason now stamp t else t) tasks"

definition evaluateStaleness :: "run_manifest \<Rightarrow> bool \<Rightarrow> int \<Rightarrow> bool \<times> string" where
  "evaluateStaleness m pidAlive now =
     (if \<not> pidAlive then (True, ''pid_dead'')
      else case stamp_ms (rm_updatedAt m) of
          None \<Rightarrow> (False, ''updated_at_invalid'')
        | Some updatedAt \<Rightarrow>
            if now - updatedAt > STALE_ALIVE_PID_MS
            then (True, ''alive_but_stale_'' @ show_int ((2 * (now - updatedAt) + 3600000) div 7200000) @ ''h'')
            else (False, ''alive_and_recent''))"

datatype verdict =
    Healthy | BlockedAwaitingApproval | WaitingAnswer | ResultExists | VPidDead | VPidAliveStale
  | NoStatus | RequeuedNoClaim

record reconcile_result =
  rc_verdict :: verdict
  rc_repaired :: bool
  rc_repairedTasks :: "team_task list option"
  rc_persistTasks :: "team_task list option"
  rc_manifest :: run_manifest

definition untouched :: "verdict \<Rightarrow> run_manifest \<Rightarrow> reconcile_result" where
  "untouched v m =
     \<lparr> rc_verdict = v, rc_repaired = False, rc_repairedTasks = None, rc_persistTasks = None,
       rc_manifest = m \<rparr>"

definition repaired_all :: "verdict \<Rightarrow> team_task list \<Rightarrow> run_manifest \<Rightarrow> reconcile_result" where
  "repaired_all v ts m =
     \<lparr> rc_verdict = v, rc_repaired = True, rc_repairedTasks = Some ts, rc_persistTasks = None,
       rc_manifest = m \<rparr>"

definition reconcileStaleRun ::
    "probes \<Rightarrow> run_manifest \<Rightarrow> team_task list \<Rightarrow> int \<Rightarrow> stamp \<Rightarrow> reconcile_result" where
  "reconcileStaleRun pb m tasks now stamp =
     (if isPlanApprovalPendingEffective (pb_planRecord pb) m then untouched BlockedAwaitingApproval m
      else if isWaitAnswerPending m now then untouched WaitingAnswer m
      else if pb_liveEntry pb then untouched Healthy m
      else case checkResultFile m tasks of
          Some m' \<Rightarrow> untouched ResultExists m'
        | None \<Rightarrow>
            (let pidStatus = checkPidLiveness (rm_asyncPid m) pb
             in if pidStatus = NoPidRecorded
                then if hasRecentActiveEvidence tasks now then untouched NoStatus m
                     else let (allStale, staleTaskIds) = getRunningTaskStaleness pb tasks now
                          in if allStale
                             then repaired_all NoStatus
                                    (repairStaleRun tasks ''no_pid_heartbeat_stale'' None now stamp) m
                             else if 0 < length staleTaskIds
                             then let repaired = repairStaleRun tasks ''no_pid_individual_stale_task''
                                                   (Some (set staleTaskIds)) now stamp
                                  in \<lparr> rc_verdict = NoStatus, rc_repaired = True,
                                       rc_repairedTasks =
                                         Some (filter (\<lambda>t. task_id t \<in> set staleTaskIds) repaired),
                                       rc_persistTasks = Some repaired, rc_manifest = m \<rparr>
                             else case stamp_ms (rm_updatedAt m) of
                                 None \<Rightarrow> untouched NoStatus m
                               | Some updatedAt \<Rightarrow>
                                   if now - updatedAt > STALE_ALIVE_PID_MS
                                   then repaired_all NoStatus
                                          (repairStaleRun tasks ''no_pid_stale'' None now stamp) m
                                   else untouched NoStatus m
                else let pidAlive = (pidStatus = PidAlive);
                         (stale, reason) = evaluateStaleness m pidAlive now
                     in if \<not> stale then untouched Healthy m
                        else repaired_all (if pidAlive then VPidAliveStale else VPidDead)
                               (repairStaleRun tasks reason None now stamp) m))"

text \<open>What a caller writes back: the full list when there is one, else the repaired tasks.\<close>

definition persisted :: "team_task list \<Rightarrow> reconcile_result \<Rightarrow> team_task list" where
  "persisted tasks r = nullish (rc_persistTasks r) (nullish (rc_repairedTasks r) tasks)"

subsection \<open>Who is cancelled\<close>

definition unfinished :: "team_task \<Rightarrow> bool" where
  "unfinished t \<longleftrightarrow> status t = Running \<or> status t = Queued \<or> status t = Waiting"

definition busy_stale :: "probes \<Rightarrow> int \<Rightarrow> team_task \<Rightarrow> bool" where
  "busy_stale pb now t \<longleftrightarrow> task_busy t \<and> isTaskHeartbeatStale pb t now"

definition not_updated_for_a_day :: "run_manifest \<Rightarrow> int \<Rightarrow> bool" where
  "not_updated_for_a_day m now \<longleftrightarrow>
     (case stamp_ms (rm_updatedAt m) of None \<Rightarrow> False | Some u \<Rightarrow> now - u > STALE_ALIVE_PID_MS)"

text \<open>
  The rule by which a task is cancelled. Without a recorded process: nobody shows recent work, and
  either the task itself is stale, or every busy task is, or none is but the run was not
  updated for a day.
\<close>

definition cancelled_by_reconcile ::
    "probes \<Rightarrow> run_manifest \<Rightarrow> team_task list \<Rightarrow> int \<Rightarrow> team_task \<Rightarrow> bool" where
  "cancelled_by_reconcile pb m tasks now t \<longleftrightarrow>
     unfinished t \<and> \<not> isIntentionalWait (pb_planRecord pb) m now \<and> \<not> pb_liveEntry pb \<and>
     (case checkPidLiveness (rm_asyncPid m) pb of
        NoPidRecorded \<Rightarrow>
          \<not> hasRecentActiveEvidence tasks now \<and>
          (busy_stale pb now t \<or>
           (\<exists>u \<in> set tasks. busy_stale pb now u) \<and> (\<forall>u \<in> set tasks. task_busy u \<longrightarrow> busy_stale pb now u) \<or>
           (\<forall>u \<in> set tasks. \<not> busy_stale pb now u) \<and> not_updated_for_a_day m now)
      | PidAlive \<Rightarrow> not_updated_for_a_day m now
      | PidDead \<Rightarrow> True
      | PidRecycled \<Rightarrow> True)"

lemma repair_all_map:
  "repairStaleRun tasks reason None now stamp =
     map (\<lambda>t. if unfinished t then repair_task reason now stamp t else t) tasks"
  by (simp add: repairStaleRun_def unfinished_def)

lemma repair_some_map:
  "repairStaleRun tasks reason (Some ids) now stamp =
     map (\<lambda>t. if task_id t \<in> ids \<and> unfinished t then repair_task reason now stamp t else t) tasks"
  by (simp add: repairStaleRun_def unfinished_def)

lemma checkResultFile_finished:
  "checkResultFile m tasks = Some m' \<Longrightarrow> t \<in> set tasks \<Longrightarrow> \<not> unfinished t"
  by (auto simp: checkResultFile_def unfinished_def list_all_iff split: if_splits)

lemma staleness_ids:
  "set (snd (getRunningTaskStaleness pb tasks now)) = task_id ` {t \<in> set tasks. busy_stale pb now t}"
  by (auto simp: getRunningTaskStaleness_def Let_def busy_stale_def filter_empty_conv)

lemma staleness_all:
  "fst (getRunningTaskStaleness pb tasks now) \<longleftrightarrow>
     (\<exists>t \<in> set tasks. task_busy t) \<and> (\<forall>t \<in> set tasks. task_busy t \<longrightarrow> busy_stale pb now t)"
proof -
  have "length (filter (\<lambda>t. isTaskHeartbeatStale pb t now) xs) = length xs \<longleftrightarrow>
      (\<forall>t \<in> set xs. isTaskHeartbeatStale pb t now)" for xs
    by (metis filter_True filter_id_conv length_filter_less less_irrefl)
  from this [of "filter task_busy tasks"] show ?thesis
    by (auto simp: getRunningTaskStaleness_def Let_def busy_stale_def filter_empty_conv)
qed

lemma map_if_same: "(\<And>t. t \<in> set ts \<Longrightarrow> P t = Q t) \<Longrightarrow>
  map (\<lambda>t. if P t then f t else t) ts = map (\<lambda>t. if Q t then f t else t) ts"
  by simp

lemma map_if_none: "(\<And>t. t \<in> set ts \<Longrightarrow> \<not> P t) \<Longrightarrow> map (\<lambda>t. if P t then f t else t) ts = ts"
  by (simp add: map_idI)

lemma untouched_persisted [simp]: "persisted tasks (untouched v m) = tasks"
  by (simp add: persisted_def untouched_def)

lemma repaired_persisted [simp]: "persisted tasks (repaired_all v ts m) = ts"
  by (simp add: persisted_def repaired_all_def)

lemma reconcile_with_pid:
  assumes "checkPidLiveness (rm_asyncPid m) pb \<noteq> NoPidRecorded" and "checkResultFile m tasks = None"
    and "\<not> isIntentionalWait (pb_planRecord pb) m now" and "\<not> pb_liveEntry pb"
  shows "\<exists>reason. persisted tasks (reconcileStaleRun pb m tasks now stamp) =
    map (\<lambda>t. if cancelled_by_reconcile pb m tasks now t then repair_task reason now stamp t else t) tasks"
proof -
  let ?alive = "checkPidLiveness (rm_asyncPid m) pb = PidAlive"
  obtain stale reason where e: "evaluateStaleness m ?alive now = (stale, reason)" by fastforce
  have stale: "stale \<longleftrightarrow> \<not> ?alive \<or> not_updated_for_a_day m now"
    using e by (auto simp: evaluateStaleness_def not_updated_for_a_day_def split: if_splits option.splits)
  have "persisted tasks (reconcileStaleRun pb m tasks now stamp) =
      map (\<lambda>t. if stale \<and> unfinished t then repair_task reason now stamp t else t) tasks"
    using assms e by (simp add: reconcileStaleRun_def isIntentionalWait_def Let_def repair_all_map)
  also have "\<dots> = map (\<lambda>t. if cancelled_by_reconcile pb m tasks now t
      then repair_task reason now stamp t else t) tasks"
    using assms stale
    by (intro map_if_same) (auto simp: cancelled_by_reconcile_def split: pid_status.splits)
  finally show ?thesis by blast
qed

lemma reconcile_without_pid:
  assumes "checkPidLiveness (rm_asyncPid m) pb = NoPidRecorded" and "checkResultFile m tasks = None"
    and "\<not> isIntentionalWait (pb_planRecord pb) m now" and "\<not> pb_liveEntry pb"
    and "distinct (map task_id tasks)"
  shows "\<exists>reason. persisted tasks (reconcileStaleRun pb m tasks now stamp) =
    map (\<lambda>t. if cancelled_by_reconcile pb m tasks now t then repair_task reason now stamp t else t) tasks"
proof (cases "hasRecentActiveEvidence tasks now")
  case True
  then have "\<not> cancelled_by_reconcile pb m tasks now t" for t
    using assms(1) by (simp add: cancelled_by_reconcile_def)
  then show ?thesis using assms True
    by (simp add: reconcileStaleRun_def isIntentionalWait_def Let_def)
next
  case False
  let ?c = "cancelled_by_reconcile pb m tasks now"
  have c: "?c t \<longleftrightarrow> unfinished t \<and> (busy_stale pb now t \<or>
      (\<exists>u \<in> set tasks. busy_stale pb now u) \<and> (\<forall>u \<in> set tasks. task_busy u \<longrightarrow> busy_stale pb now u) \<or>
      (\<forall>u \<in> set tasks. \<not> busy_stale pb now u) \<and> not_updated_for_a_day m now)" for t
    using assms False by (simp add: cancelled_by_reconcile_def)
  obtain allS ids where s: "getRunningTaskStaleness pb tasks now = (allS, ids)" by fastforce
  have ids: "set ids = task_id ` {t \<in> set tasks. busy_stale pb now t}"
    using staleness_ids [of pb tasks now] s by simp
  have allS: "allS \<longleftrightarrow> (\<exists>t \<in> set tasks. task_busy t) \<and> (\<forall>t \<in> set tasks. task_busy t \<longrightarrow> busy_stale pb now t)"
    using staleness_all [of pb tasks now] s by simp
  have busy: "busy_stale pb now t \<Longrightarrow> task_busy t" for t by (simp add: busy_stale_def)
  consider "allS" | "\<not> allS" "ids \<noteq> []" | "\<not> allS" "ids = []" by blast
  then show ?thesis
  proof cases
    case 1
    then have "?c t \<longleftrightarrow> unfinished t" if "t \<in> set tasks" for t
      unfolding c using allS by blast
    then show ?thesis
      using assms False s 1
      by (auto simp: reconcileStaleRun_def isIntentionalWait_def Let_def repair_all_map
          intro!: exI [of _ "''no_pid_heartbeat_stale''"])
  next
    case 2
    then have "\<exists>u \<in> set tasks. busy_stale pb now u" using ids by (cases ids) auto
    then have "?c t \<longleftrightarrow> unfinished t \<and> busy_stale pb now t" for t
      unfolding c using 2 allS busy by blast
    moreover have "task_id t \<in> set ids \<longleftrightarrow> busy_stale pb now t" if "t \<in> set tasks" for t
      using that assms(5) unfolding ids by (auto simp: distinct_map dest: inj_onD)
    ultimately show ?thesis
      using assms False s 2
      by (auto simp: reconcileStaleRun_def isIntentionalWait_def Let_def repair_some_map persisted_def
          intro!: exI [of _ "''no_pid_individual_stale_task''"])
  next
    case 3
    then have "\<forall>u \<in> set tasks. \<not> busy_stale pb now u" using ids by auto
    then have "?c t \<longleftrightarrow> unfinished t \<and> not_updated_for_a_day m now" if "t \<in> set tasks" for t
      unfolding c using that by blast
    then show ?thesis
      using assms False s 3
      by (auto simp: reconcileStaleRun_def isIntentionalWait_def Let_def repair_all_map
          not_updated_for_a_day_def map_idI intro!: exI [of _ "''no_pid_stale''"] split: option.splits)
  qed
qed

lemma reconcile_map:
  assumes "distinct (map task_id tasks)"
  shows "\<exists>reason. persisted tasks (reconcileStaleRun pb m tasks now stamp) =
    map (\<lambda>t. if cancelled_by_reconcile pb m tasks now t then repair_task reason now stamp t else t) tasks"
proof (cases "isIntentionalWait (pb_planRecord pb) m now \<or> pb_liveEntry pb \<or>
    checkResultFile m tasks \<noteq> None")
  case True
  then have "persisted tasks (reconcileStaleRun pb m tasks now stamp) = tasks"
    by (auto simp: reconcileStaleRun_def isIntentionalWait_def)
  moreover have "\<not> cancelled_by_reconcile pb m tasks now t" if "t \<in> set tasks" for t
    using True that checkResultFile_finished [of m tasks _ t] by (auto simp: cancelled_by_reconcile_def)
  ultimately show ?thesis using map_if_none by metis
next
  case False
  then show ?thesis
    using assms reconcile_with_pid [of m pb tasks now] reconcile_without_pid [of m pb tasks now]
    by (cases "checkPidLiveness (rm_asyncPid m) pb = NoPidRecorded") auto
qed

text \<open>
  C20. Reconciliation cancels a task exactly when the rule \<open>cancelled_by_reconcile\<close> says so, and what it
  gives to be written back has every other task of the run, unchanged and in place: no task of a run that
  waits for a person or is owned by a live session is cancelled, no finished task, and none of a run
  whose recorded process is alive and wrote within a day.
\<close>

theorem reconcile_exact:
  assumes "distinct (map task_id tasks)"
  shows "\<exists>reason. persisted tasks (reconcileStaleRun pb m tasks now stamp) =
    map (\<lambda>t. if cancelled_by_reconcile pb m tasks now t then repair_task reason now stamp t else t) tasks"
  using assms by (rule reconcile_map)

definition no_probes :: probes where
  "no_probes =
     \<lparr> pb_planRecord = None, pb_liveEntry = False, pb_startBefore = None, pb_startAfter = None,
       pb_alive = (\<lambda>_. False) \<rparr>"

definition beating :: "string \<Rightarrow> int \<Rightarrow> team_task" where
  "beating i ms =
     (blank_task i)\<lparr>status := Running,
        heartbeat := Some \<lparr> hb_workerId = i, hb_pid = None, hb_lastSeenAt = Stamp ''t'' (Some ms),
                            hb_alive = Some True \<rparr>\<rparr>"

lemma beating_simps:
  "status (beating i ms) = Running" "task_id (beating i ms) = i"
  "heartbeat_at (beating i ms) = Some ms" "activity_at (beating i ms) = None"
  "task_pid (beating i ms) = None"
  by (simp_all add: beating_def heartbeat_at_def activity_at_def time_of_def task_pid_def)

lemma reconcile_exact_witness:
  "\<exists>reason. persisted [beating ''a'' 0, blank_task ''b'']
      (reconcileStaleRun no_probes (sample_manifest RRunning) [beating ''a'' 0, blank_task ''b'']
        600000 (Stamp ''u'' (Some 600000))) =
    [repair_task reason 600000 (Stamp ''u'' (Some 600000)) (beating ''a'' 0),
     repair_task reason 600000 (Stamp ''u'' (Some 600000)) (blank_task ''b'')]"
proof -
  let ?ts = "[beating ''a'' 0, blank_task ''b'']"
  have d: "distinct (map task_id ?ts)" by (simp add: beating_simps)
  have s: "busy_stale no_probes 600000 (beating ''a'' 0)"
    by (simp add: busy_stale_def task_busy_def beating_simps isTaskHeartbeatStale_def idle_ms_def
        NO_PID_HEARTBEAT_STALE_MS_def MAX_SAFE_INTEGER_def task_pid_alive_def)
  have "\<not> hasRecentActiveEvidence ?ts 600000"
    by (simp add: hasRecentActiveEvidence_def task_busy_def recent_evidence_def beating_simps
        ACTIVE_EVIDENCE_TTL_MS_def)
  then have "cancelled_by_reconcile no_probes (sample_manifest RRunning) ?ts 600000 (beating ''a'' 0)"
    "cancelled_by_reconcile no_probes (sample_manifest RRunning) ?ts 600000 (blank_task ''b'')"
    using s by (simp_all add: cancelled_by_reconcile_def unfinished_def beating_simps no_probes_def
        isIntentionalWait_def isPlanApprovalPendingEffective_def isPlanApprovalPending_def
        isWaitAnswerPending_def checkPidLiveness_def task_busy_def)
  with reconcile_exact [OF d, of no_probes "sample_manifest RRunning" 600000 "Stamp ''u'' (Some 600000)"]
  show ?thesis by simp
qed

text \<open>
  One healthy worker hides every dead one in a run without a recorded process: while some busy
  task of the run beats or works, reconciliation repairs nothing, however long another task has been
  silent, although the branch for single stale tasks is meant for that case.
\<close>

theorem healthy_worker_hides_zombies:
  assumes "checkPidLiveness (rm_asyncPid m) pb = NoPidRecorded"
    and "t \<in> set tasks" and "task_busy t" and "recent_evidence now t"
  shows "rc_repaired (reconcileStaleRun pb m tasks now stamp) = False \<and>
    persisted tasks (reconcileStaleRun pb m tasks now stamp) = tasks"
proof -
  have "hasRecentActiveEvidence tasks now"
    using assms by (auto simp: hasRecentActiveEvidence_def list_ex_iff)
  then show ?thesis
    using assms(1) by (simp add: reconcileStaleRun_def untouched_def persisted_def split: option.split)
qed

lemma healthy_worker_hides_zombies_witness:
  "busy_stale no_probes 90000000 (beating ''dead'' 0) \<and>
   rc_repaired (reconcileStaleRun no_probes (sample_manifest RRunning)
     [beating ''dead'' 0, beating ''live'' 90000000] 90000000 (Stamp ''u'' (Some 90000000))) = False"
proof
  show "busy_stale no_probes 90000000 (beating ''dead'' 0)"
    by (simp add: busy_stale_def task_busy_def beating_simps isTaskHeartbeatStale_def idle_ms_def
        NO_PID_HEARTBEAT_STALE_MS_def MAX_SAFE_INTEGER_def task_pid_alive_def)
  have "recent_evidence 90000000 (beating ''live'' 90000000)"
    by (simp add: recent_evidence_def beating_simps ACTIVE_EVIDENCE_TTL_MS_def) (simp add: beating_def)
  then show "rc_repaired (reconcileStaleRun no_probes (sample_manifest RRunning)
     [beating ''dead'' 0, beating ''live'' 90000000] 90000000 (Stamp ''u'' (Some 90000000))) = False"
    by (intro healthy_worker_hides_zombies [where t = "beating ''live'' 90000000", THEN conjunct1])
      (simp_all add: checkPidLiveness_def task_busy_def beating_simps)
qed

text \<open>
  The status that reconciliation gives to a run whose tasks have all ended follows from them: failed
  when one failed or needs attention, cancelled when all were cancelled or skipped, completed otherwise;
  and a run with an unfinished task keeps its status.
\<close>

theorem reconciled_status_exact:
  "rm_status (rc_manifest (reconcileStaleRun pb m tasks now stamp)) =
     (if isIntentionalWait (pb_planRecord pb) m now \<or> pb_liveEntry pb \<or> tasks = [] \<or>
         (\<exists>t \<in> set tasks. unfinished t) then rm_status m
      else if \<exists>t \<in> set tasks. status t \<in> {Failed, NeedsAttention} then RFailed
      else if \<forall>t \<in> set tasks. status t \<in> {Cancelled, Skipped} then RCancelled
      else RCompleted)"
proof -
  have u: "unfinished t \<longleftrightarrow> status t \<notin> {Completed, Failed, Cancelled, Skipped, NeedsAttention}" for t
    by (cases "status t") (simp_all add: unfinished_def)
  have m: "rc_manifest (reconcileStaleRun pb m tasks now stamp) =
      (if isIntentionalWait (pb_planRecord pb) m now \<or> pb_liveEntry pb then m
       else nullish (checkResultFile m tasks) m)"
    by (simp add: reconcileStaleRun_def untouched_def repaired_all_def isIntentionalWait_def Let_def
        split: option.split prod.split)
  show ?thesis unfolding m
    by (auto simp: checkResultFile_def u list_all_iff list_ex_iff)
qed

end
