(* ===== verification/TaskIds.thy ===== *)
theory TaskIds
  imports Prelude
begin

text \<open>
  Ids of tasks, \<open>createTaskId\<close> of \<open>src/src/utils/ids.ts\<close>, over characters of one byte.
\<close>

subsection \<open>The id\<close>

text \<open>\<open>toLowerCase\<close> on the 256 codes of a character.\<close>

definition lower_char :: "char \<Rightarrow> char" where
  "lower_char c =
     (if char_in 65 90 c \<or> char_in 192 222 c \<and> of_char c \<noteq> (215::nat)
      then char_of (of_char c + 32 :: nat) else c)"

definition slug_char :: "char \<Rightarrow> bool" where
  "slug_char c \<longleftrightarrow> char_in 97 122 c \<or> is_digit c \<or> c = CHR ''-''"

text \<open>\<open>replace(/[^a-z0-9-]+/g, "-")\<close>: every longest run of other characters becomes one dash.\<close>

fun dash_runs :: "bool \<Rightarrow> string \<Rightarrow> string" where
  "dash_runs inRun [] = []"
| "dash_runs inRun (c # cs) =
     (if slug_char c then c # dash_runs False cs
      else if inRun then dash_runs True cs else CHR ''-'' # dash_runs True cs)"

text \<open>\<open>replace(/^-+|-+$/g, "")\<close>.\<close>

definition trim_dashes :: "string \<Rightarrow> string" where
  "trim_dashes s =
     rev (dropWhile (\<lambda>c. c = CHR ''-'') (rev (dropWhile (\<lambda>c. c = CHR ''-'') s)))"

definition normalize_id :: "string \<Rightarrow> string" where
  "normalize_id stepId =
     (let s = trim_dashes (dash_runs False (map lower_char stepId)) in if s = [] then ''task'' else s)"

definition pad2 :: "string \<Rightarrow> string" where
  "pad2 s = replicate (2 - length s) (CHR ''0'') @ s"

definition createTaskId :: "string \<Rightarrow> nat \<Rightarrow> string" where
  "createTaskId stepId index = pad2 (show_nat (index + 1)) @ CHR ''_'' # normalize_id stepId"

subsection \<open>Properties\<close>

lemma dash_runs_chars: "list_all slug_char (dash_runs b s)"
  by (induction b s rule: dash_runs.induct) (auto simp: slug_char_def)

lemma set_trim_dashes: "set (trim_dashes s) \<subseteq> set s"
  by (auto simp: trim_dashes_def dest!: set_dropWhileD)

lemma normalize_id_chars: "list_all slug_char (normalize_id s)"
proof -
  have "list_all slug_char (trim_dashes (dash_runs False (map lower_char s)))"
    using dash_runs_chars set_trim_dashes by (force simp: list_all_iff)
  then show ?thesis
    by (auto simp: normalize_id_def Let_def slug_char_def is_digit_def char_in_def)
qed

lemma pad2_digits: "list_all is_digit s \<Longrightarrow> list_all is_digit (pad2 s)"
  by (auto simp: pad2_def list_all_iff is_digit_def char_in_def)

lemma parse_digits_zeros: "parse_digits (replicate n (CHR ''0'') @ s) = parse_digits s"
  by (induction n) (simp_all add: parse_digits_def digit_val_def)

lemma parse_pad2: "parse_digits (pad2 s) = parse_digits s"
  by (simp add: pad2_def parse_digits_zeros)

lemma underscore_no_digit: "\<not> is_digit (CHR ''_'')"
  by (simp add: is_digit_def char_in_def)

lemma createTaskId_index: "parse_digits (takeWhile is_digit (createTaskId s i)) = i + 1"
proof -
  have d: "list_all is_digit (pad2 (show_nat (i + 1)))"
    using show_nat_digits [of "i + 1"] by (simp add: pad2_digits)
  show ?thesis
    unfolding createTaskId_def takeWhile_stop [OF d underscore_no_digit]
    by (simp add: parse_pad2 parse_show_nat)
qed

lemma createTaskId_inj: "createTaskId s i = createTaskId r j \<Longrightarrow> i = j"
proof -
  assume e: "createTaskId s i = createTaskId r j"
  have "i + 1 = parse_digits (takeWhile is_digit (createTaskId s i))"
    by (rule createTaskId_index [symmetric])
  also have "\<dots> = j + 1" unfolding e by (rule createTaskId_index)
  finally show "i = j" by simp
qed

definition id_char :: "char \<Rightarrow> bool" where
  "id_char c \<longleftrightarrow> slug_char c \<or> c = CHR ''_''"

lemma createTaskId_chars: "list_all id_char (createTaskId s i)"
proof -
  have "list_all is_digit (pad2 (show_nat (i + 1)))"
    using show_nat_digits [of "i + 1"] by (simp add: pad2_digits)
  then show ?thesis
    using normalize_id_chars [of s]
    by (auto simp: createTaskId_def list_all_iff id_char_def slug_char_def)
qed

lemma createTaskId_no_plus: "CHR ''+'' \<notin> set (createTaskId s i)"
  using createTaskId_chars [of s i]
  by (auto simp: list_all_iff id_char_def slug_char_def is_digit_def char_in_def)

text \<open>A normal id is one that the normalisation leaves alone.\<close>

lemma lower_slug: "slug_char c \<Longrightarrow> lower_char c = c"
  by (auto simp: slug_char_def lower_char_def is_digit_def char_in_def)

lemma dash_runs_id: "list_all slug_char s \<Longrightarrow> dash_runs b s = s"
  by (induction b s rule: dash_runs.induct) auto

lemma trim_dashes_idem: "trim_dashes (trim_dashes s) = trim_dashes s"
proof -
  let ?d = "\<lambda>c. c = CHR ''-''"
  show ?thesis
  proof (cases "trim_dashes s = []")
    case False
    let ?t = "dropWhile ?d s"
    have t: "?t \<noteq> []"
    proof
      assume "?t = []"
      then have "trim_dashes s = []" unfolding trim_dashes_def by (simp only: rev.simps dropWhile.simps)
      with False show False by simp
    qed
    then have "\<not> ?d (hd ?t)" by (rule hd_dropWhile)
    then obtain x xs where x: "?t = x # xs" "\<not> ?d x" using t by (cases ?t) auto
    have "\<exists>ys. dropWhile ?d (us @ [x]) = ys @ [x]" for us
      using x(2) by (induction us) simp_all
    then obtain ys where ys: "dropWhile ?d (rev xs @ [x]) = ys @ [x]" by blast
    then have r: "trim_dashes s = x # rev ys" unfolding trim_dashes_def x(1) by simp
    have "dropWhile ?d (ys @ [x]) = ys @ [x]"
      unfolding ys [symmetric] by (rule dropWhile_idem)
    then show ?thesis unfolding r using x(2) by (simp add: trim_dashes_def)
  next
    case True
    then show ?thesis unfolding True by (simp add: trim_dashes_def)
  qed
qed

lemma normalize_fixed:
  "list_all slug_char s \<Longrightarrow> trim_dashes s = s \<Longrightarrow> s \<noteq> [] \<Longrightarrow> normalize_id s = s"
proof -
  assume a: "list_all slug_char s" and t: "trim_dashes s = s" "s \<noteq> []"
  have "map lower_char s = s"
    by (rule map_idI) (use a in \<open>auto simp: list_all_iff lower_slug\<close>)
  then have "trim_dashes (dash_runs False (map lower_char s)) = s"
    by (simp only: dash_runs_id [OF a] t(1))
  then show "normalize_id s = s" using t(2) by (simp only: normalize_id_def Let_def if_False)
qed

lemma normalize_idem: "normalize_id (normalize_id s) = normalize_id s"
proof (cases "trim_dashes (dash_runs False (map lower_char s)) = []")
  case True
  have "normalize_id ''task'' = ''task''"
    by (rule normalize_fixed) (simp_all add: slug_char_def char_in_def trim_dashes_def)
  with True show ?thesis by (simp add: normalize_id_def)
next
  case False
  then have "normalize_id s = trim_dashes (dash_runs False (map lower_char s))"
    by (simp add: normalize_id_def)
  then show ?thesis
    using False normalize_id_chars [of s] by (intro normalize_fixed) (simp_all add: trim_dashes_idem)
qed

text \<open>
  C28. Task ids are safe and unique: an id is made of lower-case letters, digits, dashes and
  underscores only, whatever the step is called; two steps at different places of a workflow never
  get the same id, even under the same name; and naming a step by its normalised name changes
  nothing.
\<close>

theorem task_ids_safe_and_unique:
  "list_all id_char (createTaskId s i) \<and>
   (createTaskId s i = createTaskId r j \<longrightarrow> i = j) \<and>
   createTaskId (normalize_id s) i = createTaskId s i"
proof (intro conjI impI)
  show "list_all id_char (createTaskId s i)" by (rule createTaskId_chars)
  show "createTaskId s i = createTaskId r j \<Longrightarrow> i = j" by (rule createTaskId_inj)
  show "createTaskId (normalize_id s) i = createTaskId s i"
    by (simp only: createTaskId_def normalize_idem)
qed

lemma task_ids_safe_and_unique_witness:
  "createTaskId ''Read  the Docs!'' 0 = ''01_read-the-docs'' \<and>
   createTaskId ''x'' 0 \<noteq> createTaskId ''x'' 11"
proof
  show "createTaskId ''Read  the Docs!'' 0 = ''01_read-the-docs''" by code_simp
  show "createTaskId ''x'' 0 \<noteq> createTaskId ''x'' 11"
    using task_ids_safe_and_unique [of "''x''" 0 "''x''" 11] by simp
qed

end
