(* ===== verification/WorkflowChecks.thy ===== *)
theory WorkflowChecks
  imports WorkflowModel ExecutionPlan
begin

text \<open>
  Static checks of a workflow: \<open>src/src/workflows/validate-workflow.ts\<close> and the shape
  classification of \<open>src/src/workflows/topology-analyzer.ts\<close> (without its reason texts). The recursive
  \<open>visit\<close> takes its depth as fuel, as the search for cycles of the plan does.
\<close>

subsection \<open>Messages\<close>

text \<open>The long dash of one message is a hyphen here.\<close>

definition msg_duplicate :: "string \<Rightarrow> string" where
  "msg_duplicate i = ''Duplicate workflow step id '' @ quoted i @ ''.''"

definition msg_unknown_role :: "string \<Rightarrow> string \<Rightarrow> bool \<Rightarrow> string" where
  "msg_unknown_role i r distill =
     ''Step '' @ quoted i @ '' references unknown team role '' @ quoted r @ ''.'' @
     (if distill then '' (run with team='' @ quoted ''implementation'' @
        '' - needs analyst+critic roles)'' else [])"

definition msg_unknown_dep :: "string \<Rightarrow> string \<Rightarrow> string" where
  "msg_unknown_dep i d = ''Step '' @ quoted i @ '' depends on unknown step '' @ quoted d @ ''.''"

definition msg_bad_output :: "string \<Rightarrow> string \<Rightarrow> string" where
  "msg_bad_output i ty =
     ''Step '' @ quoted i @ '' has invalid '' @ quoted ''output'' @
     '' field: expected string or false, got '' @ ty @ ''.''"

definition msg_empty_output :: "string \<Rightarrow> string" where
  "msg_empty_output i = ''Step '' @ quoted i @ '' has empty '' @ quoted ''output'' @ '' string.''"

definition msg_cycle :: "string list \<Rightarrow> string" where
  "msg_cycle trail = ''Workflow dependency cycle detected: '' @ join '' -> '' trail @ ''.''"

subsection \<open>The checks\<close>

fun step_errors :: "string set \<Rightarrow> bool \<Rightarrow> workflow_step list \<Rightarrow> string list \<Rightarrow> string list" where
  "step_errors roles distill [] seen = []"
| "step_errors roles distill (s # ss) seen =
     (if ws_id s \<in> set seen then [msg_duplicate (ws_id s)] else []) @
     (if ws_role s \<notin> roles then [msg_unknown_role (ws_id s) (ws_role s) distill] else []) @
     step_errors roles distill ss (js_set_add (ws_id s) seen)"

definition dep_errors :: "workflow_step list \<Rightarrow> string list" where
  "dep_errors steps =
     concat (map (\<lambda>s. map (msg_unknown_dep (ws_id s))
       (filter (\<lambda>d. d \<notin> set (map ws_id steps)) (step_deps s))) steps)"

definition blank_text :: "string \<Rightarrow> bool" where
  "blank_text t \<longleftrightarrow> list_all js_space t"

definition output_errors :: "workflow_step list \<Rightarrow> string list" where
  "output_errors steps =
     concat (map (\<lambda>s. case ws_output s of
         Some (OutOther ty) \<Rightarrow> [msg_bad_output (ws_id s) ty]
       | Some (OutPath p) \<Rightarrow> if blank_text p then [msg_empty_output (ws_id s)] else []
       | _ \<Rightarrow> []) steps)"

record visit_state =
  vs_visiting :: "string list"
  vs_visited :: "string list"
  vs_errors :: "string list"

definition by_id_deps :: "workflow_step list \<Rightarrow> string \<Rightarrow> string list" where
  "by_id_deps steps i =
     (case index_by ws_id steps i of None \<Rightarrow> [] | Some s \<Rightarrow> step_deps s)"

fun visit :: "nat \<Rightarrow> (string \<Rightarrow> string list) \<Rightarrow> string list \<Rightarrow> string \<Rightarrow> visit_state \<Rightarrow> visit_state option"
where
  "visit 0 adj trail i st = None"
| "visit (Suc n) adj trail i st =
     (if i \<in> set (vs_visited st) then Some st
      else if i \<in> set (vs_visiting st)
      then Some (st\<lparr>vs_errors := vs_errors st @ [msg_cycle (trail @ [i])]\<rparr>)
      else map_option (\<lambda>s. s\<lparr>vs_visiting := removeAll i (vs_visiting s),
                              vs_visited := js_set_add i (vs_visited s)\<rparr>)
             (fold_opt (visit n adj (trail @ [i])) (adj i)
               (st\<lparr>vs_visiting := js_set_add i (vs_visiting st)\<rparr>)))"

text \<open>Every id that the search can meet: the steps and what they name.\<close>

definition named_ids :: "workflow_step list \<Rightarrow> string list" where
  "named_ids steps = map ws_id steps @ concat (map step_deps steps)"

definition cycle_errors :: "workflow_step list \<Rightarrow> string list option" where
  "cycle_errors steps =
     map_option vs_errors
       (fold_opt (\<lambda>s. visit (Suc (length (named_ids steps))) (by_id_deps steps) [] (ws_id s)) steps
         \<lparr> vs_visiting = [], vs_visited = [], vs_errors = [] \<rparr>)"

definition validateWorkflowForTeam :: "workflow_config \<Rightarrow> string list \<Rightarrow> string list option" where
  "validateWorkflowForTeam flow roles =
     map_option (\<lambda>ce. fold js_set_add
         (step_errors (set roles) (wf_name flow = ''distill'') (wf_steps flow) [] @
          dep_errors (wf_steps flow) @ output_errors (wf_steps flow) @ ce) [])
       (cycle_errors (wf_steps flow))"

subsection \<open>The recursive check is the search for cycles\<close>

definition sim :: "string set \<Rightarrow> visit_state \<Rightarrow> dfs_state \<Rightarrow> bool" where
  "sim U st dst \<longleftrightarrow>
     (\<forall>i. color dst i = (if i \<in> set (vs_visited st) then Some Black
                         else if i \<in> set (vs_visiting st) then Some Gray
                         else if i \<in> U then Some White else None)) \<and>
     set (path dst) = {i. color dst i = Some Gray} \<and>
     (vs_errors st = [] \<longleftrightarrow> cycles dst = [])"

lemma sim_enter:
  assumes "sim U st dst" and "color dst d = Some White"
  shows "sim U (st\<lparr>vs_visiting := js_set_add d (vs_visiting st)\<rparr>) (enter d dst)"
  using assms by (auto simp: sim_def enter_def split: if_splits)

lemma sim_leave:
  assumes "sim U st dst" and "path dst = p @ [d]" and "d \<notin> set p"
  shows "sim U (st\<lparr>vs_visiting := removeAll d (vs_visiting st),
                   vs_visited := js_set_add d (vs_visited st)\<rparr>) (leave d dst)"
proof -
  have g: "{i. color dst i = Some Gray} = insert d (set p)" using assms by (auto simp: sim_def)
  then have "set p = {i. color (leave d dst) i = Some Gray}"
    using assms(3) by (auto simp: leave_def)
  then show ?thesis using assms by (auto simp: sim_def leave_def)
qed

definition visit_simulates :: "string set \<Rightarrow> (string \<Rightarrow> string list) \<Rightarrow> nat \<Rightarrow> bool" where
  "visit_simulates U adj n \<longleftrightarrow>
     (\<forall>st dst d dst'. sim U st dst \<longrightarrow> d \<in> U \<longrightarrow> visitDep (dfs n adj) d dst = Some dst' \<longrightarrow>
        (\<exists>st'. visit (Suc n) adj (path dst) d st = Some st' \<and> sim U st' dst' \<and> path dst' = path dst))"

lemma visits_simulate:
  assumes "visit_simulates U adj n" and "sim U st dst" and "set ds \<subseteq> U"
    and "fold_opt (visitDep (dfs n adj)) ds dst = Some dst'"
  shows "\<exists>st'. fold_opt (visit (Suc n) adj (path dst)) ds st = Some st' \<and> sim U st' dst' \<and>
    path dst' = path dst"
  using assms(2-)
proof (induction ds arbitrary: st dst)
  case (Cons d ds)
  then obtain dst1 where 1: "visitDep (dfs n adj) d dst = Some dst1"
    "fold_opt (visitDep (dfs n adj)) ds dst1 = Some dst'"
    by (auto simp: bind_eq_Some_conv)
  obtain st1 where 2: "visit (Suc n) adj (path dst) d st = Some st1" "sim U st1 dst1" "path dst1 = path dst"
    using assms(1) Cons.prems 1(1) unfolding visit_simulates_def by (metis insert_subset list.set(2))
  have "set ds \<subseteq> U" using Cons.prems(2) by simp
  from Cons.IH [OF 2(2) this 1(2)] 2 show ?case by (simp add: del: visit.simps)
qed simp

lemma sim_color:
  "sim U st dst \<Longrightarrow> color dst i = (if i \<in> set (vs_visited st) then Some Black
     else if i \<in> set (vs_visiting st) then Some Gray else if i \<in> U then Some White else None)"
  unfolding sim_def by blast

lemma sim_path: "sim U st dst \<Longrightarrow> set (path dst) = {i. color dst i = Some Gray}"
  unfolding sim_def by blast

text \<open>A dependency that is not new: nothing happens, or both searches note a cycle.\<close>

lemma visit_seen:
  assumes "sim U st dst" and "d \<in> U" and "color dst d \<noteq> Some White"
    and "visitDep rec d dst = Some dst'"
  shows "\<exists>st'. visit (Suc n) adj (path dst) d st = Some st' \<and> sim U st' dst' \<and> path dst' = path dst"
proof (cases "d \<in> set (vs_visited st)")
  case True
  then have "color dst d = Some Black" using sim_color [OF assms(1)] by simp
  then have "dst' = dst" using assms(4) by (simp add: visitDep_def)
  with True assms(1) show ?thesis by simp
next
  case False
  then have v: "d \<in> set (vs_visiting st)" "color dst d = Some Gray"
    using sim_color [OF assms(1), of d] assms(2,3) by (auto split: if_splits)
  then have "d \<in> set (path dst)" using sim_path [OF assms(1)] by simp
  then have d: "dst' = dst\<lparr>cycles := cycles dst @ [from_first d (path dst)]\<rparr>"
    using assms(4) v(2) by (simp add: visitDep_def)
  have "sim U (st\<lparr>vs_errors := vs_errors st @ [msg_cycle (path dst @ [d])]\<rparr>) dst'"
    using sim_color [OF assms(1)] sim_path [OF assms(1)] unfolding d sim_def by simp
  with False v(1) d show ?thesis by simp
qed

lemma visit_simulates_all:
  assumes "\<And>i. set (adj i) \<subseteq> U"
  shows "visit_simulates U adj n"
proof (induction n)
  case 0
  show ?case
    unfolding visit_simulates_def
  proof (intro allI impI)
    fix st dst d dst'
    assume s: "sim U st dst" "d \<in> U" and v: "visitDep (dfs 0 adj) d dst = Some dst'"
    then have "color dst d \<noteq> Some White" by (auto simp: visitDep_def)
    then show "\<exists>st'. visit (Suc 0) adj (path dst) d st = Some st' \<and> sim U st' dst' \<and> path dst' = path dst"
      by (rule visit_seen [OF s _ v])
  qed
next
  case (Suc n)
  show ?case
    unfolding visit_simulates_def
  proof (intro allI impI)
    fix st dst d dst'
    assume s: "sim U st dst" "d \<in> U" and v: "visitDep (dfs (Suc n) adj) d dst = Some dst'"
    show "\<exists>st'. visit (Suc (Suc n)) adj (path dst) d st = Some st' \<and> sim U st' dst' \<and> path dst' = path dst"
    proof (cases "color dst d = Some White")
      case False
      then show ?thesis by (rule visit_seen [OF s _ v])
    next
      case True
      obtain dst1 where 1: "fold_opt (visitDep (dfs n adj)) (adj d) (enter d dst) = Some dst1"
        "dst' = leave d dst1"
        using v True by (auto simp: visitDep_def)
      have p: "path (enter d dst) = path dst @ [d]" by (simp add: enter_def)
      obtain st1 where 2: "fold_opt (visit (Suc n) adj (path dst @ [d])) (adj d)
          (st\<lparr>vs_visiting := js_set_add d (vs_visiting st)\<rparr>) = Some st1"
        "sim U st1 dst1" "path dst1 = path dst @ [d]"
        using visits_simulate [OF Suc sim_enter [OF s(1) True] assms 1(1)] p by auto
      have "d \<notin> set (path dst)" and "d \<notin> set (vs_visited st)" "d \<notin> set (vs_visiting st)"
        using True sim_path [OF s(1)] sim_color [OF s(1), of d] by (auto split: if_splits)
      then show ?thesis
        using 2 1(2) sim_leave [OF 2(2,3)] by (simp add: leave_def del: visit.simps(2))
          (simp add: leave_def)
    qed
  qed
qed

lemma roots_simulate:
  assumes "\<And>i. set (adj i) \<subseteq> U" and "sim U st dst" and "path dst = []" and "n_id ` set ts \<subseteq> U"
    and "fold_opt (\<lambda>t st. if color st (n_id t) = Some White then dfs n adj (n_id t) st else Some st) ts dst
      = Some dst'"
  shows "\<exists>st'. fold_opt (\<lambda>t. visit (Suc n) adj [] (n_id t)) ts st = Some st' \<and> sim U st' dst'"
  using assms(2-)
proof (induction ts arbitrary: st dst)
  case (Cons t ts)
  let ?f = "\<lambda>t st. if color st (n_id t) = Some White then dfs n adj (n_id t) st else Some st"
  obtain dst1 where 1: "?f t dst = Some dst1" "fold_opt ?f ts dst1 = Some dst'"
    using Cons.prems(4) by (auto simp: bind_eq_Some_conv simp del: if_split_asm)
  have "color dst (n_id t) \<noteq> Some Gray" using sim_path [OF Cons.prems(1)] Cons.prems(2) by auto
  then have "visitDep (dfs n adj) (n_id t) dst = Some dst1"
    using 1(1) by (simp add: visitDep_def)
  moreover have "n_id t \<in> U" using Cons.prems(3) by simp
  ultimately obtain st1 where 2: "visit (Suc n) adj (path dst) (n_id t) st = Some st1" "sim U st1 dst1"
    "path dst1 = path dst"
    using visit_simulates_all [of adj U n] assms(1) Cons.prems(1) unfolding visit_simulates_def by blast
  have "n_id ` set ts \<subseteq> U" using Cons.prems(3) by simp
  from Cons.IH [OF 2(2) _ this 1(2)] 2 Cons.prems(2) show ?case by (simp del: visit.simps)
qed simp

subsection \<open>What a clean validation means\<close>

lemma by_id_deps_named: "set (by_id_deps steps i) \<subseteq> set (named_ids steps)"
proof (cases "index_by ws_id steps i")
  case (Some s)
  then show ?thesis using index_by_SomeD [OF Some] by (auto simp: by_id_deps_def named_ids_def)
qed (simp add: by_id_deps_def)

lemma by_id_deps_outside: "i \<notin> set (map ws_id steps) \<Longrightarrow> by_id_deps steps i = []"
  using index_by_None_iff [of ws_id steps i] by (simp add: by_id_deps_def)

definition step_node :: "workflow_step \<Rightarrow> task_node" where
  "step_node s = \<lparr> n_id = ws_id s, n_deps = step_deps s, n_phase = None \<rparr>"

lemma n_id_step_node [simp]: "n_id (step_node s) = ws_id s"
  by (simp add: step_node_def)

lemma fold_opt_map: "fold_opt f (map g xs) s = fold_opt (\<lambda>x. f (g x)) xs s"
proof (induction xs arbitrary: s)
  case (Cons x xs)
  then show ?case by (cases "f (g x) s") simp_all
qed simp

lemma cycle_errors_exact:
  "\<exists>es. cycle_errors steps = Some es \<and> (es = [] \<longleftrightarrow> acyclic (dep_edge (by_id_deps steps)))"
proof -
  let ?adj = "by_id_deps steps"
  let ?n = "length (named_ids steps)"
  let ?U = "set (named_ids steps)"
  define dst where "dst = \<lparr> color = (\<lambda>i. if i \<in> ?U then Some White else None), path = [], cycles = [] \<rparr>"
  define st where "st = \<lparr> vs_visiting = [], vs_visited = [], vs_errors = [] \<rparr>"
  have w: "whites dst = ?U" by (auto simp: whites_def dst_def)
  have col: "color dst i \<noteq> None \<longleftrightarrow> i \<in> ?U" "color dst i \<noteq> Some Gray" "color dst i \<noteq> Some Black" for i
    by (simp_all add: dst_def)
  have inv: "search_inv ?adj dst"
    unfolding search_inv_def w using by_id_deps_named col by (auto simp: dst_def)
  have card: "card (whites dst) \<le> ?n" unfolding w by (rule card_length)
  have roots: "\<forall>t \<in> set (map step_node steps). color dst (n_id t) \<noteq> None"
    using col(1) by (auto simp: named_ids_def)
  have path: "path dst = []" by (simp add: dst_def)
  obtain dst' where d: "fold_opt (\<lambda>t st. if color st (n_id t) = Some White then dfs ?n ?adj (n_id t) st
        else Some st) (map step_node steps) dst = Some dst'"
    "search_inv ?adj dst'" "\<forall>t \<in> set (map step_node steps). color dst' (n_id t) = Some Black"
    using dfs_roots_ok [OF inv path card roots] by blast
  have s0: "sim ?U st dst" by (simp add: sim_def st_def dst_def)
  have sub: "n_id ` set (map step_node steps) \<subseteq> ?U" by (auto simp: named_ids_def)
  obtain st' where s: "fold_opt (\<lambda>t. visit (Suc ?n) ?adj [] (n_id t)) (map step_node steps) st = Some st'"
    "sim ?U st' dst'"
    using roots_simulate [OF by_id_deps_named s0 path sub d(1)] by blast
  have "cycle_errors steps = Some (vs_errors st')"
    using s(1) by (simp add: cycle_errors_def st_def fold_opt_map del: visit.simps)
  moreover have "vs_errors st' = [] \<longleftrightarrow> cycles dst' = []" using s(2) by (simp add: sim_def)
  moreover have "cycles dst' = [] \<longleftrightarrow> acyclic (dep_edge ?adj)"
  proof
    assume "cycles dst' = []"
    then have "set (map ws_id steps) \<subseteq> Wellfounded.acc (dep_edge ?adj)"
      using d(2,3) by (auto simp: search_inv_def)
    then show "acyclic (dep_edge ?adj)"
      using acyclic_dep_edge_iff [of "map ws_id steps" ?adj] by_id_deps_outside by blast
  next
    assume "acyclic (dep_edge ?adj)"
    then have "\<not> dep_cycle ?adj c" for c using dep_cycle_not_acyclic by blast
    then show "cycles dst' = []"
      using d(2) by (cases "cycles dst'") (auto simp: search_inv_def)
  qed
  ultimately show ?thesis by blast
qed

lemma step_errors_Nil:
  "step_errors roles distill ss seen = [] \<longleftrightarrow>
     distinct (map ws_id ss) \<and> set (map ws_id ss) \<inter> set seen = {} \<and> (\<forall>s \<in> set ss. ws_role s \<in> roles)"
  by (induction ss arbitrary: seen) auto

lemma dep_errors_Nil:
  "dep_errors steps = [] \<longleftrightarrow> (\<forall>s \<in> set steps. set (step_deps s) \<subseteq> ws_id ` set steps)"
  by (auto simp: dep_errors_def filter_empty_conv)

definition output_ok :: "workflow_step \<Rightarrow> bool" where
  "output_ok s \<longleftrightarrow>
     (case ws_output s of Some (OutOther _) \<Rightarrow> False | Some (OutPath p) \<Rightarrow> \<not> blank_text p | _ \<Rightarrow> True)"

lemma output_errors_Nil: "output_errors steps = [] \<longleftrightarrow> (\<forall>s \<in> set steps. output_ok s)"
  by (auto simp: output_errors_def output_ok_def split: option.splits step_output.splits)

definition valid_for_team :: "workflow_config \<Rightarrow> string list \<Rightarrow> bool" where
  "valid_for_team flow roles \<longleftrightarrow>
     distinct (map ws_id (wf_steps flow)) \<and>
     (\<forall>s \<in> set (wf_steps flow). ws_role s \<in> set roles \<and> set (step_deps s) \<subseteq> ws_id ` set (wf_steps flow) \<and>
        output_ok s) \<and>
     acyclic (dep_edge (by_id_deps (wf_steps flow)))"

lemma validation_spec:
  "\<exists>es. validateWorkflowForTeam flow roles = Some es \<and> (es = [] \<longleftrightarrow> valid_for_team flow roles)"
proof -
  obtain ce where ce: "cycle_errors (wf_steps flow) = Some ce"
    "ce = [] \<longleftrightarrow> acyclic (dep_edge (by_id_deps (wf_steps flow)))"
    using cycle_errors_exact by blast
  then show ?thesis
    by (auto simp: validateWorkflowForTeam_def fold_js_set_add_Nil step_errors_Nil dep_errors_Nil
        output_errors_Nil valid_for_team_def simp del: set_map fold_append)
qed

text \<open>
  C22. Validation always ends (its recursion is never deeper than the names of the workflow), and reports
  nothing exactly for a workflow whose step ids are distinct, whose roles and dependencies are known, whose
  outputs are paths, and whose dependencies have no cycle.
\<close>

theorem validation_exact:
  "\<exists>es. validateWorkflowForTeam flow roles = Some es \<and> (es = [] \<longleftrightarrow> valid_for_team flow roles)"
  by (rule validation_spec)

lemma validation_exact_witness:
  "validateWorkflowForTeam (workflow_of [blank_step ''a'', (blank_step ''b'')\<lparr>ws_dependsOn := Some [''a'']\<rparr>])
     [''explorer''] = Some [] \<and>
   (\<exists>e es. validateWorkflowForTeam (workflow_of [(blank_step ''a'')\<lparr>ws_dependsOn := Some [''a'']\<rparr>])
     [''explorer''] = Some (e # es))"
proof
  show "validateWorkflowForTeam (workflow_of [blank_step ''a'', (blank_step ''b'')\<lparr>ws_dependsOn := Some [''a'']\<rparr>])
     [''explorer''] = Some []"
    by code_simp
  let ?f = "workflow_of [(blank_step ''a'')\<lparr>ws_dependsOn := Some [''a'']\<rparr>]"
  have "by_id_deps (wf_steps ?f) ''a'' = [''a'']"
    by (simp add: workflow_of_def by_id_deps_def index_by_def js_map_of_def step_deps_def blank_step_def)
  then have "(''a'', ''a'') \<in> dep_edge (by_id_deps (wf_steps ?f))" by (simp add: dep_edge_def)
  then have "\<not> valid_for_team ?f [''explorer'']"
    unfolding valid_for_team_def acyclic_def by blast
  then show "\<exists>e es. validateWorkflowForTeam ?f [''explorer''] = Some (e # es)"
    using validation_exact [of ?f "[''explorer'']"] by (metis neq_Nil_conv)
qed

subsection \<open>The shape of a workflow\<close>

datatype topology_recommendation =
  RawAgent | FastFix | ParallelResearch | ImplementationAdaptive | AnyRecommendation

record topology_analysis =
  ta_topology :: workflow_topology
  ta_stepCount :: nat
  ta_parallelGroupCount :: nat
  ta_fanOutDegree :: nat
  ta_dagDepth :: nat
  ta_recommendation :: topology_recommendation

definition parallelGroupsFromSteps :: "workflow_step list \<Rightarrow> string list" where
  "parallelGroupsFromSteps steps =
     fold (\<lambda>s out. case ws_parallelGroup s of None \<Rightarrow> out | Some g \<Rightarrow> js_set_add g out) steps []"

definition fanOutDegreeFromSteps :: "workflow_step list \<Rightarrow> nat" where
  "fanOutDegreeFromSteps steps =
     (let counts = fold (\<lambda>s m. case ws_parallelGroup s of None \<Rightarrow> m
                            | Some g \<Rightarrow> omap_set g (nullish (map_of m g) 0 + 1) m) steps []
      in fold (\<lambda>e mx. if snd e > mx then snd e else mx) counts (0::nat))"

definition hasMultiDeps :: "workflow_step list \<Rightarrow> bool" where
  "hasMultiDeps steps \<longleftrightarrow> list_ex (\<lambda>s. 2 \<le> length (step_deps s)) steps"

text \<open>
  The longest path, breadth first: the in-degrees and the depths are maps, the children of a step
  a list with one entry per dependency. A step that depends on an unknown id counts as a root.
\<close>

definition step_known_deps :: "workflow_step list \<Rightarrow> workflow_step \<Rightarrow> string list" where
  "step_known_deps steps s = filter (\<lambda>d. d \<in> ws_id ` set steps) (step_deps s)"

definition depth_indegrees :: "workflow_step list \<Rightarrow> (string \<times> int) list" where
  "depth_indegrees steps =
     fold (\<lambda>s m. omap_set (ws_id s) (int (length (step_known_deps steps s))) m) steps []"

definition depth_children :: "workflow_step list \<Rightarrow> string \<Rightarrow> string list" where
  "depth_children steps =
     fold (\<lambda>s adj. fold (\<lambda>d adj. adj(d := adj d @ [ws_id s])) (step_known_deps steps s) adj) steps (\<lambda>_. [])"

type_synonym depth_state = "(string \<times> int) list \<times> (string \<times> nat) list \<times> string list"

definition depth_relax :: "nat \<Rightarrow> string \<Rightarrow> depth_state \<Rightarrow> depth_state" where
  "depth_relax dv child s =
     (case s of (indeg, depth, queue) \<Rightarrow>
        (let cand = dv + 1;
             depth' = (if cand > nullish (map_of depth child) 0 then omap_set child cand depth else depth);
             indeg' = omap_set child (nullish (map_of indeg child) 0 - 1) indeg
         in (indeg', depth', if nullish (map_of indeg' child) 0 = 0 then queue @ [child] else queue)))"

definition open_indegrees :: "(string \<times> int) list \<Rightarrow> string set" where
  "open_indegrees indeg = {i. \<exists>n. map_of indeg i = Some n \<and> 1 \<le> n}"

lemma finite_open_indegrees: "finite (open_indegrees indeg)"
proof -
  have "open_indegrees indeg \<subseteq> dom (map_of indeg)" by (auto simp: open_indegrees_def)
  then show ?thesis by (rule finite_subset) (rule finite_dom_map_of)
qed

definition depth_work :: "depth_state \<Rightarrow> nat" where
  "depth_work s = (case s of (indeg, depth, queue) \<Rightarrow> length queue + card (open_indegrees indeg))"

lemma depth_relax_work: "depth_work (depth_relax dv child s) \<le> depth_work s"
proof -
  obtain indeg depth queue where s: "s = (indeg, depth, queue)" by (cases s) auto
  let ?n = "nullish (map_of indeg child) 0"
  let ?indeg = "omap_set child (?n - 1) indeg"
  have o: "open_indegrees ?indeg = (if 2 \<le> ?n then insert child (open_indegrees indeg) else open_indegrees indeg - {child})"
    by (auto simp: open_indegrees_def)
  show ?thesis
  proof (cases "?n = 1")
    case True
    then have "child \<in> open_indegrees indeg"
      by (cases "map_of indeg child") (auto simp: open_indegrees_def)
    then have "card (open_indegrees ?indeg) + 1 = card (open_indegrees indeg)"
    proof -
      have "open_indegrees ?indeg = open_indegrees indeg - {child}" unfolding o using True by simp
      with card_Suc_Diff1 [OF finite_open_indegrees \<open>child \<in> open_indegrees indeg\<close>]
      show ?thesis by (simp only: Suc_eq_plus1)
    qed
    then show ?thesis using True by (simp add: s depth_relax_def depth_work_def Let_def)
  next
    case False
    have "card (open_indegrees ?indeg) \<le> card (open_indegrees indeg)"
    proof (cases "2 \<le> ?n")
      case True
      then have "child \<in> open_indegrees indeg" by (cases "map_of indeg child") (auto simp: open_indegrees_def)
      then show ?thesis unfolding o using True by (simp add: insert_absorb)
    next
      case False
      then show ?thesis unfolding o using finite_open_indegrees [of indeg] by (simp add: card_mono)
    qed
    then show ?thesis using False by (simp add: s depth_relax_def depth_work_def Let_def)
  qed
qed

lemma depth_relaxes_work: "depth_work (fold (depth_relax dv) cs s) \<le> depth_work s"
proof (induction cs arbitrary: s)
  case (Cons c cs)
  show ?case using Cons [of "depth_relax dv c s"] depth_relax_work [of dv c s] by simp
qed simp

function depth_loop_steps :: "(string \<Rightarrow> string list) \<Rightarrow> depth_state \<Rightarrow> nat \<Rightarrow> nat" where
  "depth_loop_steps adj (indeg, depth, []) maxDepth = maxDepth"
| "depth_loop_steps adj (indeg, depth, v # queue) maxDepth =
     (let dv = nullish (map_of depth v) 0
      in depth_loop_steps adj (fold (depth_relax dv) (adj v) (indeg, depth, queue)) (max maxDepth dv))"
  by pat_completeness auto

termination
proof (relation "measure (\<lambda>(adj, s, mx). depth_work s)")
  fix adj :: "string \<Rightarrow> string list" and indeg depth v queue and maxDepth dv :: nat
  have "depth_work (fold (depth_relax dv) (adj v) (indeg, depth, queue)) \<le> depth_work (indeg, depth, queue)"
    by (rule depth_relaxes_work)
  also have "\<dots> < depth_work (indeg, depth, v # queue)"
    by (simp add: depth_work_def)
  finally show "((adj, fold (depth_relax dv) (adj v) (indeg, depth, queue), max maxDepth dv),
      adj, (indeg, depth, v # queue), maxDepth) \<in> measure (\<lambda>(adj, s, mx). depth_work s)" by simp
qed simp

definition dagDepthFromSteps :: "workflow_step list \<Rightarrow> nat" where
  "dagDepthFromSteps steps =
     (if length steps = 0 then 0
      else let indeg = depth_indegrees steps;
               roots = map fst (filter (\<lambda>e. snd e = 0) indeg)
           in depth_loop_steps (depth_children steps) (indeg, map (\<lambda>i. (i, 1)) roots, roots) 0)"

definition analyzeWorkflowTopology :: "workflow_config \<Rightarrow> topology_analysis" where
  "analyzeWorkflowTopology flow =
     (if wf_dynamic flow
      then \<lparr> ta_topology = TopoDynamic, ta_stepCount = 0, ta_parallelGroupCount = 0,
             ta_fanOutDegree = 0, ta_dagDepth = 0, ta_recommendation = AnyRecommendation \<rparr>
      else let steps = wf_steps flow;
               stepCount = length steps;
               groups = length (parallelGroupsFromSteps steps);
               fan = fanOutDegreeFromSteps steps;
               analysis = (\<lambda>topo rec. \<lparr> ta_topology = topo, ta_stepCount = stepCount,
                 ta_parallelGroupCount = groups, ta_fanOutDegree = fan,
                 ta_dagDepth = dagDepthFromSteps steps, ta_recommendation = rec \<rparr>)
           in if wf_topology flow \<noteq> None \<and> wf_topology flow \<noteq> Some TopoDynamic
              then analysis (the (wf_topology flow))
                (case the (wf_topology flow) of
                   TopoSingle \<Rightarrow> RawAgent | TopoSequential \<Rightarrow> RawAgent
                 | TopoConcurrent \<Rightarrow> ParallelResearch | TopoComplexDag \<Rightarrow> ImplementationAdaptive
                 | TopoDynamic \<Rightarrow> AnyRecommendation)
              else if stepCount = 1 then analysis TopoSingle RawAgent
              else if 1 \<le> groups \<and> 3 \<le> fan then analysis TopoConcurrent ParallelResearch
              else if 4 \<le> stepCount \<and> hasMultiDeps steps
              then analysis TopoComplexDag ImplementationAdaptive
              else analysis TopoSequential (if stepCount \<le> 3 then RawAgent else FastFix))"

subsection \<open>Fan-out\<close>

definition group_size :: "workflow_step list \<Rightarrow> string \<Rightarrow> nat" where
  "group_size steps g = length (filter (\<lambda>s. ws_parallelGroup s = Some g) steps)"

lemma group_size_simps [simp]:
  "group_size [] g = 0"
  "group_size (s # ss) g = (if ws_parallelGroup s = Some g then Suc (group_size ss g) else group_size ss g)"
  by (simp_all add: group_size_def)

lemma group_counts:
  "let counts = fold (\<lambda>s m. case ws_parallelGroup s of None \<Rightarrow> m
       | Some g \<Rightarrow> omap_set g (nullish (map_of m g) 0 + 1) m) steps m0
   in omap_ok m0 \<longrightarrow> omap_ok counts \<and>
      map_of counts = (\<lambda>g. if group_size steps g = 0 then map_of m0 g
                           else Some (nullish (map_of m0 g) 0 + group_size steps g))"
proof (induction steps arbitrary: m0)
  case (Cons s steps)
  show ?case
  proof (cases "ws_parallelGroup s")
    case None
    then show ?thesis using Cons [of m0] by (auto simp: Let_def fun_eq_iff)
  next
    case (Some g)
    then show ?thesis
      using Cons [of "omap_set g (nullish (map_of m0 g) 0 + 1) m0"]
      by (auto simp: Let_def fun_eq_iff)
  qed
qed simp

lemma fold_max_ge:
  "k \<le> fold (\<lambda>e mx. if snd e > mx then snd e else mx) xs a \<longleftrightarrow> k \<le> a \<or> (\<exists>e \<in> set xs. k \<le> snd e)"
  for a k :: nat
  by (induction xs arbitrary: a) auto

lemma fanOut_ge:
  assumes "1 \<le> k"
  shows "k \<le> fanOutDegreeFromSteps steps \<longleftrightarrow> (\<exists>g. k \<le> group_size steps g)"
proof -
  define counts :: "(string \<times> nat) list" where "counts = fold (\<lambda>s m. case ws_parallelGroup s of None \<Rightarrow> m
       | Some g \<Rightarrow> omap_set g (nullish (map_of m g) 0 + 1) m) steps []"
  have c: "distinct (map fst counts)"
    "map_of counts g = (if group_size steps g = 0 then None else Some (group_size steps g))" for g
    using group_counts [of steps "[]"] by (auto simp: counts_def Let_def omap_ok_def)
  have m: "(g, n) \<in> set counts \<longleftrightarrow> n = group_size steps g \<and> n \<noteq> 0" for g n
    using map_of_eq_Some_iff [OF c(1), of g n] c(2) [of g] by (auto split: if_splits)
  have "(\<exists>e \<in> set counts. k \<le> snd e) \<longleftrightarrow> (\<exists>g. k \<le> group_size steps g)"
  proof
    assume "\<exists>e \<in> set counts. k \<le> snd e"
    then obtain e where e: "e \<in> set counts" "k \<le> snd e" by blast
    then have "snd e = group_size steps (fst e)" using m [of "fst e" "snd e"] by simp
    then show "\<exists>g. k \<le> group_size steps g" using e(2) by (intro exI [of _ "fst e"]) simp
  next
    assume "\<exists>g. k \<le> group_size steps g"
    then obtain g where g: "k \<le> group_size steps g" by blast
    then have "(g, group_size steps g) \<in> set counts" using m assms by simp
    then show "\<exists>e \<in> set counts. k \<le> snd e" using g by (intro bexI [of _ "(g, group_size steps g)"]) simp_all
  qed
  moreover have "fanOutDegreeFromSteps steps = fold (\<lambda>e mx. if snd e > mx then snd e else mx) counts 0"
    by (simp add: fanOutDegreeFromSteps_def counts_def)
  ultimately show ?thesis using assms by (simp add: fold_max_ge)
qed

lemma groups_of_steps:
  "set (parallelGroupsFromSteps steps) = {g. \<exists>s \<in> set steps. ws_parallelGroup s = Some g}"
proof -
  have "set (fold (\<lambda>s out. case ws_parallelGroup s of None \<Rightarrow> out | Some g \<Rightarrow> js_set_add g out) steps out) =
      set out \<union> {g. \<exists>s \<in> set steps. ws_parallelGroup s = Some g}" for out
    by (induction steps arbitrary: out) (auto split: option.split)
  then show ?thesis by (simp add: parallelGroupsFromSteps_def)
qed

text \<open>
  A workflow that does not declare its shape is taken for a concurrent one exactly when some parallel
  group has at least three steps.
\<close>

theorem concurrent_iff_wide_group:
  assumes "\<not> wf_dynamic flow" and "wf_topology flow = None"
  shows "ta_topology (analyzeWorkflowTopology flow) = TopoConcurrent \<longleftrightarrow>
    (\<exists>g. 3 \<le> group_size (wf_steps flow) g)"
proof -
  have f: "3 \<le> fanOutDegreeFromSteps (wf_steps flow) \<longleftrightarrow> (\<exists>g. 3 \<le> group_size (wf_steps flow) g)"
    by (rule fanOut_ge) simp
  have "1 \<le> length (parallelGroupsFromSteps (wf_steps flow)) \<and> length (wf_steps flow) \<noteq> 1"
    if "3 \<le> group_size (wf_steps flow) g" for g
  proof -
    have "group_size (wf_steps flow) g \<le> length (wf_steps flow)" by (simp add: group_size_def)
    moreover have "filter (\<lambda>s. ws_parallelGroup s = Some g) (wf_steps flow) \<noteq> []"
      using that by (auto simp: group_size_def)
    then have "set (parallelGroupsFromSteps (wf_steps flow)) \<noteq> {}"
      unfolding groups_of_steps by (auto simp: filter_empty_conv)
    then have "1 \<le> length (parallelGroupsFromSteps (wf_steps flow))"
      by (cases "parallelGroupsFromSteps (wf_steps flow)") auto
    ultimately show ?thesis using that by auto
  qed
  then show ?thesis using assms f by (auto simp: analyzeWorkflowTopology_def Let_def)
qed

lemma concurrent_iff_wide_group_witness:
  "ta_topology (analyzeWorkflowTopology (workflow_of (map (\<lambda>i. (blank_step i)\<lparr>ws_parallelGroup := Some ''g''\<rparr>)
     [''a'', ''b'', ''c'']))) = TopoConcurrent"
proof -
  let ?f = "workflow_of (map (\<lambda>i. (blank_step i)\<lparr>ws_parallelGroup := Some ''g''\<rparr>) [''a'', ''b'', ''c''])"
  have "3 \<le> group_size (wf_steps ?f) ''g''" by (simp add: workflow_of_def)
  moreover have "\<not> wf_dynamic ?f" "wf_topology ?f = None" by (simp_all add: workflow_of_def)
  ultimately show ?thesis using concurrent_iff_wide_group by blast
qed

end
