(* ===== verification/RunCreation.thy ===== *)
theory RunCreation
  imports TaskIds WorkflowChecks Dispatch
begin

text \<open>
  The tasks of a new run, \<open>createTasksFromWorkflow\<close> of
  \<open>src/src/state/stores/state-store.ts\<close> without the title and the description of a task, and
  what a validated workflow means for the scheduler.
\<close>

subsection \<open>Creation\<close>

definition step_to_task_id :: "workflow_step list \<Rightarrow> string \<Rightarrow> string option" where
  "step_to_task_id steps =
     js_map_of (map (\<lambda>(index, s). (ws_id s, createTaskId (ws_id s) index)) (enumerate 0 steps))"

definition child_ids :: "workflow_step list \<Rightarrow> string \<Rightarrow> string list" where
  "child_ids steps i =
     List.map_filter (\<lambda>c. step_to_task_id steps (ws_id c)) (filter (\<lambda>c. i \<in> set (step_deps c)) steps)"

definition task_of_step :: "workflow_step list \<Rightarrow> string \<Rightarrow> nat \<Rightarrow> workflow_step \<Rightarrow> team_task" where
  "task_of_step steps cwd0 index s =
     (let i = nullish (step_to_task_id steps (ws_id s)) (createTaskId (ws_id s) index);
          dependencies = step_deps s
      in (blank_task i)\<lparr>stepId := Some (ws_id s), role := ws_role s, dependsOn := dependencies, cwd := cwd0,
           graph := Some \<lparr> g_parentId =
                             (case dependencies of [] \<Rightarrow> None
                              | d # _ \<Rightarrow> if d = [] then None else step_to_task_id steps d),
                           g_children = child_ids steps (ws_id s),
                           g_queue = (if length dependencies \<noteq> 0 then QBlocked else QReady) \<rparr>\<rparr>)"

definition createTasksFromWorkflow :: "workflow_config \<Rightarrow> string \<Rightarrow> team_task list" where
  "createTasksFromWorkflow flow cwd0 =
     map (\<lambda>(index, s). task_of_step (wf_steps flow) cwd0 index s) (enumerate 0 (wf_steps flow))"

subsection \<open>The ids of the tasks\<close>

lemma step_to_task_id_nth:
  assumes "distinct (map ws_id steps)" and "i < length steps"
  shows "step_to_task_id steps (ws_id (steps ! i)) = Some (createTaskId (ws_id (steps ! i)) i)"
proof -
  have "map fst (map (\<lambda>(index, s). (ws_id s, createTaskId (ws_id s) index)) (enumerate 0 steps)) =
      map ws_id steps"
    by (rule nth_equalityI) (simp_all add: nth_enumerate_eq)
  then have d: "distinct (map fst (map (\<lambda>(index, s). (ws_id s, createTaskId (ws_id s) index)) (enumerate 0 steps)))"
    using assms(1) by simp
  have "(i, steps ! i) \<in> set (enumerate 0 steps)"
    using assms(2) by (auto simp: in_set_enumerate_eq)
  then have "(ws_id (steps ! i), createTaskId (ws_id (steps ! i)) i) \<in>
      set (map (\<lambda>(index, s). (ws_id s, createTaskId (ws_id s) index)) (enumerate 0 steps))"
    by force
  with d show ?thesis unfolding step_to_task_id_def by (rule js_map_of_in)
qed

lemma task_of_step_simps:
  assumes "distinct (map ws_id steps)" and "i < length steps"
  shows "task_id (task_of_step steps c i (steps ! i)) = createTaskId (ws_id (steps ! i)) i"
    and "stepId (task_of_step steps c i (steps ! i)) = Some (ws_id (steps ! i))"
    and "dependsOn (task_of_step steps c i (steps ! i)) = step_deps (steps ! i)"
    and "status (task_of_step steps c i (steps ! i)) = Queued"
    and "adaptivePhase (task_of_step steps c i (steps ! i)) = None"
  by (simp_all add: task_of_step_def Let_def step_to_task_id_nth [OF assms])

lemma created_nth:
  "createTasksFromWorkflow flow c =
     map (\<lambda>i. task_of_step (wf_steps flow) c i (wf_steps flow ! i)) [0..<length (wf_steps flow)]"
  unfolding createTasksFromWorkflow_def
  by (rule nth_equalityI) (simp_all add: nth_enumerate_eq)

lemma created_ids_distinct:
  assumes "distinct (map ws_id (wf_steps flow))"
  shows "distinct (map task_id (createTasksFromWorkflow flow c))"
  unfolding created_nth map_map distinct_map
proof
  show "inj_on (task_id \<circ> (\<lambda>i. task_of_step (wf_steps flow) c i (wf_steps flow ! i)))
      (set [0..<length (wf_steps flow)])"
  proof (rule inj_onI)
    fix i j
    assume "i \<in> set [0..<length (wf_steps flow)]" "j \<in> set [0..<length (wf_steps flow)]"
      and e: "(task_id \<circ> (\<lambda>i. task_of_step (wf_steps flow) c i (wf_steps flow ! i))) i =
        (task_id \<circ> (\<lambda>i. task_of_step (wf_steps flow) c i (wf_steps flow ! i))) j"
    then have "createTaskId (ws_id (wf_steps flow ! i)) i = createTaskId (ws_id (wf_steps flow ! j)) j"
      using task_of_step_simps(1) [OF assms] by simp
    then show "i = j" by (rule createTaskId_inj)
  qed
qed simp

lemma created_no_plus: "\<forall>i \<in> set (map task_id (createTasksFromWorkflow flow c)). CHR ''+'' \<notin> set i"
proof -
  have "step_to_task_id (wf_steps flow) i = Some x \<Longrightarrow> CHR ''+'' \<notin> set x" for i x
    unfolding step_to_task_id_def by (auto dest!: js_map_of_SomeD simp: createTaskId_no_plus)
  then have "CHR ''+'' \<notin> set (nullish (step_to_task_id (wf_steps flow) i) (createTaskId i k))" for i k
    by (cases "step_to_task_id (wf_steps flow) i") (simp_all add: createTaskId_no_plus)
  then show ?thesis
    by (auto simp: createTasksFromWorkflow_def task_of_step_def Let_def)
qed

subsection \<open>The graph of the tasks\<close>

text \<open>The step that a task of the run comes from.\<close>

definition step_of_task :: "team_task list \<Rightarrow> string \<Rightarrow> string" where
  "step_of_task ts i = the (stepId (the (find (\<lambda>t. task_id t = i) ts)))"

definition task_of_dep :: "workflow_step list \<Rightarrow> string \<Rightarrow> string" where
  "task_of_dep steps d = the (step_to_task_id steps d)"

lemma js_map_of_map_filter_all:
  "(\<forall>x \<in> set xs. f x \<noteq> None) \<Longrightarrow> List.map_filter f xs = map (\<lambda>x. the (f x)) xs"
  by (induction xs) (auto simp: List.map_filter_def)

lemma dag_nodes_created:
  assumes "distinct (map ws_id (wf_steps flow))" and "\<forall>s \<in> set (wf_steps flow). ws_id s \<noteq> []"
    and "\<forall>s \<in> set (wf_steps flow). set (step_deps s) \<subseteq> ws_id ` set (wf_steps flow)"
  shows "dag_nodes (createTasksFromWorkflow flow c) =
    map (\<lambda>i. \<lparr> n_id = createTaskId (ws_id (wf_steps flow ! i)) i,
               n_deps = map (task_of_dep (wf_steps flow)) (step_deps (wf_steps flow ! i)),
               n_phase = Some (ws_id (wf_steps flow ! i)) \<rparr>) [0..<length (wf_steps flow)]"
proof -
  let ?steps = "wf_steps flow"
  let ?ts = "createTasksFromWorkflow flow c"
  note t = task_of_step_simps [OF assms(1), where c = c]
  have shadow: "filter (\<lambda>t. \<not> isDelegateShadowTask t) ?ts = ?ts"
    unfolding created_nth by (rule filter_True) (auto simp: isDelegateShadowTask_def t)
  let ?f = "\<lambda>t. if truthy (stepId t) then Some (the (stepId t), task_id t) else None"
  have "\<forall>x \<in> set ?ts. ?f x \<noteq> None"
    unfolding created_nth using assms(2) by (auto simp: t)
  then have "List.map_filter ?f ?ts = map (\<lambda>i. (ws_id (?steps ! i), createTaskId (ws_id (?steps ! i)) i)) [0..<length ?steps]"
    using js_map_of_map_filter_all [of ?ts ?f] unfolding created_nth using assms(2) by (auto simp: t)
  also have "\<dots> = map (\<lambda>(index, s). (ws_id s, createTaskId (ws_id s) index)) (enumerate 0 ?steps)"
    by (rule nth_equalityI) (simp_all add: nth_enumerate_eq)
  finally have m: "js_map_of (List.map_filter ?f ?ts) = step_to_task_id ?steps"
    by (simp add: step_to_task_id_def)
  have known: "nullish (step_to_task_id ?steps d) d = task_of_dep ?steps d"
    if "i < length ?steps" "d \<in> set (step_deps (?steps ! i))" for i d
  proof -
    have "d \<in> ws_id ` set ?steps" using that assms(3) nth_mem by blast
    then obtain j where "j < length ?steps" "d = ws_id (?steps ! j)" by (auto simp: in_set_conv_nth)
    then show ?thesis using step_to_task_id_nth [OF assms(1)] by (simp add: task_of_dep_def)
  qed
  have "dag_nodes ?ts = map (\<lambda>t. \<lparr> n_id = task_id t,
      n_deps = map (\<lambda>d. nullish (step_to_task_id ?steps d) d) (dependsOn t),
      n_phase = (case adaptivePhase t of None \<Rightarrow> stepId t | Some p \<Rightarrow> Some p) \<rparr>) ?ts"
    by (simp only: dag_nodes_def Let_def shadow m)
  also have "\<dots> = map (\<lambda>i. \<lparr> n_id = createTaskId (ws_id (?steps ! i)) i,
      n_deps = map (task_of_dep ?steps) (step_deps (?steps ! i)),
      n_phase = Some (ws_id (?steps ! i)) \<rparr>) [0..<length ?steps]"
    unfolding created_nth map_map
    by (rule map_cong) (auto simp: t known)
  finally show ?thesis .
qed

lemma task_of_dep_nth:
  assumes "distinct (map ws_id steps)" and "j < length steps"
  shows "task_of_dep steps (ws_id (steps ! j)) = createTaskId (ws_id (steps ! j)) j"
  by (simp add: task_of_dep_def step_to_task_id_nth [OF assms])

lemma task_of_dep_inj:
  assumes "distinct (map ws_id steps)"
  shows "inj_on (task_of_dep steps) (ws_id ` set steps)"
proof (rule inj_onI)
  fix x y
  assume "x \<in> ws_id ` set steps" "y \<in> ws_id ` set steps" and e: "task_of_dep steps x = task_of_dep steps y"
  then obtain i j where i: "i < length steps" "x = ws_id (steps ! i)" and j: "j < length steps" "y = ws_id (steps ! j)"
    by (auto simp: in_set_conv_nth)
  have "createTaskId x i = createTaskId y j"
    using e i j task_of_dep_nth [OF assms] by simp
  then have "i = j" by (rule createTaskId_inj)
  with i j show "x = y" by simp
qed

lemma by_id_deps_nth:
  assumes "distinct (map ws_id steps)" and "i < length steps"
  shows "by_id_deps steps (ws_id (steps ! i)) = step_deps (steps ! i)"
  using index_by_in [OF assms(1), of "steps ! i"] assms(2) by (simp add: by_id_deps_def)

lemma acyclic_transfer:
  assumes "acyclic r" and "\<And>x y. (x, y) \<in> s \<Longrightarrow> (g x, g y) \<in> r"
  shows "acyclic s"
proof -
  have "(x, y) \<in> s\<^sup>+ \<Longrightarrow> (g x, g y) \<in> r\<^sup>+" for x y
    by (induction rule: trancl.induct) (auto dest: assms(2) intro: trancl_into_trancl)
  then show ?thesis using assms(1) unfolding acyclic_def by blast
qed

lemma created_graph_ok:
  assumes v: "valid_for_team flow roles" and ne: "\<forall>s \<in> set (wf_steps flow). ws_id s \<noteq> []"
    and dd: "\<forall>s \<in> set (wf_steps flow). distinct (step_deps s)"
  shows "distinct (node_ids (dag_nodes (createTasksFromWorkflow flow c)))"
    and "\<forall>n \<in> set (dag_nodes (createTasksFromWorkflow flow c)). distinct (n_deps n) \<and> n_id n \<notin> set (n_deps n)"
    and "acyclic (depends (dag_nodes (createTasksFromWorkflow flow c)))"
proof -
  let ?steps = "wf_steps flow"
  let ?f = "task_of_dep ?steps"
  have d: "distinct (map ws_id ?steps)"
    and known: "\<forall>s \<in> set ?steps. set (step_deps s) \<subseteq> ws_id ` set ?steps"
    and ac: "acyclic (dep_edge (by_id_deps ?steps))"
    using v by (simp_all add: valid_for_team_def)
  note nodes = dag_nodes_created [OF d ne known, of c]
  have edge: "(x, ws_id (?steps ! i)) \<in> dep_edge (by_id_deps ?steps)"
    if "i < length ?steps" "x \<in> set (step_deps (?steps ! i))" for i x
    using that by_id_deps_nth [OF d that(1)] by (simp add: dep_edge_def)
  have inj: "inj_on ?f (ws_id ` set ?steps)" by (rule task_of_dep_inj [OF d])
  have dep_in: "set (step_deps (?steps ! i)) \<subseteq> ws_id ` set ?steps" if "i < length ?steps" for i
    using known nth_mem [OF that] by blast
  have id_in: "ws_id (?steps ! i) \<in> ws_id ` set ?steps" if "i < length ?steps" for i
    using that by simp
  have tid: "createTaskId (ws_id (?steps ! i)) i = ?f (ws_id (?steps ! i))" if "i < length ?steps" for i
    using task_of_dep_nth [OF d that] by simp
  show "distinct (node_ids (dag_nodes (createTasksFromWorkflow flow c)))"
    unfolding dag_node_ids by (rule distinct_map_filter) (rule created_ids_distinct [OF d])
  show "\<forall>n \<in> set (dag_nodes (createTasksFromWorkflow flow c)). distinct (n_deps n) \<and> n_id n \<notin> set (n_deps n)"
  proof
    fix n assume "n \<in> set (dag_nodes (createTasksFromWorkflow flow c))"
    then obtain i where i: "i < length ?steps" and n: "n_id n = ?f (ws_id (?steps ! i))"
      "n_deps n = map ?f (step_deps (?steps ! i))"
      unfolding nodes using tid by auto
    have "distinct (n_deps n)"
      unfolding n(2) distinct_map using dd i inj_on_subset [OF inj dep_in [OF i]] by simp
    moreover have "n_id n \<notin> set (n_deps n)"
    proof
      assume "n_id n \<in> set (n_deps n)"
      then obtain x where x: "x \<in> set (step_deps (?steps ! i))" "?f x = ?f (ws_id (?steps ! i))"
        unfolding n by auto
      then have "x = ws_id (?steps ! i)"
        using inj dep_in [OF i] id_in [OF i] by (auto dest: inj_onD)
      with edge [OF i x(1)] ac show False by (auto simp: acyclic_def)
    qed
    ultimately show "distinct (n_deps n) \<and> n_id n \<notin> set (n_deps n)" by simp
  qed
  let ?g = "inv_into (ws_id ` set ?steps) ?f"
  show "acyclic (depends (dag_nodes (createTasksFromWorkflow flow c)))"
  proof (rule acyclic_transfer [OF ac, where g = ?g])
    fix x y assume "(x, y) \<in> depends (dag_nodes (createTasksFromWorkflow flow c))"
    then obtain i z where i: "i < length ?steps" "y = ?f (ws_id (?steps ! i))"
      "z \<in> set (step_deps (?steps ! i))" "x = ?f z"
      unfolding depends_def nodes known_deps_def using tid by auto
    then have "?g y = ws_id (?steps ! i)" "?g x = z"
      using inv_into_f_f [OF inj] id_in [OF i(1)] dep_in [OF i(1)] by auto
    then show "(?g x, ?g y) \<in> dep_edge (by_id_deps ?steps)" using edge [OF i(1,3)] by simp
  qed
qed

text \<open>
  C4. A workflow that validates without errors never gives a run that cannot be scheduled: the tasks
  created from it have distinct ids, and when some step declares dependencies (each once, between named
  steps) the dependency plan of the tasks exists, has no cycle, and at every point of the run offers
  only tasks that are not settled and whose dependencies are, and offers one until all are settled.
\<close>

theorem validated_workflow_schedulable:
  assumes "validateWorkflowForTeam flow roles = Some []"
    and "\<forall>s \<in> set (wf_steps flow). ws_id s \<noteq> [] \<and> distinct (step_deps s)"
    and "\<exists>s \<in> set (wf_steps flow). step_deps s \<noteq> []"
  shows "\<exists>ready. dagReadyTaskIds (createTasksFromWorkflow flow c) settled = Inr (Some ready) \<and>
    distinct (map task_id (createTasksFromWorkflow flow c)) \<and>
    set ready \<subseteq> task_id ` set (createTasksFromWorkflow flow c) - settled \<and>
    (\<forall>i \<in> set ready. set (kd_of (dag_nodes (createTasksFromWorkflow flow c)) i) \<subseteq> settled) \<and>
    (ready = [] \<longleftrightarrow> task_id ` set (createTasksFromWorkflow flow c) \<subseteq> settled)"
proof -
  let ?ts = "createTasksFromWorkflow flow c"
  have v: "valid_for_team flow roles" using validation_spec [of flow roles] assms(1) by auto
  then have d: "distinct (map ws_id (wf_steps flow))" by (simp add: valid_for_team_def)
  have g: "distinct (node_ids (dag_nodes ?ts))"
    "\<forall>n \<in> set (dag_nodes ?ts). distinct (n_deps n) \<and> n_id n \<notin> set (n_deps n)"
    "acyclic (depends (dag_nodes ?ts))"
    using created_graph_ok [OF v] assms(2) by auto
  obtain i where "i < length (wf_steps flow)" "step_deps (wf_steps flow ! i) \<noteq> []"
    using assms(3) by (metis in_set_conv_nth)
  then have "list_ex (\<lambda>t. 0 < length (dependsOn t)) ?ts"
    unfolding created_nth using task_of_step_simps(3) [OF d] by (auto simp: list_ex_iff)
  moreover obtain plan where "buildExecutionPlan (dag_nodes ?ts) = Inr plan" "\<not> p_hasCycle plan"
    using built_plan [OF g(1,2)] g(3) by auto
  ultimately obtain ready where r: "dagReadyTaskIds ?ts settled = Inr (Some ready)"
    by (simp add: dagReadyTaskIds_def)
  have "filter (\<lambda>t. \<not> isDelegateShadowTask t) ?ts = ?ts"
    unfolding created_nth by (rule filter_True) (auto simp: isDelegateShadowTask_def task_of_step_simps [OF d])
  then have ids: "set (node_ids (dag_nodes ?ts)) = task_id ` set ?ts"
    unfolding dag_node_ids by simp
  have dn: "\<forall>n \<in> set (dag_nodes ?ts). distinct (n_deps n)" using g(2) by blast
  show ?thesis
    using r dag_ready_spec [OF created_ids_distinct [OF d] dn r] created_ids_distinct [OF d]
    unfolding ids by blast
qed

lemma validated_workflow_schedulable_witness:
  "\<exists>ready. dagReadyTaskIds (createTasksFromWorkflow
      (workflow_of [blank_step ''a'', (blank_step ''b'')\<lparr>ws_dependsOn := Some [''a'']\<rparr>]) ''/w'') {} =
    Inr (Some ready) \<and> ready \<noteq> []"
proof -
  let ?f = "workflow_of [blank_step ''a'', (blank_step ''b'')\<lparr>ws_dependsOn := Some [''a'']\<rparr>]"
  have v: "validateWorkflowForTeam ?f [''explorer''] = Some []" by code_simp
  have "\<forall>s \<in> set (wf_steps ?f). ws_id s \<noteq> [] \<and> distinct (step_deps s)"
    "\<exists>s \<in> set (wf_steps ?f). step_deps s \<noteq> []"
    by (simp_all add: workflow_of_def step_deps_def blank_step_def)
  from validated_workflow_schedulable [OF v this, of "''/w''" "{}"]
  show ?thesis by (auto simp: createTasksFromWorkflow_def workflow_of_def)
qed

text \<open>
  The tasks of a run never meet the ids that grouping cannot carry: whatever the steps are called, a
  batch of distinct tasks of the run is dispatched with every task exactly once.
\<close>

theorem created_tasks_dispatched_exactly:
  assumes "distinct ready" and "set ready \<subseteq> task_id ` set (createTasksFromWorkflow flow c)"
  shows "mset (concat (map unit_ids
      (buildDispatchUnits ready (planCoalescedGroups ready tasks flow' enabled ms mb)))) = mset ready"
proof -
  have "\<forall>i \<in> set ready. CHR ''+'' \<notin> set i" using created_no_plus [of flow c] assms(2) by auto
  with assms(1) show ?thesis by (rule dispatched_once)
qed

lemma created_tasks_dispatched_exactly_witness:
  "mset (concat (map unit_ids (buildDispatchUnits [''01_a''] (planCoalescedGroups [''01_a''] [] (workflow_of
      [blank_step ''a'']) True 4 4)))) = {#''01_a''#}"
proof -
  have "set [''01_a''] \<subseteq> task_id ` set (createTasksFromWorkflow (workflow_of [blank_step ''a'']) ''/w'')"
    by code_simp
  from created_tasks_dispatched_exactly [where ready = "[''01_a'']", OF _ this] show ?thesis by simp
qed

end
