(* ===== verification/Effectiveness.thy ===== *)
theory Effectiveness
  imports PolicyEngine WorkflowModel
begin

text \<open>
  \<open>src/src/runtime/effectiveness.ts\<close>: which completed tasks of a run show work, and what the
  effectiveness guard makes of those that do not.
\<close>

subsection \<open>Evidence of work\<close>

text \<open>An event of the log, with the fields that are read of it.\<close>

record delegate_event =
  de_type :: string
  de_subId :: "string option"
  de_ok :: "bool option"

definition delegateCompletedTaskIdsFromEvents :: "delegate_event list \<Rightarrow> string set" where
  "delegateCompletedTaskIdsFromEvents events =
     set (List.map_filter (\<lambda>e. if de_type e \<noteq> ''delegate.completed'' then None
                               else if de_ok e \<noteq> Some True then None else de_subId e) events)"

definition taskIsSyntheticGateSkip :: "team_task \<Rightarrow> bool" where
  "taskIsSyntheticGateSkip t = we_synthetic (worked t)"

definition taskHasObservableWorkerActivity :: "team_task \<Rightarrow> bool" where
  "taskHasObservableWorkerActivity t \<longleftrightarrow>
     0 < nullish (we_toolCount (worked t)) 0 \<or> usage t \<noteq> None \<or> we_transcript (worked t) \<or>
     we_attemptSucceeded (worked t) \<or> nullish (jsonEvents t) 0 \<noteq> 0 \<or>
     (we_verifyGate (worked t) \<and> \<not> taskIsSyntheticGateSkip t)"

definition taskHasEmptyResult :: "team_task \<Rightarrow> bool" where
  "taskHasEmptyResult t \<longleftrightarrow>
     (case resultArtifact t of None \<Rightarrow> False | Some a \<Rightarrow> art_sizeBytes a = Some 0)"

subsection \<open>The guard\<close>

datatype guard_mode = GuardOff | GuardWarn | GuardBlock | GuardFail

fun guard_str :: "guard_mode \<Rightarrow> string" where
  "guard_str GuardOff = ''off''"
| "guard_str GuardWarn = ''warn''"
| "guard_str GuardBlock = ''block''"
| "guard_str GuardFail = ''fail''"

datatype severity = SevOk | SevWarning | SevBlocked | SevFailed

definition resolveEffectivenessGuardMode :: "guard_mode option \<Rightarrow> bool \<Rightarrow> guard_mode" where
  "resolveEffectivenessGuardMode configured explicitDryRun =
     (case configured of Some m \<Rightarrow> m | None \<Rightarrow> if explicitDryRun then GuardOff else GuardWarn)"

record effectiveness_summary =
  es_completed :: nat
  es_observable :: nat
  es_noObserved :: "string list"
  es_needsAttention :: "string list"
  es_workers :: bool
  es_mode :: guard_mode
  es_severity :: severity

definition no_observed_work :: "string set \<Rightarrow> team_task \<Rightarrow> bool" where
  "no_observed_work delegated t \<longleftrightarrow>
     (task_id t \<notin> delegated \<and> \<not> taskHasObservableWorkerActivity t) \<or> taskHasEmptyResult t"

definition guard_severity :: "bool \<Rightarrow> guard_mode \<Rightarrow> team_task list \<Rightarrow> severity" where
  "guard_severity executeWorkers mode idle =
     (if executeWorkers \<and> mode \<noteq> GuardOff \<and> 0 < length idle
      then let s = (if mode = GuardFail then SevFailed else if mode = GuardBlock then SevBlocked
                    else SevWarning)
           in if s = SevWarning \<and>
                 list_ex (\<lambda>t. \<not> taskIsSyntheticGateSkip t \<and> permissionForRole (role t) \<noteq> ReadOnly) idle
              then SevBlocked else s
      else SevOk)"

definition evaluateRunEffectiveness ::
    "team_task list \<Rightarrow> bool \<Rightarrow> guard_mode option \<Rightarrow> bool \<Rightarrow> string set \<Rightarrow> effectiveness_summary" where
  "evaluateRunEffectiveness tasks executeWorkers configured explicitDryRun delegated =
     (let completedTasks = filter (\<lambda>t. status t = Completed) tasks;
          idle = filter (no_observed_work delegated) completedTasks;
          attention = filter (\<lambda>t. we_needsAttention (worked t)) tasks;
          mode = resolveEffectivenessGuardMode configured explicitDryRun;
          completedAttention = length (filter (\<lambda>t. status t = Completed) attention)
      in \<lparr> es_completed = length completedTasks,
           es_observable = nat (max 0 (int (length completedTasks) - int (length idle) - int completedAttention)),
           es_noObserved = map task_id idle, es_needsAttention = map task_id attention,
           es_workers = executeWorkers, es_mode = mode,
           es_severity = guard_severity executeWorkers mode idle \<rparr>)"

definition effectivenessPolicyDecision :: "effectiveness_summary \<Rightarrow> policy_decision option" where
  "effectivenessPolicyDecision s =
     (if es_severity s = SevOk then None
      else Some (decision
        (case es_severity s of SevFailed \<Rightarrow> ActFail | SevBlocked \<Rightarrow> ActBlock | _ \<Rightarrow> ActNotify)
        IneffectiveWorker (MsgIneffective (guard_str (es_mode s)) (es_noObserved s)) None))"

subsection \<open>What the guard decides\<close>

text \<open>A completed task that shows no work.\<close>

definition idle_task :: "string set \<Rightarrow> team_task \<Rightarrow> bool" where
  "idle_task delegated t \<longleftrightarrow> status t = Completed \<and> no_observed_work delegated t"

lemma effectiveness_simps:
  "es_severity (evaluateRunEffectiveness ts w c d dl) =
     guard_severity w (resolveEffectivenessGuardMode c d) (filter (idle_task dl) ts)"
  "es_noObserved (evaluateRunEffectiveness ts w c d dl) = map task_id (filter (idle_task dl) ts)"
  "es_mode (evaluateRunEffectiveness ts w c d dl) = resolveEffectivenessGuardMode c d"
proof -
  have "filter (no_observed_work dl) (filter (\<lambda>t. status t = Completed) ts) = filter (idle_task dl) ts"
    by (auto simp: idle_task_def intro!: filter_cong)
  then show "es_severity (evaluateRunEffectiveness ts w c d dl) =
      guard_severity w (resolveEffectivenessGuardMode c d) (filter (idle_task dl) ts)"
    and "es_noObserved (evaluateRunEffectiveness ts w c d dl) = map task_id (filter (idle_task dl) ts)"
    and "es_mode (evaluateRunEffectiveness ts w c d dl) = resolveEffectivenessGuardMode c d"
    by (simp_all add: evaluateRunEffectiveness_def Let_def)
qed

lemma severity_cases:
  "guard_severity w m (filter p ts) =
     (if \<not> w \<or> m = GuardOff \<or> (\<forall>t \<in> set ts. \<not> p t) then SevOk
      else if m = GuardFail then SevFailed
      else if m = GuardBlock \<or>
        (\<exists>t \<in> set ts. p t \<and> \<not> taskIsSyntheticGateSkip t \<and> permissionForRole (role t) \<noteq> ReadOnly)
      then SevBlocked else SevWarning)"
  by (cases m) (auto simp: guard_severity_def filter_empty_conv list_ex_iff)

text \<open>
  A run is held back by the effectiveness guard exactly when workers were executed and some
  completed task shows no work, and either the guard says so, or the guard only warns and such a
  task has a writing role and is no gate skip; under a guard that is off, or without workers, it
  never is.
\<close>

theorem guard_holds_back_iff:
  "es_severity (evaluateRunEffectiveness ts w c d dl) \<in> {SevBlocked, SevFailed} \<longleftrightarrow>
     w \<and> (\<exists>t \<in> set ts. idle_task dl t \<and>
       (resolveEffectivenessGuardMode c d \<in> {GuardBlock, GuardFail} \<or>
        resolveEffectivenessGuardMode c d = GuardWarn \<and> \<not> taskIsSyntheticGateSkip t \<and>
          permissionForRole (role t) \<noteq> ReadOnly))"
  unfolding effectiveness_simps severity_cases
  by (cases "resolveEffectivenessGuardMode c d") auto

text \<open>
  The score takes a completed task that shows no work and also needs attention off twice, so it
  can be lower than the number of completed tasks that are neither.
\<close>

lemma score_subtracts_twice:
  "es_observable (evaluateRunEffectiveness
     [(blank_task ''a'')\<lparr>status := Completed, worked := no_evidence\<lparr>we_needsAttention := True\<rparr>\<rparr>,
      (blank_task ''b'')\<lparr>status := Completed, jsonEvents := Some 1\<rparr>] True None False {}) = 0"
  by code_simp

lemma idle_writer_blocks:
  "es_severity (evaluateRunEffectiveness [(blank_task ''a'')\<lparr>status := Completed\<rparr>] True None False {}) = SevBlocked"
  "es_severity (evaluateRunEffectiveness [(blank_task ''a'')\<lparr>status := Completed\<rparr>] True None False {''a''}) = SevOk"
  by code_simp+

end
