(* ===== verification/FinalizeRun.thy ===== *)
theory FinalizeRun
  imports Effectiveness RunModel
begin

text \<open>
  \<open>finalizeRun\<close> of \<open>src/src/runtime/finalize-run.ts\<close>: the healing of stale records from disk, the
  policy decisions, the verdict on the run, and the one locked save that gives an external verdict
  on disk precedence. Artifacts, progress file, summary and health snapshot are left out; the
  states read from disk, the freshness of the branch and the clock are arguments.
\<close>

subsection \<open>The verdict\<close>

definition isRunTerminalPreserved :: "run_status \<Rightarrow> bool" where
  "isRunTerminalPreserved s \<longleftrightarrow> s = RCancelled \<or> s = RFailed \<or> s = RCompleted"

text \<open>\<open>disk\<close> is \<open>None\<close> when the task file cannot be read.\<close>

definition heal_from_disk ::
    "(string \<times> string list) list \<Rightarrow> team_task list \<Rightarrow> team_task list option \<Rightarrow> team_task list" where
  "heal_from_disk pending tasks diskTasks =
     (if pending = [] \<and> list_ex (\<lambda>t. status t = Running \<or> status t = Waiting) tasks
      then case diskTasks of
          None \<Rightarrow> tasks
        | Some ds \<Rightarrow>
            (let diskById = index_by task_id ds
             in map (\<lambda>t. if status t \<noteq> Running \<and> status t \<noteq> Waiting then t
                         else case diskById (task_id t) of
                             None \<Rightarrow> t
                           | Some d \<Rightarrow> if status d \<in> set TEAM_TERMINAL_TASK_STATUSES then d else t) tasks)
      else tasks)"

record finalize_input =
  fi_limits :: crew_limits
  fi_executeWorkers :: bool
  fi_guard :: "guard_mode option"
  fi_dryRun :: bool
  fi_delegated :: "string set"
  fi_staleBranch :: "string option"
  fi_diskTasks :: "team_task list option"
  fi_disk :: "(run_manifest \<times> team_task list) option"
  fi_signalAborted :: bool
  fi_nowMs :: int
  fi_now :: stamp

definition applyPolicy_decisions :: "finalize_input \<Rightarrow> team_task list \<Rightarrow> policy_decision list" where
  "applyPolicy_decisions f tasks =
     evaluateCrewPolicy tasks (fi_limits f) (fi_nowMs f) @
     (case fi_staleBranch f of
        None \<Rightarrow> [] | Some msg \<Rightarrow> [decision ActNotify BranchStale (MsgBranch msg) None])"

definition run_effectiveness :: "finalize_input \<Rightarrow> team_task list \<Rightarrow> effectiveness_summary" where
  "run_effectiveness f tasks =
     evaluateRunEffectiveness tasks (fi_executeWorkers f) (fi_guard f) (fi_dryRun f) (fi_delegated f)"

definition all_decisions :: "finalize_input \<Rightarrow> team_task list \<Rightarrow> policy_decision list" where
  "all_decisions f tasks =
     applyPolicy_decisions f tasks @
     (case effectivenessPolicyDecision (run_effectiveness f tasks) of None \<Rightarrow> [] | Some d \<Rightarrow> [d])"

definition blockingDecision :: "policy_decision list \<Rightarrow> policy_decision option" where
  "blockingDecision ds = find (\<lambda>d. pd_action d = ActBlock \<or> pd_action d = ActEscalate) ds"

text \<open>
  The chain that derives status and summary; no value means that an earlier failed or cancelled
  status is left as it is. \<open>render\<close> is the text of a decision.
\<close>

definition derive_verdict ::
    "(policy_message \<Rightarrow> string) \<Rightarrow> finalize_input \<Rightarrow> run_status \<Rightarrow> team_task list \<Rightarrow>
     (run_status \<times> string) option" where
  "derive_verdict render f entry tasks =
     (let eff = run_effectiveness f tasks;
          effText = (case effectivenessPolicyDecision eff of None \<Rightarrow> (\<lambda>s. s) | Some d \<Rightarrow> (\<lambda>s. render (pd_message d)))
      in case find (\<lambda>t. status t = Failed) tasks of
          Some t \<Rightarrow> Some (RFailed, ''Failed at task '' @ quoted (task_id t) @ ''.'')
        | None \<Rightarrow>
      (case find (\<lambda>t. status t = Waiting) tasks of
          Some t \<Rightarrow> Some (RBlocked, ''Waiting for response to task '' @ quoted (task_id t) @ ''.'')
        | None \<Rightarrow>
      (case find (\<lambda>t. status t = Running) tasks of
          Some t \<Rightarrow> Some (RBlocked, ''Task '' @ quoted (task_id t) @ '' is still running.'')
        | None \<Rightarrow>
          if es_severity eff = SevFailed then Some (RFailed, effText ''Run effectiveness guard failed.'')
          else if es_severity eff = SevBlocked
          then Some (RBlocked, effText ''Run effectiveness guard blocked completion.'')
          else case blockingDecision (all_decisions f tasks) of
              Some d \<Rightarrow> Some (RBlocked, render (pd_message d))
            | None \<Rightarrow>
                if list_ex (\<lambda>t. status t = Queued) tasks
                then Some (RBlocked, ''Run exited with queued tasks still pending.'')
                else if entry = RFailed \<or> entry = RCancelled then None
                else Some (RCompleted,
                  (let n = length (filter (\<lambda>t. status t = NeedsAttention) tasks)
                   in if 0 < n
                      then ''Team workflow completed with '' @ show_nat n @
                           '' task(s) needing attention (no result submitted).''
                      else if fi_executeWorkers f then ''Team workflow completed.''
                      else ''Team workflow scaffold completed without launching child workers.'')))))"

subsection \<open>The locked save\<close>

record finalize_result =
  fr_manifest :: run_manifest
  fr_tasks :: "team_task list"
  fr_disk :: run_manifest
  fr_events :: "string list"

definition finalizeRun ::
    "(policy_message \<Rightarrow> string) \<Rightarrow> finalize_input \<Rightarrow> run_manifest \<Rightarrow> (string \<times> string list) list \<Rightarrow>
     team_task list \<Rightarrow> run_status \<times> run_status + finalize_result" where
  "finalizeRun render f m pending tasks0 =
     (let tasks = heal_from_disk pending tasks0 (fi_diskTasks f);
          derived = derive_verdict render f (rm_status m) tasks;
          chained = (case derived of None \<Rightarrow> m
                     | Some (st, sm) \<Rightarrow> m\<lparr>rm_status := st, rm_summary := Some sm\<rparr>);
          diskManifest = map_option fst (fi_disk f);
          diskTerminal = (case fi_disk f of None \<Rightarrow> False | Some (d, _) \<Rightarrow> isRunTerminalPreserved (rm_status d));
          save = (\<lambda>resolved ts ev. let final = resolved\<lparr>rm_updatedAt := fi_now f\<rparr>
                  in \<lparr> fr_manifest = final, fr_tasks = ts,
                       fr_disk = saveRunManifest diskManifest final False, fr_events = ev \<rparr>)
      in if diskTerminal \<or> fi_signalAborted f
         then Inr (save
           (if diskTerminal
            then chained\<lparr>rm_status := rm_status (the diskManifest),
                         rm_summary := (case rm_summary (the diskManifest) of
                                          None \<Rightarrow> rm_summary chained | s \<Rightarrow> s)\<rparr>
            else chained\<lparr>rm_status := RCancelled, rm_summary := Some ''Run cancelled during finalization.''\<rparr>)
           (nullish (map_option snd (fi_disk f)) tasks) [''run.terminal_preserved''])
         else case derived of
             None \<Rightarrow> Inr (save chained tasks [])
           | Some (st, sm) \<Rightarrow>
               (case updateRunStatus diskManifest (chained\<lparr>rm_status := rm_status m\<rparr>) st (Some sm) False (fi_now f) of
                  Inl e \<Rightarrow> Inl e
                | Inr u \<Rightarrow> Inr (save (su_returned u) tasks [su_event u])))"

subsection \<open>A completed run\<close>

text \<open>No task of the run is open or failed.\<close>

definition all_settled :: "team_task list \<Rightarrow> bool" where
  "all_settled tasks \<longleftrightarrow> (\<forall>t \<in> set tasks. status t \<notin> {Failed, Waiting, Running, Queued})"

definition holds_back :: "policy_decision list \<Rightarrow> bool" where
  "holds_back ds \<longleftrightarrow> decides ActBlock ds \<or> decides ActEscalate ds"

lemma holds_back_simps [simp]:
  "holds_back [] = False"
  "holds_back (xs @ ys) = (holds_back xs \<or> holds_back ys)"
  "holds_back (d # ds) = (pd_action d = ActBlock \<or> pd_action d = ActEscalate \<or> holds_back ds)"
  "holds_back (concat xss) = (\<exists>xs \<in> set xss. holds_back xs)"
  by (auto simp: holds_back_def decides_def)

lemma blockingDecision_None: "blockingDecision ds = None \<longleftrightarrow> \<not> holds_back ds"
  by (auto simp: blockingDecision_def find_None_iff holds_back_def decides_def)

lemma settled_task_decisions:
  assumes "status t \<notin> {Failed, Waiting, Running, Queued}"
  shows "holds_back (task_decisions tasks lims now t) \<longleftrightarrow>
    exceeds (case graph t of None \<Rightarrow> 0 | Some g \<Rightarrow> length (g_children g)) (lim_maxChildrenPerTask lims) \<or>
    exceeds (taskDepth t tasks) (lim_maxTaskDepth lims) \<or> status t = Completed \<and> \<not> green t"
  using assms by (auto simp: task_decisions_def Let_def green_outcome green_def split: option.splits)

lemma settled_decisions:
  assumes "all_settled tasks"
  shows "holds_back (evaluateCrewPolicy tasks lims now) \<longleftrightarrow>
    \<not> (within_limits tasks lims \<and> (\<forall>t \<in> set tasks. status t = Completed \<longrightarrow> green t))"
proof -
  have "filter (\<lambda>t. status t = Running) tasks = []"
    using assms by (auto simp: filter_empty_conv all_settled_def)
  then have "holds_back (run_limit_decisions tasks lims) \<longleftrightarrow>
      exceeds (length tasks) (finite_limit (lim_maxTasksPerRun lims)) \<or>
      exceeds 0 (finite_limit (lim_maxConcurrentWorkers lims))"
    by (simp add: run_limit_decisions_def Let_def)
  moreover have "\<not> holds_back (attention_decisions tasks)"
    by (simp add: attention_decisions_def Let_def)
  moreover have "(\<exists>t \<in> set tasks. holds_back (task_decisions tasks lims now t)) \<longleftrightarrow>
      (\<exists>t \<in> set tasks.
        exceeds (case graph t of None \<Rightarrow> 0 | Some g \<Rightarrow> length (g_children g)) (lim_maxChildrenPerTask lims) \<or>
        exceeds (taskDepth t tasks) (lim_maxTaskDepth lims) \<or> status t = Completed \<and> \<not> green t)"
    using assms settled_task_decisions [of _ tasks lims now] by (auto simp: all_settled_def)
  ultimately show ?thesis
    by (auto simp: evaluateCrewPolicy_def Let_def within_limits_def)
qed

lemma effectiveness_decision_holds_back:
  "holds_back (case effectivenessPolicyDecision e of None \<Rightarrow> [] | Some d \<Rightarrow> [d]) \<longleftrightarrow> es_severity e = SevBlocked"
  by (cases "es_severity e") (simp_all add: effectivenessPolicyDecision_def)

lemma all_decisions_hold_back:
  "holds_back (all_decisions f tasks) \<longleftrightarrow>
     holds_back (evaluateCrewPolicy tasks (fi_limits f) (fi_nowMs f)) \<or>
     es_severity (run_effectiveness f tasks) = SevBlocked"
  unfolding all_decisions_def applyPolicy_decisions_def
  by (cases "fi_staleBranch f") (simp_all add: effectiveness_decision_holds_back)

text \<open>The guard has nothing against a task that is completed.\<close>

definition shows_work :: "finalize_input \<Rightarrow> team_task \<Rightarrow> bool" where
  "shows_work f t \<longleftrightarrow>
     \<not> fi_executeWorkers f \<or> \<not> idle_task (fi_delegated f) t \<or>
     \<not> (resolveEffectivenessGuardMode (fi_guard f) (fi_dryRun f) \<in> {GuardBlock, GuardFail} \<or>
        resolveEffectivenessGuardMode (fi_guard f) (fi_dryRun f) = GuardWarn \<and>
          \<not> taskIsSyntheticGateSkip t \<and> permissionForRole (role t) \<noteq> ReadOnly)"

definition completes :: "finalize_input \<Rightarrow> run_status \<Rightarrow> team_task list \<Rightarrow> bool" where
  "completes f entry tasks \<longleftrightarrow>
     entry \<notin> {RFailed, RCancelled} \<and> all_settled tasks \<and> within_limits tasks (fi_limits f) \<and>
     (\<forall>t \<in> set tasks. status t = Completed \<longrightarrow> green t \<and> shows_work f t)"

lemma guard_silent:
  "es_severity (run_effectiveness f tasks) \<notin> {SevFailed, SevBlocked} \<longleftrightarrow> (\<forall>t \<in> set tasks. shows_work f t)"
  using guard_holds_back_iff [of tasks "fi_executeWorkers f" "fi_guard f" "fi_dryRun f" "fi_delegated f"]
  by (auto simp: run_effectiveness_def shows_work_def)

lemma shows_work_completed:
  "(\<forall>t \<in> set tasks. shows_work f t) \<longleftrightarrow> (\<forall>t \<in> set tasks. status t = Completed \<longrightarrow> shows_work f t)"
  by (auto simp: shows_work_def idle_task_def)

lemma find_settled:
  "all_settled tasks \<longleftrightarrow>
     find (\<lambda>t. status t = Failed) tasks = None \<and> find (\<lambda>t. status t = Waiting) tasks = None \<and>
     find (\<lambda>t. status t = Running) tasks = None \<and> \<not> list_ex (\<lambda>t. status t = Queued) tasks"
  by (auto simp: all_settled_def find_None_iff list_ex_iff)

lemma derived_completed_iff:
  "(\<exists>sm. derive_verdict render f entry tasks = Some (RCompleted, sm)) \<longleftrightarrow> completes f entry tasks"
proof (cases "all_settled tasks \<and> es_severity (run_effectiveness f tasks) \<notin> {SevFailed, SevBlocked}")
  case True
  then have "(\<exists>sm. derive_verdict render f entry tasks = Some (RCompleted, sm)) \<longleftrightarrow>
      \<not> holds_back (all_decisions f tasks) \<and> entry \<notin> {RFailed, RCancelled}"
    using blockingDecision_None [of "all_decisions f tasks"]
    by (cases "blockingDecision (all_decisions f tasks)")
      (auto simp: derive_verdict_def Let_def find_settled)
  then show ?thesis
    using True settled_decisions [of tasks "fi_limits f" "fi_nowMs f"] guard_silent [of f tasks]
      shows_work_completed [of tasks f]
    by (auto simp: completes_def all_decisions_hold_back)
next
  case False
  then have "\<not> (\<exists>sm. derive_verdict render f entry tasks = Some (RCompleted, sm))"
    by (auto simp: derive_verdict_def Let_def find_settled split: option.splits)
  moreover have "\<not> completes f entry tasks"
    using False guard_silent [of f tasks] shows_work_completed [of tasks f] by (auto simp: completes_def)
  ultimately show ?thesis by simp
qed

lemma derived_None:
  "derive_verdict render f entry tasks = None \<Longrightarrow> entry = RFailed \<or> entry = RCancelled"
  by (auto simp: derive_verdict_def Let_def split: option.splits if_splits)

definition externally_ended :: "finalize_input \<Rightarrow> bool" where
  "externally_ended f \<longleftrightarrow> (\<exists>d ts. fi_disk f = Some (d, ts) \<and> isRunTerminalPreserved (rm_status d))"

lemma diskTerminal:
  "(case fi_disk f of None \<Rightarrow> False | Some (d, _) \<Rightarrow> isRunTerminalPreserved (rm_status d)) \<longleftrightarrow>
   externally_ended f"
  by (cases "fi_disk f") (auto simp: externally_ended_def)

lemma status_saved:
  assumes "\<not> externally_ended f"
    and "updateRunStatus (map_option fst (fi_disk f)) m st s False now = Inr u"
  shows "rm_status (su_returned u) = st"
  using assms
  by (cases "fi_disk f")
    (auto simp: updateRunStatus_def saveRunManifest_def preserveDiskTerminalStatus_def Let_def
      externally_ended_def isRunTerminalPreserved_def DISK_TERMINAL_STATUSES_def split: if_splits)

text \<open>
  C3. No run is reported completed falsely: when no process has ended the run on disk, a finalized run
  is completed exactly when it was not aborted, had not failed or been cancelled before, none of
  its tasks is queued, running, waiting or failed, every limit is kept, and every completed task has
  its green contract satisfied and shows work where the guard asks for it.
\<close>

theorem completed_run_exact:
  assumes "finalizeRun render f m pending tasks = Inr r" and "\<not> externally_ended f"
  shows "rm_status (fr_manifest r) = RCompleted \<longleftrightarrow>
    \<not> fi_signalAborted f \<and> completes f (rm_status m) (heal_from_disk pending tasks (fi_diskTasks f))"
proof -
  let ?ts = "heal_from_disk pending tasks (fi_diskTasks f)"
  note derived = derived_completed_iff [of render f "rm_status m" ?ts]
  show ?thesis
  proof (cases "fi_signalAborted f")
    case True
    then show ?thesis using assms by (auto simp: finalizeRun_def Let_def diskTerminal)
  next
    case na: False
    show ?thesis
    proof (cases "derive_verdict render f (rm_status m) ?ts")
      case None
      then have "rm_status (fr_manifest r) = rm_status m"
        using assms na by (auto simp: finalizeRun_def Let_def diskTerminal)
      then show ?thesis using derived_None [OF None] by (auto simp: na completes_def)
    next
      case (Some v)
      obtain st sm where v: "v = (st, sm)" by (cases v)
      obtain u m' where u: "updateRunStatus (map_option fst (fi_disk f)) m' st (Some sm) False (fi_now f) = Inr u"
        "fr_manifest r = (su_returned u)\<lparr>rm_updatedAt := fi_now f\<rparr>"
        using assms na Some v by (auto simp: finalizeRun_def Let_def diskTerminal split: sum.splits)
      then have "rm_status (fr_manifest r) = st" using status_saved [OF assms(2) u(1)] by simp
      then show ?thesis using derived Some v by (auto simp: na)
    qed
  qed
qed

text \<open>
  A verdict that another process has written wins: when the manifest on disk is completed, failed or
  cancelled, finalization never fails, keeps that status and the tasks on disk, whatever it derived,
  and leaves the status on disk as it was.
\<close>

theorem external_verdict_wins:
  assumes "fi_disk f = Some (d, ts)" and "isRunTerminalPreserved (rm_status d)"
  shows "\<exists>r. finalizeRun render f m pending tasks = Inr r \<and> rm_status (fr_manifest r) = rm_status d \<and>
    fr_tasks r = ts \<and> rm_status (fr_disk r) = rm_status d \<and> fr_events r = [''run.terminal_preserved'']"
  using assms
  by (auto simp: finalizeRun_def Let_def saveRunManifest_def preserveDiskTerminalStatus_def)

lemma updateRunStatus_Inl:
  "updateRunStatus disk m st s x now = Inl e \<longleftrightarrow> \<not> canTransitionRunStatus (rm_status m) st \<and> e = (rm_status m, st)"
  by (auto simp: updateRunStatus_def Let_def)

lemma updateRunStatus_Inr:
  "updateRunStatus disk m st s x now = Inr u \<Longrightarrow> canTransitionRunStatus (rm_status m) st"
  by (auto simp: updateRunStatus_def Let_def split: if_splits)

text \<open>
  Finalization throws exactly when the derived status may not follow the one the run has: a run
  that is running never makes it throw, a blocked run whose tasks are all done does.
\<close>

theorem finalize_refused_iff:
  "finalizeRun render f m pending tasks = Inl e \<longleftrightarrow>
     \<not> externally_ended f \<and> \<not> fi_signalAborted f \<and>
     (\<exists>st sm. derive_verdict render f (rm_status m) (heal_from_disk pending tasks (fi_diskTasks f)) = Some (st, sm) \<and>
        \<not> canTransitionRunStatus (rm_status m) st \<and> e = (rm_status m, st))"
proof (cases "externally_ended f \<or> fi_signalAborted f")
  case True
  then show ?thesis by (auto simp: finalizeRun_def Let_def diskTerminal)
next
  case False
  then show ?thesis
    by (cases "derive_verdict render f (rm_status m) (heal_from_disk pending tasks (fi_diskTasks f))")
      (auto simp: finalizeRun_def Let_def diskTerminal updateRunStatus_Inl split: sum.splits dest!: updateRunStatus_Inr)
qed

subsection \<open>Concrete inputs\<close>

definition plain_finalize :: finalize_input where
  "plain_finalize =
     \<lparr> fi_limits = no_limits, fi_executeWorkers = True, fi_guard = None, fi_dryRun = False,
       fi_delegated = {}, fi_staleBranch = None, fi_diskTasks = None, fi_disk = None,
       fi_signalAborted = False, fi_nowMs = 0, fi_now = Stamp ''z'' (Some 0) \<rparr>"

definition worked_task :: "string \<Rightarrow> team_task" where
  "worked_task i = (blank_task i)\<lparr>status := Completed, jsonEvents := Some 3\<rparr>"

lemma completed_run_exact_witness:
  "\<exists>r. finalizeRun (\<lambda>_. []) plain_finalize (sample_manifest RRunning) [] [worked_task ''a''] = Inr r \<and>
     rm_status (fr_manifest r) = RCompleted \<and>
     completes plain_finalize RRunning [worked_task ''a'']"
proof -
  have "\<not> isl (finalizeRun (\<lambda>_. []) plain_finalize (sample_manifest RRunning) [] [worked_task ''a''])"
    by code_simp
  then obtain r where r: "finalizeRun (\<lambda>_. []) plain_finalize (sample_manifest RRunning) [] [worked_task ''a''] = Inr r"
    by (cases "finalizeRun (\<lambda>_. []) plain_finalize (sample_manifest RRunning) [] [worked_task ''a'']") auto
  have h: "heal_from_disk [] [worked_task ''a''] (fi_diskTasks plain_finalize) = [worked_task ''a'']"
    by code_simp
  have "\<not> externally_ended plain_finalize" by (simp add: externally_ended_def plain_finalize_def)
  moreover have "map_option fst (derive_verdict (\<lambda>_. []) plain_finalize RRunning [worked_task ''a'']) = Some RCompleted"
    by code_simp
  then have "completes plain_finalize RRunning [worked_task ''a'']"
    using derived_completed_iff [of "\<lambda>_. []" plain_finalize RRunning "[worked_task ''a'']"] by auto
  ultimately show ?thesis
    using completed_run_exact [OF r] r unfolding h by (simp add: plain_finalize_def)
qed

lemma external_verdict_wins_witness:
  "\<exists>r. finalizeRun (\<lambda>_. []) (plain_finalize\<lparr>fi_disk := Some (sample_manifest RCancelled, [])\<rparr>)
     (sample_manifest RRunning) [] [worked_task ''a''] = Inr r \<and> rm_status (fr_manifest r) = RCancelled"
  using external_verdict_wins [of "plain_finalize\<lparr>fi_disk := Some (sample_manifest RCancelled, [])\<rparr>"
    "sample_manifest RCancelled" "[]" "\<lambda>_. []" "sample_manifest RRunning" "[]" "[worked_task ''a'']"]
  by (auto simp: isRunTerminalPreserved_def)

text \<open>A blocked run whose only task is done: the derived status is completed, and the update throws.\<close>

lemma blocked_run_cannot_complete:
  "finalizeRun (\<lambda>_. []) plain_finalize (sample_manifest RBlocked) [] [worked_task ''a''] = Inl (RBlocked, RCompleted)"
  by code_simp

end
