(* ===== verification/RunnerLoop.thy ===== *)
theory RunnerLoop
  imports RunAbort FinalizeRun Dispatch TaskIds
begin

text \<open>
  The scheduler loop of \<open>src/src/runtime/team-runner.ts\<close>: how a batch becomes units in flight
  (\<open>dispatchBatch\<close> of \<open>dispatch-batch.ts\<close>), how one settled unit is merged (\<open>mergeUnitResult\<close> of
  \<open>merge-loop.ts\<close>), and the decisions that end the loop from outside. Workers, hooks and what
  other processes write to disk are the environment: arguments of the operations. Events and
  metrics are left out.
\<close>

subsection \<open>The state of the loop\<close>

text \<open>
  The part of \<open>SchedulerContext\<close> the modelled operations use; \<open>ls_pending\<close> is the map \<open>pendingUnits\<close>
  from unit keys to task ids, whose promises are the environment.
\<close>

record loop_state =
  ls_manifest :: run_manifest
  ls_tasks :: "team_task list"
  ls_pending :: "(string \<times> string list) list"
  ls_dispatched :: "string set"

record loop_config =
  lc_flow :: workflow_config
  lc_teamMax :: "jsnum option"
  lc_limitMax :: "jsnum option"
  lc_unbounded :: bool
  lc_serialize :: bool
  lc_capacity :: int

definition dispatch_view :: "loop_config \<Rightarrow> loop_state \<Rightarrow> task_graph_index option \<Rightarrow> bool \<Rightarrow> dispatch_input" where
  "dispatch_view c s queueIndex approvalPending =
     \<lparr> di_tasks = ls_tasks s, di_queueIndex = queueIndex, di_flow = lc_flow c, di_teamMax = lc_teamMax c,
       di_limitMax = lc_limitMax c, di_unbounded = lc_unbounded c, di_serialize = lc_serialize c,
       di_pending = ls_pending s, di_approvalPending = approvalPending \<rparr>"

subsection \<open>Dispatching a batch\<close>

text \<open>
  The reports of the hooks in the order of the batch: \<open>Some reason\<close> for a task that is blocked. The
  refused transition cannot happen, as the status stays the same.
\<close>

definition apply_hook :: "stamp \<Rightarrow> loop_state \<times> run_manifest option \<Rightarrow> team_task \<times> string option option \<Rightarrow>
    run_status \<times> run_status + loop_state \<times> run_manifest option" where
  "apply_hook now st report =
     (let (s, disk) = st; (t, outcome) = report
      in case outcome of
          None \<Rightarrow> Inr (s, disk)
        | Some reason \<Rightarrow>
            (let tasks = map (\<lambda>u. if task_id u = task_id t
                   then u\<lparr>status := Skipped, task_error :=
                     Some (nullish reason ''before_task_start hook blocked execution.'')\<rparr> else u) (ls_tasks s)
             in case updateRunStatus disk (ls_manifest s) (rm_status (ls_manifest s))
                   (Some (''Task '' @ quoted (task_id t) @ '' blocked by hook.'')) False now of
                 Inl e \<Rightarrow> Inl e
               | Inr u \<Rightarrow> Inr (s\<lparr>ls_tasks := tasks, ls_manifest := su_returned u\<rparr>, Some (su_written u))))"

fun apply_hooks :: "stamp \<Rightarrow> (team_task \<times> string option option) list \<Rightarrow> loop_state \<times> run_manifest option \<Rightarrow>
    run_status \<times> run_status + loop_state \<times> run_manifest option" where
  "apply_hooks now [] st = Inr st"
| "apply_hooks now (r # rs) st =
     (case apply_hook now st r of Inl e \<Rightarrow> Inl e | Inr st' \<Rightarrow> apply_hooks now rs st')"

definition batch_tasks :: "team_task list \<Rightarrow> team_task list \<Rightarrow> team_task list" where
  "batch_tasks readyBatch tasks =
     filter (\<lambda>t. case index_by task_id tasks (task_id t) of
                   None \<Rightarrow> False | Some u \<Rightarrow> status u \<noteq> Skipped) readyBatch"

text \<open>The tasks whose step is looked up for the cache: one per working directory.\<close>

fun representatives :: "team_task list \<Rightarrow> string list \<Rightarrow> team_task list" where
  "representatives [] seen = []"
| "representatives (t # ts) seen =
     (if cwd t \<in> set seen then representatives ts seen
      else t # representatives ts (js_set_add (cwd t) seen))"

definition unit_key :: "dispatch_unit \<Rightarrow> string" where
  "unit_key u = (case u of Singleton i \<Rightarrow> i | Group g \<Rightarrow> cg_id g)"

definition register_unit :: "loop_state \<Rightarrow> dispatch_unit \<Rightarrow> loop_state" where
  "register_unit s u =
     s\<lparr>ls_pending := omap_set (unit_key u) (unit_ids u) (ls_pending s),
       ls_dispatched := ls_dispatched s \<union> set (unit_ids u)\<rparr>"

definition batch_units :: "loop_config \<Rightarrow> team_task list \<Rightarrow> team_task list \<Rightarrow> dispatch_unit list" where
  "batch_units c batch tasks =
     (let ids = map task_id batch
      in buildDispatchUnits ids
           (planCoalescedGroups ids tasks (lc_flow c) (wf_coalesceMicroTasks (lc_flow c) = Some True)
              DEFAULT_MAX_GROUP_SIZE DEFAULT_MAX_GROUP_BYTES))"

datatype dispatch_error = BadTransition run_status run_status | StepNotFound

definition dispatchBatch ::
    "loop_config \<Rightarrow> stamp \<Rightarrow> (team_task \<Rightarrow> string option option) \<Rightarrow> run_manifest option \<Rightarrow>
     team_task list \<Rightarrow> loop_state \<Rightarrow> dispatch_error + loop_state" where
  "dispatchBatch c now hook disk readyBatch s =
     (case apply_hooks now (map (\<lambda>t. (t, hook t)) readyBatch) (s, disk) of
        Inl (a, b) \<Rightarrow> Inl (BadTransition a b)
      | Inr (s1, _) \<Rightarrow>
          (let batch = batch_tasks readyBatch (ls_tasks s1)
           in if 1 < length batch \<and>
                 list_ex (\<lambda>t. findStep (lc_flow c) t = None) (representatives batch [])
              then Inl StepNotFound
              else Inr (foldl register_unit s1 (batch_units c batch (ls_tasks s1)))))"

subsection \<open>Merging a settled unit\<close>

text \<open>
  A settled unit has a result, its artifacts and tasks, or an error; the file system cause an error
  adds to the failed tasks is left out. \<open>busy k\<close> says that another operation holds the run lock at
  attempt \<open>k\<close>, and \<open>disk\<close> is the state loaded under the lock, after the pending writes have been
  flushed; nobody else writes while the lock is held. The unit leaves the units in flight before
  the lock is asked for, so it is gone also when the merge fails. What is saved is what the
  scheduler goes on with.
\<close>

definition settled_result ::
    "loop_state \<Rightarrow> string \<Rightarrow> string + artifact list \<times> team_task list \<Rightarrow> stamp \<Rightarrow> artifact list \<times> team_task list" where
  "settled_result s key outcome now =
     (case outcome of
        Inr result \<Rightarrow> result
      | Inl msg \<Rightarrow>
          (rm_artifacts (ls_manifest s),
           cancelNonTerminalTasks (ls_tasks s) Failed msg
             (Some (\<lambda>t. task_id t \<in> set (nullish (map_of (ls_pending s) key) []))) None now))"

definition mergeUnitResult ::
    "(nat \<Rightarrow> bool) \<Rightarrow> string \<Rightarrow> string + artifact list \<times> team_task list \<Rightarrow>
     (run_manifest \<times> team_task list) option \<Rightarrow> stamp \<Rightarrow> loop_state \<Rightarrow> merge_error \<times> loop_state + loop_state" where
  "mergeUnitResult busy key outcome disk now s =
     (let s0 = s\<lparr>ls_pending := omap_del key (ls_pending s)\<rparr>;
          resultToMerge = settled_result s key outcome now
      in if \<not> snd (withRunLockBusyRetryAsync MERGE_LOCK_BUSY_RETRY_DELAYS_MS busy 0) then Inl (RunLockBusy, s0)
         else
           let diskManifest = nullish (map_option fst disk) (ls_manifest s);
               reconciledArtifacts = mergeArtifacts (rm_artifacts diskManifest @ fst resultToMerge);
               mergedBase = diskManifest\<lparr>rm_artifacts := reconciledArtifacts\<rparr>;
               resultTasks = mergeTaskUpdatesPreservingTerminal (nullish (map_option snd disk) (ls_tasks s))
                 [snd resultToMerge];
               resultManifest =
                 (if isRunTerminalPreserved (rm_status diskManifest) then Inr mergedBase
                  else map_sum id su_returned (updateRunStatus (map_option fst disk) mergedBase RRunning
                         (Some ''Merged task updates from parallel batch.'') False now))
           in case resultManifest of
               Inl (a, b) \<Rightarrow> Inl (RefusedChange a b, s0)
             | Inr m \<Rightarrow> Inr (s0\<lparr>ls_manifest := m, ls_tasks := resultTasks\<rparr>))"

subsection \<open>Decisions from outside\<close>

definition externalTerminalDecision :: "(run_manifest \<times> team_task list) option \<Rightarrow> (run_manifest \<times> team_task list) option" where
  "externalTerminalDecision fresh =
     (case fresh of
        None \<Rightarrow> None
      | Some (m, ts) \<Rightarrow> if rm_status m \<notin> set TEAM_TERMINAL_RUN_STATUSES then None else Some (m, ts))"

text \<open>\<open>reason\<close> is message and code of the abort, if the signal has fired; terminal evidence is left out.\<close>

definition cancelRunFromSignal ::
    "(string \<times> string) option \<Rightarrow> run_manifest option \<Rightarrow> stamp \<Rightarrow> loop_state \<Rightarrow>
     (run_status \<times> run_status + run_manifest \<times> team_task list) option" where
  "cancelRunFromSignal reason disk now s =
     (case reason of
        None \<Rightarrow> None
      | Some (msg, code) \<Rightarrow>
          (let message = msg @ '' ('' @ code @ '')'';
               tasks = cancelNonTerminalTasks (ls_tasks s) Cancelled message None None now
           in Some (case updateRunStatus disk (ls_manifest s) RCancelled (Some message) False now of
                Inl e \<Rightarrow> Inl e | Inr u \<Rightarrow> Inr (su_returned u, tasks))))"

definition setRunStatusRunning :: "run_manifest \<Rightarrow> run_manifest" where
  "setRunStatusRunning m =
     (if canTransitionRunStatus (rm_status m) RRunning then m\<lparr>rm_status := RRunning\<rparr> else m)"

text \<open>The cancellation that is found after a merge: a worker reported it, or the signal has fired.\<close>

definition cancel_after_merge ::
    "(string \<times> string) option \<Rightarrow> string option \<Rightarrow> run_manifest option \<Rightarrow> stamp \<Rightarrow> loop_state \<Rightarrow>
     run_status \<times> run_status + run_manifest \<times> team_task list" where
  "cancel_after_merge reason workerSummary disk now s =
     (let message = nullish (map_option fst reason) (nullish workerSummary ''Run cancelled during task execution.'');
          cancelMessage = (case reason of None \<Rightarrow> message | Some (_, code) \<Rightarrow> message @ '' ('' @ code @ '')'')
      in case updateRunStatus disk (setRunStatusRunning (ls_manifest s)) RCancelled (Some message) False now of
          Inl e \<Rightarrow> Inl e
        | Inr u \<Rightarrow> Inr (su_returned u, cancelNonTerminalTasks (ls_tasks s) Cancelled cancelMessage None None now))"

definition cancelPlanTasks :: "team_task list \<Rightarrow> string \<Rightarrow> stamp \<Rightarrow> team_task list" where
  "cancelPlanTasks tasks reason now =
     cancelNonTerminalTasks tasks Cancelled reason None
       (Some (\<lambda>t ended. ended\<lparr>graph := map_option (\<lambda>g. g\<lparr>g_queue := QDone\<rparr>) (graph t)\<rparr>)) now"

definition hasPendingMutatingTaskAtBoundary :: "team_task list \<Rightarrow> bool" where
  "hasPendingMutatingTaskAtBoundary tasks \<longleftrightarrow>
     list_ex (\<lambda>t. status t = Completed \<and> \<not> isMutatingTask t) tasks \<and>
     list_ex (\<lambda>t. status t = Queued \<and> isMutatingTask t) tasks"

definition batchSummarySlug :: "(string \<Rightarrow> string) \<Rightarrow> string list \<Rightarrow> string" where
  "batchSummarySlug hash taskIds =
     (let joined = join ''+'' taskIds
      in if length joined \<le> 180 then joined
         else ''coalesced-'' @ show_nat (length taskIds) @ ''-'' @ hash joined)"

subsection \<open>The batch is free of repetitions\<close>

lemma kahn_waves_distinct:
  "distinct cur \<Longrightarrow> w \<in> set (kahn_waves tasks adj cur deg n) \<Longrightarrow> distinct (w_taskIds w)"
proof (induction tasks adj cur deg n rule: kahn_waves.induct)
  case (1 tasks adj cur deg n)
  have js: "distinct (snd (fold (relax js_set_add) ds st))" if "distinct (snd st)" for ds st
    using that
  proof (induction ds arbitrary: st)
    case (Cons d ds)
    have "distinct (snd (relax js_set_add d st))"
      using Cons.prems by (cases st) (auto simp: js_set_add_def split: option.splits)
    with Cons.IH show ?case by simp
  qed simp
  show ?case
  proof (cases "cur = []")
    case True
    then show ?thesis using 1(3) by (simp add: kahn_waves.simps [of tasks adj "[]"])
  next
    case False
    then show ?thesis
      using 1 js [of "(deg, [])"]
      by (subst (asm) (2) kahn_waves.simps) (auto simp: Let_def buildWave_def)
  qed
qed

lemma first_open_distinct:
  "\<forall>w \<in> set ws. distinct (w_taskIds w) \<Longrightarrow> distinct (first_open_wave all c ws)"
  by (induction all c ws rule: first_open_wave.induct) (auto simp: Let_def)

lemma dag_ready_distinct:
  assumes "distinct (map task_id tasks)" and "dagReadyTaskIds tasks c = Inr (Some ready)"
  shows "distinct ready"
proof -
  obtain plan where p: "buildExecutionPlan (dag_nodes tasks) = Inr plan" and r: "ready = plan_getReadyTasks plan c"
    using assms(2) by (auto simp: dagReadyTaskIds_def split: if_splits sum.splits)
  have d: "distinct (node_ids (dag_nodes tasks))"
    unfolding dag_node_ids using assms(1) by (simp add: distinct_map_filter)
  have q: "distinct (node_ids (filter P (dag_nodes tasks)))" for P
    using d by (simp add: distinct_map_filter)
  have "\<forall>w \<in> set (p_waves plan). distinct (w_taskIds w)"
    using p
    by (auto simp: buildExecutionPlan_def Let_def dest: kahn_waves_distinct [OF q] split: if_splits option.splits)
  then show ?thesis unfolding r plan_getReadyTasks_def by (simp add: first_open_distinct)
qed

lemma snapshot_ready_distinct:
  "distinct (map task_id tasks) \<Longrightarrow> distinct (snap_ready (taskGraphSnapshot tasks idx))"
  by (simp add: taskGraphSnapshot_def Let_def refreshTaskGraphQueues_def distinct_map_filter comp_def)

lemma pick_tasks_distinct:
  "distinct is \<Longrightarrow> distinct picked \<Longrightarrow> set is \<inter> set picked = {} \<Longrightarrow>
   distinct (pick_tasks cap f is steps picked)"
  by (induction cap f "is" steps picked rule: pick_tasks.induct) (auto split: option.splits)

lemma map_filter_index_ids:
  "map task_id (List.map_filter (index_by task_id tasks) is) =
   filter (\<lambda>i. index_by task_id tasks i \<noteq> None) is"
  by (induction "is") (auto simp: List.map_filter_simps dest: index_by_SomeD split: option.splits)

lemma batch_distinct:
  assumes "distinct (map task_id (di_tasks d))" and "selectDispatchBatch cap now d = Inr (DispatchBatch batch)"
  shows "distinct (map task_id batch)"
  using assms(2)
proof (rule dispatched_batch)
  fix dagReady ready conc slots readyIds
  assume dr: "dagReadyTaskIds (di_tasks d) (settled_ids (di_tasks d)) = Inr dagReady"
    and ready: "ready = ready_before_filter d dagReady"
    and ids: "readyIds = filter (\<lambda>i. i \<notin> set (concat (map snd (di_pending d))))
       (filterReadyByWriteOverlap ready (di_tasks d) (di_flow d) (bd_maxConcurrent conc) (di_serialize d))"
    and batch: "batch = (if di_approvalPending d
       then take slots (filter (\<lambda>t. \<not> isMutatingTask t) (List.map_filter (index_by task_id (di_tasks d)) readyIds))
       else List.map_filter (index_by task_id (di_tasks d)) (take slots readyIds))"
  have "distinct ready"
    using dag_ready_distinct [OF assms(1)] dr snapshot_ready_distinct [OF assms(1)]
    by (cases dagReady) (auto simp: ready ready_before_filter_def Let_def)
  then have d: "distinct readyIds"
    unfolding ids filterReadyByWriteOverlap_def by (simp add: pick_tasks_distinct)
  have "distinct (map task_id (List.map_filter (index_by task_id (di_tasks d)) is))" if "distinct is" for "is"
    unfolding map_filter_index_ids using that by simp
  then show ?thesis using d by (auto simp: batch distinct_map_filter take_map [symmetric])
qed

subsection \<open>Units in flight\<close>

definition ids_ok :: "team_task list \<Rightarrow> bool" where
  "ids_ok ts \<longleftrightarrow> distinct (map task_id ts) \<and> (\<forall>t \<in> set ts. CHR ''+'' \<notin> set (task_id t))"

text \<open>The key of a unit is the joined list of its tasks.\<close>

definition labelled :: "string \<times> string list \<Rightarrow> bool" where
  "labelled e \<longleftrightarrow> snd e \<noteq> [] \<and> fst e = join ''+'' (snd e) \<and> (\<forall>i \<in> set (snd e). CHR ''+'' \<notin> set i)"

definition unit_entry :: "dispatch_unit \<Rightarrow> string \<times> string list" where
  "unit_entry u = (unit_key u, unit_ids u)"

lemma group_pass_units:
  "u \<in> set (snd (group_pass groupOf is v us)) \<Longrightarrow> u \<in> set us \<or> (\<exists>i g. groupOf i = Some g \<and> u = Group g)"
  by (induction groupOf "is" v us rule: group_pass.induct) (fastforce split: option.splits if_splits)+

lemma batch_units_mset:
  assumes "distinct (map task_id batch)" and "\<forall>t \<in> set batch. CHR ''+'' \<notin> set (task_id t)"
  shows "mset (concat (map unit_ids (batch_units c batch tasks))) = mset (map task_id batch)"
  unfolding batch_units_def Let_def by (rule dispatched_once) (use assms in auto)

lemma batch_units_labelled:
  assumes "distinct (map task_id batch)" and "\<forall>t \<in> set batch. CHR ''+'' \<notin> set (task_id t)"
    and u: "u \<in> set (batch_units c batch tasks)"
  shows "labelled (unit_entry u)"
proof -
  let ?ids = "map task_id batch"
  let ?gs = "planCoalescedGroups ?ids tasks (lc_flow c) (wf_coalesceMicroTasks (lc_flow c) = Some True)
    DEFAULT_MAX_GROUP_SIZE DEFAULT_MAX_GROUP_BYTES"
  have "set (unit_ids u) \<subseteq> set ?ids"
    using mset_eq_setD [OF batch_units_mset [OF assms(1,2), of c tasks]] u by auto
  then have plus: "\<forall>i \<in> set (unit_ids u). CHR ''+'' \<notin> set i" using assms(2) by auto
  show ?thesis
  proof (cases u)
    case (Singleton i)
    then show ?thesis using plus by (simp add: labelled_def unit_entry_def unit_key_def)
  next
    case (Group g)
    then have "u \<in> set (snd (group_pass (fold index_group ?gs Map.empty) ?ids {} []))"
      using u by (cases "group_pass (fold index_group ?gs Map.empty) ?ids {} []")
        (auto simp: batch_units_def Let_def buildDispatchUnits_def)
    then obtain i where "fold index_group ?gs Map.empty i = Some g"
      using group_pass_units [of u _ ?ids "{}" "[]"] Group by auto
    then have g: "g \<in> set ?gs" "2 \<le> length (cg_tasks g)"
      using groupOf_SomeD [of ?gs Map.empty i g] by auto
    then have e: "wf_coalesceMicroTasks (lc_flow c) = Some True" by (auto simp: planCoalescedGroups_def split: if_splits)
    have "cg_id g = join ''+'' (group_ids g)"
      using g plan_group_label [of g ?ids tasks "lc_flow c" DEFAULT_MAX_GROUP_SIZE DEFAULT_MAX_GROUP_BYTES]
      by (simp add: e)
    then show ?thesis
      using Group plus g by (auto simp: labelled_def unit_entry_def unit_key_def group_ids_def)
  qed
qed

lemma labelled_key_inj:
  assumes "labelled e" and "labelled e'" and "fst e = fst e'"
  shows "snd e = snd e'"
  using assms join_plus_inj [of "snd e" "snd e'"] by (auto simp: labelled_def)

text \<open>Disjoint, labelled entries have distinct keys.\<close>

definition entries_ok :: "(string \<times> string list) list \<Rightarrow> bool" where
  "entries_ok es \<longleftrightarrow> (\<forall>e \<in> set es. labelled e) \<and> distinct (concat (map snd es))"

lemma entries_ok_keys: "entries_ok es \<Longrightarrow> distinct (map fst es)"
proof (induction es)
  case (Cons e es)
  have "fst e \<noteq> fst e'" if "e' \<in> set es" for e'
  proof
    assume "fst e = fst e'"
    then have "snd e = snd e'" using Cons.prems that by (intro labelled_key_inj) (auto simp: entries_ok_def)
    moreover have "snd e \<noteq> []" using Cons.prems by (simp add: entries_ok_def labelled_def)
    moreover have "set (snd e) \<inter> set (snd e') = {}" using Cons.prems that by (auto simp: entries_ok_def)
    ultimately show False by simp
  qed
  then show ?case using Cons by (auto simp: entries_ok_def)
qed simp

lemma omap_set_fresh: "k \<notin> fst ` set m \<Longrightarrow> omap_set k v m = m @ [(k, v)]"
  by (induction k v m rule: omap_set.induct) auto

lemma register_units:
  "distinct (map fst (ls_pending s @ map unit_entry us)) \<Longrightarrow>
   ls_pending (foldl register_unit s us) = ls_pending s @ map unit_entry us \<and>
   ls_dispatched (foldl register_unit s us) = ls_dispatched s \<union> set (concat (map unit_ids us)) \<and>
   ls_tasks (foldl register_unit s us) = ls_tasks s \<and> ls_manifest (foldl register_unit s us) = ls_manifest s"
proof (induction us arbitrary: s)
  case (Cons u us)
  have "ls_pending (register_unit s u) = ls_pending s @ [unit_entry u]"
    using Cons.prems by (auto simp: register_unit_def unit_entry_def omap_set_fresh)
  then show ?case using Cons.prems Cons.IH [of "register_unit s u"]
    by (auto simp: register_unit_def)
qed simp

lemma apply_hooks_keep:
  "apply_hooks now rs (s, disk) = Inr (s', disk') \<Longrightarrow>
   ls_pending s' = ls_pending s \<and> ls_dispatched s' = ls_dispatched s \<and>
   map task_id (ls_tasks s') = map task_id (ls_tasks s)"
proof (induction rs arbitrary: s disk)
  case (Cons r rs)
  obtain s1 d1 where r: "apply_hook now (s, disk) r = Inr (s1, d1)" "apply_hooks now rs (s1, d1) = Inr (s', disk')"
    using Cons.prems by (auto split: sum.splits)
  have "ls_pending s1 = ls_pending s \<and> ls_dispatched s1 = ls_dispatched s \<and>
      map task_id (ls_tasks s1) = map task_id (ls_tasks s)"
    using r(1) by (cases r) (auto simp: apply_hook_def Let_def comp_def split: option.splits sum.splits)
  then show ?case using Cons.IH [OF r(2)] by simp
qed simp

subsection \<open>What can be in flight\<close>

text \<open>
  The most units a run may have in flight; the number of ready tasks has no part in it.
\<close>

definition max_concurrent :: "loop_config \<Rightarrow> int" where
  "max_concurrent c =
     bd_maxConcurrent (resolveBatchConcurrency (lc_capacity c)
       \<lparr> bi_workflowName = wf_name (lc_flow c), bi_workflowMax = wf_maxConcurrency (lc_flow c),
         bi_teamMax = lc_teamMax c, bi_limitMax = lc_limitMax c, bi_unbounded = lc_unbounded c,
         bi_hardCap = None, bi_workerCap = None, bi_readyCount = Fin 0 \<rparr>)"

lemma batch_concurrency_max:
  "bd_maxConcurrent (batch_concurrency (lc_capacity c) (dispatch_view c s qi ap) ready) = max_concurrent c"
  by (simp add: batch_concurrency_def dispatch_view_def max_concurrent_def resolveBatchConcurrency_def
      requested_concurrency_def Let_def)

text \<open>
  The steps of the loop: a batch is chosen and dispatched, a unit in flight settles and is merged
  with what is on disk, or its merge fails, or anything else happens to manifest and tasks (sweeps, requeues,
  cancellations, adaptive plans, writes of other processes), as long as the ids of the tasks stay
  distinct and without a plus sign.
\<close>

inductive loop_step :: "loop_config \<Rightarrow> loop_state \<Rightarrow> loop_state \<Rightarrow> bool" for c where
  step_dispatch: "selectDispatchBatch (lc_capacity c) now (dispatch_view c s qi ap) = Inr (DispatchBatch batch) \<Longrightarrow>
    dispatchBatch c now hook disk batch s = Inr s' \<Longrightarrow> loop_step c s s'"
| step_merge: "key \<in> fst ` set (ls_pending s) \<Longrightarrow> mergeUnitResult busy key outcome disk now s = Inr s' \<Longrightarrow>
    (\<And>m ts. disk = Some (m, ts) \<Longrightarrow> ids_ok ts) \<Longrightarrow> loop_step c s s'"
| step_merge_failed: "mergeUnitResult busy key outcome disk now s = Inl (e, s') \<Longrightarrow> loop_step c s s'"
| step_other: "ids_ok ts \<Longrightarrow> loop_step c s (s\<lparr>ls_manifest := m, ls_tasks := ts\<rparr>)"

definition in_flight :: "loop_state \<Rightarrow> string list" where
  "in_flight s = concat (map snd (ls_pending s))"

definition loop_ok :: "loop_config \<Rightarrow> loop_state \<Rightarrow> bool" where
  "loop_ok c s \<longleftrightarrow> ids_ok (ls_tasks s) \<and> entries_ok (ls_pending s) \<and>
     set (in_flight s) \<subseteq> ls_dispatched s \<and> int (length (ls_pending s)) \<le> max 0 (max_concurrent c)"

lemma nonempty_units: "\<forall>u \<in> set us. unit_ids u \<noteq> [] \<Longrightarrow> length us \<le> length (concat (map unit_ids us))"
  by (induction us) (auto simp: neq_Nil_conv)

lemma merge_ids:
  assumes "distinct (map task_id base)"
  shows "map task_id (mergeTaskUpdatesPreservingTerminal base rs) = map task_id base"
  unfolding merge_map [OF assms]
  by (auto simp: refreshTaskGraphQueues_def intro!: fold_accept_id)

lemma mergeUnit_keeps:
  assumes "mergeUnitResult busy key outcome disk now s = Inr s'"
  shows "ls_pending s' = omap_del key (ls_pending s) \<and> ls_dispatched s' = ls_dispatched s \<and>
    ls_tasks s' = mergeTaskUpdatesPreservingTerminal (nullish (map_option snd disk) (ls_tasks s))
      [snd (settled_result s key outcome now)]"
  using assms unfolding mergeUnitResult_def Let_def by (auto split: sum.splits if_splits)

lemma mergeUnit_failed:
  assumes "mergeUnitResult busy key outcome disk now s = Inl (e, s')"
  shows "s' = s\<lparr>ls_pending := omap_del key (ls_pending s)\<rparr>"
  using assms unfolding mergeUnitResult_def Let_def by (auto split: sum.splits if_splits)

lemma ids_ok_ids: "ids_ok ts \<longleftrightarrow> distinct (map task_id ts) \<and> list_all (\<lambda>i. CHR ''+'' \<notin> set i) (map task_id ts)"
  by (simp add: ids_ok_def list_all_iff)

lemma ids_ok_cong: "map task_id ts = map task_id us \<Longrightarrow> ids_ok ts \<longleftrightarrow> ids_ok us"
  by (simp only: ids_ok_ids)

lemma concat_omap_del: "distinct (concat (map snd m)) \<Longrightarrow> distinct (concat (map snd (omap_del k m)))"
  by (induction m) (auto simp: omap_del_def)

lemma entries_ok_del: "entries_ok es \<Longrightarrow> entries_ok (omap_del k es)"
  by (auto simp: entries_ok_def concat_omap_del) (auto simp: omap_del_def)

lemma merge_keeps_ok:
  assumes "loop_ok c s" and "mergeUnitResult busy key outcome disk now s = Inr s'"
    and "\<And>m ts. disk = Some (m, ts) \<Longrightarrow> ids_ok ts"
  shows "loop_ok c s'"
proof -
  note k = mergeUnit_keeps [OF assms(2)]
  have b: "ids_ok (nullish (map_option snd disk) (ls_tasks s))"
    using assms(1,3) by (cases disk) (auto simp: loop_ok_def)
  have "map task_id (ls_tasks s') = map task_id (nullish (map_option snd disk) (ls_tasks s))"
    using k merge_ids [of "nullish (map_option snd disk) (ls_tasks s)"] b by (simp add: ids_ok_def)
  then have "ids_ok (ls_tasks s')" using b ids_ok_cong by blast
  moreover have "set (in_flight s') \<subseteq> set (in_flight s)" "length (ls_pending s') \<le> length (ls_pending s)"
    using k by (auto simp: in_flight_def omap_del_def)
  ultimately show ?thesis using assms(1) k by (auto simp: loop_ok_def entries_ok_del)
qed

lemma dispatch_keeps_ok:
  assumes ok: "loop_ok c s"
    and sel: "selectDispatchBatch (lc_capacity c) now (dispatch_view c s qi ap) = Inr (DispatchBatch ready)"
    and disp: "dispatchBatch c now hook disk ready s = Inr s'"
  shows "loop_ok c s'"
proof -
  let ?d = "dispatch_view c s qi ap"
  have view: "di_tasks ?d = ls_tasks s" "di_pending ?d = ls_pending s" by (simp_all add: dispatch_view_def)
  have ids: "ids_ok (ls_tasks s)" using ok by (simp add: loop_ok_def)
  obtain s1 d1 where h: "apply_hooks now (map (\<lambda>t. (t, hook t)) ready) (s, disk) = Inr (s1, d1)"
    and s': "s' = foldl register_unit s1 (batch_units c (batch_tasks ready (ls_tasks s1)) (ls_tasks s1))"
    using disp by (auto simp: dispatchBatch_def Let_def split: sum.splits if_splits)
  note keep = apply_hooks_keep [OF h]
  define batch where "batch = batch_tasks ready (ls_tasks s1)"
  define us where "us = batch_units c batch (ls_tasks s1)"
  obtain dagReady where sound: "int (length ready) \<le> max 0
      (bd_maxConcurrent (batch_concurrency (lc_capacity c) ?d (ready_before_filter ?d dagReady)) - int (length (ls_pending s)))"
    "\<forall>t \<in> set ready. t \<in> set (ls_tasks s) \<and> task_id t \<notin> set (in_flight s)"
    using selected_sound [OF sel] unfolding view in_flight_def by blast
  have room: "int (length ready) \<le> max 0 (max_concurrent c - int (length (ls_pending s)))"
    using sound(1) by (simp add: batch_concurrency_max)
  have dr: "distinct (map task_id ready)"
    using batch_distinct [OF _ sel] ids by (simp add: view ids_ok_def)
  have sub: "set batch \<subseteq> set ready" "length batch \<le> length ready" "distinct (map task_id batch)"
    using dr by (auto simp: batch_def batch_tasks_def distinct_map_filter)
  have plus: "\<forall>t \<in> set batch. CHR ''+'' \<notin> set (task_id t)"
    using sub(1) sound(2) ids by (auto simp: ids_ok_def)
  have ms: "mset (concat (map unit_ids us)) = mset (map task_id batch)"
    unfolding us_def by (rule batch_units_mset [OF sub(3) plus])
  have lab: "\<forall>u \<in> set us. labelled (unit_entry u)"
    unfolding us_def using batch_units_labelled [OF sub(3) plus] by blast
  have new: "set (concat (map unit_ids us)) = task_id ` set batch" "distinct (concat (map unit_ids us))"
    using mset_eq_setD [OF ms] mset_eq_imp_distinct_iff [OF ms] sub(3) by auto
  have cm: "concat (map snd (map unit_entry us)) = concat (map unit_ids us)"
    by (simp add: comp_def unit_entry_def)
  have es: "entries_ok (ls_pending s @ map unit_entry us)"
    using ok lab new sub(1) sound(2) unfolding entries_ok_def loop_ok_def in_flight_def map_append concat_append cm
    by auto
  note reg = register_units [of s1 us]
  have p: "ls_pending s' = ls_pending s @ map unit_entry us"
    "ls_dispatched s' = ls_dispatched s \<union> set (concat (map unit_ids us))" "ls_tasks s' = ls_tasks s1"
    using reg entries_ok_keys [OF es] keep unfolding s' us_def [symmetric] batch_def [symmetric] by simp_all
  have "length us \<le> length (concat (map unit_ids us))"
    using lab by (intro nonempty_units) (auto simp: labelled_def unit_entry_def)
  then have "length us \<le> length ready" using arg_cong [OF ms, of size] sub(2) by simp
  moreover have cap: "int (length (ls_pending s)) \<le> max 0 (max_concurrent c)" using ok by (simp add: loop_ok_def)
  ultimately have "int (length (ls_pending s')) \<le> max 0 (max_concurrent c)"
    using room cap unfolding p by (simp add: max_def split: if_splits)
  moreover have "ids_ok (ls_tasks s')" using ids ids_ok_cong keep p(3) by metis
  ultimately show ?thesis
    using ok es p new(1) unfolding loop_ok_def in_flight_def p map_append concat_append cm by auto
qed

lemma loop_step_ok: "loop_step c s s' \<Longrightarrow> loop_ok c s \<Longrightarrow> loop_ok c s'"
proof (induction rule: loop_step.induct)
  case (step_other ts s m)
  then show ?case by (simp add: loop_ok_def in_flight_def)
next
  case (step_merge_failed busy key outcome disk now s e s')
  have "set (in_flight s') \<subseteq> set (in_flight s)" "length (ls_pending s') \<le> length (ls_pending s)"
    using mergeUnit_failed [OF step_merge_failed(1)] by (auto simp: in_flight_def omap_del_def)
  then show ?case
    using step_merge_failed mergeUnit_failed [OF step_merge_failed(1)]
    by (auto simp: loop_ok_def entries_ok_del)
qed (rule dispatch_keeps_ok merge_keeps_ok; assumption)+

lemma reachable_ok: "(loop_step c)\<^sup>*\<^sup>* s s' \<Longrightarrow> loop_ok c s \<Longrightarrow> loop_ok c s'"
  by (induction rule: rtranclp_induct) (auto intro: loop_step_ok)

text \<open>
  C2. No task is ever run by two workers at once: in every state that a run reaches from one with
  nothing in flight, whatever workers return, hooks decide and other processes write, each task is
  in at most one unit in flight, every task in flight is recorded as dispatched, units have
  distinct keys, and there are never more units in flight than the concurrency of the run.
\<close>

theorem no_task_in_flight_twice:
  assumes "(loop_step c)\<^sup>*\<^sup>* s s'" and "ls_pending s = []" and "ids_ok (ls_tasks s)"
  shows "distinct (in_flight s') \<and> set (in_flight s') \<subseteq> ls_dispatched s' \<and>
    distinct (map fst (ls_pending s')) \<and> int (length (ls_pending s')) \<le> max 0 (max_concurrent c)"
proof -
  have "loop_ok c s" using assms(2,3) by (simp add: loop_ok_def entries_ok_def in_flight_def)
  then have "loop_ok c s'" by (rule reachable_ok [OF assms(1)])
  then show ?thesis using entries_ok_keys by (auto simp: loop_ok_def entries_ok_def in_flight_def)
qed

subsection \<open>Merging and external decisions\<close>

lemma any_to_running: "\<not> isRunTerminalPreserved a \<Longrightarrow> canTransitionRunStatus a RRunning"
  by (cases a) (simp_all add: canTransitionRunStatus_def isRunTerminalPreserved_def)

lemma running_update:
  assumes "\<not> isRunTerminalPreserved (rm_status d)" and "rm_status m = rm_status d"
  shows "\<exists>u. updateRunStatus (Some d) m RRunning s False now = Inr u \<and> rm_status (su_returned u) = RRunning \<and>
    rm_artifacts (su_returned u) = rm_artifacts m"
  using assms any_to_running [OF assms(1)]
  by (auto simp: updateRunStatus_def saveRunManifest_def preserveDiskTerminalStatus_def Let_def
      isRunTerminalPreserved_def DISK_TERMINAL_STATUSES_def)

lemma merged_manifest:
  assumes "\<not> list_all busy [0..<7]"
  shows "\<exists>s'. mergeUnitResult busy key outcome (Some (d, ts)) now s = Inr s' \<and>
    (if isRunTerminalPreserved (rm_status d)
     then ls_manifest s' = d\<lparr>rm_artifacts := mergeArtifacts (rm_artifacts d @ fst (settled_result s key outcome now))\<rparr>
     else rm_status (ls_manifest s') = RRunning \<and>
       rm_artifacts (ls_manifest s') = mergeArtifacts (rm_artifacts d @ fst (settled_result s key outcome now)))"
proof (cases "isRunTerminalPreserved (rm_status d)")
  case True
  then show ?thesis using assms by (simp add: mergeUnitResult_def Let_def merge_lock_ran)
next
  case False
  let ?m = "d\<lparr>rm_artifacts := mergeArtifacts (rm_artifacts d @ fst (settled_result s key outcome now))\<rparr>"
  obtain u where "updateRunStatus (Some d) ?m RRunning (Some ''Merged task updates from parallel batch.'') False now = Inr u"
    "rm_status (su_returned u) = RRunning" "rm_artifacts (su_returned u) = rm_artifacts ?m"
    using running_update [OF False, of ?m] by auto
  then show ?thesis using False assms by (simp add: mergeUnitResult_def Let_def merge_lock_ran)
qed


lemma filter_key_single:
  "distinct (map f us) \<Longrightarrow> u \<in> set us \<Longrightarrow> filter (\<lambda>x. f x = f u) us = [u]"
proof (induction us)
  case (Cons x xs)
  show ?case
  proof (cases "x = u")
    case True
    have "f y \<noteq> f u" if "y \<in> set xs" for y
    proof
      assume "f y = f u"
      then have "f u \<in> f ` set xs" using that by (metis imageI)
      then show False using Cons.prems(1) True by simp
    qed
    then have "filter (\<lambda>x. f x = f u) xs = []" by (simp only: filter_empty_conv) blast
    then show ?thesis using True by (simp only: filter.simps simp_thms if_True)
  next
    case False
    then have "u \<in> set xs" using Cons.prems(2) by simp
    then have "f u \<in> f ` set xs" by (rule imageI)
    then have "f x \<noteq> f u" using Cons.prems(1) by (metis distinct.simps(2) list.map(2) set_map)
    then have "filter (\<lambda>x. f x = f u) (x # xs) = filter (\<lambda>x. f x = f u) xs" by (simp only: filter.simps if_False simp_thms)
    then show ?thesis using Cons.IH Cons.prems(1) \<open>u \<in> set xs\<close>
      by (simp only: list.map distinct.simps simp_thms)
  qed
qed simp

lemma merge_one_update:
  assumes "distinct (map task_id ts)" and "t \<in> set ts" and "u \<in> set us" and "task_id u = task_id t"
    and "distinct (map task_id us)" and "shouldMergeTaskUpdate t u"
  shows "\<exists>v \<in> set (mergeTaskUpdatesPreservingTerminal ts [us]). task_id v = task_id t \<and> status v = status u"
proof -
  let ?g = "\<lambda>t. fold accept_update (filter (\<lambda>u. task_id u = task_id t) (concat [us])) t"
  let ?idx = "ensureIndex (map ?g ts) None"
  have "filter (\<lambda>x. task_id x = task_id t) us = [u]"
    using filter_key_single [OF assms(5,3)] unfolding assms(4) .
  then have g: "?g t = u" using assms(6) by (simp add: accept_update_def)
  have "withQueue (?g t) ?idx \<in> set (map (\<lambda>t. withQueue t ?idx) (map ?g ts))"
    unfolding set_map by (intro imageI assms(2))
  then have "withQueue u ?idx \<in> set (mergeTaskUpdatesPreservingTerminal ts [us])"
    unfolding merge_map [OF assms(1)] refreshTaskGraphQueues_def g .
  then show ?thesis using assms(4) by (intro bexI [where x = "withQueue u ?idx"] conjI) (simp_all only: withQueue_fields)
qed

text \<open>
  A unit whose promise rejects turns a task of it that was cancelled or skipped meanwhile into a
  failed one: the synthesized failure passes the merge gate, although the tasks on disk are the
  base of the merge, and with no rerun left the scheduler then ends the whole run as failed.
\<close>

theorem rejected_unit_fails_cancelled_task:
  assumes "distinct (map task_id ts)" and "distinct (map task_id (ls_tasks s))"
    and "map_of (ls_pending s) key = Some ids" and "t \<in> set ts" and "status t \<in> {Cancelled, Skipped}"
    and "task_id t \<in> set ids" and "task_id t \<in> task_id ` set (ls_tasks s)"
    and "stamp_text now \<noteq> []" and "\<not> js_less (safeFinishedAt (Some now)) (safeFinishedAt (finishedAt t))" and "\<not> list_all busy [0..<7]"
  shows "\<exists>s'. mergeUnitResult busy key (Inl msg) (Some (d, ts)) now s = Inr s' \<and>
    (\<exists>u \<in> set (ls_tasks s'). task_id u = task_id t \<and> status u = Failed) \<and>
    (ab_tasks c = ls_tasks s' \<longrightarrow> (\<exists>r. handleFailedTask c no_limits now = Some (EndRun r)))"
proof -
  obtain v where v: "v \<in> set (ls_tasks s)" "task_id v = task_id t" using assms(7) by auto
  let ?f = "\<lambda>v. if task_id v \<in> set ids then v\<lparr>status := Failed, finishedAt := Some now, task_error := Some msg\<rparr> else v"
  let ?u = "v\<lparr>status := Failed, finishedAt := Some now, task_error := Some msg\<rparr>"
  let ?us = "snd (settled_result s key (Inl msg) now)"
  have us: "?us = map ?f (ls_tasks s)"
    by (auto simp: settled_result_def cancelNonTerminalTasks_def Let_def assms(3))
  have "map task_id ?us = map task_id (ls_tasks s)" unfolding us by (rule nth_equalityI) simp_all
  then have "distinct (map task_id ?us)" using assms(2) by simp
  moreover have "?u \<in> set ?us" using v assms(6) by (force simp: us)
  moreover have "shouldMergeTaskUpdate t ?u"
    using assms(5,8,9) by (auto simp: shouldMergeTaskUpdate_def rejected_exact merge_rejected_def
        hasMeaningfulUpdate_def isNonTerminalTaskStatus_def)
  ultimately obtain w where w: "w \<in> set (mergeTaskUpdatesPreservingTerminal ts [?us])"
      "task_id w = task_id t" "status w = Failed"
    using merge_one_update [OF assms(1,4), of ?u ?us] v(2) by auto
  obtain s' where s': "mergeUnitResult busy key (Inl msg) (Some (d, ts)) now s = Inr s'"
    using merged_manifest [OF assms(10)] by blast
  have t: "ls_tasks s' = mergeTaskUpdatesPreservingTerminal ts [?us]"
    using mergeUnit_keeps [OF s'] by simp
  have "\<exists>r. handleFailedTask c no_limits now = Some (EndRun r)" if "ab_tasks c = ls_tasks s'"
  proof -
    have "w \<in> set (ab_tasks c)" using w(1) that t by simp
    then obtain x where "find (\<lambda>t. status t = Failed) (ab_tasks c) = Some x"
      using w(3) by (cases "find (\<lambda>t. status t = Failed) (ab_tasks c)") (auto simp: find_None_iff)
    then show ?thesis
      by (simp add: handleFailedTask_def shouldRerunFailedTask_def no_limits_def Let_def)
  qed
  moreover have "\<exists>u \<in> set (ls_tasks s'). task_id u = task_id t \<and> status u = Failed"
    using w unfolding t by (intro bexI [where x = w] conjI)
  ultimately show ?thesis by (intro exI [where x = s'] conjI impI s')
qed

subsection \<open>Concrete inputs\<close>

definition small_config :: loop_config where
  "small_config = \<lparr> lc_flow = small_flow, lc_teamMax = None, lc_limitMax = None, lc_unbounded = False,
     lc_serialize = False, lc_capacity = 4 \<rparr>"

definition small_loop :: loop_state where
  "small_loop = \<lparr> ls_manifest = sample_manifest RRunning, ls_tasks = small_tasks, ls_pending = [],
     ls_dispatched = {} \<rparr>"

definition small_batch :: "team_task list" where
  "small_batch = (case selectDispatchBatch 4 noon (dispatch_view small_config small_loop None False) of
     Inr (DispatchBatch b) \<Rightarrow> b | _ \<Rightarrow> [])"

definition small_dispatched :: "dispatch_error + loop_state" where
  "small_dispatched = dispatchBatch small_config noon (\<lambda>_. None) None small_batch small_loop"

lemma no_task_in_flight_twice_witness:
  "\<exists>s'. (loop_step small_config)\<^sup>*\<^sup>* small_loop s' \<and> ls_pending s' \<noteq> [] \<and> distinct (in_flight s')"
proof -
  have "(case selectDispatchBatch 4 noon (dispatch_view small_config small_loop None False) of
      Inr (DispatchBatch b) \<Rightarrow> True | _ \<Rightarrow> False)" by code_simp
  then have sel: "selectDispatchBatch (lc_capacity small_config) noon (dispatch_view small_config small_loop None False) =
      Inr (DispatchBatch small_batch)"
    by (auto simp: small_batch_def small_config_def split: sum.splits batch_choice.splits)
  have "(case small_dispatched of Inr s \<Rightarrow> ls_pending s \<noteq> [] | _ \<Rightarrow> False)" by code_simp
  then obtain s' where s': "small_dispatched = Inr s'" "ls_pending s' \<noteq> []" by (auto split: sum.splits)
  then have step: "(loop_step small_config)\<^sup>*\<^sup>* small_loop s'"
    using step_dispatch [OF sel, of "\<lambda>_. None" None s'] by (simp add: small_dispatched_def)
  have "ids_ok (ls_tasks small_loop)" by code_simp
  moreover have "ls_pending small_loop = []" by (simp add: small_loop_def)
  ultimately show ?thesis using no_task_in_flight_twice [OF step] step s'(2) by blast
qed


lemma rejected_unit_fails_cancelled_task_witness:
  "\<exists>s' u. mergeUnitResult (\<lambda>_. False) ''a'' (Inl ''no space left'')
       (Some (sample_manifest RRunning, [(blank_task ''a'')\<lparr>status := Cancelled\<rparr>])) noon
       (small_loop\<lparr>ls_tasks := [(blank_task ''a'')\<lparr>status := Running\<rparr>], ls_pending := [(''a'', [''a''])]\<rparr>) = Inr s' \<and>
     u \<in> set (ls_tasks s') \<and> task_id u = ''a'' \<and> status u = Failed"
proof -
  have "\<not> list_all (\<lambda>_::nat. False) [0..<7]" by code_simp
  then show ?thesis
    using rejected_unit_fails_cancelled_task [of "[(blank_task ''a'')\<lparr>status := Cancelled\<rparr>]"
      "small_loop\<lparr>ls_tasks := [(blank_task ''a'')\<lparr>status := Running\<rparr>], ls_pending := [(''a'', [''a''])]\<rparr>"
      "''a''" "[''a'']" "(blank_task ''a'')\<lparr>status := Cancelled\<rparr>" noon "\<lambda>_. False" "''no space left''"
      "sample_manifest RRunning" abort_sample]
    by (auto simp: noon_def)
qed

end
