(* ===== verification/Json.thy ===== *)
theory Json
  imports Prelude
begin

text \<open>
  Values of \<open>JSON.parse\<close>, as the validating readers of the program look at them. A number whose literal
  is out of range is infinite; there is no \<open>NaN\<close>. An object is the list
  of its properties in order, every key once. A missing property and one that is no longer an object's
  own are \<open>None\<close>, for \<open>undefined\<close>.
\<close>

datatype json =
    JNull
  | JBool bool
  | JNum jsnum
  | JStr string
  | JArr "json list"
  | JObj "(string \<times> json) list"

text \<open>\<open>v && typeof v === "object" && !Array.isArray(v)\<close>.\<close>

fun is_record :: "json option \<Rightarrow> bool" where
  "is_record (Some (JObj _)) = True"
| "is_record _ = False"

fun jfield :: "json option \<Rightarrow> string \<Rightarrow> json option" where
  "jfield (Some (JObj m)) k = map_of m k"
| "jfield _ k = None"

text \<open>The tests \<open>typeof v === "string"\<close>, \<open>"number"\<close>, \<open>"boolean"\<close> and \<open>Array.isArray(v)\<close>.\<close>

fun jstring :: "json option \<Rightarrow> string option" where
  "jstring (Some (JStr s)) = Some s"
| "jstring _ = None"

fun jnumber :: "json option \<Rightarrow> jsnum option" where
  "jnumber (Some (JNum r)) = Some r"
| "jnumber _ = None"

fun jboolean :: "json option \<Rightarrow> bool option" where
  "jboolean (Some (JBool b)) = Some b"
| "jboolean _ = None"

fun jarray :: "json option \<Rightarrow> json list option" where
  "jarray (Some (JArr xs)) = Some xs"
| "jarray _ = None"

lemma jstring_Some [simp]: "jstring v = Some s \<longleftrightarrow> v = Some (JStr s)"
  by (cases v rule: jstring.cases) auto

lemma jnumber_Some [simp]: "jnumber v = Some r \<longleftrightarrow> v = Some (JNum r)"
  by (cases v rule: jnumber.cases) auto

lemma jarray_Some [simp]: "jarray v = Some xs \<longleftrightarrow> v = Some (JArr xs)"
  by (cases v rule: jarray.cases) auto

lemma is_record_iff: "is_record v \<longleftrightarrow> (\<exists>m. v = Some (JObj m))"
  by (cases v rule: is_record.cases) auto

text \<open>\<open>Boolean(v)\<close>.\<close>

fun jtruthy :: "json option \<Rightarrow> bool" where
  "jtruthy None = False"
| "jtruthy (Some JNull) = False"
| "jtruthy (Some (JBool b)) = b"
| "jtruthy (Some (JNum r)) = (r \<noteq> Fin 0 \<and> r \<noteq> NaN)"
| "jtruthy (Some (JStr s)) = (s \<noteq> [])"
| "jtruthy (Some _) = True"

text \<open>
  An object literal that is stringified: properties that are \<open>undefined\<close> are left out.
\<close>

definition jobject :: "(string \<times> json option) list \<Rightarrow> json" where
  "jobject kvs = JObj (List.map_filter (\<lambda>(k, v). map_option (Pair k) v) kvs)"

lemma map_of_map_filter:
  "distinct (map fst kvs) \<Longrightarrow>
   map_of (List.map_filter (\<lambda>(k, v). map_option (Pair k) v) kvs) k = Option.bind (map_of kvs k) id"
proof (induction kvs)
  case (Cons kv kvs)
  obtain k' v' where kv: "kv = (k', v')" by (cases kv)
  have none: "map_of (List.map_filter (\<lambda>(k, v). map_option (Pair k) v) kvs) k' = None"
    using Cons.prems kv by (force simp: map_of_eq_None_iff set_map_filter)
  show ?case
    using Cons kv none by (cases v') (auto simp: List.map_filter_simps)
qed (simp add: List.map_filter_simps)

lemma jfield_jobject:
  "distinct (map fst kvs) \<Longrightarrow> jfield (Some (jobject kvs)) k = Option.bind (map_of kvs k) id"
  by (simp add: jobject_def map_of_map_filter)

lemma is_record_jobject [simp]: "is_record (Some (jobject kvs))"
  by (simp add: jobject_def)

text \<open>What a value is after \<open>JSON.stringify\<close> and \<open>JSON.parse\<close>: a number that is not finite becomes \<open>null\<close>.\<close>

fun stringified :: "json \<Rightarrow> json" where
  "stringified (JNum n) = (if is_finite n then JNum n else JNull)"
| "stringified (JArr xs) = JArr (map stringified xs)"
| "stringified (JObj m) = JObj (map (\<lambda>(k, v). (k, stringified v)) m)"
| "stringified v = v"

lemma stringified_JStr [simp]: "stringified v = JStr s \<longleftrightarrow> v = JStr s"
  by (cases v) auto

lemma jstring_stringified [simp]: "jstring (map_option stringified v) = jstring v"
proof (cases v)
  case (Some j)
  then show ?thesis by (cases j) auto
qed simp

lemma map_of_stringified [simp]:
  "map_of (map (\<lambda>(k, v). (k, stringified v)) m) k = map_option stringified (map_of m k)"
  by (induction m) auto

end
