(* ===== verification/RunLocks.thy ===== *)
theory RunLocks
  imports Prelude
begin

text \<open>
  The run lock of \<open>src/src/state/coordination/locks.ts\<close>, with the kernel socket of
  \<open>process-lock.ts\<close>. The operations on the lock file are functions on its contents. The
  acquire loops are a machine whose events are the file operations and the turns of the event loop,
  so that any interleaving of several processes and of several asynchronous contexts of one
  process is a list of events. The bypass of a nested acquisition never reaches the lock; the test
  for a symbolic link among the parents and log lines are left out.
\<close>

subsection \<open>The lock file\<close>

text \<open>
  A payload is \<open>None\<close> when the file is empty or no JSON object. \<open>lf_inode\<close> tells files at the same path
  apart: it is the token of the acquisition that created the file.
\<close>

datatype lock_kind = LockRun | LockFile

record lock_payload =
  lp_kind :: lock_kind
  lp_pid :: "int option"
  lp_createdAt :: "stamp option"
  lp_token :: "string option"

record lock_file =
  lf_inode :: string
  lf_symlink :: bool
  lf_payload :: "lock_payload option"
  lf_mtime :: int

definition file_token :: "lock_file \<Rightarrow> string option" where
  "file_token f = Option.bind (lf_payload f) lp_token"

definition file_pid :: "lock_file \<Rightarrow> int option" where
  "file_pid f = Option.bind (lf_payload f) lp_pid"

definition parseCreatedAtFromLock :: "lock_payload option \<Rightarrow> int option" where
  "parseCreatedAtFromLock raw = Option.bind (Option.bind raw lp_createdAt) stamp_ms"

definition lock_born :: "lock_file \<Rightarrow> int" where
  "lock_born f = nullish (parseCreatedAtFromLock (lf_payload f)) (lf_mtime f)"

definition isLockStale :: "lock_file option \<Rightarrow> int \<Rightarrow> int \<Rightarrow> bool" where
  "isLockStale file staleMs now =
     (case file of None \<Rightarrow> False | Some f \<Rightarrow> staleMs < now - lock_born f)"

text \<open>\<open>probe p\<close>: signal 0 can be sent to the process; a refusal counts as dead.\<close>

definition isLockHolderAlive :: "lock_file option \<Rightarrow> (int \<Rightarrow> bool) \<Rightarrow> bool" where
  "isLockHolderAlive file probe =
     (case Option.bind file file_pid of None \<Rightarrow> True | Some p \<Rightarrow> probe p)"

datatype lock_read = ReadMissing | ReadFailed | ReadOk lock_file

record lock_snapshot =
  canSteal :: bool
  heldByLiveInProcess :: bool
  holderToken :: "string option"

definition readLockSnapshot ::
    "lock_read \<Rightarrow> int \<Rightarrow> int \<Rightarrow> (int \<Rightarrow> bool) \<Rightarrow> int \<Rightarrow> bool \<Rightarrow> string set \<Rightarrow> lock_snapshot" where
  "readLockSnapshot r staleMs now probe self treatOwnPidAsStealable activeHolderTokens =
     (case r of
        ReadMissing \<Rightarrow> \<lparr> canSteal = True, heldByLiveInProcess = False, holderToken = None \<rparr>
      | ReadFailed \<Rightarrow> \<lparr> canSteal = False, heldByLiveInProcess = False, holderToken = None \<rparr>
      | ReadOk f \<Rightarrow>
          (let isStale = staleMs < now - lock_born f;
               isAlive = (case file_pid f of None \<Rightarrow> True | Some p \<Rightarrow> probe p);
               isOurOwnHolder = (file_pid f = Some self);
               holderIsLive = (case file_token f of None \<Rightarrow> False | Some t \<Rightarrow> t \<in> activeHolderTokens);
               ownPidStealable = (treatOwnPidAsStealable \<and> isOurOwnHolder \<and> \<not> holderIsLive)
           in \<lparr> canSteal = (isStale \<or> \<not> isAlive \<or> ownPidStealable), heldByLiveInProcess = holderIsLive,
                holderToken = file_token f \<rparr>))"

text \<open>The two halves of \<open>writeLockFile\<close>: the exclusive creation, and the write through the descriptor.\<close>

datatype create_error = SymlinkRefused | AlreadyExists

definition createLockFile :: "lock_file option \<Rightarrow> string \<Rightarrow> int \<Rightarrow> create_error + lock_file" where
  "createLockFile file token now =
     (case file of
        Some f \<Rightarrow> if lf_symlink f then Inl SymlinkRefused else Inl AlreadyExists
      | None \<Rightarrow> Inr \<lparr> lf_inode = token, lf_symlink = False, lf_payload = None, lf_mtime = now \<rparr>)"

definition writeLockPayload :: "lock_kind \<Rightarrow> int \<Rightarrow> stamp \<Rightarrow> string \<Rightarrow> lock_file option \<Rightarrow> lock_file option" where
  "writeLockPayload kind pid stamp token file =
     map_option (\<lambda>f. if lf_inode f = token
       then f\<lparr>lf_payload := Some \<lparr> lp_kind = kind, lp_pid = Some pid, lp_createdAt = Some stamp,
                                    lp_token = Some token \<rparr>\<rparr> else f) file"

definition readLockToken :: "lock_file option \<Rightarrow> string option" where
  "readLockToken file =
     (case file of None \<Rightarrow> None | Some f \<Rightarrow> if lf_symlink f then None else file_token f)"

subsection \<open>Removing the lock file\<close>

text \<open>Each removal is a test on what is read and, when it succeeds, an unlink of whatever is there then.\<close>

definition corpse_matches :: "string option \<Rightarrow> lock_file option \<Rightarrow> bool" where
  "corpse_matches corpseToken file \<longleftrightarrow> readLockToken file = corpseToken"

definition removeLockIfTokenMatches :: "lock_file option \<Rightarrow> string option \<Rightarrow> lock_file option \<times> bool" where
  "removeLockIfTokenMatches file corpseToken =
     (if corpse_matches corpseToken file then (None, True) else (file, False))"

definition own_lock :: "int \<Rightarrow> string \<Rightarrow> lock_file option \<Rightarrow> bool" where
  "own_lock self token file =
     (case file of None \<Rightarrow> False
      | Some f \<Rightarrow> \<not> lf_symlink f \<and> file_pid f = Some self \<and>
                  (file_token f = None \<or> file_token f = Some token))"

definition releaseOwnLock :: "lock_file option \<Rightarrow> int \<Rightarrow> string \<Rightarrow> lock_file option" where
  "releaseOwnLock file self token = (if own_lock self token file then None else file)"

definition token_free :: "string \<Rightarrow> lock_file option \<Rightarrow> bool" where
  "token_free token file =
     (case file of Some f \<Rightarrow> \<not> lf_symlink f \<and> (file_token f = None \<or> file_token f = Some token)
      | None \<Rightarrow> True)"

definition releaseLock :: "lock_file option \<Rightarrow> string \<Rightarrow> lock_file option" where
  "releaseLock file token = (if token_free token file then None else file)"

definition sweep_lock :: "lock_file option \<Rightarrow> int \<Rightarrow> int \<Rightarrow> (int \<Rightarrow> bool) \<Rightarrow> lock_file option \<times> bool" where
  "sweep_lock file staleMs now probe =
     (if file = None \<or> \<not> isLockStale file staleMs now \<or> isLockHolderAlive file probe
      then (file, False) else (None, True))"

text \<open>\<open>sweepStaleLocks\<close>: the files of several paths, and the paths that were removed.\<close>

definition sweepStaleLocks ::
    "(string \<times> lock_file option) list \<Rightarrow> int \<Rightarrow> int \<Rightarrow> (int \<Rightarrow> bool) \<Rightarrow>
     (string \<times> lock_file option) list \<times> string list" where
  "sweepStaleLocks files staleMs now probe =
     (map (\<lambda>(p, f). (p, fst (sweep_lock f staleMs now probe))) files,
      map fst (filter (\<lambda>(p, f). snd (sweep_lock f staleMs now probe)) files))"

subsection \<open>The acquire loops as a machine\<close>

text \<open>
  What the loops decide after a failed creation: throw, wait for a holder of the same process, or
  remove the corpse whose token was read. The deadline is tested first.
\<close>

datatype contention = Busy | AwaitHolder | RemoveCorpse "string option"

definition contend_sync :: "lock_read \<Rightarrow> int \<Rightarrow> int \<Rightarrow> (int \<Rightarrow> bool) \<Rightarrow> int \<Rightarrow> contention" where
  "contend_sync r staleMs now probe self =
     (let v = readLockSnapshot r staleMs now probe self False {}
      in if \<not> canSteal v then Busy else RemoveCorpse (holderToken v))"

definition contend_async ::
    "lock_read \<Rightarrow> int \<Rightarrow> int \<Rightarrow> (int \<Rightarrow> bool) \<Rightarrow> int \<Rightarrow> string set \<Rightarrow> contention" where
  "contend_async r staleMs now probe self heldTokens =
     (let v = readLockSnapshot r staleMs now probe self True heldTokens
      in if \<not> canSteal v \<and> heldByLiveInProcess v then AwaitHolder
         else if \<not> canSteal v then Busy else RemoveCorpse (holderToken v))"

text \<open>
  Where a caller stands. \<open>Returned\<close>: its acquire loop has returned the token, but the caller that
  awaits it has not gone on yet; \<open>Claimed\<close>: the token is registered as live and the socket
  is being opened; \<open>Unlinking q\<close>: a removal whose test has succeeded, which leads to \<open>q\<close>.
\<close>

datatype phase =
    Outside
  | Starting
  | Trying
  | Opened string
  | Written string
  | Unclaimed string
  | Contending
  | Removing "string option"
  | Retry
  | Returned string
  | Claimed string
  | Inside string
  | Closing string
  | Leaving string
  | Dropping string bool
  | Reconnect
  | Refused
  | Gone
  | Unlinking phase

text \<open>A caller, by its process and its path: \<open>withRunLock\<close> (\<open>cf_async\<close>) or \<open>withRunLockSync\<close>.\<close>

record 'c lock_config =
  cf_pid :: "'c \<Rightarrow> int"
  cf_async :: "'c \<Rightarrow> bool"
  cf_staleMs :: int
  cf_socket :: bool
  cf_hidden :: "int set"

record 'c lock_world =
  lw_file :: "lock_file option"
  lw_socket :: "'c option"
  lw_phase :: "'c \<Rightarrow> phase"
  lw_live :: "int \<Rightarrow> string set"
  lw_deadline :: "'c \<Rightarrow> int"
  lw_guardDeadline :: "'c \<Rightarrow> int"
  lw_now :: int
  lw_used :: "string set"
  lw_dead :: "int set"

text \<open>Signal 0 fails for a process that is dead, and for one of another user (\<open>cf_hidden\<close>).\<close>

definition lw_probe :: "'c lock_config \<Rightarrow> 'c lock_world \<Rightarrow> int \<Rightarrow> bool" where
  "lw_probe cf w p \<longleftrightarrow> p \<notin> lw_dead w \<and> p \<notin> cf_hidden cf"

definition lock_read_of :: "lock_file option \<Rightarrow> lock_read" where
  "lock_read_of file = (case file of None \<Rightarrow> ReadMissing | Some f \<Rightarrow> ReadOk f)"

definition contend :: "'c lock_config \<Rightarrow> 'c \<Rightarrow> 'c lock_world \<Rightarrow> contention" where
  "contend cf c w =
     (if lw_deadline w c < lw_now w then Busy
      else if cf_async cf c
      then contend_async (lock_read_of (lw_file w)) (cf_staleMs cf) (lw_now w) (lw_probe cf w) (cf_pid cf c)
             (lw_live w (cf_pid cf c))
      else contend_sync (lock_read_of (lw_file w)) (cf_staleMs cf) (lw_now w) (lw_probe cf w) (cf_pid cf c))"

abbreviation goto :: "'c \<Rightarrow> phase \<Rightarrow> 'c lock_world \<Rightarrow> 'c lock_world" where
  "goto c q w \<equiv> w\<lparr>lw_phase := (lw_phase w)(c := q)\<rparr>"

definition set_live :: "int \<Rightarrow> string set \<Rightarrow> 'c lock_world \<Rightarrow> 'c lock_world" where
  "set_live p S w = w\<lparr>lw_live := (lw_live w)(p := S)\<rparr>"

text \<open>
  The removals: the test on the file and the phase that follows. \<open>Leaving\<close> and \<open>Dropping\<close> are
  \<open>releaseOwnLock\<close>, \<open>Unclaimed\<close> is the \<open>releaseLock\<close> after a verification that failed.
\<close>

fun removal :: "'c lock_config \<Rightarrow> 'c \<Rightarrow> phase \<Rightarrow> ((lock_file option \<Rightarrow> bool) \<times> phase) option" where
  "removal cf c (Removing corpse) = Some (corpse_matches corpse, Trying)"
| "removal cf c (Unclaimed tok) = Some (token_free tok, Retry)"
| "removal cf c (Leaving tok) = Some (own_lock (cf_pid cf c) tok, Outside)"
| "removal cf c (Dropping tok rethrow) =
     Some (own_lock (cf_pid cf c) tok, if rethrow then Refused else Reconnect)"
| "removal cf c _ = None"

text \<open>
  The events. \<open>EvRemove\<close> performs a removal as one operation; \<open>EvMatch\<close> only its test, with the
  unlink left to \<open>EvUnlink\<close>.
\<close>

datatype 'c lock_event =
    EvCall 'c | EvBegin 'c | EvOpen 'c string | EvWrite 'c stamp | EvVerify 'c | EvContend 'c
  | EvRemove 'c | EvMatch 'c | EvUnlink 'c | EvRetry 'c | EvRegister 'c | EvListen 'c | EvListenFails 'c
  | EvFinish 'c | EvClose 'c | EvTick nat | EvCrash int | EvSweep

text \<open>An event of a caller that is gone, or that is in another phase, is not enabled.\<close>

fun lock_step :: "'c lock_config \<Rightarrow> 'c lock_event \<Rightarrow> 'c lock_world \<Rightarrow> 'c lock_world option" where
  "lock_step cf (EvCall c) w =
     (if lw_phase w c = Outside \<and> cf_pid cf c \<notin> lw_dead w
      then Some (goto c Starting (w\<lparr>lw_guardDeadline :=
                  (lw_guardDeadline w)(c := lw_now w + 2 * cf_staleMs cf)\<rparr>))
      else None)"
| "lock_step cf (EvBegin c) w =
     (if lw_phase w c = Starting
      then Some (goto c Trying (w\<lparr>lw_deadline := (lw_deadline w)(c := lw_now w + 2 * cf_staleMs cf)\<rparr>))
      else None)"
| "lock_step cf (EvOpen c tok) w =
     (if lw_phase w c = Trying \<and> tok \<notin> lw_used w
      then case createLockFile (lw_file w) tok (lw_now w) of
             Inl SymlinkRefused \<Rightarrow> Some (goto c Refused w)
           | Inl AlreadyExists \<Rightarrow> Some (goto c Contending w)
           | Inr f \<Rightarrow> Some (goto c (Opened tok) (w\<lparr>lw_file := Some f, lw_used := insert tok (lw_used w)\<rparr>))
      else None)"
| "lock_step cf (EvWrite c stamp) w =
     (case lw_phase w c of
        Opened tok \<Rightarrow>
          if stamp_ms stamp = Some (lw_now w)
          then Some (goto c (Written tok)
                 (w\<lparr>lw_file := writeLockPayload LockRun (cf_pid cf c) stamp tok (lw_file w)\<rparr>))
          else None
      | _ \<Rightarrow> None)"
| "lock_step cf (EvVerify c) w =
     (case lw_phase w c of
        Written tok \<Rightarrow>
          if readLockToken (lw_file w) = Some tok
          then if cf_async cf c then Some (goto c (Returned tok) w)
               else Some (goto c (Inside tok)
                      (set_live (cf_pid cf c) (insert tok (lw_live w (cf_pid cf c))) w))
          else Some (goto c (Unclaimed tok) w)
      | _ \<Rightarrow> None)"
| "lock_step cf (EvContend c) w =
     (if lw_phase w c = Contending
      then case contend cf c w of
             Busy \<Rightarrow> Some (goto c Refused w)
           | AwaitHolder \<Rightarrow> Some (goto c Trying w)
           | RemoveCorpse corpse \<Rightarrow> Some (goto c (Removing corpse) w)
      else None)"
| "lock_step cf (EvRemove c) w =
     (case removal cf c (lw_phase w c) of
        Some (test, q) \<Rightarrow>
          Some (goto c q (w\<lparr>lw_file := (if test (lw_file w) then None else lw_file w)\<rparr>))
      | None \<Rightarrow> None)"
| "lock_step cf (EvMatch c) w =
     (case removal cf c (lw_phase w c) of
        Some (test, q) \<Rightarrow> Some (goto c (if test (lw_file w) then Unlinking q else q) w)
      | None \<Rightarrow> None)"
| "lock_step cf (EvUnlink c) w =
     (case lw_phase w c of Unlinking q \<Rightarrow> Some (goto c q (w\<lparr>lw_file := None\<rparr>)) | _ \<Rightarrow> None)"
| "lock_step cf (EvRetry c) w =
     (case lw_phase w c of
        Retry \<Rightarrow> Some (goto c (if lw_deadline w c < lw_now w then Refused else Trying) w)
      | Reconnect \<Rightarrow> Some (goto c (if lw_guardDeadline w c < lw_now w then Refused else Starting) w)
      | _ \<Rightarrow> None)"
| "lock_step cf (EvRegister c) w =
     (case lw_phase w c of
        Returned tok \<Rightarrow>
          Some (goto c (if cf_socket cf then Claimed tok else Inside tok)
            (set_live (cf_pid cf c) (insert tok (lw_live w (cf_pid cf c))) w))
      | _ \<Rightarrow> None)"
| "lock_step cf (EvListen c) w =
     (case lw_phase w c of
        Claimed tok \<Rightarrow>
          (case lw_socket w of
             None \<Rightarrow> Some (goto c (Inside tok) (w\<lparr>lw_socket := Some c\<rparr>))
           | Some _ \<Rightarrow> Some (goto c (Dropping tok False)
                        (set_live (cf_pid cf c) (lw_live w (cf_pid cf c) - {tok}) w)))
      | _ \<Rightarrow> None)"
| "lock_step cf (EvListenFails c) w =
     (case lw_phase w c of
        Claimed tok \<Rightarrow> Some (goto c (Dropping tok True)
                        (set_live (cf_pid cf c) (lw_live w (cf_pid cf c) - {tok}) w))
      | _ \<Rightarrow> None)"
| "lock_step cf (EvFinish c) w =
     (case lw_phase w c of
        Inside tok \<Rightarrow>
          Some (goto c (if cf_async cf c \<and> cf_socket cf then Closing tok else Leaving tok)
            (set_live (cf_pid cf c) (lw_live w (cf_pid cf c) - {tok}) w))
      | _ \<Rightarrow> None)"
| "lock_step cf (EvClose c) w =
     (case lw_phase w c of
        Closing tok \<Rightarrow> Some (goto c (Leaving tok) (w\<lparr>lw_socket := None\<rparr>))
      | _ \<Rightarrow> None)"
| "lock_step cf (EvTick n) w = Some (w\<lparr>lw_now := lw_now w + int n\<rparr>)"
| "lock_step cf (EvCrash p) w =
     Some (set_live p {} (w\<lparr>lw_phase := (\<lambda>c. if cf_pid cf c = p then Gone else lw_phase w c),
             lw_socket := (case lw_socket w of None \<Rightarrow> None
               | Some c \<Rightarrow> if cf_pid cf c = p then None else Some c),
             lw_dead := insert p (lw_dead w)\<rparr>))"
| "lock_step cf EvSweep w =
     Some (w\<lparr>lw_file := fst (sweep_lock (lw_file w) (cf_staleMs cf) (lw_now w) (lw_probe cf w))\<rparr>)"

abbreviation lock_run :: "'c lock_config \<Rightarrow> 'c lock_event list \<Rightarrow> 'c lock_world \<Rightarrow> 'c lock_world option" where
  "lock_run cf \<equiv> run_events (lock_step cf)"

text \<open>The start: nobody is on the way in, and whatever file is left has a token of its own creation.\<close>

definition lock_start :: "'c lock_world \<Rightarrow> bool" where
  "lock_start w \<longleftrightarrow> (\<forall>c. lw_phase w c = Outside) \<and> lw_socket w = None \<and> (\<forall>p. lw_live w p = {}) \<and>
     (case lw_file w of None \<Rightarrow> True
      | Some f \<Rightarrow> lf_inode f \<in> lw_used w \<and> (file_token f = None \<or> file_token f = Some (lf_inode f)))"

subsection \<open>The socket keeps asynchronous holders apart\<close>

text \<open>Where a removal may lead; no caller gets into the lock by one.\<close>

definition after_removal :: "phase set" where
  "after_removal = {Trying, Retry, Outside, Refused, Reconnect}"

lemma removal_after: "removal cf c p = Some (test, q) \<Longrightarrow> q \<in> after_removal"
  by (cases p) (auto simp: after_removal_def split: if_splits)

definition socket_inv :: "'c lock_config \<Rightarrow> 'c lock_world \<Rightarrow> bool" where
  "socket_inv cf w \<longleftrightarrow>
     (\<forall>c t. lw_phase w c = Inside t \<and> cf_async cf c \<or> lw_phase w c = Closing t \<longrightarrow>
        lw_socket w = Some c) \<and>
     (\<forall>c q. lw_phase w c = Unlinking q \<longrightarrow> q \<in> after_removal)"

lemma socket_inv_step:
  assumes inv: "socket_inv cf w" and on: "cf_socket cf" and step: "lock_step cf e w = Some w'"
  shows "socket_inv cf w'"
proof (cases e)
  case (EvRemove c)
  then obtain test q where "removal cf c (lw_phase w c) = Some (test, q)"
    and w': "w' = goto c q (w\<lparr>lw_file := (if test (lw_file w) then None else lw_file w)\<rparr>)"
    using step by (auto split: option.splits)
  then have "q \<in> after_removal" by (auto dest: removal_after)
  then show ?thesis using inv unfolding w' by (auto simp: socket_inv_def after_removal_def)
next
  case (EvMatch c)
  then obtain test q where "removal cf c (lw_phase w c) = Some (test, q)"
    and w': "w' = goto c (if test (lw_file w) then Unlinking q else q) w"
    using step by (auto split: option.splits)
  then have "q \<in> after_removal" by (auto dest: removal_after)
  then show ?thesis using inv unfolding w' by (auto simp: socket_inv_def after_removal_def)
next
  case (EvUnlink c)
  then obtain q where "lw_phase w c = Unlinking q" and w': "w' = goto c q (w\<lparr>lw_file := None\<rparr>)"
    using step by (auto split: phase.splits)
  then have "q \<in> after_removal" using inv by (auto simp: socket_inv_def)
  then show ?thesis using inv unfolding w' by (auto simp: socket_inv_def after_removal_def)
next
  case (EvClose c)
  then obtain t where p: "lw_phase w c = Closing t" and w': "w' = goto c (Leaving t) (w\<lparr>lw_socket := None\<rparr>)"
    using step by (auto split: phase.splits)
  have "lw_socket w = Some c" using inv p by (auto simp: socket_inv_def)
  then show ?thesis using inv unfolding w' by (auto simp: socket_inv_def)
next
  case (EvFinish c)
  then obtain t where p: "lw_phase w c = Inside t"
    and w': "w' = goto c (if cf_async cf c then Closing t else Leaving t)
               (set_live (cf_pid cf c) (lw_live w (cf_pid cf c) - {t}) w)"
    using step on by (auto split: phase.splits)
  have "cf_async cf c \<Longrightarrow> lw_socket w = Some c" using inv p by (auto simp: socket_inv_def)
  moreover have "lw_socket w' = lw_socket w" "lw_phase w' = (lw_phase w)(c := if cf_async cf c then Closing t else Leaving t)"
    unfolding w' by (simp_all add: set_live_def)
  ultimately show ?thesis using inv by (auto simp: socket_inv_def)
qed (use inv on step in \<open>auto simp: socket_inv_def set_live_def
    split: if_splits phase.splits option.splits sum.splits create_error.splits contention.splits\<close>)

interpretation socket_tier: machine_invariant "lock_step cf" "\<lambda>_ _. True" "\<lambda>w. cf_socket cf \<and> socket_inv cf w"
  for cf :: "'c lock_config"
  by unfold_locales (auto intro: socket_inv_step)

lemma socket_inv_start: "lock_start w \<Longrightarrow> socket_inv cf w"
  by (simp add: lock_start_def socket_inv_def)

text \<open>
  Two asynchronous callers of \<open>withRunLock\<close> are never inside the critical section of a run at the
  same time: in every state reached from a lock directory at rest, by any interleaving of the steps of any
  number of processes, contention, removals, crashes and clock moves included, two such callers inside are
  one caller (the socket tier, where it is available).
\<close>

theorem socket_exclusion:
  assumes "cf_socket cf" and "lock_start w" and "lock_run cf es w = Some w'"
    and "cf_async cf a" and "cf_async cf b" and "lw_phase w' a = Inside t" and "lw_phase w' b = Inside u"
  shows "a = b"
proof -
  have "socket_inv cf w'" using socket_tier.ok_run [of cf w es w'] socket_inv_start [OF assms(2)] assms(1,3) by simp
  then have "lw_socket w' = Some c" if "lw_phase w' c = Inside v" "cf_async cf c" for c v
    using that by (auto simp: socket_inv_def)
  from this [OF assms(6,4)] this [OF assms(7,5)] show ?thesis by simp
qed

subsection \<open>The file keeps holders apart while nobody overstays\<close>

fun phase_token :: "phase \<Rightarrow> string option" where
  "phase_token (Opened t) = Some t"
| "phase_token (Written t) = Some t"
| "phase_token (Unclaimed t) = Some t"
| "phase_token (Returned t) = Some t"
| "phase_token (Claimed t) = Some t"
| "phase_token (Inside t) = Some t"
| "phase_token (Closing t) = Some t"
| "phase_token (Leaving t) = Some t"
| "phase_token (Dropping t _) = Some t"
| "phase_token _ = None"

text \<open>A caller whose acquire loop has returned, and one that still verifies what it has written.\<close>

fun holds :: "phase \<Rightarrow> string \<Rightarrow> bool" where
  "holds (Returned t) u = (t = u)"
| "holds (Claimed t) u = (t = u)"
| "holds (Inside t) u = (t = u)"
| "holds _ _ = False"

definition aspires :: "phase \<Rightarrow> string \<Rightarrow> bool" where
  "aspires p t \<longleftrightarrow> p = Written t \<or> holds p t"

text \<open>
  The conditions under which the file alone is enough. Removals are single operations. The lock
  file of a caller on its way in or inside is not older than \<open>staleMs\<close>, and its process can be
  signalled. No asynchronous caller reads the lock while another caller of its process has created
  it and not yet registered its token.
\<close>

definition prompt :: "'c lock_config \<Rightarrow> 'c lock_world \<Rightarrow> bool" where
  "prompt cf w \<longleftrightarrow> (\<forall>c t f. lw_file w = Some f \<and> file_token f = Some t \<and> aspires (lw_phase w c) t \<longrightarrow>
     lw_now w - lock_born f \<le> cf_staleMs cf \<and> cf_pid cf c \<notin> cf_hidden cf)"

fun orderly :: "'c lock_config \<Rightarrow> 'c lock_event \<Rightarrow> 'c lock_world \<Rightarrow> bool" where
  "orderly cf (EvMatch c) w = False"
| "orderly cf (EvContend c) w \<longleftrightarrow> prompt cf w \<and>
     (cf_async cf c \<longrightarrow> (\<forall>d t. cf_pid cf d = cf_pid cf c \<longrightarrow> lw_phase w d \<noteq> Written t \<and> lw_phase w d \<noteq> Returned t))"
| "orderly cf e w \<longleftrightarrow> prompt cf w"

text \<open>The invariant, in parts: tokens are minted once and never shared,\<close>

definition tokens_ok :: "'c lock_world \<Rightarrow> bool" where
  "tokens_ok w \<longleftrightarrow> (\<forall>c t. phase_token (lw_phase w c) = Some t \<longrightarrow> t \<in> lw_used w) \<and>
     (\<forall>c d t. phase_token (lw_phase w c) = Some t \<and> phase_token (lw_phase w d) = Some t \<longrightarrow> c = d) \<and>
     (\<forall>c t. lw_phase w c = Removing (Some t) \<longrightarrow> t \<in> lw_used w) \<and>
     (\<forall>c q. lw_phase w c \<noteq> Unlinking q)"

text \<open>the file carries the token of its creator, who is alive,\<close>

definition file_ok :: "'c lock_config \<Rightarrow> 'c lock_world \<Rightarrow> bool" where
  "file_ok cf w \<longleftrightarrow> (\<forall>f. lw_file w = Some f \<longrightarrow> lf_inode f \<in> lw_used w \<and>
     (file_token f = None \<or> file_token f = Some (lf_inode f)) \<and>
     (\<forall>c. lw_phase w c = Opened (lf_inode f) \<longrightarrow> file_token f = None) \<and>
     (\<forall>c t. file_token f = Some t \<and> phase_token (lw_phase w c) = Some t \<longrightarrow>
        file_pid f = Some (cf_pid cf c)))"

definition alive_ok :: "'c lock_config \<Rightarrow> 'c lock_world \<Rightarrow> bool" where
  "alive_ok cf w \<longleftrightarrow> (\<forall>c. lw_phase w c \<notin> {Outside, Gone, Refused} \<longrightarrow> cf_pid cf c \<notin> lw_dead w)"

text \<open>the live tokens are those of the holders that have registered,\<close>

definition live_ok :: "'c lock_config \<Rightarrow> 'c lock_world \<Rightarrow> bool" where
  "live_ok cf w \<longleftrightarrow> (\<forall>c t. lw_phase w c = Claimed t \<or> lw_phase w c = Inside t \<longrightarrow> t \<in> lw_live w (cf_pid cf c))"

text \<open>and who holds the lock finds its own token in the file, which nobody is about to remove.\<close>

definition hold_ok :: "'c lock_world \<Rightarrow> bool" where
  "hold_ok w \<longleftrightarrow> (\<forall>c t. holds (lw_phase w c) t \<longrightarrow> readLockToken (lw_file w) = Some t) \<and>
     (\<forall>c d t. lw_phase w c = Removing (Some t) \<longrightarrow>
        \<not> aspires (lw_phase w d) t \<and> lw_phase w d \<noteq> Opened t)"

lemmas lock_inv_defs = tokens_ok_def file_ok_def alive_ok_def live_ok_def hold_ok_def

lemmas step_splits = if_splits phase.splits option.splits sum.splits create_error.splits contention.splits

lemma holds_token: "holds p t \<Longrightarrow> phase_token p = Some t"
  by (cases p) auto

lemma aspires_token: "aspires p t \<Longrightarrow> phase_token p = Some t"
  by (auto simp: aspires_def holds_token)

lemma createLockFile_Inr:
  "createLockFile file tok now = Inr f \<longleftrightarrow>
   file = None \<and> f = \<lparr> lf_inode = tok, lf_symlink = False, lf_payload = None, lf_mtime = now \<rparr>"
  by (auto simp: createLockFile_def split: option.splits)

lemma file_token_simps [simp]:
  "file_token \<lparr> lf_inode = i, lf_symlink = s, lf_payload = None, lf_mtime = m \<rparr> = None"
  by (simp add: file_token_def)

text \<open>A removal, or its test alone, leads to a phase without a token.\<close>

definition tokenless :: "phase \<Rightarrow> bool" where
  "tokenless q \<longleftrightarrow> q \<in> after_removal \<or> (\<exists>r. q = Unlinking r)"

lemma tokenlessD:
  "tokenless q \<Longrightarrow> phase_token q = None \<and> q \<noteq> Removing x \<and> \<not> holds q t \<and> \<not> aspires q t \<and>
     q \<noteq> Opened t \<and> q \<noteq> Written t \<and> q \<noteq> Claimed t \<and> q \<noteq> Inside t"
  by (auto simp: tokenless_def after_removal_def aspires_def)

lemma removal_step:
  assumes "lock_step cf e w = Some w'" and "e = EvRemove d \<or> e = EvMatch d"
  shows "\<exists>q. lw_phase w' = (lw_phase w)(d := q) \<and> tokenless q \<and> (e = EvRemove d \<longrightarrow> (\<forall>r. q \<noteq> Unlinking r)) \<and>
    lw_phase w d \<notin> {Outside, Gone, Refused} \<and> lw_dead w' = lw_dead w"
proof -
  obtain test q where r: "removal cf d (lw_phase w d) = Some (test, q)"
    using assms by (auto split: option.splits)
  have q: "q \<in> after_removal" by (rule removal_after [OF r])
  have busy: "lw_phase w d \<notin> {Outside, Gone, Refused}" using r by (cases "lw_phase w d") auto
  show ?thesis using assms(2)
  proof
    assume "e = EvRemove d"
    then show ?thesis using assms(1) r q busy by (auto simp: tokenless_def after_removal_def)
  next
    assume "e = EvMatch d"
    then have "w' = goto d (if test (lw_file w) then Unlinking q else q) w" using assms(1) r by simp
    then show ?thesis using q busy \<open>e = EvMatch d\<close> by (auto simp: tokenless_def)
  qed
qed

lemma token_origin:
  assumes step: "lock_step cf e w = Some w'" and t: "phase_token (lw_phase w' c) = Some t"
    and nu: "\<And>c q. lw_phase w c \<noteq> Unlinking q"
  shows "phase_token (lw_phase w c) = Some t \<or> t \<notin> lw_used w \<and> t \<in> lw_used w' \<and> e = EvOpen c t"
proof (cases "\<exists>d. e = EvRemove d \<or> e = EvMatch d")
  case True
  then obtain d q where "lw_phase w' = (lw_phase w)(d := q)" "tokenless q" using removal_step [OF step] by blast
  then show ?thesis using t tokenlessD [of q] by (auto simp: split: if_splits)
next
  case False
  then show ?thesis
    using step t nu by (cases e) (auto simp: set_live_def createLockFile_Inr split: step_splits)
qed

lemma used_grows: "lock_step cf e w = Some w' \<Longrightarrow> lw_used w \<subseteq> lw_used w'"
  by (cases e) (auto simp: set_live_def split: step_splits)

lemma corpse_origin:
  assumes step: "lock_step cf e w = Some w'" and t: "lw_phase w' c = Removing (Some t)"
    and nu: "\<And>c q. lw_phase w c \<noteq> Unlinking q"
  shows "lw_phase w c = Removing (Some t) \<or>
    e = EvContend c \<and> contend cf c w = RemoveCorpse (Some t) \<and> lw_phase w' = (lw_phase w)(c := Removing (Some t))"
proof (cases "\<exists>d. e = EvRemove d \<or> e = EvMatch d")
  case True
  then obtain d q where "lw_phase w' = (lw_phase w)(d := q)" "tokenless q" using removal_step [OF step] by blast
  then show ?thesis using t tokenlessD [of q] by (auto simp: split: if_splits)
next
  case False
  then show ?thesis
    using step t nu by (cases e) (auto simp: set_live_def createLockFile_Inr split: step_splits)
qed

lemma unlinking_origin:
  assumes step: "lock_step cf e w = Some w'" and e: "\<And>c. e \<noteq> EvMatch c"
    and nu: "\<And>c q. lw_phase w c \<noteq> Unlinking q"
  shows "lw_phase w' c \<noteq> Unlinking q"
proof (cases "\<exists>d. e = EvRemove d")
  case True
  then obtain d q' where "lw_phase w' = (lw_phase w)(d := q')" "\<forall>r. q' \<noteq> Unlinking r"
    using removal_step [OF step] by blast
  then show ?thesis using nu by simp
next
  case False
  then show ?thesis using step nu e by (cases e) (auto simp: set_live_def split: step_splits)
qed

lemma contend_corpse:
  "contend cf c w = RemoveCorpse (Some t) \<Longrightarrow> \<exists>f. lw_file w = Some f \<and> file_token f = Some t"
  by (auto simp: contend_def contend_sync_def contend_async_def Let_def
        readLockSnapshot_def lock_read_of_def split: if_splits option.splits lock_read.splits)

lemma tokens_ok_step:
  assumes inv: "tokens_ok w" "file_ok cf w" and e: "\<And>c. e \<noteq> EvMatch c" and step: "lock_step cf e w = Some w'"
  shows "tokens_ok w'"
proof -
  have nu: "\<And>c q. lw_phase w c \<noteq> Unlinking q" using inv(1) by (simp add: tokens_ok_def)
  have used: "t \<in> lw_used w" if "phase_token (lw_phase w c) = Some t" for c t
    using inv(1) that by (auto simp: tokens_ok_def)
  have inj: "c = d" if "phase_token (lw_phase w c) = Some t" "phase_token (lw_phase w d) = Some t" for c d t
    using inv(1) that by (auto simp: tokens_ok_def)
  have corpse: "t \<in> lw_used w" if "lw_phase w c = Removing (Some t)" for c t
    using inv(1) that by (auto simp: tokens_ok_def)
  have read: "t \<in> lw_used w" if "contend cf c w = RemoveCorpse (Some t)" for c t
    using contend_corpse [OF that] inv(2) by (auto simp: file_ok_def)
  note origin = token_origin [OF step _ nu]
  show ?thesis unfolding tokens_ok_def
  proof (intro conjI allI impI)
    show "t \<in> lw_used w'" if "phase_token (lw_phase w' c) = Some t" for c t
      using origin [OF that] used used_grows [OF step] by blast
    show "c = d" if "phase_token (lw_phase w' c) = Some t \<and> phase_token (lw_phase w' d) = Some t" for c d t
      using origin [of c t] origin [of d t] that inj [of c t d] used [of c t] used [of d t] by auto
    show "t \<in> lw_used w'" if "lw_phase w' c = Removing (Some t)" for c t
      using corpse_origin [OF step that nu] corpse [of c t] read [of c t] used_grows [OF step] by blast
    show "lw_phase w' c \<noteq> Unlinking q" for c q by (rule unlinking_origin [OF step e nu])
  qed
qed


lemma alive_ok_step:
  assumes inv: "alive_ok cf w" and step: "lock_step cf e w = Some w'" and nu: "\<And>c q. lw_phase w c \<noteq> Unlinking q"
  shows "alive_ok cf w'"
proof -
  have busy: "cf_pid cf d \<notin> lw_dead w" if "lw_phase w d \<notin> {Outside, Gone, Refused}" for d
    using inv that by (simp add: alive_ok_def)
  have "cf_pid cf c \<notin> lw_dead w'" if c: "lw_phase w' c \<notin> {Outside, Gone, Refused}" for c
  proof (cases "\<exists>d. e = EvRemove d \<or> e = EvMatch d")
    case True
    then obtain d q where "lw_phase w' = (lw_phase w)(d := q)" "lw_phase w d \<notin> {Outside, Gone, Refused}"
      "lw_dead w' = lw_dead w" using removal_step [OF step] by blast
    then show ?thesis using c busy [of d] busy [of c] by (cases "c = d") simp_all
  next
    case False
    then show ?thesis using step c busy [of c] nu by (cases e) (auto simp: set_live_def split: step_splits)
  qed
  then show ?thesis by (simp add: alive_ok_def)
qed

definition registered :: "phase \<Rightarrow> string \<Rightarrow> bool" where
  "registered p t \<longleftrightarrow> p = Claimed t \<or> p = Inside t"

lemma registered_origin:
  assumes step: "lock_step cf e w = Some w'" and t: "registered (lw_phase w' c) t"
    and nu: "\<And>c q. lw_phase w c \<noteq> Unlinking q"
  shows "registered (lw_phase w c) t \<and> (\<forall>p. e \<noteq> EvCrash p \<or> p \<noteq> cf_pid cf c) \<or> t \<in> lw_live w' (cf_pid cf c)"
proof (cases "\<exists>d. e = EvRemove d \<or> e = EvMatch d")
  case True
  then obtain d q where "lw_phase w' = (lw_phase w)(d := q)" "tokenless q" using removal_step [OF step] by blast
  then show ?thesis using t True tokenlessD [of q] by (auto simp: registered_def split: if_splits)
next
  case False
  then show ?thesis
    using step t nu by (cases e) (auto simp: registered_def set_live_def createLockFile_Inr split: step_splits)
qed

lemma live_shrinks:
  assumes step: "lock_step cf e w = Some w'" and x: "x \<in> lw_live w p" "x \<notin> lw_live w' p"
  shows "e = EvCrash p \<or> (\<exists>d. registered (lw_phase w d) x \<and> \<not> registered (lw_phase w' d) x)"
  by (cases e) (use step x in \<open>auto simp: registered_def set_live_def split: step_splits\<close>)

lemma live_ok_step:
  assumes inv: "live_ok cf w" "tokens_ok w" and step: "lock_step cf e w = Some w'"
  shows "live_ok cf w'"
proof -
  have nu: "\<And>c q. lw_phase w c \<noteq> Unlinking q" using inv(2) by (simp add: tokens_ok_def)
  have "t \<in> lw_live w' (cf_pid cf c)" if r: "registered (lw_phase w' c) t" for c t
  proof (rule ccontr)
    assume no: "t \<notin> lw_live w' (cf_pid cf c)"
    then have c: "registered (lw_phase w c) t" "e \<noteq> EvCrash (cf_pid cf c)"
      using registered_origin [OF step r nu] by blast+
    then have "t \<in> lw_live w (cf_pid cf c)" using inv(1) by (auto simp: live_ok_def registered_def)
    then obtain d where d: "registered (lw_phase w d) t" "\<not> registered (lw_phase w' d) t"
      using live_shrinks [OF step _ no] c(2) by blast
    have "c = d" using c(1) d(1) inv(2) by (auto simp: tokens_ok_def registered_def)
    then show False using r d(2) by simp
  qed
  then show ?thesis by (auto simp: live_ok_def registered_def)
qed


text \<open>How a step that leaves a file behind can change it.\<close>

lemma file_change:
  assumes step: "lock_step cf e w = Some w'" and ne: "lw_file w' \<noteq> lw_file w"
  shows "lw_file w' = None \<and> (e = EvSweep \<or> (\<exists>c. e = EvUnlink c) \<or>
           (\<exists>c test q. e = EvRemove c \<and> removal cf c (lw_phase w c) = Some (test, q) \<and> test (lw_file w))) \<or>
         (\<exists>c tok. e = EvOpen c tok \<and> lw_file w = None \<and> tok \<notin> lw_used w \<and> lw_phase w' = (lw_phase w)(c := Opened tok) \<and>
            lw_used w' = insert tok (lw_used w) \<and>
            lw_file w' = Some \<lparr> lf_inode = tok, lf_symlink = False, lf_payload = None, lf_mtime = lw_now w \<rparr>) \<or>
         (\<exists>c st tok. e = EvWrite c st \<and> lw_phase w c = Opened tok \<and> lw_phase w' = (lw_phase w)(c := Written tok) \<and>
            lw_used w' = lw_used w \<and>
            lw_file w' = writeLockPayload LockRun (cf_pid cf c) st tok (lw_file w))"
proof (cases e)
  case (EvRemove d)
  then obtain test q where r: "removal cf d (lw_phase w d) = Some (test, q)"
    and w': "w' = goto d q (w\<lparr>lw_file := (if test (lw_file w) then None else lw_file w)\<rparr>)"
    using step by (auto split: option.splits)
  show ?thesis using r ne EvRemove unfolding w' by (auto split: if_splits)
next
  case EvSweep
  then show ?thesis using step ne by (auto simp: sweep_lock_def split: if_splits)
next
  case (EvMatch d)
  then show ?thesis using step ne by (auto split: option.splits)
qed (use step ne in \<open>auto simp: set_live_def createLockFile_Inr split: step_splits\<close>)

lemma writeLockPayload_Some:
  "writeLockPayload k p st tok fl = Some f' \<Longrightarrow>
   \<exists>f. fl = Some f \<and> lf_inode f' = lf_inode f \<and> lf_symlink f' = lf_symlink f \<and>
     (if lf_inode f = tok then file_token f' = Some tok \<and> file_pid f' = Some p else f' = f)"
  by (cases fl; cases "lf_inode (the fl) = tok")
     (auto simp: writeLockPayload_def file_token_def file_pid_def)

lemma opened_origin:
  assumes step: "lock_step cf e w = Some w'" and t: "lw_phase w' c = Opened t"
    and nu: "\<And>c q. lw_phase w c \<noteq> Unlinking q"
  shows "lw_phase w c = Opened t \<or> t \<notin> lw_used w"
proof (cases "\<exists>d. e = EvRemove d \<or> e = EvMatch d")
  case True
  then obtain d q where "lw_phase w' = (lw_phase w)(d := q)" "tokenless q" using removal_step [OF step] by blast
  then show ?thesis using t tokenlessD [of q] by (auto simp: split: if_splits)
next
  case False
  then show ?thesis
    using step t nu by (cases e) (auto simp: set_live_def createLockFile_Inr split: step_splits)
qed

lemma file_ok_step:
  assumes inv: "file_ok cf w" "tokens_ok w" and step: "lock_step cf e w = Some w'"
  shows "file_ok cf w'"
proof -
  have nu: "\<And>c q. lw_phase w c \<noteq> Unlinking q" using inv(2) by (simp add: tokens_ok_def)
  have used: "t \<in> lw_used w" if "phase_token (lw_phase w c) = Some t" for c t
    using inv(2) that by (auto simp: tokens_ok_def)
  have inj: "c = d" if "phase_token (lw_phase w c) = Some t" "phase_token (lw_phase w d) = Some t" for c d t
    using inv(2) that by (auto simp: tokens_ok_def)
  have old: "lf_inode f \<in> lw_used w" "file_token f = None \<or> file_token f = Some (lf_inode f)"
    "lw_phase w c = Opened (lf_inode f) \<Longrightarrow> file_token f = None"
    "file_token f = Some t \<Longrightarrow> phase_token (lw_phase w c) = Some t \<Longrightarrow> file_pid f = Some (cf_pid cf c)"
    if "lw_file w = Some f" for f c t
    using inv(1) that by (auto simp: file_ok_def)
  have mono: "lw_used w \<subseteq> lw_used w'" by (rule used_grows [OF step])
  have carried: "lf_inode f \<in> lw_used w' \<and> (file_token f = None \<or> file_token f = Some (lf_inode f)) \<and>
     (\<forall>c. lw_phase w' c = Opened (lf_inode f) \<longrightarrow> file_token f = None) \<and>
     (\<forall>c t. file_token f = Some t \<and> phase_token (lw_phase w' c) = Some t \<longrightarrow> file_pid f = Some (cf_pid cf c))"
    if f: "lw_file w = Some f" for f
  proof (intro conjI allI impI)
    show "lf_inode f \<in> lw_used w'" using old(1) [OF f] mono by blast
    show "file_token f = None \<or> file_token f = Some (lf_inode f)" by (rule old(2) [OF f])
    show "file_token f = None" if "lw_phase w' c = Opened (lf_inode f)" for c
      using opened_origin [OF step that nu] old(1,3) [OF f] by blast
    show "file_pid f = Some (cf_pid cf c)" if "file_token f = Some t \<and> phase_token (lw_phase w' c) = Some t" for c t
      using token_origin [OF step _ nu, of c t] that old(1,2,4) [OF f] by fastforce
  qed
  show ?thesis
  proof (cases "lw_file w' = lw_file w")
    case True
    then show ?thesis using carried by (simp add: file_ok_def)
  next
    case False
    from file_change [OF step this] show ?thesis
    proof (elim disjE exE conjE)
      fix c tok
      assume "tok \<notin> lw_used w" "lw_phase w' = (lw_phase w)(c := Opened tok)" "lw_used w' = insert tok (lw_used w)"
        "lw_file w' = Some \<lparr> lf_inode = tok, lf_symlink = False, lf_payload = None, lf_mtime = lw_now w \<rparr>"
      then show ?thesis by (auto simp: file_ok_def)
    next
      fix c st tok
      assume p: "lw_phase w c = Opened tok" "lw_phase w' = (lw_phase w)(c := Written tok)"
        and f': "lw_file w' = writeLockPayload LockRun (cf_pid cf c) st tok (lw_file w)"
      show ?thesis unfolding file_ok_def
      proof (intro allI impI)
        fix f'' assume "lw_file w' = Some f''"
        then obtain f where f: "lw_file w = Some f" "lf_inode f'' = lf_inode f"
          "if lf_inode f = tok then file_token f'' = Some tok \<and> file_pid f'' = Some (cf_pid cf c) else f'' = f"
          using writeLockPayload_Some f' by metis
        show "lf_inode f'' \<in> lw_used w' \<and> (file_token f'' = None \<or> file_token f'' = Some (lf_inode f'')) \<and>
          (\<forall>d. lw_phase w' d = Opened (lf_inode f'') \<longrightarrow> file_token f'' = None) \<and>
          (\<forall>d t. file_token f'' = Some t \<and> phase_token (lw_phase w' d) = Some t \<longrightarrow> file_pid f'' = Some (cf_pid cf d))"
        proof (cases "lf_inode f = tok")
          case True
          have "d = c" if "phase_token (lw_phase w' d) = Some tok" for d
            using that inj [of d tok c] p by (cases "d = c") simp_all
          note dc = this
          have 1: "lf_inode f'' = tok" "file_token f'' = Some tok" "file_pid f'' = Some (cf_pid cf c)" using f True by simp_all
          have 2: "lf_inode f'' \<in> lw_used w'" using carried [OF f(1)] f(2) by simp
          have 3: "lw_phase w' d \<noteq> Opened tok" for d
          proof
            assume o: "lw_phase w' d = Opened tok"
            then have "d = c" using dc [of d] by simp
            then show False using o p(2) by simp
          qed
          have 4: "file_pid f'' = Some (cf_pid cf d)"
            if "file_token f'' = Some t \<and> phase_token (lw_phase w' d) = Some t" for d t
          proof -
            have "phase_token (lw_phase w' d) = Some tok" using that 1(2) by simp
            from dc [OF this] 1(3) show ?thesis by simp
          qed
          show ?thesis unfolding 1(1) using 2 [unfolded 1(1)] 1(2) 3 4 by blast
        next
          case False
          then show ?thesis using f carried [OF f(1)] by simp
        qed
      qed
    qed (auto simp: file_ok_def)
  qed
qed


lemma holds_origin:
  assumes step: "lock_step cf e w = Some w'" and t: "holds (lw_phase w' c) t"
    and nu: "\<And>c q. lw_phase w c \<noteq> Unlinking q"
  shows "holds (lw_phase w c) t \<or> lw_phase w c = Written t \<and> readLockToken (lw_file w') = Some t"
proof (cases "\<exists>d. e = EvRemove d \<or> e = EvMatch d")
  case True
  then obtain d q where "lw_phase w' = (lw_phase w)(d := q)" "tokenless q" using removal_step [OF step] by blast
  then show ?thesis using t tokenlessD [of q] by (auto simp: split: if_splits)
next
  case False
  then show ?thesis
    using step t nu by (cases e) (auto simp: set_live_def createLockFile_Inr split: step_splits)
qed

lemma written_origin:
  assumes step: "lock_step cf e w = Some w'" and t: "lw_phase w' c = Written t"
    and nu: "\<And>c q. lw_phase w c \<noteq> Unlinking q"
  shows "lw_phase w c = Written t \<or> lw_phase w c = Opened t"
proof (cases "\<exists>d. e = EvRemove d \<or> e = EvMatch d")
  case True
  then obtain d q where "lw_phase w' = (lw_phase w)(d := q)" "tokenless q" using removal_step [OF step] by blast
  then show ?thesis using t tokenlessD [of q] by (auto simp: split: if_splits)
next
  case False
  then show ?thesis
    using step t nu by (cases e) (auto simp: set_live_def createLockFile_Inr split: step_splits)
qed

text \<open>In an orderly state the snapshot of a lock on the way in or held never allows a steal.\<close>

lemma orderly_contend:
  assumes inv: "file_ok cf w" "alive_ok cf w" "live_ok cf w" and ord: "orderly cf (EvContend c) w"
    and a: "aspires (lw_phase w d) t"
  shows "contend cf c w \<noteq> RemoveCorpse (Some t)"
proof
  assume r: "contend cf c w = RemoveCorpse (Some t)"
  obtain f where f: "lw_file w = Some f" "file_token f = Some t" using contend_corpse [OF r] by blast
  have pid: "file_pid f = Some (cf_pid cf d)" using inv(1) f aspires_token [OF a] by (auto simp: file_ok_def)
  have fresh: "\<not> cf_staleMs cf < lw_now w - lock_born f" "cf_pid cf d \<notin> cf_hidden cf"
    using ord f a by (force simp: prompt_def)+
  have "lw_phase w d \<notin> {Outside, Gone, Refused}" using a by (auto simp: aspires_def)
  then have alive: "lw_probe cf w (cf_pid cf d)"
    using inv(2) fresh(2) by (simp add: alive_ok_def lw_probe_def)
  have steal: "cf_async cf c \<and> cf_pid cf d = cf_pid cf c \<and> t \<notin> lw_live w (cf_pid cf c)"
    using r f pid fresh(1) alive by (auto simp: contend_def contend_sync_def contend_async_def Let_def
        readLockSnapshot_def lock_read_of_def split: if_splits)
  then have "lw_phase w d = Claimed t \<or> lw_phase w d = Inside t"
    using a ord by (cases "lw_phase w d") (auto simp: aspires_def)
  then show False using steal inv(3) by (metis live_ok_def)
qed

lemma hold_ok_step:
  assumes inv: "hold_ok w" "tokens_ok w" "file_ok cf w" "alive_ok cf w" "live_ok cf w"
    and ord: "orderly cf e w" and step: "lock_step cf e w = Some w'"
  shows "hold_ok w'"
proof -
  have nu: "\<And>c q. lw_phase w c \<noteq> Unlinking q" using inv(2) by (simp add: tokens_ok_def)
  have inj: "c = d" if "phase_token (lw_phase w c) = Some t" "phase_token (lw_phase w d) = Some t" for c d t
    using inv(2) that by (auto simp: tokens_ok_def)
  have own: "readLockToken (lw_file w) = Some t" if "holds (lw_phase w c) t" for c t
    using inv(1) that by (simp add: hold_ok_def)
  have corpse: "\<not> aspires (lw_phase w d) t" "lw_phase w d \<noteq> Opened t" if "lw_phase w c = Removing (Some t)" for c d t
    using inv(1) that by (auto simp: hold_ok_def)
  have kept: "readLockToken (lw_file w') = Some t" if h: "holds (lw_phase w c) t" for c t
  proof (cases "lw_file w' = lw_file w")
    case True
    then show ?thesis using own [OF h] by simp
  next
    case False
    obtain f where f: "lw_file w = Some f" "\<not> lf_symlink f" "file_token f = Some t"
      using own [OF h] by (auto simp: readLockToken_def split: option.splits if_splits)
    note ht = holds_token [OF h]
    have inode: "lf_inode f = t" using inv(3) f by (auto simp: file_ok_def)
    from file_change [OF step False] show ?thesis
    proof (elim disjE exE conjE)
      assume "e = EvSweep"
      then have "cf_staleMs cf < lw_now w - lock_born f"
        using step False f by (auto simp: sweep_lock_def isLockStale_def split: if_splits)
      moreover have "prompt cf w" using ord \<open>e = EvSweep\<close> by simp
      ultimately show ?thesis using f h by (force simp: prompt_def aspires_def)
    next
      fix d assume "e = EvUnlink d"
      then show ?thesis using step nu by (auto split: phase.splits)
    next
      fix d test q
      assume r: "removal cf d (lw_phase w d) = Some (test, q)" and test: "test (lw_file w)"
      show ?thesis
      proof (cases "lw_phase w d")
        case (Removing x)
        then have "x = Some t" using r test own [OF h] by (auto simp: corpse_matches_def)
        then show ?thesis using corpse(1) [of d t c] Removing h by (simp add: aspires_def)
      next
        case (Unclaimed u)
        then have "u = t" using r test f by (auto simp: token_free_def)
        then show ?thesis using inj [OF ht, of d] Unclaimed h by auto
      next
        case (Leaving u)
        then have "u = t" using r test f by (auto simp: own_lock_def)
        then show ?thesis using inj [OF ht, of d] Leaving h by auto
      next
        case (Dropping u b)
        then have "u = t" using r test f by (auto simp: own_lock_def)
        then show ?thesis using inj [OF ht, of d] Dropping h by auto
      qed (use r in simp_all)
    next
      fix d tok assume "lw_file w = None"
      then show ?thesis using f by simp
    next
      fix d st tok
      assume o: "lw_phase w d = Opened tok"
        and f': "lw_file w' = writeLockPayload LockRun (cf_pid cf d) st tok (lw_file w)"
      have "tok \<noteq> t" using inj [OF ht, of d] o h by auto
      then show ?thesis using f' f inode own [OF h] by (simp add: writeLockPayload_def)
    qed
  qed
  have held: "readLockToken (lw_file w') = Some t" if "holds (lw_phase w' c) t" for c t
    using holds_origin [OF step that nu] kept [of c t] by blast
  have safe: "\<not> aspires (lw_phase w' d) t \<and> lw_phase w' d \<noteq> Opened t" if m: "lw_phase w' c = Removing (Some t)" for c d t
    using corpse_origin [OF step m nu]
  proof (elim disjE conjE)
    assume m0: "lw_phase w c = Removing (Some t)"
    then have "t \<in> lw_used w" using inv(2) by (auto simp: tokens_ok_def)
    then show ?thesis
      using corpse [OF m0] holds_origin [OF step _ nu, of d t] written_origin [OF step _ nu, of d t]
        opened_origin [OF step _ nu, of d t] by (auto simp: aspires_def)
  next
    assume e: "e = EvContend c" and r: "contend cf c w = RemoveCorpse (Some t)"
      and p': "lw_phase w' = (lw_phase w)(c := Removing (Some t))"
    obtain f where f: "lw_file w = Some f" "file_token f = Some t" using contend_corpse [OF r] by blast
    have "\<not> aspires (lw_phase w d) t" using orderly_contend [OF inv(3-5)] ord r unfolding e by blast
    moreover have "lw_phase w d \<noteq> Opened t" using inv(3) f by (auto simp: file_ok_def)
    ultimately show ?thesis unfolding p' by (simp add: aspires_def)
  qed
  show ?thesis unfolding hold_ok_def using held safe by blast
qed

definition lock_inv :: "'c lock_config \<Rightarrow> 'c lock_world \<Rightarrow> bool" where
  "lock_inv cf w \<longleftrightarrow> tokens_ok w \<and> file_ok cf w \<and> alive_ok cf w \<and> live_ok cf w \<and> hold_ok w"

lemma lock_inv_step:
  assumes "lock_inv cf w" and "orderly cf e w" and "lock_step cf e w = Some w'"
  shows "lock_inv cf w'"
proof -
  have e: "\<And>c. e \<noteq> EvMatch c" using assms(2) by auto
  have nu: "\<And>c q. lw_phase w c \<noteq> Unlinking q" using assms(1) by (simp add: lock_inv_def tokens_ok_def)
  show ?thesis
    using assms tokens_ok_step [OF _ _ e assms(3)] file_ok_step [OF _ _ assms(3)]
      alive_ok_step [OF _ assms(3) nu] live_ok_step [OF _ _ assms(3)]
      hold_ok_step [OF _ _ _ _ _ assms(2,3)]
    by (simp add: lock_inv_def)
qed

interpretation file_tier: machine_invariant "lock_step cf" "orderly cf" "lock_inv cf"
  for cf :: "'c lock_config"
  by unfold_locales (rule lock_inv_step)

lemma lock_inv_start: "lock_start w \<Longrightarrow> lock_inv cf w"
  by (auto simp: lock_start_def lock_inv_def lock_inv_defs aspires_def split: option.splits)

text \<open>
  C10. The lock file alone keeps holders apart, synchronous and asynchronous ones of all processes,
  as long as every step of the run is orderly, which is four conditions: the lock file of a caller
  on its way in or inside is not older than the staleness limit; the process of such a caller can be
  probed; a removal is not interrupted between its read and its unlink; and no asynchronous caller
  contends while another caller of its process has created the lock and not yet registered its
  token. Without the last one exclusion fails, as \<open>same_turn_double_entry\<close> shows.
\<close>

theorem file_lock_exclusion:
  assumes "lock_start w" and "events_within (lock_step cf) (orderly cf) es w" and "lock_run cf es w = Some w'"
    and "holds (lw_phase w' a) t" and "holds (lw_phase w' b) u"
  shows "a = b"
proof -
  have inv: "lock_inv cf w'" by (rule file_tier.ok_run [OF lock_inv_start [OF assms(1)] assms(2,3)])
  then have "readLockToken (lw_file w') = Some v" if "holds (lw_phase w' c) v" for c v
    using that by (simp add: lock_inv_def hold_ok_def)
  from this [OF assms(4)] this [OF assms(5)] have "t = u" by simp
  then show ?thesis
    using inv holds_token [OF assms(4)] holds_token [OF assms(5)] by (auto simp: lock_inv_def tokens_ok_def)
qed

subsection \<open>Two ways into the critical section at once\<close>

definition idle_world :: "int \<Rightarrow> 'c lock_world" where
  "idle_world now =
     \<lparr> lw_file = None, lw_socket = None, lw_phase = (\<lambda>_. Outside), lw_live = (\<lambda>_. {}),
       lw_deadline = (\<lambda>_. now), lw_guardDeadline = (\<lambda>_. now), lw_now = now, lw_used = {}, lw_dead = {} \<rparr>"

lemma lock_start_idle: "lock_start (idle_world now)"
  by (simp add: lock_start_def idle_world_def)

definition enter :: "'c \<Rightarrow> string \<Rightarrow> int \<Rightarrow> 'c lock_event list" where
  "enter c tok now = [EvOpen c tok, EvWrite c (Stamp ''now'' (Some now)), EvVerify c]"

text \<open>
  \<open>b\<close> starts in the turn in which the acquire loop of \<open>a\<close> has returned, before \<open>a\<close> goes on; \<open>c\<close> is a
  later synchronous caller.
\<close>

definition same_turn :: "'c \<Rightarrow> 'c \<Rightarrow> 'c \<Rightarrow> int \<Rightarrow> 'c lock_event list" where
  "same_turn a b c now =
     [EvCall a, EvBegin a] @ enter a ''a'' now @
     [EvCall b, EvBegin b, EvOpen b ''b'', EvContend b, EvRemove b] @
     [EvRegister a, EvListen a] @
     [EvCall c, EvBegin c] @ enter c ''c'' now"

lemmas lock_eval = idle_world_def enter_def createLockFile_def writeLockPayload_def readLockToken_def
  file_token_def file_pid_def set_live_def contend_def contend_async_def contend_sync_def
  readLockSnapshot_def lock_read_of_def lock_born_def parseCreatedAtFromLock_def lw_probe_def
  corpse_matches_def own_lock_def Let_def

text \<open>
  Outside that assumption exclusion fails within one process. A second asynchronous caller
  that runs before the first has registered its token takes the lock of the first for a left-over one and
  removes it; a synchronous caller then enters while the first is still inside.
\<close>

theorem same_turn_double_entry:
  assumes "cf_socket cf" and "cf_async cf a" and "cf_async cf b" and "\<not> cf_async cf c"
    and "a \<noteq> b" and "cf_pid cf a = cf_pid cf b" and "0 \<le> cf_staleMs cf"
  shows "\<exists>w. lock_run cf (same_turn a b c now) (idle_world now) = Some w \<and>
    lw_phase w a = Inside ''a'' \<and> lw_phase w c = Inside ''c''"
proof -
  have "a \<noteq> c" "b \<noteq> c" using assms(2-4) by auto
  then show ?thesis using assms by (simp add: same_turn_def lock_eval)
qed

definition small_lock_config :: "(nat \<Rightarrow> bool) \<Rightarrow> (nat \<Rightarrow> int) \<Rightarrow> nat lock_config" where
  "small_lock_config async pid =
     \<lparr> cf_pid = pid, cf_async = async, cf_staleMs = 30000, cf_socket = True, cf_hidden = {} \<rparr>"

theorem same_turn_double_entry_witness:
  "\<exists>w. lock_run (small_lock_config (\<lambda>c. c < 2) (\<lambda>_. 7)) (same_turn 0 1 2 100) (idle_world 100) = Some w \<and>
    lw_phase w 0 = Inside ''a'' \<and> lw_phase w 2 = Inside ''c''"
  by (rule same_turn_double_entry) (simp_all add: small_lock_config_def)

text \<open>
  \<open>b\<close> contends with \<open>a\<close>, who releases the lock before \<open>b\<close> reads it; \<open>b\<close> then tests a file that \<open>c\<close> has
  created and not yet written, and unlinks it after \<open>c\<close> has verified it.
\<close>

definition removal_window :: "'c \<Rightarrow> 'c \<Rightarrow> 'c \<Rightarrow> int \<Rightarrow> 'c lock_event list" where
  "removal_window a b c now =
     [EvCall a, EvBegin a] @ enter a ''a'' now @ [EvCall b, EvBegin b, EvOpen b ''x''] @
     [EvFinish a, EvRemove a] @ [EvContend b] @
     [EvCall c, EvBegin c, EvOpen c ''c''] @ [EvMatch b] @
     [EvWrite c (Stamp ''now'' (Some now)), EvVerify c] @ [EvUnlink b] @ enter b ''b'' now"

text \<open>
  Exclusion also fails between processes when a removal is interrupted: one that has tested a
  file just created by another process and not yet written unlinks it after the other has verified it, and
  both are inside.
\<close>

theorem removal_window_double_entry:
  assumes "\<not> cf_async cf a" and "\<not> cf_async cf b" and "\<not> cf_async cf c"
    and "a \<noteq> b" and "b \<noteq> c" and "a \<noteq> c" and "0 \<le> cf_staleMs cf"
  shows "\<exists>w. lock_run cf (removal_window a b c now) (idle_world now) = Some w \<and>
    lw_phase w b = Inside ''b'' \<and> lw_phase w c = Inside ''c''"
  using assms by (simp add: removal_window_def lock_eval)

theorem removal_window_double_entry_witness:
  "\<exists>w. lock_run (small_lock_config (\<lambda>_. False) int) (removal_window 1 2 3 100) (idle_world 100) = Some w \<and>
    lw_phase w 2 = Inside ''b'' \<and> lw_phase w 3 = Inside ''c''"
  by (rule removal_window_double_entry) (simp_all add: small_lock_config_def)

subsection \<open>Locks that are left behind\<close>

text \<open>The lock of a crashed process does not shut anyone out.\<close>

definition take_over :: "'c \<Rightarrow> string \<Rightarrow> string \<Rightarrow> int \<Rightarrow> 'c lock_event list" where
  "take_over c t u now = [EvCall c, EvBegin c, EvOpen c t, EvContend c, EvRemove c] @ enter c u now"

text \<open>
  The lock of a crashed process shuts nobody out: whatever the file says besides a dead process
  id, a live synchronous caller removes it at the first contention and enters with its own token.
\<close>

theorem dead_holder_taken_over:
  assumes "lw_phase w c = Outside" and "cf_pid cf c \<notin> lw_dead w" and "\<not> cf_async cf c" and "0 \<le> cf_staleMs cf"
    and "lw_file w = Some f" and "\<not> lf_symlink f" and "file_pid f = Some p" and "p \<in> lw_dead w"
    and "t \<notin> lw_used w" and "u \<notin> lw_used w"
  shows "\<exists>w'. lock_run cf (take_over c t u (lw_now w)) w = Some w' \<and> lw_phase w' c = Inside u"
  using assms by (simp add: take_over_def lock_eval)

definition crashed_world :: "nat lock_world" where
  "crashed_world = (idle_world 100)\<lparr>lw_dead := {5}, lw_used := {''old''},
     lw_file := Some \<lparr> lf_inode = ''old'', lf_symlink = False, lf_payload =
       Some \<lparr> lp_kind = LockRun, lp_pid = Some 5, lp_createdAt = None, lp_token = Some ''old'' \<rparr>, lf_mtime = 90 \<rparr>\<rparr>"

theorem dead_holder_taken_over_witness:
  "\<exists>w'. lock_run (small_lock_config (\<lambda>_. False) int) (take_over 1 ''t'' ''u'' 100) crashed_world = Some w' \<and>
    lw_phase w' 1 = Inside ''u''"
  using dead_holder_taken_over [of crashed_world 1 "small_lock_config (\<lambda>_. False) int" _ 5 "''t''" "''u''"]
  by (simp add: crashed_world_def idle_world_def small_lock_config_def file_pid_def)

text \<open>
  A sweep removes exactly the locks that are older than the staleness limit and whose recorded
  process cannot be signalled; a lock without a process id is left alone, and the removed paths are reported
  in order.
\<close>

theorem sweep_exact:
  "sweepStaleLocks files staleMs now probe =
     (let gone = (\<lambda>f. case f of None \<Rightarrow> False
          | Some g \<Rightarrow> staleMs < now - lock_born g \<and> (\<exists>p. file_pid g = Some p \<and> \<not> probe p))
      in (map (\<lambda>(p, f). (p, if gone f then None else f)) files, map fst (filter (gone \<circ> snd) files)))"
proof -
  have "sweep_lock f staleMs now probe =
      (let g = (case f of None \<Rightarrow> False
          | Some g \<Rightarrow> staleMs < now - lock_born g \<and> (\<exists>p. file_pid g = Some p \<and> \<not> probe p))
       in (if g then None else f, g))" for f
    by (auto simp: sweep_lock_def isLockStale_def isLockHolderAlive_def Let_def split: option.splits)
  then show ?thesis
    by (simp add: sweepStaleLocks_def Let_def comp_def case_prod_unfold)
qed

subsection \<open>Runs the exclusion theorems speak about\<close>

definition two_at_the_door :: "'c \<Rightarrow> 'c \<Rightarrow> int \<Rightarrow> 'c lock_event list" where
  "two_at_the_door a b now = [EvCall a, EvBegin a] @ enter a ''a'' now @ [EvRegister a, EvListen a] @
     [EvCall b, EvBegin b, EvOpen b ''b'', EvContend b]"

lemma promptI:
  "cf_hidden cf = {} \<Longrightarrow> (case lw_file w of None \<Rightarrow> True | Some f \<Rightarrow> lw_now w - lock_born f \<le> cf_staleMs cf) \<Longrightarrow>
   prompt cf w"
  by (auto simp: prompt_def)

lemma door_run:
  assumes "cf_socket cf" "cf_async cf a" "cf_async cf b" "cf_pid cf a = cf_pid cf b" "a \<noteq> b"
    "0 \<le> cf_staleMs cf" "cf_hidden cf = {}"
  shows "\<exists>w. lock_run cf (two_at_the_door a b now) (idle_world now) = Some w \<and> lw_phase w a = Inside ''a''"
    and "events_within (lock_step cf) (orderly cf) (two_at_the_door a b now) (idle_world now)"
  using assms by (simp_all add: two_at_the_door_def lock_eval promptI)

lemma small_door:
  "\<exists>w. lock_run (small_lock_config (\<lambda>_. True) (\<lambda>_. 7)) (two_at_the_door 0 1 100) (idle_world 100) = Some w \<and>
     lw_phase w 0 = Inside ''a''"
  "events_within (lock_step (small_lock_config (\<lambda>_. True) (\<lambda>_. 7)))
     (orderly (small_lock_config (\<lambda>_. True) (\<lambda>_. 7))) (two_at_the_door 0 1 100) (idle_world 100)"
  by (rule door_run; simp add: small_lock_config_def)+

theorem socket_exclusion_witness:
  "\<exists>w. lock_run (small_lock_config (\<lambda>_. True) (\<lambda>_. 7)) (two_at_the_door 0 1 100) (idle_world 100) = Some w \<and>
     {c. lw_phase w c = Inside ''a''} = {0}"
proof -
  obtain w where w: "lock_run (small_lock_config (\<lambda>_. True) (\<lambda>_. 7)) (two_at_the_door 0 1 100) (idle_world 100) = Some w"
    "lw_phase w 0 = Inside ''a''" using small_door(1) by blast
  have "c = 0" if "lw_phase w c = Inside ''a''" for c
    by (rule socket_exclusion [OF _ lock_start_idle w(1) _ _ that w(2)]) (simp_all add: small_lock_config_def)
  then show ?thesis using w by blast
qed

theorem file_lock_exclusion_witness:
  "\<exists>w. lock_run (small_lock_config (\<lambda>_. True) (\<lambda>_. 7)) (two_at_the_door 0 1 100) (idle_world 100) = Some w \<and>
     {c. holds (lw_phase w c) ''a''} = {0}"
proof -
  obtain w where w: "lock_run (small_lock_config (\<lambda>_. True) (\<lambda>_. 7)) (two_at_the_door 0 1 100) (idle_world 100) = Some w"
    "lw_phase w 0 = Inside ''a''" using small_door(1) by blast
  have h: "holds (lw_phase w 0) ''a''" using w(2) by simp
  have "c = 0" if "holds (lw_phase w c) ''a''" for c
    by (rule file_lock_exclusion [OF lock_start_idle small_door(2) w(1) that h])
  then show ?thesis using w(1) h by blast
qed

end
