(* ===== verification/Redaction.thy ===== *)
theory Redaction
  imports Json TaskIds
begin

text \<open>
  \<open>src/src/utils/redaction.ts\<close>: which keys and which texts are taken for secrets, and what the values
  that are written to durable files look like afterwards. Every pattern is a scan over the text that
  is given the character before the place it looks at. A character is one of the 256 codes of
  \<open>char\<close>.
\<close>

subsection \<open>Scanning a text\<close>

definition starts_with :: "string \<Rightarrow> string \<Rightarrow> bool" where
  "starts_with p s \<longleftrightarrow> take (length p) s = p"

fun includes_text :: "string \<Rightarrow> string \<Rightarrow> bool" where
  "includes_text p [] = (p = [])"
| "includes_text p (c # cs) = (starts_with p (c # cs) \<or> includes_text p cs)"

text \<open>\<open>toLowerCase\<close>, and \<open>toUpperCase\<close>, under which the sharp s becomes two letters.\<close>

definition lower_text :: "string \<Rightarrow> string" where
  "lower_text s = map lower_char s"

definition upper_char :: "char \<Rightarrow> string" where
  "upper_char c =
     (if of_char c = (223::nat) then ''SS''
      else if char_in 97 122 c \<or> char_in 224 254 c \<and> of_char c \<noteq> (247::nat)
      then [char_of (of_char c - 32 :: nat)] else [c])"

definition upper_text :: "string \<Rightarrow> string" where
  "upper_text s = concat (map upper_char s)"

definition alnum :: "char \<Rightarrow> bool" where
  "alnum c \<longleftrightarrow> is_letter c \<or> is_digit c"

definition alnum_under :: "char \<Rightarrow> bool" where
  "alnum_under c \<longleftrightarrow> alnum c \<or> c = CHR ''_''"

text \<open>\<open>isKeyChar\<close>, also the class \<open>[A-Za-z0-9_-]\<close>.\<close>

definition isKeyChar :: "char \<Rightarrow> bool" where
  "isKeyChar c \<longleftrightarrow> alnum c \<or> c = CHR ''_'' \<or> c = CHR ''-''"

definition upper_digit :: "char \<Rightarrow> bool" where
  "upper_digit c \<longleftrightarrow> is_digit c \<or> char_in 65 90 c"

text \<open>
  \<open>replace(/pattern/g, "***")\<close>: at every place, the pattern says how many characters it matches there.
\<close>

function replace_all :: "(char option \<Rightarrow> string \<Rightarrow> nat option) \<Rightarrow> char option \<Rightarrow> string \<Rightarrow> string" where
  "replace_all pat prev [] = []"
| "replace_all pat prev (c # cs) =
     (case pat prev (c # cs) of
        Some (Suc n) \<Rightarrow> ''***'' @ replace_all pat (Some (List.last (c # take n cs))) (drop n cs)
      | _ \<Rightarrow> c # replace_all pat (Some c) cs)"
  by pat_completeness auto
termination by (relation "measure (\<lambda>(_, _, s). length s)") auto

text \<open>A negative look-behind, and the run of a class at a place.\<close>

definition not_after :: "(char \<Rightarrow> bool) \<Rightarrow> char option \<Rightarrow> bool" where
  "not_after cls prev \<longleftrightarrow> (case prev of None \<Rightarrow> True | Some c \<Rightarrow> \<not> cls c)"

definition run_of :: "(char \<Rightarrow> bool) \<Rightarrow> string \<Rightarrow> nat" where
  "run_of cls s = length (takeWhile cls s)"

subsection \<open>The value patterns\<close>

text \<open>\<open>-----BEGIN [A-Z ]+PRIVATE KEY-----\<close> and its end line; a dash ends the class, so the run is whole.\<close>

definition pem_line :: "string \<Rightarrow> string \<Rightarrow> nat option" where
  "pem_line mark s =
     (let run = takeWhile (\<lambda>c. char_in 65 90 c \<or> c = CHR '' '') (drop (length mark) s)
      in if starts_with mark s \<and> 11 < length run \<and> drop (length run - 11) run = ''PRIVATE KEY'' \<and>
            starts_with ''-----'' (drop (length mark + length run) s)
         then Some (length mark + length run + 5) else None)"

text \<open>The shortest body of at most \<open>k\<close> characters before an end line, and the length with that line.\<close>

fun pem_body :: "nat \<Rightarrow> string \<Rightarrow> nat option" where
  "pem_body k s =
     (case pem_line ''-----END '' s of
        Some n \<Rightarrow> Some n
      | None \<Rightarrow> (case (k, s) of (Suc k', c # cs) \<Rightarrow> map_option Suc (pem_body k' cs) | _ \<Rightarrow> None))"

declare pem_body.simps [simp del]

definition PEM_PRIVATE_KEY_PATTERN :: "char option \<Rightarrow> string \<Rightarrow> nat option" where
  "PEM_PRIVATE_KEY_PATTERN prev s =
     (case pem_line ''-----BEGIN '' s of
        None \<Rightarrow> None
      | Some n \<Rightarrow> map_option (\<lambda>k. n + k) (pem_body 8192 (drop n s)))"

definition JWT_PATTERN :: "char option \<Rightarrow> string \<Rightarrow> nat option" where
  "JWT_PATTERN prev s =
     (let a = run_of isKeyChar (drop 3 s); s1 = drop (3 + a) s;
          b = run_of isKeyChar (drop 4 s1); s2 = drop (4 + b) s1;
          c = run_of isKeyChar (drop 1 s2)
      in if not_after isKeyChar prev \<and> starts_with ''eyJ'' s \<and> 0 < a \<and> starts_with ''.eyJ'' s1 \<and> 0 < b \<and>
            starts_with ''.'' s2 \<and> 0 < c
         then Some (3 + a + 4 + b + 1 + c) else None)"

definition GITHUB_PAT_PATTERN :: "char option \<Rightarrow> string \<Rightarrow> nat option" where
  "GITHUB_PAT_PATTERN prev s =
     (if not_after alnum_under prev \<and> list_ex (\<lambda>p. starts_with p s) [''ghp_'', ''gho_'', ''ghu_'', ''ghs_'', ''ghr_''] \<and>
         run_of alnum (drop 4 s) = 36
      then Some 40 else None)"

definition AWS_ACCESS_KEY_PATTERN :: "char option \<Rightarrow> string \<Rightarrow> nat option" where
  "AWS_ACCESS_KEY_PATTERN prev s =
     (if not_after alnum prev \<and> starts_with ''AKIA'' s \<and> run_of upper_digit (drop 4 s) = 16
      then Some 20 else None)"

definition SLACK_TOKEN_PATTERN :: "char option \<Rightarrow> string \<Rightarrow> nat option" where
  "SLACK_TOKEN_PATTERN prev s =
     (let n = run_of (\<lambda>c. alnum c \<or> c = CHR ''-'') (drop 5 s)
      in if not_after isKeyChar prev \<and>
            list_ex (\<lambda>p. starts_with p s) [''xoxb-'', ''xoxa-'', ''xoxp-'', ''xoxr-'', ''xoxs-''] \<and> 10 \<le> n
         then Some (5 + n) else None)"

definition GOOGLE_API_KEY_PATTERN :: "char option \<Rightarrow> string \<Rightarrow> nat option" where
  "GOOGLE_API_KEY_PATTERN prev s =
     (if not_after isKeyChar prev \<and> starts_with ''AIza'' s \<and> run_of isKeyChar (drop 4 s) = 35
      then Some 39 else None)"

definition STRIPE_KEY_PATTERN :: "char option \<Rightarrow> string \<Rightarrow> nat option" where
  "STRIPE_KEY_PATTERN prev s =
     (if not_after alnum_under prev \<and> starts_with ''sk_live_'' s \<and> 24 \<le> run_of alnum (drop 8 s)
      then Some 32 else None)"

text \<open>The patterns of the Anthropic and OpenAI keys differ in their prefix only.\<close>

definition prefixed_key :: "string \<Rightarrow> char option \<Rightarrow> string \<Rightarrow> nat option" where
  "prefixed_key p prev s =
     (let n = run_of isKeyChar (drop (length p) s)
      in if not_after isKeyChar prev \<and> starts_with p s \<and> 20 \<le> n then Some (length p + n) else None)"

definition ANTHROPIC_KEY_PATTERN :: "char option \<Rightarrow> string \<Rightarrow> nat option" where
  "ANTHROPIC_KEY_PATTERN = prefixed_key ''sk-ant-''"

definition OPENAI_PROJECT_KEY_PATTERN :: "char option \<Rightarrow> string \<Rightarrow> nat option" where
  "OPENAI_PROJECT_KEY_PATTERN = prefixed_key ''sk-proj-''"

definition OPENAI_KEY_PATTERN :: "char option \<Rightarrow> string \<Rightarrow> nat option" where
  "OPENAI_KEY_PATTERN = prefixed_key ''sk-''"

subsection \<open>Secret keys\<close>

definition TOKEN_COUNT_KEYS :: "string list" where
  "TOKEN_COUNT_KEYS = [''tokens'', ''prompt_tokens'', ''completion_tokens'', ''total_tokens'', ''cached_tokens'',
     ''reasoning_tokens'', ''cached_read_tokens'', ''cached_write_tokens'', ''input_tokens'', ''output_tokens'']"

definition secret_names :: "string list" where
  "secret_names = [''token'', ''apikey'', ''api_key'', ''password'', ''secret'', ''credential'', ''authorization'',
     ''privatekey'', ''private_key'']"

definition secret_keywords :: "string list" where
  "secret_keywords = [''token'', ''api'', ''key'', ''password'', ''passwd'', ''secret'', ''credential'',
     ''authorization'', ''private'']"

definition separator :: "char \<Rightarrow> bool" where
  "separator c \<longleftrightarrow> c \<in> {CHR ''_'', CHR ''.'', CHR ''-''}"

text \<open>A keyword after a separator at \<open>i\<close>, and a keyword at \<open>idx\<close> that stands on a word boundary.\<close>

definition separated_keyword :: "string \<Rightarrow> nat \<Rightarrow> bool" where
  "separated_keyword keyName i \<longleftrightarrow> separator (keyName ! i) \<and>
     list_ex (\<lambda>kw. let rest = drop (i + 1) (lower_text keyName); after = drop (length kw) rest
       in starts_with kw rest \<and> (case after of [] \<Rightarrow> True | c # _ \<Rightarrow> separator c \<or> alnum c)) secret_keywords"

definition keyword_at :: "string \<Rightarrow> string \<Rightarrow> nat \<Rightarrow> bool" where
  "keyword_at keyName kw idx \<longleftrightarrow>
     (let lower = lower_text keyName; afterIdx = idx + length kw; n = length keyName
      in starts_with kw (drop idx lower) \<and>
         (idx = 0 \<or> afterIdx = n \<or> char_in 65 90 (keyName ! afterIdx) \<or>
          separator (lower ! (idx - 1)) \<or> separator (lower ! afterIdx)) \<and>
         (0 < idx \<or> afterIdx < n))"

definition isSecretKey :: "string \<Rightarrow> bool" where
  "isSecretKey keyName =
     (if lower_text keyName \<in> set TOKEN_COUNT_KEYS then False
      else if lower_text keyName \<in> set secret_names then True
      else if list_ex (separated_keyword keyName) [0..<length keyName] then True
      else list_ex (\<lambda>kw. list_ex (keyword_at keyName kw) [0..<length keyName]) secret_keywords)"

subsection \<open>Headers and inline secrets\<close>

definition isAuthHeaderBoundary :: "char \<Rightarrow> bool" where
  "isAuthHeaderBoundary c \<longleftrightarrow>
     c \<in> {CHR '' '', CHR '','', CHR ''{'', CHR ''['', CHR 0x22, CHR 0x0D, CHR 0x0A, CHR ''-'', CHR 0x09}"

definition line_break :: "char \<Rightarrow> bool" where
  "line_break c \<longleftrightarrow> c = CHR 0x0D \<or> c = CHR 0x0A"

text \<open>\<open>prev\<close> is the character before the rest that is still to be scanned.\<close>

function redactAuthHeader :: "char option \<Rightarrow> string \<Rightarrow> string" where
  "redactAuthHeader prev [] = []"
| "redactAuthHeader prev (c # cs) =
     (if starts_with ''authorization:'' (lower_text (c # cs)) then
        let name = take 14 (c # cs); rest = drop 14 (c # cs)
        in if (case prev of None \<Rightarrow> True | Some p \<Rightarrow> isAuthHeaderBoundary p) \<and>
              \<not> starts_with ''bearer '' (dropWhile js_space (lower_text rest))
           then name @ '' ***'' @
                redactAuthHeader (Some (List.last (name @ takeWhile (\<lambda>c. \<not> line_break c) rest)))
                  (dropWhile (\<lambda>c. \<not> line_break c) rest)
           else name @ redactAuthHeader (Some (List.last name)) rest
      else c # redactAuthHeader (Some c) cs)"
  by pat_completeness auto
termination
  by (relation "measure (\<lambda>(_, s). length s)") (auto simp: le_imp_less_Suc intro: le_less_trans [OF length_dropWhile_le])

definition bearer_char :: "char \<Rightarrow> bool" where
  "bearer_char c \<longleftrightarrow> alnum c \<or> c \<in> set ''._~+/-''"

text \<open>\<open>up\<close> is what is left of the upper-case text at the same index, which need not be the same place.\<close>

function redactBearerTokens :: "char option \<Rightarrow> string \<Rightarrow> string \<Rightarrow> string" where
  "redactBearerTokens prev up [] = []"
| "redactBearerTokens prev up (c # cs) =
     (let tokenLen = run_of bearer_char (take 200 (drop 7 (c # cs)))
      in if starts_with ''BEARER '' up \<and> (case prev of None \<Rightarrow> True | Some p \<Rightarrow> isAuthHeaderBoundary p) \<and> 8 \<le> tokenLen
         then take 7 (c # cs) @ ''***'' @
              redactBearerTokens (Some (List.last (take (7 + tokenLen) (c # cs)))) (drop (7 + tokenLen) up)
                (drop (7 + tokenLen) (c # cs))
         else c # redactBearerTokens (Some c) (drop 1 up) cs)"
  by pat_completeness auto
termination by (relation "measure (\<lambda>(_, _, s). length s)") auto

definition inline_value_char :: "char \<Rightarrow> bool" where
  "inline_value_char c \<longleftrightarrow> c \<notin> {CHR '' '', CHR '','', CHR '';'', CHR 0x22, CHR 0x0D, CHR 0x0A}"

function redactInlineSecrets :: "string \<Rightarrow> string" where
  "redactInlineSecrets [] = []"
| "redactInlineSecrets (c # cs) =
     (let key = takeWhile isKeyChar (c # cs); rest = dropWhile isKeyChar (c # cs);
          val = takeWhile inline_value_char (take 500 (drop 1 rest))
      in if key = [] then c # redactInlineSecrets cs
         else if rest \<noteq> [] \<and> hd rest \<in> {CHR ''='', CHR '':''} \<and> isSecretKey key \<and> val \<noteq> []
         then key @ hd rest # ''***'' @ redactInlineSecrets (drop (1 + length val) rest)
         else key @ redactInlineSecrets rest)"
  by pat_completeness auto
termination
  by (relation "measure length")
    (auto simp: le_imp_less_Suc length_dropWhile_le
      intro: le_less_trans [OF length_dropWhile_le] le_imp_less_Suc le_trans [OF diff_le_self length_dropWhile_le] split: if_splits)

subsection \<open>Values\<close>

definition SECRET_MARKERS_CASE_SENSITIVE :: "string list" where
  "SECRET_MARKERS_CASE_SENSITIVE = [''-----BEGIN'', ''eyJ'', ''AKIA'', ''AIza'', ''sk_live_'', ''xox'', ''sk-ant-'',
     ''sk-proj-'', ''ghp_'', ''gho_'', ''ghu_'', ''ghs_'', ''ghr_'']"

definition SECRET_MARKERS_LOWER :: "string list" where
  "SECRET_MARKERS_LOWER = [''bearer'', ''authorization'', ''token'', ''api'', ''key'', ''password'', ''passwd'',
     ''secret'', ''credential'', ''private'']"

definition mayContainSecret :: "string \<Rightarrow> bool" where
  "mayContainSecret v \<longleftrightarrow> list_ex (\<lambda>m. includes_text m v) SECRET_MARKERS_CASE_SENSITIVE \<or>
     list_ex (\<lambda>m. includes_text m (lower_text v)) SECRET_MARKERS_LOWER"

text \<open>The begin marker cannot overlap itself, so its places are the parts \<open>split\<close> counts.\<close>

fun marker_count :: "string \<Rightarrow> string \<Rightarrow> nat" where
  "marker_count p [] = 0"
| "marker_count p (c # cs) = (if starts_with p (c # cs) then 1 else 0) + marker_count p cs"

definition redactSecretString :: "string \<Rightarrow> string" where
  "redactSecretString v =
     (if \<not> mayContainSecret v then v
      else
        let pem = (if length v \<le> 2000000 \<and> marker_count ''-----BEGIN'' v \<le> 100
                   then replace_all PEM_PRIVATE_KEY_PATTERN None v else v);
            auth = redactAuthHeader None pem;
            bearer = redactBearerTokens None (upper_text auth) auth;
            tokens = foldl (\<lambda>s pat. replace_all pat None s) bearer
              [JWT_PATTERN, GITHUB_PAT_PATTERN, AWS_ACCESS_KEY_PATTERN, SLACK_TOKEN_PATTERN,
               GOOGLE_API_KEY_PATTERN, STRIPE_KEY_PATTERN, ANTHROPIC_KEY_PATTERN, OPENAI_PROJECT_KEY_PATTERN,
               OPENAI_KEY_PATTERN]
        in redactInlineSecrets tokens)"

text \<open>
  \<open>redactSecrets(value, keyName)\<close> of a JSON value. A property named \<open>__proto__\<close> is not copied: the
  assignment sets the prototype of the new object.
\<close>

fun redactSecrets :: "string \<Rightarrow> json \<Rightarrow> json" where
  "redactSecrets keyName v =
     (if keyName \<noteq> [] \<and> isSecretKey keyName then JStr ''***''
      else case v of
          JStr s \<Rightarrow> JStr (redactSecretString s)
        | JArr xs \<Rightarrow> JArr (map (redactSecrets []) xs)
        | JObj m \<Rightarrow> JObj (map (\<lambda>(k, e). (k, redactSecrets k e)) (filter (\<lambda>(k, e). k \<noteq> ''__proto__'') m))
        | _ \<Rightarrow> v)"

declare redactSecrets.simps [simp del]

subsection \<open>What is kept and what is hidden\<close>

lemma starts_with_includes: "starts_with p (drop i s) \<Longrightarrow> includes_text p s"
proof (induction s arbitrary: i)
  case (Cons c cs)
  then show ?case by (cases i) auto
qed (simp add: starts_with_def)

lemma not_secret_key:
  assumes "list_all (\<lambda>kw. \<not> includes_text kw (lower_text k)) secret_keywords"
  shows "\<not> isSecretKey k"
proof -
  have no: "\<not> starts_with kw (drop i (lower_text k))" if "kw \<in> set secret_keywords" for kw i
    using assms that starts_with_includes by (auto simp: list_all_iff)
  have "list_all (\<lambda>n. list_ex (\<lambda>kw. includes_text kw n) secret_keywords) secret_names" by code_simp
  then have "lower_text k \<notin> set secret_names" using assms by (auto simp: list_all_iff list_ex_iff)
  moreover have "\<not> separated_keyword k i" for i
    using no [of _ "i + 1"] by (auto simp: separated_keyword_def list_ex_iff Let_def)
  moreover have "\<not> keyword_at k kw i" if "kw \<in> set secret_keywords" for kw i
    using no [OF that] by (auto simp: keyword_at_def Let_def)
  ultimately show ?thesis by (auto simp: isSecretKey_def list_ex_iff)
qed

lemma redactSecretString_plain: "\<not> mayContainSecret v \<Longrightarrow> redactSecretString v = v"
  by (simp add: redactSecretString_def)

lemma redactSecrets_JStr: "\<not> isSecretKey k \<Longrightarrow> redactSecrets k (JStr s) = JStr (redactSecretString s)"
  by (simp add: redactSecrets.simps)

lemma redactSecrets_jobject:
  assumes "''__proto__'' \<notin> fst ` set kvs"
  shows "redactSecrets [] (jobject kvs) = jobject (map (\<lambda>(k, v). (k, map_option (redactSecrets k) v)) kvs)"
proof -
  let ?put = "\<lambda>(k, v). map_option (Pair k) v"
  have "filter (\<lambda>(k, e). k \<noteq> ''__proto__'') (List.map_filter ?put kvs) = List.map_filter ?put kvs"
    using assms by (force simp: filter_id_conv set_map_filter)
  moreover have "map (\<lambda>(k, e). (k, redactSecrets k e)) (List.map_filter ?put kvs) =
      List.map_filter ?put (map (\<lambda>(k, v). (k, map_option (redactSecrets k) v)) kvs)"
    by (induction kvs) (auto simp: List.map_filter_simps split: option.splits)
  ultimately show ?thesis by (simp add: jobject_def redactSecrets.simps [of "[]" "JObj _"])
qed

text \<open>
  A property with a secret key never shows its value, however deep it is nested, and the other keys stay.
\<close>

lemma secret_property_hidden:
  assumes "redactSecrets k (JObj m) = JObj m'" and "(key, v) \<in> set m'"
  shows "if isSecretKey key \<and> key \<noteq> [] then v = JStr ''***'' else \<exists>e. (key, e) \<in> set m \<and> v = redactSecrets key e"
proof (cases "k \<noteq> [] \<and> isSecretKey k")
  case True
  then show ?thesis using assms by (simp add: redactSecrets.simps [of k])
next
  case False
  then have "m' = map (\<lambda>(k, e). (k, redactSecrets k e)) (filter (\<lambda>(k, e). k \<noteq> ''__proto__'') m)"
    using assms(1) by (subst (asm) redactSecrets.simps) (simp split: if_splits)
  then obtain e where "(key, e) \<in> set m" "v = redactSecrets key e" using assms(2) by auto
  then show ?thesis by (auto simp: redactSecrets.simps [of key])
qed

text \<open>The passes over a text that may contain a secret and is not too long for the search for keys.\<close>

definition redact_passes :: "string \<Rightarrow> string" where
  "redact_passes v =
     (let auth = redactAuthHeader None (replace_all PEM_PRIVATE_KEY_PATTERN None v)
      in redactInlineSecrets (foldl (\<lambda>s pat. replace_all pat None s) (redactBearerTokens None (upper_text auth) auth)
        [JWT_PATTERN, GITHUB_PAT_PATTERN, AWS_ACCESS_KEY_PATTERN, SLACK_TOKEN_PATTERN, GOOGLE_API_KEY_PATTERN,
         STRIPE_KEY_PATTERN, ANTHROPIC_KEY_PATTERN, OPENAI_PROJECT_KEY_PATTERN, OPENAI_KEY_PATTERN]))"

lemma redact_passes:
  "mayContainSecret v \<Longrightarrow> length v \<le> 2000000 \<Longrightarrow> marker_count ''-----BEGIN'' v = 0 \<Longrightarrow>
   redactSecretString v = redact_passes v"
  by (simp add: redactSecretString_def redact_passes_def Let_def)

text \<open>
  The search for bearer tokens compares the upper-case text at the index of the original. After a sharp s
  the upper-case text is one longer, so the token behind it is found nowhere and stays.
\<close>

theorem bearer_after_sharp_s_kept:
  "redactSecretString ''a Bearer abcdefgh'' = ''a Bearer ***'' \<and>
   redactSecretString (CHR 0xDF # '' Bearer abcdefgh'') = CHR 0xDF # '' Bearer abcdefgh''"
proof
  have "mayContainSecret ''a Bearer abcdefgh''" "mayContainSecret (CHR 0xDF # '' Bearer abcdefgh'')"
    "marker_count ''-----BEGIN'' ''a Bearer abcdefgh'' = 0"
    "marker_count ''-----BEGIN'' (CHR 0xDF # '' Bearer abcdefgh'') = 0" by code_simp+
  then have r: "redactSecretString ''a Bearer abcdefgh'' = redact_passes ''a Bearer abcdefgh''"
    "redactSecretString (CHR 0xDF # '' Bearer abcdefgh'') = redact_passes (CHR 0xDF # '' Bearer abcdefgh'')"
    by (auto intro: redact_passes)
  show "redactSecretString ''a Bearer abcdefgh'' = ''a Bearer ***''" unfolding r by code_simp
  show "redactSecretString (CHR 0xDF # '' Bearer abcdefgh'') = CHR 0xDF # '' Bearer abcdefgh''"
    unfolding r by code_simp
qed

lemma inline_token_hidden: "redactSecretString ''token:1'' = ''token:***''"
proof -
  have "mayContainSecret ''token:1''" "marker_count ''-----BEGIN'' ''token:1'' = 0" by code_simp+
  then have r: "redactSecretString ''token:1'' = redact_passes ''token:1''" by (auto intro: redact_passes)
  show ?thesis unfolding r by code_simp
qed

end
