(* ===== verification/Mailbox.thy ===== *)
theory Mailbox
  imports Redaction "HOL-Library.List_Lexorder" "HOL-Library.Char_ord"
begin

text \<open>
  The durable mailbox of a run, \<open>src/src/state/coordination/mailbox.ts\<close>: messages and their JSON
  form, the live file and the archives of a mailbox, the delivery state, and every operation on them.
  An operation under a file lock is one step. Signatures are a bit of a row that says whether one of
  the trusted keys verifies it; path checks, caches and log lines are left out. A row is written after
  \<open>redactSecrets\<close>. The operations on files take the message as it is stored, after the redaction:
  they are modelled for ids, request ids and task names that the redaction leaves as they are. The
  redaction of the delivery file hides at most values of request ids, of which only the keys are used.
\<close>

subsection \<open>Messages\<close>

datatype mailbox_direction = Inbox | Outbox

datatype mailbox_status = MQueued | MDelivered | MAcknowledged

datatype mailbox_kind = KMessage | KNotify | KSteer | KFollowUp | KResponse | KGroupJoin

datatype mailbox_priority = PUrgent | PNormal | PLow

datatype delivery_mode = Interrupt | NextTurn

datatype mailbox_reason = NeedDecision | ProgressUpdate | InterviewRequest

fun direction_str :: "mailbox_direction \<Rightarrow> string" where
  "direction_str Inbox = ''inbox''"
| "direction_str Outbox = ''outbox''"

fun status_str :: "mailbox_status \<Rightarrow> string" where
  "status_str MQueued = ''queued''"
| "status_str MDelivered = ''delivered''"
| "status_str MAcknowledged = ''acknowledged''"

fun kind_str :: "mailbox_kind \<Rightarrow> string" where
  "kind_str KMessage = ''message''"
| "kind_str KNotify = ''notify''"
| "kind_str KSteer = ''steer''"
| "kind_str KFollowUp = ''follow-up''"
| "kind_str KResponse = ''response''"
| "kind_str KGroupJoin = ''group_join''"

fun priority_str :: "mailbox_priority \<Rightarrow> string" where
  "priority_str PUrgent = ''urgent''"
| "priority_str PNormal = ''normal''"
| "priority_str PLow = ''low''"

fun mode_str :: "delivery_mode \<Rightarrow> string" where
  "mode_str Interrupt = ''interrupt''"
| "mode_str NextTurn = ''next_turn''"

fun reason_str :: "mailbox_reason \<Rightarrow> string" where
  "reason_str NeedDecision = ''need_decision''"
| "reason_str ProgressUpdate = ''progress_update''"
| "reason_str InterviewRequest = ''interview_request''"

text \<open>The type guards: the constructor whose name a value is.\<close>

definition named :: "('a \<Rightarrow> string) \<Rightarrow> 'a list \<Rightarrow> json option \<Rightarrow> 'a option" where
  "named nm xs v = Option.bind (jstring v) (\<lambda>s. find (\<lambda>x. nm x = s) xs)"

definition isDirection :: "json option \<Rightarrow> mailbox_direction option" where
  "isDirection = named direction_str [Inbox, Outbox]"

definition isStatus :: "json option \<Rightarrow> mailbox_status option" where
  "isStatus = named status_str [MQueued, MDelivered, MAcknowledged]"

definition isKind :: "json option \<Rightarrow> mailbox_kind option" where
  "isKind = named kind_str [KMessage, KNotify, KSteer, KFollowUp, KResponse, KGroupJoin]"

definition isPriority :: "json option \<Rightarrow> mailbox_priority option" where
  "isPriority = named priority_str [PUrgent, PNormal, PLow]"

definition isDeliveryMode :: "json option \<Rightarrow> delivery_mode option" where
  "isDeliveryMode = named mode_str [Interrupt, NextTurn]"

definition isReason :: "json option \<Rightarrow> mailbox_reason option" where
  "isReason = named reason_str [NeedDecision, ProgressUpdate, InterviewRequest]"

record mailbox_message =
  mm_id :: string
  mm_runId :: string
  mm_direction :: mailbox_direction
  mm_from :: string
  mm_to :: string
  mm_body :: string
  mm_createdAt :: string
  mm_status :: mailbox_status
  mm_kind :: "mailbox_kind option"
  mm_priority :: "mailbox_priority option"
  mm_deliveryMode :: "delivery_mode option"
  mm_taskId :: "string option"
  mm_questionId :: "string option"
  mm_requestId :: "string option"
  mm_acknowledgedAt :: "string option"
  mm_data :: "(string \<times> json) list option"
  mm_reason :: "mailbox_reason option"
  mm_replyTo :: "string option"
  mm_replyFrom :: "string option"
  mm_replyDeadline :: "jsnum option"
  mm_repliedAt :: "string option"
  mm_replyContent :: "string option"

definition parseMailboxMessage :: "json \<Rightarrow> mailbox_direction \<Rightarrow> mailbox_message option" where
  "parseMailboxMessage raw expectedDirection =
     (let obj = Some raw; data = jfield obj ''data''
      in case (is_record obj, jstring (jfield obj ''id''), jstring (jfield obj ''runId''),
               isDirection (jfield obj ''direction''), jstring (jfield obj ''from''), jstring (jfield obj ''to''),
               jstring (jfield obj ''body''), jstring (jfield obj ''createdAt''), isStatus (jfield obj ''status'')) of
          (True, Some i, Some r, Some d, Some f, Some t, Some b, Some c, Some s) \<Rightarrow>
            if d \<noteq> expectedDirection then None
            else Some \<lparr> mm_id = i, mm_runId = r, mm_direction = d, mm_from = f, mm_to = t, mm_body = b,
              mm_createdAt = c, mm_status = s,
              mm_kind = (case isKind (jfield obj ''kind'') of Some k \<Rightarrow> Some k
                         | None \<Rightarrow> if is_record data then isKind (jfield data ''kind'') else None),
              mm_priority = isPriority (jfield obj ''priority''),
              mm_deliveryMode = isDeliveryMode (jfield obj ''deliveryMode''),
              mm_taskId = jstring (jfield obj ''taskId''),
              mm_questionId = jstring (jfield obj ''questionId''),
              mm_requestId = jstring (jfield obj ''requestId''),
              mm_acknowledgedAt = jstring (jfield obj ''acknowledgedAt''),
              mm_data = (case data of Some (JObj m) \<Rightarrow> Some m | _ \<Rightarrow> None),
              mm_reason = isReason (jfield obj ''reason''),
              mm_replyTo = jstring (jfield obj ''replyTo''),
              mm_replyFrom = jstring (jfield obj ''replyFrom''),
              mm_replyDeadline = jnumber (jfield obj ''replyDeadline''),
              mm_repliedAt = jstring (jfield obj ''repliedAt''),
              mm_replyContent = jstring (jfield obj ''replyContent'') \<rparr>
        | _ \<Rightarrow> None)"

definition finite_only :: "jsnum option \<Rightarrow> jsnum option" where
  "finite_only v = Option.bind v (\<lambda>n. if is_finite n then Some n else None)"

text \<open>The properties of a message object, and the row of a message that is stored as it is.\<close>

definition message_fields :: "mailbox_message \<Rightarrow> (string \<times> json option) list" where
  "message_fields m =
     [(''id'', Some (JStr (mm_id m))), (''runId'', Some (JStr (mm_runId m))),
      (''direction'', Some (JStr (direction_str (mm_direction m)))), (''from'', Some (JStr (mm_from m))),
      (''to'', Some (JStr (mm_to m))), (''body'', Some (JStr (mm_body m))),
      (''createdAt'', Some (JStr (mm_createdAt m))), (''status'', Some (JStr (status_str (mm_status m)))),
      (''kind'', map_option (JStr \<circ> kind_str) (mm_kind m)),
      (''priority'', map_option (JStr \<circ> priority_str) (mm_priority m)),
      (''deliveryMode'', map_option (JStr \<circ> mode_str) (mm_deliveryMode m)),
      (''taskId'', map_option JStr (mm_taskId m)), (''reason'', map_option (JStr \<circ> reason_str) (mm_reason m)),
      (''questionId'', map_option JStr (mm_questionId m)), (''requestId'', map_option JStr (mm_requestId m)),
      (''acknowledgedAt'', map_option JStr (mm_acknowledgedAt m)), (''data'', map_option JObj (mm_data m)),
      (''replyTo'', map_option JStr (mm_replyTo m)), (''replyFrom'', map_option JStr (mm_replyFrom m)),
      (''replyDeadline'', map_option JNum (mm_replyDeadline m)),
      (''repliedAt'', map_option JStr (mm_repliedAt m)), (''replyContent'', map_option JStr (mm_replyContent m))]"

definition message_row :: "mailbox_message \<Rightarrow> string \<Rightarrow> json" where
  "message_row m sig =
     jobject (map (\<lambda>(k, v). (k, map_option stringified v)) (message_fields m) @ [(''sig'', Some (JStr sig))])"

text \<open>The row that \<open>serializeMailboxRow\<close> writes: the redacted object, with the signature \<open>sig\<close> of it.\<close>

definition serializeMailboxRow :: "mailbox_message \<Rightarrow> string \<Rightarrow> json" where
  "serializeMailboxRow m sig =
     (case redactSecrets [] (jobject (message_fields m)) of
        JObj prepared \<Rightarrow> stringified (JObj (prepared @ [(''sig'', JStr sig)]))
      | v \<Rightarrow> v)"

text \<open>
  What the redaction makes of a message: every text goes through \<open>redactSecretString\<close>, and in the data
  the values of secret keys are hidden.
\<close>

definition redactMessage :: "mailbox_message \<Rightarrow> mailbox_message" where
  "redactMessage m = m\<lparr>mm_id := redactSecretString (mm_id m), mm_runId := redactSecretString (mm_runId m),
     mm_from := redactSecretString (mm_from m), mm_to := redactSecretString (mm_to m),
     mm_body := redactSecretString (mm_body m), mm_createdAt := redactSecretString (mm_createdAt m),
     mm_taskId := map_option redactSecretString (mm_taskId m),
     mm_questionId := map_option redactSecretString (mm_questionId m),
     mm_requestId := map_option redactSecretString (mm_requestId m),
     mm_acknowledgedAt := map_option redactSecretString (mm_acknowledgedAt m),
     mm_data := map_option (\<lambda>d. map (\<lambda>(k, e). (k, redactSecrets k e)) (filter (\<lambda>(k, e). k \<noteq> ''__proto__'') d))
       (mm_data m),
     mm_replyTo := map_option redactSecretString (mm_replyTo m),
     mm_replyFrom := map_option redactSecretString (mm_replyFrom m),
     mm_repliedAt := map_option redactSecretString (mm_repliedAt m),
     mm_replyContent := map_option redactSecretString (mm_replyContent m)\<rparr>"

lemma field_names_plain:
  "list_all (\<lambda>k. let l = lower_text k in list_all (\<lambda>kw. \<not> includes_text kw l) secret_keywords)
     (map fst (message_fields m))"
  unfolding message_fields_def list.map fst_conv by code_simp

lemma field_not_secret: "k \<in> fst ` set (message_fields m) \<Longrightarrow> \<not> isSecretKey k"
  using field_names_plain [of m] by (intro not_secret_key) (auto simp: list_all_iff Let_def)

lemma names_plain:
  "redactSecretString (direction_str d) = direction_str d" "redactSecretString (status_str s) = status_str s"
  "redactSecretString (kind_str k) = kind_str k" "redactSecretString (priority_str p) = priority_str p"
  "redactSecretString (mode_str dm) = mode_str dm" "redactSecretString (reason_str r) = reason_str r"
proof -
  have n: "list_all (\<lambda>w. \<not> mayContainSecret w)
      (map direction_str [Inbox, Outbox] @ map status_str [MQueued, MDelivered, MAcknowledged] @
       map kind_str [KMessage, KNotify, KSteer, KFollowUp, KResponse, KGroupJoin] @
       map priority_str [PUrgent, PNormal, PLow] @ map mode_str [Interrupt, NextTurn] @
       map reason_str [NeedDecision, ProgressUpdate, InterviewRequest])" by code_simp
  show "redactSecretString (direction_str d) = direction_str d" using n by (cases d) (simp_all add: redactSecretString_plain)
  show "redactSecretString (status_str s) = status_str s" using n by (cases s) (simp_all add: redactSecretString_plain)
  show "redactSecretString (kind_str k) = kind_str k" using n by (cases k) (simp_all add: redactSecretString_plain)
  show "redactSecretString (priority_str p) = priority_str p" using n by (cases p) (simp_all add: redactSecretString_plain)
  show "redactSecretString (mode_str dm) = mode_str dm" using n by (cases dm) (simp_all add: redactSecretString_plain)
  show "redactSecretString (reason_str r) = reason_str r" using n by (cases r) (simp_all add: redactSecretString_plain)
qed

text \<open>The kind of a message: its own, or the one in its data.\<close>

definition data_field :: "mailbox_message \<Rightarrow> string \<Rightarrow> json option" where
  "data_field m k = Option.bind (mm_data m) (\<lambda>d. map_of d k)"

lemma named_simps [simp]:
  "isDirection (Some (JStr (direction_str d))) = Some d"
  "isStatus (Some (JStr (status_str s))) = Some s"
  "isKind (Some (JStr (kind_str k))) = Some k"
  "isPriority (Some (JStr (priority_str p))) = Some p"
  "isDeliveryMode (Some (JStr (mode_str dm))) = Some dm"
  "isReason (Some (JStr (reason_str r))) = Some r"
  by (cases d; simp add: isDirection_def named_def)
    (cases s; simp add: isStatus_def named_def
    | cases k; simp add: isKind_def named_def
    | cases p; simp add: isPriority_def named_def
    | cases dm; simp add: isDeliveryMode_def named_def
    | cases r; simp add: isReason_def named_def)+

lemma named_None [simp]:
  "isKind None = None" "isPriority None = None" "isDeliveryMode None = None" "isReason None = None"
  by (simp_all add: isKind_def isPriority_def isDeliveryMode_def isReason_def named_def)

lemma isKind_stringified [simp]: "isKind (map_option stringified v) = isKind v"
  by (simp add: isKind_def named_def)

lemma is_record_row [simp]: "is_record (Some (message_row m sig))"
  by (simp add: message_row_def)

lemma serialize_redacted: "serializeMailboxRow m sig = message_row (redactMessage m) sig"
proof -
  have "''__proto__'' \<notin> fst ` set (message_fields m)" by (simp add: message_fields_def)
  then have r: "redactSecrets [] (jobject (message_fields m)) =
      jobject (map (\<lambda>(k, v). (k, map_option (redactSecrets k) v)) (message_fields m))"
    by (rule redactSecrets_jobject)
  have k: "\<not> isSecretKey k" if "k \<in> fst ` set (message_fields m)" for k using field_not_secret that .
  have "map (\<lambda>(k, v). (k, map_option (redactSecrets k) v)) (message_fields m) = message_fields (redactMessage m)"
    using k by (auto simp: message_fields_def redactMessage_def redactSecrets_JStr names_plain option.map_comp comp_def
        redactSecrets.simps [of _ "JObj _"] redactSecrets.simps [of _ "JNum _"])
  then have p: "redactSecrets [] (jobject (message_fields m)) =
      JObj (List.map_filter (\<lambda>(k, v). map_option (Pair k) v) (message_fields (redactMessage m)))"
    unfolding r by (simp add: jobject_def)
  have "stringified (JObj (List.map_filter (\<lambda>(k, v). map_option (Pair k) v) kvs @ [(s, JStr x)])) =
      jobject (map (\<lambda>(k, v). (k, map_option stringified v)) kvs @ [(s, Some (JStr x))])" for kvs s x
    by (induction kvs) (auto simp: jobject_def List.map_filter_simps split: option.splits)
  then show ?thesis unfolding serializeMailboxRow_def p json.case message_row_def .
qed

lemma parse_message_row:
  "parseMailboxMessage (message_row m sig) d =
     (if mm_direction m = d
      then Some (m\<lparr>mm_kind := (case mm_kind m of Some k \<Rightarrow> Some k | None \<Rightarrow> isKind (data_field m ''kind'')),
                   mm_data := map_option (map (\<lambda>(k, v). (k, stringified v))) (mm_data m),
                   mm_replyDeadline := finite_only (mm_replyDeadline m)\<rparr>)
      else None)"
proof -
  define R where "R = message_row m sig"
  have fld: "jfield (Some R) k = Option.bind (map_of
     (map (\<lambda>(k, v). (k, map_option stringified v)) (message_fields m) @ [(''sig'', Some (JStr sig))]) k) id" for k
    unfolding R_def message_row_def by (rule jfield_jobject) (simp add: message_fields_def)
  note fld = fld [unfolded message_fields_def list.map prod.case append.simps]
  have opts: "isPriority (map_option (JStr \<circ> priority_str) p) = p" "isDeliveryMode (map_option (JStr \<circ> mode_str) dm) = dm"
    "isReason (map_option (JStr \<circ> reason_str) r) = r" "jstring (map_option JStr s) = s"
    "map_option stringified (map_option JStr s) = map_option JStr s"
    "map_option stringified (map_option (JStr \<circ> priority_str) p) = map_option (JStr \<circ> priority_str) p"
    "map_option stringified (map_option (JStr \<circ> mode_str) dm) = map_option (JStr \<circ> mode_str) dm"
    "map_option stringified (map_option (JStr \<circ> reason_str) r) = map_option (JStr \<circ> reason_str) r" for p dm r s
    by (cases p; cases dm; cases r; cases s; simp)+
  have num: "jnumber (map_option stringified (map_option JNum n)) = finite_only n" for n
    by (cases n) (simp_all add: finite_only_def)
  have rec: "is_record (Some R)" by (simp add: R_def)
  show ?thesis unfolding R_def [symmetric] using fld rec
    by (cases m; cases "mm_kind m"; cases "mm_data m") (simp_all add: parseMailboxMessage_def Let_def opts num data_field_def)
qed


text \<open>
  A message whose texts hold nothing that looks like a secret is stored as it is.
\<close>

lemma plain_message_kept:
  assumes "\<forall>s\<in>{mm_id m, mm_runId m, mm_from m, mm_to m, mm_body m, mm_createdAt m} \<union>
      \<Union> (set_option ` {mm_taskId m, mm_questionId m, mm_requestId m, mm_acknowledgedAt m, mm_replyTo m,
        mm_replyFrom m, mm_repliedAt m, mm_replyContent m}). \<not> mayContainSecret s"
    and "mm_data m = None"
  shows "redactMessage m = m"
proof -
  have o: "map_option redactSecretString x = x" if "\<forall>s\<in>set_option x. \<not> mayContainSecret s" for x
    using that by (cases x) (simp_all add: redactSecretString_plain)
  show ?thesis
    using assms by (simp add: redactMessage_def redactSecretString_plain o del: map_option_eq_Some)
qed

subsection \<open>Files, archives and delivery state\<close>

text \<open>
  A line of a mailbox file: its JSON value, if it is one, and whether a trusted key verifies its
  signature. The archives are in the order of their names, oldest first.
\<close>

record mailbox_row =
  mr_json :: "json option"
  mr_verified :: bool

record mailbox_file =
  mf_live :: "mailbox_row list"
  mf_archives :: "mailbox_row list list"

record delivery_state =
  dl_messages :: "(string \<times> mailbox_status) list"
  dl_updatedAt :: string
  dl_requestIds :: "(string \<times> string) list"

text \<open>
  The mailbox of a run: the files by direction and task (\<open>None\<close> for the run itself), the tasks
  that have a directory, the delivery state, and when acknowledged entries were swept last.
\<close>

record mailbox_store =
  ms_files :: "mailbox_direction \<times> string option \<Rightarrow> mailbox_file"
  ms_tasks :: "string list"
  ms_delivery :: delivery_state
  ms_lastSweep :: int

definition row_message :: "bool \<Rightarrow> mailbox_direction \<Rightarrow> mailbox_row \<Rightarrow> mailbox_message option" where
  "row_message verify d r =
     (case mr_json r of
        None \<Rightarrow> None
      | Some j \<Rightarrow> if verify \<and> \<not> (is_record (Some j) \<and> mr_verified r) then None
                  else parseMailboxMessage j d)"

definition parseMailboxFile :: "bool \<Rightarrow> mailbox_direction \<Rightarrow> mailbox_row list \<Rightarrow> mailbox_message list" where
  "parseMailboxFile verify d rows = List.map_filter (row_message verify d) rows"

text \<open>Merging by id: the later message takes the place of the earlier one.\<close>

fun upsert :: "mailbox_message \<Rightarrow> mailbox_message list \<Rightarrow> mailbox_message list" where
  "upsert m [] = [m]"
| "upsert m (x # xs) = (if mm_id x = mm_id m then m # xs else x # upsert m xs)"

definition safeReadMailboxFile :: "bool \<Rightarrow> mailbox_direction \<Rightarrow> mailbox_file \<Rightarrow> mailbox_message list" where
  "safeReadMailboxFile verify d f =
     (let live = parseMailboxFile verify d (mf_live f)
      in if mf_archives f = [] then live
         else fold upsert (concat (map (parseMailboxFile verify d) (mf_archives f)) @ live) [])"

definition maxArchivesPerDirection :: nat where
  "maxArchivesPerDirection = 10"

definition pruneOldMailboxArchives :: "mailbox_row list list \<Rightarrow> mailbox_row list list" where
  "pruneOldMailboxArchives archives = drop (length archives - maxArchivesPerDirection) archives"

text \<open>\<open>full\<close>: the file has reached the threshold of ten megabytes.\<close>

definition rotateMailboxFileIfNeeded :: "bool \<Rightarrow> mailbox_file \<Rightarrow> mailbox_file" where
  "rotateMailboxFileIfNeeded full f =
     (if full then \<lparr> mf_live = [], mf_archives = pruneOldMailboxArchives (mf_archives f @ [mf_live f]) \<rparr>
      else f)"

definition read_file :: "bool \<Rightarrow> mailbox_store \<Rightarrow> mailbox_direction \<Rightarrow> string option \<Rightarrow> mailbox_message list" where
  "read_file verify s d task = safeReadMailboxFile verify d (ms_files s (d, task))"

definition readAllMessages :: "bool \<Rightarrow> mailbox_store \<Rightarrow> mailbox_direction \<Rightarrow> mailbox_message list" where
  "readAllMessages verify s d =
     sort_key mm_createdAt (read_file verify s d None @ concat (map (\<lambda>t. read_file verify s d (Some t)) (ms_tasks s)))"

definition directions_of :: "mailbox_direction option \<Rightarrow> mailbox_direction list" where
  "directions_of direction = (case direction of Some d \<Rightarrow> [d] | None \<Rightarrow> [Inbox, Outbox])"

definition readAllMailboxMessages :: "bool \<Rightarrow> mailbox_store \<Rightarrow> mailbox_direction option \<Rightarrow> mailbox_message list" where
  "readAllMailboxMessages verify s direction =
     sort_key mm_createdAt (concat (map (readAllMessages verify s) (directions_of direction)))"

definition readMailbox ::
    "bool \<Rightarrow> mailbox_store \<Rightarrow> mailbox_direction option \<Rightarrow> string option \<Rightarrow> mailbox_kind option \<Rightarrow> mailbox_message list" where
  "readMailbox verify s direction task kind =
     sort_key mm_createdAt (filter (\<lambda>m. kind = None \<or> mm_kind m = kind)
       (concat (map (\<lambda>d. read_file verify s d task) (directions_of direction))))"

subsection \<open>The delivery state and its bounds\<close>

definition MAX_DELIVERY_MESSAGES :: nat where "MAX_DELIVERY_MESSAGES = 10000"
definition ACK_SWEEP_MIN_ACKS :: nat where "ACK_SWEEP_MIN_ACKS = 1000"
definition ACK_SWEEP_FORCE_ACKS :: nat where "ACK_SWEEP_FORCE_ACKS = 5000"
definition ACK_SWEEP_MIN_INTERVAL_MS :: int where "ACK_SWEEP_MIN_INTERVAL_MS = 30000"

text \<open>\<open>None\<close> when the history cannot be read.\<close>

definition collectReplayableInboxIds :: "bool \<Rightarrow> bool \<Rightarrow> mailbox_store \<Rightarrow> string set option" where
  "collectReplayableInboxIds readable verify s =
     (if readable then Some (mm_id ` set (readAllMessages verify s Inbox)) else None)"

definition acked :: "(string \<times> mailbox_status) list \<Rightarrow> (string \<times> mailbox_status) list" where
  "acked ms = filter (\<lambda>e. snd e = MAcknowledged) ms"

definition sweepDeadAcknowledgements ::
    "bool \<Rightarrow> bool \<Rightarrow> int \<Rightarrow> mailbox_store \<Rightarrow> (string \<times> mailbox_status) list \<Rightarrow>
     (string \<times> mailbox_status) list \<times> int" where
  "sweepDeadAcknowledgements readable verify now s ms =
     (let n = length (acked ms); keep = (ms, ms_lastSweep s)
      in if n = 0 then keep
         else if \<not> (ACK_SWEEP_FORCE_ACKS \<le> n \<or>
                    ACK_SWEEP_MIN_ACKS \<le> n \<and> ACK_SWEEP_MIN_INTERVAL_MS \<le> now - ms_lastSweep s) then keep
         else case collectReplayableInboxIds readable verify s of
                None \<Rightarrow> keep
              | Some replayable \<Rightarrow>
                  (filter (\<lambda>(i, st). st \<noteq> MAcknowledged \<or> i \<in> replayable) ms, now))"

definition pruneDeliveredRequestIds :: "(string \<times> string) list \<Rightarrow> (string \<times> string) list" where
  "pruneDeliveredRequestIds keys = drop (length keys - MAX_DELIVERY_MESSAGES) keys"

fun tier :: "mailbox_status \<Rightarrow> nat" where
  "tier MQueued = 0"
| "tier MDelivered = 1"
| "tier MAcknowledged = 2"

text \<open>The cap: acknowledged entries are kept, the others as far as the budget goes, queued ones first.\<close>

definition cap_delivery :: "(string \<times> mailbox_status) list \<Rightarrow> (string \<times> mailbox_status) list" where
  "cap_delivery remaining =
     (if length remaining \<le> MAX_DELIVERY_MESSAGES then remaining
      else let sorted = sort_key (\<lambda>e. tier (snd e)) remaining;
               budget = MAX_DELIVERY_MESSAGES - length (acked sorted);
               kept = fst ` set (take budget (filter (\<lambda>e. snd e \<noteq> MAcknowledged) sorted)) \<union> fst ` set (acked sorted)
           in filter (\<lambda>e. fst e \<in> kept) remaining)"

definition pruneDeliveryMessages ::
    "bool \<Rightarrow> bool \<Rightarrow> int \<Rightarrow> mailbox_store \<Rightarrow> delivery_state \<Rightarrow> delivery_state \<times> int" where
  "pruneDeliveryMessages readable verify now s dl =
     (let (ms, last) = (if ACK_SWEEP_MIN_ACKS < length (acked (dl_messages dl))
                        then sweepDeadAcknowledgements readable verify now s (dl_messages dl)
                        else (dl_messages dl, ms_lastSweep s))
      in (dl\<lparr>dl_requestIds := pruneDeliveredRequestIds (dl_requestIds dl), dl_messages := cap_delivery ms\<rparr>, last))"

text \<open>What an operation reads of its surroundings: the clock as text and number, and two readability bits.\<close>

record mailbox_env =
  me_verify :: bool
  me_readable :: bool
  me_now :: string
  me_nowMs :: int

definition writeDeliveryState :: "mailbox_env \<Rightarrow> delivery_state \<Rightarrow> mailbox_store \<Rightarrow> mailbox_store" where
  "writeDeliveryState env dl s =
     (let (dl', last) = pruneDeliveryMessages (me_readable env) (me_verify env) (me_nowMs env) s dl
      in s\<lparr>ms_delivery := dl', ms_lastSweep := last\<rparr>)"

subsection \<open>Appending\<close>

text \<open>
  What a caller gives: the optional id and status, and a message whose run, time and, where these are
  present, id and status are replaced. The fresh identifiers are arguments.
\<close>

record append_input =
  ai_id :: "string option"
  ai_status :: "mailbox_status option"
  ai_message :: mailbox_message

definition buildMailboxMessage ::
    "string \<Rightarrow> append_input \<Rightarrow> string \<Rightarrow> string \<Rightarrow> string \<Rightarrow> mailbox_message" where
  "buildMailboxMessage runId input createdAt freshId freshRequest =
     (ai_message input)\<lparr>mm_id := nullish (ai_id input) (''msg_'' @ freshId), mm_runId := runId,
        mm_createdAt := createdAt, mm_status := nullish (ai_status input) MQueued,
        mm_requestId := Some (nullish (mm_requestId (ai_message input)) (''req_'' @ freshRequest))\<rparr>"

text \<open>The row of a message that is already redacted.\<close>

definition signed_row :: "mailbox_message \<Rightarrow> string \<Rightarrow> mailbox_row" where
  "signed_row m sig = \<lparr> mr_json = Some (message_row m sig), mr_verified = True \<rparr>"

definition append_row :: "bool \<Rightarrow> mailbox_row \<Rightarrow> mailbox_file \<Rightarrow> mailbox_file" where
  "append_row full r f = rotateMailboxFileIfNeeded full (f\<lparr>mf_live := mf_live f @ [r]\<rparr>)"

definition set_file :: "mailbox_direction \<Rightarrow> string option \<Rightarrow> mailbox_file \<Rightarrow> mailbox_store \<Rightarrow> mailbox_store" where
  "set_file d task f s = s\<lparr>ms_files := (ms_files s)((d, task) := f),
     ms_tasks := (case task of None \<Rightarrow> ms_tasks s | Some t \<Rightarrow> js_set_add t (ms_tasks s))\<rparr>"

definition recordDeliveryEntry :: "mailbox_env \<Rightarrow> mailbox_message \<Rightarrow> mailbox_store \<Rightarrow> mailbox_store" where
  "recordDeliveryEntry env m s =
     writeDeliveryState env ((ms_delivery s)\<lparr>
       dl_messages := omap_set (mm_id m) (mm_status m) (dl_messages (ms_delivery s)),
       dl_updatedAt := mm_createdAt m\<rparr>) s"

text \<open>The locked append, without and with the search for the request id of the message.\<close>

definition store_message :: "bool \<Rightarrow> string \<Rightarrow> mailbox_message \<Rightarrow> mailbox_store \<Rightarrow> mailbox_store" where
  "store_message full sig m s =
     set_file (mm_direction m) (mm_taskId m)
       (append_row full (signed_row m sig) (ms_files s (mm_direction m, mm_taskId m))) s"

definition appendMailboxMessage ::
    "mailbox_env \<Rightarrow> bool \<Rightarrow> string \<Rightarrow> mailbox_message \<Rightarrow> mailbox_store \<Rightarrow> mailbox_store" where
  "appendMailboxMessage env full sig m s = recordDeliveryEntry env m (store_message full sig m s)"

definition has_request :: "string \<Rightarrow> mailbox_message \<Rightarrow> bool" where
  "has_request requestId m \<longleftrightarrow>
     mm_requestId m = Some requestId \<or> data_field m ''requestId'' = Some (JStr requestId)"

text \<open>
  A request id that looks like a secret is stored hidden, so the search for it by a resend does not find
  the row, and the resend is stored a second time.
\<close>

theorem hidden_request_id_lost:
  assumes "mm_requestId m = Some ''token:1''" and "mm_data m = None"
  shows "\<exists>r. parseMailboxMessage (serializeMailboxRow m sig) (mm_direction m) = Some r \<and>
    mm_requestId r = Some ''token:***'' \<and> \<not> has_request ''token:1'' r"
  using assms
  by (simp add: serialize_redacted parse_message_row redactMessage_def inline_token_hidden has_request_def data_field_def
      split: option.split)

definition findRequestIdRowInFile ::
    "bool \<Rightarrow> mailbox_direction \<Rightarrow> string \<Rightarrow> mailbox_file \<Rightarrow> mailbox_message option" where
  "findRequestIdRowInFile verify d requestId f = find (has_request requestId) (safeReadMailboxFile verify d f)"

definition store_once ::
    "bool \<Rightarrow> bool \<Rightarrow> string \<Rightarrow> string \<Rightarrow> mailbox_message \<Rightarrow> mailbox_store \<Rightarrow> mailbox_message option \<times> mailbox_store" where
  "store_once verify full sig requestId m s =
     (case findRequestIdRowInFile verify (mm_direction m) requestId (ms_files s (mm_direction m, mm_taskId m)) of
        Some existing \<Rightarrow> (Some existing,
          set_file (mm_direction m) (mm_taskId m) (ms_files s (mm_direction m, mm_taskId m)) s)
      | None \<Rightarrow> (None, store_message full sig m s))"

definition appendMailboxMessageIdempotent ::
    "mailbox_env \<Rightarrow> bool \<Rightarrow> string \<Rightarrow> string \<Rightarrow> mailbox_message \<Rightarrow> mailbox_store \<Rightarrow>
     (mailbox_message \<times> bool) \<times> mailbox_store" where
  "appendMailboxMessageIdempotent env full sig requestId m s =
     (case store_once (me_verify env) full sig requestId m s of
        (Some existing, s') \<Rightarrow> ((existing, True), s')
      | (None, s') \<Rightarrow> ((m, False), recordDeliveryEntry env m s'))"

subsection \<open>Delivery\<close>

record delivery_record =
  dr_direction :: mailbox_direction
  dr_messageId :: string
  dr_taskId :: "string option"
  dr_requestId :: "string option"

definition requestIdDeliveryKey :: "mailbox_direction \<Rightarrow> string option \<Rightarrow> string \<Rightarrow> string" where
  "requestIdDeliveryKey d recipient requestId =
     direction_str d @ '':'' @ nullish recipient ''-'' @ '':'' @ requestId"

definition record_delivery :: "delivery_record \<Rightarrow> delivery_state \<Rightarrow> delivery_state" where
  "record_delivery r dl = dl\<lparr>dl_messages := omap_set (dr_messageId r) MAcknowledged (dl_messages dl),
     dl_requestIds := (if truthy (dr_requestId r)
       then omap_set (requestIdDeliveryKey (dr_direction r) (dr_taskId r) (the (dr_requestId r)))
              (dr_messageId r) (dl_requestIds dl)
       else dl_requestIds dl)\<rparr>"

definition recordMailboxRequestIdDelivery ::
    "mailbox_env \<Rightarrow> delivery_record list \<Rightarrow> mailbox_store \<Rightarrow> mailbox_store" where
  "recordMailboxRequestIdDelivery env records s =
     writeDeliveryState env ((fold record_delivery records (ms_delivery s))\<lparr>dl_updatedAt := me_now env\<rparr>) s"

definition acknowledgeMailboxMessage :: "mailbox_env \<Rightarrow> string \<Rightarrow> mailbox_store \<Rightarrow> string + mailbox_store" where
  "acknowledgeMailboxMessage env messageId s =
     (if map_of (dl_messages (ms_delivery s)) messageId = None
      then Inl (''Mailbox message '' @ quoted messageId @ '' not found.'')
      else Inr (writeDeliveryState env ((ms_delivery s)\<lparr>
        dl_messages := omap_set messageId MAcknowledged (dl_messages (ms_delivery s)),
        dl_updatedAt := me_now env\<rparr>) s))"

definition pending_messages :: "bool \<Rightarrow> mailbox_store \<Rightarrow> mailbox_message list" where
  "pending_messages verify s = filter (\<lambda>m. mm_status m \<noteq> MAcknowledged \<and>
     map_of (dl_messages (ms_delivery s)) (mm_id m) \<noteq> Some MAcknowledged) (readAllMessages verify s Inbox)"

definition replayPendingMailboxMessages ::
    "mailbox_env \<Rightarrow> mailbox_store \<Rightarrow> mailbox_message list \<times> mailbox_store" where
  "replayPendingMailboxMessages env s =
     (let pending = pending_messages (me_verify env) s
      in if pending = [] then ([], s)
         else (pending, writeDeliveryState env ((ms_delivery s)\<lparr>
                dl_messages := fold (\<lambda>m. omap_set (mm_id m) MDelivered) pending (dl_messages (ms_delivery s)),
                dl_updatedAt := me_now env\<rparr>) s))"

subsection \<open>Lookups and replies\<close>

definition findMailboxMessageByRequestId ::
    "bool \<Rightarrow> mailbox_store \<Rightarrow> string \<Rightarrow> (mailbox_direction option \<times> string option) option \<Rightarrow> mailbox_message option" where
  "findMailboxMessageByRequestId verify s requestId scope =
     (let (d, task) = nullish scope (None, None)
      in find (has_request requestId) (readMailbox verify s d task None))"

definition readMailboxMessage :: "bool \<Rightarrow> mailbox_store \<Rightarrow> string \<Rightarrow> mailbox_message option" where
  "readMailboxMessage verify s messageId = find (\<lambda>m. mm_id m = messageId) (readMailbox verify s None None None)"

definition listMailboxByKind ::
    "bool \<Rightarrow> mailbox_store \<Rightarrow> mailbox_kind \<Rightarrow> mailbox_direction option \<Rightarrow> mailbox_message list" where
  "listMailboxByKind verify s kind direction =
     filter (\<lambda>m. mm_kind m = Some kind \<or> data_field m ''kind'' = Some (JStr (kind_str kind)))
       (case direction of
          Some d \<Rightarrow> readAllMessages verify s d
        | None \<Rightarrow> sort_key mm_createdAt (readAllMessages verify s Inbox @ readAllMessages verify s Outbox))"

datatype reply_origin = NoReplyTo | OriginMatch string string | OriginNotFound string | OriginMismatch string string string

definition checkReplyToRequesterOrigin :: "bool \<Rightarrow> bool \<Rightarrow> mailbox_store \<Rightarrow> mailbox_message \<Rightarrow> reply_origin" where
  "checkReplyToRequesterOrigin readable verify s response =
     (case mm_replyTo response of
        None \<Rightarrow> NoReplyTo
      | Some replyTo \<Rightarrow>
          (if \<not> readable then OriginNotFound replyTo
           else case find (\<lambda>m. mm_id m = replyTo) (readAllMailboxMessages verify s None) of
                  None \<Rightarrow> OriginNotFound replyTo
                | Some original \<Rightarrow>
                    if mm_from original = mm_to response then OriginMatch replyTo (mm_from original)
                    else OriginMismatch replyTo (mm_from original) (mm_to response)))"

text \<open>
  The reply of a message: its lines in the live file are rewritten, whatever their signature; if it is
  only archived, a record with the same id is appended.
\<close>

definition reply_row :: "mailbox_direction \<Rightarrow> string \<Rightarrow> string \<Rightarrow> string \<Rightarrow> string \<Rightarrow> mailbox_row \<Rightarrow> mailbox_row" where
  "reply_row d originalId content now sig r =
     (case Option.bind (mr_json r) (\<lambda>j. parseMailboxMessage j d) of
        Some m \<Rightarrow> if mm_id m = originalId
                  then signed_row (m\<lparr>mm_repliedAt := Some now, mm_replyContent := Some content\<rparr>) sig else r
      | None \<Rightarrow> r)"

definition live_has :: "mailbox_direction \<Rightarrow> string \<Rightarrow> mailbox_file \<Rightarrow> bool" where
  "live_has d i f \<longleftrightarrow> list_ex (\<lambda>r. case Option.bind (mr_json r) (\<lambda>j. parseMailboxMessage j d) of
     Some m \<Rightarrow> mm_id m = i | None \<Rightarrow> False) (mf_live f)"

definition reply_in_file ::
    "bool \<Rightarrow> bool \<Rightarrow> mailbox_direction \<Rightarrow> string \<Rightarrow> string \<Rightarrow> string \<Rightarrow> string \<Rightarrow> mailbox_file \<Rightarrow> mailbox_file option" where
  "reply_in_file verify full d originalId content now sig f =
     (if live_has d originalId f then Some (f\<lparr>mf_live := map (reply_row d originalId content now sig) (mf_live f)\<rparr>)
      else case find (\<lambda>m. mm_id m = originalId) (concat (map (parseMailboxFile verify d) (mf_archives f))) of
             None \<Rightarrow> None
           | Some m \<Rightarrow> Some (append_row full
               (signed_row (m\<lparr>mm_repliedAt := Some now, mm_replyContent := Some content\<rparr>) sig) f))"

fun reply_in_files ::
    "bool \<Rightarrow> bool \<Rightarrow> string \<Rightarrow> string \<Rightarrow> string \<Rightarrow> string \<Rightarrow> (mailbox_direction \<times> string option) list \<Rightarrow>
     mailbox_store \<Rightarrow> mailbox_store" where
  "reply_in_files verify full originalId content now sig [] s = s"
| "reply_in_files verify full originalId content now sig ((d, task) # keys) s =
     (case reply_in_file verify full d originalId content now sig (ms_files s (d, task)) of
        Some f \<Rightarrow> s\<lparr>ms_files := (ms_files s)((d, task) := f)\<rparr>
      | None \<Rightarrow> reply_in_files verify full originalId content now sig keys s)"

definition mailbox_keys :: "mailbox_store \<Rightarrow> (mailbox_direction \<times> string option) list" where
  "mailbox_keys s = [(Inbox, None), (Outbox, None)] @
     concat (map (\<lambda>t. [(Inbox, Some t), (Outbox, Some t)]) (ms_tasks s))"

definition updateMailboxMessageReply ::
    "mailbox_env \<Rightarrow> bool \<Rightarrow> string \<Rightarrow> string \<Rightarrow> string \<Rightarrow> mailbox_store \<Rightarrow> mailbox_store" where
  "updateMailboxMessageReply env full sig originalId content s =
     reply_in_files (me_verify env) full originalId content (me_now env) sig (mailbox_keys s) s"

subsection \<open>Validation and repair\<close>

datatype mailbox_issue = InvalidLine mailbox_direction "string option" | MissingDelivery string

definition valid_row :: "mailbox_direction \<Rightarrow> mailbox_row \<Rightarrow> bool" where
  "valid_row d r \<longleftrightarrow> Option.bind (mr_json r) (\<lambda>j. parseMailboxMessage j d) \<noteq> None"

definition validate_file :: "bool \<Rightarrow> (mailbox_direction \<times> string option) \<Rightarrow> mailbox_store \<Rightarrow> mailbox_issue list \<times> mailbox_store" where
  "validate_file repair key s =
     (let f = ms_files s key; good = filter (valid_row (fst key)) (mf_live f)
      in (map (\<lambda>_. InvalidLine (fst key) (snd key)) (filter (\<lambda>r. \<not> valid_row (fst key) r) (mf_live f)),
          if repair \<and> length good \<noteq> length (mf_live f)
          then s\<lparr>ms_files := (ms_files s)(key := f\<lparr>mf_live := good\<rparr>)\<rparr> else s))"

fun validate_files ::
    "bool \<Rightarrow> (mailbox_direction \<times> string option) list \<Rightarrow> mailbox_store \<Rightarrow> mailbox_issue list \<times> mailbox_store" where
  "validate_files repair [] s = ([], s)"
| "validate_files repair (k # ks) s =
     (let (is, s') = validate_file repair k s; (is', s'') = validate_files repair ks s' in (is @ is', s''))"

definition fill_entries :: "mailbox_message list \<Rightarrow> (string \<times> mailbox_status) list \<Rightarrow> (string \<times> mailbox_status) list" where
  "fill_entries messages entries =
     fold (\<lambda>m es. if map_of es (mm_id m) = None then omap_set (mm_id m) (mm_status m) es else es) messages entries"

definition validateMailbox :: "mailbox_env \<Rightarrow> bool \<Rightarrow> mailbox_store \<Rightarrow> mailbox_issue list \<times> mailbox_store" where
  "validateMailbox env repair s =
     (let (lines, s1) = validate_files repair (mailbox_keys s) s;
          messages = readAllMessages (me_verify env) s1 Inbox @ readAllMessages (me_verify env) s1 Outbox;
          entries = dl_messages (ms_delivery s1);
          missing = map (\<lambda>m. MissingDelivery (mm_id m)) (filter (\<lambda>m. map_of entries (mm_id m) = None) messages)
      in (lines @ missing,
          if repair
          then writeDeliveryState env ((ms_delivery s1)\<lparr>
                 dl_messages := fill_entries messages entries,
                 dl_updatedAt := me_now env\<rparr>) s1
          else s1))"

subsection \<open>What the readers see of a file\<close>

lemma set_upsert: "mm_id ` set (upsert m xs) = insert (mm_id m) (mm_id ` set xs)"
  by (induction m xs rule: upsert.induct) auto

lemma ids_fold_upsert: "mm_id ` set (fold upsert ms xs) = mm_id ` set ms \<union> mm_id ` set xs"
  by (induction ms arbitrary: xs) (auto simp: set_upsert)

lemma set_fold_upsert: "set (fold upsert ms xs) \<subseteq> set ms \<union> set xs"
proof (induction ms arbitrary: xs)
  case (Cons m ms)
  have "set (upsert m xs) \<subseteq> insert m (set xs)" for xs by (induction m xs rule: upsert.induct) auto
  then show ?case using Cons [of "upsert m xs"] by fastforce
qed simp

lemma parseMailboxFile_append [simp]:
  "parseMailboxFile v d (a @ b) = parseMailboxFile v d a @ parseMailboxFile v d b"
  by (simp add: parseMailboxFile_def List.map_filter_def)

lemma parseMailboxFile_Nil [simp]: "parseMailboxFile v d [] = []"
  by (simp add: parseMailboxFile_def List.map_filter_def)

definition file_messages :: "bool \<Rightarrow> mailbox_direction \<Rightarrow> mailbox_file \<Rightarrow> mailbox_message list" where
  "file_messages v d f = concat (map (parseMailboxFile v d) (mf_archives f)) @ parseMailboxFile v d (mf_live f)"

lemma ids_safeRead: "mm_id ` set (safeReadMailboxFile v d f) = mm_id ` set (file_messages v d f)"
  by (simp add: safeReadMailboxFile_def file_messages_def Let_def ids_fold_upsert image_Un Un_commute)

lemma set_safeRead: "set (safeReadMailboxFile v d f) \<subseteq> set (file_messages v d f)"
  using set_fold_upsert [of "file_messages v d f" "[]"]
  by (simp add: safeReadMailboxFile_def file_messages_def Let_def)

text \<open>The message that is read back.\<close>

definition read_back :: "mailbox_message \<Rightarrow> mailbox_message" where
  "read_back m = m\<lparr>mm_kind := (case mm_kind m of Some k \<Rightarrow> Some k | None \<Rightarrow> isKind (data_field m ''kind'')),
     mm_data := map_option (map (\<lambda>(k, v). (k, stringified v))) (mm_data m),
     mm_replyDeadline := finite_only (mm_replyDeadline m)\<rparr>"

lemma read_back_id [simp]: "mm_id (read_back m) = mm_id m"
  by (simp add: read_back_def)

lemma row_message_signed [simp]:
  "row_message v d (signed_row m sig) = (if mm_direction m = d then Some (read_back m) else None)"
  by (simp add: row_message_def signed_row_def parse_message_row read_back_def)

lemma parse_signed [simp]:
  "parseMailboxFile v (mm_direction m) [signed_row m sig] = [read_back m]"
  by (simp add: parseMailboxFile_def List.map_filter_def)

text \<open>An append adds its message; a rotation can only lose the oldest archive.\<close>

lemma set_append_row:
  "set (file_messages v d (append_row full r f)) \<subseteq> set (file_messages v d f) \<union> set (parseMailboxFile v d [r])"
  using set_drop_subset [of "Suc (length (mf_archives f)) - maxArchivesPerDirection" "mf_archives f @ [mf_live f @ [r]]"]
  by (auto simp: append_row_def rotateMailboxFileIfNeeded_def file_messages_def pruneOldMailboxArchives_def
      dest: in_set_dropD)

end
