(* ===== verification/MailboxDelivery.thy ===== *)
theory MailboxDelivery
  imports Mailbox
begin

text \<open>
  What the mailbox of \<open>src/src/state/coordination/mailbox.ts\<close> guarantees over any sequence of its
  operations, the pickup of \<open>src/src/prompt/inbox-poll.ts\<close>, and the two handlers of the broker that
  address and read a mailbox (\<open>msg-send-targets.ts\<close>, \<open>msg-inbox.ts\<close>).
\<close>

subsection \<open>The operations as a machine\<close>

text \<open>\<open>OpStoreOnly\<close> is an append whose process ends before the delivery entry is written.\<close>

datatype mailbox_op =
    OpAppend bool string mailbox_message
  | OpStoreOnly bool string mailbox_message
  | OpIdempotent bool string string mailbox_message
  | OpRecord "delivery_record list"
  | OpAck string
  | OpReplay
  | OpReply bool string string string
  | OpValidate bool

fun mailbox_step :: "mailbox_env \<Rightarrow> mailbox_op \<Rightarrow> mailbox_store \<Rightarrow> mailbox_store" where
  "mailbox_step env (OpAppend full sig m) s = appendMailboxMessage env full sig m s"
| "mailbox_step env (OpStoreOnly full sig m) s = store_message full sig m s"
| "mailbox_step env (OpIdempotent full sig r m) s = snd (appendMailboxMessageIdempotent env full sig r m s)"
| "mailbox_step env (OpRecord rs) s = recordMailboxRequestIdDelivery env rs s"
| "mailbox_step env (OpAck i) s = (case acknowledgeMailboxMessage env i s of Inl _ \<Rightarrow> s | Inr s' \<Rightarrow> s')"
| "mailbox_step env OpReplay s = snd (replayPendingMailboxMessages env s)"
| "mailbox_step env (OpReply full sig i content) s = updateMailboxMessageReply env full sig i content s"
| "mailbox_step env (OpValidate repair) s = snd (validateMailbox env repair s)"

definition mailbox_event :: "bool \<Rightarrow> mailbox_env \<times> mailbox_op \<Rightarrow> mailbox_store \<Rightarrow> mailbox_store option" where
  "mailbox_event v e s = (if me_verify (fst e) = v then Some (mailbox_step (fst e) (snd e) s) else None)"

subsection \<open>Well-formed stores\<close>

definition file_rows :: "mailbox_file \<Rightarrow> mailbox_row set" where
  "file_rows f = set (concat (mf_archives f) @ mf_live f)"

definition verified_file :: "mailbox_file \<Rightarrow> bool" where
  "verified_file f \<longleftrightarrow> (\<forall>r\<in>file_rows f. mr_verified r)"

definition store_ok :: "mailbox_store \<Rightarrow> bool" where
  "store_ok s \<longleftrightarrow> omap_ok (dl_messages (ms_delivery s)) \<and>
     (\<forall>d t. t \<notin> set (ms_tasks s) \<longrightarrow> ms_files s (d, Some t) = \<lparr> mf_live = [], mf_archives = [] \<rparr>) \<and>
     (\<forall>k. verified_file (ms_files s k))"

lemma UN_restrict: "(\<And>x. x \<notin> A \<Longrightarrow> F x = {}) \<Longrightarrow> (\<Union>x\<in>A. F x) = (\<Union>x. F x)"
  by (intro equalityI UN_mono UN_least) (auto intro: UN_upper)

definition history :: "bool \<Rightarrow> mailbox_direction \<Rightarrow> mailbox_store \<Rightarrow> string set" where
  "history v d s = (\<Union>task. mm_id ` set (file_messages v d (ms_files s (d, task))))"

lemma file_messages_empty [simp]: "file_messages v d \<lparr> mf_live = [], mf_archives = [] \<rparr> = []"
  by (simp add: file_messages_def)

lemma ids_readAllMessages:
  assumes "store_ok s"
  shows "mm_id ` set (readAllMessages v s d) = history v d s"
proof -
  have "mm_id ` set (readAllMessages v s d) =
      (\<Union>task\<in>insert None (Some ` set (ms_tasks s)). mm_id ` set (file_messages v d (ms_files s (d, task))))"
    by (simp add: readAllMessages_def read_file_def image_Un image_UN ids_safeRead)
  also have "\<dots> = history v d s"
  proof -
    have "mm_id ` set (file_messages v d (ms_files s (d, task))) = {}"
      if "task \<notin> insert None (Some ` set (ms_tasks s))" for task
      using assms that by (cases task) (simp_all add: store_ok_def image_iff)
    then show ?thesis unfolding history_def by (rule UN_restrict)
  qed
  finally show ?thesis .
qed

lemma parse_is_record: "parseMailboxMessage j d = Some m \<Longrightarrow> is_record (Some j)"
  by (auto simp: parseMailboxMessage_def Let_def split: option.splits bool.splits)

lemma row_message_verified:
  assumes "mr_verified r"
  shows "row_message v d r = Option.bind (mr_json r) (\<lambda>j. parseMailboxMessage j d)"
proof (cases "mr_json r")
  case (Some j)
  then show ?thesis using assms parse_is_record [of j d] by (cases "parseMailboxMessage j d") (auto simp: row_message_def)
qed (simp add: row_message_def)

text \<open>The delivery bookkeeping: an acknowledged entry goes only when its message is gone.\<close>

lemma omap_mem: "omap_ok m \<Longrightarrow> map_of m k = Some v \<longleftrightarrow> (k, v) \<in> set m"
  by (simp add: omap_ok_def map_of_eq_Some_iff)

lemma omap_ok_filter: "omap_ok m \<Longrightarrow> omap_ok (filter P m)"
  unfolding omap_ok_def by (rule distinct_map_filter)

lemma cap_delivery_subset: "set (cap_delivery ms) \<subseteq> set ms"
  by (auto simp: cap_delivery_def Let_def)

lemma cap_delivery_ok: "omap_ok ms \<Longrightarrow> omap_ok (cap_delivery ms)"
  by (simp add: cap_delivery_def Let_def omap_ok_filter)

lemma cap_delivery_keeps: "(i, MAcknowledged) \<in> set ms \<Longrightarrow> (i, MAcknowledged) \<in> set (cap_delivery ms)"
  by (force simp: cap_delivery_def Let_def acked_def)

lemma sweep_acked:
  assumes "sweepDeadAcknowledgements readable v now s ms = (ms', lst)"
  shows "(omap_ok ms \<longrightarrow> omap_ok ms') \<and> set ms' \<subseteq> set ms \<and>
    ((i, MAcknowledged) \<in> set ms \<longrightarrow> (i, MAcknowledged) \<in> set ms' \<or> i \<notin> mm_id ` set (readAllMessages v s Inbox))"
  using assms
  by (auto simp: sweepDeadAcknowledgements_def collectReplayableInboxIds_def Let_def omap_ok_filter split: if_splits)

lemma write_delivery:
  assumes "omap_ok (dl_messages dl)"
  shows "omap_ok (dl_messages (ms_delivery (writeDeliveryState env dl s)))"
    and "map_of (dl_messages dl) i = Some MAcknowledged \<Longrightarrow>
      map_of (dl_messages (ms_delivery (writeDeliveryState env dl s))) i = Some MAcknowledged \<or>
      i \<notin> mm_id ` set (readAllMessages (me_verify env) s Inbox)"
    and "ms_files (writeDeliveryState env dl s) = ms_files s"
    and "ms_tasks (writeDeliveryState env dl s) = ms_tasks s"
proof -
  obtain ms lst where sw: "(if ACK_SWEEP_MIN_ACKS < length (acked (dl_messages dl))
       then sweepDeadAcknowledgements (me_readable env) (me_verify env) (me_nowMs env) s (dl_messages dl)
       else (dl_messages dl, ms_lastSweep s)) = (ms, lst)" by force
  have w: "writeDeliveryState env dl s = s\<lparr>ms_delivery := dl\<lparr>dl_requestIds := pruneDeliveredRequestIds (dl_requestIds dl),
      dl_messages := cap_delivery ms\<rparr>, ms_lastSweep := lst\<rparr>"
    by (simp add: writeDeliveryState_def pruneDeliveryMessages_def sw)
  have ok: "omap_ok ms" and some: "(i, MAcknowledged) \<in> set (dl_messages dl) \<longrightarrow>
      (i, MAcknowledged) \<in> set ms \<or> i \<notin> mm_id ` set (readAllMessages (me_verify env) s Inbox)" for i
    using sw assms sweep_acked by (auto split: if_splits)
  show ok': "omap_ok (dl_messages (ms_delivery (writeDeliveryState env dl s)))" using ok by (simp add: w cap_delivery_ok)
  show "map_of (dl_messages (ms_delivery (writeDeliveryState env dl s))) i = Some MAcknowledged \<or>
      i \<notin> mm_id ` set (readAllMessages (me_verify env) s Inbox)"
    if "map_of (dl_messages dl) i = Some MAcknowledged"
    using that some [of i] ok' cap_delivery_keeps [of i ms] by (auto simp: omap_mem assms w cap_delivery_ok ok)
qed (simp_all add: writeDeliveryState_def pruneDeliveryMessages_def Let_def split: prod.splits)

subsection \<open>What the operations do to the files\<close>

lemma store_ok_verified: "store_ok s \<Longrightarrow> verified_file (ms_files s k)"
  by (cases k) (simp add: store_ok_def)

lemma store_ok_write:
  assumes "store_ok s" and "omap_ok (dl_messages dl)"
  shows "store_ok (writeDeliveryState env dl s)" and "history v d (writeDeliveryState env dl s) = history v d s"
  using assms write_delivery(1,3,4) [OF assms(2), of env s] by (simp_all add: store_ok_def history_def)

lemma store_ok_set_file:
  assumes "store_ok s" and "verified_file f"
  shows "store_ok (set_file d task f s)"
  using assms by (cases task) (auto simp: store_ok_def set_file_def)

lemma history_set_file:
  "history v d' (set_file d task f s) \<subseteq>
     history v d' s \<union> (if d' = d then mm_id ` set (file_messages v d f) else {})"
  by (auto simp: history_def set_file_def split: if_splits)

lemma file_history: "mm_id ` set (file_messages v d (ms_files s (d, task))) \<subseteq> history v d s"
  by (auto simp: history_def)

lemma history_set:
  assumes "mm_id ` set (file_messages v d f) \<subseteq> N \<union> history v d s"
  shows "history v d' (set_file d task f s) \<subseteq> N \<union> history v d' s"
  using history_set_file [of v d' d task f s] assms by (cases "d' = d") fastforce+

lemma rows_append_row: "file_rows (append_row full r f) \<subseteq> insert r (file_rows f)"
  by (auto simp: append_row_def rotateMailboxFileIfNeeded_def file_rows_def pruneOldMailboxArchives_def dest!: in_set_dropD)

lemma verified_append_row: "verified_file f \<Longrightarrow> verified_file (append_row full (signed_row m sig) f)"
  using rows_append_row [of full "signed_row m sig" f] by (auto simp: verified_file_def signed_row_def)

lemma ids_append_row:
  "mm_id ` set (file_messages v d (append_row full (signed_row m sig) f)) \<subseteq>
     insert (mm_id m) (mm_id ` set (file_messages v d f))"
  using set_append_row [of v d full "signed_row m sig" f]
  by (auto simp: parseMailboxFile_def List.map_filter_simps split: if_splits)

lemma parse_direction: "parseMailboxMessage j d = Some m \<Longrightarrow> mm_direction m = d"
  by (auto simp: parseMailboxMessage_def Let_def split: option.splits bool.splits if_splits)

lemma reply_row_message:
  assumes "mr_verified r"
  shows "map_option mm_id (row_message v d (reply_row d i content now sig r)) = map_option mm_id (row_message v d r) \<and>
    mr_verified (reply_row d i content now sig r)"
proof (cases "Option.bind (mr_json r) (\<lambda>j. parseMailboxMessage j d)")
  case None
  then show ?thesis using assms by (simp add: reply_row_def)
next
  case (Some m)
  then have "mm_direction m = d" by (auto simp: bind_eq_Some_conv dest: parse_direction)
  then show ?thesis using Some assms by (simp add: reply_row_def row_message_verified [OF assms])
      (simp add: signed_row_def)
qed

lemma ids_reply_rows:
  assumes "\<forall>r\<in>set rows. mr_verified r"
  shows "map mm_id (parseMailboxFile v d (map (reply_row d i content now sig) rows)) = map mm_id (parseMailboxFile v d rows)"
  using assms
proof (induction rows)
  case (Cons r rows)
  have "map_option mm_id (row_message v d (reply_row d i content now sig r)) = map_option mm_id (row_message v d r)"
    using reply_row_message [of r] Cons.prems by simp
  then show ?case
    using Cons by (cases "row_message v d r"; cases "row_message v d (reply_row d i content now sig r)")
      (simp_all add: parseMailboxFile_def List.map_filter_simps)
qed simp

lemma reply_in_file_ok:
  assumes "verified_file f" and "reply_in_file verify full d i content now sig f = Some f'"
  shows "verified_file f' \<and> mm_id ` set (file_messages v d f') \<subseteq> mm_id ` set (file_messages v d f)"
proof (cases "live_has d i f")
  case True
  then have f': "f' = f\<lparr>mf_live := map (reply_row d i content now sig) (mf_live f)\<rparr>"
    using assms(2) by (simp add: reply_in_file_def)
  have live: "\<forall>r\<in>set (mf_live f). mr_verified r" using assms(1) by (simp add: verified_file_def file_rows_def)
  have "mm_id ` set (parseMailboxFile v d (mf_live f')) = mm_id ` set (parseMailboxFile v d (mf_live f))"
    using ids_reply_rows [OF live, of v d i content now sig] by (simp add: f') (metis list.set_map)
  moreover have "verified_file f'"
    using assms(1) live reply_row_message by (auto simp: f' verified_file_def file_rows_def)
  ultimately show ?thesis by (simp add: f' file_messages_def image_Un)
next
  case False
  then obtain m where m: "find (\<lambda>m. mm_id m = i) (concat (map (parseMailboxFile verify d) (mf_archives f))) = Some m"
    and f': "f' = append_row full (signed_row (m\<lparr>mm_repliedAt := Some now, mm_replyContent := Some content\<rparr>) sig) f"
    using assms(2) by (auto simp: reply_in_file_def split: option.splits)
  obtain a where "a \<in> set (mf_archives f)" "m \<in> set (parseMailboxFile verify d a)"
    using m by (auto simp: find_Some_iff dest!: nth_mem)
  then obtain r where r: "r \<in> set a" "row_message verify d r = Some m" "r \<in> file_rows f"
    by (auto simp: parseMailboxFile_def set_map_filter file_rows_def)
  then have "row_message v d r = Some m"
    using assms(1) row_message_verified [of r] by (auto simp: verified_file_def)
  then have "m \<in> set (file_messages v d f)"
    using r(1) \<open>a \<in> set (mf_archives f)\<close> by (auto simp: file_messages_def parseMailboxFile_def set_map_filter)
  then have "mm_id m \<in> mm_id ` set (file_messages v d f)" by (rule imageI)
  moreover have "mm_id ` set (file_messages v d f') \<subseteq> insert (mm_id m) (mm_id ` set (file_messages v d f))"
    using ids_append_row [of v d full "m\<lparr>mm_repliedAt := Some now, mm_replyContent := Some content\<rparr>" sig f]
    unfolding f' by simp
  ultimately show ?thesis using verified_append_row [OF assms(1)] unfolding f' by (simp add: insert_absorb)
qed

lemma history_update:
  assumes "mm_id ` set (file_messages v d' f') \<subseteq> mm_id ` set (file_messages v d' (ms_files s (d', task)))"
  shows "history v d (s\<lparr>ms_files := (ms_files s)((d', task) := f')\<rparr>) \<subseteq> history v d s"
  unfolding history_def
proof (rule UN_mono)
  fix t
  show "mm_id ` set (file_messages v d (ms_files (s\<lparr>ms_files := (ms_files s)((d', task) := f')\<rparr>) (d, t)))
      \<subseteq> mm_id ` set (file_messages v d (ms_files s (d, t)))"
    using assms by (cases "d = d' \<and> t = task") simp_all
qed simp

lemma reply_in_files_ok:
  assumes "store_ok s" and "set keys \<subseteq> set (mailbox_keys s)"
  shows "store_ok (reply_in_files verify full i content now sig keys s) \<and>
    history v d (reply_in_files verify full i content now sig keys s) \<subseteq> history v d s \<and>
    ms_delivery (reply_in_files verify full i content now sig keys s) = ms_delivery s"
  using assms
proof (induction verify full i content now sig keys s rule: reply_in_files.induct)
  case (2 verify full i content now sig d' task keys s)
  show ?case
  proof (cases "reply_in_file verify full d' i content now sig (ms_files s (d', task))")
    case None
    then show ?thesis using 2 by simp
  next
    case (Some f')
    note ok = reply_in_file_ok [OF store_ok_verified [OF 2(2)] Some]
    have listed: "t \<in> set (ms_tasks s)" if "task = Some t" for t
      using 2(3) that by (auto simp: mailbox_keys_def)
    have "history v d (s\<lparr>ms_files := (ms_files s)((d', task) := f')\<rparr>) \<subseteq> history v d s"
      using ok by (intro history_update) simp
    moreover have "store_ok (s\<lparr>ms_files := (ms_files s)((d', task) := f')\<rparr>)"
      using 2(2) ok listed by (auto simp: store_ok_def)
    ultimately show ?thesis using Some by simp
  qed
qed simp

subsection \<open>An acknowledged message is never handed out again\<close>

text \<open>A message is settled when its entry says so, or when no reader of inboxes can see it any more.\<close>

definition settled :: "bool \<Rightarrow> string \<Rightarrow> mailbox_store \<Rightarrow> bool" where
  "settled v i s \<longleftrightarrow> store_ok s \<and>
     (map_of (dl_messages (ms_delivery s)) i = Some MAcknowledged \<or> i \<notin> history v Inbox s)"

text \<open>Nobody writes a new message under the id.\<close>

fun leaves_id :: "string \<Rightarrow> mailbox_op \<Rightarrow> bool" where
  "leaves_id i (OpAppend full sig m) = (mm_id m \<noteq> i)"
| "leaves_id i (OpStoreOnly full sig m) = (mm_id m \<noteq> i)"
| "leaves_id i (OpIdempotent full sig r m) = (mm_id m \<noteq> i)"
| "leaves_id i _ = True"

lemma settled_write:
  assumes "store_ok s" and "omap_ok (dl_messages dl)" and "me_verify env = v"
    and "map_of (dl_messages dl) i = Some MAcknowledged \<or> i \<notin> history v Inbox s"
  shows "settled v i (writeDeliveryState env dl s)"
  using assms(4) write_delivery(2) [OF assms(2), of i env s] store_ok_write [OF assms(1,2)] assms(3)
  by (auto simp: settled_def ids_readAllMessages [OF assms(1)])

lemma settled_store_message:
  assumes "settled v i s" and "mm_id m \<noteq> i"
  shows "settled v i (store_message full sig m s)"
proof -
  let ?f = "append_row full (signed_row m sig) (ms_files s (mm_direction m, mm_taskId m))"
  have ok: "store_ok s" using assms(1) by (simp add: settled_def)
  have "mm_id ` set (file_messages v (mm_direction m) ?f) \<subseteq> {mm_id m} \<union> history v (mm_direction m) s"
    using ids_append_row [of v "mm_direction m" full m sig "ms_files s (mm_direction m, mm_taskId m)"]
      file_history [of v "mm_direction m" s "mm_taskId m"] by blast
  then have "history v Inbox (store_message full sig m s) \<subseteq> {mm_id m} \<union> history v Inbox s"
    unfolding store_message_def by (rule history_set)
  moreover have "store_ok (store_message full sig m s)"
    unfolding store_message_def
    by (rule store_ok_set_file [OF ok]) (rule verified_append_row [OF store_ok_verified [OF ok]])
  moreover have "ms_delivery (store_message full sig m s) = ms_delivery s" by (simp add: store_message_def set_file_def)
  ultimately show ?thesis using assms by (auto simp: settled_def)
qed

lemma settled_record:
  assumes "settled v i s" and "me_verify env = v" and "mm_id m \<noteq> i"
  shows "settled v i (recordDeliveryEntry env m s)"
  unfolding recordDeliveryEntry_def
  using assms by (intro settled_write) (auto simp: settled_def store_ok_def)

lemma settled_touch:
  assumes "settled v i s"
  shows "settled v i (set_file d task (ms_files s (d, task)) s)"
proof -
  have ok: "store_ok s" using assms by (simp add: settled_def)
  have "history v Inbox (set_file d task (ms_files s (d, task)) s) \<subseteq> {} \<union> history v Inbox s"
    using file_history [of v d s task] by (intro history_set) simp
  moreover have "store_ok (set_file d task (ms_files s (d, task)) s)"
    by (rule store_ok_set_file [OF ok store_ok_verified [OF ok]])
  moreover have "ms_delivery (set_file d task (ms_files s (d, task)) s) = ms_delivery s" by (simp add: set_file_def)
  ultimately show ?thesis using assms by (auto simp: settled_def)
qed

lemma settled_idempotent:
  assumes "settled v i s" and "me_verify env = v" and "mm_id m \<noteq> i"
  shows "settled v i (snd (appendMailboxMessageIdempotent env full sig r m s))"
  using settled_record [OF settled_store_message [OF assms(1,3)] assms(2,3), of full sig]
    settled_touch [OF assms(1), of "mm_direction m" "mm_taskId m"]
  by (auto simp: appendMailboxMessageIdempotent_def store_once_def split: option.splits)

lemma fold_record_delivery:
  "omap_ok (dl_messages dl) \<Longrightarrow> omap_ok (dl_messages (fold record_delivery rs dl)) \<and>
   (map_of (dl_messages dl) i = Some MAcknowledged \<longrightarrow>
     map_of (dl_messages (fold record_delivery rs dl)) i = Some MAcknowledged)"
  by (induction rs arbitrary: dl) (auto simp: record_delivery_def)

lemma settled_record_delivery:
  assumes "settled v i s" and "me_verify env = v"
  shows "settled v i (recordMailboxRequestIdDelivery env rs s)"
  unfolding recordMailboxRequestIdDelivery_def
  using assms fold_record_delivery [of "ms_delivery s" rs i]
  by (intro settled_write) (auto simp: settled_def store_ok_def)

lemma settled_ack:
  assumes "settled v i s" and "me_verify env = v" and "acknowledgeMailboxMessage env j s = Inr s'"
  shows "settled v i s'"
proof -
  have s': "s' = writeDeliveryState env ((ms_delivery s)\<lparr>
      dl_messages := omap_set j MAcknowledged (dl_messages (ms_delivery s)), dl_updatedAt := me_now env\<rparr>) s"
    using assms(3) by (simp add: acknowledgeMailboxMessage_def split: if_splits)
  show ?thesis unfolding s'
    using assms(1,2) by (intro settled_write) (auto simp: settled_def store_ok_def)
qed

lemma settled_not_pending:
  assumes "settled v i s"
  shows "i \<notin> mm_id ` set (pending_messages v s)"
proof -
  have "store_ok s" using assms by (simp add: settled_def)
  then have "mm_id ` set (pending_messages v s) \<subseteq> history v Inbox s"
    using ids_readAllMessages [of s v Inbox] by (auto simp: pending_messages_def)
  then show ?thesis using assms by (auto simp: settled_def pending_messages_def)
qed

lemma fold_omap_set_other:
  "omap_ok es \<Longrightarrow> omap_ok (fold (\<lambda>m. omap_set (mm_id m) (st m)) ms es) \<and>
   (i \<notin> mm_id ` set ms \<longrightarrow> map_of (fold (\<lambda>m. omap_set (mm_id m) (st m)) ms es) i = map_of es i)"
  by (induction ms arbitrary: es) auto

lemma settled_replay:
  assumes "settled v i s" and "me_verify env = v"
  shows "settled v i (snd (replayPendingMailboxMessages env s))"
proof (cases "pending_messages v s = []")
  case False
  have "omap_ok (dl_messages (ms_delivery s))" using assms(1) by (simp add: settled_def store_ok_def)
  from fold_omap_set_other [OF this, of "\<lambda>_. MDelivered" "pending_messages v s" i] settled_not_pending [OF assms(1)]
  show ?thesis using False assms
    by (auto simp: replayPendingMailboxMessages_def Let_def intro!: settled_write) (auto simp: settled_def)
qed (use assms in \<open>simp add: replayPendingMailboxMessages_def Let_def\<close>)

lemma settled_reply:
  assumes "settled v i s"
  shows "settled v i (updateMailboxMessageReply env full sig j content s)"
  using assms reply_in_files_ok [of s "mailbox_keys s" "me_verify env" full j content "me_now env" sig v Inbox]
  by (auto simp: settled_def updateMailboxMessageReply_def)

lemma snd_validate_files:
  "snd (validate_files repair (k # ks) s) = snd (validate_files repair ks (snd (validate_file repair k s)))"
  by (simp add: split_beta Let_def)

lemma validate_file_ok:
  assumes "store_ok s" and "k \<in> set (mailbox_keys s)"
  shows "store_ok (snd (validate_file repair k s)) \<and> history v d (snd (validate_file repair k s)) \<subseteq> history v d s \<and>
    ms_delivery (snd (validate_file repair k s)) = ms_delivery s \<and> ms_tasks (snd (validate_file repair k s)) = ms_tasks s"
proof -
  obtain d' task where k: "k = (d', task)" by (cases k)
  let ?f = "(ms_files s k)\<lparr>mf_live := filter (valid_row d') (mf_live (ms_files s k))\<rparr>"
  have sub: "set (parseMailboxFile v d' (filter P xs)) \<subseteq> set (parseMailboxFile v d' xs)" for P xs
    by (auto simp: parseMailboxFile_def set_map_filter)
  have "mm_id ` set (file_messages v d' ?f) \<subseteq> mm_id ` set (file_messages v d' (ms_files s k))"
    using image_mono [OF sub, of mm_id "valid_row d'" "mf_live (ms_files s k)"]
    by (simp add: file_messages_def image_Un le_supI2)
  then have h: "history v d (s\<lparr>ms_files := (ms_files s)(k := ?f)\<rparr>) \<subseteq> history v d s"
    unfolding k by (rule history_update)
  have "verified_file ?f" using store_ok_verified [OF assms(1), of k] by (auto simp: verified_file_def file_rows_def)
  moreover have "t \<in> set (ms_tasks s)" if "task = Some t" for t
    using assms(2) that by (auto simp: mailbox_keys_def k)
  ultimately have ok: "store_ok (s\<lparr>ms_files := (ms_files s)(k := ?f)\<rparr>)" using assms(1) by (auto simp: store_ok_def k)
  show ?thesis using ok h assms(1) by (simp add: validate_file_def Let_def k)
qed

lemma validate_files_ok:
  "store_ok s \<Longrightarrow> set ks \<subseteq> set (mailbox_keys s) \<Longrightarrow>
   store_ok (snd (validate_files repair ks s)) \<and> history v d (snd (validate_files repair ks s)) \<subseteq> history v d s \<and>
   ms_delivery (snd (validate_files repair ks s)) = ms_delivery s"
proof (induction ks arbitrary: s)
  case (Cons k ks)
  note k = validate_file_ok [OF Cons.prems(1), of k repair v d]
  have "set ks \<subseteq> set (mailbox_keys (snd (validate_file repair k s)))"
    using k Cons.prems(2) by (simp add: mailbox_keys_def)
  from Cons.IH [OF _ this] k Cons.prems(2) show ?case unfolding snd_validate_files by auto
qed simp

lemma fill_entries_acked:
  "omap_ok es \<Longrightarrow> omap_ok (fill_entries ms es) \<and> (map_of es i = Some st \<longrightarrow> map_of (fill_entries ms es) i = Some st)"
  unfolding fill_entries_def
proof (induction ms arbitrary: es)
  case (Cons a ms)
  show ?case
    using Cons.IH [of "omap_set (mm_id a) (mm_status a) es"] Cons.IH [of es] Cons.prems
    by (cases "mm_id a = i") auto
qed simp

lemma settled_validate:
  assumes "settled v i s" and "me_verify env = v"
  shows "settled v i (snd (validateMailbox env repair s))"
proof -
  define s1 where "s1 = snd (validate_files repair (mailbox_keys s) s)"
  have s1: "settled v i s1"
    using assms(1) validate_files_ok [of s "mailbox_keys s" repair v Inbox] by (auto simp: settled_def s1_def)
  define ms where "ms = readAllMessages v s1 Inbox @ readAllMessages v s1 Outbox"
  have "omap_ok (dl_messages (ms_delivery s1))" using s1 by (simp add: settled_def store_ok_def)
  note fill = fill_entries_acked [OF this, of ms i MAcknowledged]
  have "snd (validateMailbox env repair s) = (if repair then writeDeliveryState env ((ms_delivery s1)\<lparr>
      dl_messages := fill_entries ms (dl_messages (ms_delivery s1)), dl_updatedAt := me_now env\<rparr>) s1 else s1)"
    using assms(2) by (simp add: validateMailbox_def Let_def split_beta s1_def ms_def)
  moreover have "settled v i (writeDeliveryState env ((ms_delivery s1)\<lparr>
      dl_messages := fill_entries ms (dl_messages (ms_delivery s1)), dl_updatedAt := me_now env\<rparr>) s1)"
    using s1 fill assms(2) by (intro settled_write) (auto simp: settled_def)
  ultimately show ?thesis using s1 by simp
qed

lemma settled_step:
  "settled v i s \<Longrightarrow> leaves_id i (snd e) \<Longrightarrow> mailbox_event v e s = Some s' \<Longrightarrow> settled v i s'"
  by (cases "snd e")
    (auto simp: mailbox_event_def appendMailboxMessage_def settled_store_message settled_record settled_idempotent
      settled_record_delivery settled_replay settled_reply settled_validate split: if_splits sum.splits
      intro: settled_ack)

interpretation settled_mail: machine_invariant "mailbox_event v" "\<lambda>e _. leaves_id i (snd e)" "settled v i"
  for v i
  by unfold_locales (rule settled_step)



subsection \<open>The pickup of a worker\<close>

definition messageIdempotencyKey :: "mailbox_message \<Rightarrow> string option" where
  "messageIdempotencyKey m =
     (if truthy (mm_requestId m) then mm_requestId m else jstring (data_field m ''requestId''))"

definition dedup_key :: "string \<Rightarrow> mailbox_message \<Rightarrow> string option" where
  "dedup_key taskId m =
     map_option (requestIdDeliveryKey (mm_direction m) (Some taskId)) (messageIdempotencyKey m)"

text \<open>The tests on a row that do not depend on the rows picked before it.\<close>

definition deliverable :: "string \<Rightarrow> string option \<Rightarrow> string set \<Rightarrow> delivery_state \<Rightarrow> mailbox_message \<Rightarrow> bool" where
  "deliverable taskId sinceTs seen dl m \<longleftrightarrow>
     mm_kind m = Some KMessage \<and> mm_from m \<noteq> taskId \<and> mm_taskId m = Some taskId \<and>
     mm_status m \<noteq> MAcknowledged \<and> (case sinceTs of None \<Rightarrow> True | Some ts \<Rightarrow> ts < mm_createdAt m) \<and>
     mm_id m \<notin> seen \<and>
     (case dedup_key taskId m of None \<Rightarrow> True | Some k \<Rightarrow> map_of (dl_requestIds dl) k = None) \<and>
     map_of (dl_messages dl) (mm_id m) \<noteq> Some MAcknowledged"

fun pick_inbox :: "string \<Rightarrow> string option \<Rightarrow> string set \<Rightarrow> delivery_state \<Rightarrow> nat option \<Rightarrow>
    mailbox_message list \<Rightarrow> mailbox_message list \<Rightarrow> mailbox_message list" where
  "pick_inbox taskId sinceTs seen dl limit [] picked = picked"
| "pick_inbox taskId sinceTs seen dl limit (m # ms) picked =
     (if (case limit of None \<Rightarrow> False | Some n \<Rightarrow> n \<le> length picked) then picked
      else if deliverable taskId sinceTs seen dl m \<and> mm_id m \<notin> mm_id ` set picked \<and>
              (dedup_key taskId m = None \<or> dedup_key taskId m \<notin> dedup_key taskId ` set picked)
      then pick_inbox taskId sinceTs seen dl limit ms (picked @ [m])
      else pick_inbox taskId sinceTs seen dl limit ms picked)"

text \<open>The result: the rows, and the ids seen afterwards. \<open>readable\<close> is false when a file cannot be read.\<close>

definition pollWorkerInbox :: "bool \<Rightarrow> bool \<Rightarrow> string \<Rightarrow> string \<Rightarrow> string \<Rightarrow> string option \<Rightarrow> string set \<Rightarrow>
    nat option \<Rightarrow> mailbox_store \<Rightarrow> mailbox_message list \<times> string set" where
  "pollWorkerInbox readable verify stateRoot runId taskId sinceTs seen limit s =
     (if stateRoot = [] \<or> runId = [] \<or> taskId = [] \<or> \<not> readable then ([], seen)
      else let picked = pick_inbox taskId sinceTs seen (ms_delivery s) limit
                          (readAllMailboxMessages verify s (Some Inbox)) []
           in (picked, seen \<union> mm_id ` set picked))"

definition acknowledgeWorkerInboxDelivery ::
    "mailbox_env \<Rightarrow> string \<Rightarrow> string \<Rightarrow> string \<Rightarrow> mailbox_message list \<Rightarrow> mailbox_store \<Rightarrow> mailbox_store" where
  "acknowledgeWorkerInboxDelivery env stateRoot runId taskId picked s =
     (if stateRoot = [] \<or> runId = [] \<or> taskId = [] \<or> picked = [] then s
      else recordMailboxRequestIdDelivery env
             (map (\<lambda>m. \<lparr> dr_direction = mm_direction m, dr_messageId = mm_id m, dr_taskId = Some taskId,
                          dr_requestId = messageIdempotencyKey m \<rparr>) picked) s)"

definition unmarkSeenInboxIds :: "string set \<Rightarrow> mailbox_message list \<Rightarrow> string set" where
  "unmarkSeenInboxIds seen picked = seen - mm_id ` set picked"

definition picked_ok :: "string \<Rightarrow> string option \<Rightarrow> string set \<Rightarrow> delivery_state \<Rightarrow> nat option \<Rightarrow>
    mailbox_message list \<Rightarrow> bool" where
  "picked_ok taskId sinceTs seen dl limit picked \<longleftrightarrow>
     (\<forall>m\<in>set picked. deliverable taskId sinceTs seen dl m) \<and> distinct (map mm_id picked) \<and>
     distinct (filter (\<lambda>k. k \<noteq> None) (map (dedup_key taskId) picked)) \<and>
     (case limit of None \<Rightarrow> True | Some n \<Rightarrow> length picked \<le> n)"

lemma picked_ok_snoc:
  assumes "picked_ok taskId sinceTs seen dl limit picked"
    and "\<not> (case limit of None \<Rightarrow> False | Some n \<Rightarrow> n \<le> length picked)"
    and "deliverable taskId sinceTs seen dl m" and "mm_id m \<notin> mm_id ` set picked"
    and "dedup_key taskId m = None \<or> dedup_key taskId m \<notin> dedup_key taskId ` set picked"
  shows "picked_ok taskId sinceTs seen dl limit (picked @ [m])"
  using assms by (auto simp: picked_ok_def split: option.splits)

lemma pick_inbox_ok:
  "picked_ok taskId sinceTs seen dl limit picked \<Longrightarrow>
   picked_ok taskId sinceTs seen dl limit (pick_inbox taskId sinceTs seen dl limit ms picked)"
  by (induction taskId sinceTs seen dl limit ms picked rule: pick_inbox.induct)
    (simp_all add: picked_ok_snoc del: split_paired_All)

lemma pick_inbox_subset: "set (pick_inbox taskId sinceTs seen dl limit ms picked) \<subseteq> set picked \<union> set ms"
proof (induction ms arbitrary: picked)
  case (Cons m ms)
  then show ?case using Cons [of "picked @ [m]"] Cons [of picked] by (simp del: if_image_distrib) blast
qed simp

lemma pick_inbox_prefix: "\<exists>more. pick_inbox taskId sinceTs seen dl limit ms picked = picked @ more"
  by (induction taskId sinceTs seen dl limit ms picked rule: pick_inbox.induct) auto


subsection \<open>Picked rows stay picked\<close>

lemma poll_subset:
  assumes "store_ok s" and "pollWorkerInbox readable v sr run task since seen limit s = (picked, seen')"
  shows "mm_id ` set picked \<subseteq> history v Inbox s" and "picked_ok task since seen (ms_delivery s) limit picked"
    and "seen' = seen \<union> mm_id ` set picked"
proof -
  define rows where "rows = readAllMailboxMessages v s (Some Inbox)"
  have sub: "mm_id ` set rows \<subseteq> history v Inbox s"
    using ids_readAllMessages [OF assms(1), of v Inbox] by (simp add: rows_def readAllMailboxMessages_def directions_of_def)
  have p: "picked = [] \<or> picked = pick_inbox task since seen (ms_delivery s) limit rows []"
    and s': "seen' = seen \<union> mm_id ` set picked"
    using assms(2) by (auto simp: pollWorkerInbox_def Let_def rows_def split: if_splits)
  show "seen' = seen \<union> mm_id ` set picked" by (rule s')
  have "picked_ok task since seen (ms_delivery s) limit []" by (simp add: picked_ok_def split: option.split)
  then show "picked_ok task since seen (ms_delivery s) limit picked" using p pick_inbox_ok by metis
  have "set picked \<subseteq> set rows" using p pick_inbox_subset [of task since seen "ms_delivery s" limit rows "[]"] by auto
  then show "mm_id ` set picked \<subseteq> history v Inbox s" using sub by blast
qed

lemma settled_not_picked:
  assumes "settled v i s" and "pollWorkerInbox readable v sr run task since seen limit s = (picked, seen')"
  shows "i \<notin> mm_id ` set picked"
proof
  assume i: "i \<in> mm_id ` set picked"
  have ok: "store_ok s" using assms(1) by (simp add: settled_def)
  note p = poll_subset [OF ok assms(2)]
  have "i \<in> history v Inbox s" using p(1) i by blast
  then have "map_of (dl_messages (ms_delivery s)) i = Some MAcknowledged" using assms(1) by (simp add: settled_def)
  then show False using i p(2) by (auto simp: picked_ok_def deliverable_def)
qed

lemma fold_record_marks:
  "omap_ok (dl_messages dl) \<Longrightarrow> i \<in> dr_messageId ` set rs \<Longrightarrow>
   map_of (dl_messages (fold record_delivery rs dl)) i = Some MAcknowledged"
proof (induction rs arbitrary: dl)
  case (Cons r rs)
  have ok: "omap_ok (dl_messages (record_delivery r dl))" using Cons.prems(1) by (simp add: record_delivery_def)
  show ?case
  proof (cases "i \<in> dr_messageId ` set rs")
    case True
    then show ?thesis using Cons.IH [OF ok] by simp
  next
    case False
    then have "map_of (dl_messages (record_delivery r dl)) i = Some MAcknowledged"
      using Cons.prems by (simp add: record_delivery_def)
    then show ?thesis using fold_record_delivery [OF ok, of rs i] by simp
  qed
qed simp

lemma settled_after_pickup:
  assumes "store_ok s" and "me_verify env = v" and "m \<in> set picked"
    and "sr \<noteq> []" and "run \<noteq> []" and "task \<noteq> []"
  shows "settled v (mm_id m) (acknowledgeWorkerInboxDelivery env sr run task picked s)"
proof -
  define rs where "rs = map (\<lambda>m. \<lparr> dr_direction = mm_direction m, dr_messageId = mm_id m, dr_taskId = Some task,
    dr_requestId = messageIdempotencyKey m \<rparr>) picked"
  have a: "acknowledgeWorkerInboxDelivery env sr run task picked s = recordMailboxRequestIdDelivery env rs s"
    using assms(3-6) by (auto simp: acknowledgeWorkerInboxDelivery_def rs_def)
  have i: "mm_id m \<in> dr_messageId ` set rs" using assms(3) by (auto simp: rs_def image_image)
  have ok: "omap_ok (dl_messages (ms_delivery s))" using assms(1) by (simp add: store_ok_def)
  show ?thesis unfolding a recordMailboxRequestIdDelivery_def
    using fold_record_marks [OF ok i] fold_record_delivery [OF ok] assms(1,2) by (intro settled_write) auto
qed

text \<open>
  C9. What a worker has been given and has confirmed is never given to it again: after a pickup and its
  confirmation, no later pickup returns a picked row, whatever operations on the mailbox lie between
  (appends under other ids, resends, replays, replies, validations with repair) and with whatever set of
  seen ids the new pickup starts, the empty one of a new process included.
\<close>

theorem picked_never_again:
  assumes "store_ok s" and "pollWorkerInbox readable (me_verify env) sr run task since seen limit s = (picked, seen')"
    and "m \<in> set picked"
    and "events_within (mailbox_event (me_verify env)) (\<lambda>e _. leaves_id (mm_id m) (snd e)) es
           (acknowledgeWorkerInboxDelivery env sr run task picked s)"
    and "run_events (mailbox_event (me_verify env)) es (acknowledgeWorkerInboxDelivery env sr run task picked s) = Some s2"
    and "pollWorkerInbox readable2 (me_verify env) sr2 run2 task2 since2 seen2 limit2 s2 = (picked2, seen2')"
  shows "mm_id m \<notin> mm_id ` set picked2"
proof -
  have "sr \<noteq> []" "run \<noteq> []" "task \<noteq> []" using assms(2,3) by (auto simp: pollWorkerInbox_def split: if_splits)
  then have "settled (me_verify env) (mm_id m) (acknowledgeWorkerInboxDelivery env sr run task picked s)"
    using settled_after_pickup [OF assms(1) refl assms(3)] by simp
  then have "settled (me_verify env) (mm_id m) s2" by (rule settled_mail.ok_run [OF _ assms(4,5)])
  then show ?thesis by (rule settled_not_picked [OF _ assms(6)])
qed

text \<open>
  A pickup returns at most the number of rows asked for, each once, no two with the same request id for
  the worker, none that was seen before, sent by the worker itself, addressed to another one or already
  acknowledged; and when handing the rows over fails, taking them out of the seen set makes the next
  pickup return the same rows.
\<close>

theorem pickup_sound_and_retried:
  assumes "pollWorkerInbox readable v sr run task since seen limit s = (picked, seen')"
  shows "picked_ok task since seen (ms_delivery s) limit picked \<and>
    pollWorkerInbox readable v sr run task since (unmarkSeenInboxIds seen' picked) limit s = (picked, seen')"
proof -
  define rows where "rows = readAllMailboxMessages v s (Some Inbox)"
  have p: "picked = [] \<or> picked = pick_inbox task since seen (ms_delivery s) limit rows []"
    and s': "seen' = seen \<union> mm_id ` set picked"
    using assms by (auto simp: pollWorkerInbox_def Let_def rows_def split: if_splits)
  have "picked_ok task since seen (ms_delivery s) limit []" by (simp add: picked_ok_def split: option.split)
  then have ok: "picked_ok task since seen (ms_delivery s) limit picked" using p pick_inbox_ok by metis
  then have "mm_id ` set picked \<inter> seen = {}" by (auto simp: picked_ok_def deliverable_def)
  then have "unmarkSeenInboxIds seen' picked = seen" unfolding unmarkSeenInboxIds_def s' by blast
  then show ?thesis using ok assms by simp
qed


subsection \<open>Resending\<close>

text \<open>What is in a file once a row has been appended to it.\<close>

lemma find_exists: "x \<in> set xs \<Longrightarrow> P x \<Longrightarrow> \<exists>y. find P xs = Some y \<and> P y"
  by (induction xs) auto

lemma find_some: "find P xs = Some x \<Longrightarrow> P x \<and> x \<in> set xs"
  by (induction xs) (auto split: if_splits)

lemma upsert_last: "m \<in> set (upsert m xs)"
  by (induction m xs rule: upsert.induct) auto

lemma safeRead_live_last:
  assumes "parseMailboxFile v d (mf_live f) = ms @ [m]"
  shows "m \<in> set (safeReadMailboxFile v d f)"
  using assms upsert_last by (simp add: safeReadMailboxFile_def Let_def)

lemma safeRead_archive_last:
  assumes "mf_live f = []" and "mf_archives f = as @ [a]" and "parseMailboxFile v d a = ms @ [m]"
  shows "m \<in> set (safeReadMailboxFile v d f)"
  using assms upsert_last by (simp add: safeReadMailboxFile_def Let_def)

lemma safeRead_append_row:
  assumes "mm_direction m = d"
  shows "read_back m \<in> set (safeReadMailboxFile v d (append_row full (signed_row m sig) f))"
proof -
  have p: "parseMailboxFile v d (mf_live f @ [signed_row m sig]) = parseMailboxFile v d (mf_live f) @ [read_back m]"
    using parse_signed [of v m sig] assms by simp
  show ?thesis
  proof (cases full)
    case True
    have "pruneOldMailboxArchives (mf_archives f @ [mf_live f @ [signed_row m sig]]) =
        drop (length (mf_archives f @ [mf_live f @ [signed_row m sig]]) - maxArchivesPerDirection) (mf_archives f) @
        [mf_live f @ [signed_row m sig]]"
      by (simp add: pruneOldMailboxArchives_def maxArchivesPerDirection_def)
    then show ?thesis using True
      by (intro safeRead_archive_last [OF _ _ p]) (simp_all add: append_row_def rotateMailboxFileIfNeeded_def)
  next
    case False
    then show ?thesis
      by (intro safeRead_live_last [of v d _ "parseMailboxFile v d (mf_live f)"])
        (simp add: append_row_def rotateMailboxFileIfNeeded_def p del: parseMailboxFile_append)
  qed
qed

lemma ms_files_record [simp]: "ms_files (recordDeliveryEntry env m s) = ms_files s"
  by (simp add: recordDeliveryEntry_def writeDeliveryState_def pruneDeliveryMessages_def Let_def split: prod.splits)

lemma ms_tasks_record [simp]: "ms_tasks (recordDeliveryEntry env m s) = ms_tasks s"
  by (simp add: recordDeliveryEntry_def writeDeliveryState_def pruneDeliveryMessages_def Let_def split: prod.splits)

lemma set_file_same:
  assumes "task = None \<or> the task \<in> set (ms_tasks s)"
  shows "set_file d task (ms_files s (d, task)) s = s"
  using assms by (cases task) (auto simp: set_file_def js_set_add_def)

text \<open>The request id of a message is among what its stored row is searched for.\<close>

lemma has_request_read_back [simp]: "has_request r (read_back m) = has_request r m"
  by (cases "mm_data m") (simp_all add: has_request_def read_back_def data_field_def)

lemma resend_found:
  assumes "appendMailboxMessageIdempotent env full sig r m s = ((m1, deduped), s1)" and "mm_requestId m = Some r"
    and "mm_direction m' = mm_direction m" and "mm_taskId m' = mm_taskId m" and "me_verify env' = me_verify env"
  shows "\<exists>m2. appendMailboxMessageIdempotent env' full' sig' r m' s1 = ((m2, True), s1) \<and> has_request r m2"
proof -
  let ?d = "mm_direction m" and ?t = "mm_taskId m" and ?v = "me_verify env"
  have "\<exists>x\<in>set (safeReadMailboxFile ?v ?d (ms_files s1 (?d, ?t))). has_request r x"
    and listed: "?t = None \<or> the ?t \<in> set (ms_tasks s1)"
  proof -
    show "\<exists>x\<in>set (safeReadMailboxFile ?v ?d (ms_files s1 (?d, ?t))). has_request r x"
    proof (cases "findRequestIdRowInFile ?v ?d r (ms_files s (?d, ?t))")
      case None
      then have "ms_files s1 (?d, ?t) = append_row full (signed_row m sig) (ms_files s (?d, ?t))"
        using assms(1) by (auto simp: appendMailboxMessageIdempotent_def store_once_def store_message_def set_file_def)
      then show ?thesis using safeRead_append_row [of m ?d ?v full sig] assms(2)
        by (intro bexI [of _ "read_back m"]) (simp_all add: has_request_def read_back_def)
    next
      case (Some x)
      then have "ms_files s1 (?d, ?t) = ms_files s (?d, ?t)"
        using assms(1) by (auto simp: appendMailboxMessageIdempotent_def store_once_def set_file_def)
      then show ?thesis using Some find_some [of "has_request r"] by (auto simp: findRequestIdRowInFile_def)
    qed
    show "?t = None \<or> the ?t \<in> set (ms_tasks s1)"
      using assms(1) by (cases ?t)
        (auto simp: appendMailboxMessageIdempotent_def store_once_def store_message_def set_file_def split: option.splits)
  qed
  then obtain m2 where "findRequestIdRowInFile ?v ?d r (ms_files s1 (?d, ?t)) = Some m2" "has_request r m2"
    unfolding findRequestIdRowInFile_def using find_exists [of _ _ "has_request r"] by blast
  then show ?thesis using assms(3-5) set_file_same [OF listed, of ?d]
    by (auto simp: appendMailboxMessageIdempotent_def store_once_def)
qed

text \<open>
  Sending is idempotent: once a message with a request id has been sent, sending it again to
  the same mailbox, with whatever new content, returns the row that is already there, marked as a duplicate,
  and changes nothing, also when the first send rotated the file into an archive.
\<close>

theorem resend_deduplicated:
  assumes "appendMailboxMessageIdempotent env full sig r m s = ((m1, deduped), s1)" and "mm_requestId m = Some r"
    and "mm_direction m' = mm_direction m" and "mm_taskId m' = mm_taskId m" and "me_verify env' = me_verify env"
  shows "\<exists>m2. appendMailboxMessageIdempotent env' full' sig' r m' s1 = ((m2, True), s1) \<and> has_request r m2"
  using assms by (rule resend_found)

subsection \<open>The bound of the delivery state\<close>

lemma length_filter_fst:
  assumes "omap_ok ms" and "set xs \<subseteq> set ms"
  shows "length (filter (\<lambda>e. fst e \<in> fst ` set xs) ms) = card (fst ` set xs)"
proof -
  have d: "distinct (map fst (filter (\<lambda>e. fst e \<in> fst ` set xs) ms))"
    using assms(1) by (simp add: omap_ok_def distinct_map_filter)
  have "fst ` set (filter (\<lambda>e. fst e \<in> fst ` set xs) ms) = fst ` set xs" using assms(2) by force
  then show ?thesis using distinct_card [OF d] by simp
qed

lemma cap_delivery_bound:
  assumes "omap_ok ms"
  shows "length (cap_delivery ms) \<le> max MAX_DELIVERY_MESSAGES (length (acked ms))"
proof (cases "length ms \<le> MAX_DELIVERY_MESSAGES")
  case False
  define sorted where "sorted = sort_key (\<lambda>e. tier (snd e)) ms"
  define xs where "xs = take (MAX_DELIVERY_MESSAGES - length (acked sorted)) (filter (\<lambda>e. snd e \<noteq> MAcknowledged) sorted) @ acked sorted"
  have c: "cap_delivery ms = filter (\<lambda>e. fst e \<in> fst ` set xs) ms"
    using False by (simp add: cap_delivery_def Let_def sorted_def xs_def image_Un)
  have mset: "length (acked sorted) = length (acked ms)"
    unfolding sorted_def acked_def by (metis filter_sort length_sort)
  have "set xs \<subseteq> set ms" by (auto simp: xs_def sorted_def acked_def dest: in_set_takeD)
  from length_filter_fst [OF assms this] have "length (cap_delivery ms) \<le> length xs"
    unfolding c by (metis card_length length_map list.set_map)
  also have "\<dots> \<le> max MAX_DELIVERY_MESSAGES (length (acked ms))" by (simp add: xs_def mset)
  finally show ?thesis .
qed (simp add: cap_delivery_def)

text \<open>When every entry is queued, the entries that come last are the ones that go.\<close>

lemma cap_delivery_queued:
  assumes "omap_ok ms" and "\<forall>e\<in>set ms. snd e = MQueued"
  shows "cap_delivery ms = take MAX_DELIVERY_MESSAGES ms"
proof (cases "length ms \<le> MAX_DELIVERY_MESSAGES")
  case False
  have "sort_key (\<lambda>e. tier (snd e)) ms = ms"
    using assms(2) by (intro sort_key_id_if_sorted) (induction ms, auto)
  moreover have "acked ms = []" using assms(2) by (auto simp: acked_def filter_empty_conv)
  moreover have "filter (\<lambda>e. snd e \<noteq> MAcknowledged) ms = ms" using assms(2) by (auto simp: filter_id_conv)
  ultimately have c: "cap_delivery ms = filter (\<lambda>e. fst e \<in> fst ` set (take MAX_DELIVERY_MESSAGES ms)) ms"
    using False by (simp add: cap_delivery_def Let_def)
  let ?n = MAX_DELIVERY_MESSAGES
  have d: "distinct (map fst ms)" using assms(1) by (simp add: omap_ok_def)
  have "filter (\<lambda>e. fst e \<in> fst ` set (take ?n ms)) (take ?n ms) = take ?n ms" by (auto simp: filter_id_conv)
  moreover have "fst ` set (take ?n ms) \<inter> fst ` set (drop ?n ms) = {}"
    using d by (metis append_take_drop_id distinct_append map_append set_map)
  then have "filter (\<lambda>e. fst e \<in> fst ` set (take ?n ms)) (drop ?n ms) = []" by (auto simp: filter_empty_conv)
  ultimately show ?thesis unfolding c by (metis append_Nil2 append_take_drop_id filter_append)
qed (simp add: cap_delivery_def)

lemma acked_filter: "length (acked (filter P ms)) \<le> length (acked ms)"
  by (induction ms) (simp_all add: acked_def)

lemma omap_set_new: "k \<notin> fst ` set ms \<Longrightarrow> omap_set k v ms = ms @ [(k, v)]"
  by (induction k v ms rule: omap_set.induct) auto

text \<open>
  Whatever is written, the delivery state stays bounded: afterwards it holds at most ten thousand
  entries, or as many as are acknowledged, and at most ten thousand request keys.
\<close>

theorem delivery_state_bounded:
  assumes "omap_ok (dl_messages dl)"
  shows "length (dl_messages (ms_delivery (writeDeliveryState env dl s)))
           \<le> max MAX_DELIVERY_MESSAGES (length (acked (dl_messages dl))) \<and>
         length (dl_requestIds (ms_delivery (writeDeliveryState env dl s))) \<le> MAX_DELIVERY_MESSAGES"
proof -
  obtain ms lst where sw: "(if ACK_SWEEP_MIN_ACKS < length (acked (dl_messages dl))
       then sweepDeadAcknowledgements (me_readable env) (me_verify env) (me_nowMs env) s (dl_messages dl)
       else (dl_messages dl, ms_lastSweep s)) = (ms, lst)" by force
  have w: "writeDeliveryState env dl s = s\<lparr>ms_delivery := dl\<lparr>dl_requestIds := pruneDeliveredRequestIds (dl_requestIds dl),
      dl_messages := cap_delivery ms\<rparr>, ms_lastSweep := lst\<rparr>"
    by (simp add: writeDeliveryState_def pruneDeliveryMessages_def sw)
  have ok: "omap_ok ms \<and> length (acked ms) \<le> length (acked (dl_messages dl))"
    using sw assms
    by (auto simp: sweepDeadAcknowledgements_def collectReplayableInboxIds_def Let_def omap_ok_filter acked_filter
        split: if_splits)
  then show ?thesis using cap_delivery_bound [of ms] by (auto simp: w pruneDeliveredRequestIds_def)
qed

text \<open>A store of a new run, and the limits it can reach.\<close>

definition ensureRunMailbox :: "string \<Rightarrow> mailbox_store" where
  "ensureRunMailbox now = \<lparr> ms_files = (\<lambda>_. \<lparr> mf_live = [], mf_archives = [] \<rparr>), ms_tasks = [],
     ms_delivery = \<lparr> dl_messages = [], dl_updatedAt = now, dl_requestIds = [] \<rparr>, ms_lastSweep = 0 \<rparr>"

lemma store_ok_new [simp]: "store_ok (ensureRunMailbox now)"
  by (simp add: store_ok_def ensureRunMailbox_def verified_file_def file_rows_def omap_ok_def)

lemma store_ok_append [simp]: "store_ok s \<Longrightarrow> store_ok (appendMailboxMessage env full sig m s)"
  unfolding appendMailboxMessage_def recordDeliveryEntry_def store_message_def
  by (intro store_ok_write(1) store_ok_set_file verified_append_row store_ok_verified)
    (simp_all add: store_ok_def set_file_def)

text \<open>
  When ten thousand queued entries are recorded, the entry of a newly sent message is the one
  that the cap drops, so acknowledging that message fails as not found.
\<close>

theorem append_beyond_cap_lost:
  assumes "omap_ok (dl_messages (ms_delivery s))" and "\<forall>e\<in>set (dl_messages (ms_delivery s)). snd e = MQueued"
    and "MAX_DELIVERY_MESSAGES \<le> length (dl_messages (ms_delivery s))"
    and "mm_id m \<notin> fst ` set (dl_messages (ms_delivery s))" and "mm_status m = MQueued"
  shows "acknowledgeMailboxMessage env' (mm_id m) (appendMailboxMessage env full sig m s) =
    Inl (''Mailbox message '' @ quoted (mm_id m) @ '' not found.'')"
proof -
  let ?ms = "dl_messages (ms_delivery s)"
  have new: "omap_set (mm_id m) MQueued ?ms = ?ms @ [(mm_id m, MQueued)]" using assms(4) by (rule omap_set_new)
  have d: "ms_delivery (store_message full sig m s) = ms_delivery s" by (simp add: store_message_def set_file_def)
  have "acked (?ms @ [(mm_id m, MQueued)]) = []" using assms(2) by (auto simp: acked_def filter_empty_conv)
  moreover have "cap_delivery (?ms @ [(mm_id m, MQueued)]) = take MAX_DELIVERY_MESSAGES ?ms"
    using cap_delivery_queued [of "?ms @ [(mm_id m, MQueued)]"] omap_ok_set [OF assms(1), of "mm_id m" MQueued] new
      assms(2,3) by auto
  ultimately have "dl_messages (ms_delivery (appendMailboxMessage env full sig m s)) = take MAX_DELIVERY_MESSAGES ?ms"
    using assms(5) by (simp add: appendMailboxMessage_def recordDeliveryEntry_def writeDeliveryState_def
        pruneDeliveryMessages_def d new)
  moreover have "map_of (take MAX_DELIVERY_MESSAGES ?ms) (mm_id m) = None"
    using assms(4) by (auto simp: map_of_eq_None_iff dest: in_set_takeD)
  ultimately show ?thesis by (simp add: acknowledgeMailboxMessage_def)
qed

text \<open>
  A send that ended between the row and its delivery entry is not repaired by resending it: the
  resend is a duplicate that records nothing, and acknowledging the message fails as not found.
\<close>

theorem crashed_send_unacknowledgeable:
  assumes "mm_requestId m = Some r" and "map_of (dl_messages (ms_delivery s)) (mm_id m) = None"
    and "mm_direction m' = mm_direction m" and "mm_taskId m' = mm_taskId m"
  shows "\<exists>m2 s'. appendMailboxMessageIdempotent env full' sig' r m' (store_message full sig m s) = ((m2, True), s') \<and>
    acknowledgeMailboxMessage env' (mm_id m) s' = Inl (''Mailbox message '' @ quoted (mm_id m) @ '' not found.'')"
proof -
  let ?d = "mm_direction m" and ?t = "mm_taskId m" and ?v = "me_verify env"
  let ?s = "store_message full sig m s"
  have "ms_files ?s (?d, ?t) = append_row full (signed_row m sig) (ms_files s (?d, ?t))"
    by (simp add: store_message_def set_file_def)
  then have "read_back m \<in> set (safeReadMailboxFile ?v ?d (ms_files ?s (?d, ?t)))"
    using safeRead_append_row [of m ?d ?v full sig] by simp
  moreover have "has_request r (read_back m)" unfolding has_request_read_back using assms(1) by (simp add: has_request_def)
  ultimately obtain m2 where "findRequestIdRowInFile ?v ?d r (ms_files ?s (?d, ?t)) = Some m2"
    unfolding findRequestIdRowInFile_def using find_exists [of _ _ "has_request r"] by blast
  moreover have "?t = None \<or> the ?t \<in> set (ms_tasks ?s)"
    by (cases ?t) (simp_all add: store_message_def set_file_def)
  ultimately have "appendMailboxMessageIdempotent env full' sig' r m' ?s = ((m2, True), ?s)"
    using assms(3,4) set_file_same [of ?t ?s ?d] by (simp add: appendMailboxMessageIdempotent_def store_once_def)
  moreover have "ms_delivery ?s = ms_delivery s" by (simp add: store_message_def set_file_def)
  ultimately show ?thesis using assms(2) by (simp add: acknowledgeMailboxMessage_def)
qed

subsection \<open>Replies and rows nobody signed\<close>

text \<open>
  A reply authenticates a row that nobody signed. A line of the run inbox with a wrong signature
  is invisible to the verifying readers; after a reply to its id they return it, with the sender and the body
  it was forged with.
\<close>

theorem reply_signs_forged_row:
  assumes "r \<in> set (mf_live (ms_files s (Inbox, None)))" and "mr_json r = Some j" and "\<not> mr_verified r"
    and "parseMailboxMessage j Inbox = Some m" and "mf_archives (ms_files s (Inbox, None)) = []"
  shows "row_message True Inbox r = None \<and>
    (\<exists>m'\<in>set (read_file True (updateMailboxMessageReply env full sig (mm_id m) content s) Inbox None).
       mm_id m' = mm_id m \<and> mm_from m' = mm_from m \<and> mm_body m' = mm_body m)"
proof -
  let ?f = "ms_files s (Inbox, None)"
  let ?m = "m\<lparr>mm_repliedAt := Some (me_now env), mm_replyContent := Some content\<rparr>"
  have d: "mm_direction m = Inbox" using assms(4) by (rule parse_direction)
  have "live_has Inbox (mm_id m) ?f" using assms(1,2,4) by (auto simp: live_has_def list_ex_iff intro!: bexI [of _ r])
  then have "read_file True (updateMailboxMessageReply env full sig (mm_id m) content s) Inbox None =
      parseMailboxFile True Inbox (map (reply_row Inbox (mm_id m) content (me_now env) sig) (mf_live ?f))"
    using assms(5) by (simp add: updateMailboxMessageReply_def mailbox_keys_def reply_in_file_def read_file_def
        safeReadMailboxFile_def)
  moreover have "reply_row Inbox (mm_id m) content (me_now env) sig r = signed_row ?m sig"
    using assms(2,4) by (simp add: reply_row_def)
  then have "row_message True Inbox (reply_row Inbox (mm_id m) content (me_now env) sig r) = Some (read_back ?m)"
    using d by simp
  then have "read_back ?m \<in> set (parseMailboxFile True Inbox (map (reply_row Inbox (mm_id m) content (me_now env) sig) (mf_live ?f)))"
    using assms(1) by (auto simp: parseMailboxFile_def set_map_filter)
  ultimately have "read_back ?m \<in> set (read_file True (updateMailboxMessageReply env full sig (mm_id m) content s) Inbox None)"
    by simp
  then show ?thesis using assms(2,3) by (intro conjI bexI [of _ "read_back ?m"]) (simp_all add: row_message_def read_back_def)
qed

subsection \<open>Concrete runs\<close>

definition plain_message :: "string \<Rightarrow> string option \<Rightarrow> mailbox_message" where
  "plain_message i task = \<lparr> mm_id = i, mm_runId = ''r'', mm_direction = Inbox, mm_from = ''lead'', mm_to = ''w'',
     mm_body = ''hi'', mm_createdAt = ''2026'', mm_status = MQueued, mm_kind = Some KMessage, mm_priority = None,
     mm_deliveryMode = None, mm_taskId = task, mm_questionId = None, mm_requestId = Some (''q'' @ i),
     mm_acknowledgedAt = None, mm_data = None, mm_reason = None, mm_replyTo = None, mm_replyFrom = None,
     mm_replyDeadline = None, mm_repliedAt = None, mm_replyContent = None \<rparr>"

definition plain_env :: mailbox_env where
  "plain_env = \<lparr> me_verify = True, me_readable = True, me_now = ''now'', me_nowMs = 0 \<rparr>"

definition one_message :: mailbox_store where
  "one_message = appendMailboxMessage plain_env False ''s'' (plain_message ''a'' (Some ''t'')) (ensureRunMailbox ''now'')"

lemma store_ok_one [simp]: "store_ok one_message"
  by (simp add: one_message_def)

lemma plain_simps [simp]:
  "mm_id (plain_message i task) = i" "mm_taskId (plain_message i task) = task"
  "mm_direction (plain_message i task) = Inbox" "mm_status (plain_message i task) = MQueued"
  "mm_requestId (plain_message i task) = Some (''q'' @ i)" "me_verify plain_env = True"
  by (simp_all add: plain_message_def plain_env_def)


theorem picked_never_again_witness:
  "mm_id ` set (fst (pollWorkerInbox True True ''r'' ''r'' ''t'' None {} None one_message)) = {''a''} \<and>
   ''a'' \<notin> mm_id ` set (fst (pollWorkerInbox True True ''r'' ''r'' ''t'' None {} None
     (acknowledgeWorkerInboxDelivery plain_env ''r'' ''r'' ''t''
       (fst (pollWorkerInbox True True ''r'' ''r'' ''t'' None {} None one_message)) one_message)))"
proof -
  obtain picked seen' where p: "pollWorkerInbox True True ''r'' ''r'' ''t'' None {} None one_message = (picked, seen')"
    by force
  have a: "mm_id ` set (fst (pollWorkerInbox True True ''r'' ''r'' ''t'' None {} None one_message)) = {''a''}"
    by code_simp
  then have "''a'' \<in> mm_id ` set picked" unfolding p fst_conv by blast
  then obtain m where m: "m \<in> set picked" "mm_id m = ''a''" by (metis imageE)
  let ?s = "acknowledgeWorkerInboxDelivery plain_env ''r'' ''r'' ''t'' picked one_message"
  obtain picked2 seen2' where q: "pollWorkerInbox True True ''r'' ''r'' ''t'' None {} None ?s = (picked2, seen2')" by force
  note p' = p [folded plain_simps(6)] and q' = q [folded plain_simps(6)]
  have "mm_id m \<notin> mm_id ` set picked2"
    by (rule picked_never_again [where es = "[]" and env = plain_env, OF store_ok_one p' m(1) _ _ q']) simp_all
  then show ?thesis using a unfolding p q m(2) fst_conv by blast
qed

theorem pickup_sound_and_retried_witness:
  "pollWorkerInbox True True ''r'' ''r'' ''t'' None
     (unmarkSeenInboxIds (snd (pollWorkerInbox True True ''r'' ''r'' ''t'' None {} None one_message))
       (fst (pollWorkerInbox True True ''r'' ''r'' ''t'' None {} None one_message))) None one_message =
   pollWorkerInbox True True ''r'' ''r'' ''t'' None {} None one_message"
  using pickup_sound_and_retried [of True True "''r''" "''r''" "''t''" None "{}" None one_message
      "fst (pollWorkerInbox True True ''r'' ''r'' ''t'' None {} None one_message)"
      "snd (pollWorkerInbox True True ''r'' ''r'' ''t'' None {} None one_message)"] by simp

theorem resend_deduplicated_witness:
  "\<exists>m2. appendMailboxMessageIdempotent plain_env False ''s'' ''qa'' (plain_message ''z'' (Some ''t''))
       (snd (appendMailboxMessageIdempotent plain_env True ''s'' ''qa'' (plain_message ''a'' (Some ''t'')) (ensureRunMailbox ''now''))) =
     ((m2, True), snd (appendMailboxMessageIdempotent plain_env True ''s'' ''qa'' (plain_message ''a'' (Some ''t'')) (ensureRunMailbox ''now'')))
     \<and> has_request ''qa'' m2"
proof -
  obtain m1 dd s1 where e: "appendMailboxMessageIdempotent plain_env True ''s'' ''qa'' (plain_message ''a'' (Some ''t''))
      (ensureRunMailbox ''now'') = ((m1, dd), s1)" by (metis prod.exhaust)
  show ?thesis using resend_deduplicated [OF e, of "plain_message ''z'' (Some ''t'')" plain_env False "''s''"] e by simp
qed

theorem delivery_state_bounded_witness:
  "length (dl_messages (ms_delivery (writeDeliveryState plain_env
     \<lparr> dl_messages = map (\<lambda>n. (replicate n CHR ''a'', MQueued)) [0..<20000], dl_updatedAt = [], dl_requestIds = [] \<rparr>
     (ensureRunMailbox ''now'')))) \<le> 10000"
  using delivery_state_bounded [of "\<lparr> dl_messages = map (\<lambda>n. (replicate n CHR ''a'', MQueued)) [0..<20000],
      dl_updatedAt = [], dl_requestIds = [] \<rparr>" plain_env "ensureRunMailbox ''now''"]
  by (simp add: omap_ok_def distinct_map inj_on_def acked_def o_def MAX_DELIVERY_MESSAGES_def filter_map del: upt_rec_numeral)

definition full_store :: mailbox_store where
  "full_store = (ensureRunMailbox ''now'')\<lparr>ms_delivery :=
     \<lparr> dl_messages = map (\<lambda>n. (replicate n CHR ''x'', MQueued)) [0..<10000], dl_updatedAt = ''now'', dl_requestIds = [] \<rparr>\<rparr>"

theorem append_beyond_cap_lost_witness:
  "acknowledgeMailboxMessage plain_env ''a''
     (appendMailboxMessage plain_env False ''s'' (plain_message ''a'' None) full_store) =
   Inl (''Mailbox message '' @ quoted ''a'' @ '' not found.'')"
proof -
  have d: "dl_messages (ms_delivery full_store) = map (\<lambda>n. (replicate n CHR ''x'', MQueued)) [0..<10000]"
    by (simp add: full_store_def del: upt_rec_numeral)
  have "''a'' \<notin> fst ` set (dl_messages (ms_delivery full_store))"
    unfolding d by (auto simp: Cons_replicate_eq simp del: upt_rec_numeral)
  moreover have "omap_ok (dl_messages (ms_delivery full_store))"
    unfolding d by (simp add: omap_ok_def distinct_map inj_on_def o_def del: upt_rec_numeral)
  moreover have "\<forall>e\<in>set (dl_messages (ms_delivery full_store)). snd e = MQueued"
    unfolding d by (auto simp del: upt_rec_numeral)
  moreover have "MAX_DELIVERY_MESSAGES \<le> length (dl_messages (ms_delivery full_store))"
    unfolding d by (simp add: MAX_DELIVERY_MESSAGES_def del: upt_rec_numeral)
  ultimately show ?thesis
    using append_beyond_cap_lost [of full_store "plain_message ''a'' None" plain_env plain_env False "''s''"]
    unfolding plain_simps by blast
qed

theorem crashed_send_unacknowledgeable_witness:
  "\<exists>m2 s'. appendMailboxMessageIdempotent plain_env False ''s'' ''qa'' (plain_message ''a'' None)
       (store_message False ''s'' (plain_message ''a'' None) (ensureRunMailbox ''now'')) = ((m2, True), s') \<and>
     acknowledgeMailboxMessage plain_env ''a'' s' = Inl (''Mailbox message '' @ quoted ''a'' @ '' not found.'')"
  using crashed_send_unacknowledgeable [of "plain_message ''a'' None" "''qa''" "ensureRunMailbox ''now''"
      "plain_message ''a'' None" plain_env False "''s''" False "''s''" plain_env]
  by (simp add: ensureRunMailbox_def)

text \<open>A run inbox that holds one line nobody signed.\<close>

definition forged_store :: mailbox_store where
  "forged_store = (ensureRunMailbox ''now'')\<lparr>ms_files := (\<lambda>_. \<lparr> mf_live = [], mf_archives = [] \<rparr>)((Inbox, None) :=
     \<lparr> mf_live = [\<lparr> mr_json = Some (message_row (plain_message ''f'' None) ''no''), mr_verified = False \<rparr>],
       mf_archives = [] \<rparr>)\<rparr>"

theorem reply_signs_forged_row_witness:
  "read_file True forged_store Inbox None = [] \<and>
   (\<exists>m'. m' \<in> set (read_file True (updateMailboxMessageReply plain_env False ''s'' ''f'' ''ok'' forged_store) Inbox None) \<and>
     mm_from m' = ''lead'' \<and> mm_body m' = ''hi'')"
proof -
  let ?r = "\<lparr> mr_json = Some (message_row (plain_message ''f'' None) ''no''), mr_verified = False \<rparr>"
  have "read_file True forged_store Inbox None = []"
    by (simp add: read_file_def forged_store_def safeReadMailboxFile_def parseMailboxFile_def row_message_def
        List.map_filter_simps)
  moreover have "parseMailboxMessage (message_row (plain_message ''f'' None) ''no'') Inbox =
      Some (plain_message ''f'' None)"
    by (simp add: parse_message_row plain_message_def finite_only_def)
  ultimately show ?thesis
    using reply_signs_forged_row [of ?r forged_store "message_row (plain_message ''f'' None) ''no''"
        "plain_message ''f'' None" plain_env False "''s''" "''ok''"]
    by (auto simp: forged_store_def) (auto simp: plain_message_def)
qed

end
