(* ===== verification/BrokerParams.thy ===== *)
theory BrokerParams
  imports Mailbox "HOL-Library.Code_Target_Nat"
begin

text \<open>
  The parameters of the broker protocol, \<open>src/src/runtime/broker/protocol/request-parsers.ts\<close>: the guard of
  a request, the parsers of every method, and the text that a dispatcher signs. A parser gets a value of
  \<open>JSON.parse\<close>, \<open>None\<close> for \<open>undefined\<close>; a result \<open>None\<close> is a request that is refused.
\<close>

subsection \<open>Shapes of values\<close>

text \<open>A string of at least \<open>lo\<close> and at most \<open>hi\<close> characters.\<close>

definition sized :: "nat \<Rightarrow> nat \<Rightarrow> json option \<Rightarrow> string option" where
  "sized lo hi v = Option.bind (jstring v) (\<lambda>s. if lo \<le> length s \<and> length s \<le> hi then Some s else None)"

lemma sized_Some [simp]: "sized lo hi v = Some s \<longleftrightarrow> v = Some (JStr s) \<and> lo \<le> length s \<and> length s \<le> hi"
  by (auto simp: sized_def bind_eq_Some_conv)

text \<open>An optional field: absent, or accepted by \<open>p\<close>; \<open>None\<close> when the request is refused.\<close>

definition optional :: "(json option \<Rightarrow> 'a option) \<Rightarrow> json option \<Rightarrow> 'a option option" where
  "optional p v = (if v = None then Some None else map_option Some (p v))"

lemma optional_None [simp]: "optional p v = Some None \<longleftrightarrow> v = None"
  by (simp add: optional_def)

lemma optional_Some [simp]: "optional p v = Some (Some x) \<longleftrightarrow> v \<noteq> None \<and> p v = Some x"
  by (auto simp: optional_def)

definition word_char :: "char \<Rightarrow> bool" where
  "word_char c \<longleftrightarrow> is_letter c \<or> is_digit c \<or> c = CHR ''_''"

text \<open>\<open>/^[\w:.-]{1,256}$/\<close> and \<open>/^[a-zA-Z][a-zA-Z0-9._-]{0,63}$/\<close>.\<close>

definition request_id_ok :: "string \<Rightarrow> bool" where
  "request_id_ok s \<longleftrightarrow> 1 \<le> length s \<and> length s \<le> 256 \<and>
     list_all (\<lambda>c. word_char c \<or> c \<in> set '':.-'') s"

definition method_ok :: "string \<Rightarrow> bool" where
  "method_ok s \<longleftrightarrow> (case s of [] \<Rightarrow> False
     | c # cs \<Rightarrow> is_letter c \<and> length cs \<le> 63 \<and> list_all (\<lambda>c. word_char c \<or> c \<in> set ''.-'') cs)"

definition request_id_of :: "json option \<Rightarrow> string option" where
  "request_id_of v = Option.bind (jstring v) (\<lambda>s. if request_id_ok s then Some s else None)"

text \<open>\<open>Number.isInteger(n)\<close>, and a number in a range of integers.\<close>

fun js_integer :: "jsnum \<Rightarrow> int option" where
  "js_integer (Fin r) = (if rat_of_int \<lfloor>r\<rfloor> = r then Some \<lfloor>r\<rfloor> else None)"
| "js_integer _ = None"

definition integer_in :: "int \<Rightarrow> int \<Rightarrow> json option \<Rightarrow> int option" where
  "integer_in lo hi v = Option.bind (Option.bind (jnumber v) js_integer) (\<lambda>n. if lo \<le> n \<and> n \<le> hi then Some n else None)"

fun finite_num :: "jsnum \<Rightarrow> rat option" where
  "finite_num (Fin r) = Some r"
| "finite_num _ = None"

definition finite_number :: "json option \<Rightarrow> rat option" where
  "finite_number v = Option.bind (jnumber v) finite_num"

lemma integer_in_Some: "integer_in lo hi v = Some n \<Longrightarrow> lo \<le> n \<and> n \<le> hi"
  by (auto simp: integer_in_def bind_eq_Some_conv split: if_splits)

subsection \<open>Requests and the first message\<close>

definition isRequestObject :: "json \<Rightarrow> (string \<times> string \<times> json) option" where
  "isRequestObject value =
     (case (sized 1 256 (jfield (Some value) ''id''), sized 1 64 (jfield (Some value) ''method''),
            jfield (Some value) ''params'') of
        (Some i, Some m, Some p) \<Rightarrow> if method_ok m then Some (i, m, p) else None
      | _ \<Rightarrow> None)"

definition BROKER_PROTOCOL :: int where "BROKER_PROTOCOL = 1"

record hello_params =
  hp_protocol :: int
  hp_runId :: string
  hp_taskId :: string
  hp_token :: string

definition isHelloParams :: "json \<Rightarrow> hello_params option" where
  "isHelloParams value =
     (case (Option.bind (jnumber (jfield (Some value) ''protocol'')) js_integer,
            sized 1 256 (jfield (Some value) ''runId''), sized 1 256 (jfield (Some value) ''taskId''),
            sized 1 256 (jfield (Some value) ''token'')) of
        (Some p, Some r, Some t, Some k) \<Rightarrow>
          Some \<lparr> hp_protocol = p, hp_runId = r, hp_taskId = t, hp_token = k \<rparr>
      | _ \<Rightarrow> None)"

subsection \<open>Messages\<close>

datatype msg_to = ToOne string | ToMany "string list"

record msg_send_params =
  sp_to :: msg_to
  sp_body :: json
  sp_kind :: "mailbox_kind option"
  sp_priority :: "mailbox_priority option"
  sp_replyTo :: "string option"
  sp_subject :: "string option"
  sp_requestId :: "string option"

text \<open>The recipients: one non-empty string, or an array of them.\<close>

fun msg_to_of :: "json option \<Rightarrow> msg_to option" where
  "msg_to_of (Some (JStr s)) = (if s = [] then None else Some (ToOne s))"
| "msg_to_of (Some (JArr xs)) =
     (if list_all (\<lambda>x. case jstring (Some x) of Some s \<Rightarrow> s \<noteq> [] | None \<Rightarrow> False) xs
      then Some (ToMany (List.map_filter (\<lambda>x. jstring (Some x)) xs)) else None)"
| "msg_to_of _ = None"

definition parseMsgSendParams :: "json \<Rightarrow> msg_send_params option" where
  "parseMsgSendParams value =
     (let v = Some value
      in case (msg_to_of (jfield v ''to''), jfield v ''body'', optional isKind (jfield v ''kind''),
               optional isPriority (jfield v ''priority'')) of
           (Some t, Some b, Some k, Some p) \<Rightarrow>
             Some \<lparr> sp_to = t, sp_body = b, sp_kind = k, sp_priority = p,
               sp_replyTo = jstring (jfield v ''replyTo''),
               sp_subject = sized 1 256 (jfield v ''subject''),
               sp_requestId = request_id_of (jfield v ''requestId'') \<rparr>
         | _ \<Rightarrow> None)"

record msg_inbox_params =
  ip_limit :: "rat option"
  ip_cursor :: "string option"

definition inbox_limit :: "json option \<Rightarrow> rat option" where
  "inbox_limit v = Option.bind (finite_number v) (\<lambda>r. if r < 1 then None else Some r)"

definition parseMsgInboxParams :: "json option \<Rightarrow> msg_inbox_params option" where
  "parseMsgInboxParams value =
     (if value = None \<or> value = Some JNull then Some \<lparr> ip_limit = Some 100, ip_cursor = None \<rparr>
      else if \<not> is_record value then None
      else case (optional inbox_limit (jfield value ''limit''), optional jstring (jfield value ''cursor'')) of
             (Some l, Some c) \<Rightarrow> Some \<lparr> ip_limit = l, ip_cursor = c \<rparr>
           | _ \<Rightarrow> None)"

subsection \<open>Asks\<close>

definition WAIT_REQUEST_TIMEOUT_SEC_MAX :: rat where "WAIT_REQUEST_TIMEOUT_SEC_MAX = 3600"
definition WAIT_REQUEST_TIMEOUT_SEC_DEFAULT :: rat where "WAIT_REQUEST_TIMEOUT_SEC_DEFAULT = 480"
definition WAIT_QUESTION_MAX_CHARS :: nat where "WAIT_QUESTION_MAX_CHARS = 8192"
definition WAIT_OPTIONS_MAX :: nat where "WAIT_OPTIONS_MAX = 16"
definition WAIT_OPTION_MAX_CHARS :: nat where "WAIT_OPTION_MAX_CHARS = 256"

record wait_request_params =
  wr_to :: string
  wr_question :: string
  wr_options :: "string list option"
  wr_timeoutSec :: "rat option"

definition wait_options :: "json option \<Rightarrow> string list option" where
  "wait_options v = Option.bind (jarray v) (\<lambda>xs.
     let ss = map (\<lambda>x. sized 1 WAIT_OPTION_MAX_CHARS (Some x)) xs
     in if xs = [] \<or> WAIT_OPTIONS_MAX < length xs \<or> None \<in> set ss then None else Some (map the ss))"

definition parseWaitRequestParams :: "json \<Rightarrow> wait_request_params option" where
  "parseWaitRequestParams value =
     (let v = Some value
      in case (sized 1 256 (jfield v ''to''), sized 1 WAIT_QUESTION_MAX_CHARS (jfield v ''question''),
               optional wait_options (jfield v ''options''), optional finite_number (jfield v ''timeoutSec'')) of
           (Some t, Some q, Some opts, Some secs) \<Rightarrow>
             Some \<lparr> wr_to = t, wr_question = q, wr_options = opts, wr_timeoutSec = secs \<rparr>
         | _ \<Rightarrow> None)"

datatype wait_outcome = Answered | TimedOut | WaitAborted

fun outcome_str :: "wait_outcome \<Rightarrow> string" where
  "outcome_str Answered = ''answered''"
| "outcome_str TimedOut = ''timed-out''"
| "outcome_str WaitAborted = ''aborted''"

record wait_resolve_params =
  vr_to :: string
  vr_questionId :: string
  vr_outcome :: "wait_outcome option"

definition parseWaitResolveParams :: "json \<Rightarrow> wait_resolve_params option" where
  "parseWaitResolveParams value =
     (let v = Some value
      in case (sized 1 256 (jfield v ''to''), sized 1 128 (jfield v ''questionId''),
               optional (named outcome_str [Answered, TimedOut, WaitAborted]) (jfield v ''outcome'')) of
           (Some t, Some q, Some out) \<Rightarrow> Some \<lparr> vr_to = t, vr_questionId = q, vr_outcome = out \<rparr>
         | _ \<Rightarrow> None)"

subsection \<open>Delegation\<close>

definition DELEGATE_MAX_TURNS_CEILING :: int where "DELEGATE_MAX_TURNS_CEILING = 200"
definition DELEGATE_BUDGET_TOKENS_CEILING :: int where "DELEGATE_BUDGET_TOKENS_CEILING = 100000000"
definition DELEGATE_PROMPT_MAX_CHARS :: nat where "DELEGATE_PROMPT_MAX_CHARS = 100000"

datatype delegate_role = Explorer | Analyst | Executor

fun delegate_role_str :: "delegate_role \<Rightarrow> string" where
  "delegate_role_str Explorer = ''explorer''"
| "delegate_role_str Analyst = ''analyst''"
| "delegate_role_str Executor = ''executor''"

record delegate_params =
  dp_prompt :: string
  dp_description :: "string option"
  dp_role :: "delegate_role option"
  dp_model :: "string option"
  dp_maxTurns :: "int option"
  dp_budgetTokens :: "int option"
  dp_timeoutSec :: "rat option"

definition delegate_prompt :: "json option \<Rightarrow> string option" where
  "delegate_prompt v = Option.bind (jstring v) (\<lambda>s.
     if list_all js_space s \<or> DELEGATE_PROMPT_MAX_CHARS < length s then None else Some s)"

definition parseDelegateRequestParams :: "json \<Rightarrow> delegate_params option" where
  "parseDelegateRequestParams value =
     (let v = Some value
      in case (delegate_prompt (jfield v ''prompt''), optional jstring (jfield v ''description''),
               optional (named delegate_role_str [Explorer, Analyst, Executor]) (jfield v ''role''),
               optional jstring (jfield v ''model''),
               optional (integer_in 1 DELEGATE_MAX_TURNS_CEILING) (jfield v ''maxTurns''),
               optional (integer_in 0 DELEGATE_BUDGET_TOKENS_CEILING) (jfield v ''budgetTokens''),
               optional finite_number (jfield v ''timeoutSec'')) of
           (Some p, Some d, Some r, Some m, Some n, Some b, Some t) \<Rightarrow>
             Some \<lparr> dp_prompt = p, dp_description = d, dp_role = r, dp_model = m, dp_maxTurns = n,
               dp_budgetTokens = b, dp_timeoutSec = t \<rparr>
         | _ \<Rightarrow> None)"

subsection \<open>Responses\<close>

definition RESPOND_BODY_MAX_CHARS :: nat where "RESPOND_BODY_MAX_CHARS = 65536"
definition RESPOND_NONCE_MIN_CHARS :: nat where "RESPOND_NONCE_MIN_CHARS = 16"
definition RESPOND_NONCE_MAX_CHARS :: nat where "RESPOND_NONCE_MAX_CHARS = 128"
definition RESPOND_SIG_MAX_CHARS :: nat where "RESPOND_SIG_MAX_CHARS = 256"

record respond_params =
  rp_runId :: string
  rp_taskId :: string
  rp_questionId :: string
  rp_body :: string
  rp_replyTo :: "string option"
  rp_priority :: "mailbox_priority option"
  rp_deliveryMode :: "delivery_mode option"
  rp_requestId :: "string option"

record respond_append_params = respond_params +
  ra_nonce :: string
  ra_sig :: string

definition parseRespondCommonFields :: "json option \<Rightarrow> respond_params option" where
  "parseRespondCommonFields v =
     (case (sized 1 256 (jfield v ''runId''), sized 1 256 (jfield v ''taskId''), sized 1 128 (jfield v ''questionId''),
            sized 1 RESPOND_BODY_MAX_CHARS (jfield v ''body''), optional (sized 1 256) (jfield v ''replyTo''),
            optional isPriority (jfield v ''priority''), optional isDeliveryMode (jfield v ''deliveryMode''),
            optional request_id_of (jfield v ''requestId'')) of
        (Some r, Some t, Some q, Some b, Some rt, Some p, Some dm, Some rid) \<Rightarrow>
          Some \<lparr> rp_runId = r, rp_taskId = t, rp_questionId = q, rp_body = b, rp_replyTo = rt, rp_priority = p,
            rp_deliveryMode = dm, rp_requestId = rid \<rparr>
      | _ \<Rightarrow> None)"

definition parseRespondChallengeParams :: "json \<Rightarrow> string option" where
  "parseRespondChallengeParams value = sized 1 256 (jfield (Some value) ''runId'')"

definition parseRespondAppendParams :: "json \<Rightarrow> respond_append_params option" where
  "parseRespondAppendParams value =
     (let v = Some value
      in case (parseRespondCommonFields v,
               sized RESPOND_NONCE_MIN_CHARS RESPOND_NONCE_MAX_CHARS (jfield v ''nonce''),
               sized 1 RESPOND_SIG_MAX_CHARS (jfield v ''sig'')) of
           (Some c, Some n, Some s) \<Rightarrow> Some (respond_params.extend c \<lparr> ra_nonce = n, ra_sig = s \<rparr>)
         | _ \<Rightarrow> None)"

definition parseRespondForceParams :: "json \<Rightarrow> respond_params option" where
  "parseRespondForceParams value = parseRespondCommonFields (Some value)"

subsection \<open>The text that is signed\<close>

text \<open>How \<open>JSON.stringify\<close> writes a character of a string, a string, and an array of strings and nulls.\<close>

definition hex_digit :: "nat \<Rightarrow> char" where
  "hex_digit d = (if d < 10 then char_of (48 + d) else char_of (87 + d))"

definition short_escape :: "char \<Rightarrow> char option" where
  "short_escape = map_of [(CHR 0x22, CHR 0x22), (CHR 0x5C, CHR 0x5C), (CHR 0x08, CHR ''b''), (CHR 0x0C, CHR ''f''),
     (CHR 0x0A, CHR ''n''), (CHR 0x0D, CHR ''r''), (CHR 0x09, CHR ''t'')]"

definition json_char :: "char \<Rightarrow> string" where
  "json_char c = (case short_escape c of
     Some e \<Rightarrow> [CHR 0x5C, e]
   | None \<Rightarrow> if (of_char c :: nat) < 32
            then CHR 0x5C # ''u00'' @ [hex_digit (of_char c div 16), hex_digit (of_char c mod 16)] else [c])"

definition json_string :: "string \<Rightarrow> string" where
  "json_string s = CHR 0x22 # concat (map json_char s) @ [CHR 0x22]"

fun json_item :: "string option \<Rightarrow> string" where
  "json_item None = ''null''"
| "json_item (Some s) = json_string s"

definition json_items :: "string option list \<Rightarrow> string" where
  "json_items xs = ''['' @ join '','' (map json_item xs) @ '']''"

definition canonicalRespondAppendPayload :: "'a respond_params_scheme \<Rightarrow> string" where
  "canonicalRespondAppendPayload p = json_items
     [Some (rp_taskId p), Some (rp_questionId p), Some (rp_body p), rp_replyTo p,
      map_option priority_str (rp_priority p), map_option mode_str (rp_deliveryMode p), rp_requestId p]"

definition respondAppendSignInput :: "string \<Rightarrow> 'a respond_params_scheme \<Rightarrow> string" where
  "respondAppendSignInput nonce p = nonce @ canonicalRespondAppendPayload p"

lemma short_escape_inj: "short_escape c = Some e \<Longrightarrow> short_escape d = Some e \<Longrightarrow> c = d"
  by (auto simp: short_escape_def split: if_splits)

lemma short_escape_not_u: "short_escape c = Some e \<Longrightarrow> e \<noteq> CHR ''u''"
  by (auto simp: short_escape_def split: if_splits)

lemma short_escape_None: "short_escape c = None \<Longrightarrow> c \<noteq> CHR 0x5C \<and> c \<noteq> CHR 0x22"
  by (auto simp: short_escape_def split: if_splits)

lemma hex_digit_inj: "m < 16 \<Longrightarrow> n < 16 \<Longrightarrow> hex_digit m = hex_digit n \<longleftrightarrow> m = n"
  by (auto simp: hex_digit_def split: if_splits)

definition control_escape :: "char \<Rightarrow> string" where
  "control_escape c = ''00'' @ [hex_digit (of_char c div 16), hex_digit (of_char c mod 16)]"

lemma json_char_cases:
  obtains (plain) "json_char c = [c]" "c \<noteq> CHR 0x5C" "c \<noteq> CHR 0x22"
    | (short) e where "json_char c = [CHR 0x5C, e]" "short_escape c = Some e" "e \<noteq> CHR ''u''"
    | (control) "json_char c = CHR 0x5C # CHR ''u'' # control_escape c" "(of_char c :: nat) < 32"
proof (cases "short_escape c")
  case None
  then show ?thesis using short_escape_None [OF None] that(1,3)
    by (cases "(of_char c :: nat) < 32") (simp_all add: json_char_def control_escape_def)
next
  case (Some e)
  then show ?thesis using short_escape_not_u [OF Some] that(2) by (simp add: json_char_def)
qed

lemma control_escape_inj:
  assumes "control_escape c @ x = control_escape d @ y" and "(of_char c :: nat) < 32" and "(of_char d :: nat) < 32"
  shows "c = d \<and> x = y"
proof -
  have "(of_char c :: nat) div 16 = of_char d div 16 \<and> (of_char c :: nat) mod 16 = of_char d mod 16"
    using assms by (simp add: control_escape_def hex_digit_inj)
  then have "(of_char c :: nat) = of_char d" by (metis div_mult_mod_eq)
  then show ?thesis using assms(1) by (simp add: control_escape_def)
qed

lemma json_char_inj:
  assumes "json_char c @ x = json_char d @ y"
  shows "c = d \<and> x = y"
proof (cases c rule: json_char_cases)
  case plain
  then show ?thesis using assms by (cases d rule: json_char_cases) simp_all
next
  case (short e)
  show ?thesis
  proof (cases d rule: json_char_cases)
    case d: (short e')
    then have "short_escape d = Some e" "x = y" using assms short(1) by simp_all
    then show ?thesis using short_escape_inj [OF short(2)] by blast
  qed (use assms short in simp_all)
next
  case control
  show ?thesis
  proof (cases d rule: json_char_cases)
    case d: control
    have "control_escape c @ x = control_escape d @ y" using assms unfolding control(1) d(1) by simp
    then show ?thesis using control(2) d(2) by (rule control_escape_inj)
  qed (use assms control in simp_all)
qed

lemma json_char_start: "\<exists>h t. json_char c = h # t \<and> h \<noteq> CHR 0x22"
  by (cases c rule: json_char_cases) simp_all

lemma json_chars_end: "concat (map json_char (c # s)) @ x \<noteq> CHR 0x22 # y"
proof -
  obtain h t where "json_char c = h # t" "h \<noteq> CHR 0x22" using json_char_start by blast
  then show ?thesis by (simp del: char.inject)
qed

lemma json_chars_inj:
  "concat (map json_char s) @ CHR 0x22 # x = concat (map json_char t) @ CHR 0x22 # y \<Longrightarrow> s = t \<and> x = y"
proof (induction s arbitrary: t)
  case Nil
  then show ?case using json_chars_end by (cases t) (simp, metis append_Nil concat.simps(1) list.map(1))
next
  case (Cons c s)
  show ?case
  proof (cases t)
    case Nil
    then show ?thesis using Cons.prems json_chars_end [of c s] by (metis append_Nil concat.simps(1) list.map(1))
  next
    case t: (Cons d t')
    have "json_char c @ concat (map json_char s) @ CHR 0x22 # x = json_char d @ concat (map json_char t') @ CHR 0x22 # y"
      using Cons.prems unfolding t by simp
    from json_char_inj [OF this] show ?thesis using Cons.IH t by blast
  qed
qed

lemma json_item_inj: "json_item a @ x = json_item b @ y \<Longrightarrow> a = b \<and> x = y"
proof (cases a; cases b)
  fix s t assume "json_item a @ x = json_item b @ y" "a = Some s" "b = Some t"
  then show ?thesis using json_chars_inj [of s x t y] by (simp add: json_string_def)
qed (simp_all add: json_string_def)

text \<open>Arrays of the same length are written apart.\<close>

lemma json_join_inj:
  "length xs = length ys \<Longrightarrow> join sep (map json_item xs) @ e = join sep (map json_item ys) @ e \<Longrightarrow> xs = ys"
proof (induction xs ys rule: list_induct2)
  case (Cons x xs y ys)
  show ?case
  proof (cases "xs = []")
    case True
    then show ?thesis using Cons.hyps Cons.prems json_item_inj [of x e y e] by simp
  next
    case False
    then have "ys \<noteq> []" using Cons.hyps by auto
    then have "json_item x @ sep @ join sep (map json_item xs) @ e = json_item y @ sep @ join sep (map json_item ys) @ e"
      using Cons.prems False by (simp add: join_Cons)
    from json_item_inj [OF this] show ?thesis using Cons.IH by simp
  qed
qed simp

lemma canonical_inj:
  assumes "canonicalRespondAppendPayload p = canonicalRespondAppendPayload q"
  shows "[Some (rp_taskId p), Some (rp_questionId p), Some (rp_body p), rp_replyTo p,
      map_option priority_str (rp_priority p), map_option mode_str (rp_deliveryMode p), rp_requestId p] =
    [Some (rp_taskId q), Some (rp_questionId q), Some (rp_body q), rp_replyTo q,
      map_option priority_str (rp_priority q), map_option mode_str (rp_deliveryMode q), rp_requestId q]"
  using assms unfolding canonicalRespondAppendPayload_def json_items_def
  by (intro json_join_inj [of _ _ "'',''" "'']''"]) simp_all

lemma inj_priority_str: "priority_str p = priority_str q \<Longrightarrow> p = q"
  by (cases p; cases q) simp_all

lemma inj_mode_str: "mode_str p = mode_str q \<Longrightarrow> p = q"
  by (cases p; cases q) simp_all

lemma split_at_first: "c \<notin> set m \<Longrightarrow> c \<notin> set n \<Longrightarrow> m @ c # x = n @ c # y \<Longrightarrow> m = n \<and> x = y"
proof (induction m arbitrary: n)
  case Nil
  then show ?case by (cases n) auto
next
  case (Cons a m)
  then show ?case by (cases n) auto
qed

text \<open>
  A signature binds a response: the signed texts of two responses with nonces of the broker's form
  (no opening bracket, as base64url) are the same only if nonce, task, question, body, reply, priority,
  mode and request id all agree. Only the run is not in the text; the nonce is bound to it.
\<close>

theorem sign_input_binds_response:
  assumes "CHR ''['' \<notin> set m" and "CHR ''['' \<notin> set n" and "respondAppendSignInput m p = respondAppendSignInput n q"
  shows "m = n \<and> p\<lparr>rp_runId := r\<rparr> = (q\<lparr>rp_runId := r\<rparr> :: respond_params)"
proof -
  obtain x y where x: "canonicalRespondAppendPayload p = CHR ''['' # x" "canonicalRespondAppendPayload q = CHR ''['' # y"
    by (simp add: canonicalRespondAppendPayload_def json_items_def)
  have "m = n \<and> x = y" by (rule split_at_first [OF assms(1,2)]) (use assms(3) x in \<open>simp add: respondAppendSignInput_def\<close>)
  then have "m = n \<and> canonicalRespondAppendPayload p = canonicalRespondAppendPayload q" using x by simp
  then have mn: "m = n" and c: "canonicalRespondAppendPayload p = canonicalRespondAppendPayload q" by blast+
  note f = canonical_inj [OF c, unfolded list.inject option.inject]
  have pr: "rp_priority p = rp_priority q"
    using f by (cases "rp_priority p"; cases "rp_priority q") (simp_all, blast intro: inj_priority_str)
  have dm: "rp_deliveryMode p = rp_deliveryMode q"
    using f by (cases "rp_deliveryMode p"; cases "rp_deliveryMode q") (simp_all, blast intro: inj_mode_str)
  have "p\<lparr>rp_runId := r\<rparr> = q\<lparr>rp_runId := r\<rparr>"
    by (rule respond_params.equality) (use f pr dm in simp_all)
  with mn show ?thesis by blast
qed

text \<open>
  What passes the parser of \<open>delegate.request\<close> is within the ceilings: a prompt that is not blank and at most
  a hundred thousand characters long, a whole number of turns from 1 to 200, a whole token budget from 0 to
  a hundred million; numbers that are fractions, negative, or infinite on the wire are refused.
\<close>

theorem delegate_params_bounded:
  assumes "parseDelegateRequestParams v = Some p"
  shows "(\<exists>c\<in>set (dp_prompt p). \<not> js_space c) \<and> length (dp_prompt p) \<le> 100000 \<and>
    (case dp_maxTurns p of None \<Rightarrow> True | Some n \<Rightarrow> 1 \<le> n \<and> n \<le> 200) \<and>
    (case dp_budgetTokens p of None \<Rightarrow> True | Some n \<Rightarrow> 0 \<le> n \<and> n \<le> 100000000)"
  using assms integer_in_Some [of 1 DELEGATE_MAX_TURNS_CEILING] integer_in_Some [of 0 DELEGATE_BUDGET_TOKENS_CEILING]
  unfolding parseDelegateRequestParams_def Let_def
  by (auto simp: delegate_prompt_def bind_eq_Some_conv list_all_iff DELEGATE_PROMPT_MAX_CHARS_def
      DELEGATE_MAX_TURNS_CEILING_def DELEGATE_BUDGET_TOKENS_CEILING_def split: option.splits if_splits)

subsection \<open>Witnesses\<close>

definition plain_response :: "string \<Rightarrow> respond_params" where
  "plain_response r = \<lparr> rp_runId = r, rp_taskId = ''t'', rp_questionId = ''q'', rp_body = ''a'', rp_replyTo = None,
     rp_priority = Some PUrgent, rp_deliveryMode = None, rp_requestId = None \<rparr>"

theorem sign_input_binds_response_witness:
  "plain_response ''x'' \<lparr>rp_runId := ''z''\<rparr> = plain_response ''y'' \<lparr>rp_runId := ''z''\<rparr>"
  using sign_input_binds_response [of "''n''" "''n''" "plain_response ''x''" "plain_response ''y''" "''z''"]
  by (simp add: plain_response_def respondAppendSignInput_def canonicalRespondAppendPayload_def)

definition plain_delegation :: json where
  "plain_delegation = JObj [(''prompt'', JStr ''do''), (''maxTurns'', JNum (Fin 5))]"

theorem delegate_params_bounded_witness:
  "\<exists>p. parseDelegateRequestParams plain_delegation = Some p \<and> dp_maxTurns p = Some 5 \<and> length (dp_prompt p) \<le> 100000"
proof -
  have "map_option dp_maxTurns (parseDelegateRequestParams plain_delegation) = Some (Some 5)" by code_simp
  then obtain p where p: "parseDelegateRequestParams plain_delegation = Some p" "dp_maxTurns p = Some 5" by auto
  then show ?thesis using delegate_params_bounded [OF p(1)] by simp
qed

end
