(* ===== verification/BrokerAuth.thy ===== *)
theory BrokerAuth
  imports Contracts BrokerParams
begin

text \<open>
  Who may say what to the broker of \<open>src/src/runtime/broker/\<close>: the token registry of
  \<open>crew-broker-tokens.ts\<close>, and of \<open>crew-broker.ts\<close> the issue and revocation of tokens, the life of a
  connection, the handshake and the dispatch of frames. The digest of a secret is the function \<open>hash\<close>, a fresh
  token an argument, and the run that is found on disk a function of its id.
\<close>

subsection \<open>The token registry\<close>

record token_registry =
  tr_map :: "string \<Rightarrow> string option"
  tr_revokedTokenHashes :: "string set"

definition token_key :: "string \<Rightarrow> string option \<Rightarrow> string" where
  "token_key runId taskId = (if truthy taskId then runId @ '':'' @ the taskId else runId)"

definition orchestratorKey :: "string \<Rightarrow> string" where
  "orchestratorKey runId = runId @ '':__orchestrator__''"

definition issueOrchestratorToken :: "string \<Rightarrow> string \<Rightarrow> token_registry \<Rightarrow> string option \<times> token_registry" where
  "issueOrchestratorToken fresh runId r =
     (if runId = [] then (None, r)
      else case tr_map r (orchestratorKey runId) of
             Some t \<Rightarrow> (Some t, r)
           | None \<Rightarrow> (Some fresh, r\<lparr>tr_map := (tr_map r)(orchestratorKey runId \<mapsto> fresh)\<rparr>))"

definition issue :: "(string \<Rightarrow> string) \<Rightarrow> string \<Rightarrow> string \<Rightarrow> string option \<Rightarrow> token_registry \<Rightarrow> string option \<times> token_registry" where
  "issue hash fresh runId taskId r =
     (if runId = [] then (None, r)
      else let k = token_key runId taskId; minted = (Some fresh, r\<lparr>tr_map := (tr_map r)(k \<mapsto> fresh)\<rparr>)
           in case tr_map r k of
                Some t \<Rightarrow> if hash t \<notin> tr_revokedTokenHashes r then (Some t, r) else minted
              | None \<Rightarrow> minted)"

definition get_token :: "string \<Rightarrow> string option \<Rightarrow> token_registry \<Rightarrow> string option" where
  "get_token runId taskId r =
     (case tr_map r (token_key runId taskId) of
        Some t \<Rightarrow> Some t
      | None \<Rightarrow> if truthy taskId then tr_map r runId else None)"

definition equalConstTime :: "string option \<Rightarrow> string \<Rightarrow> bool" where
  "equalConstTime expected candidate \<longleftrightarrow> candidate \<noteq> [] \<and> expected = Some candidate"

datatype conn_role = RoleOrchestrator | RoleWorker

datatype match_kind = Compound | RunIdFallback

definition tokenRoleWithMatchKind ::
    "string \<Rightarrow> string option \<Rightarrow> string \<Rightarrow> token_registry \<Rightarrow> (conn_role \<times> match_kind) option" where
  "tokenRoleWithMatchKind runId taskId candidate r =
     (if equalConstTime (tr_map r (orchestratorKey runId)) candidate then Some (RoleOrchestrator, Compound)
      else case taskId of
             None \<Rightarrow> if equalConstTime (tr_map r runId) candidate then Some (RoleWorker, RunIdFallback) else None
           | Some _ \<Rightarrow> if equalConstTime (tr_map r (token_key runId taskId)) candidate
                      then Some (RoleWorker, Compound) else None)"

definition tokenRole :: "string \<Rightarrow> string option \<Rightarrow> string \<Rightarrow> token_registry \<Rightarrow> conn_role option" where
  "tokenRole runId taskId candidate r = map_option fst (tokenRoleWithMatchKind runId taskId candidate r)"

definition revoke :: "string \<Rightarrow> string option \<Rightarrow> token_registry \<Rightarrow> token_registry" where
  "revoke runId taskId r = r\<lparr>tr_map :=
     (let m = (tr_map r)(token_key runId taskId := None)
      in if truthy taskId then m(runId := None) else m(orchestratorKey runId := None))\<rparr>"

definition revokeToken :: "(string \<Rightarrow> string) \<Rightarrow> string \<Rightarrow> token_registry \<Rightarrow> token_registry" where
  "revokeToken hash token r =
     (if token = [] then r else r\<lparr>tr_revokedTokenHashes := insert (hash token) (tr_revokedTokenHashes r)\<rparr>)"

definition isTaskTokenRevoked :: "(string \<Rightarrow> string) \<Rightarrow> string \<Rightarrow> string \<Rightarrow> token_registry \<Rightarrow> bool" where
  "isTaskTokenRevoked hash runId taskId r \<longleftrightarrow>
     runId \<noteq> [] \<and> taskId \<noteq> [] \<and>
     (case tr_map r (token_key runId (Some taskId)) of
        Some t \<Rightarrow> hash t \<in> tr_revokedTokenHashes r | None \<Rightarrow> False)"

definition isSecretRevoked :: "string \<Rightarrow> token_registry \<Rightarrow> bool" where
  "isSecretRevoked h r \<longleftrightarrow> h \<in> tr_revokedTokenHashes r"

definition clear_registry :: "token_registry \<Rightarrow> token_registry" where
  "clear_registry r = \<lparr> tr_map = (\<lambda>_. None), tr_revokedTokenHashes = {} \<rparr>"

subsection \<open>Connections\<close>

text \<open>What \<open>hello\<close> binds to a connection; \<open>None\<close> before it. A closed connection is no longer in the table.\<close>

record identity =
  cn_runId :: string
  cn_taskId :: string
  cn_role :: conn_role
  cn_authMatchKind :: match_kind
  cn_authedSecretHash :: string

record 'c broker =
  bk_tokens :: token_registry
  bk_taskTokens :: "string \<Rightarrow> string option"
  bk_connections :: "'c \<Rightarrow> identity option option"
  bk_connectionsByRun :: "string \<Rightarrow> 'c set"
  bk_handshakes :: nat

definition issueRunToken ::
    "(string \<Rightarrow> string) \<Rightarrow> string \<Rightarrow> string \<Rightarrow> string option \<Rightarrow> 'c broker \<Rightarrow> string option \<times> 'c broker" where
  "issueRunToken hash fresh runId taskId b =
     (case issue hash fresh runId taskId (bk_tokens b) of
        (None, _) \<Rightarrow> (None, b)
      | (Some t, r) \<Rightarrow> (Some t, b\<lparr>bk_tokens := r,
          bk_taskTokens := (case taskId of None \<Rightarrow> bk_taskTokens b | Some i \<Rightarrow> (bk_taskTokens b)(i \<mapsto> t))\<rparr>))"

text \<open>\<open>None\<close> is the error for an empty task id.\<close>

definition revokeTaskToken :: "(string \<Rightarrow> string) \<Rightarrow> string \<Rightarrow> 'c broker \<Rightarrow> 'c broker option" where
  "revokeTaskToken hash taskId b =
     (if taskId = [] then None
      else Some (case bk_taskTokens b taskId of
             None \<Rightarrow> b
           | Some t \<Rightarrow> b\<lparr>bk_tokens := revokeToken hash t (bk_tokens b),
               bk_taskTokens := (bk_taskTokens b)(taskId := None)\<rparr>))"

definition handleConnection :: "'c \<Rightarrow> 'c broker \<Rightarrow> 'c broker" where
  "handleConnection c b = b\<lparr>bk_connections := (bk_connections b)(c \<mapsto> None)\<rparr>"

definition closeConnection :: "'c \<Rightarrow> 'c broker \<Rightarrow> 'c broker" where
  "closeConnection c b =
     b\<lparr>bk_connections := (bk_connections b)(c := None),
       bk_connectionsByRun := (case bk_connections b c of
          Some (Some d) \<Rightarrow> (bk_connectionsByRun b)(cn_runId d := bk_connectionsByRun b (cn_runId d) - {c})
        | _ \<Rightarrow> bk_connectionsByRun b)\<rparr>"

definition hello_deadline :: "'c \<Rightarrow> 'c broker \<Rightarrow> 'c broker" where
  "hello_deadline c b = (if bk_connections b c = Some None then closeConnection c b else b)"

subsection \<open>The handshake\<close>

definition STALE_RUN_STATUSES :: "run_status set" where
  "STALE_RUN_STATUSES = {RCompleted, RFailed, RCancelled}"

text \<open>The answer to a frame: an error that closes the connection, or what goes on.\<close>

datatype frame_answer =
    CloseWith string
  | Pong
  | Welcome
  | NotImplemented
  | Handle string json

definition bind_identity :: "'c \<Rightarrow> identity \<Rightarrow> 'c broker \<Rightarrow> 'c broker" where
  "bind_identity c d b =
     b\<lparr>bk_connections := (bk_connections b)(c \<mapsto> Some d),
       bk_connectionsByRun := (bk_connectionsByRun b)(cn_runId d := insert c (bk_connectionsByRun b (cn_runId d))),
       bk_handshakes := bk_handshakes b + 1\<rparr>"

text \<open>\<open>disk\<close>: the status and the task ids of a run that can be loaded.\<close>

definition handleHello ::
    "(string \<Rightarrow> string) \<Rightarrow> (string \<Rightarrow> (run_status \<times> string list) option) \<Rightarrow> 'c \<Rightarrow> json \<Rightarrow> 'c broker \<Rightarrow>
     frame_answer \<times> 'c broker" where
  "handleHello hash disk c params b =
     (let refuse = (\<lambda>code. (CloseWith code, closeConnection c b))
      in case isHelloParams params of
           None \<Rightarrow> refuse ''auth''
         | Some h \<Rightarrow>
             if hp_protocol h \<noteq> BROKER_PROTOCOL then refuse ''auth''
             else case tokenRoleWithMatchKind (hp_runId h) (Some (hp_taskId h)) (hp_token h) (bk_tokens b) of
                    None \<Rightarrow>
                      (case disk (hp_runId h) of
                         Some (_, tasks) \<Rightarrow> refuse (if hp_taskId h \<in> set tasks then ''stale-token'' else ''auth'')
                       | None \<Rightarrow> refuse ''auth'')
                  | Some (role, kind) \<Rightarrow>
                      if role = RoleWorker \<and> isTaskTokenRevoked hash (hp_runId h) (hp_taskId h) (bk_tokens b)
                      then refuse ''revoked''
                      else if role = RoleWorker \<and>
                              (case disk (hp_runId h) of Some (st, _) \<Rightarrow> st \<in> STALE_RUN_STATUSES | None \<Rightarrow> False)
                      then refuse ''stale-token''
                      else (Welcome, bind_identity c
                              \<lparr> cn_runId = hp_runId h, cn_taskId = hp_taskId h, cn_role = role,
                                cn_authMatchKind = kind, cn_authedSecretHash = hash (hp_token h) \<rparr> b))"

subsection \<open>Dispatch\<close>

definition respond_methods :: "string list" where
  "respond_methods = [''respond.challenge'', ''respond.append'', ''respond.force'']"

definition handled_methods :: "string list" where
  "handled_methods = [''msg.send'', ''msg.inbox'', ''events.since'', ''events.subscribe'', ''task.waitStatus'',
     ''steer.push'', ''escalate'', ''wait.request'', ''wait.resolve'', ''delegate.request''] @ respond_methods @
     [''steer.force'']"

definition dispatchFrame ::
    "(string \<Rightarrow> string) \<Rightarrow> (string \<Rightarrow> (run_status \<times> string list) option) \<Rightarrow> 'c \<Rightarrow> json \<Rightarrow> 'c broker \<Rightarrow>
     (frame_answer \<times> 'c broker) option" where
  "dispatchFrame hash disk c frame b =
     (let refuse = (\<lambda>code. Some (CloseWith code, closeConnection c b))
      in case bk_connections b c of
           None \<Rightarrow> None
         | Some ident \<Rightarrow>
             (case isRequestObject frame of
                None \<Rightarrow> refuse ''protocol''
              | Some (i, m, params) \<Rightarrow>
                  (case ident of
                     None \<Rightarrow>
                       if m \<in> set respond_methods \<or> m = ''steer.force'' then Some (Handle m params, b)
                       else if m \<noteq> ''hello'' then refuse ''protocol''
                       else Some (handleHello hash disk c params b)
                   | Some d \<Rightarrow>
                       if cn_role d = RoleWorker \<and> isSecretRevoked (cn_authedSecretHash d) (bk_tokens b)
                       then refuse ''revoked''
                       else if m = ''ping'' then Some (Pong, b)
                       else if m = ''hello'' then refuse ''protocol''
                       else if m \<in> set handled_methods then Some (Handle m params, b)
                       else Some (NotImplemented, b))))"

text \<open>\<open>wait-auth.ts\<close>: whether the \<open>wait\<close> methods are closed to a connection.\<close>

definition waitAuthError :: "identity option \<Rightarrow> bool" where
  "waitAuthError ident = (case ident of None \<Rightarrow> True
     | Some d \<Rightarrow> cn_role d \<noteq> RoleWorker \<or> cn_authMatchKind d \<noteq> Compound)"

subsection \<open>The broker as a machine\<close>

text \<open>
  The tokens handed out so far are kept beside the broker, with the key each was issued for. A fresh token is
  one that was never handed out.
\<close>

datatype 'c broker_event =
    EvConnect 'c
  | EvFrame 'c "string \<Rightarrow> (run_status \<times> string list) option" json
  | EvIssue string "string option" string
  | EvIssueOrchestrator string string
  | EvRevoke string
  | EvDeadline 'c
  | EvDisconnect 'c

type_synonym handed_out = "(string \<times> string) set"

fun broker_step :: "(string \<Rightarrow> string) \<Rightarrow> 'c broker_event \<Rightarrow> 'c broker \<times> handed_out \<Rightarrow> ('c broker \<times> handed_out) option" where
  "broker_step hash (EvConnect c) (b, H) =
     (if bk_connections b c = None then Some (handleConnection c b, H) else None)"
| "broker_step hash (EvFrame c disk frame) (b, H) =
     map_option (\<lambda>(ans, b'). (b', H)) (dispatchFrame hash disk c frame b)"
| "broker_step hash (EvIssue runId taskId fresh) (b, H) =
     (if fresh = [] \<or> fresh \<in> snd ` H then None
      else case issueRunToken hash fresh runId taskId b of
             (None, b') \<Rightarrow> Some (b', H)
           | (Some t, b') \<Rightarrow> Some (b', insert (token_key runId taskId, t) H))"
| "broker_step hash (EvIssueOrchestrator runId fresh) (b, H) =
     (if fresh = [] \<or> fresh \<in> snd ` H then None
      else case issueOrchestratorToken fresh runId (bk_tokens b) of
             (None, r) \<Rightarrow> Some (b, H)
           | (Some t, r) \<Rightarrow> Some (b\<lparr>bk_tokens := r\<rparr>, insert (orchestratorKey runId, t) H))"
| "broker_step hash (EvRevoke taskId) (b, H) = map_option (\<lambda>b'. (b', H)) (revokeTaskToken hash taskId b)"
| "broker_step hash (EvDeadline c) (b, H) = Some (hello_deadline c b, H)"
| "broker_step hash (EvDisconnect c) (b, H) = Some (closeConnection c b, H)"

definition new_broker :: "'c broker" where
  "new_broker = \<lparr> bk_tokens = \<lparr> tr_map = (\<lambda>_. None), tr_revokedTokenHashes = {} \<rparr>, bk_taskTokens = (\<lambda>_. None),
     bk_connections = (\<lambda>_. None), bk_connectionsByRun = (\<lambda>_. {}), bk_handshakes = 0 \<rparr>"

text \<open>Every secret in the registry was handed out for its key, and no secret for two keys.\<close>

definition registry_ok :: "token_registry \<Rightarrow> handed_out \<Rightarrow> bool" where
  "registry_ok r H \<longleftrightarrow> (\<forall>k t. tr_map r k = Some t \<longrightarrow> (k, t) \<in> H) \<and>
     (\<forall>k k' t. (k, t) \<in> H \<longrightarrow> (k', t) \<in> H \<longrightarrow> k = k')"

definition proven :: "(string \<Rightarrow> string) \<Rightarrow> handed_out \<Rightarrow> identity \<Rightarrow> bool" where
  "proven hash H d \<longleftrightarrow> cn_runId d \<noteq> [] \<and> cn_taskId d \<noteq> [] \<and> cn_authMatchKind d = Compound \<and>
     (\<exists>t. cn_authedSecretHash d = hash t \<and>
        (case cn_role d of RoleOrchestrator \<Rightarrow> (orchestratorKey (cn_runId d), t) \<in> H
         | RoleWorker \<Rightarrow> (token_key (cn_runId d) (Some (cn_taskId d)), t) \<in> H))"

definition broker_ok :: "(string \<Rightarrow> string) \<Rightarrow> 'c broker \<times> handed_out \<Rightarrow> bool" where
  "broker_ok hash s \<longleftrightarrow> (case s of (b, H) \<Rightarrow>
     registry_ok (bk_tokens b) H \<and>
     (\<forall>c d. bk_connections b c = Some (Some d) \<longrightarrow> proven hash H d) \<and>
     (\<forall>c r. c \<in> bk_connectionsByRun b r \<longleftrightarrow> (\<exists>d. bk_connections b c = Some (Some d) \<and> cn_runId d = r)))"

lemma broker_ok_new: "broker_ok hash (new_broker, {})"
  by (simp add: broker_ok_def new_broker_def registry_ok_def)

lemma proven_mono: "proven hash H d \<Longrightarrow> H \<subseteq> H' \<Longrightarrow> proven hash H' d"
  by (auto simp: proven_def split: conn_role.splits)

lemma broker_ok_close: "broker_ok hash (b, H) \<Longrightarrow> broker_ok hash (closeConnection c b, H)"
  by (auto simp: broker_ok_def closeConnection_def split: option.splits)

lemma broker_ok_bind:
  assumes "broker_ok hash (b, H)" and "bk_connections b c = Some None" and "proven hash H d"
  shows "broker_ok hash (bind_identity c d b, H)"
  using assms by (auto simp: broker_ok_def bind_identity_def)

lemma isHelloParams_sized: "isHelloParams v = Some h \<Longrightarrow> hp_runId h \<noteq> [] \<and> hp_taskId h \<noteq> [] \<and> hp_token h \<noteq> []"
  by (auto simp: isHelloParams_def split: option.splits)

text \<open>The role that a secret proves.\<close>

lemma role_proven:
  assumes "registry_ok r H" and "tokenRoleWithMatchKind run (Some task) tok r = Some (role, kind)"
  shows "kind = Compound \<and> (case role of RoleOrchestrator \<Rightarrow> (orchestratorKey run, tok) \<in> H
     | RoleWorker \<Rightarrow> (token_key run (Some task), tok) \<in> H)"
  using assms by (auto simp: tokenRoleWithMatchKind_def equalConstTime_def registry_ok_def split: if_splits)

lemma hello_answer:
  assumes "handleHello hash disk c params b = (ans, b')"
  obtains (refused) code where "ans = CloseWith code" "b' = closeConnection c b"
    | (bound) h role kind where "ans = Welcome" "isHelloParams params = Some h"
        "tokenRoleWithMatchKind (hp_runId h) (Some (hp_taskId h)) (hp_token h) (bk_tokens b) = Some (role, kind)"
        "role = RoleWorker \<Longrightarrow> \<not> isTaskTokenRevoked hash (hp_runId h) (hp_taskId h) (bk_tokens b)"
        "b' = bind_identity c \<lparr> cn_runId = hp_runId h, cn_taskId = hp_taskId h, cn_role = role,
           cn_authMatchKind = kind, cn_authedSecretHash = hash (hp_token h) \<rparr> b"
  using assms unfolding handleHello_def Let_def
  by (auto split: option.splits if_splits prod.splits)

lemma broker_ok_hello:
  assumes "broker_ok hash (b, H)" and "bk_connections b c = Some None" and "handleHello hash disk c params b = (ans, b')"
  shows "broker_ok hash (b', H)"
  using assms(3)
proof (cases rule: hello_answer)
  case (bound h role kind)
  have "registry_ok (bk_tokens b) H" using assms(1) by (simp add: broker_ok_def)
  from role_proven [OF this bound(3)] isHelloParams_sized [OF bound(2)] show ?thesis
    unfolding bound(5) by (intro broker_ok_bind [OF assms(1,2)]) (cases role; auto simp: proven_def intro!: exI [of _ "hp_token h"])
qed (simp add: broker_ok_close [OF assms(1)])

lemma broker_ok_frame:
  assumes "broker_ok hash (b, H)" and "dispatchFrame hash disk c frame b = Some (ans, b')"
  shows "broker_ok hash (b', H)"
  using assms broker_ok_close [OF assms(1), of c] broker_ok_hello [OF assms(1)]
  unfolding dispatchFrame_def Let_def
  by (auto split: option.splits if_splits prod.splits)

lemma registry_ok_put:
  assumes "registry_ok r H" and "t \<notin> snd ` H"
  shows "registry_ok (r\<lparr>tr_map := (tr_map r)(k \<mapsto> t)\<rparr>) (insert (k, t) H)"
proof -
  have "(k', t) \<notin> H" for k' using assms(2) by force
  then show ?thesis using assms(1) by (auto simp: registry_ok_def)
qed

lemma registry_ok_known: "registry_ok r H \<Longrightarrow> tr_map r k = Some t \<Longrightarrow> registry_ok r (insert (k, t) H)"
  by (simp add: registry_ok_def insert_absorb)

lemma issue_ok:
  assumes "registry_ok r H" and "fresh \<notin> snd ` H" and "issue hash fresh runId taskId r = (Some t, r')"
  shows "registry_ok r' (insert (token_key runId taskId, t) H)"
  using assms(3) registry_ok_put [OF assms(1,2), of "token_key runId taskId"] registry_ok_known [OF assms(1)]
  unfolding issue_def Let_def by (simp split: option.splits if_splits) blast+

lemma issue_orchestrator_ok:
  assumes "registry_ok r H" and "fresh \<notin> snd ` H" and "issueOrchestratorToken fresh runId r = (Some t, r')"
  shows "registry_ok r' (insert (orchestratorKey runId, t) H)"
  using assms(3) registry_ok_put [OF assms(1,2), of "orchestratorKey runId"] registry_ok_known [OF assms(1)]
  unfolding issueOrchestratorToken_def by (simp split: option.splits if_splits) blast+

lemma broker_ok_registry:
  assumes "broker_ok hash (b, H)" and "registry_ok (bk_tokens b') H'" and "H \<subseteq> H'"
    and "bk_connections b' = bk_connections b" and "bk_connectionsByRun b' = bk_connectionsByRun b"
  shows "broker_ok hash (b', H')"
  using assms proven_mono [OF _ assms(3)] unfolding broker_ok_def by auto

lemma broker_ok_step:
  assumes "broker_ok hash s" and "broker_step hash e s = Some s'"
  shows "broker_ok hash s'"
proof -
  obtain b H where s: "s = (b, H)" by (cases s)
  have reg: "registry_ok (bk_tokens b) H" using assms(1) by (simp add: broker_ok_def s)
  show ?thesis
  proof (cases e)
    case (EvConnect c)
    then show ?thesis using assms by (auto simp: s broker_ok_def handleConnection_def split: if_splits)
  next
    case (EvFrame c disk frame)
    then show ?thesis using assms broker_ok_frame [of hash b H] by (auto simp: s)
  next
    case (EvIssue runId taskId fresh)
    then have f: "fresh \<notin> snd ` H" using assms(2) by (auto simp: s split: if_splits)
    obtain o' r where i: "issue hash fresh runId taskId (bk_tokens b) = (o', r)" by force
    show ?thesis
    proof (cases o')
      case None
      then show ?thesis using assms EvIssue i by (auto simp: s issueRunToken_def split: if_splits)
    next
      case (Some t)
      from issue_ok [OF reg f i [unfolded Some]] show ?thesis
        using assms EvIssue i Some
        by (auto simp: s issueRunToken_def split: if_splits intro: broker_ok_registry)
    qed
  next
    case (EvIssueOrchestrator runId fresh)
    then have f: "fresh \<notin> snd ` H" using assms(2) by (auto simp: s split: if_splits)
    obtain o' r where i: "issueOrchestratorToken fresh runId (bk_tokens b) = (o', r)" by force
    show ?thesis
    proof (cases o')
      case None
      then show ?thesis using assms EvIssueOrchestrator i by (auto simp: s split: if_splits)
    next
      case (Some t)
      from issue_orchestrator_ok [OF reg f i [unfolded Some]] show ?thesis
        using assms EvIssueOrchestrator i Some by (auto simp: s split: if_splits intro: broker_ok_registry)
    qed
  next
    case (EvRevoke taskId)
    then show ?thesis using assms reg
      by (auto simp: s revokeTaskToken_def revokeToken_def registry_ok_def split: option.splits if_splits
          intro: broker_ok_registry)
  next
    case (EvDeadline c)
    then show ?thesis using assms broker_ok_close [of hash b H c] by (auto simp: s hello_deadline_def)
  next
    case (EvDisconnect c)
    then show ?thesis using assms broker_ok_close [of hash b H c] by (auto simp: s)
  qed
qed

interpretation broker: machine_invariant "broker_step hash" "\<lambda>_ _. True" "broker_ok hash"
  for hash :: "string \<Rightarrow> string"
  by unfold_locales (rule broker_ok_step)

subsection \<open>What a secret proves\<close>

lemma colon_free_key:
  assumes "r' @ CHR '':'' # t' = r @ CHR '':'' # t" and "CHR '':'' \<notin> set r" and "CHR '':'' \<notin> set t"
  shows "r' = r \<and> t' = t"
proof -
  have "CHR '':'' \<notin> set r'"
  proof
    assume "CHR '':'' \<in> set r'"
    then obtain x y where r': "r' = x @ CHR '':'' # y" "CHR '':'' \<notin> set x" by (metis split_list_first)
    have "x = r \<and> y @ CHR '':'' # t' = t"
      by (rule split_at_first [OF r'(2) assms(2)]) (use assms(1) r'(1) in simp)
    then show False using assms(3) by auto
  qed
  then show ?thesis by (rule split_at_first [OF _ assms(2,1)])
qed

text \<open>
  C13. Nobody can speak for another. In every state that a broker reaches, by any sequence of connections,
  frames, issued and revoked tokens and closings, a connection that is authenticated with the secret issued
  to a task is a worker connection of that run and that task: whatever run and task ids its handshake
  claimed, the secret gives it neither the orchestrator role nor a sibling's identity. Secrets are never
  handed out twice, digests do not collide, and run and task ids have no colon.
\<close>

theorem secret_proves_identity:
  assumes "inj hash" and "run_events (broker_step hash) es (new_broker, {}) = Some (b, H)"
    and "(token_key r (Some t), secret) \<in> H" and "t \<noteq> []" and "t \<noteq> ''__orchestrator__''"
    and "CHR '':'' \<notin> set r" and "CHR '':'' \<notin> set t"
    and "bk_connections b c = Some (Some d)" and "cn_authedSecretHash d = hash secret"
  shows "cn_role d = RoleWorker \<and> cn_runId d = r \<and> cn_taskId d = t"
proof -
  have ok: "broker_ok hash (b, H)" by (rule broker.ok_run [OF broker_ok_new _ assms(2)]) simp
  then have once: "k = k'" if "(k, u) \<in> H" "(k', u) \<in> H" for k k' u
    using that unfolding broker_ok_def registry_ok_def by blast
  have p: "proven hash H d" using ok assms(8) by (auto simp: broker_ok_def)
  then obtain u where u: "hash secret = hash u" and role: "case cn_role d of
      RoleOrchestrator \<Rightarrow> (orchestratorKey (cn_runId d), u) \<in> H
    | RoleWorker \<Rightarrow> (token_key (cn_runId d) (Some (cn_taskId d)), u) \<in> H"
    using assms(9) by (auto simp: proven_def)
  have us: "u = secret" using assms(1) u by (simp add: inj_eq)
  have key: "token_key r (Some t) = r @ CHR '':'' # t" using assms(4) by (simp add: token_key_def)
  show ?thesis
  proof (cases "cn_role d")
    case RoleOrchestrator
    then have "orchestratorKey (cn_runId d) = token_key r (Some t)" using role once assms(3) us by simp
    then have "cn_runId d @ CHR '':'' # ''__orchestrator__'' = r @ CHR '':'' # t" by (simp add: orchestratorKey_def key)
    from colon_free_key [OF this assms(6,7)] show ?thesis using assms(5) by simp
  next
    case RoleWorker
    have "cn_taskId d \<noteq> []" using p by (simp add: proven_def)
    then have "cn_runId d @ CHR '':'' # cn_taskId d = r @ CHR '':'' # t"
      using RoleWorker role once assms(3) us key by (simp add: token_key_def)
    from colon_free_key [OF this assms(6,7)] show ?thesis using RoleWorker by simp
  qed
qed

text \<open>
  The fan-out index is exact: in every state that a broker reaches, the connections listed for a run
  are the open connections that completed a handshake for it, and each of them is bound to a secret that was
  handed out under the key of the identity it has.
\<close>

theorem fanout_index_exact:
  assumes "run_events (broker_step hash) es (new_broker, {}) = Some (b, H)"
  shows "bk_connectionsByRun b r = {c. \<exists>d. bk_connections b c = Some (Some d) \<and> cn_runId d = r \<and> proven hash H d}"
proof -
  have ok: "broker_ok hash (b, H)" by (rule broker.ok_run [OF broker_ok_new _ assms]) simp
  then show ?thesis by (auto simp: broker_ok_def)
qed

subsection \<open>Revocation\<close>

lemma revoked_mono_frame:
  "dispatchFrame hash disk c frame b = Some (ans, b') \<Longrightarrow> bk_tokens b' = bk_tokens b"
  by (auto simp: dispatchFrame_def handleHello_def Let_def closeConnection_def bind_identity_def
      split: option.splits if_splits prod.splits)

lemma revoked_mono_issue:
  "tr_revokedTokenHashes (bk_tokens (snd (issueRunToken hash fresh r t b))) = tr_revokedTokenHashes (bk_tokens b)"
  by (auto simp: issueRunToken_def issue_def Let_def split: option.splits if_splits)

lemma revoked_mono_step:
  assumes "x \<in> tr_revokedTokenHashes (bk_tokens (fst s))" and "broker_step hash e s = Some s'"
  shows "x \<in> tr_revokedTokenHashes (bk_tokens (fst s'))"
proof -
  obtain b H where s: "s = (b, H)" by (cases s)
  show ?thesis
  proof (cases e)
    case (EvIssue r t fresh)
    obtain o' b' where i: "issueRunToken hash fresh r t b = (o', b')" by force
    have "x \<in> tr_revokedTokenHashes (bk_tokens b')"
      using assms(1) revoked_mono_issue [of hash fresh r t b] by (simp add: s i)
    moreover have "fst s' = b'" using assms(2) EvIssue i by (cases o') (auto simp: s split: if_splits)
    ultimately show ?thesis by simp
  next
    case (EvFrame c disk frame)
    then obtain ans b' where f: "dispatchFrame hash disk c frame b = Some (ans, b')" and s': "s' = (b', H)"
      using assms(2) by (auto simp: s)
    then show ?thesis using assms(1) revoked_mono_frame [OF f] by (simp add: s)
  next
    case (EvRevoke t)
    then show ?thesis using assms by (auto simp: s revokeTaskToken_def revokeToken_def split: option.splits if_splits)
  qed (use assms in \<open>auto simp: s handleConnection_def hello_deadline_def closeConnection_def
      issueOrchestratorToken_def split: option.splits if_splits prod.splits\<close>)
qed

interpretation revoked: machine_invariant "broker_step hash" "\<lambda>_ _. True"
  "\<lambda>s. x \<in> tr_revokedTokenHashes (bk_tokens (fst s))"
  for hash :: "string \<Rightarrow> string" and x :: string
  by unfold_locales (rule revoked_mono_step)

lemma revoked_hello:
  assumes "hash secret \<in> tr_revokedTokenHashes (bk_tokens b)" and "isHelloParams params = Some h"
    and "hp_token h = secret" and "handleHello hash disk c params b = (Welcome, b')"
  shows "equalConstTime (tr_map (bk_tokens b) (orchestratorKey (hp_runId h))) secret"
  using assms(4)
proof (cases rule: hello_answer)
  case (bound h' role kind)
  have h': "h' = h" using bound(2) assms(2) by simp
  show ?thesis
  proof (rule ccontr)
    assume no: "\<not> equalConstTime (tr_map (bk_tokens b) (orchestratorKey (hp_runId h))) secret"
    then have "role = RoleWorker" "tr_map (bk_tokens b) (token_key (hp_runId h) (Some (hp_taskId h))) = Some secret"
      using bound(3) assms(3) by (auto simp: h' tokenRoleWithMatchKind_def equalConstTime_def split: if_splits)
    then show False using bound(4) assms(1) isHelloParams_sized [OF assms(2)]
      by (simp add: h' isTaskTokenRevoked_def)
  qed
qed simp

text \<open>
  C14. A revoked task token is dead for good: after \<open>revokeTaskToken\<close>, in every later state, whatever happened
  in between (a token issued anew for the task included), a frame on a worker connection that was
  authenticated with the old secret closes the connection without reaching a handler, and a handshake that
  presents the old secret is refused unless the secret is the orchestrator's of that run.
\<close>

theorem revoked_secret_stays_dead:
  assumes "revokeTaskToken hash taskId b0 = Some b1" and "bk_taskTokens b0 taskId = Some secret" and "secret \<noteq> []"
    and "run_events (broker_step hash) es (b1, H1) = Some (b2, H2)"
  shows "(bk_connections b2 c = Some (Some d) \<and> cn_role d = RoleWorker \<and> cn_authedSecretHash d = hash secret \<longrightarrow>
      (\<exists>code. dispatchFrame hash disk c frame b2 = Some (CloseWith code, closeConnection c b2))) \<and>
    (isHelloParams params = Some h \<and> hp_token h = secret \<and> handleHello hash disk c params b2 = (Welcome, b3) \<longrightarrow>
      equalConstTime (tr_map (bk_tokens b2) (orchestratorKey (hp_runId h))) secret)"
proof -
  have "hash secret \<in> tr_revokedTokenHashes (bk_tokens b1)"
    using assms(1-3) by (auto simp: revokeTaskToken_def revokeToken_def split: if_splits)
  then have dead: "hash secret \<in> tr_revokedTokenHashes (bk_tokens b2)"
    using revoked.ok_run [of "hash secret" "(b1, H1)" hash es "(b2, H2)"] assms(4) by simp
  have "\<exists>code. dispatchFrame hash disk c frame b2 = Some (CloseWith code, closeConnection c b2)"
    if "bk_connections b2 c = Some (Some d)" "cn_role d = RoleWorker" "cn_authedSecretHash d = hash secret"
    using that dead by (auto simp: dispatchFrame_def Let_def isSecretRevoked_def split: option.split)
  then show ?thesis using revoked_hello [where hash = hash and secret = secret and b = b2, OF dead] by blast
qed

text \<open>
  The token that \<open>revokeTaskToken\<close> revokes is the last one issued for the task id in any run: when the same
  task id was issued a token in run A and then in run B, revoking the task revokes the token of B only, and
  that of A is as valid as before.
\<close>

theorem revoke_hits_last_run_only:
  assumes "issueRunToken hash fa A (Some t) b = (Some ta, b1)" and "issueRunToken hash fb B (Some t) b1 = (Some tb, b2)"
    and "revokeTaskToken hash t b2 = Some b3" and "tb \<noteq> []"
  shows "isSecretRevoked (hash tb) (bk_tokens b3) \<and>
    (isSecretRevoked (hash ta) (bk_tokens b3) \<longleftrightarrow> isSecretRevoked (hash ta) (bk_tokens b) \<or> hash ta = hash tb)"
proof -
  have "bk_taskTokens b2 t = Some tb" using assms(2) by (auto simp: issueRunToken_def split: option.splits prod.splits)
  then have "tr_revokedTokenHashes (bk_tokens b3) = insert (hash tb) (tr_revokedTokenHashes (bk_tokens b2))"
    using assms(3,4) by (auto simp: revokeTaskToken_def revokeToken_def split: if_splits)
  moreover have "tr_revokedTokenHashes (bk_tokens b2) = tr_revokedTokenHashes (bk_tokens b)"
    using revoked_mono_issue [of hash fa A "Some t" b] revoked_mono_issue [of hash fb B "Some t" b1] assms(1,2) by simp
  ultimately show ?thesis by (auto simp: isSecretRevoked_def)
qed

text \<open>
  Before the handshake nothing is served but the handshake, the methods that answer a parked question and
  the forced steer; any other frame, and any malformed one, closes the connection. After it, a repeated
  handshake closes it too.
\<close>

theorem unauthenticated_surface:
  assumes "bk_connections b c = Some None" and "dispatchFrame hash disk c frame b = Some (Handle m params, b')"
  shows "m \<in> {''respond.challenge'', ''respond.append'', ''respond.force'', ''steer.force''} \<and> b' = b"
  using assms by (auto simp: dispatchFrame_def handleHello_def respond_methods_def Let_def
      split: option.splits if_splits prod.splits)

subsection \<open>Concrete runs\<close>

definition hello_frame :: "string \<Rightarrow> string \<Rightarrow> string \<Rightarrow> json" where
  "hello_frame r t k = JObj [(''id'', JStr ''1''), (''method'', JStr ''hello''), (''params'', JObj
     [(''protocol'', JNum (Fin 1)), (''runId'', JStr r), (''taskId'', JStr t), (''token'', JStr k)])]"

text \<open>A worker of task \<open>t\<close> of run \<open>r\<close> with the secret \<open>s\<close> is connected.\<close>

definition greeting :: "nat broker_event list" where
  "greeting = [EvIssue ''r'' (Some ''t'') ''s'', EvConnect 1, EvFrame 1 (\<lambda>_. None) (hello_frame ''r'' ''t'' ''s'')]"

definition greeted :: "nat broker \<times> handed_out" where
  "greeted = the (run_events (broker_step id) greeting (new_broker, {}))"

lemma greeting_runs: "run_events (broker_step id) greeting (new_broker, {}) = Some greeted"
proof -
  have "run_events (broker_step id) greeting (new_broker, {}) \<noteq> None" by code_simp
  then show ?thesis by (simp add: greeted_def)
qed

lemma greeted_facts:
  "(token_key ''r'' (Some ''t''), ''s'') \<in> snd greeted"
  "bk_connections (fst greeted) 1 = Some (Some \<lparr> cn_runId = ''r'', cn_taskId = ''t'', cn_role = RoleWorker,
     cn_authMatchKind = Compound, cn_authedSecretHash = ''s'' \<rparr>)"
  "bk_taskTokens (fst greeted) ''t'' = Some ''s''"
  by code_simp+

theorem secret_proves_identity_witness:
  "\<exists>b H d. run_events (broker_step id) greeting (new_broker, {}) = Some (b, H) \<and> bk_connections b 1 = Some (Some d) \<and>
     cn_role d = RoleWorker \<and> cn_runId d = ''r'' \<and> cn_taskId d = ''t''"
proof -
  obtain b H where g: "greeted = (b, H)" by (cases greeted)
  obtain d where d: "bk_connections b 1 = Some (Some d)" "cn_authedSecretHash d = id ''s''"
    using greeted_facts(2) by (simp add: g)
  have "cn_role d = RoleWorker \<and> cn_runId d = ''r'' \<and> cn_taskId d = ''t''"
    by (rule secret_proves_identity [OF _ greeting_runs [unfolded g] _ _ _ _ _ d])
      (use greeted_facts(1) in \<open>simp_all add: g\<close>)
  then show ?thesis using greeting_runs d(1) by (auto simp: g)
qed

theorem fanout_index_exact_witness:
  "bk_connectionsByRun (fst greeted) ''r'' =
     {c. \<exists>d. bk_connections (fst greeted) c = Some (Some d) \<and> cn_runId d = ''r'' \<and> proven id (snd greeted) d}"
  by (rule fanout_index_exact [of id greeting]) (simp add: greeting_runs)

definition revoked_then_reissued :: "nat broker \<times> handed_out" where
  "revoked_then_reissued = the (run_events (broker_step id) [EvIssue ''r'' (Some ''t'') ''u'']
     (the (revokeTaskToken id ''t'' (fst greeted)), snd greeted))"

definition ping_frame :: json where
  "ping_frame = JObj [(''id'', JStr ''2''), (''method'', JStr ''ping''), (''params'', JNull)]"

theorem revoked_secret_stays_dead_witness:
  "get_token ''r'' (Some ''t'') (bk_tokens (fst revoked_then_reissued)) = Some ''u'' \<and>
   (\<exists>code. dispatchFrame id (\<lambda>_. None) 1 ping_frame (fst revoked_then_reissued) =
     Some (CloseWith code, closeConnection 1 (fst revoked_then_reissued)))"
proof -
  have "revokeTaskToken id ''t'' (fst greeted) \<noteq> None" by (simp add: revokeTaskToken_def)
  then obtain b1 where r: "revokeTaskToken id ''t'' (fst greeted) = Some b1" by blast
  have "run_events (broker_step id) [EvIssue ''r'' (Some ''t'') ''u'']
     (the (revokeTaskToken id ''t'' (fst greeted)), snd greeted) \<noteq> None" by code_simp
  then have e: "run_events (broker_step id) [EvIssue ''r'' (Some ''t'') ''u''] (b1, snd greeted) =
      Some (fst revoked_then_reissued, snd revoked_then_reissued)"
    by (simp add: revoked_then_reissued_def r)
  let ?d = "\<lparr> cn_runId = ''r'', cn_taskId = ''t'', cn_role = RoleWorker, cn_authMatchKind = Compound,
    cn_authedSecretHash = id ''s'' \<rparr>"
  have c: "bk_connections (fst revoked_then_reissued) 1 = Some (Some ?d)" by code_simp
  have "get_token ''r'' (Some ''t'') (bk_tokens (fst revoked_then_reissued)) = Some ''u''" by code_simp
  then show ?thesis
    using revoked_secret_stays_dead [OF r greeted_facts(3) _ e, of 1 ?d "\<lambda>_. None" ping_frame] c by simp
qed

theorem revoke_hits_last_run_only_witness:
  "\<exists>b3. revokeTaskToken id ''t'' (snd (issueRunToken id ''y'' ''B'' (Some ''t'')
       (snd (issueRunToken id ''x'' ''A'' (Some ''t'') (new_broker :: nat broker))))) = Some b3 \<and>
     isSecretRevoked ''y'' (bk_tokens b3) \<and> \<not> isSecretRevoked ''x'' (bk_tokens b3)"
proof -
  let ?b1 = "snd (issueRunToken id ''x'' ''A'' (Some ''t'') (new_broker :: nat broker))"
  let ?b2 = "snd (issueRunToken id ''y'' ''B'' (Some ''t'') ?b1)"
  have 1: "issueRunToken id ''x'' ''A'' (Some ''t'') (new_broker :: nat broker) = (Some ''x'', ?b1)"
    by (simp add: issueRunToken_def issue_def new_broker_def token_key_def Let_def)
  have 2: "issueRunToken id ''y'' ''B'' (Some ''t'') ?b1 = (Some ''y'', ?b2)"
    by (simp add: issueRunToken_def issue_def new_broker_def token_key_def Let_def)
  obtain b3 where 3: "revokeTaskToken id ''t'' ?b2 = Some b3" by (simp add: revokeTaskToken_def)
  have "\<not> isSecretRevoked ''x'' (bk_tokens (new_broker :: nat broker))" by (simp add: isSecretRevoked_def new_broker_def)
  then show ?thesis using revoke_hits_last_run_only [OF 1 2 3] 3 by simp
qed

theorem unauthenticated_surface_witness:
  "\<exists>b'. dispatchFrame id (\<lambda>_. None) 1 (JObj [(''id'', JStr ''1''), (''method'', JStr ''respond.force''), (''params'', JNull)])
       (handleConnection (1 :: nat) new_broker) = Some (Handle ''respond.force'' JNull, b') \<and>
     b' = handleConnection 1 new_broker"
proof -
  let ?f = "JObj [(''id'', JStr ''1''), (''method'', JStr ''respond.force''), (''params'', JNull)]"
  obtain b' where f: "dispatchFrame id (\<lambda>_. None) 1 ?f (handleConnection (1 :: nat) new_broker) = Some (Handle ''respond.force'' JNull, b')"
  proof -
    have "map_option fst (dispatchFrame id (\<lambda>_. None) 1 ?f (handleConnection (1 :: nat) new_broker)) = Some (Handle ''respond.force'' JNull)"
      by code_simp
    then show ?thesis using that by fastforce
  qed
  have "bk_connections (handleConnection (1 :: nat) new_broker) 1 = Some None" by (simp add: handleConnection_def)
  from unauthenticated_surface [OF this f] f show ?thesis by blast
qed

end
