(* ===== verification/BrokerOutbound.thy ===== *)
theory BrokerOutbound
  imports Prelude
begin

text \<open>
  The outbound queue of a broker connection, \<open>src/src/runtime/broker/protocol/connection-state.ts\<close>: admission of
  frames, the drain under backpressure, and the close on overflow. The socket is the one of \<open>node:net\<close>: a write
  is always accepted into its buffer, the result says whether the buffer is below its high-water mark, and
  \<open>drain\<close> is emitted when the buffer has been flushed after a write that was not.
\<close>

subsection \<open>The socket\<close>

type_synonym 'b frame = "'b list"

record 'b socket =
  sk_written :: "'b frame list"
  sk_buffered :: nat
  sk_drainListeners :: nat
  sk_broken :: bool

text \<open>\<open>hwm\<close>: the high-water mark of the socket. A write to a broken socket throws.\<close>

definition socket_write :: "nat \<Rightarrow> 'b frame \<Rightarrow> 'b socket \<Rightarrow> (bool \<times> 'b socket) option" where
  "socket_write hwm f sk =
     (if sk_broken sk then None
      else let n = sk_buffered sk + length f
           in Some (n < hwm, sk\<lparr>sk_written := sk_written sk @ [f], sk_buffered := n\<rparr>))"

subsection \<open>The queue\<close>

record 'b out_conn =
  oc_socket :: "'b socket"
  oc_outbound :: "'b frame list"
  oc_queuedBytes :: nat
  oc_needsResync :: bool
  oc_closed :: bool
  oc_outboundSeq :: nat

record out_opts =
  oo_hwm :: nat
  oo_queueCap :: nat
  oo_bytesCap :: nat

definition DEFAULT_OUTBOUND_QUEUE_CAP :: nat where "DEFAULT_OUTBOUND_QUEUE_CAP = 256"
definition DEFAULT_OUTBOUND_QUEUE_BYTES :: nat where "DEFAULT_OUTBOUND_QUEUE_BYTES = 4 * 1024 * 1024"

text \<open>\<open>false\<close>, \<open>"response"\<close> and \<open>true\<close>.\<close>

datatype admission = EventClass | ResponseClass | Forced

definition close_conn :: "'b out_conn \<Rightarrow> 'b out_conn" where
  "close_conn c = c\<lparr>oc_closed := True\<rparr>"

text \<open>Writing as much of a queue as the socket takes.\<close>

fun drain_frames :: "nat \<Rightarrow> 'b frame list \<Rightarrow> 'b out_conn \<Rightarrow> 'b out_conn" where
  "drain_frames hwm [] c = c\<lparr>oc_outbound := []\<rparr>"
| "drain_frames hwm (f # fs) c =
     (case socket_write hwm f (oc_socket c) of
        None \<Rightarrow> close_conn (c\<lparr>oc_outbound := f # fs\<rparr>)
      | Some (False, sk) \<Rightarrow>
          c\<lparr>oc_outbound := f # fs, oc_socket := sk\<lparr>sk_drainListeners := sk_drainListeners sk + 1\<rparr>\<rparr>
      | Some (True, sk) \<Rightarrow>
          drain_frames hwm fs (c\<lparr>oc_socket := sk, oc_queuedBytes := oc_queuedBytes c - length f,
            oc_outboundSeq := oc_outboundSeq c + 1\<rparr>))"

definition drainOutboundFrames :: "nat \<Rightarrow> 'b out_conn \<Rightarrow> 'b out_conn" where
  "drainOutboundFrames hwm c = drain_frames hwm (oc_outbound c) c"

text \<open>\<open>reason\<close> is the encoded close event.\<close>

definition handleOutboundOverflowFrame :: "nat \<Rightarrow> 'b frame \<Rightarrow> 'b out_conn \<Rightarrow> 'b out_conn" where
  "handleOutboundOverflowFrame hwm reason c =
     (if oc_needsResync c then c
      else let c' = c\<lparr>oc_needsResync := True\<rparr>
           in close_conn (case socket_write hwm reason (oc_socket c') of
                None \<Rightarrow> c' | Some (ok, sk) \<Rightarrow> c'\<lparr>oc_socket := sk\<rparr>))"

definition enqueue_frame :: "nat \<Rightarrow> 'b frame \<Rightarrow> 'b out_conn \<Rightarrow> 'b out_conn" where
  "enqueue_frame hwm buf c = drainOutboundFrames hwm
     (c\<lparr>oc_outbound := oc_outbound c @ [buf], oc_queuedBytes := oc_queuedBytes c + length buf\<rparr>)"

definition writeOrQueueFrame :: "out_opts \<Rightarrow> 'b frame \<Rightarrow> 'b frame \<Rightarrow> admission \<Rightarrow> 'b out_conn \<Rightarrow> 'b out_conn" where
  "writeOrQueueFrame opts reason buf force c =
     (if oc_closed c then c
      else if oo_bytesCap opts < oc_queuedBytes c + length buf
      then handleOutboundOverflowFrame (oo_hwm opts) reason c
      else if oo_queueCap opts \<le> length (oc_outbound c)
      then (case force of
              ResponseClass \<Rightarrow> enqueue_frame (oo_hwm opts) buf c
            | Forced \<Rightarrow> (case socket_write (oo_hwm opts) buf (oc_socket c) of
                None \<Rightarrow> c | Some (ok, sk) \<Rightarrow> c\<lparr>oc_socket := sk\<rparr>)
            | EventClass \<Rightarrow> handleOutboundOverflowFrame (oo_hwm opts) reason c)
      else enqueue_frame (oo_hwm opts) buf c)"

text \<open>The listeners that \<open>once("drain")\<close> has registered run one after the other.\<close>

definition on_drain :: "nat \<Rightarrow> 'b out_conn \<Rightarrow> 'b out_conn" where
  "on_drain hwm c =
     (let n = sk_drainListeners (oc_socket c);
          c' = c\<lparr>oc_socket := (oc_socket c)\<lparr>sk_buffered := 0, sk_drainListeners := 0\<rparr>\<rparr>
      in ((\<lambda>c. if oc_closed c then c else drainOutboundFrames hwm c) ^^ n) c')"

subsection \<open>The connection as a machine\<close>

datatype 'b out_event = OvWrite "'b frame" admission | OvDrain | OvBreak | OvClose

fun out_step :: "out_opts \<Rightarrow> 'b frame \<Rightarrow> 'b out_event \<Rightarrow> 'b out_conn \<Rightarrow> 'b out_conn option" where
  "out_step opts reason (OvWrite buf force) c = Some (writeOrQueueFrame opts reason buf force c)"
| "out_step opts reason OvDrain c = Some (on_drain (oo_hwm opts) c)"
| "out_step opts reason OvBreak c = Some (c\<lparr>oc_socket := (oc_socket c)\<lparr>sk_broken := True\<rparr>\<rparr>)"
| "out_step opts reason OvClose c = Some (close_conn c)"

definition new_conn :: "'b out_conn" where
  "new_conn = \<lparr> oc_socket = \<lparr> sk_written = [], sk_buffered = 0, sk_drainListeners = 0, sk_broken = False \<rparr>,
     oc_outbound = [], oc_queuedBytes = 0, oc_needsResync = False, oc_closed = False, oc_outboundSeq = 0 \<rparr>"

subsection \<open>The bytes in the queue\<close>

definition queue_size :: "'b frame list \<Rightarrow> nat" where
  "queue_size fs = sum_list (map length fs)"

definition out_ok :: "out_opts \<Rightarrow> 'b out_conn \<Rightarrow> bool" where
  "out_ok opts c \<longleftrightarrow> oc_queuedBytes c = queue_size (oc_outbound c) \<and> oc_queuedBytes c \<le> oo_bytesCap opts"

lemma drain_frames_ok:
  "oc_queuedBytes c = queue_size fs \<Longrightarrow>
   oc_queuedBytes (drain_frames hwm fs c) = queue_size (oc_outbound (drain_frames hwm fs c)) \<and>
   oc_queuedBytes (drain_frames hwm fs c) \<le> oc_queuedBytes c \<and>
   length (oc_outbound (drain_frames hwm fs c)) \<le> length fs"
proof (induction hwm fs c rule: drain_frames.induct)
  case (2 hwm f fs c)
  show ?case
  proof (cases "socket_write hwm f (oc_socket c)")
    case None
    then show ?thesis using 2 by (simp add: close_conn_def)
  next
    case (Some r)
    obtain ok sk where r: "r = (ok, sk)" by (cases r)
    show ?thesis
    proof (cases ok)
      case True
      then show ?thesis using 2(1) [OF Some r [symmetric]] 2(2) Some r by (simp add: queue_size_def)
    next
      case False
      then show ?thesis using 2(2) Some r by simp
    qed
  qed
qed (simp add: queue_size_def)

lemma out_ok_parts [simp]:
  "out_ok opts (c\<lparr>oc_socket := sk\<rparr>) = out_ok opts c"
  "out_ok opts (c\<lparr>oc_needsResync := x\<rparr>) = out_ok opts c"
  "out_ok opts (close_conn c) = out_ok opts c"
  by (simp_all add: out_ok_def close_conn_def)

lemma drain_ok: "out_ok opts c \<Longrightarrow> out_ok opts (drainOutboundFrames hwm c)"
  using drain_frames_ok [of c "oc_outbound c" hwm] by (auto simp: out_ok_def drainOutboundFrames_def)

lemma enqueue_ok:
  assumes "out_ok opts c" and "oc_queuedBytes c + length buf \<le> oo_bytesCap opts"
  shows "out_ok opts (enqueue_frame hwm buf c)"
  unfolding enqueue_frame_def by (rule drain_ok) (use assms in \<open>simp add: out_ok_def queue_size_def\<close>)

lemma overflow_ok: "out_ok opts c \<Longrightarrow> out_ok opts (handleOutboundOverflowFrame hwm reason c)"
  by (auto simp: handleOutboundOverflowFrame_def Let_def split: option.split prod.split)

lemma write_ok: "out_ok opts c \<Longrightarrow> out_ok opts (writeOrQueueFrame opts reason buf force c)"
  using enqueue_ok [of opts c buf "oo_hwm opts"] overflow_ok [of opts c "oo_hwm opts" reason]
  by (auto simp: writeOrQueueFrame_def not_less split: admission.split option.split prod.split)

lemma funpow_invariant: "P x \<Longrightarrow> (\<And>x. P x \<Longrightarrow> P (f x)) \<Longrightarrow> P ((f ^^ n) x)"
  by (induction n) auto

lemma on_drain_ok: "out_ok opts c \<Longrightarrow> out_ok opts (on_drain hwm c)"
  unfolding on_drain_def Let_def by (rule funpow_invariant) (simp_all add: drain_ok)

lemma out_ok_step: "out_ok opts c \<Longrightarrow> out_step opts reason e c = Some c' \<Longrightarrow> out_ok opts c'"
  by (cases e) (auto simp: write_ok on_drain_ok)

interpretation out_queue: machine_invariant "out_step opts reason" "\<lambda>_ _. True" "out_ok opts"
  for opts :: out_opts and reason :: "'b frame"
  by unfold_locales (rule out_ok_step)

text \<open>
  C18. The queue of a connection never holds more bytes than its cap, and the counter of queued bytes is exact:
  in every state that a new connection reaches, by writes of every class, drains, a broken socket and closes.
\<close>

theorem outbound_bytes_bounded:
  assumes "run_events (out_step opts reason) es new_conn = Some c"
  shows "oc_queuedBytes c = sum_list (map length (oc_outbound c)) \<and> sum_list (map length (oc_outbound c)) \<le> oo_bytesCap opts"
proof -
  have "out_ok opts new_conn" by (simp add: out_ok_def new_conn_def queue_size_def)
  then have "out_ok opts c" by (rule out_queue.ok_run [OF _ _ assms]) simp
  then show ?thesis by (simp add: out_ok_def queue_size_def)
qed

subsection \<open>The order of the frames\<close>

text \<open>
  \<open>tracks A c\<close>: the frames admitted so far are those that left the queue and those in it; the socket got the
  former in order, with repetitions, and perhaps the head of the queue already.
\<close>

definition tracks :: "'b frame list \<Rightarrow> 'b frame list \<Rightarrow> 'b frame list \<Rightarrow> bool" where
  "tracks A queue written \<longleftrightarrow> distinct A \<and> (\<exists>gone. A = gone @ queue \<and>
     (remdups_adj written = gone \<or> queue \<noteq> [] \<and> remdups_adj written = gone @ [hd queue]))"

lemma remdups_adj_snoc:
  "remdups_adj (w @ [x]) = (if w \<noteq> [] \<and> last w = x then remdups_adj w else remdups_adj w @ [x])"
  by (cases w rule: rev_cases) (simp_all add: remdups_adj_append_two)

lemma tracks_write:
  assumes "tracks A (f # fs) w"
  shows "tracks A (f # fs) (w @ [f]) \<and> tracks A fs (w @ [f])"
proof -
  have "distinct A" using assms by (simp add: tracks_def)
  moreover obtain gone where "A = gone @ f # fs" "remdups_adj w = gone \<or> remdups_adj w = gone @ [f]"
    using assms unfolding tracks_def by auto
  ultimately have a: "distinct A" "A = gone @ f # fs" "remdups_adj w = gone \<or> remdups_adj w = gone @ [f]" by simp_all
  have "remdups_adj (w @ [f]) = gone @ [f]"
    using a(3)
  proof
    assume g: "remdups_adj w = gone"
    have "f \<notin> set (remdups_adj w)" using a(1,2) g by simp
    then have "f \<notin> set w" by simp
    then show ?thesis using g by (auto simp: remdups_adj_snoc)
  next
    assume g: "remdups_adj w = gone @ [f]"
    then have "last (remdups_adj w) = f" "w \<noteq> []" by auto
    then have "last w = f" "w \<noteq> []" by simp_all
    then show ?thesis using g by (simp add: remdups_adj_snoc)
  qed
  then have "tracks A (f # fs) (w @ [f])" "tracks A fs (w @ [f])"
    using a(1,2) unfolding tracks_def by (metis list.discI list.sel(1), metis append.assoc append_Cons append_Nil)
  then show ?thesis ..
qed

lemma drain_frames_tracks:
  "tracks A fs (sk_written (oc_socket c)) \<Longrightarrow> \<not> sk_broken (oc_socket c) \<Longrightarrow>
   tracks A (oc_outbound (drain_frames hwm fs c)) (sk_written (oc_socket (drain_frames hwm fs c))) \<and>
   \<not> sk_broken (oc_socket (drain_frames hwm fs c)) \<and> oc_closed (drain_frames hwm fs c) = oc_closed c"
proof (induction hwm fs c rule: drain_frames.induct)
  case (2 hwm f fs c)
  obtain ok sk where w: "socket_write hwm f (oc_socket c) = Some (ok, sk)"
    and sk: "sk_written sk = sk_written (oc_socket c) @ [f]" "\<not> sk_broken sk"
    using 2(3) by (simp add: socket_write_def Let_def)
  note t = tracks_write [OF 2(2)]
  show ?case
  proof (cases ok)
    case True
    then show ?thesis using 2(1) [OF w refl] t sk w by simp
  next
    case False
    then show ?thesis using t sk w by simp
  qed
qed simp

definition sound :: "'b frame list \<Rightarrow> 'b out_conn \<Rightarrow> bool" where
  "sound A c \<longleftrightarrow> tracks A (oc_outbound c) (sk_written (oc_socket c)) \<and> \<not> sk_broken (oc_socket c)"

lemma drain_sound: "sound A c \<Longrightarrow> sound A (drainOutboundFrames hwm c)"
  using drain_frames_tracks [of A "oc_outbound c" c hwm] by (simp add: sound_def drainOutboundFrames_def)

lemma enqueue_sound:
  assumes "sound A c" and "buf \<notin> set A"
  shows "sound (A @ [buf]) (enqueue_frame hwm buf c)"
  unfolding enqueue_frame_def
  by (rule drain_sound) (use assms in \<open>auto simp: sound_def tracks_def\<close>)

lemma on_drain_sound: "sound A c \<Longrightarrow> sound A (on_drain hwm c)"
  unfolding on_drain_def Let_def by (rule funpow_invariant) (auto simp: drain_sound sound_def [of A "c\<lparr>oc_socket := _\<rparr>"] sound_def [of A c])

text \<open>A connection that is closed stays closed.\<close>

lemma drain_closed: "oc_closed c \<Longrightarrow> oc_closed (drain_frames hwm fs c)"
  by (induction hwm fs c rule: drain_frames.induct) (auto simp: close_conn_def split: option.split bool.split)

lemma on_drain_closed: "oc_closed c \<Longrightarrow> oc_closed (on_drain hwm c)"
  unfolding on_drain_def Let_def by (rule funpow_invariant) simp_all

lemma write_closed: "oc_closed c \<Longrightarrow> writeOrQueueFrame opts reason buf force c = c"
  by (simp add: writeOrQueueFrame_def)

lemma closed_run: "run_events (out_step opts reason) es c = Some c' \<Longrightarrow> oc_closed c \<Longrightarrow> oc_closed c'"
proof (induction es arbitrary: c)
  case (Cons e es)
  obtain d where d: "out_step opts reason e c = Some d" "run_events (out_step opts reason) es d = Some c'"
    using Cons.prems(1) by (auto simp: bind_eq_Some_conv)
  have "oc_closed d" using d(1) Cons.prems(2) by (cases e) (auto simp: write_closed on_drain_closed close_conn_def)
  then show ?case using Cons.IH d(2) by blast
qed simp

lemma overflow_closed: "\<not> oc_needsResync c \<Longrightarrow> oc_closed (handleOutboundOverflowFrame hwm reason c)"
  by (simp add: handleOutboundOverflowFrame_def close_conn_def Let_def)

lemma resync_drain: "oc_needsResync (drain_frames hwm fs c) = oc_needsResync c"
  by (induction hwm fs c rule: drain_frames.induct) (auto simp: close_conn_def split: option.split bool.split)

lemma resync_drains:
  "oc_needsResync (((\<lambda>c. if oc_closed c then c else drainOutboundFrames hwm c) ^^ n) d) = oc_needsResync d"
  by (induction n) (simp_all add: drainOutboundFrames_def resync_drain)

lemma resync_on_drain: "oc_needsResync (on_drain hwm c) = oc_needsResync c"
  by (simp add: on_drain_def Let_def resync_drains)

text \<open>The frames that a list of events offers, and the events without forced writes and faults.\<close>

definition offered :: "'b out_event list \<Rightarrow> 'b frame list" where
  "offered es = List.map_filter (\<lambda>e. case e of OvWrite f force \<Rightarrow> Some f | _ \<Rightarrow> None) es"

definition regular :: "'b out_event list \<Rightarrow> bool" where
  "regular es = list_all (\<lambda>e. case e of OvWrite f force \<Rightarrow> force \<noteq> Forced | OvDrain \<Rightarrow> True | _ \<Rightarrow> False) es"

lemma offered_simps [simp]:
  "offered [] = []" "offered (OvWrite f force # es) = f # offered es" "offered (OvDrain # es) = offered es"
  by (simp_all add: offered_def List.map_filter_simps)

lemma write_sound:
  assumes "sound A c" and "f \<notin> set A" and "force \<noteq> Forced" and "\<not> oc_needsResync c"
    and "\<not> oc_closed (writeOrQueueFrame opts reason f force c)"
  shows "sound (A @ [f]) (writeOrQueueFrame opts reason f force c) \<and> \<not> oc_needsResync (writeOrQueueFrame opts reason f force c)"
proof -
  have "\<not> oc_closed c" using assms(5) by (auto simp: writeOrQueueFrame_def split: if_splits)
  then have "writeOrQueueFrame opts reason f force c = enqueue_frame (oo_hwm opts) f c"
    using assms(3-5) overflow_closed [of c "oo_hwm opts" reason]
    by (cases force) (auto simp: writeOrQueueFrame_def split: if_splits)
  then show ?thesis using enqueue_sound [OF assms(1,2), of "oo_hwm opts"] assms(4)
    by (simp add: enqueue_frame_def drainOutboundFrames_def resync_drain)
qed

lemma run_sound:
  "run_events (out_step opts reason) es c = Some c' \<Longrightarrow> regular es \<Longrightarrow> \<not> oc_closed c' \<Longrightarrow> sound A c \<Longrightarrow>
   \<not> oc_needsResync c \<Longrightarrow> distinct (A @ offered es) \<Longrightarrow> sound (A @ offered es) c'"
proof (induction es arbitrary: c A)
  case (Cons e es)
  obtain d where d: "out_step opts reason e c = Some d" "run_events (out_step opts reason) es d = Some c'"
    using Cons.prems(1) by (auto simp: bind_eq_Some_conv)
  have open': "\<not> oc_closed d" using closed_run [OF d(2)] Cons.prems(3) by blast
  have reg: "regular es" using Cons.prems(2) by (simp add: regular_def)
  show ?case
  proof (cases e)
    case (OvWrite f force)
    have w: "d = writeOrQueueFrame opts reason f force c" using d(1) OvWrite by simp
    have "sound (A @ [f]) d \<and> \<not> oc_needsResync d"
      unfolding w using Cons.prems(2,4-6) open' OvWrite w by (intro write_sound) (auto simp: regular_def)
    then show ?thesis using Cons.IH [OF d(2) reg Cons.prems(3), of "A @ [f]"] Cons.prems(6) OvWrite by simp
  next
    case OvDrain
    then have "sound A d" "\<not> oc_needsResync d" using d(1) on_drain_sound Cons.prems(4,5) by (auto simp: resync_on_drain)
    then show ?thesis using Cons.IH [OF d(2) reg Cons.prems(3)] Cons.prems(6) OvDrain by simp
  qed (use Cons.prems(2) in \<open>simp_all add: regular_def\<close>)
qed simp

text \<open>
  No frame is lost or reordered while a connection is open: as long as only events and responses are written,
  with any drains in between, the frames that left the queue and those in it are all the frames offered, and
  what the socket got is, but for repetitions of the last one, the former in the order of the offers.
\<close>

theorem frames_in_order:
  assumes "run_events (out_step opts reason) es new_conn = Some c" and "regular es" and "\<not> oc_closed c"
    and "distinct (offered es)"
  shows "\<exists>gone. offered es = gone @ oc_outbound c \<and>
    (remdups_adj (sk_written (oc_socket c)) = gone \<or>
     oc_outbound c \<noteq> [] \<and> remdups_adj (sk_written (oc_socket c)) = gone @ [hd (oc_outbound c)])"
proof -
  have "sound [] (new_conn :: 'a out_conn)" by (simp add: sound_def tracks_def new_conn_def)
  from run_sound [OF assms(1-3) this] assms(4) have "sound (offered es) c" by (simp add: new_conn_def)
  then show ?thesis by (simp add: sound_def tracks_def)
qed

lemma backpressure_steps:
  assumes "oc_outbound c = f # fs" and "oo_hwm opts \<le> length f" and "\<not> sk_broken (oc_socket c)" and "\<not> oc_closed c"
    and "length (f # fs) + length gs < oo_queueCap opts"
    and "oc_queuedBytes c + queue_size gs \<le> oo_bytesCap opts"
  shows "\<exists>c'. run_events (out_step opts reason) (map (\<lambda>g. OvWrite g EventClass) gs) c = Some c' \<and>
    sk_written (oc_socket c') = sk_written (oc_socket c) @ replicate (length gs) f \<and> oc_outbound c' = f # fs @ gs"
  using assms
proof (induction gs arbitrary: c fs)
  case (Cons g gs)
  let ?c = "writeOrQueueFrame opts reason g EventClass c"
  have "socket_write (oo_hwm opts) f (oc_socket c) = Some (False, (oc_socket c)\<lparr>sk_written := sk_written (oc_socket c) @ [f],
      sk_buffered := sk_buffered (oc_socket c) + length f\<rparr>)"
    using Cons.prems(2,3) by (simp add: socket_write_def Let_def)
  moreover have "oc_queuedBytes c + length g \<le> oo_bytesCap opts" "length (oc_outbound c) < oo_queueCap opts"
    using Cons.prems(1,5,6) by (simp_all add: queue_size_def)
  ultimately have "oc_outbound ?c = f # fs @ [g]" "\<not> sk_broken (oc_socket ?c)" "\<not> oc_closed ?c"
    "oc_queuedBytes ?c = oc_queuedBytes c + length g" "sk_written (oc_socket ?c) = sk_written (oc_socket c) @ [f]"
    using Cons.prems(1,3,4) by (simp_all add: writeOrQueueFrame_def enqueue_frame_def drainOutboundFrames_def not_less not_le)
  note c = this
  obtain c' where "run_events (out_step opts reason) (map (\<lambda>g. OvWrite g EventClass) gs) ?c = Some c'"
    "sk_written (oc_socket c') = sk_written (oc_socket ?c) @ replicate (length gs) f" "oc_outbound c' = f # (fs @ [g]) @ gs"
    using Cons.IH [OF c(1) Cons.prems(2) c(2,3)] Cons.prems(5,6) c(4) by (auto simp: queue_size_def)
  then show ?case using c(5) by (simp add: replicate_append_same [symmetric])
qed simp

text \<open>
  A frame that meets backpressure is sent again: when the write of a frame fills the socket, the frame stays
  at the head of the queue although the socket has taken it, so each of the next \<open>n\<close> frames that are queued
  sends it once more, and so does the drain.
\<close>

theorem backpressured_frame_repeated:
  assumes "oo_hwm opts \<le> length f" and "length gs + 1 < oo_queueCap opts"
    and "length f + sum_list (map length gs) \<le> oo_bytesCap opts"
  shows "\<exists>c. run_events (out_step opts reason) (map (\<lambda>g. OvWrite g EventClass) (f # gs)) new_conn = Some c \<and>
    sk_written (oc_socket c) = replicate (length gs + 1) f \<and> oc_outbound c = f # gs"
proof -
  let ?c = "writeOrQueueFrame opts reason f EventClass new_conn"
  have w: "socket_write (oo_hwm opts) f (oc_socket (new_conn :: 'a out_conn)) = Some (False, (oc_socket new_conn)\<lparr>sk_written := [f], sk_buffered := length f\<rparr>)"
    using assms(1) by (simp add: socket_write_def new_conn_def)
  then have c: "oc_outbound ?c = f # []" "\<not> sk_broken (oc_socket ?c)" "\<not> oc_closed ?c" "oc_queuedBytes ?c = length f"
    "sk_written (oc_socket ?c) = [f]"
    using assms(2,3) by (simp_all add: writeOrQueueFrame_def enqueue_frame_def drainOutboundFrames_def new_conn_def)
  from backpressure_steps [OF c(1) assms(1) c(2,3), of gs reason] assms(2,3) c(4,5) show ?thesis
    by (auto simp: queue_size_def)
qed

subsection \<open>Concrete connections\<close>

definition small_opts :: out_opts where
  "small_opts = \<lparr> oo_hwm = 4, oo_queueCap = 3, oo_bytesCap = 20 \<rparr>"

definition some_writes :: "nat out_event list" where
  "some_writes = [OvWrite [1] EventClass, OvWrite [2,2,2,2] EventClass, OvWrite [3] ResponseClass, OvDrain,
     OvWrite [4] EventClass]"

definition after_writes :: "nat out_conn" where
  "after_writes = the (run_events (out_step small_opts [0]) some_writes new_conn)"

lemma after_writes_runs: "run_events (out_step small_opts [0]) some_writes new_conn = Some after_writes"
proof -
  have "run_events (out_step small_opts [0]) some_writes new_conn \<noteq> None" by code_simp
  then show ?thesis by (simp add: after_writes_def)
qed

theorem outbound_bytes_bounded_witness:
  "sum_list (map length (oc_outbound after_writes)) \<le> 20 \<and> oc_outbound after_writes \<noteq> []"
proof -
  have "oc_outbound after_writes \<noteq> []" by code_simp
  then show ?thesis using outbound_bytes_bounded [OF after_writes_runs] by (simp add: small_opts_def)
qed

theorem frames_in_order_witness:
  "\<exists>gone. [[1], [2,2,2,2], [3], [4]] = gone @ oc_outbound after_writes \<and>
    (remdups_adj (sk_written (oc_socket after_writes)) = gone \<or>
     oc_outbound after_writes \<noteq> [] \<and>
     remdups_adj (sk_written (oc_socket after_writes)) = gone @ [hd (oc_outbound after_writes)])"
proof -
  have o: "offered some_writes = [[1], [2,2,2,2], [3], [4]]" by code_simp
  have "regular some_writes" by code_simp
  moreover have "\<not> oc_closed after_writes" by code_simp
  ultimately show ?thesis using frames_in_order [OF after_writes_runs] unfolding o by simp
qed

theorem backpressured_frame_repeated_witness:
  "\<exists>c. run_events (out_step small_opts [0]) (map (\<lambda>g. OvWrite g EventClass) [[1,1,1,1], [2]]) (new_conn :: nat out_conn) = Some c \<and>
    sk_written (oc_socket c) = [[1,1,1,1], [1,1,1,1]] \<and> oc_outbound c = [[1,1,1,1], [2]]"
  using backpressured_frame_repeated [of small_opts "[1,1,1,1] :: nat list" "[[2]]" "[0]"] by (simp add: small_opts_def)

end
