(* ===== verification/BrokerMessages.thy ===== *)
theory BrokerMessages
  imports BrokerAuth MailboxDelivery Ndjson "HOL-Library.Code_Target_Nat"
begin

text \<open>
  The handlers of \<open>src/src/runtime/broker/\<close> that write to the mailbox or read it: \<open>msg.send\<close>, \<open>steer.push\<close>,
  \<open>steer.force\<close> and \<open>escalate\<close> of \<open>crew-broker.ts\<close> and \<open>broker-steer.ts\<close>, the recipients of
  \<open>msg-send-targets.ts\<close>, the pages of \<open>msg-inbox.ts\<close>, the responses of \<open>broker-respond.ts\<close> and the live
  fan-out of \<open>mailbox-fanout.ts\<close>. The run on disk is an argument, \<open>None\<close> when it cannot be loaded; fresh ids
  and signatures are arguments. Failing writes, the steering file and the audit events are left out.
\<close>

subsection \<open>Recipients\<close>

record send_target =
  st_label :: string
  st_mailboxTaskId :: "string option"

definition MSG_SEND_MAX_RECIPIENTS :: nat where "MSG_SEND_MAX_RECIPIENTS = 64"

definition to_task :: "string \<Rightarrow> send_target" where
  "to_task t = \<lparr> st_label = t, st_mailboxTaskId = Some t \<rparr>"

definition counted :: "send_target list \<Rightarrow> bool \<Rightarrow> string + send_target list \<times> bool" where
  "counted targets sentToParent =
     (if targets = [] \<or> MSG_SEND_MAX_RECIPIENTS < length targets then Inl ''bad-params'' else Inr (targets, sentToParent))"

definition resolveMsgSendTargets ::
    "bool \<Rightarrow> string option \<Rightarrow> msg_to \<Rightarrow> string list \<Rightarrow> string + send_target list \<times> bool" where
  "resolveMsgSendTargets isWorker connTaskId to taskIds =
     (if isWorker then
        if \<not> truthy connTaskId then Inl ''forbidden''
        else case to of
               ToOne r \<Rightarrow>
                 if r = ''parent'' then counted [\<lparr> st_label = ''parent'', st_mailboxTaskId = None \<rparr>] True
                 else if r = ''group'' then counted (map to_task taskIds) False
                 else if r \<in> set taskIds then counted [to_task r] False
                 else Inl ''forbidden''
             | ToMany rs \<Rightarrow> Inl ''forbidden''
      else counted (map to_task (case to of
             ToMany rs \<Rightarrow> rs | ToOne r \<Rightarrow> if r = ''all'' then taskIds else [r])) False)"

subsection \<open>msg.send\<close>

text \<open>What the handlers append: a message in an inbox with only these fields.\<close>

definition inbox_message :: "string \<Rightarrow> string \<Rightarrow> string \<Rightarrow> string \<Rightarrow> string option \<Rightarrow> string \<Rightarrow> string \<Rightarrow>
    mailbox_kind \<Rightarrow> mailbox_priority option \<Rightarrow> delivery_mode \<Rightarrow> string option \<Rightarrow> mailbox_message" where
  "inbox_message i runId from to task body createdAt kind priority mode requestId =
     \<lparr> mm_id = i, mm_runId = runId, mm_direction = Inbox, mm_from = from, mm_to = to, mm_body = body,
       mm_createdAt = createdAt, mm_status = MQueued, mm_kind = Some kind, mm_priority = priority,
       mm_deliveryMode = Some mode, mm_taskId = task, mm_questionId = None, mm_requestId = requestId,
       mm_acknowledgedAt = None, mm_data = None, mm_reason = None, mm_replyTo = None, mm_replyFrom = None,
       mm_replyDeadline = None, mm_repliedAt = None, mm_replyContent = None \<rparr>"

definition send_message ::
    "string \<Rightarrow> string \<Rightarrow> string \<Rightarrow> string \<Rightarrow> string \<Rightarrow> msg_send_params \<Rightarrow> string \<Rightarrow> send_target \<Rightarrow> mailbox_message" where
  "send_message messageId runId from body createdAt p requestId t =
     (inbox_message (messageId @ ''_'' @ st_label t) runId from (st_label t) (st_mailboxTaskId t) body createdAt
        (nullish (sp_kind p) KMessage) (Some (nullish (sp_priority p) PNormal)) NextTurn (Some requestId))
     \<lparr>mm_replyTo := sp_replyTo p\<rparr>"

fun send_all :: "mailbox_env \<Rightarrow> (string option \<Rightarrow> bool) \<Rightarrow> string \<Rightarrow> string \<Rightarrow> mailbox_message list \<Rightarrow> mailbox_store \<Rightarrow>
    nat \<times> mailbox_store" where
  "send_all env full sig requestId [] s = (0, s)"
| "send_all env full sig requestId (m # ms) s =
     (case appendMailboxMessageIdempotent env (full (mm_taskId m)) sig requestId m s of
        ((stored, deduped), s') \<Rightarrow>
          (case send_all env full sig requestId ms s' of (n, s'') \<Rightarrow> ((if deduped then 1 else 0) + n, s'')))"

text \<open>A reply to a request, \<open>SendOk\<close> with the request id, the recipients and how many of them had the message.\<close>

datatype send_reply = SendError string | SendOk string nat nat

text \<open>\<open>text_of\<close> is \<open>safeStringify\<close>; \<open>run\<close> the task ids of the run, when it can be loaded.\<close>

definition handleMsgSend :: "mailbox_env \<Rightarrow> (string option \<Rightarrow> bool) \<Rightarrow> string \<Rightarrow> (json \<Rightarrow> string) \<Rightarrow> string list option \<Rightarrow>
    string \<Rightarrow> string \<Rightarrow> identity \<Rightarrow> json \<Rightarrow> mailbox_store \<Rightarrow> send_reply \<times> mailbox_store" where
  "handleMsgSend env full sig text_of run messageId freshRequest d params s =
     (case parseMsgSendParams params of
        None \<Rightarrow> (SendError ''bad-params'', s)
      | Some p \<Rightarrow>
          let isWorker = (cn_role d = RoleWorker); body = text_of (sp_body p)
          in if isWorker \<and> sp_kind p \<noteq> None \<and> sp_kind p \<noteq> Some KNotify \<and> sp_kind p \<noteq> Some KMessage
             then (SendError ''bad-params'', s)
             else if MAX_BROKER_FRAME_BYTES < length body then (SendError ''oversize-frame'', s)
             else case run of
                    None \<Rightarrow> (SendError ''no-manifest'', s)
                  | Some taskIds \<Rightarrow>
                      (case resolveMsgSendTargets isWorker (Some (cn_taskId d)) (sp_to p) taskIds of
                         Inl code \<Rightarrow> (SendError code, s)
                       | Inr (targets, sentToParent) \<Rightarrow>
                           let from = cn_taskId d;
                               requestId = nullish (sp_requestId p) (cn_runId d @ '':'' @ from @ '':'' @ freshRequest);
                               ms = map (send_message messageId (cn_runId d) from body (me_now env) p requestId) targets
                           in (case send_all env full sig requestId ms s of
                                 (n, s') \<Rightarrow> (SendOk requestId (length targets) n, s'))))"

subsection \<open>Steering and escalation\<close>

text \<open>A priority is taken as it comes; one that is none of the three is dropped when the row is read.\<close>

definition wire_priority :: "mailbox_priority \<Rightarrow> json option \<Rightarrow> mailbox_priority option" where
  "wire_priority fallback v = (if v = None \<or> v = Some JNull then Some fallback else isPriority v)"

datatype steer_reply = SteerError string | SteerOk string bool

text \<open>An append without a client request id gets a fresh one, so it is never a duplicate.\<close>

definition append_steer :: "mailbox_env \<Rightarrow> bool \<Rightarrow> string \<Rightarrow> string option \<Rightarrow> (string \<Rightarrow> mailbox_message) \<Rightarrow> string \<Rightarrow>
    mailbox_store \<Rightarrow> bool \<times> mailbox_store" where
  "append_steer env full sig requestId message freshRequest s =
     (case requestId of
        Some r \<Rightarrow> (case appendMailboxMessageIdempotent env full sig r (message r) s of ((m, deduped), s') \<Rightarrow> (deduped, s'))
      | None \<Rightarrow> (False, appendMailboxMessage env full sig (message freshRequest) s))"

definition steer_request_id :: "json option \<Rightarrow> string option" where
  "steer_request_id v = map_option (take 128) (Option.bind (jstring v) (\<lambda>s. if s = [] then None else Some s))"

definition handleSteerPush :: "mailbox_env \<Rightarrow> bool \<Rightarrow> string \<Rightarrow> bool \<Rightarrow> string \<Rightarrow> string \<Rightarrow> identity \<Rightarrow> json \<Rightarrow>
    mailbox_store \<Rightarrow> steer_reply \<times> mailbox_store" where
  "handleSteerPush env full sig runExists messageId freshRequest d params s =
     (let v = Some params; target = jstring (jfield v ''taskId''); body = jstring (jfield v ''body'');
          requestId = steer_request_id (jfield v ''requestId'')
      in if cn_role d \<noteq> RoleOrchestrator then (SteerError ''forbidden'', s)
         else if \<not> truthy target \<or> body = None then (SteerError ''bad-params'', s)
         else if MAX_BROKER_FRAME_BYTES < length (the body) then (SteerError ''oversize-frame'', s)
         else if \<not> runExists then (SteerError ''no-manifest'', s)
         else (case append_steer env full sig requestId (\<lambda>r. inbox_message messageId (cn_runId d) (cn_taskId d)
                      (the target) target (the body) (me_now env) KSteer
                      (wire_priority PUrgent (jfield v ''priority'')) Interrupt (Some r)) freshRequest s of
                 (deduped, s') \<Rightarrow> (SteerOk messageId deduped, s')))"

record steer_force_params =
  sf_runId :: string
  sf_taskId :: string
  sf_body :: string
  sf_requestId :: "string option"

definition parseSteerForceParams :: "json \<Rightarrow> steer_force_params option" where
  "parseSteerForceParams value =
     (let v = Some value
      in case (jstring (jfield v ''runId''), jstring (jfield v ''taskId''), jstring (jfield v ''body'')) of
           (Some r, Some t, Some b) \<Rightarrow>
             if r = [] \<or> t = [] then None
             else Some \<lparr> sf_runId = r, sf_taskId = t, sf_body = b, sf_requestId = steer_request_id (jfield v ''requestId'') \<rparr>
         | _ \<Rightarrow> None)"

text \<open>\<open>load\<close>: the tasks of a run with their statuses. \<open>ident\<close> is \<open>None\<close> before the handshake.\<close>

definition handleSteerForce :: "mailbox_env \<Rightarrow> bool \<Rightarrow> string \<Rightarrow> (string \<Rightarrow> (string \<times> task_status) list option) \<Rightarrow>
    string \<Rightarrow> string \<Rightarrow> identity option \<Rightarrow> json \<Rightarrow> mailbox_store \<Rightarrow> steer_reply \<times> mailbox_store" where
  "handleSteerForce env full sig load messageId freshRequest ident params s =
     (if (case ident of Some d \<Rightarrow> cn_role d = RoleWorker | None \<Rightarrow> False) then (SteerError ''forbidden'', s)
      else case parseSteerForceParams params of
             None \<Rightarrow> (SteerError ''bad-params'', s)
           | Some p \<Rightarrow>
               if (case ident of Some d \<Rightarrow> cn_runId d \<noteq> sf_runId p | None \<Rightarrow> False) then (SteerError ''forbidden'', s)
               else case load (sf_runId p) of
                      None \<Rightarrow> (SteerError ''no-manifest'', s)
                    | Some tasks \<Rightarrow>
                        (case map_of tasks (sf_taskId p) of
                           None \<Rightarrow> (SteerError ''no-task'', s)
                         | Some st \<Rightarrow>
                             if isTerminalTaskStatus st then (SteerError ''no-task'', s)
                             else (case append_steer env full sig (sf_requestId p)
                                      (\<lambda>r. inbox_message messageId (sf_runId p) (sf_runId p) (sf_taskId p)
                                         (Some (sf_taskId p)) (sf_body p) (me_now env) KSteer (Some PUrgent) Interrupt (Some r))
                                      freshRequest s of
                                     (deduped, s') \<Rightarrow> (SteerOk messageId deduped, s'))))"

definition escalation :: "string \<Rightarrow> identity \<Rightarrow> json \<Rightarrow> string \<Rightarrow> string \<Rightarrow> string + mailbox_message" where
  "escalation messageId d params createdAt freshRequest =
     (let v = Some params; to = jstring (jfield v ''to'')
      in case jstring (jfield v ''body'') of
           None \<Rightarrow> Inl ''bad-params''
         | Some body \<Rightarrow>
             if MAX_BROKER_FRAME_BYTES < length body then Inl ''oversize-frame''
             else if to \<noteq> None \<and> to \<noteq> Some (cn_runId d) \<and> to \<noteq> Some (cn_taskId d) then Inl ''bad-params''
             else let target = nullish to (cn_taskId d)
                  in Inr (inbox_message messageId (cn_runId d) (cn_taskId d) target (Some target) body createdAt
                       KFollowUp (wire_priority PNormal (jfield v ''priority'')) NextTurn (Some freshRequest)))"

definition handleEscalate :: "mailbox_env \<Rightarrow> bool \<Rightarrow> string \<Rightarrow> bool \<Rightarrow> string \<Rightarrow> string \<Rightarrow> identity \<Rightarrow> json \<Rightarrow>
    mailbox_store \<Rightarrow> (string + mailbox_message) \<times> mailbox_store" where
  "handleEscalate env full sig runExists messageId freshRequest d params s =
     (case escalation messageId d params (me_now env) freshRequest of
        Inl code \<Rightarrow> (Inl code, s)
      | Inr m \<Rightarrow> if \<not> runExists then (Inl ''no-manifest'', s) else (Inr m, appendMailboxMessage env full sig m s))"

subsection \<open>Live fan-out\<close>

definition fanoutMailboxMessage :: "'c broker \<Rightarrow> mailbox_message \<Rightarrow> 'c set" where
  "fanoutMailboxMessage b m = {c \<in> bk_connectionsByRun b (mm_runId m). case bk_connections b c of
     Some (Some d) \<Rightarrow> mm_to m = [] \<or> mm_to m = ''all'' \<or> cn_taskId d = mm_to m \<or>
                      mm_to m = ''parent'' \<and> cn_role d = RoleOrchestrator
   | _ \<Rightarrow> False}"

subsection \<open>Reading an inbox\<close>

text \<open>\<open>Number.parseInt(s, 10) || 0\<close> and \<open>xs.slice(a, b)\<close>.\<close>

definition parse_int :: "string \<Rightarrow> int" where
  "parse_int s =
     (let t = dropWhile js_space s;
          sign = (case t of c # cs \<Rightarrow> if c = CHR ''-'' then (-1 :: int) else 1 | [] \<Rightarrow> 1);
          u = (case t of c # cs \<Rightarrow> if c \<in> set ''+-'' then cs else t | [] \<Rightarrow> t)
      in sign * int (parse_digits (takeWhile is_digit u)))"

definition slice_index :: "nat \<Rightarrow> int \<Rightarrow> nat" where
  "slice_index n a = nat (if a < 0 then max (int n + a) 0 else min a (int n))"

definition js_slice :: "int \<Rightarrow> int \<Rightarrow> 'a list \<Rightarrow> 'a list" where
  "js_slice a b xs = (let i = slice_index (length xs) a; j = slice_index (length xs) b in take (j - i) (drop i xs))"

datatype inbox_reply = InboxError string | InboxPage "mailbox_message list" "string option" bool nat

definition inbox_page :: "msg_inbox_params \<Rightarrow> mailbox_message list \<Rightarrow> inbox_reply" where
  "inbox_page p filtered =
     (let limit = min (max (nullish (ip_limit p) 100) 1) 1000;
          offset = (if truthy (ip_cursor p) then parse_int (the (ip_cursor p)) else 0);
          page = js_slice offset (trunc_rat (rat_of_int offset + limit)) filtered;
          nextOffset = offset + int (length page);
          hasMore = (nextOffset < int (length filtered))
      in InboxPage page (if hasMore then Some (show_int nextOffset) else None) hasMore (length filtered))"

definition handleMsgInbox :: "bool \<Rightarrow> bool \<Rightarrow> identity \<Rightarrow> json option \<Rightarrow> mailbox_store \<Rightarrow> inbox_reply" where
  "handleMsgInbox verify runExists d params s =
     (case parseMsgInboxParams params of
        None \<Rightarrow> InboxError ''bad-params''
      | Some p \<Rightarrow>
          if \<not> runExists then InboxError ''no-manifest''
          else inbox_page p (filter (\<lambda>m. mm_status m \<noteq> MAcknowledged)
                 (readMailbox verify s (Some Inbox) (Some (cn_taskId d)) None)))"

subsection \<open>Responses through the broker\<close>

record challenge_record =
  ch_nonce :: string
  ch_runId :: string
  ch_expiresAt :: int

record 'c respond_state =
  rs_challenges :: "'c \<Rightarrow> challenge_record option"
  rs_counts :: "'c \<Rightarrow> nat"
  rs_answered :: "string set"

definition RESPOND_CHALLENGE_TTL_MS :: int where "RESPOND_CHALLENGE_TTL_MS = 30000"
definition RESPOND_CHALLENGE_MAX_PER_CONN :: nat where "RESPOND_CHALLENGE_MAX_PER_CONN = 16"

datatype respond_reply = RespondError string | Challenge string | Responded string bool

definition handleRespondChallenge ::
    "int \<Rightarrow> string \<Rightarrow> 'c \<Rightarrow> json \<Rightarrow> 'c respond_state \<Rightarrow> respond_reply \<times> 'c respond_state" where
  "handleRespondChallenge now nonce c params rs =
     (case parseRespondChallengeParams params of
        None \<Rightarrow> (RespondError ''bad-params'', rs)
      | Some runId \<Rightarrow>
          let issued = rs_counts rs c + 1; rs' = rs\<lparr>rs_counts := (rs_counts rs)(c := issued)\<rparr>
          in if RESPOND_CHALLENGE_MAX_PER_CONN < issued then (RespondError ''rate-limited'', rs')
             else (Challenge nonce, rs'\<lparr>rs_challenges := (rs_challenges rs')(c \<mapsto>
                     \<lparr> ch_nonce = nonce, ch_runId = runId, ch_expiresAt = now + RESPOND_CHALLENGE_TTL_MS \<rparr>)\<rparr>))"

definition response_message :: "string \<Rightarrow> bool \<Rightarrow> 'a respond_params_scheme \<Rightarrow> string \<Rightarrow> string \<Rightarrow> mailbox_message" where
  "response_message messageId forced p requestId createdAt =
     (inbox_message messageId (rp_runId p) (if forced then ''leader-forced'' else ''leader'') (rp_taskId p)
        (Some (rp_taskId p)) (rp_body p) createdAt KResponse (Some (nullish (rp_priority p) PNormal))
        (nullish (rp_deliveryMode p) NextTurn) (Some requestId))
     \<lparr>mm_questionId := Some (rp_questionId p), mm_replyTo := rp_replyTo p,
      mm_data := Some ([(''action'', JStr ''respond''), (''kind'', JStr ''response''),
        (''questionId'', JStr (rp_questionId p)), (''via'', JStr ''broker'')] @
        (if forced then [(''tag'', JStr ''forced'')] else []))\<rparr>"

definition question_key :: "string \<Rightarrow> string \<Rightarrow> string" where
  "question_key runId questionId = runId @ '':'' @ questionId"

definition appendBrokerResponseRow :: "mailbox_env \<Rightarrow> bool \<Rightarrow> string \<Rightarrow> string \<Rightarrow> bool \<Rightarrow> 'a respond_params_scheme \<Rightarrow>
    'c respond_state \<Rightarrow> mailbox_store \<Rightarrow> respond_reply \<times> 'c respond_state \<times> mailbox_store" where
  "appendBrokerResponseRow env full sig messageId forced p rs s =
     (let requestId = nullish (rp_requestId p) (rp_questionId p)
      in case appendMailboxMessageIdempotent env full sig requestId
                (response_message messageId forced p requestId (me_now env)) s of
           ((stored, deduped), s') \<Rightarrow>
             (Responded (mm_id stored) deduped,
              rs\<lparr>rs_answered := insert (question_key (rp_runId p) (rp_questionId p)) (rs_answered rs)\<rparr>, s'))"

text \<open>\<open>verifies input sig\<close>: the key of the dispatcher, if one is bound, accepts the signature of the text.\<close>

definition handleRespondAppend :: "mailbox_env \<Rightarrow> bool \<Rightarrow> string \<Rightarrow> (string \<Rightarrow> string list option) \<Rightarrow>
    (string \<Rightarrow> string \<Rightarrow> bool) option \<Rightarrow> string \<Rightarrow> 'c \<Rightarrow> identity option \<Rightarrow> json \<Rightarrow>
    'c respond_state \<Rightarrow> mailbox_store \<Rightarrow> respond_reply \<times> 'c respond_state \<times> mailbox_store" where
  "handleRespondAppend env full sig load verifies messageId c ident params rs s =
     (let refuse = (\<lambda>code rs. (RespondError code, rs, s))
      in if (case ident of Some d \<Rightarrow> cn_role d = RoleWorker | None \<Rightarrow> False) then refuse ''forbidden'' rs
         else case parseRespondAppendParams params of
                None \<Rightarrow> refuse ''bad-params'' rs
              | Some p \<Rightarrow>
                  if (case ident of Some d \<Rightarrow> cn_runId d \<noteq> rp_runId p | None \<Rightarrow> False) then refuse ''forbidden'' rs
                  else case verifies of
                         None \<Rightarrow> refuse ''auth'' rs
                       | Some ok \<Rightarrow>
                           (case rs_challenges rs c of
                              None \<Rightarrow> refuse ''auth'' rs
                            | Some r \<Rightarrow>
                                let rs' = rs\<lparr>rs_challenges := (rs_challenges rs)(c := None)\<rparr>
                                in if ch_expiresAt r < me_nowMs env then refuse ''auth'' rs'
                                   else if ch_nonce r \<noteq> ra_nonce p \<or> ch_runId r \<noteq> rp_runId p then refuse ''auth'' rs'
                                   else if \<not> ok (respondAppendSignInput (ra_nonce p) p) (ra_sig p) then refuse ''auth'' rs'
                                   else case load (rp_runId p) of
                                          None \<Rightarrow> refuse ''no-manifest'' rs'
                                        | Some tasks \<Rightarrow>
                                            if rp_taskId p \<notin> set tasks then refuse ''no-task'' rs'
                                            else appendBrokerResponseRow env full sig messageId False p rs' s))"

text \<open>
  What the gate of a forced response finds under the run lock: the lock was busy, or the question that the task
  is parked on, if it is waiting.
\<close>

datatype park = ParkBusy | NoRun | NoTask | Parked "string option"

definition handleRespondForce :: "mailbox_env \<Rightarrow> bool \<Rightarrow> string \<Rightarrow> (string \<Rightarrow> string \<Rightarrow> park) \<Rightarrow> string \<Rightarrow>
    identity option \<Rightarrow> json \<Rightarrow> 'c respond_state \<Rightarrow> mailbox_store \<Rightarrow>
    respond_reply \<times> 'c respond_state \<times> mailbox_store" where
  "handleRespondForce env full sig park_of messageId ident params rs s =
     (let refuse = (\<lambda>code. (RespondError code, rs, s))
      in if (case ident of Some d \<Rightarrow> cn_role d = RoleWorker | None \<Rightarrow> False) then refuse ''forbidden''
         else case parseRespondForceParams params of
                None \<Rightarrow> refuse ''bad-params''
              | Some p \<Rightarrow>
                  if (case ident of Some d \<Rightarrow> cn_runId d \<noteq> rp_runId p | None \<Rightarrow> False) then refuse ''forbidden''
                  else if question_key (rp_runId p) (rp_questionId p) \<in> rs_answered rs then refuse ''already-answered''
                  else case park_of (rp_runId p) (rp_taskId p) of
                         ParkBusy \<Rightarrow> refuse ''busy''
                       | NoRun \<Rightarrow> refuse ''no-manifest''
                       | NoTask \<Rightarrow> refuse ''no-task''
                       | Parked q \<Rightarrow>
                           if q \<noteq> Some (rp_questionId p) then refuse ''no-park''
                           else appendBrokerResponseRow env full sig messageId True p rs s)"

subsection \<open>How far a worker's message reaches\<close>

lemma counted_Inr: "counted ts p = Inr (targets, q) \<longleftrightarrow> targets = ts \<and> q = p \<and> ts \<noteq> [] \<and> length ts \<le> MSG_SEND_MAX_RECIPIENTS"
  by (auto simp: counted_def not_less)

lemma worker_targets:
  assumes "resolveMsgSendTargets True (Some me) to taskIds = Inr (targets, sentToParent)"
  shows "(sentToParent \<longrightarrow> targets = [\<lparr> st_label = ''parent'', st_mailboxTaskId = None \<rparr>]) \<and>
    (\<not> sentToParent \<longrightarrow> (\<forall>t\<in>set targets. \<exists>i\<in>set taskIds. t = to_task i)) \<and> length targets \<le> 64"
  using assms by (auto simp: resolveMsgSendTargets_def counted_Inr MSG_SEND_MAX_RECIPIENTS_def
      split: if_splits msg_to.splits)

definition message_key :: "mailbox_message \<Rightarrow> mailbox_direction \<times> string option" where
  "message_key m = (mm_direction m, mm_taskId m)"

lemma idempotent_files:
  assumes "appendMailboxMessageIdempotent env full sig r m s = (x, s')"
  shows "(k \<noteq> message_key m \<longrightarrow> ms_files s' k = ms_files s k) \<and>
    set (file_messages v d (ms_files s' k)) \<subseteq>
      set (file_messages v d (ms_files s k)) \<union> (if mm_direction m = d then {read_back m} else {})"
proof (cases "store_once (me_verify env) full sig r m s")
  case (Pair o' s1)
  have s': "ms_files s' = ms_files s1"
    using assms Pair by (auto simp: appendMailboxMessageIdempotent_def split: option.splits)
  have "ms_files s1 = (ms_files s)(message_key m := ms_files s (message_key m)) \<or>
      ms_files s1 = (ms_files s)(message_key m := append_row full (signed_row m sig) (ms_files s (message_key m)))"
    using Pair by (auto simp: store_once_def set_file_def store_message_def message_key_def split: option.splits)
  moreover have "set (file_messages v d (append_row full (signed_row m sig) f)) \<subseteq>
      set (file_messages v d f) \<union> (if mm_direction m = d then {read_back m} else {})" for f
    using set_append_row [of v d full "signed_row m sig" f]
    by (auto simp: parseMailboxFile_def List.map_filter_simps split: if_splits)
  note row = this
  show ?thesis using calculation
  proof
    assume "ms_files s1 = (ms_files s)(message_key m := ms_files s (message_key m))"
    then show ?thesis unfolding s' by simp
  next
    assume "ms_files s1 = (ms_files s)(message_key m := append_row full (signed_row m sig) (ms_files s (message_key m)))"
    then show ?thesis unfolding s' using row [of "ms_files s k"] by (cases "k = message_key m") simp_all
  qed
qed

lemma send_all_files:
  "send_all env full sig r ms s = (n, s') \<Longrightarrow>
   (k \<notin> message_key ` set ms \<longrightarrow> ms_files s' k = ms_files s k) \<and>
   set (file_messages v d (ms_files s' k)) \<subseteq> set (file_messages v d (ms_files s k)) \<union> read_back ` set ms"
proof (induction ms arbitrary: s n)
  case (Cons m ms)
  obtain st dd s1 where a: "appendMailboxMessageIdempotent env (full (mm_taskId m)) sig r m s = ((st, dd), s1)"
    by (metis prod.exhaust)
  obtain n' where b: "send_all env full sig r ms s1 = (n', s')" using Cons.prems a by (auto split: prod.splits)
  have i: "set (file_messages v d (ms_files s1 k)) \<subseteq> set (file_messages v d (ms_files s k)) \<union> {read_back m}"
    using idempotent_files [OF a, of k v d] by (auto split: if_splits)
  show ?case using Cons.IH [OF b] idempotent_files [OF a, of k v d] i by (auto simp: subset_iff)
qed simp

text \<open>
  C15. What a worker sends with \<open>msg.send\<close> lands only in inboxes of the tasks of its own run and in the
  run's inbox, every row it adds is from that worker and is a message or a notification, and there are at least
  one and at most 64 recipients.
\<close>

theorem worker_send_contained:
  assumes "cn_role d = RoleWorker"
    and "handleMsgSend env full sig text_of (Some tasks) messageId fresh d params s = (SendOk rid n dups, s')"
  shows "(\<forall>k. k \<notin> insert (Inbox, None) ((\<lambda>t. (Inbox, Some t)) ` set tasks) \<longrightarrow> ms_files s' k = ms_files s k) \<and>
    (\<forall>k v dir. \<forall>m\<in>set (file_messages v dir (ms_files s' k)) - set (file_messages v dir (ms_files s k)).
       mm_from m = cn_taskId d \<and> mm_kind m \<in> {Some KMessage, Some KNotify}) \<and> 0 < n \<and> n \<le> 64"
proof -
  obtain p where p: "parseMsgSendParams params = Some p" using assms(2) by (auto simp: handleMsgSend_def split: option.splits)
  define requestId where "requestId = nullish (sp_requestId p) (cn_runId d @ '':'' @ cn_taskId d @ '':'' @ fresh)"
  define msg where "msg = send_message messageId (cn_runId d) (cn_taskId d) (text_of (sp_body p)) (me_now env) p requestId"
  have kind: "sp_kind p = None \<or> sp_kind p = Some KNotify \<or> sp_kind p = Some KMessage"
    using assms p by (auto simp: handleMsgSend_def Let_def split: if_splits)
  obtain targets par where t: "resolveMsgSendTargets True (Some (cn_taskId d)) (sp_to p) tasks = Inr (targets, par)"
    and sent: "send_all env full sig requestId (map msg targets) s = (dups, s')" and n: "n = length targets"
    using assms p by (auto simp: handleMsgSend_def Let_def requestId_def msg_def split: if_splits sum.splits prod.splits)
  have nz: "targets \<noteq> []" using t by (auto simp: resolveMsgSendTargets_def counted_Inr split: if_splits msg_to.splits)
  have m: "message_key (msg x) = (Inbox, st_mailboxTaskId x)" "mm_from (read_back (msg x)) = cn_taskId d"
    "mm_kind (read_back (msg x)) \<in> {Some KMessage, Some KNotify}" for x
    using kind by (auto simp: msg_def send_message_def inbox_message_def message_key_def read_back_def)
  have keys: "message_key ` set (map msg targets) \<subseteq> insert (Inbox, None) ((\<lambda>t. (Inbox, Some t)) ` set tasks)"
    using worker_targets [OF t] by (cases par) (force simp: m to_task_def)+
  have "\<forall>k. k \<notin> insert (Inbox, None) ((\<lambda>t. (Inbox, Some t)) ` set tasks) \<longrightarrow> ms_files s' k = ms_files s k"
    using send_all_files [OF sent] keys by blast
  moreover have "mm_from x = cn_taskId d \<and> mm_kind x \<in> {Some KMessage, Some KNotify}"
    if "x \<in> set (file_messages v dir (ms_files s' k))" "x \<notin> set (file_messages v dir (ms_files s k))" for x v dir k
  proof -
    have "x \<in> read_back ` set (map msg targets)" using send_all_files [OF sent, of k v dir] that by blast
    then show ?thesis using m(2,3) by auto
  qed
  moreover have "0 < n \<and> n \<le> 64" using worker_targets [OF t] nz n by simp
  ultimately show ?thesis by blast
qed

subsection \<open>Paging through an inbox\<close>

lemma show_nat_head: "\<exists>c cs. show_nat n = c # cs \<and> is_digit c"
  using show_nat_digits [of n] by (cases "show_nat n") auto

lemma digit_not: "is_digit c \<Longrightarrow> \<not> js_space c \<and> c \<noteq> CHR ''-'' \<and> c \<noteq> CHR ''+''"
  by (auto simp: is_digit_def js_space_def char_in_def)

lemma parse_show_int: "parse_int (show_int (int n)) = int n"
proof -
  obtain c cs where c: "show_nat n = c # cs" "is_digit c" using show_nat_head by blast
  have "takeWhile is_digit (show_nat n) = show_nat n"
    using show_nat_digits [of n] by (auto simp: list_all_iff)
  then show ?thesis using parse_show_nat [of n] digit_not [OF c(2)] by (simp add: parse_int_def c(1) Let_def)
qed

lemma slice_index_nat [simp]: "slice_index n (int a) = min a n"
  by (auto simp: slice_index_def min_def)

lemma js_slice_nat: "js_slice (int a) (int b) xs = take (b - a) (drop a xs)"
proof -
  have "take (min b (length xs) - min a (length xs)) (drop (min a (length xs)) xs) = take (b - a) (drop a xs)"
    by (cases "a \<le> length xs"; cases "b \<le> length xs") (simp_all add: min_def)
  then show ?thesis by (simp add: js_slice_def Let_def)
qed

text \<open>What a client gets that asks for the next page until there is none.\<close>

fun follow_pages :: "nat \<Rightarrow> rat option \<Rightarrow> string option \<Rightarrow> mailbox_message list \<Rightarrow> mailbox_message list list" where
  "follow_pages 0 limit cursor filtered = []"
| "follow_pages (Suc fuel) limit cursor filtered =
     (case inbox_page \<lparr> ip_limit = limit, ip_cursor = cursor \<rparr> filtered of
        InboxPage page (Some next) hasMore n \<Rightarrow> page # follow_pages fuel limit (Some next) filtered
      | InboxPage page None hasMore n \<Rightarrow> [page]
      | InboxError code \<Rightarrow> [])"

definition page_size :: "rat option \<Rightarrow> nat" where
  "page_size limit = nat (trunc_rat (min (max (nullish limit 100) 1) 1000))"

lemma page_size_pos: "1 \<le> page_size limit"
proof -
  let ?l = "min (max (nullish limit 100) 1) (1000 :: rat)"
  have l: "1 \<le> min (max x 1) (1000 :: rat)" for x by (simp add: min_def max_def)
  have "nat 1 \<le> nat \<lfloor>?l\<rfloor>" by (rule nat_mono) (use l in \<open>simp only: le_floor_iff of_int_1\<close>)
  moreover have "trunc_rat ?l = \<lfloor>?l\<rfloor>" using order_trans [OF zero_le_one l] by (simp only: trunc_rat_def if_True)
  ultimately show ?thesis by (simp only: page_size_def) simp
qed

lemma inbox_page_at:
  assumes "(truthy cursor \<longrightarrow> parse_int (the cursor) = int k) \<and> (\<not> truthy cursor \<longrightarrow> k = 0)"
  shows "inbox_page \<lparr> ip_limit = limit, ip_cursor = cursor \<rparr> xs =
    (let page = take (page_size limit) (drop k xs); next = k + length page
     in InboxPage page (if next < length xs then Some (show_int (int next)) else None) (next < length xs) (length xs))"
proof -
  let ?l = "min (max (nullish limit 100) 1) (1000 :: rat)"
  have "0 \<le> ?l" by (simp add: min_def max_def)
  then have "trunc_rat (rat_of_int (int k) + ?l) = int k + \<lfloor>?l\<rfloor>" by (simp add: trunc_rat_def add.commute)
  moreover have "\<lfloor>?l\<rfloor> = int (page_size limit)" using \<open>0 \<le> ?l\<close> by (simp add: page_size_def trunc_rat_def)
  ultimately have "trunc_rat (rat_of_int (int k) + ?l) = int (k + page_size limit)" by simp
  then have "js_slice (int k) (trunc_rat (rat_of_int (int k) + ?l)) xs = take (page_size limit) (drop k xs)"
    using js_slice_nat [of k "k + page_size limit" xs] by simp
  moreover have "(if truthy cursor then parse_int (the cursor) else 0) = int k" using assms by simp
  ultimately show ?thesis unfolding inbox_page_def Let_def msg_inbox_params.simps by (simp only: flip: of_nat_add) (simp, arith)
qed

lemma follow_pages_from:
  assumes "(truthy cursor \<longrightarrow> parse_int (the cursor) = int k) \<and> (\<not> truthy cursor \<longrightarrow> k = 0)"
    and "length xs < fuel + k" and "k \<le> length xs"
  shows "concat (follow_pages fuel limit cursor xs) = drop k xs"
  using assms
proof (induction fuel arbitrary: k cursor)
  case (Suc fuel)
  let ?n = "k + length (take (page_size limit) (drop k xs))"
  show ?case
  proof (cases "?n < length xs")
    case True
    then have full: "length (take (page_size limit) (drop k xs)) = page_size limit" by auto
    have t: "truthy (Some (show_int (int n)))" for n using show_nat_head [of n] by auto
    have "concat (follow_pages fuel limit (Some (show_int (int ?n))) xs) = drop ?n xs"
      by (rule Suc.IH) (use t parse_show_int [of ?n] Suc.prems(2) page_size_pos [of limit] full True in auto)
    then show ?thesis using inbox_page_at [OF Suc.prems(1), of limit xs] True full
      by (simp add: Let_def) (metis append_take_drop_id drop_drop add.commute)
  next
    case False
    then have "take (page_size limit) (drop k xs) = drop k xs" using Suc.prems(3) by auto
    then show ?thesis using inbox_page_at [OF Suc.prems(1), of limit xs] False by (simp add: Let_def)
  qed
qed simp

text \<open>
  A client that follows \<open>nextCursor\<close> until there is none gets every message of the inbox once and
  in order, whatever page size it asks for.
\<close>

theorem inbox_paging_complete:
  "concat (follow_pages (Suc (length filtered)) limit None filtered) = filtered"
  by (subst follow_pages_from [where k = 0]) simp_all

subsection \<open>One response for a question\<close>

lemma append_response:
  assumes "appendBrokerResponseRow env full sig i forced p rs s = (r, rs', s')"
  shows "\<exists>m dd. appendMailboxMessageIdempotent env full sig (nullish (rp_requestId p) (rp_questionId p))
      (response_message i forced p (nullish (rp_requestId p) (rp_questionId p)) (me_now env)) s = ((m, dd), s') \<and>
    r = Responded (mm_id m) dd \<and> rs_challenges rs' = rs_challenges rs \<and>
    rs_answered rs' = insert (question_key (rp_runId p) (rp_questionId p)) (rs_answered rs)"
  using assms by (auto simp: appendBrokerResponseRow_def Let_def split: prod.splits)

lemma response_fields [simp]:
  "mm_direction (response_message i forced p r now) = Inbox" "mm_taskId (response_message i forced p r now) = Some (rp_taskId p)"
  "mm_requestId (response_message i forced p r now) = Some r"
  by (simp_all add: response_message_def inbox_message_def)

text \<open>An accepted signed response: the challenge of the connection was for it and is gone.\<close>

lemma append_accepted:
  assumes "handleRespondAppend env full sig load verifies i c ident params rs s = (Responded j dd, rs', s')"
  obtains p ok r where "parseRespondAppendParams params = Some p" "verifies = Some ok"
    "rs_challenges rs c = Some r" "ch_nonce r = ra_nonce p" "ch_runId r = rp_runId p" "me_nowMs env \<le> ch_expiresAt r"
    "ok (respondAppendSignInput (ra_nonce p) p) (ra_sig p)"
    "appendBrokerResponseRow env full sig i False p (rs\<lparr>rs_challenges := (rs_challenges rs)(c := None)\<rparr>) s = (Responded j dd, rs', s')"
  using assms by (auto simp: handleRespondAppend_def Let_def split: if_splits option.splits)

lemma append_refused_or_accepted:
  "handleRespondAppend env full sig load verifies i c ident params rs s = (r, rs', s') \<Longrightarrow>
   (\<exists>j dd. r = Responded j dd) \<or> (\<exists>code. r = RespondError code) \<and> s' = s \<and> rs_answered rs' = rs_answered rs \<and>
     (rs_challenges rs' = rs_challenges rs \<or> rs_challenges rs' = (rs_challenges rs)(c := None))"
  by (auto simp: handleRespondAppend_def appendBrokerResponseRow_def Let_def split: if_splits option.splits prod.splits)

lemma force_accepted:
  assumes "handleRespondForce env full sig park_of i ident params rs s = (r, rs', s')"
  shows "(\<exists>code. r = RespondError code) \<and> rs' = rs \<and> s' = s \<or>
    (\<exists>p. parseRespondForceParams params = Some p \<and> question_key (rp_runId p) (rp_questionId p) \<notin> rs_answered rs \<and>
       park_of (rp_runId p) (rp_taskId p) = Parked (Some (rp_questionId p)) \<and>
       appendBrokerResponseRow env full sig i True p rs s = (r, rs', s'))"
  using assms by (auto simp: handleRespondForce_def Let_def split: if_splits option.splits park.splits)

lemma accepted_row:
  assumes "handleRespondAppend env full sig load verifies i c ident params rs s = (Responded j dd, rs1, s1)"
    and "parseRespondAppendParams params = Some p"
  shows "\<exists>rs'. appendBrokerResponseRow env full sig i False p rs' s = (Responded j dd, rs1, s1)"
proof (rule append_accepted [OF assms(1)])
  fix p' ok r
  assume "parseRespondAppendParams params = Some p'"
    "appendBrokerResponseRow env full sig i False p' (rs\<lparr>rs_challenges := (rs_challenges rs)(c := None)\<rparr>) s = (Responded j dd, rs1, s1)"
  then show ?thesis using assms(2) by auto
qed

text \<open>
  A question that got a signed response cannot be answered by force any more: the request is refused and
  nothing is stored.
\<close>

theorem answered_not_forced:
  assumes "handleRespondAppend env full sig load verifies i c ident params rs s = (Responded j dd, rs1, s1)"
    and "parseRespondAppendParams params = Some p" and "parseRespondForceParams forceParams = Some f"
    and "rp_runId f = rp_runId p" and "rp_questionId f = rp_questionId p"
  shows "\<exists>code. handleRespondForce env' full' sig' park_of i' ident' forceParams rs1 s1 = (RespondError code, rs1, s1)"
proof -
  obtain rs' where a: "appendBrokerResponseRow env full sig i False p rs' s = (Responded j dd, rs1, s1)"
    using accepted_row [OF assms(1,2)] by blast
  have key: "question_key (rp_runId p) (rp_questionId p) \<in> rs_answered rs1" using append_response [OF a] by blast
  obtain x y z where r: "handleRespondForce env' full' sig' park_of i' ident' forceParams rs1 s1 = (x, y, z)"
    by (metis prod.exhaust)
  show ?thesis using force_accepted [OF r] assms(3-5) key r by auto
qed

text \<open>
  A second signed response to the same question, under whatever challenge, session and content, stores
  nothing.
\<close>

theorem response_stored_once:
  assumes "handleRespondAppend env full sig load verifies i c ident params rs s = (Responded j dd, rs1, s1)"
    and "parseRespondAppendParams params = Some p" and "parseRespondAppendParams params' = Some p'"
    and "rp_taskId p' = rp_taskId p" and "me_verify env' = me_verify env"
    and "nullish (rp_requestId p') (rp_questionId p') = nullish (rp_requestId p) (rp_questionId p)"
  shows "snd (snd (handleRespondAppend env' full' sig' load' verifies' i' c' ident' params' rs2 s1)) = s1"
proof -
  let ?q = "nullish (rp_requestId p) (rp_questionId p)"
  obtain x y z where r: "handleRespondAppend env' full' sig' load' verifies' i' c' ident' params' rs2 s1 = (x, y, z)"
    by (metis prod.exhaust)
  consider (refused) "z = s1" | (accepted) j' dd' where "x = Responded j' dd'"
    using append_refused_or_accepted [OF r] by blast
  then show ?thesis
  proof cases
    case accepted
    obtain rs' rs'' where b: "appendBrokerResponseRow env' full' sig' i' False p' rs' s1 = (Responded j' dd', y, z)"
      and a: "appendBrokerResponseRow env full sig i False p rs'' s = (Responded j dd, rs1, s1)"
      using accepted_row [OF r [unfolded accepted] assms(3)] accepted_row [OF assms(1,2)] by blast
    obtain m2 dd2 where "appendMailboxMessageIdempotent env' full' sig' ?q (response_message i' False p' ?q (me_now env')) s1 =
        ((m2, dd2), z)" using append_response [OF b] assms(6) by auto
    moreover obtain m1 dd1 where old: "appendMailboxMessageIdempotent env full sig ?q (response_message i False p ?q (me_now env)) s =
        ((m1, dd1), s1)" using append_response [OF a] by auto
    ultimately show ?thesis
      using resend_found [OF old, of "response_message i' False p' ?q (me_now env')" env' full' sig'] assms(4,5) r by auto
  qed (simp add: r)
qed

text \<open>
  C17. A worker that sends a message to a parked task with the question id as its request id takes the place of
  the leader's response: the response, signed or forced, is answered as a duplicate and is not stored.
\<close>

theorem response_swallowed:
  assumes "cn_role w = RoleWorker" and "parseMsgSendParams squat = Some p" and "sp_to p = ToOne t" and "t \<noteq> ''parent''"
    and "t \<noteq> ''group''" and "sp_requestId p = Some q"
    and "handleMsgSend env full sig text_of run messageId fresh w squat s = (SendOk rid n dups, s1)"
    and "rp_taskId a = t" and "nullish (rp_requestId a) (rp_questionId a) = q" and "me_verify env' = me_verify env"
  shows "\<exists>j. fst (appendBrokerResponseRow env' full' sig' i forced a rs s1) = Responded j True \<and>
     snd (snd (appendBrokerResponseRow env' full' sig' i forced a rs s1)) = s1"
proof -
  let ?m = "send_message messageId (cn_runId w) (cn_taskId w) (text_of (sp_body p)) (me_now env) p q (to_task t)"
  obtain st dd where e: "appendMailboxMessageIdempotent env (full (Some t)) sig q ?m s = ((st, dd), s1)"
    using assms(1-7) by (auto simp: handleMsgSend_def Let_def resolveMsgSendTargets_def counted_def to_task_def
        send_message_def inbox_message_def split: if_splits option.splits prod.splits)
  have "mm_requestId ?m = Some q" "mm_direction ?m = Inbox" "mm_taskId ?m = Some t"
    by (simp_all add: send_message_def inbox_message_def to_task_def)
  with resend_found [OF e, of "response_message i forced a q (me_now env')" env' full' sig'] assms(8,10)
  obtain m2 where "appendMailboxMessageIdempotent env' full' sig' q (response_message i forced a q (me_now env')) s1 = ((m2, True), s1)"
    by auto
  then show ?thesis using assms(9) by (simp add: appendBrokerResponseRow_def Let_def)
qed

subsection \<open>A challenge is spent once\<close>

text \<open>
  The requests of a session with the nonces handed out so far, which are fresh, and those of the responses
  accepted, newest first.
\<close>

datatype 'c respond_event =
    EvChallenge int string 'c json
  | EvRespond mailbox_env bool string "string \<Rightarrow> string list option" "(string \<Rightarrow> string \<Rightarrow> bool) option" string 'c
      "identity option" json
  | EvForce mailbox_env bool string "string \<Rightarrow> string \<Rightarrow> park" string "identity option" json

type_synonym 'c respond_session = "'c respond_state \<times> mailbox_store \<times> string set \<times> string list"

definition spent_nonces :: "respond_reply \<Rightarrow> json \<Rightarrow> string list" where
  "spent_nonces r params = (case (r, parseRespondAppendParams params) of
     (Responded i dd, Some p) \<Rightarrow> [ra_nonce p] | _ \<Rightarrow> [])"

fun respond_step :: "'c respond_event \<Rightarrow> 'c respond_session \<Rightarrow> 'c respond_session option" where
  "respond_step (EvChallenge now nonce c params) (rs, s, I, A) =
     (if nonce \<in> I then None else Some (snd (handleRespondChallenge now nonce c params rs), s, insert nonce I, A))"
| "respond_step (EvRespond env full sig load verifies i c ident params) (rs, s, I, A) =
     (case handleRespondAppend env full sig load verifies i c ident params rs s of
        (r, rs', s') \<Rightarrow> Some (rs', s', I, spent_nonces r params @ A))"
| "respond_step (EvForce env full sig park_of i ident params) (rs, s, I, A) =
     (case handleRespondForce env full sig park_of i ident params rs s of (r, rs', s') \<Rightarrow> Some (rs', s', I, A))"

definition new_respond :: "'c respond_state" where
  "new_respond = \<lparr> rs_challenges = (\<lambda>_. None), rs_counts = (\<lambda>_. 0), rs_answered = {} \<rparr>"

definition nonces_ok :: "'c respond_session \<Rightarrow> bool" where
  "nonces_ok = (\<lambda>(rs, s, I, A). distinct A \<and> set A \<subseteq> I \<and>
     (\<forall>c r. rs_challenges rs c = Some r \<longrightarrow> ch_nonce r \<in> I - set A) \<and>
     (\<forall>c c' r r'. rs_challenges rs c = Some r \<longrightarrow> rs_challenges rs c' = Some r' \<longrightarrow> ch_nonce r = ch_nonce r' \<longrightarrow> c = c'))"

lemma nonces_fewer:
  "nonces_ok (rs, s, I, A) \<Longrightarrow> rs_challenges rs' = rs_challenges rs \<or> rs_challenges rs' = (rs_challenges rs)(c := None) \<Longrightarrow>
   nonces_ok (rs', s', I, A)"
  by (auto simp: nonces_ok_def split: if_splits)

lemma nonces_spend:
  "nonces_ok (rs, s, I, A) \<Longrightarrow> rs_challenges rs c = Some r \<Longrightarrow> rs_challenges rs' = (rs_challenges rs)(c := None) \<Longrightarrow>
   nonces_ok (rs', s', I, ch_nonce r # A)"
  by (auto simp: nonces_ok_def split: if_splits)

lemma nonces_issue:
  "nonces_ok (rs, s, I, A) \<Longrightarrow> nonce \<notin> I \<Longrightarrow>
   nonces_ok (snd (handleRespondChallenge now nonce c params rs), s, insert nonce I, A)"
  by (auto simp: nonces_ok_def handleRespondChallenge_def Let_def split: option.splits)

lemma nonces_respond:
  assumes "nonces_ok (rs, s, I, A)"
    and "handleRespondAppend env full sig load verifies i c ident params rs s = (r, rs', s')"
  shows "nonces_ok (rs', s', I, spent_nonces r params @ A)"
  using append_refused_or_accepted [OF assms(2)]
proof (elim disjE exE conjE)
  fix j dd assume r: "r = Responded j dd"
  show ?thesis
  proof (rule append_accepted [OF assms(2) [unfolded r]])
    fix p ok ch
    assume *: "parseRespondAppendParams params = Some p" "rs_challenges rs c = Some ch" "ch_nonce ch = ra_nonce p"
      "appendBrokerResponseRow env full sig i False p (rs\<lparr>rs_challenges := (rs_challenges rs)(c := None)\<rparr>) s =
       (Responded j dd, rs', s')"
    have "rs_challenges rs' = (rs_challenges rs)(c := None)" using append_response [OF *(4)] by auto
    then show ?thesis using nonces_spend [OF assms(1) *(2)] *(1,3) by (simp add: r spent_nonces_def)
  qed
qed (auto simp: spent_nonces_def intro: nonces_fewer [OF assms(1)])

lemma nonces_ok_step:
  assumes "nonces_ok x" and "respond_step e x = Some x'"
  shows "nonces_ok x'"
proof -
  obtain rs s I A where x: "x = (rs, s, I, A)" by (metis prod.exhaust)
  note ok = assms(1) [unfolded x]
  show ?thesis
  proof (cases e)
    case (EvChallenge now nonce c params)
    then show ?thesis using assms(2) nonces_issue [OF ok] by (auto simp: x split: if_splits)
  next
    case (EvRespond env full sig load verifies i c ident params)
    obtain r rs' s' where "handleRespondAppend env full sig load verifies i c ident params rs s = (r, rs', s')"
      by (metis prod.exhaust)
    then show ?thesis using assms(2) nonces_respond [OF ok] by (auto simp: x EvRespond)
  next
    case (EvForce env full sig park_of i ident params)
    obtain r rs' s' where f: "handleRespondForce env full sig park_of i ident params rs s = (r, rs', s')"
      by (metis prod.exhaust)
    have "rs_challenges rs' = rs_challenges rs" using force_accepted [OF f] append_response by blast
    then show ?thesis using assms(2) nonces_fewer [OF ok] f by (auto simp: x EvForce)
  qed
qed

interpretation respond: machine_invariant respond_step "\<lambda>_ _. True" nonces_ok
  by unfold_locales (rule nonces_ok_step)

text \<open>
  C16. In every session of challenges, signed and forced responses, no nonce is accepted twice, on the same
  connection or on another, and every accepted nonce is one the broker handed out.
\<close>

theorem challenge_spent_once:
  assumes "run_events respond_step es (new_respond, s, {}, []) = Some (rs, s', issued, accepted)"
  shows "distinct accepted \<and> set accepted \<subseteq> issued"
proof -
  have "nonces_ok (new_respond, s, {}, [])" by (simp add: nonces_ok_def new_respond_def)
  then have "nonces_ok (rs, s', issued, accepted)" by (rule respond.ok_run [OF _ _ assms]) simp
  then show ?thesis by (simp add: nonces_ok_def)
qed

subsection \<open>Escalations and acknowledgements\<close>

text \<open>
  An escalation goes to the mailbox of the sender's own task, or of the run id taken for a task, and to no
  other; no worker picks it up, and the live fan-out reaches only connections of those two names, so not an
  orchestrator with a task id of its own.
\<close>

theorem escalation_misses_orchestrator:
  assumes "handleEscalate env full sig runExists messageId fresh d params s = (Inr m, s')"
    and "cn_taskId d \<notin> {[], ''all'', ''parent''}" and "cn_runId d \<notin> {[], ''all'', ''parent''}"
  shows "(k \<noteq> (Inbox, Some (cn_taskId d)) \<and> k \<noteq> (Inbox, Some (cn_runId d)) \<longrightarrow> ms_files s' k = ms_files s k) \<and>
    \<not> deliverable t since seen dl m \<and>
    (\<forall>b. \<forall>c\<in>fanoutMailboxMessage b m. \<exists>e. bk_connections b c = Some (Some e) \<and> cn_taskId e \<in> {cn_taskId d, cn_runId d})"
proof -
  have m: "\<exists>target\<in>{cn_taskId d, cn_runId d}. mm_to m = target \<and> mm_taskId m = Some target \<and>
      mm_direction m = Inbox \<and> mm_kind m = Some KFollowUp" and s': "s' = appendMailboxMessage env full sig m s"
    using assms(1) by (auto simp: handleEscalate_def escalation_def inbox_message_def Let_def split: sum.splits if_splits option.splits)
  have "ms_files s' k = ms_files s k" if "k \<noteq> (mm_direction m, mm_taskId m)" for k
    using that by (auto simp: s' appendMailboxMessage_def recordDeliveryEntry_def writeDeliveryState_def store_message_def set_file_def
        split: prod.splits)
  then show ?thesis using m assms(2,3)
    by (cases k) (auto simp: deliverable_def fanoutMailboxMessage_def split: option.splits)
qed

lemma inbox_reads_files:
  "ms_files s' = ms_files s \<Longrightarrow> handleMsgInbox verify runExists d params s' = handleMsgInbox verify runExists d params s"
proof -
  assume "ms_files s' = ms_files s"
  then have "readMailbox verify s' a t k = readMailbox verify s a t k" for a t k by (simp add: readMailbox_def read_file_def)
  then show ?thesis unfolding handleMsgInbox_def by (simp split: option.split)
qed

text \<open>
  Acknowledging a message does not take it out of \<open>msg.inbox\<close>: the pages are the same as before.
\<close>

theorem inbox_keeps_acknowledged:
  assumes "acknowledgeMailboxMessage env i s = Inr s'"
  shows "handleMsgInbox verify runExists d params s' = handleMsgInbox verify runExists d params s"
  using assms by (intro inbox_reads_files)
    (auto simp: acknowledgeMailboxMessage_def writeDeliveryState_def split: if_splits prod.splits)

subsection \<open>Witnesses\<close>

definition worker_conn :: "string \<Rightarrow> identity" where
  "worker_conn t = \<lparr> cn_runId = ''r'', cn_taskId = t, cn_role = RoleWorker, cn_authMatchKind = Compound,
     cn_authedSecretHash = ''h'' \<rparr>"

definition squat :: json where
  "squat = JObj [(''to'', JStr ''t2''), (''body'', JStr ''x''), (''requestId'', JStr ''q1'')]"

definition squatted :: "send_reply \<times> mailbox_store" where
  "squatted = handleMsgSend plain_env (\<lambda>_. False) ''s'' (\<lambda>_. ''x'') (Some [''t1'', ''t2'']) ''m'' ''f'' (worker_conn ''t1'')
     squat (ensureRunMailbox ''now'')"

lemma squatted: "squatted = (SendOk ''q1'' 1 0, snd squatted)"
proof -
  have "fst squatted = SendOk ''q1'' 1 0" by code_simp
  then show ?thesis by (metis prod.collapse)
qed

theorem worker_send_contained_witness:
  "(1 :: nat) \<le> 64 \<and> ms_files (snd squatted) (Inbox, Some ''t9'') = ms_files (ensureRunMailbox ''now'') (Inbox, Some ''t9'')"
  using worker_send_contained [of "worker_conn ''t1''" plain_env "\<lambda>_. False" "''s''" "\<lambda>_. ''x''" "[''t1'', ''t2'']" "''m''" "''f''"
      squat "ensureRunMailbox ''now''" "''q1''" 1 0 "snd squatted"] squatted
  by (simp add: worker_conn_def squatted_def)

definition answer :: "string \<Rightarrow> json" where
  "answer nonce = JObj [(''runId'', JStr ''r''), (''taskId'', JStr ''t2''), (''questionId'', JStr ''q1''), (''body'', JStr ''yes''),
     (''nonce'', JStr nonce), (''sig'', JStr ''k'')]"

definition answer_params :: "string \<Rightarrow> respond_append_params" where
  "answer_params nonce = the (parseRespondAppendParams (answer nonce))"

definition challenged :: "string \<Rightarrow> nat respond_state" where
  "challenged nonce = snd (handleRespondChallenge 0 nonce 1 (JObj [(''runId'', JStr ''r'')]) new_respond)"

definition answered :: "respond_reply \<times> nat respond_state \<times> mailbox_store" where
  "answered = handleRespondAppend plain_env False ''s'' (\<lambda>_. Some [''t1'', ''t2'']) (Some (\<lambda>_ sig. sig = ''k'')) ''i'' 1 None
     (answer ''0123456789abcdef'') (challenged ''0123456789abcdef'') (ensureRunMailbox ''now'')"

lemma answered: "answered = (Responded ''i'' False, fst (snd answered), snd (snd answered))"
proof -
  have "fst answered = Responded ''i'' False" by code_simp
  then show ?thesis by (metis prod.collapse)
qed

lemma answer_parses: "parseRespondAppendParams (answer n) \<noteq> None" if "n \<in> {''0123456789abcdef'', ''fedcba9876543210''}"
proof -
  have "parseRespondAppendParams (answer ''0123456789abcdef'') \<noteq> None"
    and "parseRespondAppendParams (answer ''fedcba9876543210'') \<noteq> None" by code_simp+
  then show ?thesis using that by blast
qed

lemma answer_params:
  "parseRespondAppendParams (answer ''0123456789abcdef'') = Some (answer_params ''0123456789abcdef'')"
  "parseRespondAppendParams (answer ''fedcba9876543210'') = Some (answer_params ''fedcba9876543210'')"
  using answer_parses by (simp_all add: answer_params_def)

theorem answered_not_forced_witness:
  "\<exists>code. handleRespondForce plain_env False ''s'' (\<lambda>_ _. Parked (Some ''q1'')) ''j'' None (answer ''0123456789abcdef'')
     (fst (snd answered)) (snd (snd answered)) = (RespondError code, fst (snd answered), snd (snd answered))"
proof -
  obtain f where f: "parseRespondForceParams (answer ''0123456789abcdef'') = Some f"
  proof -
    have "parseRespondForceParams (answer ''0123456789abcdef'') \<noteq> None" by code_simp
    then show ?thesis using that by blast
  qed
  have "map_option rp_runId (parseRespondForceParams (answer ''0123456789abcdef'')) = Some (rp_runId (answer_params ''0123456789abcdef''))"
    "map_option rp_questionId (parseRespondForceParams (answer ''0123456789abcdef'')) = Some (rp_questionId (answer_params ''0123456789abcdef''))"
    by code_simp+
  then have "rp_runId f = rp_runId (answer_params ''0123456789abcdef'')" "rp_questionId f = rp_questionId (answer_params ''0123456789abcdef'')"
    using f by simp_all
  then show ?thesis by (rule answered_not_forced [OF answered [unfolded answered_def] answer_params(1) f, folded answered_def])
qed

theorem response_stored_once_witness:
  "fst (handleRespondAppend plain_env False ''s'' (\<lambda>_. Some [''t1'', ''t2'']) (Some (\<lambda>_ sig. sig = ''k'')) ''j'' 1 None
     (answer ''fedcba9876543210'') (challenged ''fedcba9876543210'') (snd (snd answered))) = Responded ''i'' True \<and>
   snd (snd (handleRespondAppend plain_env False ''s'' (\<lambda>_. Some [''t1'', ''t2'']) (Some (\<lambda>_ sig. sig = ''k'')) ''j'' 1 None
     (answer ''fedcba9876543210'') (challenged ''fedcba9876543210'') (snd (snd answered)))) = snd (snd answered)"
proof (rule conjI)
  show "fst (handleRespondAppend plain_env False ''s'' (\<lambda>_. Some [''t1'', ''t2'']) (Some (\<lambda>_ sig. sig = ''k'')) ''j'' 1 None
     (answer ''fedcba9876543210'') (challenged ''fedcba9876543210'') (snd (snd answered))) = Responded ''i'' True" by code_simp
  have p: "rp_taskId (answer_params ''fedcba9876543210'') = rp_taskId (answer_params ''0123456789abcdef'')"
    "nullish (rp_requestId (answer_params ''fedcba9876543210'')) (rp_questionId (answer_params ''fedcba9876543210'')) =
     nullish (rp_requestId (answer_params ''0123456789abcdef'')) (rp_questionId (answer_params ''0123456789abcdef''))"
    by code_simp+
  show "snd (snd (handleRespondAppend plain_env False ''s'' (\<lambda>_. Some [''t1'', ''t2'']) (Some (\<lambda>_ sig. sig = ''k'')) ''j'' 1 None
     (answer ''fedcba9876543210'') (challenged ''fedcba9876543210'') (snd (snd answered)))) = snd (snd answered)"
    by (rule response_stored_once [OF answered [unfolded answered_def] answer_params p(1) refl p(2), folded answered_def])
qed

theorem response_swallowed_witness:
  "\<exists>j. fst (appendBrokerResponseRow plain_env False ''s'' ''i'' False (answer_params ''0123456789abcdef'')
      (new_respond :: nat respond_state) (snd squatted)) = Responded j True"
proof -
  obtain p where p: "parseMsgSendParams squat = Some p" "sp_to p = ToOne ''t2''" "sp_requestId p = Some ''q1''"
  proof -
    have "map_option sp_to (parseMsgSendParams squat) = Some (ToOne ''t2'')"
      "map_option sp_requestId (parseMsgSendParams squat) = Some (Some ''q1'')" by code_simp+
    then show ?thesis using that by auto
  qed
  have a: "rp_taskId (answer_params ''0123456789abcdef'') = ''t2''"
    "nullish (rp_requestId (answer_params ''0123456789abcdef'')) (rp_questionId (answer_params ''0123456789abcdef'')) = ''q1''"
    by code_simp+
  have "cn_role (worker_conn ''t1'') = RoleWorker" by (simp add: worker_conn_def)
  from response_swallowed [OF this p(1,2) _ _ p(3) squatted [unfolded squatted_def] a refl, folded squatted_def]
  show ?thesis by simp blast
qed

definition respond_session :: "nat respond_event list" where
  "respond_session = [EvChallenge 0 ''0123456789abcdef'' 1 (JObj [(''runId'', JStr ''r'')]),
     EvRespond plain_env False ''s'' (\<lambda>_. Some [''t1'', ''t2'']) (Some (\<lambda>_ sig. sig = ''k'')) ''i'' 1 None (answer ''0123456789abcdef''),
     EvRespond plain_env False ''s'' (\<lambda>_. Some [''t1'', ''t2'']) (Some (\<lambda>_ sig. sig = ''k'')) ''i'' 1 None (answer ''0123456789abcdef'')]"

theorem challenge_spent_once_witness:
  "\<exists>rs s' issued accepted. run_events respond_step respond_session (new_respond, ensureRunMailbox ''now'', {}, []) =
     Some (rs, s', issued, accepted) \<and> accepted = [''0123456789abcdef''] \<and> set accepted \<subseteq> issued"
proof -
  let ?r = "run_events respond_step respond_session (new_respond, ensureRunMailbox ''now'', {}, [])"
  have l: "map_option (\<lambda>x. snd (snd (snd x))) ?r = Some [''0123456789abcdef'']" by code_simp
  then obtain rs s' issued where r: "?r = Some (rs, s', issued, [''0123456789abcdef''])" by auto
  show ?thesis using challenge_spent_once [OF r] r by simp
qed

definition plea :: json where "plea = JObj [(''body'', JStr ''help'')]"

definition escalated :: "(string + mailbox_message) \<times> mailbox_store" where
  "escalated = handleEscalate plain_env False ''s'' True ''m'' ''f'' (worker_conn ''t1'') plea (ensureRunMailbox ''now'')"

definition leader_online :: "nat broker" where
  "leader_online = new_broker\<lparr>bk_connections := [1 \<mapsto> Some ((worker_conn ''lead'')\<lparr>cn_role := RoleOrchestrator\<rparr>)],
     bk_connectionsByRun := (\<lambda>_. {1})\<rparr>"

theorem escalation_misses_orchestrator_witness:
  "\<exists>m s'. escalated = (Inr m, s') \<and>
     ms_files s' (Inbox, None) = ms_files (ensureRunMailbox ''now'') (Inbox, None) \<and>
     \<not> deliverable ''t1'' None {} (ms_delivery s') m \<and> fanoutMailboxMessage leader_online m = {}"
proof -
  have "isl (fst escalated) = False" by code_simp
  then obtain m s' where e: "escalated = (Inr m, s')" by (cases "fst escalated") (simp_all, metis prod.collapse)
  note f = escalation_misses_orchestrator [OF e [unfolded escalated_def], of "(Inbox, None)" "''t1''" None "{}" "ms_delivery s'"]
  have reach: "\<forall>b. \<forall>c\<in>fanoutMailboxMessage (b :: nat broker) m. \<exists>e. bk_connections b c = Some (Some e) \<and>
      cn_taskId e \<in> {cn_taskId (worker_conn ''t1''), cn_runId (worker_conn ''t1'')}"
    by (rule f [THEN conjunct2, THEN conjunct2]) (simp_all add: worker_conn_def)
  have rest: "ms_files s' (Inbox, None) = ms_files (ensureRunMailbox ''now'') (Inbox, None)"
    "\<not> deliverable ''t1'' None {} (ms_delivery s') m"
    using f by (simp_all add: worker_conn_def) (elim conjE, assumption)+
  have "fanoutMailboxMessage leader_online m \<subseteq> {1}" by (auto simp: fanoutMailboxMessage_def leader_online_def)
  moreover have "1 \<notin> fanoutMailboxMessage leader_online m"
  proof
    assume "1 \<in> fanoutMailboxMessage leader_online m"
    from bspec [OF spec [OF reach] this] show False by (auto simp: worker_conn_def leader_online_def)
  qed
  ultimately have "fanoutMailboxMessage leader_online m = {}" by blast
  then show ?thesis using rest e by blast
qed

theorem inbox_keeps_acknowledged_witness:
  "\<exists>s'. acknowledgeMailboxMessage plain_env ''a'' one_message = Inr s' \<and>
     handleMsgInbox True True (worker_conn ''t'') None s' = handleMsgInbox True True (worker_conn ''t'') None one_message"
proof -
  have "isl (acknowledgeMailboxMessage plain_env ''a'' one_message) = False" by code_simp
  then obtain s' where s': "acknowledgeMailboxMessage plain_env ''a'' one_message = Inr s'"
    by (cases "acknowledgeMailboxMessage plain_env ''a'' one_message") simp_all
  show ?thesis using inbox_keeps_acknowledged [OF s', of True True "worker_conn ''t''" None] s' by blast
qed

end
