(* ===== verification/Jsonl.thy ===== *)
theory Jsonl
  imports Json "HOL-Library.Sublist"
begin

text \<open>
  Reading files of JSON lines: the scanner and the incremental readers of \<open>src/src/utils/incremental-reader.ts\<close>
  and the sticky markers of unparseable lines of \<open>src/src/state/event-log/poison-marker.ts\<close>. The contents of a
  file are a list of bytes; \<open>JSON.parse\<close> is an argument \<open>parse\<close>, \<open>None\<close> when it throws. Errors of the file
  system other than a missing file are left out.
\<close>

subsection \<open>The scanner\<close>

definition nl :: char where "nl = CHR 0x0A"

definition js_trim :: "string \<Rightarrow> string" where
  "js_trim s = rev (dropWhile js_space (rev (dropWhile js_space s)))"

text \<open>The value of a line: none when it is blank or does not parse.\<close>

definition line_value :: "(string \<Rightarrow> 'a option) \<Rightarrow> string \<Rightarrow> 'a option" where
  "line_value parse line = (if js_trim line = [] then None else parse (js_trim line))"

record 'a jsonl_window =
  jw_items :: "('a \<times> nat) list"
  jw_failures :: "(nat \<times> nat) list"
  jw_tornTail :: bool
  jw_poisonSkipped :: nat
  jw_staleMarkers :: "nat list"
  jw_lineCount :: nat
  jw_completeBytes :: nat

definition empty_window :: "'a jsonl_window" where
  "empty_window = \<lparr> jw_items = [], jw_failures = [], jw_tornTail = False, jw_poisonSkipped = 0,
     jw_staleMarkers = [], jw_lineCount = 0, jw_completeBytes = 0 \<rparr>"

text \<open>One complete line that starts at byte \<open>pos\<close>; a marked line is parsed before it is skipped.\<close>

definition scan_line :: "(string \<Rightarrow> 'a option) \<Rightarrow> nat set \<Rightarrow> nat \<Rightarrow> string \<Rightarrow> 'a jsonl_window \<Rightarrow> 'a jsonl_window" where
  "scan_line parse marked pos line w =
     (let w' = (if pos \<in> marked then
                  (case line_value parse line of
                     Some v \<Rightarrow> w\<lparr>jw_items := jw_items w @ [(v, pos)], jw_staleMarkers := jw_staleMarkers w @ [pos]\<rparr>
                   | None \<Rightarrow> w\<lparr>jw_poisonSkipped := jw_poisonSkipped w + 1\<rparr>)
                else if js_trim line = [] then w
                else case parse (js_trim line) of
                       Some v \<Rightarrow> w\<lparr>jw_items := jw_items w @ [(v, pos)]\<rparr>
                     | None \<Rightarrow> w\<lparr>jw_failures := jw_failures w @ [(pos, jw_lineCount w)]\<rparr>)
      in w'\<lparr>jw_lineCount := jw_lineCount w + 1, jw_completeBytes := jw_completeBytes w + length line + 1\<rparr>)"

function scan_window :: "(string \<Rightarrow> 'a option) \<Rightarrow> nat set \<Rightarrow> nat \<Rightarrow> string \<Rightarrow> 'a jsonl_window \<Rightarrow> 'a jsonl_window" where
  "scan_window parse marked base buf w =
     (if nl \<in> set buf then
        let line = takeWhile (\<lambda>c. c \<noteq> nl) buf
        in scan_window parse marked base (drop (Suc (length line)) buf)
             (scan_line parse marked (base + jw_completeBytes w) line w)
      else w\<lparr>jw_tornTail := (js_trim buf \<noteq> [])\<rparr>)"
  by auto
termination
  by (relation "measure (\<lambda>(parse, marked, base, buf, w). length buf)")
    (auto intro!: diff_less dest: length_pos_if_in_set)

declare scan_window.simps [simp del]

definition parseJsonlWindow :: "(string \<Rightarrow> 'a option) \<Rightarrow> nat set \<Rightarrow> nat \<Rightarrow> string \<Rightarrow> 'a jsonl_window" where
  "parseJsonlWindow parse marked baseOffset buf = scan_window parse marked baseOffset buf empty_window"

subsection \<open>The readers\<close>

text \<open>A file is \<open>None\<close> when it does not exist. A line index of \<open>- 1\<close> is not known.\<close>

record 'a jsonl_tail =
  jt_items :: "'a list"
  jt_fileSize :: nat
  jt_bytesRead :: nat
  jt_truncated :: bool
  jt_tornTail :: bool
  jt_poisonSkipped :: nat
  jt_failures :: "(nat \<times> int) list"
  jt_staleMarkers :: "nat list"

definition no_items :: "nat \<Rightarrow> nat \<Rightarrow> bool \<Rightarrow> 'a jsonl_tail" where
  "no_items fsize read truncated = \<lparr> jt_items = [], jt_fileSize = fsize, jt_bytesRead = read, jt_truncated = truncated,
     jt_tornTail = False, jt_poisonSkipped = 0, jt_failures = [], jt_staleMarkers = [] \<rparr>"

definition readJsonlTail :: "(string \<Rightarrow> 'a option) \<Rightarrow> nat set \<Rightarrow> nat \<Rightarrow> string option \<Rightarrow> 'a jsonl_tail" where
  "readJsonlTail parse marked limit f =
     (case f of
        None \<Rightarrow> no_items 0 0 False
      | Some content \<Rightarrow>
          let fsize = length content; start = fsize - limit; buf = drop start content
          in if fsize = 0 \<or> limit = 0 then no_items fsize 0 False
             else if start > 0 \<and> nl \<notin> set buf then no_items fsize (length buf) True
             else let cut = (if start > 0 then Suc (length (takeWhile (\<lambda>c. c \<noteq> nl) buf)) else 0);
                      p = parseJsonlWindow parse marked (start + cut) (drop cut buf)
                  in \<lparr> jt_items = map fst (jw_items p), jt_fileSize = fsize, jt_bytesRead = length buf,
                       jt_truncated = (start > 0), jt_tornTail = jw_tornTail p, jt_poisonSkipped = jw_poisonSkipped p,
                       jt_failures = map (\<lambda>(pos, i). (pos, if start > 0 then - 1 else int i)) (jw_failures p),
                       jt_staleMarkers = jw_staleMarkers p \<rparr>)"

record read_state =
  rd_byteOffset :: nat
  rd_lineCount :: nat

text \<open>A line with its offset and its index among the lines of this read.\<close>

type_synonym tracked_line = "string \<times> nat \<times> nat"

function split_lines :: "nat \<Rightarrow> nat \<Rightarrow> string \<Rightarrow> tracked_line list \<times> string" where
  "split_lines pos i buf =
     (if nl \<in> set buf then
        let line = takeWhile (\<lambda>c. c \<noteq> nl) buf
        in case split_lines (pos + length line + 1) (i + 1) (drop (Suc (length line)) buf) of
             (ls, rest) \<Rightarrow> ((line, pos, i) # ls, rest)
      else ([], buf))"
  by auto
termination
  by (relation "measure (\<lambda>(pos, i, buf). length buf)") (auto intro!: diff_less dest: length_pos_if_in_set)

declare split_lines.simps [simp del]

record lines_read =
  lr_lines :: "tracked_line list"
  lr_state :: read_state
  lr_eof :: bool
  lr_shrank :: bool
  lr_tornTail :: bool

definition readLinesSinceDetailed :: "string option \<Rightarrow> read_state \<Rightarrow> lines_read" where
  "readLinesSinceDetailed f st =
     (case f of
        None \<Rightarrow> \<lparr> lr_lines = [], lr_state = st, lr_eof = True, lr_shrank = False, lr_tornTail = False \<rparr>
      | Some content \<Rightarrow>
          if length content \<le> rd_byteOffset st
          then \<lparr> lr_lines = [], lr_state = st\<lparr>rd_byteOffset := length content\<rparr>, lr_eof = True,
                 lr_shrank = (length content < rd_byteOffset st), lr_tornTail = False \<rparr>
          else (case split_lines (rd_byteOffset st) 0 (drop (rd_byteOffset st) content) of
                  (ls, rest) \<Rightarrow>
                    let committed = length content - length rest; eof = (length content \<le> committed)
                    in \<lparr> lr_lines = ls,
                         lr_state = \<lparr> rd_byteOffset = committed,
                           rd_lineCount = rd_lineCount st + length (filter (\<lambda>(t, pos, i). t \<noteq> []) ls) \<rparr>,
                         lr_eof = eof, lr_shrank = False, lr_tornTail = (\<not> eof \<and> js_trim rest \<noteq> []) \<rparr>))"

record 'a jsonl_read =
  jr_items :: "'a list"
  jr_state :: read_state
  jr_eof :: bool
  jr_tornTail :: bool
  jr_poisonSkipped :: nat
  jr_failures :: "(nat \<times> int) list"
  jr_staleMarkers :: "nat list"
  jr_shrank :: bool

definition read_line :: "(string \<Rightarrow> 'a option) \<Rightarrow> nat set \<Rightarrow> bool \<Rightarrow> tracked_line \<Rightarrow> 'a jsonl_read \<Rightarrow> 'a jsonl_read" where
  "read_line parse marked globalIndexes l r =
     (case l of (text, pos, i) \<Rightarrow>
        if pos \<in> marked then
          (case line_value parse text of
             Some v \<Rightarrow> r\<lparr>jr_items := jr_items r @ [v], jr_staleMarkers := jr_staleMarkers r @ [pos]\<rparr>
           | None \<Rightarrow> r\<lparr>jr_poisonSkipped := jr_poisonSkipped r + 1\<rparr>)
        else if js_trim text = [] then r
        else case parse (js_trim text) of
               Some v \<Rightarrow> r\<lparr>jr_items := jr_items r @ [v]\<rparr>
             | None \<Rightarrow> r\<lparr>jr_failures := jr_failures r @ [(pos, if globalIndexes then int i else - 1)]\<rparr>)"

definition readJsonlSince :: "(string \<Rightarrow> 'a option) \<Rightarrow> nat set \<Rightarrow> string option \<Rightarrow> read_state \<Rightarrow> 'a jsonl_read" where
  "readJsonlSince parse marked f st =
     (let d = readLinesSinceDetailed f st
      in fold (read_line parse marked (rd_byteOffset st = 0)) (lr_lines d)
           \<lparr> jr_items = [], jr_state = lr_state d, jr_eof = lr_eof d, jr_tornTail = lr_tornTail d, jr_poisonSkipped = 0,
             jr_failures = [], jr_staleMarkers = [], jr_shrank = lr_shrank d \<rparr>)"

subsection \<open>Markers of unparseable lines\<close>

record poison_marker =
  pm_lineIndex :: int
  pm_byteOffset :: nat
  pm_reason :: string
  pm_firstSeen :: string

definition POISON_MARKER_CAP :: nat where "POISON_MARKER_CAP = 1000"

text \<open>The side file: its lines as \<open>JSON.parse\<close> reads them; \<open>None\<close> for the file when there is none.\<close>

type_synonym sidecar = "json option list option"

definition json_int :: "json option \<Rightarrow> int option" where
  "json_int v = (case v of Some (JNum (Fin r)) \<Rightarrow> if of_int \<lfloor>r\<rfloor> = r then Some \<lfloor>r\<rfloor> else None | _ \<Rightarrow> None)"

definition load_marker :: "json option \<Rightarrow> poison_marker option" where
  "load_marker v =
     (case (json_int (jfield v ''lineIndex''), json_int (jfield v ''byteOffset''), jstring (jfield v ''reason''),
            jstring (jfield v ''firstSeen'')) of
        (Some i, Some b, Some r, Some t) \<Rightarrow>
          if b < 0 then None
          else Some \<lparr> pm_lineIndex = i, pm_byteOffset = nat b, pm_reason = r, pm_firstSeen = t \<rparr>
      | _ \<Rightarrow> None)"

definition loadPoisonMarkers :: "sidecar \<Rightarrow> poison_marker list" where
  "loadPoisonMarkers sc = List.map_filter load_marker (nullish sc [])"

definition marker_json :: "poison_marker \<Rightarrow> json" where
  "marker_json m = JObj [(''lineIndex'', JNum (Fin (of_int (pm_lineIndex m)))),
     (''byteOffset'', JNum (Fin (of_nat (pm_byteOffset m)))), (''reason'', JStr (pm_reason m)),
     (''firstSeen'', JStr (pm_firstSeen m))]"

definition isStalePoisonMarker :: "nat option \<Rightarrow> nat \<Rightarrow> poison_marker \<Rightarrow> bool" where
  "isStalePoisonMarker lineCount fileSize m \<longleftrightarrow>
     (case lineCount of Some n \<Rightarrow> 0 \<le> pm_lineIndex m \<and> int n \<le> pm_lineIndex m | None \<Rightarrow> False) \<or>
     fileSize \<le> pm_byteOffset m"

definition active_markers :: "sidecar \<Rightarrow> nat \<Rightarrow> nat option \<Rightarrow> poison_marker list" where
  "active_markers sc fileSize lineCount = filter (\<lambda>m. \<not> isStalePoisonMarker lineCount fileSize m) (loadPoisonMarkers sc)"

definition planPoisonSkip :: "sidecar \<Rightarrow> nat \<Rightarrow> nat option \<Rightarrow> nat set \<times> nat" where
  "planPoisonSkip sc fileSize lineCount =
     (let active = active_markers sc fileSize lineCount in (pm_byteOffset ` set active, length active))"

text \<open>The first failure of each offset that has no marker.\<close>

fun fresh_failures :: "nat set \<Rightarrow> (nat \<times> int \<times> string) list \<Rightarrow> (nat \<times> int \<times> string) list" where
  "fresh_failures seen [] = []"
| "fresh_failures seen ((pos, i, r) # fs) =
     (if pos \<in> seen then fresh_failures seen fs else (pos, i, r) # fresh_failures (insert pos seen) fs)"

definition persistPoisonMarkers :: "sidecar \<Rightarrow> poison_marker list \<Rightarrow> poison_marker list \<Rightarrow> poison_marker list \<Rightarrow> sidecar" where
  "persistPoisonMarkers sc existing active new =
     (if length active = length existing then Some (nullish sc [] @ map (Some \<circ> marker_json) new)
      else Some (map (Some \<circ> marker_json) (active @ new)))"

text \<open>The result: whether the file is put aside, and the side file, which goes with it.\<close>

definition commitPoisonFindings ::
    "string \<Rightarrow> sidecar \<Rightarrow> nat \<Rightarrow> nat option \<Rightarrow> (nat \<times> int \<times> string) list \<Rightarrow> nat list \<Rightarrow> bool \<times> sidecar" where
  "commitPoisonFindings now sc fileSize lineCount failures stale =
     (let existing = loadPoisonMarkers sc;
          active = filter (\<lambda>m. \<not> isStalePoisonMarker lineCount fileSize m) existing;
          fresh = fresh_failures (pm_byteOffset ` set active) failures
      in if POISON_MARKER_CAP < length active \<or> POISON_MARKER_CAP < length active + length fresh then (True, None)
         else let kept = (if stale \<noteq> [] then filter (\<lambda>m. pm_byteOffset m \<notin> set stale) active else active)
              in if fresh = [] \<and> stale = [] then (False, sc)
                 else (False, persistPoisonMarkers sc existing kept
                        (map (\<lambda>(pos, i, r). \<lparr> pm_lineIndex = i, pm_byteOffset = pos, pm_reason = r, pm_firstSeen = now \<rparr>) fresh)))"

subsection \<open>What the scanner computes\<close>

text \<open>The bytes of complete lines, and every buffer as lines and a rest.\<close>

definition lines_bytes :: "string list \<Rightarrow> string" where
  "lines_bytes ls = concat (map (\<lambda>l. l @ [nl]) ls)"

definition proper :: "string list \<Rightarrow> bool" where
  "proper ls \<longleftrightarrow> (\<forall>l\<in>set ls. nl \<notin> set l)"

lemma lines_bytes_simps [simp]:
  "lines_bytes [] = []" "lines_bytes (l # ls) = l @ nl # lines_bytes ls" "lines_bytes (ls @ ms) = lines_bytes ls @ lines_bytes ms"
  by (simp_all add: lines_bytes_def)

lemma proper_simps [simp]:
  "proper []" "proper (l # ls) \<longleftrightarrow> nl \<notin> set l \<and> proper ls" "proper (ls @ ms) \<longleftrightarrow> proper ls \<and> proper ms"
  by (auto simp: proper_def)

lemma take_line [simp]:
  assumes "nl \<notin> set l"
  shows "takeWhile (\<lambda>c. c \<noteq> nl) (l @ nl # r) = l"
  using assms by (intro takeWhile_stop) (auto simp: list_all_iff)

lemma lines_cases:
  obtains ls rest where "buf = lines_bytes ls @ rest" "proper ls" "nl \<notin> set rest"
proof -
  have "\<exists>ls rest. buf = lines_bytes ls @ rest \<and> proper ls \<and> nl \<notin> set rest"
  proof (induction "length buf" arbitrary: buf rule: less_induct)
    case less
    show ?case
    proof (cases "nl \<in> set buf")
      case True
      then obtain l r where buf: "buf = l @ nl # r" "nl \<notin> set l" using split_list_first by metis
      then obtain ls rest where "r = lines_bytes ls @ rest" "proper ls" "nl \<notin> set rest" using less [of r] by auto
      then show ?thesis using buf by (intro exI [of _ "l # ls"] exI [of _ rest]) simp
    next
      case False
      then show ?thesis by (intro exI [of _ "[]"] exI [of _ buf]) simp
    qed
  qed
  then show ?thesis using that by blast
qed

fun scan_all :: "(string \<Rightarrow> 'a option) \<Rightarrow> nat set \<Rightarrow> nat \<Rightarrow> string list \<Rightarrow> 'a jsonl_window \<Rightarrow> 'a jsonl_window" where
  "scan_all parse marked base [] w = w"
| "scan_all parse marked base (l # ls) w =
     scan_all parse marked base ls (scan_line parse marked (base + jw_completeBytes w) l w)"

lemma scan_window_lines:
  "proper ls \<Longrightarrow> nl \<notin> set rest \<Longrightarrow>
   scan_window parse marked base (lines_bytes ls @ rest) w = (scan_all parse marked base ls w)\<lparr>jw_tornTail := (js_trim rest \<noteq> [])\<rparr>"
proof (induction ls arbitrary: w)
  case Nil
  then show ?case by (subst scan_window.simps) simp
next
  case (Cons l ls)
  then show ?case by (subst scan_window.simps) (simp add: Let_def)
qed

text \<open>The values of lines with their offsets, and the lines that fail.\<close>

fun line_items :: "(string \<Rightarrow> 'a option) \<Rightarrow> nat \<Rightarrow> string list \<Rightarrow> ('a \<times> nat) list" where
  "line_items parse pos [] = []"
| "line_items parse pos (l # ls) = (case line_value parse l of None \<Rightarrow> [] | Some v \<Rightarrow> [(v, pos)]) @
     line_items parse (pos + length l + 1) ls"

definition fails :: "(string \<Rightarrow> 'a option) \<Rightarrow> string \<Rightarrow> bool" where
  "fails parse l \<longleftrightarrow> js_trim l \<noteq> [] \<and> parse (js_trim l) = None"

fun line_failures :: "(string \<Rightarrow> 'a option) \<Rightarrow> nat set \<Rightarrow> nat \<Rightarrow> nat \<Rightarrow> string list \<Rightarrow> (nat \<times> nat) list" where
  "line_failures parse marked pos i [] = []"
| "line_failures parse marked pos i (l # ls) = (if pos \<notin> marked \<and> fails parse l then [(pos, i)] else []) @
     line_failures parse marked (pos + length l + 1) (i + 1) ls"

lemma line_items_append:
  "line_items parse pos (ls @ ms) = line_items parse pos ls @ line_items parse (pos + length (lines_bytes ls)) ms"
  by (induction ls arbitrary: pos) (simp_all add: ac_simps)

lemma scan_all_eq:
  "jw_items (scan_all parse marked base ls w) = jw_items w @ line_items parse (base + jw_completeBytes w) ls \<and>
   jw_failures (scan_all parse marked base ls w) = jw_failures w @
     line_failures parse marked (base + jw_completeBytes w) (jw_lineCount w) ls \<and>
   jw_lineCount (scan_all parse marked base ls w) = jw_lineCount w + length ls \<and>
   jw_completeBytes (scan_all parse marked base ls w) = jw_completeBytes w + length (lines_bytes ls)"
proof (induction ls arbitrary: w)
  case (Cons l ls)
  show ?case using Cons [of "scan_line parse marked (base + jw_completeBytes w) l w"]
    by (simp add: scan_line_def line_value_def fails_def Let_def ac_simps split: option.splits)
qed simp

lemma window_lines:
  assumes "proper ls" and "nl \<notin> set rest"
  shows "jw_items (parseJsonlWindow parse marked base (lines_bytes ls @ rest)) = line_items parse base ls"
    and "jw_failures (parseJsonlWindow parse marked base (lines_bytes ls @ rest)) = line_failures parse marked base 0 ls"
    and "jw_lineCount (parseJsonlWindow parse marked base (lines_bytes ls @ rest)) = length ls"
    and "jw_completeBytes (parseJsonlWindow parse marked base (lines_bytes ls @ rest)) = length (lines_bytes ls)"
    and "jw_tornTail (parseJsonlWindow parse marked base (lines_bytes ls @ rest)) = (js_trim rest \<noteq> [])"
  using scan_all_eq [of parse marked base ls empty_window]
  by (simp_all add: parseJsonlWindow_def scan_window_lines [OF assms] empty_window_def)

text \<open>The markers have no say in what is delivered.\<close>

theorem markers_hide_nothing:
  "jw_items (parseJsonlWindow parse marked base buf) = jw_items (parseJsonlWindow parse {} base buf)"
proof -
  obtain ls rest where "buf = lines_bytes ls @ rest" "proper ls" "nl \<notin> set rest" by (rule lines_cases)
  then show ?thesis by (simp add: window_lines(1))
qed

subsection \<open>Reading on\<close>

fun track :: "nat \<Rightarrow> nat \<Rightarrow> string list \<Rightarrow> tracked_line list" where
  "track pos i [] = []"
| "track pos i (l # ls) = (l, pos, i) # track (pos + length l + 1) (i + 1) ls"

lemma split_lines_eq:
  "proper ls \<Longrightarrow> nl \<notin> set rest \<Longrightarrow> split_lines pos i (lines_bytes ls @ rest) = (track pos i ls, rest)"
proof (induction ls arbitrary: pos i)
  case Nil
  then show ?case by (subst split_lines.simps) simp
next
  case (Cons l ls)
  then show ?case by (subst split_lines.simps) (simp add: Let_def)
qed

lemma fold_read_lines:
  "jr_items (fold (read_line parse marked g) (track pos i ls) r) = jr_items r @ map fst (line_items parse pos ls)"
  "jr_state (fold (read_line parse marked g) (track pos i ls) r) = jr_state r"
  by (induction ls arbitrary: pos i r) (auto simp: read_line_def line_value_def split: option.splits)

lemma readJsonlSince_lines:
  assumes "proper ls" and "proper ms" and "nl \<notin> set rest" and "rd_byteOffset st = length (lines_bytes ls)"
  shows "jr_items (readJsonlSince parse marked (Some (lines_bytes (ls @ ms) @ rest)) st) =
      map fst (line_items parse (length (lines_bytes ls)) ms) \<and>
    rd_byteOffset (jr_state (readJsonlSince parse marked (Some (lines_bytes (ls @ ms) @ rest)) st)) = length (lines_bytes (ls @ ms))"
proof (cases "lines_bytes ms @ rest = []")
  case True
  then have "ms = []" by (cases ms) simp_all
  then show ?thesis using True assms(4) by (simp add: readJsonlSince_def readLinesSinceDetailed_def)
next
  case False
  have d: "drop (rd_byteOffset st) (lines_bytes (ls @ ms) @ rest) = lines_bytes ms @ rest" using assms(4) by simp
  have long: "\<not> length (lines_bytes (ls @ ms) @ rest) \<le> rd_byteOffset st" using False assms(4) by simp
  show ?thesis
    unfolding readJsonlSince_def readLinesSinceDetailed_def option.case Let_def d split_lines_eq [OF assms(2,3)]
    using long False assms(4) by (auto simp: fold_read_lines)
qed

text \<open>Polls of a file that only grows, each from the state that the one before it returned.\<close>

fun follow :: "(string \<Rightarrow> 'a option) \<Rightarrow> read_state \<Rightarrow> (string \<times> nat set) list \<Rightarrow> 'a list \<times> read_state" where
  "follow parse st [] = ([], st)"
| "follow parse st ((content, marked) # polls) =
     (let r = readJsonlSince parse marked (Some content) st
      in case follow parse (jr_state r) polls of (xs, st') \<Rightarrow> (jr_items r @ xs, st'))"

definition grows :: "string list \<Rightarrow> bool" where
  "grows fs \<longleftrightarrow> sorted_wrt prefix fs"

lemma grown_lines:
  assumes "proper ls" and "nl \<notin> set rest" and "prefix (lines_bytes ls @ rest) f"
  obtains ms rest' where "f = lines_bytes (ls @ ms) @ rest'" "proper ms" "nl \<notin> set rest'"
proof -
  obtain x where f: "f = (lines_bytes ls @ rest) @ x" using assms(3) by (auto simp: prefix_def)
  obtain ms rest' where "rest @ x = lines_bytes ms @ rest'" "proper ms" "nl \<notin> set rest'" by (rule lines_cases)
  then show ?thesis using f that by simp
qed

lemma follow_from:
  assumes "sorted_wrt prefix (content # map fst polls)" and "content = lines_bytes ls @ rest" and "proper ls"
    and "nl \<notin> set rest" and "rd_byteOffset st = length (lines_bytes ls)"
  shows "\<exists>ms rest'. last (content # map fst polls) = lines_bytes (ls @ ms) @ rest' \<and> proper ms \<and> nl \<notin> set rest' \<and>
     fst (follow parse st polls) = map fst (line_items parse (length (lines_bytes ls)) ms)"
  using assms
proof (induction polls arbitrary: content ls rest st)
  case Nil
  then show ?case by (intro exI [of _ "[]"] exI [of _ rest]) simp
next
  case (Cons p polls)
  obtain f marked where p: "p = (f, marked)" by (cases p)
  have "prefix content f" using Cons.prems(1) p by simp
  then obtain ms rest' where f: "f = lines_bytes (ls @ ms) @ rest'" "proper ms" "nl \<notin> set rest'"
    using Cons.prems(2-4) by (auto elim: grown_lines)
  let ?r = "readJsonlSince parse marked (Some f) st"
  have r: "jr_items ?r = map fst (line_items parse (length (lines_bytes ls)) ms)"
    "rd_byteOffset (jr_state ?r) = length (lines_bytes (ls @ ms))"
    using readJsonlSince_lines [OF Cons.prems(3) f(2,3) Cons.prems(5), of parse marked] f(1) by simp_all
  have "sorted_wrt prefix (f # map fst polls)" using Cons.prems(1) p by simp
  from Cons.IH [OF this f(1) _ f(3) r(2)] Cons.prems(3) f(2)
  obtain ns rest'' where n: "last (f # map fst polls) = lines_bytes ((ls @ ms) @ ns) @ rest''" "proper ns" "nl \<notin> set rest''"
    "fst (follow parse (jr_state ?r) polls) = map fst (line_items parse (length (lines_bytes (ls @ ms))) ns)"
    by auto
  have "fst (follow parse st (p # polls)) = map fst (line_items parse (length (lines_bytes ls)) (ms @ ns))"
    using n(4) by (simp add: p Let_def r(1) line_items_append case_prod_beta)
  then show ?case using n(1-3) f(2) p by (intro exI [of _ "ms @ ns"] exI [of _ rest'']) simp
qed

text \<open>
  C36. Reading a file of JSON lines while it grows, each time from where the last read stopped, gives in all
  what one read of the final contents gives, in order and nothing twice, wherever the writes were cut and
  whatever lines carry markers.
\<close>

theorem incremental_reads_complete:
  assumes "sorted_wrt prefix (map fst polls)" and "polls \<noteq> []"
  shows "fst (follow parse \<lparr> rd_byteOffset = 0, rd_lineCount = n \<rparr> polls) =
    map fst (jw_items (parseJsonlWindow parse {} 0 (fst (last polls))))"
proof -
  have "sorted_wrt prefix ([] # map fst polls)" using assms(1) by simp
  from follow_from [OF this, of "[]" "[]" "\<lparr> rd_byteOffset = 0, rd_lineCount = n \<rparr>" parse]
  obtain ms rest' where m: "last ([] # map fst polls) = lines_bytes ms @ rest'" "proper ms" "nl \<notin> set rest'"
    "fst (follow parse \<lparr> rd_byteOffset = 0, rd_lineCount = n \<rparr> polls) = map fst (line_items parse 0 ms)"
    by auto
  have "fst (last polls) = lines_bytes ms @ rest'" using m(1) assms(2) by (simp add: last_map)
  then show ?thesis using m(2-4) by (simp add: window_lines(1))
qed

lemma tail_cut:
  assumes "length content - limit = start" and "0 < start" and "nl \<in> set (drop start content)"
    and "n = Suc (length (takeWhile (\<lambda>c. c \<noteq> nl) (drop start content)))"
  shows "jt_items (readJsonlTail parse marked limit (Some content)) =
      map fst (jw_items (parseJsonlWindow parse marked (start + n) (drop n (drop start content)))) \<and>
    jt_truncated (readJsonlTail parse marked limit (Some content))"
proof -
  have "limit \<noteq> 0" using assms(1,3) by (cases limit) auto
  moreover have "length content \<noteq> 0" using assms(1,2) by auto
  ultimately show ?thesis using assms(2,3) unfolding readJsonlTail_def option.case Let_def assms(1) assms(4) [symmetric]
    by (simp del: drop_drop)
qed

text \<open>A tail read gives the last of the items.\<close>

theorem tail_is_suffix:
  "suffix (jt_items (readJsonlTail parse marked limit (Some content))) (map fst (jw_items (parseJsonlWindow parse {} 0 content))) \<and>
   (\<not> jt_truncated (readJsonlTail parse marked limit (Some content)) \<and> 0 < limit \<longrightarrow>
     jt_items (readJsonlTail parse marked limit (Some content)) = map fst (jw_items (parseJsonlWindow parse {} 0 content)))"
proof -
  obtain start where start: "length content - limit = start" by blast
  consider (whole) "start = 0" | (none) "0 < start" "nl \<notin> set (drop start content)" | (cut) "0 < start" "nl \<in> set (drop start content)"
    by blast
  then show ?thesis
  proof cases
    case whole
    then show ?thesis using markers_hide_nothing [of parse marked 0 content] start
      by (cases "content = []") (simp_all add: readJsonlTail_def no_items_def Let_def parseJsonlWindow_def
          scan_window.simps [of _ _ _ "[]"] empty_window_def)
  next
    case none
    moreover have "content \<noteq> []" using none(1) start by auto
    ultimately show ?thesis by (auto simp: readJsonlTail_def no_items_def Let_def start)
  next
    case cut
    obtain l r where b: "drop start content = l @ nl # r" "nl \<notin> set l" using split_list_first [OF cut(2)] by metis
    let ?cut = "Suc (length l)"
    have t: "jt_items (readJsonlTail parse marked limit (Some content)) = map fst (jw_items (parseJsonlWindow parse marked (start + ?cut) r))"
      "jt_truncated (readJsonlTail parse marked limit (Some content))"
      using tail_cut [OF start cut, of ?cut parse marked] b by simp_all
    have content: "content = (take start content @ l) @ nl # r" using b(1) by (metis append.assoc append_take_drop_id)
    obtain ls rest where pre: "take start content @ l = lines_bytes ls @ rest" "proper ls" "nl \<notin> set rest" by (rule lines_cases)
    obtain ms rest' where r: "r = lines_bytes ms @ rest'" "proper ms" "nl \<notin> set rest'" by (rule lines_cases)
    have c: "content = lines_bytes (ls @ rest # ms) @ rest'" using content pre(1) r(1) by simp
    have "start \<le> length content" using start by simp
    then have "start + ?cut = Suc (length (take start content @ l))" by simp
    then have k: "start + ?cut = length (lines_bytes (ls @ [rest]))" unfolding pre(1) by simp
    have "jw_items (parseJsonlWindow parse {} 0 content) =
        line_items parse 0 (ls @ [rest]) @ line_items parse (start + ?cut) ms"
      using window_lines(1) [of "ls @ rest # ms" rest' parse "{}" 0] pre r line_items_append [of parse 0 "ls @ [rest]" ms]
      unfolding c k by simp
    then have "suffix (jt_items (readJsonlTail parse marked limit (Some content)))
        (map fst (jw_items (parseJsonlWindow parse {} 0 content)))"
      using window_lines(1) [OF r(2,3), of parse marked "start + ?cut"] unfolding t(1) r(1) by (simp add: suffix_def)
    then show ?thesis using t(2) by blast
  qed
qed

subsection \<open>What the markers do\<close>

lemma load_marker_json [simp]: "load_marker (Some (marker_json m)) = Some m"
  by (simp add: load_marker_def marker_json_def json_int_def)

lemma load_persisted:
  "loadPoisonMarkers (persistPoisonMarkers sc (loadPoisonMarkers sc) active new) =
     (if length active = length (loadPoisonMarkers sc) then loadPoisonMarkers sc else active) @ new"
  by (simp add: persistPoisonMarkers_def loadPoisonMarkers_def List.map_filter_def o_def)

text \<open>
  As long as a file is not put aside, at most 1000 of its markers are active after every read, whatever
  the side file held before.
\<close>

theorem active_markers_capped:
  assumes "commitPoisonFindings now sc fileSize lineCount failures stale = (False, sc')"
  shows "snd (planPoisonSkip sc' fileSize lineCount) \<le> 1000"
proof -
  let ?live = "\<lambda>m. \<not> isStalePoisonMarker lineCount fileSize m"
  let ?active = "filter ?live (loadPoisonMarkers sc)"
  let ?fresh = "fresh_failures (pm_byteOffset ` set ?active) failures"
  let ?kept = "if stale \<noteq> [] then filter (\<lambda>m. pm_byteOffset m \<notin> set stale) ?active else ?active"
  let ?new = "map (\<lambda>(pos, i, r). \<lparr> pm_lineIndex = i, pm_byteOffset = pos, pm_reason = r, pm_firstSeen = now \<rparr>) ?fresh"
  have cap: "length ?active \<le> 1000" "length ?active + length ?fresh \<le> 1000"
    and sc': "sc' = sc \<or> sc' = persistPoisonMarkers sc (loadPoisonMarkers sc) ?kept ?new"
    using assms by (auto simp: commitPoisonFindings_def Let_def POISON_MARKER_CAP_def not_less split: if_splits)
  have f: "length (filter ?live (xs @ ?new)) \<le> length (filter ?live xs) + length ?fresh" for xs
    using length_filter_le [of ?live ?new] by simp
  have "length (filter ?live ?kept) \<le> length ?active"
    using length_filter_le [of ?live ?kept] length_filter_le [of "\<lambda>m. pm_byteOffset m \<notin> set stale" ?active] by auto
  then have "length (filter ?live (loadPoisonMarkers sc')) \<le> 1000"
    using sc' cap f [of "loadPoisonMarkers sc"] f [of ?kept] unfolding load_persisted
    by (auto simp: load_persisted simp del: filter_append)
  then show ?thesis by (simp add: planPoisonSkip_def active_markers_def)
qed

text \<open>Lines with the places where they start.\<close>

fun placed :: "nat \<Rightarrow> string list \<Rightarrow> (string \<times> nat) list" where
  "placed pos [] = []"
| "placed pos (l # ls) = (l, pos) # placed (pos + length l + 1) ls"

lemma placed_bounds: "(l, p) \<in> set (placed pos ls) \<Longrightarrow> pos \<le> p \<and> p < pos + length (lines_bytes ls)"
  by (induction ls arbitrary: pos) fastforce+

lemma placed_unique: "(l, p) \<in> set (placed pos ls) \<Longrightarrow> (l', p) \<in> set (placed pos ls) \<Longrightarrow> l = l'"
proof (induction ls arbitrary: pos)
  case (Cons k ls)
  have "p \<noteq> pos" if "(m, p) \<in> set (placed (pos + length k + 1) ls)" for m using placed_bounds [OF that] by simp
  then show ?case using Cons by auto
qed simp

lemma failures_placed:
  "fst ` set (line_failures parse marked pos i ls) = {p. \<exists>l. (l, p) \<in> set (placed pos ls) \<and> p \<notin> marked \<and> fails parse l}"
proof (induction ls arbitrary: pos i)
  case (Cons l ls)
  show ?case unfolding line_failures.simps set_append image_Un Cons by auto
qed simp

lemma failures_index: "(p, k) \<in> set (line_failures parse marked pos i ls) \<Longrightarrow> k < i + length ls"
  by (induction ls arbitrary: pos i) (fastforce split: if_splits)+

lemma stale_placed:
  "set (jw_staleMarkers (scan_all parse marked base ls w)) = set (jw_staleMarkers w) \<union>
     {p \<in> marked. \<exists>l. (l, p) \<in> set (placed (base + jw_completeBytes w) ls) \<and> line_value parse l \<noteq> None}"
proof (induction ls arbitrary: w)
  case (Cons l ls)
  show ?case using Cons [of "scan_line parse marked (base + jw_completeBytes w) l w"]
    by (auto simp: scan_line_def Let_def ac_simps split: option.splits)
qed simp

lemma fresh_cover: "p \<in> fst ` set fs \<Longrightarrow> p \<in> seen \<or> (\<exists>i r. (p, i, r) \<in> set (fresh_failures seen fs))"
proof (induction fs arbitrary: seen)
  case (Cons f fs)
  obtain q j s where f: "f = (q, j, s)" by (metis prod.exhaust)
  show ?case
  proof (cases "p = q")
    case True
    then show ?thesis by (auto simp: f)
  next
    case False
    then have "p \<in> fst ` set fs" using Cons.prems by (auto simp: f)
    then show ?thesis using Cons.IH [of seen] Cons.IH [of "insert q seen"] False by (auto simp: f)
  qed
qed simp

lemma fresh_subset: "set (fresh_failures seen fs) \<subseteq> set fs"
  by (induction seen fs rule: fresh_failures.induct) auto

lemma member_of_append: "xs = ys @ zs \<Longrightarrow> m \<in> set zs \<Longrightarrow> m \<in> set xs"
  by simp

text \<open>
  A line that does not parse is found once: after a full read and the commit of what it found, the next
  full read of the same contents meets no new failure, and both give the same items.
\<close>

theorem poison_found_once:
  fixes parse :: "string \<Rightarrow> 'a option"
  assumes "p1 = parseJsonlWindow parse (fst (planPoisonSkip sc (length buf) (Some (jw_lineCount p1)))) 0 buf"
    and "commitPoisonFindings now sc (length buf) (Some (jw_lineCount p1))
      (map (\<lambda>(pos, i). (pos, int i, reason pos)) (jw_failures p1)) (jw_staleMarkers p1) = (False, sc')"
    and "p2 = parseJsonlWindow parse (fst (planPoisonSkip sc' (length buf) (Some (jw_lineCount p1)))) 0 buf"
  shows "jw_failures p2 = [] \<and> jw_items p2 = jw_items p1"
proof -
  obtain ls rest where buf: "buf = lines_bytes ls @ rest" "proper ls" "nl \<notin> set rest" by (rule lines_cases)
  let ?n = "jw_lineCount p1"
  let ?m1 = "fst (planPoisonSkip sc (length buf) (Some ?n))"
  let ?m2 = "fst (planPoisonSkip sc' (length buf) (Some ?n))"
  let ?live = "\<lambda>m. \<not> isStalePoisonMarker (Some ?n) (length buf) m"
  let ?active = "filter ?live (loadPoisonMarkers sc)"
  let ?fails = "map (\<lambda>(pos, i). (pos, int i, reason pos)) (jw_failures p1)"
  let ?fresh = "fresh_failures (pm_byteOffset ` set ?active) ?fails"
  let ?kept = "if jw_staleMarkers p1 \<noteq> [] then filter (\<lambda>m. pm_byteOffset m \<notin> set (jw_staleMarkers p1)) ?active else ?active"
  let ?new = "map (\<lambda>(pos, i, r). \<lparr> pm_lineIndex = i, pm_byteOffset = pos, pm_reason = r, pm_firstSeen = now \<rparr>) ?fresh"
  have n: "?n = length ls" using assms(1) window_lines(3) [OF buf(2,3)] buf(1) by metis
  have f1: "jw_failures p1 = line_failures parse ?m1 0 0 ls" using assms(1) window_lines(2) [OF buf(2,3)] buf(1) by metis
  have m1: "?m1 = pm_byteOffset ` set ?active" by (simp add: planPoisonSkip_def active_markers_def)
  have st: "set (jw_staleMarkers p1) = {p \<in> ?m1. \<exists>l. (l, p) \<in> set (placed 0 ls) \<and> line_value parse l \<noteq> None}"
  proof -
    have "p1 = (scan_all parse ?m1 0 ls empty_window)\<lparr>jw_tornTail := (js_trim rest \<noteq> [])\<rparr>"
      using assms(1) scan_window_lines [OF buf(2,3), of parse ?m1 0 empty_window] unfolding parseJsonlWindow_def buf(1) by simp
    then have "jw_staleMarkers p1 = jw_staleMarkers (scan_all parse ?m1 0 ls empty_window)" by (metis jsonl_window.select_convs(5) jsonl_window.surjective jsonl_window.update_convs(3))
    then show ?thesis using stale_placed [of parse ?m1 0 ls empty_window] by (simp add: empty_window_def)
  qed
  have sc': "?fresh = [] \<and> jw_staleMarkers p1 = [] \<and> sc' = sc \<or> sc' = persistPoisonMarkers sc (loadPoisonMarkers sc) ?kept ?new"
    using assms(2) by (auto simp: commitPoisonFindings_def Let_def split: if_splits)
  have live_new: "?live m" if new: "m \<in> set ?new" for m
  proof -
    obtain pos i where pi: "(pos, i) \<in> set (jw_failures p1)" "pm_byteOffset m = pos" "pm_lineIndex m = int i"
    proof -
      obtain x where x: "m = (case x of (pos, i, r) \<Rightarrow> \<lparr> pm_lineIndex = i, pm_byteOffset = pos, pm_reason = r, pm_firstSeen = now \<rparr>)" "x \<in> set ?fresh"
        using new unfolding set_map image_iff by blast
      have "x \<in> set ?fails" using x(2) fresh_subset by blast
      then obtain pos i where "(pos, i) \<in> set (jw_failures p1)" "x = (pos, int i, reason pos)" by auto
      then show thesis using x(1) by (intro that) simp_all
    qed
    have "i < length ls" using pi(1) failures_index [of pos i parse ?m1 0 0 ls] by (simp add: f1)
    moreover have "pos \<in> fst ` set (jw_failures p1)" using pi(1) by force
    then obtain l where "(l, pos) \<in> set (placed 0 ls)" unfolding f1 failures_placed by blast
    then have "pos < length buf" using placed_bounds [of l pos 0 ls] by (simp add: buf(1))
    ultimately show ?thesis using pi by (simp add: isStalePoisonMarker_def n)
  qed
  have covered: "p \<in> ?m2" if l: "(l, p) \<in> set (placed 0 ls)" and bad: "fails parse l" for l p
  proof (cases "p \<in> ?m1")
    case True
    have "line_value parse l' = None" if "(l', p) \<in> set (placed 0 ls)" for l'
      using placed_unique [OF l that] bad by (auto simp: fails_def line_value_def)
    then have "p \<notin> set (jw_staleMarkers p1)" unfolding st by simp
    moreover obtain m where m: "m \<in> set ?active" "pm_byteOffset m = p" using True unfolding m1 by blast
    ultimately have kept: "m \<in> set ?kept" by simp
    have "m \<in> set (loadPoisonMarkers sc')" using sc'
    proof
      assume "?fresh = [] \<and> jw_staleMarkers p1 = [] \<and> sc' = sc"
      then show ?thesis using m(1) by simp
    next
      assume "sc' = persistPoisonMarkers sc (loadPoisonMarkers sc) ?kept ?new"
      then have "loadPoisonMarkers sc' = (if length ?kept = length (loadPoisonMarkers sc) then loadPoisonMarkers sc else ?kept) @ ?new"
        by (simp only: load_persisted)
      then show ?thesis using kept m(1) by simp
    qed
    moreover have "?live m" using m(1) by simp
    ultimately show ?thesis using m(2) unfolding planPoisonSkip_def active_markers_def by auto
  next
    case False
    then have "p \<in> fst ` set (jw_failures p1)" using l bad unfolding f1 failures_placed by blast
    then have "p \<in> fst ` set ?fails" by force
    from fresh_cover [OF this, of "pm_byteOffset ` set ?active"] False m1
    obtain i r where fr: "(p, i, r) \<in> set ?fresh" by auto
    then have "p \<in> pm_byteOffset ` set ?new" by force
    then obtain m where m: "m \<in> set ?new" "pm_byteOffset m = p" by blast
    have "sc' = persistPoisonMarkers sc (loadPoisonMarkers sc) ?kept ?new" using sc' fr by auto
    then have "loadPoisonMarkers sc' = (if length ?kept = length (loadPoisonMarkers sc) then loadPoisonMarkers sc else ?kept) @ ?new"
      by (simp only: load_persisted)
    then have "m \<in> set (loadPoisonMarkers sc')" using m(1) by (rule member_of_append)
    then show ?thesis using m(2) live_new [OF m(1)] unfolding planPoisonSkip_def active_markers_def by auto
  qed
  have "fst ` set (line_failures parse ?m2 0 0 ls) = {}" using covered unfolding failures_placed by blast
  then have "jw_failures p2 = []" using assms(3) window_lines(2) [OF buf(2,3), of parse ?m2 0] buf(1) by simp
  moreover have "jw_items p2 = jw_items p1" using markers_hide_nothing assms(1,3) by metis
  ultimately show ?thesis by blast
qed

subsection \<open>Witnesses\<close>

definition no_x :: "string \<Rightarrow> string option" where
  "no_x s = (if s = ''x'' then None else Some s)"

theorem incremental_reads_complete_witness:
  "fst (follow no_x \<lparr> rd_byteOffset = 0, rd_lineCount = 0 \<rparr>
     [(''a'', {}), (''ab'' @ [nl], {0}), (''ab'' @ [nl] @ ''x'' @ [nl] @ ''c'' @ [nl, CHR ''d''], {})]) = [''ab'', ''c'']"
proof -
  have "map fst (jw_items (parseJsonlWindow no_x {} 0 (''ab'' @ [nl] @ ''x'' @ [nl] @ ''c'' @ [nl, CHR ''d'']))) = [''ab'', ''c'']"
    by code_simp
  then show ?thesis
    using incremental_reads_complete [of "[(''a'', {}), (''ab'' @ [nl], {0}), (''ab'' @ [nl] @ ''x'' @ [nl] @ ''c'' @ [nl, CHR ''d''], {})]"
        no_x 0] by simp
qed

definition one_failure :: "(nat \<times> int \<times> string) list" where
  "one_failure = [(3, 1, ''unexpected'')]"

theorem active_markers_capped_witness:
  "snd (planPoisonSkip (snd (commitPoisonFindings ''now'' None 9 (Some 3) one_failure [])) 9 (Some 3)) \<le> 1000 \<and>
   fst (planPoisonSkip (snd (commitPoisonFindings ''now'' None 9 (Some 3) one_failure [])) 9 (Some 3)) = {3}"
proof -
  have "commitPoisonFindings ''now'' None 9 (Some 3) one_failure [] =
      (False, snd (commitPoisonFindings ''now'' None 9 (Some 3) one_failure []))"
    by (simp add: commitPoisonFindings_def loadPoisonMarkers_def one_failure_def POISON_MARKER_CAP_def Let_def)
  from active_markers_capped [OF this] show ?thesis
    by (simp add: commitPoisonFindings_def loadPoisonMarkers_def one_failure_def POISON_MARKER_CAP_def Let_def
        planPoisonSkip_def active_markers_def persistPoisonMarkers_def List.map_filter_def isStalePoisonMarker_def)
qed

definition poisoned :: string where "poisoned = ''ab'' @ [nl] @ ''x'' @ [nl] @ ''c'' @ [nl]"

theorem poison_found_once_witness:
  "jw_failures (parseJsonlWindow no_x (fst (planPoisonSkip (snd (commitPoisonFindings ''now'' None 7 (Some 3) one_failure [])) 7 (Some 3)))
     0 poisoned) = [] \<and> jw_failures (parseJsonlWindow no_x {} 0 poisoned) = [(3, 1)]"
proof -
  let ?p = "parseJsonlWindow no_x {} 0 poisoned"
  have p: "jw_failures ?p = [(3, 1)]" "jw_staleMarkers ?p = []" "jw_lineCount ?p = 3" "length poisoned = 7" by code_simp+
  have e: "fst (planPoisonSkip None 7 (Some 3)) = {}" by (simp add: planPoisonSkip_def active_markers_def loadPoisonMarkers_def)
  have f: "map (\<lambda>(pos, i). (pos, int i, ''unexpected'')) (jw_failures ?p) = one_failure" by (simp add: p one_failure_def)
  have "commitPoisonFindings ''now'' None 7 (Some 3) one_failure [] =
      (False, snd (commitPoisonFindings ''now'' None 7 (Some 3) one_failure []))"
    by (simp add: commitPoisonFindings_def loadPoisonMarkers_def one_failure_def POISON_MARKER_CAP_def Let_def)
  then have c: "commitPoisonFindings ''now'' None (length poisoned) (Some (jw_lineCount ?p))
      (map (\<lambda>(pos, i). (pos, int i, ''unexpected'')) (jw_failures ?p)) (jw_staleMarkers ?p) =
      (False, snd (commitPoisonFindings ''now'' None 7 (Some 3) one_failure []))" unfolding f p(2-4) .
  have "?p = parseJsonlWindow no_x (fst (planPoisonSkip None (length poisoned) (Some (jw_lineCount ?p)))) 0 poisoned"
    unfolding p(3,4) e ..
  from poison_found_once [OF this c refl] show ?thesis unfolding p(1,3,4) by blast
qed

end
