(* ===== verification/LineReader.thy ===== *)
theory LineReader
  imports Jsonl
begin

text \<open>
  Reading a log line by line with bounded memory: \<open>forEachLineSync\<close> of
  \<open>src/src/state/event-log/event-log-rotation.ts\<close>, which decodes the file in chunks of 8192 bytes. Bytes and code
  points are numbers; \<open>utf8_decode\<close> is \<open>Buffer.toString("utf-8")\<close>, which puts U+FFFD for what is not well formed.
\<close>

subsection \<open>Decoding UTF-8\<close>

text \<open>How many bytes a lead byte needs, its bits, and the bounds of the byte that follows it.\<close>

definition utf8_lead :: "nat \<Rightarrow> (nat \<times> nat \<times> nat \<times> nat) option" where
  "utf8_lead b =
     (if 0xC2 \<le> b \<and> b \<le> 0xDF then Some (1, b - 0xC0, 0x80, 0xBF)
      else if 0xE0 \<le> b \<and> b \<le> 0xEF
      then Some (2, b - 0xE0, if b = 0xE0 then 0xA0 else 0x80, if b = 0xED then 0x9F else 0xBF)
      else if 0xF0 \<le> b \<and> b \<le> 0xF4
      then Some (3, b - 0xF0, if b = 0xF0 then 0x90 else 0x80, if b = 0xF4 then 0x8F else 0xBF)
      else None)"

definition utf8_start :: "nat \<Rightarrow> (nat \<times> nat \<times> nat \<times> nat) option \<times> nat list" where
  "utf8_start b =
     (if b < 0x80 then (None, [b])
      else case utf8_lead b of Some st \<Rightarrow> (Some st, []) | None \<Rightarrow> (None, [0xFFFD]))"

text \<open>One byte in a state: the bytes still needed, the bits so far and the bounds of the next byte.\<close>

definition utf8_byte :: "(nat \<times> nat \<times> nat \<times> nat) option \<Rightarrow> nat \<Rightarrow> (nat \<times> nat \<times> nat \<times> nat) option \<times> nat list" where
  "utf8_byte st b =
     (case st of
        None \<Rightarrow> utf8_start b
      | Some (need, bits, lo, hi) \<Rightarrow>
          if lo \<le> b \<and> b \<le> hi
          then (let bits' = bits * 64 + (b - 0x80)
                in if need = 1 then (None, [bits']) else (Some (need - 1, bits', 0x80, 0xBF), []))
          else (case utf8_start b of (st', out) \<Rightarrow> (st', 0xFFFD # out)))"

fun utf8_run :: "(nat \<times> nat \<times> nat \<times> nat) option \<Rightarrow> nat list \<Rightarrow> (nat \<times> nat \<times> nat \<times> nat) option \<times> nat list" where
  "utf8_run st [] = (st, [])"
| "utf8_run st (b # bs) = (case utf8_byte st b of (st', out) \<Rightarrow> case utf8_run st' bs of (st'', outs) \<Rightarrow> (st'', out @ outs))"

definition utf8_decode :: "nat list \<Rightarrow> nat list" where
  "utf8_decode bs = (case utf8_run None bs of (st, out) \<Rightarrow> out @ (if st = None then [] else [0xFFFD]))"

subsection \<open>The reader\<close>

text \<open>The lines of a text that end with a newline, and the rest.\<close>

fun cut_lines :: "nat list \<Rightarrow> nat list list \<times> nat list" where
  "cut_lines [] = ([], [])"
| "cut_lines (c # cs) =
     (case cut_lines cs of (ls, r) \<Rightarrow>
        if c = 10 then ([] # ls, r) else (case ls of [] \<Rightarrow> ([], c # r) | l # ls' \<Rightarrow> ((c # l) # ls', r)))"

definition READ_CHUNK :: nat where "READ_CHUNK = 8192"

function read_chunks :: "nat list \<Rightarrow> nat list \<Rightarrow> nat list list" where
  "read_chunks leftover bytes =
     (if bytes = [] then (if leftover = [] then [] else [leftover])
      else case cut_lines (leftover @ utf8_decode (take READ_CHUNK bytes)) of
             (ls, r) \<Rightarrow> filter (\<lambda>l. l \<noteq> []) ls @ read_chunks r (drop READ_CHUNK bytes))"
  by auto
termination
  by (relation "measure (\<lambda>(leftover, bytes). length bytes)") (auto simp: READ_CHUNK_def)

declare read_chunks.simps [simp del]

definition forEachLineSync :: "nat list \<Rightarrow> nat list list" where
  "forEachLineSync bytes = read_chunks [] bytes"

subsection \<open>What it reads\<close>

definition text_lines :: "nat list \<Rightarrow> nat list list" where
  "text_lines cs = (case cut_lines cs of (ls, r) \<Rightarrow> filter (\<lambda>l. l \<noteq> []) (ls @ [r]))"

function decode_chunks :: "nat list \<Rightarrow> nat list" where
  "decode_chunks bytes =
     (if bytes = [] then [] else utf8_decode (take READ_CHUNK bytes) @ decode_chunks (drop READ_CHUNK bytes))"
  by auto
termination
  by (relation "measure length") (auto simp: READ_CHUNK_def)

declare decode_chunks.simps [simp del]

lemma cut_lines_append:
  "cut_lines (xs @ ys) = (case cut_lines xs of (ls, r) \<Rightarrow> case cut_lines (r @ ys) of (ms, r') \<Rightarrow> (ls @ ms, r'))"
proof (induction xs)
  case (Cons c xs)
  obtain ls r where xs: "cut_lines xs = (ls, r)" by fastforce
  obtain ms r' where r: "cut_lines (r @ ys) = (ms, r')" by fastforce
  show ?case by (cases ls; cases ms) (use Cons xs r in auto)
qed (simp split: prod.split)

lemma cut_rest: "cut_lines xs = (ls, r) \<Longrightarrow> cut_lines r = ([], r)"
  by (induction xs arbitrary: ls r) (auto split: prod.splits if_splits list.splits)

lemma read_chunks_eq: "cut_lines leftover = ([], leftover) \<Longrightarrow> read_chunks leftover bytes = text_lines (leftover @ decode_chunks bytes)"
proof (induction leftover bytes rule: read_chunks.induct)
  case (1 leftover bytes)
  show ?case
  proof (cases "bytes = []")
    case True
    then show ?thesis using 1 by (simp add: text_lines_def read_chunks.simps decode_chunks.simps)
  next
    case False
    obtain ls r where c: "cut_lines (leftover @ utf8_decode (take READ_CHUNK bytes)) = (ls, r)" by fastforce
    have "read_chunks leftover bytes = filter (\<lambda>l. l \<noteq> []) ls @ text_lines (r @ decode_chunks (drop READ_CHUNK bytes))"
      using False c 1 cut_rest [OF c] by (subst read_chunks.simps) simp
    also have "\<dots> = text_lines (leftover @ decode_chunks bytes)"
    proof -
      obtain ms t where m: "cut_lines (r @ decode_chunks (drop READ_CHUNK bytes)) = (ms, t)" by fastforce
      have "cut_lines (leftover @ decode_chunks bytes) = (ls @ ms, t)"
        using False c m cut_lines_append [of "leftover @ utf8_decode (take READ_CHUNK bytes)" "decode_chunks (drop READ_CHUNK bytes)"]
        by (simp add: decode_chunks.simps [of bytes])
      then show ?thesis using m by (simp add: text_lines_def)
    qed
    finally show ?thesis .
  qed
qed

lemma run_append: "utf8_run st (xs @ ys) = (case utf8_run st xs of (st', out) \<Rightarrow> case utf8_run st' ys of (st'', outs) \<Rightarrow> (st'', out @ outs))"
  by (induction xs arbitrary: st) (auto split: prod.split)

text \<open>No character lies across the chunks: the decoder is at rest at each of their ends.\<close>

function chunks_aligned :: "nat list \<Rightarrow> bool" where
  "chunks_aligned bytes =
     (if length bytes \<le> READ_CHUNK then True
      else fst (utf8_run None (take READ_CHUNK bytes)) = None \<and> chunks_aligned (drop READ_CHUNK bytes))"
  by auto
termination
  by (relation "measure length") (auto simp: READ_CHUNK_def diff_less)

declare chunks_aligned.simps [simp del]

lemma decode_aligned: "chunks_aligned bytes \<Longrightarrow> decode_chunks bytes = utf8_decode bytes"
proof (induction bytes rule: chunks_aligned.induct)
  case (1 bytes)
  show ?case
  proof (cases "length bytes \<le> READ_CHUNK")
    case True
    then show ?thesis by (simp add: decode_chunks.simps utf8_decode_def)
  next
    case False
    then have b: "bytes \<noteq> []" "fst (utf8_run None (take READ_CHUNK bytes)) = None" "chunks_aligned (drop READ_CHUNK bytes)"
      using 1(2) by (auto simp: chunks_aligned.simps [of bytes])
    have "utf8_decode (take READ_CHUNK bytes @ drop READ_CHUNK bytes) =
      utf8_decode (take READ_CHUNK bytes) @ utf8_decode (drop READ_CHUNK bytes)"
    proof -
      obtain out where o: "utf8_run None (take READ_CHUNK bytes) = (None, out)" using b(2) by (cases "utf8_run None (take READ_CHUNK bytes)") simp
      obtain st out' where o': "utf8_run None (drop READ_CHUNK bytes) = (st, out')" by fastforce
      show ?thesis unfolding utf8_decode_def run_append o prod.case o' by simp
    qed
    then show ?thesis using 1(1) b False by (simp add: decode_chunks.simps [of bytes])
  qed
qed

lemma ascii_run: "list_all (\<lambda>b. b < 128) bytes \<Longrightarrow> utf8_run None bytes = (None, bytes)"
  by (induction bytes) (auto simp: utf8_byte_def utf8_start_def)

lemma ascii_aligned: "list_all (\<lambda>b. b < 128) bytes \<Longrightarrow> chunks_aligned bytes"
proof (induction bytes rule: chunks_aligned.induct)
  case (1 bytes)
  have "list_all (\<lambda>b. b < 128) (take READ_CHUNK bytes)" "list_all (\<lambda>b. b < 128) (drop READ_CHUNK bytes)"
    using 1(2) by (auto simp: list_all_iff dest: in_set_takeD in_set_dropD)
  then show ?case using 1(1) by (subst chunks_aligned.simps) (simp add: ascii_run)
qed

lemma chunks_read: "forEachLineSync bytes = text_lines (decode_chunks bytes)"
  by (simp add: forEachLineSync_def read_chunks_eq)

text \<open>
  A log is read as the lines of its chunks of 8192 bytes, decoded one by one. These are the lines of its text
  when no character lies across two chunks, and so for every log of ASCII.
\<close>

theorem lines_read_exact:
  "forEachLineSync bytes = text_lines (decode_chunks bytes) \<and>
   (chunks_aligned bytes \<longrightarrow> forEachLineSync bytes = text_lines (utf8_decode bytes)) \<and>
   (list_all (\<lambda>b. b < 128) bytes \<longrightarrow> forEachLineSync bytes = text_lines bytes)"
  using decode_aligned [OF ascii_aligned, of bytes] decode_aligned [of bytes]
  by (auto simp: chunks_read utf8_decode_def ascii_run)

text \<open>
  A character whose bytes lie across two chunks is lost: a line of 8191 letters and an accented one is read with
  two replacement characters in its place, and a compaction writes it back so.
\<close>

theorem character_across_chunks_lost:
  assumes "n + 1 = READ_CHUNK" and "a < 128" and "a \<noteq> 10"
  shows "utf8_decode (replicate n a @ [0xC3, 0xA9, 10]) = replicate n a @ [0xE9, 10] \<and>
    forEachLineSync (replicate n a @ [0xC3, 0xA9, 10]) = [replicate n a @ [0xFFFD, 0xFFFD]]"
proof -
  let ?as = "replicate n a"
  have as: "utf8_run None (?as @ bs) = (case utf8_run None bs of (st, out) \<Rightarrow> (st, ?as @ out))" for bs
    using assms(2) run_append [of None ?as bs] ascii_run [of ?as] by (simp add: list_all_iff)
  have d: "utf8_run None [0xC3, 0xA9, 10] = (None, [0xE9, 10])" "utf8_run None [0xC3] = (Some (1, 3, 0x80, 0xBF), [])"
    "utf8_decode [0xA9, 10] = [0xFFFD, 10]"
    by (simp_all add: utf8_decode_def utf8_byte_def utf8_start_def utf8_lead_def Let_def)
  have parts: "take READ_CHUNK (?as @ [0xC3, 0xA9, 10]) = ?as @ [0xC3]" "drop READ_CHUNK (?as @ [0xC3, 0xA9, 10]) = [0xA9, 10]"
    unfolding assms(1) [symmetric] by simp_all
  have "decode_chunks [0xA9, 10] = utf8_decode [0xA9, 10]"
    by (subst decode_chunks.simps) (simp add: READ_CHUNK_def decode_chunks.simps [of "[]"])
  then have "decode_chunks [0xA9, 10] = [0xFFFD, 10]" using d(3) by simp
  then have "decode_chunks (?as @ [0xC3, 0xA9, 10]) = ?as @ [0xFFFD, 0xFFFD, 10]"
    using as [of "[0xC3]"] d(2) unfolding decode_chunks.simps [of "?as @ [0xC3, 0xA9, 10]"] parts
    by (simp add: utf8_decode_def)
  moreover have "cut_lines (?as @ [0xFFFD, 0xFFFD, 10]) = ([?as @ [0xFFFD, 0xFFFD]], [])"
    using assms(3) by (induction n) simp_all
  moreover have "utf8_decode (?as @ [0xC3, 0xA9, 10]) = ?as @ [0xE9, 10]"
    using as [of "[0xC3, 0xA9, 10]"] unfolding utf8_decode_def d(1) by simp
  ultimately show ?thesis by (simp add: chunks_read text_lines_def)
qed

theorem character_across_chunks_lost_witness:
  "forEachLineSync (replicate 8191 97 @ [0xC3, 0xA9, 10]) = [replicate 8191 97 @ [0xFFFD, 0xFFFD]]"
  using character_across_chunks_lost [of 8191 97] by (simp add: READ_CHUNK_def del: replicate.simps)

theorem lines_read_exact_witness:
  "forEachLineSync [104, 105, 10, 10, 0xC3, 0xA9] = [[104, 105], [0xE9]]"
proof -
  have "chunks_aligned [104, 105, 10, 10, 0xC3, 0xA9]" by (simp add: chunks_aligned.simps READ_CHUNK_def)
  moreover have "text_lines (utf8_decode [104, 105, 10, 10, 0xC3, 0xA9]) = [[104, 105], [0xE9]]"
    by (simp add: text_lines_def utf8_decode_def utf8_byte_def utf8_start_def utf8_lead_def Let_def)
  ultimately show ?thesis using lines_read_exact [of "[104, 105, 10, 10, 0xC3, 0xA9]"] by metis
qed

subsection \<open>The lines of a file of bytes\<close>

text \<open>
  The encoding of a code point, and the file that is read in chunks as a list of characters: its lines are given
  back as the bytes of what was decoded.
\<close>

definition utf8_encode :: "nat \<Rightarrow> nat list" where
  "utf8_encode c =
     (if c < 0x80 then [c]
      else if c < 0x800 then [0xC0 + c div 64, 0x80 + c mod 64]
      else if c < 0x10000 then [0xE0 + c div 4096, 0x80 + c div 64 mod 64, 0x80 + c mod 64]
      else [0xF0 + c div 262144, 0x80 + c div 4096 mod 64, 0x80 + c div 64 mod 64, 0x80 + c mod 64])"

definition utf8_text :: "nat list \<Rightarrow> nat list" where
  "utf8_text cs = concat (map utf8_encode cs)"

definition streamed_lines :: "string \<Rightarrow> string list" where
  "streamed_lines content = map (\<lambda>l. map char_of (utf8_text l)) (forEachLineSync (map of_char content))"

definition code_point :: "nat \<Rightarrow> bool" where
  "code_point c \<longleftrightarrow> c < 0xD800 \<or> 0xE000 \<le> c \<and> c < 0x110000"

text \<open>The content is UTF-8, and no character lies across two chunks.\<close>

definition whole_chunks :: "string \<Rightarrow> bool" where
  "whole_chunks content \<longleftrightarrow> chunks_aligned (map of_char content) \<and>
     (\<exists>cs. list_all code_point cs \<and> map of_char content = utf8_text cs)"

lemma decode_one:
  assumes "code_point c"
  shows "utf8_run None (utf8_encode c @ bs) = (case utf8_run None bs of (st, out) \<Rightarrow> (st, c # out))"
proof -
  consider "c < 0x80" | "0x80 \<le> c" "c < 0x800" | "0x800 \<le> c" "c < 0x10000" | "0x10000 \<le> c" "c < 0x110000"
    using assms by (fastforce simp: code_point_def)
  then show ?thesis
  proof cases
    case 1
    then show ?thesis by (simp add: utf8_encode_def utf8_byte_def utf8_start_def)
  next
    case 2
    define q r where "q = c div 64" and "r = c mod 64"
    have v: "c = q * 64 + r" "r < 64" "2 \<le> q" "q < 32" using 2 by (auto simp: q_def r_def)
    have e: "utf8_encode c = [0xC0 + q, 0x80 + r]" using 2 by (simp add: utf8_encode_def q_def r_def)
    show ?thesis
      unfolding e using v by (auto simp: utf8_byte_def utf8_start_def utf8_lead_def Let_def split: prod.split)
  next
    case 3
    define q r s where "q = c div 4096" and "r = c div 64 mod 64" and "s = c mod 64"
    have d: "c div 4096 = c div 64 div 64" using div_mult2_eq [of c 64 64] by simp
    have "c = (q * 64 + r) * 64 + s" unfolding q_def r_def s_def d by simp
    moreover have "r < 64" "s < 64" "q < 16" using 3 by (auto simp: q_def r_def s_def)
    ultimately have v: "c = (q * 64 + r) * 64 + s" "r < 64" "s < 64" "q < 16" by blast+
    have lo: "q = 0 \<Longrightarrow> 32 \<le> r" using v(1,3) 3(1) by simp
    have hi: "q = 13 \<Longrightarrow> r < 32" using v(1-3) assms 3 by (auto simp: code_point_def)
    have e: "utf8_encode c = [0xE0 + q, 0x80 + r, 0x80 + s]" using 3 by (simp add: utf8_encode_def q_def r_def s_def)
    show ?thesis
      unfolding e using v lo hi
      by (auto simp: utf8_byte_def utf8_start_def utf8_lead_def Let_def split: prod.split)
  next
    case 4
    define p q r s where "p = c div 262144" and "q = c div 4096 mod 64" and "r = c div 64 mod 64" and "s = c mod 64"
    have d: "c div 4096 = c div 64 div 64" "c div 262144 = c div 64 div 64 div 64"
      using div_mult2_eq [of c 64 64] div_mult2_eq [of c 4096 64] by simp_all
    have "c = ((p * 64 + q) * 64 + r) * 64 + s" unfolding p_def q_def r_def s_def d by simp
    moreover have "q < 64" "r < 64" "s < 64" "p < 5" using 4 by (auto simp: p_def q_def r_def s_def)
    ultimately have v: "c = ((p * 64 + q) * 64 + r) * 64 + s" "q < 64" "r < 64" "s < 64" "p < 5" by blast+
    have lo: "p = 0 \<Longrightarrow> 16 \<le> q" using v(1,3,4) 4(1) by simp
    have hi: "p = 4 \<Longrightarrow> q < 16" using v(1) 4(2) by simp
    have e: "utf8_encode c = [0xF0 + p, 0x80 + q, 0x80 + r, 0x80 + s]"
      using 4 by (simp add: utf8_encode_def p_def q_def r_def s_def)
    show ?thesis
      unfolding e using v lo hi
      by (auto simp: utf8_byte_def utf8_start_def utf8_lead_def Let_def split: prod.split)
  qed
qed

lemma decode_text: "list_all code_point cs \<Longrightarrow> utf8_run None (utf8_text cs) = (None, cs)"
  by (induction cs) (simp_all add: utf8_text_def decode_one)

lemma cut_lines_free: "10 \<notin> set bs \<Longrightarrow> bs \<noteq> [] \<Longrightarrow>
    cut_lines (bs @ rest) = (case cut_lines rest of (ls, r) \<Rightarrow> (case ls of [] \<Rightarrow> ([], bs @ r) | l # ls' \<Rightarrow> ((bs @ l) # ls', r)))"
proof (induction bs)
  case (Cons b bs)
  then show ?case by (cases "bs = []") (auto split: prod.splits list.splits)
qed simp

lemma encode_newline: "utf8_encode 10 = [10]" "c \<noteq> 10 \<Longrightarrow> 10 \<notin> set (utf8_encode c)" "utf8_encode c \<noteq> []"
  by (auto simp: utf8_encode_def)

lemma utf8_text_Nil [simp]: "utf8_text cs = [] \<longleftrightarrow> cs = []" "utf8_text [] = []"
  by (cases cs; simp add: utf8_text_def encode_newline)+

lemma cut_lines_text:
  "cut_lines (utf8_text cs) = (case cut_lines cs of (ls, r) \<Rightarrow> (map utf8_text ls, utf8_text r))"
proof (induction cs)
  case (Cons c cs)
  have u: "utf8_text (c # x) = utf8_encode c @ utf8_text x" for x by (simp add: utf8_text_def)
  show ?case
  proof (cases "c = 10")
    case True
    then have "utf8_text (c # cs) = 10 # utf8_text cs" using u encode_newline(1) by simp
    then show ?thesis using Cons True by (simp split: prod.split)
  next
    case False
    then show ?thesis
      using Cons encode_newline(2) [OF False] encode_newline(3) [of c]
      by (auto simp: u cut_lines_free split: prod.split list.split)
  qed
qed (simp add: utf8_text_def)

lemma text_lines_text: "text_lines (utf8_text cs) = map utf8_text (text_lines cs)"
  by (auto simp: text_lines_def cut_lines_text filter_map comp_def split: prod.split)

lemma of_char_nl: "(of_char c = (10::nat)) = (c = nl)"
proof -
  have "(of_char c = (of_char nl :: nat)) = (c = nl)" by simp
  then show ?thesis by (simp add: nl_def)
qed

lemma cut_lines_bytes:
  assumes "proper ls" and "nl \<notin> set rest"
  shows "cut_lines (map of_char (lines_bytes ls @ rest)) = (map (map of_char) ls, map of_char rest :: nat list)"
proof -
  have free: "nl \<notin> set l \<Longrightarrow> cut_lines (map of_char l :: nat list) = ([], map of_char l)" for l
    by (induction l) (auto simp: of_char_nl)
  have line: "nl \<notin> set l \<Longrightarrow> cut_lines (map of_char l @ 10 # r :: nat list) =
      (case cut_lines r of (ls, r') \<Rightarrow> (map of_char l # ls, r'))" for l r
    by (induction l) (auto simp: of_char_nl split: prod.splits)
  show ?thesis
    using assms free [of rest] line by (induction ls) (simp_all add: nl_def)
qed

text \<open>
  Under that condition the stream gives the lines of the file, those that are not empty.
\<close>

lemma streamed_whole:
  assumes "whole_chunks (lines_bytes ls @ rest)" and "proper ls" and "nl \<notin> set rest"
  shows "streamed_lines (lines_bytes ls @ rest) = filter (\<lambda>l. l \<noteq> []) (ls @ [rest])"
proof -
  let ?b = "map of_char (lines_bytes ls @ rest) :: nat list"
  obtain cs where cs: "list_all code_point cs" "?b = utf8_text cs" and al: "chunks_aligned ?b"
    using assms(1) by (auto simp: whole_chunks_def)
  have "forEachLineSync ?b = text_lines cs"
    using decode_aligned [OF al] decode_text [OF cs(1)] unfolding cs(2) by (simp add: chunks_read utf8_decode_def)
  then have "map utf8_text (forEachLineSync ?b) = text_lines ?b" unfolding cs(2) text_lines_text by (rule arg_cong)
  also have "\<dots> = map (map of_char) (filter (\<lambda>l. l \<noteq> []) (ls @ [rest]))"
    unfolding text_lines_def cut_lines_bytes [OF assms(2,3)] by (simp add: filter_map comp_def)
  finally have "map (map char_of) (map utf8_text (forEachLineSync ?b)) =
      map (map char_of) (map (map of_char :: string \<Rightarrow> nat list) (filter (\<lambda>l. l \<noteq> []) (ls @ [rest])))"
    by (rule arg_cong)
  moreover have "map char_of (map of_char l :: nat list) = l" for l by (induction l) simp_all
  ultimately show ?thesis by (simp add: streamed_lines_def comp_def)
qed

lemma ascii_whole:
  assumes "list_all (\<lambda>c. of_char c < (128::nat)) content"
  shows "whole_chunks content"
proof -
  have b: "list_all (\<lambda>b. b < 128) (map of_char content :: nat list)" using assms by (simp add: list_all_iff)
  have "utf8_text xs = xs" if "list_all (\<lambda>b. b < 128) xs" for xs
    using that by (induction xs) (simp_all add: utf8_text_def utf8_encode_def)
  moreover have "list_all code_point (map of_char content)" using b by (auto simp: list_all_iff code_point_def)
  ultimately show ?thesis using b ascii_aligned [OF b] unfolding whole_chunks_def by metis
qed

end
