(* ===== verification/EventLog.thy ===== *)
theory EventLog
  imports LineReader "HOL-Library.Code_Target_Nat"
begin

text \<open>
  Writing the event log of a run, \<open>src/src/state/event-log/\<close>: the reservation of sequence numbers
  (\<open>sequence-cache.ts\<close>), compaction and rotation (\<open>event-log-rotation.ts\<close>) and the appends
  (\<open>event-log.ts\<close>). A file is its bytes; \<open>JSON.parse\<close> (of the text the bytes encode), \<open>JSON.stringify\<close> after redaction and the hash of a
  fingerprint are arguments. What runs under a lock is one step; the locks themselves, \<open>fsync\<close>, the caches
  that no append reads, and the sweep of old archives are left out.
\<close>

subsection \<open>Events and files\<close>

record team_event =
  te_time :: string
  te_type :: string
  te_runId :: string
  te_taskId :: "string option"
  te_message :: "string option"
  te_data :: "json option"
  te_seq :: "int option"
  te_fingerprint :: "string option"
  te_skippedDueToSize :: bool

text \<open>The event that a caller hands in, with the metadata it may give itself.\<close>

record append_event =
  ap_type :: string
  ap_runId :: string
  ap_taskId :: "string option"
  ap_message :: "string option"
  ap_data :: "json option"
  ap_seq :: "int option"
  ap_fingerprint :: "string option"

definition TERMINAL_EVENT_TYPES :: "string set" where
  "TERMINAL_EVENT_TYPES = {''run.blocked'', ''run.completed'', ''run.failed'', ''run.cancelled'', ''task.completed'',
     ''task.failed'', ''task.skipped'', ''task.cancelled'', ''task.needs_attention''}"

definition MAX_EVENTS_BYTES :: nat where "MAX_EVENTS_BYTES = 50 * 1024 * 1024"

text \<open>
  The log on disk: the live file, its archives from the oldest, the generation and the stored sequence
  number; and what a process keeps of it, its counter and its number of appends.
\<close>

record event_log =
  el_file :: "string option"
  el_archives :: "string list"
  el_generation :: nat
  el_seqFile :: "int option"

record log_process =
  lp_counter :: "int option"
  lp_appends :: nat

text \<open>The functions the code imports, the clock, and whether its best-effort writes succeed.\<close>

record log_env =
  le_parse :: "string \<Rightarrow> team_event option"
  le_stringify :: "team_event \<Rightarrow> string"
  le_redact :: "team_event \<Rightarrow> team_event"
  le_hash :: "string \<times> string \<times> string option \<times> json option \<Rightarrow> string"
  le_now :: string
  le_persists :: bool
  le_rewrites :: bool
  le_rotates :: bool

definition file_size :: "event_log \<Rightarrow> nat" where
  "file_size l = length (nullish (el_file l) [])"

text \<open>The lines of a file, a last one without a newline included.\<close>

definition file_lines :: "string \<Rightarrow> string list" where
  "file_lines content =
     (case split_lines 0 0 content of (ls, rest) \<Rightarrow> map fst ls @ (if rest = [] then [] else [rest]))"

definition file_events :: "log_env \<Rightarrow> string \<Rightarrow> team_event list" where
  "file_events env content = List.map_filter (line_value (le_parse env)) (file_lines content)"

text \<open>
  The events a compaction reads: \<open>readLastEvents\<close> and \<open>countEventsAndSeqs\<close> stream the file in chunks that are
  decoded one by one (\<open>LineReader\<close>).
\<close>

definition streamed_events :: "log_env \<Rightarrow> string \<Rightarrow> team_event list" where
  "streamed_events env content = List.map_filter (line_value (le_parse env)) (streamed_lines content)"

subsection \<open>Sequence numbers\<close>

definition scanSequence :: "log_env \<Rightarrow> string option \<Rightarrow> int" where
  "scanSequence env f =
     (case f of None \<Rightarrow> 0 | Some content \<Rightarrow> fold (\<lambda>e m. max m (nullish (te_seq e) 0)) (file_events env content) 0)"

definition persistSequence :: "log_env \<Rightarrow> int \<Rightarrow> event_log \<Rightarrow> event_log" where
  "persistSequence env n l = (if le_persists env then l\<lparr>el_seqFile := Some n\<rparr> else l)"

definition reserveSequence :: "log_env \<Rightarrow> nat \<Rightarrow> log_process \<times> event_log \<Rightarrow> int \<times> log_process \<times> event_log" where
  "reserveSequence env count s =
     (case s of (p, l) \<Rightarrow>
        let stored = (case el_seqFile l of Some n \<Rightarrow> n | None \<Rightarrow> scanSequence env (el_file l));
            start = max stored (nullish (lp_counter p) 0) + 1;
            top = start + int count - 1
        in (start, p\<lparr>lp_counter := Some top\<rparr>, persistSequence env top l))"

definition advanceSequenceCounter :: "int \<Rightarrow> log_process \<Rightarrow> log_process" where
  "advanceSequenceCounter n p =
     (if (case lp_counter p of None \<Rightarrow> True | Some m \<Rightarrow> m < n) then p\<lparr>lp_counter := Some n\<rparr> else p)"

definition persistSequenceMonotonic :: "log_env \<Rightarrow> int \<Rightarrow> log_process \<Rightarrow> event_log \<Rightarrow> event_log" where
  "persistSequenceMonotonic env n p l =
     (let stored = nullish (el_seqFile l) 0; value = max stored (max (nullish (lp_counter p) 0) n)
      in if value \<noteq> stored then persistSequence env value l else l)"

definition reservedSequenceEnd :: "log_process \<Rightarrow> int" where
  "reservedSequenceEnd p = nullish (lp_counter p) 0"

subsection \<open>Rotation and compaction\<close>

definition MAX_FILE_BYTES :: nat where "MAX_FILE_BYTES = 4 * 1024 * 1024"
definition MAX_EVENT_COUNT :: nat where "MAX_EVENT_COUNT = 50000"
definition COMPACT_TO_COUNT :: nat where "COMPACT_TO_COUNT = 1000"
definition AVG_BYTES_PER_EVENT :: nat where "AVG_BYTES_PER_EVENT = 80"

definition needsRotation :: "event_log \<Rightarrow> bool" where
  "needsRotation l \<longleftrightarrow> el_file l \<noteq> None \<and>
     (MAX_FILE_BYTES < file_size l \<or> MAX_EVENT_COUNT < file_size l div AVG_BYTES_PER_EVENT)"

definition last_n :: "nat \<Rightarrow> 'a list \<Rightarrow> 'a list" where
  "last_n n xs = drop (length xs - n) xs"

record prepared =
  pc_kept :: "team_event list"
  pc_originalSize :: nat
  pc_originalCount :: nat

definition print_events :: "log_env \<Rightarrow> team_event list \<Rightarrow> string" where
  "print_events env es = lines_bytes (map (le_stringify env) es)"

text \<open>The file is read after its size is taken, and it can grow in between: \<open>originalSize\<close> is the size then.\<close>

definition prepareCompaction :: "log_env \<Rightarrow> nat \<Rightarrow> string option \<Rightarrow> prepared option" where
  "prepareCompaction env originalSize f =
     (case f of
        None \<Rightarrow> None
      | Some content \<Rightarrow>
          let es = streamed_events env content
          in if length es \<le> COMPACT_TO_COUNT then None
             else Some \<lparr> pc_kept = last_n COMPACT_TO_COUNT es, pc_originalSize = originalSize,
                    pc_originalCount = length es \<rparr>)"

text \<open>The complete lines appended after an offset; \<open>None\<close> when the file is shorter, which ends the cycle.\<close>

definition readTailSince :: "string option \<Rightarrow> nat \<Rightarrow> string option" where
  "readTailSince f offset =
     (case f of
        None \<Rightarrow> Some []
      | Some content \<Rightarrow>
          if length content < offset then None
          else Some (lines_bytes (map fst (fst (split_lines 0 0 (drop offset content))))))"

definition bumpGeneration :: "event_log \<Rightarrow> event_log" where
  "bumpGeneration l = l\<lparr>el_generation := el_generation l + 1\<rparr>"

text \<open>
  \<open>applyCompactionUnlocked\<close> with the tail spliced in; events missing after the write are appended again. The tail
  is read from the file as it is then, \<open>f\<close>, and the log is rewritten as it is later, \<open>l\<close>.
\<close>

definition applyCompaction :: "log_env \<Rightarrow> prepared \<Rightarrow> string option \<Rightarrow> event_log \<Rightarrow> event_log" where
  "applyCompaction env c f l =
     (case readTailSince f (pc_originalSize c) of
        None \<Rightarrow> l
      | Some tail \<Rightarrow>
          if \<not> le_rewrites env then l
          else let content = print_events env (pc_kept c) @ tail;
                   after = streamed_events env content; seqs = set (List.map_filter te_seq after);
                   missing = filter (\<lambda>e. case te_seq e of None \<Rightarrow> True | Some n \<Rightarrow> n \<notin> seqs) (pc_kept c)
               in bumpGeneration (l\<lparr>el_file := Some
                    (if length (pc_kept c) \<le> length after then content else content @ print_events env missing)\<rparr>))"

definition compactEventLog :: "log_env \<Rightarrow> event_log \<Rightarrow> event_log" where
  "compactEventLog env l = (case prepareCompaction env (file_size l) (el_file l) of None \<Rightarrow> l | Some c \<Rightarrow> applyCompaction env c (el_file l) l)"

definition rotateEventLog :: "log_env \<Rightarrow> event_log \<Rightarrow> event_log" where
  "rotateEventLog env l =
     (case el_file l of
        None \<Rightarrow> l
      | Some content \<Rightarrow>
          if le_rotates env
          then bumpGeneration (l\<lparr>el_archives := el_archives l @ [content], el_file := Some []\<rparr>) else l)"

subsection \<open>Appends\<close>

definition tickAppendCounter :: "nat \<Rightarrow> log_process \<Rightarrow> bool \<times> log_process" where
  "tickAppendCounter inc p =
     (let prev = lp_appends p; next = prev + inc in (prev div 100 < next div 100, p\<lparr>lp_appends := next\<rparr>))"

definition full_event :: "log_env \<Rightarrow> int \<Rightarrow> append_event \<Rightarrow> team_event" where
  "full_event env n e =
     \<lparr> te_time = le_now env, te_type = ap_type e, te_runId = ap_runId e, te_taskId = ap_taskId e,
       te_message = ap_message e, te_data = ap_data e, te_seq = Some n,
       te_fingerprint = (if truthy (ap_fingerprint e) \<or> ap_type e \<in> TERMINAL_EVENT_TYPES
                         then Some (nullish (ap_fingerprint e) (le_hash env (ap_type e, ap_runId e, ap_taskId e, ap_data e)))
                         else None),
       te_skippedDueToSize = False \<rparr>"

definition make_room :: "log_env \<Rightarrow> event_log \<Rightarrow> event_log" where
  "make_room env l =
     (if MAX_EVENTS_BYTES < file_size l
      then let l' = compactEventLog env l in if MAX_EVENTS_BYTES < file_size l' then rotateEventLog env l' else l'
      else l)"

definition append_text :: "string \<Rightarrow> event_log \<Rightarrow> event_log" where
  "append_text t l = l\<lparr>el_file := Some (nullish (el_file l) [] @ t)\<rparr>"

text \<open>The result of one append says whether the event was dropped. The body of \<open>appendEvent\<close> and, under the other lock, of \<open>appendEventAsync\<close>.\<close>

definition appendEventInsideLock ::
    "log_env \<Rightarrow> append_event \<Rightarrow> log_process \<times> event_log \<Rightarrow> team_event \<times> log_process \<times> event_log" where
  "appendEventInsideLock env e s =
     (case (case ap_seq e of
              Some n \<Rightarrow> (n, advanceSequenceCounter n (fst s), snd s)
            | None \<Rightarrow> reserveSequence env 1 s) of
        (n, p, l) \<Rightarrow>
          let full = full_event env n e;
              l1 = (if ap_type e \<notin> TERMINAL_EVENT_TYPES then make_room env l else l);
              skipped = (MAX_EVENTS_BYTES < file_size l1);
              l2 = (if skipped then l1
                    else let l' = append_text (print_events env [le_redact env full]) l1
                         in if ap_seq e \<noteq> None then persistSequenceMonotonic env n p l' else l')
          in case tickAppendCounter 1 p of
               (crossed, p') \<Rightarrow>
                 (full\<lparr>te_skippedDueToSize := skipped\<rparr>, p',
                  if crossed \<and> needsRotation l2 then compactEventLog env l2 else l2))"

text \<open>The sequence numbers of a batch: the first event's own, or the start of a reserved range, and on from there.\<close>

fun batch_seqs :: "int \<Rightarrow> append_event list \<Rightarrow> int list" where
  "batch_seqs n [] = []"
| "batch_seqs n (e # es) = (case ap_seq e of Some m \<Rightarrow> m # batch_seqs n es | None \<Rightarrow> n # batch_seqs (n + 1) es)"

text \<open>\<open>None\<close>: every event of the batch is rejected.\<close>

definition appendEventBatchInsideLock :: "log_env \<Rightarrow> append_event list \<Rightarrow> log_process \<times> event_log \<Rightarrow>
    team_event list option \<times> log_process \<times> event_log" where
  "appendEventBatchInsideLock env queue s =
     (if queue = [] then (Some [], s)
      else let p0 = snd (tickAppendCounter (length queue) (fst s)); l0 = make_room env (snd s)
           in case (case ap_seq (hd queue) of
                      Some n \<Rightarrow> (n, p0, l0)
                    | None \<Rightarrow> reserveSequence env (length queue) (p0, l0)) of
                (start, p, l) \<Rightarrow>
                  let seqs = batch_seqs start queue; es = map2 (full_event env) seqs queue;
                      reserved = reservedSequenceEnd p; top = last seqs; p' = advanceSequenceCounter top p
                  in if MAX_EVENTS_BYTES < file_size l then (None, p', l)
                     else let l' = append_text (print_events env (map (le_redact env) es)) l
                          in (Some es, p', if reserved < top then persistSequenceMonotonic env top p' l' else l'))"

definition dedupeTerminalEvents :: "team_event list \<Rightarrow> team_event list" where
  "dedupeTerminalEvents events = rev (snd (fold (\<lambda>e (seen, out).
     (case te_fingerprint e of
        Some f \<Rightarrow> if f \<noteq> [] \<and> te_type e \<in> TERMINAL_EVENT_TYPES
                  then if f \<in> seen then (seen, out) else (insert f seen, e # out) else (seen, e # out)
      | None \<Rightarrow> (seen, e # out))) events ({}, [])))"

subsection \<open>Sequence numbers are given once\<close>

lemma seqFile_room [simp]:
  "el_seqFile (applyCompaction env c f l) = el_seqFile l" "el_seqFile (compactEventLog env l) = el_seqFile l"
  "el_seqFile (rotateEventLog env l) = el_seqFile l" "el_seqFile (make_room env l) = el_seqFile l"
  "el_seqFile (append_text t l) = el_seqFile l"
  by (auto simp: applyCompaction_def compactEventLog_def rotateEventLog_def make_room_def append_text_def bumpGeneration_def
      Let_def split: option.splits)

text \<open>The stored number covers \<open>n\<close>.\<close>

definition seq_covers :: "int \<Rightarrow> event_log \<Rightarrow> bool" where
  "seq_covers n l \<longleftrightarrow> (case el_seqFile l of Some m \<Rightarrow> n \<le> m | None \<Rightarrow> False)"

lemma seq_covers_cong: "el_seqFile l = el_seqFile l' \<Longrightarrow> seq_covers n l = seq_covers n l'"
  by (simp add: seq_covers_def)

lemma seq_covers_room [simp]:
  "seq_covers n (applyCompaction env c f l) = seq_covers n l" "seq_covers n (compactEventLog env l) = seq_covers n l"
  "seq_covers n (rotateEventLog env l) = seq_covers n l" "seq_covers n (make_room env l) = seq_covers n l"
  "seq_covers n (append_text t l) = seq_covers n l"
  by (auto intro!: seq_covers_cong)

lemma seq_covers_monotonic: "seq_covers n l \<Longrightarrow> seq_covers n (persistSequenceMonotonic env m p l)"
  by (auto simp: seq_covers_def persistSequenceMonotonic_def persistSequence_def Let_def split: option.splits)

lemma reserve_result:
  assumes "reserveSequence env count s = (start, p', l')" and "le_persists env"
  shows "seq_covers n (snd s) \<Longrightarrow> n < start" "el_seqFile l' = Some (start + int count - 1)"
    "seq_covers n (snd s) \<Longrightarrow> seq_covers n l'" "lp_counter p' = Some (start + int count - 1)"
  using assms by (auto simp: reserveSequence_def seq_covers_def Let_def persistSequence_def split: prod.splits option.splits)

text \<open>A numbered event of a batch is \<open>Inl\<close> its own number, or \<open>Inr\<close> the one it is given.\<close>

definition given_numbers :: "append_event list \<Rightarrow> int list \<Rightarrow> int list" where
  "given_numbers queue seqs = map snd (filter (\<lambda>(e, n). ap_seq e = None) (zip queue seqs))"

lemma batch_numbers: "given_numbers queue (batch_seqs n queue) = map (\<lambda>i. n + int i) [0..<length (filter (\<lambda>e. ap_seq e = None) queue)]"
proof (induction queue arbitrary: n)
  case Nil
  then show ?case by (simp add: given_numbers_def)
next
  case (Cons e es)
  show ?case
  proof (cases "ap_seq e")
    case None
    have "given_numbers (e # es) (batch_seqs n (e # es)) = n # map (\<lambda>i. (n + 1) + int i) [0..<length (filter (\<lambda>e. ap_seq e = None) es)]"
      using Cons.IH [of "n + 1"] None by (simp add: given_numbers_def)
    also have "\<dots> = map (\<lambda>i. n + int i) [0..<Suc (length (filter (\<lambda>e. ap_seq e = None) es))]"
      by (simp add: upt_conv_Cons map_Suc_upt [symmetric] del: upt_Suc)
    finally show ?thesis using None by simp
  next
    case (Some m)
    then show ?thesis using Cons.IH [of n] by (simp add: given_numbers_def)
  qed
qed

text \<open>
  The log and its processes, and the numbers reserved and given to events so far. A process can lose its counter:
  the map of counters is capped, and a process ends.
\<close>

record 'p log_system =
  sy_procs :: "'p \<Rightarrow> log_process"
  sy_log :: event_log
  sy_given :: "int list"

datatype 'p log_event =
    Append 'p append_event
  | Batch 'p "append_event list"
  | Compact prepared "string option"
  | Rotate
  | Forget 'p

definition reserved_numbers :: "append_event list \<Rightarrow> log_env \<Rightarrow> log_process \<times> event_log \<Rightarrow> int list" where
  "reserved_numbers queue env s =
     (if queue = [] \<or> ap_seq (hd queue) \<noteq> None then []
      else given_numbers queue (batch_seqs (fst (reserveSequence env (length queue) s)) queue))"

fun log_step :: "log_env \<Rightarrow> 'p log_event \<Rightarrow> 'p log_system \<Rightarrow> 'p log_system option" where
  "log_step env (Append q e) s =
     (case appendEventInsideLock env e (sy_procs s q, sy_log s) of
        (ev, p, l) \<Rightarrow> Some \<lparr> sy_procs = (sy_procs s)(q := p), sy_log = l,
          sy_given = sy_given s @ (if ap_seq e = None then [the (te_seq ev)] else []) \<rparr>)"
| "log_step env (Batch q es) s =
     (case appendEventBatchInsideLock env es (sy_procs s q, sy_log s) of
        (evs, p, l) \<Rightarrow> Some \<lparr> sy_procs = (sy_procs s)(q := p), sy_log = l,
          sy_given = sy_given s @ reserved_numbers es env (sy_procs s q, make_room env (sy_log s)) \<rparr>)"
| "log_step env (Compact c f) s = Some (s\<lparr>sy_log := applyCompaction env c f (sy_log s)\<rparr>)"
| "log_step env Rotate s = Some (s\<lparr>sy_log := rotateEventLog env (sy_log s)\<rparr>)"
| "log_step env (Forget q) s = Some (s\<lparr>sy_procs := (sy_procs s)(q := \<lparr> lp_counter = None, lp_appends = 0 \<rparr>)\<rparr>)"

definition numbers_ok :: "'p log_system \<Rightarrow> bool" where
  "numbers_ok s \<longleftrightarrow> distinct (sy_given s) \<and> (\<forall>n\<in>set (sy_given s). seq_covers n (sy_log s))"

lemma append_seq:
  assumes "appendEventInsideLock env e (p, l) = (ev, p', l')" and "le_persists env"
  shows "seq_covers n l \<Longrightarrow> seq_covers n l'"
    "ap_seq e = None \<Longrightarrow> seq_covers n l \<Longrightarrow> n < the (te_seq ev)"
    "ap_seq e = None \<Longrightarrow> seq_covers (the (te_seq ev)) l'"
proof -
  show "seq_covers n l \<Longrightarrow> seq_covers n l'"
    using assms reserve_result(3) [of env 1 "(p, l)"]
    by (cases "ap_seq e")
      (auto simp: appendEventInsideLock_def Let_def seq_covers_monotonic split: prod.splits if_splits)
  show "ap_seq e = None \<Longrightarrow> seq_covers n l \<Longrightarrow> n < the (te_seq ev)"
    using assms reserve_result(1) [of env 1 "(p, l)"]
    by (auto simp: appendEventInsideLock_def Let_def full_event_def split: prod.splits if_splits)
  show "ap_seq e = None \<Longrightarrow> seq_covers (the (te_seq ev)) l'"
    using assms reserve_result(2) [of env 1 "(p, l)"]
    by (auto simp: appendEventInsideLock_def Let_def full_event_def seq_covers_def split: prod.splits if_splits)
qed

lemma tick_counter [simp]: "lp_counter (snd (tickAppendCounter k p)) = lp_counter p"
  by (simp add: tickAppendCounter_def Let_def)

lemma reserve_counter: "lp_counter p = lp_counter p' \<Longrightarrow>
   fst (reserveSequence env c (p, l)) = fst (reserveSequence env c (p', l))"
  by (simp add: reserveSequence_def Let_def)

lemma batch_seq:
  assumes "appendEventBatchInsideLock env es (p, l) = (evs, p', l')" and "le_persists env"
  shows "seq_covers n l \<Longrightarrow> seq_covers n l'"
    "x \<in> set (reserved_numbers es env (p, make_room env l)) \<Longrightarrow> seq_covers n l \<Longrightarrow> n < x"
    "x \<in> set (reserved_numbers es env (p, make_room env l)) \<Longrightarrow> seq_covers x l'"
    "distinct (reserved_numbers es env (p, make_room env l))"
proof -
  let ?p0 = "snd (tickAppendCounter (length es) p)"
  obtain start pr lr where R: "reserveSequence env (length es) (?p0, make_room env l) = (start, pr, lr)"
    by (metis prod_cases3)
  note rr = reserve_result [OF R \<open>le_persists env\<close>]
  have start: "fst (reserveSequence env (length es) (p, make_room env l)) = start"
    using reserve_counter [of ?p0 p env "length es" "make_room env l"] R by simp
  show cov: "seq_covers n l \<Longrightarrow> seq_covers n l'" for n
    using assms(1) rr(3) [of n] R
    by (cases "es = []"; cases "ap_seq (hd es)")
      (auto simp: appendEventBatchInsideLock_def Let_def seq_covers_monotonic split: prod.splits if_splits)
  show "distinct (reserved_numbers es env (p, make_room env l))"
    by (simp add: reserved_numbers_def start batch_numbers distinct_map inj_on_def)
  assume x: "x \<in> set (reserved_numbers es env (p, make_room env l))"
  then have es: "es \<noteq> []" "ap_seq (hd es) = None" by (auto simp: reserved_numbers_def split: if_splits)
  have len: "i < length es" if "i < length (filter (\<lambda>e. ap_seq e = None) es)" for i
    using that length_filter_le [of "\<lambda>e. ap_seq e = None" es] by linarith
  have x': "start \<le> x" "x \<le> start + int (length es) - 1"
    using x len by (auto simp: reserved_numbers_def start batch_numbers split: if_splits)
  show "n < x" if "seq_covers n l" using rr(1) [of n] that x'(1) by simp
  have "seq_covers x lr" using rr(2) x'(2) by (simp add: seq_covers_def)
  then show "seq_covers x l'"
    using assms(1) R es by (auto simp: appendEventBatchInsideLock_def Let_def seq_covers_monotonic split: prod.splits if_splits)
qed

lemma numbers_step: "le_persists env \<Longrightarrow> numbers_ok s \<Longrightarrow> log_step env ev s = Some s' \<Longrightarrow> numbers_ok s'"
proof (cases ev)
  case (Append q e)
  assume A: "le_persists env" "numbers_ok s" "log_step env ev s = Some s'"
  obtain t p l where S: "appendEventInsideLock env e (sy_procs s q, sy_log s) = (t, p, l)" by (metis prod_cases3)
  note f = append_seq [OF S A(1)]
  show ?thesis using A(2,3) f unfolding Append by (fastforce simp: S numbers_ok_def)
next
  case (Batch q es)
  assume A: "le_persists env" "numbers_ok s" "log_step env ev s = Some s'"
  obtain t p l where S: "appendEventBatchInsideLock env es (sy_procs s q, sy_log s) = (t, p, l)" by (metis prod_cases3)
  note f = batch_seq [OF S A(1)]
  show ?thesis using A(2,3) f unfolding Batch by (fastforce simp: S numbers_ok_def)
qed (auto simp: numbers_ok_def)

lemma events_within_const: "P \<Longrightarrow> events_within step (\<lambda>_ _. P) es s"
  by (induction es arbitrary: s) (auto split: option.splits)

interpretation numbers: machine_invariant "log_step env" "\<lambda>_ _. le_persists env" numbers_ok for env
  by unfold_locales (rule numbers_step)

text \<open>
  C30. No two events are given the same sequence number, whichever processes append, in batches or one by one,
  with numbers of their own or without, compact, rotate and forget their counters, and in whichever order, as long
  as the writes of the stored number succeed. The events of a batch that begins with an event that has its own number
  are not counted: they are numbered on from it.
\<close>

theorem sequence_given_once:
  assumes "le_persists env" and "run_events (log_step env) evs \<lparr> sy_procs = procs, sy_log = l, sy_given = [] \<rparr> = Some s"
  shows "distinct (sy_given s)"
  using numbers.ok_run [where env = env, OF _ _ assms(2)] assms(1)
  by (simp add: numbers_ok_def events_within_const)
subsection \<open>The events of a file\<close>

definition prints :: "log_env \<Rightarrow> team_event \<Rightarrow> bool" where
  "prints env e \<longleftrightarrow> line_value (le_parse env) (le_stringify env e) = Some e \<and> nl \<notin> set (le_stringify env e)"

lemma map_fst_track [simp]: "map fst (track pos i ls) = ls"
  by (induction ls arbitrary: pos i) simp_all

lemma split_complete: "proper ls \<Longrightarrow> split_lines pos i (lines_bytes ls) = (track pos i ls, [])"
  using split_lines_eq [of ls "[]" pos i] by simp

lemma file_lines_bytes: "proper ls \<Longrightarrow> file_lines (lines_bytes ls) = ls"
  by (simp add: file_lines_def split_complete)

lemma print_events_simps [simp]:
  "print_events env [] = []" "print_events env (es @ fs) = print_events env es @ print_events env fs"
  by (simp_all add: print_events_def)

lemma proper_print: "list_all (prints env) es \<Longrightarrow> proper (map (le_stringify env) es)"
  by (auto simp: proper_def list_all_iff prints_def)

lemma map_filter_total: "(\<And>x. x \<in> set xs \<Longrightarrow> f (g x) = Some x) \<Longrightarrow> List.map_filter f (map g xs) = xs"
  by (induction xs) (simp_all add: map_filter_simps)

lemma file_events_print [simp]: "list_all (prints env) es \<Longrightarrow> file_events env (print_events env es) = es"
  using proper_print [of env es]
  by (auto simp: file_events_def print_events_def file_lines_bytes prints_def list_all_iff intro: map_filter_total)

text \<open>When no character lies across two chunks, the stream has the events of the file.\<close>

lemma streamed_print:
  assumes "list_all (prints env) es" and "whole_chunks (print_events env es)"
  shows "streamed_events env (print_events env es) = es"
proof -
  let ?ls = "map (le_stringify env) es"
  have "streamed_lines (print_events env es) = filter (\<lambda>l. l \<noteq> []) (?ls @ [[]])"
    using streamed_whole [of ?ls "[]"] assms(2) proper_print [OF assms(1)] by (simp add: print_events_def)
  moreover have "filter (\<lambda>l. l \<noteq> []) ?ls = ?ls"
    using assms(1) by (auto simp: filter_id_conv list_all_iff prints_def line_value_def js_trim_def)
  ultimately show ?thesis
    using assms(1) by (auto simp: streamed_events_def prints_def list_all_iff intro: map_filter_total)
qed

lemma length_last_n [simp]: "length (last_n n xs) = min n (length xs)"
  by (auto simp: last_n_def min_def)

lemma list_all_last_n [simp]: "list_all P xs \<Longrightarrow> list_all P (last_n n xs)"
  by (auto simp: last_n_def list_all_iff dest: in_set_dropD)

lemma readTailSince_print:
  assumes "list_all (prints env) fs"
  shows "readTailSince (Some (print_events env es @ print_events env fs)) (length (print_events env es)) = Some (print_events env fs)"
  using split_complete [OF proper_print [OF assms], of 0 0] by (simp add: readTailSince_def print_events_def)

lemma compaction_core:
  assumes "list_all (prints env) (es @ mid @ new)" and "COMPACT_TO_COUNT < length (es @ mid)" and "le_rewrites env"
    and "whole_chunks (print_events env (es @ mid))"
    and "whole_chunks (print_events env (last_n COMPACT_TO_COUNT (es @ mid) @ mid @ new))"
    and "prepareCompaction env (length (print_events env es)) (Some (print_events env (es @ mid))) = Some c"
    and "l' = applyCompaction env c (Some (print_events env (es @ mid @ new))) (l\<lparr>el_file := Some (print_events env (es @ mid @ new @ lost))\<rparr>)"
  shows "file_events env (the (el_file l')) = last_n COMPACT_TO_COUNT (es @ mid) @ mid @ new \<and>
    el_generation l' = el_generation l + 1 \<and> el_archives l' = el_archives l"
proof -
  let ?kept = "last_n COMPACT_TO_COUNT (es @ mid)"
  have c: "pc_kept c = ?kept" "pc_originalSize c = length (print_events env es)"
    using assms(2,6) streamed_print [OF _ assms(4)] assms(1)
    by (auto simp del: print_events_simps simp: prepareCompaction_def Let_def split: if_splits)
  have tail: "readTailSince (Some (print_events env (es @ mid @ new))) (pc_originalSize c) = Some (print_events env (mid @ new))"
    using assms(1) readTailSince_print [of env "mid @ new" es] by (simp add: c)
  have all: "list_all (prints env) (?kept @ mid @ new)" using assms(1) by simp
  have after: "file_events env (print_events env ?kept @ print_events env (mid @ new)) = ?kept @ mid @ new"
    using file_events_print [OF all] by simp
  have streamed: "streamed_events env (print_events env ?kept @ print_events env (mid @ new)) = ?kept @ mid @ new"
    using streamed_print [OF all assms(5)] by simp
  show ?thesis
    by (simp only: assms(7) applyCompaction_def tail c(1) option.case streamed Let_def assms(3))
      (use after in \<open>simp add: bumpGeneration_def\<close>)
qed


text \<open>
  C31. A compaction of a log of more than 1000 events that reads the events \<open>es\<close> keeps the last 1000 of them, as they
  were, and after them the events that the tail brings, and starts a new generation, provided the rewriting succeeds and
  no character lies across two chunks of 8192 bytes in the log that is read and in the one that is written. That
  condition, \<open>whole_chunks\<close>, holds for every log of ASCII (\<open>ascii_whole\<close>); without it the compaction reads and writes
  back damaged characters (\<open>character_across_chunks_lost\<close>). Exactly, with \<open>mid\<close> the events that were appended between
  taking the size and reading, \<open>new\<close> those appended between the reading and the tail, and \<open>lost\<close> those appended by a
  writer of the other lock family between the tail and the rewriting: the first are in the log twice afterwards, the
  second once, and the third are gone.
\<close>

theorem compaction_result:
  assumes "list_all (prints env) (es @ mid @ new)" and "COMPACT_TO_COUNT < length (es @ mid)" and "le_rewrites env"
    and "whole_chunks (print_events env (es @ mid))"
    and "whole_chunks (print_events env (last_n COMPACT_TO_COUNT (es @ mid) @ mid @ new))"
    and "prepareCompaction env (length (print_events env es)) (Some (print_events env (es @ mid))) = Some c"
    and "l' = applyCompaction env c (Some (print_events env (es @ mid @ new))) (l\<lparr>el_file := Some (print_events env (es @ mid @ new @ lost))\<rparr>)"
  shows "file_events env (the (el_file l')) = last_n COMPACT_TO_COUNT (es @ mid) @ mid @ new \<and>
    el_generation l' = el_generation l + 1 \<and> el_archives l' = el_archives l"
  using assms by (rule compaction_core)

subsection \<open>What an append leaves in the file\<close>

lemma el_file_simps [simp]:
  "el_file (persistSequence env n l) = el_file l" "el_file (persistSequenceMonotonic env n p l) = el_file l"
  "el_file (append_text t l) = Some (nullish (el_file l) [] @ t)" "file_size (l\<lparr>el_seqFile := x\<rparr>) = file_size l"
  by (simp_all add: persistSequence_def persistSequenceMonotonic_def append_text_def file_size_def Let_def)

lemma reserve_file: "reserveSequence env c s = (n, p, l) \<Longrightarrow> el_file l = el_file (snd s)"
  by (auto simp: reserveSequence_def Let_def split: prod.splits)

lemma compact_file: "el_file l = el_file l' \<Longrightarrow> el_file (compactEventLog env l) = el_file (compactEventLog env l')"
  by (auto simp: compactEventLog_def applyCompaction_def bumpGeneration_def file_size_def Let_def split: option.splits)

lemma compact_some: "el_file l = Some f \<Longrightarrow> \<exists>f. el_file (compactEventLog env l) = Some f"
  by (auto simp: compactEventLog_def applyCompaction_def bumpGeneration_def Let_def split: option.splits)

lemma compact_printed:
  assumes "list_all (prints env) es" and "el_file l = Some (print_events env es)"
    and "whole_chunks (print_events env es)" and "whole_chunks (print_events env (last_n COMPACT_TO_COUNT es))"
  shows "file_events env (the (el_file (compactEventLog env l))) \<in> {es, last_n COMPACT_TO_COUNT es}"
proof (cases "prepareCompaction env (file_size l) (el_file l)")
  case None
  then show ?thesis using assms by (simp add: compactEventLog_def)
next
  case (Some c)
  have long: "COMPACT_TO_COUNT < length es"
    using Some assms streamed_print [of env es] by (auto simp: prepareCompaction_def Let_def split: if_splits)
  have same: "l\<lparr>el_file := Some (print_events env es)\<rparr> = l" using assms(2) by (cases l) simp
  show ?thesis
  proof (cases "le_rewrites env")
    case True
    show ?thesis
      using compaction_core [of env es "[]" "[]" c _ "[]" l] True Some assms long same
      by (simp add: compactEventLog_def file_size_def)
  next
    case False
    then show ?thesis using Some assms
      by (simp add: compactEventLog_def applyCompaction_def split: option.split)
  qed
qed


text \<open>The append after its number is known.\<close>

lemma append_cases:
  assumes "appendEventInsideLock env e (p, l) = (ev, p', l')"
  obtains n l0 l1 where "el_file l0 = el_file l" "l1 = (if ap_type e \<notin> TERMINAL_EVENT_TYPES then make_room env l0 else l0)"
    "ev = (full_event env n e)\<lparr>te_skippedDueToSize := MAX_EVENTS_BYTES < file_size l1\<rparr>"
    "let t = (if MAX_EVENTS_BYTES < file_size l1 then el_file l1
       else Some (nullish (el_file l1) [] @ print_events env [le_redact env (full_event env n e)]))
     in el_file l' = t \<or> el_file l' = el_file (compactEventLog env (l\<lparr>el_file := t\<rparr>))"
proof -
  obtain n p0 l0 where S: "(case ap_seq e of Some n \<Rightarrow> (n, advanceSequenceCounter n (fst (p, l)), snd (p, l)) | None \<Rightarrow> reserveSequence env 1 (p, l)) = (n, p0, l0)"
    by (rule prod_cases3)
  have f: "el_file l0 = el_file l" using S by (cases "ap_seq e") (auto dest: reserve_file)
  define l1 where "l1 = (if ap_type e \<notin> TERMINAL_EVENT_TYPES then make_room env l0 else l0)"
  define t where "t = (if MAX_EVENTS_BYTES < file_size l1 then el_file l1
     else Some (nullish (el_file l1) [] @ print_events env [le_redact env (full_event env n e)]))"
  define l2 where "l2 = (if MAX_EVENTS_BYTES < file_size l1 then l1
     else let l' = append_text (print_events env [le_redact env (full_event env n e)]) l1
          in if ap_seq e \<noteq> None then persistSequenceMonotonic env n p0 l' else l')"
  have l2: "el_file l2 = t" by (simp add: l2_def t_def Let_def)
  have "appendEventInsideLock env e (p, l) = (case tickAppendCounter 1 p0 of (crossed, p2) \<Rightarrow>
     ((full_event env n e)\<lparr>te_skippedDueToSize := MAX_EVENTS_BYTES < file_size l1\<rparr>, p2,
      if crossed \<and> needsRotation l2 then compactEventLog env l2 else l2))"
    unfolding appendEventInsideLock_def S prod.case Let_def l2_def l1_def by (rule refl)
  then have ev: "ev = (full_event env n e)\<lparr>te_skippedDueToSize := MAX_EVENTS_BYTES < file_size l1\<rparr>"
    and "l' \<in> {l2, compactEventLog env l2}"
    using assms by (auto split: prod.splits)
  moreover have "el_file (compactEventLog env l2) = el_file (compactEventLog env (l\<lparr>el_file := t\<rparr>))"
    using l2 by (intro compact_file) simp
  ultimately show ?thesis using that [OF f l1_def ev] l2 by (auto simp: t_def Let_def)
qed

lemma rotated_size: "le_rotates env \<Longrightarrow> file_size (rotateEventLog env l) = 0"
  by (auto simp: rotateEventLog_def bumpGeneration_def file_size_def split: option.split)

lemma room_made: "le_rotates env \<Longrightarrow> file_size (make_room env l) \<le> MAX_EVENTS_BYTES"
  by (simp add: make_room_def Let_def rotated_size)

text \<open>
  C32. A terminal event is not written when the live file has passed 50 MB: the append skips it and the file keeps its
  bytes, but for the compaction of every hundredth append. An event of any other type, in the same state, is not
  skipped while a rotation works.
\<close>

theorem terminal_event_dropped:
  assumes "ap_type e \<in> TERMINAL_EVENT_TYPES" and "ap_type e2 \<notin> TERMINAL_EVENT_TYPES" and "le_rotates env"
    and "MAX_EVENTS_BYTES < file_size l"
    and "appendEventInsideLock env e (p, l) = (ev, p1, l1)" and "appendEventInsideLock env e2 (p, l) = (ev2, p2, l2)"
  shows "te_skippedDueToSize ev \<and> el_file l1 \<in> {el_file l, el_file (compactEventLog env l)} \<and> \<not> te_skippedDueToSize ev2"
proof -
  have 1: "te_skippedDueToSize ev \<and> el_file l1 \<in> {el_file l, el_file (compactEventLog env l)}"
  proof (rule append_cases [OF assms(5)])
    fix n l0 l1'
    assume a: "el_file l0 = el_file l" "l1' = (if ap_type e \<notin> TERMINAL_EVENT_TYPES then make_room env l0 else l0)"
      "ev = (full_event env n e)\<lparr>te_skippedDueToSize := MAX_EVENTS_BYTES < file_size l1'\<rparr>"
      "let t = if MAX_EVENTS_BYTES < file_size l1' then el_file l1'
         else Some (nullish (el_file l1') [] @ print_events env [le_redact env (full_event env n e)])
       in el_file l1 = t \<or> el_file l1 = el_file (compactEventLog env (l\<lparr>el_file := t\<rparr>))"
    have "MAX_EVENTS_BYTES < file_size l1'" using a(1,2) assms(1,4) by (simp add: file_size_def)
    moreover have "el_file (compactEventLog env (l\<lparr>el_file := el_file l\<rparr>)) = el_file (compactEventLog env l)" by (rule compact_file) simp
    ultimately show ?thesis using a assms(1) by auto
  qed
  have 2: "\<not> te_skippedDueToSize ev2"
    by (rule append_cases [OF assms(6)]) (use assms(2,3) room_made in \<open>simp add: not_less\<close>)
  show ?thesis using 1 2 by simp
qed

text \<open>
  An append to a log of at most 50 MB, no character of which lies across two chunks, is not skipped and leaves the event, redacted, as the last of the file,
  after the events that were there or, when it is time to compact, after the last 999 of them.
\<close>

theorem append_persists:
  assumes "list_all (prints env) (es @ [le_redact env ev])" and "nullish (el_file l) [] = print_events env es"
    and "file_size l \<le> MAX_EVENTS_BYTES" and "appendEventInsideLock env e (p, l) = (ev, p', l')"
    and "whole_chunks (print_events env (es @ [le_redact env ev]))"
    and "whole_chunks (print_events env (last_n COMPACT_TO_COUNT (es @ [le_redact env ev])))"
  shows "\<not> te_skippedDueToSize ev \<and>
    file_events env (nullish (el_file l') []) \<in> {es @ [le_redact env ev], last_n COMPACT_TO_COUNT (es @ [le_redact env ev])}"
proof (rule append_cases [OF assms(4)])
  fix n l0 l1
  assume a: "el_file l0 = el_file l" "l1 = (if ap_type e \<notin> TERMINAL_EVENT_TYPES then make_room env l0 else l0)"
    "ev = (full_event env n e)\<lparr>te_skippedDueToSize := MAX_EVENTS_BYTES < file_size l1\<rparr>"
    "let t = if MAX_EVENTS_BYTES < file_size l1 then el_file l1
       else Some (nullish (el_file l1) [] @ print_events env [le_redact env (full_event env n e)])
     in el_file l' = t \<or> el_file l' = el_file (compactEventLog env (l\<lparr>el_file := t\<rparr>))"
  have l1: "el_file l1 = el_file l" "\<not> MAX_EVENTS_BYTES < file_size l1"
    using a(1,2) assms(3) by (auto simp: make_room_def file_size_def)
  have ev: "ev = full_event env n e" using a(3) l1(2) by (simp add: full_event_def)
  let ?t = "print_events env (es @ [le_redact env ev])"
  have "el_file l' = Some ?t \<or> el_file l' = el_file (compactEventLog env (l\<lparr>el_file := Some ?t\<rparr>))"
    using a(4) l1 ev assms(2) by (simp add: Let_def)
  then obtain f where "el_file l' = Some f" "file_events env f \<in> {es @ [le_redact env ev], last_n COMPACT_TO_COUNT (es @ [le_redact env ev])}"
    using compact_printed [OF assms(1) _ assms(5,6), of "l\<lparr>el_file := Some ?t\<rparr>"] file_events_print [OF assms(1)]
      compact_some [of "l\<lparr>el_file := Some ?t\<rparr>" ?t env]
    by (auto simp del: print_events_simps)
  then show ?thesis using a(3) l1(2) by simp
qed

text \<open>
  A batch that begins with an event that has its own number gives the next event without one the same number,
  so two events of the log have it.
\<close>

theorem batch_repeats_number:
  assumes "ap_seq e = Some n" and "ap_seq e2 = None" and "file_size (make_room env l) \<le> MAX_EVENTS_BYTES"
  shows "case appendEventBatchInsideLock env (e # e2 # queue) (p, l) of (r, p', l') \<Rightarrow>
     map te_seq (take 2 (the r)) = [Some n, Some n] \<and>
     el_file l' = Some (nullish (el_file (make_room env l)) [] @ print_events env (map (le_redact env) (the r)))"
  using assms by (simp add: appendEventBatchInsideLock_def Let_def full_event_def)


subsection \<open>Witnesses\<close>

text \<open>An environment that knows one event, and writes it as one letter.\<close>

definition one_event :: team_event where
  "one_event = \<lparr> te_time = ''t'', te_type = ''task.started'', te_runId = ''r'', te_taskId = None, te_message = None,
     te_data = None, te_seq = Some 1, te_fingerprint = None, te_skippedDueToSize = False \<rparr>"

definition one_env :: log_env where
  "one_env = \<lparr> le_parse = (\<lambda>_. Some one_event), le_stringify = (\<lambda>_. ''x''), le_redact = (\<lambda>_. one_event), le_hash = (\<lambda>_. ''h''),
     le_now = ''t'', le_persists = True, le_rewrites = True, le_rotates = True \<rparr>"

definition event_of :: "string \<Rightarrow> int option \<Rightarrow> append_event" where
  "event_of ty n = \<lparr> ap_type = ty, ap_runId = ''r'', ap_taskId = None, ap_message = None, ap_data = None, ap_seq = n,
     ap_fingerprint = None \<rparr>"

definition log_of :: "string option \<Rightarrow> event_log" where
  "log_of f = \<lparr> el_file = f, el_archives = [], el_generation = 0, el_seqFile = None \<rparr>"

definition new_process :: log_process where "new_process = \<lparr> lp_counter = None, lp_appends = 0 \<rparr>"

lemma one_prints [simp]: "prints one_env one_event"
  by code_simp

lemma one_whole: "whole_chunks (print_events one_env es)"
proof (rule ascii_whole)
  show "list_all (\<lambda>c. of_char c < (128::nat)) (print_events one_env es)"
    by (induction es) (auto simp: print_events_def one_env_def nl_def)
qed

theorem sequence_given_once_witness:
  "\<exists>s. run_events (log_step one_env)
     [Append (0::nat) (event_of ''a'' None), Append 1 (event_of ''b'' (Some 7)), Forget 0,
      Batch 0 [event_of ''c'' None, event_of ''d'' (Some 3), event_of ''e'' None], Append 1 (event_of ''f'' None)]
     \<lparr> sy_procs = \<lambda>_. new_process, sy_log = log_of None, sy_given = [] \<rparr> = Some s \<and>
     sy_given s = [1, 8, 9, 11] \<and> distinct (sy_given s)"
proof -
  let ?r = "run_events (log_step one_env)
     [Append (0::nat) (event_of ''a'' None), Append 1 (event_of ''b'' (Some 7)), Forget 0,
      Batch 0 [event_of ''c'' None, event_of ''d'' (Some 3), event_of ''e'' None], Append 1 (event_of ''f'' None)]
     \<lparr> sy_procs = \<lambda>_. new_process, sy_log = log_of None, sy_given = [] \<rparr>"
  have g: "map_option sy_given ?r = Some [1, 8, 9, 11]" by code_simp
  then obtain s where s: "?r = Some s" "sy_given s = [1, 8, 9, 11]" by auto
  have "le_persists one_env" by code_simp
  from sequence_given_once [OF this s(1)] s show ?thesis by blast
qed

theorem terminal_event_dropped_witness:
  "te_skippedDueToSize (fst (appendEventInsideLock one_env (event_of ''run.completed'' None)
     (new_process, log_of (Some (replicate 52428801 CHR ''x'')))))"
proof -
  let ?s = "(new_process, log_of (Some (replicate 52428801 CHR ''x'')))"
  obtain ev p1 l1 where 1: "appendEventInsideLock one_env (event_of ''run.completed'' None) ?s = (ev, p1, l1)" by (rule prod_cases3)
  obtain ev2 p2 l2 where 2: "appendEventInsideLock one_env (event_of ''a'' None) ?s = (ev2, p2, l2)" by (rule prod_cases3)
  have "MAX_EVENTS_BYTES < file_size (snd ?s)"
    by (simp add: MAX_EVENTS_BYTES_def file_size_def log_of_def)
  then have "te_skippedDueToSize ev"
    using terminal_event_dropped [OF _ _ _ _ 1 2]
    by (simp add: TERMINAL_EVENT_TYPES_def event_of_def one_env_def)
  then show ?thesis using 1 by simp
qed

theorem append_persists_witness:
  "\<exists>ev p' l'. appendEventInsideLock one_env (event_of ''a'' None) (new_process, log_of (Some ''x\<newline>'')) = (ev, p', l') \<and>
     file_events one_env (nullish (el_file l') []) \<in>
       {[one_event] @ [le_redact one_env ev], last_n COMPACT_TO_COUNT ([one_event] @ [le_redact one_env ev])}"
proof -
  obtain ev p' l' where 1: "appendEventInsideLock one_env (event_of ''a'' None) (new_process, log_of (Some ''x\<newline>'')) = (ev, p', l')"
    by (rule prod_cases3)
  have red: "le_redact one_env ev = one_event" by (simp add: one_env_def)
  have f: "nullish (el_file (log_of (Some ''x\<newline>''))) [] = print_events one_env [one_event]" by code_simp
  have size: "file_size (log_of (Some ''x\<newline>'')) \<le> MAX_EVENTS_BYTES"
    by (simp add: file_size_def log_of_def MAX_EVENTS_BYTES_def)
  show ?thesis using append_persists [OF _ f size 1 one_whole one_whole] 1 red by auto
qed

theorem batch_repeats_number_witness:
  "case appendEventBatchInsideLock one_env [event_of ''a'' (Some 4), event_of ''b'' None] (new_process, log_of None) of
     (r, p', l') \<Rightarrow> map te_seq (take 2 (the r)) = [Some 4, Some 4]"
  using batch_repeats_number [of "event_of ''a'' (Some 4)" 4 "event_of ''b'' None" one_env "log_of None" "[]" new_process]
  by (simp add: event_of_def make_room_def file_size_def log_of_def split: prod.splits)

theorem compaction_result_witness:
  "\<exists>c. prepareCompaction one_env (length (print_events one_env (replicate 1000 one_event)))
       (Some (print_events one_env (replicate 1000 one_event @ [one_event]))) = Some c \<and>
     length (file_events one_env (the (el_file (applyCompaction one_env c
       (Some (print_events one_env (replicate 1000 one_event @ [one_event] @ [one_event])))
       ((log_of None)\<lparr>el_file := Some (print_events one_env (replicate 1000 one_event @ [one_event] @ [one_event] @ [one_event]))\<rparr>))))) = 1002"
proof -
  let ?es = "replicate 1000 one_event"
  have all: "list_all (prints one_env) (?es @ [one_event] @ [one_event])" by (simp add: list_all_iff)
  have "streamed_events one_env (print_events one_env (?es @ [one_event])) = ?es @ [one_event]"
    using all by (intro streamed_print one_whole) simp
  then obtain c where c: "prepareCompaction one_env (length (print_events one_env ?es)) (Some (print_events one_env (?es @ [one_event]))) = Some c"
    by (simp add: prepareCompaction_def Let_def COMPACT_TO_COUNT_def del: print_events_simps replicate.simps)
  have "COMPACT_TO_COUNT < length (?es @ [one_event])" "le_rewrites one_env" by (simp_all add: COMPACT_TO_COUNT_def one_env_def)
  from compaction_result [OF all this one_whole one_whole c refl, of "[one_event]" "log_of None"] c show ?thesis
    by (intro exI [of _ c]) (simp add: COMPACT_TO_COUNT_def del: print_events_simps)
qed

end
