(* ===== verification/EventCursor.thy ===== *)
theory EventCursor
  imports EventLog "HOL-Library.Multiset"
begin

text \<open>
  Reading the event log, \<open>src/src/state/event-log/cursor.ts\<close>: the full history, the tail window, reads from a byte
  offset and the cache of the verified tail; and the request \<open>events.since\<close> of
  \<open>src/src/runtime/broker/protocol/events-replay.ts\<close>. A read sees one state of the files; the file that a reader puts
  aside is gone from the directory. Sequence numbers are integers.
\<close>

subsection \<open>Files and outcomes\<close>

record events_file =
  ef_bytes :: string
  ef_sidecar :: sidecar

text \<open>
  The live file with its side file and its stamps, the archives from the oldest, and the generation. The inode names
  the file that the path stands for.
\<close>

record events_dir =
  ed_live :: "string option"
  ed_sidecar :: sidecar
  ed_ino :: nat
  ed_mtime :: nat
  ed_archives :: "events_file list"
  ed_generation :: nat

text \<open>\<open>JSON.parse\<close>, the reason of a failure at an offset, and the clock.\<close>

record read_env =
  re_parse :: "string \<Rightarrow> team_event option"
  re_reason :: "nat \<Rightarrow> string"
  re_now :: string

record read_outcome =
  ro_events :: "team_event list"
  ro_tornTail :: bool
  ro_poisonSkipped :: nat
  ro_parseFailures :: nat
  ro_quarantined :: bool

definition emptyEventsFileReadOutcome :: read_outcome where
  "emptyEventsFileReadOutcome = \<lparr> ro_events = [], ro_tornTail = False, ro_poisonSkipped = 0, ro_parseFailures = 0,
     ro_quarantined = False \<rparr>"

definition countCompleteLines :: "string \<Rightarrow> nat" where
  "countCompleteLines bytes = length (filter (\<lambda>c. c = nl) bytes)"

definition seq_of :: "team_event \<Rightarrow> int" where
  "seq_of e = nullish (te_seq e) 0"

definition with_reasons :: "read_env \<Rightarrow> (nat \<times> 'i) list \<Rightarrow> ('i \<Rightarrow> int) \<Rightarrow> (nat \<times> int \<times> string) list" where
  "with_reasons re fs index = map (\<lambda>(pos, i). (pos, index i, re_reason re pos)) fs"

text \<open>The outcome and the side file afterwards.\<close>

definition parseJsonlEventsWithIntegrity :: "read_env \<Rightarrow> events_file \<Rightarrow> read_outcome \<times> sidecar" where
  "parseJsonlEventsWithIntegrity re f =
     (let buf = ef_bytes f; lineCount = Some (countCompleteLines buf);
          p = parseJsonlWindow (re_parse re) (fst (planPoisonSkip (ef_sidecar f) (length buf) lineCount)) 0 buf
      in case commitPoisonFindings (re_now re) (ef_sidecar f) (length buf) lineCount
                (with_reasons re (jw_failures p) int) (jw_staleMarkers p) of
           (quarantined, sc) \<Rightarrow>
             (if quarantined
              then emptyEventsFileReadOutcome\<lparr>ro_parseFailures := length (jw_failures p), ro_quarantined := True\<rparr>
              else \<lparr> ro_events = map fst (jw_items p), ro_tornTail = jw_tornTail p, ro_poisonSkipped = jw_poisonSkipped p,
                     ro_parseFailures = length (jw_failures p), ro_quarantined = False \<rparr>, sc))"

definition readEventsFileTailWithIntegrity :: "read_env \<Rightarrow> nat \<Rightarrow> events_file \<Rightarrow> read_outcome \<times> bool \<times> sidecar" where
  "readEventsFileTailWithIntegrity re tailBytes f =
     (let buf = ef_bytes f;
          t = readJsonlTail (re_parse re) (fst (planPoisonSkip (ef_sidecar f) (length buf) None)) tailBytes (Some buf)
      in case commitPoisonFindings (re_now re) (ef_sidecar f) (length buf) None
                (with_reasons re (jt_failures t) id) (jt_staleMarkers t) of
           (quarantined, sc) \<Rightarrow>
             (if quarantined
              then emptyEventsFileReadOutcome\<lparr>ro_parseFailures := length (jt_failures t), ro_quarantined := True\<rparr>
              else \<lparr> ro_events = jt_items t, ro_tornTail = jt_tornTail t, ro_poisonSkipped = jt_poisonSkipped t,
                     ro_parseFailures = length (jt_failures t), ro_quarantined = False \<rparr>, jt_truncated t, sc))"

text \<open>Archives after reads: those put aside are gone.\<close>

definition kept_archive :: "events_file \<Rightarrow> bool \<times> sidecar \<Rightarrow> events_file list" where
  "kept_archive f r = (case r of (quarantined, sc) \<Rightarrow> if quarantined then [] else [f\<lparr>ef_sidecar := sc\<rparr>])"

definition commit_live :: "bool \<times> sidecar \<Rightarrow> events_dir \<Rightarrow> events_dir" where
  "commit_live r d =
     (case r of (quarantined, sc) \<Rightarrow>
        if quarantined then d\<lparr>ed_live := None, ed_sidecar := None, ed_generation := ed_generation d + 1\<rparr>
        else d\<lparr>ed_sidecar := sc\<rparr>)"

subsection \<open>The whole history\<close>

definition push_event :: "team_event \<Rightarrow> int set \<times> team_event list \<Rightarrow> int set \<times> team_event list" where
  "push_event e s =
     (case (te_seq e, s) of
        (Some n, (seen, out)) \<Rightarrow> if 0 < n then if n \<in> seen then s else (insert n seen, out @ [e]) else (seen, out @ [e])
      | (None, (seen, out)) \<Rightarrow> (seen, out @ [e]))"

record read_integrity =
  ri_tornTail :: bool
  ri_poisonSkipped :: nat
  ri_parseFailures :: nat
  ri_quarantined :: bool

definition absorb_outcome :: "read_outcome \<Rightarrow> read_integrity \<Rightarrow> read_integrity" where
  "absorb_outcome o1 i = \<lparr> ri_tornTail = (ri_tornTail i \<or> ro_tornTail o1), ri_poisonSkipped = ri_poisonSkipped i + ro_poisonSkipped o1,
     ri_parseFailures = ri_parseFailures i + ro_parseFailures o1, ri_quarantined = (ri_quarantined i \<or> ro_quarantined o1) \<rparr>"

definition readEventsWithIntegrity :: "read_env \<Rightarrow> events_dir \<Rightarrow> (team_event list \<times> read_integrity) \<times> events_dir" where
  "readEventsWithIntegrity re d =
     (let ars = map (\<lambda>f. (f, parseJsonlEventsWithIntegrity re f)) (ed_archives d);
          live = map_option (\<lambda>b. parseJsonlEventsWithIntegrity re \<lparr> ef_bytes = b, ef_sidecar = ed_sidecar d \<rparr>) (ed_live d);
          outcomes = map (fst \<circ> snd) ars @ (case live of None \<Rightarrow> [] | Some r \<Rightarrow> [fst r]);
          events = snd (fold push_event (concat (map ro_events outcomes)) ({}, []));
          integrity = fold absorb_outcome outcomes \<lparr> ri_tornTail = False, ri_poisonSkipped = 0, ri_parseFailures = 0, ri_quarantined = False \<rparr>;
          d' = d\<lparr>ed_archives := concat (map (\<lambda>(f, r). kept_archive f (ro_quarantined (fst r), snd r)) ars)\<rparr>
      in ((sort_key seq_of events, integrity),
          case live of None \<Rightarrow> d' | Some r \<Rightarrow> commit_live (ro_quarantined (fst r), snd r) d'))"

definition readEvents :: "read_env \<Rightarrow> events_dir \<Rightarrow> team_event list" where
  "readEvents re d = fst (fst (readEventsWithIntegrity re d))"

subsection \<open>Archive tails\<close>

definition ARCHIVE_TAIL_BYTES :: nat where "ARCHIVE_TAIL_BYTES = 4 * 1024 * 1024"
definition TAIL_BYTES :: nat where "TAIL_BYTES = 4 * 1024 * 1024"
definition TAIL_EVENT_CAP :: nat where "TAIL_EVENT_CAP = 5000"

text \<open>The first event of a number after \<open>sinceSeq\<close> stays.\<close>

definition drain_event :: "int \<Rightarrow> team_event \<Rightarrow> (int \<times> team_event) list \<Rightarrow> (int \<times> team_event) list" where
  "drain_event sinceSeq e m =
     (case te_seq e of
        None \<Rightarrow> m
      | Some n \<Rightarrow> if n \<le> sinceSeq \<or> n \<in> fst ` set m then m else m @ [(n, e)])"

definition readArchiveTailEvents :: "read_env \<Rightarrow> int \<Rightarrow> events_dir \<Rightarrow> team_event list \<times> events_dir" where
  "readArchiveTailEvents re sinceSeq d =
     (let ars = map (\<lambda>f. (f, readEventsFileTailWithIntegrity re ARCHIVE_TAIL_BYTES f)) (ed_archives d);
          bySeq = fold (drain_event sinceSeq) (concat (map (ro_events \<circ> fst \<circ> snd) ars)) []
      in (sort_key seq_of (map snd bySeq),
          d\<lparr>ed_archives := concat (map (\<lambda>(f, t, trunc, sc). kept_archive f (ro_quarantined t, sc)) ars)\<rparr>))"

text \<open>Later events of a number replace earlier ones, so the live file wins.\<close>

definition mergeArchiveTailEvents :: "team_event list \<Rightarrow> team_event list \<Rightarrow> team_event list" where
  "mergeArchiveTailEvents archiveEvents liveEvents =
     (if archiveEvents = [] then liveEvents
      else sort_key seq_of (map snd (fold (\<lambda>e. omap_set (seq_of e) e) (archiveEvents @ liveEvents) [])))"

subsection \<open>The cursor\<close>

record cursor_result =
  cu_events :: "team_event list"
  cu_nextSeq :: int
  cu_total :: nat
  cu_nextByteOffset :: "nat option"
  cu_truncated :: bool
  cu_generation :: "nat option"
  cu_tornTail :: bool
  cu_poisonSkipped :: nat
  cu_parseFailures :: nat

definition max_seq :: "int \<Rightarrow> team_event list \<Rightarrow> int" where
  "max_seq sinceSeq es = fold (\<lambda>e m. max m (seq_of e)) es sinceSeq"

definition limited :: "nat option \<Rightarrow> team_event list \<Rightarrow> team_event list" where
  "limited limit merged = (case limit of None \<Rightarrow> merged | Some k \<Rightarrow> take k (sort_key seq_of merged))"

text \<open>\<open>i\<close>: the torn tail, the marked lines skipped and the new failures of the read.\<close>

definition cursorResultFromEvents :: "read_env \<Rightarrow> team_event list \<Rightarrow> events_dir \<Rightarrow> int \<Rightarrow> nat option \<Rightarrow>
    bool \<times> nat \<times> nat \<Rightarrow> cursor_result \<times> events_dir" where
  "cursorResultFromEvents re all d sinceSeq limit i =
     (let capped = last_n TAIL_EVENT_CAP all;
          filtered = filter (\<lambda>e. sinceSeq < seq_of e) capped
      in case readArchiveTailEvents re sinceSeq d of
           (archived, d') \<Rightarrow>
             let merged = mergeArchiveTailEvents archived filtered; events = limited limit merged
             in (\<lparr> cu_events = events, cu_nextSeq = max_seq sinceSeq events, cu_total = length merged,
                   cu_nextByteOffset = None, cu_truncated = False, cu_generation = None, cu_tornTail = fst i,
                   cu_poisonSkipped = fst (snd i), cu_parseFailures = snd (snd i) \<rparr>, d'))"

subsection \<open>The cache of the verified tail\<close>

record tail_entry =
  ct_size :: nat
  ct_mtime :: nat
  ct_ino :: nat
  ct_verifiedOffset :: nat
  ct_lastSeq :: int
  ct_verified :: bool
  ct_ring :: "(team_event \<times> nat) list"
  ct_tornTail :: bool
  ct_poisonSkipped :: nat

definition evictCursorRing :: "'a list \<Rightarrow> nat \<Rightarrow> 'a list" where
  "evictCursorRing ring bound = (if bound < length ring then last_n bound ring else ring)"

text \<open>Whether the numbers are all there and never go down, from \<open>minSeq\<close> on.\<close>

fun seqs_ok :: "int option \<Rightarrow> team_event list \<Rightarrow> bool" where
  "seqs_ok low [] = True"
| "seqs_ok low (e # es) =
     (case te_seq e of
        None \<Rightarrow> False
      | Some n \<Rightarrow> (case low of None \<Rightarrow> True | Some k \<Rightarrow> k \<le> n) \<and> seqs_ok (Some n) es)"

definition last_seq :: "int \<Rightarrow> (team_event \<times> nat) list \<Rightarrow> int" where
  "last_seq dflt ls = (if ls = [] then dflt else nullish (te_seq (fst (last ls))) dflt)"

definition cursorRingProvable :: "tail_entry \<Rightarrow> (team_event \<times> nat) list \<Rightarrow> int \<Rightarrow> bool" where
  "cursorRingProvable c ring sinceSeq \<longleftrightarrow>
     (case ring of
        [] \<Rightarrow> ct_verifiedOffset c = 0 \<or> ct_verified c \<and> ct_lastSeq c \<le> sinceSeq
      | (e, pos) # _ \<Rightarrow> pos = 0 \<or> ct_verified c \<and> seq_of e \<le> sinceSeq)"

text \<open>A full parse: the entry, its lines, whether the file was put aside, and the failures.\<close>

definition rebuildCursorTailCache :: "read_env \<Rightarrow> nat \<Rightarrow> events_dir \<Rightarrow>
    (tail_entry \<times> (team_event \<times> nat) list \<times> bool \<times> nat) option \<times> events_dir" where
  "rebuildCursorTailCache re bound d =
     (case ed_live d of
        None \<Rightarrow> (None, d)
      | Some buf \<Rightarrow>
          let lineCount = Some (countCompleteLines buf);
              p = parseJsonlWindow (re_parse re) (fst (planPoisonSkip (ed_sidecar d) (length buf) lineCount)) 0 buf;
              r = commitPoisonFindings (re_now re) (ed_sidecar d) (length buf) lineCount
                    (with_reasons re (jw_failures p) int) (jw_staleMarkers p);
              entry = \<lparr> ct_size = length buf, ct_mtime = ed_mtime d, ct_ino = ed_ino d,
                ct_verifiedOffset = jw_completeBytes p, ct_lastSeq = last_seq 0 (jw_items p),
                ct_verified = seqs_ok None (map fst (jw_items p)), ct_ring = evictCursorRing (jw_items p) bound,
                ct_tornTail = jw_tornTail p, ct_poisonSkipped = jw_poisonSkipped p \<rparr>
          in (Some (entry, jw_items p, fst r, length (jw_failures p)), commit_live r d))"

definition cached_full :: "read_env \<Rightarrow> events_dir \<Rightarrow> tail_entry option \<Rightarrow> int \<Rightarrow> nat \<Rightarrow>
    cursor_result option \<times> events_dir \<times> tail_entry option" where
  "cached_full re d cache sinceSeq limit =
     (case rebuildCursorTailCache re (max TAIL_EVENT_CAP limit * 2) d of
        (None, d') \<Rightarrow> (None, d', cache)
      | (Some (c, ls, quarantined, failures), d') \<Rightarrow>
          (case cursorResultFromEvents re (if quarantined then [] else map fst ls) d' sinceSeq (Some limit)
                  (if quarantined then (False, 0, failures) else (ct_tornTail c, ct_poisonSkipped c, failures)) of
             (r, d'') \<Rightarrow> (Some r, d'', Some c)))"

definition cached_delta :: "read_env \<Rightarrow> events_dir \<Rightarrow> string \<Rightarrow> tail_entry \<Rightarrow> (team_event \<times> nat) list \<Rightarrow> int \<Rightarrow> nat \<Rightarrow>
    cursor_result option \<times> events_dir \<times> tail_entry option" where
  "cached_delta re d buf c preRing sinceSeq limit =
     (let p = parseJsonlWindow (re_parse re) (fst (planPoisonSkip (ed_sidecar d) (length buf) None))
                (ct_verifiedOffset c) (drop (ct_verifiedOffset c) buf)
      in if \<not> seqs_ok (Some (ct_lastSeq c)) (map fst (jw_items p)) then cached_full re d (Some c) sinceSeq limit
         else let r = commitPoisonFindings (re_now re) (ed_sidecar d) (length buf) None
                        (with_reasons re (jw_failures p) int) (jw_staleMarkers p);
                  d1 = commit_live r d
              in if fst r then cached_full re d1 (Some c) sinceSeq limit
                 else let ring = evictCursorRing (preRing @ jw_items p) (max TAIL_EVENT_CAP limit * 2);
                          c' = \<lparr> ct_size = length buf, ct_mtime = ed_mtime d, ct_ino = ed_ino d,
                            ct_verifiedOffset = ct_verifiedOffset c + jw_completeBytes p,
                            ct_lastSeq = last_seq (ct_lastSeq c) (jw_items p), ct_verified = ct_verified c, ct_ring = ring,
                            ct_tornTail = jw_tornTail p, ct_poisonSkipped = ct_poisonSkipped c + jw_poisonSkipped p \<rparr>
                      in if cursorRingProvable c' ring sinceSeq
                         then (case cursorResultFromEvents re (map fst ring) d1 sinceSeq (Some limit)
                                      (ct_tornTail c', ct_poisonSkipped c', length (jw_failures p)) of
                                 (res, d2) \<Rightarrow> (Some res, d2, Some c'))
                         else cached_full re d1 (Some c') sinceSeq limit)"

text \<open>The entry is of one path; \<open>None\<close> in the result: the caller takes the wide path.\<close>

definition readEventsCursorTailCached :: "read_env \<Rightarrow> events_dir \<Rightarrow> tail_entry option \<Rightarrow> int \<Rightarrow> nat \<Rightarrow>
    cursor_result option \<times> events_dir \<times> tail_entry option" where
  "readEventsCursorTailCached re d cache sinceSeq limit =
     (case ed_live d of
        None \<Rightarrow> (None, d, cache)
      | Some buf \<Rightarrow>
          (case cache of
             None \<Rightarrow> cached_full re d cache sinceSeq limit
           | Some c \<Rightarrow>
               let ring = evictCursorRing (ct_ring c) (max TAIL_EVENT_CAP limit * 2)
               in if length buf = ct_size c \<and> ed_mtime d = ct_mtime c \<and> ed_ino d = ct_ino c
                  then if cursorRingProvable c ring sinceSeq
                       then (case cursorResultFromEvents re (map fst ring) d sinceSeq (Some limit)
                                    (ct_tornTail c, ct_poisonSkipped c, 0) of
                               (r, d') \<Rightarrow> (Some r, d', Some (c\<lparr>ct_ring := ring\<rparr>)))
                       else cached_full re d cache sinceSeq limit
                  else if ct_size c < length buf \<and> ct_mtime c \<le> ed_mtime d \<and> ed_ino d = ct_ino c \<and>
                          ct_verifiedOffset c < length buf \<and> cursorRingProvable c ring sinceSeq
                  then cached_delta re d buf c ring sinceSeq limit
                  else cached_full re d cache sinceSeq limit))"

subsection \<open>One read\<close>

record cursor_options =
  co_sinceSeq :: "int option"
  co_limit :: "int option"
  co_fromByteOffset :: "int option"
  co_generation :: "int option"

definition positiveInteger :: "int option \<Rightarrow> nat option" where
  "positiveInteger v = (case v of Some n \<Rightarrow> if 0 \<le> n then Some (nat n) else None | None \<Rightarrow> None)"

definition byte_cursor :: "read_env \<Rightarrow> events_dir \<Rightarrow> cursor_options \<Rightarrow> cursor_result \<times> events_dir" where
  "byte_cursor re d opts =
     (let liveGen = ed_generation d;
          stale = (case co_generation opts of None \<Rightarrow> False | Some g \<Rightarrow> g \<noteq> int liveGen);
          sinceSeq = int (nullish (positiveInteger (co_sinceSeq opts)) 0);
          a1 = (if stale then readArchiveTailEvents re sinceSeq d else ([], d));
          requested = (if stale then 0 else nullish (positiveInteger (co_fromByteOffset opts)) 0);
          fileSize = length (nullish (ed_live d) []);
          marked = fst (planPoisonSkip (ed_sidecar d) fileSize None);
          read1 = readJsonlSince (re_parse re) marked (ed_live d) \<lparr> rd_byteOffset = requested, rd_lineCount = 0 \<rparr>;
          again = (\<not> stale \<and> jr_shrank read1);
          a2 = (if again then readArchiveTailEvents re sinceSeq d else a1);
          read = (if again then readJsonlSince (re_parse re) marked (ed_live d) \<lparr> rd_byteOffset = 0, rd_lineCount = 0 \<rparr>
                  else read1);
          r = commitPoisonFindings (re_now re) (ed_sidecar d) fileSize None (with_reasons re (jr_failures read) id)
                (jr_staleMarkers read);
          merged = mergeArchiveTailEvents (fst a2)
            (filter (\<lambda>e. sinceSeq < seq_of e) (if fst r then [] else jr_items read));
          limit = positiveInteger (co_limit opts);
          events = limited limit merged
      in (\<lparr> cu_events = events, cu_nextSeq = max_seq sinceSeq events, cu_total = length merged,
            cu_nextByteOffset = (if (case limit of None \<Rightarrow> True | Some k \<Rightarrow> length merged \<le> k)
                                 then Some (rd_byteOffset (jr_state read)) else None),
            cu_truncated = False, cu_generation = Some liveGen, cu_tornTail = (\<not> fst r \<and> jr_tornTail read),
            cu_poisonSkipped = (if fst r then 0 else jr_poisonSkipped read), cu_parseFailures = length (jr_failures read) \<rparr>,
          commit_live r (snd a2)))"

definition wide_cursor :: "read_env \<Rightarrow> events_dir \<Rightarrow> int \<Rightarrow> nat option \<Rightarrow> cursor_result \<times> events_dir" where
  "wide_cursor re d sinceSeq limit =
     (case ed_live d of
        None \<Rightarrow> cursorResultFromEvents re [] d sinceSeq limit (False, 0, 0)
      | Some buf \<Rightarrow>
          (case readEventsFileTailWithIntegrity re TAIL_BYTES \<lparr> ef_bytes = buf, ef_sidecar = ed_sidecar d \<rparr> of
             (tail, truncated, sc) \<Rightarrow>
               (case cursorResultFromEvents re (ro_events tail) (commit_live (ro_quarantined tail, sc) d) sinceSeq limit
                       (ro_tornTail tail, ro_poisonSkipped tail, ro_parseFailures tail) of
                  (r, d') \<Rightarrow> (r\<lparr>cu_truncated := truncated\<rparr>, d'))))"

definition readEventsCursor :: "read_env \<Rightarrow> cursor_options \<Rightarrow> events_dir \<times> tail_entry option \<Rightarrow>
    cursor_result \<times> events_dir \<times> tail_entry option" where
  "readEventsCursor re opts s =
     (case s of (d, cache) \<Rightarrow>
        if co_fromByteOffset opts \<noteq> None then (case byte_cursor re d opts of (r, d') \<Rightarrow> (r, d', cache))
        else let sinceSeq = int (nullish (positiveInteger (co_sinceSeq opts)) 0);
                 limit = positiveInteger (co_limit opts);
                 cached = (case limit of
                             Some k \<Rightarrow> if 0 < sinceSeq then readEventsCursorTailCached re d cache sinceSeq k else (None, d, cache)
                           | None \<Rightarrow> (None, d, cache))
             in case cached of
                  (Some r, d', cache') \<Rightarrow> (r, d', cache')
                | (None, d', _) \<Rightarrow> (case wide_cursor re d' sinceSeq limit of (r, d'') \<Rightarrow> (r, d'', None)))"

subsection \<open>The cache answers as a full parse\<close>

definition whole_log :: "read_env \<Rightarrow> string \<Rightarrow> team_event list" where
  "whole_log re buf = map fst (jw_items (parseJsonlWindow (re_parse re) {} 0 buf))"

definition same_answer :: "cursor_result \<Rightarrow> cursor_result \<Rightarrow> bool" where
  "same_answer r r' \<longleftrightarrow> cu_events r = cu_events r' \<and> cu_nextSeq r = cu_nextSeq r' \<and> cu_total r = cu_total r'"

definition parsed_answer :: "read_env \<Rightarrow> events_dir \<Rightarrow> string \<Rightarrow> int \<Rightarrow> nat \<Rightarrow> cursor_result" where
  "parsed_answer re d buf sinceSeq limit = fst (cursorResultFromEvents re (whole_log re buf) d sinceSeq (Some limit) (False, 0, 0))"

lemma last_n_append: "m \<le> length ys \<Longrightarrow> last_n m (xs @ ys) = last_n m ys"
  by (simp add: last_n_def)

lemma evict_ring:
  "\<exists>x. ring = x @ evictCursorRing ring bound \<and> (x = [] \<or> length (evictCursorRing ring bound) = bound)"
  by (auto simp: evictCursorRing_def last_n_def intro!: exI [of _ "take (length ring - bound) ring"])

lemma evict_covers:
  assumes "items = dropped @ ring" and "dropped = [] \<or> n \<le> length ring" and "n \<le> bound"
  shows "\<exists>x. items = x @ evictCursorRing ring bound \<and> (x = [] \<or> n \<le> length (evictCursorRing ring bound))"
proof -
  obtain y where "ring = y @ evictCursorRing ring bound" "y = [] \<or> length (evictCursorRing ring bound) = bound"
    using evict_ring by blast
  then show ?thesis using assms by (intro exI [of _ "dropped @ y"]) auto
qed

lemma answers_agree:
  assumes "last_n TAIL_EVENT_CAP es = last_n TAIL_EVENT_CAP fs" and "ed_archives d = ed_archives d'"
    and "cursorResultFromEvents re es d sinceSeq limit i = (r, d2)" and "cursorResultFromEvents re fs d' sinceSeq limit j = (r', d3)"
  shows "same_answer r r' \<and> d2 = d\<lparr>ed_archives := ed_archives d2\<rparr>"
proof -
  have "fst (readArchiveTailEvents re sinceSeq d) = fst (readArchiveTailEvents re sinceSeq d')"
    using assms(2) by (simp add: readArchiveTailEvents_def Let_def)
  then show ?thesis using assms
    by (auto simp: cursorResultFromEvents_def same_answer_def Let_def readArchiveTailEvents_def split: prod.splits)
qed

lemma answer_of_suffix:
  assumes "whole_log re buf = map fst (x @ ring)" and "x = [] \<or> TAIL_EVENT_CAP \<le> length ring" and "ed_archives d = ed_archives d'"
    and "cursorResultFromEvents re (map fst ring) d sinceSeq (Some limit) i = (r, d2)"
  shows "same_answer r (parsed_answer re d' buf sinceSeq limit) \<and> d2 = d\<lparr>ed_archives := ed_archives d2\<rparr>"
proof -
  have "last_n TAIL_EVENT_CAP (map fst ring) = last_n TAIL_EVENT_CAP (whole_log re buf)"
    using assms(1,2) last_n_append [of TAIL_EVENT_CAP "map fst ring" "map fst x"] by auto
  then show ?thesis
    using answers_agree [OF _ assms(3) assms(4)] unfolding parsed_answer_def by (metis prod.collapse)
qed

text \<open>What an entry knows of the file it was made from, now that the file has grown.\<close>

definition entry_ok :: "read_env \<Rightarrow> tail_entry \<Rightarrow> string \<Rightarrow> bool" where
  "entry_ok re c buf \<longleftrightarrow> (\<exists>ls rest more x. buf = lines_bytes ls @ rest @ more \<and> proper ls \<and> nl \<notin> set rest \<and>
     ct_size c = length (lines_bytes ls @ rest) \<and> ct_verifiedOffset c = length (lines_bytes ls) \<and>
     line_items (re_parse re) 0 ls = x @ ct_ring c \<and> (x = [] \<or> 2 * TAIL_EVENT_CAP \<le> length (ct_ring c)))"

lemma entry_grows: "entry_ok re c buf \<Longrightarrow> entry_ok re c (buf @ t)"
  unfolding entry_ok_def by (metis append.assoc)

lemma whole_log_lines: "proper ls \<Longrightarrow> nl \<notin> set rest \<Longrightarrow> whole_log re (lines_bytes ls @ rest) = map fst (line_items (re_parse re) 0 ls)"
  by (simp add: whole_log_def window_lines(1))

definition read_ok :: "read_env \<Rightarrow> events_dir \<Rightarrow> string \<Rightarrow> int \<Rightarrow> nat \<Rightarrow> cursor_result option \<times> events_dir \<times> tail_entry option \<Rightarrow> bool" where
  "read_ok re d buf sinceSeq limit out \<longleftrightarrow>
     (case out of (res, d', cache') \<Rightarrow>
        ed_ino d' = ed_ino d \<and> (ed_live d' = None \<or> ed_live d' = Some buf) \<and>
        (ed_live d' = Some buf \<longrightarrow> (\<exists>c. cache' = Some c \<and> ct_ino c = ed_ino d \<and> entry_ok re c buf) \<and>
           (\<exists>r. res = Some r \<and> same_answer r (parsed_answer re d buf sinceSeq limit))) \<and>
        (ed_live d' = None \<longrightarrow> (\<forall>c. cache' = Some c \<longrightarrow> ct_ino c = ed_ino d)))"

lemma commit_live_simps [simp]:
  "ed_ino (commit_live r d) = ed_ino d" "ed_mtime (commit_live r d) = ed_mtime d" "ed_archives (commit_live r d) = ed_archives d"
  "ed_live (commit_live r d) = (if fst r then None else ed_live d)"
  by (auto simp: commit_live_def split: prod.split)

lemma full_ok:
  assumes "ed_live d = Some buf" and "ed_archives d = ed_archives d0" and "ed_ino d = ed_ino d0"
  shows "read_ok re d0 buf sinceSeq limit (cached_full re d cache sinceSeq limit)"
proof -
  obtain ls rest where buf: "buf = lines_bytes ls @ rest" "proper ls" "nl \<notin> set rest" by (rule lines_cases)
  let ?bound = "max TAIL_EVENT_CAP limit * 2"
  obtain c items q n d1 where R: "rebuildCursorTailCache re ?bound d = (Some (c, items, q, n), d1)"
    using assms by (auto simp: rebuildCursorTailCache_def Let_def)
  have items: "items = line_items (re_parse re) 0 ls"
    and c: "ct_ino c = ed_ino d" "ct_size c = length buf" "ct_verifiedOffset c = length (lines_bytes ls)"
      "ct_ring c = evictCursorRing items ?bound"
    and d1: "ed_ino d1 = ed_ino d" "ed_archives d1 = ed_archives d" "ed_live d1 = (if q then None else Some buf)"
    using R assms by (auto simp: rebuildCursorTailCache_def Let_def buf(1) window_lines [OF buf(2,3)])
  obtain r d2 where A: "cursorResultFromEvents re (if q then [] else map fst items) d1 sinceSeq (Some limit)
      (if q then (False, 0, n) else (ct_tornTail c, ct_poisonSkipped c, n)) = (r, d2)" by fastforce
  have out: "cached_full re d cache sinceSeq limit = (Some r, d2, Some c)"
    by (simp add: cached_full_def R A)
  have d2: "d2 = d1\<lparr>ed_archives := ed_archives d2\<rparr>" using answers_agree [OF refl refl A A] by simp
  then have d2': "ed_ino d2 = ed_ino d" "ed_live d2 = ed_live d1" using d1 by (metis events_dir.simps events_dir.surjective)+
  have "entry_ok re c buf"
  proof -
    obtain x where "items = x @ ct_ring c" "x = [] \<or> length (ct_ring c) = ?bound" using evict_ring [of items ?bound] c(4) by auto
    then show ?thesis unfolding entry_ok_def using buf c(2,3) items by (intro exI [of _ ls] exI [of _ rest] exI [of _ "[]"] exI [of _ x]) auto
  qed
  moreover have "same_answer r (parsed_answer re d0 buf sinceSeq limit)" if "\<not> q"
    using answer_of_suffix [of re buf "[]" items d1 d0] whole_log_lines [OF buf(2,3), of re] A that d1 assms(2) buf(1) items by simp
  ultimately show ?thesis using d1 d2' c(1) assms(3) by (auto simp: read_ok_def out)
qed

lemma delta_ok:
  assumes "ed_live d = Some buf" and "entry_ok re c buf" and "ct_ino c = ed_ino d" and "ring = evictCursorRing (ct_ring c) (max TAIL_EVENT_CAP limit * 2)"
  shows "read_ok re d buf sinceSeq limit (cached_delta re d buf c ring sinceSeq limit)"
proof -
  let ?bound = "max TAIL_EVENT_CAP limit * 2"
  obtain ls rest more x where e: "buf = lines_bytes ls @ rest @ more" "proper ls" "nl \<notin> set rest"
    "ct_verifiedOffset c = length (lines_bytes ls)" "line_items (re_parse re) 0 ls = x @ ct_ring c"
    "x = [] \<or> 2 * TAIL_EVENT_CAP \<le> length (ct_ring c)"
    using assms(2) unfolding entry_ok_def by blast
  obtain ms rest' where m: "rest @ more = lines_bytes ms @ rest'" "proper ms" "nl \<notin> set rest'" by (rule lines_cases)
  have buf: "buf = lines_bytes (ls @ ms) @ rest'" using e(1) m(1) by simp
  have rest_drop: "drop (ct_verifiedOffset c) buf = lines_bytes ms @ rest'" using e(1,4) m(1) by simp
  let ?marked = "fst (planPoisonSkip (ed_sidecar d) (length buf) None)"
  define p where "p = parseJsonlWindow (re_parse re) ?marked (ct_verifiedOffset c) (drop (ct_verifiedOffset c) buf)"
  have p: "jw_items p = line_items (re_parse re) (length (lines_bytes ls)) ms" "jw_completeBytes p = length (lines_bytes ms)"
    unfolding p_def rest_drop using window_lines [OF m(2,3)] e(4) by simp_all
  have all: "line_items (re_parse re) 0 (ls @ ms) = x @ ct_ring c @ jw_items p"
    using e(5) p(1) by (simp add: line_items_append)
  define r where "r = commitPoisonFindings (re_now re) (ed_sidecar d) (length buf) None (with_reasons re (jw_failures p) int) (jw_staleMarkers p)"
  define ring' where "ring' = evictCursorRing (ring @ jw_items p) ?bound"
  define c' where "c' = \<lparr> ct_size = length buf, ct_mtime = ed_mtime d, ct_ino = ed_ino d,
     ct_verifiedOffset = ct_verifiedOffset c + jw_completeBytes p, ct_lastSeq = last_seq (ct_lastSeq c) (jw_items p),
     ct_verified = ct_verified c, ct_ring = ring', ct_tornTail = jw_tornTail p,
     ct_poisonSkipped = ct_poisonSkipped c + jw_poisonSkipped p \<rparr>"
  obtain y where y: "line_items (re_parse re) 0 ls = y @ ring" "y = [] \<or> 2 * TAIL_EVENT_CAP \<le> length ring"
    using evict_covers [OF e(5,6), of ?bound] assms(4) by auto
  have "line_items (re_parse re) 0 (ls @ ms) = y @ (ring @ jw_items p)" using y(1) p(1) by (simp add: line_items_append)
  moreover have "y = [] \<or> 2 * TAIL_EVENT_CAP \<le> length (ring @ jw_items p)" using y(2) by auto
  ultimately obtain z where z: "line_items (re_parse re) 0 (ls @ ms) = z @ ring'" "z = [] \<or> 2 * TAIL_EVENT_CAP \<le> length ring'"
    using evict_covers [of "line_items (re_parse re) 0 (ls @ ms)" y "ring @ jw_items p" "2 * TAIL_EVENT_CAP" ?bound]
    unfolding ring'_def by fastforce
  have c'_ok: "entry_ok re c' buf"
    unfolding entry_ok_def using buf m(3) e(2,4) m(2) p(2) z
    by (intro exI [of _ "ls @ ms"] exI [of _ rest'] exI [of _ "[]"] exI [of _ z]) (simp add: c'_def)
  have full: "read_ok re d buf sinceSeq limit (cached_full re d' cache sinceSeq limit)"
    if "ed_live d' = Some buf" "ed_archives d' = ed_archives d" "ed_ino d' = ed_ino d" for d' cache
    using full_ok that by blast
  have gone: "read_ok re d buf sinceSeq limit (cached_full re (commit_live r d) (Some c) sinceSeq limit)" if "fst r"
    using that assms(3) by (simp add: cached_full_def rebuildCursorTailCache_def read_ok_def)
  have hit: "read_ok re d buf sinceSeq limit (Some res, d2, Some c')"
    if "\<not> fst r" "cursorResultFromEvents re (map fst ring') (commit_live r d) sinceSeq (Some limit) i = (res, d2)" for res d2 i
  proof -
    have "whole_log re buf = map fst (z @ ring')" using whole_log_lines [of "ls @ ms" rest' re] e(2) m(2,3) buf z(1) by simp
    then have s: "same_answer res (parsed_answer re d buf sinceSeq limit) \<and> d2 = (commit_live r d)\<lparr>ed_archives := ed_archives d2\<rparr>"
      using z(2) that(2) by (intro answer_of_suffix) auto
    then have "ed_ino d2 = ed_ino d" "ed_live d2 = Some buf" using that(1) assms(1)
      by (metis events_dir.simps events_dir.surjective commit_live_simps(1), metis events_dir.simps events_dir.surjective commit_live_simps(4))
    then show ?thesis using s c'_ok by (auto simp: read_ok_def c'_def)
  qed
  show ?thesis
    unfolding cached_delta_def Let_def p_def [symmetric] r_def [symmetric] ring'_def [symmetric] c'_def [symmetric]
    using full [OF assms(1) refl refl] full [of "commit_live r d"] gone hit assms(1)
    by (auto split: prod.split)
qed


lemma ring_ok:
  assumes "ed_live d = Some buf" and "entry_ok re c buf" and "ct_ino c = ed_ino d" and "length buf = ct_size c"
    and "ring = evictCursorRing (ct_ring c) (max TAIL_EVENT_CAP limit * 2)"
    and "cursorResultFromEvents re (map fst ring) d sinceSeq (Some limit) i = (r, d2)"
  shows "read_ok re d buf sinceSeq limit (Some r, d2, Some (c\<lparr>ct_ring := ring\<rparr>))"
proof -
  obtain ls rest x where e: "buf = lines_bytes ls @ rest" "proper ls" "nl \<notin> set rest"
    "ct_verifiedOffset c = length (lines_bytes ls)" "line_items (re_parse re) 0 ls = x @ ct_ring c"
    "x = [] \<or> 2 * TAIL_EVENT_CAP \<le> length (ct_ring c)"
    using assms(2,4) unfolding entry_ok_def by auto
  obtain y where y: "line_items (re_parse re) 0 ls = y @ ring" "y = [] \<or> 2 * TAIL_EVENT_CAP \<le> length ring"
    using evict_covers [OF e(5,6), of "max TAIL_EVENT_CAP limit * 2"] assms(5) by auto
  have "whole_log re buf = map fst (y @ ring)" using whole_log_lines [OF e(2,3)] e(1) y(1) by simp
  then have s: "same_answer r (parsed_answer re d buf sinceSeq limit) \<and> d2 = d\<lparr>ed_archives := ed_archives d2\<rparr>"
    using y(2) assms(6) by (intro answer_of_suffix) auto
  then have "ed_ino d2 = ed_ino d" "ed_live d2 = Some buf" using assms(1)
    by (metis events_dir.simps events_dir.surjective, metis events_dir.simps events_dir.surjective)
  moreover have "entry_ok re (c\<lparr>ct_ring := ring\<rparr>) buf"
    unfolding entry_ok_def using e y assms(4) by (intro exI [of _ ls] exI [of _ rest] exI [of _ "[]"] exI [of _ y]) simp
  ultimately show ?thesis using s assms(1,3) by (auto simp: read_ok_def)
qed

text \<open>An entry of another inode says nothing; one of this inode is of this file, or the file was put aside.\<close>

definition cache_ok :: "read_env \<Rightarrow> events_dir \<times> tail_entry option \<Rightarrow> bool" where
  "cache_ok re s \<longleftrightarrow> (case s of (d, cache) \<Rightarrow> \<forall>c. cache = Some c \<longrightarrow> ct_ino c = ed_ino d \<longrightarrow>
     (\<forall>buf. ed_live d = Some buf \<longrightarrow> entry_ok re c buf))"

lemma cached_read_ok:
  assumes "cache_ok re (d, cache)" and "ed_live d = Some buf"
  shows "read_ok re d buf sinceSeq limit (readEventsCursorTailCached re d cache sinceSeq limit)"
proof (cases cache)
  case None
  then show ?thesis using full_ok [OF assms(2) refl refl] assms(2) by (simp add: readEventsCursorTailCached_def)
next
  case (Some c)
  have same: "entry_ok re c buf" if "ct_ino c = ed_ino d" using assms that Some by (simp add: cache_ok_def)
  show ?thesis
    unfolding readEventsCursorTailCached_def assms(2) Some option.case Let_def
    using full_ok [OF assms(2) refl refl, of re sinceSeq limit "Some c"] ring_ok [OF assms(2) same] delta_ok [OF assms(2) same]
    by (auto split: prod.split)
qed

text \<open>
  What happens to a path: an append to the file, another file in its place (compaction, rotation, a new log) of any
  inode number, a read through the cache, and the loss of the entry.
\<close>

datatype cursor_event =
    GrowLog string nat
  | ReplaceLog "string option" (replaced_ino: nat) nat sidecar "events_file list"
  | ReadCached int nat
  | DropEntry

fun cursor_step :: "read_env \<Rightarrow> cursor_event \<Rightarrow> events_dir \<times> tail_entry option \<Rightarrow> (events_dir \<times> tail_entry option) option" where
  "cursor_step re (GrowLog t mtime) (d, cache) =
     map_option (\<lambda>buf. (d\<lparr>ed_live := Some (buf @ t), ed_mtime := mtime\<rparr>, cache)) (ed_live d)"
| "cursor_step re (ReplaceLog f i mtime sc ars) (d, cache) =
     Some (d\<lparr>ed_live := f, ed_sidecar := sc, ed_ino := i, ed_mtime := mtime, ed_archives := ars\<rparr>, cache)"
| "cursor_step re (ReadCached sinceSeq limit) (d, cache) = Some (snd (readEventsCursorTailCached re d cache sinceSeq limit))"
| "cursor_step re DropEntry (d, cache) = Some (d, None)"

text \<open>
  The number of an inode that was given back can be given out again. A replacement is told from the file the entry
  was made of when its number is not the one the entry keeps.
\<close>

fun tells_apart :: "cursor_event \<Rightarrow> events_dir \<times> tail_entry option \<Rightarrow> bool" where
  "tells_apart (ReplaceLog f i mtime sc ars) (d, cache) = (case cache of None \<Rightarrow> True | Some c \<Rightarrow> i \<noteq> ct_ino c)"
| "tells_apart _ _ = True"

lemma cache_step: "cache_ok re s \<Longrightarrow> tells_apart ev s \<Longrightarrow> cursor_step re ev s = Some s' \<Longrightarrow> cache_ok re s'"
proof (induction re ev s rule: cursor_step.induct)
  case (1 re t mtime d cache)
  then show ?case by (auto simp: cache_ok_def entry_grows)
next
  case (3 re sinceSeq limit d cache)
  show ?case
  proof (cases "ed_live d")
    case None
    then show ?thesis using 3 by (simp add: readEventsCursorTailCached_def)
  next
    case (Some buf)
    obtain res d' cache' where out: "readEventsCursorTailCached re d cache sinceSeq limit = (res, d', cache')" by (rule prod_cases3)
    have "read_ok re d buf sinceSeq limit (res, d', cache')"
      using cached_read_ok [OF 3(1) Some, of sinceSeq limit] out by simp
    then show ?thesis using 3(3) out by (auto simp: cache_ok_def read_ok_def)
  qed
qed (auto simp: cache_ok_def)

interpretation tail_cache: machine_invariant "cursor_step re" tells_apart "cache_ok re" for re
  by unfold_locales (rule cache_step)

text \<open>
  C33. A read through the cache of the verified tail answers exactly as a parse of the whole file: the same events, the
  same next number and the same total, however the file grew, was replaced and was read before, and whatever
  the time stamps say, on one condition: no file that replaced another had the inode number that the entry of the
  cache kept at that moment (the number of a file that is gone can come back: \<open>reused_inode_answers_stale\<close>). It can
  fail to answer only when the file is put aside by the read.
\<close>

theorem cached_reads_exact:
  assumes "run_events (cursor_step re) evs (d0, None) = Some (d, cache)" and "ed_live d = Some buf"
    and "readEventsCursorTailCached re d cache sinceSeq limit = (res, d', cache')" and "ed_live d' \<noteq> None"
    and "events_within (cursor_step re) tells_apart evs (d0, None)"
  shows "\<exists>r. res = Some r \<and> same_answer r (parsed_answer re d buf sinceSeq limit)"
proof -
  have "cache_ok re (d, cache)"
    using tail_cache.ok_run [OF _ assms(5,1)] by (simp add: cache_ok_def)
  from cached_read_ok [OF this assms(2), of sinceSeq limit] show ?thesis
    using assms(3,4) by (auto simp: read_ok_def)
qed

subsection \<open>Paging by number\<close>

lemma no_archives [simp]: "ed_archives d = [] \<Longrightarrow> readArchiveTailEvents re sinceSeq d = ([], d)"
  by (simp add: readArchiveTailEvents_def)

lemma max_seq_Max: "max_seq s es = Max (insert s (seq_of ` set es))"
proof -
  have "fold (\<lambda>e m. max m (seq_of e)) es s = fold max (map seq_of es) s"
    by (induction es arbitrary: s) (simp_all add: max.commute)
  then show ?thesis using Max.set_eq_fold [of s "map seq_of es"] by (simp add: max_seq_def)
qed

text \<open>Events in the order of their numbers, no two with the same.\<close>

definition numbered :: "team_event list \<Rightarrow> bool" where
  "numbered es \<longleftrightarrow> sorted_wrt (\<lambda>e e2. seq_of e < seq_of e2) es"

lemma numbered_filter: "numbered es \<Longrightarrow> numbered (filter P es)"
  by (simp add: numbered_def sorted_wrt_filter)

lemma numbered_sort: "distinct (map seq_of es) \<Longrightarrow> numbered (sort_key seq_of es)"
  unfolding numbered_def sorted_wrt_map [of "(<)" seq_of, symmetric] strict_sorted_iff
  by (simp add: distinct_map)

lemma numbered_page:
  assumes "numbered es" and "\<forall>e\<in>set es. s < seq_of e" and "0 < k"
  shows "filter (\<lambda>e. max_seq s (take k es) < seq_of e) es = drop k es"
proof -
  have "\<forall>e\<in>set (take k es). \<forall>e2\<in>set (drop k es). seq_of e < seq_of e2"
    using assms(1) sorted_wrt_append [of "\<lambda>e e2. seq_of e < seq_of e2" "take k es" "drop k es"] by (simp add: numbered_def)
  moreover have "\<forall>e\<in>set (take k es). seq_of e \<le> max_seq s (take k es)" by (simp add: max_seq_Max)
  moreover have "\<forall>e2\<in>set (drop k es). s < seq_of e2" using assms(2) by (auto dest: in_set_dropD)
  ultimately have 1: "\<forall>e\<in>set (take k es). \<not> max_seq s (take k es) < seq_of e"
    and 2: "\<forall>e2\<in>set (drop k es). max_seq s (take k es) < seq_of e2"
    by (auto simp: max_seq_Max)
  have "filter (\<lambda>e. max_seq s (take k es) < seq_of e) (take k es @ drop k es) = drop k es"
    using 1 2 unfolding filter_append by (simp add: filter_id_conv filter_empty_conv)
  then show ?thesis by simp
qed

text \<open>A healthy log: no archives, no markers, no line that fails, and at most 4 MB.\<close>

definition healthy :: "read_env \<Rightarrow> events_dir \<Rightarrow> string \<Rightarrow> bool" where
  "healthy re d buf \<longleftrightarrow> ed_live d = Some buf \<and> ed_sidecar d = None \<and> ed_archives d = [] \<and> length buf \<le> TAIL_BYTES \<and>
     jw_failures (parseJsonlWindow (re_parse re) {} 0 buf) = []"

lemma no_markers [simp]: "planPoisonSkip None n lc = ({}, 0)"
  by (simp add: planPoisonSkip_def active_markers_def loadPoisonMarkers_def map_filter_simps)

lemma nothing_found [simp]: "commitPoisonFindings now None n lc [] [] = (False, None)"
  by (simp add: commitPoisonFindings_def loadPoisonMarkers_def map_filter_simps POISON_MARKER_CAP_def)

lemma no_stale: "jw_staleMarkers (parseJsonlWindow parse {} base buf) = []"
proof -
  obtain ls rest where buf: "buf = lines_bytes ls @ rest" "proper ls" "nl \<notin> set rest" by (rule lines_cases)
  have "set (jw_staleMarkers (scan_all parse {} base ls empty_window)) = {}" by (simp add: stale_placed empty_window_def)
  then show ?thesis unfolding parseJsonlWindow_def buf(1) by (simp add: scan_window_lines [OF buf(2,3)])
qed

lemma line_failures_none: "line_failures parse {} pos i ls = [] \<longleftrightarrow> (\<forall>l\<in>set ls. \<not> fails parse l)"
  by (induction ls arbitrary: pos i) auto

lemma healthy_suffix:
  assumes "healthy re d buf" and "buf = lines_bytes ls @ rest" and "proper ls"
  shows "jw_failures (parseJsonlWindow (re_parse re) {} base rest) = []"
proof -
  obtain ms rest' where m: "rest = lines_bytes ms @ rest'" "proper ms" "nl \<notin> set rest'" by (rule lines_cases)
  have "buf = lines_bytes (ls @ ms) @ rest'" using assms(2) m(1) by simp
  then have "line_failures (re_parse re) {} 0 0 (ls @ ms) = []"
    using assms(1,3) m window_lines(2) [of "ls @ ms" rest' "re_parse re" "{}" 0] by (simp add: healthy_def)
  then show ?thesis unfolding m(1) window_lines(2) [OF m(2,3)] by (simp add: line_failures_none)
qed

lemma commit_same [simp]: "ed_sidecar d = None \<Longrightarrow> commit_live (False, None) d = d"
  by (cases d) (simp add: commit_live_def)

lemma result_same [simp]: "ed_archives d = [] \<Longrightarrow> snd (cursorResultFromEvents re es d s limit i) = d"
  by (simp add: cursorResultFromEvents_def Let_def)

lemma healthy_full: "healthy re d buf \<Longrightarrow> fst (snd (cached_full re d cache s k)) = d"
  by (simp add: cached_full_def rebuildCursorTailCache_def healthy_def no_stale with_reasons_def Let_def split: prod.split)
    (metis result_same snd_conv)

lemma healthy_cached:
  assumes "healthy re d buf" and "cache_ok re (d, cache)"
  shows "fst (snd (readEventsCursorTailCached re d cache s k)) = d"
proof (cases cache)
  case None
  then show ?thesis using healthy_full [OF assms(1)] assms(1) by (simp add: readEventsCursorTailCached_def healthy_def)
next
  case (Some c)
  have live: "ed_live d = Some buf" and d: "ed_sidecar d = None" "ed_archives d = []" using assms(1) by (auto simp: healthy_def)
  have delta: "fst (snd (cached_delta re d buf c ring s k)) = d" if "ct_ino c = ed_ino d" for ring
  proof -
    have "entry_ok re c buf" using assms(2) Some live that by (simp add: cache_ok_def)
    then obtain ls rest where e: "buf = lines_bytes ls @ rest" "proper ls" "ct_verifiedOffset c = length (lines_bytes ls)"
      unfolding entry_ok_def by blast
    let ?p = "parseJsonlWindow (re_parse re) {} (ct_verifiedOffset c) (drop (ct_verifiedOffset c) buf)"
    have drop: "drop (ct_verifiedOffset c) buf = rest" using e(1,3) by simp
    have f: "jw_failures ?p = []" unfolding drop by (rule healthy_suffix [OF assms(1) e(1,2)])
    show ?thesis
      using f healthy_full [OF assms(1)] d
      by (simp add: cached_delta_def no_stale with_reasons_def Let_def split: prod.split)
        (metis result_same snd_conv)
  qed
  show ?thesis
    unfolding readEventsCursorTailCached_def live Some option.case Let_def
    using delta healthy_full [OF assms(1)] result_same [OF d(2)]
    by (auto split: prod.split) (metis snd_conv)
qed

lemma tail_whole:
  assumes "buf \<noteq> []" and "length buf \<le> limit"
  shows "readJsonlTail parse marked limit (Some buf) =
    (let p = parseJsonlWindow parse marked 0 buf
     in \<lparr> jt_items = map fst (jw_items p), jt_fileSize = length buf, jt_bytesRead = length buf, jt_truncated = False,
          jt_tornTail = jw_tornTail p, jt_poisonSkipped = jw_poisonSkipped p,
          jt_failures = map (\<lambda>(pos, i). (pos, int i)) (jw_failures p), jt_staleMarkers = jw_staleMarkers p \<rparr>)"
proof -
  have "(limit = 0) = False" "length buf - limit = 0" using assms by (cases buf; simp)+
  then show ?thesis using assms(1) by (simp add: readJsonlTail_def Let_def)
qed

lemma empty_log [simp]: "parseJsonlWindow parse marked base [] = empty_window" "whole_log re [] = []"
  by (simp_all add: whole_log_def parseJsonlWindow_def scan_window.simps [of _ _ _ "[]"] empty_window_def js_trim_def)

lemma healthy_tail:
  assumes "healthy re d buf"
  defines "p \<equiv> parseJsonlWindow (re_parse re) {} 0 buf"
  shows "readEventsFileTailWithIntegrity re TAIL_BYTES \<lparr> ef_bytes = buf, ef_sidecar = ed_sidecar d \<rparr> =
    (\<lparr> ro_events = whole_log re buf, ro_tornTail = jw_tornTail p, ro_poisonSkipped = jw_poisonSkipped p,
       ro_parseFailures = 0, ro_quarantined = False \<rparr>, False, None)"
proof (cases "buf = []")
  case True
  then show ?thesis using assms(1)
    by (simp add: healthy_def readEventsFileTailWithIntegrity_def readJsonlTail_def no_items_def with_reasons_def p_def empty_window_def)
next
  case False
  have "length buf \<le> TAIL_BYTES" and d: "ed_sidecar d = None" "jw_failures p = []" "jw_staleMarkers p = []"
    using assms(1) no_stale by (auto simp: healthy_def p_def)
  then show ?thesis
    by (simp add: readEventsFileTailWithIntegrity_def tail_whole [OF False] p_def [symmetric] with_reasons_def whole_log_def Let_def)
qed

lemma healthy_read:
  assumes "healthy re d buf" and "cache_ok re (d, cache)" and "co_fromByteOffset opts = None"
    and "positiveInteger (co_sinceSeq opts) = Some s" and "positiveInteger (co_limit opts) = Some k"
  shows "\<exists>r cache'. readEventsCursor re opts (d, cache) = (r, d, cache') \<and> cache_ok re (d, cache') \<and>
    same_answer r (parsed_answer re d buf (int s) k)"
proof -
  have live: "ed_live d = Some buf" and d: "ed_sidecar d = None" "ed_archives d = []" using assms(1) by (auto simp: healthy_def)
  show ?thesis
  proof (cases "0 < s")
    case True
    obtain res d' cache' where out: "readEventsCursorTailCached re d cache (int s) k = (res, d', cache')" by (rule prod_cases3)
    have "d' = d" using healthy_cached [OF assms(1,2), of "int s" k] out by simp
    then obtain r where "res = Some r" "same_answer r (parsed_answer re d buf (int s) k)" "cache_ok re (d, cache')"
      using cached_read_ok [OF assms(2) live, of "int s" k] out live by (auto simp: read_ok_def cache_ok_def)
    then show ?thesis using True assms(3-5) out \<open>d' = d\<close> by (simp add: readEventsCursor_def)
  next
    case False
    obtain r d' where A: "cursorResultFromEvents re (whole_log re buf) d (int s) (Some k)
        (jw_tornTail (parseJsonlWindow (re_parse re) {} 0 buf), jw_poisonSkipped (parseJsonlWindow (re_parse re) {} 0 buf), 0) = (r, d')" by fastforce
    have "d' = d" using A result_same [OF d(2)] by (metis snd_conv)
    have "same_answer r (parsed_answer re d buf (int s) k)"
      using answers_agree [OF refl refl A] unfolding parsed_answer_def by (metis prod.collapse)
    then have "same_answer (r\<lparr>cu_truncated := False\<rparr>) (parsed_answer re d buf (int s) k)" by (simp add: same_answer_def)
    moreover have "wide_cursor re d (int s) (Some k) = (r\<lparr>cu_truncated := False\<rparr>, d)"
      using A live d \<open>d' = d\<close> healthy_tail [OF assms(1)] by (simp add: wide_cursor_def)
    ultimately show ?thesis using False assms(3-5) by (simp add: readEventsCursor_def cache_ok_def)
  qed
qed

text \<open>Pages of \<open>k\<close> events, each from the next number of the last.\<close>

definition page_options :: "int \<Rightarrow> nat \<Rightarrow> cursor_options" where
  "page_options s k = \<lparr> co_sinceSeq = Some s, co_limit = Some (int k), co_fromByteOffset = None, co_generation = None \<rparr>"

fun read_pages :: "read_env \<Rightarrow> nat \<Rightarrow> nat \<Rightarrow> int \<Rightarrow> events_dir \<times> tail_entry option \<Rightarrow> team_event list" where
  "read_pages re k 0 s st = []"
| "read_pages re k (Suc n) s st =
     (case readEventsCursor re (page_options s k) st of (r, st') \<Rightarrow> cu_events r @ read_pages re k n (cu_nextSeq r) st')"

lemma parsed_page:
  assumes "ed_archives d = []" and "length (whole_log re buf) \<le> TAIL_EVENT_CAP"
  shows "cu_events (parsed_answer re d buf s k) = take k (filter (\<lambda>e. s < seq_of e) (sort_key seq_of (whole_log re buf)))"
    and "cu_nextSeq (parsed_answer re d buf s k) = max_seq s (take k (filter (\<lambda>e. s < seq_of e) (sort_key seq_of (whole_log re buf))))"
  using assms by (simp_all add: parsed_answer_def cursorResultFromEvents_def mergeArchiveTailEvents_def limited_def last_n_def
      filter_sort Let_def)

text \<open>
  C34. Paging a healthy log of at most 5000 numbered events by the next number gives every event after the start,
  in the order of the numbers and none twice, through whichever mix of the wide and the cached path.
\<close>

theorem seq_paging_complete:
  assumes "healthy re d buf" and "length (whole_log re buf) \<le> TAIL_EVENT_CAP" and "distinct (map seq_of (whole_log re buf))"
    and "0 < k" and "length (whole_log re buf) \<le> n * k"
  shows "read_pages re k n (int s) (d, None) = filter (\<lambda>e. int s < seq_of e) (sort_key seq_of (whole_log re buf))"
proof -
  let ?S = "sort_key seq_of (whole_log re buf)"
  have N: "numbered ?S" using assms(3) by (rule numbered_sort)
  have arch: "ed_archives d = []" using assms(1) by (simp add: healthy_def)
  have "read_pages re k n (int s) (d, cache) = filter (\<lambda>e. int s < seq_of e) ?S"
    if "cache_ok re (d, cache)" "length (filter (\<lambda>e. int s < seq_of e) ?S) \<le> n * k" for s n cache
    using that
  proof (induction n arbitrary: s cache)
    case (Suc n)
    let ?L = "filter (\<lambda>e. int s < seq_of e) ?S"
    have o1: "co_fromByteOffset (page_options (int s) k) = None" "positiveInteger (co_sinceSeq (page_options (int s) k)) = Some s"
      "positiveInteger (co_limit (page_options (int s) k)) = Some k" by (simp_all add: page_options_def positiveInteger_def)
    from healthy_read [OF assms(1) Suc.prems(1) o1] obtain r cache' where
      r: "readEventsCursor re (page_options (int s) k) (d, cache) = (r, d, cache')" "cache_ok re (d, cache')"
        "same_answer r (parsed_answer re d buf (int s) k)" by blast
    have ev: "cu_events r = take k ?L" "cu_nextSeq r = max_seq (int s) (take k ?L)"
      using r(3) parsed_page [OF arch assms(2), of "int s" k] by (simp_all add: same_answer_def)
    have rest: "filter (\<lambda>e. max_seq (int s) (take k ?L) < seq_of e) ?L = drop k ?L"
      by (rule numbered_page [OF numbered_filter [OF N] _ assms(4)]) simp
    have ge: "int s \<le> max_seq (int s) (take k ?L)" by (simp add: max_seq_Max)
    then obtain s' where s': "max_seq (int s) (take k ?L) = int s'" by (metis nonneg_int_cases of_nat_0_le_iff order_trans)
    have "filter (\<lambda>e. int s' < seq_of e) ?S = drop k ?L"
      using rest ge unfolding s' filter_filter by (metis (no_types, lifting) filter_cong order_le_less_trans)
    then have "read_pages re k n (int s') (d, cache') = drop k ?L"
      using Suc.IH [OF r(2), of s'] Suc.prems(2) by simp
    then show ?case by (simp add: r(1) ev s')
  qed simp
  note pages = this
  have "length (filter (\<lambda>e. int s < seq_of e) ?S) \<le> n * k"
    using le_trans [OF length_filter_le, of ?S "n * k"] assms(5) by simp
  with pages [of None s n] show ?thesis by (simp add: cache_ok_def)
qed

text \<open>
  In a log of more than 5000 numbered events in order, at most 4 MB long, a page from the start leaves out the
  first events without saying so, and its next number is past them: paging on never gives them.
\<close>

theorem cap_skips_events:
  assumes "healthy re d buf" and "whole_log re buf = e # es" and "numbered (e # es)" and "TAIL_EVENT_CAP \<le> length es"
    and "0 < seq_of e" and "0 < k" and "readEventsCursor re (page_options 0 k) (d, cache) = (r, d', cache')"
  shows "e \<notin> set (cu_events r) \<and> seq_of e < cu_nextSeq r \<and> \<not> cu_truncated r"
proof -
  have live: "ed_live d = Some buf" "ed_archives d = []" "ed_sidecar d = None" using assms(1) by (auto simp: healthy_def)
  let ?tail = "last_n TAIL_EVENT_CAP (e # es)"
  have tail: "?tail = last_n TAIL_EVENT_CAP es" using assms(4) last_n_append [of TAIL_EVENT_CAP es "[e]"] by simp
  have after: "\<forall>x\<in>set es. seq_of e < seq_of x" using assms(3) by (simp add: numbered_def)
  have sub: "set ?tail \<subseteq> set es" unfolding tail by (auto simp: last_n_def dest: in_set_dropD)
  have pos: "filter (\<lambda>e. 0 < seq_of e) ?tail = ?tail" using sub after assms(5) by (fastforce simp: filter_id_conv)
  have "0 < length ?tail" unfolding length_last_n by (simp add: TAIL_EVENT_CAP_def)
  then obtain x xs where t: "?tail = x # xs" by (cases ?tail) auto
  have r: "r = fst (cursorResultFromEvents re (e # es) d 0 (Some k) (jw_tornTail (parseJsonlWindow (re_parse re) {} 0 buf),
      jw_poisonSkipped (parseJsonlWindow (re_parse re) {} 0 buf), 0))\<lparr>cu_truncated := False\<rparr>"
    using assms(7) live healthy_tail [OF assms(1)]
    by (auto simp: readEventsCursor_def page_options_def positiveInteger_def wide_cursor_def assms(2) split: prod.splits)
  have ev: "cu_events r = take k (sort_key seq_of ?tail)" "cu_nextSeq r = max_seq 0 (take k (sort_key seq_of ?tail))" "\<not> cu_truncated r"
    using live pos by (simp_all add: r cursorResultFromEvents_def mergeArchiveTailEvents_def limited_def Let_def)
  have "set (cu_events r) \<subseteq> set es" using sub set_take_subset [of k "sort_key seq_of ?tail"] by (simp add: ev(1))
  moreover have "cu_events r \<noteq> []" using assms(6) t length_last_n by (simp add: ev(1))
  ultimately obtain y where y: "y \<in> set (cu_events r)" "y \<in> set es" by (cases "cu_events r") auto
  have "seq_of y \<le> cu_nextSeq r" using y(1) by (simp add: ev max_seq_Max)
  then show ?thesis using after y(2) \<open>set (cu_events r) \<subseteq> set es\<close> ev(3) by fastforce
qed

subsection \<open>The history and rotations\<close>

lemma fold_push:
  assumes "distinct (map seq_of (filter (\<lambda>e. 0 < seq_of e) out))" and "seen = seq_of ` set (filter (\<lambda>e. 0 < seq_of e) out)"
  shows "case fold push_event es (seen, out) of (seen', out') \<Rightarrow>
    distinct (map seq_of (filter (\<lambda>e. 0 < seq_of e) out')) \<and> set out \<subseteq> set out' \<and> set out' \<subseteq> set out \<union> set es \<and>
    (\<forall>e\<in>set es. e \<in> set out' \<or> 0 < seq_of e \<and> (\<exists>e2\<in>set out'. seq_of e2 = seq_of e))"
  using assms
proof (induction es arbitrary: seen out)
  case (Cons e es)
  show ?case
  proof (cases "0 < seq_of e \<and> seq_of e \<in> seen")
    case True
    then have "push_event e (seen, out) = (seen, out)" by (cases "te_seq e") (auto simp: push_event_def seq_of_def)
    moreover have "\<exists>e2\<in>set out. seq_of e2 = seq_of e" using True Cons.prems(2) by auto
    ultimately show ?thesis using Cons.IH [OF Cons.prems] True by (auto split: prod.splits)
  next
    case False
    let ?seen = "if 0 < seq_of e then insert (seq_of e) seen else seen"
    have p: "push_event e (seen, out) = (?seen, out @ [e])"
      using False by (cases "te_seq e") (auto simp: push_event_def seq_of_def)
    have "distinct (map seq_of (filter (\<lambda>e. 0 < seq_of e) (out @ [e])))" using Cons.prems False by auto
    moreover have "?seen = seq_of ` set (filter (\<lambda>e. 0 < seq_of e) (out @ [e]))" using Cons.prems(2) by auto
    ultimately show ?thesis using Cons.IH [of "out @ [e]" ?seen] by (auto simp: p split: prod.splits)
  qed
qed simp

text \<open>The events that the files of a log hold, from the oldest archive to the live file.\<close>

definition file_outcomes :: "read_env \<Rightarrow> events_dir \<Rightarrow> read_outcome list" where
  "file_outcomes re d = map (fst \<circ> parseJsonlEventsWithIntegrity re) (ed_archives d) @
     (case ed_live d of None \<Rightarrow> [] | Some b \<Rightarrow> [fst (parseJsonlEventsWithIntegrity re \<lparr> ef_bytes = b, ef_sidecar = ed_sidecar d \<rparr>)])"

text \<open>
  The history that a full read gives is in the order of the numbers, has no positive number twice, holds only
  events of the files, and misses none of them but for a number it has: nothing is lost to a rotation.
\<close>

theorem history_complete:
  "case readEventsWithIntegrity re d of ((es, integrity), d') \<Rightarrow>
     sorted (map seq_of es) \<and> distinct (map seq_of (filter (\<lambda>e. 0 < seq_of e) es)) \<and>
     set es \<subseteq> (\<Union>o1\<in>set (file_outcomes re d). set (ro_events o1)) \<and>
     list_all (\<lambda>o1. list_all (\<lambda>e. e \<in> set es \<or> list_ex (\<lambda>e2. seq_of e2 = seq_of e) es) (ro_events o1)) (file_outcomes re d)"
proof -
  let ?all = "concat (map ro_events (file_outcomes re d))"
  obtain seen out where f: "fold push_event ?all ({}, []) = (seen, out)" by fastforce
  have "distinct (map seq_of (filter (\<lambda>e. 0 < seq_of e) out)) \<and> set out \<subseteq> set ?all \<and>
    (\<forall>e\<in>set ?all. e \<in> set out \<or> 0 < seq_of e \<and> (\<exists>e2\<in>set out. seq_of e2 = seq_of e))"
    using fold_push [of "[]" "{}" ?all] unfolding f by simp
  then have out: "distinct (map seq_of (filter (\<lambda>e. 0 < seq_of e) out))" "set out \<subseteq> set ?all"
    "\<And>e. e \<in> set ?all \<Longrightarrow> e \<in> set out \<or> (\<exists>e2\<in>set out. seq_of e2 = seq_of e)" by blast+
  have o1: "file_outcomes re d = map (fst \<circ> snd) (map (\<lambda>f. (f, parseJsonlEventsWithIntegrity re f)) (ed_archives d)) @
    (case map_option (\<lambda>b. parseJsonlEventsWithIntegrity re \<lparr> ef_bytes = b, ef_sidecar = ed_sidecar d \<rparr>) (ed_live d) of
       None \<Rightarrow> [] | Some r \<Rightarrow> [fst r])"
    by (simp add: file_outcomes_def o_def split: option.split)
  obtain es integrity d' where R: "readEventsWithIntegrity re d = ((es, integrity), d')" by (metis prod.exhaust)
  then have es: "es = sort_key seq_of out"
    using f unfolding readEventsWithIntegrity_def Let_def o1 by simp
  have "mset (map seq_of (filter (\<lambda>e. 0 < seq_of e) es)) = mset (map seq_of (filter (\<lambda>e. 0 < seq_of e) out))"
    by (simp only: es filter_sort mset_map mset_sort)
  then have "distinct (map seq_of (filter (\<lambda>e. 0 < seq_of e) es))" using out(1) by (metis mset_eq_imp_distinct_iff)
  moreover have "list_all (\<lambda>o1. list_all (\<lambda>e. e \<in> set es \<or> list_ex (\<lambda>e2. seq_of e2 = seq_of e) es) (ro_events o1)) (file_outcomes re d)"
    using out(3) by (fastforce simp: list_all_iff list_ex_iff es)
  moreover have "set es \<subseteq> (\<Union>o1\<in>set (file_outcomes re d). set (ro_events o1))" using out(2) by (auto simp: es)
  ultimately show ?thesis by (simp add: R es)
qed

subsection \<open>The request for past events\<close>

record since_params =
  sp_sinceSeq :: int
  sp_limit :: int
  sp_fromByteOffset :: "int option"
  sp_generation :: "int option"

record since_response =
  sr_events :: "team_event list"
  sr_nextSeq :: int
  sr_hasMore :: bool
  sr_nextSinceSeq :: int
  sr_truncated :: bool
  sr_nextByteOffset :: "nat option"
  sr_generation :: "nat option"

definition parse_since :: "json option \<Rightarrow> since_params" where
  "parse_since v =
     (let floor_of = (\<lambda>k. case jfield v k of Some (JNum (Fin r)) \<Rightarrow> Some (\<lfloor>r\<rfloor>, r) | _ \<Rightarrow> None)
      in \<lparr> sp_sinceSeq = (case floor_of ''sinceSeq'' of Some (n, _) \<Rightarrow> max 0 n | None \<Rightarrow> 0),
           sp_limit = (case floor_of ''limit'' of Some (n, _) \<Rightarrow> min (max 1 n) 1000 | None \<Rightarrow> 1000),
           sp_fromByteOffset = (case floor_of ''fromByteOffset'' of Some (n, r) \<Rightarrow> if 0 \<le> r then Some n else None | None \<Rightarrow> None),
           sp_generation = (case floor_of ''generation'' of Some (n, _) \<Rightarrow> Some n | None \<Rightarrow> None) \<rparr>)"

definition since_response :: "int \<Rightarrow> cursor_result \<Rightarrow> team_event list \<Rightarrow> bool \<Rightarrow> since_response" where
  "since_response sinceSeq r events frameTruncated =
     (let next = (if events \<noteq> [] then max_seq sinceSeq events else cu_nextSeq r)
      in \<lparr> sr_events = events, sr_nextSeq = next, sr_hasMore = (length events < cu_total r), sr_nextSinceSeq = next,
           sr_truncated = (frameTruncated \<or> cu_truncated r), sr_nextByteOffset = cu_nextByteOffset r,
           sr_generation = cu_generation r \<rparr>)"

text \<open>The page is halved until the response can be encoded; \<open>None\<close>: not even one event can.\<close>

function halve_page :: "(since_response \<Rightarrow> bool) \<Rightarrow> int \<Rightarrow> cursor_result \<Rightarrow> team_event list \<Rightarrow> bool \<Rightarrow> since_response option" where
  "halve_page fits sinceSeq r events frameTruncated =
     (if fits (since_response sinceSeq r events frameTruncated) then Some (since_response sinceSeq r events frameTruncated)
      else if length events \<le> 1 then None
      else halve_page fits sinceSeq r (take ((length events + 1) div 2) events) True)"
  by auto
termination
  by (relation "measure (\<lambda>(fits, sinceSeq, r, events, t). length events)") auto

declare halve_page.simps [simp del]

datatype since_error = NotAuthed | NoManifest | ResponseOversize

text \<open>\<open>files\<close>: the files of the run of the connection, when the broker finds it.\<close>

definition handleEventsSince :: "read_env \<Rightarrow> (since_response \<Rightarrow> bool) \<Rightarrow> bool \<Rightarrow> json option \<Rightarrow>
    (events_dir \<times> tail_entry option) option \<Rightarrow> (since_error + since_response) \<times> (events_dir \<times> tail_entry option) option" where
  "handleEventsSince re fits authed params files =
     (if \<not> authed then (Inl NotAuthed, files)
      else case files of
        None \<Rightarrow> (Inl NoManifest, files)
      | Some s \<Rightarrow>
          let p = parse_since params;
              out = readEventsCursor re \<lparr> co_sinceSeq = Some (sp_sinceSeq p), co_limit = Some (sp_limit p),
                      co_fromByteOffset = sp_fromByteOffset p, co_generation = sp_generation p \<rparr> s
          in case out of (r, s') \<Rightarrow>
               (case halve_page fits (sp_sinceSeq p) r (cu_events r) False of
                  None \<Rightarrow> Inl ResponseOversize | Some resp \<Rightarrow> Inr resp, Some s'))"

lemma halved:
  "halve_page fits s r es t = Some resp \<Longrightarrow>
   \<exists>k t'. resp = since_response s r (take k es) t' \<and> fits resp \<and> (take k es = es \<or> t') \<and> (es \<noteq> [] \<longrightarrow> 0 < k) \<and> (t \<longrightarrow> t')"
proof (induction fits s r es t rule: halve_page.induct)
  case (1 fits s r es t)
  let ?m = "(length es + 1) div 2"
  consider (fits) "fits (since_response s r es t)" | (half) "\<not> fits (since_response s r es t)" "\<not> length es \<le> 1"
    using 1(2) by (auto simp: halve_page.simps [of fits s r es t] split: if_splits)
  then show ?case
  proof cases
    case fits
    then show ?thesis using 1(2) by (intro exI [of _ "Suc (length es)"] exI [of _ t]) (simp add: halve_page.simps [of fits s r es t])
  next
    case half
    then have h: "halve_page fits s r (take ?m es) True = Some resp" using 1(2) by (simp add: halve_page.simps [of fits s r es t])
    from 1(1) [OF half h] obtain k t' where
      k: "resp = since_response s r (take k (take ?m es)) t'" "t'" "fits resp" "take ?m es \<noteq> [] \<longrightarrow> 0 < k"
      by blast
    have "0 < ?m" using half(2) by simp
    then show ?thesis using k half(2) by (intro exI [of _ "min k ?m"] exI [of _ True]) (cases t'; auto simp: take_take)
  qed
qed

text \<open>
  An answer to \<open>events.since\<close> is a beginning of the page, not empty unless the page is, that the frame can hold,
  and its \<open>nextSinceSeq\<close> is the greatest number in it: by number nothing undelivered is passed. It says that more
  follows exactly when the page or the log has more.
\<close>

theorem since_answer_exact:
  assumes "handleEventsSince re fits True params (Some s) = (Inr resp, s')" and "s = (d, cache)"
    and "p = parse_since params"
    and "readEventsCursor re \<lparr> co_sinceSeq = Some (sp_sinceSeq p), co_limit = Some (sp_limit p),
           co_fromByteOffset = sp_fromByteOffset p, co_generation = sp_generation p \<rparr> s = (r, s2)"
  shows "fits resp \<and> (\<exists>k. sr_events resp = take k (cu_events r) \<and> (cu_events r = [] \<or> 0 < k)) \<and>
    (sr_events resp = [] \<or> sr_nextSinceSeq resp = Max (insert (sp_sinceSeq p) (seq_of ` set (sr_events resp)))) \<and>
    sr_hasMore resp = (length (sr_events resp) < cu_total r) \<and>
    (sr_truncated resp \<or> sr_events resp = cu_events r) \<and> sr_nextByteOffset resp = cu_nextByteOffset r"
proof -
  have "halve_page fits (sp_sinceSeq p) r (cu_events r) False = Some resp"
    using assms by (auto simp: handleEventsSince_def Let_def split: prod.splits option.splits)
  from halved [OF this] obtain k t where
    k: "resp = since_response (sp_sinceSeq p) r (take k (cu_events r)) t" "fits resp" "take k (cu_events r) = cu_events r \<or> t"
      "cu_events r \<noteq> [] \<longrightarrow> 0 < k" by blast
  then show ?thesis by (auto simp: since_response_def Let_def max_seq_Max)
qed

definition byte_options :: "int \<Rightarrow> nat \<Rightarrow> int \<Rightarrow> cursor_options" where
  "byte_options s k offset = \<lparr> co_sinceSeq = Some s, co_limit = Some (int k), co_fromByteOffset = Some offset, co_generation = None \<rparr>"

lemma complete_rest:
  assumes "buf = [] \<or> last buf = nl" and "drop n buf = lines_bytes ms @ rest" and "nl \<notin> set rest"
  shows "rest = []"
proof (rule ccontr)
  assume r: "rest \<noteq> []"
  then have "last buf = last rest" using assms(2) by (metis append_is_Nil_conv drop_eq_Nil2 last_appendR last_drop leI)
  then show False using assms(1,2,3) r by (metis append_is_Nil_conv drop_Nil last_in_set)
qed

lemma read_line_shrank: "jr_shrank (read_line parse marked g l r) = jr_shrank r"
  by (cases l) (simp add: read_line_def split: option.split)

lemma fold_read_shrank: "jr_shrank (fold (read_line parse marked g) ls r) = jr_shrank r"
  by (induction ls arbitrary: r) (simp_all add: read_line_shrank)

lemma read_from:
  fixes parse :: "string \<Rightarrow> 'a option"
  assumes "drop offset buf = lines_bytes ms @ rest" and "proper ms" and "nl \<notin> set rest" and "offset \<le> length buf"
    and "st = \<lparr> rd_byteOffset = offset, rd_lineCount = n \<rparr>"
  shows "jr_items (readJsonlSince parse marked (Some buf) st) = map fst (line_items parse offset ms)"
    "rd_byteOffset (jr_state (readJsonlSince parse marked (Some buf) st)) = length buf - length rest"
    "\<not> jr_shrank (readJsonlSince parse marked (Some buf) st)"
proof -
  show "jr_items (readJsonlSince parse marked (Some buf) st) = map fst (line_items parse offset ms)"
  proof (cases "length buf \<le> offset")
    case True
    then have "ms = []" using assms(1) by (cases ms) auto
    then show ?thesis using True assms(5) by (simp add: readJsonlSince_def readLinesSinceDetailed_def)
  next
    case False
    then show ?thesis using assms(5)
      by (simp add: readJsonlSince_def readLinesSinceDetailed_def assms(1) split_lines_eq [OF assms(2,3)] fold_read_lines Let_def)
  qed
  show "rd_byteOffset (jr_state (readJsonlSince parse marked (Some buf) st)) = length buf - length rest"
  proof (cases "length buf \<le> offset")
    case True
    then have "rest = []" using assms(1) by auto
    then show ?thesis using True assms(5) by (simp add: readJsonlSince_def readLinesSinceDetailed_def)
  next
    case False
    then show ?thesis using assms(5)
      by (simp add: readJsonlSince_def readLinesSinceDetailed_def assms(1) split_lines_eq [OF assms(2,3)] fold_read_lines Let_def)
  qed
  show "\<not> jr_shrank (readJsonlSince parse marked (Some buf) st)"
    using assms(4,5) by (auto simp: readJsonlSince_def readLinesSinceDetailed_def fold_read_shrank Let_def split: prod.split)
qed

lemma byte_read:
  assumes "ed_live d = Some buf" and "ed_archives d = []" and "buf = [] \<or> last buf = nl" and "co_generation opts = None"
    and "co_fromByteOffset opts = Some (int offset)" and "offset \<le> length buf"
  shows "cu_nextByteOffset (fst (byte_cursor re d opts)) \<in> {None, Some (length buf)} \<and>
    (offset = length buf \<longrightarrow> cu_events (fst (byte_cursor re d opts)) = [])"
proof -
  obtain ms rest where m: "drop offset buf = lines_bytes ms @ rest" "proper ms" "nl \<notin> set rest" by (rule lines_cases)
  have rest: "rest = []" by (rule complete_rest [OF assms(3) m(1,3)])
  note rf = read_from [OF m assms(6) refl, of "re_parse re" "fst (planPoisonSkip (ed_sidecar d) (length buf) None)" 0]
  have o1: "nullish (positiveInteger (co_fromByteOffset opts)) 0 = offset" using assms(5) by (simp add: positiveInteger_def)
  have "ms = []" if "offset = length buf" using m(1) that by (cases ms) auto
  then show ?thesis
    using rf rest assms(1,2,4) o1 by (auto simp: byte_cursor_def Let_def mergeArchiveTailEvents_def limited_def split: option.split)
qed

text \<open>
  A page that was cut because of the frame carries the byte offset after the whole page: a client that goes on
  from the offset never gets the events that were cut off.
\<close>

theorem cut_page_offset_skips:
  assumes "ed_live d = Some buf" and "ed_archives d = []" and "buf = [] \<or> last buf = nl"
    and "p = parse_since params" and "sp_fromByteOffset p = Some offset" and "sp_generation p = None"
    and "0 \<le> offset" and "nat offset \<le> length buf"
    and "handleEventsSince re fits True params (Some (d, cache)) = (Inr resp, Some (d2, cache2))"
    and "sr_events resp \<noteq> []" and "sr_nextByteOffset resp = Some b"
  shows "cu_events (fst (readEventsCursor re (byte_options s k (int b)) (d, cache))) = []"
proof -
  let ?opts = "\<lparr> co_sinceSeq = Some (sp_sinceSeq p), co_limit = Some (sp_limit p), co_fromByteOffset = sp_fromByteOffset p, co_generation = sp_generation p \<rparr>"
  obtain r s2 where R: "readEventsCursor re ?opts (d, cache) = (r, s2)" by (rule prod.exhaust)
  have "sr_nextByteOffset resp = cu_nextByteOffset r"
  proof -
    have "halve_page fits (sp_sinceSeq p) r (cu_events r) False = Some resp"
      using assms(9) R by (auto simp: handleEventsSince_def Let_def assms(4) split: prod.splits option.splits)
    then show ?thesis by (auto dest: halved simp: since_response_def Let_def)
  qed
  moreover have "cu_nextByteOffset r \<in> {None, Some (length buf)}"
    using byte_read [OF assms(1-3), of ?opts "nat offset" re] R assms(5-8) by (auto simp: readEventsCursor_def split: prod.splits)
  ultimately have "b = length buf" using assms(11) by auto
  then show ?thesis
    using byte_read [OF assms(1-3), of "byte_options s k (int b)" b re] by (auto simp: readEventsCursor_def byte_options_def split: prod.split)
qed

subsection \<open>After a rotation\<close>

definition keyed :: "(int \<times> team_event) list \<Rightarrow> bool" where
  "keyed m \<longleftrightarrow> list_all (\<lambda>(k, e). k = seq_of e) m"

lemma keyed_image: "keyed m \<Longrightarrow> seq_of ` snd ` set m = fst ` set m"
  unfolding keyed_def by (induction m) auto

lemma seq_of_Some: "te_seq e = Some n \<Longrightarrow> seq_of e = n"
  by (simp add: seq_of_def)

lemma keyed_drain_event: "keyed m \<Longrightarrow> keyed (drain_event s e m)"
  by (simp add: keyed_def drain_event_def seq_of_Some split: option.split)

lemma keyed_drain: "keyed m \<Longrightarrow> keyed (fold (drain_event s) es m)"
  by (induction es arbitrary: m) (simp_all add: keyed_drain_event)

lemma seq_of_pos: "0 \<le> s \<Longrightarrow> s < seq_of e \<longleftrightarrow> (\<exists>n. te_seq e = Some n \<and> s < n)"
  by (cases "te_seq e") (simp_all add: seq_of_def)

lemma drain_keys:
  "fst ` set (fold (drain_event s) es m) = fst ` set m \<union> {n. s < n \<and> (\<exists>e\<in>set es. te_seq e = Some n)}"
proof (induction es arbitrary: m)
  case (Cons e es)
  have "fst ` set (drain_event s e m) = fst ` set m \<union> {n. s < n \<and> te_seq e = Some n}"
    by (auto simp: drain_event_def split: option.split)
  then show ?case using Cons.IH [of "drain_event s e m"] by auto
qed simp

lemma keyed_set: "keyed m \<Longrightarrow> k = seq_of e \<Longrightarrow> keyed (omap_set k e m)"
  unfolding keyed_def by (induction k e m rule: omap_set.induct) auto

lemma keyed_merge: "keyed m \<Longrightarrow> keyed (fold (\<lambda>e. omap_set (seq_of e) e) es m)"
  by (induction es arbitrary: m) (simp_all add: keyed_set)

lemma merge_keys: "fst ` set (fold (\<lambda>e. omap_set (seq_of e) e) es m) = fst ` set m \<union> seq_of ` set es"
  by (induction es arbitrary: m) auto

lemma merged_seqs: "seq_of ` set (mergeArchiveTailEvents xs ys) = seq_of ` set xs \<union> seq_of ` set ys"
proof (cases "xs = []")
  case False
  have "keyed (fold (\<lambda>e. omap_set (seq_of e) e) (xs @ ys) [])" by (rule keyed_merge) (simp add: keyed_def)
  from keyed_image [OF this] merge_keys [of "xs @ ys" "[]"] show ?thesis
    using False by (simp only: mergeArchiveTailEvents_def if_False set_sort set_map) auto
qed (simp add: mergeArchiveTailEvents_def)

definition archive_events :: "read_env \<Rightarrow> events_dir \<Rightarrow> team_event list" where
  "archive_events re d = concat (map (ro_events \<circ> fst \<circ> readEventsFileTailWithIntegrity re ARCHIVE_TAIL_BYTES) (ed_archives d))"

lemma drained_seqs: "seq_of ` set (fst (readArchiveTailEvents re s d)) = {n. s < n \<and> (\<exists>e\<in>set (archive_events re d). te_seq e = Some n)}"
proof -
  have "keyed (fold (drain_event s) (archive_events re d) [])" by (rule keyed_drain) (simp add: keyed_def)
  from keyed_image [OF this] show ?thesis
    using drain_keys [of s "archive_events re d" "[]"] by (simp add: readArchiveTailEvents_def archive_events_def o_def Let_def)
qed

lemma limited_upto:
  assumes "\<forall>e\<in>set es. s < seq_of e"
  shows "seq_of ` set (limited limit es) = {n \<in> seq_of ` set es. n \<le> max_seq s (limited limit es)}"
proof (cases limit)
  case None
  then show ?thesis by (auto simp: limited_def max_seq_Max)
next
  case (Some k)
  let ?S = "sort_key seq_of es"
  have "sorted (map seq_of (take k ?S @ drop k ?S))" by simp
  then have le: "\<forall>x\<in>set (take k ?S). \<forall>y\<in>set (drop k ?S). seq_of x \<le> seq_of y"
    unfolding map_append sorted_append by simp
  have sub: "set (take k ?S) \<union> set (drop k ?S) = set es" by (metis append_take_drop_id set_append set_sort)
  have "seq_of y \<in> seq_of ` set (take k ?S)" if y: "y \<in> set (drop k ?S)" "seq_of y \<le> max_seq s (take k ?S)" for y
  proof -
    have "s < seq_of y" using y(1) sub assms by blast
    then obtain x where x: "x \<in> set (take k ?S)" "seq_of y \<le> seq_of x"
      using y(2) Max_ge_iff [of "insert s (seq_of ` set (take k ?S))" "seq_of y"] unfolding max_seq_Max by auto
    then have "seq_of x = seq_of y" using le y(1) by fastforce
    then show ?thesis using x(1) by (metis imageI)
  qed
  moreover have "\<forall>x\<in>set (take k ?S). seq_of x \<le> max_seq s (take k ?S)" by (simp add: max_seq_Max)
  ultimately show ?thesis unfolding limited_def Some option.case using sub by auto
qed

text \<open>
  C35. A reader that comes with a byte offset of an earlier generation, with any limit, is answered from the last
  4 MB of every archive and the whole live file: it is given exactly the numbers after its own that these hold, up to the next
  number of the answer. A limit cuts the page at its length, and a next byte offset is there exactly when nothing was
  cut, and then all the numbers are given. Numbers that only an earlier part of an archive holds, and events without
  a number, are not covered. The live file is not put aside by this read.
\<close>

theorem rotated_offset_answer:
  assumes "co_fromByteOffset opts = Some offset" and "co_generation opts = Some g" and "g \<noteq> int (ed_generation d)"
    and "positiveInteger (co_sinceSeq opts) = Some s" and "ed_live d = Some buf"
    and "readEventsCursor re opts (d, cache) = (r, d', cache')" and "ed_live d' \<noteq> None"
    and "held = {n. int s < n \<and> (\<exists>e \<in> set (archive_events re d) \<union> set (whole_log re buf). te_seq e = Some n)}"
  shows "seq_of ` set (cu_events r) = {n \<in> held. n \<le> cu_nextSeq r} \<and>
    length (cu_events r) = (case positiveInteger (co_limit opts) of None \<Rightarrow> cu_total r | Some k \<Rightarrow> min k (cu_total r)) \<and>
    (cu_nextByteOffset r = None \<longleftrightarrow> length (cu_events r) < cu_total r) \<and>
    (cu_nextByteOffset r \<noteq> None \<longrightarrow> seq_of ` set (cu_events r) = held) \<and> cu_generation r = Some (ed_generation d)"
proof -
  obtain ms rest where m: "buf = lines_bytes ms @ rest" "proper ms" "nl \<notin> set rest" by (rule lines_cases)
  let ?read = "readJsonlSince (re_parse re) (fst (planPoisonSkip (ed_sidecar d) (length buf) None)) (Some buf) \<lparr> rd_byteOffset = 0, rd_lineCount = 0 \<rparr>"
  have items: "jr_items ?read = whole_log re buf"
    using read_from(1) [of 0 buf ms rest, OF _ m(2,3) _ refl] m(1) whole_log_lines [OF m(2,3), of re] by simp
  obtain q sc where q: "commitPoisonFindings (re_now re) (ed_sidecar d) (length buf) None (with_reasons re (jr_failures ?read) id) (jr_staleMarkers ?read) = (q, sc)"
    by fastforce
  have r: "r = fst (byte_cursor re d opts)" "d' = snd (byte_cursor re d opts)"
    using assms(1,6) by (auto simp: readEventsCursor_def split: prod.splits)
  have q': "\<not> q" using r(2) assms(1-5,7) q by (auto simp: byte_cursor_def Let_def)
  define live where "live = filter (\<lambda>e. int s < seq_of e) (whole_log re buf)"
  define merged where "merged = mergeArchiveTailEvents (fst (readArchiveTailEvents re (int s) d)) live"
  define limit where "limit = positiveInteger (co_limit opts)"
  have ev: "cu_events r = limited limit merged" "cu_nextSeq r = max_seq (int s) (limited limit merged)" "cu_total r = length merged"
    "cu_nextByteOffset r = None \<longleftrightarrow> \<not> (case limit of None \<Rightarrow> True | Some k \<Rightarrow> length merged \<le> k)"
    "cu_generation r = Some (ed_generation d)"
    using assms(1-5) q q' items
    by (auto simp: r(1) byte_cursor_def merged_def live_def limit_def Let_def split: option.splits)
  have "seq_of ` set live = {n. int s < n \<and> (\<exists>e\<in>set (whole_log re buf). te_seq e = Some n)}"
    by (auto simp: live_def seq_of_pos seq_of_Some intro!: image_eqI)
  then have held: "seq_of ` set merged = held" unfolding merged_def assms(8) by (simp add: merged_seqs drained_seqs) blast
  have "\<forall>e\<in>set merged. int s < seq_of e" using held assms(8) by blast
  from limited_upto [OF this, of limit] have upto: "seq_of ` set (cu_events r) = {n \<in> held. n \<le> cu_nextSeq r}"
    unfolding ev held .
  moreover have "length (cu_events r) = (case limit of None \<Rightarrow> cu_total r | Some k \<Rightarrow> min k (cu_total r))"
    by (simp add: ev limited_def min.commute split: option.split)
  moreover have "seq_of ` set (cu_events r) = held" if "cu_nextByteOffset r \<noteq> None"
    using that ev(4) held by (simp add: ev(1) limited_def split: option.splits)
  ultimately show ?thesis using ev(4,5) by (auto simp: limit_def ev(3) split: option.splits)
qed

subsection \<open>Witnesses\<close>

definition numbered_event :: "int \<Rightarrow> team_event" where
  "numbered_event n = one_event\<lparr>te_seq := Some n\<rparr>"

text \<open>A line of \<open>n\<close> letters is the event of number \<open>n\<close>.\<close>

definition tally_env :: read_env where
  "tally_env = \<lparr> re_parse = (\<lambda>s. Some (numbered_event (int (length s)))), re_reason = (\<lambda>_. ''bad''), re_now = ''t'' \<rparr>"

definition dir_of :: "string option \<Rightarrow> events_file list \<Rightarrow> nat \<Rightarrow> events_dir" where
  "dir_of f ars gen = \<lparr> ed_live = f, ed_sidecar = None, ed_ino = 1, ed_mtime = 1, ed_archives = ars, ed_generation = gen \<rparr>"

definition tally_log :: string where "tally_log = ''x\<newline>xxx\<newline>xx\<newline>''"

lemma tally_whole: "map te_seq (whole_log tally_env tally_log) = [Some 1, Some 3, Some 2]"
  by code_simp

lemma tally_healthy: "healthy tally_env (dir_of (Some tally_log) [] 0) tally_log"
proof -
  have "jw_failures (parseJsonlWindow (re_parse tally_env) {} 0 tally_log) = []" by code_simp
  then show ?thesis by (simp add: healthy_def dir_of_def TAIL_BYTES_def) (simp add: tally_log_def)
qed

theorem cached_reads_exact_witness:
  "\<exists>d cache. run_events (cursor_step tally_env) [ReadCached 1 2, ReplaceLog (Some tally_log) 7 1 None [], GrowLog ''xxxx\<newline>'' 2] (dir_of (Some tally_log) [] 0, None) = Some (d, Some cache) \<and>
     map te_seq (cu_events (the (fst (readEventsCursorTailCached tally_env d (Some cache) 1 2)))) = [Some 2, Some 3]"
proof -
  let ?run = "run_events (cursor_step tally_env) [ReadCached 1 2, ReplaceLog (Some tally_log) 7 1 None [], GrowLog ''xxxx\<newline>'' 2] (dir_of (Some tally_log) [] 0, None)"
  have "map_option (\<lambda>(d, c). (ed_live d, c \<noteq> None)) ?run = Some (Some (tally_log @ ''xxxx\<newline>''), True)"
    by code_simp
  then obtain d cache where run: "?run = Some (d, Some cache)" "ed_live d = Some (tally_log @ ''xxxx\<newline>'')" by auto
  obtain res d' cache' where out: "readEventsCursorTailCached tally_env d (Some cache) 1 2 = (res, d', cache')" by (rule prod_cases3)
  have "map_option (\<lambda>(d, c). ed_live (fst (snd (readEventsCursorTailCached tally_env d c 1 2))) \<noteq> None) ?run = Some True"
    by code_simp
  then have "ed_live d' \<noteq> None" using run(1) out by simp
  moreover have "events_within (cursor_step tally_env) tells_apart [ReadCached 1 2, ReplaceLog (Some tally_log) 7 1 None [], GrowLog ''xxxx\<newline>'' 2] (dir_of (Some tally_log) [] 0, None)"
    by code_simp
  ultimately obtain r where
    r: "res = Some r" "same_answer r (parsed_answer tally_env d (tally_log @ ''xxxx\<newline>'') 1 2)"
    using cached_reads_exact [OF run out] by blast
  have "map_option (\<lambda>(d, c). map te_seq (cu_events (parsed_answer tally_env d (tally_log @ ''xxxx\<newline>'') 1 2))) ?run = Some [Some 2, Some 3]"
    by code_simp
  then show ?thesis using run(1) out r by (simp add: same_answer_def)
qed

text \<open>
  A file with the inode number of the entry, of its size and its time, is taken for the file the entry was made of:
  the answer is made of the events of a file that is gone.
\<close>

theorem reused_inode_answers_stale:
  "map_option (\<lambda>(d, cache). (map te_seq (cu_events (the (fst (readEventsCursorTailCached tally_env d cache 1 2)))),
      map te_seq (cu_events (parsed_answer tally_env d (the (ed_live d)) 1 2))))
     (run_events (cursor_step tally_env) [ReadCached 1 2, ReplaceLog (Some ''xxxxxxxx\<newline>'') 1 1 None []]
        (dir_of (Some tally_log) [] 0, None)) = Some ([Some 2, Some 3], [Some 8])"
  by code_simp

theorem seq_paging_complete_witness:
  "map te_seq (read_pages tally_env 1 3 0 (dir_of (Some tally_log) [] 0, None)) = [Some 1, Some 2, Some 3]"
proof -
  have "length (whole_log tally_env tally_log) = 3" "distinct (map seq_of (whole_log tally_env tally_log))" by code_simp+
  then have "read_pages tally_env 1 3 (int 0) (dir_of (Some tally_log) [] 0, None) =
      filter (\<lambda>e. int 0 < seq_of e) (sort_key seq_of (whole_log tally_env tally_log))"
    using seq_paging_complete [OF tally_healthy, of 1 3 0] by (simp add: TAIL_EVENT_CAP_def)
  moreover have "map te_seq (filter (\<lambda>e. 0 < seq_of e) (sort_key seq_of (whole_log tally_env tally_log))) = [Some 1, Some 2, Some 3]"
    by code_simp
  ultimately show ?thesis by simp
qed

theorem since_answer_exact_witness:
  "\<exists>resp s'. handleEventsSince tally_env (\<lambda>r. length (sr_events r) \<le> 2) True (Some (JObj [])) (Some (dir_of (Some tally_log) [] 0, None)) = (Inr resp, s') \<and>
     map te_seq (sr_events resp) = [Some 1, Some 2] \<and> sr_nextSinceSeq resp = 2 \<and> sr_hasMore resp"
proof -
  let ?s = "(dir_of (Some tally_log) [] 0, None)"
  let ?fits = "\<lambda>r. length (sr_events r) \<le> 2"
  obtain out s' where R: "handleEventsSince tally_env ?fits True (Some (JObj [])) (Some ?s) = (out, s')" by fastforce
  have o1: "case fst (handleEventsSince tally_env ?fits True (Some (JObj [])) (Some ?s)) of Inl _ \<Rightarrow> False | Inr resp \<Rightarrow>
      map te_seq (sr_events resp) = [Some 1, Some 2] \<and> sr_nextSinceSeq resp = 2"
    by code_simp
  then obtain resp where resp: "out = Inr resp" "map te_seq (sr_events resp) = [Some 1, Some 2]" "sr_nextSinceSeq resp = 2"
    using R by (auto split: sum.splits)
  obtain r s2 where rd: "readEventsCursor tally_env \<lparr> co_sinceSeq = Some (sp_sinceSeq (parse_since (Some (JObj [])))), co_limit = Some (sp_limit (parse_since (Some (JObj [])))),
      co_fromByteOffset = sp_fromByteOffset (parse_since (Some (JObj []))), co_generation = sp_generation (parse_since (Some (JObj []))) \<rparr> ?s = (r, s2)"
    by (rule prod.exhaust)
  have "cu_total (fst (readEventsCursor tally_env \<lparr> co_sinceSeq = Some (sp_sinceSeq (parse_since (Some (JObj [])))), co_limit = Some (sp_limit (parse_since (Some (JObj [])))),
      co_fromByteOffset = sp_fromByteOffset (parse_since (Some (JObj []))), co_generation = sp_generation (parse_since (Some (JObj []))) \<rparr> ?s)) = 3"
    by code_simp
  then have "cu_total r = 3" using rd by simp
  moreover have "length (sr_events resp) = 2" using resp(2) by (metis length_map list.size(3,4) One_nat_def Suc_1 add.right_neutral add_Suc_right)
  ultimately have "sr_hasMore resp" using since_answer_exact [OF R [unfolded resp(1)] refl refl rd] by simp
  then show ?thesis using R resp by auto
qed

theorem rotated_offset_answer_witness:
  "map te_seq (cu_events (fst (readEventsCursor tally_env
     \<lparr> co_sinceSeq = Some 2, co_limit = Some 2, co_fromByteOffset = Some 9, co_generation = Some 0 \<rparr>
     (dir_of (Some ''xxxxxx\<newline>'') [\<lparr> ef_bytes = tally_log @ ''xxxxx\<newline>'', ef_sidecar = None \<rparr>] 1, None)))) = [Some 3, Some 5]
   \<and> {n. 2 < n \<and> (\<exists>e \<in> set (archive_events tally_env (dir_of (Some ''xxxxxx\<newline>'') [\<lparr> ef_bytes = tally_log @ ''xxxxx\<newline>'', ef_sidecar = None \<rparr>] 1)) \<union>
        set (whole_log tally_env ''xxxxxx\<newline>''). te_seq e = Some n) \<and> n \<le> 5} = {3, 5}"
proof -
  let ?opts = "\<lparr> co_sinceSeq = Some 2, co_limit = Some 2, co_fromByteOffset = Some 9, co_generation = Some 0 \<rparr>"
  let ?d = "dir_of (Some ''xxxxxx\<newline>'') [\<lparr> ef_bytes = tally_log @ ''xxxxx\<newline>'', ef_sidecar = None \<rparr>] 1"
  obtain r d' cache' where R: "readEventsCursor tally_env ?opts (?d, None) = (r, d', cache')" by (rule prod_cases3)
  have "ed_live (fst (snd (readEventsCursor tally_env ?opts (?d, None)))) \<noteq> None" by code_simp
  then have "ed_live d' \<noteq> None" using R by simp
  then have "seq_of ` set (cu_events r) = {n \<in> {n. int 2 < n \<and> (\<exists>e \<in> set (archive_events tally_env ?d) \<union> set (whole_log tally_env ''xxxxxx\<newline>''). te_seq e = Some n)}.
      n \<le> cu_nextSeq r}"
    using rotated_offset_answer [of ?opts 9 0 ?d 2 "''xxxxxx\<newline>''" tally_env None r d' cache', OF _ _ _ _ _ R _ refl]
    by (simp add: dir_of_def positiveInteger_def)
  moreover have o1: "map te_seq (cu_events (fst (readEventsCursor tally_env ?opts (?d, None)))) = [Some 3, Some 5]" by code_simp
  moreover have "cu_nextSeq (fst (readEventsCursor tally_env ?opts (?d, None))) = 5" by code_simp
  moreover have "seq_of ` set (cu_events (fst (readEventsCursor tally_env ?opts (?d, None)))) = {3, 5}" by code_simp
  ultimately show ?thesis using R by (intro conjI o1) (auto)
qed

theorem cut_page_offset_skips_witness:
  "\<exists>resp s'. handleEventsSince tally_env (\<lambda>r. length (sr_events r) \<le> 2) True (Some (JObj [(''fromByteOffset'', JNum (Fin 0))]))
      (Some (dir_of (Some tally_log) [] 0, None)) = (Inr resp, Some s') \<and>
     map te_seq (sr_events resp) = [Some 1, Some 2] \<and> sr_nextByteOffset resp = Some 9 \<and>
     cu_events (fst (readEventsCursor tally_env (byte_options 0 10 9) (dir_of (Some tally_log) [] 0, None))) = []"
proof -
  let ?s = "(dir_of (Some tally_log) [] 0, None)"
  let ?fits = "\<lambda>r. length (sr_events r) \<le> 2"
  let ?v = "Some (JObj [(''fromByteOffset'', JNum (Fin 0))])"
  let ?h = "handleEventsSince tally_env ?fits True ?v (Some ?s)"
  have o1: "case ?h of (Inr resp, Some s') \<Rightarrow> map te_seq (sr_events resp) = [Some 1, Some 2] \<and> sr_nextByteOffset resp = Some 9 | _ \<Rightarrow> False"
    by code_simp
  then obtain resp s' where R: "?h = (Inr resp, Some s')" "map te_seq (sr_events resp) = [Some 1, Some 2]" "sr_nextByteOffset resp = Some 9"
    by (auto split: prod.splits sum.splits option.splits)
  obtain d2 c2 where s': "s' = (d2, c2)" by (cases s')
  have p: "sp_fromByteOffset (parse_since ?v) = Some 0" "sp_generation (parse_since ?v) = None" by code_simp+
  have "sr_events resp \<noteq> []" using R(2) by auto
  from cut_page_offset_skips [OF _ _ _ refl p _ _ R(1) [unfolded s'] this R(3), of tally_log 0 10] have
    "cu_events (fst (readEventsCursor tally_env (byte_options 0 10 (int 9)) ?s)) = []"
    by (simp add: dir_of_def tally_log_def nl_def)
  then show ?thesis using R by auto
qed

text \<open>A log of 5001 events: a line of two letters is a number.\<close>

definition pair_code :: "nat \<Rightarrow> string" where
  "pair_code n = [char_of (40 + n mod 80), char_of (40 + n div 80)]"

definition pair_env :: read_env where
  "pair_env = \<lparr> re_parse = (\<lambda>s. Some (numbered_event (int (of_char (s ! 0) - 40 + 80 * (of_char (s ! 1) - 40))))),
     re_reason = (\<lambda>_. ''bad''), re_now = ''t'' \<rparr>"

definition pair_log :: "nat \<Rightarrow> string" where "pair_log m = lines_bytes (map pair_code [1..<m])"

lemma letters: fixes k :: nat shows "k < 80 \<Longrightarrow> \<not> js_space (char_of (40 + k)) \<and> char_of (40 + k) \<noteq> nl \<and> of_char (char_of (40 + k) :: char) = 40 + k"
proof -
  have "list_all (\<lambda>k. \<not> js_space (char_of (40 + k)) \<and> char_of (40 + k) \<noteq> nl) [0..<80]" by code_simp
  then show "k < 80 \<Longrightarrow> ?thesis" by (simp add: list_all_iff)
qed

lemma pair_value:
  assumes "n < 6400"
  shows "line_value (re_parse pair_env) (pair_code n) = Some (numbered_event (int n))" and "nl \<notin> set (pair_code n)"
proof -
  have "n mod 80 < 80" "n div 80 < 80" using assms by (simp_all add: less_mult_imp_div_less)
  note l = letters [OF this(1)] letters [OF this(2)]
  have "n mod 80 + 80 * (n div 80) = n" by simp
  then have nm: "int (n mod 80) + 80 * int (n div 80) = int n" by (metis of_nat_add of_nat_mult of_nat_numeral)
  show "nl \<notin> set (pair_code n)" using l by (auto simp: pair_code_def)
  have "js_trim (pair_code n) = pair_code n" using l by (simp add: js_trim_def pair_code_def)
  then show "line_value (re_parse pair_env) (pair_code n) = Some (numbered_event (int n))"
    using l nm by (simp add: line_value_def pair_code_def pair_env_def)
qed

lemma pair_items: "\<forall>n\<in>set ns. n < 6400 \<Longrightarrow>
   map fst (line_items (re_parse pair_env) pos (map pair_code ns)) = map (numbered_event \<circ> int) ns"
  by (induction ns arbitrary: pos) (simp_all add: pair_value)

lemma pair_log_facts:
  assumes "m \<le> 6400"
  shows "whole_log pair_env (pair_log m) = map (numbered_event \<circ> int) [1..<m]" "healthy pair_env (dir_of (Some (pair_log m)) [] 0) (pair_log m)"
proof -
  have small: "\<forall>n\<in>set [1..<m]. n < 6400" using assms by simp
  have pr: "proper (map pair_code [1..<m])" using pair_value(2) small by (auto simp: proper_def)
  note w = whole_log_lines [OF pr, of "[]" pair_env] window_lines(2) [OF pr, of "[]" "re_parse pair_env" "{}" 0]
  show "whole_log pair_env (pair_log m) = map (numbered_event \<circ> int) [1..<m]"
    using w(1) pair_items [OF small] by (simp add: pair_log_def)
  have "\<not> fails (re_parse pair_env) l" for l by (simp add: fails_def pair_env_def)
  moreover have "length (lines_bytes (map pair_code ns)) = 3 * length ns" for ns
    by (induction ns) (simp_all add: pair_code_def)
  ultimately show "healthy pair_env (dir_of (Some (pair_log m)) [] 0) (pair_log m)"
    using w(2) assms by (simp add: healthy_def dir_of_def pair_log_def line_failures_none TAIL_BYTES_def)
qed

theorem cap_skips_events_witness:
  "\<exists>r d' cache'. readEventsCursor pair_env (page_options 0 10) (dir_of (Some (pair_log 5002)) [] 0, None) = (r, d', cache') \<and>
     numbered_event 1 \<notin> set (cu_events r) \<and> 1 < cu_nextSeq r \<and> \<not> cu_truncated r"
proof -
  define m :: nat where "m = 5002"
  have m: "m \<le> 6400" "1 < m" "TAIL_EVENT_CAP \<le> m - 2" by (simp_all add: m_def TAIL_EVENT_CAP_def)
  let ?s = "(dir_of (Some (pair_log m)) [] 0, None)"
  let ?es = "map (numbered_event \<circ> int) [2..<m]"
  obtain r d' cache' where R: "readEventsCursor pair_env (page_options 0 10) ?s = (r, d', cache')" by (rule prod_cases3)
  have "[1..<m] = 1 # [2..<m]" using m(2) by (simp add: upt_conv_Cons numeral_2_eq_2)
  then have w: "whole_log pair_env (pair_log m) = numbered_event 1 # ?es" using pair_log_facts(1) [OF m(1)] by simp
  have num: "seq_of (numbered_event n) = n" for n by (simp add: seq_of_def numbered_event_def)
  have "numbered (numbered_event 1 # ?es)"
    unfolding numbered_def by (simp add: num sorted_wrt_map sorted_wrt_upt)
  from cap_skips_events [OF pair_log_facts(2) [OF m(1)] w this _ _ _ R] have
    "numbered_event 1 \<notin> set (cu_events r) \<and> 1 < cu_nextSeq r \<and> \<not> cu_truncated r" using m(3) by (simp add: num)
  then show ?thesis using R unfolding m_def by blast
qed

end
