(* ===== verification/TaskRecovery.thy ===== *)
theory TaskRecovery
  imports EventCursor Contracts
begin

text \<open>
  Loading the tasks of a run and getting them back when their file is damaged: the reconstruction of tasks from the
  event log (\<open>src/src/state/event-log/event-reconstructor.ts\<close>) and the loader of \<open>tasks.json\<close> and
  \<open>manifest.json\<close> (\<open>src/src/state/stores/manifest-io.ts\<close>). Loaded tasks are JSON values: the loader checks
  their shape. Logging and the report of a recovery, but for what it counts, are left out.
\<close>

subsection \<open>Tasks from events\<close>

definition TASK_LIFECYCLE_EVENT_TYPES :: "string set" where
  "TASK_LIFECYCLE_EVENT_TYPES = {''task.created'', ''task.started'', ''task.completed'', ''task.failed'', ''task.skipped'',
     ''task.cancelled'', ''task.needs_attention'', ''task.waiting'', ''task.resumed'', ''task.waiting_repaired'',
     ''task.retried'', ''task.blocked'', ''task.progress'', ''task.green'', ''task.red''}"

definition TERMINAL_EVENTS :: "string set" where
  "TERMINAL_EVENTS = {''task.completed'', ''task.failed'', ''task.cancelled'', ''task.skipped'', ''task.needs_attention''}"

definition EVENT_STATUS_MAP :: "(string \<times> string) list" where
  "EVENT_STATUS_MAP = [(''task.created'', ''created''), (''task.started'', ''running''), (''task.completed'', ''completed''),
     (''task.failed'', ''failed''), (''task.skipped'', ''skipped''), (''task.cancelled'', ''cancelled''),
     (''task.needs_attention'', ''needs_attention''), (''task.waiting'', ''waiting''), (''task.resumed'', ''running''),
     (''task.waiting_repaired'', ''waiting''), (''task.retried'', ''queued'')]"

record recovered_task =
  rt_id :: string
  rt_status :: string
  rt_startedAt :: "string option"
  rt_finishedAt :: "string option"
  rt_error :: "string option"
  rt_segment :: "jsnum option"
  rt_diagnostics :: "json option"
  rt_metrics :: "(string \<times> jsnum) list option"

definition new_task :: "string \<Rightarrow> recovered_task" where
  "new_task i = \<lparr> rt_id = i, rt_status = ''created'', rt_startedAt = None, rt_finishedAt = None, rt_error = None,
     rt_segment = None, rt_diagnostics = None, rt_metrics = None \<rparr>"

fun safeNumber :: "json option \<Rightarrow> jsnum option" where
  "safeNumber (Some (JNum (Fin r))) = Some (Fin r)"
| "safeNumber v = None"

definition safeRecord :: "json option \<Rightarrow> json option" where
  "safeRecord v = (if is_record v then v else None)"

fun safeNumericRecord :: "json option \<Rightarrow> (string \<times> jsnum) list option" where
  "safeNumericRecord (Some (JObj kvs)) =
     (let ns = List.map_filter (\<lambda>(k, v). map_option (Pair k) (safeNumber (Some v))) kvs in if ns = [] then None else Some ns)"
| "safeNumericRecord v = None"

text \<open>What one lifecycle event does to its task; a later value replaces an earlier one.\<close>

definition later :: "'a option \<Rightarrow> 'a option \<Rightarrow> 'a option" where
  "later new old = (if new = None then old else new)"

definition event_on_task :: "team_event \<Rightarrow> recovered_task \<Rightarrow> recovered_task" where
  "event_on_task e t =
     t\<lparr>rt_status := nullish (map_of EVENT_STATUS_MAP (te_type e)) (rt_status t),
       rt_startedAt := (if te_type e = ''task.started'' then Some (te_time e) else rt_startedAt t),
       rt_finishedAt := (if te_type e \<in> TERMINAL_EVENTS then Some (te_time e) else rt_finishedAt t),
       rt_error := (if te_type e = ''task.failed'' \<and> truthy (te_message e) then te_message e else rt_error t),
       rt_segment := later (safeNumber (jfield (te_data e) ''segment'')) (rt_segment t),
       rt_diagnostics := later (safeRecord (jfield (te_data e) ''diagnostics'')) (rt_diagnostics t),
       rt_metrics := later (safeNumericRecord (jfield (te_data e) ''metrics'')) (rt_metrics t)\<rparr>"

definition process_event :: "team_event \<Rightarrow> (string \<times> recovered_task) list \<Rightarrow> (string \<times> recovered_task) list" where
  "process_event e tasks =
     (case te_taskId e of
        None \<Rightarrow> tasks
      | Some i \<Rightarrow>
          if i = [] \<or> te_type e \<notin> TASK_LIFECYCLE_EVENT_TYPES then tasks
          else omap_set i (event_on_task e (nullish (map_of tasks i) (new_task i))) tasks)"

definition processEvents :: "team_event list \<Rightarrow> (string \<times> recovered_task) list" where
  "processEvents events = fold process_event events []"

definition reconstructTasksFromEvents :: "read_env \<Rightarrow> events_dir \<Rightarrow> (string \<times> recovered_task) list" where
  "reconstructTasksFromEvents re d = processEvents (readEvents re d)"

subsection \<open>The loader\<close>

text \<open>A task made from what the log knows, with defaults for the rest.\<close>

definition task_json :: "string \<Rightarrow> recovered_task \<Rightarrow> json" where
  "task_json runId t = jobject
     [(''id'', Some (JStr (rt_id t))), (''runId'', Some (JStr runId)), (''role'', Some (JStr ''unknown'')),
      (''agent'', Some (JStr ''unknown'')), (''title'', Some (JStr ''reconstructed from events'')),
      (''status'', Some (JStr (if isTeamTaskStatus (rt_status t) then rt_status t else ''queued''))),
      (''dependsOn'', Some (JArr [])), (''cwd'', Some (JStr [])),
      (''startedAt'', map_option JStr (rt_startedAt t)), (''finishedAt'', map_option JStr (rt_finishedAt t)),
      (''error'', map_option JStr (rt_error t)), (''segment'', map_option JNum (rt_segment t)),
      (''diagnostics'', rt_diagnostics t), (''metrics'', map_option (\<lambda>ns. JObj (map (\<lambda>(k, n). (k, JNum n)) ns)) (rt_metrics t))]"

definition reconstructTasksFromEventLog :: "string \<Rightarrow> (string \<times> recovered_task) list \<Rightarrow> json list" where
  "reconstructTasksFromEventLog runId tasks = map (task_json runId \<circ> snd) tasks"

definition plausibleTaskShape :: "json \<Rightarrow> bool" where
  "plausibleTaskShape v \<longleftrightarrow> is_record (Some v) \<and>
     list_all (\<lambda>k. jstring (jfield (Some v) k) \<noteq> None) [''id'', ''runId'', ''role'', ''agent'', ''title'', ''status''] \<and>
     (case jfield (Some v) ''dependsOn'' of
        None \<Rightarrow> True
      | Some d \<Rightarrow> (case jarray (Some d) of None \<Rightarrow> False | Some ds \<Rightarrow> list_all (\<lambda>x. jstring (Some x) \<noteq> None) ds)) \<and>
     (case jfield (Some v) ''cwd'' of None \<Rightarrow> True | Some c \<Rightarrow> jstring (Some c) \<noteq> None)"

definition MAX_LOADED_TASKS :: nat where "MAX_LOADED_TASKS = 10000"

definition belongs :: "string \<Rightarrow> json \<Rightarrow> bool" where
  "belongs runId v \<longleftrightarrow> plausibleTaskShape v \<and> jstring (jfield (Some v) ''runId'') = Some runId"

definition sanitizeLoadedTasks :: "json list \<Rightarrow> string \<Rightarrow> json list" where
  "sanitizeLoadedTasks tasks runId = filter (belongs runId) (take MAX_LOADED_TASKS tasks)"

definition KNOWN_RUN_KINDS :: "string set" where
  "KNOWN_RUN_KINDS = {''team-run'', ''goal-loop'', ''dynamic-workflow''}"

definition sanitizeLoadedManifest :: "json option \<Rightarrow> json option" where
  "sanitizeLoadedManifest m =
     (case m of
        Some (JObj kvs) \<Rightarrow>
          (case jfield m ''runKind'' of
             None \<Rightarrow> m
           | Some k \<Rightarrow> (case jstring (Some k) of
                           Some s \<Rightarrow> if s \<in> KNOWN_RUN_KINDS then m else Some (JObj (omap_set ''runKind'' (JStr ''team-run'') kvs))
                         | None \<Rightarrow> Some (JObj (omap_set ''runKind'' (JStr ''team-run'') kvs))))
      | _ \<Rightarrow> None)"

definition extractTaskArray :: "json \<Rightarrow> json list" where
  "extractTaskArray v = (case v of JArr xs \<Rightarrow> xs | _ \<Rightarrow> nullish (jarray (jfield (Some v) ''tasks'')) [])"

definition isRecognizableTasksPayload :: "json \<Rightarrow> bool" where
  "isRecognizableTasksPayload v \<longleftrightarrow> (case v of JArr xs \<Rightarrow> True | _ \<Rightarrow> jarray (jfield (Some v) ''tasks'') \<noteq> None)"

text \<open>The scanner of a damaged payload: the depth of braces, the object being read, and where in a string it is.\<close>

record salvage_state =
  sv_depth :: nat
  sv_object :: "string option"
  sv_inString :: bool
  sv_escaped :: bool

definition salvage_start :: salvage_state where
  "salvage_start = \<lparr> sv_depth = 0, sv_object = None, sv_inString = False, sv_escaped = False \<rparr>"

definition salvage_char :: "char \<Rightarrow> salvage_state \<Rightarrow> string list \<times> salvage_state" where
  "salvage_char c s =
     (let s1 = s\<lparr>sv_object := map_option (\<lambda>t. t @ [c]) (sv_object s)\<rparr>
      in if sv_inString s
         then ([], if sv_escaped s then s1\<lparr>sv_escaped := False\<rparr>
                   else if c = CHR 0x5C then s1\<lparr>sv_escaped := True\<rparr>
                   else if c = CHR 0x22 then s1\<lparr>sv_inString := False\<rparr> else s1)
         else if c = CHR 0x22 then ([], s1\<lparr>sv_inString := True\<rparr>)
         else if c = CHR ''{''
         then ([], s1\<lparr>sv_object := (if sv_depth s = 0 then Some [c] else sv_object s1), sv_depth := sv_depth s + 1\<rparr>)
         else if c = CHR ''}'' \<and> 0 < sv_depth s
         then (if sv_depth s = 1 \<and> sv_object s \<noteq> None
               then ([the (sv_object s1)], s1\<lparr>sv_depth := 0, sv_object := None\<rparr>)
               else ([], s1\<lparr>sv_depth := sv_depth s - 1\<rparr>))
         else ([], s1))"

fun salvage_run :: "string \<Rightarrow> salvage_state \<Rightarrow> string list \<times> salvage_state" where
  "salvage_run [] s = ([], s)"
| "salvage_run (c # cs) s =
     (case salvage_char c s of (out, s') \<Rightarrow> case salvage_run cs s' of (outs, s'') \<Rightarrow> (out @ outs, s''))"

definition object_id :: "(string \<Rightarrow> json option) \<Rightarrow> string \<Rightarrow> string option" where
  "object_id parse t = jstring (jfield (parse t) ''id'')"

definition salvageTaskIds :: "(string \<Rightarrow> json option) \<Rightarrow> string \<Rightarrow> string list" where
  "salvageTaskIds parse raw = List.map_filter (object_id parse) (fst (salvage_run raw salvage_start))"

record recovery_report =
  rp_reconstructed :: nat
  rp_salvaged :: nat
  rp_dropped :: "string list"

definition recoverCorruptTasks :: "(string \<Rightarrow> json option) \<Rightarrow> (string \<times> recovered_task) list \<Rightarrow> string \<Rightarrow> string \<Rightarrow> json list \<times> recovery_report" where
  "recoverCorruptTasks parse fromLog runId raw =
     (let tasks = reconstructTasksFromEventLog runId fromLog; ids = salvageTaskIds parse raw
      in (tasks, \<lparr> rp_reconstructed = length tasks, rp_salvaged = length ids,
            rp_dropped = filter (\<lambda>i. i \<notin> (rt_id \<circ> snd) ` set fromLog) ids \<rparr>))"

text \<open>The tasks, what is written in place of the file, which was put aside, and the report.\<close>

definition loadTasksWithRecovery :: "(string \<Rightarrow> json option) \<Rightarrow> (string \<times> recovered_task) list \<Rightarrow> string \<Rightarrow> string option \<Rightarrow>
    json list \<times> json list option \<times> recovery_report option" where
  "loadTasksWithRecovery parse fromLog runId f =
     (case f of
        None \<Rightarrow> ([], None, None)
      | Some content \<Rightarrow>
          let recover = (case recoverCorruptTasks parse fromLog runId content of
                (tasks, report) \<Rightarrow> let kept = sanitizeLoadedTasks tasks runId in (kept, if kept = [] then None else Some kept, Some report))
          in case parse content of
               None \<Rightarrow> recover
             | Some v \<Rightarrow> if isRecognizableTasksPayload v then (sanitizeLoadedTasks (extractTaskArray v) runId, None, None) else recover)"

text \<open>The manifest, and whether the file is put aside.\<close>

definition loadManifestWithRecovery :: "(string \<Rightarrow> json option) \<Rightarrow> string option \<Rightarrow> json option \<times> bool" where
  "loadManifestWithRecovery parse f =
     (case f of
        None \<Rightarrow> (None, False)
      | Some content \<Rightarrow>
          (case parse content of
             Some v \<Rightarrow> if is_record (Some v) then (sanitizeLoadedManifest (Some v), False) else (None, True)
           | None \<Rightarrow> (None, True)))"

subsection \<open>What is reconstructed\<close>

text \<open>The events that say something of a task.\<close>

definition about_task :: "string \<Rightarrow> team_event \<Rightarrow> bool" where
  "about_task i e \<longleftrightarrow> te_taskId e = Some i \<and> i \<noteq> [] \<and> te_type e \<in> TASK_LIFECYCLE_EVENT_TYPES"

lemma process_lookup:
  "map_of (process_event e tasks) i =
     (if about_task i e then Some (event_on_task e (nullish (map_of tasks i) (new_task i))) else map_of tasks i)"
  by (auto simp: process_event_def about_task_def split: option.splits)

lemma processEvents_snoc: "processEvents (es @ [e]) = process_event e (processEvents es)"
  by (simp add: processEvents_def)

text \<open>The status that the last event of a list with a status gives, if any has one.\<close>

definition last_status :: "team_event list \<Rightarrow> string option" where
  "last_status es = (let ss = List.map_filter (\<lambda>e. map_of EVENT_STATUS_MAP (te_type e)) es in if ss = [] then None else Some (last ss))"

lemma last_status_snoc: "last_status (es @ [e]) = later (map_of EVENT_STATUS_MAP (te_type e)) (last_status es)"
  by (auto simp: last_status_def later_def List.map_filter_def Let_def)

lemma on_task_simps [simp]:
  "rt_status (event_on_task e t) = nullish (map_of EVENT_STATUS_MAP (te_type e)) (rt_status t)" "rt_id (event_on_task e t) = rt_id t"
  by (simp_all add: event_on_task_def)

text \<open>
  A task is reconstructed exactly when some lifecycle event is about it, from its own events alone, and with the
  status of the last of them that has one (\<open>created\<close> when none has).
\<close>

theorem reconstruction_exact:
  "map_of (processEvents es) i = map_of (processEvents (filter (about_task i) es)) i \<and>
   (map_of (processEvents es) i = None) = (filter (about_task i) es = []) \<and>
   map_option rt_status (map_of (processEvents es) i) =
     (if filter (about_task i) es = [] then None else Some (nullish (last_status (filter (about_task i) es)) ''created''))"
proof (induction es rule: rev_induct)
  case Nil
  then show ?case by (simp add: processEvents_def)
next
  case (snoc e es)
  show ?case
  proof (cases "about_task i e")
    case True
    define F where "F = filter (about_task i) es"
    have F: "filter (about_task i) (es @ [e]) = F @ [e]" using True by (simp add: F_def)
    note ih = snoc [folded F_def]
    have st: "rt_status (nullish (map_of (processEvents es) i) (new_task i)) = nullish (last_status F) ''created''"
      using ih by (cases "map_of (processEvents es) i") (auto simp: new_task_def last_status_def map_filter_simps split: if_splits)
    have "nullish (last_status (F @ [e])) ''created'' = rt_status (event_on_task e (nullish (map_of (processEvents es) i) (new_task i)))"
      using st by (cases "map_of EVENT_STATUS_MAP (te_type e)") (simp_all add: last_status_snoc later_def split del: nullish_split)
    then show ?thesis using ih True unfolding F processEvents_snoc process_lookup by (simp split del: nullish_split)
  next
    case False
    then have F: "filter (about_task i) (es @ [e]) = filter (about_task i) es" by simp
    show ?thesis unfolding F processEvents_snoc process_lookup if_not_P [OF False] by (rule snoc)
  qed
qed

text \<open>
  What an attempt left behind survives a retry: a task that failed and is queued again is reconstructed as queued
  with the end time and the error of the attempt that failed.
\<close>

theorem retry_keeps_outcome:
  assumes "about_task i failed" and "te_type failed = ''task.failed''" and "truthy (te_message failed)"
    and "about_task i retried" and "te_type retried = ''task.retried''"
  shows "\<exists>t. map_of (processEvents (es @ [failed, retried])) i = Some t \<and> rt_status t = ''queued'' \<and>
    rt_finishedAt t = Some (te_time failed) \<and> rt_error t = te_message failed"
proof -
  have "processEvents (es @ [failed, retried]) = process_event retried (process_event failed (processEvents es))"
    by (simp add: processEvents_def)
  moreover have "te_type retried \<notin> TERMINAL_EVENTS" "''task.failed'' \<in> TERMINAL_EVENTS" using assms(5) by (simp_all add: TERMINAL_EVENTS_def)
  ultimately show ?thesis using assms by (simp add: process_lookup event_on_task_def EVENT_STATUS_MAP_def TERMINAL_EVENTS_def)
qed

subsection \<open>What is loaded\<close>

lemma sanitized: "list_all (belongs runId) (sanitizeLoadedTasks tasks runId)" "length (sanitizeLoadedTasks tasks runId) \<le> MAX_LOADED_TASKS"
  using le_trans [OF length_filter_le, of "take MAX_LOADED_TASKS tasks" MAX_LOADED_TASKS]
  by (auto simp: sanitizeLoadedTasks_def list_all_iff)

lemma task_json_fields:
  "jfield (Some (task_json runId t)) ''runId'' = Some (JStr runId)" "jfield (Some (task_json runId t)) ''id'' = Some (JStr (rt_id t))"
  by (simp_all add: task_json_def jfield_jobject)

lemma task_json_belongs: "belongs runId (task_json runId t)"
  by (simp add: belongs_def plausibleTaskShape_def task_json_fields(1)) (simp add: task_json_def jfield_jobject)

lemma reconstructed_belong: "list_all (belongs runId) (reconstructTasksFromEventLog runId fromLog)"
  by (simp add: reconstructTasksFromEventLog_def list_all_iff task_json_belongs)

lemma all_reconstructed:
  "sanitizeLoadedTasks (reconstructTasksFromEventLog runId fromLog) runId = take 10000 (map (task_json runId \<circ> snd) fromLog)"
proof -
  have "list_all (belongs runId) (take n (reconstructTasksFromEventLog runId fromLog))" for n
    using reconstructed_belong [of runId fromLog] by (auto simp: list_all_iff dest: in_set_takeD)
  then show ?thesis
    by (simp add: sanitizeLoadedTasks_def MAX_LOADED_TASKS_def reconstructTasksFromEventLog_def filter_id_conv list_all_iff)
qed

text \<open>
  C37. Whatever the file holds, the tasks that are loaded are at most 10000, have the shape of a task and belong to the
  run. Of a file that parses and is a list of tasks they are the first 10000 entries, less those that have not the shape or are
  of another run, and nothing is written. Every other file (it does not parse, or is no list of tasks) is recovered:
  the tasks are those that the log gives, the first 10000 of them, they are written in its place if there are any, and
  the report counts them and names the ids found in the damaged text that the log does not know. A missing file has no tasks and no report.
\<close>

theorem loaded_tasks_belong:
  assumes "loadTasksWithRecovery parse fromLog runId f = (tasks, written, report)"
  shows "list_all (belongs runId) tasks \<and> length tasks \<le> 10000 \<and>
    (f = None \<longrightarrow> tasks = [] \<and> written = None \<and> report = None) \<and>
    (\<forall>content v. f = Some content \<and> parse content = Some v \<and> isRecognizableTasksPayload v \<longrightarrow>
       tasks = filter (belongs runId) (take 10000 (extractTaskArray v)) \<and> written = None \<and> report = None) \<and>
    (\<forall>content. f = Some content \<and> (parse content = None \<or> \<not> isRecognizableTasksPayload (the (parse content))) \<longrightarrow>
       tasks = take 10000 (map (task_json runId \<circ> snd) fromLog) \<and> written = (if fromLog = [] then None else Some tasks) \<and>
       report = Some \<lparr> rp_reconstructed = length fromLog, rp_salvaged = length (salvageTaskIds parse content),
         rp_dropped = filter (\<lambda>i. i \<notin> (rt_id \<circ> snd) ` set fromLog) (salvageTaskIds parse content) \<rparr>)"
proof (cases f)
  case None
  then show ?thesis using assms by (auto simp: loadTasksWithRecovery_def)
next
  case (Some content)
  have cap: "MAX_LOADED_TASKS = 10000" by (simp add: MAX_LOADED_TASKS_def)
  have load: "loadTasksWithRecovery parse fromLog runId f =
      (if parse content = None \<or> \<not> isRecognizableTasksPayload (the (parse content))
       then (case recoverCorruptTasks parse fromLog runId content of (ts, rep) \<Rightarrow>
               let kept = sanitizeLoadedTasks ts runId in (kept, if kept = [] then None else Some kept, Some rep))
       else (sanitizeLoadedTasks (extractTaskArray (the (parse content))) runId, None, None))"
    unfolding Some by (simp add: loadTasksWithRecovery_def Let_def split: option.split)
  show ?thesis
  proof (cases "parse content = None \<or> \<not> isRecognizableTasksPayload (the (parse content))")
    case True
    have "list_all (belongs runId) (take 10000 (map (task_json runId \<circ> snd) fromLog))"
      using sanitized(1) [of runId "reconstructTasksFromEventLog runId fromLog"] by (simp only: all_reconstructed)
    moreover have "tasks = take 10000 (map (task_json runId \<circ> snd) fromLog)" "written = (if fromLog = [] then None else Some tasks)"
      "report = Some \<lparr> rp_reconstructed = length fromLog, rp_salvaged = length (salvageTaskIds parse content),
         rp_dropped = filter (\<lambda>i. i \<notin> (rt_id \<circ> snd) ` set fromLog) (salvageTaskIds parse content) \<rparr>"
      using assms unfolding load if_P [OF True]
      by (simp_all add: recoverCorruptTasks_def all_reconstructed all_reconstructed [unfolded reconstructTasksFromEventLog_def] Let_def) (simp_all add: reconstructTasksFromEventLog_def o_def split: if_splits, auto simp: all_reconstructed [unfolded reconstructTasksFromEventLog_def o_def])
    ultimately show ?thesis using True Some by (simp del: map_map) fastforce
  next
    case False
    then have "tasks = sanitizeLoadedTasks (extractTaskArray (the (parse content))) runId" "written = None" "report = None"
      using assms unfolding load if_not_P [OF False] by simp_all
    then show ?thesis using False Some sanitized(1) [of runId "extractTaskArray (the (parse content))"]
        sanitized(2) [of "extractTaskArray (the (parse content))" runId]
      by (auto simp: cap sanitizeLoadedTasks_def)
  qed
qed

subsection \<open>What is salvaged\<close>

lemma salvage_append:
  "salvage_run (xs @ ys) s = (case salvage_run xs s of (o1, s1) \<Rightarrow> case salvage_run ys s1 of (o2, s2) \<Rightarrow> (o1 @ o2, s2))"
  by (induction xs arbitrary: s) (auto split: prod.split)

text \<open>A text that the scanner takes for one object, and a text in which it finds none to the end.\<close>

definition whole_object :: "string \<Rightarrow> bool" where
  "whole_object t \<longleftrightarrow> salvage_run t salvage_start = ([t], salvage_start)"

definition no_object :: "string \<Rightarrow> bool" where
  "no_object t \<longleftrightarrow> fst (salvage_run t salvage_start) = []"

lemma salvage_array:
  "list_all whole_object ts \<Longrightarrow> salvage_run (concat (map (\<lambda>t. t @ '','') ts)) salvage_start = (ts, salvage_start)"
proof (induction ts)
  case (Cons t ts)
  have "salvage_run '','' salvage_start = ([], salvage_start)" by code_simp
  then show ?case using Cons by (simp add: salvage_append whole_object_def)
qed simp

text \<open>
  Of a list of tasks that was cut off in the middle of one, the ids of all those before it are salvaged, in order.
\<close>

theorem salvage_cut_array:
  assumes "list_all whole_object ts" and "no_object part"
  shows "salvageTaskIds parse (''['' @ concat (map (\<lambda>t. t @ '','') ts) @ part) = List.map_filter (object_id parse) ts"
proof -
  have "salvage_run ''['' salvage_start = ([], salvage_start)" by code_simp
  then show ?thesis using assms(2) salvage_array [OF assms(1)]
    unfolding salvageTaskIds_def salvage_append no_object_def
    by (cases "salvage_run part salvage_start") simp
qed

subsection \<open>Witnesses\<close>

definition task_event :: "string \<Rightarrow> string \<Rightarrow> string \<Rightarrow> string option \<Rightarrow> team_event" where
  "task_event i ty t msg = one_event\<lparr>te_type := ty, te_time := t, te_taskId := Some i, te_message := msg\<rparr>"

theorem retry_keeps_outcome_witness:
  "\<exists>t. map_of (processEvents ([task_event ''a'' ''task.started'' ''1'' None] @
       [task_event ''a'' ''task.failed'' ''2'' (Some ''broken''), task_event ''a'' ''task.retried'' ''3'' None])) ''a'' = Some t \<and>
     rt_status t = ''queued'' \<and> rt_finishedAt t = Some ''2'' \<and> rt_error t = Some ''broken''"
proof -
  have "about_task ''a'' (task_event ''a'' ''task.failed'' ''2'' (Some ''broken''))" "about_task ''a'' (task_event ''a'' ''task.retried'' ''3'' None)"
    by code_simp+
  moreover have "te_type (task_event i ty t m) = ty" "te_time (task_event i ty t m) = t" "te_message (task_event i ty t m) = m" for i ty t m
    by (simp_all add: task_event_def)
  ultimately show ?thesis
    using retry_keeps_outcome [of "''a''" "task_event ''a'' ''task.failed'' ''2'' (Some ''broken'')" "task_event ''a'' ''task.retried'' ''3'' None"
        "[task_event ''a'' ''task.started'' ''1'' None]"] by (simp add: truthy_iff)
qed

text \<open>A reader of payloads for the examples: an empty text does not parse, \<open>t\<close> is a task and \<open>l\<close> a list of tasks.\<close>

definition sample_task :: "string \<Rightarrow> json" where
  "sample_task i = JObj [(''id'', JStr i), (''runId'', JStr ''r''), (''role'', JStr ''x''), (''agent'', JStr ''x''), (''title'', JStr ''x''),
     (''status'', JStr ''queued'')]"

definition sample_parse :: "string \<Rightarrow> json option" where
  "sample_parse s =
     (if s = [] then None else if s = ''l'' then Some (JArr [sample_task ''a'', JNull, JObj [(''id'', JStr ''b'')]]) else Some (sample_task s))"

theorem loaded_tasks_belong_witness:
  "fst (loadTasksWithRecovery sample_parse [] ''r'' (Some ''l'')) = [sample_task ''a''] \<and>
   fst (loadTasksWithRecovery sample_parse [(''b'', new_task ''b'')] ''r'' (Some [])) = [task_json ''r'' (new_task ''b'')] \<and>
   snd (snd (loadTasksWithRecovery sample_parse [(''b'', new_task ''b'')] ''r'' (Some []))) =
     Some \<lparr> rp_reconstructed = 1, rp_salvaged = 0, rp_dropped = [] \<rparr>"
proof -
  obtain tasks w rep where R: "loadTasksWithRecovery sample_parse [] ''r'' (Some ''l'') = (tasks, w, rep)" by (rule prod_cases3)
  have l: "sample_parse ''l'' = Some (JArr [sample_task ''a'', JNull, JObj [(''id'', JStr ''b'')]])"
    by (simp add: sample_parse_def)
  have "tasks = filter (belongs ''r'') (take 10000 [sample_task ''a'', JNull, JObj [(''id'', JStr ''b'')]])"
    using loaded_tasks_belong [OF R] l by (simp add: isRecognizableTasksPayload_def extractTaskArray_def)
  then have 1: "tasks = [sample_task ''a'']"
    by (simp add: belongs_def plausibleTaskShape_def sample_task_def)
  obtain tasks' w' rep' where R': "loadTasksWithRecovery sample_parse [(''b'', new_task ''b'')] ''r'' (Some []) = (tasks', w', rep')"
    by (rule prod_cases3)
  have "salvageTaskIds sample_parse [] = []" by code_simp
  then have "tasks' = [task_json ''r'' (new_task ''b'')] \<and> rep' = Some \<lparr> rp_reconstructed = 1, rp_salvaged = 0, rp_dropped = [] \<rparr>"
    using loaded_tasks_belong [OF R'] by (simp add: sample_parse_def)
  then show ?thesis using R R' 1 by simp
qed

theorem salvage_cut_array_witness:
  "salvageTaskIds sample_parse (''['' @ concat (map (\<lambda>t. t @ '','') [''{a:{}}'', ''{}'']) @ ''{c'') = [''{a:{}}'', ''{}'']"
proof -
  have "list_all whole_object [''{a:{}}'', ''{}'']" "no_object ''{c''" by code_simp+
  from salvage_cut_array [OF this, of sample_parse] show ?thesis
    by (simp add: map_filter_simps object_id_def sample_parse_def sample_task_def)
qed

end
