(* ===== verification/ToolPolicy.thy ===== *)
theory ToolPolicy
  imports WorkflowModel TaskIds Jsonl
begin

text \<open>
  Which tools a worker is given: the tool configurations of the roles (\<open>src/src/config/role-tools.ts\<close>), the
  policy of an agent (\<open>resolveToolPolicy\<close> of \<open>src/src/agents/agent-config.ts\<close>), the flags it becomes
  (\<open>buildPiWorkerArgs\<close> of \<open>src/src/runtime/model/pi-args.ts\<close>), and the policy of a worker that another one
  delegates to (\<open>src/src/runtime/spawn-policy.ts\<close>, \<open>src/src/runtime/delegate-spawn.ts\<close>). The environment is
  an argument. What the host does with the flags is stated once, in \<open>exposes\<close>.
\<close>

subsection \<open>Role configurations\<close>

text \<open>A missing list is no restriction of its kind.\<close>

record tool_policy =
  tp_tools :: "string list option"
  tp_exclude :: "string list option"

record role_config = tool_policy +
  rc_scratchpad :: bool

definition read_tools :: "string list" where
  "read_tools = [''read'', ''grep'', ''find'', ''ls'', ''glob'', ''ask'']"

definition no_changes :: "string list" where
  "no_changes = [''edit'', ''write'', ''bash'', ''web'']"

definition ROLE_TOOL_CONFIGS :: "(string \<times> role_config) list" where
  "ROLE_TOOL_CONFIGS =
     [(''explorer'', \<lparr> tp_tools = Some read_tools, tp_exclude = Some no_changes, rc_scratchpad = False \<rparr>),
      (''analyst'', \<lparr> tp_tools = None, tp_exclude = Some [''edit'', ''write''], rc_scratchpad = False \<rparr>),
      (''planner'', \<lparr> tp_tools = Some read_tools, tp_exclude = Some no_changes, rc_scratchpad = False \<rparr>),
      (''critic'', \<lparr> tp_tools = Some read_tools, tp_exclude = Some no_changes, rc_scratchpad = False \<rparr>),
      (''executor'', \<lparr> tp_tools = None, tp_exclude = None, rc_scratchpad = True \<rparr>),
      (''reviewer'', \<lparr> tp_tools = Some read_tools, tp_exclude = Some [''edit'', ''write''], rc_scratchpad = False \<rparr>),
      (''writer'', \<lparr> tp_tools = Some [''read'', ''edit'', ''write'', ''ls'', ''ask''], tp_exclude = Some [''bash'', ''web''],
         rc_scratchpad = False \<rparr>),
      (''security-reviewer'', \<lparr> tp_tools = Some [''read'', ''grep'', ''find'', ''ask''], tp_exclude = Some no_changes,
         rc_scratchpad = False \<rparr>),
      (''verifier'', \<lparr> tp_tools = Some [''read'', ''grep'', ''find'', ''ls'', ''bash'', ''scratchpad'', ''ask''],
         tp_exclude = Some [''edit'', ''write'', ''web''], rc_scratchpad = True \<rparr>),
      (''test-engineer'', \<lparr> tp_tools = Some [''read'', ''edit'', ''write'', ''bash'', ''ls'', ''glob'', ''grep'', ''find'',
         ''scratchpad'', ''ask'', ''delegate''], tp_exclude = Some [''web''], rc_scratchpad = True \<rparr>)]"

definition normalizeRoleKey :: "string \<Rightarrow> string" where
  "normalizeRoleKey rn = map (\<lambda>c. if c = CHR ''_'' then CHR ''-'' else c) rn"

definition no_config :: role_config where
  "no_config = \<lparr> tp_tools = None, tp_exclude = None, rc_scratchpad = False \<rparr>"

definition getToolConfig :: "string \<Rightarrow> role_config" where
  "getToolConfig rn =
     nullish (map_of ROLE_TOOL_CONFIGS (normalizeRoleKey rn)) (nullish (map_of ROLE_TOOL_CONFIGS rn) no_config)"

definition hasToolRestrictions :: "string \<Rightarrow> bool" where
  "hasToolRestrictions rn \<longleftrightarrow> tp_tools (getToolConfig rn) \<noteq> None \<or> tp_exclude (getToolConfig rn) \<noteq> None"

definition getRestrictedRoles :: "string list" where
  "getRestrictedRoles = map fst (filter (\<lambda>(r, c). tp_tools c \<noteq> None \<or> tp_exclude c \<noteq> None) ROLE_TOOL_CONFIGS)"

text \<open>The argument is the option of the agent, \<open>None\<close> also when there is no agent.\<close>

definition isScratchpadEnabledForRole :: "string \<Rightarrow> bool option \<Rightarrow> bool" where
  "isScratchpadEnabledForRole rn agentScratchpad =
     (let normalized = normalizeRoleKey rn
      in if permissionForRole normalized = ReadOnly then False
         else if agentScratchpad = Some False then False
         else agentScratchpad = Some True \<or> rc_scratchpad (getToolConfig normalized))"

subsection \<open>The policy of an agent\<close>

definition BUILTIN_TOOL_NAMES :: "string list" where
  "BUILTIN_TOOL_NAMES = [''read'', ''edit'', ''write'', ''bash'', ''grep'', ''find'', ''ls'']"

fun split_at_commas :: "string \<Rightarrow> string list" where
  "split_at_commas [] = [[]]"
| "split_at_commas (c # s) =
     (case split_at_commas s of
        w # ws \<Rightarrow> if c = CHR '','' then [] # w # ws else (c # w) # ws
      | [] \<Rightarrow> [])"

definition parseToolsField :: "string option \<Rightarrow> string list option" where
  "parseToolsField raw =
     (case raw of
        None \<Rightarrow> None
      | Some r \<Rightarrow>
          let s = js_trim r; lowered = map lower_char s
          in if s = [] then Some []
             else if lowered = ''none'' \<or> lowered = ''[]'' then Some []
             else if lowered = ''*'' \<or> lowered = ''all'' then Some BUILTIN_TOOL_NAMES
             else Some (filter (\<lambda>t. t \<noteq> []) (map js_trim (split_at_commas s))))"

text \<open>The \<open>tools\<close> of an agent: a list, or the text of the front matter.\<close>

datatype declared_tools = ToolList "string list" | ToolText string

definition normalizeToolList :: "declared_tools option \<Rightarrow> string list option" where
  "normalizeToolList raw =
     (case raw of
        None \<Rightarrow> None
      | Some (ToolList ts) \<Rightarrow> Some (filter (\<lambda>t. t \<noteq> []) (map js_trim ts))
      | Some (ToolText t) \<Rightarrow> parseToolsField (Some t))"

datatype resource_source = Builtin | UserSource | ProjectSource | GitSource | DynamicSource | ProjectPi

record agent_config =
  ag_name :: string
  ag_source :: resource_source
  ag_tools :: "declared_tools option"
  ag_disallowedTools :: "string list option"
  ag_lean :: bool
  ag_defaultTools :: "string list option"
  ag_disableTools :: bool
  ag_scratchpad :: "bool option"

definition uniqueToolMerge :: "string list option list \<Rightarrow> string list option" where
  "uniqueToolMerge ls =
     (let merged = fold js_set_add (concat (map (\<lambda>l. nullish l []) ls)) []
      in if merged = [] then None else Some merged)"

definition EXECUTION_TOOLS :: "string list" where
  "EXECUTION_TOOLS = [''bash'', ''edit'', ''write'']"

definition without_tools :: "string list \<Rightarrow> string list option \<Rightarrow> string list option" where
  "without_tools ts tools = map_option (filter (\<lambda>t. t \<notin> set ts)) tools"

definition shouldDemoteBashForScratchpad :: "bool \<Rightarrow> string option \<Rightarrow> agent_config \<Rightarrow> bool" where
  "shouldDemoteBashForScratchpad demote rn agent \<longleftrightarrow>
     demote \<and> truthy rn \<and> isScratchpadEnabledForRole (the rn) (ag_scratchpad agent)"

text \<open>\<open>demote\<close>: the variable \<open>PI_CREW_SCRATCHPAD_DEMOTE_BASH\<close> is 1.\<close>

definition resolveToolPolicy :: "bool \<Rightarrow> agent_config \<Rightarrow> string option \<Rightarrow> tool_policy" where
  "resolveToolPolicy demote agent rn =
     (let declaredTools = normalizeToolList (ag_tools agent);
          roleConfig = (if truthy rn then getToolConfig (the rn) else no_config);
          explicitTools = (if ag_source agent = Builtin
            then (case tp_tools roleConfig of Some ts \<Rightarrow> Some ts | None \<Rightarrow> declaredTools)
            else (case declaredTools of Some ts \<Rightarrow> Some ts | None \<Rightarrow> tp_tools roleConfig));
          tools = (if ag_lean agent \<and> nullish (ag_defaultTools agent) [] \<noteq> []
            then uniqueToolMerge [explicitTools, ag_defaultTools agent] else explicitTools);
          excludeTools = uniqueToolMerge [tp_exclude roleConfig, ag_disallowedTools agent];
          demoted = shouldDemoteBashForScratchpad demote rn agent;
          tools = (if demoted then without_tools [''bash''] tools else tools);
          excludeTools = (if demoted then uniqueToolMerge [excludeTools, Some [''bash'']] else excludeTools);
          readOnly = (truthy rn \<and> permissionForRole (normalizeRoleKey (the rn)) = ReadOnly);
          tools = (if readOnly then without_tools EXECUTION_TOOLS tools else tools);
          excludeTools = (if readOnly then uniqueToolMerge [excludeTools, Some EXECUTION_TOOLS] else excludeTools)
      in \<lparr> tp_tools = tools, tp_exclude = excludeTools \<rparr>)"

subsection \<open>The flags of a worker\<close>

definition CONTROL_TOOLS :: "string list" where
  "CONTROL_TOOLS = [''ask'', ''delegate'', ''message'']"

datatype tool_flag = NoTools | Tools "string list" | AddedTools "string list" | ExcludeTools "string list" | NoMcp

text \<open>\<open>modifiers\<close>, \<open>parity\<close> and \<open>mcpFloor\<close>: the opt-in with a host that knows it, a spawn that is not hermetic, a host that knows \<open>--no-mcp\<close>.\<close>

definition tool_flags :: "bool \<Rightarrow> bool \<Rightarrow> bool \<Rightarrow> bool \<Rightarrow> agent_config \<Rightarrow> string option \<Rightarrow> tool_flag list" where
  "tool_flags demote modifiers parity mcpFloor agent rn =
     (if ag_disableTools agent then [NoTools]
      else let policy = resolveToolPolicy demote agent (Some (nullish rn (ag_name agent)));
               declared = nullish (tp_tools policy) [];
               disallowed = fold js_set_add (filter (\<lambda>t. t \<noteq> []) (map js_trim (nullish (tp_exclude policy) []))) [];
               disallowed = (if parity then js_set_add ''mcp__*'' disallowed else disallowed)
           in (if declared = [] then []
               else if modifiers then [AddedTools declared]
               else [Tools (fold js_set_add (declared @ CONTROL_TOOLS) [])]) @
              (if disallowed = [] then [] else [ExcludeTools disallowed]) @
              (if parity \<and> mcpFloor then [NoMcp] else []))"

text \<open>Of the host: without an allowlist every tool is there, an excluded tool never is.\<close>

definition exposes :: "tool_flag list \<Rightarrow> string \<Rightarrow> bool" where
  "exposes flags t \<longleftrightarrow> NoTools \<notin> set flags \<and> list_all (\<lambda>f. case f of Tools ts \<Rightarrow> t \<in> set ts | ExcludeTools ts \<Rightarrow> t \<notin> set ts | _ \<Rightarrow> True) flags"

subsection \<open>The policy of a delegated worker\<close>

definition parentTaskTier :: "string option \<Rightarrow> role_permission" where
  "parentTaskTier parentRole = (if permissionForRole (nullish parentRole []) = WorkspaceWrite then WorkspaceWrite else ReadOnly)"

definition READ_ONLY_TIER_EXCLUDED_TOOLS :: "string list" where
  "READ_ONLY_TIER_EXCLUDED_TOOLS = [''edit'', ''write'', ''bash'']"

definition effectiveGrandchildToolPolicy :: "string option \<Rightarrow> string \<Rightarrow> tool_policy" where
  "effectiveGrandchildToolPolicy parentRole requestedRole =
     (let parent = (case parentRole of Some r \<Rightarrow> getToolConfig r | None \<Rightarrow> no_config);
          requested = getToolConfig requestedRole;
          tools = (case (tp_tools parent, tp_tools requested) of
            (Some ps, Some rs) \<Rightarrow>
              (let intersection = filter (\<lambda>t. t \<notin> set READ_ONLY_TIER_EXCLUDED_TOOLS \<and> t \<in> set rs) ps
               in Some (if intersection \<noteq> [] then intersection else ps))
          | (Some ps, None) \<Rightarrow> Some ps
          | (None, rs) \<Rightarrow> rs);
          excludeTools = nullish (tp_exclude parent) [] @ nullish (tp_exclude requested) [];
          readOnly = (parentTaskTier parentRole = ReadOnly);
          unique = fold js_set_add (if readOnly then excludeTools @ READ_ONLY_TIER_EXCLUDED_TOOLS else excludeTools) []
      in \<lparr> tp_tools = (if readOnly then without_tools READ_ONLY_TIER_EXCLUDED_TOOLS tools else tools),
           tp_exclude = (if unique = [] then None else Some unique) \<rparr>)"

definition grandchildAgentForRole :: "string \<Rightarrow> string option \<Rightarrow> agent_config" where
  "grandchildAgentForRole rn parentRole =
     (let policy = effectiveGrandchildToolPolicy parentRole rn
      in \<lparr> ag_name = rn, ag_source = Builtin, ag_tools = map_option ToolList (tp_tools policy),
           ag_disallowedTools = tp_exclude policy, ag_lean = False, ag_defaultTools = None, ag_disableTools = False,
           ag_scratchpad = None \<rparr>)"


subsection \<open>What the flags expose\<close>

lemma set_uniqueToolMerge [simp]: "set (nullish (uniqueToolMerge ls) []) = (\<Union>l\<in>set ls. set (nullish l []))"
proof -
  have "nullish (if m = [] then None else Some m) [] = m" for m :: "string list" by simp
  then show ?thesis by (simp add: uniqueToolMerge_def set_fold_js_set_add Let_def split del: nullish_split)
qed

definition denied_tools :: "tool_policy \<Rightarrow> string set" where
  "denied_tools p = js_trim ` set (nullish (tp_exclude p) []) - {[]}"

lemma exposes_append: "exposes (fs @ gs) t \<longleftrightarrow> exposes fs t \<and> exposes gs t"
  by (auto simp: exposes_def)

lemma exposes_excluded: "exposes (if ts = [] then [] else [ExcludeTools ts]) t \<longleftrightarrow> t \<notin> set ts"
  by (simp add: exposes_def)

lemma exposes_flags:
  "exposes (tool_flags demote modifiers parity mcpFloor agent rn) t \<longleftrightarrow>
     (let p = resolveToolPolicy demote agent (Some (nullish rn (ag_name agent))); declared = nullish (tp_tools p) []
      in \<not> ag_disableTools agent \<and> (declared = [] \<or> modifiers \<or> t \<in> set declared \<union> set CONTROL_TOOLS) \<and>
         t \<notin> denied_tools p \<and> (parity \<longrightarrow> t \<noteq> ''mcp__*''))"
proof (cases "ag_disableTools agent")
  case True
  then show ?thesis by (simp add: tool_flags_def exposes_def)
next
  case False
  let ?p = "resolveToolPolicy demote agent (Some (nullish rn (ag_name agent)))"
  let ?x = "fold js_set_add (filter (\<lambda>t. t \<noteq> []) (map js_trim (nullish (tp_exclude ?p) []))) []"
  let ?d = "if parity then js_set_add ''mcp__*'' ?x else ?x"
  have x: "set ?x = denied_tools ?p" by (auto simp: denied_tools_def set_fold_js_set_add split del: nullish_split)
  have d: "t \<in> set ?d \<longleftrightarrow> t \<in> denied_tools ?p \<or> parity \<and> t = ''mcp__*''"
    using x by (auto split del: nullish_split)
  show ?thesis
    unfolding tool_flags_def Let_def if_not_P [OF False] exposes_append exposes_excluded d
    using False by (auto simp: exposes_def set_fold_js_set_add split del: nullish_split)
qed

lemma set_without_tools [simp]: "set (nullish (without_tools ts tools) []) = set (nullish tools []) - set ts"
  by (cases tools) (auto simp: without_tools_def)

lemma trimmed_tools:
  "t \<in> set EXECUTION_TOOLS \<Longrightarrow> js_trim t = t \<and> t \<noteq> []"
  by (auto simp: EXECUTION_TOOLS_def js_trim_def js_space_def char_in_def)

lemma denied_by_policy:
  "set (nullish (tp_exclude (resolveToolPolicy demote agent (Some rn))) []) =
     (if rn = [] then {} else set (nullish (tp_exclude (getToolConfig rn)) [])) \<union> set (nullish (ag_disallowedTools agent) []) \<union>
     (if shouldDemoteBashForScratchpad demote (Some rn) agent then {''bash''} else {}) \<union>
     (if rn \<noteq> [] \<and> permissionForRole (normalizeRoleKey rn) = ReadOnly then set EXECUTION_TOOLS else {})"
  by (auto simp: resolveToolPolicy_def no_config_def Let_def split del: nullish_split)

text \<open>
  Whatever an agent declares, from whatever source and however the worker is spawned, a worker of a role of the read-only tier, or of an unknown role, has neither
  \<open>bash\<close> nor \<open>edit\<close> nor \<open>write\<close>, and what its role or its agent denies stays denied.
\<close>

theorem read_only_never_executes:
  assumes "worker = nullish rn (ag_name agent)" and "worker \<noteq> []"
    and "exposes (tool_flags demote modifiers parity mcpFloor agent rn) t"
  shows "(permissionForRole (normalizeRoleKey worker) = ReadOnly \<longrightarrow> t \<notin> set EXECUTION_TOOLS) \<and>
    t \<notin> js_trim ` (set (nullish (tp_exclude (getToolConfig worker)) []) \<union> set (nullish (ag_disallowedTools agent) [])) - {[]}"
proof -
  have "t \<notin> denied_tools (resolveToolPolicy demote agent (Some worker))"
    using assms(1,3) by (simp add: exposes_flags Let_def split del: nullish_split)
  then have t: "t \<notin> js_trim ` set (nullish (tp_exclude (resolveToolPolicy demote agent (Some worker))) []) - {[]}"
    by (simp add: denied_tools_def)
  have "t \<notin> set EXECUTION_TOOLS" if "permissionForRole (normalizeRoleKey worker) = ReadOnly"
  proof
    assume e: "t \<in> set EXECUTION_TOOLS"
    then have "t \<in> set (nullish (tp_exclude (resolveToolPolicy demote agent (Some worker))) [])"
      using that assms(2) by (simp add: denied_by_policy split del: nullish_split)
    then have "js_trim t \<in> js_trim ` set (nullish (tp_exclude (resolveToolPolicy demote agent (Some worker))) [])" by (rule imageI)
    then show False using t trimmed_tools [OF e] by simp
  qed
  moreover have "t \<notin> js_trim ` (set (nullish (tp_exclude (getToolConfig worker)) []) \<union> set (nullish (ag_disallowedTools agent) [])) - {[]}"
    using t assms(2) by (auto simp: denied_by_policy image_Un split del: nullish_split)
  ultimately show ?thesis by blast
qed

lemma read_only_never_executes_witness:
  "exposes (tool_flags False False False False (grandchildAgentForRole ''helper'' None) None) ''read'' \<and>
   \<not> exposes (tool_flags False False False False (grandchildAgentForRole ''helper'' None) None) ''bash''"
proof -
  have 1: "exposes (tool_flags False False False False (grandchildAgentForRole ''helper'' None) None) ''read''" by code_simp
  have "permissionForRole (normalizeRoleKey ''helper'') = ReadOnly" "''bash'' \<in> set EXECUTION_TOOLS" by code_simp+
  then show ?thesis
    using 1 read_only_never_executes [of "''helper''" None "grandchildAgentForRole ''helper'' None" False False False False "''bash''"]
    by (auto simp: grandchildAgentForRole_def Let_def)
qed

subsection \<open>Delegated policies\<close>

definition permits :: "'a tool_policy_scheme \<Rightarrow> string \<Rightarrow> bool" where
  "permits p t \<longleftrightarrow> (case tp_tools p of None \<Rightarrow> True | Some ts \<Rightarrow> t \<in> set ts) \<and> t \<notin> set (nullish (tp_exclude p) [])"

definition DELEGATE_ALLOWED_ROLES :: "string list" where
  "DELEGATE_ALLOWED_ROLES = [''explorer'', ''analyst'', ''executor'']"

lemma delegate_configs [simp]:
  "getToolConfig ''explorer'' = \<lparr> tp_tools = Some read_tools, tp_exclude = Some no_changes, rc_scratchpad = False \<rparr>"
  "getToolConfig ''analyst'' = \<lparr> tp_tools = None, tp_exclude = Some [''edit'', ''write''], rc_scratchpad = False \<rparr>"
  "getToolConfig ''executor'' = \<lparr> tp_tools = None, tp_exclude = None, rc_scratchpad = True \<rparr>"
  by code_simp+

lemma configs_read:
  "tp_tools (getToolConfig r) = Some ts \<Longrightarrow> ''read'' \<in> set ts"
proof -
  have C: "list_all (\<lambda>(r, c). \<forall>ts\<in>set_option (tp_tools c). ''read'' \<in> set ts) ROLE_TOOL_CONFIGS" by code_simp
  assume a: "tp_tools (getToolConfig r) = Some ts"
  have m: "''read'' \<in> set ts" if "map_of ROLE_TOOL_CONFIGS k = Some c" "tp_tools c = Some ts" for k c
    using C map_of_SomeD [OF that(1)] that(2) by (auto simp: list_all_iff)
  show ?thesis
    using a m [of "normalizeRoleKey r"] m [of r]
    by (cases "map_of ROLE_TOOL_CONFIGS (normalizeRoleKey r)"; cases "map_of ROLE_TOOL_CONFIGS r") (auto simp: getToolConfig_def no_config_def)
qed

lemma set_effective_exclude:
  "set (nullish (tp_exclude (effectiveGrandchildToolPolicy p r)) []) =
     set (nullish (tp_exclude (case p of Some q \<Rightarrow> getToolConfig q | None \<Rightarrow> no_config)) []) \<union> set (nullish (tp_exclude (getToolConfig r)) []) \<union>
     (if parentTaskTier p = ReadOnly then set READ_ONLY_TIER_EXCLUDED_TOOLS else {})"
proof -
  have e: "nullish (if m = [] then None else Some m) [] = m" for m :: "string list" by simp
  show ?thesis by (auto simp: effectiveGrandchildToolPolicy_def Let_def e set_fold_js_set_add split del: nullish_split)
qed

lemma in_set_not_Nil: "x \<in> set xs \<Longrightarrow> xs \<noteq> []"
  by auto

text \<open>
  C40. The policy of a delegated worker is the minimum of two: it permits exactly the tools that the configurations
  of the parent's role and of the requested role both permit, without \<open>edit\<close>, \<open>write\<close> and \<open>bash\<close> when the
  parent is of the read-only tier or of no known role.
\<close>

theorem delegated_policy_is_minimum:
  assumes "r \<in> set DELEGATE_ALLOWED_ROLES"
  shows "permits (effectiveGrandchildToolPolicy p r) t \<longleftrightarrow>
    permits (getToolConfig r) t \<and> permits (case p of Some q \<Rightarrow> getToolConfig q | None \<Rightarrow> no_config) t \<and>
    (parentTaskTier p = ReadOnly \<longrightarrow> t \<notin> set READ_ONLY_TIER_EXCLUDED_TOOLS)"
proof -
  let ?c = "case p of Some q \<Rightarrow> getToolConfig q | None \<Rightarrow> no_config"
  have read: "''read'' \<in> set ts" if "tp_tools ?c = Some ts" for ts
    using that configs_read by (cases p) (auto simp: no_config_def)
  have inter: "filter (\<lambda>t. t \<notin> set READ_ONLY_TIER_EXCLUDED_TOOLS \<and> t \<in> set read_tools) ts \<noteq> []" if "tp_tools ?c = Some ts" for ts
  proof -
    have "''read'' \<notin> set READ_ONLY_TIER_EXCLUDED_TOOLS \<and> ''read'' \<in> set read_tools" by code_simp
    then have "''read'' \<in> set (filter (\<lambda>t. t \<notin> set READ_ONLY_TIER_EXCLUDED_TOOLS \<and> t \<in> set read_tools) ts)"
      using read [OF that] by simp
    then show ?thesis by (rule in_set_not_Nil)
  qed
  have ex: "set READ_ONLY_TIER_EXCLUDED_TOOLS \<subseteq> set no_changes" by code_simp
  define c where "c = ?c"
  define ro where "ro \<longleftrightarrow> parentTaskTier p = ReadOnly"
  have eff: "tp_tools (effectiveGrandchildToolPolicy p r) =
      (let tools = (case (tp_tools c, tp_tools (getToolConfig r)) of
            (Some ps, Some rs) \<Rightarrow>
              (let intersection = filter (\<lambda>t. t \<notin> set READ_ONLY_TIER_EXCLUDED_TOOLS \<and> t \<in> set rs) ps
               in Some (if intersection \<noteq> [] then intersection else ps))
          | (Some ps, None) \<Rightarrow> Some ps
          | (None, rs) \<Rightarrow> rs) in if ro then without_tools READ_ONLY_TIER_EXCLUDED_TOOLS tools else tools)"
    by (simp add: effectiveGrandchildToolPolicy_def c_def ro_def Let_def)
  note facts = inter [folded c_def]
  note u = permits_def set_effective_exclude eff c_def [symmetric] ro_def [symmetric]
  consider "r = ''explorer''" | "r = ''analyst''" | "r = ''executor''" using assms by (auto simp: DELEGATE_ALLOWED_ROLES_def)
  then show ?thesis
  proof cases
    case 1
    show ?thesis unfolding u unfolding 1 using ex facts
      by (cases "tp_tools c"; cases ro) (auto simp: without_tools_def Let_def split del: nullish_split)
  next
    case 2
    show ?thesis unfolding u unfolding 2
      by (cases "tp_tools c"; cases ro) (auto simp: without_tools_def Let_def split del: nullish_split)
  next
    case 3
    show ?thesis unfolding u unfolding 3
      by (cases "tp_tools c"; cases ro) (auto simp: without_tools_def Let_def split del: nullish_split)
  qed
qed

lemma delegated_policy_is_minimum_witness:
  "permits (effectiveGrandchildToolPolicy (Some ''security-reviewer'') ''explorer'') ''grep'' \<and>
   \<not> permits (effectiveGrandchildToolPolicy (Some ''security-reviewer'') ''explorer'') ''ls''"
proof -
  have r: "''explorer'' \<in> set DELEGATE_ALLOWED_ROLES" by (simp add: DELEGATE_ALLOWED_ROLES_def)
  have p: "permits (getToolConfig ''explorer'') ''grep''" "permits (getToolConfig ''security-reviewer'') ''grep''"
    "''grep'' \<notin> set READ_ONLY_TIER_EXCLUDED_TOOLS" "\<not> permits (getToolConfig ''security-reviewer'') ''ls''" by code_simp+
  show ?thesis
    using p delegated_policy_is_minimum [OF r, of "Some ''security-reviewer''" "''grep''"]
      delegated_policy_is_minimum [OF r, of "Some ''security-reviewer''" "''ls''"]
    by simp
qed

lemma grandchild_simps [simp]:
  "ag_name (grandchildAgentForRole r p) = r" "ag_source (grandchildAgentForRole r p) = Builtin"
  "ag_disableTools (grandchildAgentForRole r p) = False" "ag_lean (grandchildAgentForRole r p) = False"
  "ag_disallowedTools (grandchildAgentForRole r p) = tp_exclude (effectiveGrandchildToolPolicy p r)"
  "ag_tools (grandchildAgentForRole r p) = map_option ToolList (tp_tools (effectiveGrandchildToolPolicy p r))"
  "ag_scratchpad (grandchildAgentForRole r p) = None"
  by (simp_all add: grandchildAgentForRole_def Let_def)

lemma explorer_facts:
  "t \<in> set read_tools \<Longrightarrow> t \<notin> js_trim ` set no_changes \<and> t \<notin> js_trim ` set EXECUTION_TOOLS \<and> t \<noteq> ''mcp__*'' \<and>
     t \<notin> set EXECUTION_TOOLS \<and> t \<notin> js_trim ` set READ_ONLY_TIER_EXCLUDED_TOOLS"
  "permissionForRole (normalizeRoleKey ''explorer'') = ReadOnly" "isScratchpadEnabledForRole ''explorer'' x = False"
proof -
  have "list_all (\<lambda>t. t \<notin> js_trim ` set no_changes \<and> t \<notin> js_trim ` set EXECUTION_TOOLS \<and> t \<noteq> ''mcp__*'' \<and>
     t \<notin> set EXECUTION_TOOLS \<and> t \<notin> js_trim ` set READ_ONLY_TIER_EXCLUDED_TOOLS) read_tools" by code_simp
  then show "t \<in> set read_tools \<Longrightarrow> t \<notin> js_trim ` set no_changes \<and> t \<notin> js_trim ` set EXECUTION_TOOLS \<and> t \<noteq> ''mcp__*'' \<and>
     t \<notin> set EXECUTION_TOOLS \<and> t \<notin> js_trim ` set READ_ONLY_TIER_EXCLUDED_TOOLS"
    by (simp add: list_all_iff)
  show p: "permissionForRole (normalizeRoleKey ''explorer'') = ReadOnly" by code_simp
  show "isScratchpadEnabledForRole ''explorer'' x = False" using p by (simp add: isScratchpadEnabledForRole_def Let_def)
qed

text \<open>
  A delegated explorer has every tool of an explorer that its parent is not explicitly denied: the allowlist of
  the parent, which its policy is cut to, does not reach the command line, because the configuration of the role
  takes its place.
\<close>

theorem parent_allowlist_lost:
  assumes "t \<in> set read_tools" and "t \<notin> js_trim ` set (nullish (tp_exclude (getToolConfig p)) [])"
  shows "exposes (tool_flags demote modifiers parity mcpFloor (grandchildAgentForRole ''explorer'' (Some p)) (Some ''explorer'')) t"
proof -
  let ?a = "grandchildAgentForRole ''explorer'' (Some p)"
  let ?p = "resolveToolPolicy demote ?a (Some ''explorer'')"
  note f = explorer_facts(1) [OF assms(1)]
  have "tp_tools ?p = Some (filter (\<lambda>t. t \<notin> set EXECUTION_TOOLS) read_tools)"
    by (simp add: resolveToolPolicy_def explorer_facts(2,3) shouldDemoteBashForScratchpad_def without_tools_def Let_def)
  then have "t \<in> set (nullish (tp_tools ?p) [])" using assms(1) f by simp
  moreover have "t \<notin> denied_tools ?p"
    using assms(2) f
    by (auto simp: denied_tools_def denied_by_policy set_effective_exclude explorer_facts(2,3) shouldDemoteBashForScratchpad_def
        image_Un split del: nullish_split split: if_splits)
  ultimately show ?thesis using f by (simp add: exposes_flags Let_def split del: nullish_split)
qed

lemma parent_allowlist_lost_witness:
  "exposes (tool_flags False False False False (grandchildAgentForRole ''explorer'' (Some ''security-reviewer'')) (Some ''explorer'')) ''ls'' \<and>
   \<not> permits (effectiveGrandchildToolPolicy (Some ''security-reviewer'') ''explorer'') ''ls''"
proof -
  have "''ls'' \<in> set read_tools" "''ls'' \<notin> js_trim ` set (nullish (tp_exclude (getToolConfig ''security-reviewer'')) [])" by code_simp+
  from parent_allowlist_lost [OF this] show ?thesis by simp code_simp
qed

text \<open>
  The restrictions of a verifier end at the second hop: the executor it delegates to cannot edit, but the
  executor that this one delegates to in turn can, since the policy is computed from the roles of two neighbours.
\<close>

theorem second_hop_unrestricted:
  "\<not> exposes (tool_flags demote modifiers parity mcpFloor (grandchildAgentForRole ''executor'' (Some ''verifier'')) (Some ''executor'')) ''edit'' \<and>
   exposes (tool_flags demote modifiers parity mcpFloor (grandchildAgentForRole ''executor'' (Some ''executor'')) (Some ''executor'')) ''edit''"
proof -
  have d: "tp_exclude (effectiveGrandchildToolPolicy (Some ''executor'') ''executor'') = None"
    "tp_tools (effectiveGrandchildToolPolicy (Some ''executor'') ''executor'') = None"
    "permissionForRole (normalizeRoleKey ''executor'') = WorkspaceWrite" "js_trim ''bash'' = ''bash''" "js_trim ''edit'' = ''edit''"
    "''edit'' \<in> set (nullish (tp_exclude (getToolConfig ''verifier'')) [])"
    by code_simp+
  have "''edit'' \<in> denied_tools (resolveToolPolicy demote (grandchildAgentForRole ''executor'' (Some ''verifier'')) (Some ''executor''))"
    using d(5,6) by (auto simp: denied_tools_def denied_by_policy set_effective_exclude image_iff split del: nullish_split intro: bexI [of _ "''edit''"])
  moreover have "tp_tools (resolveToolPolicy demote (grandchildAgentForRole ''executor'' (Some ''executor'')) (Some ''executor'')) = None"
    using d(2,3) by (simp add: resolveToolPolicy_def without_tools_def normalizeToolList_def Let_def)
  moreover have "''edit'' \<notin> denied_tools (resolveToolPolicy demote (grandchildAgentForRole ''executor'' (Some ''executor'')) (Some ''executor''))"
    using d(1,3,4) by (auto simp: denied_tools_def denied_by_policy split: if_splits)
  ultimately show ?thesis by (simp add: exposes_flags Let_def)
qed

text \<open>
  An allowlist that is empty, such as the \<open>none\<close> of a front matter, restricts nothing: the worker has every
  tool that is not denied.
\<close>

theorem empty_allowlist_allows_all:
  assumes "normalizeToolList (ag_tools agent) = Some []" and "ag_source agent \<noteq> Builtin" and "\<not> ag_lean agent" and "\<not> ag_disableTools agent"
  shows "exposes (tool_flags demote modifiers False mcpFloor agent rn) t \<longleftrightarrow>
    t \<notin> denied_tools (resolveToolPolicy demote agent (Some (nullish rn (ag_name agent))))"
proof -
  have "nullish (tp_tools (resolveToolPolicy demote agent (Some (nullish rn (ag_name agent))))) [] = []"
    using assms by (auto simp: resolveToolPolicy_def without_tools_def Let_def)
  then show ?thesis using assms(4) by (simp add: exposes_flags Let_def split del: nullish_split)
qed

definition toolless_agent :: agent_config where
  "toolless_agent = \<lparr> ag_name = ''executor'', ag_source = UserSource, ag_tools = Some (ToolText ''none''), ag_disallowedTools = None,
     ag_lean = False, ag_defaultTools = None, ag_disableTools = False, ag_scratchpad = None \<rparr>"

lemma empty_allowlist_allows_all_witness:
  "exposes (tool_flags False False False False toolless_agent None) ''bash''"
proof -
  have "normalizeToolList (ag_tools toolless_agent) = Some []" "ag_source toolless_agent \<noteq> Builtin" "\<not> ag_lean toolless_agent"
    "\<not> ag_disableTools toolless_agent" by code_simp+
  from empty_allowlist_allows_all [OF this, of False False False None "''bash''"] show ?thesis by simp code_simp
qed

end
