(* ===== verification/Delegation.thy ===== *)
theory Delegation
  imports ToolPolicy Slots BrokerAuth TaskModel
begin

text \<open>
  Workers that start workers: the admission of a delegation (\<open>src/src/runtime/spawn-policy.ts\<close>), the handler of
  \<open>delegate.request\<close> (\<open>src/src/runtime/broker/crew-broker-delegate-request.ts\<close>) and what follows it
  (\<open>delegate/delegate-finalize.ts\<close>, \<open>delegate/shadow-lifecycle.ts\<close>, \<open>delegate/delegate-abort.ts\<close>). One broker
  with one run: the state is the run's tasks, the budget of nested slots, the workers in flight, the mail and the
  events. A section under the run lock is one step, and \<open>lockFree\<close> says whether it could be had. The process of
  the worker is its outcome. Texts of messages are left out.
\<close>

subsection \<open>Arithmetic of numbers\<close>

fun js_add :: "jsnum \<Rightarrow> jsnum \<Rightarrow> jsnum" where
  "js_add (Fin a) (Fin b) = Fin (a + b)"
| "js_add NaN b = NaN"
| "js_add a NaN = NaN"
| "js_add PosInf NegInf = NaN"
| "js_add NegInf PosInf = NaN"
| "js_add (Fin a) b = b"
| "js_add a b = a"

fun js_neg :: "jsnum \<Rightarrow> jsnum" where
  "js_neg (Fin a) = Fin (- a)"
| "js_neg PosInf = NegInf"
| "js_neg NegInf = PosInf"
| "js_neg NaN = NaN"

definition js_le :: "jsnum \<Rightarrow> jsnum \<Rightarrow> bool" where
  "js_le a b \<longleftrightarrow> js_less a b \<or> a = b \<and> a \<noteq> NaN"

subsection \<open>Admission\<close>

definition EXECUTOR_CLASS_ROLES :: "string list" where
  "EXECUTOR_CLASS_ROLES = [''executor'', ''test-engineer'']"

definition DEFAULT_DELEGATE_TIMEOUT_SEC :: rat where "DEFAULT_DELEGATE_TIMEOUT_SEC = 900"
definition MAX_DELEGATE_TIMEOUT_SEC :: rat where "MAX_DELEGATE_TIMEOUT_SEC = 86400"

datatype deny_reason =
    RoleDenied
  | ParentRoleEscalation
  | TrustDenied
  | DepthExceeded
  | SlotsExhausted
  | BudgetNotGranted
  | BudgetInsufficient
  | BudgetUnmetered
  | ModelInvalid
  | TimeoutInvalid
  | WorkspaceConflict

fun deny_str :: "deny_reason \<Rightarrow> string" where
  "deny_str RoleDenied = ''role-denied''"
| "deny_str ParentRoleEscalation = ''parent-role-escalation''"
| "deny_str TrustDenied = ''trust-denied''"
| "deny_str DepthExceeded = ''depth-exceeded''"
| "deny_str SlotsExhausted = ''slots-exhausted''"
| "deny_str BudgetNotGranted = ''budget-not-granted''"
| "deny_str BudgetInsufficient = ''budget-insufficient''"
| "deny_str BudgetUnmetered = ''budget-unmetered''"
| "deny_str ModelInvalid = ''model-invalid''"
| "deny_str TimeoutInvalid = ''timeout-invalid''"
| "deny_str WorkspaceConflict = ''workspace-conflict''"

record delegate_request =
  rq_role :: "string option"
  rq_model :: "string option"
  rq_budgetTokens :: "jsnum option"
  rq_timeoutSec :: "jsnum option"

record admission_input =
  ai_maxDepth :: int
  ai_role :: "string option"
  ai_depth :: "int option"
  ai_allocation :: "task_allocation option"
  ai_untrusted :: bool
  ai_used :: nat
  ai_max :: rat
  ai_parentBudgetGrantTokens :: "jsnum option"
  ai_allowUnmetered :: bool
  ai_requested :: delegate_request
  ai_modelCatalog :: "string list option"
  ai_serializeEnabled :: bool
  ai_overlapping :: nat

record budget_decision =
  bd_metered :: bool
  bd_grantedTokens :: jsnum
  bd_spentTokens :: jsnum
  bd_requestedTokens :: "jsnum option"

record spawn_decision =
  sd_childDepth :: int
  sd_timeoutSec :: rat
  sd_model :: "string option"
  sd_effectiveToolPolicy :: tool_policy
  sd_budget :: budget_decision

definition modelRefToString :: "string \<Rightarrow> string option" where
  "modelRefToString m = (if js_trim m = [] then None else Some (js_trim m))"

definition evaluateDelegateAdmission :: "admission_input \<Rightarrow> deny_reason + spawn_decision" where
  "evaluateDelegateAdmission a =
     (let rq = ai_requested a; childDepth = nullish (ai_depth a) 1 + 1; rn = rq_role rq;
          requestedIsExecutorClass = (case rn of Some r \<Rightarrow> r \<in> set EXECUTOR_CLASS_ROLES | None \<Rightarrow> False);
          granted = (case ai_allocation a of Some al \<Rightarrow> tokensGranted al | None \<Rightarrow> nullish (ai_parentBudgetGrantTokens a) (Fin 0));
          spent = nullish (Option.bind (ai_allocation a) tokensSpent) (Fin 0);
          remaining = js_add granted (js_neg spent);
          normalizedModel = Option.bind (rq_model rq) modelRefToString;
          timeoutSec = nullish (rq_timeoutSec rq) (Fin DEFAULT_DELEGATE_TIMEOUT_SEC)
      in if (case rn of Some r \<Rightarrow> r \<notin> set DELEGATE_ALLOWED_ROLES | None \<Rightarrow> False) then Inl RoleDenied
         else if requestedIsExecutorClass \<and> parentTaskTier (ai_role a) = ReadOnly then Inl ParentRoleEscalation
         else if ai_untrusted a then Inl TrustDenied
         else if ai_maxDepth a < childDepth then Inl DepthExceeded
         else if ai_max a \<le> rat_of_nat (ai_used a) then Inl SlotsExhausted
         else if (case rq_budgetTokens rq of Some b \<Rightarrow> js_le granted (Fin 0) | None \<Rightarrow> False) then Inl BudgetNotGranted
         else if (case rq_budgetTokens rq of Some b \<Rightarrow> js_less remaining b | None \<Rightarrow> False) then Inl BudgetInsufficient
         else if rq_budgetTokens rq = None \<and> \<not> ai_allowUnmetered a then Inl BudgetUnmetered
         else if (case (normalizedModel, ai_modelCatalog a) of (Some m, Some c) \<Rightarrow> m \<notin> set c | _ \<Rightarrow> False) then Inl ModelInvalid
         else case timeoutSec of
                Fin t \<Rightarrow>
                  if t < 1 \<or> MAX_DELEGATE_TIMEOUT_SEC < t then Inl TimeoutInvalid
                  else if requestedIsExecutorClass \<and> \<not> ai_serializeEnabled a \<and> 0 < ai_overlapping a then Inl WorkspaceConflict
                  else Inr \<lparr> sd_childDepth = childDepth, sd_timeoutSec = t, sd_model = normalizedModel,
                         sd_effectiveToolPolicy = effectiveGrandchildToolPolicy (ai_role a) (nullish rn ''explorer''),
                         sd_budget = \<lparr> bd_metered = (rq_budgetTokens rq \<noteq> None), bd_grantedTokens = granted, bd_spentTokens = spent,
                           bd_requestedTokens = rq_budgetTokens rq \<rparr> \<rparr>
              | _ \<Rightarrow> Inl TimeoutInvalid)"

text \<open>The depth limit; \<open>envDepth\<close> is the number of the environment variable, NaN without one.\<close>

definition DEFAULT_MAX_CREW_DEPTH :: int where "DEFAULT_MAX_CREW_DEPTH = 4"

definition resolveCrewMaxDepth :: "jsnum option \<Rightarrow> jsnum \<Rightarrow> int" where
  "resolveCrewMaxDepth inputMaxDepth envDepth =
     (let fall = (case Option.bind inputMaxDepth js_integer of
                    Some n \<Rightarrow> if 1 \<le> n \<and> n \<le> 10 then n else if 10 < n then 10 else DEFAULT_MAX_CREW_DEPTH
                  | None \<Rightarrow> DEFAULT_MAX_CREW_DEPTH)
      in case js_integer envDepth of
           Some n \<Rightarrow> if 1 \<le> n \<and> n \<le> 10 then n else if 10 < n then 10 else fall
         | None \<Rightarrow> fall)"

subsection \<open>The run with its delegations\<close>

text \<open>The fields of a task that only delegations read.\<close>

record nested_task = team_task +
  nt_agent :: string
  nt_depth :: "int option"
  nt_model :: "string option"

datatype delegate_event =
    Requested string string string
  | Rejected string string
  | Admitted string string int string bool jsnum
  | Ended string string bool
  | RolledUp string string jsnum
  | Rerouted string string

record delegate_mail =
  dm_from :: string
  dm_to :: string
  dm_taskId :: "string option"
  dm_ok :: bool
  dm_timedOut :: bool
  dm_reroutedFrom :: "string option"

record live_child =
  lc_parent :: string
  lc_reserved :: jsnum
  lc_model :: "string option"
  lc_aborted :: bool

record delegation =
  dn_budgetTotal :: "jsnum option"
  dn_budgetUnlimited :: bool
  dn_tasks :: "nested_task list"
  dn_slots :: nested_budget
  dn_live :: "(string \<times> live_child) list"
  dn_aborts :: "string list"
  dn_tokens :: "string set"
  dn_mail :: "delegate_mail list"
  dn_events :: "delegate_event list"

text \<open>\<open>do_modelCatalog\<close>: whether there is a loader, and what it gives.\<close>

record delegate_options =
  do_nestingEnabled :: bool
  do_nestingMaxDepth :: "int option"
  do_envDepth :: jsnum
  do_trustedEscalation :: bool
  do_serializeOnPathOverlap :: bool
  do_modelCatalog :: "string list option option"

definition max_depth :: "delegate_options \<Rightarrow> int" where
  "max_depth opts = nullish (do_nestingMaxDepth opts) (resolveCrewMaxDepth None (do_envDepth opts))"

definition overlapping_executors :: "string \<Rightarrow> string \<Rightarrow> nested_task list \<Rightarrow> nat" where
  "overlapping_executors parent dir tasks =
     length (filter (\<lambda>t. task_id t \<noteq> parent \<and> status t = Running \<and>
       (role t = ''executor'' \<or> role t = ''test-engineer'') \<and> cwd t = dir) tasks)"

definition request_of :: "delegate_params \<Rightarrow> delegate_request" where
  "request_of p = \<lparr> rq_role = map_option delegate_role_str (dp_role p), rq_model = dp_model p,
     rq_budgetTokens = map_option (\<lambda>n. Fin (rat_of_int n)) (dp_budgetTokens p), rq_timeoutSec = map_option Fin (dp_timeoutSec p) \<rparr>"

definition admission_of :: "delegate_options \<Rightarrow> delegation \<Rightarrow> nested_task \<Rightarrow> delegate_params \<Rightarrow> admission_input" where
  "admission_of opts s t p =
     \<lparr> ai_maxDepth = max_depth opts, ai_role = Some (role t), ai_depth = nt_depth t, ai_allocation = allocation t,
       ai_untrusted = (\<not> do_trustedEscalation opts), ai_used = length (nb_held (dn_slots s)), ai_max = nb_max (dn_slots s),
       ai_parentBudgetGrantTokens = (if dn_budgetUnlimited s then None else dn_budgetTotal s), ai_allowUnmetered = True,
       ai_requested = request_of p, ai_modelCatalog = map_option (\<lambda>c. nullish c []) (do_modelCatalog opts),
       ai_serializeEnabled = do_serializeOnPathOverlap opts,
       ai_overlapping = overlapping_executors (task_id t) (cwd t) (dn_tasks s) \<rparr>"

definition record_event :: "delegate_event \<Rightarrow> delegation \<Rightarrow> delegation" where
  "record_event e s = s\<lparr>dn_events := dn_events s @ [e]\<rparr>"

definition shadow_task :: "string \<Rightarrow> string \<Rightarrow> string \<Rightarrow> int \<Rightarrow> stamp \<Rightarrow> nested_task" where
  "shadow_task subId rn dir d now =
     team_task.extend ((blank_task subId)\<lparr>role := rn, status := Queued, cwd := dir, startedAt := Some now, graph := None\<rparr>)
       (nested_task.fields ''delegate'' (Some d) None)"

definition reserve_tokens :: "string \<Rightarrow> budget_decision \<Rightarrow> nested_task list \<Rightarrow> nested_task list" where
  "reserve_tokens parent b tasks =
     (if bd_metered b
      then map (\<lambda>t. if task_id t = parent
             then t\<lparr>allocation := Some \<lparr> tokensGranted = bd_grantedTokens b,
                    tokensSpent = Some (js_add (bd_spentTokens b) (nullish (bd_requestedTokens b) (Fin 0))) \<rparr>\<rparr> else t) tasks
      else tasks)"

text \<open>The section under the run lock: an error code, or the decision and the parent.\<close>

definition admit_locked :: "delegate_options \<Rightarrow> string \<Rightarrow> string \<Rightarrow> delegate_params \<Rightarrow> stamp \<Rightarrow> delegation \<Rightarrow>
    (string + spawn_decision \<times> nested_task) \<times> delegation" where
  "admit_locked opts parent subId p now s =
     (case find (\<lambda>t. task_id t = parent) (dn_tasks s) of
        None \<Rightarrow> (Inl ''no-task'', record_event (Rejected parent ''no-task'') s)
      | Some t \<Rightarrow>
          if status t \<noteq> Running then (Inl ''bad-params'', record_event (Rejected parent ''parent-not-running'') s)
          else case evaluateDelegateAdmission (admission_of opts s t p) of
                 Inl reason \<Rightarrow> (Inl ''policy-denied'', record_event (Rejected parent (deny_str reason)) s)
               | Inr d \<Rightarrow>
                   (case tryAcquire subId (dn_slots s) of
                      (slots, False) \<Rightarrow> (Inl ''policy-denied'', record_event (Rejected parent ''slots-exhausted'') s)
                    | (slots, True) \<Rightarrow>
                        (Inr (d, t), s\<lparr>dn_slots := slots,
                           dn_tasks := reserve_tokens parent (sd_budget d) (dn_tasks s) @
                             [shadow_task subId (nullish (rq_role (request_of p)) ''explorer'') (cwd t) (sd_childDepth d) now]\<rparr>)))"

datatype delegate_answer = Refused string | Started string int rat

definition handleDelegateRequest :: "delegate_options \<Rightarrow> identity option \<Rightarrow> json \<Rightarrow> string \<Rightarrow> bool \<Rightarrow> stamp \<Rightarrow> delegation \<Rightarrow>
    delegate_answer \<times> delegation" where
  "handleDelegateRequest opts conn params subId lockFree now s =
     (case conn of
        None \<Rightarrow> (Refused ''auth'', s)
      | Some c \<Rightarrow>
          if cn_role c \<noteq> RoleWorker \<or> cn_authMatchKind c \<noteq> Compound then (Refused ''forbidden'', s)
          else case parseDelegateRequestParams params of
                 None \<Rightarrow> (Refused ''bad-params'', s)
               | Some p \<Rightarrow>
                   if \<not> do_nestingEnabled opts
                   then (Refused ''policy-disabled'', record_event (Rejected (cn_taskId c) ''nesting-disabled'') s)
                   else let rn = nullish (rq_role (request_of p)) ''explorer'';
                            s1 = record_event (Requested (cn_taskId c) subId rn) s
                        in if \<not> lockFree then (Refused ''busy'', record_event (Rejected (cn_taskId c) ''run-lock-busy'') s1)
                           else case admit_locked opts (cn_taskId c) subId p now s1 of
                                  (Inl code, s2) \<Rightarrow> (Refused code, s2)
                                | (Inr (d, t), s2) \<Rightarrow>
                                    let reserved = (if bd_metered (sd_budget d) then nullish (bd_requestedTokens (sd_budget d)) (Fin 0) else Fin 0);
                                        s3 = record_event (Admitted (cn_taskId c) subId (sd_childDepth d) rn (\<not> bd_metered (sd_budget d)) reserved) s2
                                    in (Started subId (sd_childDepth d) (sd_timeoutSec d),
                                        s3\<lparr>dn_tokens := (if sd_childDepth d < max_depth opts then insert subId (dn_tokens s3) else dn_tokens s3),
                                          dn_aborts := dn_aborts s3 @ [subId],
                                          dn_live := dn_live s3 @ [(subId, \<lparr> lc_parent = cn_taskId c, lc_reserved = reserved,
                                            lc_model = (if dp_model p = None then nt_model t else dp_model p), lc_aborted = False \<rparr>)]\<rparr>))"

subsection \<open>Life and end of a delegated worker\<close>

definition set_status :: "string \<Rightarrow> task_status \<Rightarrow> nested_task list \<Rightarrow> nested_task list" where
  "set_status i st tasks = map (\<lambda>t. if task_id t = i then t\<lparr>status := st\<rparr> else t) tasks"

definition promoteShadowToRunning :: "string \<Rightarrow> bool \<Rightarrow> delegation \<Rightarrow> delegation" where
  "promoteShadowToRunning subId lockFree s =
     (if \<not> lockFree then s
      else case find (\<lambda>t. task_id t = subId) (dn_tasks s) of
             Some t \<Rightarrow> if status t = Queued then s\<lparr>dn_tasks := set_status subId Running (dn_tasks s)\<rparr> else s
           | None \<Rightarrow> s)"

definition abortRun :: "delegation \<Rightarrow> delegation" where
  "abortRun s = s\<lparr>dn_live := map (\<lambda>(i, c). (i, if i \<in> set (dn_aborts s) then c\<lparr>lc_aborted := True\<rparr> else c)) (dn_live s),
                  dn_aborts := []\<rparr>"

record child_outcome =
  oc_ok :: bool
  oc_timedOut :: bool
  oc_cancelled :: bool

datatype result_target = ToParent | ToRunMailbox

definition delegateResultTarget :: "task_status option \<Rightarrow> result_target" where
  "delegateResultTarget parentStatus =
     (case parentStatus of
        None \<Rightarrow> ToRunMailbox
      | Some st \<Rightarrow> if isTerminalTaskStatus st then ToRunMailbox else ToParent)"

definition delegateTerminalEvent :: "child_outcome \<Rightarrow> string" where
  "delegateTerminalEvent out =
     (if oc_cancelled out then ''delegate.cancelled''
      else if oc_timedOut out then ''delegate.timed_out'' else ''delegate.completed'')"

text \<open>
  The section of \<open>finalizeDelegateResult\<close>; without the lock it only logs. The end time it writes is \<open>completedAt\<close>,
  which is no field of a task.
\<close>

definition finalizeDelegateResult :: "string \<Rightarrow> string \<Rightarrow> jsnum \<Rightarrow> child_outcome \<Rightarrow> bool \<Rightarrow> delegation \<Rightarrow> delegation" where
  "finalizeDelegateResult parentTaskId subId reservedTokens out lockFree s =
     (if \<not> lockFree then s
      else let delivery = delegateResultTarget (map_option status (find (\<lambda>t. task_id t = parentTaskId) (dn_tasks s)));
               mail = \<lparr> dm_from = ''delegate:'' @ subId, dm_to = (if delivery = ToParent then parentTaskId else ''leader''),
                 dm_taskId = (if delivery = ToParent then Some parentTaskId else None), dm_ok = oc_ok out, dm_timedOut = oc_timedOut out,
                 dm_reroutedFrom = (if delivery = ToParent then None else Some parentTaskId) \<rparr>
           in s\<lparr>dn_mail := dn_mail s @ [mail],
                dn_events := dn_events s @ (if delivery = ToRunMailbox then [Rerouted parentTaskId subId] else []) @
                  (if js_less (Fin 0) reservedTokens then [RolledUp parentTaskId subId reservedTokens] else []),
                dn_tasks := set_status subId (if oc_ok out then Completed else Failed) (dn_tasks s)\<rparr>)"

text \<open>The end of the process of a worker in flight: its result, the release of its slot and the last event.\<close>

definition settle_child :: "string \<Rightarrow> child_outcome \<Rightarrow> bool \<Rightarrow> delegation \<Rightarrow> delegation option" where
  "settle_child subId out lockFree s =
     (case map_of (dn_live s) subId of
        None \<Rightarrow> None
      | Some c \<Rightarrow>
          if oc_cancelled out \<and> \<not> lc_aborted c \<or> oc_ok out \<and> (oc_cancelled out \<or> oc_timedOut out) then None
          else let s1 = finalizeDelegateResult (lc_parent c) subId (lc_reserved c) out lockFree s
               in Some (record_event (Ended (delegateTerminalEvent out) subId (oc_ok out))
                    (s1\<lparr>dn_aborts := filter (\<lambda>i. i \<noteq> subId) (dn_aborts s1), dn_slots := nested_release subId (dn_slots s1),
                      dn_live := filter (\<lambda>(i, c). i \<noteq> subId) (dn_live s1)\<rparr>)))"

text \<open>
  The events of the system; the id of a request is fresh, as a random UUID is. \<open>DWrite\<close>: any other writer ends,
  parks or restarts a task. The saves of a whole array are in the machine of the shared file below.
\<close>

datatype delegation_event =
    DRequest "identity option" json string bool stamp
  | DPromote string bool
  | DAbort
  | DSettle string child_outcome bool
  | DWrite string task_status

fun delegation_step :: "delegate_options \<Rightarrow> delegation_event \<Rightarrow> delegation \<Rightarrow> delegation option" where
  "delegation_step opts (DRequest conn params subId lockFree now) s =
     (if subId \<in> task_id ` set (dn_tasks s) \<or> subId \<in> fst ` set (dn_live s) \<or> subId \<in> set (nb_held (dn_slots s)) then None
      else Some (snd (handleDelegateRequest opts conn params subId lockFree now s)))"
| "delegation_step opts (DPromote subId lockFree) s = Some (promoteShadowToRunning subId lockFree s)"
| "delegation_step opts DAbort s = Some (abortRun s)"
| "delegation_step opts (DSettle subId out lockFree) s = settle_child subId out lockFree s"
| "delegation_step opts (DWrite i st) s = Some (s\<lparr>dn_tasks := set_status i st (dn_tasks s)\<rparr>)"

text \<open>
  The file of the tasks is shared: the runner saves the whole array that it has in memory, without the lock
  (\<open>saveRunTasksAsync\<close> in \<open>src/src/runtime/team-runner.ts\<close>), and the merge of a finished unit puts whole records in.
  What is saved is any array of tasks, so also one that was read before a reservation was made.
\<close>

datatype shared_event =
    Own delegation_event
  | SaveTasks "nested_task list"

fun shared_step :: "delegate_options \<Rightarrow> shared_event \<Rightarrow> delegation \<Rightarrow> delegation option" where
  "shared_step opts (Own e) s = delegation_step opts e s"
| "shared_step opts (SaveTasks ts) s = Some (s\<lparr>dn_tasks := ts\<rparr>)"

text \<open>A save that loses nothing of the delegations: it has the records of the file, with the reservations made in them.\<close>

definition delegation_fields :: "nested_task \<Rightarrow> string \<times> string \<times> int option \<times> task_allocation option" where
  "delegation_fields t = (task_id t, role t, nt_depth t, allocation t)"

fun keeps_reservations :: "shared_event \<Rightarrow> delegation \<Rightarrow> bool" where
  "keeps_reservations (Own e) s = True"
| "keeps_reservations (SaveTasks ts) s = (map delegation_fields ts = map delegation_fields (dn_tasks s))"


subsection \<open>What an admission means\<close>

definition granted_to :: "admission_input \<Rightarrow> jsnum" where
  "granted_to a = (case ai_allocation a of Some al \<Rightarrow> tokensGranted al | None \<Rightarrow> nullish (ai_parentBudgetGrantTokens a) (Fin 0))"

definition spent_by :: "admission_input \<Rightarrow> jsnum" where
  "spent_by a = nullish (Option.bind (ai_allocation a) tokensSpent) (Fin 0)"

lemma admitted_facts:
  assumes "evaluateDelegateAdmission a = Inr d"
  shows "sd_childDepth d = nullish (ai_depth a) 1 + 1" "sd_childDepth d \<le> ai_maxDepth a"
    "rat_of_nat (ai_used a) < ai_max a" "\<not> ai_untrusted a"
    "rq_role (ai_requested a) = Some r \<Longrightarrow> r \<in> set DELEGATE_ALLOWED_ROLES"
    "rq_role (ai_requested a) = Some r \<Longrightarrow> r \<in> set EXECUTOR_CLASS_ROLES \<Longrightarrow> parentTaskTier (ai_role a) \<noteq> ReadOnly"
    "sd_budget d = \<lparr> bd_metered = (rq_budgetTokens (ai_requested a) \<noteq> None), bd_grantedTokens = granted_to a, bd_spentTokens = spent_by a,
       bd_requestedTokens = rq_budgetTokens (ai_requested a) \<rparr>"
    "rq_budgetTokens (ai_requested a) = Some b \<Longrightarrow> \<not> js_less (js_add (granted_to a) (js_neg (spent_by a))) b"
    "1 \<le> sd_timeoutSec d" "sd_timeoutSec d \<le> MAX_DELEGATE_TIMEOUT_SEC"
    "sd_effectiveToolPolicy d = effectiveGrandchildToolPolicy (ai_role a) (nullish (rq_role (ai_requested a)) ''explorer'')"
  using assms
  by (auto simp: evaluateDelegateAdmission_def granted_to_def spent_by_def Let_def not_le not_less
      split: if_splits jsnum.splits split del: nullish_split)

text \<open>A request is either refused, and only events are recorded, or it is admitted for a running parent.\<close>

fun not_admitted :: "delegate_event \<Rightarrow> bool" where
  "not_admitted (Admitted _ _ _ _ _ _) = False"
| "not_admitted _ = True"

definition admitted_state :: "delegate_options \<Rightarrow> string \<Rightarrow> string \<Rightarrow> delegate_params \<Rightarrow> stamp \<Rightarrow> nested_task \<Rightarrow> spawn_decision \<Rightarrow> nested_budget \<Rightarrow>
    delegation \<Rightarrow> delegation" where
  "admitted_state opts parent subId p now t d slots s =
     (let rn = nullish (rq_role (request_of p)) ''explorer'';
          reserved = (if bd_metered (sd_budget d) then nullish (bd_requestedTokens (sd_budget d)) (Fin 0) else Fin 0)
      in s\<lparr>dn_slots := slots,
           dn_tasks := reserve_tokens parent (sd_budget d) (dn_tasks s) @ [shadow_task subId rn (cwd t) (sd_childDepth d) now],
           dn_events := dn_events s @ [Requested parent subId rn, Admitted parent subId (sd_childDepth d) rn (\<not> bd_metered (sd_budget d)) reserved],
           dn_tokens := (if sd_childDepth d < max_depth opts then insert subId (dn_tokens s) else dn_tokens s),
           dn_aborts := dn_aborts s @ [subId],
           dn_live := dn_live s @ [(subId, \<lparr> lc_parent = parent, lc_reserved = reserved,
             lc_model = (if dp_model p = None then nt_model t else dp_model p), lc_aborted = False \<rparr>)]\<rparr>)"

definition admits :: "delegate_options \<Rightarrow> identity option \<Rightarrow> json \<Rightarrow> string \<Rightarrow> stamp \<Rightarrow> delegation \<Rightarrow>
    string \<Rightarrow> delegate_params \<Rightarrow> nested_task \<Rightarrow> spawn_decision \<Rightarrow> nested_budget \<Rightarrow> bool" where
  "admits opts conn params subId now s parent p t d slots \<longleftrightarrow>
     (\<exists>c. conn = Some c \<and> cn_role c = RoleWorker \<and> cn_authMatchKind c = Compound \<and> cn_taskId c = parent) \<and>
     do_nestingEnabled opts \<and> parseDelegateRequestParams params = Some p \<and> t \<in> set (dn_tasks s) \<and> task_id t = parent \<and> status t = Running \<and>
     evaluateDelegateAdmission (admission_of opts s t p) = Inr d \<and> tryAcquire subId (dn_slots s) = (slots, True)"

lemma admission_of_event [simp]: "admission_of opts (record_event e s) t p = admission_of opts s t p"
  by (simp add: admission_of_def record_event_def)

lemma record_event_simps [simp]:
  "dn_tasks (record_event e s) = dn_tasks s" "dn_slots (record_event e s) = dn_slots s" "dn_events (record_event e s) = dn_events s @ [e]"
  "dn_live (record_event e s) = dn_live s" "dn_aborts (record_event e s) = dn_aborts s" "dn_mail (record_event e s) = dn_mail s"
  "dn_tokens (record_event e s) = dn_tokens s" "dn_budgetTotal (record_event e s) = dn_budgetTotal s"
  "dn_budgetUnlimited (record_event e s) = dn_budgetUnlimited s"
  by (simp_all add: record_event_def)

lemma record_events: "record_event e (s\<lparr>dn_events := es\<rparr>) = s\<lparr>dn_events := es @ [e]\<rparr>" "record_event e s = s\<lparr>dn_events := dn_events s @ [e]\<rparr>"
  by (simp_all add: record_event_def)

lemma locked_cases:
  assumes "admit_locked opts parent subId p now s = (r, s')"
  shows "(\<exists>code e. r = Inl code \<and> not_admitted e \<and> s' = record_event e s) \<or>
    (\<exists>d t slots. r = Inr (d, t) \<and> t \<in> set (dn_tasks s) \<and> task_id t = parent \<and> status t = Running \<and>
       evaluateDelegateAdmission (admission_of opts s t p) = Inr d \<and> tryAcquire subId (dn_slots s) = (slots, True) \<and>
       s' = s\<lparr>dn_slots := slots, dn_tasks := reserve_tokens parent (sd_budget d) (dn_tasks s) @
         [shadow_task subId (nullish (rq_role (request_of p)) ''explorer'') (cwd t) (sd_childDepth d) now]\<rparr>)"
proof -
  have rejected: ?thesis if "r = Inl code" "s' = record_event (Rejected parent reason) s" for code reason
    using that by (intro disjI1 exI [of _ code] exI [of _ "Rejected parent reason"]) simp
  show ?thesis
  proof (cases "find (\<lambda>t. task_id t = parent) (dn_tasks s)")
    case None
    then show ?thesis using assms by (intro rejected [of "''no-task''" "''no-task''"]) (simp_all add: admit_locked_def)
  next
    case (Some t)
    then have t: "t \<in> set (dn_tasks s)" "task_id t = parent" by (auto simp: find_Some_iff in_set_conv_nth)
    obtain slots got where q: "tryAcquire subId (dn_slots s) = (slots, got)" by fastforce
    show ?thesis
    proof (cases "status t = Running")
      case False
      then show ?thesis using assms Some by (intro rejected [of "''bad-params''" "''parent-not-running''"]) (simp_all add: admit_locked_def)
    next
      case True
      note facts = assms Some t q True
      show ?thesis
      proof (cases "evaluateDelegateAdmission (admission_of opts s t p)")
        case (Inl reason)
        then show ?thesis using facts by (intro rejected [of "''policy-denied''" "deny_str reason"]) (simp_all add: admit_locked_def)
      next
        case (Inr d)
        show ?thesis
        proof (cases got)
          case False
          then show ?thesis using facts Inr
            by (intro rejected [of "''policy-denied''" "''slots-exhausted''"]) (simp_all add: admit_locked_def)
        next
          case True
          then show ?thesis using facts Inr
            by (intro disjI2 exI [of _ d] exI [of _ t] exI [of _ slots]) (simp add: admit_locked_def split del: nullish_split)
        qed
      qed
    qed
  qed
qed

lemma request_cases:
  assumes "handleDelegateRequest opts conn params subId lockFree now s = (ans, s')"
  shows "(\<exists>code es. ans = Refused code \<and> list_all not_admitted es \<and> s' = s\<lparr>dn_events := dn_events s @ es\<rparr>) \<or>
    (\<exists>parent p t d slots. lockFree \<and> ans = Started subId (sd_childDepth d) (sd_timeoutSec d) \<and>
       admits opts conn params subId now s parent p t d slots \<and> s' = admitted_state opts parent subId p now t d slots s)"
proof -
  have refused: ?thesis if "ans = Refused code" "list_all not_admitted es" "s' = s\<lparr>dn_events := dn_events s @ es\<rparr>" for code es
    using that by blast
  note u = handleDelegateRequest_def record_event_def
  show ?thesis
  proof (cases conn)
    case None
    then show ?thesis using assms by (intro refused [of "''auth''" "[]"]) (simp_all add: u)
  next
    case (Some c)
    show ?thesis
    proof (cases "cn_role c \<noteq> RoleWorker \<or> cn_authMatchKind c \<noteq> Compound")
      case True
      then show ?thesis using assms Some by (intro refused [of "''forbidden''" "[]"]) (simp_all add: u)
    next
      case c: False
      show ?thesis
      proof (cases "parseDelegateRequestParams params")
        case None
        then show ?thesis using assms Some c by (intro refused [of "''bad-params''" "[]"]) (simp_all add: u)
      next
        case p: (Some p)
        let ?rn = "nullish (rq_role (request_of p)) ''explorer''"
        let ?s1 = "record_event (Requested (cn_taskId c) subId ?rn) s"
        show ?thesis
        proof (cases "do_nestingEnabled opts \<and> lockFree")
          case False
          show ?thesis
          proof (cases "do_nestingEnabled opts")
            case True
            then show ?thesis using assms Some c p False
              by (intro refused [of "''busy''" "[Requested (cn_taskId c) subId ?rn, Rejected (cn_taskId c) ''run-lock-busy'']"])
                (simp_all add: u Let_def split del: nullish_split)
          next
            case no: False
            then show ?thesis using assms Some c p
              by (intro refused [of "''policy-disabled''" "[Rejected (cn_taskId c) ''nesting-disabled'']"]) (simp_all add: u)
          qed
        next
          case True
          obtain r s2 where L: "admit_locked opts (cn_taskId c) subId p now ?s1 = (r, s2)" by fastforce
          show ?thesis
          proof (cases r)
            case (Inl code)
            then obtain e where e: "not_admitted e" "s2 = record_event e ?s1" using locked_cases [OF L] by auto
            then show ?thesis using assms Some c p True L Inl
              by (intro refused [of code "[Requested (cn_taskId c) subId ?rn, e]"]) (simp_all add: u Let_def split del: nullish_split)
          next
            case (Inr dt)
            obtain d t where dt: "dt = (d, t)" by (cases dt)
            obtain slots where f: "t \<in> set (dn_tasks s)" "task_id t = cn_taskId c" "status t = Running"
              "evaluateDelegateAdmission (admission_of opts s t p) = Inr d" "tryAcquire subId (dn_slots s) = (slots, True)"
              "s2 = ?s1\<lparr>dn_slots := slots, dn_tasks := reserve_tokens (cn_taskId c) (sd_budget d) (dn_tasks s) @
                 [shadow_task subId ?rn (cwd t) (sd_childDepth d) now]\<rparr>"
              using locked_cases [OF L] Inr dt by auto
            have "admits opts conn params subId now s (cn_taskId c) p t d slots"
              using f Some c p True by (simp add: admits_def)
            moreover have "s' = admitted_state opts (cn_taskId c) subId p now t d slots s \<and> ans = Started subId (sd_childDepth d) (sd_timeoutSec d)"
              using assms Some c p True L Inr dt f(6)
              by (cases "sd_childDepth d < max_depth opts"; cases "bd_metered (sd_budget d)")
                (simp_all add: u admitted_state_def Let_def split del: nullish_split)
            ultimately show ?thesis using True by blast
          qed
        qed
      qed
    qed
  qed
qed

subsection \<open>What every sequence of events keeps\<close>

text \<open>The tokens that the recorded admissions reserved at a parent.\<close>

fun charge_of :: "string \<Rightarrow> delegate_event \<Rightarrow> rat" where
  "charge_of p (Admitted q _ _ _ _ (Fin r)) = (if q = p then r else 0)"
| "charge_of p _ = 0"

definition charged :: "string \<Rightarrow> delegate_event list \<Rightarrow> rat" where
  "charged p es = sum_list (map (charge_of p) es)"

definition spent_of :: "nested_task \<Rightarrow> jsnum" where
  "spent_of t = nullish (Option.bind (allocation t) tokensSpent) (Fin 0)"

definition accounted :: "(string \<Rightarrow> rat) \<Rightarrow> delegate_event list \<Rightarrow> nested_task \<Rightarrow> bool" where
  "accounted base es t \<longleftrightarrow> spent_of t = Fin (base (task_id t) + charged (task_id t) es) \<and>
     (case allocation t of None \<Rightarrow> True
      | Some al \<Rightarrow> \<exists>g. tokensGranted al = Fin g \<and> base (task_id t) + charged (task_id t) es \<le> g)"

definition task_keys :: "nested_task list \<Rightarrow> (string \<times> string \<times> int option) set" where
  "task_keys tasks = (\<lambda>t. (task_id t, role t, nt_depth t)) ` set tasks"

fun edge_ok :: "delegate_options \<Rightarrow> (string \<times> string \<times> int option) set \<Rightarrow> delegate_event \<Rightarrow> bool" where
  "edge_ok opts K (Admitted p c d rn um res) \<longleftrightarrow>
     (\<exists>rp dp. (p, rp, dp) \<in> K \<and> (c, rn, Some d) \<in> K \<and> d = nullish dp 1 + 1 \<and> d \<le> max_depth opts \<and>
        rn \<in> set DELEGATE_ALLOWED_ROLES \<and> (permissionForRole rn = WorkspaceWrite \<longrightarrow> permissionForRole rp = WorkspaceWrite))"
| "edge_ok opts K _ \<longleftrightarrow> True"

definition finite_total :: "jsnum option \<Rightarrow> bool" where
  "finite_total x \<longleftrightarrow> (case x of Some y \<Rightarrow> is_finite y | None \<Rightarrow> True)"

definition delegation_ok :: "delegate_options \<Rightarrow> (string \<Rightarrow> rat) \<Rightarrow> delegation \<Rightarrow> bool" where
  "delegation_ok opts base s \<longleftrightarrow>
     nested_ok (dn_slots s) \<and> distinct (map fst (dn_live s)) \<and> fst ` set (dn_live s) = set (nb_held (dn_slots s)) \<and>
     set (dn_aborts s) \<subseteq> fst ` set (dn_live s) \<and> distinct (map task_id (dn_tasks s)) \<and>
     fst ` set (dn_live s) \<subseteq> task_id ` set (dn_tasks s) \<and>
     (\<forall>e\<in>set (dn_events s). edge_ok opts (task_keys (dn_tasks s)) e) \<and>
     (\<forall>i. base i \<noteq> 0 \<longrightarrow> i \<in> task_id ` set (dn_tasks s)) \<and>
     (\<forall>t\<in>set (dn_tasks s). accounted base (dn_events s) t) \<and> finite_total (dn_budgetTotal s)"

lemma edge_mono: "edge_ok opts K e \<Longrightarrow> K \<subseteq> K' \<Longrightarrow> edge_ok opts K' e"
  by (cases e) (simp_all only: edge_ok.simps, blast)

lemma edge_not_admitted: "not_admitted e \<Longrightarrow> edge_ok opts K e"
  by (cases e) auto

lemma charge_not_admitted: "not_admitted e \<Longrightarrow> charge_of p e = 0"
  by (cases e) auto

lemma charged_append [simp]: "charged p (es @ fs) = charged p es + charged p fs"
  by (simp add: charged_def)

lemma charged_quiet: "list_all not_admitted es \<Longrightarrow> charged p es = 0"
  by (induction es) (auto simp: charged_def charge_not_admitted)

lemma set_status_ids [simp]: "map task_id (set_status i st tasks) = map task_id tasks"
  by (simp add: set_status_def)

lemma set_status_keys [simp]:
  "task_id ` set (set_status i st tasks) = task_id ` set tasks" "task_keys (set_status i st tasks) = task_keys tasks"
proof -
  show "task_id ` set (set_status i st tasks) = task_id ` set tasks" by (simp only: set_map [symmetric] set_status_ids)
  have "map (\<lambda>t. (task_id t, role t, nt_depth t)) (set_status i st tasks) = map (\<lambda>t. (task_id t, role t, nt_depth t)) tasks"
    by (simp add: set_status_def)
  then show "task_keys (set_status i st tasks) = task_keys tasks" by (simp only: task_keys_def set_map [symmetric])
qed

lemma accounted_status: "(\<forall>t\<in>set (set_status i st tasks). accounted base es t) \<longleftrightarrow> (\<forall>t\<in>set tasks. accounted base es t)"
proof -
  have "accounted base es (t\<lparr>status := st\<rparr>) = accounted base es t" for t :: nested_task
    by (cases "allocation t") (simp_all add: accounted_def spent_of_def split del: nullish_split)
  then have "accounted base es (if task_id t = i then t\<lparr>status := st\<rparr> else t) = accounted base es t" for t :: nested_task
    by simp
  then show ?thesis unfolding set_status_def set_map ball_simps(9) by simp
qed

lemma quiet_step:
  assumes "delegation_ok opts base s" and "list_all not_admitted es"
    and "dn_events s' = dn_events s @ es" and "dn_slots s' = dn_slots s" and "map fst (dn_live s') = map fst (dn_live s)"
    and "set (dn_aborts s') \<subseteq> set (dn_aborts s)" and "dn_tasks s' \<in> {dn_tasks s, set_status i st (dn_tasks s)}"
    and "dn_budgetTotal s' = dn_budgetTotal s"
  shows "delegation_ok opts base s'"
proof -
  have live: "fst ` set (dn_live s') = fst ` set (dn_live s)" using assms(5) by (metis image_set)
  have keys: "map task_id (dn_tasks s') = map task_id (dn_tasks s)" "task_keys (dn_tasks s') = task_keys (dn_tasks s)"
    "task_id ` set (dn_tasks s') = task_id ` set (dn_tasks s)"
    using assms(7) by (elim insertE emptyE; simp only: set_status_ids set_status_keys)+
  have acc: "(\<forall>t\<in>set (dn_tasks s'). accounted base (dn_events s) t) \<longleftrightarrow> (\<forall>t\<in>set (dn_tasks s). accounted base (dn_events s) t)"
    using assms(7) by (elim insertE emptyE) (simp_all only: accounted_status)
  have c: "charged p (dn_events s @ es) = charged p (dn_events s)" for p
    using charged_quiet [OF assms(2)] by simp
  have "accounted base (dn_events s @ es) = accounted base (dn_events s)"
    unfolding accounted_def c by (rule refl)
  moreover have "set (dn_aborts s') \<subseteq> fst ` set (dn_live s)"
    using assms(1,6) unfolding delegation_ok_def by (elim conjE) (rule subset_trans)
  moreover have "edge_ok opts K e" if "e \<in> set es" for K e
    using assms(2) that edge_not_admitted by (simp add: list_all_iff)
  ultimately show ?thesis
    using assms(1) acc unfolding delegation_ok_def keys live assms(3,4,8) assms(5) by auto
qed

lemma release_step:
  assumes "delegation_ok opts base s"
  shows "delegation_ok opts base (s\<lparr>dn_aborts := filter (\<lambda>i. i \<noteq> subId) (dn_aborts s), dn_slots := nested_release subId (dn_slots s),
    dn_live := filter (\<lambda>(i, c). i \<noteq> subId) (dn_live s)\<rparr>)"
proof -
  have ok: "nested_ok (nested_release subId (dn_slots s))"
    using assms nested_ok_step [of "dn_slots s" "NbRelease subId"] by (simp add: delegation_ok_def)
  have live: "fst ` set (filter (\<lambda>(i, c). i \<noteq> subId) (dn_live s)) = fst ` set (dn_live s) - {subId}" by force
  have d: "distinct (map fst (filter (\<lambda>(i, c). i \<noteq> subId) (dn_live s)))"
    using assms by (simp add: delegation_ok_def distinct_map_filter)
  have held: "set (nb_held (nested_release subId (dn_slots s))) = set (nb_held (dn_slots s)) - {subId}"
    by (auto simp: nested_release_def)
  have "set (filter (\<lambda>i. i \<noteq> subId) (dn_aborts s)) \<subseteq> fst ` set (dn_live s) - {subId}"
    "fst ` set (dn_live s) - {subId} \<subseteq> task_id ` set (dn_tasks s)" "fst ` set (dn_live s) = set (nb_held (dn_slots s))"
    using assms by (auto simp: delegation_ok_def)
  then show ?thesis
    using assms ok d unfolding delegation_ok_def by (simp add: live held del: set_filter)
qed

lemma finalize_facts:
  "\<exists>es. list_all not_admitted es \<and> dn_events (finalizeDelegateResult parent subId r out lockFree s) = dn_events s @ es"
  "dn_slots (finalizeDelegateResult parent subId r out lockFree s) = dn_slots s"
  "dn_live (finalizeDelegateResult parent subId r out lockFree s) = dn_live s"
  "dn_aborts (finalizeDelegateResult parent subId r out lockFree s) = dn_aborts s"
  "dn_budgetTotal (finalizeDelegateResult parent subId r out lockFree s) = dn_budgetTotal s"
  "dn_tasks (finalizeDelegateResult parent subId r out lockFree s) \<in>
     {dn_tasks s, set_status subId (if oc_ok out then Completed else Failed) (dn_tasks s)}"
  by (auto simp: finalizeDelegateResult_def Let_def intro: exI [of _ "[]"])

lemma settle_step:
  assumes "delegation_ok opts base s" and "settle_child subId out lockFree s = Some s'"
  shows "delegation_ok opts base s'"
proof -
  obtain c where c: "map_of (dn_live s) subId = Some c" using assms(2) by (auto simp: settle_child_def split: option.splits)
  let ?f = "finalizeDelegateResult (lc_parent c) subId (lc_reserved c) out lockFree s"
  let ?e = "Ended (delegateTerminalEvent out) subId (oc_ok out)"
  obtain es where es: "list_all not_admitted es" "dn_events ?f = dn_events s @ es" using finalize_facts(1) by blast
  have "delegation_ok opts base ?f"
    by (rule quiet_step [OF assms(1), of es _ subId "if oc_ok out then Completed else Failed"]) (use es finalize_facts(2-6) in simp_all)
  then have R: "delegation_ok opts base (?f\<lparr>dn_aborts := filter (\<lambda>i. i \<noteq> subId) (dn_aborts ?f), dn_slots := nested_release subId (dn_slots ?f),
      dn_live := filter (\<lambda>(i, c). i \<noteq> subId) (dn_live ?f)\<rparr>)" (is "delegation_ok opts base ?r")
    by (rule release_step)
  have "delegation_ok opts base (record_event ?e ?r)"
    by (rule quiet_step [OF R, of "[?e]"]) simp_all
  moreover have "s' = record_event ?e ?r" using assms(2) c by (simp add: settle_child_def Let_def split: if_splits)
  ultimately show ?thesis by simp
qed

lemma shadow_simps [simp]:
  "task_id (shadow_task i rn dir d now) = i" "role (shadow_task i rn dir d now) = rn" "nt_depth (shadow_task i rn dir d now) = Some d"
  "allocation (shadow_task i rn dir d now) = None" "status (shadow_task i rn dir d now) = Queued" "cwd (shadow_task i rn dir d now) = dir"
  "finishedAt (shadow_task i rn dir d now) = None"
  by (simp_all add: shadow_task_def team_task.extend_def nested_task.fields_def blank_task_def)

lemma reserve_ids [simp]: "map task_id (reserve_tokens p b tasks) = map task_id tasks"
  by (simp add: reserve_tokens_def)

lemma reserve_keys [simp]:
  "task_id ` set (reserve_tokens p b tasks) = task_id ` set tasks" "task_keys (reserve_tokens p b tasks) = task_keys tasks"
proof -
  show "task_id ` set (reserve_tokens p b tasks) = task_id ` set tasks" by (simp only: set_map [symmetric] reserve_ids)
  have "map (\<lambda>t. (task_id t, role t, nt_depth t)) (reserve_tokens p b tasks) = map (\<lambda>t. (task_id t, role t, nt_depth t)) tasks"
    by (simp add: reserve_tokens_def)
  then show "task_keys (reserve_tokens p b tasks) = task_keys tasks" by (simp only: task_keys_def set_map [symmetric])
qed

lemma write_role_of_request:
  assumes "r \<in> set DELEGATE_ALLOWED_ROLES" and "permissionForRole r = WorkspaceWrite"
  shows "r \<in> set EXECUTOR_CLASS_ROLES"
proof -
  have "list_all (\<lambda>r. permissionForRole r = WorkspaceWrite \<longrightarrow> r \<in> set EXECUTOR_CLASS_ROLES) DELEGATE_ALLOWED_ROLES" by code_simp
  then show ?thesis using assms by (simp add: list_all_iff)
qed

text \<open>What the gates let through: the role, the depth and the tier of the child.\<close>

lemma admitted_edge:
  assumes "admits opts conn params subId now s parent p t d slots"
  shows "edge_ok opts (insert (subId, nullish (rq_role (request_of p)) ''explorer'', Some (sd_childDepth d)) (task_keys (dn_tasks s)))
    (Admitted parent subId (sd_childDepth d) (nullish (rq_role (request_of p)) ''explorer'') um res)"
proof -
  let ?rn = "nullish (rq_role (request_of p)) ''explorer''"
  have ev: "evaluateDelegateAdmission (admission_of opts s t p) = Inr d" and t: "t \<in> set (dn_tasks s)" "task_id t = parent"
    using assms by (simp_all add: admits_def)
  note f = admitted_facts [OF ev]
  have d: "sd_childDepth d = nullish (nt_depth t) 1 + 1" "sd_childDepth d \<le> max_depth opts"
    using f(1,2) by (simp_all add: admission_of_def)
  have e: "''explorer'' \<in> set DELEGATE_ALLOWED_ROLES" "permissionForRole ''explorer'' \<noteq> WorkspaceWrite" by code_simp+
  have allowed: "?rn \<in> set DELEGATE_ALLOWED_ROLES"
    using f(5) e(1) by (cases "rq_role (request_of p)") (simp_all add: admission_of_def)
  have tier: "permissionForRole (role t) = WorkspaceWrite" if w: "permissionForRole ?rn = WorkspaceWrite"
  proof -
    obtain r where r: "rq_role (request_of p) = Some r" using w e(2) by (cases "rq_role (request_of p)") simp_all
    have "r \<in> set EXECUTOR_CLASS_ROLES" using write_role_of_request allowed w r by simp
    then have "parentTaskTier (Some (role t)) \<noteq> ReadOnly" using f(6) [of r] r by (simp add: admission_of_def)
    then show ?thesis by (simp add: parentTaskTier_def split: if_splits)
  qed
  have "(parent, role t, nt_depth t) \<in> task_keys (dn_tasks s)" using t by (auto simp: task_keys_def)
  then show ?thesis unfolding edge_ok.simps using d allowed tier by (intro exI [of _ "role t"] exI [of _ "nt_depth t"]) (simp split del: nullish_split)
qed

lemma delegation_okD:
  assumes "delegation_ok opts base s"
  shows "nested_ok (dn_slots s)" "distinct (map fst (dn_live s))" "fst ` set (dn_live s) = set (nb_held (dn_slots s))"
    "distinct (map task_id (dn_tasks s))" "\<forall>e\<in>set (dn_events s). edge_ok opts (task_keys (dn_tasks s)) e"
    "\<forall>i. base i \<noteq> 0 \<longrightarrow> i \<in> task_id ` set (dn_tasks s)" "\<forall>t\<in>set (dn_tasks s). accounted base (dn_events s) t"
    "finite_total (dn_budgetTotal s)"
  using assms unfolding delegation_ok_def by blast+

lemma charged_unknown:
  assumes "\<forall>e\<in>set es. edge_ok opts (task_keys tasks) e" and "i \<notin> task_id ` set tasks"
  shows "charged i es = 0"
proof -
  have "charge_of i e = 0" if e: "edge_ok opts (task_keys tasks) e" for e
  proof (cases e)
    case (Admitted p c d rn um res)
    then have "p \<noteq> i" using e assms(2) by (auto simp: task_keys_def)
    then show ?thesis unfolding Admitted by (cases res) simp_all
  qed simp_all
  then have m: "map (charge_of i) es = map (\<lambda>_. 0) es" using assms(1) by (intro map_cong) auto
  show ?thesis unfolding charged_def m by simp
qed

lemma charged_admission [simp]:
  "charged i [Requested p c rn, Admitted p c d rn um (Fin r)] = (if i = p then r else 0)"
  by (simp add: charged_def)

definition reserved_of :: "delegate_params \<Rightarrow> rat" where
  "reserved_of p = rat_of_int (nullish (dp_budgetTokens p) 0)"

lemma admitted_budget:
  assumes "admits opts conn params subId now s parent p t d slots" and "accounted base es t" and "finite_total (dn_budgetTotal s)"
  shows "(if bd_metered (sd_budget d) then nullish (bd_requestedTokens (sd_budget d)) (Fin 0) else Fin 0) = Fin (reserved_of p)"
    "\<not> bd_metered (sd_budget d) \<Longrightarrow> reserved_of p = 0"
    "bd_metered (sd_budget d) \<Longrightarrow> \<exists>g. bd_grantedTokens (sd_budget d) = Fin g \<and>
       js_add (bd_spentTokens (sd_budget d)) (nullish (bd_requestedTokens (sd_budget d)) (Fin 0)) =
         Fin (base (task_id t) + charged (task_id t) es + reserved_of p) \<and>
       base (task_id t) + charged (task_id t) es + reserved_of p \<le> g"
proof -
  have ev: "evaluateDelegateAdmission (admission_of opts s t p) = Inr d" using assms(1) by (simp add: admits_def)
  note b = admitted_facts(7) [OF ev]
  have rq: "rq_budgetTokens (ai_requested (admission_of opts s t p)) = map_option (\<lambda>n. Fin (rat_of_int n)) (dp_budgetTokens p)"
    by (simp add: admission_of_def request_of_def)
  show "(if bd_metered (sd_budget d) then nullish (bd_requestedTokens (sd_budget d)) (Fin 0) else Fin 0) = Fin (reserved_of p)"
    by (cases "dp_budgetTokens p") (simp_all add: b rq reserved_of_def)
  show "\<not> bd_metered (sd_budget d) \<Longrightarrow> reserved_of p = 0"
    by (cases "dp_budgetTokens p") (simp_all add: b rq reserved_of_def)
  assume m: "bd_metered (sd_budget d)"
  then obtain n where n: "dp_budgetTokens p = Some n" by (cases "dp_budgetTokens p") (simp_all add: b rq)
  have sp: "spent_by (admission_of opts s t p) = Fin (base (task_id t) + charged (task_id t) es)"
    using assms(2) by (simp add: accounted_def spent_by_def spent_of_def admission_of_def split del: nullish_split)
  obtain g where g: "granted_to (admission_of opts s t p) = Fin g"
  proof (cases "allocation t")
    case None
    then have "is_finite (granted_to (admission_of opts s t p))"
      using assms(3) by (auto simp: granted_to_def admission_of_def finite_total_def split: option.splits)
    then show ?thesis using that by (cases "granted_to (admission_of opts s t p)") auto
  next
    case (Some al)
    then show ?thesis using assms(2) that by (auto simp: accounted_def granted_to_def admission_of_def)
  qed
  have "base (task_id t) + charged (task_id t) es + reserved_of p \<le> g"
    using admitted_facts(8) [OF ev, of "Fin (rat_of_int n)"] n by (simp add: rq sp g reserved_of_def not_less)
  then show "\<exists>g. bd_grantedTokens (sd_budget d) = Fin g \<and>
       js_add (bd_spentTokens (sd_budget d)) (nullish (bd_requestedTokens (sd_budget d)) (Fin 0)) =
         Fin (base (task_id t) + charged (task_id t) es + reserved_of p) \<and>
       base (task_id t) + charged (task_id t) es + reserved_of p \<le> g"
    using n by (simp add: b rq sp g reserved_of_def)
qed

lemma admitted_step:
  assumes "delegation_ok opts base s" and "admits opts conn params subId now s parent p t d slots"
    and "subId \<notin> task_id ` set (dn_tasks s)" and "subId \<notin> set (nb_held (dn_slots s))"
  shows "delegation_ok opts base (admitted_state opts parent subId p now t d slots s)"
proof -
  let ?s' = "admitted_state opts parent subId p now t d slots s"
  let ?rn = "nullish (rq_role (request_of p)) ''explorer''"
  let ?new = "[Requested parent subId ?rn, Admitted parent subId (sd_childDepth d) ?rn (\<not> bd_metered (sd_budget d)) (Fin (reserved_of p))]"
  note ok = assms(1) [unfolded delegation_ok_def]
  note k = delegation_okD [OF assms(1)]
  have t: "t \<in> set (dn_tasks s)" "task_id t = parent" using assms(2) by (simp_all add: admits_def)
  have acc_t: "accounted base (dn_events s) t" using k(7) t(1) by blast
  have fin: "finite_total (dn_budgetTotal s)" by (rule k(8))
  note bud = admitted_budget [OF assms(2) acc_t fin]
  have events: "dn_events ?s' = dn_events s @ ?new"
    using bud(1) by (simp add: admitted_state_def Let_def split del: nullish_split)
  have tasks: "dn_tasks ?s' = reserve_tokens parent (sd_budget d) (dn_tasks s) @ [shadow_task subId ?rn (cwd t) (sd_childDepth d) now]"
    by (simp add: admitted_state_def Let_def split del: nullish_split)
  have slots: "dn_slots ?s' = slots" "slots = (dn_slots s)\<lparr>nb_held := nb_held (dn_slots s) @ [subId]\<rparr>"
    using assms(2,4) by (auto simp: admitted_state_def admits_def Let_def tryAcquire_def js_set_add_def split: if_splits)
  have live: "map fst (dn_live ?s') = map fst (dn_live s) @ [subId]" "dn_aborts ?s' = dn_aborts s @ [subId]"
    "dn_budgetTotal ?s' = dn_budgetTotal s"
    by (simp_all add: admitted_state_def Let_def)
  have liveset: "fst ` set (dn_live ?s') = insert subId (fst ` set (dn_live s))"
    using arg_cong [OF live(1), of set] by simp
  have ids: "map task_id (dn_tasks ?s') = map task_id (dn_tasks s) @ [subId]" "task_id ` set (dn_tasks ?s') = insert subId (task_id ` set (dn_tasks s))"
    unfolding tasks by simp_all
  have keys: "task_keys (dn_tasks ?s') = insert (subId, ?rn, Some (sd_childDepth d)) (task_keys (dn_tasks s))"
  proof -
    have app: "task_keys (xs @ ys) = task_keys xs \<union> task_keys ys" for xs ys by (auto simp: task_keys_def)
    show ?thesis unfolding tasks app reserve_keys by (simp add: task_keys_def split del: nullish_split)
  qed
  have nb: "nested_ok slots"
    using nested_ok_step [of "dn_slots s" "NbAcquire subId"] ok assms(2) by (simp add: admits_def)
  have edges: "\<forall>e\<in>set (dn_events ?s'). edge_ok opts (task_keys (dn_tasks ?s')) e"
    unfolding events keys using k(5) admitted_edge [OF assms(2)] edge_mono [OF _ subset_insertI] by auto
  have parent: "parent \<noteq> subId" using t assms(3) by blast
  have acc: "\<forall>x\<in>set (dn_tasks ?s'). accounted base (dn_events ?s') x"
  proof -
    have zero: "base subId = 0" "charged subId (dn_events s) = 0"
      using assms(3) k(6) charged_unknown [OF k(5)] by blast+
    have shadow: "accounted base (dn_events ?s') (shadow_task subId ?rn (cwd t) (sd_childDepth d) now)"
      using zero parent by (simp add: accounted_def spent_of_def events split del: nullish_split)
    have old: "accounted base (dn_events ?s') x" if x: "x \<in> set (dn_tasks s)" "task_id x \<noteq> parent" for x
      using x bspec [OF k(7) x(1)] unfolding events accounted_def by (simp split del: nullish_split cong: option.case_cong)
    have same: "x = t" if "x \<in> set (dn_tasks s)" "task_id x = parent" for x
    proof (rule inj_onD [of task_id "set (dn_tasks s)"])
      show "inj_on task_id (set (dn_tasks s))" using k(4) unfolding distinct_map by blast
    qed (use that t in simp_all)
    show ?thesis
    proof (cases "bd_metered (sd_budget d)")
      case False
      then have "accounted base (dn_events ?s') t"
        using acc_t bud(2) t(2) unfolding events accounted_def by (simp split del: nullish_split cong: option.case_cong)
      then show ?thesis using old same shadow False unfolding tasks by (auto simp: reserve_tokens_def)
    next
      case True
      obtain g where g: "bd_grantedTokens (sd_budget d) = Fin g"
        "js_add (bd_spentTokens (sd_budget d)) (nullish (bd_requestedTokens (sd_budget d)) (Fin 0)) =
           Fin (base parent + charged parent (dn_events s) + reserved_of p)"
        "base parent + charged parent (dn_events s) + reserved_of p \<le> g"
        using bud(3) [OF True] t(2) by blast
      have "accounted base (dn_events ?s') (t\<lparr>allocation := Some \<lparr> tokensGranted = bd_grantedTokens (sd_budget d),
          tokensSpent = Some (js_add (bd_spentTokens (sd_budget d)) (nullish (bd_requestedTokens (sd_budget d)) (Fin 0))) \<rparr>\<rparr>)"
        using g t(2) by (simp add: accounted_def spent_of_def events add.assoc split del: nullish_split)
      then show ?thesis using old same shadow True unfolding tasks by (auto simp: reserve_tokens_def)
    qed
  qed
  have "distinct (map fst (dn_live ?s'))" unfolding live(1) using k(2,3) assms(4) by simp
  moreover have "set (nb_held (dn_slots ?s')) = insert subId (set (nb_held (dn_slots s)))" using slots by simp
  moreover have "distinct (map task_id (dn_tasks ?s'))" unfolding ids(1) using k(4) assms(3) by simp
  ultimately show ?thesis
    unfolding delegation_ok_def liveset ids(2) live(2,3) using ok edges acc nb slots(1) by auto
qed

lemma delegation_step_ok:
  assumes "delegation_ok opts base s" and "delegation_step opts e s = Some s'"
  shows "delegation_ok opts base s'"
proof (cases e)
  case (DRequest conn params subId lockFree now)
  obtain ans s1 where h: "handleDelegateRequest opts conn params subId lockFree now s = (ans, s1)" by fastforce
  have s': "s' = s1" and fresh: "subId \<notin> task_id ` set (dn_tasks s)" "subId \<notin> set (nb_held (dn_slots s))"
    using assms(2) h by (auto simp: DRequest split: if_splits)
  from request_cases [OF h] show ?thesis
  proof (elim disjE exE conjE)
    fix code es assume "list_all not_admitted es" "s1 = s\<lparr>dn_events := dn_events s @ es\<rparr>"
    then show ?thesis unfolding s' by (intro quiet_step [OF assms(1), of es]) simp_all
  next
    fix parent p t d slots
    assume "admits opts conn params subId now s parent p t d slots" "s1 = admitted_state opts parent subId p now t d slots s"
    then show ?thesis unfolding s' using admitted_step [OF assms(1) _ fresh] by simp
  qed
next
  case (DPromote subId lockFree)
  show ?thesis
    by (rule quiet_step [OF assms(1), of "[]" _ subId Running])
      (use assms(2) in \<open>auto simp: DPromote promoteShadowToRunning_def split: option.splits if_splits\<close>)
next
  case DAbort
  have "map fst (map (\<lambda>(i, c). (i, if i \<in> A then c\<lparr>lc_aborted := True\<rparr> else c)) ls) = map fst ls" for A ls
    by (induction ls) auto
  then show ?thesis
    by (intro quiet_step [OF assms(1), of "[]"]) (use assms(2) in \<open>auto simp: DAbort abortRun_def\<close>)
next
  case (DSettle subId out lockFree)
  then show ?thesis using assms settle_step by simp
next
  case (DWrite i st)
  show ?thesis by (rule quiet_step [OF assms(1), of "[]" _ i st]) (use assms(2) in \<open>auto simp: DWrite\<close>)
qed

text \<open>What holds whatever is saved: the slots and the workers in flight.\<close>

definition slots_ok :: "delegation \<Rightarrow> bool" where
  "slots_ok s \<longleftrightarrow> nested_ok (dn_slots s) \<and> distinct (map fst (dn_live s)) \<and> fst ` set (dn_live s) = set (nb_held (dn_slots s))"

lemma slots_quiet:
  assumes "slots_ok s" and "dn_slots s' = dn_slots s" and "map fst (dn_live s') = map fst (dn_live s)"
  shows "slots_ok s'"
  using assms unfolding slots_ok_def by (metis image_set)

lemma slots_settle:
  assumes "slots_ok s" and "settle_child subId out lockFree s = Some s'"
  shows "slots_ok s'"
proof -
  obtain c where "map_of (dn_live s) subId = Some c" using assms(2) by (auto simp: settle_child_def split: option.splits)
  then have s': "dn_slots s' = nested_release subId (dn_slots s)" "dn_live s' = filter (\<lambda>(i, c). i \<noteq> subId) (dn_live s)"
    using assms(2) by (auto simp: settle_child_def finalize_facts Let_def split: if_splits)
  have "nested_ok (nested_release subId (dn_slots s))"
    using assms(1) nested_ok_step [of "dn_slots s" "NbRelease subId"] by (simp add: slots_ok_def)
  moreover have "fst ` set (dn_live s') = fst ` set (dn_live s) - {subId}" by (force simp: s'(2))
  moreover have "set (nb_held (dn_slots s')) = set (nb_held (dn_slots s)) - {subId}" by (auto simp: s'(1) nested_release_def)
  moreover have "distinct (map fst (dn_live s'))" using assms(1) by (simp add: slots_ok_def s'(2) distinct_map_filter)
  ultimately show ?thesis using assms(1) by (simp add: slots_ok_def s'(1))
qed

lemma slots_admitted:
  assumes "slots_ok s" and "admits opts conn params subId now s parent p t d slots" and "subId \<notin> set (nb_held (dn_slots s))"
  shows "slots_ok (admitted_state opts parent subId p now t d slots s)"
proof -
  have slots: "slots = (dn_slots s)\<lparr>nb_held := nb_held (dn_slots s) @ [subId]\<rparr>"
    using assms(2,3) by (auto simp: admits_def tryAcquire_def js_set_add_def split: if_splits)
  have "nested_ok slots"
    using nested_ok_step [of "dn_slots s" "NbAcquire subId"] assms(1,2) by (simp add: admits_def slots_ok_def)
  then show ?thesis using assms(1,3) by (simp add: slots_ok_def admitted_state_def slots Let_def)
qed

lemma slots_step:
  assumes "slots_ok s" and "shared_step opts ev s = Some s'"
  shows "slots_ok s'"
proof (cases ev)
  case (SaveTasks ts)
  then show ?thesis using assms by (intro slots_quiet [OF assms(1)]) auto
next
  case (Own e)
  note step = assms(2) [unfolded Own shared_step.simps]
  show ?thesis
  proof (cases e)
    case (DRequest conn params subId lockFree now)
    obtain ans s1 where h: "handleDelegateRequest opts conn params subId lockFree now s = (ans, s1)" by fastforce
    have s': "s' = s1" and fresh: "subId \<notin> set (nb_held (dn_slots s))"
      using step h by (auto simp: DRequest split: if_splits)
    from request_cases [OF h] show ?thesis
    proof (elim disjE exE conjE)
      fix code es assume "s1 = s\<lparr>dn_events := dn_events s @ es\<rparr>"
      then show ?thesis unfolding s' by (intro slots_quiet [OF assms(1)]) simp_all
    next
      fix parent p t d slots
      assume "admits opts conn params subId now s parent p t d slots" "s1 = admitted_state opts parent subId p now t d slots s"
      then show ?thesis unfolding s' using slots_admitted [OF assms(1) _ fresh] by simp
    qed
  next
    case (DPromote subId lockFree)
    then show ?thesis using step
      by (intro slots_quiet [OF assms(1)]) (auto simp: promoteShadowToRunning_def split: option.splits if_splits)
  next
    case DAbort
    have "map fst (map (\<lambda>(i, c). (i, if i \<in> A then c\<lparr>lc_aborted := True\<rparr> else c)) ls) = map fst ls" for A ls
      by (induction ls) auto
    then show ?thesis using step by (intro slots_quiet [OF assms(1)]) (auto simp: DAbort abortRun_def)
  next
    case (DSettle subId out lockFree)
    then show ?thesis using step slots_settle [OF assms(1)] by simp
  next
    case (DWrite i st)
    then show ?thesis using step by (intro slots_quiet [OF assms(1)]) auto
  qed
qed

interpretation held_slots: machine_invariant "shared_step opts" "\<lambda>_ _. True" slots_ok for opts
  by unfold_locales (rule slots_step)

lemma saved_keys:
  assumes "map delegation_fields ts = map delegation_fields us"
  shows "map task_id ts = map task_id us" "task_id ` set ts = task_id ` set us" "task_keys ts = task_keys us"
    "(\<forall>t\<in>set ts. accounted base es t) \<longleftrightarrow> (\<forall>t\<in>set us. accounted base es t)"
proof -
  have via: "map (\<lambda>t. f (delegation_fields t)) ts = map (\<lambda>t. f (delegation_fields t)) us" for f :: "_ \<Rightarrow> 'x"
    using arg_cong [OF assms, of "map f"] by (simp add: o_def)
  show ids: "map task_id ts = map task_id us" using via [of fst] by (simp add: delegation_fields_def)
  show "task_id ` set ts = task_id ` set us" using arg_cong [OF ids, of set] by simp
  have "set (map (\<lambda>t. (task_id t, role t, nt_depth t)) ts) = set (map (\<lambda>t. (task_id t, role t, nt_depth t)) us)"
    using via [of "\<lambda>(i, r, d, a). (i, r, d)"] by (simp add: delegation_fields_def)
  then show "task_keys ts = task_keys us" by (simp add: task_keys_def)
  define g where "g = (\<lambda>(i, r :: string, d :: int option, al :: task_allocation option). nullish (Option.bind al tokensSpent) (Fin 0) = Fin (base i + charged i es) \<and>
     (case al of None \<Rightarrow> True | Some a \<Rightarrow> \<exists>g. tokensGranted a = Fin g \<and> base i + charged i es \<le> g))"
  have g: "accounted base es = (\<lambda>t. g (delegation_fields t))"
    by (simp add: fun_eq_iff accounted_def spent_of_def delegation_fields_def g_def)
  have "list_all id (map (\<lambda>t. g (delegation_fields t)) ts) = list_all id (map (\<lambda>t. g (delegation_fields t)) us)"
    by (simp only: via [of g])
  then show "(\<forall>t\<in>set ts. accounted base es t) \<longleftrightarrow> (\<forall>t\<in>set us. accounted base es t)"
    unfolding g by (simp add: list_all_iff)
qed

lemma shared_step_ok:
  assumes "delegation_ok opts base s" and "keeps_reservations ev s" and "shared_step opts ev s = Some s'"
  shows "delegation_ok opts base s'"
proof (cases ev)
  case (Own e)
  then show ?thesis using delegation_step_ok [OF assms(1)] assms(3) by simp
next
  case (SaveTasks ts)
  then have k: "map delegation_fields ts = map delegation_fields (dn_tasks s)" and s': "s' = s\<lparr>dn_tasks := ts\<rparr>"
    using assms(2,3) by auto
  have same: "dn_tasks s' = ts" "dn_slots s' = dn_slots s" "dn_live s' = dn_live s" "dn_aborts s' = dn_aborts s" "dn_events s' = dn_events s"
    "dn_budgetTotal s' = dn_budgetTotal s"
    by (simp_all add: s')
  show ?thesis using assms(1) unfolding delegation_ok_def same saved_keys [OF k] .
qed

interpretation shared_tasks: machine_invariant "shared_step opts" keeps_reservations "delegation_ok opts base" for opts base
  by unfold_locales (rule shared_step_ok)

interpretation delegations: machine_invariant "delegation_step opts" "\<lambda>_ _. True" "delegation_ok opts base" for opts base
  by unfold_locales (rule delegation_step_ok)

definition fresh_delegation :: "jsnum option \<Rightarrow> bool \<Rightarrow> nested_task list \<Rightarrow> nested_budget \<Rightarrow> delegation" where
  "fresh_delegation budget unlimited tasks slots =
     \<lparr> dn_budgetTotal = budget, dn_budgetUnlimited = unlimited, dn_tasks = tasks, dn_slots = slots, dn_live = [], dn_aborts = [],
       dn_tokens = {}, dn_mail = [], dn_events = [] \<rparr>"

fun fin_value :: "jsnum \<Rightarrow> rat" where
  "fin_value (Fin r) = r"
| "fin_value _ = 0"

definition budget_sane :: "nested_task \<Rightarrow> bool" where
  "budget_sane t \<longleftrightarrow> is_finite (spent_of t) \<and>
     (case allocation t of None \<Rightarrow> True | Some al \<Rightarrow> is_finite (tokensGranted al) \<and> fin_value (spent_of t) \<le> fin_value (tokensGranted al))"

definition initial_spent :: "nested_task list \<Rightarrow> string \<Rightarrow> rat" where
  "initial_spent tasks i = (case find (\<lambda>t. task_id t = i) tasks of Some t \<Rightarrow> fin_value (spent_of t) | None \<Rightarrow> 0)"

lemma find_by_id:
  assumes "distinct (map task_id tasks)" and "t \<in> set tasks"
  shows "find (\<lambda>x. task_id x = task_id t) tasks = Some t"
  using assms by (induction tasks) (auto simp: image_iff)

lemma sane_accounted:
  "budget_sane t \<longleftrightarrow> (\<exists>x. spent_of t = Fin x \<and> (case allocation t of None \<Rightarrow> True | Some al \<Rightarrow> \<exists>g. tokensGranted al = Fin g \<and> x \<le> g))"
  by (cases "spent_of t"; cases "allocation t"; cases "tokensGranted (the (allocation t))") (simp_all add: budget_sane_def)

lemma fresh_ok:
  assumes "createNestedSlotBudget n override = Inr slots" and "distinct (map task_id tasks)" and "list_all budget_sane tasks"
    and "finite_total budget"
  shows "delegation_ok opts (initial_spent tasks) (fresh_delegation budget unlimited tasks slots)"
proof -
  have "nested_ok slots \<and> nb_held slots = []"
  proof (cases override)
    case None
    then show ?thesis using assms(1) by (auto simp: nested_ok_def defaultNestedSlotBudget_def)
  next
    case (Some x)
    then show ?thesis using assms(1) by (cases x) (auto simp: nested_ok_def split: if_splits)
  qed
  moreover have "accounted (initial_spent tasks) [] t" if t: "t \<in> set tasks" for t
  proof -
    have "budget_sane t" using assms(3) t by (simp add: list_all_iff)
    then obtain x where x: "spent_of t = Fin x" "case allocation t of None \<Rightarrow> True | Some al \<Rightarrow> \<exists>g. tokensGranted al = Fin g \<and> x \<le> g"
      unfolding sane_accounted by blast
    have "initial_spent tasks (task_id t) = x" using find_by_id [OF assms(2) t] x(1) by (simp add: initial_spent_def)
    then show ?thesis using x unfolding accounted_def charged_def by (simp cong: option.case_cong)
  qed
  moreover have "i \<in> task_id ` set tasks" if "initial_spent tasks i \<noteq> 0" for i
    using that by (auto simp: initial_spent_def find_Some_iff in_set_conv_nth split: option.splits intro!: image_eqI)
  ultimately show ?thesis using assms(2,4) by (simp add: delegation_ok_def fresh_delegation_def)
qed

inductive descends :: "delegate_event list \<Rightarrow> string \<Rightarrow> string \<Rightarrow> bool" for es where
  child: "Admitted p c d rn um r \<in> set es \<Longrightarrow> descends es p c"
| further: "descends es a p \<Longrightarrow> Admitted p c d rn um r \<in> set es \<Longrightarrow> descends es a c"

definition depth_of :: "nested_task \<Rightarrow> int" where
  "depth_of t = nullish (nt_depth t) 1"

lemma edge_tasks:
  assumes "edge_ok opts (task_keys tasks) (Admitted p c d rn um r)"
  shows "\<exists>tp\<in>set tasks. \<exists>tc\<in>set tasks. task_id tp = p \<and> task_id tc = c \<and> depth_of tc = depth_of tp + 1 \<and> depth_of tc \<le> max_depth opts \<and>
    role tc \<in> set DELEGATE_ALLOWED_ROLES \<and> (permissionForRole (role tp) = ReadOnly \<longrightarrow> permissionForRole (role tc) = ReadOnly)"
proof -
  obtain rp dp where k: "(p, rp, dp) \<in> task_keys tasks" "(c, rn, Some d) \<in> task_keys tasks" "d = nullish dp 1 + 1" "d \<le> max_depth opts"
    "rn \<in> set DELEGATE_ALLOWED_ROLES" "permissionForRole rn = WorkspaceWrite \<longrightarrow> permissionForRole rp = WorkspaceWrite"
    using assms unfolding edge_ok.simps by blast
  obtain tp tc where t: "tp \<in> set tasks" "p = task_id tp" "rp = role tp" "dp = nt_depth tp" "tc \<in> set tasks" "c = task_id tc" "rn = role tc" "nt_depth tc = Some d"
    using k(1,2) unfolding task_keys_def by auto
  have "permissionForRole rn = ReadOnly" if "permissionForRole rp = ReadOnly"
    using k(6) that by (cases "permissionForRole rn") simp_all
  then show ?thesis using k t by (intro bexI [of _ tp] bexI [of _ tc]) (simp_all add: depth_of_def)
qed

lemma descends_contained:
  assumes "\<forall>e\<in>set es. edge_ok opts (task_keys tasks) e" and "distinct (map task_id tasks)" and "descends es a c"
  shows "\<exists>ta\<in>set tasks. \<exists>tc\<in>set tasks. task_id ta = a \<and> task_id tc = c \<and> depth_of ta < depth_of tc \<and> depth_of tc \<le> max_depth opts \<and>
    role tc \<in> set DELEGATE_ALLOWED_ROLES \<and> (permissionForRole (role ta) = ReadOnly \<longrightarrow> permissionForRole (role tc) = ReadOnly)"
  using assms(3)
proof induction
  case (child p c d rn um r)
  then show ?case using edge_tasks [OF bspec [OF assms(1)]] by fastforce
next
  case (further a p c d rn um r)
  obtain ta tp where 1: "ta \<in> set tasks" "tp \<in> set tasks" "task_id ta = a" "task_id tp = p" "depth_of ta < depth_of tp"
    "permissionForRole (role ta) = ReadOnly \<longrightarrow> permissionForRole (role tp) = ReadOnly"
    using further.IH by blast
  obtain tq tc where 2: "tq \<in> set tasks" "tc \<in> set tasks" "task_id tq = p" "task_id tc = c" "depth_of tc = depth_of tq + 1" "depth_of tc \<le> max_depth opts"
    "role tc \<in> set DELEGATE_ALLOWED_ROLES" "permissionForRole (role tq) = ReadOnly \<longrightarrow> permissionForRole (role tc) = ReadOnly"
    using edge_tasks [OF bspec [OF assms(1) further.hyps(2)]] by blast
  have "tp = tq"
    using find_by_id [OF assms(2) 1(2)] find_by_id [OF assms(2) 2(1)] 1(4) 2(3) by simp
  then show ?case using 1 2 by (intro bexI [of _ ta] bexI [of _ tc]) simp_all
qed

text \<open>
  C38. Delegation is contained along the whole chain: whoever descends from a task by delegations, over any order of
  requests, ends, aborts and changes of status by others, is deeper than it and not deeper than the limit, has a role that
  may be asked for, and is of the read-only tier whenever the task is.
\<close>

theorem delegation_contained:
  assumes "run_events (delegation_step opts) evs (fresh_delegation budget unlimited tasks slots) = Some s"
    and "createNestedSlotBudget n override = Inr slots" and "distinct (map task_id tasks)" and "list_all budget_sane tasks" and "finite_total budget"
    and "descends (dn_events s) a c"
  shows "\<exists>ta\<in>set (dn_tasks s). \<exists>tc\<in>set (dn_tasks s). task_id ta = a \<and> task_id tc = c \<and> depth_of ta < depth_of tc \<and>
    depth_of tc \<le> max_depth opts \<and> role tc \<in> set DELEGATE_ALLOWED_ROLES \<and>
    (permissionForRole (role ta) = ReadOnly \<longrightarrow> permissionForRole (role tc) = ReadOnly)"
proof -
  have ok: "delegation_ok opts (initial_spent tasks) s"
    by (rule delegations.ok_run [OF fresh_ok [OF assms(2-5)] _ assms(1)]) simp
  show ?thesis by (rule descends_contained [OF delegation_okD(5,4) [OF ok] assms(6)])
qed

text \<open>
  C39. The accounts of delegation, over any order of its events and of saves of the tasks by others. Whatever is saved,
  the slots that are held are exactly those of the workers in flight, at most the maximum. And as long as every
  save of a whole array had the records of the file at that moment with their ids, roles, depths and allocations, a task has
  spent what it had spent at the start and what it reserved since, no reservation being given back, and
  never more than it was granted. A save of an array read before a reservation breaks that
  (\<open>stale_save_spends_twice\<close>). The tasks of the start have distinct ids and no more spent than granted, and the budget
  of the run is a finite number if there is one.
\<close>

theorem delegation_accounts:
  assumes "run_events (shared_step opts) evs (fresh_delegation budget unlimited tasks slots) = Some s"
    and "createNestedSlotBudget n override = Inr slots" and "distinct (map task_id tasks)" and "list_all budget_sane tasks" and "finite_total budget"
  shows "set (nb_held (dn_slots s)) = fst ` set (dn_live s) \<and> int (length (dn_live s)) \<le> \<lceil>nb_max (dn_slots s)\<rceil> \<and>
    (events_within (shared_step opts) keeps_reservations evs (fresh_delegation budget unlimited tasks slots) \<longrightarrow>
       list_all budget_sane (dn_tasks s) \<and>
       list_all (\<lambda>t. spent_of t = Fin (initial_spent tasks (task_id t) + charged (task_id t) (dn_events s))) (dn_tasks s))"
proof -
  note fresh = fresh_ok [OF assms(2-5), of opts unlimited]
  have "slots_ok (fresh_delegation budget unlimited tasks slots)" using delegation_okD(1-3) [OF fresh] by (simp add: slots_ok_def)
  then have k: "nested_ok (dn_slots s)" "distinct (map fst (dn_live s))" "fst ` set (dn_live s) = set (nb_held (dn_slots s))"
    using held_slots.ok_run [OF _ _ assms(1)] by (simp_all add: slots_ok_def)
  have "length (dn_live s) = card (fst ` set (dn_live s))" using distinct_card [OF k(2)] by simp
  also have "\<dots> = length (nb_held (dn_slots s))" using k(1,3) by (simp add: nested_ok_def distinct_card)
  finally have "int (length (dn_live s)) \<le> \<lceil>nb_max (dn_slots s)\<rceil>" using k(1) by (simp add: nested_ok_def)
  moreover have "budget_sane t \<and> spent_of t = Fin (initial_spent tasks (task_id t) + charged (task_id t) (dn_events s))"
    if "t \<in> set (dn_tasks s)" and w: "events_within (shared_step opts) keeps_reservations evs (fresh_delegation budget unlimited tasks slots)" for t
    using bspec [OF delegation_okD(7) [OF shared_tasks.ok_run [OF fresh w assms(1)]] that(1)] unfolding accounted_def sane_accounted by blast
  ultimately show ?thesis using k(3) by (simp add: list_all_iff)
qed

subsection \<open>A run with two delegations\<close>

definition leader_task :: nested_task where
  "leader_task = team_task.extend ((blank_task ''p'')\<lparr>status := Running\<rparr>) (nested_task.fields ''executor'' None None)"

definition open_options :: delegate_options where
  "open_options = \<lparr> do_nestingEnabled = True, do_nestingMaxDepth = None, do_envDepth = NaN, do_trustedEscalation = True,
     do_serializeOnPathOverlap = True, do_modelCatalog = None \<rparr>"

definition worker_conn :: "string \<Rightarrow> identity option" where
  "worker_conn i = Some \<lparr> cn_runId = ''r'', cn_taskId = i, cn_role = RoleWorker, cn_authMatchKind = Compound, cn_authedSecretHash = ''h'' \<rparr>"

definition delegate_json :: "string \<Rightarrow> json" where
  "delegate_json r = JObj [(''prompt'', JStr ''go''), (''role'', JStr r), (''budgetTokens'', JNum (Fin 5))]"

definition two_hops :: "delegation_event list" where
  "two_hops = [DRequest (worker_conn ''p'') (delegate_json ''executor'') ''a'' True (Stamp ''t'' None), DPromote ''a'' True,
     DRequest (worker_conn ''a'') (delegate_json ''explorer'') ''b'' True (Stamp ''t'' None)]"

definition four_slots :: nested_budget where
  "four_slots = \<lparr> nb_held = [], nb_max = 4 \<rparr>"

lemma two_hops_run:
  "map_option dn_events (run_events (delegation_step open_options) two_hops (fresh_delegation (Some (Fin 20)) False [leader_task] four_slots)) =
     Some [Requested ''p'' ''a'' ''executor'', Admitted ''p'' ''a'' 2 ''executor'' False (Fin 5),
       Requested ''a'' ''b'' ''explorer'', Admitted ''a'' ''b'' 3 ''explorer'' False (Fin 5)]"
  by code_simp

lemma leader_facts:
  "createNestedSlotBudget 8 None = Inr four_slots" "distinct (map task_id [leader_task])" "list_all budget_sane [leader_task]"
  "finite_total (Some (Fin 20))"
  by (simp_all add: four_slots_def defaultNestedSlotBudget_def finite_total_def) code_simp

lemma delegation_contained_witness:
  "\<exists>s ta tc. run_events (delegation_step open_options) two_hops (fresh_delegation (Some (Fin 20)) False [leader_task] four_slots) = Some s \<and>
     task_id ta = ''p'' \<and> task_id tc = ''b'' \<and> depth_of ta < depth_of tc \<and> depth_of tc \<le> 4 \<and> tc \<in> set (dn_tasks s)"
proof -
  obtain s where s: "run_events (delegation_step open_options) two_hops (fresh_delegation (Some (Fin 20)) False [leader_task] four_slots) = Some s"
    "dn_events s = [Requested ''p'' ''a'' ''executor'', Admitted ''p'' ''a'' 2 ''executor'' False (Fin 5),
       Requested ''a'' ''b'' ''explorer'', Admitted ''a'' ''b'' 3 ''explorer'' False (Fin 5)]"
    using two_hops_run by auto
  have D: "descends (dn_events s) ''p'' ''b''"
  proof (rule further [where d = 3 and rn = "''explorer''" and um = False and r = "Fin 5"])
    show "descends (dn_events s) ''p'' ''a''"
      by (rule child [where d = 2 and rn = "''executor''" and um = False and r = "Fin 5"]) (simp add: s(2))
  qed (simp add: s(2))
  have m: "max_depth open_options = 4" by code_simp
  obtain ta tc where "task_id ta = ''p''" "task_id tc = ''b''" "depth_of ta < depth_of tc" "depth_of tc \<le> 4" "tc \<in> set (dn_tasks s)"
    using delegation_contained [OF s(1) leader_facts D] unfolding m by blast
  then show ?thesis using s(1) by blast
qed

text \<open>The runner saves its tasks between the two delegations, once with what was reserved and once without.\<close>

definition saved_between :: "nested_task list \<Rightarrow> shared_event list" where
  "saved_between ts = [Own (hd two_hops), SaveTasks ts,
     Own (DRequest (worker_conn ''p'') (delegate_json ''explorer'') ''b'' True (Stamp ''t'' None))]"

definition after_reservation :: "nested_task list" where
  "after_reservation = reserve_tokens ''p'' \<lparr> bd_metered = True, bd_grantedTokens = Fin 20, bd_spentTokens = Fin 0, bd_requestedTokens = Some (Fin 5) \<rparr>
     [leader_task] @ [shadow_task ''a'' ''executor'' [] 2 (Stamp ''t'' None)]"

lemma delegation_accounts_witness:
  "\<exists>s. run_events (shared_step open_options) (saved_between after_reservation) (fresh_delegation (Some (Fin 20)) False [leader_task] four_slots) = Some s \<and>
     list_all budget_sane (dn_tasks s) \<and> set (nb_held (dn_slots s)) = fst ` set (dn_live s) \<and> charged ''p'' (dn_events s) = 10"
proof -
  let ?run = "run_events (shared_step open_options) (saved_between after_reservation) (fresh_delegation (Some (Fin 20)) False [leader_task] four_slots)"
  have "map_option (\<lambda>s. charged ''p'' (dn_events s)) ?run = Some 10" by code_simp
  then obtain s where s: "?run = Some s" "charged ''p'' (dn_events s) = 10" by auto
  have "events_within (shared_step open_options) keeps_reservations (saved_between after_reservation)
      (fresh_delegation (Some (Fin 20)) False [leader_task] four_slots)"
    by code_simp
  with delegation_accounts [OF s(1) leader_facts] s show ?thesis by auto
qed

text \<open>
  A save of the tasks as they were before a reservation takes it back: of a grant of 8 a task reserves 5 twice, and
  the record of the first worker is gone from the file while its process runs.
\<close>

theorem stale_save_spends_twice:
  "map_option (\<lambda>s. (charged ''p'' (dn_events s), map (map_option tokensGranted \<circ> allocation) (dn_tasks s), map task_id (dn_tasks s), map fst (dn_live s)))
     (run_events (shared_step open_options) (saved_between [leader_task]) (fresh_delegation (Some (Fin 8)) False [leader_task] four_slots)) =
   Some (10, [Some (Fin 8), None], [''p'', ''b''], [''a'', ''b''])"
  by code_simp

subsection \<open>The end of a delegated worker\<close>

lemma status_set:
  fixes t :: nested_task
  assumes "t \<in> set (set_status i st tasks)" and "task_id t = i"
  shows "status t = st"
proof -
  obtain x where x: "t = (if task_id x = i then x\<lparr>status := st\<rparr> else x)"
    using assms(1) unfolding set_status_def set_map by blast
  show ?thesis using assms(2) unfolding x by (cases "task_id x = i") simp_all
qed

text \<open>
  When a delegated worker ends and the run lock can be had, its slot is free, its record is ended, and its result is
  one new mail: to the parent exactly when the parent still lives, else to the leader with the name of the parent.
  What was reserved for it stays spent.
\<close>

theorem settled_child_delivered:
  assumes "settle_child subId out True s = Some s'" and "map_of (dn_live s) subId = Some c" and "distinct (map task_id (dn_tasks s))"
  shows "subId \<notin> set (nb_held (dn_slots s')) \<and> map_of (dn_live s') subId = None \<and>
    list_all (\<lambda>t. task_id t \<noteq> subId \<or> status t = (if oc_ok out then Completed else Failed)) (dn_tasks s') \<and>
    map allocation (dn_tasks s') = map allocation (dn_tasks s) \<and>
    (\<exists>m. dn_mail s' = dn_mail s @ [m] \<and> dm_from m = ''delegate:'' @ subId \<and> dm_ok m = oc_ok out \<and>
       (if list_ex (\<lambda>t. task_id t = lc_parent c \<and> \<not> isTerminalTaskStatus (status t)) (dn_tasks s)
        then dm_to m = lc_parent c \<and> dm_taskId m = Some (lc_parent c)
        else dm_to m = ''leader'' \<and> dm_reroutedFrom m = Some (lc_parent c)))"
proof -
  let ?f = "finalizeDelegateResult (lc_parent c) subId (lc_reserved c) out True s"
  have s': "s' = record_event (Ended (delegateTerminalEvent out) subId (oc_ok out)) (?f\<lparr>dn_aborts := filter (\<lambda>i. i \<noteq> subId) (dn_aborts ?f),
      dn_slots := nested_release subId (dn_slots ?f), dn_live := filter (\<lambda>(i, c). i \<noteq> subId) (dn_live ?f)\<rparr>)"
    using assms(1,2) by (simp add: settle_child_def Let_def split: if_splits)
  have tasks: "dn_tasks s' = set_status subId (if oc_ok out then Completed else Failed) (dn_tasks s)"
    by (simp add: s' finalizeDelegateResult_def Let_def)
  have live: "(delegateResultTarget (map_option status (find (\<lambda>t. task_id t = lc_parent c) (dn_tasks s))) = ToParent) =
    list_ex (\<lambda>t. task_id t = lc_parent c \<and> \<not> isTerminalTaskStatus (status t)) (dn_tasks s)"
  proof (cases "find (\<lambda>t. task_id t = lc_parent c) (dn_tasks s)")
    case None
    then have "\<not> list_ex (\<lambda>t. task_id t = lc_parent c \<and> \<not> isTerminalTaskStatus (status t)) (dn_tasks s)"
      by (auto simp: find_None_iff list_ex_iff)
    then show ?thesis using None by (simp add: delegateResultTarget_def)
  next
    case (Some t)
    then have t: "t \<in> set (dn_tasks s)" "task_id t = lc_parent c" by (auto simp: find_Some_iff in_set_conv_nth)
    have uniq: "x = t" if "x \<in> set (dn_tasks s)" "task_id x = lc_parent c" for x
      using find_by_id [OF assms(3) that(1)] that(2) Some by simp
    have "list_ex (\<lambda>t. task_id t = lc_parent c \<and> \<not> isTerminalTaskStatus (status t)) (dn_tasks s) \<longleftrightarrow> \<not> isTerminalTaskStatus (status t)"
      unfolding list_ex_iff using t uniq by blast
    then show ?thesis using Some by (simp add: delegateResultTarget_def)
  qed
  have mail: "\<exists>m. dn_mail s' = dn_mail s @ [m] \<and> dm_from m = ''delegate:'' @ subId \<and> dm_ok m = oc_ok out \<and>
       (if list_ex (\<lambda>t. task_id t = lc_parent c \<and> \<not> isTerminalTaskStatus (status t)) (dn_tasks s)
        then dm_to m = lc_parent c \<and> dm_taskId m = Some (lc_parent c)
        else dm_to m = ''leader'' \<and> dm_reroutedFrom m = Some (lc_parent c))"
  proof -
    let ?D = "delegateResultTarget (map_option status (find (\<lambda>t. task_id t = lc_parent c) (dn_tasks s)))"
    define m where "m = \<lparr> dm_from = ''delegate:'' @ subId, dm_to = (if ?D = ToParent then lc_parent c else ''leader''),
      dm_taskId = (if ?D = ToParent then Some (lc_parent c) else None), dm_ok = oc_ok out, dm_timedOut = oc_timedOut out,
      dm_reroutedFrom = (if ?D = ToParent then None else Some (lc_parent c)) \<rparr>"
    have m: "dn_mail s' = dn_mail s @ [m]" "dm_from m = ''delegate:'' @ subId" "dm_ok m = oc_ok out"
      by (simp_all add: s' finalizeDelegateResult_def m_def Let_def)
    have "if ?D = ToParent then dm_to m = lc_parent c \<and> dm_taskId m = Some (lc_parent c)
        else dm_to m = ''leader'' \<and> dm_reroutedFrom m = Some (lc_parent c)"
      by (simp add: m_def)
    then show ?thesis unfolding live [symmetric] using m by blast
  qed
  have "list_all (\<lambda>t. task_id t \<noteq> subId \<or> status t = (if oc_ok out then Completed else Failed)) (dn_tasks s')"
    unfolding tasks list_all_iff using status_set by blast
  moreover have "map allocation (dn_tasks s') = map allocation (dn_tasks s)" unfolding tasks by (simp add: set_status_def)
  moreover have "subId \<notin> set (nb_held (dn_slots s'))" by (simp add: s' nested_release_def)
  moreover have "map_of (dn_live s') subId = None" by (auto simp: s' map_of_eq_None_iff)
  ultimately show ?thesis using mail by blast
qed

definition in_flight :: delegation where
  "in_flight = the (run_events (delegation_step open_options) (take 2 two_hops)
     (fresh_delegation (Some (Fin 20)) False [leader_task] four_slots))"

definition outcome :: "bool \<Rightarrow> bool \<Rightarrow> child_outcome" where
  "outcome ok cancelled = \<lparr> oc_ok = ok, oc_timedOut = False, oc_cancelled = cancelled \<rparr>"

lemma in_flight_facts:
  "map fst (dn_live in_flight) = [''a'']" "map_option lc_parent (map_of (dn_live in_flight) ''a'') = Some ''p''"
  "map task_id (dn_tasks in_flight) = [''p'', ''a'']" "map status (dn_tasks in_flight) = [Running, Running]"
  "dn_mail in_flight = []"
  by code_simp+

lemma settled_child_delivered_witness:
  "\<exists>s' m. settle_child ''a'' (outcome True False) True in_flight = Some s' \<and> dn_mail s' = [m] \<and> dm_to m = ''p'' \<and>
     ''a'' \<notin> set (nb_held (dn_slots s'))"
proof -
  obtain c where c: "map_of (dn_live in_flight) ''a'' = Some c" "lc_parent c = ''p''" using in_flight_facts(2) by auto
  have "settle_child ''a'' (outcome True False) True in_flight \<noteq> None" by code_simp
  then obtain s' where s': "settle_child ''a'' (outcome True False) True in_flight = Some s'" by blast
  have "list_ex (\<lambda>t. task_id t = ''p'' \<and> \<not> isTerminalTaskStatus (status t)) (dn_tasks in_flight)" by code_simp
  then show ?thesis
    using settled_child_delivered [OF s' c(1)] in_flight_facts(3,5) s' c(2) by auto
qed

text \<open>
  When the run lock is held by another process at that moment, the end is not tried again: the slot is free and the
  end is in the event log, but no mail is sent and the record of the worker stays as it was, so the result is lost
  and the broker does not end the record later.
\<close>

theorem busy_settle_loses_result:
  assumes "settle_child subId out False s = Some s'"
  shows "dn_mail s' = dn_mail s \<and> dn_tasks s' = dn_tasks s \<and> subId \<notin> set (nb_held (dn_slots s')) \<and> map_of (dn_live s') subId = None \<and>
    Ended (delegateTerminalEvent out) subId (oc_ok out) \<in> set (dn_events s') \<and> settle_child subId out2 lockFree s' = None"
proof -
  obtain c where c: "map_of (dn_live s) subId = Some c" using assms by (auto simp: settle_child_def split: option.splits)
  have s': "s' = record_event (Ended (delegateTerminalEvent out) subId (oc_ok out)) (s\<lparr>dn_aborts := filter (\<lambda>i. i \<noteq> subId) (dn_aborts s),
      dn_slots := nested_release subId (dn_slots s), dn_live := filter (\<lambda>(i, c). i \<noteq> subId) (dn_live s)\<rparr>)"
    using assms c by (simp add: settle_child_def finalizeDelegateResult_def split: if_splits)
  have live: "map_of (dn_live s') subId = None" by (auto simp: s' map_of_eq_None_iff)
  then have "settle_child subId out2 lockFree s' = None" by (simp add: settle_child_def)
  with live show ?thesis by (simp add: s' nested_release_def)
qed

lemma busy_settle_loses_result_witness:
  "\<exists>s'. settle_child ''a'' (outcome True False) False in_flight = Some s' \<and> dn_mail s' = [] \<and> map status (dn_tasks s') = [Running, Running]"
proof -
  have "settle_child ''a'' (outcome True False) False in_flight \<noteq> None" by code_simp
  then obtain s' where s': "settle_child ''a'' (outcome True False) False in_flight = Some s'" by blast
  with busy_settle_loses_result [OF s'] in_flight_facts(4,5) show ?thesis by auto
qed

text \<open>
  A run that is cancelled with delegated workers in flight does not keep their records cancelled: the record of a
  worker that is cancelled and aborted becomes failed when its process ends, a transition that the status contract
  does not have, and has no end time.
\<close>

theorem cancelled_shadow_becomes_failed:
  assumes "run_events (delegation_step opts) [DWrite subId Cancelled, DAbort, DSettle subId (outcome False True) True] s = Some s'"
    and "t \<in> set (dn_tasks s')" and "task_id t = subId"
  shows "status t = Failed \<and> \<not> canTransitionTaskStatus Cancelled Failed \<and> finishedAt t \<in> finishedAt ` set (dn_tasks s)"
proof -
  let ?s1 = "abortRun (s\<lparr>dn_tasks := set_status subId Cancelled (dn_tasks s)\<rparr>)"
  have settle: "settle_child subId (outcome False True) True ?s1 = Some s'"
    using assms(1) by (simp add: bind_eq_Some_conv)
  then obtain c where c: "map_of (dn_live ?s1) subId = Some c" by (auto simp: settle_child_def split: option.splits)
  have tasks: "dn_tasks s' = set_status subId Failed (set_status subId Cancelled (dn_tasks s))"
    using settle c by (auto simp: settle_child_def finalizeDelegateResult_def abortRun_def outcome_def Let_def split: if_splits)
  have ends: "map finishedAt (set_status i st ts) = map finishedAt ts" for i st and ts :: "nested_task list"
    by (simp add: set_status_def)
  have "finishedAt t \<in> set (map finishedAt (dn_tasks s'))" using assms(2) by simp
  then have "finishedAt t \<in> finishedAt ` set (dn_tasks s)" unfolding tasks ends by simp
  moreover have "status t = Failed" using assms(2,3) unfolding tasks by (rule status_set)
  ultimately show ?thesis by (simp add: canTransitionTaskStatus_def)
qed

lemma cancelled_shadow_becomes_failed_witness:
  "\<exists>s' t. run_events (delegation_step open_options) [DWrite ''a'' Cancelled, DAbort, DSettle ''a'' (outcome False True) True] in_flight = Some s' \<and>
     t \<in> set (dn_tasks s') \<and> status t = Failed"
proof -
  have "map_option (map task_id \<circ> dn_tasks) (run_events (delegation_step open_options)
      [DWrite ''a'' Cancelled, DAbort, DSettle ''a'' (outcome False True) True] in_flight) = Some [''p'', ''a'']" by code_simp
  then obtain s' where s': "run_events (delegation_step open_options) [DWrite ''a'' Cancelled, DAbort, DSettle ''a'' (outcome False True) True] in_flight = Some s'"
    "map task_id (dn_tasks s') = [''p'', ''a'']" by auto
  have "''a'' \<in> set (map task_id (dn_tasks s'))" by (simp add: s'(2))
  then obtain t where t: "t \<in> set (dn_tasks s')" "task_id t = ''a''" unfolding set_map by (elim imageE) simp
  show ?thesis using cancelled_shadow_becomes_failed [OF s'(1) t] s'(1) t(1) by blast
qed

text \<open>
  A delegated worker may give its own children the whole budget of the run, whatever was reserved for it: with the
  run's total as the grant of every task without an allocation, its remaining budget is the total.
\<close>

theorem child_grant_is_run_total:
  assumes "t = shadow_task subId rn dir d now" and "\<not> dn_budgetUnlimited s" and "dn_budgetTotal s = Some (Fin amount)"
    and "evaluateDelegateAdmission (admission_of opts s t p) = Inr dec" and "dp_budgetTokens p = Some n"
  shows "bd_grantedTokens (sd_budget dec) = Fin amount \<and> bd_spentTokens (sd_budget dec) = Fin 0 \<and> rat_of_int n \<le> amount"
proof -
  have a: "granted_to (admission_of opts s t p) = Fin amount" "spent_by (admission_of opts s t p) = Fin 0"
    using assms(1-3) by (simp_all add: granted_to_def spent_by_def admission_of_def)
  have rq: "rq_budgetTokens (ai_requested (admission_of opts s t p)) = Some (Fin (rat_of_int n))"
    using assms(5) by (simp add: admission_of_def request_of_def)
  show ?thesis
    using admitted_facts(7) [OF assms(4)] admitted_facts(8) [OF assms(4) rq] a by (simp add: not_less)
qed

definition whole_budget :: delegate_params where
  "whole_budget = \<lparr> dp_prompt = ''go'', dp_description = None, dp_role = None, dp_model = None, dp_maxTurns = None,
     dp_budgetTokens = Some 20, dp_timeoutSec = None \<rparr>"

lemma child_grant_is_run_total_witness:
  "\<exists>dec. evaluateDelegateAdmission (admission_of open_options in_flight (shadow_task ''a'' ''executor'' ''/w'' 2 (Stamp ''t'' None)) whole_budget) = Inr dec \<and>
     bd_grantedTokens (sd_budget dec) = Fin 20 \<and> dn_events in_flight = [Requested ''p'' ''a'' ''executor'', Admitted ''p'' ''a'' 2 ''executor'' False (Fin 5)]"
proof -
  let ?e = "evaluateDelegateAdmission (admission_of open_options in_flight (shadow_task ''a'' ''executor'' ''/w'' 2 (Stamp ''t'' None)) whole_budget)"
  have "case ?e of Inl r \<Rightarrow> False | Inr d \<Rightarrow> True" by code_simp
  then obtain dec where d: "?e = Inr dec" by (cases ?e) simp_all
  have f: "\<not> dn_budgetUnlimited in_flight" "dn_budgetTotal in_flight = Some (Fin 20)" "dp_budgetTokens whole_budget = Some 20"
    "dn_events in_flight = [Requested ''p'' ''a'' ''executor'', Admitted ''p'' ''a'' 2 ''executor'' False (Fin 5)]"
    by code_simp+
  show ?thesis using child_grant_is_run_total [OF refl f(1,2) d f(3)] d f(4) by blast
qed

end
