(* ===== verification/Spec2Isabelle.thy ===== *)
theory Spec2Isabelle
  imports Contracts TaskModel TaskGraph ExecutionPlan MergeGate StateHelpers Slots ChainParser Ndjson
    RetryExecutor OverflowRecovery BatchBarrier WorkflowModel WritePlanning Concurrency Dispatch PhaseMachine
    RunModel Heartbeats WaitingPark PolicyEngine RecoveryRecipes UsageLedger RunAbort StaleReconciler
    TaskIds WorkflowChecks RunCreation Effectiveness FinalizeRun RunnerLoop Json RunLocks Mailbox MailboxDelivery
    BrokerParams BrokerAuth BrokerOutbound BrokerMessages Jsonl LineReader EventLog EventCursor TaskRecovery ToolPolicy
    Delegation
begin

text \<open>
  pi-crew is an extension of a coding agent that runs teams of worker agents. A \<^emph>\<open>run\<close> is made from a
  workflow: a graph of steps, each given to a worker that is a child process or a live session. The state of a
  run is files: a manifest, the list of its tasks, an event log and mailboxes. A scheduler loop in the leading
  process picks batches of ready tasks, workers write their own records, reconcilers repair what dead processes
  left, and a broker passes messages and questions between workers and the leader. The program is the
  TypeScript code under \<open>src/src/\<close>; this development models the part of it that decides, as functions
  that compute, and proves what those decisions guarantee.

  \<^bold>\<open>How the code is represented.\<close> A definition carries the name of the function it translates, with
  a suffix where the name is a constant of HOL, and keeps its branches and their order. An interface is a
  record with the fields that the modelled code reads or writes, a union of strings a datatype, an optional
  property an option. \<open>number\<close> is \<open>int\<close> or \<open>nat\<close> where the code guards it, \<open>rat\<close> where fractions count,
  and \<open>jsnum\<close> (\<open>Prelude\<close>) where NaN and the infinities do. A string is a list of characters of one byte.
  A map of JavaScript is a function to options, or an association list where its insertion order can be
  observed (\<open>omap_set\<close> and its laws, the locale \<open>ordered_map\<close> of \<open>Prelude\<close>). Timestamps are compared as the
  code compares them, as text or as parsed instants. A function that throws returns a sum or an option. The
  clock, random ids, the file system, process probes, signatures and hashes are arguments: what the modelled
  code gets from them is universally quantified in the theorems. An operation that holds a file lock is one
  step; where the code interleaves at an \<open>await\<close> or between processes, the operations are the steps of a
  machine, a partial function from an event and a state to the next state, and a property holds for every
  sequence of events (\<open>run_events\<close>, the locale \<open>machine_invariant\<close> of \<open>Prelude\<close>, interpreted by each machine).
\<close>

text \<open>
  \<^bold>\<open>Data.\<close> \<open>Contracts\<close>: statuses and their transition tables, event types (\<open>state/contracts.ts\<close>).
  \<open>TaskModel\<close>, \<open>RunModel\<close>: task and run records and the guarded status writes (\<open>state/types.ts\<close>,
  \<open>state/stores/state-store.ts\<close>). \<open>WorkflowModel\<close>: workflows and role permissions. \<open>Json\<close>: values of
  \<open>JSON.parse\<close>. \<open>TaskIds\<close>: ids of tasks (\<open>utils/ids.ts\<close>).

  \<^bold>\<open>From a workflow to tasks.\<close> \<open>ChainParser\<close>: the chain language (\<open>runtime/chain-parser.ts\<close>);
  printing a chain and parsing it gives it back. \<open>WorkflowChecks\<close>: validation and topology
  (\<open>workflows/\<close>); the validator accepts exactly the workflows that satisfy a declarative specification.
  \<open>RunCreation\<close>: a validated workflow gives tasks whose ready set is never empty before the end.

  \<^bold>\<open>Scheduling.\<close> \<open>TaskGraph\<close>, \<open>ExecutionPlan\<close>: ready sets and waves (\<open>runtime/scheduling/\<close>), equal
  to their specification over the dependency graph. \<open>Dispatch\<close>, \<open>WritePlanning\<close>, \<open>Concurrency\<close>, \<open>Slots\<close>,
  \<open>BatchBarrier\<close>, \<open>PhaseMachine\<close>: the choice of a batch, its units, limits and semaphores, the completion
  barrier and the phases of a workflow. \<open>RunnerLoop\<close>: units in flight, the merge of a settled unit and
  decisions from outside, over any order; no task is in flight twice.

  \<^bold>\<open>Durable task state.\<close> \<open>StateHelpers\<close>: a worker's compare-and-swap writes of its own task. \<open>MergeGate\<close>:
  which updates may replace a record, the merge of artifacts and the retries of a busy run lock; a terminal record
  survives every merge. \<open>RunModel\<close> has the writes of the manifest as separate reads and writes of processes: a terminal run
  stays so exactly when nothing is written late. \<open>RunLocks\<close>: the run lock as a
  machine of file operations of processes and asynchronous contexts.

  \<^bold>\<open>Ends and repairs.\<close> \<open>FinalizeRun\<close>, \<open>RunAbort\<close>, \<open>Effectiveness\<close>, \<open>PolicyEngine\<close>, \<open>UsageLedger\<close>:
  the verdict on a run, its abort with work in flight, the effectiveness guard, policy decisions and budgets.
  \<open>StaleReconciler\<close>, \<open>Heartbeats\<close>, \<open>RecoveryRecipes\<close>, \<open>RetryExecutor\<close>, \<open>OverflowRecovery\<close>: liveness of
  workers and what is done about dead ones.

  \<^bold>\<open>Messages.\<close> \<open>Redaction\<close> (\<open>utils/redaction.ts\<close>), \<open>Mailbox\<close> (rows, state and operations), \<open>MailboxDelivery\<close> (its guarantees over any sequence of
  operations, and the pickup of \<open>prompt/inbox-poll.ts\<close>), \<open>Ndjson\<close> (frames), \<open>WaitingPark\<close> (parked questions),
  \<open>BrokerParams\<close>, \<open>BrokerAuth\<close>, \<open>BrokerOutbound\<close>, \<open>BrokerMessages\<close> (\<open>runtime/broker/\<close>: parsing, handshake and
  revocation, backpressure, the handlers over the mailbox).

  \<^bold>\<open>The event log.\<close> \<open>Jsonl\<close>: files of JSON lines read at once, from the tail and incrementally, and the markers
  of lines that do not parse (\<open>utils/incremental-reader.ts\<close>, \<open>state/event-log/poison-marker.ts\<close>); reads of a
  growing file give together what one read of it gives. \<open>LineReader\<close>: the lines of a compaction, decoded by chunks
  of 8192 bytes. \<open>EventLog\<close>: sequence numbers, appends, compaction and rotation (\<open>event-log.ts\<close>,
  \<open>event-log-rotation.ts\<close>, \<open>sequence-cache.ts\<close>); no number is given twice by any processes, and what a
  compaction keeps is stated exactly, for logs whose characters do not cross the chunks, with the races in it. \<open>EventCursor\<close>: the readers (\<open>cursor.ts\<close>,
  \<open>runtime/broker/protocol/events-replay.ts\<close>); the cached tail refines a parse of the whole file, pages by number
  are complete up to the cap of 5000 events, and a reader whose byte offset is of an earlier generation is given the
  numbers that the 4 MB tails of the archives and the live file hold. \<open>TaskRecovery\<close>: tasks from events and the loaders of damaged files.

  \<^bold>\<open>Rights of workers.\<close> \<open>ToolPolicy\<close>: the tools of roles and agents and the flags they become
  (\<open>config/role-tools.ts\<close>, \<open>agents/agent-config.ts\<close>, \<open>runtime/model/pi-args.ts\<close>), and the policy of a
  delegated worker (\<open>runtime/spawn-policy.ts\<close>), which is the minimum of two roles but reaches the worker only in
  part. \<open>Delegation\<close>: the admission of a delegation, the handler of \<open>delegate.request\<close> and the end of a delegated
  worker (\<open>runtime/broker/crew-broker-delegate-request.ts\<close>, \<open>runtime/broker/delegate/\<close>) as a machine; whoever
  descends from a task is bounded in depth and tier, slots add up whatever others save, reservations as long as no
  save of the tasks is stale, and what a settlement does when the run lock is held is stated.
\<close>

text \<open>
  \<^bold>\<open>Bounds and fuel.\<close> Loops of the code are structural recursions or functions with a measure. Fuel
  stands for recursion whose depth the data bounds, and lemmas beside it show that the fuel given is enough:
  the cycle check of \<open>WorkflowChecks\<close> (one unit per step that is not on the path), the recursive descent of
  \<open>ChainParser\<close> (the length of the input), the retry loop (its attempt limit), the pages of \<open>follow_pages\<close> in
  \<open>BrokerMessages\<close> (one per message), \<open>read_pages\<close> of \<open>EventCursor\<close> (a theorem says how many pages suffice). The
  sizes and caps of the code are kept as they are: 50 MB and 50000 events of a live log, 1000 kept by a
  compaction, windows of 4 MB, 5000 events of an answer, 10000 loaded tasks, 1000 markers.

  \<^bold>\<open>Not modelled.\<close> The task runner and the live sessions start processes and sessions of the host agent and
  handle their streams; the worktrees are calls to git; the broker's server and client are sockets; the user
  interface, the prompts and the discovery of agents, skills and teams are rendering, text and file search. What
  the model needs of them is an argument of the definitions. Within modelled parts the logging, the metrics, the
  hooks and the retries of failing writes are left out, as are the timing of the event log's locks and the
  recording of a status change in the event log. The twins of an operation that differ only in being asynchronous
  are modelled once.
\<close>

end
